(* ===== verification/Prelude.thy ===== *)
theory Prelude
  imports Complex_Main "HOL-Library.Multiset" "HOL-Library.Sublist"
begin

section \<open>Shared vocabulary of the development\<close>

text \<open>
  What every component of the model uses: C++ exceptions as values of a sum type, loops whose body
  may throw, \<^verbatim>\<open>size_t\<close> arithmetic on natural numbers with the wrap-around written out, a comparison
  sort with the contract of \<^verbatim>\<open>std::sort\<close>, and the \<open>named_theorems\<close> collections the component
  theories feed.
\<close>

named_theorems op_defs \<open>the defining equations of the operations of a component\<close>
named_theorems inv_intros \<open>operations preserve the invariant of their component\<close>

subsection \<open>Exceptions as values\<close>

text \<open>
  One constructor for each class of exception the modelled sources throw, with its message.
  \<open>Undefined\<close> is not thrown: it marks an execution that reaches undefined behaviour (a null pointer is
  dereferenced, a division by zero, an index out of range), so that its absence can be proved.
\<close>

datatype exn =
    Runtime_error string
  | Invalid_argument string
  | Out_of_range string
  | Length_error string
  | Logic_error string
  | Af_exception string
  | Undefined string

type_synonym 'a result = "exn + 'a"

definition rbind :: "'a result \<Rightarrow> ('a \<Rightarrow> 'b result) \<Rightarrow> 'b result" where
  "rbind m f = (case m of Inl e \<Rightarrow> Inl e | Inr x \<Rightarrow> f x)"

lemma rbind_simps [simp]:
  "rbind (Inl e) f = Inl e"
  "rbind (Inr x) f = f x"
  by (simp_all add: rbind_def)

lemma rbind_eq_Inr_iff: "rbind m f = Inr y \<longleftrightarrow> (\<exists>x. m = Inr x \<and> f x = Inr y)"
  by (cases m) auto

lemma rbind_eq_Inl_iff: "rbind m f = Inl e \<longleftrightarrow> m = Inl e \<or> (\<exists>x. m = Inr x \<and> f x = Inl e)"
  by (cases m) auto

text \<open>A \<^verbatim>\<open>for\<close> loop over a container whose body updates a state and may throw.\<close>

fun rfold :: "('a \<Rightarrow> 's \<Rightarrow> 's result) \<Rightarrow> 'a list \<Rightarrow> 's \<Rightarrow> 's result" where
  "rfold f [] s = Inr s"
| "rfold f (x # xs) s = rbind (f x s) (rfold f xs)"

lemma rfold_append: "rfold f (xs @ ys) s = rbind (rfold f xs s) (rfold f ys)"
  by (induction xs arbitrary: s) (auto simp: rbind_def split: sum.splits)

lemma rfold_invariant:
  assumes "rfold f xs s = Inr s'" and "P s"
    and "\<And>x s s'. x \<in> set xs \<Longrightarrow> P s \<Longrightarrow> f x s = Inr s' \<Longrightarrow> P s'"
  shows "P s'"
  using assms
proof (induction xs arbitrary: s)
  case (Cons x xs)
  then obtain t where "f x s = Inr t" "rfold f xs t = Inr s'"
    by (auto simp: rbind_eq_Inr_iff)
  with Cons show ?case by (metis list.set_intros(1) list.set_intros(2))
qed simp

lemma rfold_upto:
  assumes "I 0 s"
    and "\<And>k s. k < n \<Longrightarrow> I k s \<Longrightarrow> case f (int k) s of Inl e \<Rightarrow> E e | Inr s' \<Rightarrow> I (Suc k) s'"
  shows "case rfold f [0..int n - 1] s of Inl e \<Rightarrow> E e | Inr s' \<Rightarrow> I n s'"
  using assms(2)
proof (induction n)
  case 0
  then show ?case using assms(1) by simp
next
  case (Suc n)
  have split: "[0..int (Suc n) - 1] = [0..int n - 1] @ [int n]" using upto_rec2 [of 0 "int n"] by simp
  show ?case
  proof (cases "rfold f [0..int n - 1] s")
    case (Inl e)
    then show ?thesis using Suc unfolding split rfold_append by simp
  next
    case (Inr s')
    then have "I n s'" using Suc by simp
    then show ?thesis using Suc.prems [of n s'] Inr unfolding split rfold_append by (cases "f (int n) s'") auto
  qed
qed

text \<open>A loop that appends one computed element per item to a result vector, and may throw.\<close>

fun rmap :: "('a \<Rightarrow> 'b result) \<Rightarrow> 'a list \<Rightarrow> 'b list result" where
  "rmap f [] = Inr []"
| "rmap f (x # xs) = rbind (f x) (\<lambda>y. rbind (rmap f xs) (\<lambda>ys. Inr (y # ys)))"

lemma rmap_eq_Inr_iff: "rmap f xs = Inr ys \<longleftrightarrow> list_all2 (\<lambda>x y. f x = Inr y) xs ys"
  by (induction xs arbitrary: ys) (auto simp: rbind_eq_Inr_iff list_all2_Cons1)

lemma rmap_Inr_map: "(\<And>x. x \<in> set xs \<Longrightarrow> f x = Inr (g x)) \<Longrightarrow> rmap f xs = Inr (map g xs)"
  by (induction xs) auto

subsection \<open>\<^verbatim>\<open>size_t\<close> arithmetic\<close>

text \<open>
  A \<^verbatim>\<open>size_t\<close> is a natural number below \<open>2 ^ 64\<close>; addition, subtraction and multiplication wrap
  around as the hardware's do.
\<close>

definition SIZE_MOD :: nat where
  "SIZE_MOD = 2 ^ 64"

definition sz_add :: "nat \<Rightarrow> nat \<Rightarrow> nat" where
  "sz_add a b = (a + b) mod SIZE_MOD"

definition sz_sub :: "nat \<Rightarrow> nat \<Rightarrow> nat" where
  "sz_sub a b = (a + (SIZE_MOD - b)) mod SIZE_MOD"

definition sz_mul :: "nat \<Rightarrow> nat \<Rightarrow> nat" where
  "sz_mul a b = (a * b) mod SIZE_MOD"

definition SIZE_MAX :: nat where
  "SIZE_MAX = SIZE_MOD - 1"

text \<open>The value an \<^verbatim>\<open>int\<close> takes when it is compared with a \<^verbatim>\<open>size_t\<close>.\<close>

definition size_of_int :: "int \<Rightarrow> int" where
  "size_of_int i = i mod 2 ^ 64"

lemma SIZE_MOD_pos [simp]: "0 < SIZE_MOD"
  by (simp add: SIZE_MOD_def)

lemma sz_add_exact [simp]: "a + b < SIZE_MOD \<Longrightarrow> sz_add a b = a + b"
  by (simp add: sz_add_def)

lemma sz_mul_exact [simp]: "a * b < SIZE_MOD \<Longrightarrow> sz_mul a b = a * b"
  by (simp add: sz_mul_def)

lemma sz_sub_exact [simp]:
  assumes "b \<le> a" "a < SIZE_MOD"
  shows "sz_sub a b = a - b"
proof -
  have e: "a + (SIZE_MOD - b) = (a - b) + SIZE_MOD" using assms by simp
  have "sz_sub a b = (a - b) mod SIZE_MOD" unfolding sz_sub_def e by (rule mod_add_self2)
  also have "\<dots> = a - b" using assms by (intro mod_less) simp
  finally show ?thesis .
qed

lemma sz_bounds [simp]: "sz_add a b < SIZE_MOD" "sz_sub a b < SIZE_MOD" "sz_mul a b < SIZE_MOD"
  by (simp_all add: sz_add_def sz_sub_def sz_mul_def)

subsection \<open>Decimal notation\<close>

fun nat_digits :: "nat \<Rightarrow> string" where
  "nat_digits n =
     (if n < 10 then [char_of (48 + n)] else nat_digits (n div 10) @ [char_of (48 + n mod 10)])"

declare nat_digits.simps [simp del]

text \<open>\<^verbatim>\<open>std::to_string(int)\<close>\<close>

definition to_string :: "int \<Rightarrow> string" where
  "to_string i = (if i < 0 then CHR ''-'' # nat_digits (nat (- i)) else nat_digits (nat i))"

subsection \<open>Comparison sorting\<close>

text \<open>
  \<^verbatim>\<open>std::sort\<close> needs a strict weak order on the elements it is given and promises a permutation in
  which no later element compares less than an earlier one. \<open>std_sort\<close> is an implementation of that
  promise by insertion; the components use only the two facts of the contract, which the locale
  below states relative to the set \<open>A\<close> of elements that are compared.
\<close>

fun ins_by :: "('a \<Rightarrow> 'a \<Rightarrow> bool) \<Rightarrow> 'a \<Rightarrow> 'a list \<Rightarrow> 'a list" where
  "ins_by lt x [] = [x]"
| "ins_by lt x (y # ys) = (if lt y x then y # ins_by lt x ys else x # y # ys)"

definition std_sort :: "('a \<Rightarrow> 'a \<Rightarrow> bool) \<Rightarrow> 'a list \<Rightarrow> 'a list" where
  "std_sort lt xs = foldr (ins_by lt) xs []"

lemma mset_ins_by [simp]: "mset (ins_by lt x ys) = add_mset x (mset ys)"
  by (induction ys) auto

lemma set_ins_by [simp]: "set (ins_by lt x ys) = insert x (set ys)"
  by (induction ys) auto

lemma mset_std_sort [simp]: "mset (std_sort lt xs) = mset xs"
  by (induction xs) (auto simp: std_sort_def)

lemma set_std_sort [simp]: "set (std_sort lt xs) = set xs"
  by (metis mset_std_sort set_mset_mset)

lemma length_std_sort [simp]: "length (std_sort lt xs) = length xs"
  by (metis mset_std_sort size_mset)

locale strict_weak_order =
  fixes lt :: "'a \<Rightarrow> 'a \<Rightarrow> bool" and A :: "'a set"
  assumes less_asym: "x \<in> A \<Longrightarrow> y \<in> A \<Longrightarrow> lt x y \<Longrightarrow> \<not> lt y x"
    and not_less_trans:
      "x \<in> A \<Longrightarrow> y \<in> A \<Longrightarrow> z \<in> A \<Longrightarrow> \<not> lt x y \<Longrightarrow> \<not> lt y z \<Longrightarrow> \<not> lt x z"
begin

lemma sorted_ins_by:
  assumes "insert x (set ys) \<subseteq> A" and "sorted_wrt (\<lambda>a b. \<not> lt b a) ys"
  shows "sorted_wrt (\<lambda>a b. \<not> lt b a) (ins_by lt x ys)"
  using assms
proof (induction ys)
  case (Cons y ys)
  show ?case
  proof (cases "lt y x")
    case True
    with Cons show ?thesis by (auto dest: less_asym)
  next
    case False
    have "\<not> lt z x" if "z \<in> set ys" for z
      using Cons.prems False that not_less_trans [of z y x] by auto
    with Cons.prems False show ?thesis by auto
  qed
qed simp

lemma sorted_std_sort:
  "set xs \<subseteq> A \<Longrightarrow> sorted_wrt (\<lambda>a b. \<not> lt b a) (std_sort lt xs)"
proof (induction xs)
  case (Cons x xs)
  have "insert x (set (std_sort lt xs)) \<subseteq> A" using Cons.prems by simp
  then have "sorted_wrt (\<lambda>a b. \<not> lt b a) (ins_by lt x (std_sort lt xs))"
    using Cons by (intro sorted_ins_by) auto
  then show ?case by (simp add: std_sort_def)
qed (simp add: std_sort_def)

end

subsection \<open>Lists\<close>

lemma sorted_wrt_related: "sorted_wrt P xs \<Longrightarrow> x \<in> set xs \<Longrightarrow> y \<in> set xs \<Longrightarrow> x = y \<or> P x y \<or> P y x"
  by (induction xs) auto

lemma takeWhile_whole: "\<not> length (takeWhile P xs) < length xs \<Longrightarrow> takeWhile P xs = xs"
  by (metis length_takeWhile_le linorder_not_less order_antisym takeWhile_eq_take take_all_iff)

lemma concat_map_map: "concat (map (\<lambda>x. map f (g x)) xs) = map f (concat (map g xs))"
  by (induction xs) auto

lemma take_drop_split: "i \<le> j \<Longrightarrow> drop i xs = take (j - i) (drop i xs) @ drop j xs"
  by (metis append_take_drop_id drop_drop le_add_diff_inverse2)

end
