(* ===== verification/Strings.thy ===== *)
theory Strings
  imports Prelude
begin

section \<open>String utilities (\<^verbatim>\<open>lib/common/String.h\<close>, \<^verbatim>\<open>lib/common/String.cpp\<close>)\<close>

text \<open>
  A \<^verbatim>\<open>std::string\<close> is a list of characters, a position a natural number, \<^verbatim>\<open>npos\<close> is \<open>None\<close>. The searches
  of \<^verbatim>\<open>std::string\<close> the code uses come first, then the functions of the file in its order. The lemmas
  relate the position-based loops to a recursion on the unread suffix (\<open>pieces\<close>), from which the
  round trip of \<open>split\<close> and \<open>join\<close>, the meaning of \<open>replaceAll\<close> and the shape of the tokens follow.
\<close>

subsection \<open>Searches of \<^verbatim>\<open>std::string\<close>\<close>

definition find_first_not_of :: "string \<Rightarrow> string \<Rightarrow> nat option" where
  "find_first_not_of s chars =
     (let n = length (takeWhile (\<lambda>c. c \<in> set chars) s) in if n < length s then Some n else None)"

definition find_last_not_of :: "string \<Rightarrow> string \<Rightarrow> nat option" where
  "find_last_not_of s chars =
     (let n = length (takeWhile (\<lambda>c. c \<in> set chars) (rev s))
      in if n < length s then Some (length s - 1 - n) else None)"

definition find_first_of :: "string \<Rightarrow> string \<Rightarrow> nat \<Rightarrow> nat option" where
  "find_first_of s chars i =
     (let n = i + length (takeWhile (\<lambda>c. c \<notin> set chars) (drop i s))
      in if n < length s then Some n else None)"

text \<open>\<open>find_at pat s i\<close> searches the suffix \<open>s\<close>, which starts at position \<open>i\<close> of the whole string.\<close>

fun find_at :: "string \<Rightarrow> string \<Rightarrow> nat \<Rightarrow> nat option" where
  "find_at pat [] i = (if pat = [] then Some i else None)"
| "find_at pat (c # s) i = (if prefix pat (c # s) then Some i else find_at pat s (Suc i))"

definition str_find :: "string \<Rightarrow> string \<Rightarrow> nat \<Rightarrow> nat option" where
  "str_find s pat i = (if length s < i then None else find_at pat (drop i s) i)"

subsection \<open>The functions of the file\<close>

definition kSpaceChars :: string where
  "kSpaceChars = [CHR 0x09, CHR 0x0A, CHR 0x0B, CHR 0x0C, CHR 0x0D, CHR 0x20]"

definition trim :: "string \<Rightarrow> string" where
  "trim str =
     (case find_first_not_of str kSpaceChars of
        None \<Rightarrow> []
      | Some i \<Rightarrow>
          (case find_last_not_of str kSpaceChars of
             None \<Rightarrow> []
           | Some j \<Rightarrow> if j < i then [] else take (j - i + 1) (drop i str)))"

text \<open>
  A search pattern of \<open>replaceAll\<close> and \<open>split\<close> is empty (refused by both) or has a first character;
  the latter is what the loops receive.
\<close>

lemma find_at_bounds:
  "find_at (c # cs) s i = Some j \<Longrightarrow>
     i \<le> j \<and> j + Suc (length cs) \<le> i + length s \<and> prefix (c # cs) (drop (j - i) s)"
proof (induction "c # cs" s i rule: find_at.induct)
  case (2 c' s i)
  show ?case
  proof (cases "prefix (c # cs) (c' # s)")
    case True
    then have "length (c # cs) \<le> length (c' # s)" by (rule prefix_length_le)
    with True 2 show ?thesis by auto
  next
    case False
    with 2 have "find_at (c # cs) s (Suc i) = Some j" by (auto split: if_splits)
    with 2 False have "Suc i \<le> j \<and> j + Suc (length cs) \<le> Suc i + length s \<and>
      prefix (c # cs) (drop (j - Suc i) s)" by blast
    moreover from this have "j - i = Suc (j - Suc i)" by (elim conjE) linarith
    then have "drop (j - i) (c' # s) = drop (j - Suc i) s" by simp
    ultimately show ?thesis by (simp del: drop_Suc_Cons)
  qed
qed simp

lemma str_find_bounds:
  "str_find s (c # cs) i = Some j \<Longrightarrow> i \<le> j \<and> j + Suc (length cs) \<le> length s"
  by (auto simp: str_find_def dest: find_at_bounds split: if_splits)

function replaceAll_loop :: "char \<Rightarrow> string \<Rightarrow> string \<Rightarrow> string \<Rightarrow> nat \<Rightarrow> string" where
  "replaceAll_loop c cs repl str pos =
     (case str_find str (c # cs) pos of
        None \<Rightarrow> str
      | Some p \<Rightarrow>
          replaceAll_loop c cs repl (take p str @ repl @ drop (p + Suc (length cs)) str)
            (p + length repl))"
  by pat_completeness auto
termination
  by (relation "measure (\<lambda>(c, cs, repl, str, pos). length str - pos)")
    (auto dest!: str_find_bounds)

declare replaceAll_loop.simps [simp del]

definition replaceAll :: "string \<Rightarrow> string \<Rightarrow> string \<Rightarrow> string" where
  "replaceAll str from repl =
     (case from of [] \<Rightarrow> str | c # cs \<Rightarrow> replaceAll_loop c cs repl str 0)"

definition startsWith :: "string \<Rightarrow> string \<Rightarrow> bool" where
  "startsWith input pattern \<longleftrightarrow> str_find input pattern 0 = Some 0"

definition endsWith :: "string \<Rightarrow> string \<Rightarrow> bool" where
  "endsWith input pattern =
     (if length input < length pattern then False
      else take (length pattern) (rev input) = rev pattern)"

text \<open>
  The two instances of the template \<^verbatim>\<open>splitImpl<Any, Delim>\<close>: \<open>Any_of\<close> for \<^verbatim>\<open>find_first_of\<close>, \<open>Literal\<close>
  for \<^verbatim>\<open>find\<close> with the non-empty delimiter its callers pass (a single character is \<open>Literal c []\<close>).
\<close>

datatype delim = Any_of string | Literal char string

fun delimSize :: "delim \<Rightarrow> nat" where
  "delimSize (Any_of _) = 1"
| "delimSize (Literal c cs) = Suc (length cs)"

fun next_delim :: "delim \<Rightarrow> string \<Rightarrow> nat \<Rightarrow> nat option" where
  "next_delim (Any_of cs) input i = find_first_of input cs i"
| "next_delim (Literal c cs) input i = str_find input (c # cs) i"

lemma next_delim_bounds: "next_delim d input i = Some j \<Longrightarrow> i \<le> j \<and> j + delimSize d \<le> length input"
  by (cases d) (auto simp: find_first_of_def Let_def dest: str_find_bounds split: if_splits)

lemma delimSize_pos: "0 < delimSize d"
  by (cases d) auto

function splitImpl :: "delim \<Rightarrow> string \<Rightarrow> bool \<Rightarrow> nat \<Rightarrow> string list \<Rightarrow> string list" where
  "splitImpl d input ignoreEmpty i result =
     (case next_delim d input i of
        None \<Rightarrow>
          (if \<not> (ignoreEmpty \<and> i = length input) then result @ [drop i input] else result)
      | Some j \<Rightarrow>
          splitImpl d input ignoreEmpty (j + delimSize d)
            (if \<not> (ignoreEmpty \<and> i = j) then result @ [take (j - i) (drop i input)] else result))"
  by pat_completeness auto
termination
proof (relation "measure (\<lambda>(d, input, ign, i, result). length input - i)", goal_cases)
  case (2 d input ign i result j)
  then have "i \<le> j" "j + delimSize d \<le> length input" using next_delim_bounds by blast+
  moreover from this have "i < j + delimSize d" using delimSize_pos [of d] by linarith
  ultimately show ?case by simp
qed simp

declare splitImpl.simps [simp del]

definition split_char :: "char \<Rightarrow> string \<Rightarrow> bool \<Rightarrow> string list" where
  "split_char c input ignoreEmpty = splitImpl (Literal c []) input ignoreEmpty 0 []"

definition split_str :: "string \<Rightarrow> string \<Rightarrow> bool \<Rightarrow> string list result" where
  "split_str delim input ignoreEmpty =
     (case delim of
        [] \<Rightarrow> Inl (Invalid_argument ''delimiter is empty string'')
      | c # cs \<Rightarrow> Inr (splitImpl (Literal c cs) input ignoreEmpty 0 []))"

definition splitOnAnyOf :: "string \<Rightarrow> string \<Rightarrow> bool \<Rightarrow> string list" where
  "splitOnAnyOf delim input ignoreEmpty = splitImpl (Any_of delim) input ignoreEmpty 0 []"

definition splitOnWhitespace :: "string \<Rightarrow> bool \<Rightarrow> string list" where
  "splitOnWhitespace input ignoreEmpty = splitOnAnyOf kSpaceChars input ignoreEmpty"

text \<open>The template \<^verbatim>\<open>join(delim, begin, end)\<close>: the size it reserves, then the appending loop.\<close>

fun join_totalSize :: "string \<Rightarrow> string list \<Rightarrow> nat \<Rightarrow> nat" where
  "join_totalSize delim [] tot = tot"
| "join_totalSize delim (x # xs) tot = join_totalSize delim xs (tot + (length delim + length x))"

fun join_loop :: "string \<Rightarrow> string list \<Rightarrow> string \<Rightarrow> string" where
  "join_loop delim [] result = result"
| "join_loop delim (x # xs) result = join_loop delim xs ((result @ delim) @ x)"

fun join :: "string \<Rightarrow> string list \<Rightarrow> string" where
  "join delim [] = []"
| "join delim (x # xs) = join_loop delim xs ([] @ x)"

text \<open>\<^verbatim>\<open>dedup\<close>: \<^verbatim>\<open>std::unique\<close> keeps the first element of every run of equal elements.\<close>

definition dedup :: "'a list \<Rightarrow> 'a list" where
  "dedup xs = (if xs = [] then xs else remdups_adj xs)"

subsection \<open>The loops as recursion on the unread suffix\<close>

lemma find_at_shift: "find_at pat s i = map_option ((+) i) (find_at pat s 0)"
proof (induction s arbitrary: i)
  case (Cons c s)
  have "map_option ((+) (Suc i)) (find_at pat s 0) = map_option ((+) i) (find_at pat s (Suc 0))"
    unfolding Cons [of "Suc 0"] option.map_comp by (rule option.map_cong) auto
  then show ?case unfolding find_at.simps(2) Cons [of "Suc i"] by simp
qed simp

lemma next_delim_shift:
  assumes "i \<le> length input"
  shows "next_delim d input i = map_option ((+) i) (next_delim d (drop i input) 0)"
proof (cases d)
  case (Any_of cs)
  then show ?thesis using assms by (auto simp: find_first_of_def Let_def)
next
  case (Literal c cs)
  then show ?thesis using assms find_at_shift [of "c # cs" "drop i input" i]
    by (simp add: str_find_def)
qed

function pieces :: "delim \<Rightarrow> string \<Rightarrow> string list" where
  "pieces d s =
     (case next_delim d s 0 of None \<Rightarrow> [s] | Some j \<Rightarrow> take j s # pieces d (drop (j + delimSize d) s))"
  by pat_completeness auto
termination
proof (relation "measure (\<lambda>(d, s). length s)", goal_cases)
  case (2 d s j)
  then have "j + delimSize d \<le> length s" using next_delim_bounds by blast
  moreover have "0 < j + delimSize d" using delimSize_pos [of d] by linarith
  ultimately have "length s - (j + delimSize d) < length s" by linarith
  then show ?case by simp
qed simp

declare pieces.simps [simp del]

lemma splitImpl_pieces:
  "i \<le> length input \<Longrightarrow>
   splitImpl d input ign i result =
     result @ (if ign then filter (\<lambda>p. p \<noteq> []) else id) (pieces d (drop i input))"
proof (induction d input ign i result rule: splitImpl.induct)
  case (1 d input ign i result)
  show ?case
  proof (cases "next_delim d input i")
    case None
    then have "next_delim d (drop i input) 0 = None"
      using 1(2) next_delim_shift [of i input d] by simp
    then show ?thesis
      unfolding splitImpl.simps [of d input ign i result] pieces.simps [of d "drop i input"]
      using None 1(2) by auto
  next
    case (Some j)
    then obtain k where k: "next_delim d (drop i input) 0 = Some k" "j = i + k"
      using 1(2) next_delim_shift [of i input d] by (auto dest!: sym [of "Some j"])
    have j: "i \<le> j" "j + delimSize d \<le> length input"
      using next_delim_bounds [OF Some] by auto
    have d: "drop (k + delimSize d) (drop i input) = drop (j + delimSize d) input"
      using k(2) by (simp add: add.commute add.left_commute)
    let ?r = "if \<not> (ign \<and> i = j) then result @ [take (j - i) (drop i input)] else result"
    have s: "splitImpl d input ign i result = splitImpl d input ign (j + delimSize d) ?r"
      unfolding splitImpl.simps [of d input ign i result] Some option.case ..
    have p: "pieces d (drop i input) = take (j - i) (drop i input) # pieces d (drop (j + delimSize d) input)"
      unfolding pieces.simps [of d "drop i input"] k(1) option.case d using k(2) by simp
    have e: "(take (j - i) (drop i input) = []) = (i = j)"
      using j delimSize_pos [of d] by auto
    show ?thesis unfolding s 1(1) [OF Some j(2)] p using e by (cases ign) auto
  qed
qed

lemma pieces_nonempty [simp]: "pieces d s \<noteq> []"
  by (subst pieces.simps) (simp split: option.split)

lemma join_loop_append: "join_loop dl xs (a @ r) = a @ join_loop dl xs r"
  by (induction xs arbitrary: r) auto

lemma join_Cons: "join dl (x # xs) = x @ (if xs = [] then [] else dl @ join dl xs)"
proof (cases xs)
  case (Cons y ys)
  then show ?thesis using join_loop_append [of dl ys "x @ dl" y] by simp
qed simp

lemma length_join: "length (join dl (x # xs)) = join_totalSize dl xs (length x)"
proof -
  have "length (join_loop dl xs r) = join_totalSize dl xs (length r)" for r
    by (induction xs arbitrary: r) (auto simp: add.assoc)
  then show ?thesis by simp
qed

lemma take_prefix_drop:
  assumes "prefix p (drop j s)" "j \<le> length s"
  shows "s = take j s @ p @ drop (j + length p) s"
proof -
  obtain r where r: "drop j s = p @ r" using assms(1) by (auto simp: prefix_def)
  then have "drop (j + length p) s = r" by (metis add.commute append_eq_conv_conj drop_drop)
  with r show ?thesis by (metis append_take_drop_id)
qed

lemma join_pieces: "join (c # cs) (pieces (Literal c cs) s) = s"
proof (induction "Literal c cs" s rule: pieces.induct)
  case (1 s)
  show ?case
  proof (cases "next_delim (Literal c cs) s 0")
    case None
    then show ?thesis by (simp add: pieces.simps [of "Literal c cs" s] join_Cons)
  next
    case (Some j)
    then have f: "find_at (c # cs) s 0 = Some j" by (simp add: str_find_def)
    have "s = take j s @ (c # cs) @ drop (j + length (c # cs)) s"
      using find_at_bounds [OF f] by (intro take_prefix_drop) auto
    moreover have "join (c # cs) (pieces (Literal c cs) (drop (j + Suc (length cs)) s)) =
        drop (j + Suc (length cs)) s"
      using 1 [OF Some] by simp
    ultimately show ?thesis using Some
      by (simp add: pieces.simps [of "Literal c cs" s] join_Cons del: join.simps)
  qed
qed

lemma replaceAll_loop_pieces:
  "pos \<le> length str \<Longrightarrow>
   replaceAll_loop c cs repl str pos =
     take pos str @ join repl (pieces (Literal c cs) (drop pos str))"
proof (induction c cs repl str pos rule: replaceAll_loop.induct)
  case (1 c cs repl str pos)
  let ?d = "Literal c cs"
  show ?case
  proof (cases "str_find str (c # cs) pos")
    case None
    then have "next_delim ?d (drop pos str) 0 = None"
      using 1(2) next_delim_shift [of pos str ?d] by simp
    then show ?thesis using None
      by (simp add: replaceAll_loop.simps [of c cs repl str pos] pieces.simps [of ?d "drop pos str"]
          join_Cons)
  next
    case (Some p)
    then obtain k where k: "next_delim ?d (drop pos str) 0 = Some k" "p = pos + k"
      using 1(2) next_delim_shift [of pos str ?d] by (auto simp: map_option_eq_Some dest!: sym [of "Some p"])
    have p: "pos \<le> p" "p + Suc (length cs) \<le> length str"
      using str_find_bounds [OF Some] by auto
    have d: "drop (k + delimSize ?d) (drop pos str) = drop (p + Suc (length cs)) str"
      using k(2) by (simp add: add.commute add.left_commute)
    have t: "take p str = take pos str @ take k (drop pos str)"
      using k(2) by (simp add: take_add)
    let ?str' = "take p str @ repl @ drop (p + Suc (length cs)) str"
    have "replaceAll_loop c cs repl ?str' (p + length repl) =
        take (p + length repl) ?str' @ join repl (pieces ?d (drop (p + length repl) ?str'))"
      using p by (intro 1(1) [OF Some]) simp
    also have "\<dots> = take p str @ repl @ join repl (pieces ?d (drop (p + Suc (length cs)) str))"
      using p by simp
    finally show ?thesis
      unfolding replaceAll_loop.simps [of c cs repl str pos] pieces.simps [of ?d "drop pos str"]
      using k(1) d t Some by (simp add: join_Cons del: join.simps)
  qed
qed

subsection \<open>Tokens between delimiter characters\<close>

lemma pieces_Any_of_chars: "p \<in> set (pieces (Any_of cs) s) \<Longrightarrow> c \<in> set p \<Longrightarrow> c \<notin> set cs"
proof (induction "Any_of cs" s rule: pieces.induct)
  case (1 s)
  let ?w = "takeWhile (\<lambda>c. c \<notin> set cs) s"
  show ?case
  proof (cases "next_delim (Any_of cs) s 0")
    case None
    then have "?w = s"
      by (intro takeWhile_whole) (auto simp: find_first_of_def Let_def split: if_splits)
    moreover have "p = s" using None 1(2) by (simp add: pieces.simps [of "Any_of cs" s])
    ultimately show ?thesis using 1(3) by (metis set_takeWhileD)
  next
    case (Some j)
    then have j: "j = length ?w" by (auto simp: find_first_of_def Let_def split: if_splits)
    have "p = take j s \<or> p \<in> set (pieces (Any_of cs) (drop (j + 1) s))"
      using Some 1(2) by (simp add: pieces.simps [of "Any_of cs" s])
    then show ?thesis
    proof
      assume "p = take j s"
      then have "p = ?w" using j by (metis takeWhile_eq_take)
      with 1(3) show ?thesis by (metis set_takeWhileD)
    next
      assume "p \<in> set (pieces (Any_of cs) (drop (j + 1) s))"
      with 1(1) [OF Some] 1(3) show ?thesis by simp
    qed
  qed
qed

lemma concat_pieces_Any_of: "concat (pieces (Any_of cs) s) = filter (\<lambda>c. c \<notin> set cs) s"
proof (induction "Any_of cs" s rule: pieces.induct)
  case (1 s)
  let ?P = "\<lambda>c. c \<notin> set cs"
  show ?case
  proof (cases "next_delim (Any_of cs) s 0")
    case None
    then have "takeWhile ?P s = s"
      by (intro takeWhile_whole) (auto simp: find_first_of_def Let_def split: if_splits)
    then have "filter ?P s = s" by (simp add: filter_id_conv takeWhile_eq_all_conv)
    with None show ?thesis by (simp add: pieces.simps [of "Any_of cs" s])
  next
    case (Some j)
    then have j: "j = length (takeWhile ?P s)" "j < length s"
      by (auto simp: find_first_of_def Let_def split: if_splits)
    have "s = takeWhile ?P s @ s ! j # drop (j + 1) s"
      using j by (metis Suc_eq_plus1 append_take_drop_id Cons_nth_drop_Suc takeWhile_eq_take)
    moreover have "s ! j \<in> set cs" using j nth_length_takeWhile [of ?P s] by simp
    moreover have "take j s = takeWhile ?P s" using j by (metis takeWhile_eq_take)
    ultimately have "filter ?P s = take j s @ filter ?P (drop (j + 1) s)"
      using filter_append [of ?P "takeWhile ?P s" "s ! j # drop (j + 1) s"]
      by (metis (no_types, lifting) filter.simps(2) filter_True set_takeWhileD)
    then show ?thesis using 1 [OF Some] Some by (simp add: pieces.simps [of "Any_of cs" s])
  qed
qed

lemma takeWhile_append_stop: "\<not> P c \<Longrightarrow> takeWhile P (a @ c # b) = takeWhile P a"
  by (induction a) auto

lemma pieces_Any_of_append:
  assumes "c \<in> set cs"
  shows "pieces (Any_of cs) (a @ c # b) = pieces (Any_of cs) a @ pieces (Any_of cs) b"
proof (induction "Any_of cs" a rule: pieces.induct)
  case (1 a)
  let ?n = "length (takeWhile (\<lambda>c. c \<notin> set cs) a)"
  have n: "length (takeWhile (\<lambda>c. c \<notin> set cs) (a @ c # b)) = ?n"
    using assms by (simp add: takeWhile_append_stop)
  have le: "?n \<le> length a" by (rule length_takeWhile_le)
  have lhs: "pieces (Any_of cs) (a @ c # b) =
      take ?n (a @ c # b) # pieces (Any_of cs) (drop (?n + 1) (a @ c # b))"
    using le by (subst pieces.simps) (simp add: find_first_of_def Let_def n)
  show ?case
  proof (cases "next_delim (Any_of cs) a 0")
    case None
    then have "?n = length a" using le by (auto simp: find_first_of_def Let_def split: if_splits)
    then show ?thesis unfolding lhs using None by (simp add: pieces.simps [of "Any_of cs" a])
  next
    case (Some j)
    then have j: "j = ?n" "j < length a" by (auto simp: find_first_of_def Let_def split: if_splits)
    then have "pieces (Any_of cs) (drop (?n + 1) (a @ c # b)) =
        pieces (Any_of cs) (drop (?n + 1) a) @ pieces (Any_of cs) b"
      using 1 [OF Some] by simp
    then show ?thesis unfolding lhs using Some j by (simp add: pieces.simps [of "Any_of cs" a])
  qed
qed

lemma splitOnWhitespace_pieces:
  "splitOnWhitespace input ign =
     (if ign then filter (\<lambda>p. p \<noteq> []) else id) (pieces (Any_of kSpaceChars) input)"
  by (simp add: splitOnWhitespace_def splitOnAnyOf_def splitImpl_pieces)

lemma pieces_no_delim:
  assumes "set s \<inter> set cs = {}"
  shows "pieces (Any_of cs) s = [s]"
proof -
  have "takeWhile (\<lambda>c. c \<notin> set cs) s = s" using assms by (auto simp: takeWhile_eq_all_conv)
  then have "next_delim (Any_of cs) s 0 = None" by (simp add: find_first_of_def del: takeWhile_eq_all_conv)
  then show ?thesis by (subst pieces.simps) simp
qed

subsection \<open>What the functions mean\<close>

lemma startsWith_iff_prefix: "startsWith input pattern \<longleftrightarrow> prefix pattern input"
proof -
  have "find_at pattern s (Suc i) \<noteq> Some i" for s i
    using find_at_shift [of pattern s "Suc i"] by auto
  then show ?thesis by (cases input) (auto simp: startsWith_def str_find_def split: if_splits)
qed

lemma endsWith_iff_suffix: "endsWith input pattern \<longleftrightarrow> suffix pattern input"
proof -
  have "take (length pattern) (rev input) = rev pattern \<longleftrightarrow> prefix (rev pattern) (rev input)"
    by (metis append_eq_conv_conj append_take_drop_id length_rev prefix_def)
  moreover have "suffix pattern input \<Longrightarrow> length pattern \<le> length input"
    by (rule suffix_length_le)
  ultimately show ?thesis by (auto simp: endsWith_def suffix_to_prefix)
qed

text \<open>\<open>trim\<close> removes exactly the white space at both ends.\<close>

lemma trim_decompose:
  "\<exists>l r. str = l @ trim str @ r \<and> set l \<subseteq> set kSpaceChars \<and> set r \<subseteq> set kSpaceChars \<and>
     (trim str = [] \<or> hd (trim str) \<notin> set kSpaceChars \<and> last (trim str) \<notin> set kSpaceChars)"
proof -
  let ?P = "\<lambda>c. c \<in> set kSpaceChars"
  let ?i = "length (takeWhile ?P str)" and ?n = "length (takeWhile ?P (rev str))"
  show ?thesis
  proof (cases "?i < length str")
    case False
    then have "takeWhile ?P str = str" by (rule takeWhile_whole)
    then have "set str \<subseteq> set kSpaceChars" by (auto simp: takeWhile_eq_all_conv)
    moreover have "trim str = []" using False by (simp add: trim_def find_first_not_of_def)
    ultimately show ?thesis by (intro exI [of _ str] exI [of _ "[]"]) simp
  next
    case True
    have ci: "\<not> ?P (str ! ?i)" using True nth_length_takeWhile by fastforce
    have n: "?n < length str"
    proof (rule ccontr)
      assume "\<not> ?n < length str"
      then have "takeWhile ?P (rev str) = rev str" by (intro takeWhile_whole) simp
      then have "set (rev str) \<subseteq> {c. ?P c}" by (auto simp: takeWhile_eq_all_conv)
      then show False using ci True nth_mem by fastforce
    qed
    define j where "j = length str - 1 - ?n"
    have j: "j < length str" "length str - Suc j = ?n" using n by (auto simp: j_def)
    have cj: "\<not> ?P (str ! j)"
      using n nth_length_takeWhile [of ?P "rev str"] by (simp add: rev_nth j_def)
    have ij: "?i \<le> j"
    proof (rule ccontr)
      assume "\<not> ?i \<le> j"
      then have "str ! j \<in> set (takeWhile ?P str)" by (metis linorder_not_le nth_mem takeWhile_nth)
      then show False using cj set_takeWhileD by fast
    qed
    then have t: "trim str = take (j - ?i + 1) (drop ?i str)"
      using True n by (simp add: trim_def find_first_not_of_def find_last_not_of_def j_def Let_def)
    let ?r = "drop (Suc j) str"
    have "rev ?r = takeWhile ?P (rev str)"
      using j(2) by (metis rev_drop takeWhile_eq_take)
    then have r: "set ?r \<subseteq> set kSpaceChars" by (metis set_rev set_takeWhileD subsetI)
    have l: "set (take ?i str) \<subseteq> set kSpaceChars"
      by (metis set_takeWhileD subsetI takeWhile_eq_take)
    have "drop ?i str = trim str @ ?r"
      unfolding t using ij take_drop_split [of ?i "Suc j" str] by (simp add: Suc_diff_le)
    then have s: "str = take ?i str @ trim str @ ?r" by (metis append_take_drop_id)
    have hd: "hd (trim str) = str ! ?i"
      unfolding t using True by (simp add: hd_take hd_drop_conv_nth)
    have "last (trim str) = str ! j"
    proof -
      have "j - ?i < length (drop ?i str)" using ij j(1) by simp
      then show ?thesis unfolding t using ij j(1) by (simp add: take_Suc_conv_app_nth)
    qed
    then show ?thesis using s l r hd ci cj by metis
  qed
qed

text \<open>
  Splitting at a non-empty delimiter and joining with the same delimiter gives the input back;
  the empty delimiter is refused with \<^verbatim>\<open>std::invalid_argument\<close>. No piece is lost, duplicated or
  reordered, and the loop ends on every input.
\<close>

theorem split_join_roundtrip:
  "(case split_str delim input False of
      Inl e \<Rightarrow> delim = [] \<and> e = Invalid_argument ''delimiter is empty string''
    | Inr ps \<Rightarrow> delim \<noteq> [] \<and> join delim ps = input)"
  by (cases delim) (simp_all add: split_str_def splitImpl_pieces join_pieces)

text \<open>
  \<open>replaceAll\<close> replaces every non-overlapping occurrence, scanned from the left and never inside
  replacement text: its in-place loop computes the join, with the replacement, of the pieces that
  \<open>split\<close> finds, for every replacement (also one that contains the pattern).
\<close>

theorem replaceAll_join_split:
  assumes "split_str pat str False = Inr ps"
  shows "replaceAll str pat repl = join repl ps"
  using assms
  by (cases pat)
    (auto simp: split_str_def replaceAll_def splitImpl_pieces replaceAll_loop_pieces)

theorem replaceAll_join_split_witness:
  "split_str ''aa'' ''xaaaay'' False = Inr [''x'', [], ''y''] \<and>
   replaceAll ''xaaaay'' ''aa'' ''aab'' = join ''aab'' [''x'', [], ''y'']"
proof -
  have s: "split_str ''aa'' ''xaaaay'' False = Inr [''x'', [], ''y'']"
    by code_simp
  show ?thesis using s replaceAll_join_split [OF s] by simp
qed

text \<open>
  White-space tokenisation: a white-space character is a boundary (the tokens of the text before
  it, then those of the text after it), a text without white space is one token, and with
  \<^verbatim>\<open>ignoreEmpty\<close> exactly the empty tokens are missing.
\<close>

theorem splitOnWhitespace_tokens:
  "splitOnWhitespace input True = filter (\<lambda>t. t \<noteq> []) (splitOnWhitespace input False) \<and>
   concat (splitOnWhitespace input ign) = filter (\<lambda>c. c \<notin> set kSpaceChars) input \<and>
   (c \<in> set kSpaceChars \<longrightarrow>
      splitOnWhitespace (a @ c # b) ign = splitOnWhitespace a ign @ splitOnWhitespace b ign) \<and>
   (set a \<inter> set kSpaceChars = {} \<longrightarrow> splitOnWhitespace a False = [a])"
proof -
  have "concat (filter (\<lambda>p. p \<noteq> []) ps) = concat ps" for ps :: "string list"
    by (induction ps) auto
  then show ?thesis
    by (simp add: splitOnWhitespace_pieces concat_pieces_Any_of pieces_Any_of_append pieces_no_delim)
qed

theorem splitOnWhitespace_tokens_witness:
  "CHR '' '' \<in> set kSpaceChars \<and>
   splitOnWhitespace (''ab'' @ CHR '' '' # ''c'') True =
     splitOnWhitespace ''ab'' True @ splitOnWhitespace ''c'' True \<and>
   set ''ab'' \<inter> set kSpaceChars = {} \<and> splitOnWhitespace ''ab'' False = [''ab'']"
  using splitOnWhitespace_tokens [of "[]" True "CHR '' ''" "''ab''" "''c''"]
  by (simp add: kSpaceChars_def)

end
