(* ===== verification/SystemIO.thy ===== *)
theory SystemIO
  imports Strings
begin

section \<open>Input streams and paths (\<^verbatim>\<open>lib/common/System.cpp\<close>)\<close>

text \<open>
  An open \<^verbatim>\<open>std::ifstream\<close> is the file's bytes, the read position and the two error bits the code
  depends on. \<open>getline\<close>, \<open>seekg\<close> and \<open>tellg\<close> follow the C++ standard: each constructs a sentry, which
  sets \<open>failbit\<close> on a stream that is not good, so that \<open>tellg\<close> after the end of file has been reached
  fails and \<open>seekg\<close> on a failed stream does nothing. A file system is a map from names to contents.
\<close>

record istream =
  buf :: string
  pos :: nat
  eofbit :: bool
  failbit :: bool

definition good :: "istream \<Rightarrow> bool" where
  "good s \<longleftrightarrow> \<not> eofbit s \<and> \<not> failbit s"

definition sentry :: "istream \<Rightarrow> istream" where
  "sentry s = (if good s then s else s\<lparr>failbit := True\<rparr>)"

definition newline :: char where
  "newline = CHR 0x0A"

text \<open>\<^verbatim>\<open>std::getline(stream, line)\<close>: the new value of \<open>line\<close> and the stream.\<close>

definition getline :: "istream \<Rightarrow> string \<Rightarrow> string \<times> istream" where
  "getline s line =
     (if \<not> good s then (line, sentry s)
      else let rest = drop (pos s) (buf s); w = takeWhile (\<lambda>c. c \<noteq> newline) rest in
        if length w < length rest then (w, s\<lparr>pos := pos s + length w + 1\<rparr>)
        else (w, s\<lparr>pos := pos s + length w, eofbit := True, failbit := (rest = [])\<rparr>))"

definition seekg :: "istream \<Rightarrow> nat \<Rightarrow> istream" where
  "seekg s off =
     (let s1 = sentry (s\<lparr>eofbit := False\<rparr>) in if failbit s1 then s1 else s1\<lparr>pos := off\<rparr>)"

text \<open>\<^verbatim>\<open>tellg\<close> returns \<open>-1\<close> on a failed stream, which is \<open>SIZE_MAX\<close> once stored in a \<^verbatim>\<open>size_t\<close>.\<close>

definition tellg :: "istream \<Rightarrow> nat \<times> istream" where
  "tellg s = (let s1 = sentry s in (if failbit s1 then SIZE_MAX else pos s1, s1))"

subsection \<open>Opening and reading whole files\<close>

type_synonym filesystem = "string \<Rightarrow> string option"

definition createInputStream :: "filesystem \<Rightarrow> string \<Rightarrow> istream result" where
  "createInputStream fs filename =
     (case fs filename of
        None \<Rightarrow> Inl (Runtime_error (''Failed to open file for reading: '' @ filename))
      | Some content \<Rightarrow> Inr \<lparr>buf = content, pos = 0, eofbit = False, failbit = False\<rparr>)"

text \<open>
  \<^verbatim>\<open>while (std::getline(in, str)) data.emplace_back(str)\<close>. What is left to read gets shorter, or the end
  of file is reached, with every line.
\<close>

definition to_read :: "istream \<Rightarrow> nat" where
  "to_read s = (length (buf s) - pos s) + (if eofbit s then 0 else 1)"

lemma getline_decreases:
  assumes "getline s line = (l, t)" "\<not> failbit t"
  shows "to_read t < to_read s"
proof -
  let ?rest = "drop (pos s) (buf s)"
  let ?n = "length (takeWhile (\<lambda>c. c \<noteq> newline) ?rest)"
  have g: "good s" using assms by (auto simp: getline_def sentry_def split: if_splits)
  have "?n \<le> length ?rest" by (rule length_takeWhile_le)
  with g assms show ?thesis
    by (auto simp: getline_def to_read_def good_def Let_def split: if_splits)
qed

function getline_loop :: "istream \<Rightarrow> string \<Rightarrow> string list \<Rightarrow> string list" where
  "getline_loop s str data =
     (let (l, t) = getline s str in if failbit t then data else getline_loop t l (data @ [l]))"
  by pat_completeness auto
termination
  by (relation "measure (\<lambda>(s, str, data). to_read s)") (auto intro: getline_decreases [OF sym])

declare getline_loop.simps [simp del]

definition getFileContent :: "filesystem \<Rightarrow> string \<Rightarrow> string list result" where
  "getFileContent fs file = rbind (createInputStream fs file) (\<lambda>s. Inr (getline_loop s [] []))"

subsection \<open>Lines of a text\<close>

text \<open>
  The reference: the maximal newline-free pieces of a text, without the empty one after a final
  newline.
\<close>

fun text_lines :: "string \<Rightarrow> string list" where
  "text_lines [] = []"
| "text_lines (c # s) =
     (if c = newline then [] # text_lines s
      else case text_lines s of [] \<Rightarrow> [[c]] | l # ls \<Rightarrow> (c # l) # ls)"

lemma text_lines_newline: "newline \<notin> set w \<Longrightarrow> text_lines (w @ newline # s) = w # text_lines s"
proof (induction w)
  case (Cons c w)
  then show ?case by (cases w) auto
qed simp

lemma text_lines_last: "newline \<notin> set w \<Longrightarrow> w \<noteq> [] \<Longrightarrow> text_lines w = [w]"
proof (induction w)
  case (Cons c w)
  then show ?case by (cases w) auto
qed simp

lemma takeWhile_newline:
  "newline \<notin> set (takeWhile (\<lambda>c. c \<noteq> newline) s)"
  by (auto dest: set_takeWhileD)

text \<open>What one \<open>getline\<close> does on a good stream, in terms of the lines that are left.\<close>

lemma getline_cases:
  assumes "good s"
  obtains
    (line) l rest where "drop (pos s) (buf s) = l @ newline # rest" "newline \<notin> set l"
      "getline s line = (l, s\<lparr>pos := pos s + length l + 1\<rparr>)"
  | (last) l where "drop (pos s) (buf s) = l" "newline \<notin> set l" "l \<noteq> []"
      "getline s line = (l, s\<lparr>pos := pos s + length l, eofbit := True, failbit := False\<rparr>)"
  | (eof) "drop (pos s) (buf s) = []"
      "getline s line = ([], s\<lparr>pos := pos s, eofbit := True, failbit := True\<rparr>)"
proof -
  let ?rest = "drop (pos s) (buf s)"
  let ?w = "takeWhile (\<lambda>c. c \<noteq> newline) ?rest"
  show thesis
  proof (cases "length ?w < length ?rest")
    case True
    have "?rest ! length ?w = newline" using nth_length_takeWhile [OF True] by simp
    then have "?rest = ?w @ newline # drop (Suc (length ?w)) ?rest"
      using True by (metis Cons_nth_drop_Suc append_take_drop_id takeWhile_eq_take)
    then show thesis using True assms takeWhile_newline
      by (intro line [of ?w "drop (Suc (length ?w)) ?rest"]) (auto simp: getline_def Let_def)
  next
    case False
    then have w: "?w = ?rest" by (rule takeWhile_whole)
    show thesis
    proof (cases "?rest = []")
      case True
      then show thesis using False assms by (intro eof) (auto simp: getline_def Let_def)
    next
      case ne: False
      show thesis using False assms ne w takeWhile_newline [of ?rest]
        by (intro last [of ?rest]) (auto simp: getline_def Let_def simp del: takeWhile_eq_all_conv)
    qed
  qed
qed

lemma getline_loop_eof: "\<not> good s \<Longrightarrow> getline_loop s str data = data"
  by (subst getline_loop.simps) (simp add: getline_def sentry_def)

lemma getline_loop_lines:
  "good s \<Longrightarrow> getline_loop s str data = data @ text_lines (drop (pos s) (buf s))"
proof (induction s str data rule: getline_loop.induct)
  case (1 s str data)
  from \<open>good s\<close> show ?case
  proof (cases rule: getline_cases [of s str])
    case (line l rest)
    let ?t = "s\<lparr>pos := pos s + length l + 1\<rparr>"
    have "drop (pos s + length l + 1) (buf s) = drop (length l + 1) (drop (pos s) (buf s))"
      by (simp add: add.commute)
    also have "\<dots> = rest" using line(1) by simp
    finally have "drop (pos ?t) (buf ?t) = rest" by simp
    moreover have "good ?t" using \<open>good s\<close> by (simp add: good_def)
    ultimately have "getline_loop ?t l (data @ [l]) = (data @ [l]) @ text_lines rest"
      using 1(1) [OF line(3) [symmetric] refl] \<open>good s\<close> by (simp add: good_def)
    then show ?thesis using line \<open>good s\<close>
      by (subst getline_loop.simps) (simp add: text_lines_newline good_def)
  next
    case (last l)
    then show ?thesis
      by (subst getline_loop.simps) (simp add: text_lines_last getline_loop_eof good_def)
  next
    case eof
    then show ?thesis by (subst getline_loop.simps) simp
  qed
qed

lemma getFileContent_lines: "fs file = Some text \<Longrightarrow> getFileContent fs file = Inr (text_lines text)"
  by (simp add: getFileContent_def createInputStream_def getline_loop_lines good_def)

subsection \<open>Paths\<close>

definition pathSeperator :: string where
  "pathSeperator = ''/''"

definition pathsConcat :: "string \<Rightarrow> string \<Rightarrow> string" where
  "pathsConcat p1 p2 =
     (if p1 \<noteq> [] \<and> p1 ! (length p1 - 1) \<noteq> pathSeperator ! 0
      then trim p1 @ pathSeperator @ trim p2 else trim p1 @ trim p2)"

definition getDirsOnPath :: "string \<Rightarrow> string list result" where
  "getDirsOnPath path =
     (let trimPath = trim path in
      if trimPath = [] \<or> trimPath = pathSeperator \<or> trimPath = ''.'' \<or> trimPath = ''..''
      then Inr [trimPath]
      else rbind (split_str pathSeperator trimPath False)
        (\<lambda>tokens. Inr (filter (\<lambda>dir. dir \<noteq> []) (map trim tokens))))"

definition dirname :: "string \<Rightarrow> string result" where
  "dirname path =
     rbind (getDirsOnPath path)
       (\<lambda>dirsOnPath.
          if length dirsOnPath < 2 then Inr ''.''
          else Inr ((if trim path ! 0 = pathSeperator ! 0 then pathSeperator else []) @
                    join pathSeperator (butlast dirsOnPath)))"

definition basename :: "string \<Rightarrow> string result" where
  "basename path =
     rbind (getDirsOnPath path)
       (\<lambda>dirsOnPath. if dirsOnPath = [] then Inr [] else Inr (last dirsOnPath))"

text \<open>The process environment is a map from variable names to values.\<close>

definition getEnvVar :: "(string \<Rightarrow> string option) \<Rightarrow> string \<Rightarrow> string \<Rightarrow> string" where
  "getEnvVar env key dflt = (case env key of Some v \<Rightarrow> v | None \<Rightarrow> dflt)"

definition getTmpPath :: "(string \<Rightarrow> string option) \<Rightarrow> string \<Rightarrow> string" where
  "getTmpPath env filename =
     (let pick = (\<lambda>key tmpDir. case env key of Some dir \<Rightarrow> dir | None \<Rightarrow> tmpDir);
          tmpDir = pick ''TMP'' (pick ''TEMP'' (pick ''TMPDIR'' ''/tmp''))
      in tmpDir @ ''/fl_tmp_'' @ getEnvVar env ''USER'' ''unknown'' @ ''_'' @ filename)"

text \<open>The separator is a valid delimiter, so the path functions never throw.\<close>

lemma getDirsOnPath_total: "\<exists>dirs. getDirsOnPath path = Inr dirs"
  by (simp add: getDirsOnPath_def Let_def pathSeperator_def split_str_def)

lemma dirname_basename_total: "\<exists>d. dirname path = Inr d" "\<exists>b. basename path = Inr b"
  using getDirsOnPath_total [of path] by (auto simp: dirname_def basename_def)

end
