(* ===== verification/Dictionary.thy ===== *)
theory Dictionary
  imports SystemIO "HOL-Library.AList"
begin

section \<open>Token dictionary (\<^verbatim>\<open>lib/text/dictionary/Dictionary.h\<close>, \<^verbatim>\<open>Dictionary.cpp\<close>)\<close>

text \<open>
  A dictionary holds two hash maps, from entries to indices and from indices to the first entry that
  was given the index. Each \<^verbatim>\<open>std::unordered_map\<close> is an association list with distinct keys, so that its
  size is its length and a stored key is updated in place; nothing depends on the order. Indices are
  integers; the code's \<^verbatim>\<open>int\<close> is not exhausted by a dictionary that fits in memory.
\<close>

declare map_of_eq_Some_iff [simp del]
declare not_None_eq [simp del]

lemma alist_update_new: "map_of m k = None \<Longrightarrow> AList.update k v m = m @ [(k, v)]"
  by (induction m) (auto split: if_splits)

record dictionary =
  entry2idx :: "(string \<times> int) list"
  idx2entry :: "(int \<times> string) list"
  defaultIndex :: int

definition empty_dict :: dictionary where
  "empty_dict = \<lparr>entry2idx = [], idx2entry = [], defaultIndex = -1\<rparr>"

definition entrySize :: "dictionary \<Rightarrow> nat" where
  "entrySize d = length (entry2idx d)"

definition indexSize :: "dictionary \<Rightarrow> nat" where
  "indexSize d = length (idx2entry d)"

definition addEntry_at :: "string \<Rightarrow> int \<Rightarrow> dictionary \<Rightarrow> dictionary result" where
  "addEntry_at entry idx d =
     (if map_of (entry2idx d) entry \<noteq> None
      then Inl (Invalid_argument (''Duplicate entry name in dictionary '' @ [CHR 0x27] @ entry @ [CHR 0x27]))
      else let d1 = d\<lparr>entry2idx := AList.update entry idx (entry2idx d)\<rparr> in
        Inr (if map_of (idx2entry d1) idx = None
             then d1\<lparr>idx2entry := AList.update idx entry (idx2entry d1)\<rparr> else d1))"

text \<open>\<^verbatim>\<open>while (idx2entry_.find(idx) != idx2entry_.end()) ++idx;\<close>\<close>

function first_free :: "(int \<times> string) list \<Rightarrow> int \<Rightarrow> int" where
  "first_free m idx = (if map_of m idx \<noteq> None then first_free m (idx + 1) else idx)"
  by pat_completeness auto
termination
proof (relation "measure (\<lambda>(m, idx). length (filter (\<lambda>(k, e). idx \<le> k) m))", goal_cases)
  case (2 m idx)
  then obtain e where e: "(idx, e) \<in> set m" by (auto simp: not_None_eq dest: map_of_SomeD)
  let ?A = "filter (\<lambda>(k, e). idx \<le> k) m" and ?B = "filter (\<lambda>(k, e). idx + 1 \<le> k) m"
  have "?B = filter (\<lambda>(k, e). idx + 1 \<le> k) ?A"
    unfolding filter_filter by (rule filter_cong) auto
  moreover have "length (filter (\<lambda>(k, e). idx + 1 \<le> k) ?A) < length ?A"
    by (rule length_filter_less [of "(idx, e)"]) (use e in auto)
  ultimately show ?case by simp
qed simp

declare first_free.simps [simp del]

definition addEntry :: "string \<Rightarrow> dictionary \<Rightarrow> dictionary result" where
  "addEntry entry d =
     (if map_of (entry2idx d) entry \<noteq> None
      then Inl (Invalid_argument (''Duplicate entry in dictionary '' @ [CHR 0x27] @ entry @ [CHR 0x27]))
      else addEntry_at entry (first_free (idx2entry d) (int (indexSize d))) d)"

definition getEntry :: "dictionary \<Rightarrow> int \<Rightarrow> string result" where
  "getEntry d idx =
     (case map_of (idx2entry d) idx of
        None \<Rightarrow> Inl (Invalid_argument
          (''Unknown index in dictionary '' @ [CHR 0x27] @ to_string idx @ [CHR 0x27]))
      | Some entry \<Rightarrow> Inr entry)"

definition setDefaultIndex :: "int \<Rightarrow> dictionary \<Rightarrow> dictionary" where
  "setDefaultIndex idx d = d\<lparr>defaultIndex := idx\<rparr>"

definition getIndex :: "dictionary \<Rightarrow> string \<Rightarrow> int result" where
  "getIndex d entry =
     (case map_of (entry2idx d) entry of
        None \<Rightarrow>
          (if defaultIndex d < 0
           then Inl (Invalid_argument
             (''Unknown entry in dictionary: '' @ [CHR 0x27] @ entry @ [CHR 0x27]))
           else Inr (defaultIndex d))
      | Some idx \<Rightarrow> Inr idx)"

definition contains :: "dictionary \<Rightarrow> string \<Rightarrow> bool" where
  "contains d entry \<longleftrightarrow> map_of (entry2idx d) entry \<noteq> None"

definition isContiguous :: "dictionary \<Rightarrow> bool" where
  "isContiguous d \<longleftrightarrow>
     list_all (\<lambda>i. map_of (idx2entry d) (int i) \<noteq> None) [0..<indexSize d] \<and>
     list_all (\<lambda>(tkn, idx). map_of (idx2entry d) idx \<noteq> None) (entry2idx d)"

definition mapEntriesToIndices :: "dictionary \<Rightarrow> string list \<Rightarrow> int list result" where
  "mapEntriesToIndices d entries = rmap (getIndex d) entries"

definition mapIndicesToEntries :: "dictionary \<Rightarrow> int list \<Rightarrow> string list result" where
  "mapIndicesToEntries d indices = rmap (getEntry d) indices"

text \<open>
  \<^verbatim>\<open>createFromStream\<close>: the loop over \<^verbatim>\<open>std::getline\<close>, with every token of a line given the index of the
  line, and the check that the indices are contiguous.
\<close>

definition add_line :: "string \<Rightarrow> dictionary \<Rightarrow> dictionary result" where
  "add_line line d =
     (if line = [] then Inr d
      else let idx = int (indexSize d) in
        rfold (\<lambda>tkn. addEntry_at tkn idx) (splitOnWhitespace line True) d)"

function createFromStream_loop :: "istream \<Rightarrow> string \<Rightarrow> dictionary \<Rightarrow> dictionary result" where
  "createFromStream_loop s line d =
     (let (l, t) = getline s line in
      if failbit t then Inr d
      else case add_line l d of Inl e \<Rightarrow> Inl e | Inr d' \<Rightarrow> createFromStream_loop t l d')"
  by pat_completeness auto
termination
  by (relation "measure (\<lambda>(s, line, d). to_read s)") (auto intro: getline_decreases [OF sym])

declare createFromStream_loop.simps [simp del]

definition createFromStream :: "istream \<Rightarrow> dictionary \<Rightarrow> dictionary result" where
  "createFromStream stream d =
     (if failbit stream then Inl (Runtime_error ''Unable to open dictionary input stream.'')
      else rbind (createFromStream_loop stream [] d)
        (\<lambda>d'. if \<not> isContiguous d'
              then Inl (Runtime_error ''Invalid dictionary format - not contiguous'') else Inr d'))"

definition dictionary_of_file :: "filesystem \<Rightarrow> string \<Rightarrow> dictionary result" where
  "dictionary_of_file fs filename =
     rbind (createInputStream fs filename) (\<lambda>stream. createFromStream stream empty_dict)"

subsection \<open>The invariant\<close>

text \<open>
  Both maps have distinct keys, every index in use has a representative, and the representative of an
  index has that index.
\<close>

definition dict_inv :: "dictionary \<Rightarrow> bool" where
  "dict_inv d \<longleftrightarrow>
     distinct (map fst (entry2idx d)) \<and> distinct (map fst (idx2entry d)) \<and>
     (\<forall>e i. map_of (entry2idx d) e = Some i \<longrightarrow> map_of (idx2entry d) i \<noteq> None) \<and>
     (\<forall>i e. map_of (idx2entry d) i = Some e \<longrightarrow> map_of (entry2idx d) e = Some i)"

lemma dict_inv_empty [inv_intros]: "dict_inv empty_dict"
  by (simp add: dict_inv_def empty_dict_def)

lemma addEntry_at_Inr:
  "addEntry_at entry idx d = Inr d' \<longleftrightarrow>
     map_of (entry2idx d) entry = None \<and>
     d' = d\<lparr>entry2idx := AList.update entry idx (entry2idx d),
            idx2entry := (if map_of (idx2entry d) idx = None
                          then AList.update idx entry (idx2entry d) else idx2entry d)\<rparr>"
  by (auto simp: addEntry_at_def Let_def)

lemma dict_inv_addEntry_at [inv_intros]:
  assumes "dict_inv d" "addEntry_at entry idx d = Inr d'"
  shows "dict_inv d'"
  using assms unfolding addEntry_at_Inr dict_inv_def
  by (auto simp: update_conv' distinct_update)

lemma dict_inv_addEntry [inv_intros]: "dict_inv d \<Longrightarrow> addEntry entry d = Inr d' \<Longrightarrow> dict_inv d'"
  by (auto simp: addEntry_def split: if_splits intro: dict_inv_addEntry_at)

lemma dict_inv_setDefaultIndex [inv_intros]: "dict_inv d \<Longrightarrow> dict_inv (setDefaultIndex i d)"
  by (simp add: dict_inv_def setDefaultIndex_def)

lemma getIndex_getEntry: "dict_inv d \<Longrightarrow> getEntry d i = Inr e \<Longrightarrow> getIndex d e = Inr i"
  by (auto simp: dict_inv_def getEntry_def getIndex_def split: option.splits)

subsection \<open>Contiguous dictionaries\<close>

text \<open>The indices in use are exactly \<open>0, \<dots>, indexSize - 1\<close>.\<close>

definition dense :: "dictionary \<Rightarrow> bool" where
  "dense d \<longleftrightarrow> fst ` set (idx2entry d) = {0..<int (indexSize d)}"

lemma dom_iff_dense: "dense d \<Longrightarrow> map_of (idx2entry d) i \<noteq> None \<longleftrightarrow> 0 \<le> i \<and> i < int (indexSize d)"
  by (simp add: dense_def map_of_eq_None_iff)

lemma isContiguous_dense: "dict_inv d \<Longrightarrow> dense d \<Longrightarrow> isContiguous d"
  by (auto simp: isContiguous_def list_all_iff dom_iff_dense dict_inv_def map_of_eq_Some_iff)

lemma isContiguous_iff_dense:
  assumes "dict_inv d"
  shows "isContiguous d \<longleftrightarrow> dense d"
proof
  assume c: "isContiguous d"
  let ?K = "fst ` set (idx2entry d)" and ?I = "{0..<int (indexSize d)}"
  have "i \<in> ?K" if "i \<in> ?I" for i
  proof -
    from that obtain n where "i = int n" "n < indexSize d" by (metis atLeastLessThan_iff nat_less_iff nat_0_le)
    then have "map_of (idx2entry d) i \<noteq> None" using c by (auto simp: isContiguous_def list_all_iff)
    then show ?thesis by (simp add: map_of_eq_None_iff)
  qed
  then have "?I \<subseteq> ?K" by blast
  moreover have "card ?K = card ?I"
    using assms distinct_card [of "map fst (idx2entry d)"] by (simp add: dict_inv_def indexSize_def)
  ultimately show "dense d" unfolding dense_def by (metis card_subset_eq finite_imageI finite_set)
qed (use assms isContiguous_dense in blast)

lemma dense_addEntry_at:
  assumes "dense d" "0 \<le> idx" "idx \<le> int (indexSize d)" "addEntry_at entry idx d = Inr d'"
  shows "dense d'"
proof (cases "idx < int (indexSize d)")
  case True
  then have "map_of (idx2entry d) idx \<noteq> None" using assms by (simp add: dom_iff_dense)
  then show ?thesis using assms by (auto simp: addEntry_at_Inr dense_def indexSize_def)
next
  case False
  with assms have e: "idx = int (indexSize d)" by simp
  then have n: "map_of (idx2entry d) idx = None" using dom_iff_dense [OF assms(1), of idx] by simp
  then have k: "AList.update idx entry (idx2entry d) = idx2entry d @ [(idx, entry)]"
    by (simp add: alist_update_new)
  show ?thesis using assms e n k by (auto simp: addEntry_at_Inr dense_def indexSize_def)
qed

lemma first_free_spec: "map_of m (first_free m i) = None \<and> i \<le> first_free m i"
proof (induction m i rule: first_free.induct)
  case (1 m i)
  then show ?case by (cases "map_of m i") (auto simp: first_free.simps [of m i] not_None_eq)
qed

lemma first_free_dense: "dense d \<Longrightarrow> first_free (idx2entry d) (int (indexSize d)) = int (indexSize d)"
  using dom_iff_dense [of d "int (indexSize d)"] by (subst first_free.simps) simp

lemma dense_addEntry: "dense d \<Longrightarrow> addEntry entry d = Inr d' \<Longrightarrow> dense d'"
  by (auto simp: addEntry_def first_free_dense split: if_splits
      intro: dense_addEntry_at [of d "int (indexSize d)" entry])

subsection \<open>Loading a dictionary, line by line\<close>

text \<open>
  The dictionary that a list of token lines describes: the tokens of line \<open>n\<close> have index \<open>n\<close>, and the
  first of them represents it.
\<close>

fun numbered :: "nat \<Rightarrow> string list list \<Rightarrow> (string \<times> int) list" where
  "numbered n [] = []"
| "numbered n (l # ls) = map (\<lambda>t. (t, int n)) l @ numbered (Suc n) ls"

fun representatives :: "nat \<Rightarrow> string list list \<Rightarrow> (int \<times> string) list" where
  "representatives n [] = []"
| "representatives n (l # ls) = (int n, hd l) # representatives (Suc n) ls"

definition dict_of_lines :: "string list list \<Rightarrow> dictionary" where
  "dict_of_lines ls = \<lparr>entry2idx = numbered 0 ls, idx2entry = representatives 0 ls, defaultIndex = -1\<rparr>"

lemma numbered_append: "numbered n (ls @ ms) = numbered n ls @ numbered (n + length ls) ms"
  by (induction ls arbitrary: n) auto

lemma representatives_append:
  "representatives n (ls @ ms) = representatives n ls @ representatives (n + length ls) ms"
  by (induction ls arbitrary: n) auto

lemma length_representatives [simp]: "length (representatives n ls) = length ls"
  by (induction ls arbitrary: n) auto

lemma keys_numbered [simp]: "map fst (numbered n ls) = concat ls"
  by (induction ls arbitrary: n) (auto simp: comp_def)

lemma map_of_representatives:
  "map_of (representatives n ls) i =
     (if int n \<le> i \<and> i < int (n + length ls) then Some (hd (ls ! nat (i - int n))) else None)"
proof (induction ls arbitrary: n)
  case (Cons l ls)
  show ?case
  proof (cases "i = int n")
    case False
    then have "int n \<le> i \<Longrightarrow> nat (i - int n) = Suc (nat (i - int (Suc n)))" by auto
    then show ?thesis using False Cons [of "Suc n"] by auto
  qed simp
qed simp

lemma map_of_numbered:
  assumes "distinct (concat ls)" "k < length ls" "t \<in> set (ls ! k)"
  shows "map_of (numbered n ls) t = Some (int (n + k))"
  using assms
proof (induction ls arbitrary: n k)
  case (Cons l ls)
  show ?case
  proof (cases k)
    case 0
    then have "t \<in> set l" using Cons.prems by simp
    then have "map_of (map (\<lambda>t. (t, int n)) l) t = Some (int n)" by (induction l) auto
    then show ?thesis using 0 by (simp add: map_add_def)
  next
    case (Suc k')
    then have "t \<in> set (concat ls)" using Cons.prems by auto
    then have "t \<notin> set l" using Cons.prems(1) by auto
    then have "map_of (map (\<lambda>t. (t, int n)) l) t = None" by (induction l) auto
    then show ?thesis using Suc Cons.IH [of k' "Suc n"] Cons.prems by (simp add: map_add_def)
  qed
qed simp

lemma rfold_addEntry_at:
  assumes "map_of (idx2entry d) idx \<noteq> None"
  shows "case rfold (\<lambda>t. addEntry_at t idx) ts d of
      Inr d' \<Rightarrow> distinct ts \<and> set ts \<inter> fst ` set (entry2idx d) = {} \<and>
        d' = d\<lparr>entry2idx := entry2idx d @ map (\<lambda>t. (t, idx)) ts\<rparr>
    | Inl e \<Rightarrow> \<not> (distinct ts \<and> set ts \<inter> fst ` set (entry2idx d) = {}) \<and> (\<exists>m. e = Invalid_argument m)"
  using assms
proof (induction ts arbitrary: d)
  case (Cons t ts)
  show ?case
  proof (cases "map_of (entry2idx d) t")
    case None
    let ?d = "d\<lparr>entry2idx := entry2idx d @ [(t, idx)]\<rparr>"
    have e: "addEntry_at t idx d = Inr ?d"
      using None Cons.prems by (simp add: addEntry_at_def alist_update_new)
    have "t \<notin> fst ` set (entry2idx d)" using None by (simp add: map_of_eq_None_iff)
    with Cons.IH [of ?d] Cons.prems e show ?thesis
      by (auto split: sum.splits)
  next
    case (Some i)
    then have "t \<in> fst ` set (entry2idx d)" by (metis domI dom_map_of_conv_image_fst)
    then show ?thesis using Some by (auto simp: addEntry_at_def)
  qed
qed simp

lemma add_line_dict_of_lines:
  fixes line :: string
  assumes "distinct (concat ls)"
  defines "ts \<equiv> splitOnWhitespace line True"
  shows "case add_line line (dict_of_lines ls) of
      Inr d' \<Rightarrow> distinct (concat ls @ ts) \<and> d' = dict_of_lines (ls @ (if ts = [] then [] else [ts]))
    | Inl e \<Rightarrow> \<not> distinct (concat ls @ ts) \<and> (\<exists>m. e = Invalid_argument m)"
proof (cases ts)
  case Nil
  then have "add_line line (dict_of_lines ls) = Inr (dict_of_lines ls)"
    by (simp add: add_line_def ts_def Let_def)
  then show ?thesis using Nil assms(1) by simp
next
  case (Cons t us)
  let ?d = "dict_of_lines ls" and ?n = "int (length ls)"
  have l: "line \<noteq> []" using Cons by (auto simp: ts_def splitOnWhitespace_pieces pieces.simps find_first_of_def)
  have idx: "int (indexSize ?d) = ?n" by (simp add: dict_of_lines_def indexSize_def)
  have keys: "fst ` set (entry2idx ?d) = set (concat ls)"
    using keys_numbered [of 0 ls] by (metis dict_of_lines_def dictionary.select_convs(1) list.set_map)
  have a: "add_line line ?d = rfold (\<lambda>tkn. addEntry_at tkn ?n) (t # us) ?d"
    using l idx Cons by (simp add: add_line_def ts_def Let_def)
  show ?thesis
  proof (cases "map_of (entry2idx ?d) t")
    case None
    let ?e = "?d\<lparr>entry2idx := entry2idx ?d @ [(t, ?n)], idx2entry := idx2entry ?d @ [(?n, t)]\<rparr>"
    have n: "map_of (idx2entry ?d) ?n = None"
      by (simp add: dict_of_lines_def map_of_representatives)
    have "addEntry_at t ?n ?d = Inr ?e"
      using None n by (simp add: addEntry_at_def alist_update_new)
    moreover have "map_of (idx2entry ?e) ?n \<noteq> None" by (simp add: map_add_Some_iff not_None_eq)
    moreover have "t \<notin> set (concat ls)" using None keys by (simp add: map_of_eq_None_iff)
    moreover have "?e\<lparr>entry2idx := entry2idx ?e @ map (\<lambda>t. (t, ?n)) us\<rparr> = dict_of_lines (ls @ [t # us])"
      by (simp add: dict_of_lines_def numbered_append representatives_append)
    ultimately show ?thesis
      using rfold_addEntry_at [of ?e ?n us] a Cons assms(1) keys
      by (auto split: sum.splits)
  next
    case (Some i)
    then have "t \<in> set (concat ls)" using keys by (metis domI dom_map_of_conv_image_fst)
    then show ?thesis using Some a Cons by (auto simp: addEntry_at_def)
  qed
qed

definition token_lines :: "string list \<Rightarrow> string list list" where
  "token_lines lines = filter (\<lambda>ts. ts \<noteq> []) (map (\<lambda>l. splitOnWhitespace l True) lines)"

lemma rfold_add_line:
  assumes "distinct (concat ls)"
  shows "case rfold add_line lines (dict_of_lines ls) of
      Inr d \<Rightarrow> distinct (concat (ls @ token_lines lines)) \<and> d = dict_of_lines (ls @ token_lines lines)
    | Inl e \<Rightarrow> \<not> distinct (concat (ls @ token_lines lines)) \<and> (\<exists>m. e = Invalid_argument m)"
  using assms
proof (induction lines arbitrary: ls)
  case (Cons line lines)
  let ?ts = "splitOnWhitespace line True"
  let ?ls = "ls @ (if ?ts = [] then [] else [?ts])"
  have c: "concat ?ls = concat ls @ ?ts" by simp
  have t: "ls @ token_lines (line # lines) = ?ls @ token_lines lines"
    by (simp add: token_lines_def)
  show ?case
  proof (cases "add_line line (dict_of_lines ls)")
    case (Inl e)
    then show ?thesis using add_line_dict_of_lines [OF Cons.prems, of line]
      by (auto simp: token_lines_def)
  next
    case (Inr d)
    then have "distinct (concat ?ls)" "d = dict_of_lines ?ls"
      using add_line_dict_of_lines [OF Cons.prems, of line] c by auto
    then show ?thesis unfolding t using Cons.IH [of ?ls] Inr by simp
  qed
qed (simp add: token_lines_def)

lemma createFromStream_loop_rfold:
  "good s \<Longrightarrow> createFromStream_loop s line d = rfold add_line (text_lines (drop (pos s) (buf s))) d"
proof (induction s line d rule: createFromStream_loop.induct)
  case (1 s line d)
  have bad: "createFromStream_loop t l d' = Inr d'" if "\<not> good t" for t l d'
    using that by (subst createFromStream_loop.simps) (simp add: getline_def sentry_def)
  from \<open>good s\<close> show ?case
  proof (cases rule: getline_cases [of s line])
    case (line l rest)
    let ?t = "s\<lparr>pos := pos s + length l + 1\<rparr>"
    have "drop (pos ?t) (buf ?t) = drop (length l + 1) (drop (pos s) (buf s))" by (simp add: add.commute)
    then have r: "drop (pos ?t) (buf ?t) = rest" using line(1) by simp
    have t: "good ?t" using \<open>good s\<close> by (simp add: good_def)
    show ?thesis
      using 1(1) [OF line(3) [symmetric] refl] t r line \<open>good s\<close>
      by (subst createFromStream_loop.simps)
        (auto simp: text_lines_newline good_def rbind_def split: sum.splits)
  next
    case (last l)
    then show ?thesis
      by (subst createFromStream_loop.simps)
        (auto simp: text_lines_last bad good_def rbind_def split: sum.splits)
  next
    case eof
    then show ?thesis by (subst createFromStream_loop.simps) simp
  qed
qed

lemma keys_representatives: "map fst (representatives n ls) = map int [n..<n + length ls]"
  by (induction ls arbitrary: n) (auto simp: upt_rec)

lemma dict_of_lines_inv:
  assumes "distinct (concat ls)" "[] \<notin> set ls"
  shows "dict_inv (dict_of_lines ls)"
proof -
  have k: "\<exists>k < length ls. e \<in> set (ls ! k) \<and> i = int k" if "map_of (numbered 0 ls) e = Some i" for e i
  proof -
    have "e \<in> set (concat ls)"
      using that keys_numbered [of 0 ls] by (metis domI dom_map_of_conv_image_fst list.set_map)
    then obtain l where "l \<in> set ls" "e \<in> set l" by auto
    then obtain k where "k < length ls" "e \<in> set (ls ! k)" by (metis in_set_conv_nth)
    then show ?thesis using that map_of_numbered [OF assms(1), of k e 0] by auto
  qed
  have r: "map_of (numbered 0 ls) e = Some i" if "map_of (representatives 0 ls) i = Some e" for e i
  proof -
    have i: "0 \<le> i" "nat i < length ls" "e = hd (ls ! nat i)"
      using that by (auto simp: map_of_representatives split: if_splits)
    then have "e \<in> set (ls ! nat i)" using assms(2) by (metis hd_in_set nth_mem)
    then show ?thesis using map_of_numbered [OF assms(1) i(2), of e 0] i(1) by simp
  qed
  have "distinct (map fst (representatives 0 ls))" by (simp add: keys_representatives distinct_map)
  then show ?thesis unfolding dict_inv_def dict_of_lines_def using assms(1) k r
    by (auto simp: map_of_representatives not_None_eq dest!: k)
qed

lemma dict_of_lines_dense: "dense (dict_of_lines ls)"
proof -
  have "fst ` set (representatives 0 ls) = set (map int [0..<length ls])"
    using keys_representatives [of 0 ls] by (metis add_0 list.set_map)
  then show ?thesis by (simp add: dense_def dict_of_lines_def indexSize_def image_int_atLeastLessThan)
qed

subsection \<open>Properties\<close>

text \<open>
  C36. Loading a dictionary from a readable stream succeeds exactly when no token occurs twice, and then
  every token of the \<open>k\<close>-th non-blank line has index \<open>k\<close> and the first token of that line is the entry
  of index \<open>k\<close>. The only error is the duplicate entry: the \<^emph>\<open>not contiguous\<close> error that the code also
  checks for cannot happen.
\<close>

theorem createFromStream_spec:
  assumes "good s"
  defines "ls \<equiv> token_lines (text_lines (drop (pos s) (buf s)))"
  shows "case createFromStream s empty_dict of
      Inl e \<Rightarrow> \<not> distinct (concat ls) \<and> (\<exists>m. e = Invalid_argument m)
    | Inr d \<Rightarrow> distinct (concat ls) \<and> dict_inv d \<and> indexSize d = length ls \<and>
        (\<forall>k < length ls. getEntry d (int k) = Inr (hd (ls ! k)) \<and>
           (\<forall>t \<in> set (ls ! k). getIndex d t = Inr (int k)))"
proof -
  have ne: "[] \<notin> set ls" by (simp add: ls_def token_lines_def)
  have e: "empty_dict = dict_of_lines []" by (simp add: empty_dict_def dict_of_lines_def)
  have c: "isContiguous (dict_of_lines ls)" if "distinct (concat ls)"
    using that ne by (simp add: isContiguous_dense dict_of_lines_inv dict_of_lines_dense)
  have "createFromStream s empty_dict =
      rbind (rfold add_line (text_lines (drop (pos s) (buf s))) (dict_of_lines []))
        (\<lambda>d'. if \<not> isContiguous d'
              then Inl (Runtime_error ''Invalid dictionary format - not contiguous'') else Inr d')"
    using assms by (simp add: createFromStream_def createFromStream_loop_rfold good_def e)
  with rfold_add_line [of "[]" "text_lines (drop (pos s) (buf s))"] c
  have "case createFromStream s empty_dict of
      Inl e \<Rightarrow> \<not> distinct (concat ls) \<and> (\<exists>m. e = Invalid_argument m)
    | Inr d \<Rightarrow> distinct (concat ls) \<and> d = dict_of_lines ls"
    by (auto simp: ls_def rbind_def split: sum.splits)
  moreover have "getEntry (dict_of_lines ls) (int k) = Inr (hd (ls ! k))" if "k < length ls" for k
    using that by (simp add: getEntry_def dict_of_lines_def map_of_representatives)
  moreover have "getIndex (dict_of_lines ls) t = Inr (int k)"
    if "distinct (concat ls)" "k < length ls" "t \<in> set (ls ! k)" for k t
    using that by (simp add: getIndex_def dict_of_lines_def map_of_numbered)
  moreover have "indexSize (dict_of_lines ls) = length ls"
    by (simp add: indexSize_def dict_of_lines_def)
  ultimately show ?thesis using ne by (auto simp: dict_of_lines_inv split: sum.splits)
qed

theorem createFromStream_spec_witness:
  "good \<lparr>buf = ''a A'' @ newline # ''b'', pos = 0, eofbit = False, failbit = False\<rparr> \<and>
   (\<exists>d. createFromStream \<lparr>buf = ''a A'' @ newline # ''b'', pos = 0, eofbit = False, failbit = False\<rparr>
          empty_dict = Inr d \<and> getIndex d ''A'' = Inr 0 \<and> getEntry d 0 = Inr ''a'' \<and>
          getEntry d 1 = Inr ''b'')"
proof -
  let ?s = "\<lparr>buf = ''a A'' @ newline # ''b'', pos = 0, eofbit = False, failbit = False\<rparr>"
  have g: "good ?s" by (simp add: good_def)
  have t: "token_lines (text_lines (''a A'' @ newline # ''b'')) = [[''a'', ''A''], [''b'']]"
    by code_simp
  have c: "case createFromStream ?s empty_dict of
      Inl e \<Rightarrow> False
    | Inr d \<Rightarrow> \<forall>k < 2. getEntry d (int k) = Inr (hd ([[''a'', ''A''], [''b'']] ! k)) \<and>
           (\<forall>t \<in> set ([[''a'', ''A''], [''b'']] ! k). getIndex d t = Inr (int k))"
    using createFromStream_spec [OF g]
    by (simp only: istream.select_convs drop_0 t) (auto split: sum.splits)
  then obtain d where d: "createFromStream ?s empty_dict = Inr d" by (auto split: sum.splits)
  have "getEntry d (int 0) = Inr ''a''" "getIndex d ''A'' = Inr (int 0)" "getEntry d (int 1) = Inr ''b''"
    using c d by (auto dest: spec [of _ 0] spec [of _ 1])
  then show ?thesis using g d by auto
qed

subsection \<open>Dictionaries built by the class\<close>

text \<open>
  The dictionaries that the public operations build, with the list of the entries added so far and the indices
  they were given.
\<close>

inductive built :: "(string \<times> int) list \<Rightarrow> dictionary \<Rightarrow> bool" where
  built_new: "built [] empty_dict"
| built_at: "built l d \<Longrightarrow> addEntry_at e i d = Inr d' \<Longrightarrow> built (l @ [(e, i)]) d'"
| built_add: "built l d \<Longrightarrow> addEntry e d = Inr d' \<Longrightarrow> getIndex d' e = Inr i \<Longrightarrow> built (l @ [(e, i)]) d'"
| built_default: "built l d \<Longrightarrow> built l (setDefaultIndex i d)"

lemma addEntry_succeeds:
  assumes "\<not> contains d e"
  defines "i \<equiv> first_free (idx2entry d) (int (indexSize d))"
  shows "\<exists>d'. addEntry e d = Inr d' \<and> addEntry_at e i d = Inr d' \<and> getIndex d' e = Inr i \<and> getEntry d' i = Inr e \<and>
    map_of (idx2entry d) i = None"
  using assms first_free_spec [of "idx2entry d" "int (indexSize d)"]
  by (auto simp: addEntry_def addEntry_at_def contains_def getIndex_def getEntry_def update_conv' Let_def)

lemma addEntry_built_at:
  assumes "addEntry e d = Inr d'" "getIndex d' e = Inr i"
  shows "addEntry_at e i d = Inr d'"
proof -
  have "\<not> contains d e" using assms(1) by (auto simp: addEntry_def contains_def split: if_splits)
  from addEntry_succeeds [OF this] show ?thesis using assms by auto
qed

text \<open>What the two maps hold: every added entry with its index, and for every index the first entry given it.\<close>

definition holds :: "(string \<times> int) list \<Rightarrow> dictionary \<Rightarrow> bool" where
  "holds l d \<longleftrightarrow> dict_inv d \<and> entry2idx d = l \<and> map_of (idx2entry d) = map_of (map prod.swap l)"

lemma holds_addEntry_at: "holds l d \<Longrightarrow> addEntry_at e i d = Inr d' \<Longrightarrow> holds (l @ [(e, i)]) d'"
  unfolding holds_def using dict_inv_addEntry_at [of d e i d']
  by (auto simp: addEntry_at_Inr alist_update_new update_conv' fun_eq_iff map_add_def not_None_eq split: option.split)

lemma built_holds: "built l d \<Longrightarrow> holds l d"
proof (induction rule: built.induct)
  case built_new
  show ?case using dict_inv_empty by (simp add: holds_def empty_dict_def)
next
  case (built_add l d e d' i)
  then show ?case using holds_addEntry_at addEntry_built_at by blast
next
  case (built_default l d i)
  then show ?case using dict_inv_setDefaultIndex by (simp add: holds_def) (simp add: setDefaultIndex_def)
qed (blast intro: holds_addEntry_at)

text \<open>The dictionaries that the constructors load from a stream are among them.\<close>

lemma built_rfold: "built l d \<Longrightarrow> rfold (\<lambda>t. addEntry_at t i) ts d = Inr d' \<Longrightarrow> \<exists>l'. built l' d'"
  by (induction ts arbitrary: l d) (auto simp: rbind_def split: sum.splits intro: built_at)

lemma built_add_lines: "built l d \<Longrightarrow> rfold add_line lines d = Inr d' \<Longrightarrow> \<exists>l'. built l' d'"
proof (induction lines arbitrary: l d)
  case (Cons line lines)
  then obtain d1 where d1: "add_line line d = Inr d1" "rfold add_line lines d1 = Inr d'"
    by (auto simp: rbind_def split: sum.splits)
  have "\<exists>l1. built l1 d1"
    using built_rfold [OF Cons.prems(1)] d1(1) Cons.prems(1) by (auto simp: add_line_def Let_def split: if_splits)
  then show ?case using Cons.IH d1(2) by blast
qed auto

lemma built_createFromStream:
  "built l d \<Longrightarrow> good s \<Longrightarrow> createFromStream s d = Inr d' \<Longrightarrow> \<exists>l'. built l' d'"
  using built_add_lines
  by (auto simp: createFromStream_def createFromStream_loop_rfold rbind_def good_def split: if_splits sum.splits)

lemma holds_lookup:
  assumes "holds l d"
  shows "contains d e \<longleftrightarrow> e \<in> fst ` set l" "(e, i) \<in> set l \<Longrightarrow> getIndex d e = Inr i"
    "getEntry d i = Inr e \<longleftrightarrow> map_of (map prod.swap l) i = Some e"
proof -
  have l: "distinct (map fst l)" using assms by (auto simp: holds_def dict_inv_def)
  show "contains d e \<longleftrightarrow> e \<in> fst ` set l" using assms by (simp add: holds_def contains_def map_of_eq_None_iff)
  show "(e, i) \<in> set l \<Longrightarrow> getIndex d e = Inr i" using assms l by (simp add: holds_def getIndex_def)
  show "getEntry d i = Inr e \<longleftrightarrow> map_of (map prod.swap l) i = Some e"
    using assms by (auto simp: holds_def getEntry_def split: option.splits)
qed

lemma indices_to_entries_to_indices:
  assumes "dict_inv d" and "mapIndicesToEntries d is = Inr es"
  shows "mapEntriesToIndices d es = Inr is"
proof -
  have "list_all2 (\<lambda>i e. getEntry d i = Inr e) is es"
    using assms(2) by (simp add: mapIndicesToEntries_def rmap_eq_Inr_iff)
  then have "list_all2 (\<lambda>e i. getIndex d e = Inr i) es is"
    using getIndex_getEntry [OF assms(1)] by (simp add: list_all2_conv_all_nth)
  then show ?thesis by (simp add: mapEntriesToIndices_def rmap_eq_Inr_iff)
qed

lemma entries_to_indices:
  assumes h: "holds l d" and es: "set es \<subseteq> fst ` set l"
  shows "\<exists>is fs. mapEntriesToIndices d es = Inr is \<and> mapIndicesToEntries d is = Inr fs"
proof -
  let ?is = "map (\<lambda>e. the (map_of l e)) es" and ?rep = "\<lambda>i. the (map_of (map prod.swap l) i)"
  have l: "distinct (map fst l)" using h by (auto simp: holds_def dict_inv_def)
  have in_l: "(e, the (map_of l e)) \<in> set l" if "e \<in> set es" for e
    using that es l by (auto simp: map_of_eq_Some_iff subset_iff image_iff)
  then have 1: "getIndex d e = Inr (the (map_of l e))" if "e \<in> set es" for e using holds_lookup(2) [OF h] that by blast
  have "i \<in> fst ` set (map prod.swap l)" if "i \<in> set ?is" for i using that in_l by force
  then have "map_of (map prod.swap l) i = Some (?rep i)" if "i \<in> set ?is" for i
    using that by (metis map_of_eq_None_iff option.collapse)
  then have 2: "getEntry d i = Inr (?rep i)" if "i \<in> set ?is" for i using holds_lookup(3) [OF h] that by blast
  have "mapEntriesToIndices d es = Inr ?is" using 1 by (simp add: mapEntriesToIndices_def rmap_eq_Inr_iff list_all2_conv_all_nth)
  moreover have "mapIndicesToEntries d ?is = Inr (map ?rep ?is)"
    using 2 by (simp add: mapIndicesToEntries_def rmap_eq_Inr_iff list_all2_conv_all_nth)
  ultimately show ?thesis by blast
qed

text \<open>
  C37. A dictionary built by any sequence of the class's operations finds what was added. Every entry added has the
  index it was given, and no other entry is contained; an index has the first entry that was given it. Mapping
  indices to entries and back gives the indices, and entries of the dictionary can always be mapped to indices and
  from there to representatives with the same indices. Adding a new entry without an index succeeds and gives it an
  index that no entry had, which it then represents.
\<close>

theorem dictionary_lookup_built:
  assumes "built l d"
  shows "(\<forall>e i. (e, i) \<in> set l \<longrightarrow> getIndex d e = Inr i) \<and> (\<forall>e. contains d e \<longleftrightarrow> e \<in> fst ` set l) \<and>
    (\<forall>i e. getEntry d i = Inr e \<longleftrightarrow> map_of (map prod.swap l) i = Some e) \<and>
    (\<forall>is es. mapIndicesToEntries d is = Inr es \<longrightarrow> mapEntriesToIndices d es = Inr is) \<and>
    (\<forall>es. set es \<subseteq> fst ` set l \<longrightarrow>
       (\<exists>is fs. mapEntriesToIndices d es = Inr is \<and> mapIndicesToEntries d is = Inr fs \<and> mapEntriesToIndices d fs = Inr is)) \<and>
    (\<forall>e. e \<notin> fst ` set l \<longrightarrow>
       (\<exists>d' i. addEntry e d = Inr d' \<and> getIndex d' e = Inr i \<and> getEntry d' i = Inr e \<and> i \<notin> snd ` set l))"
proof -
  have h: "holds l d" and inv: "dict_inv d" using built_holds [OF assms] by (simp_all add: holds_def)
  have fresh: "\<exists>d' i. addEntry e d = Inr d' \<and> getIndex d' e = Inr i \<and> getEntry d' i = Inr e \<and> i \<notin> snd ` set l"
    if "e \<notin> fst ` set l" for e
  proof -
    have "\<not> contains d e" using that holds_lookup(1) [OF h] by blast
    from addEntry_succeeds [OF this] obtain d' i where a: "addEntry e d = Inr d'" "getIndex d' e = Inr i" "getEntry d' i = Inr e"
      "map_of (idx2entry d) i = None" by blast
    then have "i \<notin> fst ` set (map prod.swap l)" using h by (metis holds_def map_of_eq_None_iff)
    then show ?thesis using a by (force simp: image_image)
  qed
  have again: "\<exists>is fs. mapEntriesToIndices d es = Inr is \<and> mapIndicesToEntries d is = Inr fs \<and> mapEntriesToIndices d fs = Inr is"
    if "set es \<subseteq> fst ` set l" for es
    using entries_to_indices [OF h that] indices_to_entries_to_indices [OF inv] by blast
  show ?thesis
    by (intro conjI allI impI holds_lookup [OF h] indices_to_entries_to_indices [OF inv] again fresh)
qed

theorem dictionary_lookup_built_witness:
  "\<exists>d. built [(''x'', 0), (''y'', 0)] d \<and> getIndex d ''y'' = Inr 0 \<and> getEntry d 0 = Inr ''x'' \<and> \<not> contains d ''z'' \<and>
     mapEntriesToIndices d [''x''] = Inr [0] \<and>
     (\<exists>d' i. addEntry ''z'' d = Inr d' \<and> getIndex d' ''z'' = Inr i \<and> getEntry d' i = Inr ''z'' \<and> i \<noteq> 0)"
proof -
  let ?l = "[(''x'', 0), (''y'', 0)] :: (string \<times> int) list"
  let ?d = "\<lparr>entry2idx = ?l, idx2entry = [(0, ''x'')], defaultIndex = -1\<rparr> :: dictionary"
  let ?d1 = "\<lparr>entry2idx = [(''x'', 0)], idx2entry = [(0, ''x'')], defaultIndex = -1\<rparr> :: dictionary"
  have "addEntry ''x'' empty_dict = Inr ?d1" "getIndex ?d1 ''x'' = Inr 0"
    by (simp_all add: addEntry_def addEntry_at_def empty_dict_def indexSize_def first_free.simps getIndex_def)
  from built_add [OF built_new this] have "built [(''x'', 0)] ?d1" by simp
  moreover have "addEntry_at ''y'' 0 ?d1 = Inr ?d" by (simp add: addEntry_at_def)
  ultimately have b: "built ?l ?d" using built_at by fastforce
  note p = dictionary_lookup_built [OF b]
  have 1: "\<forall>e i. (e, i) \<in> set ?l \<longrightarrow> getIndex ?d e = Inr i" "\<forall>e. contains ?d e \<longleftrightarrow> e \<in> fst ` set ?l" using p by blast+
  have e: "getEntry ?d 0 = Inr ''x''" using p by simp
  have m: "mapIndicesToEntries ?d [0] = Inr [''x'']" using e by (simp add: mapIndicesToEntries_def)
  have 2: "mapEntriesToIndices ?d [''x''] = Inr [0]" using p m by blast
  have z: "''z'' \<notin> fst ` set ?l" by simp
  obtain d' i where 3: "addEntry ''z'' ?d = Inr d'" "getIndex d' ''z'' = Inr i" "getEntry d' i = Inr ''z''" "i \<notin> snd ` set ?l"
    using p z by blast
  have 4: "getIndex ?d ''y'' = Inr 0" "\<not> contains ?d ''z''" using 1 z by simp_all
  have "i \<noteq> 0" using 3(4) by auto
  then show ?thesis using b 4 e 2 3(1-3) by blast
qed

end
