(* ===== verification/DictionaryUtils.thy ===== *)
theory DictionaryUtils
  imports Dictionary "HOL-Library.Word"
begin

section \<open>Lexicon and token utilities (\<^verbatim>\<open>lib/text/dictionary/Utils.h\<close>, \<^verbatim>\<open>Utils.cpp\<close>, \<^verbatim>\<open>Defines.h\<close>)\<close>

text \<open>
  A \<^verbatim>\<open>LexiconMap\<close> is an association list from words to their spellings; its order stands for the
  unspecified iteration order of the hash map, and the properties hold for every order.
\<close>

unbundle bit_operations_syntax

type_synonym lexiconMap = "(string \<times> string list list) list"

definition kUnkToken :: string where
  "kUnkToken = ''<unk>''"

definition createWordDict :: "lexiconMap \<Rightarrow> dictionary result" where
  "createWordDict lexicon =
     rbind (rfold (\<lambda>it. addEntry (fst it)) lexicon empty_dict)
       (\<lambda>dict. rbind (getIndex dict kUnkToken) (\<lambda>idx. Inr (setDefaultIndex idx dict)))"

text \<open>The comparison \<^verbatim>\<open>maxWords != lexicon.size()\<close> converts the \<^verbatim>\<open>int\<close> to an unsigned 64-bit value.\<close>

definition add_spelling :: "string \<Rightarrow> string list \<Rightarrow> lexiconMap \<Rightarrow> lexiconMap" where
  "add_spelling word spelling lexicon =
     (let lexicon1 = (if map_of lexicon word = None then AList.update word [] lexicon else lexicon) in
      case map_of lexicon1 word of
        None \<Rightarrow> AList.update word [spelling] lexicon1
      | Some spellings \<Rightarrow> AList.update word (spellings @ [spelling]) lexicon1)"

function loadWords_loop :: "istream \<Rightarrow> string \<Rightarrow> int \<Rightarrow> lexiconMap \<Rightarrow> lexiconMap result" where
  "loadWords_loop s line maxWords lexicon =
     (if size_of_int maxWords = int (length lexicon) then Inr lexicon
      else let (l, t) = getline s line in
        if failbit t then Inr lexicon
        else case splitOnWhitespace l True of
            word # tok # toks \<Rightarrow> loadWords_loop t l maxWords (add_spelling word (tok # toks) lexicon)
          | _ \<Rightarrow> Inl (Runtime_error (''[loadWords] Invalid line: '' @ l)))"
  by pat_completeness auto
termination
  by (relation "measure (\<lambda>(s, line, m, lx). to_read s)") (auto intro: getline_decreases [OF sym])

declare loadWords_loop.simps [simp del]

definition loadWords :: "filesystem \<Rightarrow> string \<Rightarrow> int \<Rightarrow> lexiconMap result" where
  "loadWords fs filename maxWords =
     rbind (createInputStream fs filename)
       (\<lambda>infile. rbind (loadWords_loop infile [] maxWords [])
          (\<lambda>lexicon. Inr (AList.update kUnkToken [] lexicon)))"

text \<open>The number of bytes the lead byte \<open>c\<close> of a UTF-8 sequence announces, \<open>-1\<close> for none.\<close>

definition curTknBytes :: "char \<Rightarrow> int" where
  "curTknBytes ch =
     (let c = (of_char ch :: 8 word) in
      if c AND 0x80 = 0 then 1
      else if c AND 0xE0 = 0xC0 then 2
      else if c AND 0xF0 = 0xE0 then 3
      else if c AND 0xF8 = 0xF0 then 4
      else -1)"

lemma curTknBytes_cases: "curTknBytes c = -1 \<or> (1 \<le> curTknBytes c \<and> curTknBytes c \<le> 4)"
  by (auto simp: curTknBytes_def Let_def)

function splitWrd_loop :: "string \<Rightarrow> nat \<Rightarrow> string list \<Rightarrow> string list result" where
  "splitWrd_loop word i tokens =
     (if i < length word then
        let k = curTknBytes (word ! i) in
        if k = -1 \<or> int (length word) < int i + k
        then Inl (Runtime_error (''splitWrd: invalid UTF-8 : '' @ word))
        else splitWrd_loop word (i + nat k) (tokens @ [take (nat k) (drop i word)])
      else Inr tokens)"
  by pat_completeness auto
termination
proof (relation "measure (\<lambda>(word, i, tokens). length word - i)", goal_cases)
  case (2 word i tokens k)
  then show ?case using curTknBytes_cases [of "word ! i"] by auto
qed simp

declare splitWrd_loop.simps [simp del]

definition splitWrd :: "string \<Rightarrow> string list result" where
  "splitWrd word = splitWrd_loop word 0 []"

text \<open>\<^verbatim>\<open>dict.getIndex("<" + std::to_string(i) + ">")\<close> for \<open>i = 1, \<dots>, maxReps\<close>, in this order.\<close>

definition replabel_name :: "int \<Rightarrow> string" where
  "replabel_name i = ''<'' @ to_string i @ ''>''"

definition replabel_indices :: "dictionary \<Rightarrow> int \<Rightarrow> int list result" where
  "replabel_indices dict maxReps = rmap (\<lambda>i. getIndex dict (replabel_name i)) [1..maxReps]"

text \<open>The state of the packing loop is \<open>(result, prevToken, numReps)\<close>.\<close>

fun pack_step :: "int list \<Rightarrow> int \<Rightarrow> int list \<times> int \<times> nat \<Rightarrow> int \<Rightarrow> int list \<times> int \<times> nat" where
  "pack_step replabelValueToIdx maxReps (result, prevToken, numReps) token =
     (if token = prevToken \<and> int numReps < maxReps then (result, prevToken, numReps + 1)
      else (let (result, numReps) =
              (if 0 < numReps then (result @ [replabelValueToIdx ! (numReps - 1)], 0)
               else (result, numReps))
            in (result @ [token], token, numReps)))"

definition packReplabels :: "int list \<Rightarrow> dictionary \<Rightarrow> int \<Rightarrow> int list result" where
  "packReplabels tokens dict maxReps =
     (if tokens = [] \<or> maxReps \<le> 0 then Inr tokens
      else rbind (replabel_indices dict maxReps)
        (\<lambda>replabelValueToIdx.
           let (result, prevToken, numReps) =
             foldl (pack_step replabelValueToIdx maxReps) ([], -1, 0) tokens
           in Inr (if 0 < numReps then result @ [replabelValueToIdx ! (numReps - 1)] else result)))"

text \<open>
  The table from index to value is filled by \<^verbatim>\<open>emplace\<close>, which keeps the first of two equal keys, as the
  look-up in the association list does.
\<close>

fun unpack_step :: "(int \<times> nat) list \<Rightarrow> int list \<times> int \<Rightarrow> int \<Rightarrow> int list \<times> int" where
  "unpack_step replabelIdxToValue (result, prevToken) token =
     (case map_of replabelIdxToValue token of
        None \<Rightarrow> (result @ [token], token)
      | Some n \<Rightarrow>
          if prevToken \<noteq> -1 then (result @ replicate n prevToken, -1) else (result, prevToken))"

definition unpackReplabels :: "int list \<Rightarrow> dictionary \<Rightarrow> int \<Rightarrow> int list result" where
  "unpackReplabels tokens dict maxReps =
     (if tokens = [] \<or> maxReps \<le> 0 then Inr tokens
      else rbind (replabel_indices dict maxReps)
        (\<lambda>idxs. Inr (fst (foldl (unpack_step (zip idxs [1..<Suc (length idxs)])) ([], -1) tokens))))"

subsection \<open>Replabels: packing and unpacking\<close>

lemma map_of_zip_value:
  assumes "distinct idxs" "n < length idxs"
  shows "map_of (zip idxs [1..<Suc (length idxs)]) (idxs ! n) = Some (Suc n)"
  using assms map_of_zip_nth [of idxs "[1..<Suc (length idxs)]" n] by (simp del: upt_Suc)

lemma map_of_zip_other: "t \<notin> set idxs \<Longrightarrow> map_of (zip idxs ns) t = None"
  by (auto simp: map_of_eq_None_iff dest: set_zip_leftD)

text \<open>
  While packing, what has been written unpacks to the tokens read so far, except for the \<open>numReps\<close>
  repetitions of \<open>prevToken\<close> that are still counted.
\<close>

lemma pack_unpack_invariant:
  assumes "distinct idxs" "int (length idxs) = maxReps"
    and "set tokens \<inter> set idxs = {}" "-1 \<notin> set tokens"
    and "foldl (pack_step idxs maxReps) ([], -1, 0) tokens = (result, prevToken, numReps)"
  shows "\<exists>ts. foldl (unpack_step (zip idxs [1..<Suc (length idxs)])) ([], -1) result = (ts, prevToken) \<and>
     tokens = ts @ replicate numReps prevToken \<and> numReps \<le> length idxs \<and>
     (tokens \<noteq> [] \<longrightarrow> prevToken \<noteq> -1)"
  using assms(3,4,5)
proof (induction tokens arbitrary: result prevToken numReps rule: rev_induct)
  case (snoc token tokens)
  let ?U = "foldl (unpack_step (zip idxs [1..<Suc (length idxs)])) ([], -1)"
  obtain r p n where f: "foldl (pack_step idxs maxReps) ([], -1, 0) tokens = (r, p, n)"
    by (cases "foldl (pack_step idxs maxReps) ([], -1, 0) tokens") auto
  with snoc obtain ts where IH: "?U r = (ts, p)" "tokens = ts @ replicate n p" "n \<le> length idxs"
      "tokens \<noteq> [] \<longrightarrow> p \<noteq> -1" by auto
  have s: "pack_step idxs maxReps (r, p, n) token = (result, prevToken, numReps)"
    using snoc.prems(3) f by simp
  have t: "token \<notin> set idxs" "token \<noteq> -1" using snoc.prems by auto
  consider (rep) "token = p \<and> int n < maxReps" | (flush) "\<not> (token = p \<and> int n < maxReps)" "0 < n"
    | (new) "\<not> (token = p \<and> int n < maxReps)" "n = 0" by blast
  then show ?case
  proof cases
    case rep
    then have "result = r" "prevToken = p" "numReps = n + 1" using s by auto
    then show ?thesis using IH rep assms(2) t by (auto simp: replicate_append_same simp del: upt_Suc)
  next
    case flush
    then obtain m where m: "n = Suc m" "m < length idxs" using IH(3) by (cases n) auto
    have "tokens \<noteq> []" using IH(2) flush(2) by auto
    then have "p \<noteq> -1" using IH(4) by simp
    then have "?U (r @ [idxs ! m]) = (ts @ replicate n p, -1)"
      using IH(1) m map_of_zip_value [OF assms(1) m(2)] by (simp del: upt_Suc)
    then show ?thesis using s IH(2) flush m t by (auto simp: map_of_zip_other simp del: upt_Suc)
  next
    case new
    then show ?thesis using s IH(1,2) t by (auto simp: map_of_zip_other simp del: upt_Suc)
  qed
qed simp

subsection \<open>The loops of \<open>splitWrd\<close> and \<open>loadWords\<close>\<close>

lemma splitWrd_loop_spec:
  assumes "i \<le> length word"
  shows "case splitWrd_loop word i tokens of
      Inr ts \<Rightarrow> (\<exists>us. ts = tokens @ us \<and> concat us = drop i word \<and>
        list_all (\<lambda>t. t \<noteq> [] \<and> int (length t) = curTknBytes (hd t)) us)
    | Inl e \<Rightarrow> list_ex (\<lambda>c. curTknBytes c \<noteq> 1) word"
  using assms
proof (induction word i tokens rule: splitWrd_loop.induct)
  case (1 word i tokens)
  define k where "k = curTknBytes (word ! i)"
  show ?case
  proof (cases "i < length word")
    case False
    then show ?thesis by (subst splitWrd_loop.simps) simp
  next
    case i: True
    show ?thesis
    proof (cases "k = -1 \<or> int (length word) < int i + k")
      case True
      then have "k \<noteq> 1" using i by auto
      then have "list_ex (\<lambda>c. curTknBytes c \<noteq> 1) word"
        using i nth_mem by (fastforce simp: list_ex_iff k_def)
      then show ?thesis using True i by (subst splitWrd_loop.simps) (simp add: k_def Let_def)
    next
      case False
      then have k: "1 \<le> k" "i + nat k \<le> length word"
        using curTknBytes_cases [of "word ! i"] by (auto simp: k_def)
      let ?t = "take (nat k) (drop i word)"
      have step: "splitWrd_loop word i tokens = splitWrd_loop word (i + nat k) (tokens @ [?t])"
        using i False by (subst splitWrd_loop.simps) (simp add: k_def Let_def)
      have "hd ?t = word ! i" using k i by (simp add: hd_take hd_drop_conv_nth)
      then have t: "?t \<noteq> [] \<and> int (length ?t) = curTknBytes (hd ?t)" using k i by (simp add: k_def)
      have d: "drop i word = ?t @ drop (i + nat k) word" 
        using append_take_drop_id [of "nat k" "drop i word"] by (simp add: add.commute)
      have "case splitWrd_loop word (i + nat k) (tokens @ [?t]) of
          Inr ts \<Rightarrow> (\<exists>us. ts = (tokens @ [?t]) @ us \<and> concat us = drop (i + nat k) word \<and>
            list_all (\<lambda>t. t \<noteq> [] \<and> int (length t) = curTknBytes (hd t)) us)
        | Inl e \<Rightarrow> list_ex (\<lambda>c. curTknBytes c \<noteq> 1) word"
        using 1(1) [OF i k_def] False k(2) by simp
      then show ?thesis
      proof (cases "splitWrd_loop word (i + nat k) (tokens @ [?t])")
        case (Inr ts)
        with \<open>case splitWrd_loop word (i + nat k) (tokens @ [?t]) of Inr ts \<Rightarrow> _ ts | Inl e \<Rightarrow> _ e\<close>
        obtain us where "ts = (tokens @ [?t]) @ us" "concat us = drop (i + nat k) word"
          "list_all (\<lambda>t. t \<noteq> [] \<and> int (length t) = curTknBytes (hd t)) us" by auto
        then show ?thesis unfolding step Inr using t d by (auto intro!: exI [of _ "?t # us"])
      qed (simp add: step)
    qed
  qed
qed

lemma keys_add_spelling: "fst ` set (add_spelling w sp lx) = insert w (fst ` set lx)"
  by (auto simp: add_spelling_def Let_def dom_update split: option.splits if_splits
      dest: map_of_SomeD)

lemma distinct_add_spelling: "distinct (map fst lx) \<Longrightarrow> distinct (map fst (add_spelling w sp lx))"
  by (auto simp: add_spelling_def Let_def distinct_update split: option.splits)

lemma length_alist_keys: "distinct (map fst m) \<Longrightarrow> length m = card (fst ` set m)"
  using distinct_card [of "map fst m"] by simp

lemma length_add_spelling: "distinct (map fst lx) \<Longrightarrow> length (add_spelling w sp lx) \<le> Suc (length lx)"
  using distinct_add_spelling [of lx w sp]
  by (simp add: length_alist_keys keys_add_spelling card_insert_le_m1 card_insert_if)

lemma loadWords_loop_keys:
  assumes "loadWords_loop s line maxWords lx = Inr lx'" "distinct (map fst lx)"
    and "int (length lx) \<le> size_of_int maxWords"
  shows "distinct (map fst lx') \<and> int (length lx') \<le> size_of_int maxWords"
  using assms
proof (induction s line maxWords lx rule: loadWords_loop.induct)
  case (1 s line m lx)
  show ?case
  proof (cases "size_of_int m = int (length lx)")
    case True
    then show ?thesis using 1(2,3) by (simp add: loadWords_loop.simps [of s])
  next
    case False
    obtain l t where g: "getline s line = (l, t)" by force
    show ?thesis
    proof (cases "failbit t")
      case True
      then show ?thesis using 1(2,3,4) False g by (simp add: loadWords_loop.simps [of s])
    next
      case f: False
      then obtain w a as where w: "splitOnWhitespace l True = w # a # as"
        using 1(2) False g by (auto simp: loadWords_loop.simps [of s] split: list.splits)
      have "loadWords_loop t l m (add_spelling w (a # as) lx) = Inr lx'"
        using 1(2) False g f w by (simp add: loadWords_loop.simps [of s])
      moreover have "int (length (add_spelling w (a # as) lx)) \<le> size_of_int m"
        using length_add_spelling [OF 1(3), of w "a # as"] 1(4) False by linarith
      ultimately show ?thesis
        using 1(1) [OF False refl g [symmetric] f w refl] distinct_add_spelling [OF 1(3)] by blast
    qed
  qed
qed

subsection \<open>The word dictionary of a lexicon\<close>

lemma addEntry_fresh:
  assumes "dense d" "map_of (entry2idx d) w = None"
  shows "addEntry w d = Inr (d\<lparr>entry2idx := entry2idx d @ [(w, int (indexSize d))],
                              idx2entry := idx2entry d @ [(int (indexSize d), w)]\<rparr>)"
proof -
  have "map_of (idx2entry d) (int (indexSize d)) = None"
    using dom_iff_dense [OF assms(1), of "int (indexSize d)"] by simp
  then show ?thesis using assms
    by (simp add: addEntry_def addEntry_at_def first_free_dense alist_update_new)
qed

lemma rfold_addEntry:
  assumes "dict_inv d" "dense d" "distinct (map fst lx)"
    and "fst ` set lx \<inter> fst ` set (entry2idx d) = {}"
  shows "\<exists>d'. rfold (\<lambda>it. addEntry (fst it)) lx d = Inr d' \<and> dict_inv d' \<and> dense d' \<and>
     fst ` set (entry2idx d') = fst ` set (entry2idx d) \<union> fst ` set lx \<and>
     indexSize d' = indexSize d + length lx"
  using assms
proof (induction lx arbitrary: d)
  case (Cons it lx)
  let ?w = "fst it" and ?n = "int (indexSize d)"
  let ?d = "d\<lparr>entry2idx := entry2idx d @ [(?w, ?n)], idx2entry := idx2entry d @ [(?n, ?w)]\<rparr>"
  have "map_of (entry2idx d) ?w = None" using Cons.prems(4) by (auto simp: map_of_eq_None_iff)
  then have a: "addEntry ?w d = Inr ?d" by (rule addEntry_fresh [OF Cons.prems(2)])
  have "fst ` set lx \<inter> fst ` set (entry2idx ?d) = {}" using Cons.prems(3,4) by force
  with Cons.IH [of ?d] dict_inv_addEntry [OF Cons.prems(1) a] dense_addEntry [OF Cons.prems(2) a]
    Cons.prems(3)
  obtain d' where "rfold (\<lambda>it. addEntry (fst it)) lx ?d = Inr d'" "dict_inv d'" "dense d'"
    "fst ` set (entry2idx d') = fst ` set (entry2idx ?d) \<union> fst ` set lx"
    "indexSize d' = indexSize ?d + length lx" by auto
  then show ?case using a by (auto simp: indexSize_def)
qed simp

subsection \<open>Properties\<close>

text \<open>
  C39. Replabels lose nothing: if the labels \<open><1>, \<dots>, <maxReps>\<close> have pairwise different indices and the
  tokens are real tokens (none is a label, none is the sentinel \<open>-1\<close>), unpacking a packed token
  sequence gives the sequence back, for every \<open>maxReps\<close>.
\<close>

theorem pack_unpack_roundtrip:
  assumes "replabel_indices dict maxReps = Inr idxs" "distinct idxs"
    and "set tokens \<inter> set idxs = {}" "-1 \<notin> set tokens"
  shows "rbind (packReplabels tokens dict maxReps) (\<lambda>packed. unpackReplabels packed dict maxReps) =
    Inr tokens"
proof (cases "tokens = [] \<or> maxReps \<le> 0")
  case True
  then show ?thesis by (auto simp: packReplabels_def unpackReplabels_def)
next
  case False
  have "length idxs = length [1..maxReps]"
    using assms(1) by (auto simp: replabel_indices_def rmap_eq_Inr_iff dest: list_all2_lengthD)
  then have len: "int (length idxs) = maxReps" using False by simp
  obtain r p n where f: "foldl (pack_step idxs maxReps) ([], -1, 0) tokens = (r, p, n)"
    by (cases "foldl (pack_step idxs maxReps) ([], -1, 0) tokens") auto
  let ?U = "foldl (unpack_step (zip idxs [1..<Suc (length idxs)])) ([], -1)"
  let ?packed = "if 0 < n then r @ [idxs ! (n - 1)] else r"
  obtain ts where ts: "?U r = (ts, p)" "tokens = ts @ replicate n p" "n \<le> length idxs" "p \<noteq> -1"
    using pack_unpack_invariant [OF assms(2) len assms(3,4) f] False by blast
  have pk: "packReplabels tokens dict maxReps = Inr ?packed"
    using False assms(1) f by (simp add: packReplabels_def)
  have "fst (?U ?packed) = tokens"
  proof (cases n)
    case (Suc m)
    then show ?thesis using ts map_of_zip_value [OF assms(2), of m] by (simp del: upt_Suc)
  qed (use ts in simp)
  moreover have "?packed \<noteq> []" using ts False by (cases r) auto
  ultimately show ?thesis using False assms(1) pk by (simp add: unpackReplabels_def del: upt_Suc)
qed

theorem pack_unpack_roundtrip_witness:
  "\<exists>dict. replabel_indices dict 2 = Inr [10, 11] \<and> distinct [10, 11 :: int] \<and>
     set [0, 1, 1, 2, 2, 2, 2] \<inter> set [10, 11 :: int] = {} \<and>
     packReplabels [0, 1, 1, 2, 2, 2, 2] dict 2 = Inr [0, 1, 10, 2, 11, 2] \<and>
     rbind (packReplabels [0, 1, 1, 2, 2, 2, 2] dict 2) (\<lambda>packed. unpackReplabels packed dict 2) =
       Inr [0, 1, 1, 2, 2, 2, 2]"
proof -
  let ?d = "\<lparr>entry2idx = [(''<1>'', 10), (''<2>'', 11)], idx2entry = [], defaultIndex = -1\<rparr> :: dictionary"
  have i: "replabel_indices ?d 2 = Inr [10, 11]" by code_simp
  have p: "packReplabels [0, 1, 1, 2, 2, 2, 2] ?d 2 = Inr [0, 1, 10, 2, 11, 2]" by code_simp
  show ?thesis
    using i p pack_unpack_roundtrip [OF i, of "[0, 1, 1, 2, 2, 2, 2]"] by (intro exI [of _ ?d]) auto
qed

text \<open>
  \<open>splitWrd\<close> cuts a word into UTF-8 sequences: the tokens concatenate to the word and each has the
  length its lead byte announces; it fails only on a word with a byte that is not ASCII.
\<close>

theorem splitWrd_spec:
  "case splitWrd word of
     Inr ts \<Rightarrow> concat ts = word \<and>
       list_all (\<lambda>t. t \<noteq> [] \<and> int (length t) = curTknBytes (hd t)) ts
   | Inl e \<Rightarrow> list_ex (\<lambda>c. curTknBytes c \<noteq> 1) word"
  using splitWrd_loop_spec [of 0 word "[]"] by (auto simp: splitWrd_def split: sum.splits)

text \<open>
  C38. Every lexicon that \<open>loadWords\<close> returns gives a word dictionary: no error is possible, the indices
  are contiguous, one per word, every word of the lexicon is found and every other word gets the index
  of \<^verbatim>\<open><unk>\<close>; and with a non-negative \<open>maxWords\<close> at most that many words and \<^verbatim>\<open><unk>\<close> are loaded.
\<close>

theorem loadWords_createWordDict:
  assumes "loadWords fs filename maxWords = Inr lexicon"
  shows "\<exists>d unk. createWordDict lexicon = Inr d \<and> dict_inv d \<and> isContiguous d \<and>
     indexSize d = length lexicon \<and> getIndex d kUnkToken = Inr unk \<and>
     (\<forall>w. contains d w \<longleftrightarrow> w \<in> fst ` set lexicon) \<and>
     (\<forall>w. \<not> contains d w \<longrightarrow> getIndex d w = Inr unk) \<and>
     int (length lexicon) \<le> size_of_int maxWords + 1"
proof -
  obtain s lx where lx: "loadWords_loop s [] maxWords [] = Inr lx"
      "lexicon = AList.update kUnkToken [] lx"
    using assms by (auto simp: loadWords_def rbind_eq_Inr_iff)
  have l: "distinct (map fst lx)" "int (length lx) \<le> size_of_int maxWords"
    using loadWords_loop_keys [OF lx(1)] by (auto simp: size_of_int_def)
  have lex: "distinct (map fst lexicon)" "kUnkToken \<in> fst ` set lexicon"
    using l(1) lx(2) by (simp_all add: distinct_update dom_update)
  have "length lexicon \<le> Suc (length lx)"
    using l(1) lex(1) lx(2) by (simp add: length_alist_keys dom_update card_insert_if)
  with l(2) have len: "int (length lexicon) \<le> size_of_int maxWords + 1" by simp
  have e: "dense empty_dict" "fst ` set (entry2idx empty_dict) = {}" "indexSize empty_dict = 0"
    by (simp_all add: dense_def empty_dict_def indexSize_def)
  obtain d where d: "rfold (\<lambda>it. addEntry (fst it)) lexicon empty_dict = Inr d" "dict_inv d" "dense d"
      "fst ` set (entry2idx d) = fst ` set lexicon" "indexSize d = length lexicon"
    using rfold_addEntry [OF dict_inv_empty e(1) lex(1)] e by auto
  obtain unk where u: "map_of (entry2idx d) kUnkToken = Some unk"
    using d(4) lex(2) by (metis map_of_eq_None_iff not_None_eq)
  have "map_of (idx2entry d) unk \<noteq> None" using u d(2) by (auto simp: dict_inv_def)
  then have "0 \<le> unk" using dom_iff_dense [OF d(3)] by blast
  let ?d = "setDefaultIndex unk d"
  have "createWordDict lexicon = Inr ?d" using d(1) u by (simp add: createWordDict_def getIndex_def)
  moreover have "dict_inv ?d" using d(2) by (rule dict_inv_setDefaultIndex)
  moreover have "isContiguous ?d"
    using isContiguous_dense [OF d(2,3)] by (simp add: isContiguous_def setDefaultIndex_def indexSize_def)
  moreover have "contains ?d w \<longleftrightarrow> w \<in> fst ` set lexicon" for w
    using d(4) by (simp add: contains_def setDefaultIndex_def map_of_eq_None_iff)
  moreover have "getIndex ?d w = Inr unk" if "\<not> contains ?d w" for w
    using that \<open>0 \<le> unk\<close> by (simp add: contains_def getIndex_def setDefaultIndex_def)
  moreover have "getIndex ?d kUnkToken = Inr unk" using u by (simp add: getIndex_def setDefaultIndex_def)
  moreover have "indexSize ?d = length lexicon" using d(5) by (simp add: setDefaultIndex_def indexSize_def)
  ultimately show ?thesis using len by blast
qed

theorem loadWords_createWordDict_witness:
  "loadWords [''words'' \<mapsto> ''hi h i'' @ newline # ''ho h o''] ''words'' 1 =
     Inr [(''hi'', [[''h'', ''i'']]), (''<unk>'', [])] \<and>
   (\<exists>d. createWordDict [(''hi'', [[''h'', ''i'']]), (''<unk>'', [])] = Inr d \<and> isContiguous d)"
proof -
  have l: "loadWords [''words'' \<mapsto> ''hi h i'' @ newline # ''ho h o''] ''words'' 1 =
      Inr [(''hi'', [[''h'', ''i'']]), (''<unk>'', [])]" by code_simp
  show ?thesis using l loadWords_createWordDict [OF l] by blast
qed

end
