(* ===== verification/PartialFileReader.thy ===== *)
theory PartialFileReader
  imports DictionaryUtils
begin

section \<open>Reading one part of a text file (\<^verbatim>\<open>lib/text/tokenizer/PartialFileReader.cpp\<close>)\<close>

text \<open>
  Reader \<open>rank\<close> of \<open>totalReaders\<close> reads the lines that start in its share of the file. The positions are
  the ones the stream reports, so a stream that has reached the end of the file reports \<open>SIZE_MAX\<close>.
\<close>

record partialFileReader =
  rank :: int
  totalReaders :: int
  stream :: istream
  end_pos :: nat

definition closed_stream :: istream where
  "closed_stream = \<lparr>buf = [], pos = 0, eofbit = False, failbit = False\<rparr>"

definition make_reader :: "int \<Rightarrow> int \<Rightarrow> partialFileReader result" where
  "make_reader rnk tot =
     (if rnk < 0 \<or> tot < rnk
      then Inl (Invalid_argument (''Invalid rank: '' @ to_string rnk @ '', given '' @ to_string tot @
             '' readers in total.''))
      else Inr \<lparr>rank = rnk, totalReaders = tot, stream = closed_stream, end_pos = 0\<rparr>)"

text \<open>
  \<^verbatim>\<open>loadFile\<close>: open, find the size, place the end after the line that crosses the end of the share, and
  the start after the line that crosses its beginning. Division by zero readers is undefined.
\<close>

definition loadFile :: "filesystem \<Rightarrow> string \<Rightarrow> partialFileReader \<Rightarrow> partialFileReader result" where
  "loadFile fs filename r =
     rbind (createInputStream fs filename) (\<lambda>s0.
       let s1 = seekg s0 (length (buf s0));
           (fileSize, s2) = tellg s1
       in if totalReaders r = 0 then Inl (Undefined ''division by zero'')
          else let chunkSize = fileSize div nat (size_of_int (totalReaders r));
                   (endp, s3) =
                     (if rank r < totalReaders r - 1
                      then tellg (snd (getline (seekg s2 (chunkSize * nat (rank r + 1))) []))
                      else (fileSize, s2));
                   s4 = seekg s3 (chunkSize * nat (rank r));
                   s5 = (if 0 < rank r then snd (getline s4 []) else s4)
               in Inr (r\<lparr>stream := s5, end_pos := endp\<rparr>))"

definition getPosition :: "partialFileReader \<Rightarrow> nat \<times> partialFileReader" where
  "getPosition r = (let (p, s) = tellg (stream r) in (p, r\<lparr>stream := s\<rparr>))"

definition hasNextLine :: "partialFileReader \<Rightarrow> bool \<times> partialFileReader" where
  "hasNextLine r = (let (p, r') = getPosition r in (p < end_pos r', r'))"

definition getLine :: "partialFileReader \<Rightarrow> string \<times> partialFileReader" where
  "getLine r = (let (line, s) = getline (stream r) [] in (trim line, r\<lparr>stream := s\<rparr>))"

text \<open>A line that \<open>hasNextLine\<close> announced brings the end of the file closer.\<close>

lemma good_getline_decreases:
  assumes "good s"
  shows "to_read (snd (getline s line)) < to_read s"
  using assms
proof (cases rule: getline_cases [of s line])
  case (line l rest)
  then have "pos s < length (buf s)" by (metis drop_all linorder_not_less list.distinct(1) append_is_Nil_conv)
  with line show ?thesis by (simp add: to_read_def)
qed (use assms in \<open>simp_all add: to_read_def good_def\<close>)

lemma tellg_good: "tellg s = (p, t) \<Longrightarrow> p < SIZE_MAX \<or> p \<noteq> SIZE_MAX \<Longrightarrow> good s \<and> t = s \<and> p = pos s"
  by (auto simp: tellg_def sentry_def good_def Let_def split: if_splits)

lemma hasNextLine_decreases:
  assumes "hasNextLine r = (True, r1)" "getLine r1 = (l, r2)" "end_pos r \<le> SIZE_MAX"
  shows "to_read (stream r2) < to_read (stream r)"
proof -
  obtain p s where t: "tellg (stream r) = (p, s)" by force
  then have "p < end_pos r" "r1 = r\<lparr>stream := s\<rparr>"
    using assms(1) by (auto simp: hasNextLine_def getPosition_def)
  then have "good (stream r)" "r1 = r" using assms(3) tellg_good [OF t] by auto
  then show ?thesis
    using assms(2) good_getline_decreases [of "stream r" "[]"]
    by (auto simp: getLine_def split: prod.splits)
qed

text \<open>
  \<^verbatim>\<open>getLines\<close>; a \<^verbatim>\<open>size_t\<close> never exceeds \<open>SIZE_MAX\<close>, so the guard on \<open>end_pos\<close> holds for every reader.
\<close>

function getLines :: "partialFileReader \<Rightarrow> string list \<Rightarrow> string list \<times> partialFileReader" where
  "getLines r lines =
     (if SIZE_MAX < end_pos r then (lines, r)
      else let (more, r1) = hasNextLine r in
        if more then let (l, r2) = getLine r1 in getLines r2 (lines @ [l]) else (lines, r1))"
  by pat_completeness auto
termination
  by (relation "measure (\<lambda>(r, lines). to_read (stream r))")
    (auto intro: hasNextLine_decreases [OF sym sym])

declare getLines.simps [simp del]

subsection \<open>A stream between two line boundaries\<close>

definition reads :: "string \<Rightarrow> nat \<Rightarrow> istream" where
  "reads text p = \<lparr>buf = text, pos = p, eofbit = False, failbit = False\<rparr>"

lemma reads_simps [simp]:
  "buf (reads text p) = text" "pos (reads text p) = p" "good (reads text p)"
  "(reads text p)\<lparr>pos := q\<rparr> = reads text q"
  "seekg (reads text p) q = reads text q" "tellg (reads text p) = (p, reads text p)"
  by (simp_all add: reads_def good_def seekg_def tellg_def sentry_def)

text \<open>\<open>p\<close> is the beginning or the end of the text, or just after a newline.\<close>

definition boundary :: "string \<Rightarrow> nat \<Rightarrow> bool" where
  "boundary text p \<longleftrightarrow> p \<le> length text \<and> (p = 0 \<or> text ! (p - 1) = newline)"

lemma text_lines_append: "a = [] \<or> last a = newline \<Longrightarrow> text_lines (a @ b) = text_lines a @ text_lines b"
proof (induction a)
  case (Cons c a)
  show ?case
  proof (cases a)
    case Nil
    then show ?thesis using Cons.prems by simp
  next
    case (Cons d a')
    moreover from this have "text_lines a \<noteq> []" by (simp split: list.splits)
    ultimately show ?thesis using Cons.IH Cons.prems
      by (cases "text_lines a") (auto split: list.splits)
  qed
qed simp

lemma getline_reads:
  assumes "newline \<in> set (drop p text)"
  shows "\<exists>l rest. drop p text = l @ newline # rest \<and> newline \<notin> set l \<and>
     getline (reads text p) line = (l, reads text (p + length l + 1))"
proof -
  have "good (reads text p)" by simp
  then show ?thesis
    using assms by (cases rule: getline_cases [of "reads text p" line]) auto
qed

lemma getLines_reads:
  assumes "stream r = reads text p" "p \<le> end_pos r" "boundary text (end_pos r)" "end_pos r \<le> SIZE_MAX"
  shows "fst (getLines r lines) = lines @ map trim (text_lines (take (end_pos r - p) (drop p text)))"
  using assms
proof (induction "end_pos r - p" arbitrary: r p lines rule: less_induct)
  case less
  let ?e = "end_pos r"
  have h: "hasNextLine r = (p < ?e, r)"
    using less.prems(1) by (simp add: hasNextLine_def getPosition_def)
  show ?case
  proof (cases "p < ?e")
    case False
    then show ?thesis using h less.prems(4) by (subst getLines.simps) simp
  next
    case True
    have e: "?e \<le> length text" "text ! (?e - 1) = newline" using less.prems(3) True by (auto simp: boundary_def)
    then have "drop p text ! (?e - 1 - p) = newline" "?e - 1 - p < length (drop p text)"
      using True by auto
    then have "newline \<in> set (drop p text)" by (metis nth_mem)
    then obtain l rest where l: "drop p text = l @ newline # rest" "newline \<notin> set l"
        "getline (reads text p) [] = (l, reads text (p + length l + 1))"
      using getline_reads by blast
    have le: "p + length l + 1 \<le> ?e"
    proof (rule ccontr)
      assume "\<not> p + length l + 1 \<le> ?e"
      then have i: "?e - 1 - p < length l" using True by simp
      then have "l ! (?e - 1 - p) = newline"
        using \<open>drop p text ! (?e - 1 - p) = newline\<close> l(1) by (simp add: nth_append)
      then show False using l(2) i nth_mem by metis
    qed
    let ?r = "r\<lparr>stream := reads text (p + length l + 1)\<rparr>"
    have "getLine r = (trim l, ?r)" using l(3) less.prems(1) by (simp add: getLine_def)
    then have "getLines r lines = getLines ?r (lines @ [trim l])"
      using h True less.prems(4) by (subst getLines.simps) simp
    moreover have "fst (getLines ?r (lines @ [trim l])) = (lines @ [trim l]) @
        map trim (text_lines (take (?e - (p + length l + 1)) (drop (p + length l + 1) text)))"
      using less.hyps [of ?r "p + length l + 1" "lines @ [trim l]"] True le less.prems(3,4) by simp
    moreover have "take (?e - p) (drop p text) =
        l @ newline # take (?e - (p + length l + 1)) (drop (p + length l + 1) text)"
    proof -
      have "drop (p + length l + 1) text = drop (length l + 1) (drop p text)" by (simp add: add.commute)
      then have r: "drop (p + length l + 1) text = rest" using l(1) by simp
      have "?e - p - length l = Suc (?e - (p + length l + 1))" "length l \<le> ?e - p" using le by simp_all
      then show ?thesis unfolding r l(1) take_append by simp
    qed
    ultimately show ?thesis using l(2) by (simp add: text_lines_newline)
  qed
qed

subsection \<open>The shares of the readers\<close>

text \<open>Where reader \<open>k\<close> starts, which is where reader \<open>k - 1\<close> ends.\<close>

definition line_cut :: "string \<Rightarrow> nat \<Rightarrow> nat \<Rightarrow> nat" where
  "line_cut text chunk k =
     (if k = 0 then 0
      else chunk * k + length (takeWhile (\<lambda>c. c \<noteq> newline) (drop (chunk * k) text)) + 1)"

lemma newline_ahead:
  assumes "text \<noteq> []" "last text = newline" "q < length text"
  shows "newline \<in> set (drop q text)"
proof -
  have "last (drop q text) = newline" "drop q text \<noteq> []" using assms by (simp_all add: last_drop)
  then show ?thesis by (metis last_in_set)
qed

lemma skip_line:
  assumes "newline \<in> set (drop q text)"
  defines "e \<equiv> q + length (takeWhile (\<lambda>c. c \<noteq> newline) (drop q text)) + 1"
  shows "snd (getline (reads text q) line) = reads text e" "boundary text e" "q < e"
proof -
  obtain l rest where l: "drop q text = l @ newline # rest" "newline \<notin> set l"
      "getline (reads text q) line = (l, reads text (q + length l + 1))"
    using getline_reads [OF assms(1)] by blast
  have "takeWhile (\<lambda>c. c \<noteq> newline) (drop q text) = l"
    unfolding l(1) using l(2) by (simp add: takeWhile_append_stop takeWhile_eq_all_conv) auto
  then have e: "e = q + length l + 1" by (simp add: e_def)
  then show "snd (getline (reads text q) line) = reads text e" "q < e" using l(3) by simp_all
  have "length (drop q text) = length l + 1 + length rest" unfolding l(1) by simp
  moreover from this have "q < length text" by (cases "q < length text") auto
  ultimately have "e \<le> length text" using e by simp
  moreover have "text ! (e - 1) = drop q text ! length l" using e \<open>q < length text\<close> by simp
  then have "text ! (e - 1) = newline" unfolding l(1) by simp
  ultimately show "boundary text e" by (simp add: boundary_def)
qed

lemma skip_line_least:
  assumes "newline \<in> set (drop q text)" "boundary text b" "q < b"
  shows "q + length (takeWhile (\<lambda>c. c \<noteq> newline) (drop q text)) + 1 \<le> b"
proof (rule ccontr)
  let ?w = "takeWhile (\<lambda>c. c \<noteq> newline) (drop q text)"
  assume "\<not> ?thesis"
  then have i: "b - 1 - q < length ?w" using assms(3) by simp
  then have "?w ! (b - 1 - q) = drop q text ! (b - 1 - q)" by (rule takeWhile_nth)
  also have "\<dots> = newline" using assms(2,3) by (simp add: boundary_def)
  finally have "newline \<in> set ?w" using i nth_mem by metis
  then show False by (auto dest: set_takeWhileD)
qed

lemma chunk_inside: "0 < n \<Longrightarrow> 0 < len \<Longrightarrow> k < n \<Longrightarrow> (len div n) * k < (len :: nat)"
proof (cases "len div n = 0")
  case False
  assume "0 < n" "0 < len" "k < n"
  then have "(len div n) * k < (len div n) * n" using False by simp
  also have "\<dots> \<le> len" by simp
  finally show ?thesis .
qed simp

text \<open>The cuts of a text that ends in a newline are line boundaries in increasing order.\<close>

lemma cut_boundary:
  assumes "text \<noteq> []" "last text = newline" "k < n"
  shows "boundary text (line_cut text (length text div n) k)"
proof (cases k)
  case (Suc j)
  then show ?thesis
    using skip_line(2) [OF newline_ahead [OF assms(1,2) chunk_inside], of n k] assms by (simp add: line_cut_def)
qed (simp add: line_cut_def boundary_def)

lemma cut_mono:
  assumes "text \<noteq> []" "last text = newline" "Suc k < n"
  shows "line_cut text (length text div n) k \<le> line_cut text (length text div n) (Suc k)"
proof (cases k)
  case (Suc j)
  let ?c = "length text div n"
  have nl: "newline \<in> set (drop (?c * j) text)" if "j < n" for j
    using newline_ahead [OF assms(1,2) chunk_inside [of n "length text" j]] assms that by simp
  have "?c * k \<le> ?c * Suc k" by simp
  also have "\<dots> < line_cut text ?c (Suc k)"
    using skip_line(3) [OF nl [OF assms(3)]] by (simp add: line_cut_def)
  finally show ?thesis
    using skip_line_least [OF nl cut_boundary [OF assms], of k] assms(3) Suc by (simp add: line_cut_def)
qed (simp add: line_cut_def)

text \<open>The end of reader \<open>k\<close>'s share.\<close>

definition share_end :: "string \<Rightarrow> nat \<Rightarrow> nat \<Rightarrow> nat" where
  "share_end text n k = (if Suc k < n then line_cut text (length text div n) (Suc k) else length text)"

lemma boundary_length: "text = [] \<or> last text = newline \<Longrightarrow> boundary text (length text)"
  by (cases "text = []") (auto simp: boundary_def last_conv_nth)

lemma share_end_boundary:
  "text \<noteq> [] \<Longrightarrow> last text = newline \<Longrightarrow> boundary text (share_end text n k)"
  by (simp add: share_end_def cut_boundary boundary_length)

lemma shares_cover:
  assumes "text \<noteq> []" "last text = newline" "0 < n"
  shows "concat (map (\<lambda>k. text_lines (take (share_end text n k - line_cut text (length text div n) k)
            (drop (line_cut text (length text div n) k) text))) [0..<n]) = text_lines text"
proof -
  let ?cut = "line_cut text (length text div n)"
  let ?seg = "\<lambda>k. text_lines (take (share_end text n k - ?cut k) (drop (?cut k) text))"
  have prefix_end: "take b text = [] \<or> last (take b text) = newline" if "boundary text b" for b
    using that by (cases b) (auto simp: boundary_def take_Suc_conv_app_nth)
  have pre: "concat (map ?seg [0..<m]) = text_lines (take (?cut m) text)" if "m < n" for m
    using that
  proof (induction m)
    case (Suc m)
    have le: "?cut m \<le> ?cut (Suc m)" using assms Suc.prems by (intro cut_mono) auto
    have "take (?cut (Suc m)) text = take (?cut m) text @ take (?cut (Suc m) - ?cut m) (drop (?cut m) text)"
      using le by (metis le_add_diff_inverse take_add)
    moreover have "boundary text (?cut m)" using assms Suc.prems by (intro cut_boundary) auto
    ultimately show ?case
      using Suc prefix_end text_lines_append by (simp add: share_end_def)
  qed (simp add: line_cut_def)
  obtain m where m: "n = Suc m" using assms(3) by (cases n) auto
  have "boundary text (?cut m)" using assms m by (intro cut_boundary) auto
  then have "text_lines text = text_lines (take (?cut m) text) @ text_lines (drop (?cut m) text)"
    using prefix_end text_lines_append [of "take (?cut m) text" "drop (?cut m) text"] by simp
  moreover have "?seg m = text_lines (drop (?cut m) text)" using m by (simp add: share_end_def)
  ultimately show ?thesis using pre [of m] m by simp
qed

subsection \<open>What the readers return\<close>

text \<open>One worker of the class's usage comment: construct, load, read all lines.\<close>

definition read_part :: "filesystem \<Rightarrow> string \<Rightarrow> nat \<Rightarrow> nat \<Rightarrow> string list result" where
  "read_part fs filename n k =
     rbind (make_reader (int k) (int n))
       (\<lambda>r. rbind (loadFile fs filename r) (\<lambda>r. Inr (fst (getLines r []))))"

lemma loadFile_share:
  assumes "fs filename = Some text" "text \<noteq> []" "last text = newline" "k < n" "n < 2 ^ 64"
    and "rank r = int k" "totalReaders r = int n"
  shows "loadFile fs filename r =
    Inr (r\<lparr>stream := reads text (line_cut text (length text div n) k), end_pos := share_end text n k\<rparr>)"
proof -
  let ?c = "length text div n"
  have n: "nat (size_of_int (int n)) = n" using assms(5) by (simp add: size_of_int_def)
  have s0: "createInputStream fs filename = Inr (reads text 0)"
    using assms(1) by (simp add: createInputStream_def reads_def)
  have nl: "newline \<in> set (drop (?c * j) text)" if "j < n" for j
    using newline_ahead [OF assms(2,3) chunk_inside] that assms(2) by simp
  have e: "tellg (snd (getline (reads text (?c * nat (int k + 1))) [])) =
      (line_cut text ?c (Suc k), reads text (line_cut text ?c (Suc k)))" if "Suc k < n"
    using skip_line(1) [OF nl [OF that], of "[]"] by (simp add: line_cut_def nat_add_distrib)
  have b: "snd (getline (reads text (?c * k)) []) = reads text (line_cut text ?c k)" if "0 < k"
    using skip_line(1) [OF nl [OF assms(4)], of "[]"] that by (simp add: line_cut_def)
  show ?thesis
    using assms(4,6,7) s0 n e b
    by (cases "Suc k < n"; cases k)
      (auto simp: loadFile_def share_end_def line_cut_def Let_def simp del: of_nat_Suc)
qed

lemma read_part_lines:
  assumes "fs filename = Some text" "text \<noteq> []" "last text = newline" "k < n" "n < 2 ^ 64"
    and "length text \<le> SIZE_MAX"
  shows "read_part fs filename n k = Inr (map trim (text_lines
    (take (share_end text n k - line_cut text (length text div n) k)
       (drop (line_cut text (length text div n) k) text))))"
proof -
  let ?c = "length text div n"
  have "boundary text (share_end text n k)" using assms(2,3) by (rule share_end_boundary)
  moreover from this have "share_end text n k \<le> SIZE_MAX" using assms(6) by (simp add: boundary_def)
  moreover have "line_cut text ?c k \<le> share_end text n k"
    using assms cut_mono [OF assms(2,3), of k n] cut_boundary [OF assms(2,3,4)]
    by (auto simp: share_end_def boundary_def)
  ultimately show ?thesis
    using assms loadFile_share [of fs filename "text" k n]
    by (simp add: read_part_def make_reader_def getLines_reads)
qed

lemma read_part_empty:
  assumes "fs filename = Some []" "k < n"
  shows "read_part fs filename n k = Inr []"
proof -
  have s0: "createInputStream fs filename = Inr (reads [] 0)"
    using assms(1) by (simp add: createInputStream_def reads_def)
  let ?f = "\<lparr>buf = [], pos = 0, eofbit = True, failbit = True\<rparr>"
  have g: "getline (reads [] 0) [] = ([], ?f)" by (simp add: getline_def good_def reads_def)
  have f: "tellg ?f = (SIZE_MAX, ?f)" "seekg ?f 0 = ?f\<lparr>eofbit := False\<rparr>"
    "tellg (?f\<lparr>eofbit := False\<rparr>) = (SIZE_MAX, ?f\<lparr>eofbit := False\<rparr>)"
    "getline (?f\<lparr>eofbit := False\<rparr>) [] = ([], ?f\<lparr>eofbit := False\<rparr>)"
    by (simp_all add: tellg_def seekg_def getline_def sentry_def good_def)
  have stop: "fst (getLines r []) = []" if "\<not> fst (hasNextLine r)" for r
    using that by (subst getLines.simps) (auto split: prod.splits)
  have "\<exists>r. loadFile fs filename \<lparr>rank = int k, totalReaders = int n, stream = closed_stream, end_pos = 0\<rparr> =
      Inr r \<and> \<not> fst (hasNextLine r)"
    using assms(2) s0 g f
    by (cases "Suc k < n"; cases k)
      (auto simp: loadFile_def Let_def hasNextLine_def getPosition_def simp del: of_nat_Suc)
  then show ?thesis using assms(2) stop by (auto simp: read_part_def make_reader_def)
qed

lemma read_parts_lines:
  assumes "fs filename = Some text" "text = [] \<or> last text = newline" "length text \<le> SIZE_MAX"
    and "0 < n" "n < 2 ^ 64"
  shows "\<exists>parts. rmap (read_part fs filename n) [0..<n] = Inr parts \<and>
    concat parts = map trim (text_lines text)"
proof (cases "text = []")
  case True
  have "rmap (read_part fs filename n) [0..<n] = Inr (map (\<lambda>k. []) [0..<n])"
    using assms True by (intro rmap_Inr_map) (simp add: read_part_empty)
  then show ?thesis using True by simp
next
  case False
  let ?seg = "\<lambda>k. text_lines (take (share_end text n k - line_cut text (length text div n) k)
       (drop (line_cut text (length text div n) k) text))"
  have "rmap (read_part fs filename n) [0..<n] = Inr (map (\<lambda>k. map trim (?seg k)) [0..<n])"
    using assms False by (intro rmap_Inr_map) (simp add: read_part_lines)
  moreover have "concat (map (\<lambda>k. map trim (?seg k)) [0..<n]) = map trim (text_lines text)"
    using shares_cover [of "text" n] assms False by (simp add: concat_map_map)
  ultimately show ?thesis by blast
qed

text \<open>
  C23. The readers partition the file: for a file that is empty or ends in a newline and any number of
  readers, the lines returned by readers \<open>0, \<dots>, n - 1\<close> are, in order, exactly the (trimmed) lines of the
  file. No line is read twice and none is lost.
\<close>

theorem readers_partition_lines:
  assumes "fs filename = Some text" "text = [] \<or> last text = newline" "length text \<le> SIZE_MAX"
    and "0 < n" "n < 2 ^ 64"
  shows "\<exists>parts. rmap (read_part fs filename n) [0..<n] = Inr parts \<and>
    concat parts = map trim (text_lines text)"
  using assms by (rule read_parts_lines)

theorem readers_partition_lines_witness:
  "\<exists>parts. rmap (read_part [''f'' \<mapsto> ''ab'' @ newline # '' c '' @ [newline]] ''f'' 2) [0..<2] = Inr parts \<and>
     concat parts = [''ab'', ''c'']"
proof -
  let ?t = "''ab'' @ newline # '' c '' @ [newline]"
  have "length ?t \<le> SIZE_MAX" by (simp add: SIZE_MAX_def SIZE_MOD_def)
  moreover have "map trim (text_lines ?t) = [''ab'', ''c'']" by code_simp
  ultimately show ?thesis
    using readers_partition_lines [of "[''f'' \<mapsto> ?t]" "''f''" ?t 2] by simp
qed

text \<open>
  The hypothesis on the final newline is needed: with two readers, the file with the lines \<^verbatim>\<open>a\<close> and \<^verbatim>\<open>bcd\<close> (no newline at
  its end) has two lines and neither reader returns any. Reader 0 looks for the end of its share by
  reading to the end of the file, after which \<^verbatim>\<open>tellg\<close> fails and the stream cannot be rewound.
\<close>

lemma readers_lose_unterminated_file:
  "text_lines (''a'' @ newline # ''bcd'') = [''a'', ''bcd''] \<and>
   read_part [''f'' \<mapsto> ''a'' @ newline # ''bcd''] ''f'' 2 0 = Inr [] \<and>
   read_part [''f'' \<mapsto> ''a'' @ newline # ''bcd''] ''f'' 2 1 = Inr []"
proof -
  let ?t = "''a'' @ newline # ''bcd''"
  have nl: "CHR ''b'' \<noteq> newline" "CHR ''c'' \<noteq> newline" "CHR ''d'' \<noteq> newline" "CHR ''a'' \<noteq> newline"
    by (simp_all add: newline_def)
  have n2: "nat (size_of_int 2) = 2" by (simp add: size_of_int_def)
  note run = read_part_def make_reader_def loadFile_def createInputStream_def seekg_def tellg_def
    sentry_def good_def getline_def getLines.simps hasNextLine_def getPosition_def Let_def n2
  have "read_part [''f'' \<mapsto> ?t] ''f'' 2 0 = Inr []" using nl by (simp add: run)
  moreover have "read_part [''f'' \<mapsto> ?t] ''f'' 2 1 = Inr []" using nl by (simp add: run)
  ultimately show ?thesis using nl by simp
qed

end
