(* ===== verification/Tokenizer.thy ===== *)
theory Tokenizer
  imports PartialFileReader
begin

section \<open>Counting the tokens of a text file (\<^verbatim>\<open>lib/text/tokenizer/Tokenizer.h\<close>, \<^verbatim>\<open>Tokenizer.cpp\<close>)\<close>

text \<open>
  Every worker counts the tokens of its part of the file with a reader of its own; the results are
  gathered in the order of the workers, so the threads' interleaving does not matter. A
  \<^verbatim>\<open>TokenCountMap\<close> is an association list with distinct keys.
\<close>

type_synonym tokenCountMap = "(string \<times> nat) list"
type_synonym textFileMetaData = "(nat \<times> nat) list"

record tokenizer =
  totalTokens :: nat
  totalSentences :: nat
  fileMetaData :: textFileMetaData
  tokenCountPairs :: "(string \<times> nat) list"

definition new_tokenizer :: tokenizer where
  "new_tokenizer = \<lparr>totalTokens = 0, totalSentences = 0, fileMetaData = [], tokenCountPairs = []\<rparr>"

definition tokenize :: "string \<Rightarrow> string list" where
  "tokenize sentence = splitOnWhitespace sentence True"

text \<open>\<^verbatim>\<open>if (m.find(k) == m.end()) m[k] = 0; m[k] += n;\<close>\<close>

definition add_count :: "tokenCountMap \<Rightarrow> string \<Rightarrow> nat \<Rightarrow> tokenCountMap" where
  "add_count m k n =
     (let m1 = (if map_of m k = None then AList.update k 0 m else m) in
      case map_of m1 k of None \<Rightarrow> AList.update k n m1 | Some c \<Rightarrow> AList.update k (c + n) m1)"

text \<open>
  The lambda \<^verbatim>\<open>countPartialFile\<close>: the loop over the reader's lines. With \<open>generateMetaData\<close> the position
  after the line and its number of tokens are recorded.
\<close>

lemma to_read_tellg [simp]: "to_read (snd (tellg s)) = to_read s"
  by (simp add: tellg_def sentry_def to_read_def Let_def)

lemma to_read_getPosition [simp]: "to_read (stream (snd (getPosition r))) = to_read (stream r)"
  using to_read_tellg [of "stream r"] by (cases "tellg (stream r)") (simp add: getPosition_def)

definition note_position ::
  "bool \<Rightarrow> partialFileReader \<Rightarrow> textFileMetaData \<Rightarrow> nat \<Rightarrow> textFileMetaData \<times> partialFileReader" where
  "note_position generateMetaData r meta n =
     (if generateMetaData then let (p, r') = getPosition r in (meta @ [(p, n)], r') else (meta, r))"

lemma to_read_note_position [simp]:
  "to_read (stream (snd (note_position gen r meta n))) = to_read (stream r)"
  using to_read_getPosition [of r] by (cases "getPosition r") (simp add: note_position_def)

function count_loop ::
  "bool \<Rightarrow> partialFileReader \<Rightarrow> tokenCountMap \<Rightarrow> textFileMetaData \<Rightarrow> nat \<Rightarrow>
     nat \<times> tokenCountMap \<times> textFileMetaData" where
  "count_loop generateMetaData r counts meta nSentences =
     (if SIZE_MAX < end_pos r then (nSentences, counts, meta)
      else let (more, r1) = hasNextLine r in
        if more then
          let (line, r2) = getLine r1;
              tokens = tokenize line;
              counts' = foldl (\<lambda>m token. add_count m token 1) counts tokens;
              (meta', r3) = note_position generateMetaData r2 meta (length tokens)
          in count_loop generateMetaData r3 counts' meta' (nSentences + 1)
        else (nSentences, counts, meta))"
  by pat_completeness auto
termination
proof (relation "measure (\<lambda>(gen, r, m, meta, n). to_read (stream r))", goal_cases)
  case prems: (2 gen r counts meta n x more r1 y line r2 tokens counts' z meta' r3)
  have "to_read (stream r2) < to_read (stream r)"
    using prems by (intro hasNextLine_decreases [of r r1 line r2]) auto
  moreover have "to_read (stream r3) = to_read (stream r2)"
    using prems to_read_note_position [of gen r2 meta "length tokens"] by (metis snd_conv)
  ultimately show ?case by simp
qed simp

declare count_loop.simps [simp del]

definition countPartialFile ::
  "filesystem \<Rightarrow> string \<Rightarrow> int \<Rightarrow> int \<Rightarrow> bool \<Rightarrow> (nat \<times> tokenCountMap \<times> textFileMetaData) result" where
  "countPartialFile fs filename numWorkers rnk generateMetaData =
     rbind (make_reader rnk numWorkers)
       (\<lambda>r. rbind (loadFile fs filename r) (\<lambda>r. Inr (count_loop generateMetaData r [] [] 0)))"

text \<open>\<^verbatim>\<open>std::string\<close> comparison, by unsigned bytes, and the order of the result.\<close>

fun str_less :: "string \<Rightarrow> string \<Rightarrow> bool" where
  "str_less _ [] = False"
| "str_less [] (_ # _) = True"
| "str_less (a # as) (b # bs) = (of_char a < (of_char b :: nat) \<or> a = b \<and> str_less as bs)"

definition count_before :: "string \<times> nat \<Rightarrow> string \<times> nat \<Rightarrow> bool" where
  "count_before wcp1 wcp2 =
     (if snd wcp1 \<noteq> snd wcp2 then snd wcp2 < snd wcp1 else str_less (fst wcp1) (fst wcp2))"

text \<open>The state of the gathering loop is (sentences, tokens, counts, meta data).\<close>

fun gather_step ::
  "bool \<Rightarrow> nat \<times> nat \<times> tokenCountMap \<times> textFileMetaData \<Rightarrow>
     nat \<times> tokenCountMap \<times> textFileMetaData \<Rightarrow> nat \<times> nat \<times> tokenCountMap \<times> textFileMetaData" where
  "gather_step generateMetaData (sents, toks, counts, meta) (n, sub, submeta) =
     (let (counts', toks') =
        foldl (\<lambda>(m, t) (k, c). (add_count m k c, t + c)) (counts, toks) sub
      in (sents + n, toks', counts', if generateMetaData then meta @ submeta else meta))"

definition countTokens ::
  "filesystem \<Rightarrow> string \<Rightarrow> int \<Rightarrow> bool \<Rightarrow> tokenizer \<Rightarrow> tokenizer result" where
  "countTokens fs filename numWorkers generateMetaData t =
     (if numWorkers < 0 then Inl (Length_error ''vector'') else
      rbind (rmap (\<lambda>i. countPartialFile fs filename numWorkers i generateMetaData) [0..numWorkers - 1])
       (\<lambda>subs.
          let (sents, toks, counts, meta) =
            foldl (gather_step generateMetaData) (totalSentences t, totalTokens t, [], []) subs
          in Inr \<lparr>totalTokens = toks, totalSentences = sents, fileMetaData = meta,
                  tokenCountPairs = std_sort count_before counts\<rparr>))"

definition pruneTokens :: "int \<Rightarrow> int \<Rightarrow> tokenizer \<Rightarrow> tokenizer" where
  "pruneTokens maxTokens minAppearence t =
     (let size = length (tokenCountPairs t);
          maxTokens' = (if -1 < maxTokens \<and> size_of_int maxTokens < int size then nat maxTokens else size);
          pairs = take maxTokens' (tokenCountPairs t)
      in t\<lparr>tokenCountPairs := takeWhile (\<lambda>p. size_of_int minAppearence \<le> int (snd p)) pairs\<rparr>)"

definition getDictionary :: "tokenizer \<Rightarrow> (string \<times> nat) list" where
  "getDictionary t = tokenCountPairs t"

definition getTextFileMetaData :: "tokenizer \<Rightarrow> textFileMetaData" where
  "getTextFileMetaData t = fileMetaData t"

subsection \<open>Counting\<close>

definition count_of :: "tokenCountMap \<Rightarrow> string \<Rightarrow> nat" where
  "count_of m k = (case map_of m k of None \<Rightarrow> 0 | Some c \<Rightarrow> c)"

lemma count_of_add_count: "count_of (add_count m k n) w = count_of m w + (if w = k then n else 0)"
  by (auto simp: count_of_def add_count_def Let_def update_conv' not_None_eq split: option.splits)

lemma keys_add_count: "fst ` set (add_count m k n) = insert k (fst ` set m)"
  by (auto simp: add_count_def Let_def dom_update split: option.splits)

lemma distinct_add_count: "distinct (map fst m) \<Longrightarrow> distinct (map fst (add_count m k n))"
  by (auto simp: add_count_def Let_def distinct_update split: option.splits)

lemma count_of_words:
  "count_of (foldl (\<lambda>m t. add_count m t 1) m ts) w = count_of m w + count_list ts w"
  by (induction ts arbitrary: m) (auto simp: count_of_add_count)

lemma keys_words: "fst ` set (foldl (\<lambda>m t. add_count m t 1) m ts) = fst ` set m \<union> set ts"
  by (induction ts arbitrary: m) (auto simp: keys_add_count)

lemma distinct_words: "distinct (map fst m) \<Longrightarrow> distinct (map fst (foldl (\<lambda>m t. add_count m t 1) m ts))"
  by (induction ts arbitrary: m) (auto simp: distinct_add_count)

lemma count_of_alist: "distinct (map fst m) \<Longrightarrow> (k, c) \<in> set m \<Longrightarrow> count_of m k = c"
  by (simp add: count_of_def)

definition sum_counts :: "tokenCountMap \<Rightarrow> nat" where
  "sum_counts m = sum_list (map snd m)"

lemma merge_counts:
  assumes "foldl (\<lambda>(m, t) (k, c). (add_count m k c, t + c)) (m, t) sub = (m', t')" "distinct (map fst sub)"
  shows "count_of m' w = count_of m w + count_of sub w \<and> t' = t + sum_counts sub \<and>
     fst ` set m' = fst ` set m \<union> fst ` set sub \<and> (distinct (map fst m) \<longrightarrow> distinct (map fst m'))"
  using assms
proof (induction sub arbitrary: m t)
  case (Cons kc sub)
  obtain k c where kc: "kc = (k, c)" by (cases kc)
  have IH: "count_of m' w = count_of (add_count m k c) w + count_of sub w \<and> t' = (t + c) + sum_counts sub \<and>
      fst ` set m' = fst ` set (add_count m k c) \<union> fst ` set sub \<and>
      (distinct (map fst (add_count m k c)) \<longrightarrow> distinct (map fst m'))"
    using Cons.IH [of "add_count m k c" "t + c"] Cons.prems kc by simp
  have "k \<notin> fst ` set sub" using Cons.prems(2) kc by simp
  then have "count_of sub k = 0" by (simp add: count_of_def map_of_eq_None_iff split: option.splits) (metis domI dom_map_of_conv_image_fst)
  moreover have "count_of (kc # sub) w = (if w = k then c else count_of sub w)" by (simp add: kc count_of_def)
  ultimately show ?case
    using IH by (auto simp: kc count_of_add_count keys_add_count distinct_add_count sum_counts_def)
qed (simp add: count_of_def sum_counts_def)

lemma sum_counts_words:
  "sum_counts (foldl (\<lambda>m t. add_count m t 1) m ts) = sum_counts m + length ts"
proof (induction ts arbitrary: m)
  case (Cons t ts)
  have "sum_counts (add_count m t 1) = sum_counts m + 1"
  proof -
    have "sum_list (map snd (AList.update t (c + 1) m)) = sum_list (map snd m) + 1"
      if "map_of m t = Some c" for c
      using that by (induction m) (auto split: if_splits)
    moreover have "sum_list (map snd (AList.update t v m)) = sum_list (map snd m) + v"
      if "map_of m t = None" for v
      using that by (simp add: alist_update_new)
    ultimately show ?thesis
      by (auto simp: add_count_def sum_counts_def Let_def update_conv' split: option.splits)
  qed
  then show ?case using Cons [of "add_count m t 1"] by simp
qed simp

subsection \<open>A worker counts what its reader returns\<close>

lemma tellg_idem [simp]: "tellg (snd (tellg s)) = tellg s"
  by (simp add: tellg_def sentry_def good_def Let_def)

lemma getPosition_idem: "getPosition (snd (getPosition r)) = getPosition r"
  using tellg_idem [of "stream r"] by (cases "tellg (stream r)") (auto simp: getPosition_def)

lemma getLines_getPosition: "fst (getLines (snd (getPosition r)) lines) = fst (getLines r lines)"
proof -
  have "end_pos (snd (getPosition r)) = end_pos r" by (simp add: getPosition_def split: prod.splits)
  then show ?thesis
    by (subst (1 2) getLines.simps) (auto simp: hasNextLine_def getPosition_idem split: prod.splits)
qed

lemma getLines_note_position: "fst (getLines (snd (note_position gen r meta n)) ls) = fst (getLines r ls)"
  using getLines_getPosition [of r ls] by (cases "getPosition r") (simp add: note_position_def)

lemma getLines_append: "fst (getLines r ls) = ls @ fst (getLines r [])"
proof (induction "to_read (stream r)" arbitrary: r ls rule: less_induct)
  case less
  show ?case
  proof (cases "SIZE_MAX < end_pos r \<or> \<not> fst (hasNextLine r)")
    case True
    then show ?thesis by (subst (1 2) getLines.simps) (auto split: prod.splits)
  next
    case False
    obtain r1 where h: "hasNextLine r = (True, r1)" using False by (cases "hasNextLine r") auto
    obtain l r2 where g: "getLine r1 = (l, r2)" by force
    have "to_read (stream r2) < to_read (stream r)"
      using hasNextLine_decreases [OF h g] False by simp
    then have "fst (getLines r2 (xs @ [l])) = xs @ [l] @ fst (getLines r2 [])" for xs
      using less [of r2 "xs @ [l]"] by simp
    from this [of ls] this [of "[]"] show ?thesis
      using False h g by (simp add: getLines.simps [of r])
  qed
qed

text \<open>The worker's loop counts the tokens of the lines \<open>getLines\<close> returns.\<close>

lemma count_loop_getLines:
  "count_loop gen r counts meta n = (n', counts', meta') \<Longrightarrow>
   n' = n + length (fst (getLines r [])) \<and>
   counts' = foldl (\<lambda>m t. add_count m t 1) counts (concat (map tokenize (fst (getLines r []))))"
proof (induction gen r counts meta n rule: count_loop.induct)
  case (1 gen r counts meta n)
  show ?case
  proof (cases "SIZE_MAX < end_pos r \<or> \<not> fst (hasNextLine r)")
    case True
    then show ?thesis
      using "1.prems" by (subst (1 2) getLines.simps) (auto simp: count_loop.simps [of gen r] split: prod.splits if_splits)
  next
    case False
    obtain r1 where h: "hasNextLine r = (True, r1)" using False by (cases "hasNextLine r") auto
    obtain l r2 where g: "getLine r1 = (l, r2)" by force
    obtain mt r3 where m: "note_position gen r2 meta (length (tokenize l)) = (mt, r3)" by force
    have r3: "fst (getLines r3 []) = fst (getLines r2 [])"
      using getLines_note_position [of gen r2 meta "length (tokenize l)" "[]"] m by simp
    have "fst (getLines r []) = l # fst (getLines r2 [])"
      using False h g getLines_append [of r2 "[l]"] by (simp add: getLines.simps [of r])
    moreover have "count_loop gen r3 (foldl (\<lambda>m t. add_count m t 1) counts (tokenize l)) mt (n + 1) = (n', counts', meta')"
      using "1.prems" False h g m by (simp add: count_loop.simps [of gen r])
    ultimately show ?thesis
      using "1.IH" [OF _ h [symmetric] refl _ g [symmetric] refl refl refl m [symmetric] refl] False h r3 by simp
  qed
qed

text \<open>The result of a worker, and the gathering of all of them.\<close>

definition worker_ok :: "string list \<Rightarrow> nat \<times> tokenCountMap \<times> textFileMetaData \<Rightarrow> bool" where
  "worker_ok lines sub \<longleftrightarrow> fst sub = length lines \<and>
     fst (snd sub) = foldl (\<lambda>m t. add_count m t 1) [] (concat (map tokenize lines))"

lemma countPartialFile_ok:
  assumes "read_part fs filename n k = Inr lines"
  shows "\<exists>sub. countPartialFile fs filename (int n) (int k) gen = Inr sub \<and> worker_ok lines sub"
proof -
  obtain r0 r where r: "make_reader (int k) (int n) = Inr r0" "loadFile fs filename r0 = Inr r"
      "lines = fst (getLines r [])"
    using assms by (auto simp: read_part_def rbind_eq_Inr_iff)
  obtain n' counts' meta' where c: "count_loop gen r [] [] 0 = (n', counts', meta')"
    by (cases "count_loop gen r [] [] 0")
  show ?thesis using r c count_loop_getLines [OF c]
    by (simp add: countPartialFile_def worker_ok_def)
qed

definition gathered ::
  "nat \<times> nat \<times> tokenCountMap \<times> textFileMetaData \<Rightarrow> string list \<Rightarrow>
     nat \<times> nat \<times> tokenCountMap \<times> textFileMetaData \<Rightarrow> bool" where
  "gathered st lines st' \<longleftrightarrow>
     (case st of (s, t, m, _) \<Rightarrow> case st' of (s', t', m', _) \<Rightarrow>
        let toks = concat (map tokenize lines) in
        s' = s + length lines \<and> t' = t + length toks \<and>
        (\<forall>w. count_of m' w = count_of m w + count_list toks w) \<and>
        fst ` set m' = fst ` set m \<union> set toks \<and>
        (distinct (map fst m) \<longrightarrow> distinct (map fst m')))"

lemma gather_step_ok:
  assumes "worker_ok lines sub"
  shows "gathered st lines (gather_step gen st sub)"
proof -
  obtain s t m meta where st: "st = (s, t, m, meta)" by (cases st)
  obtain n sm submeta where sub: "sub = (n, sm, submeta)" by (cases sub)
  let ?toks = "concat (map tokenize lines)"
  have w: "n = length lines" "sm = foldl (\<lambda>m t. add_count m t 1) [] ?toks"
    using assms sub by (simp_all add: worker_ok_def)
  obtain m' t' where f: "foldl (\<lambda>(m, t) (k, c). (add_count m k c, t + c)) (m, t) sm = (m', t')" by force
  have d: "distinct (map fst sm)" unfolding w by (rule distinct_words) simp
  have "count_of sm v = count_list ?toks v" for v unfolding w count_of_words by (simp add: count_of_def)
  moreover have "sum_counts sm = length ?toks" unfolding w sum_counts_words by (simp add: sum_counts_def)
  moreover have "fst ` set sm = set ?toks" unfolding w keys_words by simp
  ultimately show ?thesis
    using merge_counts [OF f d] w(1) f by (simp add: st sub gathered_def Let_def)
qed

lemma gather_ok:
  "list_all2 worker_ok parts subs \<Longrightarrow> gathered st (concat parts) (foldl (gather_step gen) st subs)"
proof (induction parts subs arbitrary: st rule: list_all2_induct)
  case Nil
  then show ?case by (auto simp: gathered_def)
next
  case (Cons lines parts sub subs)
  have "gathered st lines (gather_step gen st sub)" using Cons.hyps by (simp add: gather_step_ok)
  with Cons.IH [of "gather_step gen st sub"] show ?case
    by (auto simp: gathered_def Let_def split: prod.splits)
qed

subsection \<open>Tokens of a text and of its lines\<close>

lemma tokenize_space:
  "c \<in> set kSpaceChars \<Longrightarrow> tokenize (a @ c # b) = tokenize a @ tokenize b"
  by (simp add: tokenize_def splitOnWhitespace_pieces pieces_Any_of_append)

lemma tokenize_Nil [simp]: "tokenize [] = []"
  by (simp add: tokenize_def splitOnWhitespace_pieces pieces_no_delim)

lemma tokenize_spaces_left: "set l \<subseteq> set kSpaceChars \<Longrightarrow> tokenize (l @ s) = tokenize s"
proof (induction l)
  case (Cons c l)
  then show ?case using tokenize_space [of c "[]" "l @ s"] by simp
qed simp

lemma tokenize_spaces_right: "set r \<subseteq> set kSpaceChars \<Longrightarrow> tokenize (s @ r) = tokenize s"
proof (cases r)
  case (Cons c r')
  assume "set r \<subseteq> set kSpaceChars"
  then show ?thesis
    using tokenize_space [of c s r'] tokenize_spaces_left [of r' "[]"] Cons by simp
qed simp

lemma tokenize_trim [simp]: "tokenize (trim s) = tokenize s"
proof -
  obtain l r where s: "s = l @ trim s @ r" "set l \<subseteq> set kSpaceChars" "set r \<subseteq> set kSpaceChars"
    using trim_decompose [of s] by blast
  then have "tokenize s = tokenize (trim s @ r)" using tokenize_spaces_left [of l "trim s @ r"] by simp
  then show ?thesis using s(3) tokenize_spaces_right by simp
qed

lemma tokenize_text_lines: "concat (map tokenize (text_lines s)) = tokenize s"
proof (induction s rule: length_induct)
  case (1 s)
  let ?w = "takeWhile (\<lambda>c. c \<noteq> newline) s"
  show ?case
  proof (cases "?w = s")
    case True
    then have "newline \<notin> set s" by auto
    then show ?thesis by (cases "s = []") (simp_all add: text_lines_last)
  next
    case False
    then obtain rest where s: "s = ?w @ newline # rest"
      using dropWhile_eq_Cons_conv [of "\<lambda>c. c \<noteq> newline" s] takeWhile_dropWhile_id [of "\<lambda>c. c \<noteq> newline" s]
      by (metis (mono_tags, lifting) append_Nil2 hd_dropWhile list.collapse)
    have "newline \<in> set kSpaceChars" by (simp add: newline_def kSpaceChars_def)
    then have "tokenize s = tokenize ?w @ tokenize rest" using s tokenize_space [of newline ?w rest] by simp
    moreover have "text_lines s = ?w # text_lines rest"
      using s text_lines_newline [OF takeWhile_newline [of s], of rest] by simp
    moreover have "length rest < length s" by (subst s) simp
    ultimately show ?thesis using 1 by simp
  qed
qed

subsection \<open>The order of the result\<close>

lemma str_less_irrefl: "\<not> str_less a a"
  by (induction a) auto

lemma str_less_trans: "str_less a b \<Longrightarrow> str_less b c \<Longrightarrow> str_less a c"
proof (induction a b arbitrary: c rule: str_less.induct)
  case (2 y ys)
  then show ?case by (cases c) auto
next
  case (3 a as b bs)
  then show ?case by (cases c) auto
qed simp

lemma str_less_linear: "str_less a b \<or> a = b \<or> str_less b a"
  by (induction a b rule: str_less.induct) (auto simp: neq_iff, metis list.exhaust str_less.simps(2))

interpretation tokens: strict_weak_order count_before UNIV
proof
  fix x y z :: "string \<times> nat"
  show "count_before x y \<Longrightarrow> \<not> count_before y x"
    using str_less_irrefl str_less_trans by (auto simp: count_before_def split: if_splits)
  show "\<not> count_before x y \<Longrightarrow> \<not> count_before y z \<Longrightarrow> \<not> count_before x z"
    using str_less_trans str_less_linear by (auto simp: count_before_def split: if_splits) (metis)+
qed

lemma sorted_distinct_keys:
  assumes "sorted_wrt (\<lambda>a b. \<not> count_before b a) ps" "distinct (map fst ps)"
  shows "sorted_wrt count_before ps"
  using assms
proof (induction ps)
  case (Cons p ps)
  have "count_before p q" if "q \<in> set ps" for q
  proof -
    have "\<not> count_before q p" "fst q \<noteq> fst p" using Cons.prems that by (simp, metis Cons.prems(2) distinct.simps(2) image_eqI list.set_map list.simps(9))
    then show ?thesis using str_less_linear by (auto simp: count_before_def split: if_splits)
  qed
  with Cons show ?case by simp
qed simp

lemma countTokens_gather:
  assumes "rmap (read_part fs filename n) [0..<n] = Inr parts"
  shows "\<exists>subs. rmap (\<lambda>i. countPartialFile fs filename (int n) i gen) [0..int n - 1] = Inr subs \<and>
     list_all2 worker_ok parts subs"
proof -
  have ints: "[0..int m - 1] = map int [0..<m]" for m
  proof (induction m)
    case (Suc m)
    have "[0..int m] = [0..int m - 1] @ [int m]" by (rule upto_rec2) simp
    then show ?case using Suc by simp
  qed simp
  have parts: "list_all2 (\<lambda>k lines. read_part fs filename n k = Inr lines) [0..<n] parts"
    using assms by (simp add: rmap_eq_Inr_iff)
  have "\<exists>subs. list_all2 (\<lambda>k sub. countPartialFile fs filename (int n) (int k) gen = Inr sub) ks subs \<and>
      list_all2 worker_ok ps subs"
    if "list_all2 (\<lambda>k lines. read_part fs filename n k = Inr lines) ks ps" for ks ps
    using that
  proof (induction ks ps rule: list_all2_induct)
    case (Cons k ks lines ps)
    then obtain sub subs where "countPartialFile fs filename (int n) (int k) gen = Inr sub \<and> worker_ok lines sub"
        "list_all2 (\<lambda>k sub. countPartialFile fs filename (int n) (int k) gen = Inr sub) ks subs"
        "list_all2 worker_ok ps subs"
      using countPartialFile_ok [of fs filename n k lines gen] by blast
    then show ?case by (intro exI [of _ "sub # subs"]) simp
  qed simp
  from this [OF parts] show ?thesis by (simp add: rmap_eq_Inr_iff ints list_all2_map1)
qed

text \<open>
  C24. Counting with any positive number of workers: on a file that is empty or ends in a newline, \<^verbatim>\<open>countTokens\<close>
  succeeds; the totals grow by the number of lines and of tokens of the file; the result lists every
  token of the file once, with the number of its occurrences, by decreasing count and then in
  lexical order. So the result does not depend on how the workers split the file.
\<close>

theorem countTokens_spec:
  assumes "fs filename = Some text" "text = [] \<or> last text = newline" "length text \<le> SIZE_MAX"
    and "0 < n" "n < 2 ^ 64"
  shows "\<exists>t'. countTokens fs filename (int n) gen t = Inr t' \<and>
     totalSentences t' = totalSentences t + length (text_lines text) \<and>
     totalTokens t' = totalTokens t + length (tokenize text) \<and>
     set (tokenCountPairs t') = (\<lambda>w. (w, count_list (tokenize text) w)) ` set (tokenize text) \<and>
     sorted_wrt count_before (tokenCountPairs t')"
proof -
  obtain parts where p: "rmap (read_part fs filename n) [0..<n] = Inr parts"
      "concat parts = map trim (text_lines text)"
    using read_parts_lines [of fs filename "text" n] assms by blast
  obtain subs where s: "rmap (\<lambda>i. countPartialFile fs filename (int n) i gen) [0..int n - 1] = Inr subs"
      "list_all2 worker_ok parts subs"
    using countTokens_gather [OF p(1)] by blast
  obtain s' t' m' meta' where g:
      "foldl (gather_step gen) (totalSentences t, totalTokens t, [], []) subs = (s', t', m', meta')"
    by (metis prod.exhaust)
  have toks: "concat (map tokenize (concat parts)) = tokenize text"
    by (simp add: p(2) tokenize_text_lines o_def)
  have m: "s' = totalSentences t + length (text_lines text)" "t' = totalTokens t + length (tokenize text)"
      "count_of m' w = count_list (tokenize text) w" "fst ` set m' = set (tokenize text)"
      "distinct (map fst m')" for w
    using gather_ok [OF s(2), of "(totalSentences t, totalTokens t, [], [])" gen]
    unfolding g gathered_def Let_def prod.case toks by (simp_all add: p(2) count_of_def)
  have "set m' = (\<lambda>w. (w, count_list (tokenize text) w)) ` set (tokenize text)"
    unfolding m(4) [symmetric] m(3) [symmetric] image_image using count_of_alist [OF m(5)] by force
  moreover have "sorted_wrt count_before (std_sort count_before m')"
  proof (rule sorted_distinct_keys)
    show "sorted_wrt (\<lambda>a b. \<not> count_before b a) (std_sort count_before m')"
      by (rule tokens.sorted_std_sort) simp
    show "distinct (map fst (std_sort count_before m'))"
      using m(5) by (metis mset_map mset_std_sort mset_eq_imp_distinct_iff)
  qed
  ultimately show ?thesis using s(1) g m(1,2) by (simp add: countTokens_def)
qed

theorem countTokens_spec_witness:
  "\<exists>t'. countTokens [''f'' \<mapsto> ''b a'' @ newline # ''b'' @ [newline]] ''f'' 2 True new_tokenizer = Inr t' \<and>
     totalSentences t' = 2 \<and> totalTokens t' = 3 \<and> set (tokenCountPairs t') = {(''b'', 2), (''a'', 1)} \<and>
     sorted_wrt count_before (tokenCountPairs t')"
proof -
  let ?t = "''b a'' @ newline # ''b'' @ [newline]"
  have "length ?t \<le> SIZE_MAX" by (simp add: SIZE_MAX_def SIZE_MOD_def)
  moreover have "length (text_lines ?t) = 2" by code_simp
  moreover have t: "tokenize ?t = [''b'', ''a'', ''b'']" by code_simp
  moreover have "(\<lambda>w. (w, count_list (tokenize ?t) w)) ` set (tokenize ?t) = {(''b'', 2), (''a'', 1)}"
    unfolding t by auto
  moreover have "\<exists>t'. countTokens [''f'' \<mapsto> ?t] ''f'' (int 2) True new_tokenizer = Inr t' \<and>
     totalSentences t' = totalSentences new_tokenizer + length (text_lines ?t) \<and>
     totalTokens t' = totalTokens new_tokenizer + length (tokenize ?t) \<and>
     set (tokenCountPairs t') = (\<lambda>w. (w, count_list (tokenize ?t) w)) ` set (tokenize ?t) \<and>
     sorted_wrt count_before (tokenCountPairs t')"
    using \<open>length ?t \<le> SIZE_MAX\<close> by (intro countTokens_spec) simp_all
  ultimately show ?thesis
    by (simp only: new_tokenizer_def tokenizer.simps) (simp add: numeral_2_eq_2 numeral_3_eq_3)
qed

text \<open>
  Pruning keeps a prefix of the sorted list: exactly the tokens that are among the first
  \<open>maxTokens\<close> (all of them when it is negative) and occur at least \<open>minAppearence\<close> times.
\<close>

theorem pruneTokens_spec:
  assumes "sorted_wrt count_before (tokenCountPairs t)" "0 \<le> minAppearence" "minAppearence < 2 ^ 31"
    "-1 \<le> maxTokens" "maxTokens < 2 ^ 31"
  shows "prefix (tokenCountPairs (pruneTokens maxTokens minAppearence t)) (tokenCountPairs t) \<and>
     tokenCountPairs (pruneTokens maxTokens minAppearence t) =
       filter (\<lambda>p. minAppearence \<le> int (snd p))
         (if maxTokens = -1 then tokenCountPairs t else take (nat maxTokens) (tokenCountPairs t))"
proof -
  let ?P = "\<lambda>p. minAppearence \<le> int (snd p)"
  have sz: "size_of_int minAppearence = minAppearence" "maxTokens \<noteq> -1 \<Longrightarrow> size_of_int maxTokens = maxTokens"
    using assms(2-5) by (simp_all add: size_of_int_def)
  have pre: "takeWhile ?P ps = filter ?P ps" if "sorted_wrt count_before ps" for ps :: "(string \<times> nat) list"
    using that
  proof (induction ps)
    case (Cons p ps)
    have "snd q \<le> snd p" if "q \<in> set ps" for q
      using Cons.prems that by (auto simp: count_before_def split: if_splits)
    then have "filter ?P ps = []" if "\<not> ?P p" using that by (fastforce simp: filter_empty_conv)
    with Cons show ?case by auto
  qed simp
  have t: "tokenCountPairs (pruneTokens maxTokens minAppearence t) =
      takeWhile ?P (if maxTokens = -1 then tokenCountPairs t else take (nat maxTokens) (tokenCountPairs t))"
    using sz assms(4) by (auto simp: pruneTokens_def Let_def)
  have "prefix (takeWhile ?P (take k ps)) ps" for k and ps :: "(string \<times> nat) list"
    by (metis prefix_order.trans take_is_prefix takeWhile_is_prefix)
  from this [of "length (tokenCountPairs t)" "tokenCountPairs t"] this [of "nat maxTokens" "tokenCountPairs t"]
  show ?thesis unfolding t using assms(1) by (simp add: pre sorted_wrt_take)
qed

theorem pruneTokens_spec_witness:
  "tokenCountPairs (pruneTokens 2 2 (new_tokenizer\<lparr>tokenCountPairs := [(''b'', 3), (''a'', 1), (''c'', 1)]\<rparr>))
     = [(''b'', 3)]"
  using pruneTokens_spec [of "new_tokenizer\<lparr>tokenCountPairs := [(''b'', 3), (''a'', 1), (''c'', 1)]\<rparr>" 2 2]
  by (simp add: new_tokenizer_def count_before_def)

end
