(* ===== verification/CachingMemoryManager.thy ===== *)
theory CachingMemoryManager
  imports Prelude "HOL-Library.Word"
begin

section \<open>The caching memory manager (\<^verbatim>\<open>fl/memory/managers/CachingMemoryManager.{h,cpp}\<close>)\<close>

text \<open>
  The manager keeps device memory it has freed in two pools and hands it out again, splitting and
  merging blocks of a natively allocated chunk. \<^verbatim>\<open>Block\<close> objects live on the C++ heap and point to
  each other, so the model has an explicit heap \<open>blocks\<close> from block identifiers to blocks: \<^verbatim>\<open>new\<close>
  takes the next identifier, \<^verbatim>\<open>delete\<close> removes an entry and following a pointer without an entry is
  \<open>Undefined\<close>. Addresses and sizes are natural numbers below \<open>2 ^ 64\<close> with the wrap-around of \<^verbatim>\<open>size_t\<close>
  written out; the counters of the statistics are 64-bit words. The native device interface is not
  part of the repository and is a parameter: its functions and its state.
\<close>

subsection \<open>Sizes\<close>

definition kMinBlockSize :: nat where "kMinBlockSize = 512"
definition kSmallSize :: nat where "kSmallSize = 1048576"
definition kSmallBuffer :: nat where "kSmallBuffer = 2097152"
definition kLargeBuffer :: nat where "kLargeBuffer = 20971520"
definition kMinLargeAlloc :: nat where "kMinLargeAlloc = 10485760"
definition kRoundLarge :: nat where "kRoundLarge = 2097152"

lemmas size_consts = kMinBlockSize_def kSmallSize_def kSmallBuffer_def kLargeBuffer_def
  kMinLargeAlloc_def kRoundLarge_def

definition roundSize :: "nat \<Rightarrow> nat" where
  "roundSize sz =
     (if sz < kMinBlockSize then kMinBlockSize
      else sz_mul kMinBlockSize (sz_sub (sz_add sz kMinBlockSize) 1 div kMinBlockSize))"

definition getAllocationSize :: "nat \<Rightarrow> nat" where
  "getAllocationSize sz =
     (if sz \<le> kSmallSize then kSmallBuffer
      else if sz < kMinLargeAlloc then kLargeBuffer
      else sz_mul kRoundLarge (sz_sub (sz_add sz kRoundLarge) 1 div kRoundLarge))"

subsection \<open>Blocks, pools and statistics\<close>

type_synonym addr = nat
type_synonym blockId = nat

record block =
  blockSize :: nat
  blockPtr :: addr
  managerLock :: bool
  userLocked :: bool
  prevBlock :: "blockId option"
  nextBlock :: "blockId option"

definition new_block :: "nat \<Rightarrow> addr \<Rightarrow> block" where
  "new_block sz p = \<lparr>blockSize = sz, blockPtr = p, managerLock = False, userLocked = False,
     prevBlock = None, nextBlock = None\<rparr>"

definition isSplit :: "block \<Rightarrow> bool" where
  "isSplit b \<longleftrightarrow> prevBlock b \<noteq> None \<or> nextBlock b \<noteq> None"

definition inUse :: "block \<Rightarrow> bool" where
  "inUse b \<longleftrightarrow> managerLock b \<or> userLocked b"

definition BlockComparator :: "block \<Rightarrow> block \<Rightarrow> bool" where
  "BlockComparator a b =
     (if blockSize a \<noteq> blockSize b then blockSize a < blockSize b else blockPtr a < blockPtr b)"

record memoryAllocationStats =
  totalNativeMallocs :: "64 word"
  totalNativeFrees :: "64 word"
  allocatedBytes :: "64 word"
  cachedBytes :: "64 word"

type_synonym blockHeap = "blockId \<rightharpoonup> block"

record deviceMemoryInfo =
  deviceId :: int
  largeBlocks :: "blockId list"
  smallBlocks :: "blockId list"
  allocatedBlocks :: "addr \<rightharpoonup> blockId"
  stats :: memoryAllocationStats
  blocks :: blockHeap
  nextId :: blockId

definition new_DeviceMemoryInfo :: "int \<Rightarrow> deviceMemoryInfo" where
  "new_DeviceMemoryInfo i = \<lparr>deviceId = i, largeBlocks = [], smallBlocks = [], allocatedBlocks = Map.empty,
     stats = \<lparr>totalNativeMallocs = 0, totalNativeFrees = 0, allocatedBytes = 0, cachedBytes = 0\<rparr>,
     blocks = Map.empty, nextId = 0\<rparr>"

record 'd deviceInterface =
  nativeAlloc :: "nat \<Rightarrow> 'd \<Rightarrow> addr result \<times> 'd"
  nativeFree :: "addr \<Rightarrow> 'd \<Rightarrow> 'd"

record 'd cachingMemoryManager =
  deviceMemInfos :: "int \<rightharpoonup> deviceMemoryInfo"
  recyclingSizeLimit :: nat
  splitSizeLimit :: nat
  native :: 'd

text \<open>Following and updating through a block pointer.\<close>

definition deref :: "blockHeap \<Rightarrow> blockId \<Rightarrow> block result" where
  "deref h b = (case h b of Some k \<Rightarrow> Inr k | None \<Rightarrow> Inl (Undefined ''dangling block pointer''))"

definition modify :: "blockHeap \<Rightarrow> blockId \<Rightarrow> (block \<Rightarrow> block) \<Rightarrow> blockHeap result" where
  "modify h b f = rbind (deref h b) (\<lambda>k. Inr (h(b \<mapsto> f k)))"

definition modify_opt :: "blockHeap \<Rightarrow> blockId option \<Rightarrow> (block \<Rightarrow> block) \<Rightarrow> blockHeap result" where
  "modify_opt h p f = (case p of None \<Rightarrow> Inr h | Some b \<Rightarrow> modify h b f)"

text \<open>
  A \<^verbatim>\<open>BlockSet\<close> is a \<^verbatim>\<open>std::set\<close> ordered by \<^verbatim>\<open>BlockComparator\<close>: the list of its elements in order. Its
  operations compare, and so follow, the pointers it holds.
\<close>

definition pool_view :: "blockHeap \<Rightarrow> blockId list \<Rightarrow> (blockId \<times> block) list result" where
  "pool_view h pool = rmap (\<lambda>b. rbind (deref h b) (\<lambda>k. Inr (b, k))) pool"

definition lower_bound :: "blockHeap \<Rightarrow> blockId list \<Rightarrow> block \<Rightarrow> (blockId \<times> block) option result" where
  "lower_bound h pool key =
     rbind (pool_view h pool) (\<lambda>v. Inr (find (\<lambda>(b, k). \<not> BlockComparator k key) v))"

definition equivalent :: "block \<Rightarrow> block \<Rightarrow> bool" where
  "equivalent a b \<longleftrightarrow> \<not> BlockComparator a b \<and> \<not> BlockComparator b a"

definition pool_insert :: "blockHeap \<Rightarrow> blockId list \<Rightarrow> blockId \<Rightarrow> blockId list result" where
  "pool_insert h pool b =
     rbind (deref h b) (\<lambda>kb. rbind (pool_view h pool) (\<lambda>v.
       Inr (if list_ex (\<lambda>(c, k). equivalent k kb) v then pool
            else map fst (ins_by (\<lambda>x y. BlockComparator (snd x) (snd y)) (b, kb) v))))"

definition pool_erase :: "blockHeap \<Rightarrow> blockId list \<Rightarrow> blockId \<Rightarrow> blockId list result" where
  "pool_erase h pool b =
     rbind (deref h b) (\<lambda>kb. rbind (pool_view h pool) (\<lambda>v.
       Inr (map fst (filter (\<lambda>(c, k). \<not> equivalent k kb) v))))"

definition pool_of :: "bool \<Rightarrow> deviceMemoryInfo \<Rightarrow> blockId list" where
  "pool_of small info = (if small then smallBlocks info else largeBlocks info)"

definition set_pool :: "bool \<Rightarrow> blockId list \<Rightarrow> deviceMemoryInfo \<Rightarrow> deviceMemoryInfo" where
  "set_pool small p info = (if small then info\<lparr>smallBlocks := p\<rparr> else info\<lparr>largeBlocks := p\<rparr>)"

definition add_cached :: "64 word \<Rightarrow> deviceMemoryInfo \<Rightarrow> deviceMemoryInfo" where
  "add_cached w info = info\<lparr>stats := (stats info)\<lparr>cachedBytes := cachedBytes (stats info) + w\<rparr>\<rparr>"

definition add_allocated :: "64 word \<Rightarrow> deviceMemoryInfo \<Rightarrow> deviceMemoryInfo" where
  "add_allocated w info = info\<lparr>stats := (stats info)\<lparr>allocatedBytes := allocatedBytes (stats info) + w\<rparr>\<rparr>"

definition count_malloc :: "deviceMemoryInfo \<Rightarrow> deviceMemoryInfo" where
  "count_malloc info = info\<lparr>stats := (stats info)\<lparr>totalNativeMallocs := totalNativeMallocs (stats info) + 1\<rparr>\<rparr>"

definition count_free :: "deviceMemoryInfo \<Rightarrow> deviceMemoryInfo" where
  "count_free info = info\<lparr>stats := (stats info)\<lparr>totalNativeFrees := totalNativeFrees (stats info) + 1\<rparr>\<rparr>"

subsection \<open>Freeing and merging\<close>

definition tryMergeBlocks ::
  "blockId \<Rightarrow> blockId option \<Rightarrow> bool \<Rightarrow> deviceMemoryInfo \<Rightarrow> deviceMemoryInfo result" where
  "tryMergeBlocks dst src small info =
     (case src of
        None \<Rightarrow> Inr info
      | Some s \<Rightarrow>
          rbind (deref (blocks info) s) (\<lambda>sb.
            if inUse sb then Inr info
            else
              rbind (deref (blocks info) dst) (\<lambda>db.
              rbind
                (if prevBlock db = Some s
                 then modify_opt ((blocks info)(dst \<mapsto> db\<lparr>blockPtr := blockPtr sb, prevBlock := prevBlock sb\<rparr>))
                        (prevBlock sb) (\<lambda>k. k\<lparr>nextBlock := Some dst\<rparr>)
                 else modify_opt ((blocks info)(dst \<mapsto> db\<lparr>nextBlock := nextBlock sb\<rparr>))
                        (nextBlock sb) (\<lambda>k. k\<lparr>prevBlock := Some dst\<rparr>)) (\<lambda>h1.
              rbind (modify h1 dst (\<lambda>k. k\<lparr>blockSize := sz_add (blockSize k) (blockSize sb)\<rparr>)) (\<lambda>h2.
              rbind (pool_erase h2 (pool_of small info) s) (\<lambda>pool.
                Inr (add_cached (- of_nat (blockSize sb))
                  ((set_pool small pool info)\<lparr>blocks := h2(s := None)\<rparr>))))))))"

definition freeBlock :: "blockId \<Rightarrow> deviceMemoryInfo \<Rightarrow> deviceMemoryInfo result" where
  "freeBlock b info =
     rbind (deref (blocks info) b) (\<lambda>k.
       if inUse k then Inl (Runtime_error ''trying to free a block which is in use'')
       else
         let small = (blockSize k \<le> kSmallSize) in
         rbind (tryMergeBlocks b (prevBlock k) small info) (\<lambda>info1.
         rbind (deref (blocks info1) b) (\<lambda>k1.
         rbind (tryMergeBlocks b (nextBlock k1) small info1) (\<lambda>info2.
         rbind (pool_insert (blocks info2) (pool_of small info2) b) (\<lambda>pool.
         rbind (deref (blocks info2) b) (\<lambda>k2.
           Inr (add_cached (of_nat (blockSize k2)) (set_pool small pool info2))))))))"

primrec freeBlocks ::
  "'d deviceInterface \<Rightarrow> bool \<Rightarrow> blockId list \<Rightarrow> deviceMemoryInfo \<times> 'd \<Rightarrow> (deviceMemoryInfo \<times> 'd) result" where
  "freeBlocks di small [] st = Inr st"
| "freeBlocks di small (b # it) st =
     rbind (deref (blocks (fst st)) b) (\<lambda>k.
       if isSplit k then freeBlocks di small it st
       else
         let info = fst st;
             info1 = add_allocated (- of_nat (blockSize k)) (add_cached (- of_nat (blockSize k)) (count_free info));
             info2 = set_pool small (remove1 b (pool_of small info1)) info1
         in freeBlocks di small it
              (info2\<lparr>blocks := (blocks info2)(b := None)\<rparr>, nativeFree di (blockPtr k) (snd st)))"

definition cleanup_device ::
  "'d deviceInterface \<Rightarrow> deviceMemoryInfo \<times> 'd \<Rightarrow> (deviceMemoryInfo \<times> 'd) result" where
  "cleanup_device di st =
     rbind (freeBlocks di False (largeBlocks (fst st)) st) (\<lambda>st1.
       freeBlocks di True (smallBlocks (fst st1)) st1)"

subsection \<open>Allocation\<close>

text \<open>The first component is what the call returns or throws, the second the state it leaves.\<close>

definition mallocWithRetry ::
  "'d deviceInterface \<Rightarrow> nat \<Rightarrow> deviceMemoryInfo \<times> 'd \<Rightarrow> addr result \<times> deviceMemoryInfo \<times> 'd" where
  "mallocWithRetry di sz st =
     (let info1 = count_malloc (fst st) in
      case nativeAlloc di sz (snd st) of
        (Inr p, d1) \<Rightarrow> (Inr p, info1, d1)
      | (Inl ex, d1) \<Rightarrow>
          (case cleanup_device di (info1, d1) of
             Inl e \<Rightarrow> (Inl e, info1, d1)
           | Inr (info2, d2) \<Rightarrow>
               (let info3 = count_malloc info2; (r, d3) = nativeAlloc di sz d2 in (r, info3, d3))))"

definition alloc_size :: "nat \<Rightarrow> int list \<Rightarrow> nat" where
  "alloc_size elementSize dims = foldl (\<lambda>s d. sz_mul s (nat (d mod 2 ^ 64))) elementSize dims"

definition take_block ::
  "'d deviceInterface \<Rightarrow> nat \<Rightarrow> nat \<Rightarrow> deviceMemoryInfo \<times> 'd \<Rightarrow> blockId result \<times> deviceMemoryInfo \<times> 'd" where
  "take_block di recyclingLimit sz st =
     (let info = fst st; small = (sz \<le> kSmallSize); pool = pool_of small info in
      case lower_bound (blocks info) pool (new_block sz 0) of
        Inl e \<Rightarrow> (Inl e, st)
      | Inr it \<Rightarrow>
          (case (case it of None \<Rightarrow> None
                 | Some (b, k) \<Rightarrow> if small \<or> blockSize k < recyclingLimit then Some (b, k) else None) of
             Some (b, k) \<Rightarrow>
               (Inr b, add_cached (- of_nat (blockSize k)) (set_pool small (remove1 b pool) info), snd st)
           | None \<Rightarrow>
               (let allocSize = getAllocationSize sz in
                case mallocWithRetry di allocSize st of
                  (Inl e, st1) \<Rightarrow> (Inl e, st1)
                | (Inr p, info1, d1) \<Rightarrow>
                    (let b = nextId info1 in
                     (Inr b, add_allocated (of_nat allocSize)
                        (info1\<lparr>blocks := (blocks info1)(b \<mapsto> new_block allocSize p), nextId := Suc b\<rparr>), d1)))))"

definition split_block :: "nat \<Rightarrow> nat \<Rightarrow> blockId \<Rightarrow> deviceMemoryInfo \<Rightarrow> (blockId \<times> deviceMemoryInfo) result" where
  "split_block splitLimit sz b info =
     rbind (deref (blocks info) b) (\<lambda>k.
       let small = (sz \<le> kSmallSize); diff = sz_sub (blockSize k) sz in
       if (if small then kMinBlockSize else kSmallSize) \<le> diff \<and> blockSize k < splitLimit
       then
         let n = nextId info;
             h1 = (blocks info)(n \<mapsto> (new_block sz (blockPtr k))\<lparr>prevBlock := prevBlock k\<rparr>)
         in
         rbind (modify_opt h1 (prevBlock k) (\<lambda>q. q\<lparr>nextBlock := Some n\<rparr>)) (\<lambda>h2.
         rbind (modify h2 n (\<lambda>q. q\<lparr>nextBlock := Some b\<rparr>)) (\<lambda>h3.
         rbind (modify h3 b (\<lambda>r. r\<lparr>prevBlock := Some n, blockPtr := sz_add (blockPtr r) sz,
                                    blockSize := sz_sub (blockSize r) sz\<rparr>)) (\<lambda>h4.
         rbind (pool_insert h4 (pool_of small info) b) (\<lambda>pool.
           Inr (n, add_cached (of_nat (sz_sub (blockSize k) sz))
             ((set_pool small pool info)\<lparr>blocks := h4, nextId := Suc n\<rparr>))))))
       else Inr (b, info))"

definition lock_block :: "bool \<Rightarrow> blockId \<Rightarrow> deviceMemoryInfo \<Rightarrow> (addr \<times> deviceMemoryInfo) result" where
  "lock_block user b info =
     rbind (deref (blocks info) b) (\<lambda>k.
       Inr (blockPtr k,
         info\<lparr>blocks := (blocks info)(b \<mapsto> k\<lparr>managerLock := \<not> user, userLocked := user\<rparr>),
              allocatedBlocks := (allocatedBlocks info)(blockPtr k \<mapsto> b)\<rparr>))"

definition alloc_device ::
  "'d deviceInterface \<Rightarrow> nat \<Rightarrow> nat \<Rightarrow> bool \<Rightarrow> nat \<Rightarrow> deviceMemoryInfo \<times> 'd \<Rightarrow>
     addr result \<times> deviceMemoryInfo \<times> 'd" where
  "alloc_device di recyclingLimit splitLimit user size0 st =
     (if size0 = 0 then (Inr 0, st)
      else
        let sz = roundSize size0 in
        case take_block di recyclingLimit sz st of
          (Inl e, st1) \<Rightarrow> (Inl e, st1)
        | (Inr b, info1, d1) \<Rightarrow>
            (case rbind (split_block splitLimit sz b info1) (\<lambda>(b1, info2). lock_block user b1 info2) of
               Inl e \<Rightarrow> (Inl e, info1, d1)
             | Inr (p, info3) \<Rightarrow> (Inr p, info3, d1)))"

subsection \<open>Operations of one device\<close>

definition allocated_device :: "addr \<Rightarrow> deviceMemoryInfo \<Rightarrow> nat result" where
  "allocated_device p info =
     (case allocatedBlocks info p of
        None \<Rightarrow> Inr 0
      | Some b \<Rightarrow> rbind (deref (blocks info) b) (\<lambda>k. Inr (blockSize k)))"

definition unlock_device ::
  "'d deviceInterface \<Rightarrow> addr \<Rightarrow> bool \<Rightarrow> deviceMemoryInfo \<times> 'd \<Rightarrow> (deviceMemoryInfo \<times> 'd) result" where
  "unlock_device di p user st =
     (case allocatedBlocks (fst st) p of
        None \<Rightarrow> Inr (count_free (fst st), nativeFree di p (snd st))
      | Some b \<Rightarrow>
          rbind (modify (blocks (fst st)) b
            (\<lambda>k. if user then k\<lparr>userLocked := False\<rparr> else k\<lparr>managerLock := False\<rparr>)) (\<lambda>h.
          rbind (deref h b) (\<lambda>k.
            let info = (fst st)\<lparr>blocks := h\<rparr> in
            if inUse k then Inr (info, snd st)
            else rbind (freeBlock b (info\<lparr>allocatedBlocks := (allocatedBlocks info)(p := None)\<rparr>))
                   (\<lambda>info1. Inr (info1, snd st)))))"

definition userLock_device :: "addr \<Rightarrow> deviceMemoryInfo \<Rightarrow> deviceMemoryInfo result" where
  "userLock_device p info =
     (case allocatedBlocks info p of
        None \<Rightarrow>
          (let b = nextId info in
           Inr (info\<lparr>blocks := (blocks info)(b \<mapsto> (new_block kSmallBuffer p)\<lparr>userLocked := True\<rparr>),
                     allocatedBlocks := (allocatedBlocks info)(p \<mapsto> b), nextId := Suc b\<rparr>))
      | Some b \<Rightarrow>
          rbind (modify (blocks info) b (\<lambda>k. k\<lparr>userLocked := True\<rparr>)) (\<lambda>h. Inr (info\<lparr>blocks := h\<rparr>)))"

definition isUserLocked_device :: "addr \<Rightarrow> deviceMemoryInfo \<Rightarrow> bool result" where
  "isUserLocked_device p info =
     (case allocatedBlocks info p of
        None \<Rightarrow> Inr False
      | Some b \<Rightarrow> rbind (deref (blocks info) b) (\<lambda>k. Inr (userLocked k)))"

subsection \<open>The manager: every operation works on the information of the active device\<close>

text \<open>
  \<open>dev\<close> is what \<^verbatim>\<open>deviceInterface->getActiveDeviceId()\<close> returns during the call. Every operation holds
  the mutex of the device, so operations of several threads run one after the other.
\<close>

definition getDeviceMemoryInfo :: "int \<Rightarrow> 'd cachingMemoryManager \<Rightarrow> deviceMemoryInfo result" where
  "getDeviceMemoryInfo dev m =
     (case deviceMemInfos m dev of
        None \<Rightarrow> Inl (Runtime_error ''meminfo for the device doesn't exist'')
      | Some info \<Rightarrow> Inr info)"

definition set_device :: "int \<Rightarrow> deviceMemoryInfo \<times> 'd \<Rightarrow> 'd cachingMemoryManager \<Rightarrow> 'd cachingMemoryManager" where
  "set_device dev st m = m\<lparr>deviceMemInfos := (deviceMemInfos m)(dev \<mapsto> fst st), native := snd st\<rparr>"

definition new_CachingMemoryManager :: "nat \<Rightarrow> nat \<Rightarrow> nat \<Rightarrow> 'd \<Rightarrow> 'd cachingMemoryManager" where
  "new_CachingMemoryManager recyclingLimit splitLimit numDevices d =
     \<lparr>deviceMemInfos = (\<lambda>i. if 0 \<le> i \<and> i < int numDevices then Some (new_DeviceMemoryInfo i) else None),
      recyclingSizeLimit = recyclingLimit, splitSizeLimit = splitLimit, native = d\<rparr>"

definition setRecyclingSizeLimit :: "nat \<Rightarrow> 'd cachingMemoryManager \<Rightarrow> 'd cachingMemoryManager" where
  "setRecyclingSizeLimit limit m = m\<lparr>recyclingSizeLimit := limit\<rparr>"

definition setSplitSizeLimit :: "nat \<Rightarrow> 'd cachingMemoryManager \<Rightarrow> 'd cachingMemoryManager" where
  "setSplitSizeLimit limit m = m\<lparr>splitSizeLimit := limit\<rparr>"

definition addMemoryManagement :: "int \<Rightarrow> 'd cachingMemoryManager \<Rightarrow> 'd cachingMemoryManager" where
  "addMemoryManagement dev m =
     (if deviceMemInfos m dev \<noteq> None then m
      else m\<lparr>deviceMemInfos := (deviceMemInfos m)(dev \<mapsto> new_DeviceMemoryInfo dev)\<rparr>)"

definition removeMemoryManagement :: "int \<Rightarrow> 'd cachingMemoryManager \<Rightarrow> 'd cachingMemoryManager" where
  "removeMemoryManagement dev m =
     (if deviceMemInfos m dev = None then m
      else m\<lparr>deviceMemInfos := (deviceMemInfos m)(dev := None)\<rparr>)"

definition alloc ::
  "'d deviceInterface \<Rightarrow> int \<Rightarrow> bool \<Rightarrow> int list \<Rightarrow> nat \<Rightarrow> 'd cachingMemoryManager \<Rightarrow>
     addr result \<times> 'd cachingMemoryManager" where
  "alloc di dev user dims elementSize m =
     (case getDeviceMemoryInfo dev m of
        Inl e \<Rightarrow> (Inl e, m)
      | Inr info \<Rightarrow>
          (let (r, st) = alloc_device di (recyclingSizeLimit m) (splitSizeLimit m) user
                           (alloc_size elementSize dims) (info, native m)
           in (r, set_device dev st m)))"

definition allocated :: "int \<Rightarrow> addr \<Rightarrow> 'd cachingMemoryManager \<Rightarrow> nat result" where
  "allocated dev p m = (if p = 0 then Inr 0 else rbind (getDeviceMemoryInfo dev m) (allocated_device p))"

definition unlock ::
  "'d deviceInterface \<Rightarrow> int \<Rightarrow> addr \<Rightarrow> bool \<Rightarrow> 'd cachingMemoryManager \<Rightarrow> 'd cachingMemoryManager result" where
  "unlock di dev p user m =
     (if p = 0 then Inr m
      else rbind (getDeviceMemoryInfo dev m) (\<lambda>info.
        rbind (unlock_device di p user (info, native m)) (\<lambda>st. Inr (set_device dev st m))))"

definition signalMemoryCleanup ::
  "'d deviceInterface \<Rightarrow> int \<Rightarrow> 'd cachingMemoryManager \<Rightarrow> 'd cachingMemoryManager result" where
  "signalMemoryCleanup di dev m =
     rbind (getDeviceMemoryInfo dev m) (\<lambda>info.
       rbind (cleanup_device di (info, native m)) (\<lambda>st. Inr (set_device dev st m)))"

definition shutdown ::
  "'d deviceInterface \<Rightarrow> int \<Rightarrow> 'd cachingMemoryManager \<Rightarrow> 'd cachingMemoryManager result" where
  "shutdown di dev m = signalMemoryCleanup di dev m"

definition userLock :: "int \<Rightarrow> addr \<Rightarrow> 'd cachingMemoryManager \<Rightarrow> 'd cachingMemoryManager result" where
  "userLock dev p m =
     (if p = 0 then Inr m
      else rbind (getDeviceMemoryInfo dev m) (\<lambda>info.
        rbind (userLock_device p info) (\<lambda>info1. Inr (set_device dev (info1, native m) m))))"

definition userUnlock ::
  "'d deviceInterface \<Rightarrow> int \<Rightarrow> addr \<Rightarrow> 'd cachingMemoryManager \<Rightarrow> 'd cachingMemoryManager result" where
  "userUnlock di dev p m = unlock di dev p True m"

definition isUserLocked :: "int \<Rightarrow> addr \<Rightarrow> 'd cachingMemoryManager \<Rightarrow> bool result" where
  "isUserLocked dev p m =
     (if p = 0 then Inr False else rbind (getDeviceMemoryInfo dev m) (isUserLocked_device p))"

end
