(* ===== verification/CachingMemoryInvariant.thy ===== *)
theory CachingMemoryInvariant
  imports CachingMemoryManager
begin

section \<open>The invariant of the caching memory manager\<close>

text \<open>
  The blocks of a device form chunks, one for each native allocation still held. A chunk is a
  doubly linked list of blocks that tile its address range without gaps. The invariant describes
  the chunks by a ghost list \<open>L\<close> of triples (first address, end address, block identifiers in order).
  \<open>H\<close> is the set of blocks an operation in progress holds: neither pooled nor in use.
\<close>

subsection \<open>Doubly linked segments\<close>

fun seg :: "blockHeap \<Rightarrow> blockId option \<Rightarrow> addr \<Rightarrow> blockId list \<Rightarrow> blockId option \<Rightarrow> addr \<Rightarrow> bool" where
  "seg h p a [] n e \<longleftrightarrow> a = e"
| "seg h p a (b # bs) n e \<longleftrightarrow>
     (\<exists>k. h b = Some k \<and> prevBlock k = p \<and> blockPtr k = a \<and> 0 < blockSize k \<and>
          nextBlock k = (case bs of [] \<Rightarrow> n | c # _ \<Rightarrow> Some c) \<and>
          seg h (Some b) (a + blockSize k) bs n e)"

definition lst :: "blockId option \<Rightarrow> blockId list \<Rightarrow> blockId option" where
  "lst p xs = (if xs = [] then p else Some (last xs))"

definition fst_or :: "blockId option \<Rightarrow> blockId list \<Rightarrow> blockId option" where
  "fst_or n ys = (case ys of [] \<Rightarrow> n | y # _ \<Rightarrow> Some y)"

lemma lst_simps [simp]: "lst p [] = p" "lst p (xs @ [x]) = Some x" "lst p (x # xs) = lst (Some x) xs"
  by (auto simp: lst_def)

lemma fst_or_simps [simp]: "fst_or n [] = n" "fst_or n (y # ys) = Some y"
  by (auto simp: fst_or_def)

lemma seg_append:
  "seg h p a (xs @ ys) n e \<longleftrightarrow> (\<exists>m. seg h p a xs (fst_or n ys) m \<and> seg h (lst p xs) m ys n e)"
proof (induction xs arbitrary: p a)
  case (Cons x xs)
  have "(case xs @ ys of [] \<Rightarrow> n | c # _ \<Rightarrow> Some c) = (case xs of [] \<Rightarrow> fst_or n ys | c # _ \<Rightarrow> Some c)"
    by (cases xs) (auto simp: fst_or_def)
  then show ?case using Cons by (auto simp: lst_def split: if_splits)
qed simp

lemma seg_focus:
  "seg h p a (xs @ b # ys) n e \<longleftrightarrow>
     (\<exists>k. h b = Some k \<and> seg h p a xs (Some b) (blockPtr k) \<and> prevBlock k = lst p xs \<and> 0 < blockSize k \<and>
          nextBlock k = fst_or n ys \<and> seg h (Some b) (blockPtr k + blockSize k) ys n e)"
  by (auto simp: seg_append fst_or_def)

lemma seg_frame:
  "(\<And>b. b \<in> set xs \<Longrightarrow> h' b = h b) \<Longrightarrow> seg h' p a xs n e = seg h p a xs n e"
  by (induction xs arbitrary: p a) auto

definition upd_next :: "blockHeap \<Rightarrow> blockId list \<Rightarrow> blockId option \<Rightarrow> blockHeap" where
  "upd_next h xs n = (if xs = [] then h else h(last xs \<mapsto> (the (h (last xs)))\<lparr>nextBlock := n\<rparr>))"

definition upd_prev :: "blockHeap \<Rightarrow> blockId list \<Rightarrow> blockId option \<Rightarrow> blockHeap" where
  "upd_prev h ys p = (if ys = [] then h else h(hd ys \<mapsto> (the (h (hd ys)))\<lparr>prevBlock := p\<rparr>))"

lemma seg_upd_next:
  assumes "seg h p a xs n e" "distinct xs"
  shows "seg (upd_next h xs n') p a xs n' e"
proof (cases xs rule: rev_cases)
  case (snoc zs z)
  have "seg h p a zs (Some z) m \<Longrightarrow> seg (upd_next h xs n') p a zs (Some z) m" for m
    by (subst seg_frame [where h = h]) (use assms(2) snoc in \<open>auto simp: upd_next_def\<close>)
  with assms(1) snoc show ?thesis by (auto simp: seg_append upd_next_def)
qed (use assms in auto)

lemma seg_upd_prev:
  assumes "seg h p a ys n e" "distinct ys"
  shows "seg (upd_prev h ys p') p' a ys n e"
proof (cases ys)
  case (Cons z zs)
  have "seg h (Some z) m zs n e \<Longrightarrow> seg (upd_prev h ys p') (Some z) m zs n e" for m
    by (subst seg_frame [where h = h]) (use assms(2) Cons in \<open>auto simp: upd_prev_def\<close>)
  with assms(1) Cons show ?thesis by (auto simp: upd_prev_def)
qed (use assms in auto)

lemma seg_dom: "seg h p a xs n e \<Longrightarrow> set xs \<subseteq> dom h"
  by (induction xs arbitrary: p a) auto

lemma seg_bounds:
  "seg h p a xs n e \<Longrightarrow> a \<le> e \<and> (\<forall>b\<in>set xs. a \<le> blockPtr (the (h b)) \<and>
     blockPtr (the (h b)) + blockSize (the (h b)) \<le> e \<and> 0 < blockSize (the (h b)))"
proof (induction xs arbitrary: p a)
  case (Cons x xs)
  then obtain k where k: "h x = Some k" "blockPtr k = a" "0 < blockSize k"
      "seg h (Some x) (a + blockSize k) xs n e" by auto
  with Cons.IH [OF k(4)] show ?case by auto
qed simp

definition apart :: "block \<Rightarrow> block \<Rightarrow> bool" where
  "apart k l \<longleftrightarrow> blockPtr k + blockSize k \<le> blockPtr l \<or> blockPtr l + blockSize l \<le> blockPtr k"

lemma seg_apart:
  assumes "seg h p a xs n e" "b \<in> set xs" "c \<in> set xs" "b \<noteq> c"
  shows "apart (the (h b)) (the (h c))"
  using assms
proof (induction xs arbitrary: p a)
  case (Cons x xs)
  then obtain k where k: "h x = Some k" "blockPtr k = a" "seg h (Some x) (a + blockSize k) xs n e" by auto
  have "apart k (the (h y))" if "y \<in> set xs" for y
    using seg_bounds [OF k(3)] that k(2) by (auto simp: apart_def)
  moreover have "apart (the (h y)) k" if "y \<in> set xs" for y
    using calculation [OF that] by (auto simp: apart_def)
  ultimately show ?case using Cons.IH [OF k(3)] Cons.prems(2-4) k(1) by fastforce
qed simp

lemma seg_size: "seg h p a xs n e \<Longrightarrow> e = a + sum_list (map (\<lambda>b. blockSize (the (h b))) xs)"
  by (induction xs arbitrary: p a) fastforce+

subsection \<open>The invariant\<close>

type_synonym chunk = "addr \<times> addr \<times> blockId list"

definition ids_of :: "chunk \<Rightarrow> blockId list" where
  "ids_of c = snd (snd c)"

definition all_ids :: "chunk list \<Rightarrow> blockId list" where
  "all_ids L = concat (map ids_of L)"

definition chunk_ok :: "blockHeap \<Rightarrow> chunk \<Rightarrow> bool" where
  "chunk_ok h c \<longleftrightarrow> (case c of (a, e, ids) \<Rightarrow> ids \<noteq> [] \<and> 0 < a \<and> e < SIZE_MOD \<and> seg h None a ids None e)"

definition chunks_apart :: "chunk \<Rightarrow> chunk \<Rightarrow> bool" where
  "chunks_apart c c' \<longleftrightarrow> fst (snd c) \<le> fst c' \<or> fst (snd c') \<le> fst c"

definition all_apart :: "chunk list \<Rightarrow> bool" where
  "all_apart L \<longleftrightarrow> (\<forall>c\<in>set L. \<forall>c'\<in>set L. c \<noteq> c' \<longrightarrow> chunks_apart c c')"

definition inv_heap :: "chunk list \<Rightarrow> blockHeap \<Rightarrow> bool" where
  "inv_heap L h \<longleftrightarrow>
     (\<forall>c\<in>set L. chunk_ok h c) \<and> distinct (all_ids L) \<and> dom h = set (all_ids L) \<and>
     all_apart L \<and> (\<forall>b\<in>dom h. kMinBlockSize dvd blockSize (the (h b)))"

definition pools :: "deviceMemoryInfo \<Rightarrow> blockId list" where
  "pools info = smallBlocks info @ largeBlocks info"

definition pool_sorted :: "blockHeap \<Rightarrow> blockId list \<Rightarrow> bool" where
  "pool_sorted h pool \<longleftrightarrow> sorted_wrt (\<lambda>x y. \<not> BlockComparator (the (h y)) (the (h x))) pool"

definition inv_pools :: "blockId set \<Rightarrow> deviceMemoryInfo \<Rightarrow> bool" where
  "inv_pools H info \<longleftrightarrow>
     distinct (pools info) \<and> set (pools info) \<subseteq> dom (blocks info) \<and>
     H \<subseteq> dom (blocks info) - set (pools info) \<and>
     (\<forall>b\<in>dom (blocks info). inUse (the (blocks info b)) \<longleftrightarrow> b \<notin> set (pools info) \<union> H) \<and>
     pool_sorted (blocks info) (smallBlocks info) \<and> pool_sorted (blocks info) (largeBlocks info)"

definition inv_alloc :: "deviceMemoryInfo \<Rightarrow> bool" where
  "inv_alloc info \<longleftrightarrow>
     (\<forall>p b. allocatedBlocks info p = Some b \<longleftrightarrow>
        (\<exists>k. blocks info b = Some k \<and> inUse k \<and> blockPtr k = p))"

definition kind :: "bool \<Rightarrow> blockId set \<Rightarrow> deviceMemoryInfo \<Rightarrow> blockId list \<Rightarrow> bool" where
  "kind small H info ids \<longleftrightarrow>
     (\<forall>b\<in>set ids. if b \<in> set (pools info) then b \<in> set (pool_of small info)
        else b \<in> H \<or> (blockSize (the (blocks info b)) \<le> kSmallSize \<longleftrightarrow> small))"

definition coalesced :: "deviceMemoryInfo \<Rightarrow> blockId list \<Rightarrow> bool" where
  "coalesced info ids \<longleftrightarrow> successively (\<lambda>x y. x \<notin> set (pools info) \<or> y \<notin> set (pools info)) ids"

definition inv_chunk :: "nat \<Rightarrow> blockId set \<Rightarrow> deviceMemoryInfo \<Rightarrow> chunk \<Rightarrow> bool" where
  "inv_chunk splitLimit H info c \<longleftrightarrow>
     (case c of (a, e, ids) \<Rightarrow>
        coalesced info ids \<and>
        (2 \<le> length ids \<longrightarrow> e - a < splitLimit \<and> (\<exists>small. kind small H info ids)))"

definition inv_stats :: "chunk list \<Rightarrow> deviceMemoryInfo \<Rightarrow> bool" where
  "inv_stats L info \<longleftrightarrow>
     cachedBytes (stats info) = of_nat (sum_list (map (\<lambda>b. blockSize (the (blocks info b))) (pools info))) \<and>
     allocatedBytes (stats info) = of_nat (sum_list (map (\<lambda>(a, e, ids). e - a) L))"

definition mm_inv :: "nat \<Rightarrow> blockId set \<Rightarrow> chunk list \<Rightarrow> deviceMemoryInfo \<Rightarrow> bool" where
  "mm_inv splitLimit H L info \<longleftrightarrow>
     inv_heap L (blocks info) \<and> inv_pools H info \<and> inv_alloc info \<and>
     (\<forall>c\<in>set L. inv_chunk splitLimit H info c) \<and> inv_stats L info \<and>
     (\<forall>b\<in>dom (blocks info). b < nextId info)"

lemma mm_inv_perm:
  assumes "mm_inv sl H L info" "mset L = mset L'"
  shows "mm_inv sl H L' info"
proof -
  have s: "set L' = set L" using assms(2) by (metis set_mset_mset)
  have "mset (all_ids L') = mset (all_ids L)"
    using assms(2) by (simp add: all_ids_def mset_concat mset_map sum_mset_sum_list flip: mset_map) (metis mset_map sum_mset_sum_list)
  then have ids: "set (all_ids L') = set (all_ids L)" "distinct (all_ids L') = distinct (all_ids L)"
    by (metis set_mset_mset, metis mset_eq_imp_distinct_iff)
  have "sum_list (map f L') = sum_list (map f L)" for f :: "chunk \<Rightarrow> nat"
    using assms(2) by (metis mset_map sum_mset_sum_list)
  then show ?thesis using assms(1) by (simp add: mm_inv_def inv_heap_def all_apart_def s ids inv_stats_def)
qed


lemma inv_heap_Cons:
  "inv_heap ((a, e, ids) # R) h \<longleftrightarrow>
     ids \<noteq> [] \<and> 0 < a \<and> e < SIZE_MOD \<and> seg h None a ids None e \<and> distinct ids \<and>
     set ids \<inter> set (all_ids R) = {} \<and> (\<forall>c\<in>set R. chunk_ok h c) \<and> distinct (all_ids R) \<and>
     dom h = set ids \<union> set (all_ids R) \<and> (\<forall>c\<in>set R. chunks_apart (a, e, ids) c) \<and>
     all_apart R \<and> (\<forall>b\<in>dom h. kMinBlockSize dvd blockSize (the (h b)))"
proof -
  have new: "(a, e, ids) \<notin> set R" if "ids \<noteq> []" "set ids \<inter> set (all_ids R) = {}"
  proof
    assume "(a, e, ids) \<in> set R"
    then have "set ids \<subseteq> set (all_ids R)" unfolding all_ids_def ids_of_def by auto
    then show False using that by (cases ids) auto
  qed
  have sym: "chunks_apart c c' \<longleftrightarrow> chunks_apart c' c" for c c' unfolding chunks_apart_def by blast
  have pair: "all_apart (x # R) \<longleftrightarrow> (\<forall>c\<in>set R. chunks_apart x c) \<and> all_apart R" if "x \<notin> set R" for x
    unfolding all_apart_def
  proof (intro iffI conjI ballI impI, goal_cases)
    case (1 c)
    then show ?case using that by (metis list.set_intros)
  next
    case (2 c c')
    then show ?case by simp
  next
    case (3 c c')
    then consider "c = x" "c' \<in> set R" | "c' = x" "c \<in> set R" | "c \<in> set R" "c' \<in> set R" by auto
    then show ?case by cases (use 3 sym in auto)
  qed
  have ids: "distinct (all_ids ((a, e, ids) # R)) \<longleftrightarrow>
      distinct ids \<and> set ids \<inter> set (all_ids R) = {} \<and> distinct (all_ids R)"
      "set (all_ids ((a, e, ids) # R)) = set ids \<union> set (all_ids R)"
    by (auto simp: all_ids_def ids_of_def)
  have ok: "chunk_ok h (a, e, ids) \<longleftrightarrow> ids \<noteq> [] \<and> 0 < a \<and> e < SIZE_MOD \<and> seg h None a ids None e"
    by (simp add: chunk_ok_def)
  show ?thesis
  proof (cases "ids \<noteq> [] \<and> set ids \<inter> set (all_ids R) = {}")
    case True
    then have t: "ids \<noteq> []" "set ids \<inter> set (all_ids R) = {}" by simp_all
    show ?thesis
      unfolding inv_heap_def pair [OF new [OF t]] ids list.set ball_simps ok
      using t by (intro iffI) (elim conjE, intro conjI, assumption+)+
  next
    case False
    then show ?thesis unfolding inv_heap_def ids list.set ball_simps ok by blast
  qed
qed

lemma focus_block:
  assumes "mm_inv sl H L info" "b \<in> dom (blocks info)"
  obtains a e xs ys R where "mm_inv sl H ((a, e, xs @ b # ys) # R) info" "mset L = mset ((a, e, xs @ b # ys) # R)"
proof -
  have "b \<in> set (all_ids L)" using assms by (auto simp: mm_inv_def inv_heap_def)
  then obtain c where c: "c \<in> set L" "b \<in> set (ids_of c)" by (auto simp: all_ids_def)
  obtain a e ids where ids: "c = (a, e, ids)" by (cases c)
  then obtain xs ys where "ids = xs @ b # ys" using c(2) by (auto simp: ids_of_def dest: split_list)
  with ids have ae: "c = (a, e, xs @ b # ys)" by simp
  have "mset L = mset (c # remove1 c L)" using c(1) by simp
  then show thesis using that [of a e xs ys "remove1 c L"] assms(1) mm_inv_perm ae by blast
qed

lemma chunk_ok_frame:
  "chunk_ok h c \<Longrightarrow> (\<And>b. b \<in> set (ids_of c) \<Longrightarrow> h' b = h b) \<Longrightarrow> chunk_ok h' c"
  using seg_frame [of "ids_of c" h' h] by (cases c) (simp add: chunk_ok_def ids_of_def)

text \<open>Distinct blocks occupy disjoint addresses; in particular their addresses differ.\<close>

lemma inv_heap_apart:
  assumes "inv_heap L h" "b \<in> dom h" "c \<in> dom h" "b \<noteq> c"
  shows "apart (the (h b)) (the (h c))"
proof -
  obtain B C where B: "B \<in> set L" "b \<in> set (ids_of B)" and C: "C \<in> set L" "c \<in> set (ids_of C)"
    using assms by (auto simp: inv_heap_def all_ids_def)
  obtain a e ids a' e' ids' where BC: "B = (a, e, ids)" "C = (a', e', ids')" by (cases B, cases C)
  have s: "seg h None a ids None e" "seg h None a' ids' None e'"
    using B C assms(1) BC by (auto simp: inv_heap_def chunk_ok_def)
  show ?thesis
  proof (cases "B = C")
    case True
    then show ?thesis using seg_apart [OF s(1)] B C BC assms(4) by (simp add: ids_of_def)
  next
    case False
    then have "chunks_apart B C" using assms(1) B C by (simp add: inv_heap_def all_apart_def)
    then show ?thesis
      using seg_bounds [OF s(1)] seg_bounds [OF s(2)] B C BC by (fastforce simp: chunks_apart_def apart_def ids_of_def)
  qed
qed

lemma inv_heap_block:
  assumes "inv_heap L h" "h b = Some k"
  shows "0 < blockSize k" "0 < blockPtr k" "blockPtr k + blockSize k < SIZE_MOD" "kMinBlockSize dvd blockSize k"
proof -
  have "b \<in> set (all_ids L)" using assms by (auto simp: inv_heap_def)
  then obtain a e ids where c: "(a, e, ids) \<in> set L" "b \<in> set ids" by (auto simp: all_ids_def ids_of_def)
  then have "chunk_ok h (a, e, ids)" using assms(1) by (simp add: inv_heap_def)
  then have "seg h None a ids None e" "0 < a" "e < SIZE_MOD" by (auto simp: chunk_ok_def)
  then show "0 < blockSize k" "0 < blockPtr k" "blockPtr k + blockSize k < SIZE_MOD"
    using seg_bounds [of h None a ids None e] c(2) assms(2) by force+
  show "kMinBlockSize dvd blockSize k" using assms by (force simp: inv_heap_def dom_def)
qed

lemma same_ptr_same_block:
  assumes "inv_heap L h" "h b = Some k" "h c = Some l" "blockPtr k = blockPtr l"
  shows "b = c"
  using inv_heap_apart [OF assms(1), of b c] inv_heap_block [OF assms(1)] assms(2-4)
  by (fastforce simp: apart_def)

subsection \<open>Pool operations under the invariant\<close>

interpretation bc: strict_weak_order BlockComparator UNIV
  by unfold_locales (auto simp: BlockComparator_def split: if_splits)

lemma equivalent_iff: "equivalent k l \<longleftrightarrow> blockSize k = blockSize l \<and> blockPtr k = blockPtr l"
  by (auto simp: equivalent_def BlockComparator_def)

lemma pool_view_Inr: "set pool \<subseteq> dom h \<Longrightarrow> pool_view h pool = Inr (map (\<lambda>b. (b, the (h b))) pool)"
  unfolding pool_view_def by (rule rmap_Inr_map) (auto simp: deref_def)

lemma pool_erase_Inr:
  assumes "inv_heap L h" "set pool \<subseteq> dom h" "b \<in> dom h"
  shows "pool_erase h pool b = Inr (filter (\<lambda>c. c \<noteq> b) pool)"
proof -
  have "equivalent (the (h c)) (the (h b)) \<longleftrightarrow> c = b" if "c \<in> set pool" for c
  proof -
    have "c \<in> dom h" using that assms(2) by blast
    then obtain k l where "h c = Some k" "h b = Some l" using assms(3) by blast
    then show ?thesis using same_ptr_same_block [OF assms(1), of c k b l] by (auto simp: equivalent_iff)
  qed
  then have "filter (\<lambda>c. \<not> equivalent (the (h c)) (the (h b))) pool = filter (\<lambda>c. c \<noteq> b) pool"
    by (auto intro: filter_cong)
  then show ?thesis using assms
    by (auto simp: pool_erase_def deref_def pool_view_Inr filter_map o_def)
qed

interpretation bch: strict_weak_order "\<lambda>x y. BlockComparator (the (h x)) (the (h y))" UNIV for h :: blockHeap
  by unfold_locales (auto simp: BlockComparator_def split: if_splits)

lemma map_ins_by: "ins_by lt (f x) (map f xs) = map f (ins_by (\<lambda>a b. lt (f a) (f b)) x xs)"
  by (induction xs) auto

lemma pool_insert_Inr:
  assumes "inv_heap L h" "set pool \<subseteq> dom h" "b \<in> dom h" "b \<notin> set pool"
  shows "pool_insert h pool b = Inr (ins_by (\<lambda>x y. BlockComparator (the (h x)) (the (h y))) b pool)"
proof -
  have "\<not> equivalent (the (h c)) (the (h b))" if "c \<in> set pool" for c
  proof -
    have "c \<in> dom h" using that assms(2) by blast
    then obtain k l where "h c = Some k" "h b = Some l" using assms(3) by blast
    then show ?thesis
      using same_ptr_same_block [OF assms(1), of c k b l] that assms(4) by (auto simp: equivalent_iff)
  qed
  then have ex: "\<not> list_ex (\<lambda>(c, k). equivalent k (the (h b))) (map (\<lambda>b. (b, the (h b))) pool)"
    by (auto simp: list_ex_iff)
  obtain kb where kb: "h b = Some kb" using assms(3) by blast
  then show ?thesis
    using ex map_ins_by [of "\<lambda>x y. BlockComparator (snd x) (snd y)" "\<lambda>b. (b, the (h b))" b pool]
    by (simp add: pool_insert_def deref_def pool_view_Inr [OF assms(2)] o_def)
qed

lemma pool_sorted_insert:
  "pool_sorted h pool \<Longrightarrow> pool_sorted h (ins_by (\<lambda>x y. BlockComparator (the (h x)) (the (h y))) b pool)"
  unfolding pool_sorted_def by (rule bch.sorted_ins_by) auto

lemma pool_sorted_filter: "pool_sorted h pool \<Longrightarrow> pool_sorted h (filter P pool)"
  unfolding pool_sorted_def by (rule sorted_wrt_filter)

lemma ins_by_distinct: "distinct (ins_by lt x xs) \<longleftrightarrow> x \<notin> set xs \<and> distinct xs"
  by (induction xs) auto

lemma sum_ins_by: "sum_list (map f (ins_by lt x xs)) = f x + sum_list (map f xs)" for f :: "_ \<Rightarrow> nat"
  by (induction xs) auto

text \<open>What the pools see of a block: everything but its links.\<close>

definition bdata :: "blockHeap \<Rightarrow> blockId \<Rightarrow> (nat \<times> addr \<times> bool) option" where
  "bdata h b = map_option (\<lambda>k. (blockSize k, blockPtr k, inUse k)) (h b)"

lemma bdata_upd_next [simp]: "set xs \<subseteq> dom h \<Longrightarrow> bdata (upd_next h xs n) = bdata h"
proof (cases xs rule: rev_cases)
  case (snoc ys y)
  assume "set xs \<subseteq> dom h"
  then show ?thesis using snoc by (auto simp: bdata_def upd_next_def fun_eq_iff inUse_def)
qed (simp add: upd_next_def)

lemma bdata_upd_prev [simp]: "set ys \<subseteq> dom h \<Longrightarrow> bdata (upd_prev h ys n) = bdata h"
  by (cases ys) (auto simp: bdata_def upd_prev_def fun_eq_iff inUse_def)

lemma bdata_Some: "h b = Some k \<Longrightarrow> bdata h b = Some (blockSize k, blockPtr k, inUse k)"
  by (simp add: bdata_def)

lemma bdata_eqD:
  assumes "bdata h' b = bdata h b"
  shows "b \<in> dom h' \<longleftrightarrow> b \<in> dom h"
    "b \<in> dom h \<Longrightarrow> blockSize (the (h' b)) = blockSize (the (h b))"
    "b \<in> dom h \<Longrightarrow> blockPtr (the (h' b)) = blockPtr (the (h b))"
    "b \<in> dom h \<Longrightarrow> inUse (the (h' b)) = inUse (the (h b))"
  using assms by (cases "h b"; cases "h' b"; simp add: bdata_def domIff)+

lemma pool_sorted_frame:
  assumes "\<And>b. b \<in> set pool \<Longrightarrow> bdata h' b = bdata h b" "set pool \<subseteq> dom h" "pool_sorted h pool"
  shows "pool_sorted h' pool"
proof -
  have "BlockComparator (the (h' y)) (the (h' x)) = BlockComparator (the (h y)) (the (h x))"
    if "x \<in> set pool" "y \<in> set pool" for x y
  proof -
    have "x \<in> dom h" "y \<in> dom h" using that assms(2) by auto
    then show ?thesis
      using bdata_eqD [OF assms(1) [OF that(1)]] bdata_eqD [OF assms(1) [OF that(2)]]
      by (simp add: BlockComparator_def)
  qed
  with assms(3) show ?thesis unfolding pool_sorted_def by (auto intro: sorted_wrt_mono_rel [rotated])
qed

subsection \<open>Splitting and merging on the heap\<close>

lemma dom_upd [simp]:
  "set xs \<subseteq> dom h \<Longrightarrow> dom (upd_next h xs n) = dom h"
  "set xs \<subseteq> dom h \<Longrightarrow> dom (upd_prev h xs n) = dom h"
  by (cases xs rule: rev_cases; auto simp: upd_next_def) (cases xs; auto simp: upd_prev_def)

lemma upd_other:
  "b \<notin> set xs \<Longrightarrow> upd_next h xs n b = h b" "b \<notin> set xs \<Longrightarrow> upd_prev h xs n b = h b"
  by (cases xs rule: rev_cases; auto simp: upd_next_def) (cases xs; auto simp: upd_prev_def)

text \<open>Only the blocks of one chunk change, and the new ones tile the same address range.\<close>

lemma inv_heap_replace:
  assumes "inv_heap ((a, e, ids) # R) h" "ids' \<noteq> []" "distinct ids'" "seg h' None a ids' None e"
    and "set ids' \<inter> set (all_ids R) = {}" "dom h' = set ids' \<union> set (all_ids R)"
    and "\<And>x. x \<in> set (all_ids R) \<Longrightarrow> h' x = h x"
    and "\<And>x. x \<in> set ids' \<Longrightarrow> kMinBlockSize dvd blockSize (the (h' x))"
  shows "inv_heap ((a, e, ids') # R) h'"
proof -
  have i: "0 < a" "e < SIZE_MOD" "\<forall>c\<in>set R. chunk_ok h c" "distinct (all_ids R)"
      "dom h = set ids \<union> set (all_ids R)" "\<forall>c\<in>set R. chunks_apart (a, e, ids) c"
      "all_apart R" "\<forall>b\<in>dom h. kMinBlockSize dvd blockSize (the (h b))"
    using assms(1) unfolding inv_heap_Cons by blast+
  have "chunk_ok h' c" if "c \<in> set R" for c
  proof (rule chunk_ok_frame)
    show "chunk_ok h c" using i(3) that by blast
    fix x assume "x \<in> set (ids_of c)"
    then have "x \<in> set (all_ids R)" using that by (auto simp: all_ids_def)
    then show "h' x = h x" by (rule assms(7))
  qed
  moreover have "kMinBlockSize dvd blockSize (the (h' x))" if "x \<in> dom h'" for x
    using that assms(6,7,8) i(5,8) by auto
  moreover have "\<forall>c\<in>set R. chunks_apart (a, e, ids') c" using i(6) by (simp add: chunks_apart_def)
  ultimately show ?thesis unfolding inv_heap_Cons using assms(2-6) i by blast
qed

lemma inv_heap_ConsD:
  assumes "inv_heap ((a, e, ids) # R) h"
  shows "seg h None a ids None e" "distinct ids" "set ids \<inter> set (all_ids R) = {}"
    "dom h = set ids \<union> set (all_ids R)" "\<And>b. b \<in> dom h \<Longrightarrow> kMinBlockSize dvd blockSize (the (h b))"
    "\<And>c. c \<in> set R \<Longrightarrow> chunk_ok h c" "distinct (all_ids R)" "all_apart R"
    "\<And>c. c \<in> set R \<Longrightarrow> chunks_apart (a, e, ids) c"
  using assms unfolding inv_heap_Cons by blast+

definition split_heap :: "blockHeap \<Rightarrow> blockId list \<Rightarrow> blockId \<Rightarrow> blockId \<Rightarrow> block \<Rightarrow> nat \<Rightarrow> blockHeap" where
  "split_heap h xs n b k sz =
     (upd_next h xs (Some n))
       (n \<mapsto> (new_block sz (blockPtr k))\<lparr>prevBlock := prevBlock k, nextBlock := Some b\<rparr>,
        b \<mapsto> k\<lparr>prevBlock := Some n, blockPtr := blockPtr k + sz, blockSize := blockSize k - sz\<rparr>)"

lemma inv_heap_split:
  assumes inv: "inv_heap ((a, e, xs @ b # ys) # R) h" and k: "h b = Some k" and n: "n \<notin> dom h"
    and sz: "0 < sz" "sz < blockSize k" "kMinBlockSize dvd sz"
  shows "inv_heap ((a, e, xs @ n # b # ys) # R) (split_heap h xs n b k sz)" (is "inv_heap _ ?h")
proof (rule inv_heap_replace [OF inv])
  note i = inv_heap_ConsD [OF inv]
  have s: "seg h None a xs (Some b) (blockPtr k)" "prevBlock k = lst None xs" "nextBlock k = fst_or None ys"
      "seg h (Some b) (blockPtr k + blockSize k) ys None e"
    using i(1) k by (auto simp: seg_focus)
  have dxs: "set xs \<subseteq> dom h" using i(4) by auto
  have new: "n \<notin> set xs" "n \<noteq> b" "n \<notin> set ys" "n \<notin> set (all_ids R)" using n i(4) by auto
  have same: "?h x = h x" if "x \<notin> set xs" "x \<noteq> b" "x \<noteq> n" for x
    using that by (simp add: split_heap_def upd_other)
  have "seg (upd_next h xs (Some n)) None a xs (Some n) (blockPtr k)"
    using seg_upd_next [OF s(1)] i(2) by simp
  then have s1: "seg ?h None a xs (Some n) (blockPtr k)"
    by (subst seg_frame [where h = "upd_next h xs (Some n)"]) (use new i(2) in \<open>auto simp: split_heap_def\<close>)
  have s2: "seg ?h (Some b) (blockPtr k + blockSize k) ys None e"
  proof (subst seg_frame [where h = h])
    fix x assume "x \<in> set ys"
    then show "?h x = h x" using new i(2) by (intro same) auto
  qed (rule s(4))
  have hb: "?h b = Some (k\<lparr>prevBlock := Some n, blockPtr := blockPtr k + sz, blockSize := blockSize k - sz\<rparr>)"
      "?h n = Some ((new_block sz (blockPtr k))\<lparr>prevBlock := prevBlock k, nextBlock := Some b\<rparr>)"
    using new by (auto simp: split_heap_def)
  show "seg ?h None a (xs @ n # b # ys) None e"
    unfolding seg_focus [of _ _ _ xs n "b # ys"] hb(2)
    using s1 s2 s(2,3) hb(1) sz by (simp add: new_block_def fst_or_def)
  show "distinct (xs @ n # b # ys)" using i(2) new by auto
  show "set (xs @ n # b # ys) \<inter> set (all_ids R) = {}" using i(3) new by auto
  show "dom ?h = set (xs @ n # b # ys) \<union> set (all_ids R)" using i(4) dxs by (auto simp: split_heap_def)
  show "?h x = h x" if "x \<in> set (all_ids R)" for x using that i(3) new by (intro same) auto
  show "kMinBlockSize dvd blockSize (the (?h x))" if "x \<in> set (xs @ n # b # ys)" for x
  proof (cases "x = b \<or> x = n")
    case True
    then show ?thesis using hb i(5) [OF domI [of h b, OF k]] k sz(3) by (auto simp: new_block_def)
  next
    case False
    then have "bdata ?h x = bdata (upd_next h xs (Some n)) x" by (simp add: bdata_def split_heap_def)
    then have "bdata ?h x = bdata h x" using dxs by simp
    moreover have "x \<in> dom h" using that False i(4) by auto
    ultimately show ?thesis using bdata_eqD(2) i(5) by metis
  qed
qed simp

definition merge_prev_heap :: "blockHeap \<Rightarrow> blockId list \<Rightarrow> blockId \<Rightarrow> block \<Rightarrow> blockId \<Rightarrow> block \<Rightarrow> blockHeap" where
  "merge_prev_heap h xs s sb b k =
     ((upd_next h xs (Some b))
       (b \<mapsto> k\<lparr>blockPtr := blockPtr sb, prevBlock := prevBlock sb, blockSize := blockSize k + blockSize sb\<rparr>))(s := None)"

lemma inv_heap_merge_prev:
  assumes inv: "inv_heap ((a, e, xs @ s # b # ys) # R) h" and k: "h b = Some k" "h s = Some sb"
  shows "inv_heap ((a, e, xs @ b # ys) # R) (merge_prev_heap h xs s sb b k)" (is "inv_heap _ ?h")
proof (rule inv_heap_replace [OF inv])
  note i = inv_heap_ConsD [OF inv]
  have s: "seg h None a xs (Some s) (blockPtr sb)" "prevBlock sb = lst None xs" "nextBlock k = fst_or None ys"
      "blockPtr k = blockPtr sb + blockSize sb" "0 < blockSize k"
      "seg h (Some b) (blockPtr k + blockSize k) ys None e"
    using i(1) k by (auto simp: seg_focus fst_or_def)
  have dxs: "set xs \<subseteq> dom h" using i(4) by auto
  have new: "s \<notin> set xs" "s \<noteq> b" "s \<notin> set ys" "s \<notin> set (all_ids R)" using i(2,3) by auto
  have same: "?h x = h x" if "x \<notin> set xs" "x \<noteq> b" "x \<noteq> s" for x
    using that by (simp add: merge_prev_heap_def upd_other)
  have "seg (upd_next h xs (Some b)) None a xs (Some b) (blockPtr sb)"
    using seg_upd_next [OF s(1)] i(2) by simp
  then have s1: "seg ?h None a xs (Some b) (blockPtr sb)"
    by (subst seg_frame [where h = "upd_next h xs (Some b)"]) (use new i(2) in \<open>auto simp: merge_prev_heap_def\<close>)
  have s2: "seg ?h (Some b) (blockPtr k + blockSize k) ys None e"
  proof (subst seg_frame [where h = h])
    fix x assume "x \<in> set ys"
    then show "?h x = h x" using new i(2) by (intro same) auto
  qed (rule s(6))
  have hb: "?h b = Some (k\<lparr>blockPtr := blockPtr sb, prevBlock := prevBlock sb, blockSize := blockSize k + blockSize sb\<rparr>)"
    using new by (simp add: merge_prev_heap_def)
  have e: "blockPtr sb + (blockSize k + blockSize sb) = blockPtr k + blockSize k" using s(4) by simp
  show "seg ?h None a (xs @ b # ys) None e"
    unfolding seg_focus hb using s1 s2 s(2,3,5) by (simp add: e)
  show "distinct (xs @ b # ys)" using i(2) by auto
  show "set (xs @ b # ys) \<inter> set (all_ids R) = {}" using i(3) by auto
  show "dom ?h = set (xs @ b # ys) \<union> set (all_ids R)"
    using i(4) dxs new by (auto simp: merge_prev_heap_def)
  show "?h x = h x" if "x \<in> set (all_ids R)" for x using that i(3) new by (intro same) auto
  show "kMinBlockSize dvd blockSize (the (?h x))" if "x \<in> set (xs @ b # ys)" for x
  proof (cases "x = b")
    case True
    then show ?thesis using hb i(5) [OF domI [of h b, OF k(1)]] i(5) [OF domI [of h s, OF k(2)]] k by simp
  next
    case False
    then have "bdata ?h x = bdata (upd_next h xs (Some b)) x"
      using that new by (auto simp: bdata_def merge_prev_heap_def)
    then have "bdata ?h x = bdata h x" using dxs by simp
    moreover have "x \<in> dom h" using that i(4) by auto
    ultimately show ?thesis using bdata_eqD(2) i(5) by metis
  qed
qed simp

definition merge_next_heap :: "blockHeap \<Rightarrow> blockId list \<Rightarrow> blockId \<Rightarrow> block \<Rightarrow> blockId \<Rightarrow> block \<Rightarrow> blockHeap" where
  "merge_next_heap h ys s sb b k =
     ((upd_prev h ys (Some b))
       (b \<mapsto> k\<lparr>nextBlock := nextBlock sb, blockSize := blockSize k + blockSize sb\<rparr>))(s := None)"

lemma inv_heap_merge_next:
  assumes inv: "inv_heap ((a, e, xs @ b # s # ys) # R) h" and k: "h b = Some k" "h s = Some sb"
  shows "inv_heap ((a, e, xs @ b # ys) # R) (merge_next_heap h ys s sb b k)" (is "inv_heap _ ?h")
proof (rule inv_heap_replace [OF inv])
  note i = inv_heap_ConsD [OF inv]
  have s: "seg h None a xs (Some b) (blockPtr k)" "prevBlock k = lst None xs" "nextBlock sb = fst_or None ys"
      "blockPtr sb = blockPtr k + blockSize k" "0 < blockSize k"
      "seg h (Some s) (blockPtr sb + blockSize sb) ys None e"
    using i(1) k by (auto simp: seg_focus fst_or_def)
  have dys: "set ys \<subseteq> dom h" using i(4) by auto
  have new: "s \<notin> set xs" "s \<noteq> b" "s \<notin> set ys" "s \<notin> set (all_ids R)" using i(2,3) by auto
  have same: "?h x = h x" if "x \<notin> set ys" "x \<noteq> b" "x \<noteq> s" for x
    using that by (simp add: merge_next_heap_def upd_other)
  have s1: "seg ?h None a xs (Some b) (blockPtr k)"
  proof (subst seg_frame [where h = h])
    fix x assume "x \<in> set xs"
    then show "?h x = h x" using new i(2) by (intro same) auto
  qed (rule s(1))
  have "seg (upd_prev h ys (Some b)) (Some b) (blockPtr sb + blockSize sb) ys None e"
    using seg_upd_prev [OF s(6)] i(2) by simp
  then have s2: "seg ?h (Some b) (blockPtr sb + blockSize sb) ys None e"
    by (subst seg_frame [where h = "upd_prev h ys (Some b)"]) (use new i(2) in \<open>auto simp: merge_next_heap_def\<close>)
  have hb: "?h b = Some (k\<lparr>nextBlock := nextBlock sb, blockSize := blockSize k + blockSize sb\<rparr>)"
    using new by (simp add: merge_next_heap_def)
  show "seg ?h None a (xs @ b # ys) None e"
    unfolding seg_focus hb using s1 s2 s by (simp add: add.assoc)
  show "distinct (xs @ b # ys)" using i(2) by auto
  show "set (xs @ b # ys) \<inter> set (all_ids R) = {}" using i(3) by auto
  show "dom ?h = set (xs @ b # ys) \<union> set (all_ids R)"
    using i(4) dys new by (auto simp: merge_next_heap_def)
  show "?h x = h x" if "x \<in> set (all_ids R)" for x using that i(3) new by (intro same) auto
  show "kMinBlockSize dvd blockSize (the (?h x))" if "x \<in> set (xs @ b # ys)" for x
  proof (cases "x = b")
    case True
    then show ?thesis using hb i(5) [OF domI [of h b, OF k(1)]] i(5) [OF domI [of h s, OF k(2)]] k by simp
  next
    case False
    then have "bdata ?h x = bdata (upd_prev h ys (Some b)) x"
      using that new by (auto simp: bdata_def merge_next_heap_def)
    then have "bdata ?h x = bdata h x" using dys by simp
    moreover have "x \<in> dom h" using that i(4) by auto
    ultimately show ?thesis using bdata_eqD(2) i(5) by metis
  qed
qed simp

end
