(* ===== verification/CachingMemorySafety.thy ===== *)
theory CachingMemorySafety
  imports CachingMemoryInvariant
begin

section \<open>The operations of the caching memory manager keep its invariant\<close>

text \<open>
  The building blocks of the operations: changes of the heap that the invariant does not see, taking a block from a pool and
  putting it back, merging a block with its free neighbours and returning it to its pool.
\<close>

subsection \<open>Frame lemmas\<close>

lemma deref_Some [simp]: "h b = Some k \<Longrightarrow> deref h b = Inr k"
  by (simp add: deref_def)

lemma modify_Some [simp]: "h b = Some k \<Longrightarrow> modify h b f = Inr (h(b \<mapsto> f k))"
  by (simp add: modify_def)

lemma modify_opt_simps [simp]:
  "modify_opt h None f = Inr h" "modify_opt h (Some b) f = modify h b f"
  by (simp_all add: modify_opt_def)

lemma info_simps [simp]:
  "blocks (add_cached w info) = blocks info" "smallBlocks (add_cached w info) = smallBlocks info"
  "largeBlocks (add_cached w info) = largeBlocks info" "allocatedBlocks (add_cached w info) = allocatedBlocks info"
  "nextId (add_cached w info) = nextId info" "cachedBytes (stats (add_cached w info)) = cachedBytes (stats info) + w"
  "allocatedBytes (stats (add_cached w info)) = allocatedBytes (stats info)"
  "blocks (add_allocated w info) = blocks info" "smallBlocks (add_allocated w info) = smallBlocks info"
  "largeBlocks (add_allocated w info) = largeBlocks info" "allocatedBlocks (add_allocated w info) = allocatedBlocks info"
  "nextId (add_allocated w info) = nextId info" "cachedBytes (stats (add_allocated w info)) = cachedBytes (stats info)"
  "allocatedBytes (stats (add_allocated w info)) = allocatedBytes (stats info) + w"
  "blocks (count_malloc info) = blocks info" "smallBlocks (count_malloc info) = smallBlocks info"
  "largeBlocks (count_malloc info) = largeBlocks info" "allocatedBlocks (count_malloc info) = allocatedBlocks info"
  "nextId (count_malloc info) = nextId info" "cachedBytes (stats (count_malloc info)) = cachedBytes (stats info)"
  "allocatedBytes (stats (count_malloc info)) = allocatedBytes (stats info)"
  "blocks (count_free info) = blocks info" "smallBlocks (count_free info) = smallBlocks info"
  "largeBlocks (count_free info) = largeBlocks info" "allocatedBlocks (count_free info) = allocatedBlocks info"
  "nextId (count_free info) = nextId info" "cachedBytes (stats (count_free info)) = cachedBytes (stats info)"
  "allocatedBytes (stats (count_free info)) = allocatedBytes (stats info)"
  "blocks (set_pool small p info) = blocks info" "allocatedBlocks (set_pool small p info) = allocatedBlocks info"
  "nextId (set_pool small p info) = nextId info" "stats (set_pool small p info) = stats info"
  by (simp_all add: add_cached_def add_allocated_def count_malloc_def count_free_def set_pool_def)

lemma pool_of_simps [simp]:
  "pool_of s (add_cached w info) = pool_of s info" "pool_of s (add_allocated w info) = pool_of s info"
  "pool_of s (count_malloc info) = pool_of s info" "pool_of s (count_free info) = pool_of s info"
  "pool_of s (info\<lparr>blocks := h\<rparr>) = pool_of s info" "pool_of s (info\<lparr>nextId := n\<rparr>) = pool_of s info"
  "pool_of s (info\<lparr>allocatedBlocks := m\<rparr>) = pool_of s info"
  "pool_of s (set_pool t p info) = (if s = t then p else pool_of s info)"
  by (auto simp: pool_of_def set_pool_def)

lemma pools_simps [simp]:
  "pools (info\<lparr>blocks := h\<rparr>) = pools info" "pools (info\<lparr>nextId := n\<rparr>) = pools info"
  "pools (info\<lparr>allocatedBlocks := m\<rparr>) = pools info"
  by (simp_all add: pools_def)

lemma set_pools: "set (pools info) = set (pool_of True info) \<union> set (pool_of False info)"
  by (simp add: pools_def pool_of_def)

lemma mset_pools: "mset (pools info) = mset (pool_of small info) + mset (pool_of (\<not> small) info)"
  by (cases small) (simp_all add: pools_def pool_of_def)

lemma distinct_pools:
  "distinct (pools info) \<longleftrightarrow> distinct (pool_of small info) \<and> distinct (pool_of (\<not> small) info) \<and>
     set (pool_of small info) \<inter> set (pool_of (\<not> small) info) = {}"
  by (cases small) (auto simp: pools_def pool_of_def)

definition pool_bytes :: "blockHeap \<Rightarrow> blockId list \<Rightarrow> nat" where
  "pool_bytes h xs = sum_list (map (\<lambda>b. blockSize (the (h b))) xs)"

lemma pool_bytes_frame:
  assumes "\<And>b. b \<in> set xs \<Longrightarrow> bdata h' b = bdata h b" "set xs \<subseteq> dom h"
  shows "pool_bytes h' xs = pool_bytes h xs"
proof -
  have "map (\<lambda>b. blockSize (the (h' b))) xs = map (\<lambda>b. blockSize (the (h b))) xs"
    using bdata_eqD(2) [OF assms(1)] assms(2) by (intro map_cong) blast+
  then show ?thesis unfolding pool_bytes_def by (rule arg_cong)
qed

lemma cached_split:
  "sum_list (map (\<lambda>b. blockSize (the (h b))) (pools info)) =
     pool_bytes h (pool_of small info) + pool_bytes h (pool_of (\<not> small) info)"
  by (cases small) (simp_all add: pools_def pool_of_def pool_bytes_def)

lemma pool_bytes_remove: "s \<in> set xs \<Longrightarrow> distinct xs \<Longrightarrow>
    pool_bytes h xs = blockSize (the (h s)) + pool_bytes h (filter (\<lambda>c. c \<noteq> s) xs)"
proof -
  have f: "filter (\<lambda>c. c \<noteq> s) zs = zs" if "s \<notin> set zs" for zs using that by (auto simp: filter_id_conv)
  assume "s \<in> set xs" "distinct xs"
  then show ?thesis unfolding pool_bytes_def by (induction xs) (auto simp: f)
qed

lemma inv_alloc_bdata:
  "inv_alloc info \<longleftrightarrow>
     (\<forall>p b. allocatedBlocks info p = Some b \<longleftrightarrow> (\<exists>z. bdata (blocks info) b = Some (z, p, True)))"
  by (auto simp: inv_alloc_def bdata_def)

lemma inv_pools_bdata:
  "inv_pools H info \<longleftrightarrow>
     distinct (pools info) \<and> set (pools info) \<subseteq> dom (blocks info) \<and>
     H \<subseteq> dom (blocks info) - set (pools info) \<and>
     (\<forall>b z p u. bdata (blocks info) b = Some (z, p, u) \<longrightarrow> (u \<longleftrightarrow> b \<notin> set (pools info) \<union> H)) \<and>
     (\<forall>small. pool_sorted (blocks info) (pool_of small info))"
proof -
  have "(\<forall>b\<in>dom h. inUse (the (h b)) \<longleftrightarrow> Q b) \<longleftrightarrow> (\<forall>b z p u. bdata h b = Some (z, p, u) \<longrightarrow> (u \<longleftrightarrow> Q b))" for h Q
  proof (rule iffI; intro allI impI ballI)
    fix b z p u
    assume "\<forall>b\<in>dom h. inUse (the (h b)) \<longleftrightarrow> Q b" "bdata h b = Some (z, p, u)"
    then show "u \<longleftrightarrow> Q b" by (cases "h b") (auto simp: bdata_def dom_def)
  next
    fix b
    assume "\<forall>b z p u. bdata h b = Some (z, p, u) \<longrightarrow> (u \<longleftrightarrow> Q b)" "b \<in> dom h"
    then show "inUse (the (h b)) \<longleftrightarrow> Q b" by (auto simp: bdata_def)
  qed
  then show ?thesis unfolding inv_pools_def by (simp add: pool_of_def all_bool_eq)
qed

lemma inv_chunk_frame:
  assumes "inv_chunk sl H info c"
    and "\<And>b small. b \<in> set (ids_of c) \<Longrightarrow> b \<in> set (pool_of small info') \<longleftrightarrow> b \<in> set (pool_of small info)"
    and "\<And>b. b \<in> set (ids_of c) \<Longrightarrow> b \<in> H' \<longleftrightarrow> b \<in> H"
    and "\<And>b. b \<in> set (ids_of c) \<Longrightarrow> bdata (blocks info') b = bdata (blocks info) b"
    and "set (ids_of c) \<subseteq> dom (blocks info)"
  shows "inv_chunk sl H' info' c"
proof -
  obtain a e ids where c: "c = (a, e, ids)" by (cases c)
  have p: "b \<in> set (pools info') \<longleftrightarrow> b \<in> set (pools info)" if "b \<in> set ids" for b
    using that assms(2) c by (simp add: set_pools ids_of_def)
  have z: "blockSize (the (blocks info' b)) = blockSize (the (blocks info b))" if "b \<in> set ids" for b
  proof -
    have b: "b \<in> set (ids_of c)" using that c by (simp add: ids_of_def)
    then show ?thesis using bdata_eqD(2) [OF assms(4) [OF b]] assms(5) by blast
  qed
  have "kind small H' info' ids = kind small H info ids" for small
    using p z assms(2,3) c by (simp add: kind_def ids_of_def)
  moreover have "coalesced info' ids = coalesced info ids"
    unfolding coalesced_def using p by (intro successively_cong) auto
  ultimately show ?thesis using assms(1) c by (simp add: inv_chunk_def)
qed

lemma mm_invD:
  assumes "mm_inv sl H L info"
  shows "inv_heap L (blocks info)" "inv_pools H info" "inv_alloc info" "\<And>c. c \<in> set L \<Longrightarrow> inv_chunk sl H info c"
    "inv_stats L info" "\<And>b. b \<in> dom (blocks info) \<Longrightarrow> b < nextId info"
  using assms by (simp_all add: mm_inv_def)

lemma inv_poolsD:
  assumes "inv_pools H info"
  shows "distinct (pools info)" "set (pools info) \<subseteq> dom (blocks info)" "H \<subseteq> dom (blocks info)"
    "H \<inter> set (pools info) = {}"
    "\<And>b z p u. bdata (blocks info) b = Some (z, p, u) \<Longrightarrow> u \<longleftrightarrow> b \<notin> set (pools info) \<union> H"
    "\<And>small. pool_sorted (blocks info) (pool_of small info)"
    "\<And>small. set (pool_of small info) \<subseteq> dom (blocks info)"
proof -
  note p = assms [unfolded inv_pools_bdata]
  show "distinct (pools info)" "set (pools info) \<subseteq> dom (blocks info)" "H \<subseteq> dom (blocks info)"
      "H \<inter> set (pools info) = {}" using p by blast+
  show "u \<longleftrightarrow> b \<notin> set (pools info) \<union> H" if "bdata (blocks info) b = Some (z, p, u)" for b z p u
    using p that by blast
  show "pool_sorted (blocks info) (pool_of small info)" for small using p by blast
  show "set (pool_of small info) \<subseteq> dom (blocks info)" for small
    using p set_pools [of info] by (cases small) auto
qed

lemma in_one_pool:
  assumes "distinct (pools info)" "s \<in> set (pool_of small info)"
  shows "s \<notin> set (pool_of (\<not> small) info)" "distinct (pool_of small info)" "s \<in> set (pools info)"
proof -
  show "s \<notin> set (pool_of (\<not> small) info)" using assms distinct_pools [of info small] by blast
  show "distinct (pool_of small info)" using assms distinct_pools [of info small] by blast
  show "s \<in> set (pools info)" using assms(2) set_pools [of info] by (cases small) auto
qed

lemma bdata_dom: "b \<in> dom h \<longleftrightarrow> bdata h b \<noteq> None"
  by (auto simp: bdata_def)

text \<open>What the rest of the program sees of a block, and that it is kept for every block in use.\<close>

definition payload :: "blockHeap \<Rightarrow> blockId \<Rightarrow> (nat \<times> addr \<times> bool \<times> bool) option" where
  "payload h b = map_option (\<lambda>k. (blockSize k, blockPtr k, managerLock k, userLocked k)) (h b)"

lemma payload_upd [simp]:
  "set xs \<subseteq> dom h \<Longrightarrow> payload (upd_next h xs n) = payload h"
  "set xs \<subseteq> dom h \<Longrightarrow> payload (upd_prev h xs n) = payload h"
proof -
  assume d: "set xs \<subseteq> dom h"
  show "payload (upd_next h xs n) = payload h"
    using d by (cases xs rule: rev_cases) (auto simp: payload_def upd_next_def fun_eq_iff)
  show "payload (upd_prev h xs n) = payload h"
    using d by (cases xs) (auto simp: payload_def upd_prev_def fun_eq_iff)
qed

definition keeps :: "deviceMemoryInfo \<Rightarrow> deviceMemoryInfo \<Rightarrow> bool" where
  "keeps info info' \<longleftrightarrow> allocatedBlocks info' = allocatedBlocks info \<and>
     (\<forall>b k. blocks info b = Some k \<and> inUse k \<longrightarrow> payload (blocks info') b = payload (blocks info) b)"

lemma keeps_refl [simp]: "keeps info info" by (simp add: keeps_def)

lemma keeps_trans:
  assumes "keeps i j" "keeps j l"
  shows "keeps i l"
proof -
  have "payload (blocks l) b = payload (blocks i) b" if k: "blocks i b = Some k" "inUse k" for b k
  proof -
    have j: "payload (blocks j) b = payload (blocks i) b" using assms(1) k by (auto simp: keeps_def)
    then obtain k' where "blocks j b = Some k'" "inUse k'" using k by (auto simp: payload_def inUse_def)
    then show ?thesis using assms(2) j by (simp add: keeps_def)
  qed
  then show ?thesis using assms by (auto simp: keeps_def)
qed

text \<open>A pooled block \<open>s\<close> is merged into the held block \<open>b\<close>.\<close>

definition merged :: "bool \<Rightarrow> blockId \<Rightarrow> nat \<Rightarrow> blockHeap \<Rightarrow> deviceMemoryInfo \<Rightarrow> deviceMemoryInfo" where
  "merged small s z h' info = add_cached (- of_nat z)
     ((set_pool small (filter (\<lambda>c. c \<noteq> s) (pool_of small info)) info)\<lparr>blocks := h'\<rparr>)"

lemma merge_inv:
  fixes info :: deviceMemoryInfo
  defines "h \<equiv> blocks info"
  assumes inv: "mm_inv sl {b} ((a, e, ids) # R) info"
    and heap: "inv_heap ((a, e, ids') # R) h'"
    and ids: "set ids = insert s (set ids')" "s \<notin> set ids'" "b \<in> set ids'" "length ids' \<le> length ids"
    and s: "s \<in> set (pool_of small info)" "bdata h s = Some (z, q, u)"
    and same: "\<And>x. x \<noteq> b \<Longrightarrow> x \<noteq> s \<Longrightarrow> bdata h' x = bdata h x"
    and hb: "bdata h' b = Some (z', p', False)" "bdata h' s = None"
    and coal: "coalesced info ids'" and kind: "kind small {b} info ids"
  defines "info' \<equiv> merged small s z h' info"
  shows "mm_inv sl {b} ((a, e, ids') # R) info'" "kind small {b} info' ids'"
proof -
  note P = inv_poolsD [OF mm_invD(2) [OF inv], folded h_def]
  note one = in_one_pool [OF P(1) s(1)]
  have pools': "set (pool_of t info') = set (pool_of t info) - {s}" for t
    using one(1) by (cases "t = small") (auto simp: info'_def merged_def)
  then have spools': "set (pools info') = set (pools info) - {s}" by (auto simp: set_pools)
  have bs: "b \<noteq> s" using one(3) P(4) by auto
  have bp: "b \<notin> set (pools info)" using P(4) by auto
  have h': "blocks info' = h'" by (simp add: info'_def merged_def)
  have db: "b \<in> dom h" using P(3) by auto
  then obtain zb pb ub where b: "bdata h b = Some (zb, pb, ub)" by (auto simp: bdata_dom)
  have dom': "dom h' = dom h - {s}"
  proof (intro set_eqI)
    fix x show "x \<in> dom h' \<longleftrightarrow> x \<in> dom h - {s}"
      using same [of x] hb b bs by (cases "x = b \<or> x = s") (auto simp: bdata_dom)
  qed
  have keep: "bdata h' x = bdata h x" if "x \<in> set (pools info) - {s}" for x
    using that bp by (intro same) auto
  have pd: "set (pool_of t info') \<subseteq> dom h" "x \<in> set (pool_of t info') \<Longrightarrow> bdata h' x = bdata h x" for t x
    using P(7) [of t] pools' [of t] keep set_pools [of info] by (cases t; auto)+
  have ip: "inv_pools {b} info'"
    unfolding inv_pools_bdata h' spools' dom'
  proof (intro conjI allI impI)
    show "distinct (pools info')"
      using P(1) distinct_pools [of info' small] distinct_pools [of info small] one by (auto simp: info'_def merged_def)
    show "set (pools info) - {s} \<subseteq> dom h - {s}" "{b} \<subseteq> dom h - {s} - (set (pools info) - {s})"
      using P(2) db bp bs by auto
    show "pool_sorted h' (pool_of t info')" for t
    proof (rule pool_sorted_frame [where h = h])
      show "pool_sorted h (pool_of t info')"
        using P(6) [of t] by (cases "t = small") (auto simp: info'_def merged_def pool_sorted_filter)
    qed (use pd in blast)+
    fix x zx px ux assume x: "bdata h' x = Some (zx, px, ux)"
    show "ux \<longleftrightarrow> x \<notin> set (pools info) - {s} \<union> {b}"
    proof (cases "x = b \<or> x = s")
      case False
      then show ?thesis using P(5) [of x zx px ux] x same [of x] by auto
    qed (use x hb bs in auto)
  qed
  have ub: "\<not> ub" using P(5) [OF b] by auto
  have us: "\<not> u" using P(5) [OF s(2)] one(3) by auto
  have al: "inv_alloc info'"
    unfolding inv_alloc_bdata h'
  proof (intro allI)
    fix p x
    have "(\<exists>zx. bdata h' x = Some (zx, p, True)) \<longleftrightarrow> (\<exists>zx. bdata h x = Some (zx, p, True))"
      using hb b s(2) ub us same [of x] by (cases "x = b \<or> x = s") auto
    then show "allocatedBlocks info' p = Some x \<longleftrightarrow> (\<exists>zx. bdata h' x = Some (zx, p, True))"
      using mm_invD(3) [OF inv] by (simp add: inv_alloc_bdata info'_def merged_def h_def)
  qed
  have H: "b \<notin> set (all_ids R)" "s \<notin> set (all_ids R)" "set (all_ids R) \<subseteq> dom h"
    using inv_heap_ConsD [OF mm_invD(1) [OF inv]] ids by (auto simp: h_def)
  have R: "inv_chunk sl {b} info' c" if "c \<in> set R" for c
  proof (rule inv_chunk_frame)
    have sub: "set (ids_of c) \<subseteq> set (all_ids R)" using that by (auto simp: all_ids_def)
    show "inv_chunk sl {b} info c" using mm_invD(4) [OF inv, of c] that by simp
    show "set (ids_of c) \<subseteq> dom (blocks info)" using sub H(3) by (auto simp: h_def)
    fix x assume "x \<in> set (ids_of c)"
    then have "x \<in> set (all_ids R)" using sub by auto
    then have xx: "x \<noteq> b" "x \<noteq> s" using H by auto
    then show "bdata (blocks info') x = bdata (blocks info) x" using same by (simp add: h' h_def)
    show "x \<in> set (pool_of t info') \<longleftrightarrow> x \<in> set (pool_of t info)" for t using xx pools' by auto
    show "x \<in> {b} \<longleftrightarrow> x \<in> {b}" ..
  qed
  show k': "kind small {b} info' ids'"
    unfolding kind_def
  proof (intro ballI)
    fix x assume x: "x \<in> set ids'"
    then have xs: "x \<noteq> s" using ids(2) by auto
    have kx: "if x \<in> set (pools info) then x \<in> set (pool_of small info)
        else x \<in> {b} \<or> (blockSize (the (h x)) \<le> kSmallSize \<longleftrightarrow> small)"
      unfolding h_def by (rule bspec [OF kind [unfolded kind_def]]) (use x ids(1) in simp)
    have "x \<noteq> b \<Longrightarrow> x \<in> dom h \<Longrightarrow> blockSize (the (h' x)) = blockSize (the (h x))"
      using same [OF _ xs] bdata_eqD(2) by metis
    moreover have "x \<in> dom h" using inv_heap_ConsD(4) [OF mm_invD(1) [OF inv]] x ids(1) by (auto simp: h_def)
    ultimately show "if x \<in> set (pools info') then x \<in> set (pool_of small info')
        else x \<in> {b} \<or> (blockSize (the (blocks info' x)) \<le> kSmallSize \<longleftrightarrow> small)"
      using kx xs by (auto simp: spools' pools' h')
  qed
  have co: "coalesced info' ids'"
    using coal ids(2) unfolding coalesced_def spools' by (auto elim!: successively_mono)
  have "inv_chunk sl {b} info (a, e, ids)" using mm_invD(4) [OF inv] by simp
  then have chunk: "inv_chunk sl {b} info' (a, e, ids')"
    using co k' ids(4) by (auto simp: inv_chunk_def)
  have st: "inv_stats ((a, e, ids') # R) info'"
  proof -
    have f: "pool_bytes h' (pool_of t info') = pool_bytes h (pool_of t info')" for t
      using pd by (intro pool_bytes_frame) blast+
    have "pool_bytes h (pool_of small info) = z + pool_bytes h (pool_of small info')"
      using pool_bytes_remove [OF s(1) one(2), of h] s(2) by (auto simp: info'_def merged_def bdata_def)
    moreover have "pool_of (\<not> small) info' = pool_of (\<not> small) info" by (simp add: info'_def merged_def)
    ultimately have "sum_list (map (\<lambda>b. blockSize (the (h b))) (pools info)) =
        z + sum_list (map (\<lambda>b. blockSize (the (h' b))) (pools info'))"
      unfolding cached_split [of h info small] cached_split [of h' info' small] f by simp
    then show ?thesis
      using mm_invD(5) [OF inv] by (simp add: inv_stats_def h' info'_def merged_def h_def)
  qed
  show "mm_inv sl {b} ((a, e, ids') # R) info'"
    unfolding mm_inv_def h' using heap ip al R chunk st mm_invD(6) [OF inv] dom' by (auto simp: info'_def merged_def h_def)
qed

lemma pool_erase_filter:
  assumes "set pool \<subseteq> dom h" "s \<in> dom h"
  shows "pool_erase h pool s = Inr (filter (\<lambda>c. \<not> equivalent (the (h c)) (the (h s))) pool)"
proof -
  obtain k where "h s = Some k" using assms(2) by blast
  then show ?thesis using assms(1) by (simp add: pool_erase_def pool_view_Inr filter_map o_def)
qed

lemma pool_erase_frame:
  assumes "inv_heap L h" "set pool \<subseteq> dom h" "s \<in> dom h"
    and same: "\<And>c. c \<in> insert s (set pool) \<Longrightarrow> bdata h2 c = bdata h c"
  shows "pool_erase h2 pool s = Inr (filter (\<lambda>c. c \<noteq> s) pool)"
proof -
  have d: "c \<in> dom h" "c \<in> dom h2" if "c \<in> insert s (set pool)" for c
    using assms(2,3) that bdata_eqD(1) [OF same [OF that]] by blast+
  have "equivalent (the (h2 c)) (the (h2 s)) = equivalent (the (h c)) (the (h s))" if "c \<in> set pool" for c
    using bdata_eqD [OF same, of c] bdata_eqD [OF same, of s] d that by (simp add: equivalent_iff)
  then have f: "filter (\<lambda>c. \<not> equivalent (the (h2 c)) (the (h2 s))) pool =
      filter (\<lambda>c. \<not> equivalent (the (h c)) (the (h s))) pool"
    by (intro filter_cong) auto
  have "set pool \<subseteq> dom h2" using d by blast
  then show ?thesis
    using pool_erase_Inr [OF assms(1-3)] f pool_erase_filter [of pool h2 s] pool_erase_filter [of pool h s] d assms(2,3)
    by simp
qed

lemma pooled_or_used:
  assumes "inv_pools H info" "blocks info s = Some sb" "s \<notin> H"
  shows "inUse sb \<longleftrightarrow> s \<notin> set (pools info)"
  using inv_poolsD(5) [OF assms(1) bdata_Some [of "blocks info" s, OF assms(2)]] assms(3) by simp

lemma seg_lst_Some: "seg h p a (xs @ [s]) n e \<Longrightarrow> \<exists>sb. h s = Some sb \<and> prevBlock sb = lst p xs"
  by (auto simp: seg_append)

lemma coalesced_append:
  "coalesced info (xs @ b # ys) \<longleftrightarrow> coalesced info xs \<and> coalesced info ys \<and>
     (b \<notin> set (pools info) \<or> (xs = [] \<or> last xs \<notin> set (pools info)) \<and> (ys = [] \<or> hd ys \<notin> set (pools info)))"
  by (cases ys) (auto simp: coalesced_def successively_append_iff successively_Cons)

lemma coalesced_Cons:
  "coalesced info (b # ys) \<longleftrightarrow>
     coalesced info ys \<and> (b \<notin> set (pools info) \<or> ys = [] \<or> hd ys \<notin> set (pools info))"
  using coalesced_append [of info "[]" b ys] by (auto simp: coalesced_def)

lemma unpooled_neighbours:
  assumes "coalesced info (xs @ s # ys)" "s \<in> set (pools info)"
  shows "coalesced info xs" "coalesced info ys" "xs = [] \<or> last xs \<notin> set (pools info)"
    "ys = [] \<or> hd ys \<notin> set (pools info)"
  using assms by (auto simp: coalesced_append)

lemma held_block:
  assumes "mm_inv sl {b} L info" "blocks info b = Some k"
  shows "\<not> inUse k" "b \<notin> set (pools info)"
  using inv_poolsD(4) [OF mm_invD(2) [OF assms(1)]]
    inv_poolsD(5) [OF mm_invD(2) [OF assms(1)] bdata_Some [of "blocks info" b, OF assms(2)]] by auto

lemma merge_prev_run:
  assumes inv: "mm_inv sl {b} ((a, e, xs @ s # b # ys) # R) info"
    and k: "blocks info b = Some k" "blocks info s = Some sb" "\<not> inUse sb"
  shows "tryMergeBlocks b (Some s) small info =
     Inr (merged small s (blockSize sb) (merge_prev_heap (blocks info) xs s sb b k) info)"
proof -
  let ?h = "blocks info" and ?pool = "pool_of small info"
  note H = inv_heap_ConsD [OF mm_invD(1) [OF inv]]
  note P = inv_poolsD [OF mm_invD(2) [OF inv]]
  have sg: "prevBlock sb = lst None xs" "prevBlock k = Some s"
    using H(1) k by (auto simp: seg_focus fst_or_def)
  have ne: "s \<noteq> b" "b \<notin> set xs" and dxs: "set xs \<subseteq> dom ?h" using H(2,4) by auto
  have hb: "merge_prev_heap ?h xs s sb b k b =
      Some (k\<lparr>blockPtr := blockPtr sb, prevBlock := prevBlock sb, blockSize := blockSize k + blockSize sb\<rparr>)"
    using ne by (simp add: merge_prev_heap_def)
  have bound: "blockSize k + blockSize sb < SIZE_MOD"
    using inv_heap_block(3) [OF inv_heap_merge_prev [OF mm_invD(1) [OF inv] k(1,2)] hb] by simp
  define h2 where "h2 = (upd_next ?h xs (Some b))
     (b \<mapsto> k\<lparr>blockPtr := blockPtr sb, prevBlock := prevBlock sb, blockSize := blockSize k + blockSize sb\<rparr>)"
  have run: "rbind (modify_opt (?h(b \<mapsto> k\<lparr>blockPtr := blockPtr sb, prevBlock := prevBlock sb\<rparr>)) (prevBlock sb)
        (\<lambda>k. k\<lparr>nextBlock := Some b\<rparr>))
      (\<lambda>h1. rbind (modify h1 b (\<lambda>k. k\<lparr>blockSize := sz_add (blockSize k) (blockSize sb)\<rparr>)) f) = f h2" for f :: "_ \<Rightarrow> deviceMemoryInfo result"
  proof (cases xs rule: rev_cases)
    case Nil
    then show ?thesis using sg(1) bound by (simp add: h2_def upd_next_def)
  next
    case (snoc zs y)
    then have "y \<noteq> b" "y \<in> dom ?h" using ne dxs by auto
    then obtain ky where "?h y = Some ky" by blast
    then show ?thesis using sg(1) bound snoc \<open>y \<noteq> b\<close> by (simp add: h2_def upd_next_def fun_upd_twist)
  qed
  have erase: "pool_erase h2 ?pool s = Inr (filter (\<lambda>c. c \<noteq> s) ?pool)"
  proof (rule pool_erase_frame [OF mm_invD(1) [OF inv]])
    fix c assume "c \<in> insert s (set ?pool)"
    then have "c \<noteq> b" using P(4) ne(1) set_pools [of info] by (cases small) auto
    then have "bdata h2 c = bdata (upd_next ?h xs (Some b)) c" by (simp add: h2_def bdata_def)
    then show "bdata h2 c = bdata ?h c" using dxs by simp
  qed (use P(7) k in auto)
  have "h2(s := None) = merge_prev_heap ?h xs s sb b k" by (simp add: h2_def merge_prev_heap_def)
  then show ?thesis using sg k run erase by (simp add: tryMergeBlocks_def merged_def)
qed

lemma try_merge_prev:
  assumes inv: "mm_inv sl {b} ((a, e, xs @ b # ys) # R) info" and k: "blocks info b = Some k"
    and kind: "kind small {b} info (xs @ b # ys)"
  shows "\<exists>info' xs'. tryMergeBlocks b (prevBlock k) small info = Inr info' \<and>
     mm_inv sl {b} ((a, e, xs' @ b # ys) # R) info' \<and> kind small {b} info' (xs' @ b # ys) \<and>
     (xs' = [] \<or> last xs' \<notin> set (pools info')) \<and> keeps info info'"
proof (cases xs rule: rev_cases)
  case Nil
  then have "prevBlock k = None" using inv_heap_ConsD(1) [OF mm_invD(1) [OF inv]] k by simp
  then show ?thesis using inv kind Nil by (intro exI [of _ info] exI [of _ "[]"]) (simp add: tryMergeBlocks_def)
next
  case (snoc xs0 s)
  let ?h = "blocks info"
  have inv': "mm_inv sl {b} ((a, e, xs0 @ s # b # ys) # R) info" using inv snoc by simp
  note H = inv_heap_ConsD [OF mm_invD(1) [OF inv']]
  have ne: "s \<noteq> b" "s \<notin> set xs0" "b \<notin> set xs0" "s \<notin> set ys" and dxs: "set xs0 \<subseteq> dom ?h" using H(2,4) by auto
  obtain sb where sb: "?h s = Some sb" using H(4) by (metis UnCI domD in_set_conv_decomp)
  have prev: "prevBlock k = Some s" using H(1) k sb by (auto simp: seg_focus)
  have used: "inUse sb \<longleftrightarrow> s \<notin> set (pools info)"
    using pooled_or_used [OF mm_invD(2) [OF inv] sb] ne by simp
  show ?thesis
  proof (cases "inUse sb")
    case True
    then show ?thesis
      using inv kind used snoc prev sb by (intro exI [of _ info] exI [of _ xs]) (simp add: tryMergeBlocks_def)
  next
    case False
    let ?h' = "merge_prev_heap ?h xs0 s sb b k" and ?info = "merged small s (blockSize sb) (merge_prev_heap ?h xs0 s sb b k) info"
    have heap: "inv_heap ((a, e, xs0 @ b # ys) # R) ?h'"
      by (rule inv_heap_merge_prev [OF mm_invD(1) [OF inv'] k sb])
    have sp: "s \<in> set (pool_of small info)"
      using bspec [OF kind [unfolded kind_def], of s] snoc used False by simp
    have same: "bdata ?h' x = bdata ?h x" if "x \<noteq> b" "x \<noteq> s" for x
    proof -
      have "bdata ?h' x = bdata (upd_next ?h xs0 (Some b)) x" using that by (simp add: bdata_def merge_prev_heap_def)
      then show ?thesis using dxs by simp
    qed
    have "coalesced info (xs0 @ s # b # ys)" using mm_invD(4) [OF inv', of "(a, e, xs0 @ s # b # ys)"] by (simp add: inv_chunk_def)
    then have co: "coalesced info xs0" "coalesced info (b # ys)" "xs0 = [] \<or> last xs0 \<notin> set (pools info)"
      using unpooled_neighbours [of info xs0 s "b # ys"] used False by auto
    then have "coalesced info (xs0 @ b # ys)"
      using held_block [OF inv k] by (simp add: coalesced_append coalesced_Cons)
    then have "mm_inv sl {b} ((a, e, xs0 @ b # ys) # R) ?info" "kind small {b} ?info (xs0 @ b # ys)"
      using merge_inv [OF inv' heap _ _ _ _ sp bdata_Some [of ?h s sb, OF sb] same,
          of "blockSize k + blockSize sb" "blockPtr sb"] ne kind snoc held_block [OF inv k]
      by (simp_all add: bdata_def inUse_def merge_prev_heap_def insert_commute)
    moreover have "set (pools ?info) \<subseteq> set (pools info)" by (auto simp: set_pools merged_def split: if_splits)
    moreover have "payload ?h' x = payload ?h x" if "x \<noteq> b" "x \<noteq> s" for x
    proof -
      have "payload ?h' x = payload (upd_next ?h xs0 (Some b)) x" using that by (simp add: payload_def merge_prev_heap_def)
      then show ?thesis using dxs by simp
    qed
    then have "payload ?h' x = payload ?h x" if "?h x = Some kx" "inUse kx" for x kx
      using that k sb False held_block(1) [OF inv k] by (metis option.inject)
    then have "keeps info ?info" by (simp add: keeps_def merged_def)
    ultimately show ?thesis
      using merge_prev_run [OF inv' k sb False, of small] prev co(3)
      by (intro exI [of _ ?info] exI [of _ xs0]) auto
  qed
qed

lemma merge_next_run:
  assumes inv: "mm_inv sl {b} ((a, e, xs @ b # s # ys) # R) info"
    and k: "blocks info b = Some k" "blocks info s = Some sb" "\<not> inUse sb"
  shows "tryMergeBlocks b (Some s) small info =
     Inr (merged small s (blockSize sb) (merge_next_heap (blocks info) ys s sb b k) info)"
proof -
  let ?h = "blocks info" and ?pool = "pool_of small info"
  note H = inv_heap_ConsD [OF mm_invD(1) [OF inv]]
  note P = inv_poolsD [OF mm_invD(2) [OF inv]]
  have ne: "s \<noteq> b" "b \<notin> set ys" "s \<notin> set xs" and dys: "set ys \<subseteq> dom ?h" using H(2,4) by auto
  have sg: "nextBlock sb = fst_or None ys" "prevBlock k = lst None xs"
    using H(1) k by (auto simp: seg_focus fst_or_def)
  then have np: "prevBlock k \<noteq> Some s" using ne(3) by (auto simp: lst_def dest!: last_in_set)
  have hb: "merge_next_heap ?h ys s sb b k b =
      Some (k\<lparr>nextBlock := nextBlock sb, blockSize := blockSize k + blockSize sb\<rparr>)"
    using ne by (simp add: merge_next_heap_def)
  have bound: "blockSize k + blockSize sb < SIZE_MOD"
    using inv_heap_block(3) [OF inv_heap_merge_next [OF mm_invD(1) [OF inv] k(1,2)] hb] by simp
  define h2 where "h2 = (upd_prev ?h ys (Some b))
     (b \<mapsto> k\<lparr>nextBlock := nextBlock sb, blockSize := blockSize k + blockSize sb\<rparr>)"
  have run: "rbind (modify_opt (?h(b \<mapsto> k\<lparr>nextBlock := nextBlock sb\<rparr>)) (nextBlock sb)
        (\<lambda>k. k\<lparr>prevBlock := Some b\<rparr>))
      (\<lambda>h1. rbind (modify h1 b (\<lambda>k. k\<lparr>blockSize := sz_add (blockSize k) (blockSize sb)\<rparr>)) f) = f h2" for f :: "_ \<Rightarrow> deviceMemoryInfo result"
  proof (cases ys)
    case Nil
    then show ?thesis using sg(1) bound by (simp add: h2_def upd_prev_def)
  next
    case (Cons y zs)
    then have "y \<noteq> b" "y \<in> dom ?h" using ne dys by auto
    then obtain ky where "?h y = Some ky" by blast
    then show ?thesis using sg(1) bound Cons \<open>y \<noteq> b\<close> by (simp add: h2_def upd_prev_def fun_upd_twist)
  qed
  have erase: "pool_erase h2 ?pool s = Inr (filter (\<lambda>c. c \<noteq> s) ?pool)"
  proof (rule pool_erase_frame [OF mm_invD(1) [OF inv]])
    fix c assume "c \<in> insert s (set ?pool)"
    then have "c \<noteq> b" using P(4) ne(1) set_pools [of info] by (cases small) auto
    then have "bdata h2 c = bdata (upd_prev ?h ys (Some b)) c" by (simp add: h2_def bdata_def)
    then show "bdata h2 c = bdata ?h c" using dys by simp
  qed (use P(7) k in auto)
  have "h2(s := None) = merge_next_heap ?h ys s sb b k" by (simp add: h2_def merge_next_heap_def)
  then show ?thesis using np k run erase by (simp add: tryMergeBlocks_def merged_def)
qed

lemma try_merge_next:
  assumes inv: "mm_inv sl {b} ((a, e, xs @ b # ys) # R) info" and k: "blocks info b = Some k"
    and kind: "kind small {b} info (xs @ b # ys)" and left: "xs = [] \<or> last xs \<notin> set (pools info)"
  shows "\<exists>info' ys'. tryMergeBlocks b (nextBlock k) small info = Inr info' \<and>
     mm_inv sl {b} ((a, e, xs @ b # ys') # R) info' \<and> kind small {b} info' (xs @ b # ys') \<and>
     (xs = [] \<or> last xs \<notin> set (pools info')) \<and> (ys' = [] \<or> hd ys' \<notin> set (pools info')) \<and>
     keeps info info'"
proof (cases ys)
  case Nil
  then have "nextBlock k = None" using inv_heap_ConsD(1) [OF mm_invD(1) [OF inv]] k by (auto simp: seg_focus)
  then show ?thesis using inv kind left Nil by (intro exI [of _ info] exI [of _ "[]"]) (simp add: tryMergeBlocks_def)
next
  case (Cons s ys0)
  let ?h = "blocks info"
  have inv': "mm_inv sl {b} ((a, e, xs @ b # s # ys0) # R) info" using inv Cons by simp
  note H = inv_heap_ConsD [OF mm_invD(1) [OF inv']]
  have ne: "s \<noteq> b" "s \<notin> set xs" "b \<notin> set xs" "s \<notin> set ys0" "b \<notin> set ys0" and dys: "set ys0 \<subseteq> dom ?h"
    using H(2,4) by auto
  have "s \<in> dom ?h" using H(4) by simp
  then obtain sb where sb: "?h s = Some sb" by blast
  have nxt: "nextBlock k = Some s" using H(1) k sb by (auto simp: seg_focus)
  have used: "inUse sb \<longleftrightarrow> s \<notin> set (pools info)"
    using pooled_or_used [OF mm_invD(2) [OF inv] sb] ne by simp
  show ?thesis
  proof (cases "inUse sb")
    case True
    then show ?thesis
      using inv kind used left Cons nxt sb by (intro exI [of _ info] exI [of _ ys]) (simp add: tryMergeBlocks_def)
  next
    case False
    let ?h' = "merge_next_heap ?h ys0 s sb b k" and ?info = "merged small s (blockSize sb) (merge_next_heap ?h ys0 s sb b k) info"
    have heap: "inv_heap ((a, e, xs @ b # ys0) # R) ?h'"
      by (rule inv_heap_merge_next [OF mm_invD(1) [OF inv'] k sb])
    have sp: "s \<in> set (pool_of small info)"
      using bspec [OF kind [unfolded kind_def], of s] Cons used False by simp
    have same: "bdata ?h' x = bdata ?h x" if "x \<noteq> b" "x \<noteq> s" for x
    proof -
      have "bdata ?h' x = bdata (upd_prev ?h ys0 (Some b)) x" using that by (simp add: bdata_def merge_next_heap_def)
      then show ?thesis using dys by simp
    qed
    have "coalesced info ((xs @ [b]) @ s # ys0)"
      using mm_invD(4) [OF inv', of "(a, e, xs @ b # s # ys0)"] by (simp add: inv_chunk_def)
    then have co: "coalesced info (xs @ [b])" "coalesced info ys0" "ys0 = [] \<or> hd ys0 \<notin> set (pools info)"
      using unpooled_neighbours [of info "xs @ [b]" s ys0] used False by auto
    then have "coalesced info (xs @ b # ys0)"
      using held_block [OF inv k] by (simp add: coalesced_append coalesced_Cons)
    then have "mm_inv sl {b} ((a, e, xs @ b # ys0) # R) ?info" "kind small {b} ?info (xs @ b # ys0)"
      using merge_inv [OF inv' heap _ _ _ _ sp bdata_Some [of ?h s sb, OF sb] same,
          of "blockSize k + blockSize sb" "blockPtr k"] ne kind Cons held_block [OF inv k]
      by (simp_all add: bdata_def inUse_def merge_next_heap_def insert_commute)
    moreover have "set (pools ?info) \<subseteq> set (pools info)" by (auto simp: set_pools merged_def split: if_splits)
    moreover have "payload ?h' x = payload ?h x" if "x \<noteq> b" "x \<noteq> s" for x
    proof -
      have "payload ?h' x = payload (upd_prev ?h ys0 (Some b)) x" using that by (simp add: payload_def merge_next_heap_def)
      then show ?thesis using dys by simp
    qed
    then have "payload ?h' x = payload ?h x" if "?h x = Some kx" "inUse kx" for x kx
      using that k sb False held_block(1) [OF inv k] by (metis option.inject)
    then have "keeps info ?info" by (simp add: keeps_def merged_def)
    ultimately show ?thesis
      using merge_next_run [OF inv' k sb False, of small] nxt co(3) left
      by (intro exI [of _ ?info] exI [of _ ys0]) auto
  qed
qed

text \<open>A held block is put into a pool.\<close>

definition pooled :: "bool \<Rightarrow> blockId \<Rightarrow> nat \<Rightarrow> deviceMemoryInfo \<Rightarrow> deviceMemoryInfo" where
  "pooled small b z info = add_cached (of_nat z)
     (set_pool small (ins_by (\<lambda>x y. BlockComparator (the (blocks info x)) (the (blocks info y))) b (pool_of small info)) info)"

lemma pooled_simps [simp]:
  "blocks (pooled small b z info) = blocks info" "allocatedBlocks (pooled small b z info) = allocatedBlocks info"
  "nextId (pooled small b z info) = nextId info"
  "set (pool_of t (pooled small b z info)) = (if t = small then insert b (set (pool_of t info)) else set (pool_of t info))"
  "set (pools (pooled small b z info)) = insert b (set (pools info))"
  by (auto simp: pooled_def set_pools split: if_splits)

lemma insert_inv_pools:
  assumes "inv_pools H info" "b \<in> H"
  shows "inv_pools (H - {b}) (pooled small b z info)"
  unfolding inv_pools_bdata
proof (intro conjI allI impI)
  note P = inv_poolsD [OF assms(1)]
  have bp: "b \<notin> set (pools info)" "b \<in> dom (blocks info)" using P(3,4) assms(2) by auto
  then have bt: "b \<notin> set (pool_of t info)" for t using set_pools [of info] by (cases t) auto
  show "distinct (pools (pooled small b z info))"
    using P(1) bt distinct_pools [of info small] distinct_pools [of "pooled small b z info" small]
    by (auto simp: pooled_def ins_by_distinct)
  show "set (pools (pooled small b z info)) \<subseteq> dom (blocks (pooled small b z info))"
    using P(2) bp by auto
  show "H - {b} \<subseteq> dom (blocks (pooled small b z info)) - set (pools (pooled small b z info))"
    using P(3,4) by auto
  show "pool_sorted (blocks (pooled small b z info)) (pool_of t (pooled small b z info))" for t
    using P(6) [of t] by (cases "t = small") (auto simp: pooled_def pool_sorted_insert)
  fix x zx px u assume "bdata (blocks (pooled small b z info)) x = Some (zx, px, u)"
  then show "u \<longleftrightarrow> x \<notin> set (pools (pooled small b z info)) \<union> (H - {b})"
    using P(5) [of x zx px u] assms(2) by auto
qed

lemma insert_inv:
  assumes inv: "mm_inv sl H ((a, e, xs @ b # ys) # R) info" and b: "b \<in> H" "blocks info b = Some k"
    and kind: "kind small H info (xs @ b # ys)"
    and nbs: "xs = [] \<or> last xs \<notin> set (pools info)" "ys = [] \<or> hd ys \<notin> set (pools info)"
  shows "mm_inv sl (H - {b}) ((a, e, xs @ b # ys) # R) (pooled small b (blockSize k) info)" (is "mm_inv _ _ _ ?info")
proof -
  note P = inv_poolsD [OF mm_invD(2) [OF inv]]
  note Hp = inv_heap_ConsD [OF mm_invD(1) [OF inv]]
  have bp: "b \<notin> set (pools info)" using P(4) b by auto
  have al: "inv_alloc ?info" using mm_invD(3) [OF inv] by (simp add: inv_alloc_def)
  have R: "inv_chunk sl (H - {b}) ?info c" if "c \<in> set R" for c
  proof (rule inv_chunk_frame)
    have sub: "set (ids_of c) \<subseteq> set (all_ids R)" using that by (auto simp: all_ids_def)
    show "inv_chunk sl H info c" using mm_invD(4) [OF inv, of c] that by simp
    show "set (ids_of c) \<subseteq> dom (blocks info)" using sub Hp(4) by auto
    fix x assume "x \<in> set (ids_of c)"
    then have "x \<in> set (all_ids R)" using sub by auto
    then have xx: "x \<noteq> b" using Hp(3) by auto
    then show "x \<in> set (pool_of t ?info) \<longleftrightarrow> x \<in> set (pool_of t info)" "x \<in> H - {b} \<longleftrightarrow> x \<in> H" for t by auto
  qed simp
  have "b \<notin> set xs" "b \<notin> set ys" "distinct (xs @ ys)" using Hp(2) by auto
  then have "coalesced ?info zs = coalesced info zs" if "zs = xs \<or> zs = ys" for zs
    unfolding coalesced_def using that by (intro successively_cong) auto
  moreover have "inv_chunk sl H info (a, e, xs @ b # ys)" using mm_invD(4) [OF inv] by simp
  moreover have "xs = [] \<or> last xs \<noteq> b" "ys = [] \<or> hd ys \<noteq> b"
    using \<open>b \<notin> set xs\<close> \<open>b \<notin> set ys\<close> by (auto dest: last_in_set hd_in_set)
  moreover have "kind small (H - {b}) ?info (xs @ b # ys)"
    unfolding kind_def
  proof (intro ballI)
    fix x assume "x \<in> set (xs @ b # ys)"
    from bspec [OF kind [unfolded kind_def] this]
    show "if x \<in> set (pools ?info) then x \<in> set (pool_of small ?info)
        else x \<in> H - {b} \<or> (blockSize (the (blocks ?info x)) \<le> kSmallSize \<longleftrightarrow> small)" by auto
  qed
  ultimately have chunk: "inv_chunk sl (H - {b}) ?info (a, e, xs @ b # ys)"
    using nbs by (auto simp: inv_chunk_def coalesced_append)
  have st: "inv_stats ((a, e, xs @ b # ys) # R) ?info"
    using mm_invD(5) [OF inv] b(2)
    by (simp add: inv_stats_def cached_split [of _ _ small]) (simp add: pooled_def pool_bytes_def sum_ins_by)
  show ?thesis
    unfolding mm_inv_def using inv insert_inv_pools [OF mm_invD(2) [OF inv] b(1)] al R chunk st mm_invD(1,6) [OF inv] by auto
qed

text \<open>\<^verbatim>\<open>freeBlock\<close>: a held block is merged with its free neighbours and cached; nothing else changes.\<close>

definition ranges :: "chunk list \<Rightarrow> (addr \<times> addr) set" where
  "ranges L = (\<lambda>(a, e, ids). (a, e)) ` set L"

lemma ranges_simps [simp]: "ranges [] = {}" "ranges ((a, e, ids) # R) = insert (a, e) (ranges R)"
  by (auto simp: ranges_def)

lemma ranges_perm: "mset L = mset L' \<Longrightarrow> ranges L = ranges L'"
  unfolding ranges_def by (metis set_mset_mset)

lemma kind_single [simp]: "b \<in> H \<Longrightarrow> b \<notin> set (pools info) \<Longrightarrow> kind small H info [b]"
  by (simp add: kind_def)

lemma focus_kind:
  assumes inv: "mm_inv sl {b} L info" and k: "blocks info b = Some k"
    and kind: "\<And>a e ids. (a, e, ids) \<in> set L \<Longrightarrow> b \<in> set ids \<Longrightarrow> 2 \<le> length ids \<Longrightarrow> kind small {b} info ids"
  obtains a e xs ys R where "mm_inv sl {b} ((a, e, xs @ b # ys) # R) info"
    "ranges L = ranges ((a, e, xs @ b # ys) # R)" "kind small {b} info (xs @ b # ys)"
proof -
  obtain a e xs ys R where f: "mm_inv sl {b} ((a, e, xs @ b # ys) # R) info"
      "mset L = mset ((a, e, xs @ b # ys) # R)"
    using focus_block [OF inv, of b] k by blast
  have "(a, e, xs @ b # ys) \<in> set L" using f(2) by (metis list.set_intros(1) set_mset_mset)
  then have "kind small {b} info (xs @ b # ys)"
    using kind [of a e "xs @ b # ys"] held_block [OF inv k] by (cases xs; cases ys) auto
  then show thesis using that [OF f(1)] ranges_perm [OF f(2)] by blast
qed

lemma freeBlock_inv:
  assumes inv: "mm_inv sl {b} L info" and k: "blocks info b = Some k"
    and kind: "\<And>a e ids. (a, e, ids) \<in> set L \<Longrightarrow> b \<in> set ids \<Longrightarrow> 2 \<le> length ids \<Longrightarrow>
                 kind (blockSize k \<le> kSmallSize) {b} info ids"
  shows "\<exists>info' L'. freeBlock b info = Inr info' \<and> mm_inv sl {} L' info' \<and> ranges L' = ranges L \<and>
     keeps info info'"
proof -
  let ?small = "blockSize k \<le> kSmallSize"
  obtain a e xs ys R where f: "mm_inv sl {b} ((a, e, xs @ b # ys) # R) info"
      "ranges L = ranges ((a, e, xs @ b # ys) # R)" "kind ?small {b} info (xs @ b # ys)"
    by (rule focus_kind [OF inv k, of ?small]) (use kind in auto)
  obtain info1 xs' where m1: "tryMergeBlocks b (prevBlock k) ?small info = Inr info1"
      "mm_inv sl {b} ((a, e, xs' @ b # ys) # R) info1" "kind ?small {b} info1 (xs' @ b # ys)"
      "xs' = [] \<or> last xs' \<notin> set (pools info1)" "keeps info info1"
    using try_merge_prev [OF f(1) k f(3)] by blast
  have "b \<in> dom (blocks info1)" using inv_heap_ConsD(4) [OF mm_invD(1) [OF m1(2)]] by auto
  then obtain k1 where k1: "blocks info1 b = Some k1" by blast
  obtain info2 ys' where m2: "tryMergeBlocks b (nextBlock k1) ?small info1 = Inr info2"
      "mm_inv sl {b} ((a, e, xs' @ b # ys') # R) info2" "kind ?small {b} info2 (xs' @ b # ys')"
      "xs' = [] \<or> last xs' \<notin> set (pools info2)" "ys' = [] \<or> hd ys' \<notin> set (pools info2)"
      "keeps info1 info2"
    using try_merge_next [OF m1(2) k1 m1(3,4)] by blast
  have "b \<in> dom (blocks info2)" using inv_heap_ConsD(4) [OF mm_invD(1) [OF m2(2)]] by auto
  then obtain k2 where k2: "blocks info2 b = Some k2" by blast
  note P = inv_poolsD [OF mm_invD(2) [OF m2(2)]]
  have "b \<notin> set (pool_of ?small info2)" using held_block [OF m2(2) k2] set_pools [of info2] by (cases ?small) auto
  then have "freeBlock b info = Inr (pooled ?small b (blockSize k2) info2)"
    using k m1(1) k1 m2(1) k2 held_block [OF inv k] pool_insert_Inr [OF mm_invD(1) [OF m2(2)] P(7), of b ?small]
    by (simp add: freeBlock_def Let_def pooled_def dom_def)
  moreover have "mm_inv sl {} ((a, e, xs' @ b # ys') # R) (pooled ?small b (blockSize k2) info2)"
    using insert_inv [OF m2(2) _ k2 m2(3-5)] by simp
  moreover have "keeps info (pooled ?small b (blockSize k2) info2)"
    using keeps_trans [OF m1(5) m2(6)] by (simp add: keeps_def)
  ultimately show ?thesis
    using f(2)
    by (intro exI [of _ "pooled ?small b (blockSize k2) info2"] exI [of _ "(a, e, xs' @ b # ys') # R"]) simp
qed

subsection \<open>Locking and unlocking\<close>

definition same_links :: "block \<Rightarrow> block \<Rightarrow> bool" where
  "same_links k k' \<longleftrightarrow> blockSize k' = blockSize k \<and> blockPtr k' = blockPtr k \<and>
     prevBlock k' = prevBlock k \<and> nextBlock k' = nextBlock k"

lemma seg_same_links:
  assumes "h b = Some k" "same_links k k'"
  shows "seg (h(b \<mapsto> k')) p a xs n e = seg h p a xs n e"
  using assms by (induction xs arbitrary: p a) (auto simp: same_links_def)

lemma inv_heap_same_links:
  assumes "inv_heap L h" "h b = Some k" "same_links k k'"
  shows "inv_heap L (h(b \<mapsto> k'))"
proof -
  have "chunk_ok (h(b \<mapsto> k')) c = chunk_ok h c" for c
    by (cases c) (simp add: chunk_ok_def seg_same_links [of h b, OF assms(2,3)])
  moreover have "dom (h(b \<mapsto> k')) = dom h" using assms(2) by auto
  moreover have "blockSize (the ((h(b \<mapsto> k')) x)) = blockSize (the (h x))" for x
    using assms(2,3) by (simp add: same_links_def)
  ultimately show ?thesis using assms(1) unfolding inv_heap_def by metis
qed

lemma relock_alloc:
  fixes info :: deviceMemoryInfo
  defines "h \<equiv> blocks info"
  assumes "inv_alloc info" "inv_heap L h" "h b = Some k" "same_links k k'"
  shows "inv_alloc (info\<lparr>blocks := h(b \<mapsto> k'),
     allocatedBlocks := (allocatedBlocks info)(blockPtr k := (if inUse k' then Some b else None))\<rparr>)"
  unfolding inv_alloc_bdata
proof (intro allI)
  fix p x
  have old: "allocatedBlocks info p = Some x \<longleftrightarrow> (\<exists>z. bdata h x = Some (z, p, True))" for p x
    using assms(2) by (simp add: inv_alloc_bdata h_def)
  have b: "bdata (h(b \<mapsto> k')) b = Some (blockSize k, blockPtr k, inUse k')"
      "bdata h b = Some (blockSize k, blockPtr k, inUse k)"
    using assms(4,5) by (simp_all add: bdata_def same_links_def)
  have other: "bdata (h(b \<mapsto> k')) x = bdata h x" if "x \<noteq> b" for x using that by (simp add: bdata_def)
  have uniq: "x = b" if x: "bdata h x = Some (z, blockPtr k, u)" for x z u
  proof -
    obtain kx where "h x = Some kx" "blockPtr kx = blockPtr k" using x by (auto simp: bdata_def)
    then show ?thesis using same_ptr_same_block [OF assms(3)] assms(4) by metis
  qed
  have "((allocatedBlocks info)(blockPtr k := (if inUse k' then Some b else None))) p = Some x \<longleftrightarrow>
      (\<exists>z. bdata (h(b \<mapsto> k')) x = Some (z, p, True))"
  proof (cases "p = blockPtr k")
    case True
    then show ?thesis
    proof (cases "x = b")
      case False
      then have "\<not> (\<exists>z. bdata (h(b \<mapsto> k')) x = Some (z, p, True))"
        using other [of x] uniq [of x] \<open>p = blockPtr k\<close> by metis
      then show ?thesis using False \<open>p = blockPtr k\<close> by simp
    qed (simp add: b)
  next
    case False
    then show ?thesis
    proof (cases "x = b")
      case True
      have "allocatedBlocks info p \<noteq> Some b" using old [of p b] b(2) False by simp
      then show ?thesis using True b(1) False by simp
    next
      case xb: False
      then show ?thesis using other [OF xb] old [of p x] False by simp
    qed
  qed
  then show "allocatedBlocks (info\<lparr>blocks := h(b \<mapsto> k'),
       allocatedBlocks := (allocatedBlocks info)(blockPtr k := (if inUse k' then Some b else None))\<rparr>) p = Some x \<longleftrightarrow>
     (\<exists>z. bdata (blocks (info\<lparr>blocks := h(b \<mapsto> k'),
       allocatedBlocks := (allocatedBlocks info)(blockPtr k := (if inUse k' then Some b else None))\<rparr>)) x = Some (z, p, True))"
    by simp
qed

text \<open>The lock bits of an unpooled block change; the table of allocated blocks follows.\<close>

lemma relock_inv:
  fixes info :: deviceMemoryInfo
  defines "h \<equiv> blocks info"
  assumes inv: "mm_inv sl H L info" and k: "h b = Some k" "same_links k k'" "b \<notin> set (pools info)"
    and H: "H' - {b} = H - {b}" "b \<in> H' \<longleftrightarrow> \<not> inUse k'"
    and kinds: "\<And>a e ids. (a, e, ids) \<in> set L \<Longrightarrow> b \<in> set ids \<Longrightarrow> 2 \<le> length ids \<Longrightarrow> \<exists>small. kind small H' info ids"
  shows "mm_inv sl H' L (info\<lparr>blocks := h(b \<mapsto> k'),
     allocatedBlocks := (allocatedBlocks info)(blockPtr k := (if inUse k' then Some b else None))\<rparr>)"
    (is "mm_inv _ _ _ ?info")
proof -
  note P = inv_poolsD [OF mm_invD(2) [OF inv], folded h_def]
  have pools: "pools ?info = pools info" "pool_of t ?info = pool_of t info" for t by simp_all
  have dom: "dom (h(b \<mapsto> k')) = dom h" using k(1) by auto
  have other: "bdata (h(b \<mapsto> k')) x = bdata h x" if "x \<noteq> b" for x using that by (simp add: bdata_def)
  have pb: "b \<notin> set (pool_of t info)" for t using k(3) set_pools [of info] by (cases t) auto
  have keys: "blockSize (the ((h(b \<mapsto> k')) x)) = blockSize (the (h x))" for x
    using k by (simp add: same_links_def)
  have "inv_pools H' ?info"
    unfolding inv_pools_bdata
  proof (intro conjI allI impI)
    show "distinct (pools ?info)" "set (pools ?info) \<subseteq> dom (blocks ?info)" using P(1,2) by (simp_all add: subset_insertI2)
    show "H' \<subseteq> dom (blocks ?info) - set (pools ?info)" using H P(3,4) k by (auto simp: pools dom)
    show "pool_sorted (blocks ?info) (pool_of t ?info)" for t
    proof -
      have "pool_sorted (h(b \<mapsto> k')) (pool_of t info)"
      proof (rule pool_sorted_frame [where h = h])
        show "bdata (h(b \<mapsto> k')) x = bdata h x" if "x \<in> set (pool_of t info)" for x
          using that pb [of t] by (intro other) auto
      qed (use P in auto)
      then show ?thesis by (simp add: pools)
    qed
    fix x z p u assume x: "bdata (blocks ?info) x = Some (z, p, u)"
    show "u \<longleftrightarrow> x \<notin> set (pools ?info) \<union> H'"
    proof (cases "x = b")
      case True
      then show ?thesis using x H(2) k(3) by (auto simp: bdata_def)
    next
      case False
      then have "x \<in> H' \<longleftrightarrow> x \<in> H" using H(1) by auto
      then show ?thesis using P(5) [of x z p u] x other [OF False] by (simp add: pools)
    qed
  qed
  moreover have "inv_chunk sl H' ?info c" if c: "c \<in> set L" for c
  proof -
    obtain a e ids where ids: "c = (a, e, ids)" by (cases c)
    have old: "inv_chunk sl H info c" using mm_invD(4) [OF inv c] .
    have kd: "kind small H' ?info ids = kind small H' info ids" for small
      using keys by (simp add: kind_def pools h_def)
    show ?thesis
    proof (cases "b \<in> set ids")
      case True
      then show ?thesis using old kinds [of a e ids] c by (auto simp: ids inv_chunk_def kd coalesced_def pools)
    next
      case False
      then have "x \<in> H' \<longleftrightarrow> x \<in> H" if "x \<in> set ids" for x using H(1) that by auto
      then have "kind small H' info ids = kind small H info ids" for small by (simp add: kind_def)
      then show ?thesis using old by (simp add: ids inv_chunk_def kd coalesced_def pools)
    qed
  qed
  moreover have "inv_stats L ?info"
    using mm_invD(5) [OF inv] keys by (simp add: inv_stats_def pools h_def del: fun_upd_apply)
  ultimately show ?thesis
    unfolding mm_inv_def
    using relock_alloc [OF mm_invD(3) [OF inv] mm_invD(1) [OF inv], of b k k'] k
      inv_heap_same_links [OF mm_invD(1) [OF inv], of b k k'] mm_invD(6) [OF inv] dom
    by (simp add: h_def)
qed

end
