(* ===== verification/CachingMemoryOperations.thy ===== *)
theory CachingMemoryOperations
  imports CachingMemorySafety
begin

section \<open>Allocation, release and cleanup keep the invariant\<close>

text \<open>
  The native interface: \<open>live d\<close> is the set of address ranges it has handed out and not taken back.
  A successful allocation returns a non-null range of the requested size inside the address space
  that overlaps no live range; a failed one changes nothing; a free ends the range that starts there.
\<close>

definition native_ok :: "'d deviceInterface \<Rightarrow> ('d \<Rightarrow> (addr \<times> addr) set) \<Rightarrow> bool" where
  "native_ok di live \<longleftrightarrow>
     (\<forall>n d p d'. nativeAlloc di n d = (Inr p, d') \<longrightarrow>
        0 < p \<and> p + n < SIZE_MOD \<and> live d' = insert (p, p + n) (live d) \<and>
        (\<forall>a e. (a, e) \<in> live d \<longrightarrow> p + n \<le> a \<or> e \<le> p)) \<and>
     (\<forall>n d x d'. nativeAlloc di n d = (Inl x, d') \<longrightarrow> live d' = live d) \<and>
     (\<forall>p d. live (nativeFree di p d) = {r \<in> live d. fst r \<noteq> p})"

lemma native_okD:
  assumes "native_ok di live"
  shows "nativeAlloc di n d = (Inr p, d') \<Longrightarrow>
      0 < p \<and> p + n < SIZE_MOD \<and> live d' = insert (p, p + n) (live d)"
    "nativeAlloc di n d = (Inr p, d') \<Longrightarrow> (a, e) \<in> live d \<Longrightarrow> p + n \<le> a \<or> e \<le> p"
    "nativeAlloc di n d = (Inl x, d') \<Longrightarrow> live d' = live d"
    "live (nativeFree di p d) = {r \<in> live d. fst r \<noteq> p}"
  using assms unfolding native_ok_def by blast+

subsection \<open>Taking a block out of its pool\<close>

definition unpooled :: "bool \<Rightarrow> blockId \<Rightarrow> nat \<Rightarrow> deviceMemoryInfo \<Rightarrow> deviceMemoryInfo" where
  "unpooled small b z info =
     add_cached (- of_nat z) (set_pool small (remove1 b (pool_of small info)) info)"

lemma unpooled_pools:
  assumes "distinct (pools info)" "b \<in> set (pool_of small info)"
  shows "set (pool_of t (unpooled small b z info)) = set (pool_of t info) - {b}"
    "set (pools (unpooled small b z info)) = set (pools info) - {b}"
    "distinct (pools (unpooled small b z info))"
proof -
  note one = in_one_pool [OF assms]
  show p: "set (pool_of t (unpooled small b z info)) = set (pool_of t info) - {b}" for t
    using one by (cases "t = small") (auto simp: unpooled_def set_remove1_eq)
  show "set (pools (unpooled small b z info)) = set (pools info) - {b}" by (auto simp: set_pools p)
  show "distinct (pools (unpooled small b z info))"
    using assms(1) one distinct_pools [of info small] distinct_pools [of "unpooled small b z info" small]
    by (auto simp: unpooled_def)
qed

lemma unpooled_simps [simp]:
  "blocks (unpooled small b z info) = blocks info" "nextId (unpooled small b z info) = nextId info"
  "allocatedBlocks (unpooled small b z info) = allocatedBlocks info"
  "allocatedBytes (stats (unpooled small b z info)) = allocatedBytes (stats info)"
  by (simp_all add: unpooled_def)

lemma remove1_filter: "distinct xs \<Longrightarrow> remove1 b xs = filter (\<lambda>c. c \<noteq> b) xs"
proof -
  have "((\<noteq>) b) = (\<lambda>c. c \<noteq> b)" by auto
  then show "distinct xs \<Longrightarrow> ?thesis" by (simp add: distinct_remove1_removeAll removeAll_filter_not_eq)
qed

lemma pool_sorted_remove1: "distinct pool \<Longrightarrow> pool_sorted h pool \<Longrightarrow> pool_sorted h (remove1 b pool)"
  by (simp add: remove1_filter pool_sorted_filter)

lemma unpooled_cached:
  assumes "distinct (pools info)" "b \<in> set (pool_of small info)" "blocks info b = Some k" "inv_stats L info"
  shows "cachedBytes (stats (unpooled small b (blockSize k) info)) =
     of_nat (sum_list (map (\<lambda>b. blockSize (the (blocks info b))) (pools (unpooled small b (blockSize k) info))))"
proof -
  let ?u = "unpooled small b (blockSize k) info"
  have "pool_bytes (blocks info) (pool_of small info) = blockSize k + pool_bytes (blocks info) (pool_of small ?u)"
    using pool_bytes_remove [OF assms(2), of "blocks info"] in_one_pool(2) [OF assms(1,2)] assms(3)
    by (simp add: unpooled_def remove1_filter)
  moreover have "pool_of (\<not> small) ?u = pool_of (\<not> small) info" by (simp add: unpooled_def)
  ultimately show ?thesis
    using assms(4) by (simp add: inv_stats_def cached_split [of _ _ small]) (simp add: unpooled_def)
qed

lemma unpooled_inv:
  assumes inv: "mm_inv sl {} L info" and b: "b \<in> set (pool_of small info)" "blocks info b = Some k"
  shows "mm_inv sl {b} L (unpooled small b (blockSize k) info)" (is "mm_inv _ _ _ ?u")
proof -
  note P = inv_poolsD [OF mm_invD(2) [OF inv]]
  note up = unpooled_pools [OF P(1) b(1)]
  have "inv_pools {b} ?u"
    unfolding inv_pools_bdata
  proof (intro conjI allI impI)
    show "distinct (pools ?u)" "set (pools ?u) \<subseteq> dom (blocks ?u)" using up P(2) by auto
    show "{b} \<subseteq> dom (blocks ?u) - set (pools ?u)" using up b by auto
    show "pool_sorted (blocks ?u) (pool_of t ?u)" for t
      using P(6) [of t] in_one_pool(2) [OF P(1) b(1)]
      by (cases "t = small") (auto simp: unpooled_def pool_sorted_remove1)
    fix x z p u assume "bdata (blocks ?u) x = Some (z, p, u)"
    then show "u \<longleftrightarrow> x \<notin> set (pools ?u) \<union> {b}"
      using P(5) [of x z p u] in_one_pool(3) [OF P(1) b(1)] by (auto simp: up)
  qed
  moreover have "inv_chunk sl {b} ?u c" if "c \<in> set L" for c
  proof -
    obtain a e ids where c: "c = (a, e, ids)" by (cases c)
    have "kind t {b} ?u ids" if "kind t {} info ids" for t
      unfolding kind_def
    proof (intro ballI)
      fix x assume "x \<in> set ids"
      from bspec [OF that [unfolded kind_def] this]
      show "if x \<in> set (pools ?u) then x \<in> set (pool_of t ?u)
          else x \<in> {b} \<or> (blockSize (the (blocks ?u x)) \<le> kSmallSize \<longleftrightarrow> t)"
        by (auto simp: up split: if_splits)
    qed
    moreover have "coalesced ?u ids" if "coalesced info ids"
      using that unfolding coalesced_def by (auto simp: up elim!: successively_mono)
    ultimately show ?thesis using mm_invD(4) [OF inv that] by (auto simp: c inv_chunk_def)
  qed
  moreover have "inv_stats L ?u"
    using mm_invD(5) [OF inv] unpooled_cached [OF P(1) b mm_invD(5) [OF inv]] by (simp add: inv_stats_def)
  moreover have "inv_alloc ?u" using mm_invD(3) [OF inv] by (simp add: inv_alloc_def)
  ultimately show ?thesis using mm_invD(1,6) [OF inv] by (simp add: mm_inv_def)
qed

text \<open>What holds of a block just taken: its neighbours are in use, and its chunk keeps its kind.\<close>

definition ready :: "bool \<Rightarrow> blockId \<Rightarrow> chunk list \<Rightarrow> deviceMemoryInfo \<Rightarrow> bool" where
  "ready small b L info \<longleftrightarrow>
     (\<forall>a e xs ys. (a, e, xs @ b # ys) \<in> set L \<longrightarrow>
        (xs = [] \<or> last xs \<notin> set (pools info)) \<and> (ys = [] \<or> hd ys \<notin> set (pools info)) \<and>
        kind small {b} info (xs @ b # ys))"

lemma unpooled_ready:
  assumes inv: "mm_inv sl {} L info" and b: "b \<in> set (pool_of small info)" "blocks info b = Some k"
  shows "ready small b L (unpooled small b (blockSize k) info)" (is "ready _ _ _ ?u")
  unfolding ready_def
proof (intro allI impI)
  fix a e xs ys assume c: "(a, e, xs @ b # ys) \<in> set L"
  note P = inv_poolsD [OF mm_invD(2) [OF inv]]
  note up = unpooled_pools [OF P(1) b(1)]
  note one = in_one_pool [OF P(1) b(1)]
  have ch: "coalesced info (xs @ b # ys)" "2 \<le> length (xs @ b # ys) \<Longrightarrow> \<exists>t. kind t {} info (xs @ b # ys)"
    using mm_invD(4) [OF inv c] by (auto simp: inv_chunk_def)
  have nb: "xs = [] \<or> last xs \<notin> set (pools ?u)" "ys = [] \<or> hd ys \<notin> set (pools ?u)"
    using unpooled_neighbours(3,4) [OF ch(1) one(3)] up(2) by auto
  have "kind small {b} ?u (xs @ b # ys)"
  proof (cases "xs = [] \<and> ys = []")
    case True
    then show ?thesis using up(2) by simp
  next
    case False
    then have "2 \<le> length (xs @ b # ys)" by (cases xs; cases ys) auto
    then obtain t where t: "kind t {} info (xs @ b # ys)" using ch(2) by blast
    have "t = small" using bspec [OF t [unfolded kind_def], of b] one by (cases t; cases small) auto
    have "if x \<in> set (pools ?u) then x \<in> set (pool_of small ?u)
        else x \<in> {b} \<or> (blockSize (the (blocks ?u x)) \<le> kSmallSize \<longleftrightarrow> small)" if "x \<in> set (xs @ b # ys)" for x
      using bspec [OF t [unfolded kind_def] that] \<open>t = small\<close> by (auto simp: up split: if_splits)
    then show ?thesis unfolding kind_def by blast
  qed
  with nb show "(xs = [] \<or> last xs \<notin> set (pools ?u)) \<and> (ys = [] \<or> hd ys \<notin> set (pools ?u)) \<and>
      kind small {b} ?u (xs @ b # ys)" by blast
qed

subsection \<open>Giving chunks back\<close>

text \<open>A held block that is the whole of its chunk is deleted.\<close>

definition dropped :: "blockId \<Rightarrow> nat \<Rightarrow> deviceMemoryInfo \<Rightarrow> deviceMemoryInfo" where
  "dropped b z info = (add_allocated (- of_nat z) info)\<lparr>blocks := (blocks info)(b := None)\<rparr>"

lemma dropped_simps [simp]:
  "blocks (dropped b z info) = (blocks info)(b := None)" "pool_of t (dropped b z info) = pool_of t info"
  "nextId (dropped b z info) = nextId info" "allocatedBlocks (dropped b z info) = allocatedBlocks info"
  "pools (dropped b z info) = pools info" "cachedBytes (stats (dropped b z info)) = cachedBytes (stats info)"
  by (simp_all add: dropped_def) (simp add: pools_def)

lemma dropped_inv:
  assumes inv: "mm_inv sl {b} ((a, e, [b]) # R) info" and k: "blocks info b = Some k"
  shows "mm_inv sl {} R (dropped b (blockSize k) info)" (is "mm_inv _ _ _ ?d") "blockPtr k = a" "e = a + blockSize k"
proof -
  note P = inv_poolsD [OF mm_invD(2) [OF inv]]
  note heap = inv_heap_ConsD [OF mm_invD(1) [OF inv]]
  have bR: "b \<notin> set (all_ids R)" using heap(3) by simp
  show ptr: "blockPtr k = a" "e = a + blockSize k" using heap(1) k by auto
  have other: "bdata ((blocks info)(b := None)) x = bdata (blocks info) x" if "x \<noteq> b" for x
    using that by (simp add: bdata_def)
  have hb: "\<not> inUse k" "b \<notin> set (pools info)" using held_block [OF inv k] .
  have "inv_heap R (blocks ?d)"
    unfolding inv_heap_def
  proof (intro conjI ballI)
    fix c assume c: "c \<in> set R"
    then have "b \<notin> set (ids_of c)" using bR by (auto simp: all_ids_def)
    then show "chunk_ok (blocks ?d) c" by (intro chunk_ok_frame [of "blocks info", OF heap(6) [OF c]]) auto
  next
    fix c assume "c \<in> dom (blocks ?d)"
    then have "c \<noteq> b" "c \<in> dom (blocks info)" by (simp_all split: if_splits)
    then show "kMinBlockSize dvd blockSize (the (blocks ?d c))" using heap(5) [of c] by simp
  next
    show "dom (blocks ?d) = set (all_ids R)" using bR heap(4) by auto
  qed (rule heap(7) heap(8))+
  moreover have pb: "b \<notin> set (pool_of t info)" for t using hb(2) set_pools [of info] by (cases t) auto
  have "inv_pools {} ?d"
    unfolding inv_pools_bdata
  proof (intro conjI allI impI)
    have "x \<in> dom (blocks info) - {b}" if "x \<in> set (pools info)" for x using that P(2) hb(2) by blast
    then show "set (pools ?d) \<subseteq> dom (blocks ?d)" by (simp add: subset_iff)
    show "pool_sorted (blocks ?d) (pool_of t ?d)" for t
    proof -
      have "pool_sorted ((blocks info)(b := None)) (pool_of t info)"
      proof (rule pool_sorted_frame [where h = "blocks info"])
        show "bdata ((blocks info)(b := None)) x = bdata (blocks info) x" if "x \<in> set (pool_of t info)" for x
          using that pb [of t] by (intro other) auto
      qed (use P(6,7) in auto)
      then show ?thesis by simp
    qed
    fix x z p u assume x: "bdata (blocks ?d) x = Some (z, p, u)"
    then have "x \<noteq> b" by (auto simp: bdata_def)
    then show "u \<longleftrightarrow> x \<notin> set (pools ?d) \<union> {}" using P(5) [of x z p u] x by (simp add: other)
  qed (use P(1) in simp_all)
  moreover have "inv_alloc ?d"
    unfolding inv_alloc_bdata
  proof (intro allI)
    fix p x
    have "allocatedBlocks info p = Some x \<longleftrightarrow> (\<exists>z. bdata (blocks info) x = Some (z, p, True))"
      using mm_invD(3) [OF inv] by (simp add: inv_alloc_bdata)
    moreover have "bdata (blocks info) b = Some (blockSize k, blockPtr k, False)" using k hb(1) by (simp add: bdata_def)
    moreover have "bdata ((blocks info)(b := None)) b = None" by (simp add: bdata_def)
    ultimately show "allocatedBlocks ?d p = Some x \<longleftrightarrow> (\<exists>z. bdata (blocks ?d) x = Some (z, p, True))"
      by (cases "x = b") (simp_all add: other)
  qed
  moreover have "inv_chunk sl {} ?d c" if "c \<in> set R" for c
  proof (rule inv_chunk_frame)
    have sub: "set (ids_of c) \<subseteq> set (all_ids R)" using that by (auto simp: all_ids_def)
    show "inv_chunk sl {b} info c" using mm_invD(4) [OF inv, of c] that by simp
    show "set (ids_of c) \<subseteq> dom (blocks info)" using sub heap(4) by auto
    fix x assume "x \<in> set (ids_of c)"
    then have "x \<noteq> b" using sub bR by auto
    then show "x \<in> {} \<longleftrightarrow> x \<in> {b}" "bdata (blocks ?d) x = bdata (blocks info) x" by (auto simp: other)
  qed simp
  moreover have "inv_stats R ?d"
  proof -
    have f: "pool_bytes ((blocks info)(b := None)) (pool_of t info) = pool_bytes (blocks info) (pool_of t info)" for t
    proof (rule pool_bytes_frame)
      show "bdata ((blocks info)(b := None)) x = bdata (blocks info) x" if "x \<in> set (pool_of t info)" for x
        using that pb [of t] by (intro other) auto
    qed (rule P(7))
    have "sum_list (map (\<lambda>x. blockSize (the (blocks ?d x))) (pools ?d)) =
        sum_list (map (\<lambda>x. blockSize (the (blocks info x))) (pools info))"
      unfolding cached_split [of "blocks ?d" _ True] cached_split [of "blocks info" _ True]
      by (simp add: f del: fun_upd_apply)
    then show ?thesis
      using mm_invD(5) [OF inv] ptr by (simp add: inv_stats_def del: dropped_simps(1,5)) (simp add: dropped_def)
  qed
  moreover have "x < nextId ?d" if "x \<in> dom (blocks ?d)" for x
    using mm_invD(6) [OF inv, of x] that by (simp split: if_splits)
  ultimately show "mm_inv sl {} R ?d" unfolding mm_inv_def by blast
qed

lemma not_split_single:
  assumes inv: "mm_inv sl H ((a, e, xs @ b # ys) # R) info" and k: "blocks info b = Some k" "\<not> isSplit k"
  shows "xs = []" "ys = []"
proof -
  have "prevBlock k = lst None xs" "nextBlock k = fst_or None ys"
    using inv_heap_ConsD(1) [OF mm_invD(1) [OF inv]] k(1) by (auto simp: seg_focus)
  then show "xs = []" "ys = []" using k(2) by (auto simp: isSplit_def lst_def fst_or_def split: list.splits if_splits)
qed

definition state_ok :: "('d \<Rightarrow> (addr \<times> addr) set) \<Rightarrow> nat \<Rightarrow> blockId set \<Rightarrow> chunk list \<Rightarrow> deviceMemoryInfo \<times> 'd \<Rightarrow> bool" where
  "state_ok live sl H L st \<longleftrightarrow> mm_inv sl H L (fst st) \<and> ranges L \<subseteq> live (snd st)"

lemma other_ranges:
  assumes "inv_heap ((a, e, ids) # R) h" "(a', e') \<in> ranges R"
  shows "a' \<noteq> a"
proof -
  obtain ids' where c: "(a', e', ids') \<in> set R" using assms(2) by (auto simp: ranges_def)
  have "chunk_ok h (a', e', ids')" "chunks_apart (a, e, ids) (a', e', ids')" "ids \<noteq> []" "seg h None a ids None e"
    using assms(1) c unfolding inv_heap_Cons by blast+
  moreover have "a < e" if "ids \<noteq> []" "seg h None a ids None e" for a e ids
    using seg_bounds [OF that(2)] that(1) by (cases ids) fastforce+
  ultimately show ?thesis by (auto simp: chunk_ok_def chunks_apart_def) fastforce+
qed

lemma mm_inv_counters [simp]:
  "mm_inv sl H L (count_free info) = mm_inv sl H L info" "mm_inv sl H L (count_malloc info) = mm_inv sl H L info"
proof -
  have same: "mm_inv sl H L i = mm_inv sl H L j"
    if "blocks i = blocks j" "smallBlocks i = smallBlocks j" "largeBlocks i = largeBlocks j"
      "allocatedBlocks i = allocatedBlocks j" "nextId i = nextId j" "cachedBytes (stats i) = cachedBytes (stats j)"
      "allocatedBytes (stats i) = allocatedBytes (stats j)" for i j
    by (simp only: mm_inv_def inv_pools_def inv_alloc_def inv_chunk_def inv_stats_def kind_def
        coalesced_def pools_def pool_of_def that)
  show "mm_inv sl H L (count_free info) = mm_inv sl H L info" by (rule same) simp_all
  show "mm_inv sl H L (count_malloc info) = mm_inv sl H L info" by (rule same) simp_all
qed

lemma state_ok_counters [simp]:
  "state_ok live sl H L (count_malloc info, d) = state_ok live sl H L (info, d)"
  by (simp add: state_ok_def)

lemma freeBlocks_step:
  assumes ok: "native_ok di live" and st: "state_ok live sl {} L (info, d)"
    and b: "b \<in> set (pool_of small info)" "blocks info b = Some k" "\<not> isSplit k"
  shows "\<exists>R. state_ok live sl {} R (dropped b (blockSize k) (unpooled small b (blockSize k) (count_free info)),
            nativeFree di (blockPtr k) d) \<and> ranges R \<subseteq> ranges L"
proof -
  have inv: "mm_inv sl {} L (count_free info)" using st by (simp add: state_ok_def)
  have b': "b \<in> set (pool_of small (count_free info))" "blocks (count_free info) b = Some k" using b by simp_all
  let ?u = "unpooled small b (blockSize k) (count_free info)"
  have k: "blocks ?u b = Some k" using b by simp
  obtain a e xs ys R where f: "mm_inv sl {b} ((a, e, xs @ b # ys) # R) ?u" "mset L = mset ((a, e, xs @ b # ys) # R)"
    using focus_block [OF unpooled_inv [OF inv b'], of b] k by blast
  note single = not_split_single [OF f(1) k b(3)]
  have f1: "mm_inv sl {b} ((a, e, [b]) # R) ?u" using f(1) single by simp
  note drop = dropped_inv [OF f1 k]
  have r: "ranges L = insert (a, e) (ranges R)" using ranges_perm [OF f(2)] by simp
  have "ranges R \<subseteq> live (nativeFree di (blockPtr k) d)"
  proof
    fix x assume x: "x \<in> ranges R"
    then have "fst x \<noteq> a" using other_ranges [OF mm_invD(1) [OF f1]] by (cases x) auto
    moreover have "x \<in> live d" using x r st by (auto simp: state_ok_def)
    ultimately show "x \<in> live (nativeFree di (blockPtr k) d)" using ok drop(2) by (simp add: native_ok_def)
  qed
  then show ?thesis using drop(1) r by (auto simp: state_ok_def)
qed

lemma freeBlocks_inv:
  assumes ok: "native_ok di live" and st: "state_ok live sl {} L (info, d)"
    and it: "distinct it" "set it \<subseteq> set (pool_of small info)"
  shows "\<exists>info' d' L'. freeBlocks di small it (info, d) = Inr (info', d') \<and> state_ok live sl {} L' (info', d') \<and>
     ranges L' \<subseteq> ranges L \<and> keeps info info' \<and> pool_of (\<not> small) info' = pool_of (\<not> small) info"
  using st it
proof (induction it arbitrary: info d L)
  case (Cons b it)
  have inv: "mm_inv sl {} L info" using Cons.prems(1) by (simp add: state_ok_def)
  note P = inv_poolsD [OF mm_invD(2) [OF inv]]
  have b: "b \<in> set (pool_of small info)" using Cons.prems(3) by simp
  then have "b \<in> dom (blocks info)" using P(7) by blast
  then obtain k where k: "blocks info b = Some k" by blast
  show ?case
  proof (cases "isSplit k")
    case True
    then show ?thesis using Cons.IH [OF Cons.prems(1)] Cons.prems(2,3) k by simp
  next
    case False
    let ?i = "dropped b (blockSize k) (unpooled small b (blockSize k) (count_free info))"
    let ?d = "nativeFree di (blockPtr k) d"
    obtain R where R: "state_ok live sl {} R (?i, ?d)" "ranges R \<subseteq> ranges L"
      using freeBlocks_step [OF ok Cons.prems(1) b k False] by blast
    have sub: "distinct it" "set it \<subseteq> set (pool_of small ?i)"
      using Cons.prems(2,3) in_one_pool(2) [OF P(1) b] by (auto simp: unpooled_def set_remove1_eq)
    have "\<not> inUse k" using P(5) [OF bdata_Some [of "blocks info" b, OF k]] in_one_pool(3) [OF P(1) b] by simp
    then have keep: "keeps info ?i" using k by (auto simp: keeps_def payload_def)
    have "freeBlocks di small (b # it) (info, d) = freeBlocks di small it (?i, ?d)"
      using k False by (cases info) (simp add: Let_def dropped_def unpooled_def set_pool_def add_cached_def
          add_allocated_def count_free_def pool_of_def)
    moreover have "pool_of (\<not> small) ?i = pool_of (\<not> small) info" by (simp add: unpooled_def)
    ultimately show ?thesis using Cons.IH [OF R(1) sub] R(2) keeps_trans [OF keep] by fastforce
  qed
qed auto

lemma cleanup_inv:
  assumes ok: "native_ok di live" and st: "state_ok live sl {} L (info, d)"
  shows "\<exists>info' d' L'. cleanup_device di (info, d) = Inr (info', d') \<and> state_ok live sl {} L' (info', d') \<and>
     ranges L' \<subseteq> ranges L \<and> keeps info info'"
proof -
  have "distinct (pools info)" using st inv_poolsD(1) [OF mm_invD(2)] by (auto simp: state_ok_def)
  then have "distinct (pool_of False info)" using distinct_pools [of info False] by simp
  then obtain info1 d1 L1 where 1: "freeBlocks di False (largeBlocks info) (info, d) = Inr (info1, d1)"
      "state_ok live sl {} L1 (info1, d1)" "ranges L1 \<subseteq> ranges L" "keeps info info1"
    using freeBlocks_inv [OF ok st, of "largeBlocks info" False] by (auto simp: pool_of_def)
  have "distinct (pools info1)" using 1(2) inv_poolsD(1) [OF mm_invD(2)] by (auto simp: state_ok_def)
  then have "distinct (pool_of True info1)" using distinct_pools [of info1 True] by simp
  then obtain info2 d2 L2 where 2: "freeBlocks di True (smallBlocks info1) (info1, d1) = Inr (info2, d2)"
      "state_ok live sl {} L2 (info2, d2)" "ranges L2 \<subseteq> ranges L1" "keeps info1 info2"
    using freeBlocks_inv [OF ok 1(2), of "smallBlocks info1" True] by (auto simp: pool_of_def)
  show ?thesis using 1 2 keeps_trans [OF 1(4) 2(4)] by (simp add: cleanup_device_def) blast
qed

subsection \<open>Sizes\<close>

lemma round_up:
  assumes "0 < m" "n + m \<le> SIZE_MOD" "m < SIZE_MOD"
  shows "sz_mul m (sz_sub (sz_add n m) 1 div m) = m * ((n + m - 1) div m)"
    "n \<le> m * ((n + m - 1) div m)" "m * ((n + m - 1) div m) < n + m"
proof -
  show le: "m * ((n + m - 1) div m) < n + m"
    using assms(1) by (metis add_gr_0 diff_less le_less_trans mult.commute times_div_less_eq_dividend zero_less_one)
  have "(n + m - 1) mod m < m" using assms(1) by simp
  moreover have "n + m - 1 = m * ((n + m - 1) div m) + (n + m - 1) mod m" by simp
  ultimately show "n \<le> m * ((n + m - 1) div m)" by linarith
  have "sz_sub (sz_add n m) 1 = n + m - 1"
  proof (cases "n + m = SIZE_MOD")
    case True
    have "1 \<le> SIZE_MOD - 1" by (simp add: SIZE_MOD_def)
    then show ?thesis using True by (simp add: sz_add_def sz_sub_def)
  next
    case False
    then show ?thesis using assms by simp
  qed
  moreover have "m * ((n + m - 1) div m) < SIZE_MOD" using le assms(2) by simp
  ultimately show "sz_mul m (sz_sub (sz_add n m) 1 div m) = m * ((n + m - 1) div m)" by simp
qed

lemma roundSize_bounds:
  assumes "n + kMinBlockSize \<le> SIZE_MOD"
  shows "n \<le> roundSize n" "kMinBlockSize dvd roundSize n" "kMinBlockSize \<le> roundSize n"
    "roundSize n < n + kMinBlockSize \<or> roundSize n = kMinBlockSize"
proof -
  have m: "0 < kMinBlockSize" "kMinBlockSize < SIZE_MOD" by (simp_all add: size_consts SIZE_MOD_def)
  note r = round_up [OF m(1) assms m(2)]
  show le: "n \<le> roundSize n" and "kMinBlockSize dvd roundSize n"
      "roundSize n < n + kMinBlockSize \<or> roundSize n = kMinBlockSize"
    using r by (simp_all add: roundSize_def)
  show "kMinBlockSize \<le> roundSize n" using le by (cases "n < kMinBlockSize") (simp add: roundSize_def, linarith)
qed

lemma getAllocationSize_bounds:
  assumes "n + kRoundLarge \<le> SIZE_MOD"
  shows "n \<le> getAllocationSize n" "kMinBlockSize dvd getAllocationSize n" "0 < getAllocationSize n"
proof -
  have m: "0 < kRoundLarge" "kRoundLarge < SIZE_MOD" by (simp_all add: size_consts SIZE_MOD_def)
  note r = round_up [OF m(1) assms m(2)]
  have d: "kMinBlockSize dvd kRoundLarge" "kMinBlockSize dvd kSmallBuffer" "kMinBlockSize dvd kLargeBuffer"
    by (simp_all add: size_consts)
  show le: "n \<le> getAllocationSize n" using r by (auto simp: getAllocationSize_def size_consts)
  show "kMinBlockSize dvd getAllocationSize n" using r d by (simp add: getAllocationSize_def)
  show "0 < getAllocationSize n" using le by (cases "n = 0") (auto simp: getAllocationSize_def size_consts)
qed

subsection \<open>Taking a block: from a pool or from the device\<close>

lemma lower_bound_Some:
  assumes "set pool \<subseteq> dom h" "lower_bound h pool (new_block sz 0) = Inr (Some (b, k))"
  shows "b \<in> set pool" "h b = Some k" "sz \<le> blockSize k"
proof -
  have "find (\<lambda>(b, k). \<not> BlockComparator k (new_block sz 0)) (map (\<lambda>b. (b, the (h b))) pool) = Some (b, k)"
    using assms by (simp add: lower_bound_def pool_view_Inr)
  then obtain i where i: "i < length pool" "b = pool ! i" "k = the (h (pool ! i))"
      "\<not> BlockComparator k (new_block sz 0)"
    by (auto simp: find_Some_iff)
  show "b \<in> set pool" using i by simp
  then show "h b = Some k" using assms(1) i(2,3) by auto
  show "sz \<le> blockSize k" using i(4) by (auto simp: BlockComparator_def new_block_def split: if_splits)
qed

definition fresh_chunk :: "addr \<Rightarrow> nat \<Rightarrow> deviceMemoryInfo \<Rightarrow> deviceMemoryInfo" where
  "fresh_chunk p n info = add_allocated (of_nat n)
     (info\<lparr>blocks := (blocks info)(nextId info \<mapsto> new_block n p), nextId := Suc (nextId info)\<rparr>)"

lemma fresh_chunk_simps [simp]:
  "blocks (fresh_chunk p n info) = (blocks info)(nextId info \<mapsto> new_block n p)"
  "pool_of t (fresh_chunk p n info) = pool_of t info" "pools (fresh_chunk p n info) = pools info"
  "allocatedBlocks (fresh_chunk p n info) = allocatedBlocks info" "nextId (fresh_chunk p n info) = Suc (nextId info)"
  "cachedBytes (stats (fresh_chunk p n info)) = cachedBytes (stats info)"
  by (simp_all add: fresh_chunk_def) (simp add: pools_def)

lemma fresh_chunk_inv:
  assumes inv: "mm_inv sl {} L info" and p: "0 < p" "p + n < SIZE_MOD" "0 < n" "kMinBlockSize dvd n"
    and apart: "\<And>a e. (a, e) \<in> ranges L \<Longrightarrow> p + n \<le> a \<or> e \<le> p"
  shows "mm_inv sl {nextId info} ((p, p + n, [nextId info]) # L) (fresh_chunk p n info)" (is "mm_inv _ {?b} _ ?f")
    "ready small (nextId info) ((p, p + n, [nextId info]) # L) (fresh_chunk p n info)"
proof -
  note P = inv_poolsD [OF mm_invD(2) [OF inv]]
  let ?h = "blocks info"
  have heap: "\<forall>c\<in>set L. chunk_ok ?h c" "distinct (all_ids L)" "dom ?h = set (all_ids L)" "all_apart L"
      "\<forall>c\<in>dom ?h. kMinBlockSize dvd blockSize (the (?h c))"
    using mm_invD(1) [OF inv] unfolding inv_heap_def by blast+
  have new: "?b \<notin> dom ?h" using mm_invD(6) [OF inv] by blast
  then have bL: "?b \<notin> set (all_ids L)" "?b \<notin> set (pools info)" using heap(3) P(2) by auto
  then have pb: "?b \<notin> set (pool_of t info)" for t using set_pools [of info] by (cases t) auto
  have other: "bdata (?h(?b \<mapsto> new_block n p)) x = bdata ?h x" if "x \<noteq> ?b" for x using that by (simp add: bdata_def)
  have "inv_heap ((p, p + n, [?b]) # L) (blocks ?f)"
    unfolding inv_heap_Cons
  proof (intro conjI ballI)
    show "seg (blocks ?f) None p [?b] None (p + n)" using p by (simp add: new_block_def)
    show "chunk_ok (blocks ?f) c" if "c \<in> set L" for c
      using that bL(1) by (intro chunk_ok_frame [of ?h, OF bspec [OF heap(1) that]]) (auto simp: all_ids_def)
    show "chunks_apart (p, p + n, [?b]) c" if "c \<in> set L" for c
    proof -
      obtain a e ids where c: "c = (a, e, ids)" by (cases c)
      then have "(a, e) \<in> ranges L" using that by (force simp: ranges_def)
      then show ?thesis using apart c by (simp add: chunks_apart_def)
    qed
    show "kMinBlockSize dvd blockSize (the (blocks ?f c))" if "c \<in> dom (blocks ?f)" for c
      using that heap(5) p(4) by (auto simp: new_block_def)
  qed (use p bL heap in auto)
  moreover have "inv_pools {?b} ?f"
    unfolding inv_pools_bdata
  proof (intro conjI allI impI)
    show "set (pools ?f) \<subseteq> dom (blocks ?f)" using P(2) by auto
    show "pool_sorted (blocks ?f) (pool_of t ?f)" for t
    proof -
      have "pool_sorted (?h(?b \<mapsto> new_block n p)) (pool_of t info)"
      proof (rule pool_sorted_frame [where h = ?h])
        show "bdata (?h(?b \<mapsto> new_block n p)) x = bdata ?h x" if "x \<in> set (pool_of t info)" for x
          using that pb [of t] by (intro other) auto
      qed (use P(6,7) in auto)
      then show ?thesis by simp
    qed
    fix x z q u assume x: "bdata (blocks ?f) x = Some (z, q, u)"
    show "u \<longleftrightarrow> x \<notin> set (pools ?f) \<union> {?b}"
    proof (cases "x = ?b")
      case True
      then show ?thesis using x by (simp add: bdata_def new_block_def inUse_def)
    next
      case False
      then show ?thesis using P(5) [of x z q u] x by (simp add: other)
    qed
  qed (use P(1) bL in auto)
  moreover have "inv_alloc ?f"
    unfolding inv_alloc_bdata
  proof (intro allI)
    fix q x
    have "allocatedBlocks info q = Some x \<longleftrightarrow> (\<exists>z. bdata ?h x = Some (z, q, True))"
      using mm_invD(3) [OF inv] by (simp add: inv_alloc_bdata)
    moreover have "bdata ?h ?b = None" using new by (auto simp: bdata_def)
    moreover have "bdata (?h(?b \<mapsto> new_block n p)) ?b = Some (n, p, False)" by (simp add: bdata_def new_block_def inUse_def)
    ultimately show "allocatedBlocks ?f q = Some x \<longleftrightarrow> (\<exists>z. bdata (blocks ?f) x = Some (z, q, True))"
      by (cases "x = ?b") (simp_all add: other)
  qed
  moreover have "inv_chunk sl {?b} ?f c" if "c \<in> set L" for c
  proof (rule inv_chunk_frame)
    have sub: "set (ids_of c) \<subseteq> set (all_ids L)" using that by (auto simp: all_ids_def)
    show "inv_chunk sl {} info c" using mm_invD(4) [OF inv that] .
    show "set (ids_of c) \<subseteq> dom ?h" using sub heap(3) by auto
    fix x assume "x \<in> set (ids_of c)"
    then have "x \<noteq> ?b" using sub bL by auto
    then show "x \<in> {?b} \<longleftrightarrow> x \<in> {}" "bdata (blocks ?f) x = bdata ?h x" by (auto simp: other)
  qed simp
  moreover have "inv_chunk sl {?b} ?f (p, p + n, [?b])" by (simp add: inv_chunk_def coalesced_def)
  moreover have "inv_stats ((p, p + n, [?b]) # L) ?f"
  proof -
    have f: "pool_bytes (?h(?b \<mapsto> new_block n p)) (pool_of t info) = pool_bytes ?h (pool_of t info)" for t
    proof (rule pool_bytes_frame)
      show "bdata (?h(?b \<mapsto> new_block n p)) x = bdata ?h x" if "x \<in> set (pool_of t info)" for x
        using that pb [of t] by (intro other) auto
    qed (rule P(7))
    have "sum_list (map (\<lambda>x. blockSize (the (blocks ?f x))) (pools ?f)) =
        sum_list (map (\<lambda>x. blockSize (the (?h x))) (pools info))"
      unfolding cached_split [of "blocks ?f" _ True] cached_split [of ?h _ True] by (simp add: f del: fun_upd_apply)
    then show ?thesis
      using mm_invD(5) [OF inv] by (simp add: inv_stats_def del: fresh_chunk_simps(1,3)) (simp add: fresh_chunk_def)
  qed
  moreover have "x < nextId ?f" if "x \<in> dom (blocks ?f)" for x
  proof (cases "x = ?b")
    case False
    then have "x \<in> dom ?h" using that by simp
    then show ?thesis using mm_invD(6) [OF inv, of x] by simp
  qed simp
  ultimately show "mm_inv sl {?b} ((p, p + n, [?b]) # L) ?f" unfolding mm_inv_def by simp
  show "ready small ?b ((p, p + n, [?b]) # L) ?f"
    unfolding ready_def
  proof (intro allI impI)
    fix a e xs ys assume c: "(a, e, xs @ ?b # ys) \<in> set ((p, p + n, [?b]) # L)"
    have "(a, e, xs @ ?b # ys) \<notin> set L" using bL(1) by (force simp: all_ids_def ids_of_def)
    then have "xs @ ?b # ys = [?b]" using c by auto
    then have "xs = []" "ys = []" by (cases xs; auto)+
    then show "(xs = [] \<or> last xs \<notin> set (pools ?f)) \<and> (ys = [] \<or> hd ys \<notin> set (pools ?f)) \<and>
        kind small {?b} ?f (xs @ ?b # ys)" using bL(2) by simp
  qed
qed

lemma mallocWithRetry_ok:
  assumes ok: "native_ok di live" and st: "state_ok live sl {} L (info, d)" and n: "0 < n"
    and run: "mallocWithRetry di n (info, d) = (r, info1, d1)"
  shows "\<exists>L'. keeps info info1 \<and>
     (case r of
        Inl e \<Rightarrow> state_ok live sl {} L' (info1, d1)
      | Inr p \<Rightarrow> mm_inv sl {} L' info1 \<and> insert (p, p + n) (ranges L') \<subseteq> live d1 \<and> 0 < p \<and> p + n < SIZE_MOD \<and>
          (\<forall>a e. (a, e) \<in> ranges L' \<longrightarrow> p + n \<le> a \<or> e \<le> p))"
proof -
  have alloc: "case r of
        Inl e \<Rightarrow> state_ok live sl {} M (i, d2)
      | Inr p \<Rightarrow> mm_inv sl {} M i \<and> insert (p, p + n) (ranges M) \<subseteq> live d2 \<and> 0 < p \<and> p + n < SIZE_MOD \<and>
          (\<forall>a e. (a, e) \<in> ranges M \<longrightarrow> p + n \<le> a \<or> e \<le> p)"
    if "state_ok live sl {} M (i, d0)" "nativeAlloc di n d0 = (r, d2)" for M i d0 d2 r
  proof (cases r)
    case (Inl e)
    then show ?thesis using that native_okD(3) [OF ok, of n d0 e d2] by (simp add: state_ok_def)
  next
    case (Inr p)
    have "p + n \<le> a \<or> e \<le> p" if "(a, e) \<in> ranges M" for a e
    proof (rule native_okD(2) [OF ok])
      show "nativeAlloc di n d0 = (Inr p, d2)" using \<open>nativeAlloc di n d0 = (r, d2)\<close> Inr by simp
      show "(a, e) \<in> live d0" using \<open>state_ok live sl {} M (i, d0)\<close> that by (auto simp: state_ok_def)
    qed
    then show ?thesis using that native_okD(1) [OF ok, of n d0 p d2] Inr by (auto simp: state_ok_def)
  qed
  obtain r0 d0 where a0: "nativeAlloc di n d = (r0, d0)" by force
  have st1: "state_ok live sl {} L (count_malloc info, d)" using st by simp
  show ?thesis
  proof (cases r0)
    case (Inr p)
    then have "r = Inr p" "info1 = count_malloc info" "d1 = d0" using run a0 by (auto simp: mallocWithRetry_def Let_def)
    then show ?thesis using alloc [OF st1 a0] Inr by (intro exI [of _ L]) (simp add: keeps_def)
  next
    case (Inl e)
    have "state_ok live sl {} L (count_malloc info, d0)" using alloc [OF st1 a0] Inl by simp
    then obtain info2 d2 M where c: "cleanup_device di (count_malloc info, d0) = Inr (info2, d2)"
        "state_ok live sl {} M (info2, d2)" "keeps (count_malloc info) info2"
      using cleanup_inv [OF ok] by blast
    then have r: "nativeAlloc di n d2 = (r, d1)" "info1 = count_malloc info2"
      using run a0 Inl by (auto simp: mallocWithRetry_def Let_def split: prod.splits)
    have "state_ok live sl {} M (count_malloc info2, d2)" using c(2) by simp
    then show ?thesis using alloc [OF _ r(1)] r(2) c(3) by (intro exI [of _ M]) (simp add: keeps_def)
  qed
qed

lemma take_block_ok:
  assumes ok: "native_ok di live" and st: "state_ok live sl {} L (info, d)"
    and sz: "sz + kRoundLarge \<le> SIZE_MOD"
    and run: "take_block di rl sz (info, d) = (r, info1, d1)"
  shows "\<exists>L'. keeps info info1 \<and>
     (case r of
        Inl e \<Rightarrow> state_ok live sl {} L' (info1, d1)
      | Inr b \<Rightarrow> state_ok live sl {b} L' (info1, d1) \<and> ready (sz \<le> kSmallSize) b L' info1 \<and>
          (\<exists>k. blocks info1 b = Some k \<and> sz \<le> blockSize k))"
proof -
  let ?small = "sz \<le> kSmallSize" and ?n = "getAllocationSize sz"
  have inv: "mm_inv sl {} L info" using st by (simp add: state_ok_def)
  note P = inv_poolsD [OF mm_invD(2) [OF inv]]
  obtain it where it: "lower_bound (blocks info) (pool_of ?small info) (new_block sz 0) = Inr it"
    using P(7) [of ?small] by (auto simp: lower_bound_def pool_view_Inr)
  consider (pool) b k where "it = Some (b, k)" "?small \<or> blockSize k < rl"
    | (device) "(case it of None \<Rightarrow> None
         | Some (b, k) \<Rightarrow> if ?small \<or> blockSize k < rl then Some (b, k) else None) = None"
    by (cases it; cases "the it"; cases "?small \<or> blockSize (snd (the it)) < rl") auto
  then show ?thesis
  proof cases
    case pool
    then have run': "r = Inr b" "info1 = unpooled ?small b (blockSize k) info" "d1 = d"
      using run it by (auto simp: take_block_def Let_def unpooled_def)
    have b: "b \<in> set (pool_of ?small info)" "blocks info b = Some k" "sz \<le> blockSize k"
      using lower_bound_Some [OF P(7), of ?small sz b k] it pool(1) by simp_all
    have "keeps info info1" by (simp add: keeps_def run'(2))
    moreover have "state_ok live sl {b} L (info1, d1)"
      using unpooled_inv [OF inv b(1,2)] st run' by (simp add: state_ok_def)
    moreover have "ready ?small b L info1" using unpooled_ready [OF inv b(1,2)] run' by simp
    ultimately show ?thesis using run' b by (intro exI [of _ L]) simp
  next
    case device
    obtain r0 info0 d0 where m: "mallocWithRetry di ?n (info, d) = (r0, info0, d0)" by (metis prod.exhaust)
    note g = getAllocationSize_bounds [OF sz]
    obtain M where M: "keeps info info0"
       "case r0 of
        Inl e \<Rightarrow> state_ok live sl {} M (info0, d0)
      | Inr p \<Rightarrow> mm_inv sl {} M info0 \<and> insert (p, p + ?n) (ranges M) \<subseteq> live d0 \<and> 0 < p \<and> p + ?n < SIZE_MOD \<and>
          (\<forall>a e. (a, e) \<in> ranges M \<longrightarrow> p + ?n \<le> a \<or> e \<le> p)"
      using mallocWithRetry_ok [OF ok st g(3) m] by blast
    show ?thesis
    proof (cases r0)
      case (Inl e)
      then have "r = Inl e" "info1 = info0" "d1 = d0" using run it m device by (auto simp: take_block_def Let_def)
      then show ?thesis using M Inl by (intro exI [of _ M]) simp
    next
      case (Inr p)
      let ?b = "nextId info0"
      have run': "r = Inr ?b" "info1 = fresh_chunk p ?n info0" "d1 = d0"
        using run it m device Inr by (auto simp: take_block_def Let_def fresh_chunk_def)
      have m: "mm_inv sl {} M info0" "insert (p, p + ?n) (ranges M) \<subseteq> live d0" "0 < p" "p + ?n < SIZE_MOD"
          "\<And>a e. (a, e) \<in> ranges M \<Longrightarrow> p + ?n \<le> a \<or> e \<le> p" using M(2) Inr by auto
      note f = fresh_chunk_inv [OF m(1,3,4) g(3,2) m(5)]
      have "?b \<notin> dom (blocks info0)" using mm_invD(6) [OF m(1)] by blast
      then have "keeps info0 info1" by (auto simp: keeps_def run'(2) payload_def)
      then have "keeps info info1" using M(1) keeps_trans by blast
      moreover have "sz \<le> blockSize (new_block ?n p)" using g(1) by (simp add: new_block_def)
      moreover have "state_ok live sl {?b} ((p, p + ?n, [?b]) # M) (info1, d1)"
        using f(1) m(2) by (simp add: state_ok_def run')
      moreover have "ready ?small ?b ((p, p + ?n, [?b]) # M) info1" using f(2) by (simp add: run')
      ultimately show ?thesis using run'
        by (intro exI [of _ "(p, p + ?n, [?b]) # M"]) simp
    qed
  qed
qed

end
