(* ===== verification/CachingMemoryTheorems.thy ===== *)
theory CachingMemoryTheorems
  imports CachingMemoryOperations
begin

section \<open>Correctness of the caching memory manager\<close>

text \<open>
  The whole operations on a device, the states that sequences of calls reach, what holds in all of them, and the
  refinement of the specification that only knows live pointers. Concrete runs at the end show where the code goes wrong.
\<close>

subsection \<open>Splitting a held block\<close>

definition after_split :: "nat \<Rightarrow> blockId list \<Rightarrow> blockId \<Rightarrow> block \<Rightarrow> deviceMemoryInfo \<Rightarrow> deviceMemoryInfo" where
  "after_split sz xs b k info =
     info\<lparr>blocks := split_heap (blocks info) xs (nextId info) b k sz, nextId := Suc (nextId info)\<rparr>"

lemma split_held:
  fixes info :: deviceMemoryInfo
  defines "n \<equiv> nextId info" and "h \<equiv> blocks info"
  assumes inv: "mm_inv sl {b} ((a, e, xs @ b # ys) # R) info" and k: "h b = Some k"
    and sz: "0 < sz" "sz < blockSize k" "kMinBlockSize dvd sz" "blockSize k < sl"
    and kind: "kind small {b} info (xs @ b # ys)"
  defines "info' \<equiv> after_split sz xs b k info"
  shows "mm_inv sl {n, b} ((a, e, xs @ n # b # ys) # R) info'" "kind small {n, b} info' (xs @ n # b # ys)"
    "blocks info' b = Some (k\<lparr>prevBlock := Some n, blockPtr := blockPtr k + sz, blockSize := blockSize k - sz\<rparr>)"
    "blocks info' n = Some ((new_block sz (blockPtr k))\<lparr>prevBlock := prevBlock k, nextBlock := Some b\<rparr>)"
    "pools info' = pools info" "n \<notin> set (pools info)" "n \<notin> dom h"
proof -
  let ?h = "split_heap h xs n b k sz"
  note P = inv_poolsD [OF mm_invD(2) [OF inv], folded h_def]
  note H = inv_heap_ConsD [OF mm_invD(1) [OF inv], folded h_def]
  show new: "n \<notin> dom h" using mm_invD(6) [OF inv] by (auto simp: n_def h_def)
  have nb: "n \<noteq> b" "n \<notin> set (xs @ b # ys)" "n \<notin> set (all_ids R)" using new k H(4) by auto
  have dxs: "set xs \<subseteq> dom h" using H(4) by auto
  have h': "blocks info' = ?h" by (simp add: info'_def after_split_def n_def h_def)
  have hb: "?h b = Some (k\<lparr>prevBlock := Some n, blockPtr := blockPtr k + sz, blockSize := blockSize k - sz\<rparr>)"
      "?h n = Some ((new_block sz (blockPtr k))\<lparr>prevBlock := prevBlock k, nextBlock := Some b\<rparr>)"
    using nb by (simp_all add: split_heap_def)
  then show "blocks info' b = Some (k\<lparr>prevBlock := Some n, blockPtr := blockPtr k + sz, blockSize := blockSize k - sz\<rparr>)"
      "blocks info' n = Some ((new_block sz (blockPtr k))\<lparr>prevBlock := prevBlock k, nextBlock := Some b\<rparr>)"
    by (simp_all add: h')
  show pools': "pools info' = pools info" by (simp add: info'_def after_split_def)
  have pool': "pool_of t info' = pool_of t info" for t by (simp add: info'_def after_split_def)
  show np: "n \<notin> set (pools info)" using P(2) new by auto
  have held: "\<not> inUse k" "b \<notin> set (pools info)" using held_block [OF inv] k by (simp_all add: h_def)
  have bd: "bdata ?h b = Some (blockSize k - sz, blockPtr k + sz, False)" "bdata ?h n = Some (sz, blockPtr k, False)"
    using hb held by (simp_all add: bdata_def new_block_def inUse_def)
  have other: "bdata ?h x = bdata h x" if "x \<noteq> n" "x \<noteq> b" for x
  proof -
    have "bdata ?h x = bdata (upd_next h xs (Some n)) x" using that by (simp add: bdata_def split_heap_def)
    then show ?thesis using dxs by simp
  qed
  have op: "bdata ?h x = bdata h x" if "x \<in> set (pool_of t info)" for x t
    using that held(2) np set_pools [of info] by (intro other) (cases t; auto)+
  have dom': "dom ?h = insert n (dom h)" using dxs k by (auto simp: split_heap_def)
  have "inv_heap ((a, e, xs @ n # b # ys) # R) (blocks info')"
    unfolding h' using inv_heap_split [OF mm_invD(1) [OF inv, folded h_def] k new sz(1-3)] .
  moreover have "inv_pools {n, b} info'"
    unfolding inv_pools_bdata h' pools' pool' dom'
  proof (intro conjI allI impI)
    show "distinct (pools info)" "set (pools info) \<subseteq> insert n (dom h)" using P(1,2) by auto
    show "{n, b} \<subseteq> insert n (dom h) - set (pools info)" using np held(2) k by auto
    show "pool_sorted ?h (pool_of t info)" for t by (rule pool_sorted_frame [OF op P(7) P(6)])
    fix x z p u assume x: "bdata ?h x = Some (z, p, u)"
    show "u \<longleftrightarrow> x \<notin> set (pools info) \<union> {n, b}"
    proof (cases "x = n \<or> x = b")
      case False
      then show ?thesis using P(5) [of x z p u] x by (simp add: other)
    qed (use x bd in auto)
  qed
  moreover have "inv_alloc info'"
    unfolding inv_alloc_bdata h'
  proof (intro allI)
    fix p x
    have "allocatedBlocks info p = Some x \<longleftrightarrow> (\<exists>z. bdata h x = Some (z, p, True))"
      using mm_invD(3) [OF inv] by (simp add: inv_alloc_bdata h_def)
    moreover have "bdata h b = Some (blockSize k, blockPtr k, False)" using k held(1) by (simp add: bdata_def)
    moreover have "bdata h n = None" using new by (auto simp: bdata_def)
    ultimately have "allocatedBlocks info p = Some x \<longleftrightarrow> (\<exists>z. bdata ?h x = Some (z, p, True))"
      using bd by (cases "x = n \<or> x = b") (auto simp: other)
    then show "allocatedBlocks info' p = Some x \<longleftrightarrow> (\<exists>z. bdata ?h x = Some (z, p, True))"
      by (simp add: info'_def after_split_def)
  qed
  moreover have "inv_chunk sl {n, b} info' c" if "c \<in> set R" for c
  proof (rule inv_chunk_frame)
    have sub: "set (ids_of c) \<subseteq> set (all_ids R)" using that by (auto simp: all_ids_def)
    show "inv_chunk sl {b} info c" using mm_invD(4) [OF inv, of c] that by simp
    show "set (ids_of c) \<subseteq> dom (blocks info)" using sub H(4) by (auto simp: h_def)
    fix x assume "x \<in> set (ids_of c)"
    then have xx: "x \<noteq> n" "x \<noteq> b" using sub nb H(3) by auto
    then show "x \<in> {n, b} \<longleftrightarrow> x \<in> {b}" by simp
    show "bdata (blocks info') x = bdata (blocks info) x" unfolding h' h_def [symmetric] by (rule other [OF xx])
  qed (simp add: pool')
  moreover have kind': "kind small {n, b} info' (xs @ n # b # ys)"
    unfolding kind_def
  proof (intro ballI)
    fix x assume x: "x \<in> set (xs @ n # b # ys)"
    show "if x \<in> set (pools info') then x \<in> set (pool_of small info')
        else x \<in> {n, b} \<or> (blockSize (the (blocks info' x)) \<le> kSmallSize \<longleftrightarrow> small)"
    proof (cases "x = n \<or> x = b")
      case False
      then have xi: "x \<in> set (xs @ b # ys)" using x by auto
      then have "x \<in> dom h" using H(4) by auto
      then have "blockSize (the (?h x)) = blockSize (the (h x))" using False other bdata_eqD(2) by metis
      then show ?thesis
        using bspec [OF kind [unfolded kind_def] xi] False by (auto simp: pools' pool' h' h_def)
    qed (use np held in \<open>auto simp: pools'\<close>)
  qed
  moreover have "inv_chunk sl {n, b} info' (a, e, xs @ n # b # ys)"
  proof -
    have old: "inv_chunk sl {b} info (a, e, xs @ b # ys)" using mm_invD(4) [OF inv] by simp
    have "e - a < sl"
    proof (cases "xs = [] \<and> ys = []")
      case True
      then show ?thesis using H(1) k sz(4) by auto
    next
      case False
      then have "2 \<le> length (xs @ b # ys)" by (cases xs; cases ys) auto
      then show ?thesis using old by (simp add: inv_chunk_def)
    qed
    moreover have "coalesced info' zs = coalesced info zs" for zs by (simp only: coalesced_def pools')
    then have "coalesced info' (xs @ n # b # ys)"
      using old np held(2) by (simp add: inv_chunk_def coalesced_append coalesced_Cons pools')
    ultimately show ?thesis using kind' by (auto simp: inv_chunk_def)
  qed
  moreover have "inv_stats ((a, e, xs @ n # b # ys) # R) info'"
  proof -
    have f: "pool_bytes ?h (pool_of t info) = pool_bytes h (pool_of t info)" for t
      by (rule pool_bytes_frame [OF op P(7)])
    have "sum_list (map (\<lambda>x. blockSize (the (?h x))) (pools info)) = sum_list (map (\<lambda>x. blockSize (the (h x))) (pools info))"
      unfolding cached_split [of ?h _ True] cached_split [of h _ True] f ..
    then show ?thesis using mm_invD(5) [OF inv] unfolding inv_stats_def h' pools'
      by (simp add: h_def info'_def after_split_def)
  qed
  moreover have "x < nextId info'" if "x \<in> dom (blocks info')" for x
  proof (cases "x = n")
    case False
    then have "x \<in> dom h" using that unfolding h' dom' by blast
    then show ?thesis using mm_invD(6) [OF inv, folded h_def, of x] by (simp add: info'_def after_split_def)
  qed (simp add: info'_def after_split_def n_def)
  ultimately show "mm_inv sl {n, b} ((a, e, xs @ n # b # ys) # R) info'" "kind small {n, b} info' (xs @ n # b # ys)"
    unfolding mm_inv_def by simp_all
qed

lemma split_run:
  fixes info :: deviceMemoryInfo
  assumes inv: "mm_inv sl {b} ((a, e, xs @ b # ys) # R) info" and k: "blocks info b = Some k"
    and sz: "0 < sz" "sz < blockSize k" "kMinBlockSize dvd sz" "blockSize k < sl"
    and cond: "(if sz \<le> kSmallSize then kMinBlockSize else kSmallSize) \<le> blockSize k - sz"
    and kind: "kind (sz \<le> kSmallSize) {b} info (xs @ b # ys)"
  shows "split_block sl sz b info =
     Inr (nextId info, pooled (sz \<le> kSmallSize) b (blockSize k - sz) (after_split sz xs b k info))"
proof -
  let ?n = "nextId info" and ?h = "blocks info" and ?small = "sz \<le> kSmallSize"
  let ?i = "after_split sz xs b k info"
  note S = split_held [OF inv k sz kind]
  note H = inv_heap_ConsD [OF mm_invD(1) [OF inv]]
  have sg: "prevBlock k = lst None xs" using H(1) k by (auto simp: seg_focus)
  have bk: "blockPtr k + blockSize k < SIZE_MOD" using inv_heap_block(3) [OF mm_invD(1) [OF inv] k] .
  have ne: "?n \<noteq> b" "?n \<notin> set xs" "b \<notin> set xs" and dxs: "set xs \<subseteq> dom ?h" using S(7) H(2,4) k by auto
  have "modify_opt (?h(?n \<mapsto> (new_block sz (blockPtr k))\<lparr>prevBlock := prevBlock k\<rparr>)) (prevBlock k)
        (\<lambda>q. q\<lparr>nextBlock := Some ?n\<rparr>) =
      Inr ((upd_next ?h xs (Some ?n))(?n \<mapsto> (new_block sz (blockPtr k))\<lparr>prevBlock := prevBlock k\<rparr>))"
  proof (cases xs rule: rev_cases)
    case Nil
    then show ?thesis using sg by (simp add: upd_next_def)
  next
    case (snoc zs y)
    then have "y \<noteq> ?n" "y \<in> dom ?h" using ne dxs by auto
    then obtain ky where "?h y = Some ky" by blast
    then show ?thesis using sg snoc \<open>y \<noteq> ?n\<close> by (simp add: upd_next_def fun_upd_twist)
  qed
  moreover have "blocks ?i = (upd_next ?h xs (Some ?n))
       (?n \<mapsto> (new_block sz (blockPtr k))\<lparr>prevBlock := prevBlock k, nextBlock := Some b\<rparr>,
        b \<mapsto> k\<lparr>prevBlock := Some ?n, blockPtr := blockPtr k + sz, blockSize := blockSize k - sz\<rparr>)"
    by (simp add: after_split_def split_heap_def)
  moreover have "upd_next ?h xs (Some ?n) b = Some k" using ne k by (simp add: upd_other)
  moreover have "pool_insert (blocks ?i) (pool_of ?small info) b =
      Inr (ins_by (\<lambda>x y. BlockComparator (the (blocks ?i x)) (the (blocks ?i y))) b (pool_of ?small info))"
  proof (rule pool_insert_Inr [OF mm_invD(1) [OF S(1)]])
    have bp: "b \<notin> set (pools info)" using held_block [OF inv k] by simp
    then show "b \<notin> set (pool_of ?small info)" using set_pools [of info] by (cases ?small) auto
    show "set (pool_of ?small info) \<subseteq> dom (blocks ?i)"
      using inv_poolsD(7) [OF mm_invD(2) [OF S(1)], of ?small] by (simp add: after_split_def)
    show "b \<in> dom (blocks ?i)" using S(3) by auto
  qed
  moreover have "sz_sub (blockSize k) sz = blockSize k - sz" "sz_add (blockPtr k) sz = blockPtr k + sz"
    using sz(2) bk by simp_all
  ultimately show ?thesis
    using k cond sz(4) ne(1)
    by (cases ?small) (simp_all add: split_block_def Let_def pooled_def set_pool_def after_split_def pool_of_def
        add_cached_def fun_upd_twist)
qed

lemma split_inv:
  fixes info :: deviceMemoryInfo
  assumes inv: "mm_inv sl {b} ((a, e, xs @ b # ys) # R) info" and k: "blocks info b = Some k"
    and sz: "0 < sz" "sz < blockSize k" "kMinBlockSize dvd sz" "blockSize k < sl"
    and kind: "kind small {b} info (xs @ b # ys)" and nb: "ys = [] \<or> hd ys \<notin> set (pools info)"
  defines "n \<equiv> nextId info" and "info' \<equiv> pooled small b (blockSize k - sz) (after_split sz xs b k info)"
  shows "mm_inv sl {n} ((a, e, xs @ n # b # ys) # R) info'" "kind small {n} info' (xs @ n # b # ys)"
    "blocks info' n = Some ((new_block sz (blockPtr k))\<lparr>prevBlock := prevBlock k, nextBlock := Some b\<rparr>)"
proof -
  let ?i = "after_split sz xs b k info"
  note S = split_held [OF inv k sz kind, folded n_def]
  have "n \<noteq> b" using S(7) k by auto
  have "mm_inv sl ({n, b} - {b}) ((a, e, (xs @ [n]) @ b # ys) # R) (pooled small b (blockSize k - sz) ?i)"
    using insert_inv [of sl "{n, b}" a e "xs @ [n]" b ys R ?i _ small, OF _ _ S(3)] S nb by simp
  then show "mm_inv sl {n} ((a, e, xs @ n # b # ys) # R) info'" using \<open>n \<noteq> b\<close> by (simp add: info'_def insert_Diff_if)
  show "blocks info' n = Some ((new_block sz (blockPtr k))\<lparr>prevBlock := prevBlock k, nextBlock := Some b\<rparr>)"
    using S(4) by (simp add: info'_def)
  show "kind small {n} info' (xs @ n # b # ys)"
    unfolding kind_def
  proof (intro ballI)
    fix x assume "x \<in> set (xs @ n # b # ys)"
    from bspec [OF S(2) [unfolded kind_def] this]
    show "if x \<in> set (pools info') then x \<in> set (pool_of small info')
        else x \<in> {n} \<or> (blockSize (the (blocks info' x)) \<le> kSmallSize \<longleftrightarrow> small)"
      by (auto simp: info'_def)
  qed
qed

subsection \<open>The view of the client\<close>

text \<open>
  The abstract state of a device: the pointers handed out, each with the size of its block and its
  two lock bits.
\<close>

type_synonym allocView = "addr \<rightharpoonup> nat \<times> bool \<times> bool"

definition view :: "deviceMemoryInfo \<Rightarrow> allocView" where
  "view info p =
     (case allocatedBlocks info p of
        None \<Rightarrow> None
      | Some b \<Rightarrow>
          (case payload (blocks info) b of
             None \<Rightarrow> None
           | Some (z, _, m, u) \<Rightarrow> Some (z, m, u)))"

lemma view_Some_iff:
  assumes "mm_inv sl H L info"
  shows "view info p = Some (z, m, u) \<longleftrightarrow>
    (\<exists>b k. allocatedBlocks info p = Some b \<and> blocks info b = Some k \<and> inUse k \<and> blockPtr k = p \<and>
       blockSize k = z \<and> managerLock k = m \<and> userLocked k = u)"
proof (cases "allocatedBlocks info p")
  case (Some b)
  then obtain k where "blocks info b = Some k \<and> inUse k \<and> blockPtr k = p"
    using mm_invD(3) [OF assms] unfolding inv_alloc_def by blast
  then show ?thesis using Some by (simp add: view_def payload_def)
qed (simp add: view_def)

lemma view_None_iff:
  assumes "mm_inv sl H L info"
  shows "view info p = None \<longleftrightarrow> allocatedBlocks info p = None"
proof (cases "allocatedBlocks info p")
  case (Some b)
  then obtain k where "blocks info b = Some k" using mm_invD(3) [OF assms] unfolding inv_alloc_def by blast
  then show ?thesis using Some by (simp add: view_def payload_def)
qed (simp add: view_def)

lemma view_keeps:
  assumes "mm_inv sl H L info" "keeps info info'"
  shows "view info' = view info"
proof
  fix p
  show "view info' p = view info p"
  proof (cases "allocatedBlocks info p")
    case (Some b)
    then obtain k where "blocks info b = Some k" "inUse k"
      using mm_invD(3) [OF assms(1)] by (auto simp: inv_alloc_def)
    then show ?thesis using assms(2) Some by (simp add: view_def keeps_def)
  qed (use assms(2) in \<open>simp add: view_def keeps_def\<close>)
qed

text \<open>The memory of two live pointers does not overlap.\<close>

definition no_overlap :: "allocView \<Rightarrow> bool" where
  "no_overlap v \<longleftrightarrow> (\<forall>p q n m l l'. p \<noteq> q \<longrightarrow> v p = Some (n, l) \<longrightarrow> v q = Some (m, l') \<longrightarrow> p + n \<le> q \<or> q + m \<le> p)"

lemma mm_inv_no_overlap: "mm_inv sl H L info \<Longrightarrow> no_overlap (view info)"
  unfolding no_overlap_def
proof (intro allI impI)
  fix p q n m l l'
  assume inv: "mm_inv sl H L info" and ne: "p \<noteq> q" "view info p = Some (n, l)" "view info q = Some (m, l')"
  obtain b k c k' where b: "blocks info b = Some k" "blockPtr k = p" "blockSize k = n"
      and c: "blocks info c = Some k'" "blockPtr k' = q" "blockSize k' = m"
    using ne(2,3) view_Some_iff [OF inv] by (metis prod.exhaust)
  then have "b \<noteq> c" using ne(1) by auto
  then show "p + n \<le> q \<or> q + m \<le> p"
    using inv_heap_apart [OF mm_invD(1) [OF inv], of b c] b c by (auto simp: apart_def)
qed

lemma lock_inv:
  assumes inv: "mm_inv sl {b} L info" and k: "blocks info b = Some k"
    and kinds: "\<And>a e ids. (a, e, ids) \<in> set L \<Longrightarrow> b \<in> set ids \<Longrightarrow> 2 \<le> length ids \<Longrightarrow> \<exists>small. kind small {} info ids"
  shows "\<exists>info'. lock_block user b info = Inr (blockPtr k, info') \<and> mm_inv sl {} L info' \<and>
     view info (blockPtr k) = None \<and> view info' = (view info)(blockPtr k \<mapsto> (blockSize k, \<not> user, user))"
proof -
  let ?k = "k\<lparr>managerLock := \<not> user, userLocked := user\<rparr>"
  let ?i = "info\<lparr>blocks := (blocks info)(b \<mapsto> ?k), allocatedBlocks := (allocatedBlocks info)(blockPtr k \<mapsto> b)\<rparr>"
  have held: "\<not> inUse k" "b \<notin> set (pools info)" using held_block [OF inv k] by simp_all
  have run: "lock_block user b info = Inr (blockPtr k, ?i)" using k by (simp add: lock_block_def)
  have inv': "mm_inv sl {} L ?i"
    using relock_inv [OF inv k, of ?k "{}"] held kinds by (auto simp: same_links_def inUse_def)
  have none: "allocatedBlocks info (blockPtr k) = None"
  proof (rule ccontr)
    assume "allocatedBlocks info (blockPtr k) \<noteq> None"
    then obtain c k' where c: "blocks info c = Some k'" "inUse k'" "blockPtr k' = blockPtr k"
      using mm_invD(3) [OF inv] by (auto simp: inv_alloc_def)
    then have "c = b" using same_ptr_same_block [OF mm_invD(1) [OF inv] c(1) k] by simp
    then show False using c k held by simp
  qed
  have "view ?i = (view info)(blockPtr k \<mapsto> (blockSize k, \<not> user, user))"
  proof
    fix p
    show "view ?i p = ((view info)(blockPtr k \<mapsto> (blockSize k, \<not> user, user))) p"
    proof (cases "p = blockPtr k")
      case False
      have "b' \<noteq> b" if "allocatedBlocks info p = Some b'" for b'
        using mm_invD(3) [OF inv] that k held by (auto simp: inv_alloc_def)
      then show ?thesis using False by (auto simp: view_def payload_def split: option.splits)
    qed (simp add: view_def payload_def)
  qed
  then show ?thesis using run inv' none view_None_iff [OF inv] by auto
qed

subsection \<open>Allocation\<close>

lemma kind_lock:
  assumes "kind small {b} info ids" "b \<notin> set (pools info)" "blockSize (the (blocks info b)) \<le> kSmallSize \<longleftrightarrow> small"
  shows "kind small {} info ids"
  using assms unfolding kind_def by (auto split: if_splits)

lemma chunk_unique:
  assumes inv: "mm_inv sl H ((a, e, ids) # R) info" and b: "b \<in> set ids"
    and c: "(a', e', ids') \<in> set ((a, e, ids) # R)" "b \<in> set ids'"
  shows "a' = a" "e' = e" "ids' = ids"
proof -
  have "b \<notin> set (all_ids R)" using inv_heap_ConsD(3) [OF mm_invD(1) [OF inv]] b by auto
  then have "(a', e', ids') \<notin> set R" using c(2) by (force simp: all_ids_def ids_of_def)
  then show "a' = a" "e' = e" "ids' = ids" using c(1) by auto
qed

lemma unsplit_fits:
  assumes inv: "mm_inv sl {b} ((a, e, xs @ b # ys) # R) info" and k: "blocks info b = Some k"
    and sz: "sz \<le> blockSize k" "kMinBlockSize dvd sz" and two: "2 \<le> length (xs @ b # ys)"
    and no: "\<not> ((if sz \<le> kSmallSize then kMinBlockSize else kSmallSize) \<le> blockSize k - sz \<and> blockSize k < sl)"
  shows "blockSize k \<le> kSmallSize \<longleftrightarrow> sz \<le> kSmallSize"
proof -
  note H = inv_heap_ConsD [OF mm_invD(1) [OF inv]]
  have "inv_chunk sl {b} info (a, e, xs @ b # ys)" using mm_invD(4) [OF inv] by simp
  then have "e - a < sl" using two by (simp add: inv_chunk_def)
  moreover have "a \<le> blockPtr k" "blockPtr k + blockSize k \<le> e"
    using seg_bounds [OF H(1)] k by auto
  ultimately have "blockSize k < sl" by linarith
  then have small: "sz \<le> kSmallSize \<Longrightarrow> blockSize k - sz < kMinBlockSize" using no by simp
  have "kMinBlockSize dvd blockSize k - sz"
    using inv_heap_block(4) [OF mm_invD(1) [OF inv] k] sz(2) by (rule dvd_diff_nat)
  then have "blockSize k = sz" if "sz \<le> kSmallSize"
    using small [OF that] sz(1) by (metis dvd_imp_le le_antisym diff_is_0_eq not_gr_zero not_less)
  then show ?thesis using sz(1) by linarith
qed

lemma split_keeps:
  fixes info :: deviceMemoryInfo
  assumes inv: "mm_inv sl {b} ((a, e, xs @ b # ys) # R) info" and k: "blocks info b = Some k"
    and sz: "0 < sz" "sz < blockSize k" "kMinBlockSize dvd sz" "blockSize k < sl"
    and kind: "kind small {b} info (xs @ b # ys)"
  shows "keeps info (after_split sz xs b k info)"
proof -
  let ?n = "nextId info"
  have "payload (split_heap (blocks info) xs ?n b k sz) x = payload (blocks info) x"
    if "blocks info x = Some kx" "inUse kx" for x kx
  proof -
    have "x \<noteq> b" using that k held_block(1) [OF inv k] by auto
    moreover have "x \<noteq> ?n" using that split_held(7) [OF inv k sz kind] by auto
    ultimately have "payload (split_heap (blocks info) xs ?n b k sz) x = payload (upd_next (blocks info) xs (Some ?n)) x"
      by (simp add: split_heap_def payload_def)
    moreover have "set xs \<subseteq> dom (blocks info)" using inv_heap_ConsD(4) [OF mm_invD(1) [OF inv]] by auto
    ultimately show ?thesis by simp
  qed
  then show ?thesis by (simp add: keeps_def after_split_def)
qed

lemma place_ok:
  assumes inv: "mm_inv sl {b} L info" and k: "blocks info b = Some k"
    and sz: "0 < sz" "sz \<le> blockSize k" "kMinBlockSize dvd sz" and ready: "ready (sz \<le> kSmallSize) b L info"
  shows "\<exists>p n info' L'. rbind (split_block sl sz b info) (\<lambda>(b1, info2). lock_block user b1 info2) = Inr (p, info') \<and>
     mm_inv sl {} L' info' \<and> ranges L' = ranges L \<and> sz \<le> n \<and> 0 < p \<and> view info p = None \<and>
     view info' = (view info)(p \<mapsto> (n, \<not> user, user))"
proof -
  let ?small = "sz \<le> kSmallSize" and ?q = "if sz \<le> kSmallSize then kMinBlockSize else kSmallSize"
  obtain a e xs ys R where f: "mm_inv sl {b} ((a, e, xs @ b # ys) # R) info" "mset L = mset ((a, e, xs @ b # ys) # R)"
    using focus_block [OF inv, of b] k by blast
  have "(a, e, xs @ b # ys) \<in> set L" using f(2) by (metis list.set_intros(1) set_mset_mset)
  then have r: "xs = [] \<or> last xs \<notin> set (pools info)" "ys = [] \<or> hd ys \<notin> set (pools info)"
      "kind ?small {b} info (xs @ b # ys)"
    using ready unfolding ready_def by blast+
  have ptr: "0 < blockPtr k" "blockSize k < SIZE_MOD"
    using inv_heap_block(2,3) [OF mm_invD(1) [OF inv] k] by simp_all
  have rL: "ranges L = ranges ((a, e, xs @ b # ys) # R)" by (rule ranges_perm [OF f(2)])
  show ?thesis
  proof (cases "?q \<le> blockSize k - sz \<and> blockSize k < sl")
    case True
    have "0 < ?q" by (simp add: size_consts)
    then have lt: "sz < blockSize k" using True by linarith
    let ?n = "nextId info" and ?i = "pooled ?small b (blockSize k - sz) (after_split sz xs b k info)"
    note run = split_run [OF f(1) k sz(1) lt sz(3) conjunct2 [OF True] conjunct1 [OF True] r(3)]
    note S = split_inv [OF f(1) k sz(1) lt sz(3) conjunct2 [OF True] r(3,2)]
    have "keeps info (after_split sz xs b k info)"
      by (rule split_keeps [OF f(1) k sz(1) lt sz(3) conjunct2 [OF True] r(3)])
    then have v: "view ?i = view info" by (intro view_keeps [OF f(1)]) (simp add: keeps_def)
    have "\<exists>info'. lock_block user ?n ?i =
        Inr (blockPtr ((new_block sz (blockPtr k))\<lparr>prevBlock := prevBlock k, nextBlock := Some b\<rparr>), info') \<and>
       mm_inv sl {} ((a, e, xs @ ?n # b # ys) # R) info' \<and>
       view ?i (blockPtr ((new_block sz (blockPtr k))\<lparr>prevBlock := prevBlock k, nextBlock := Some b\<rparr>)) = None \<and>
       view info' = (view ?i)(blockPtr ((new_block sz (blockPtr k))\<lparr>prevBlock := prevBlock k, nextBlock := Some b\<rparr>) \<mapsto>
         (blockSize ((new_block sz (blockPtr k))\<lparr>prevBlock := prevBlock k, nextBlock := Some b\<rparr>), \<not> user, user))"
    proof (rule lock_inv [OF S(1) S(3)])
      fix a' e' ids
      assume c: "(a', e', ids) \<in> set ((a, e, xs @ ?n # b # ys) # R)" "?n \<in> set ids" "2 \<le> length ids"
      have "ids = xs @ ?n # b # ys" using chunk_unique(3) [OF S(1) _ c(1,2)] by simp
      then show "\<exists>small. kind small {} ?i ids"
        using kind_lock [OF S(2)] held_block(2) [OF S(1) S(3)] S(3) by (auto simp: new_block_def)
    qed
    then obtain info' where "lock_block user ?n ?i = Inr (blockPtr k, info')"
        "mm_inv sl {} ((a, e, xs @ ?n # b # ys) # R) info'" "view info (blockPtr k) = None"
        "view info' = (view info)(blockPtr k \<mapsto> (sz, \<not> user, user))"
      by (auto simp: new_block_def v)
    then show ?thesis using run ptr rL
      by - (rule exI [of _ "blockPtr k"], rule exI [of _ sz], rule exI [of _ info'],
          rule exI [of _ "(a, e, xs @ ?n # b # ys) # R"], simp)
  next
    case False
    then have run: "split_block sl sz b info = Inr (b, info)"
      using k sz(2) ptr(2) by (auto simp: split_block_def Let_def)
    have "\<exists>info'. lock_block user b info = Inr (blockPtr k, info') \<and> mm_inv sl {} ((a, e, xs @ b # ys) # R) info' \<and>
       view info (blockPtr k) = None \<and> view info' = (view info)(blockPtr k \<mapsto> (blockSize k, \<not> user, user))"
    proof (rule lock_inv [OF f(1) k])
      fix a' e' ids
      assume c: "(a', e', ids) \<in> set ((a, e, xs @ b # ys) # R)" "b \<in> set ids" "2 \<le> length ids"
      have ids: "ids = xs @ b # ys" using chunk_unique(3) [OF f(1) _ c(1,2)] by simp
      then have "blockSize k \<le> kSmallSize \<longleftrightarrow> ?small" using unsplit_fits [OF f(1) k sz(2,3) _ False] c(3) by simp
      then show "\<exists>small. kind small {} info ids"
        using kind_lock [OF r(3) held_block(2) [OF f(1) k]] k ids by auto
    qed
    then obtain info' where "lock_block user b info = Inr (blockPtr k, info')"
        "mm_inv sl {} ((a, e, xs @ b # ys) # R) info'" "view info (blockPtr k) = None"
        "view info' = (view info)(blockPtr k \<mapsto> (blockSize k, \<not> user, user))" by blast
    then show ?thesis using run ptr rL sz(2)
      by - (rule exI [of _ "blockPtr k"], rule exI [of _ "blockSize k"], rule exI [of _ info'],
          rule exI [of _ "(a, e, xs @ b # ys) # R"], simp)
  qed
qed

lemma alloc_device_ok:
  assumes ok: "native_ok di live" and st: "state_ok live sl {} L (info, d)"
    and size: "0 < size0" "size0 + kMinBlockSize + kRoundLarge \<le> SIZE_MOD"
    and run: "alloc_device di rl sl user size0 (info, d) = (r, info', d')"
  shows "\<exists>L'. state_ok live sl {} L' (info', d') \<and>
     (case r of
        Inl e \<Rightarrow> view info' = view info
      | Inr p \<Rightarrow> 0 < p \<and> view info p = None \<and>
          (\<exists>n. size0 \<le> n \<and> view info' = (view info)(p \<mapsto> (n, \<not> user, user))))"
proof -
  let ?sz = "roundSize size0"
  have bound: "size0 + kMinBlockSize \<le> SIZE_MOD" using size(2) by linarith
  note rs = roundSize_bounds [OF bound]
  have sz: "0 < ?sz" "?sz + kRoundLarge \<le> SIZE_MOD" using rs size by (auto simp: size_consts SIZE_MOD_def)
  have inv: "mm_inv sl {} L info" using st by (simp add: state_ok_def)
  obtain r1 info1 d1 where t: "take_block di rl ?sz (info, d) = (r1, info1, d1)" by (metis prod.exhaust)
  obtain M where M: "keeps info info1"
      "case r1 of Inl e \<Rightarrow> state_ok live sl {} M (info1, d1)
       | Inr b \<Rightarrow> state_ok live sl {b} M (info1, d1) \<and> ready (?sz \<le> kSmallSize) b M info1 \<and>
          (\<exists>k. blocks info1 b = Some k \<and> ?sz \<le> blockSize k)"
    using take_block_ok [OF ok st sz(2) t] by blast
  have v: "view info1 = view info" by (rule view_keeps [OF inv M(1)])
  show ?thesis
  proof (cases r1)
    case (Inl e)
    then have "r = Inl e" "info' = info1" "d' = d1" using run t size(1) by (auto simp: alloc_device_def Let_def)
    then show ?thesis using M(2) Inl v by auto
  next
    case (Inr b)
    then obtain k where b: "mm_inv sl {b} M info1" "ready (?sz \<le> kSmallSize) b M info1" "blocks info1 b = Some k"
        "?sz \<le> blockSize k" "ranges M \<subseteq> live d1"
      using M(2) by (auto simp: state_ok_def)
    obtain p n i L' where p: "rbind (split_block sl ?sz b info1) (\<lambda>(b1, info2). lock_block user b1 info2) = Inr (p, i)"
        "mm_inv sl {} L' i" "ranges L' = ranges M" "?sz \<le> n" "0 < p" "view info1 p = None"
        "view i = (view info1)(p \<mapsto> (n, \<not> user, user))"
      using place_ok [OF b(1,3) sz(1) b(4) rs(2) b(2)] by blast
    then have "r = Inr p" "info' = i" "d' = d1" using run t size(1) Inr by (auto simp: alloc_device_def Let_def)
    then show ?thesis using p v b(5) rs(1)
      by (intro exI [of _ L']) (auto simp: state_ok_def intro!: exI [of _ n])
  qed
qed

subsection \<open>Unlocking\<close>

definition spec_unlock :: "addr \<Rightarrow> bool \<Rightarrow> allocView \<Rightarrow> allocView" where
  "spec_unlock p user v =
     (case v p of
        None \<Rightarrow> v
      | Some (n, m, u) \<Rightarrow>
          if m \<and> user \<or> u \<and> \<not> user then v(p \<mapsto> (n, m \<and> user, u \<and> \<not> user)) else v(p := None))"

definition spec_userLock :: "addr \<Rightarrow> allocView \<Rightarrow> allocView" where
  "spec_userLock p v = (case v p of None \<Rightarrow> v | Some (n, m, u) \<Rightarrow> v(p \<mapsto> (n, m, True)))"

lemma view_relock:
  assumes inv: "mm_inv sl H L info" and k: "allocatedBlocks info p = Some b" "blocks info b = Some k" "same_links k k'"
  shows "view (info\<lparr>blocks := (blocks info)(b \<mapsto> k'),
       allocatedBlocks := (allocatedBlocks info)(p := (if inUse k' then Some b else None))\<rparr>) =
     (if inUse k' then (view info)(p \<mapsto> (blockSize k, managerLock k', userLocked k')) else (view info)(p := None))"
proof
  fix q
  have "c \<noteq> b" if "allocatedBlocks info q = Some c" "q \<noteq> p" for c
    using mm_invD(3) [OF inv] that k by (auto simp: inv_alloc_def)
  then show "view (info\<lparr>blocks := (blocks info)(b \<mapsto> k'),
       allocatedBlocks := (allocatedBlocks info)(p := (if inUse k' then Some b else None))\<rparr>) q =
     (if inUse k' then (view info)(p \<mapsto> (blockSize k, managerLock k', userLocked k')) else (view info)(p := None)) q"
    using k(3) by (cases "q = p") (auto simp: view_def payload_def same_links_def split: option.splits)
qed

lemma chunk_kinds:
  assumes "mm_inv sl {} L info" "(a, e, ids) \<in> set L" "2 \<le> length ids"
  shows "\<exists>small. kind small {} info ids"
  using mm_invD(4) [OF assms(1,2)] assms(3) by (simp add: inv_chunk_def)

lemma kind_held:
  assumes inv: "mm_inv sl {} L info" and c: "(a, e, ids) \<in> set L" "2 \<le> length ids" "b \<in> set ids"
    and b: "blocks info b = Some k" "b \<notin> set (pools info)"
  shows "kind (blockSize k \<le> kSmallSize) {b} info ids"
proof -
  obtain small where s: "kind small {} info ids" using chunk_kinds [OF inv c(1,2)] by blast
  have "blockSize k \<le> kSmallSize \<longleftrightarrow> small" using bspec [OF s [unfolded kind_def] c(3)] b by simp
  then show ?thesis using s unfolding kind_def by (auto split: if_splits)
qed

lemma unlock_device_ok:
  assumes st: "state_ok live sl {} L (info, d)" and v: "view info p = Some (n, m, u)"
  shows "\<exists>info' L'. unlock_device di p user (info, d) = Inr (info', d) \<and> state_ok live sl {} L' (info', d) \<and>
     view info' = spec_unlock p user (view info)"
proof -
  have inv: "mm_inv sl {} L info" and own: "ranges L \<subseteq> live d" using st by (simp_all add: state_ok_def)
  obtain b k where b: "allocatedBlocks info p = Some b" "blocks info b = Some k" "inUse k" "blockPtr k = p"
      "blockSize k = n" "managerLock k = m" "userLocked k = u"
    using v view_Some_iff [OF inv] by blast
  have bp: "b \<notin> set (pools info)" using pooled_or_used [OF mm_invD(2) [OF inv] b(2)] b(3) by simp
  let ?k = "if user then k\<lparr>userLocked := False\<rparr> else k\<lparr>managerLock := False\<rparr>"
  let ?i = "info\<lparr>blocks := (blocks info)(b \<mapsto> ?k),
     allocatedBlocks := (allocatedBlocks info)(p := (if inUse ?k then Some b else None))\<rparr>"
  have same: "same_links k ?k" by (simp add: same_links_def)
  have bits: "managerLock ?k = (m \<and> user)" "userLocked ?k = (u \<and> \<not> user)" using b(6,7) by auto
  then have use: "inUse ?k \<longleftrightarrow> m \<and> user \<or> u \<and> \<not> user" by (simp add: inUse_def)
  have vi: "view ?i = spec_unlock p user (view info)"
    unfolding view_relock [OF inv b(1,2) same] using v b(5) bits use by (simp add: spec_unlock_def)
  show ?thesis
  proof (cases "inUse ?k")
    case True
    have "mm_inv sl {} L ?i"
      using relock_inv [OF inv b(2) same bp, of "{}"] True b(4) chunk_kinds [OF inv] by auto
    moreover have "unlock_device di p user (info, d) = Inr (?i, d)"
      using b(1,2) True by (cases info) (simp add: unlock_device_def Let_def fun_upd_idem)
    ultimately show ?thesis using vi own by (intro exI [of _ ?i] exI [of _ L]) (simp add: state_ok_def)
  next
    case False
    have "\<exists>small. kind small {b} info ids" if "(a, e, ids) \<in> set L" "b \<in> set ids" "2 \<le> length ids" for a e ids
      using kind_held [OF inv that(1,3,2) b(2) bp] by blast
    then have inv': "mm_inv sl {b} L ?i"
      using relock_inv [OF inv b(2) same bp, of "{b}"] False b(4) by simp
    have kk: "blocks ?i b = Some ?k" by simp
    have "kind (blockSize ?k \<le> kSmallSize) {b} ?i ids" if "(a, e, ids) \<in> set L" "b \<in> set ids" "2 \<le> length ids" for a e ids
      using kind_held [OF inv that(1,3,2) b(2) bp] b(2) by (auto simp: kind_def split: if_splits)
    then obtain info' L' where f: "freeBlock b ?i = Inr info'" "mm_inv sl {} L' info'" "ranges L' = ranges L" "keeps ?i info'"
      using freeBlock_inv [OF inv' kk] by blast
    have "unlock_device di p user (info, d) = Inr (info', d)"
      using b(1,2) False f(1) by (simp add: unlock_device_def Let_def)
    then show ?thesis using f(2,3) own vi view_keeps [OF inv' f(4)]
      by (intro exI [of _ info'] exI [of _ L']) (simp add: state_ok_def)
  qed
qed

lemma userLock_device_ok:
  assumes st: "state_ok live sl {} L (info, d)" and v: "view info p = Some (n, m, u)"
  shows "\<exists>info'. userLock_device p info = Inr info' \<and> state_ok live sl {} L (info', d) \<and>
     view info' = spec_userLock p (view info)"
proof -
  have inv: "mm_inv sl {} L info" and own: "ranges L \<subseteq> live d" using st by (simp_all add: state_ok_def)
  obtain b k where b: "allocatedBlocks info p = Some b" "blocks info b = Some k" "inUse k" "blockPtr k = p"
      "blockSize k = n" "managerLock k = m" "userLocked k = u"
    using v view_Some_iff [OF inv] by blast
  have bp: "b \<notin> set (pools info)" using pooled_or_used [OF mm_invD(2) [OF inv] b(2)] b(3) by simp
  let ?k = "k\<lparr>userLocked := True\<rparr>"
  let ?i = "info\<lparr>blocks := (blocks info)(b \<mapsto> ?k),
     allocatedBlocks := (allocatedBlocks info)(p := (if inUse ?k then Some b else None))\<rparr>"
  have same: "same_links k ?k" and use: "inUse ?k" by (simp_all add: same_links_def inUse_def)
  have "mm_inv sl {} L ?i"
    using relock_inv [OF inv b(2) same bp, of "{}"] use b(4) chunk_kinds [OF inv] by auto
  moreover have "userLock_device p info = Inr ?i"
    using b(1,2) use by (cases info) (simp add: userLock_device_def fun_upd_idem)
  moreover have "view ?i = spec_userLock p (view info)"
    unfolding view_relock [OF inv b(1,2) same] using v b(5,6) use by (simp add: spec_userLock_def)
  ultimately show ?thesis using own by (intro exI [of _ ?i]) (simp add: state_ok_def)
qed

subsection \<open>The manager as a state machine\<close>

datatype mm_op = Alloc bool nat | Unlock addr bool | UserLock addr | Cleanup

definition view_of :: "int \<Rightarrow> 'd cachingMemoryManager \<Rightarrow> allocView" where
  "view_of dev m = (case deviceMemInfos m dev of None \<Rightarrow> Map.empty | Some info \<Rightarrow> view info)"

text \<open>
  One call on the device \<open>dev\<close>. A client unlocks or locks only pointers it was given, and asks for
  sizes that can be rounded up inside 64 bits.
\<close>

inductive mm_step :: "'d deviceInterface \<Rightarrow> int \<Rightarrow> 'd cachingMemoryManager \<Rightarrow> mm_op \<Rightarrow> 'd cachingMemoryManager \<Rightarrow> bool"
  for di dev where
  step_alloc: "0 < alloc_size es dims \<Longrightarrow> alloc_size es dims + kMinBlockSize + kRoundLarge \<le> SIZE_MOD \<Longrightarrow>
     mm_step di dev m (Alloc user (alloc_size es dims)) (snd (alloc di dev user dims es m))"
| step_unlock: "view_of dev m p \<noteq> None \<Longrightarrow> unlock di dev p user m = Inr m' \<Longrightarrow> mm_step di dev m (Unlock p user) m'"
| step_userLock: "view_of dev m p \<noteq> None \<Longrightarrow> userLock dev p m = Inr m' \<Longrightarrow> mm_step di dev m (UserLock p) m'"
| step_cleanup: "signalMemoryCleanup di dev m = Inr m' \<Longrightarrow> mm_step di dev m Cleanup m'"

inductive mm_reach :: "'d deviceInterface \<Rightarrow> int \<Rightarrow> 'd cachingMemoryManager \<Rightarrow> 'd cachingMemoryManager \<Rightarrow> bool"
  for di dev m0 where
  reach_init: "mm_reach di dev m0 m0"
| reach_step: "mm_reach di dev m0 m \<Longrightarrow> mm_step di dev m oper m' \<Longrightarrow> mm_reach di dev m0 m'"

text \<open>The specification: a partial map from pointers to sizes and lock bits.\<close>

inductive spec_step :: "allocView \<Rightarrow> mm_op \<Rightarrow> allocView \<Rightarrow> bool" where
  spec_alloc: "v p = None \<Longrightarrow> 0 < p \<Longrightarrow> sz \<le> n \<Longrightarrow> spec_step v (Alloc user sz) (v(p \<mapsto> (n, \<not> user, user)))"
| spec_alloc_fails: "spec_step v (Alloc user sz) v"
| spec_unlock: "v p \<noteq> None \<Longrightarrow> spec_step v (Unlock p user) (spec_unlock p user v)"
| spec_userLock: "v p \<noteq> None \<Longrightarrow> spec_step v (UserLock p) (spec_userLock p v)"
| spec_cleanup: "spec_step v Cleanup v"

definition mgr_ok :: "('d \<Rightarrow> (addr \<times> addr) set) \<Rightarrow> int \<Rightarrow> 'd cachingMemoryManager \<Rightarrow> bool" where
  "mgr_ok live dev m \<longleftrightarrow>
     (\<exists>info L. deviceMemInfos m dev = Some info \<and> state_ok live (splitSizeLimit m) {} L (info, native m))"

lemma mgr_ok_set_device:
  "state_ok live (splitSizeLimit m) {} L st \<Longrightarrow> mgr_ok live dev (set_device dev st m)"
  by (cases st) (auto simp: mgr_ok_def set_device_def)

lemma view_of_set_device [simp]: "view_of dev (set_device dev st m) = view (fst st)"
  by (simp add: view_of_def set_device_def)

lemma mgr_okE:
  assumes "mgr_ok live dev m"
  obtains info L where "deviceMemInfos m dev = Some info" "state_ok live (splitSizeLimit m) {} L (info, native m)"
    "getDeviceMemoryInfo dev m = Inr info" "view_of dev m = view info"
  using assms by (auto simp: mgr_ok_def getDeviceMemoryInfo_def view_of_def)

lemma view_null: "state_ok live sl {} L (info, d) \<Longrightarrow> view info 0 = None"
  using inv_heap_block(2) [OF mm_invD(1)] by (cases "view info 0") (fastforce simp: state_ok_def view_Some_iff)+

lemma alloc_ok:
  assumes ok: "native_ok di live" and m: "mgr_ok live dev m"
    and size: "0 < alloc_size es dims" "alloc_size es dims + kMinBlockSize + kRoundLarge \<le> SIZE_MOD"
    and run: "alloc di dev user dims es m = (r, m')"
  shows "mgr_ok live dev m' \<and>
     (case r of
        Inl e \<Rightarrow> view_of dev m' = view_of dev m
      | Inr p \<Rightarrow> 0 < p \<and> view_of dev m p = None \<and>
          (\<exists>n. alloc_size es dims \<le> n \<and> view_of dev m' = (view_of dev m)(p \<mapsto> (n, \<not> user, user))))"
proof -
  obtain info L where i: "deviceMemInfos m dev = Some info" "state_ok live (splitSizeLimit m) {} L (info, native m)"
      "getDeviceMemoryInfo dev m = Inr info" "view_of dev m = view info" using mgr_okE [OF m] .
  obtain r0 info' d' where a: "alloc_device di (recyclingSizeLimit m) (splitSizeLimit m) user (alloc_size es dims)
      (info, native m) = (r0, info', d')" by (metis prod.exhaust)
  then have rr: "r = r0" "m' = set_device dev (info', d') m" using run i(3) by (simp_all add: alloc_def)
  show ?thesis
    using alloc_device_ok [OF ok i(2) size a] mgr_ok_set_device [of live m _ "(info', d')" dev] i(4)
    by (auto simp: rr split: sum.splits)
qed

lemma unlock_ok:
  assumes m: "mgr_ok live dev m" and v: "view_of dev m p \<noteq> None"
  shows "\<exists>m'. unlock di dev p user m = Inr m' \<and> mgr_ok live dev m' \<and> view_of dev m' = spec_unlock p user (view_of dev m)"
proof -
  obtain info L where i: "deviceMemInfos m dev = Some info" "state_ok live (splitSizeLimit m) {} L (info, native m)"
      "getDeviceMemoryInfo dev m = Inr info" "view_of dev m = view info" using mgr_okE [OF m] .
  obtain n l u where "view info p = Some (n, l, u)" using v i(4) by auto
  then obtain info' L' where u: "unlock_device di p user (info, native m) = Inr (info', native m)"
      "state_ok live (splitSizeLimit m) {} L' (info', native m)" "view info' = spec_unlock p user (view info)"
    using unlock_device_ok [OF i(2)] by blast
  have "p \<noteq> 0" using v i(4) view_null [OF i(2)] by metis
  then show ?thesis using u i(3,4) mgr_ok_set_device [OF u(2)]
    by (intro exI [of _ "set_device dev (info', native m) m"]) (simp add: unlock_def)
qed

lemma userLock_ok:
  assumes m: "mgr_ok live dev m" and v: "view_of dev m p \<noteq> None"
  shows "\<exists>m'. userLock dev p m = Inr m' \<and> mgr_ok live dev m' \<and> view_of dev m' = spec_userLock p (view_of dev m)"
proof -
  obtain info L where i: "deviceMemInfos m dev = Some info" "state_ok live (splitSizeLimit m) {} L (info, native m)"
      "getDeviceMemoryInfo dev m = Inr info" "view_of dev m = view info" using mgr_okE [OF m] .
  obtain n l u where "view info p = Some (n, l, u)" using v i(4) by auto
  then obtain info' where u: "userLock_device p info = Inr info'"
      "state_ok live (splitSizeLimit m) {} L (info', native m)" "view info' = spec_userLock p (view info)"
    using userLock_device_ok [OF i(2)] by blast
  have "p \<noteq> 0" using v i(4) view_null [OF i(2)] by metis
  then show ?thesis using u i(3,4) mgr_ok_set_device [OF u(2)]
    by (intro exI [of _ "set_device dev (info', native m) m"]) (simp add: userLock_def)
qed

lemma cleanup_ok:
  assumes ok: "native_ok di live" and m: "mgr_ok live dev m"
  shows "\<exists>m'. signalMemoryCleanup di dev m = Inr m' \<and> mgr_ok live dev m' \<and> view_of dev m' = view_of dev m"
proof -
  obtain info L where i: "deviceMemInfos m dev = Some info" "state_ok live (splitSizeLimit m) {} L (info, native m)"
      "getDeviceMemoryInfo dev m = Inr info" "view_of dev m = view info" using mgr_okE [OF m] .
  obtain info' d' L' where c: "cleanup_device di (info, native m) = Inr (info', d')"
      "state_ok live (splitSizeLimit m) {} L' (info', d')" "keeps info info'"
    using cleanup_inv [OF ok i(2)] by blast
  have "view info' = view info" using view_keeps [OF _ c(3)] i(2) by (auto simp: state_ok_def)
  then show ?thesis using c i(3,4) mgr_ok_set_device [OF c(2)]
    by (intro exI [of _ "set_device dev (info', d') m"]) (simp add: signalMemoryCleanup_def)
qed

lemma step_ok:
  assumes ok: "native_ok di live" and m: "mgr_ok live dev m" and s: "mm_step di dev m oper m'"
  shows "mgr_ok live dev m'" "spec_step (view_of dev m) oper (view_of dev m')"
proof -
  have "mgr_ok live dev m' \<and> spec_step (view_of dev m) oper (view_of dev m')"
    using s
  proof (cases rule: mm_step.cases)
    case (step_alloc es dims user)
    obtain r m1 where a: "alloc di dev user dims es m = (r, m1)" by force
    show ?thesis using alloc_ok [OF ok m step_alloc(3,4) a] a step_alloc(1,2)
      by (cases r) (auto intro: spec_step.intros)
  next
    case (step_unlock p user)
    then show ?thesis using unlock_ok [OF m step_unlock(2), of di user] by (auto intro: spec_step.intros)
  next
    case (step_userLock p)
    then show ?thesis using userLock_ok [OF m step_userLock(2)] by (auto intro: spec_step.intros)
  next
    case step_cleanup
    then show ?thesis using cleanup_ok [OF ok m] by (auto intro: spec_step.intros)
  qed
  then show "mgr_ok live dev m'" "spec_step (view_of dev m) oper (view_of dev m')" by simp_all
qed

lemma reach_ok:
  assumes "native_ok di live" "mm_reach di dev m0 m" "mgr_ok live dev m0"
  shows "mgr_ok live dev m"
  using assms(2,3) by (induction rule: mm_reach.induct) (auto intro: step_ok(1) [OF assms(1)])

lemma new_mgr_ok:
  assumes "0 \<le> dev" "dev < int n"
  shows "mgr_ok live dev (new_CachingMemoryManager rl sl n d)"
proof -
  have "state_ok live sl {} [] (new_DeviceMemoryInfo dev, d)"
    by (simp add: state_ok_def mm_inv_def inv_heap_def inv_pools_def inv_alloc_def inv_stats_def all_ids_def
        all_apart_def pools_def pool_sorted_def new_DeviceMemoryInfo_def)
  then show ?thesis using assms by (auto simp: mgr_ok_def new_CachingMemoryManager_def)
qed

subsection \<open>A concrete device\<close>

text \<open>A device that hands out increasing addresses until it runs out of them.\<close>

type_synonym bumpDevice = "addr \<times> (addr \<times> addr) list"

definition bump_live :: "bumpDevice \<Rightarrow> (addr \<times> addr) set" where
  "bump_live d = {r \<in> set (snd d). snd r \<le> fst d}"

definition bump :: "bumpDevice deviceInterface" where
  "bump = \<lparr>nativeAlloc = (\<lambda>n d. if 0 < fst d \<and> fst d + n < SIZE_MOD
             then (Inr (fst d), (fst d + n, (fst d, fst d + n) # filter (\<lambda>r. snd r \<le> fst d) (snd d)))
             else (Inl (Runtime_error ''out of memory''), d)),
           nativeFree = (\<lambda>p d. (fst d, filter (\<lambda>r. fst r \<noteq> p) (snd d)))\<rparr>"

lemma bump_ok: "native_ok bump bump_live"
  by (auto simp: native_ok_def bump_def bump_live_def split: if_splits)

definition start :: "bumpDevice cachingMemoryManager" where
  "start = new_CachingMemoryManager SIZE_MAX SIZE_MAX 1 (4096, [])"

lemma start_ok: "mgr_ok bump_live 0 start"
  unfolding start_def by (rule new_mgr_ok) simp_all

lemmas run_defs = alloc_def alloc_device_def take_block_def split_block_def lock_block_def mallocWithRetry_def
  lower_bound_def pool_view_def pool_insert_def pool_erase_def unlock_def unlock_device_def freeBlock_def tryMergeBlocks_def
  userLock_def userLock_device_def userUnlock_def setSplitSizeLimit_def allocated_def allocated_device_def
  getDeviceMemoryInfo_def set_device_def alloc_size_def roundSize_def getAllocationSize_def size_consts
  new_block_def inUse_def isSplit_def BlockComparator_def equivalent_def deref_def modify_def modify_opt_def
  pool_of_def set_pool_def add_cached_def add_allocated_def count_malloc_def count_free_def Let_def
  new_CachingMemoryManager_def new_DeviceMemoryInfo_def bump_def start_def SIZE_MAX_def

lemmas run_sizes = sz_add_def sz_sub_def sz_mul_def SIZE_MOD_def

subsection \<open>Properties\<close>

text \<open>
  C1. Memory safety of every reachable state of a device, for any native allocator that keeps its
  contract and any sequence of allocations (of sizes that can be rounded up below \<open>2 ^ 64\<close>), unlocks and user locks of
  live pointers, and cleanups, with the split limit left alone: the blocks of two live
  pointers never overlap, every live block lies inside a range the device has handed out and not
  taken back, no pool and no table entry dangles, and the counter of cached bytes is the sum of the
  sizes of the cached blocks.
\<close>

theorem memory_reachable_safe:
  assumes "native_ok di live" "0 \<le> dev" "dev < int n"
    and "mm_reach di dev (new_CachingMemoryManager recyclingLimit splitLimit n d) m"
  shows "\<exists>info. deviceMemInfos m dev = Some info \<and>
     no_overlap (view_of dev m) \<and>
     (\<forall>p z l. view_of dev m p = Some (z, l) \<longrightarrow> (\<exists>a e. (a, e) \<in> live (native m) \<and> a \<le> p \<and> p + z \<le> e)) \<and>
     set (smallBlocks info @ largeBlocks info) \<union> ran (allocatedBlocks info) = dom (blocks info) \<and>
     cachedBytes (stats info) =
       of_nat (sum_list (map (\<lambda>b. blockSize (the (blocks info b))) (smallBlocks info @ largeBlocks info)))"
proof -
  have "mgr_ok live dev m" using reach_ok [OF assms(1,4) new_mgr_ok [OF assms(2,3)]] .
  then obtain info L where i: "deviceMemInfos m dev = Some info"
      "state_ok live (splitSizeLimit m) {} L (info, native m)" "view_of dev m = view info"
    using mgr_okE by blast
  then have inv: "mm_inv (splitSizeLimit m) {} L info" and own: "ranges L \<subseteq> live (native m)"
    by (simp_all add: state_ok_def)
  have inside: "\<exists>a e. (a, e) \<in> live (native m) \<and> a \<le> p \<and> p + z \<le> e" if v: "view info p = Some (z, l)" for p z l
  proof -
    obtain b k where b: "blocks info b = Some k" "blockPtr k = p" "blockSize k = z"
      using v view_Some_iff [OF inv] by (metis prod.exhaust)
    obtain a e xs ys R where f: "mm_inv (splitSizeLimit m) {} ((a, e, xs @ b # ys) # R) info"
        "mset L = mset ((a, e, xs @ b # ys) # R)"
      using focus_block [OF inv, of b] b(1) by blast
    have "(a, e) \<in> ranges L" using ranges_perm [OF f(2)] by simp
    moreover have "a \<le> p" "p + z \<le> e" using seg_bounds [OF inv_heap_ConsD(1) [OF mm_invD(1) [OF f(1)]]] b by auto
    ultimately show ?thesis using own by blast
  qed
  have "set (pools info) \<union> ran (allocatedBlocks info) = dom (blocks info)"
  proof -
    have "x \<in> ran (allocatedBlocks info)" if x: "x \<in> dom (blocks info)" "x \<notin> set (pools info)" for x
    proof -
      obtain k where k: "blocks info x = Some k" using x(1) by blast
      then have "inUse k" using pooled_or_used [OF mm_invD(2) [OF inv] k] x(2) by simp
      then show ?thesis using mm_invD(3) [OF inv] k by (auto simp: inv_alloc_def ran_def)
    qed
    moreover have "ran (allocatedBlocks info) \<subseteq> dom (blocks info)"
      using mm_invD(3) [OF inv] by (auto simp: inv_alloc_def ran_def)
    ultimately show ?thesis using inv_poolsD(2) [OF mm_invD(2) [OF inv]] by blast
  qed
  then show ?thesis
    using i(1,3) mm_inv_no_overlap [OF inv] inside mm_invD(5) [OF inv] by (auto simp: inv_stats_def pools_def)
qed

theorem memory_reachable_safe_witness:
  "\<exists>m. mm_reach bump 0 (new_CachingMemoryManager SIZE_MAX SIZE_MAX 1 (4096, [])) m \<and>
     view_of 0 m 4096 = Some (512, True, False) \<and> no_overlap (view_of 0 m)"
proof -
  let ?m = "snd (alloc bump 0 False [100] 4 start)"
  have sz: "alloc_size 4 [100] = 400" by (simp add: alloc_size_def run_sizes)
  have "mm_step bump 0 start (Alloc False (alloc_size 4 [100])) ?m"
    by (rule step_alloc) (simp_all add: sz size_consts SIZE_MOD_def)
  then have r: "mm_reach bump 0 (new_CachingMemoryManager SIZE_MAX SIZE_MAX 1 (4096, [])) ?m"
    unfolding start_def by (rule reach_step [OF reach_init])
  have "view_of 0 ?m 4096 = Some (512, True, False)"
    by (simp add: view_of_def view_def payload_def run_defs run_sizes)
  then show ?thesis using r memory_reachable_safe [OF bump_ok _ _ r] by auto
qed



text \<open>
  C9. No call on a live pointer fails: from any state that satisfies the invariant, unlocking (by the
  manager or the user) and locking a live pointer, and cleaning up, return normally. So
  \<^verbatim>\<open>trying to free a block which is in use\<close> is never thrown and no dangling block is followed.
\<close>

theorem memory_calls_succeed:
  assumes "native_ok di live" "mgr_ok live dev m" "view_of dev m p \<noteq> None"
  shows "(\<exists>m'. unlock di dev p user m = Inr m') \<and> (\<exists>m'. userLock dev p m = Inr m') \<and>
     (\<exists>m'. signalMemoryCleanup di dev m = Inr m')"
  using unlock_ok [OF assms(2,3)] userLock_ok [OF assms(2,3)] cleanup_ok [OF assms(1,2)] by blast

theorem memory_calls_succeed_witness:
  "\<exists>m'. unlock bump 0 4096 False (snd (alloc bump 0 False [100] 4 start)) = Inr m'"
proof -
  let ?m = "snd (alloc bump 0 False [100] 4 start)"
  have sz: "alloc_size 4 [100] = 400" by (simp add: alloc_size_def run_sizes)
  have "mgr_ok bump_live 0 ?m"
    using alloc_ok [OF bump_ok start_ok, of 4 "[100]" False _ ?m] sz by (simp add: prod_eq_iff size_consts SIZE_MOD_def)
  moreover have "view_of 0 ?m 4096 \<noteq> None"
    by (simp add: view_of_def view_def payload_def run_defs run_sizes)
  ultimately show ?thesis using memory_calls_succeed [OF bump_ok, of 0 ?m 4096 False] by blast
qed

text \<open>
  A request near \<open>2 ^ 64\<close> bytes is not refused: rounding up wraps around to 0, and the caller gets a
  pointer to a block of 0 bytes.
\<close>

theorem alloc_size_overflow:
  "alloc_size 1 [-1] = 2 ^ 64 - 1 \<and> roundSize (2 ^ 64 - 1) = 0 \<and>
   (\<exists>m. alloc bump 0 False [-1] 1 start = (Inr 4096, m) \<and> allocated 0 4096 m = Inr 0)"
  by (simp add: run_defs run_sizes)

text \<open>
  Lowering the split limit while blocks are split breaks the manager: the second allocation keeps
  the whole remainder of a small chunk, its release puts it into the pool of large blocks, and the
  release of its neighbour deletes it without taking it out of that pool. The next cleanup follows a
  dangling pointer.
\<close>

theorem split_limit_dangling:
  "\<exists>m1 m2 m3 m4 info.
     alloc bump 0 False [100] 4 start = (Inr 4096, m1) \<and>
     alloc bump 0 False [100] 4 (setSplitSizeLimit 1048576 m1) = (Inr 4608, m2) \<and>
     unlock bump 0 4608 False m2 = Inr m3 \<and> unlock bump 0 4096 False m3 = Inr m4 \<and>
     deviceMemInfos m4 0 = Some info \<and> largeBlocks info = [0] \<and> blocks info 0 = None \<and>
     signalMemoryCleanup bump 0 m4 = Inl (Undefined ''dangling block pointer'')"
  by (simp add: run_defs run_sizes signalMemoryCleanup_def cleanup_device_def)

text \<open>
  Locking a pointer the manager does not know registers a block of 2 MiB for it, and unlocking it
  moves that block into the cache: a later allocation of 1.5 MiB is served from memory of unknown size
  that the device never handed out, and more bytes are cached than were ever allocated.
\<close>

theorem foreign_pointer_reused:
  "\<exists>m1 m2 info m3.
     userLock 0 5000 start = Inr m1 \<and> userUnlock bump 0 5000 m1 = Inr m2 \<and>
     deviceMemInfos m2 0 = Some info \<and> allocatedBytes (stats info) = 0 \<and> cachedBytes (stats info) = 2097152 \<and>
     alloc bump 0 False [1572864] 1 m2 = (Inr 5000, m3) \<and> native m3 = native start"
  by (simp add: run_defs run_sizes)

end
