(* ===== verification/DefaultMemoryManager.thy ===== *)
theory DefaultMemoryManager
  imports Prelude "HOL-Library.Word" "HOL-Library.AList"
begin

section \<open>The default memory manager (\<^verbatim>\<open>fl/memory/managers/DefaultMemoryManager.{h,cpp}\<close>)\<close>

text \<open>
  The manager keeps a table of locked pointers and a cache of free pointers by size. A call that may
  throw after it has changed the state returns both the exception and the state it leaves. \<open>dev\<close> is
  the active device; the native device interface is a parameter.
\<close>

type_synonym addr = nat

record lockedInfo =
  managerLock :: bool
  userLocked :: bool
  bytes :: nat

record memoryInfo =
  lockedMap :: "addr \<rightharpoonup> lockedInfo"
  freeMap :: "(nat \<times> addr list) list"
  lockBytes :: "64 word"
  lockBuffers :: "64 word"
  totalBytes :: "64 word"
  totalBuffers :: "64 word"
  maxBytes :: "64 word"

definition ONE_GB :: nat where "ONE_GB = 1073741824"

definition new_MemoryInfo :: memoryInfo where
  "new_MemoryInfo = \<lparr>lockedMap = Map.empty, freeMap = [], lockBytes = 0, lockBuffers = 0,
     totalBytes = 0, totalBuffers = 0, maxBytes = of_nat ONE_GB\<rparr>"

record 'd nativeInterface =
  nativeAlloc :: "nat \<Rightarrow> 'd \<Rightarrow> addr result \<times> 'd"
  nativeFree :: "addr \<Rightarrow> 'd \<Rightarrow> 'd"

record 'd defaultMemoryManager =
  memStepSize :: nat
  maxBuffers :: "64 word"
  debugMode :: bool
  memory :: "memoryInfo list"
  native :: 'd

text \<open>The constructor; \<open>memDebug\<close> and \<open>maxBufs\<close> are the environment variables, when they are set.\<close>

definition new_DefaultMemoryManager ::
  "nat \<Rightarrow> 64 word \<Rightarrow> bool \<Rightarrow> string option \<Rightarrow> int option \<Rightarrow> 'd \<Rightarrow> 'd defaultMemoryManager" where
  "new_DefaultMemoryManager numDevices mb debug memDebug maxBufs d =
     (let dbg = (case memDebug of None \<Rightarrow> debug | Some c \<Rightarrow> c \<noteq> ''0'') in
      \<lparr>memStepSize = (if dbg then 1 else 1024),
       maxBuffers = (case maxBufs of None \<Rightarrow> mb | Some n \<Rightarrow> of_int (max 1 n)),
       debugMode = dbg, memory = replicate numDevices new_MemoryInfo, native = d\<rparr>)"

definition getCurrentMemoryInfo :: "nat \<Rightarrow> 'd defaultMemoryManager \<Rightarrow> memoryInfo result" where
  "getCurrentMemoryInfo dev m =
     (if dev < length (memory m) then Inr (memory m ! dev) else Inl (Undefined ''index out of range''))"

definition set_info :: "nat \<Rightarrow> memoryInfo \<Rightarrow> 'd defaultMemoryManager \<Rightarrow> 'd defaultMemoryManager" where
  "set_info dev info m = m\<lparr>memory := (memory m)[dev := info]\<rparr>"

subsection \<open>Garbage collection\<close>

fun drain :: "(nat \<times> addr list) list \<Rightarrow> addr list \<times> memoryInfo \<Rightarrow> addr list \<times> memoryInfo" where
  "drain [] s = s"
| "drain ((sz, ptrs) # kvs) (freePtrs, info) =
     drain kvs (freePtrs @ ptrs,
       info\<lparr>totalBytes := totalBytes info - of_nat (length ptrs * sz),
            totalBuffers := totalBuffers info - of_nat (length ptrs)\<rparr>)"

definition cleanDeviceMemoryManager ::
  "'d nativeInterface \<Rightarrow> nat \<Rightarrow> 'd defaultMemoryManager \<Rightarrow> 'd defaultMemoryManager result" where
  "cleanDeviceMemoryManager di dev m =
     (if debugMode m then Inr m
      else rbind (getCurrentMemoryInfo dev m) (\<lambda>current.
        if totalBuffers current = lockBuffers current then Inr m
        else
          let (freePtrs, info) = drain (freeMap current) ([], current) in
          Inr ((set_info dev (info\<lparr>freeMap := []\<rparr>) m)\<lparr>native := fold (nativeFree di) freePtrs (native m)\<rparr>)))"

definition signalMemoryCleanup ::
  "'d nativeInterface \<Rightarrow> nat \<Rightarrow> 'd defaultMemoryManager \<Rightarrow> 'd defaultMemoryManager result" where
  "signalMemoryCleanup di dev m = cleanDeviceMemoryManager di dev m"

definition shutdown :: "'d nativeInterface \<Rightarrow> nat \<Rightarrow> 'd defaultMemoryManager \<Rightarrow> 'd defaultMemoryManager result" where
  "shutdown di dev m = signalMemoryCleanup di dev m"

text \<open>\<^verbatim>\<open>memory.resize(memory.size() + device + 1)\<close>, computed in \<^verbatim>\<open>size_t\<close>.\<close>

definition addMemoryManagement :: "int \<Rightarrow> 'd defaultMemoryManager \<Rightarrow> 'd defaultMemoryManager result" where
  "addMemoryManagement device m =
     (let len = int (length (memory m)) in
      if size_of_int device < len then Inr m
      else
        let n = size_of_int (len + device + 1) in
        if n \<le> len then Inr (m\<lparr>memory := take (nat n) (memory m)\<rparr>)
        else if 2 ^ 63 \<le> n then Inl (Length_error ''vector'')
        else Inr (m\<lparr>memory := memory m @ replicate (nat (n - len)) new_MemoryInfo\<rparr>))"

definition removeMemoryManagement ::
  "'d nativeInterface \<Rightarrow> int \<Rightarrow> 'd defaultMemoryManager \<Rightarrow> 'd defaultMemoryManager result" where
  "removeMemoryManagement di device m =
     (if int (length (memory m)) \<le> size_of_int device then Inl (Runtime_error ''No matching device found'')
      else cleanDeviceMemoryManager di (nat device) m)"

subsection \<open>Allocation\<close>

definition divup :: "nat \<Rightarrow> nat \<Rightarrow> nat" where
  "divup a b = sz_sub (sz_add a b) 1 div b"

definition alloc_bytes :: "nat \<Rightarrow> int list \<Rightarrow> nat" where
  "alloc_bytes elementSize dims = foldl (\<lambda>s d. sz_mul s (nat (d mod 2 ^ 64))) elementSize dims"

definition checkMemoryLimit :: "memoryInfo \<Rightarrow> 'd defaultMemoryManager \<Rightarrow> bool" where
  "checkMemoryLimit current m \<longleftrightarrow> maxBytes current \<le> lockBytes current \<or> maxBuffers m \<le> totalBuffers current"

definition lock_ptr :: "addr \<Rightarrow> lockedInfo \<Rightarrow> memoryInfo \<Rightarrow> memoryInfo" where
  "lock_ptr p li current =
     current\<lparr>lockedMap := (lockedMap current)(p \<mapsto> li), lockBytes := lockBytes current + of_nat (bytes li),
             lockBuffers := lockBuffers current + 1\<rparr>"

text \<open>The cached part: collect garbage when a limit is reached, then look for a free buffer of this size.\<close>

definition alloc_cached ::
  "'d nativeInterface \<Rightarrow> nat \<Rightarrow> lockedInfo \<Rightarrow> 'd defaultMemoryManager \<Rightarrow> (addr \<times> 'd defaultMemoryManager) result" where
  "alloc_cached di dev li m =
     rbind (getCurrentMemoryInfo dev m) (\<lambda>current.
     rbind (if checkMemoryLimit current m then signalMemoryCleanup di dev m else Inr m) (\<lambda>m1.
     rbind (getCurrentMemoryInfo dev m1) (\<lambda>cur1.
       case map_of (freeMap cur1) (bytes li) of
         None \<Rightarrow> Inr (0, m1)
       | Some ptrs \<Rightarrow>
           if ptrs = [] then Inr (0, m1)
           else Inr (last ptrs,
             set_info dev (lock_ptr (last ptrs) li
               (cur1\<lparr>freeMap := AList.update (bytes li) (butlast ptrs) (freeMap cur1)\<rparr>)) m1))))"

definition alloc_native ::
  "'d nativeInterface \<Rightarrow> nat \<Rightarrow> lockedInfo \<Rightarrow> 'd defaultMemoryManager \<Rightarrow> addr result \<times> 'd defaultMemoryManager" where
  "alloc_native di dev li m =
     (let attempt = (\<lambda>m. let (r, d) = nativeAlloc di (bytes li) (native m) in (r, m\<lparr>native := d\<rparr>));
          record_ptr = (\<lambda>p m.
            case getCurrentMemoryInfo dev m of
              Inl e \<Rightarrow> (Inl e, m)
            | Inr cur \<Rightarrow> (Inr p, set_info dev (lock_ptr p li
                 (cur\<lparr>totalBytes := totalBytes cur + of_nat (bytes li), totalBuffers := totalBuffers cur + 1\<rparr>)) m))
      in case attempt m of
           (Inr p, m1) \<Rightarrow> record_ptr p m1
         | (Inl e, m1) \<Rightarrow>
             (case signalMemoryCleanup di dev m1 of
                Inl e' \<Rightarrow> (Inl e', m1)
              | Inr m2 \<Rightarrow>
                  (case attempt m2 of (Inr p, m3) \<Rightarrow> record_ptr p m3 | (Inl e', m3) \<Rightarrow> (Inl e', m3))))"

definition alloc ::
  "'d nativeInterface \<Rightarrow> nat \<Rightarrow> bool \<Rightarrow> int list \<Rightarrow> nat \<Rightarrow> 'd defaultMemoryManager \<Rightarrow>
     addr result \<times> 'd defaultMemoryManager" where
  "alloc di dev user dims elementSize m =
     (let n = alloc_bytes elementSize dims in
      if \<not> debugMode m \<and> memStepSize m = 0 then (Inl (Undefined ''division by zero''), m)
      else
        let allocBytes = (if debugMode m then n else sz_mul (divup n (memStepSize m)) (memStepSize m));
            li = \<lparr>managerLock = \<not> user, userLocked = user, bytes = allocBytes\<rparr>
        in
        if n = 0 then (Inr 0, m)
        else
          case (if debugMode m then Inr (0, m) else alloc_cached di dev li m) of
            Inl e \<Rightarrow> (Inl e, m)
          | Inr (p, m1) \<Rightarrow> if p \<noteq> 0 then (Inr p, m1) else alloc_native di dev li m1)"

definition allocated :: "nat \<Rightarrow> addr \<Rightarrow> 'd defaultMemoryManager \<Rightarrow> nat result" where
  "allocated dev p m =
     (if p = 0 then Inr 0
      else rbind (getCurrentMemoryInfo dev m) (\<lambda>cur.
        Inr (case lockedMap cur p of None \<Rightarrow> 0 | Some li \<Rightarrow> bytes li)))"

subsection \<open>Locks\<close>

text \<open>
  \<^verbatim>\<open>unlock\<close>. \<^verbatim>\<open>freeMap.at(bytes)\<close> throws \<^verbatim>\<open>std::out_of_range\<close> when the cache has no entry for this size; at that
  point the counters have been decremented and the pointer is still in the table.
\<close>

definition unlock ::
  "'d nativeInterface \<Rightarrow> nat \<Rightarrow> addr \<Rightarrow> bool \<Rightarrow> 'd defaultMemoryManager \<Rightarrow> unit result \<times> 'd defaultMemoryManager" where
  "unlock di dev p user m =
     (if p = 0 then (Inr (), m)
      else
        case getCurrentMemoryInfo dev m of
          Inl e \<Rightarrow> (Inl e, m)
        | Inr cur \<Rightarrow>
            (case lockedMap cur p of
               None \<Rightarrow> (Inr (), m\<lparr>native := nativeFree di p (native m)\<rparr>)
             | Some li0 \<Rightarrow>
                 let li = (if user then li0\<lparr>userLocked := False\<rparr> else li0\<lparr>managerLock := False\<rparr>);
                     cur1 = cur\<lparr>lockedMap := (lockedMap cur)(p \<mapsto> li)\<rparr>
                 in
                 if userLocked li \<or> managerLock li then (Inr (), set_info dev cur1 m)
                 else
                   let cur2 = cur1\<lparr>lockBytes := lockBytes cur1 - of_nat (bytes li), lockBuffers := lockBuffers cur1 - 1\<rparr>
                   in
                   if debugMode m
                   then
                     (if 0 < bytes li
                      then (Inr (),
                        (set_info dev (cur2\<lparr>totalBuffers := totalBuffers cur2 - 1,
                           totalBytes := totalBytes cur2 - of_nat (bytes li),
                           lockedMap := (lockedMap cur2)(p := None)\<rparr>) m)\<lparr>native := nativeFree di p (native m)\<rparr>)
                      else (Inr (), set_info dev (cur2\<lparr>lockedMap := (lockedMap cur2)(p := None)\<rparr>) m))
                   else
                     (case map_of (freeMap cur2) (bytes li) of
                        None \<Rightarrow> (Inl (Out_of_range ''at''), set_info dev cur2 m)
                      | Some ptrs \<Rightarrow>
                          (Inr (), set_info dev (cur2\<lparr>freeMap := AList.update (bytes li) (ptrs @ [p]) (freeMap cur2),
                             lockedMap := (lockedMap cur2)(p := None)\<rparr>) m))))"

definition userLock :: "nat \<Rightarrow> addr \<Rightarrow> 'd defaultMemoryManager \<Rightarrow> 'd defaultMemoryManager result" where
  "userLock dev p m =
     rbind (getCurrentMemoryInfo dev m) (\<lambda>cur.
       let li = (case lockedMap cur p of
                   Some li \<Rightarrow> li\<lparr>userLocked := True\<rparr>
                 | None \<Rightarrow> \<lparr>managerLock = False, userLocked = True, bytes = 100\<rparr>)
       in Inr (set_info dev (cur\<lparr>lockedMap := (lockedMap cur)(p \<mapsto> li)\<rparr>) m))"

definition userUnlock ::
  "'d nativeInterface \<Rightarrow> nat \<Rightarrow> addr \<Rightarrow> 'd defaultMemoryManager \<Rightarrow> unit result \<times> 'd defaultMemoryManager" where
  "userUnlock di dev p m = unlock di dev p True m"

definition isUserLocked :: "nat \<Rightarrow> addr \<Rightarrow> 'd defaultMemoryManager \<Rightarrow> bool result" where
  "isUserLocked dev p m =
     rbind (getCurrentMemoryInfo dev m) (\<lambda>cur.
       Inr (case lockedMap cur p of Some li \<Rightarrow> userLocked li | None \<Rightarrow> False))"

text \<open>The pressure is 1.0 or 0.0; here a truth value.\<close>

definition getMemoryPressure :: "nat \<Rightarrow> 'd defaultMemoryManager \<Rightarrow> bool result" where
  "getMemoryPressure dev m =
     rbind (getCurrentMemoryInfo dev m) (\<lambda>cur.
       Inr (maxBytes cur < lockBytes cur \<or> maxBuffers m < lockBuffers cur))"

definition jitTreeExceedsMemoryPressure :: "nat \<Rightarrow> 64 word \<Rightarrow> 'd defaultMemoryManager \<Rightarrow> bool result" where
  "jitTreeExceedsMemoryPressure dev n m =
     rbind (getCurrentMemoryInfo dev m) (\<lambda>cur. Inr (lockBytes cur < 2 * n))"

definition setMemStepSize :: "nat \<Rightarrow> 'd defaultMemoryManager \<Rightarrow> 'd defaultMemoryManager" where
  "setMemStepSize n m = m\<lparr>memStepSize := n\<rparr>"

subsection \<open>Nothing ever enters the cache\<close>

datatype dm_op = DAlloc nat bool "int list" nat | DUnlock nat addr bool | DUserLock nat addr | DCleanup nat
  | DAdd int | DRemove int | DStep nat

text \<open>The state after one call, whether it returns or throws.\<close>

definition apply_op :: "'d nativeInterface \<Rightarrow> dm_op \<Rightarrow> 'd defaultMemoryManager \<Rightarrow> 'd defaultMemoryManager" where
  "apply_op di oper m =
     (let after = (\<lambda>r. case r of Inl e \<Rightarrow> m | Inr m' \<Rightarrow> m') in
      case oper of
        DAlloc dev user dims es \<Rightarrow> snd (alloc di dev user dims es m)
      | DUnlock dev p user \<Rightarrow> snd (unlock di dev p user m)
      | DUserLock dev p \<Rightarrow> after (userLock dev p m)
      | DCleanup dev \<Rightarrow> after (signalMemoryCleanup di dev m)
      | DAdd device \<Rightarrow> after (addMemoryManagement device m)
      | DRemove device \<Rightarrow> after (removeMemoryManagement di device m)
      | DStep n \<Rightarrow> setMemStepSize n m)"

definition cache_empty :: "'d defaultMemoryManager \<Rightarrow> bool" where
  "cache_empty m \<longleftrightarrow> (\<forall>info\<in>set (memory m). freeMap info = [])"

lemma cache_empty_set_info:
  "cache_empty m \<Longrightarrow> freeMap info = [] \<Longrightarrow> cache_empty (set_info dev info m)"
  by (auto simp: cache_empty_def set_info_def dest: set_update_subset_insert [THEN subsetD])

lemma cache_empty_current: "cache_empty m \<Longrightarrow> getCurrentMemoryInfo dev m = Inr cur \<Longrightarrow> freeMap cur = []"
  by (auto simp: cache_empty_def getCurrentMemoryInfo_def split: if_splits)

lemma cache_empty_native [simp]: "cache_empty (m\<lparr>native := d\<rparr>) = cache_empty m"
  by (simp add: cache_empty_def)

lemma debugMode_set_info [simp]: "debugMode (set_info dev info m) = debugMode m"
  by (simp add: set_info_def)

lemma freeMap_lock_ptr [simp]: "freeMap (lock_ptr p li cur) = freeMap cur"
  by (simp add: lock_ptr_def)

lemma clean_empty:
  assumes "cache_empty m" "cleanDeviceMemoryManager di dev m = Inr m'"
  shows "cache_empty m'"
proof (cases "debugMode m")
  case False
  then obtain cur where cur: "getCurrentMemoryInfo dev m = Inr cur"
    using assms(2) by (auto simp: cleanDeviceMemoryManager_def rbind_eq_Inr_iff)
  then have "freeMap cur = []" using cache_empty_current [OF assms(1)] by simp
  then have "m' = m \<or> m' = set_info dev (cur\<lparr>freeMap := []\<rparr>) m"
    using assms(2) cur False by (auto simp: cleanDeviceMemoryManager_def set_info_def split: if_splits)
  then show ?thesis using assms(1) cache_empty_set_info [OF assms(1), of "cur\<lparr>freeMap := []\<rparr>" dev] by auto
qed (use assms in \<open>simp add: cleanDeviceMemoryManager_def\<close>)

lemma native_empty: "cache_empty m \<Longrightarrow> cache_empty (snd (alloc_native di dev li m))"
proof -
  assume e: "cache_empty m"
  have rec: "cache_empty (snd (case getCurrentMemoryInfo dev m of
              Inl e \<Rightarrow> (Inl e, m)
            | Inr cur \<Rightarrow> (Inr p, set_info dev (lock_ptr p li
                 (cur\<lparr>totalBytes := totalBytes cur + of_nat (bytes li), totalBuffers := totalBuffers cur + 1\<rparr>)) m)))"
    if "cache_empty m" for p :: addr and m :: "'a defaultMemoryManager"
    using that cache_empty_current [OF that] by (auto intro: cache_empty_set_info split: sum.splits)
  obtain r d where a: "nativeAlloc di (bytes li) (native m) = (r, d)" by force
  show ?thesis
  proof (cases r)
    case (Inr p)
    then show ?thesis using a e rec by (simp add: alloc_native_def Let_def)
  next
    case (Inl x)
    show ?thesis
    proof (cases "signalMemoryCleanup di dev (m\<lparr>native := d\<rparr>)")
      case Inl': (Inl y)
      then show ?thesis using a e Inl by (simp add: alloc_native_def Let_def)
    next
      case (Inr m2)
      then have e2: "cache_empty m2" using clean_empty e by (metis cache_empty_native signalMemoryCleanup_def)
      obtain r2 d2 where a2: "nativeAlloc di (bytes li) (native m2) = (r2, d2)" by force
      then show ?thesis using a Inl Inr e2 rec by (cases r2) (simp_all add: alloc_native_def Let_def)
    qed
  qed
qed

lemma alloc_empty: "cache_empty m \<Longrightarrow> cache_empty (snd (alloc di dev user dims es m))"
proof -
  assume e: "cache_empty m"
  have cached: "p = 0 \<and> cache_empty m1" if c: "alloc_cached di dev li m = Inr (p, m1)" for li p m1
  proof -
    obtain cur m0 cur1 where s: "getCurrentMemoryInfo dev m = Inr cur"
        "(if checkMemoryLimit cur m then signalMemoryCleanup di dev m else Inr m) = Inr m0"
        "getCurrentMemoryInfo dev m0 = Inr cur1"
      using c by (auto simp: alloc_cached_def rbind_eq_Inr_iff)
    have "cache_empty m0" using s(2) e clean_empty by (auto simp: signalMemoryCleanup_def split: if_splits)
    then show ?thesis using c s cache_empty_current [of m0 dev cur1] by (simp add: alloc_cached_def)
  qed
  have native: "cache_empty (snd (case alloc_cached di dev li m of
      Inl e \<Rightarrow> (Inl e, m)
    | Inr (p, m1) \<Rightarrow> if p \<noteq> 0 then (Inr p, m1) else alloc_native di dev li m1))" for li
  proof (cases "alloc_cached di dev li m")
    case (Inr r)
    then obtain p m1 where "alloc_cached di dev li m = Inr (p, m1)" by (cases r) simp
    then show ?thesis using cached [of li p m1] native_empty [of m1 di dev li] by simp
  qed (use e in simp)
  show ?thesis using e native native_empty [OF e] by (simp add: alloc_def Let_def)
qed

lemma unlock_empty: "cache_empty m \<Longrightarrow> cache_empty (snd (unlock di dev p user m))"
proof -
  assume e: "cache_empty m"
  show ?thesis
  proof (cases "getCurrentMemoryInfo dev m")
    case (Inr cur)
    then have "freeMap cur = []" using cache_empty_current [OF e] by simp
    then show ?thesis using Inr e
      by (auto simp: unlock_def Let_def intro!: cache_empty_set_info split: option.splits)
  qed (use e in \<open>simp add: unlock_def\<close>)
qed

lemma step_empty: "cache_empty m \<Longrightarrow> cache_empty (apply_op di oper m)"
proof (cases oper)
  case (DUserLock dev p)
  assume "cache_empty m"
  then show ?thesis
    using DUserLock cache_empty_current [of m dev]
    by (auto simp: apply_op_def userLock_def Let_def rbind_def intro!: cache_empty_set_info split: sum.splits)
next
  case (DAdd device)
  assume "cache_empty m"
  then show ?thesis using DAdd
    by (auto simp: apply_op_def addMemoryManagement_def Let_def cache_empty_def new_MemoryInfo_def dest: in_set_takeD)
next
  case (DRemove device)
  assume "cache_empty m"
  then show ?thesis using DRemove clean_empty
    by (auto simp: apply_op_def removeMemoryManagement_def Let_def split: sum.splits)
next
  case (DCleanup dev)
  assume "cache_empty m"
  then show ?thesis using DCleanup clean_empty
    by (auto simp: apply_op_def signalMemoryCleanup_def Let_def split: sum.splits)
next
  case (DStep b)
  assume "cache_empty m"
  then show ?thesis using DStep by (simp add: apply_op_def setMemStepSize_def cache_empty_def)
qed (simp_all add: apply_op_def Let_def alloc_empty unlock_empty)

lemma run_empty: "cache_empty m \<Longrightarrow> cache_empty (fold (apply_op di) ops m)"
  by (induction ops arbitrary: m) (auto intro: step_empty)

text \<open>
  Outside debug mode no buffer can ever be released: after any sequence of calls on a new manager,
  the unlock that removes the last lock of a live pointer throws \<^verbatim>\<open>std::out_of_range\<close>, because nothing
  creates the cache entry that \<^verbatim>\<open>freeMap.at\<close> looks up. The counters of locked memory have been decremented by
  then, and the pointer stays in the table.
\<close>

theorem default_unlock_throws:
  assumes "m = fold (apply_op di) ops (new_DefaultMemoryManager n mb debug memDebug maxBufs d)"
    and "\<not> debugMode m" "dev < length (memory m)" "p \<noteq> 0" "lockedMap (memory m ! dev) p = Some li"
    and "if user then \<not> managerLock li else \<not> userLocked li"
  shows "\<exists>m'. unlock di dev p user m = (Inl (Out_of_range ''at''), m') \<and>
     lockedMap (memory m' ! dev) p \<noteq> None \<and>
     lockBuffers (memory m' ! dev) = lockBuffers (memory m ! dev) - 1"
proof -
  have "cache_empty (new_DefaultMemoryManager n mb debug memDebug maxBufs d)"
    by (simp add: cache_empty_def new_DefaultMemoryManager_def Let_def new_MemoryInfo_def)
  then have "cache_empty m" using assms(1) run_empty by blast
  then have "freeMap (memory m ! dev) = []" using assms(3) by (auto simp: cache_empty_def)
  then show ?thesis
    using assms(2-6) by (auto simp: unlock_def getCurrentMemoryInfo_def Let_def set_info_def)
qed

definition zero_device :: "unit nativeInterface" where
  "zero_device = \<lparr>nativeAlloc = (\<lambda>n d. (Inr 4096, d)), nativeFree = (\<lambda>p d. d)\<rparr>"

theorem default_unlock_throws_witness:
  "\<exists>m'. unlock zero_device 0 4096 False
     (fold (apply_op zero_device) [DAlloc 0 False [10] 4] (new_DefaultMemoryManager 1 1000 False None None ())) =
     (Inl (Out_of_range ''at''), m')"
proof -
  let ?m0 = "new_DefaultMemoryManager 1 1000 False None None () :: unit defaultMemoryManager"
  let ?m = "fold (apply_op zero_device) [DAlloc 0 False [10] 4] ?m0"
  note d = apply_op_def alloc_def alloc_bytes_def alloc_cached_def alloc_native_def checkMemoryLimit_def lock_ptr_def
    getCurrentMemoryInfo_def set_info_def new_DefaultMemoryManager_def new_MemoryInfo_def zero_device_def Let_def
    divup_def sz_add_def sz_sub_def sz_mul_def SIZE_MOD_def ONE_GB_def
  have "\<not> debugMode ?m" "0 < length (memory ?m)" by (simp_all add: d)
  moreover have "lockedMap (memory ?m ! 0) 4096 = Some \<lparr>managerLock = True, userLocked = False, bytes = 1024\<rparr>"
    by (simp add: d)
  ultimately show ?thesis
    using default_unlock_throws [of ?m zero_device "[DAlloc 0 False [10] 4]" 1 1000 False None None "()" 0 4096 _ False]
    by auto
qed

text \<open>
  In debug mode an allocation followed by its unlock is neutral: the pointer the device returned is
  given back to the device and every counter and table of the manager has its old value.
\<close>

theorem default_debug_roundtrip:
  assumes "debugMode m" "dev < length (memory m)" "0 < alloc_bytes es dims"
    and "nativeAlloc di (alloc_bytes es dims) (native m) = (Inr p, d')" "p \<noteq> 0" "lockedMap (memory m ! dev) p = None"
  shows "fst (alloc di dev user dims es m) = Inr p \<and>
     unlock di dev p user (snd (alloc di dev user dims es m)) = (Inr (), m\<lparr>native := nativeFree di p d'\<rparr>)"
proof -
  let ?li = "\<lparr>managerLock = \<not> user, userLocked = user, bytes = alloc_bytes es dims\<rparr>"
  let ?cur = "memory m ! dev"
  let ?info = "lock_ptr p ?li (?cur\<lparr>totalBytes := totalBytes ?cur + of_nat (alloc_bytes es dims), totalBuffers := totalBuffers ?cur + 1\<rparr>)"
  have a: "alloc di dev user dims es m = (Inr p, set_info dev ?info (m\<lparr>native := d'\<rparr>))"
    using assms by (simp add: alloc_def alloc_native_def getCurrentMemoryInfo_def Let_def)
  have "(lockedMap ?cur)(p := None) = lockedMap ?cur" using assms(6) by auto
  then have undo: "?cur\<lparr>lockedMap := (lockedMap ?cur)(p := None)\<rparr> = ?cur" by simp
  show ?thesis
    using assms(1,2,3,5) undo unfolding a
    by (cases m; cases ?cur) (auto simp: unlock_def getCurrentMemoryInfo_def set_info_def lock_ptr_def Let_def list_update_same_conv)
qed

theorem default_debug_roundtrip_witness:
  "unlock zero_device 0 4096 True (snd (alloc zero_device 0 True [10] 4 (new_DefaultMemoryManager 1 1000 True None None ())))
     = (Inr (), new_DefaultMemoryManager 1 1000 True None None ())"
  using default_debug_roundtrip [of "new_DefaultMemoryManager 1 1000 True None None ()" 0 4 "[10]" zero_device 4096 "()" True]
  by (simp add: new_DefaultMemoryManager_def new_MemoryInfo_def zero_device_def alloc_bytes_def sz_mul_def SIZE_MOD_def Let_def)

end
