(* ===== verification/ProducerConsumerQueue.thy ===== *)
theory ProducerConsumerQueue
  imports Prelude
begin

section \<open>The producer-consumer queue (\<^verbatim>\<open>lib/common/ProducerConsumerQueue.h\<close>)\<close>

text \<open>
  Every method runs under the mutex, so a step of the model is one critical section: from the moment
  a thread holds the mutex to the moment it returns or goes to sleep on a condition variable. The
  state has the members of the class and, for each condition variable, the threads asleep on it and
  the threads inside the method that are awake and will test the condition when they get the mutex.
  A producer carries the element it wants to add. Threads are numbered.
\<close>

record 'a pcq =
  queue :: "'a list"
  maxSize :: int
  isAddingFinished :: bool
  awakeP :: "(nat \<times> 'a) list"
  asleepP :: "(nat \<times> 'a) list"
  awakeC :: "nat list"
  asleepC :: "nat list"

definition new_queue :: "int \<Rightarrow> 'a pcq" where
  "new_queue n = \<lparr>queue = [], maxSize = n, isAddingFinished = False,
     awakeP = [], asleepP = [], awakeC = [], asleepC = []\<rparr>"

text \<open>\<^verbatim>\<open>queue_.size() >= maxSize_\<close> compares unsigned values, so a negative \<^verbatim>\<open>maxSize\<close> is no bound.\<close>

definition isFull :: "'a pcq \<Rightarrow> bool" where
  "isFull q \<longleftrightarrow> size_of_int (maxSize q) \<le> int (length (queue q))"

definition isEmpty :: "'a pcq \<Rightarrow> bool" where
  "isEmpty q \<longleftrightarrow> length (queue q) = 0"

text \<open>
  \<^verbatim>\<open>notify_one\<close> wakes one of the sleeping threads, if there is one; which one is the choice \<open>i\<close> of the
  scheduler.
\<close>

definition notify_producer :: "nat \<Rightarrow> 'a pcq \<Rightarrow> 'a pcq" where
  "notify_producer i q =
     (if asleepP q = [] then q
      else let p = asleepP q ! (i mod length (asleepP q)) in
        q\<lparr>asleepP := remove1 p (asleepP q), awakeP := awakeP q @ [p]\<rparr>)"

definition notify_consumer :: "nat \<Rightarrow> 'a pcq \<Rightarrow> 'a pcq" where
  "notify_consumer i q =
     (if asleepC q = [] then q
      else let c = asleepC q ! (i mod length (asleepC q)) in
        q\<lparr>asleepC := remove1 c (asleepC q), awakeC := awakeC q @ [c]\<rparr>)"

definition notify_all_producers :: "'a pcq \<Rightarrow> 'a pcq" where
  "notify_all_producers q = q\<lparr>awakeP := awakeP q @ asleepP q, asleepP := []\<rparr>"

definition notify_all_consumers :: "'a pcq \<Rightarrow> 'a pcq" where
  "notify_all_consumers q = q\<lparr>awakeC := awakeC q @ asleepC q, asleepC := []\<rparr>"

text \<open>
  \<^verbatim>\<open>add\<close> by an awake producer that holds the mutex: it sleeps, or returns without adding, or pushes and
  notifies. The result says whether the element was pushed.
\<close>

definition add :: "nat \<times> 'a \<Rightarrow> nat \<Rightarrow> nat \<Rightarrow> 'a pcq \<Rightarrow> bool \<times> 'a pcq" where
  "add p i j q =
     (let q0 = q\<lparr>awakeP := remove1 p (awakeP q)\<rparr> in
      if \<not> (\<not> isFull q0 \<or> isAddingFinished q0) then (False, q0\<lparr>asleepP := asleepP q0 @ [p]\<rparr>)
      else if isAddingFinished q0 then (False, q0)
      else
        let q1 = q0\<lparr>queue := queue q0 @ [snd p]\<rparr>;
            q2 = (if \<not> isFull q1 then notify_producer i q1 else q1)
        in (True, notify_consumer j q2))"

text \<open>\<^verbatim>\<open>get\<close>: \<open>None\<close> is a thread that goes to sleep, \<open>Some None\<close> the result \<^verbatim>\<open>false\<close>.\<close>

definition get :: "nat \<Rightarrow> nat \<Rightarrow> nat \<Rightarrow> 'a pcq \<Rightarrow> 'a option option \<times> 'a pcq" where
  "get c i j q =
     (let q0 = q\<lparr>awakeC := remove1 c (awakeC q)\<rparr> in
      if \<not> (\<not> isEmpty q0 \<or> isAddingFinished q0) then (None, q0\<lparr>asleepC := asleepC q0 @ [c]\<rparr>)
      else if isEmpty q0 then (Some None, q0)
      else
        let q1 = q0\<lparr>queue := tl (queue q0)\<rparr>;
            q2 = (if \<not> isEmpty q1 then notify_consumer i q1 else q1)
        in (Some (Some (hd (queue q0))), notify_producer j q2))"

definition finishAdding :: "'a pcq \<Rightarrow> 'a pcq" where
  "finishAdding q = notify_all_consumers (q\<lparr>isAddingFinished := True\<rparr>)"

definition clear_queue :: "'a pcq \<Rightarrow> 'a pcq" where
  "clear_queue q = notify_all_consumers (notify_all_producers (q\<lparr>queue := [], isAddingFinished := False\<rparr>))"

subsection \<open>Runs\<close>

text \<open>
  What a step shows: an element entered the queue, an element left it, \<^verbatim>\<open>get\<close> returned false, the queue
  was cleared, or nothing.
\<close>

datatype 'a event = Pushed 'a | Popped 'a | Returned_false | Cleared | Silent

inductive pcq_step :: "'a pcq \<Rightarrow> 'a event \<Rightarrow> 'a pcq \<Rightarrow> bool" where
  call_add: "pcq_step q Silent (q\<lparr>awakeP := awakeP q @ [p]\<rparr>)"
| call_get: "pcq_step q Silent (q\<lparr>awakeC := awakeC q @ [c]\<rparr>)"
| run_add: "p \<in> set (awakeP q) \<Longrightarrow> add p i j q = (pushed, q') \<Longrightarrow>
     pcq_step q (if pushed then Pushed (snd p) else Silent) q'"
| run_get: "c \<in> set (awakeC q) \<Longrightarrow> get c i j q = (r, q') \<Longrightarrow>
     pcq_step q (case r of None \<Rightarrow> Silent | Some None \<Rightarrow> Returned_false | Some (Some x) \<Rightarrow> Popped x) q'"
| finish: "pcq_step q Silent (finishAdding q)"
| clear: "pcq_step q Cleared (clear_queue q)"
| spurious_producer: "asleepP q \<noteq> [] \<Longrightarrow> pcq_step q Silent (notify_producer i q)"
| spurious_consumer: "asleepC q \<noteq> [] \<Longrightarrow> pcq_step q Silent (notify_consumer i q)"

inductive pcq_run :: "'a pcq \<Rightarrow> 'a event list \<Rightarrow> 'a pcq \<Rightarrow> bool" for q0 where
  run_init: "pcq_run q0 [] q0"
| run_step: "pcq_run q0 es q \<Longrightarrow> pcq_step q ev q' \<Longrightarrow> pcq_run q0 (es @ [ev]) q'"

text \<open>What the trace says is still in the queue.\<close>

definition follow :: "'a list option \<Rightarrow> 'a event \<Rightarrow> 'a list option" where
  "follow s ev =
     (case s of None \<Rightarrow> None | Some xs \<Rightarrow>
       (case ev of
          Pushed x \<Rightarrow> Some (xs @ [x])
        | Popped x \<Rightarrow> (case xs of [] \<Rightarrow> None | y # ys \<Rightarrow> if x = y then Some ys else None)
        | Returned_false \<Rightarrow> if xs = [] then Some xs else None
        | Cleared \<Rightarrow> Some []
        | Silent \<Rightarrow> Some xs))"

definition content :: "'a event list \<Rightarrow> 'a list option" where
  "content es = foldl follow (Some []) es"

definition pcq_bounded :: "'a pcq \<Rightarrow> bool" where
  "pcq_bounded q \<longleftrightarrow> int (length (queue q)) \<le> size_of_int (maxSize q)"

definition no_lost_wakeup :: "'a pcq \<Rightarrow> bool" where
  "no_lost_wakeup q \<longleftrightarrow>
     (isAddingFinished q \<longrightarrow> asleepC q = []) \<and>
     (queue q \<noteq> [] \<longrightarrow> asleepC q \<noteq> [] \<longrightarrow> awakeC q \<noteq> []) \<and>
     (\<not> isFull q \<longrightarrow> \<not> isAddingFinished q \<longrightarrow> asleepP q \<noteq> [] \<longrightarrow> awakeP q \<noteq> [])"

lemma notify_simps [simp]:
  "queue (notify_producer i q) = queue q" "queue (notify_consumer i q) = queue q"
  "maxSize (notify_producer i q) = maxSize q" "maxSize (notify_consumer i q) = maxSize q"
  "isAddingFinished (notify_producer i q) = isAddingFinished q" "isAddingFinished (notify_consumer i q) = isAddingFinished q"
  "awakeC (notify_producer i q) = awakeC q" "asleepC (notify_producer i q) = asleepC q"
  "awakeP (notify_consumer i q) = awakeP q" "asleepP (notify_consumer i q) = asleepP q"
  "isFull (notify_producer i q) = isFull q" "isFull (notify_consumer i q) = isFull q"
  "isEmpty (notify_producer i q) = isEmpty q" "isEmpty (notify_consumer i q) = isEmpty q"
  by (simp_all add: notify_producer_def notify_consumer_def isFull_def isEmpty_def Let_def)

lemma notify_wakes:
  "asleepP q \<noteq> [] \<Longrightarrow> awakeP (notify_producer i q) \<noteq> []" "asleepC q \<noteq> [] \<Longrightarrow> awakeC (notify_consumer i q) \<noteq> []"
  "asleepP q = [] \<Longrightarrow> notify_producer i q = q" "asleepC q = [] \<Longrightarrow> notify_consumer i q = q"
  by (simp_all add: notify_producer_def notify_consumer_def Let_def)

lemma notify_consumer_asleep: "asleepC (notify_consumer i q) \<noteq> [] \<Longrightarrow> awakeC (notify_consumer i q) \<noteq> []"
  by (auto simp: notify_consumer_def Let_def)

lemma notify_producer_asleep: "asleepP (notify_producer i q) \<noteq> [] \<Longrightarrow> awakeP (notify_producer i q) \<noteq> []"
  by (auto simp: notify_producer_def Let_def)

lemma notify_consumer_none: "asleepC q = [] \<Longrightarrow> asleepC (notify_consumer i q) = []"
  by (simp add: notify_consumer_def)

lemma full_cong [simp]:
  "isFull (q\<lparr>awakeP := x\<rparr>) = isFull q" "isFull (q\<lparr>asleepP := x\<rparr>) = isFull q" "isFull (q\<lparr>awakeC := y\<rparr>) = isFull q"
  "isFull (q\<lparr>asleepC := y\<rparr>) = isFull q" "isFull (q\<lparr>isAddingFinished := b\<rparr>) = isFull q"
  "isEmpty (q\<lparr>awakeC := y\<rparr>) = isEmpty q"
  by (simp_all add: isFull_def isEmpty_def)

lemma add_wakeup:
  assumes "no_lost_wakeup q" "add p i j q = (pushed, q')"
  shows "no_lost_wakeup q'"
proof -
  let ?q1 = "q\<lparr>awakeP := remove1 p (awakeP q), queue := queue q @ [snd p]\<rparr>"
  let ?q2 = "if \<not> isFull ?q1 then notify_producer i ?q1 else ?q1"
  consider (sleep) "isFull q" "\<not> isAddingFinished q" "q' = q\<lparr>awakeP := remove1 p (awakeP q), asleepP := asleepP q @ [p]\<rparr>"
    | (finished) "isAddingFinished q" "q' = q\<lparr>awakeP := remove1 p (awakeP q)\<rparr>"
    | (push) "\<not> isAddingFinished q" "q' = notify_consumer j ?q2"
  proof (cases "isAddingFinished q")
    case True
    then show ?thesis using assms(2) finished by (simp add: add_def Let_def)
  next
    case False
    then show ?thesis using assms(2) sleep push by (cases "isFull q") (auto simp: add_def Let_def)
  qed
  then show ?thesis
  proof cases
    case push
    have "asleepP ?q2 \<noteq> [] \<Longrightarrow> \<not> isFull ?q1 \<Longrightarrow> awakeP ?q2 \<noteq> []" using notify_producer_asleep [of i ?q1] by simp
    moreover have "isFull ?q2 = isFull ?q1" by simp
    moreover have "\<not> isAddingFinished ?q2" using push(1) by simp
    ultimately show ?thesis
      unfolding push(2) no_lost_wakeup_def notify_simps using notify_consumer_asleep [of j ?q2] by blast
  qed (use assms(1) in \<open>auto simp: no_lost_wakeup_def\<close>)
qed

lemma get_wakeup:
  assumes "no_lost_wakeup q" "get c i j q = (r, q')"
  shows "no_lost_wakeup q'"
proof -
  let ?q1 = "q\<lparr>awakeC := remove1 c (awakeC q), queue := tl (queue q)\<rparr>"
  let ?q2 = "if \<not> isEmpty ?q1 then notify_consumer i ?q1 else ?q1"
  consider (sleep) "queue q = []" "\<not> isAddingFinished q" "q' = q\<lparr>awakeC := remove1 c (awakeC q), asleepC := asleepC q @ [c]\<rparr>"
    | (false) "queue q = []" "q' = q\<lparr>awakeC := remove1 c (awakeC q)\<rparr>"
    | (pop) "queue q \<noteq> []" "q' = notify_producer j ?q2"
  proof (cases "queue q = []")
    case True
    then have "isEmpty q" by (simp add: isEmpty_def)
    then show ?thesis using assms(2) True sleep false by (cases "isAddingFinished q") (simp_all add: get_def Let_def)
  next
    case False
    then have "\<not> isEmpty q" by (simp add: isEmpty_def)
    then show ?thesis using assms(2) False pop by (simp add: get_def Let_def)
  qed
  then show ?thesis
  proof cases
    case pop
    have "isAddingFinished ?q2 \<Longrightarrow> asleepC ?q2 = []"
      using assms(1) notify_consumer_none [of ?q1 i] by (auto simp: no_lost_wakeup_def)
    moreover have "queue ?q2 \<noteq> [] \<Longrightarrow> asleepC ?q2 \<noteq> [] \<Longrightarrow> awakeC ?q2 \<noteq> []"
    proof -
      assume q2: "queue ?q2 \<noteq> []" "asleepC ?q2 \<noteq> []"
      have "queue ?q2 = tl (queue q)" by simp
      with q2(1) have "\<not> isEmpty ?q1" by (cases "queue q"; cases "tl (queue q)") (simp_all add: isEmpty_def)
      then show "awakeC ?q2 \<noteq> []" using notify_consumer_asleep [of i ?q1] q2(2) by simp
    qed
    ultimately show ?thesis unfolding pop(2) no_lost_wakeup_def notify_simps
      using notify_producer_asleep [of j ?q2] by blast
  qed (use assms(1) in \<open>auto simp: no_lost_wakeup_def\<close>)
qed

lemma step_wakeup: "pcq_step q ev q' \<Longrightarrow> no_lost_wakeup q \<Longrightarrow> no_lost_wakeup q'"
proof (induction rule: pcq_step.induct)
  case (run_add p q i j pushed q')
  then show ?case using add_wakeup by blast
next
  case (run_get c q i j r q')
  then show ?case using get_wakeup by blast
next
  case (spurious_producer q i)
  then show ?case using notify_producer_asleep [of i q] by (simp add: no_lost_wakeup_def)
next
  case (spurious_consumer q i)
  then show ?case using notify_consumer_asleep [of i q] notify_consumer_none [of q i] by (auto simp: no_lost_wakeup_def)
qed (auto simp: no_lost_wakeup_def finishAdding_def clear_queue_def notify_all_consumers_def notify_all_producers_def isFull_def)

lemma step_queue:
  "pcq_step q ev q' \<Longrightarrow> follow (Some (queue q)) ev = Some (queue q') \<and> maxSize q' = maxSize q \<and>
     (pcq_bounded q \<longrightarrow> pcq_bounded q')"
proof (induction rule: pcq_step.induct)
  case (run_add p q i j pushed q')
  then show ?case
    by (auto simp: add_def Let_def follow_def pcq_bounded_def isFull_def split: if_splits)
next
  case (run_get c q i j r q')
  then show ?case
    by (cases "queue q") (auto simp: get_def Let_def follow_def pcq_bounded_def isEmpty_def split: if_splits)
qed (auto simp: follow_def finishAdding_def clear_queue_def notify_all_consumers_def notify_all_producers_def
    pcq_bounded_def size_of_int_def)

text \<open>
  C21. The queue is a bounded FIFO channel under every interleaving: in every run, the elements that
  left the queue and those still in it are, in order, the ones that were pushed since the last \<^verbatim>\<open>clear\<close>; \<^verbatim>\<open>get\<close>
  returns false only when the queue is empty; and the queue never holds more than \<^verbatim>\<open>maxSize\<close> elements.
\<close>

theorem pcq_fifo:
  assumes "pcq_run (new_queue n) es q"
  shows "content es = Some (queue q) \<and> int (length (queue q)) \<le> size_of_int n"
proof -
  have "content es = Some (queue q) \<and> maxSize q = n \<and> pcq_bounded q"
    using assms
  proof (induction rule: pcq_run.induct)
    case run_init
    then show ?case by (simp add: content_def new_queue_def pcq_bounded_def size_of_int_def)
  next
    case (run_step es q ev q')
    then show ?case using step_queue [OF run_step.hyps(2)] by (simp add: content_def)
  qed
  then show ?thesis by (auto simp: pcq_bounded_def)
qed

lemma pcq_example:
  "pcq_run (new_queue 1) [Silent, Pushed (7 :: nat), Silent, Popped 7] (new_queue 1)"
proof -
  let ?q0 = "new_queue 1 :: nat pcq"
  let ?q1 = "?q0\<lparr>awakeP := [(0, 7)]\<rparr>" and ?q2 = "?q0\<lparr>queue := [7]\<rparr>" and ?q3 = "?q0\<lparr>queue := [7], awakeC := [1]\<rparr>"
  note d = new_queue_def add_def get_def Let_def isFull_def isEmpty_def size_of_int_def notify_producer_def notify_consumer_def
  have 1: "pcq_step ?q0 Silent ?q1" using call_add [of ?q0 "(0, 7)"] by (simp add: new_queue_def)
  have 2: "pcq_step ?q1 (Pushed 7) ?q2" using run_add [of "(0, 7)" ?q1 0 0 True ?q2] by (simp add: d)
  have 3: "pcq_step ?q2 Silent ?q3" using call_get [of ?q2 1] by (simp add: new_queue_def)
  have 4: "pcq_step ?q3 (Popped 7) ?q0" using run_get [of 1 ?q3 0 0 "Some (Some 7)" ?q0] by (simp add: d)
  have "pcq_run ?q0 ((([] @ [Silent]) @ [Pushed 7]) @ [Silent]) ?q3"
    using 1 2 3 by (meson pcq_run.intros)
  from pcq_run.run_step [OF this 4] show ?thesis by simp
qed

theorem pcq_fifo_witness: "content [Silent, Pushed (7 :: nat), Silent, Popped 7] = Some []"
  using pcq_fifo [OF pcq_example] by (simp add: new_queue_def)

text \<open>
  C22. No wake-up is lost although a call notifies at most one thread of each kind: in every reachable
  state, when there is an element and a consumer sleeps, another consumer is awake inside \<^verbatim>\<open>get\<close>; when
  adding is not finished, the queue is not full and a producer sleeps, another producer is awake inside
  \<^verbatim>\<open>add\<close>; and no consumer sleeps once adding is finished.
\<close>

theorem pcq_no_lost_wakeup:
  assumes "pcq_run (new_queue n) es q"
  shows "(queue q \<noteq> [] \<and> asleepC q \<noteq> [] \<longrightarrow> awakeC q \<noteq> []) \<and>
     (\<not> isFull q \<and> \<not> isAddingFinished q \<and> asleepP q \<noteq> [] \<longrightarrow> awakeP q \<noteq> []) \<and>
     (isAddingFinished q \<longrightarrow> asleepC q = [])"
proof -
  have "no_lost_wakeup q" using assms
  proof (induction rule: pcq_run.induct)
    case run_init
    then show ?case by (simp add: no_lost_wakeup_def new_queue_def)
  next
    case (run_step es q ev q')
    then show ?case using step_wakeup by blast
  qed
  then show ?thesis by (simp add: no_lost_wakeup_def)
qed

lemma pcq_sleepers:
  "pcq_run (new_queue 1) [Silent, Silent, Silent, Silent, Silent, Pushed (7 :: nat)]
     ((new_queue 1)\<lparr>queue := [7], awakeC := [1], asleepC := [2]\<rparr>)"
proof -
  let ?q0 = "new_queue 1 :: nat pcq"
  let ?c = "\<lambda>a s. ?q0\<lparr>awakeC := a, asleepC := s\<rparr>"
  let ?q5 = "?q0\<lparr>awakeP := [(0, 7)], asleepC := [1, 2]\<rparr>"
  let ?q6 = "?q0\<lparr>queue := [7], awakeC := [1], asleepC := [2]\<rparr>"
  note d = new_queue_def add_def get_def Let_def isFull_def isEmpty_def size_of_int_def notify_producer_def notify_consumer_def
  have 1: "pcq_step ?q0 Silent (?c [1] [])" using call_get [of ?q0 1] by (simp add: new_queue_def)
  have 2: "pcq_step (?c [1] []) Silent (?c [] [1])" using run_get [of 1 "?c [1] []" 0 0 None "?c [] [1]"] by (simp add: d)
  have 3: "pcq_step (?c [] [1]) Silent (?c [2] [1])" using call_get [of "?c [] [1]" 2] by (simp add: new_queue_def)
  have 4: "pcq_step (?c [2] [1]) Silent (?c [] [1, 2])"
    using run_get [of 2 "?c [2] [1]" 0 0 None "?c [] [1, 2]"] by (simp add: d)
  have 5: "pcq_step (?c [] [1, 2]) Silent ?q5" using call_add [of "?c [] [1, 2]" "(0, 7)"] by (simp add: new_queue_def)
  have 6: "pcq_step ?q5 (Pushed 7) ?q6" using run_add [of "(0, 7)" ?q5 0 0 True ?q6] by (simp add: d)
  have "pcq_run ?q0 (((((([] @ [Silent]) @ [Silent]) @ [Silent]) @ [Silent]) @ [Silent]) @ [Pushed 7]) ?q6"
    using 1 2 3 4 5 6 by (meson pcq_run.intros)
  then show ?thesis by simp
qed

theorem pcq_no_lost_wakeup_witness:
  "\<exists>es (q :: nat pcq). pcq_run (new_queue 1) es q \<and> queue q \<noteq> [] \<and> asleepC q = [2] \<and> awakeC q \<noteq> []"
  using pcq_no_lost_wakeup [OF pcq_sleepers] pcq_sleepers by (auto intro!: exI)

text \<open>
  \<^verbatim>\<open>finishAdding\<close> does not wake sleeping producers, and a producer that finds adding finished wakes nobody:
  with room for one element and three producers, a run leads to a state in which adding is finished,
  the queue is empty, every other thread has returned, and a producer is still asleep.
\<close>

theorem finishAdding_strands_producer:
  "\<exists>es. pcq_run (new_queue 1) es
     ((new_queue 1)\<lparr>isAddingFinished := True, asleepP := [(3, 9 :: nat)]\<rparr>)"
proof -
  let ?q0 = "new_queue 1 :: nat pcq"
  let ?s = "\<lambda>xs f aw sl ac. ?q0\<lparr>queue := xs, isAddingFinished := f, awakeP := aw, asleepP := sl, awakeC := ac\<rparr>"
  note d = new_queue_def add_def get_def Let_def isFull_def isEmpty_def size_of_int_def notify_producer_def notify_consumer_def
  have 1: "pcq_step ?q0 Silent (?s [] False [(1, 7)] [] [])" using call_add [of ?q0 "(1, 7)"] by (simp add: new_queue_def)
  have 2: "pcq_step (?s [] False [(1, 7)] [] []) (Pushed 7) (?s [7] False [] [] [])"
    using run_add [of "(1, 7)" "?s [] False [(1, 7)] [] []" 0 0 True "?s [7] False [] [] []"] by (simp add: d)
  have 3: "pcq_step (?s [7] False [] [] []) Silent (?s [7] False [(2, 8)] [] [])"
    using call_add [of "?s [7] False [] [] []" "(2, 8)"] by (simp add: new_queue_def)
  have 4: "pcq_step (?s [7] False [(2, 8)] [] []) Silent (?s [7] False [] [(2, 8)] [])"
    using run_add [of "(2, 8)" "?s [7] False [(2, 8)] [] []" 0 0 False "?s [7] False [] [(2, 8)] []"] by (simp add: d)
  have 5: "pcq_step (?s [7] False [] [(2, 8)] []) Silent (?s [7] False [(3, 9)] [(2, 8)] [])"
    using call_add [of "?s [7] False [] [(2, 8)] []" "(3, 9)"] by (simp add: new_queue_def)
  have 6: "pcq_step (?s [7] False [(3, 9)] [(2, 8)] []) Silent (?s [7] False [] [(2, 8), (3, 9)] [])"
    using run_add [of "(3, 9)" "?s [7] False [(3, 9)] [(2, 8)] []" 0 0 False "?s [7] False [] [(2, 8), (3, 9)] []"]
    by (simp add: d)
  have 7: "pcq_step (?s [7] False [] [(2, 8), (3, 9)] []) Silent (?s [7] True [] [(2, 8), (3, 9)] [])"
    using finish [of "?s [7] False [] [(2, 8), (3, 9)] []"] by (simp add: finishAdding_def notify_all_consumers_def new_queue_def)
  have 8: "pcq_step (?s [7] True [] [(2, 8), (3, 9)] []) Silent (?s [7] True [] [(2, 8), (3, 9)] [4])"
    using call_get [of "?s [7] True [] [(2, 8), (3, 9)] []" 4] by (simp add: new_queue_def)
  have 9: "pcq_step (?s [7] True [] [(2, 8), (3, 9)] [4]) (Popped 7) (?s [] True [(2, 8)] [(3, 9)] [])"
    using run_get [of 4 "?s [7] True [] [(2, 8), (3, 9)] [4]" 0 0 "Some (Some 7)" "?s [] True [(2, 8)] [(3, 9)] []"]
    by (simp add: d)
  have 10: "pcq_step (?s [] True [(2, 8)] [(3, 9)] []) Silent (?s [] True [] [(3, 9)] [])"
    using run_add [of "(2, 8)" "?s [] True [(2, 8)] [(3, 9)] []" 0 0 False "?s [] True [] [(3, 9)] []"] by (simp add: d)
  have "\<exists>es. pcq_run ?q0 es (?s [] True [] [(3, 9)] [])"
    using 1 2 3 4 5 6 7 8 9 10 by (meson pcq_run.intros)
  then show ?thesis by (simp add: new_queue_def)
qed

end
