(* ===== verification/Doubles.thy ===== *)
theory Doubles
  imports Prelude
begin

section \<open>Scores: \<^verbatim>\<open>float\<close> and \<^verbatim>\<open>double\<close> values\<close>

text \<open>
  The decoders compute with \<^verbatim>\<open>double\<close> scores that may be infinite. A score is a real number, one of the two
  infinities or not-a-number; the operations follow IEEE 754 on the special values (an infinity minus
  itself is NaN, every comparison with NaN is false) and are exact on the finite ones: rounding, the
  signed zeros and overflow of finite values to infinity are not modelled.
\<close>

datatype dbl = Fin real | PInf | NInf | NaN

instantiation dbl :: "{zero, plus, uminus, minus, times, ord}"
begin

definition zero_dbl :: dbl where
  "0 = Fin 0"

fun plus_dbl :: "dbl \<Rightarrow> dbl \<Rightarrow> dbl" where
  "Fin a + Fin b = Fin (a + b)"
| "NaN + _ = NaN"
| "_ + NaN = NaN"
| "PInf + NInf = NaN"
| "NInf + PInf = NaN"
| "PInf + _ = PInf"
| "_ + PInf = PInf"
| "NInf + _ = NInf"
| "_ + NInf = NInf"

fun uminus_dbl :: "dbl \<Rightarrow> dbl" where
  "- Fin a = Fin (- a)"
| "- PInf = NInf"
| "- NInf = PInf"
| "- NaN = NaN"

definition minus_dbl :: "dbl \<Rightarrow> dbl \<Rightarrow> dbl" where
  "a - b = a + - (b :: dbl)"

fun times_dbl :: "dbl \<Rightarrow> dbl \<Rightarrow> dbl" where
  "Fin a * Fin b = Fin (a * b)"
| "NaN * _ = NaN"
| "_ * NaN = NaN"
| "PInf * Fin b = (if b = 0 then NaN else if b > 0 then PInf else NInf)"
| "Fin b * PInf = (if b = 0 then NaN else if b > 0 then PInf else NInf)"
| "NInf * Fin b = (if b = 0 then NaN else if b > 0 then NInf else PInf)"
| "Fin b * NInf = (if b = 0 then NaN else if b > 0 then NInf else PInf)"
| "PInf * PInf = PInf"
| "NInf * NInf = PInf"
| "PInf * NInf = NInf"
| "NInf * PInf = NInf"

fun less_dbl :: "dbl \<Rightarrow> dbl \<Rightarrow> bool" where
  "Fin a < Fin b = (a < b)"
| "NaN < _ = False"
| "_ < NaN = False"
| "_ < NInf = False"
| "PInf < _ = False"
| "NInf < _ = True"
| "_ < PInf = True"

definition less_eq_dbl :: "dbl \<Rightarrow> dbl \<Rightarrow> bool" where
  "a \<le> b \<longleftrightarrow> a < b \<or> a = b \<and> b \<noteq> (NaN :: dbl)"

instance ..

end

definition dmax :: "dbl \<Rightarrow> dbl \<Rightarrow> dbl" where
  "dmax a b = (if a < b then b else a)"

definition dmin :: "dbl \<Rightarrow> dbl \<Rightarrow> dbl" where
  "dmin a b = (if b < a then b else a)"

text \<open>\<^verbatim>\<open>std::exp\<close> and \<^verbatim>\<open>std::log1p\<close>\<close>

fun dexp :: "dbl \<Rightarrow> dbl" where
  "dexp (Fin x) = Fin (exp x)"
| "dexp PInf = PInf"
| "dexp NInf = Fin 0"
| "dexp NaN = NaN"

fun dlog1p :: "dbl \<Rightarrow> dbl" where
  "dlog1p (Fin x) = (if x > -1 then Fin (ln (1 + x)) else if x = -1 then NInf else NaN)"
| "dlog1p PInf = PInf"
| "dlog1p NInf = NaN"
| "dlog1p NaN = NaN"

fun the_fin :: "dbl \<Rightarrow> real" where
  "the_fin (Fin x) = x"
| "the_fin _ = 0"

subsection \<open>Order\<close>

lemma dbl_le_simps [simp]:
  "Fin a \<le> Fin b \<longleftrightarrow> a \<le> b" "\<not> NaN \<le> x" "\<not> x \<le> NaN" "NInf \<le> x \<longleftrightarrow> x \<noteq> NaN" "x \<le> PInf \<longleftrightarrow> x \<noteq> NaN"
  "PInf \<le> x \<longleftrightarrow> x = PInf" "x \<le> NInf \<longleftrightarrow> x = NInf"
  by (cases x; auto simp: less_eq_dbl_def)+

lemma dbl_less_simps [simp]:
  "\<not> x < (x :: dbl)" "\<not> x < NInf" "\<not> PInf < x" "\<not> x < NaN"
  "NInf < x \<longleftrightarrow> x \<noteq> NaN \<and> x \<noteq> NInf" "x < PInf \<longleftrightarrow> x \<noteq> NaN \<and> x \<noteq> PInf"
  by (cases x; simp)+

lemma dbl_le_refl: "(x :: dbl) \<le> x \<longleftrightarrow> x \<noteq> NaN"
  by (simp add: less_eq_dbl_def)

lemma dbl_less_imp_le: "(x :: dbl) < y \<Longrightarrow> x \<le> y"
  by (simp add: less_eq_dbl_def)

lemma dbl_not_less: "x \<noteq> NaN \<Longrightarrow> y \<noteq> NaN \<Longrightarrow> \<not> x < y \<longleftrightarrow> (y :: dbl) \<le> x"
  by (cases x; cases y) auto

lemma dbl_not_le: "x \<noteq> NaN \<Longrightarrow> y \<noteq> NaN \<Longrightarrow> \<not> x \<le> y \<longleftrightarrow> (y :: dbl) < x"
  by (cases x; cases y) auto

lemma dbl_le_trans: "(x :: dbl) \<le> y \<Longrightarrow> y \<le> z \<Longrightarrow> x \<le> z"
  by (cases x; cases y; cases z) auto

lemma dbl_less_asym: "(x :: dbl) < y \<Longrightarrow> \<not> y < x"
  by (cases x; cases y) auto

lemma dbl_less_trans: "(x :: dbl) < y \<Longrightarrow> y < z \<Longrightarrow> x < z"
  by (cases x; cases y; cases z) auto

lemma dbl_le_less_trans: "(x :: dbl) \<le> y \<Longrightarrow> y < z \<Longrightarrow> x < z"
  by (cases x; cases y; cases z) auto

lemma dbl_less_le_trans: "(x :: dbl) < y \<Longrightarrow> y \<le> z \<Longrightarrow> x < z"
  by (cases x; cases y; cases z) auto

lemma dbl_antisym: "(x :: dbl) \<le> y \<Longrightarrow> y \<le> x \<Longrightarrow> x = y"
  by (cases x; cases y) auto

lemma dbl_le_not_NaN: "(x :: dbl) \<le> y \<Longrightarrow> x \<noteq> NaN \<and> y \<noteq> NaN"
  by (cases x; cases y) auto

lemma dbl_not_less_trans:
  "y \<noteq> NaN \<Longrightarrow> \<not> (x :: dbl) < y \<Longrightarrow> \<not> y < z \<Longrightarrow> \<not> x < z"
  by (cases x; cases y; cases z) auto

text \<open>Subtracting a non-negative finite threshold never exceeds the value itself.\<close>

lemma dbl_minus_le: "x \<noteq> NaN \<Longrightarrow> 0 \<le> b \<Longrightarrow> x - Fin b \<le> x"
  by (cases x) (auto simp: minus_dbl_def)

lemma dbl_minus_mono: "x \<le> y \<Longrightarrow> x - Fin b \<le> y - Fin b"
  by (cases x; cases y) (auto simp: minus_dbl_def)

lemma Fin_minus [simp]: "Fin a - Fin b = Fin (a - b)"
  by (simp add: minus_dbl_def)

lemma dmax_Fin [simp]: "dmax (Fin a) (Fin b) = Fin (max a b)"
  by (simp add: dmax_def max_def)

lemma dmax_ge: "a \<noteq> NaN \<Longrightarrow> b \<noteq> NaN \<Longrightarrow> a \<le> dmax a b \<and> b \<le> dmax a b"
  by (cases a; cases b) (auto simp: dmax_def)

lemma dmax_cases: "dmax a b = a \<or> dmax a b = b"
  by (simp add: dmax_def)

end
