(* ===== verification/LanguageModel.thy ===== *)
theory LanguageModel
  imports Doubles "HOL-Library.AList"
begin

section \<open>Language models (\<^verbatim>\<open>lib/text/decoder/lm/LM.h\<close>, \<^verbatim>\<open>lib/text/decoder/lm/ZeroLM.cpp\<close>)\<close>

text \<open>
  The decoders reach a language model only through the interface \<^verbatim>\<open>LM\<close>. A state is a pointer, given by its
  address; the record \<open>lm\<close> holds the four virtual functions over a state \<open>'l\<close> of the model that the calls
  update, and \<open>score\<close>, \<open>finish\<close> and \<open>updateCache\<close> may throw. \<open>zeroLM\<close> is the implementation of the repository that
  needs no external library: its states form a tree that \<^verbatim>\<open>child\<close> grows on demand.
\<close>

type_synonym lmStatePtr = nat

record 'l lm =
  lm_start :: "bool \<Rightarrow> 'l \<Rightarrow> lmStatePtr \<times> 'l"
  lm_score :: "lmStatePtr \<Rightarrow> int \<Rightarrow> 'l \<Rightarrow> ((lmStatePtr \<times> dbl) \<times> 'l) result"
  lm_finish :: "lmStatePtr \<Rightarrow> 'l \<Rightarrow> ((lmStatePtr \<times> dbl) \<times> 'l) result"
  lm_updateCache :: "lmStatePtr list \<Rightarrow> 'l \<Rightarrow> 'l result"

text \<open>
  \<^verbatim>\<open>LMState::compare\<close>: the order of the addresses. A null argument throws.
\<close>

definition compare :: "lmStatePtr \<Rightarrow> lmStatePtr option \<Rightarrow> int result" where
  "compare this state =
     (case state of
        None \<Rightarrow> Inl (Runtime_error ''a state is null'')
      | Some inState \<Rightarrow> Inr (if this = inState then 0 else if this < inState then -1 else 1))"

text \<open>The heap of \<^verbatim>\<open>LMState\<close> objects: the object at an address is its map of children.\<close>

type_synonym lmHeap = "(int \<times> lmStatePtr) list list"

definition child :: "int \<Rightarrow> lmStatePtr \<Rightarrow> lmHeap \<Rightarrow> (lmStatePtr \<times> lmHeap) result" where
  "child usrIdx s h =
     (if s \<ge> length h then Inl (Undefined ''language model state'')
      else case map_of (h ! s) usrIdx of
        Some c \<Rightarrow> Inr (c, h)
      | None \<Rightarrow> Inr (length h, h[s := AList.update usrIdx (length h) (h ! s)] @ [[]]))"

definition zeroLM :: "lmHeap lm" where
  "zeroLM =
     \<lparr>lm_start = (\<lambda>_ h. (length h, h @ [[]])),
      lm_score = (\<lambda>s i h. rbind (child i s h) (\<lambda>(c, h'). Inr ((c, 0), h'))),
      lm_finish = (\<lambda>s h. Inr ((s, 0), h)),
      lm_updateCache = (\<lambda>ss h. Inr h)\<rparr>"

subsection \<open>A state of \<^verbatim>\<open>ZeroLM\<close> is the history that led to it\<close>

fun walk :: "lmHeap \<Rightarrow> lmStatePtr \<Rightarrow> int list \<Rightarrow> lmStatePtr option" where
  "walk h s [] = Some s"
| "walk h s (i # is) = (case map_of (h ! s) i of None \<Rightarrow> None | Some c \<Rightarrow> walk h c is)"

definition lm_wf :: "lmHeap \<Rightarrow> bool" where
  "lm_wf h \<longleftrightarrow>
     (\<forall>s < length h. \<forall>i c. map_of (h ! s) i = Some c \<longrightarrow> s < c \<and> c < length h) \<and>
     (\<forall>s < length h. \<forall>s' < length h. \<forall>i i' c. map_of (h ! s) i = Some c \<longrightarrow> map_of (h ! s') i' = Some c \<longrightarrow> s = s' \<and> i = i')"

lemma lm_wf_less: "lm_wf h \<Longrightarrow> s < length h \<Longrightarrow> map_of (h ! s) i = Some c \<Longrightarrow> s < c \<and> c < length h"
  unfolding lm_wf_def by blast

lemma lm_wf_inj:
  "lm_wf h \<Longrightarrow> s < length h \<Longrightarrow> s' < length h \<Longrightarrow> map_of (h ! s) i = Some c \<Longrightarrow> map_of (h ! s') i' = Some c
    \<Longrightarrow> s = s' \<and> i = i'"
  unfolding lm_wf_def by blast

lemma walk_append: "walk h s (xs @ ys) = (case walk h s xs of None \<Rightarrow> None | Some c \<Rightarrow> walk h c ys)"
  by (induction xs arbitrary: s) (auto split: option.splits)

lemma walk_bound: "lm_wf h \<Longrightarrow> s < length h \<Longrightarrow> walk h s is = Some c \<Longrightarrow> s + length is \<le> c \<and> c < length h"
proof (induction "is" arbitrary: s)
  case (Cons i "is")
  then obtain d where d: "map_of (h ! s) i = Some d" "walk h d is = Some c" by (auto split: option.splits)
  have "s < d" "d < length h" using lm_wf_less [OF Cons.prems(1,2) d(1)] by auto
  then show ?case using Cons.IH [OF Cons.prems(1) _ d(2)] by auto
qed auto

lemma walk_inj:
  assumes "lm_wf h" "s < length h"
  shows "walk h s xs = Some c \<Longrightarrow> walk h s ys = Some c \<Longrightarrow> xs = ys"
proof (induction xs arbitrary: ys c rule: rev_induct)
  case Nil
  then show ?case using walk_bound [OF assms, of ys c] by auto
next
  case (snoc x xs)
  then obtain d where d: "walk h s xs = Some d" "map_of (h ! d) x = Some c"
    by (auto simp: walk_append split: option.splits)
  note bd = walk_bound [OF assms d(1)]
  have "ys \<noteq> []" using snoc.prems walk_bound [OF assms, of "xs @ [x]" c] by auto
  then obtain zs y where ys: "ys = zs @ [y]" by (metis rev_exhaust)
  then obtain e where e: "walk h s zs = Some e" "map_of (h ! e) y = Some c"
    using snoc.prems by (auto simp: walk_append split: option.splits)
  have "d = e" "x = y" using lm_wf_inj [OF assms(1) _ _ d(2) e(2)] bd walk_bound [OF assms e(1)] by auto
  then show ?case using snoc.IH [OF d(1)] e(1) ys by simp
qed

lemma child_spec:
  assumes "lm_wf h" "s < length h" "child i s h = Inr (c, h')"
  shows "lm_wf h' \<and> length h \<le> length h' \<and> map_of (h' ! s) i = Some c \<and> c < length h' \<and>
    (\<forall>t < length h. \<forall>j d. map_of (h ! t) j = Some d \<longrightarrow> map_of (h' ! t) j = Some d)"
proof (cases "map_of (h ! s) i")
  case (Some d)
  then show ?thesis using assms lm_wf_less [OF assms(1,2) Some] by (simp add: child_def)
next
  case None
  then have h': "h' = h[s := AList.update i (length h) (h ! s)] @ [[]]" and c: "c = length h"
    using assms(2,3) by (auto simp: child_def)
  have len: "length h' = Suc (length h)" unfolding h' by simp
  have get: "map_of (h' ! t) j = (if t = length h then None else if t = s \<and> j = i then Some (length h) else map_of (h ! t) j)"
    if "t < length h'" for t j
    using that assms(2) unfolding h' by (auto simp: nth_append nth_list_update update_conv')
  have old: "(t = s \<and> j = i \<and> d = length h) \<or> (t < length h \<and> map_of (h ! t) j = Some d \<and> t < d \<and> d < length h)"
    if "t < length h'" "map_of (h' ! t) j = Some d" for t j d
    using that get [OF that(1), of j] len lm_wf_less [OF assms(1), of t j d] by (auto split: if_splits)
  have "lm_wf h'"
    unfolding lm_wf_def
  proof (intro conjI allI impI)
    fix t j d assume t: "t < length h'" "map_of (h' ! t) j = Some d"
    show "t < d" "d < length h'" using old [OF t] len assms(2) by auto
  next
    fix t t' j j' d assume t: "t < length h'" "t' < length h'" "map_of (h' ! t) j = Some d" "map_of (h' ! t') j' = Some d"
    show "t = t'" "j = j'"
      using old [OF t(1,3)] old [OF t(2,4)] lm_wf_inj [OF assms(1), of t t' j d j'] by auto
  qed
  then show ?thesis using get len c assms(2) None by auto
qed

inductive zeroLM_reach :: "lmHeap \<Rightarrow> bool" where
  zero_start: "lm_start zeroLM b [] = (s, h) \<Longrightarrow> zeroLM_reach h"
| zero_score: "zeroLM_reach h \<Longrightarrow> lm_score zeroLM s i h = Inr (r, h') \<Longrightarrow> zeroLM_reach h'"

lemma zeroLM_score_child:
  "lm_score zeroLM s i h = Inr ((c, x), h') \<longleftrightarrow> child i s h = Inr (c, h') \<and> x = 0"
  by (auto simp: zeroLM_def rbind_eq_Inr_iff)

lemma zeroLM_reach_wf: "zeroLM_reach h \<Longrightarrow> lm_wf h \<and> h \<noteq> []"
proof (induction rule: zeroLM_reach.induct)
  case (zero_start b s h)
  then show ?case by (auto simp: zeroLM_def lm_wf_def)
next
  case (zero_score h s i r h')
  obtain c x where r: "r = (c, x)" by (cases r)
  have ch: "child i s h = Inr (c, h')" using zero_score.hyps(2) r zeroLM_score_child by simp
  then have "s < length h" by (auto simp: child_def split: if_splits)
  then show ?case using child_spec [OF _ _ ch] zero_score.IH by auto
qed

lemma walk_mono:
  assumes "lm_wf h" "s < length h"
    and "\<forall>t < length h. \<forall>j d. map_of (h ! t) j = Some d \<longrightarrow> map_of (h' ! t) j = Some d"
  shows "walk h s xs = Some c \<Longrightarrow> walk h' s xs = Some c"
  using assms(2)
proof (induction xs arbitrary: s)
  case (Cons i xs)
  then obtain d where d: "map_of (h ! s) i = Some d" "walk h d xs = Some c" by (auto split: option.splits)
  moreover have "d < length h" using lm_wf_less [OF assms(1) Cons.prems(2) d(1)] by simp
  ultimately show ?case using Cons.IH [of d] assms(3) Cons.prems(2) by simp
qed simp

text \<open>
  C33. A state of \<^verbatim>\<open>ZeroLM\<close> stands for exactly one token history, which is what lets the decoders merge two
  hypotheses with the same state: in every heap that queries can build, two histories that lead to the same
  state are equal; scoring a token in the state of a history returns the state of the extended history with
  score 0, and every earlier history keeps its state.
\<close>

theorem zeroLM_state_is_history:
  assumes "zeroLM_reach h" "walk h 0 xs = Some s"
  shows "(\<forall>ys. walk h 0 ys = Some s \<longrightarrow> ys = xs) \<and>
    (\<exists>c h'. lm_score zeroLM s i h = Inr ((c, 0), h') \<and> walk h' 0 (xs @ [i]) = Some c \<and>
       (\<forall>ys d. walk h 0 ys = Some d \<longrightarrow> walk h' 0 ys = Some d))"
proof -
  have wf: "lm_wf h" and ne: "0 < length h" using zeroLM_reach_wf [OF assms(1)] by auto
  have s: "s < length h" using walk_bound [OF wf ne assms(2)] by simp
  obtain c h' where ch: "child i s h = Inr (c, h')"
    using s by (cases "map_of (h ! s) i") (auto simp: child_def)
  note spec = child_spec [OF wf s ch]
  have mono: "walk h' 0 ys = Some d" if "walk h 0 ys = Some d" for ys d
    using walk_mono [OF wf ne _ that] spec by blast
  have "walk h' 0 (xs @ [i]) = Some c" using mono [OF assms(2)] spec by (simp add: walk_append)
  then show ?thesis
    using walk_inj [OF wf ne assms(2)] mono ch zeroLM_score_child by blast
qed

theorem zeroLM_state_is_history_witness:
  "\<exists>c h'. lm_score zeroLM 1 5 [[(3, 1)], []] = Inr ((c, 0), h') \<and> walk h' 0 [3, 5] = Some c"
proof -
  have "zeroLM_reach [[]]" by (rule zero_start [of False 0]) (simp add: zeroLM_def)
  then have "zeroLM_reach [[(3, 1)], []]"
    by (rule zero_score [of _ 0 3 "(1, 0)"]) (simp add: zeroLM_def child_def)
  then show ?thesis using zeroLM_state_is_history [of "[[(3, 1)], []]" "[3]" 1 5] by auto
qed

end
