(* ===== verification/DecoderUtils.thy ===== *)
theory DecoderUtils
  imports LanguageModel
begin

section \<open>What the beam-search decoders share (\<^verbatim>\<open>lib/text/decoder/Utils.h\<close>, \<^verbatim>\<open>lib/text/decoder/Decoder.h\<close>)\<close>

text \<open>
  The functions of \<^verbatim>\<open>Utils.h\<close> are templates over the class of decoder states. The record \<open>decoderState\<close> has the
  fields that every such class has; each decoder extends it by its own. What the templates call of a state
  class (\<^verbatim>\<open>compareNoScoreStates\<close>, \<^verbatim>\<open>getWord\<close>, \<^verbatim>\<open>isComplete\<close>) is an argument.

  The hypotheses of all frames live in an \<^verbatim>\<open>unordered_map<int, vector<DecoderState>>\<close>, an association list of
  vectors. A state points to its parent, an element of the vector of an earlier frame. Swapping two vectors
  moves their buffers, so a pointer is the identifier of a buffer and an offset; identifier 0 is that of a
  vector that holds nothing. A pointer whose buffer is gone or too short is dangling. \<^verbatim>\<open>int\<close> counters are
  unbounded.
\<close>

type_synonym hypPtr = "nat \<times> nat"

record decoderState =
  score :: dbl
  lmState :: lmStatePtr
  parent :: "hypPtr option"
  token :: int
  amScore :: dbl
  lmScore :: dbl

type_synonym 's hyps = "(int \<times> nat \<times> 's list) list"

datatype criterionType = ASG | CTC | S2S

text \<open>The fields \<^verbatim>\<open>amScore\<close> and \<^verbatim>\<open>lmScore\<close> of a default \<^verbatim>\<open>DecodeResult\<close> are not initialised.\<close>

record decodeResult =
  resScore :: dbl
  resAmScore :: "dbl option"
  resLmScore :: "dbl option"
  words :: "int list"
  tokens :: "int list"

definition new_DecodeResult :: "nat \<Rightarrow> decodeResult" where
  "new_DecodeResult n =
     \<lparr>resScore = 0, resAmScore = None, resLmScore = None, words = replicate n (-1), tokens = replicate n (-1)\<rparr>"

definition kNegativeInfinity :: dbl where
  "kNegativeInfinity = NInf"

definition kLookBackLimit :: int where
  "kLookBackLimit = 100"

subsection \<open>Candidates\<close>

type_synonym 's cands = "dbl \<times> 's list"

definition candidatesReset :: "'s cands" where
  "candidatesReset = (kNegativeInfinity, [])"

definition candidatesAdd :: "dbl \<Rightarrow> 'z decoderState_scheme \<Rightarrow> 'z decoderState_scheme cands \<Rightarrow> 'z decoderState_scheme cands" where
  "candidatesAdd beamThreshold c bc =
     (let (best, candidates) = bc;
          best' = (if score c \<ge> best then score c else best)
      in (best', if score c \<ge> best' - beamThreshold then candidates @ [c] else candidates))"

definition candidate_before :: "('z decoderState_scheme \<Rightarrow> 'z decoderState_scheme \<Rightarrow> int) \<Rightarrow>
    'z decoderState_scheme \<Rightarrow> 'z decoderState_scheme \<Rightarrow> bool" where
  "candidate_before compareNoScoreStates node1 node2 =
     (let cmp = compareNoScoreStates node1 node2 in if cmp = 0 then score node2 < score node1 else cmp > 0)"

definition merged_score :: "bool \<Rightarrow> dbl \<Rightarrow> dbl \<Rightarrow> dbl" where
  "merged_score logAdd a b =
     (let maxScore = dmax a b in
      if logAdd then maxScore + dlog1p (dexp (dmin a b - maxScore)) else maxScore)"

text \<open>
  The merging loop over the sorted candidates: the first argument is \<^verbatim>\<open>candidatePtrs[nHypAfterMerging - 1]\<close>.
\<close>

fun merge_from :: "('z decoderState_scheme \<Rightarrow> 'z decoderState_scheme \<Rightarrow> int) \<Rightarrow> bool \<Rightarrow> 'z decoderState_scheme \<Rightarrow>
    'z decoderState_scheme list \<Rightarrow> 'z decoderState_scheme list" where
  "merge_from cmp logAdd cur [] = [cur]"
| "merge_from cmp logAdd cur (x # xs) =
     (if cmp x cur \<noteq> 0 then cur # merge_from cmp logAdd x xs
      else merge_from cmp logAdd (cur\<lparr>score := merged_score logAdd (score cur) (score x)\<rparr>) xs)"

definition compareNodeScore :: "'z decoderState_scheme \<Rightarrow> 'z decoderState_scheme \<Rightarrow> bool" where
  "compareNodeScore node1 node2 = (score node2 < score node1)"

text \<open>
  \<^verbatim>\<open>std::nth_element\<close> and \<^verbatim>\<open>std::partial_sort\<close> are a full sort, which meets their contracts. When no candidate
  reaches the threshold the resized vector holds a null pointer, which is dereferenced unless the beam is
  empty; a negative beam is an iterator out of range.
\<close>

definition candidatesStore :: "('z decoderState_scheme \<Rightarrow> 'z decoderState_scheme \<Rightarrow> int) \<Rightarrow> 'z decoderState_scheme list \<Rightarrow>
    int \<Rightarrow> dbl \<Rightarrow> bool \<Rightarrow> bool \<Rightarrow> 'z decoderState_scheme list result" where
  "candidatesStore compareNoScoreStates candidates beamSize threshold logAdd returnSorted =
     (if candidates = [] then Inr []
      else
        case std_sort (candidate_before compareNoScoreStates) (filter (\<lambda>c. score c \<ge> threshold) candidates) of
          [] \<Rightarrow> (if beamSize = 0 then Inr [] else Inl (Undefined ''null candidate''))
        | c # cs \<Rightarrow>
            let merged = merge_from compareNoScoreStates logAdd c cs;
                nValidHyp = int (length merged);
                finalSize = min nValidHyp beamSize
            in
            if finalSize < 0 then Inl (Undefined ''iterator out of range'')
            else
              let ordered =
                (if \<not> returnSorted \<and> nValidHyp > beamSize then std_sort compareNodeScore merged
                 else if returnSorted then std_sort compareNodeScore merged
                 else merged)
              in Inr (take (nat finalSize) ordered))"

subsection \<open>The map of hypotheses\<close>

definition vec :: "'s hyps \<Rightarrow> int \<Rightarrow> nat \<times> 's list" where
  "vec h k = (case map_of h k of None \<Rightarrow> (0, []) | Some v \<Rightarrow> v)"

text \<open>\<^verbatim>\<open>operator[]\<close> of the map inserts an empty vector for a missing key.\<close>

definition touch :: "int \<Rightarrow> 's hyps \<Rightarrow> 's hyps" where
  "touch k h = (if map_of h k = None then h @ [(k, 0, [])] else h)"

text \<open>The loop at the start of \<^verbatim>\<open>decodeStep\<close> that emplaces empty vectors up to a given size.\<close>

definition extend_hyp :: "nat \<Rightarrow> 's hyps \<Rightarrow> 's hyps" where
  "extend_hyp n h = fold (\<lambda>i. touch (int i)) [length h..<n] h"

definition put :: "int \<Rightarrow> nat \<times> 's list \<Rightarrow> 's hyps \<Rightarrow> 's hyps" where
  "put k v h = AList.update k v (touch k h)"

definition deref :: "'s hyps \<Rightarrow> hypPtr \<Rightarrow> 's option" where
  "deref h p =
     (case List.find (\<lambda>(k, b, xs). b \<noteq> 0 \<and> b = fst p) h of
        None \<Rightarrow> None
      | Some (k, b, xs) \<Rightarrow> if snd p < length xs then Some (xs ! snd p) else None)"

definition parent_of :: "'z decoderState_scheme hyps \<Rightarrow> 'z decoderState_scheme \<Rightarrow> 'z decoderState_scheme option result" where
  "parent_of h s =
     (case parent s of
        None \<Rightarrow> Inr None
      | Some p \<Rightarrow> (case deref h p of None \<Rightarrow> Inl (Undefined ''dangling parent'') | Some s' \<Rightarrow> Inr (Some s')))"

subsection \<open>Results\<close>

text \<open>
  The loop of \<^verbatim>\<open>getHypothesis\<close>: \<open>k\<close> is \<^verbatim>\<open>finalFrame - i + 1\<close>, the number of slots left in front of the last one
  written.
\<close>

fun fill_result :: "'z decoderState_scheme hyps \<Rightarrow> ('z decoderState_scheme \<Rightarrow> int) \<Rightarrow> nat \<Rightarrow> 'z decoderState_scheme \<Rightarrow>
    decodeResult \<Rightarrow> decodeResult result" where
  "fill_result h getWord 0 node res = Inl (Undefined ''index out of range'')"
| "fill_result h getWord (Suc k) node res =
     (let res' = res\<lparr>words := (words res)[k := getWord node], tokens := (tokens res)[k := token node]\<rparr> in
      rbind (parent_of h node) (\<lambda>p.
        case p of None \<Rightarrow> Inr res' | Some node' \<Rightarrow> fill_result h getWord k node' res'))"

definition getHypothesis :: "'z decoderState_scheme hyps \<Rightarrow> ('z decoderState_scheme \<Rightarrow> int) \<Rightarrow>
    'z decoderState_scheme option \<Rightarrow> int \<Rightarrow> decodeResult result" where
  "getHypothesis h getWord node finalFrame =
     (case node of
        None \<Rightarrow> Inr (new_DecodeResult 0)
      | Some s \<Rightarrow>
          if finalFrame + 1 < 0 then Inl (Length_error ''vector'')
          else
            fill_result h getWord (nat (finalFrame + 1)) s
              ((new_DecodeResult (nat (finalFrame + 1)))
                 \<lparr>resScore := score s, resAmScore := Some (amScore s), resLmScore := Some (lmScore s)\<rparr>))"

definition getAllHypothesis :: "'z decoderState_scheme hyps \<Rightarrow> ('z decoderState_scheme \<Rightarrow> int) \<Rightarrow>
    'z decoderState_scheme list \<Rightarrow> int \<Rightarrow> decodeResult list result" where
  "getAllHypothesis h getWord finalHyps finalFrame =
     rmap (\<lambda>node. getHypothesis h getWord (Some node) finalFrame) finalHyps"

fun best_node :: "'z decoderState_scheme \<Rightarrow> 'z decoderState_scheme list \<Rightarrow> 'z decoderState_scheme" where
  "best_node best [] = best"
| "best_node best (s # ss) = best_node (if score best < score s then s else best) ss"

text \<open>The first loop of \<^verbatim>\<open>findBestAncestor\<close>; the number is \<^verbatim>\<open>lookBack - n\<close>.\<close>

fun look_back :: "'z decoderState_scheme hyps \<Rightarrow> nat \<Rightarrow> 'z decoderState_scheme option \<Rightarrow> int \<Rightarrow>
    ('z decoderState_scheme option \<times> int) result" where
  "look_back h 0 node n = Inr (node, n)"
| "look_back h (Suc k) None n = Inr (None, n)"
| "look_back h (Suc k) (Some s) n = rbind (parent_of h s) (\<lambda>p. look_back h k p (n + 1))"

text \<open>
  The second loop. The number is a bound on its iterations, so that the definition is total: a chain of
  parents that does not end would be undefined behaviour here.
\<close>

fun find_complete :: "'z decoderState_scheme hyps \<Rightarrow> ('z decoderState_scheme \<Rightarrow> bool result) \<Rightarrow> int \<Rightarrow> nat \<Rightarrow>
    'z decoderState_scheme option \<Rightarrow> int \<Rightarrow> ('z decoderState_scheme option \<times> int) result" where
  "find_complete h isComplete maxLookBack fuel None n = Inr (None, n)"
| "find_complete h isComplete maxLookBack 0 (Some s) n = Inl (Undefined ''endless chain'')"
| "find_complete h isComplete maxLookBack (Suc fuel) (Some s) n =
     rbind (isComplete s) (\<lambda>complete.
       if complete then Inr (Some s, n)
       else rbind (parent_of h s) (\<lambda>p.
         if n + 1 = maxLookBack then Inr (p, n + 1)
         else find_complete h isComplete maxLookBack fuel p (n + 1)))"

definition findBestAncestor :: "'z decoderState_scheme hyps \<Rightarrow> ('z decoderState_scheme \<Rightarrow> bool result) \<Rightarrow>
    'z decoderState_scheme list \<Rightarrow> int \<Rightarrow> ('z decoderState_scheme option \<times> int) result" where
  "findBestAncestor h isComplete finalHyps lookBack =
     (case finalHyps of
        [] \<Rightarrow> Inr (None, lookBack)
      | s # ss \<Rightarrow>
          rbind (look_back h (nat lookBack) (Some (best_node s ss)) 0) (\<lambda>(node, n).
            find_complete h isComplete (lookBack + kLookBackLimit) (Suc (length h)) node n))"

subsection \<open>Pruning\<close>

definition swap_frames :: "int \<Rightarrow> int \<Rightarrow> 's hyps \<Rightarrow> 's hyps" where
  "swap_frames i j h = (let h' = touch j (touch i h) in put j (vec h' i) (put i (vec h' j) h'))"

lemma length_touch: "length (touch k h) \<le> Suc (length h)" "length h \<le> length (touch k h)"
  by (simp_all add: touch_def)

lemma map_of_touch: "map_of (touch k h) j = (if j = k \<and> map_of h k = None then Some (0, []) else map_of h j)"
  by (auto simp: touch_def map_add_def split: option.splits)

lemma touch_present [simp]: "map_of h k \<noteq> None \<Longrightarrow> touch k h = h"
  by (simp add: touch_def)

lemma length_update_present: "map_of h k \<noteq> None \<Longrightarrow> length (AList.update k v h) = length h"
  by (induction h) (auto split: if_splits)

lemma length_put_present: "map_of h k \<noteq> None \<Longrightarrow> length (put k v h) = length h"
  by (simp add: put_def length_update_present)

lemma map_of_put: "map_of (put k v h) j = (if j = k then Some v else map_of h j)"
  by (simp add: put_def update_conv' map_of_touch)

text \<open>
  The loop of \<^verbatim>\<open>pruneAndNormalize\<close>. Its bound is the current size of the map, which the body may increase; with
  keys other than \<open>0, \<dots>, size - 1\<close> the loop need not end, so it runs under a bound on its iterations.
\<close>

fun prune_shift :: "nat \<Rightarrow> int \<Rightarrow> int \<Rightarrow> int \<Rightarrow> 's hyps \<Rightarrow> 's hyps result" where
  "prune_shift fuel startFrame lookBack i h =
     (if i < int (length h)
      then case fuel of
          0 \<Rightarrow> Inl (Undefined ''endless loop'')
        | Suc fuel' \<Rightarrow>
            prune_shift fuel' startFrame lookBack (i + 1)
              (if i \<le> lookBack then swap_frames i (i + startFrame) h else put i (0, []) h)
      else Inr h)"

declare prune_shift.simps [simp del]

definition clear_parents :: "'z decoderState_scheme hyps \<Rightarrow> 'z decoderState_scheme hyps" where
  "clear_parents h = put 0 (fst (vec h 0), map (\<lambda>s. s\<lparr>parent := None\<rparr>) (snd (vec h 0))) h"

definition normalize :: "int \<Rightarrow> 'z decoderState_scheme hyps \<Rightarrow> 'z decoderState_scheme hyps result" where
  "normalize lookBack h =
     (case snd (vec h lookBack) of
        [] \<Rightarrow> Inl (Undefined ''front of an empty vector'')
      | s # ss \<Rightarrow>
          let largestScore = score (best_node s ss) in
          Inr (put lookBack
            (fst (vec h lookBack), map (\<lambda>s. s\<lparr>score := score s - largestScore\<rparr>) (snd (vec h lookBack))) h))"

definition pruneAndNormalize :: "int \<Rightarrow> int \<Rightarrow> 'z decoderState_scheme hyps \<Rightarrow> 'z decoderState_scheme hyps result" where
  "pruneAndNormalize startFrame lookBack h =
     rbind (prune_shift (Suc (length h)) startFrame lookBack 0 h) (\<lambda>h'.
       normalize lookBack (clear_parents h'))"

text \<open>
  \<^verbatim>\<open>hyp_.find(k)->second\<close> for a key that must be present, and an element of a buffer the caller passes.
\<close>

definition find_frame :: "'s hyps \<Rightarrow> int \<Rightarrow> 's list result" where
  "find_frame h k = (case map_of h k of None \<Rightarrow> Inl (Undefined ''missing frame'') | Some v \<Rightarrow> Inr (snd v))"

definition cell :: "dbl list \<Rightarrow> int \<Rightarrow> dbl result" where
  "cell xs i = (if 0 \<le> i \<and> i < int (length xs) then Inr (xs ! nat i) else Inl (Undefined ''index out of range''))"

text \<open>
  The tokens of one frame, best emission first when there are more than \<^verbatim>\<open>beamSizeToken\<close> of them.
\<close>

definition token_order :: "dbl list \<Rightarrow> int \<Rightarrow> int \<Rightarrow> int \<Rightarrow> int list result" where
  "token_order emissions t N beamSizeToken =
     (if N > beamSizeToken
      then if beamSizeToken < 0 \<or> int (length emissions) < (t + 1) * N then Inl (Undefined ''iterator out of range'')
        else Inr (std_sort (\<lambda>l r. emissions ! nat (t * N + r) < emissions ! nat (t * N + l)) [0..N - 1])
      else Inr [0..N - 1])"

definition updateLMCache :: "'l lm \<Rightarrow> 'z decoderState_scheme list \<Rightarrow> 'l \<Rightarrow> 'l result" where
  "updateLMCache lm hypothesis l = lm_updateCache lm (map lmState hypothesis) l"

end
