(* ===== verification/DecoderBeam.thy ===== *)
theory DecoderBeam
  imports DecoderUtils
begin

section \<open>The history of hypotheses: parent pointers, back-tracking and pruning\<close>

text \<open>
  \<open>beam_ok h f nb\<close> is the invariant of the map of hypotheses after \<open>f\<close> frames: the keys are \<open>0, \<dots>, size - 1\<close>, the
  frames up to \<open>f\<close> have buffers of their own, the later ones are empty, the states of frame 0 have no parent
  and every state of frame \<open>k + 1\<close> points to an element of frame \<open>k\<close>. Under it every chain of parents ends, no
  pointer dangles, and the functions of \<^verbatim>\<open>Utils.h\<close> that follow the chains stay within their bounds.
\<close>

definition elems :: "'s hyps \<Rightarrow> int \<Rightarrow> 's list" where
  "elems h k = snd (vec h k)"

definition bid :: "'s hyps \<Rightarrow> int \<Rightarrow> nat" where
  "bid h k = fst (vec h k)"

definition contig :: "'s hyps \<Rightarrow> bool" where
  "contig h \<longleftrightarrow> distinct (map fst h) \<and> set (map fst h) = {0..<int (length h)}"

definition beam_ok :: "'z decoderState_scheme hyps \<Rightarrow> int \<Rightarrow> nat \<Rightarrow> bool" where
  "beam_ok h f nb \<longleftrightarrow>
     contig h \<and> 0 \<le> f \<and> f < int (length h) \<and>
     (\<forall>k\<in>{0..f}. 0 < bid h k \<and> bid h k < nb) \<and> inj_on (bid h) {0..f} \<and> (\<forall>k>f. vec h k = (0, [])) \<and>
     (\<forall>s\<in>set (elems h 0). parent s = None) \<and>
     (\<forall>k\<in>{0..<f}. \<forall>s\<in>set (elems h (k + 1)). \<exists>i<length (elems h k). parent s = Some (bid h k, i))"

lemma contig_Some: "contig h \<Longrightarrow> 0 \<le> k \<Longrightarrow> k < int (length h) \<Longrightarrow> \<exists>v. map_of h k = Some v"
proof -
  assume c: "contig h" "0 \<le> k" "k < int (length h)"
  then have "k \<in> fst ` set h" by (simp add: contig_def)
  then show ?thesis by (metis map_of_eq_None_iff not_Some_eq)
qed

lemma map_of_iff_keys: "map_of h k \<noteq> None \<longleftrightarrow> k \<in> set (map fst h)"
  by (simp add: map_of_eq_None_iff)

lemma keys_put: "map_of h k \<noteq> None \<Longrightarrow> map fst (put k v h) = map fst h"
  by (simp add: put_def update_keys map_of_eq_None_iff)

lemma contig_put: "contig h \<Longrightarrow> map_of h k \<noteq> None \<Longrightarrow> contig (put k v h)"
  by (simp add: contig_def keys_put length_put_present del: set_map)

lemma vec_put: "vec (put k v h) j = (if j = k then v else vec h j)"
  by (simp add: vec_def map_of_put)

lemma beam_okD:
  assumes "beam_ok h f nb"
  shows "contig h" "0 \<le> f" "f < int (length h)" "inj_on (bid h) {0..f}"
    and "\<And>k. f < k \<Longrightarrow> vec h k = (0, [])" "\<And>s. s \<in> set (elems h 0) \<Longrightarrow> parent s = None"
    and "\<And>k. 0 \<le> k \<Longrightarrow> k \<le> f \<Longrightarrow> 0 < bid h k" "\<And>k. 0 \<le> k \<Longrightarrow> k \<le> f \<Longrightarrow> bid h k < nb"
    and "\<And>k s. 0 \<le> k \<Longrightarrow> k < f \<Longrightarrow> s \<in> set (elems h (k + 1)) \<Longrightarrow> \<exists>i<length (elems h k). parent s = Some (bid h k, i)"
  using assms unfolding beam_ok_def by simp_all

lemma deref_elem:
  assumes "beam_ok h f nb" "0 \<le> k" "k \<le> f" "i < length (elems h k)"
  shows "deref h (bid h k, i) = Some (elems h k ! i)"
proof -
  let ?P = "\<lambda>(k', b, xs :: 'a decoderState_scheme list). b \<noteq> 0 \<and> b = bid h k"
  note ok = beam_okD [OF assms(1)]
  have d: "distinct (map fst h)" using ok(1) by (simp add: contig_def)
  have unique: "e = (k, vec h k)" if e: "e \<in> set h" "?P e" for e
  proof -
    obtain k' b xs where e': "e = (k', b, xs)" by (metis prod_cases3)
    have v: "vec h k' = (b, xs)" using e(1) e' d by (simp add: vec_def)
    have b: "b \<noteq> 0" "b = bid h k" using e(2) e' by auto
    have "k' \<in> fst ` set h" using e(1) e' by force
    then have "0 \<le> k'" using ok(1) by (auto simp: contig_def)
    moreover have "k' \<le> f"
    proof (rule ccontr)
      assume "\<not> k' \<le> f"
      then have "vec h k' = (0, [])" using ok(5) by simp
      then show False using v b(1) by simp
    qed
    moreover have "bid h k' = bid h k" using v b by (simp add: bid_def)
    ultimately have "k' = k" using assms(2,3) inj_onD [OF ok(4)] by simp
    then show ?thesis using e' v by simp
  qed
  obtain v where "map_of h k = Some v" using contig_Some [OF ok(1) assms(2)] assms(3) ok(3) by auto
  then have mem: "(k, vec h k) \<in> set h" by (auto simp: vec_def dest: map_of_SomeD)
  have sat: "?P (k, vec h k)" using ok(7) [OF assms(2,3)] by (simp add: bid_def split_beta)
  have "List.find ?P h = Some (k, vec h k)"
  proof (cases "List.find ?P h")
    case None
    then have "\<forall>e\<in>set h. \<not> ?P e" unfolding find_None_iff by blast
    from bspec [OF this mem] show ?thesis using sat by contradiction
  next
    case (Some e)
    then have "e \<in> set h" "?P e" unfolding find_Some_iff by (auto simp: in_set_conv_nth)
    then show ?thesis using unique Some by simp
  qed
  then show ?thesis using assms(4) by (simp add: deref_def elems_def split_beta)
qed

lemma parent_of_elem:
  assumes "beam_ok h f nb" "0 \<le> k" "k \<le> f" "s \<in> set (elems h k)"
  shows "if k = 0 then parent_of h s = Inr None
    else \<exists>s'\<in>set (elems h (k - 1)). parent_of h s = Inr (Some s')"
proof (cases "k = 0")
  case True
  then show ?thesis using assms by (simp add: beam_ok_def parent_of_def)
next
  case False
  have "k - 1 \<in> {0..<f}" "k = k - 1 + 1" using assms(2,3) False by auto
  then obtain i where i: "i < length (elems h (k - 1))" "parent s = Some (bid h (k - 1), i)"
    using beam_okD(9) [OF assms(1), of "k - 1" s] assms(4) by auto
  have "deref h (bid h (k - 1), i) = Some (elems h (k - 1) ! i)"
    using deref_elem [OF assms(1) _ _ i(1)] False assms(2,3) by auto
  then show ?thesis using False i by (auto simp: parent_of_def)
qed

subsection \<open>Histories\<close>

inductive history :: "'z decoderState_scheme hyps \<Rightarrow> 'z decoderState_scheme \<Rightarrow> 'z decoderState_scheme list \<Rightarrow> bool" for h where
  history_root: "parent_of h s = Inr None \<Longrightarrow> history h s [s]"
| history_step: "parent_of h s = Inr (Some s') \<Longrightarrow> history h s' ss \<Longrightarrow> history h s (ss @ [s])"

lemma history_exists:
  assumes "beam_ok h f nb"
  shows "int n \<le> f \<Longrightarrow> s \<in> set (elems h (int n)) \<Longrightarrow>
    \<exists>ss. history h s ss \<and> length ss = Suc n \<and> (\<forall>i\<le>n. ss ! i \<in> set (elems h (int i)))"
proof (induction n arbitrary: s)
  case 0
  then show ?case using parent_of_elem [OF assms, of 0 s] by (auto intro!: exI [of _ "[s]"] history_root)
next
  case (Suc n)
  obtain s' where s': "s' \<in> set (elems h (int n))" "parent_of h s = Inr (Some s')"
    using parent_of_elem [OF assms, of "int (Suc n)" s] Suc.prems by auto
  obtain ss where ss: "history h s' ss" "length ss = Suc n" "\<forall>i\<le>n. ss ! i \<in> set (elems h (int i))"
    using Suc.IH [OF _ s'(1)] Suc.prems by auto
  have "history h s (ss @ [s])" using history_step [OF s'(2) ss(1)] .
  moreover have "\<forall>i\<le>Suc n. (ss @ [s]) ! i \<in> set (elems h (int i))"
    using ss Suc.prems(2) by (auto simp: nth_append le_Suc_eq)
  ultimately show ?case using ss(2) by (intro exI [of _ "ss @ [s]"]) auto
qed

lemma history_last: "history h s ss \<Longrightarrow> ss \<noteq> [] \<and> last ss = s"
  by (induction rule: history.induct) auto

lemma fill_result_history:
  assumes "history h s ss"
  shows "length ss = Suc n \<Longrightarrow> length ss \<le> length (words res) \<Longrightarrow> length ss \<le> length (tokens res) \<Longrightarrow>
    fill_result h gw (Suc n) s res =
      Inr (res\<lparr>words := map gw ss @ drop (Suc n) (words res), tokens := map token ss @ drop (Suc n) (tokens res)\<rparr>)"
  using assms
proof (induction arbitrary: n res rule: history.induct)
  case (history_root s)
  then show ?case
    by (cases "words res"; cases "tokens res") (auto simp: Let_def)
next
  case (history_step s s' ss)
  obtain m where m: "n = Suc m" "length ss = Suc m" using history_step.prems(1) history_last [OF history_step.hyps(2)]
    by (cases ss) auto
  have d: "drop n (xs[n := x]) = x # drop (Suc n) xs" if "n < length xs" for xs :: "'b list" and x
    using that by (simp add: Cons_nth_drop_Suc [symmetric] drop_update_cancel)
  have IH: "fill_result h gw (Suc m) s' res' =
      Inr (res'\<lparr>words := map gw ss @ drop (Suc m) (words res'), tokens := map token ss @ drop (Suc m) (tokens res')\<rparr>)"
    if "length ss \<le> length (words res')" "length ss \<le> length (tokens res')" for res'
    using history_step.IH [OF m(2) that] .
  let ?res = "res\<lparr>words := (words res)[n := gw s], tokens := (tokens res)[n := token s]\<rparr>"
  have "fill_result h gw (Suc n) s res = fill_result h gw n s' ?res"
    using history_step.hyps(1) by (simp add: Let_def)
  also have "\<dots> = Inr (?res\<lparr>words := map gw ss @ drop n (words ?res), tokens := map token ss @ drop n (tokens ?res)\<rparr>)"
    using IH [of ?res] history_step.prems m by (simp del: fill_result.simps)
  finally show ?case
    using d [of "words res"] d [of "tokens res"] history_step.prems m by (simp del: fill_result.simps)
qed

lemma getHypothesis_history:
  assumes "history h s ss" "length ss = nat (k + 1)" "0 \<le> k"
  shows "getHypothesis h gw (Some s) k =
    Inr \<lparr>resScore = score s, resAmScore = Some (amScore s), resLmScore = Some (lmScore s),
         words = map gw ss, tokens = map token ss\<rparr>"
proof -
  obtain n where n: "nat (k + 1) = Suc n" using assms(3) by (cases "nat (k + 1)") auto
  then show ?thesis
    using fill_result_history [OF assms(1), of n] assms(2,3) by (simp add: getHypothesis_def new_DecodeResult_def del: fill_result.simps)
qed

subsection \<open>A new frame\<close>

lemma elems_put: "elems (put k v h) j = (if j = k then snd v else elems h j)" "bid (put k v h) j = (if j = k then fst v else bid h j)"
  by (simp_all add: elems_def bid_def vec_put)

lemma beam_ok_next_present:
  assumes "beam_ok h f nb" "f + 1 < int (length h)" "0 < nb"
    and "\<forall>s\<in>set outs. \<exists>i<length (elems h f). parent s = Some (bid h f, i)"
  shows "beam_ok (put (f + 1) (nb, outs) h) (f + 1) (Suc nb)"
proof -
  note ok = beam_okD [OF assms(1)]
  have p: "map_of h (f + 1) \<noteq> None" using contig_Some [OF ok(1), of "f + 1"] assms(2) ok(2) by auto
  have inj: "inj_on (bid (put (f + 1) (nb, outs) h)) {0..f + 1}"
    using inj_onD [OF ok(4)] ok(8) by (intro inj_onI) (fastforce simp: elems_put split: if_splits)
  show ?thesis
    unfolding beam_ok_def
  proof (intro conjI ballI allI impI)
    show "contig (put (f + 1) (nb, outs) h)" using contig_put [OF ok(1) p] .
    show "f + 1 < int (length (put (f + 1) (nb, outs) h))" using assms(2) length_put_present [OF p] by simp
    show "inj_on (bid (put (f + 1) (nb, outs) h)) {0..f + 1}" by (fact inj)
    fix k assume "k \<in> {0..<f + 1}"
    fix s assume "s \<in> set (elems (put (f + 1) (nb, outs) h) (k + 1))"
    then show "\<exists>i<length (elems (put (f + 1) (nb, outs) h) k). parent s = Some (bid (put (f + 1) (nb, outs) h) k, i)"
      using assms(4) ok(9) [of k s] \<open>k \<in> {0..<f + 1}\<close> by (auto simp: elems_put split: if_splits)
  qed (use ok assms(3) less_SucI [OF ok(8)] in \<open>auto simp: elems_put vec_put\<close>)
qed

lemma parent_of_put:
  assumes "beam_ok h f nb" "beam_ok (put (f + 1) v h) (f + 1) nb'" "0 \<le> k" "k \<le> f" "s \<in> set (elems h k)"
  shows "parent_of (put (f + 1) v h) s = parent_of h s"
proof (cases "k = 0")
  case True
  then show ?thesis using beam_okD(6) [OF assms(1)] assms(5) by (simp add: parent_of_def)
next
  case False
  then obtain i where i: "i < length (elems h (k - 1))" "parent s = Some (bid h (k - 1), i)"
    using beam_okD(9) [OF assms(1), of "k - 1" s] assms(3-5) by auto
  have "deref h (bid h (k - 1), i) = Some (elems h (k - 1) ! i)"
    using deref_elem [OF assms(1) _ _ i(1)] False assms(3,4) by auto
  moreover have "deref (put (f + 1) v h) (bid h (k - 1), i) = Some (elems h (k - 1) ! i)"
    using deref_elem [OF assms(2), of "k - 1" i] i(1) False assms(3,4) by (auto simp: elems_put)
  ultimately show ?thesis using i(2) by (simp add: parent_of_def)
qed

text \<open>Extending the buffer by empty vectors.\<close>

lemma extend_hyp_append: "contig h \<Longrightarrow> extend_hyp n h = h @ map (\<lambda>i. (int i, 0, [])) [length h..<n]"
proof (induction n)
  case (Suc n)
  show ?case
  proof (cases "length h \<le> n")
    case True
    let ?h = "h @ map (\<lambda>i. (int i, 0, [])) [length h..<n]"
    have "int n \<notin> set (map fst ?h)" using Suc.prems True by (auto simp: contig_def)
    then have "map_of ?h (int n) = None" unfolding map_of_eq_None_iff set_map .
    then show ?thesis using Suc True by (simp add: extend_hyp_def touch_def)
  qed (use Suc.prems in \<open>simp add: extend_hyp_def\<close>)
qed (simp add: extend_hyp_def)

lemma map_of_empty_frames: "map_of (map (\<lambda>i. (int i, 0, [])) xs) k = Some v \<Longrightarrow> v = (0, [])"
  by (induction xs) (auto split: if_splits)

lemma vec_extend: "contig h \<Longrightarrow> vec (extend_hyp n h) k = vec h k"
  using map_of_empty_frames [of "[length h..<n]" k]
  by (auto simp: vec_def extend_hyp_append map_add_def split: option.splits)

lemma length_extend: "contig h \<Longrightarrow> length (extend_hyp n h) = max n (length h)"
  by (simp add: extend_hyp_append)

lemma contig_extend: "contig h \<Longrightarrow> contig (extend_hyp n h)"
proof -
  assume c: "contig h"
  have keys: "map fst (extend_hyp n h) = map fst h @ map int [length h..<n]" using c by (simp add: extend_hyp_append comp_def)
  have s: "set (map fst h) = {0..<int (length h)}" "distinct (map fst h)" using c by (auto simp: contig_def)
  note l = length_extend [OF c, of n]
  have "set (map int [length h..<n]) = {int (length h)..<int n}" by (simp add: image_int_atLeastLessThan)
  then show ?thesis using s unfolding contig_def keys l by (auto simp: distinct_map)
qed

lemma beam_ok_extend: "beam_ok h f nb \<Longrightarrow> beam_ok (extend_hyp n h) f nb"
proof -
  assume ok: "beam_ok h f nb"
  have e: "elems (extend_hyp n h) = elems h" "bid (extend_hyp n h) = bid h" "vec (extend_hyp n h) = vec h"
    by (auto simp: elems_def bid_def vec_extend [OF beam_okD(1) [OF ok]] fun_eq_iff)
  have "f < int (length (extend_hyp n h))" using beam_okD(3) [OF ok] length_extend [OF beam_okD(1) [OF ok]] by simp
  then show ?thesis using ok contig_extend [OF beam_okD(1) [OF ok]] unfolding beam_ok_def e by simp
qed

lemma put_touch: "put k v (touch k h) = put k v h"
  by (simp add: put_def touch_def map_of_touch map_add_def)

lemma beam_ok_next:
  assumes ok: "beam_ok h f nb" and "0 < nb" and "\<forall>s\<in>set outs. \<exists>i<length (elems h f). parent s = Some (bid h f, i)"
  shows "beam_ok (put (f + 1) (nb, outs) h) (f + 1) (Suc nb)"
proof (cases "f + 1 < int (length h)")
  case True
  then show ?thesis using beam_ok_next_present [OF ok True assms(2,3)] by simp
next
  case False
  note c = beam_okD(1) [OF ok]
  have f: "f + 1 = int (length h)" using False beam_okD(3) [OF ok] by simp
  let ?h = "extend_hyp (Suc (length h)) h"
  have h: "?h = touch (f + 1) h" by (simp add: extend_hyp_def f)
  have e: "elems ?h f = elems h f" "bid ?h f = bid h f" by (simp_all add: elems_def bid_def vec_extend [OF c])
  have "beam_ok (put (f + 1) (nb, outs) ?h) (f + 1) (Suc nb)"
    by (rule beam_ok_next_present [OF beam_ok_extend [OF ok] _ assms(2)]) (use assms(3) f in \<open>simp_all add: e length_extend [OF c]\<close>)
  then show ?thesis unfolding h put_touch .
qed

subsection \<open>Ancestors\<close>

lemma best_node_in: "best_node s ss \<in> set (s # ss)"
  by (induction ss arbitrary: s) (auto split: if_splits)

lemma best_node_max:
  "score s \<noteq> NaN \<Longrightarrow> \<forall>x\<in>set ss. score x \<noteq> NaN \<Longrightarrow> \<forall>x\<in>set (s # ss). score x \<le> score (best_node s ss)"
proof (induction ss arbitrary: s)
  case (Cons x ss)
  let ?b = "if score s < score x then x else s"
  have IH: "\<forall>y\<in>set (?b # ss). score y \<le> score (best_node ?b ss)" using Cons by simp
  have "score s \<le> score ?b" "score x \<le> score ?b"
    using Cons.prems by (auto simp: dbl_le_refl dbl_less_imp_le dbl_not_less)
  then have "score s \<le> score (best_node ?b ss)" "score x \<le> score (best_node ?b ss)"
    using IH dbl_le_trans by (meson list.set_intros(1))+
  then show ?case using IH by simp
qed (simp add: dbl_le_refl)

text \<open>
  The node \<open>n\<close> steps back from frame \<open>f\<close> lies in frame \<open>f - n\<close>; the chain ends one step behind frame 0.
\<close>

definition ancestor_at :: "'z decoderState_scheme hyps \<Rightarrow> int \<Rightarrow> 'z decoderState_scheme option \<times> int \<Rightarrow> bool" where
  "ancestor_at h f r \<longleftrightarrow>
     0 \<le> snd r \<and> (case fst r of None \<Rightarrow> snd r = f + 1 | Some s \<Rightarrow> snd r \<le> f \<and> s \<in> set (elems h (f - snd r)))"

lemma ancestor_parent:
  assumes "beam_ok h f nb" "ancestor_at h f (Some s, n)"
  shows "\<exists>p. parent_of h s = Inr p \<and> ancestor_at h f (p, n + 1)"
proof -
  have n: "0 \<le> n" "n \<le> f" "s \<in> set (elems h (f - n))" using assms(2) by (auto simp: ancestor_at_def)
  show ?thesis
  proof (cases "f - n = 0")
    case True
    then show ?thesis using parent_of_elem [OF assms(1), of "f - n" s] n by (auto simp: ancestor_at_def)
  next
    case False
    then obtain s' where "s' \<in> set (elems h (f - n - 1))" "parent_of h s = Inr (Some s')"
      using parent_of_elem [OF assms(1), of "f - n" s] n by auto
    then show ?thesis using n False by (auto simp: ancestor_at_def algebra_simps)
  qed
qed

lemma look_back_ok:
  assumes "beam_ok h f nb"
  shows "ancestor_at h f (node, n) \<Longrightarrow>
    \<exists>r. look_back h k node n = Inr r \<and> ancestor_at h f r \<and> n \<le> snd r \<and>
      (fst r \<noteq> None \<longrightarrow> snd r = n + int k) \<and> snd r \<le> n + int k"
proof (induction k arbitrary: node n)
  case (Suc k)
  show ?case
  proof (cases node)
    case (Some s)
    obtain p where p: "parent_of h s = Inr p" "ancestor_at h f (p, n + 1)"
      using ancestor_parent [OF assms] Suc.prems Some by blast
    from Suc.IH [OF p(2)] show ?thesis using Some p(1) by auto
  qed (use Suc.prems in simp)
qed auto

lemma find_complete_ok:
  assumes "beam_ok h f nb" "\<And>k s. 0 \<le> k \<Longrightarrow> k \<le> f \<Longrightarrow> s \<in> set (elems h k) \<Longrightarrow> \<exists>b. isC s = Inr b"
  shows "ancestor_at h f (node, n) \<Longrightarrow> f - n < int fuel \<Longrightarrow>
    \<exists>r. find_complete h isC maxLB fuel node n = Inr r \<and> ancestor_at h f r \<and> n \<le> snd r"
proof (induction fuel arbitrary: node n)
  case 0
  then show ?case by (cases node) (auto simp: ancestor_at_def)
next
  case (Suc fuel)
  show ?case
  proof (cases node)
    case (Some s)
    then have n: "0 \<le> n" "n \<le> f" "s \<in> set (elems h (f - n))" using Suc.prems(1) by (auto simp: ancestor_at_def)
    obtain c where c: "isC s = Inr c" using assms(2) [of "f - n" s] n by auto
    obtain p where p: "parent_of h s = Inr p" "ancestor_at h f (p, n + 1)"
      using ancestor_parent [OF assms(1)] Suc.prems Some by blast
    obtain r where r: "find_complete h isC maxLB fuel p (n + 1) = Inr r" "ancestor_at h f r" "n + 1 \<le> snd r"
      using Suc.IH [OF p(2)] Suc.prems(2) by auto
    show ?thesis using Some Suc.prems(1) c p r by (cases r) auto
  qed (use Suc.prems in auto)
qed

lemma findBestAncestor_ok:
  assumes ok: "beam_ok h f nb"
    and "\<And>k s. 0 \<le> k \<Longrightarrow> k \<le> f \<Longrightarrow> s \<in> set (elems h k) \<Longrightarrow> \<exists>b. isC s = Inr b"
  shows "\<exists>r. findBestAncestor h isC (elems h f) lookBack = Inr r \<and>
    (if elems h f = [] then r = (None, lookBack) else ancestor_at h f r)"
proof (cases "elems h f")
  case Nil
  then show ?thesis by (simp add: findBestAncestor_def)
next
  case (Cons s ss)
  have "ancestor_at h f (Some (best_node s ss), 0)"
    using best_node_in [of s ss] Cons beam_okD(2) [OF ok] by (simp add: ancestor_at_def)
  from look_back_ok [OF ok this] obtain node n where r: "look_back h (nat lookBack) (Some (best_node s ss)) 0 = Inr (node, n)"
      "ancestor_at h f (node, n)" by (metis prod.exhaust)
  have "0 \<le> n" using r(2) by (simp add: ancestor_at_def)
  then have "f - n < int (Suc (length h))" using beam_okD(3) [OF ok] by simp
  then obtain r' where
    "find_complete h isC (lookBack + kLookBackLimit) (Suc (length h)) node n = Inr r'" "ancestor_at h f r'"
    using find_complete_ok [OF ok _ r(2), of isC] assms(2) by blast
  then show ?thesis using Cons r(1) by (simp add: findBestAncestor_def)
qed

subsection \<open>Pruning\<close>

lemma map_of_swap:
  assumes "map_of h i = Some u" "map_of h j = Some v" "i \<noteq> j"
  shows "map_of (swap_frames i j h) = (map_of h)(i \<mapsto> v, j \<mapsto> u)" and "map fst (swap_frames i j h) = map fst h"
    and "length (swap_frames i j h) = length h"
proof -
  have t: "touch j (touch i h) = h" using assms by simp
  have s: "swap_frames i j h = put j u (put i v h)" unfolding swap_frames_def t using assms by (simp add: vec_def)
  show "map_of (swap_frames i j h) = (map_of h)(i \<mapsto> v, j \<mapsto> u)" unfolding s by (auto simp: map_of_put fun_eq_iff)
  show k: "map fst (swap_frames i j h) = map fst h" unfolding s using assms by (simp add: keys_put map_of_put)
  show "length (swap_frames i j h) = length h" using k by (metis length_map)
qed

definition shifted :: "'s hyps \<Rightarrow> int \<Rightarrow> int \<Rightarrow> int \<Rightarrow> 's hyps \<Rightarrow> bool" where
  "shifted h s L i hi \<longleftrightarrow>
     map fst hi = map fst h \<and>
     (\<forall>j. 0 \<le> j \<and> j < i \<longrightarrow> map_of hi j = (if j \<le> L then map_of h (j + s) else Some (0, []))) \<and>
     (i \<le> L \<longrightarrow> (\<forall>j\<ge>i + s. map_of hi j = map_of h j))"

lemma prune_shift_ok:
  assumes "contig h" "1 \<le> s" "s + L < int (length h)"
  shows "shifted h s L i hi \<Longrightarrow> 0 \<le> i \<Longrightarrow> i \<le> int (length h) \<Longrightarrow> int (length h) - i \<le> int fuel \<Longrightarrow>
    \<exists>h'. prune_shift fuel s L i hi = Inr h' \<and> shifted h s L (int (length h)) h'"
proof (induction fuel arbitrary: i hi)
  case 0
  then have "length hi = length h" by (metis shifted_def length_map)
  then show ?case using 0 by (subst prune_shift.simps) auto
next
  case (Suc fuel)
  have keys: "map fst hi = map fst h" using Suc.prems(1) by (simp add: shifted_def)
  then have len: "length hi = length h" by (metis length_map)
  show ?case
  proof (cases "i < int (length h)")
    case False
    then show ?thesis using Suc.prems len by (subst prune_shift.simps) (auto simp: order_antisym)
  next
    case True
    have ci: "contig hi" using assms(1) keys len by (simp add: contig_def del: set_map)
    let ?hi = "if i \<le> L then swap_frames i (i + s) hi else put i (0, []) hi"
    obtain u where u: "map_of hi i = Some u" using contig_Some [OF ci Suc.prems(2)] True len by auto
    have step: "shifted h s L (i + 1) ?hi"
    proof (cases "i \<le> L")
      case True
      obtain v where v: "map_of hi (i + s) = Some v"
        using contig_Some [OF ci, of "i + s"] True assms Suc.prems(2) len by auto
      have "i \<noteq> i + s" using assms(2) by simp
      note sw = map_of_swap [OF u v this]
      show ?thesis
        using Suc.prems(1) True assms(2) sw keys v by (auto simp: shifted_def zless_add1_eq)
    next
      case False
      then show ?thesis
        using Suc.prems(1) keys_put [of hi i "(0, [])"] u keys by (auto simp: shifted_def map_of_put zless_add1_eq)
    qed
    have "int (length h) - (i + 1) \<le> int fuel" "0 \<le> i + 1" "i + 1 \<le> int (length h)"
      using Suc.prems True by auto
    from Suc.IH [OF step this(2,3,1)] show ?thesis using True len by (subst prune_shift.simps) simp
  qed
qed

lemma prune_shift_spec:
  assumes "beam_ok h (s + L) nb" "1 \<le> s" "0 \<le> L"
  shows "\<exists>h'. prune_shift (Suc (length h)) s L 0 h = Inr h' \<and> contig h' \<and> length h' = length h \<and>
    (\<forall>k\<in>{0..L}. vec h' k = vec h (k + s)) \<and> (\<forall>k>L. vec h' k = (0, []))"
proof -
  note ok = beam_okD [OF assms(1)]
  have "shifted h s L 0 h" by (auto simp: shifted_def)
  from prune_shift_ok [OF ok(1) assms(2) ok(3) this, of "Suc (length h)"]
  obtain h' where h': "prune_shift (Suc (length h)) s L 0 h = Inr h'" "shifted h s L (int (length h)) h'" by auto
  have keys: "map fst h' = map fst h" using h'(2) by (simp add: shifted_def)
  then have len: "length h' = length h" by (metis length_map)
  have c: "contig h'" using ok(1) keys len by (simp add: contig_def del: set_map)
  have low: "vec h' k = vec h (k + s)" if "k \<in> {0..L}" for k
    using h'(2) that ok(3) assms(2) by (auto simp: shifted_def vec_def)
  have high: "vec h' k = (0, [])" if "k > L" for k
  proof (cases "k < int (length h)")
    case True
    then show ?thesis using h'(2) that assms(3) by (auto simp: shifted_def vec_def)
  next
    case False
    then have "k \<notin> set (map fst h')" using c len unfolding contig_def by auto
    then have "map_of h' k = None" by (metis map_of_iff_keys)
    then show ?thesis by (simp add: vec_def)
  qed
  show ?thesis using h'(1) c len low high by blast
qed

text \<open>What pruning does to a state of frame \<open>k\<close>: frame 0 forgets its parents, the last frame is normalised.\<close>

definition pruned_state :: "int \<Rightarrow> dbl \<Rightarrow> int \<Rightarrow> 'z decoderState_scheme \<Rightarrow> 'z decoderState_scheme" where
  "pruned_state L m k s =
     (let s' = (if k = 0 then s\<lparr>parent := None\<rparr> else s) in if k = L then s'\<lparr>score := score s' - m\<rparr> else s')"

lemma pruned_state_between: "k \<noteq> 0 \<Longrightarrow> k \<noteq> L \<Longrightarrow> pruned_state L m k = (\<lambda>s. s)"
  by (simp add: pruned_state_def fun_eq_iff)

lemma best_node_map:
  "(\<And>s. score (f s) = score s) \<Longrightarrow> best_node (f s) (map f ss) = f (best_node s ss)"
  by (induction ss arbitrary: s) (simp_all add: if_distrib [of f, symmetric])

lemma pruneAndNormalize_spec:
  assumes "beam_ok h (s + L) nb" "1 \<le> s" "0 \<le> L" "elems h (s + L) = x # xs"
  shows "\<exists>h'. pruneAndNormalize s L h = Inr h' \<and> contig h' \<and> length h' = length h \<and>
    (\<forall>k\<in>{0..L}. vec h' k = (bid h (k + s), map (pruned_state L (score (best_node x xs)) k) (elems h (k + s)))) \<and>
    (\<forall>k>L. vec h' k = (0, []))"
proof -
  obtain h1 where h1: "prune_shift (Suc (length h)) s L 0 h = Inr h1" "contig h1" "length h1 = length h"
      "\<forall>k\<in>{0..L}. vec h1 k = vec h (k + s)" "\<forall>k>L. vec h1 k = (0, [])"
    using prune_shift_spec [OF assms(1-3)] by blast
  have f: "s + L < int (length h)" using beam_okD(3) [OF assms(1)] .
  let ?f = "\<lambda>s :: 'a decoderState_scheme. s\<lparr>parent := None\<rparr>"
  let ?h2 = "clear_parents h1"
  have p0: "map_of h1 0 \<noteq> None" using contig_Some [OF h1(2), of 0] assms(2,3) f h1(3) by fastforce
  have v2: "vec ?h2 k = (if k = 0 then (fst (vec h1 0), map ?f (snd (vec h1 0))) else vec h1 k)" for k
    by (simp add: clear_parents_def vec_put)
  have c2: "contig ?h2" "length ?h2 = length h"
    using contig_put [OF h1(2) p0] length_put_present [OF p0] h1(3) by (simp_all add: clear_parents_def)
  have pL: "map_of ?h2 L \<noteq> None" using contig_Some [OF c2(1) assms(3)] c2(2) f assms(2) by auto
  have eL: "snd (vec h1 L) = x # xs" using h1(4) assms(3,4) by (simp add: elems_def add.commute)
  have e2: "snd (vec ?h2 L) = (if L = 0 then ?f x # map ?f xs else x # xs)" using eL by (cases "L = 0") (simp_all add: v2)
  let ?m = "score (best_node x xs)"
  have n: "normalize L ?h2 = Inr (put L (fst (vec ?h2 L), map (\<lambda>s. s\<lparr>score := score s - ?m\<rparr>) (snd (vec ?h2 L))) ?h2)"
    using e2 best_node_map [of ?f x xs] by (cases "L = 0") (simp_all add: normalize_def Let_def)
  let ?h3 = "put L (fst (vec ?h2 L), map (\<lambda>s. s\<lparr>score := score s - ?m\<rparr>) (snd (vec ?h2 L))) ?h2"
  have "vec ?h3 k = (bid h (k + s), map (pruned_state L ?m k) (elems h (k + s)))" if "k \<in> {0..L}" for k
    using that h1(4) by (auto simp: vec_put v2 bid_def elems_def pruned_state_between) (auto simp: pruned_state_def Let_def)
  moreover have "vec ?h3 k = (0, [])" if "k > L" for k using that h1(5) assms(3) by (simp add: vec_put v2)
  ultimately show ?thesis
    using h1(1) n contig_put [OF c2(1) pL] length_put_present [OF pL] c2(2) by (auto simp: pruneAndNormalize_def)
qed

lemma beam_ok_prune:
  assumes "beam_ok h (s + L) nb" "1 \<le> s" "0 \<le> L" "elems h (s + L) = x # xs"
  shows "\<exists>h'. pruneAndNormalize s L h = Inr h' \<and> beam_ok h' L nb \<and> length h' = length h \<and>
    (\<forall>k\<in>{0..L}. elems h' k = map (pruned_state L (score (best_node x xs)) k) (elems h (k + s)) \<and> bid h' k = bid h (k + s))"
proof -
  note ok = beam_okD [OF assms(1)]
  obtain h' where h': "pruneAndNormalize s L h = Inr h'" "contig h'" "length h' = length h"
      "\<forall>k\<in>{0..L}. vec h' k = (bid h (k + s), map (pruned_state L (score (best_node x xs)) k) (elems h (k + s)))"
      "\<forall>k>L. vec h' k = (0, [])"
    using pruneAndNormalize_spec [OF assms] by blast
  have e: "elems h' k = map (pruned_state L (score (best_node x xs)) k) (elems h (k + s))" "bid h' k = bid h (k + s)"
    if "0 \<le> k" "k \<le> L" for k using h'(4) that by (simp_all add: elems_def bid_def)
  have "inj_on (bid h') {0..L}"
    using inj_onD [OF ok(4)] e(2) assms(2) by (intro inj_onI) force
  moreover have "\<exists>i<length (elems h' k). parent st = Some (bid h' k, i)"
    if k: "k \<in> {0..<L}" and st: "st \<in> set (elems h' (k + 1))" for k st
  proof -
    obtain st0 where st0: "st0 \<in> set (elems h (k + s + 1))" "parent st = parent st0"
      using st e(1) [of "k + 1"] k by (auto simp: pruned_state_def Let_def algebra_simps)
    then show ?thesis using ok(9) [of "k + s" st0] k assms(2) e [of k] by auto
  qed
  ultimately have "beam_ok h' L nb"
    using h' e ok assms(2,3) by (auto simp: beam_ok_def pruned_state_def Let_def)
  then show ?thesis using h'(1,3) e by auto
qed

end
