(* ===== verification/DecoderCandidates.thy ===== *)
theory DecoderCandidates
  imports DecoderUtils
begin

section \<open>Candidate selection: what \<^verbatim>\<open>candidatesAdd\<close> and \<^verbatim>\<open>candidatesStore\<close> compute\<close>

text \<open>
  The locale \<open>state_order\<close> states what the templates rely on of \<^verbatim>\<open>compareNoScoreStates\<close>: it is the sign of a total
  preorder that does not look at the score. Every decoder interprets it on its own comparison. Inside, the
  selection is related to an abstract beam: the best candidate of each class of equivalent candidates, of
  the best \<^verbatim>\<open>beamSize\<close> classes within the threshold of the best score.
\<close>

subsection \<open>Early pruning\<close>

definition within_beam :: "real \<Rightarrow> 'z decoderState_scheme list \<Rightarrow> 'z decoderState_scheme \<Rightarrow> bool" where
  "within_beam b cs c \<longleftrightarrow>
     c \<in> set cs \<and> score c \<noteq> NaN \<and> (\<forall>d\<in>set cs. score d \<noteq> NaN \<longrightarrow> score d - Fin b \<le> score c)"

definition is_beam :: "('z decoderState_scheme \<Rightarrow> 'z decoderState_scheme \<Rightarrow> int) \<Rightarrow> nat \<Rightarrow> bool \<Rightarrow>
    ('z decoderState_scheme \<Rightarrow> bool) \<Rightarrow> 'z decoderState_scheme list \<Rightarrow> bool" where
  "is_beam cmp k srt S outs \<longleftrightarrow>
     (\<forall>x\<in>set outs. S x \<and> (\<forall>c. S c \<longrightarrow> cmp c x = 0 \<longrightarrow> score c \<le> score x)) \<and>
     pairwise (\<lambda>x y. cmp x y \<noteq> 0) (set outs) \<and> distinct outs \<and> length outs \<le> k \<and>
     (\<forall>c. S c \<longrightarrow> (\<exists>x\<in>set outs. cmp c x = 0) \<or> length outs = k \<and> (\<forall>x\<in>set outs. score c \<le> score x)) \<and>
     (srt \<longrightarrow> sorted_wrt (\<lambda>x y. score y \<le> score x) outs)"

lemma minus_Fin_NaN: "x - Fin b = NaN \<longleftrightarrow> x = NaN"
  by (cases x) (auto simp: minus_dbl_def)

definition pruned_early :: "real \<Rightarrow> 'z decoderState_scheme list \<Rightarrow> 'z decoderState_scheme cands \<Rightarrow> bool" where
  "pruned_early b cs bc \<longleftrightarrow>
     fst bc \<noteq> NaN \<and> (\<forall>c\<in>set cs. score c \<noteq> NaN \<longrightarrow> score c \<le> fst bc) \<and> set (snd bc) \<subseteq> set cs \<and>
     (snd bc = [] \<and> fst bc = NInf \<and> (\<forall>c\<in>set cs. score c = NaN) \<or> (\<exists>c\<in>set (snd bc). score c = fst bc)) \<and>
     filter (\<lambda>c. fst bc - Fin b \<le> score c) (snd bc) = filter (\<lambda>c. fst bc - Fin b \<le> score c) cs"

lemma filter_threshold_mono:
  assumes "best0 \<le> best"
    and "filter (\<lambda>c. best0 - Fin b \<le> score c) xs = filter (\<lambda>c. best0 - Fin b \<le> score c) ys"
  shows "filter (\<lambda>c. best - Fin b \<le> score c) xs = filter (\<lambda>c. best - Fin b \<le> score c) ys"
proof -
  have "filter (\<lambda>c. best - Fin b \<le> score c) zs =
      filter (\<lambda>c. best - Fin b \<le> score c) (filter (\<lambda>c. best0 - Fin b \<le> score c) zs)"
    for zs :: "'a decoderState_scheme list"
    unfolding filter_filter
    by (rule filter_cong) (use dbl_le_trans [OF dbl_minus_mono [OF assms(1), of b]] in auto)
  from this [of xs] this [of ys] show ?thesis using assms(2) by simp
qed

lemma candidatesAdd_step:
  assumes inv: "pruned_early b cs (best0, cands0)" and "0 \<le> b"
  shows "pruned_early b (cs @ [c]) (candidatesAdd (Fin b) c (best0, cands0))"
proof -
  let ?best = "if score c \<ge> best0 then score c else best0"
  let ?cands = "if score c \<ge> ?best - Fin b then cands0 @ [c] else cands0"
  have add: "candidatesAdd (Fin b) c (best0, cands0) = (?best, ?cands)" by (simp add: candidatesAdd_def Let_def)
  have nn0: "best0 \<noteq> NaN" using inv by (simp add: pruned_early_def)
  then have nn: "?best \<noteq> NaN" using dbl_le_not_NaN by auto
  have mono: "best0 \<le> ?best" using nn0 dbl_le_refl by auto
  have cle: "score c \<noteq> NaN \<Longrightarrow> score c \<le> ?best" using nn0 by (auto simp: dbl_le_refl dbl_not_le dbl_less_imp_le)
  have f: "filter (\<lambda>c. ?best - Fin b \<le> score c) cands0 = filter (\<lambda>c. ?best - Fin b \<le> score c) cs"
    by (rule filter_threshold_mono [OF mono]) (use inv in \<open>simp add: pruned_early_def\<close>)
  have up: "\<forall>d\<in>set (cs @ [c]). score d \<noteq> NaN \<longrightarrow> score d \<le> ?best"
    using inv cle dbl_le_trans [OF _ mono] by (auto simp: pruned_early_def)
  have wit: "?cands = [] \<and> ?best = NInf \<and> (\<forall>d\<in>set (cs @ [c]). score d = NaN) \<or> (\<exists>d\<in>set ?cands. score d = ?best)"
  proof (cases "score c \<ge> best0")
    case True
    then have "c \<in> set ?cands" using dbl_minus_le [OF nn assms(2)] by simp
    then show ?thesis using True by auto
  next
    case False
    then show ?thesis using inv by (cases "score c") (auto simp: pruned_early_def)
  qed
  show ?thesis
    unfolding add pruned_early_def fst_conv snd_conv
  proof (intro conjI)
    show "set ?cands \<subseteq> set (cs @ [c])" using inv by (auto simp: pruned_early_def)
    show "filter (\<lambda>c. ?best - Fin b \<le> score c) ?cands = filter (\<lambda>c. ?best - Fin b \<le> score c) (cs @ [c])"
      using f by simp
  qed (fact nn up wit)+
qed

lemma candidatesAdd_fold: "0 \<le> b \<Longrightarrow> pruned_early b cs (fold (candidatesAdd (Fin b)) cs candidatesReset)"
proof (induction cs rule: rev_induct)
  case Nil
  then show ?case by (simp add: pruned_early_def candidatesReset_def kNegativeInfinity_def)
next
  case (snoc c cs)
  then show ?case using candidatesAdd_step [of b cs _ _ c] by (cases "fold (candidatesAdd (Fin b)) cs candidatesReset") simp
qed

lemma pruned_early_within:
  assumes "pruned_early b cs (best, cands)" "0 \<le> b"
  shows "set (filter (\<lambda>c. best - Fin b \<le> score c) cands) = {c. within_beam b cs c}"
    and "cands \<noteq> [] \<Longrightarrow> filter (\<lambda>c. best - Fin b \<le> score c) cands \<noteq> []"
proof -
  note inv = assms(1) [unfolded pruned_early_def fst_conv snd_conv]
  have "within_beam b cs c \<longleftrightarrow> c \<in> set cs \<and> best - Fin b \<le> score c" for c
  proof
    assume w: "within_beam b cs c"
    then have "\<exists>d\<in>set cands. score d = best" using inv by (auto simp: within_beam_def)
    then show "c \<in> set cs \<and> best - Fin b \<le> score c" using w inv by (auto simp: within_beam_def)
  next
    assume c: "c \<in> set cs \<and> best - Fin b \<le> score c"
    have "score d - Fin b \<le> score c" if "d \<in> set cs" "score d \<noteq> NaN" for d
      using inv that c dbl_le_trans [OF dbl_minus_mono] by blast
    then show "within_beam b cs c" using c dbl_le_not_NaN by (auto simp: within_beam_def)
  qed
  then show "set (filter (\<lambda>c. best - Fin b \<le> score c) cands) = {c. within_beam b cs c}" using inv by auto
  assume "cands \<noteq> []"
  then obtain c where "c \<in> set cands" "score c = best" using inv by blast
  then have "c \<in> set (filter (\<lambda>c. best - Fin b \<le> score c) cands)" using inv dbl_minus_le [OF _ assms(2), of best] by auto
  then show "filter (\<lambda>c. best - Fin b \<le> score c) cands \<noteq> []" by (metis empty_iff empty_set)
qed

subsection \<open>Merging and selection\<close>

locale state_order =
  fixes cmp :: "'z decoderState_scheme \<Rightarrow> 'z decoderState_scheme \<Rightarrow> int"
  assumes cmp_swap: "cmp y x = - cmp x y"
    and cmp_trans: "0 \<le> cmp x y \<Longrightarrow> 0 \<le> cmp y z \<Longrightarrow> 0 \<le> cmp x z"
    and cmp_score: "cmp (x\<lparr>score := s\<rparr>) y = cmp x y"
begin

lemma cmp_refl [simp]: "cmp x x = 0"
  using cmp_swap [of x x] by simp

lemma cmp_zero_trans: "cmp x y = 0 \<Longrightarrow> cmp y z = 0 \<Longrightarrow> cmp x z = 0"
  using cmp_trans [of x y z] cmp_trans [of z y x] cmp_swap [of x y] cmp_swap [of y z] cmp_swap [of x z] by simp

lemma cmp_zero_sym: "cmp x y = 0 \<Longrightarrow> cmp y x = 0"
  using cmp_swap [of x y] by simp

lemma cmp_pos_trans: "0 < cmp x y \<Longrightarrow> 0 \<le> cmp y z \<Longrightarrow> 0 < cmp x z"
  using cmp_trans [of x y z] cmp_trans [of y z x] cmp_swap [of x y] cmp_swap [of x z] by (cases "cmp x z = 0") auto

lemma not_before: "\<not> candidate_before cmp x y \<longleftrightarrow> 0 < cmp y x \<or> cmp y x = 0 \<and> \<not> score y < score x"
  using cmp_swap [of x y] by (auto simp: candidate_before_def Let_def)

sublocale sorted: strict_weak_order "candidate_before cmp" "{x. score x \<noteq> NaN}"
proof
  fix x y :: "'z decoderState_scheme"
  show "candidate_before cmp x y \<Longrightarrow> \<not> candidate_before cmp y x"
    using cmp_swap [of x y] by (auto simp: candidate_before_def Let_def dbl_less_asym split: if_splits)
  fix z assume y: "y \<in> {x. score x \<noteq> NaN}" and n: "\<not> candidate_before cmp x y" "\<not> candidate_before cmp y z"
  show "\<not> candidate_before cmp x z"
    using n cmp_pos_trans [of z y x] cmp_trans [of z y x] cmp_zero_trans [of z y x] cmp_pos_trans [of y x z]
      cmp_swap [of x z] cmp_swap [of y x] cmp_swap [of y z] dbl_not_less_trans [of "score y" "score z" "score x"] y
      dbl_not_less_trans [of "score y" "score x" "score z"]
    unfolding not_before by (cases "cmp z y = 0"; cases "cmp y x = 0"; cases "cmp z x = 0") auto
qed

lemma merge_max:
  assumes "sorted_wrt (\<lambda>x y. \<not> candidate_before cmp y x) (cur # xs)" "\<forall>x\<in>set (cur # xs). score x \<noteq> NaN"
  shows "set (merge_from cmp False cur xs) \<subseteq> set (cur # xs) \<and>
    (\<forall>x\<in>set (cur # xs). \<exists>m\<in>set (merge_from cmp False cur xs). cmp x m = 0 \<and> score x \<le> score m) \<and>
    sorted_wrt (\<lambda>x y. 0 < cmp x y) (merge_from cmp False cur xs)"
  using assms
proof (induction xs arbitrary: cur)
  case Nil
  then show ?case by (simp add: dbl_le_refl)
next
  case (Cons x xs)
  have b: "\<not> candidate_before cmp x cur" using Cons.prems by simp
  show ?case
  proof (cases "cmp x cur = 0")
    case True
    then have ns: "\<not> score cur < score x" using b cmp_zero_sym unfolding not_before by fastforce
    then have same: "merge_from cmp False cur (x # xs) = merge_from cmp False cur xs"
      using True by (simp add: merged_score_def dmax_def)
    have IH: "set (merge_from cmp False cur xs) \<subseteq> set (cur # xs)"
        "\<forall>x\<in>set (cur # xs). \<exists>m\<in>set (merge_from cmp False cur xs). cmp x m = 0 \<and> score x \<le> score m"
        "sorted_wrt (\<lambda>x y. 0 < cmp x y) (merge_from cmp False cur xs)"
      using Cons.IH [of cur] Cons.prems by auto
    obtain m where m: "m \<in> set (merge_from cmp False cur xs)" "cmp cur m = 0" "score cur \<le> score m" using IH(2) by auto
    have "score x \<le> score cur" using ns Cons.prems by (simp add: dbl_not_less)
    then have "cmp x m = 0 \<and> score x \<le> score m" using cmp_zero_trans [OF True m(2)] m(3) dbl_le_trans by blast
    then show ?thesis using IH m(1) unfolding same by auto
  next
    case False
    then have pos: "0 < cmp cur x" using b unfolding not_before by (auto dest: cmp_zero_sym)
    have IH: "set (merge_from cmp False x xs) \<subseteq> set (x # xs)"
        "\<forall>y\<in>set (x # xs). \<exists>m\<in>set (merge_from cmp False x xs). cmp y m = 0 \<and> score y \<le> score m"
        "sorted_wrt (\<lambda>x y. 0 < cmp x y) (merge_from cmp False x xs)"
      using Cons.IH [of x] Cons.prems by auto
    have "0 < cmp cur y" if "y \<in> set (merge_from cmp False x xs)" for y
    proof -
      have "y = x \<or> \<not> candidate_before cmp y x" using IH(1) Cons.prems that by auto
      then have "0 \<le> cmp x y" unfolding not_before by auto
      then show ?thesis using pos cmp_pos_trans by blast
    qed
    then show ?thesis using False IH Cons.prems(2) by (auto simp: dbl_le_refl)
  qed
qed

end

interpretation by_score: strict_weak_order compareNodeScore "{x. score x \<noteq> NaN}"
proof
  fix x y z :: "'a decoderState_scheme"
  show "compareNodeScore x y \<Longrightarrow> \<not> compareNodeScore y x" by (simp add: compareNodeScore_def dbl_less_asym)
  show "y \<in> {x. score x \<noteq> NaN} \<Longrightarrow> \<not> compareNodeScore x y \<Longrightarrow> \<not> compareNodeScore y z \<Longrightarrow> \<not> compareNodeScore x z"
    using dbl_not_less_trans by (auto simp: compareNodeScore_def)
qed

context state_order
begin

lemma merged_beam:
  assumes S: "set sel = {c. S c}" and nn: "\<forall>c. S c \<longrightarrow> score c \<noteq> NaN"
    and srt: "std_sort (candidate_before cmp) sel = c # cs" and k: "0 \<le> k"
    and "ms = merge_from cmp False c cs"
    and "outs = take (nat (min (int (length ms)) k))
      (if \<not> r \<and> int (length ms) > k then std_sort compareNodeScore ms
       else if r then std_sort compareNodeScore ms else ms)"
  shows "is_beam cmp (nat k) r S outs"
proof -
  have set: "set (c # cs) = {c. S c}" using S srt set_std_sort [of "candidate_before cmp" sel] by simp
  have "sorted_wrt (\<lambda>x y. \<not> candidate_before cmp y x) (c # cs)"
    using sorted.sorted_std_sort [of sel] S nn srt by auto
  moreover have "\<forall>x\<in>set (c # cs). score x \<noteq> NaN" unfolding set using nn by simp
  ultimately have m: "set ms \<subseteq> {c. S c}" "\<forall>x\<in>{c. S c}. \<exists>m\<in>set ms. cmp x m = 0 \<and> score x \<le> score m"
      "sorted_wrt (\<lambda>x y. 0 < cmp x y) ms"
    using merge_max [of c cs] unfolding assms(5) set by blast+
  have sub: "\<forall>x\<in>set ms. S x" using m(1) by blast
  have cover: "\<exists>m\<in>set ms. cmp x m = 0 \<and> score x \<le> score m" if "S x" for x using m(2) that by blast
  have asc: "sorted_wrt (\<lambda>x y. 0 < cmp x y) ms" by (fact m(3))
  have cls: "x = y" if "x \<in> set ms" "y \<in> set ms" "cmp x y = 0" for x y
    using sorted_wrt_related [OF asc that(1,2)] that(3) cmp_zero_sym [OF that(3)] by auto
  have dist: "distinct ms" using asc by (induction ms) auto
  let ?n = "nat (min (int (length ms)) k)"
  define os where "os = (if \<not> r \<and> int (length ms) > k then std_sort compareNodeScore ms
       else if r then std_sort compareNodeScore ms else ms)"
  have outs: "outs = take ?n os" using assms(6) os_def by simp
  have os: "set os = set ms" "distinct os" "length os = length ms"
    using dist by (auto simp: os_def intro: mset_eq_imp_distinct_iff [THEN iffD1, of ms])
  have "sorted_wrt (\<lambda>x y. \<not> compareNodeScore y x) (std_sort compareNodeScore ms)"
    by (rule by_score.sorted_std_sort) (use sub nn in auto)
  then have "sorted_wrt (\<lambda>x y. score y \<le> score x) (std_sort compareNodeScore ms)"
    by (rule sorted_wrt_mono_rel [rotated]) (use sub nn in \<open>auto simp: compareNodeScore_def dbl_not_less\<close>)
  then have desc: "sorted_wrt (\<lambda>x y. score y \<le> score x) os" if "r \<or> int (length ms) > k"
    using that by (auto simp: os_def)
  have max: "score c \<le> score x" if a: "x \<in> set outs" "S c" "cmp c x = 0" for x c
  proof -
    have x: "x \<in> set ms" using a(1) outs os(1) by (auto dest: in_set_takeD)
    obtain m where m: "m \<in> set ms" "cmp c m = 0" "score c \<le> score m" using cover [OF a(2)] by auto
    have "cmp x m = 0" using cmp_zero_trans [OF cmp_zero_sym [OF a(3)] m(2)] .
    then show ?thesis using cls [OF x m(1)] m(3) by simp
  qed
  have rest: "(\<exists>x\<in>set outs. cmp c x = 0) \<or> length outs = nat k \<and> (\<forall>x\<in>set outs. score c \<le> score x)" if c: "S c" for c
  proof -
    obtain m where m: "m \<in> set ms" "cmp c m = 0" "score c \<le> score m" using cover [OF c] by auto
    show ?thesis
    proof (cases "m \<in> set outs")
      case False
      then have m': "m \<in> set (drop ?n os)" using m(1) os(1) outs
        by (metis Un_iff append_take_drop_id set_append)
      then have lt: "?n < length os" by (metis drop_eq_Nil empty_iff empty_set not_less)
      then have big: "int (length ms) > k" "?n = nat k" using os(3) by auto
      have "sorted_wrt (\<lambda>x y. score y \<le> score x) (take ?n os @ drop ?n os)" using desc big(1) by simp
      then have "\<forall>x\<in>set (take ?n os). score m \<le> score x" using m' unfolding sorted_wrt_append by blast
      then have "\<forall>x\<in>set outs. score c \<le> score x" unfolding outs using m(3) dbl_le_trans by blast
      moreover have "length outs = nat k" unfolding outs using big lt by simp
      ultimately show ?thesis by blast
    qed (use m in auto)
  qed
  show ?thesis
    unfolding is_beam_def
  proof (intro conjI)
    show "\<forall>x\<in>set outs. S x \<and> (\<forall>c. S c \<longrightarrow> cmp c x = 0 \<longrightarrow> score c \<le> score x)"
      using sub max outs os(1) by (auto dest: in_set_takeD)
    show "pairwise (\<lambda>x y. cmp x y \<noteq> 0) (set outs)"
      using cls outs os(1) by (auto simp: pairwise_def dest!: in_set_takeD)
    show "distinct outs" "length outs \<le> nat k" using os outs by auto
    show "\<forall>c. S c \<longrightarrow> (\<exists>x\<in>set outs. cmp c x = 0) \<or> length outs = nat k \<and> (\<forall>x\<in>set outs. score c \<le> score x)"
      using rest by blast
    show "r \<longrightarrow> sorted_wrt (\<lambda>x y. score y \<le> score x) outs" using desc outs sorted_wrt_take by blast
  qed
qed

lemma store_beam:
  assumes "fold (candidatesAdd (Fin b)) cs candidatesReset = (best, cands)" "0 \<le> b" "0 \<le> k"
  shows "\<exists>outs. candidatesStore cmp cands k (best - Fin b) False r = Inr outs \<and> is_beam cmp (nat k) r (within_beam b cs) outs"
proof -
  have inv: "pruned_early b cs (best, cands)" using candidatesAdd_fold [OF assms(2), of cs] assms(1) by simp
  note w = pruned_early_within [OF inv assms(2)]
  show ?thesis
  proof (cases "cands = []")
    case True
    then have "\<not> within_beam b cs c" for c using w(1) by auto
    then show ?thesis using True by (auto simp: candidatesStore_def is_beam_def)
  next
    case False
    let ?sel = "filter (\<lambda>c. best - Fin b \<le> score c) cands"
    have "std_sort (candidate_before cmp) ?sel \<noteq> []"
      using w(2) [OF False] length_std_sort [of "candidate_before cmp" ?sel] by (metis length_0_conv)
    then obtain c ds where srt: "std_sort (candidate_before cmp) ?sel = c # ds" by (cases "std_sort (candidate_before cmp) ?sel") auto
    have nn: "\<forall>c. within_beam b cs c \<longrightarrow> score c \<noteq> NaN" by (simp add: within_beam_def)
    show ?thesis
      using merged_beam [OF w(1) nn srt assms(3) refl refl, of r] False srt assms(3)
      by (simp add: candidatesStore_def Let_def)
  qed
qed

end

subsection \<open>Every mode of merging keeps everything of a candidate but its score\<close>

lemma merge_from_fields:
  "m \<in> set (merge_from cmp la cur xs) \<Longrightarrow> \<exists>c\<in>set (cur # xs). m = c\<lparr>score := score m\<rparr>"
proof (induction xs arbitrary: cur)
  case (Cons x xs)
  show ?case
  proof (cases "cmp x cur = 0")
    case True
    then have "m \<in> set (merge_from cmp la (cur\<lparr>score := merged_score la (score cur) (score x)\<rparr>) xs)" using Cons.prems by simp
    from Cons.IH [OF this] show ?thesis by auto
  qed (use Cons in auto)
qed simp

lemma candidatesStore_fields:
  assumes "candidatesStore cmp cands k thr la r = Inr outs" "m \<in> set outs"
  shows "\<exists>c\<in>set cands. m = c\<lparr>score := score m\<rparr>"
proof -
  let ?sel = "std_sort (candidate_before cmp) (filter (\<lambda>c. score c \<ge> thr) cands)"
  obtain c cs where s: "?sel = c # cs" using assms by (cases ?sel) (auto simp: candidatesStore_def split: if_splits)
  have "m \<in> set (merge_from cmp la c cs)"
    using assms s by (auto simp: candidatesStore_def Let_def split: if_splits dest: in_set_takeD)
  then obtain d where d: "d \<in> set (c # cs)" "m = d\<lparr>score := score m\<rparr>" using merge_from_fields by blast
  then have "d \<in> set cands" using s set_std_sort [of "candidate_before cmp" "filter (\<lambda>c. score c \<ge> thr) cands"] by auto
  then show ?thesis using d by blast
qed

lemma candidatesStore_total:
  assumes "pruned_early b cs (best, cands)" "0 \<le> b" "0 \<le> k"
  shows "\<exists>outs. candidatesStore cmp cands k (best - Fin b) la r = Inr outs"
proof (cases "cands = []")
  case False
  let ?sel = "filter (\<lambda>c. best - Fin b \<le> score c) cands"
  have "std_sort (candidate_before cmp) ?sel \<noteq> []"
    using pruned_early_within(2) [OF assms(1,2) False] length_std_sort [of "candidate_before cmp" ?sel] by (metis length_0_conv)
  then obtain c ds where "std_sort (candidate_before cmp) ?sel = c # ds" by (cases "std_sort (candidate_before cmp) ?sel") auto
  then show ?thesis using False assms(3) by (auto simp: candidatesStore_def Let_def)
qed (simp add: candidatesStore_def)

subsection \<open>Loops that propose candidates\<close>

text \<open>
  A step of the loops of a decoder adds some candidates, each with property \<open>P\<close>, or throws an exception with
  property \<open>E\<close>.
\<close>

definition adds :: "dbl \<Rightarrow> ('z decoderState_scheme \<Rightarrow> bool) \<Rightarrow> (exn \<Rightarrow> bool) \<Rightarrow>
    ('z decoderState_scheme cands \<times> 'l \<Rightarrow> ('z decoderState_scheme cands \<times> 'l) result) \<Rightarrow> bool" where
  "adds thr P E f \<longleftrightarrow>
     (\<forall>bc l. case f (bc, l) of
        Inl e \<Rightarrow> E e
      | Inr (bc', l') \<Rightarrow> \<exists>ps. bc' = fold (candidatesAdd thr) ps bc \<and> (\<forall>p\<in>set ps. P p))"

lemma addsI:
  assumes "\<And>bc l e. f (bc, l) = Inl e \<Longrightarrow> E e"
    and "\<And>bc l bc' l'. f (bc, l) = Inr (bc', l') \<Longrightarrow> \<exists>ps. bc' = fold (candidatesAdd thr) ps bc \<and> (\<forall>p\<in>set ps. P p)"
  shows "adds thr P E f"
  using assms by (auto simp: adds_def split: sum.splits)

lemma addsD:
  assumes "adds thr P E f" "f (bc, l) = Inr (bc', l')"
  shows "\<exists>ps. bc' = fold (candidatesAdd thr) ps bc \<and> (\<forall>p\<in>set ps. P p)"
  using assms(1) [unfolded adds_def, rule_format, of bc l] assms(2) by simp

lemma adds_throw: "E e" if "adds thr P E f" "f (bc, l) = Inl e"
  using that(1) [unfolded adds_def, rule_format, of bc l] that(2) by simp

lemma adds_comp:
  assumes f: "adds thr P E f" and g: "adds thr P E g"
  shows "adds thr P E (\<lambda>x. rbind (f x) g)"
proof (rule addsI)
  fix bc l e assume "rbind (f (bc, l)) g = Inl e"
  then consider "f (bc, l) = Inl e" | bc1 l1 where "g (bc1, l1) = Inl e" by (auto simp: rbind_eq_Inl_iff)
  then show "E e" using adds_throw [OF f] adds_throw [OF g] by cases blast+
next
  fix bc l bc' l' assume "rbind (f (bc, l)) g = Inr (bc', l')"
  then obtain bc1 l1 where s: "f (bc, l) = Inr (bc1, l1)" "g (bc1, l1) = Inr (bc', l')"
    by (auto simp: rbind_eq_Inr_iff)
  obtain ps qs where "bc1 = fold (candidatesAdd thr) ps bc" "bc' = fold (candidatesAdd thr) qs bc1" "\<forall>p\<in>set (ps @ qs). P p"
    using addsD [OF f s(1)] addsD [OF g s(2)] by auto
  then show "\<exists>ps. bc' = fold (candidatesAdd thr) ps bc \<and> (\<forall>p\<in>set ps. P p)" by (intro exI [of _ "ps @ qs"]) auto
qed

lemma adds_skip: "adds thr P E Inr"
  by (auto simp: adds_def intro: exI [of _ "[]"])

lemma adds_if: "adds thr P E f \<Longrightarrow> adds thr P E g \<Longrightarrow> adds thr P E (\<lambda>x. if c then f x else g x)"
  by (simp add: adds_def)

lemma adds_rfold: "(\<And>x. x \<in> set xs \<Longrightarrow> adds thr P E (f x)) \<Longrightarrow> adds thr P E (rfold f xs)"
proof (induction xs)
  case Nil
  have "rfold f [] = Inr" by (simp add: fun_eq_iff)
  then show ?case using adds_skip by metis
next
  case (Cons x xs)
  have "rfold f (x # xs) = (\<lambda>s. rbind (f x s) (rfold f xs))" by (simp add: fun_eq_iff)
  then show ?case using adds_comp [of thr P E "f x" "rfold f xs"] Cons by simp
qed

lemma adds_add: "P s \<Longrightarrow> adds thr P E (\<lambda>bcl. Inr (candidatesAdd thr s (fst bcl), snd bcl))"
  by (auto simp: adds_def intro: exI [of _ "[s]"])

text \<open>A query of the language model followed by a step that uses its result.\<close>

lemma adds_query:
  assumes "\<And>l e. q l = Inl e \<Longrightarrow> E e" and "\<And>r l l'. q l = Inr (r, l') \<Longrightarrow> adds thr P E (G r)"
  shows "adds thr P E (\<lambda>bcl. rbind (q (snd bcl)) (\<lambda>(r, l). G r (fst bcl, l)))"
proof (rule addsI)
  fix bc l e assume "rbind (q (snd (bc, l))) (\<lambda>(r, l'). G r (fst (bc, l), l')) = Inl e"
  then consider "q l = Inl e" | r l' where "q l = Inr (r, l')" "G r (bc, l') = Inl e" by (auto simp: rbind_eq_Inl_iff)
  then show "E e" using assms(1) adds_throw [OF assms(2)] by cases blast+
next
  fix bc l bc' l' assume "rbind (q (snd (bc, l))) (\<lambda>(r, l'). G r (fst (bc, l), l')) = Inr (bc', l')"
  then obtain r l1 where "q l = Inr (r, l1)" "G r (bc, l1) = Inr (bc', l')" by (auto simp: rbind_eq_Inr_iff)
  then show "\<exists>ps. bc' = fold (candidatesAdd thr) ps bc \<and> (\<forall>p\<in>set ps. P p)" using addsD [OF assms(2)] by blast
qed

context state_order
begin

lemma store_adds:
  assumes "adds (Fin b) P E f" "f (candidatesReset, l) = Inr ((best, cs), l')" "0 \<le> b" "0 \<le> k"
  shows "\<exists>outs. candidatesStore cmp cs k (best - Fin b) la r = Inr outs \<and>
    (\<forall>m\<in>set outs. \<exists>c. P c \<and> m = c\<lparr>score := score m\<rparr>) \<and> (\<not> la \<longrightarrow> (\<forall>m\<in>set outs. P m)) \<and>
    (\<not> la \<and> r \<longrightarrow> sorted_wrt (\<lambda>x y. score y \<le> score x) outs)"
proof -
  obtain ps where ps: "fold (candidatesAdd (Fin b)) ps candidatesReset = (best, cs)" "\<forall>p\<in>set ps. P p"
    using addsD [OF assms(1,2)] by metis
  have early: "pruned_early b ps (best, cs)" using candidatesAdd_fold [OF assms(3), of ps] ps(1) by simp
  obtain outs where outs: "candidatesStore cmp cs k (best - Fin b) la r = Inr outs"
    using candidatesStore_total [OF early assms(3,4)] by blast
  have sub: "set cs \<subseteq> set ps" using early by (simp add: pruned_early_def)
  have "\<forall>m\<in>set outs. \<exists>c. P c \<and> m = c\<lparr>score := score m\<rparr>"
    using candidatesStore_fields [OF outs] sub ps(2) by blast
  moreover have "is_beam cmp (nat k) r (within_beam b ps) outs" if "\<not> la"
    using store_beam [OF ps(1) assms(3,4), of r] outs that by auto
  then have "\<not> la \<longrightarrow> (\<forall>m\<in>set outs. P m)" "\<not> la \<and> r \<longrightarrow> sorted_wrt (\<lambda>x y. score y \<le> score x) outs"
    using ps(2) by (auto simp: is_beam_def within_beam_def)
  ultimately show ?thesis using outs by blast
qed

end

end
