(* ===== verification/DecoderSearch.thy ===== *)
theory DecoderSearch
  imports DecoderBeam DecoderCandidates
begin

section \<open>One step of a beam search\<close>

text \<open>
  What the two frame-synchronous decoders share in their proofs: the exceptions and scores of the language
  model, accesses to the emissions, and the step from the beam of one frame to the next: when every proposed
  candidate points to an element of frame \<open>f\<close> and is related to it by \<open>Q\<close>, so is every stored hypothesis, and the
  invariant \<open>beam_ok\<close> holds for the extended map.
\<close>

definition lm_throws :: "'l lm \<Rightarrow> exn \<Rightarrow> bool" where
  "lm_throws m e \<longleftrightarrow>
     (\<exists>s i l. lm_score m s i l = Inl e) \<or> (\<exists>s l. lm_finish m s l = Inl e) \<or> (\<exists>ss l. lm_updateCache m ss l = Inl e)"

definition lm_gives :: "'l lm \<Rightarrow> dbl \<Rightarrow> bool" where
  "lm_gives m x \<longleftrightarrow>
     (\<exists>s i l s' l'. lm_score m s i l = Inr ((s', x), l')) \<or> (\<exists>s l s' l'. lm_finish m s l = Inr ((s', x), l'))"

lemma lm_gives_score: "lm_score m s i l = Inr ((s', x), l') \<Longrightarrow> lm_gives m x"
  and lm_gives_finish: "lm_finish m s l = Inr ((s', x), l') \<Longrightarrow> lm_gives m x"
  unfolding lm_gives_def by blast+

lemma lm_throwsI:
  "lm_score m s i l = Inl e \<Longrightarrow> lm_throws m e" "lm_finish m s l = Inl e \<Longrightarrow> lm_throws m e"
  "lm_updateCache m ss l = Inl e \<Longrightarrow> lm_throws m e"
  unfolding lm_throws_def by blast+

lemma cell_row:
  assumes "0 \<le> t" "0 \<le> n" "n < N" "(t + 1) * N \<le> int (length xs)"
  shows "cell xs (t * N + n) = Inr (xs ! nat (t * N + n))"
proof -
  have "0 \<le> t * N" using assms by simp
  moreover have "t * N + n < (t + 1) * N" using assms(3) by (simp add: algebra_simps)
  ultimately show ?thesis using assms by (simp add: cell_def)
qed

lemma token_order_ok:
  assumes "0 \<le> k" "0 \<le> N" "(t + 1) * N \<le> int (length em)"
  shows "\<exists>idx. token_order em t N k = Inr idx \<and> set idx = {0..N - 1}"
  using assms by (auto simp: token_order_def)

lemma touch_ok: "beam_ok h f nb \<Longrightarrow> touch f h = h"
proof -
  assume ok: "beam_ok h f nb"
  obtain v where "map_of h f = Some v" using contig_Some [OF beam_okD(1-3) [OF ok]] by blast
  then show ?thesis by (simp add: touch_def)
qed

lemma find_frame_ok: "beam_ok h f nb \<Longrightarrow> find_frame h f = Inr (elems h f)"
proof -
  assume ok: "beam_ok h f nb"
  obtain v where "map_of h f = Some v" using contig_Some [OF beam_okD(1-3) [OF ok]] by blast
  then show ?thesis by (simp add: find_frame_def elems_def vec_def)
qed

definition linked :: "'z decoderState_scheme hyps \<Rightarrow> int \<Rightarrow> ('z decoderState_scheme \<Rightarrow> 'z decoderState_scheme \<Rightarrow> bool) \<Rightarrow>
    'z decoderState_scheme \<Rightarrow> bool" where
  "linked h f Q c \<longleftrightarrow> (\<exists>i<length (elems h f). parent c = Some (bid h f, i) \<and> Q (elems h f ! i) c)"

definition stored :: "'z decoderState_scheme hyps \<Rightarrow> int \<Rightarrow> ('z decoderState_scheme \<Rightarrow> 'z decoderState_scheme \<Rightarrow> bool) \<Rightarrow>
    bool \<Rightarrow> 'z decoderState_scheme list \<Rightarrow> bool" where
  "stored h f Q la outs \<longleftrightarrow>
     (\<forall>m\<in>set outs. \<exists>c. linked h f Q c \<and> m = c\<lparr>score := score m\<rparr>) \<and> (\<not> la \<longrightarrow> (\<forall>m\<in>set outs. linked h f Q m))"

lemma stored_parent:
  assumes "stored h f Q la outs"
  shows "\<forall>s\<in>set outs. \<exists>i<length (elems h f). parent s = Some (bid h f, i)"
proof
  fix s assume "s \<in> set outs"
  then obtain c where "linked h f Q c" "s = c\<lparr>score := score s\<rparr>" using assms unfolding stored_def by blast
  moreover from this have "parent s = parent c" by (metis decoderState.ext_inject decoderState.surjective decoderState.update_convs(1))
  ultimately show "\<exists>i<length (elems h f). parent s = Some (bid h f, i)" by (auto simp: linked_def)
qed

lemma adds_enumerate:
  assumes "\<And>i. i < length prev \<Longrightarrow> adds thr P E (g i (prev ! i))"
  shows "adds thr P E (rfold (\<lambda>(i, s). g i s) (enumerate 0 prev))"
  by (rule adds_rfold) (use assms in \<open>auto simp: in_set_enumerate_eq\<close>)

context state_order
begin

lemma next_frame:
  assumes "beam_ok h f nb" "0 < nb"
    and "adds (Fin b) (linked h f Q) E F" "F (candidatesReset, l) = Inr ((best, cs), l')" "0 \<le> b" "0 \<le> k"
  shows "\<exists>outs. candidatesStore cmp cs k (best - Fin b) la r = Inr outs \<and> stored h f Q la outs \<and>
    beam_ok (put (f + 1) (nb, outs) h) (f + 1) (Suc nb) \<and>
    (\<not> la \<and> r \<longrightarrow> sorted_wrt (\<lambda>x y. score y \<le> score x) outs)"
proof -
  obtain outs where outs: "candidatesStore cmp cs k (best - Fin b) la r = Inr outs" "stored h f Q la outs"
      "\<not> la \<and> r \<longrightarrow> sorted_wrt (\<lambda>x y. score y \<le> score x) outs"
    using store_adds [OF assms(3-6), of la r] unfolding stored_def by blast
  then show ?thesis using beam_ok_next [OF assms(1,2) stored_parent [OF outs(2)]] by blast
qed

end

subsection \<open>Results\<close>

lemma getAllHypothesis_ok:
  assumes "beam_ok h f nb"
  shows "\<exists>rs. getAllHypothesis h gw (elems h f) f = Inr rs \<and> length rs = length (elems h f) \<and>
    (\<forall>r\<in>set rs. length (tokens r) = nat (f + 1) \<and> length (words r) = nat (f + 1))"
proof -
  have hist: "\<exists>ss. history h s ss \<and> length ss = nat (f + 1)" if "s \<in> set (elems h f)" for s
    using history_exists [OF assms, of "nat f" s] that beam_okD(2) [OF assms] by (auto simp: nat_add_distrib)
  have "\<exists>r. getHypothesis h gw (Some s) f = Inr r \<and> length (tokens r) = nat (f + 1) \<and> length (words r) = nat (f + 1)"
    if "s \<in> set (elems h f)" for s
    using hist [OF that] getHypothesis_history [OF _ _ beam_okD(2) [OF assms], of _ s] by auto
  then obtain g where g: "\<And>s. s \<in> set (elems h f) \<Longrightarrow>
      getHypothesis h gw (Some s) f = Inr (g s) \<and> length (tokens (g s)) = nat (f + 1) \<and> length (words (g s)) = nat (f + 1)"
    by metis
  have "getAllHypothesis h gw (elems h f) f = Inr (map g (elems h f))"
    unfolding getAllHypothesis_def by (rule rmap_Inr_map) (use g in auto)
  then show ?thesis using g by auto
qed

lemma getHypothesis_ancestor:
  assumes "beam_ok h f nb" "ancestor_at h f (node, n)"
  shows "\<exists>r. getHypothesis h gw node (f - n) = Inr r"
proof (cases node)
  case (Some s)
  then have n: "0 \<le> n" "n \<le> f" "s \<in> set (elems h (int (nat (f - n))))" using assms(2) by (auto simp: ancestor_at_def)
  obtain ss where "history h s ss" "length ss = Suc (nat (f - n))"
    using history_exists [OF assms(1) _ n(3)] n by auto
  then show ?thesis
    using getHypothesis_history [of h s ss "f - n" gw] n Some by (auto simp: nat_add_distrib)
qed (simp add: getHypothesis_def)

subsection \<open>Links along a history\<close>

lemma history_links:
  "history h s ss \<Longrightarrow> Suc i < length ss \<Longrightarrow> parent_of h (ss ! Suc i) = Inr (Some (ss ! i))"
proof (induction rule: history.induct)
  case (history_step s s' ss)
  show ?case
  proof (cases "Suc i < length ss")
    case False
    then have i: "length ss = Suc i" using history_step.prems by simp
    then show ?thesis
      using history_step.hyps history_last [OF history_step.hyps(2)] by (auto simp: nth_append last_conv_nth i)
  qed (use history_step in \<open>auto simp: nth_append\<close>)
qed simp

lemma linked_parent:
  assumes "beam_ok h f nb" "0 \<le> k" "k \<le> f" "linked h k Q s" "parent_of h s = Inr (Some s')"
  shows "Q s' s"
proof -
  obtain i where i: "i < length (elems h k)" "parent s = Some (bid h k, i)" "Q (elems h k ! i) s"
    using assms(4) by (auto simp: linked_def)
  then show ?thesis using deref_elem [OF assms(1-3) i(1)] assms(5) by (simp add: parent_of_def)
qed

subsection \<open>Invariants of states and links\<close>

definition all_states :: "('z decoderState_scheme \<Rightarrow> bool) \<Rightarrow> 'z decoderState_scheme hyps \<Rightarrow> int \<Rightarrow> bool" where
  "all_states P h f \<longleftrightarrow> (\<forall>k\<in>{0..f}. \<forall>s\<in>set (elems h k). P s)"

definition all_links :: "('z decoderState_scheme \<Rightarrow> 'z decoderState_scheme \<Rightarrow> bool) \<Rightarrow> 'z decoderState_scheme hyps \<Rightarrow> int \<Rightarrow> bool" where
  "all_links Q h f \<longleftrightarrow> (\<forall>k\<in>{0..<f}. \<forall>s\<in>set (elems h (k + 1)). linked h k Q s)"

lemma linked_put: "k \<le> f \<Longrightarrow> linked (put (f + 1) v h) k Q s \<longleftrightarrow> linked h k Q s"
  by (simp add: linked_def elems_put)

text \<open>
  A property of states and a relation between a state and its parent that look neither at the scores nor at
  the parent pointers are invariants of a search: storing a frame, growing the map and pruning keep them.
\<close>

locale state_links =
  fixes P :: "'z decoderState_scheme \<Rightarrow> bool" and Q :: "'z decoderState_scheme \<Rightarrow> 'z decoderState_scheme \<Rightarrow> bool"
  assumes P_score: "P (s\<lparr>score := x\<rparr>) = P s" and P_parent: "P (s\<lparr>parent := p\<rparr>) = P s"
    and Q_score: "Q (r\<lparr>score := x\<rparr>) s = Q r s" "Q r (s\<lparr>score := x\<rparr>) = Q r s"
    and Q_parent: "Q (r\<lparr>parent := p\<rparr>) s = Q r s"
    and P_step: "P r \<Longrightarrow> Q r s \<Longrightarrow> P s"
begin

lemma stored_linked:
  assumes "stored h f Q la outs" "m \<in> set outs"
  shows "linked h f Q m"
proof -
  obtain c where c: "linked h f Q c" "m = c\<lparr>score := score m\<rparr>" using assms unfolding stored_def by blast
  have "parent (c\<lparr>score := score m\<rparr>) = parent c" by simp
  then show ?thesis using c Q_score(2) unfolding linked_def by metis
qed

lemma links_next:
  assumes "0 \<le> f" "all_states P h f" "all_links Q h f" "stored h f Q la outs" "snd v = outs"
  shows "all_states P (put (f + 1) v h) (f + 1) \<and> all_links Q (put (f + 1) v h) (f + 1)"
proof
  have l: "linked h f Q s" if "s \<in> set outs" for s using stored_linked [OF assms(4) that] .
  have "P s" if "s \<in> set outs" for s
    using l [OF that] assms(1,2) P_step nth_mem unfolding linked_def all_states_def by fastforce
  then show "all_states P (put (f + 1) v h) (f + 1)"
    using assms(2,5) \<open>\<And>s. s \<in> set outs \<Longrightarrow> P s\<close> unfolding all_states_def by (auto simp: elems_put split: if_splits)
  show "all_links Q (put (f + 1) v h) (f + 1)"
    using assms(3,5) l unfolding all_links_def by (auto simp: elems_put linked_put split: if_splits)
qed

lemma links_extend:
  assumes "contig h"
  shows "all_states P (extend_hyp n h) f = all_states P h f" "all_links Q (extend_hyp n h) f = all_links Q h f"
  by (simp_all add: all_states_def all_links_def linked_def elems_def bid_def vec_extend [OF assms])

lemma pruned_state_Q:
  "P (pruned_state L m k s) = P s" "Q (pruned_state L m k r) s = Q r s" "0 < k \<Longrightarrow> Q r (pruned_state L m k s) = Q r s"
  by (simp_all add: pruned_state_def Let_def P_score P_parent Q_score Q_parent)

lemma links_prune:
  assumes ok: "beam_ok h (s + L) nb" and sL: "1 \<le> s" "0 \<le> L" "elems h (s + L) = x # xs"
    and inv: "all_states P h (s + L)" "all_links Q h (s + L)"
  shows "\<exists>h'. pruneAndNormalize s L h = Inr h' \<and> beam_ok h' L nb \<and> all_states P h' L \<and> all_links Q h' L"
proof -
  obtain h' where h': "pruneAndNormalize s L h = Inr h'" "beam_ok h' L nb"
      "\<forall>k\<in>{0..L}. elems h' k = map (pruned_state L (score (best_node x xs)) k) (elems h (k + s)) \<and> bid h' k = bid h (k + s)"
    using beam_ok_prune [OF ok sL] by blast
  let ?p = "pruned_state L (score (best_node x xs))"
  have "P st" if k: "k \<in> {0..L}" and st: "st \<in> set (elems h' k)" for k st
  proof -
    obtain s0 where "s0 \<in> set (elems h (k + s))" "st = ?p k s0" using h'(3) k st by auto
    moreover have "k + s \<in> {0..s + L}" using k sL(1) by auto
    ultimately show ?thesis using inv(1) pruned_state_Q(1) unfolding all_states_def by blast
  qed
  moreover have "linked h' k Q st" if k: "k \<in> {0..<L}" and st: "st \<in> set (elems h' (k + 1))" for k st
  proof -
    have "k + 1 \<in> {0..L}" using k by auto
    then have "elems h' (k + 1) = map (?p (k + 1)) (elems h (k + 1 + s))" using h'(3) by blast
    then obtain s0 where s0: "s0 \<in> set (elems h (k + s + 1))" "st = ?p (k + 1) s0"
      using st by (auto simp: algebra_simps)
    have "k + s \<in> {0..<s + L}" using k sL(1) by auto
    then obtain i where i: "i < length (elems h (k + s))" "parent s0 = Some (bid h (k + s), i)" "Q (elems h (k + s) ! i) s0"
      using inv(2) s0(1) unfolding all_links_def linked_def by blast
    have "parent st = parent s0" using s0(2) k by (simp add: pruned_state_def Let_def)
    then show ?thesis using i s0(2) h'(3) k unfolding linked_def by (auto simp: pruned_state_Q)
  qed
  ultimately show ?thesis using h'(1,2) unfolding all_states_def all_links_def by blast
qed

end

end
