(* ===== verification/LexiconFreeDecoder.thy ===== *)
theory LexiconFreeDecoder
  imports DecoderSearch
begin

section \<open>The lexicon-free beam search (\<^verbatim>\<open>lib/text/decoder/LexiconFreeDecoder.h\<close>, \<^verbatim>\<open>.cpp\<close>)\<close>

text \<open>
  The decoder keeps the hypotheses of every frame; a frame extends each hypothesis of the previous one by
  each token, scores it with the acoustic emissions and the language model, and keeps the best. The members
  \<^verbatim>\<open>candidates_\<close>, \<^verbatim>\<open>candidatePtrs_\<close> and \<^verbatim>\<open>candidatesBestScore_\<close> are reset before each use and are local here;
  \<open>nextBuf\<close> is the identifier of the next buffer and \<open>lmMem\<close> the state of the language model. An emission
  buffer is a list: an access outside of it is undefined behaviour.
\<close>

record lexiconFreeDecoderOptions =
  beamSize :: int
  beamSizeToken :: int
  beamThreshold :: dbl
  lmWeight :: dbl
  silScore :: dbl
  logAdd :: bool
  criterion :: criterionType

record lexiconFreeDecoderState = decoderState +
  prevBlank :: bool

record 'l lexiconFreeDecoder =
  opt :: lexiconFreeDecoderOptions
  lm :: "'l lm"
  transitions :: "dbl list"
  sil :: int
  blank :: int
  hyp :: "lexiconFreeDecoderState hyps"
  nDecodedFrames :: int
  nPrunedFrames :: int
  nextBuf :: nat
  lmMem :: 'l

definition compareNoScoreStates :: "lexiconFreeDecoderState \<Rightarrow> lexiconFreeDecoderState \<Rightarrow> int" where
  "compareNoScoreStates this node =
     (case compare (lmState this) (Some (lmState node)) of
        Inl e \<Rightarrow> 0
      | Inr lmCmp \<Rightarrow>
          if lmCmp \<noteq> 0 then if lmCmp > 0 then 1 else -1
          else if token this \<noteq> token node then if token this > token node then 1 else -1
          else if prevBlank this \<noteq> prevBlank node then if prevBlank this > prevBlank node then 1 else -1
          else 0)"

definition getWord :: "lexiconFreeDecoderState \<Rightarrow> int" where
  "getWord s = -1"

definition isComplete :: "lexiconFreeDecoderState \<Rightarrow> bool result" where
  "isComplete s = Inr True"

definition new_state :: "dbl \<Rightarrow> lmStatePtr \<Rightarrow> hypPtr option \<Rightarrow> int \<Rightarrow> bool \<Rightarrow> dbl \<Rightarrow> dbl \<Rightarrow> lexiconFreeDecoderState" where
  "new_state sc ls par tok pb am lms =
     \<lparr>score = sc, lmState = ls, parent = par, token = tok, amScore = am, lmScore = lms, prevBlank = pb\<rparr>"

definition decodeBegin :: "'l lexiconFreeDecoder \<Rightarrow> 'l lexiconFreeDecoder" where
  "decodeBegin d =
     (let (ls, l) = lm_start (lm d) False (lmMem d) in
      d\<lparr>hyp := [(0, nextBuf d, [new_state 0 ls None (sil d) False 0 0])],
        nDecodedFrames := 0, nPrunedFrames := 0, nextBuf := Suc (nextBuf d), lmMem := l\<rparr>)"

subsection \<open>One frame\<close>

text \<open>The body of the loop over the tokens, for one hypothesis \<open>prevHyp\<close> at the address \<open>ptr\<close>.\<close>

definition propose :: "'l lexiconFreeDecoder \<Rightarrow> dbl list \<Rightarrow> int \<Rightarrow> int \<Rightarrow> lexiconFreeDecoderState \<Rightarrow> hypPtr \<Rightarrow> int \<Rightarrow>
    lexiconFreeDecoderState cands \<times> 'l \<Rightarrow> (lexiconFreeDecoderState cands \<times> 'l) result" where
  "propose d emissions N t prevHyp ptr n bcl =
     (let (bc, l) = bcl; prevIdx = token prevHyp; o1 = opt d in
      rbind (cell emissions (t * N + n)) (\<lambda>e.
      rbind (if nDecodedFrames d + t > 0 \<and> criterion o1 = ASG
             then rbind (cell (transitions d) (n * N + prevIdx)) (\<lambda>tr. Inr (e + tr)) else Inr e) (\<lambda>am.
        let sc0 = score prevHyp + e;
            sc = (if n = sil d then sc0 + silScore o1 else sc0)
        in
        if criterion o1 = ASG \<and> n \<noteq> prevIdx \<or>
           criterion o1 = CTC \<and> n \<noteq> blank d \<and> (n \<noteq> prevIdx \<or> prevBlank prevHyp)
        then rbind (lm_score (lm d) (lmState prevHyp) n l) (\<lambda>((ls, lsc), l').
          Inr (candidatesAdd (beamThreshold o1)
                 (new_state (sc + lmWeight o1 * lsc) ls (Some ptr) n False (amScore prevHyp + am) (lmScore prevHyp + lsc)) bc, l'))
        else if criterion o1 = CTC \<and> n = blank d
        then Inr (candidatesAdd (beamThreshold o1)
                 (new_state sc (lmState prevHyp) (Some ptr) n True (amScore prevHyp + am) (lmScore prevHyp)) bc, l)
        else Inr (candidatesAdd (beamThreshold o1)
                 (new_state sc (lmState prevHyp) (Some ptr) n False (amScore prevHyp + am) (lmScore prevHyp)) bc, l))))"

definition decode_frame :: "dbl list \<Rightarrow> int \<Rightarrow> int \<Rightarrow> int \<Rightarrow> 'l lexiconFreeDecoder \<Rightarrow> 'l lexiconFreeDecoder result" where
  "decode_frame emissions N startFrame t d =
     rbind (token_order emissions t N (beamSizeToken (opt d))) (\<lambda>idx.
       let ns = take (nat (min (beamSizeToken (opt d)) N)) idx;
           h = touch (startFrame + t) (hyp d);
           (b, prev) = vec h (startFrame + t)
       in
       rbind (rfold (\<lambda>(i, prevHyp). rfold (propose d emissions N t prevHyp (b, i)) ns)
                (enumerate 0 prev) (candidatesReset, lmMem d)) (\<lambda>((best, cs), l).
       rbind (candidatesStore compareNoScoreStates cs (beamSize (opt d)) (best - beamThreshold (opt d)) (logAdd (opt d)) False) (\<lambda>outs.
       rbind (updateLMCache (lm d) outs l) (\<lambda>l'.
         Inr (d\<lparr>hyp := put (startFrame + t + 1) (nextBuf d, outs) h, nextBuf := Suc (nextBuf d), lmMem := l'\<rparr>)))))"

definition decodeStep :: "dbl list \<Rightarrow> int \<Rightarrow> int \<Rightarrow> 'l lexiconFreeDecoder \<Rightarrow> 'l lexiconFreeDecoder result" where
  "decodeStep emissions T N d =
     (let startFrame = nDecodedFrames d - nPrunedFrames d;
          d1 = d\<lparr>hyp := extend_hyp (nat (startFrame + T + 2)) (hyp d)\<rparr>
      in
      if N < 0 then Inl (Length_error ''vector'')
      else rbind (rfold (decode_frame emissions N startFrame) [0..T - 1] d1) (\<lambda>d2.
        Inr (d2\<lparr>nDecodedFrames := nDecodedFrames d2 + T\<rparr>)))"

definition finish_one :: "'l lexiconFreeDecoder \<Rightarrow> lexiconFreeDecoderState \<Rightarrow> hypPtr \<Rightarrow>
    lexiconFreeDecoderState cands \<times> 'l \<Rightarrow> (lexiconFreeDecoderState cands \<times> 'l) result" where
  "finish_one d prevHyp ptr bcl =
     (let (bc, l) = bcl in
      rbind (lm_finish (lm d) (lmState prevHyp) l) (\<lambda>((ls, lsc), l').
        Inr (candidatesAdd (beamThreshold (opt d))
          (new_state (score prevHyp + lmWeight (opt d) * lsc) ls (Some ptr) (sil d) False
             (amScore prevHyp) (lmScore prevHyp + lsc)) bc, l')))"

definition decodeEnd :: "'l lexiconFreeDecoder \<Rightarrow> 'l lexiconFreeDecoder result" where
  "decodeEnd d =
     (let f = nDecodedFrames d - nPrunedFrames d;
          h = touch f (hyp d);
          (b, prev) = vec h f
      in
      rbind (rfold (\<lambda>(i, prevHyp). finish_one d prevHyp (b, i)) (enumerate 0 prev) (candidatesReset, lmMem d)) (\<lambda>((best, cs), l).
      rbind (candidatesStore compareNoScoreStates cs (beamSize (opt d)) (best - beamThreshold (opt d)) (logAdd (opt d)) True) (\<lambda>outs.
        Inr (d\<lparr>hyp := put (f + 1) (nextBuf d, outs) h, nextBuf := Suc (nextBuf d), lmMem := l,
               nDecodedFrames := nDecodedFrames d + 1\<rparr>))))"

subsection \<open>Results and pruning\<close>

definition getAllFinalHypothesis :: "'l lexiconFreeDecoder \<Rightarrow> decodeResult list result" where
  "getAllFinalHypothesis d =
     (let finalFrame = nDecodedFrames d - nPrunedFrames d in
      rbind (find_frame (hyp d) finalFrame) (\<lambda>fin. getAllHypothesis (hyp d) getWord fin finalFrame))"

definition getBestHypothesis :: "int \<Rightarrow> 'l lexiconFreeDecoder \<Rightarrow> decodeResult result" where
  "getBestHypothesis lookBack d =
     (let finalFrame = nDecodedFrames d - nPrunedFrames d in
      rbind (find_frame (hyp d) finalFrame) (\<lambda>fin.
      rbind (findBestAncestor (hyp d) isComplete fin lookBack) (\<lambda>(bestNode, n).
        getHypothesis (hyp d) getWord bestNode (nDecodedFrames d - nPrunedFrames d - n))))"

definition nHypothesis :: "'l lexiconFreeDecoder \<Rightarrow> nat result" where
  "nHypothesis d = rbind (find_frame (hyp d) (nDecodedFrames d - nPrunedFrames d)) (\<lambda>fin. Inr (length fin))"

definition nDecodedFramesInBuffer :: "'l lexiconFreeDecoder \<Rightarrow> int" where
  "nDecodedFramesInBuffer d = nDecodedFrames d - nPrunedFrames d + 1"

definition prune :: "int \<Rightarrow> 'l lexiconFreeDecoder \<Rightarrow> 'l lexiconFreeDecoder result" where
  "prune lookBack d =
     (if nDecodedFrames d - nPrunedFrames d - lookBack < 1 then Inr d
      else
        let finalFrame = nDecodedFrames d - nPrunedFrames d in
        rbind (find_frame (hyp d) finalFrame) (\<lambda>fin.
        rbind (findBestAncestor (hyp d) isComplete fin lookBack) (\<lambda>(bestNode, n).
          if bestNode = None then Inr d
          else
            let startFrame = nDecodedFrames d - nPrunedFrames d - n in
            if startFrame < 1 then Inr d
            else rbind (pruneAndNormalize startFrame n (hyp d)) (\<lambda>h.
              Inr (d\<lparr>hyp := h, nPrunedFrames := nDecodedFrames d - n\<rparr>)))))"

definition decode :: "dbl list \<Rightarrow> int \<Rightarrow> int \<Rightarrow> 'l lexiconFreeDecoder \<Rightarrow> (decodeResult list \<times> 'l lexiconFreeDecoder) result" where
  "decode emissions T N d =
     rbind (decodeStep emissions T N (decodeBegin d)) (\<lambda>d1.
     rbind (decodeEnd d1) (\<lambda>d2.
     rbind (getAllFinalHypothesis d2) (\<lambda>rs. Inr (rs, d2))))"

end
