(* ===== verification/LexiconFreeTheorems.thy ===== *)
theory LexiconFreeTheorems
  imports LexiconFreeDecoder
begin

section \<open>Properties of the lexicon-free decoder\<close>

text \<open>
  The comparison of the decoder's states is interpreted as a \<open>state_order\<close>; the invariant \<open>lf_inv\<close> of the decoder is
  preserved by every call, which gives the absence of undefined behaviour; the relation \<open>proposed\<close> between a
  hypothesis and its parent gives the meaning of the scores.
\<close>

interpretation lf: state_order compareNoScoreStates
proof
  fix x y z :: lexiconFreeDecoderState and s
  show "compareNoScoreStates y x = - compareNoScoreStates x y"
    by (auto simp: compareNoScoreStates_def compare_def)
  show "0 \<le> compareNoScoreStates x y \<Longrightarrow> 0 \<le> compareNoScoreStates y z \<Longrightarrow> 0 \<le> compareNoScoreStates x z"
    by (auto simp: compareNoScoreStates_def compare_def split: if_splits)
  show "compareNoScoreStates (x\<lparr>score := s\<rparr>) y = compareNoScoreStates x y"
    by (simp add: compareNoScoreStates_def)
qed

text \<open>
  C12. What a beam of the decoder is, without \<^verbatim>\<open>logAdd\<close>. However many candidates a frame proposes, adding them one by one with
  \<^verbatim>\<open>candidatesAdd\<close> (which already drops some against the best score so far) and selecting with \<^verbatim>\<open>candidatesStore\<close>
  never dereferences a missing candidate and returns: only candidates within \<^verbatim>\<open>beamThreshold\<close> of the best one, each
  with the best score among the candidates with the same language-model state, token and blank flag; at most
  one of each such class and at most \<^verbatim>\<open>beamSize\<close>; a class is left out only when the beam is full of candidates
  that score at least as well. With \<^verbatim>\<open>returnSorted\<close> the best comes first.
\<close>

theorem lexiconFree_beam:
  assumes "fold (candidatesAdd (Fin b)) cs candidatesReset = (best, candidates)" "0 \<le> b" "0 \<le> k"
  shows "\<exists>outs. candidatesStore compareNoScoreStates candidates k (best - Fin b) False r = Inr outs \<and>
    is_beam compareNoScoreStates (nat k) r (within_beam b cs) outs"
  using assms by (rule lf.store_beam)

theorem lexiconFree_beam_witness:
  "\<exists>outs. candidatesStore compareNoScoreStates
      [new_state (Fin 1) 1 None 4 False 0 0, new_state (Fin 2) 1 None 5 False 0 0] 1 (Fin 2 - Fin 3) False True = Inr outs \<and>
    is_beam compareNoScoreStates 1 True
      (within_beam 3 [new_state (Fin 1) 1 None 4 False 0 0, new_state (Fin 2) 1 None 5 False 0 0]) outs"
  using lexiconFree_beam [of 3 "[new_state (Fin 1) 1 None 4 False 0 0, new_state (Fin 2) 1 None 5 False 0 0]" "Fin 2"
    "[new_state (Fin 1) 1 None 4 False 0 0, new_state (Fin 2) 1 None 5 False 0 0]" 1 True]
  by (simp add: candidatesAdd_def candidatesReset_def kNegativeInfinity_def new_state_def Let_def)

subsection \<open>The invariant\<close>

definition lf_config :: "int \<Rightarrow> 'l lexiconFreeDecoder \<Rightarrow> bool" where
  "lf_config N d \<longleftrightarrow>
     0 \<le> N \<and> 0 \<le> beamSize (opt d) \<and> 0 \<le> beamSizeToken (opt d) \<and> (\<exists>b\<ge>0. beamThreshold (opt d) = Fin b) \<and>
     (criterion (opt d) = ASG \<longrightarrow> 0 \<le> sil d \<and> sil d < N \<and> N * N \<le> int (length (transitions d)))"

definition lf_inv :: "int \<Rightarrow> int \<Rightarrow> 'l lexiconFreeDecoder \<Rightarrow> bool" where
  "lf_inv N f d \<longleftrightarrow>
     lf_config N d \<and> 0 < nextBuf d \<and> beam_ok (hyp d) f (nextBuf d) \<and>
     (criterion (opt d) = ASG \<longrightarrow> (\<forall>k\<in>{0..f}. \<forall>s\<in>set (elems (hyp d) k). 0 \<le> token s \<and> token s < N))"

subsection \<open>The candidates of a frame\<close>

definition proposed :: "'l lexiconFreeDecoder \<Rightarrow> dbl list \<Rightarrow> int \<Rightarrow> int \<Rightarrow> lexiconFreeDecoderState \<Rightarrow> lexiconFreeDecoderState \<Rightarrow> bool" where
  "proposed d emissions N t prev s \<longleftrightarrow>
     0 \<le> token s \<and> token s < N \<and>
     (let e = emissions ! nat (t * N + token s);
          tr = transitions d ! nat (token s * N + token prev);
          am = (if nDecodedFrames d + t > 0 \<and> criterion (opt d) = ASG then e + tr else e);
          sc = (if token s = sil d then score prev + e + silScore (opt d) else score prev + e)
      in amScore s = amScore prev + am \<and>
        (score s = sc \<and> lmScore s = lmScore prev \<or>
         (\<exists>x. lm_gives (lm d) x \<and> score s = sc + lmWeight (opt d) * x \<and> lmScore s = lmScore prev + x)))"

lemma propose_adds:
  assumes "lf_config N d" "0 \<le> t" "0 \<le> n" "n < N" "(t + 1) * N \<le> int (length emissions)"
    and "criterion (opt d) = ASG \<Longrightarrow> 0 \<le> token prev \<and> token prev < N"
    and P: "\<And>s. parent s = Some ptr \<Longrightarrow> proposed d emissions N t prev s \<Longrightarrow> P s"
  shows "adds (beamThreshold (opt d)) P (lm_throws (lm d)) (propose d emissions N t prev ptr n)"
proof -
  let ?e = "emissions ! nat (t * N + n)" and ?tr = "transitions d ! nat (n * N + token prev)"
  let ?am = "if nDecodedFrames d + t > 0 \<and> criterion (opt d) = ASG then ?e + ?tr else ?e"
  let ?sc = "if n = sil d then score prev + ?e + silScore (opt d) else score prev + ?e"
  note e = cell_row [OF assms(2-5)]
  have tr: "cell (transitions d) (n * N + token prev) = Inr ?tr" if "criterion (opt d) = ASG"
  proof -
    have "(n + 1) * N \<le> N * N" using assms(1,4) by (intro mult_right_mono) (auto simp: lf_config_def)
    then show ?thesis using that assms(1) cell_row [of n "token prev" N "transitions d"] assms(3,6) by (simp add: lf_config_def)
  qed
  have am: "(if nDecodedFrames d + t > 0 \<and> criterion (opt d) = ASG
      then rbind (cell (transitions d) (n * N + token prev)) (\<lambda>tr. Inr (?e + tr)) else Inr ?e) = Inr ?am"
    using tr by simp
  have keep: "P (new_state ?sc (lmState prev) (Some ptr) n pb (amScore prev + ?am) (lmScore prev))" for pb
    by (rule P) (use assms in \<open>auto simp: new_state_def proposed_def Let_def\<close>)
  have move: "P (new_state (?sc + lmWeight (opt d) * x) ls (Some ptr) n False (amScore prev + ?am) (lmScore prev + x))"
    if "lm_gives (lm d) x" for x ls
    by (rule P) (use assms that in \<open>auto simp: new_state_def proposed_def Let_def\<close>)
  let ?q = "criterion (opt d) = ASG \<and> n \<noteq> token prev \<or>
      criterion (opt d) = CTC \<and> n \<noteq> blank d \<and> (n \<noteq> token prev \<or> prevBlank prev)"
  define go where "go = ?q"
  define stay where "stay = new_state ?sc (lmState prev) (Some ptr) n (criterion (opt d) = CTC \<and> n = blank d) (amScore prev + ?am) (lmScore prev)"
  define next_state where "next_state = (\<lambda>ls x. new_state (?sc + lmWeight (opt d) * x) ls (Some ptr) n False (amScore prev + ?am) (lmScore prev + x))"
  have P': "P stay" "\<And>ls x. lm_gives (lm d) x \<Longrightarrow> P (next_state ls x)"
    using keep move by (simp_all only: stay_def next_state_def)
  have eq: "propose d emissions N t prev ptr n (bc, l) =
     (if go then rbind (lm_score (lm d) (lmState prev) n l) (\<lambda>((ls, x), l').
          Inr (candidatesAdd (beamThreshold (opt d)) (next_state ls x) bc, l'))
      else Inr (candidatesAdd (beamThreshold (opt d)) stay bc, l))"
    for bc l unfolding propose_def Let_def case_prod_conv e rbind_simps am go_def stay_def next_state_def
    by (cases ?q; cases "criterion (opt d) = CTC \<and> n = blank d") (simp_all only: if_True if_False simp_thms)
  show ?thesis
  proof (rule addsI)
    fix bc l x assume "propose d emissions N t prev ptr n (bc, l) = Inl x"
    then show "lm_throws (lm d) x" unfolding eq
      by (auto simp: rbind_eq_Inl_iff lm_throws_def split: if_splits)
  next
    fix bc l bc' l' assume "propose d emissions N t prev ptr n (bc, l) = Inr (bc', l')"
    then have "bc' = candidatesAdd (beamThreshold (opt d)) stay bc \<or>
        (\<exists>ls x. lm_gives (lm d) x \<and> bc' = candidatesAdd (beamThreshold (opt d)) (next_state ls x) bc)"
      unfolding eq by (cases go) (auto simp: rbind_eq_Inr_iff dest: lm_gives_score)
    then obtain p where "P p" "bc' = candidatesAdd (beamThreshold (opt d)) p bc" using P' by blast
    then show "\<exists>ps. bc' = fold (candidatesAdd (beamThreshold (opt d))) ps bc \<and> (\<forall>p\<in>set ps. P p)"
      by (intro exI [of _ "[p]"]) simp
  qed
qed

subsection \<open>One frame\<close>

definition new_frame :: "'l lexiconFreeDecoder \<Rightarrow> int \<Rightarrow> lexiconFreeDecoderState list \<Rightarrow> 'l \<Rightarrow> 'l lexiconFreeDecoder" where
  "new_frame d f outs l = d\<lparr>hyp := put f (nextBuf d, outs) (hyp d), nextBuf := Suc (nextBuf d), lmMem := l\<rparr>"

lemma new_frame_sel [simp]:
  "opt (new_frame d f outs l) = opt d" "lm (new_frame d f outs l) = lm d" "sil (new_frame d f outs l) = sil d"
  "transitions (new_frame d f outs l) = transitions d" "nDecodedFrames (new_frame d f outs l) = nDecodedFrames d"
  "nPrunedFrames (new_frame d f outs l) = nPrunedFrames d" "hyp (new_frame d f outs l) = put f (nextBuf d, outs) (hyp d)"
  "nextBuf (new_frame d f outs l) = Suc (nextBuf d)" "blank (new_frame d f outs l) = blank d"
  by (simp_all add: new_frame_def)

lemma stored_token:
  assumes "stored h f Q la outs" "s \<in> set outs"
  shows "\<exists>c. linked h f Q c \<and> token c = token s \<and> parent c = parent s"
proof -
  obtain c where "linked h f Q c" "s = c\<lparr>score := score s\<rparr>" using assms unfolding stored_def by blast
  moreover from this have "token s = token c" "parent s = parent c"
    by (metis decoderState.ext_inject decoderState.surjective decoderState.update_convs(1))+
  ultimately show ?thesis by metis
qed

lemma lf_inv_next:
  assumes "lf_inv N f d" "beam_ok (put (f + 1) (nextBuf d, outs) (hyp d)) (f + 1) (Suc (nextBuf d))"
    and "criterion (opt d) = ASG \<Longrightarrow> \<forall>s\<in>set outs. 0 \<le> token s \<and> token s < N"
  shows "lf_inv N (f + 1) (new_frame d (f + 1) outs l)"
  using assms unfolding lf_inv_def lf_config_def by (auto simp: elems_put split: if_splits)

lemma frame_adds:
  assumes inv: "lf_inv N f d" and t: "0 \<le> t" "(t + 1) * N \<le> int (length emissions)" and ns: "set ns \<subseteq> {0..N - 1}"
  shows "adds (beamThreshold (opt d)) (linked (hyp d) f (proposed d emissions N t)) (lm_throws (lm d))
     (rfold (\<lambda>(i, prevHyp). rfold (propose d emissions N t prevHyp (bid (hyp d) f, i)) ns) (enumerate 0 (elems (hyp d) f)))"
proof (rule adds_enumerate, rule adds_rfold)
  fix i n assume i: "i < length (elems (hyp d) f)" and n: "n \<in> set ns"
  have c: "lf_config N d" and f: "0 \<le> f" using inv beam_okD(2) [of "hyp d" f] by (auto simp: lf_inv_def)
  have tok: "criterion (opt d) = ASG \<Longrightarrow> 0 \<le> token (elems (hyp d) f ! i) \<and> token (elems (hyp d) f ! i) < N"
    using inv nth_mem [OF i] f atLeastAtMost_iff [of f 0 f] unfolding lf_inv_def by blast
  have "0 \<le> n" "n < N" using n ns by auto
  then show "adds (beamThreshold (opt d)) (linked (hyp d) f (proposed d emissions N t)) (lm_throws (lm d))
      (propose d emissions N t (elems (hyp d) f ! i) (bid (hyp d) f, i) n)"
    by (rule propose_adds [OF c t(1) _ _ t(2) tok]) (use i in \<open>auto simp: linked_def\<close>)
qed

lemma decode_frame_ok:
  assumes inv: "lf_inv N f d" and f: "f = startFrame + t" "f + 1 < int (length (hyp d))"
    and t: "0 \<le> t" "(t + 1) * N \<le> int (length emissions)"
  shows "case decode_frame emissions N startFrame t d of
      Inl e \<Rightarrow> lm_throws (lm d) e
    | Inr d' \<Rightarrow> \<exists>outs l. d' = new_frame d (f + 1) outs l \<and>
        stored (hyp d) f (proposed d emissions N t) (logAdd (opt d)) outs \<and> lf_inv N (f + 1) d'"
proof -
  obtain b where b: "0 \<le> b" "beamThreshold (opt d) = Fin b" using inv by (auto simp: lf_inv_def lf_config_def)
  have ok: "beam_ok (hyp d) f (nextBuf d)" and nb: "0 < nextBuf d" using inv by (auto simp: lf_inv_def)
  have sizes: "0 \<le> beamSize (opt d)" "0 \<le> beamSizeToken (opt d)" "0 \<le> N" using inv by (auto simp: lf_inv_def lf_config_def)
  obtain idx where idx: "token_order emissions t N (beamSizeToken (opt d)) = Inr idx" "set idx = {0..N - 1}"
    using token_order_ok [OF sizes(2,3) t(2)] by blast
  let ?ns = "take (nat (min (beamSizeToken (opt d)) N)) idx"
  define F where "F = rfold (\<lambda>(i, prevHyp). rfold (propose d emissions N t prevHyp (bid (hyp d) f, i)) ?ns) (enumerate 0 (elems (hyp d) f))"
  have "set ?ns \<subseteq> {0..N - 1}" using idx(2) by (auto dest: in_set_takeD)
  then have adds: "adds (Fin b) (linked (hyp d) f (proposed d emissions N t)) (lm_throws (lm d)) F"
    using frame_adds [OF inv t] b(2) unfolding F_def by simp
  have eq: "decode_frame emissions N startFrame t d =
      rbind (F (candidatesReset, lmMem d)) (\<lambda>((best, cs), l).
      rbind (candidatesStore compareNoScoreStates cs (beamSize (opt d)) (best - Fin b) (logAdd (opt d)) False) (\<lambda>outs.
      rbind (updateLMCache (lm d) outs l) (\<lambda>l'. Inr (new_frame d (f + 1) outs l'))))"
    using idx(1) touch_ok [OF ok] b(2) f(1)
    by (simp add: decode_frame_def F_def Let_def new_frame_def elems_def bid_def split_beta)
  show ?thesis
  proof (cases "F (candidatesReset, lmMem d)")
    case (Inl e)
    then show ?thesis using adds_throw [OF adds Inl] eq by simp
  next
    case (Inr r)
    obtain best cs l where r: "F (candidatesReset, lmMem d) = Inr ((best, cs), l)" using Inr by (cases r) auto
    obtain outs where outs: "candidatesStore compareNoScoreStates cs (beamSize (opt d)) (best - Fin b) (logAdd (opt d)) False = Inr outs"
        "stored (hyp d) f (proposed d emissions N t) (logAdd (opt d)) outs"
        "beam_ok (put (f + 1) (nextBuf d, outs) (hyp d)) (f + 1) (Suc (nextBuf d))"
      using lf.next_frame [OF ok nb adds r b(1) sizes(1)] by blast
    have "\<forall>s\<in>set outs. 0 \<le> token s \<and> token s < N"
      using stored_token [OF outs(2)] by (fastforce simp: linked_def proposed_def)
    then have inv': "lf_inv N (f + 1) (new_frame d (f + 1) outs l')" for l' using lf_inv_next [OF inv outs(3)] by blast
    show ?thesis
    proof (cases "updateLMCache (lm d) outs l")
      case (Inl e)
      then have "lm_throws (lm d) e" unfolding updateLMCache_def by (rule lm_throwsI)
      then show ?thesis using Inl r outs(1) eq by simp
    next
      case (Inr l')
      then show ?thesis using r outs inv' eq by auto
    qed
  qed
qed

subsection \<open>A chunk of frames\<close>

definition same_decoder :: "'l lexiconFreeDecoder \<Rightarrow> 'l lexiconFreeDecoder \<Rightarrow> bool" where
  "same_decoder d d' \<longleftrightarrow>
     opt d' = opt d \<and> lm d' = lm d \<and> transitions d' = transitions d \<and> sil d' = sil d \<and> blank d' = blank d \<and>
     nDecodedFrames d' = nDecodedFrames d \<and> nPrunedFrames d' = nPrunedFrames d \<and> length (hyp d') = length (hyp d)"

definition stepped :: "'l lexiconFreeDecoder \<Rightarrow> dbl list \<Rightarrow> int \<Rightarrow> int \<Rightarrow> nat \<Rightarrow> 'l lexiconFreeDecoder \<Rightarrow> bool" where
  "stepped d emissions N startFrame n d' \<longleftrightarrow>
     lf_inv N (startFrame + int n) d' \<and> same_decoder d d' \<and>
     (\<forall>k\<le>startFrame. vec (hyp d') k = vec (hyp d) k) \<and>
     (\<not> logAdd (opt d) \<longrightarrow> (\<forall>j<n. \<forall>s\<in>set (elems (hyp d') (startFrame + int j + 1)).
        linked (hyp d') (startFrame + int j) (proposed d emissions N (int j)) s))"

lemma proposed_same: "same_decoder d d' \<Longrightarrow> proposed d' emissions N t = proposed d emissions N t"
  by (simp add: same_decoder_def proposed_def fun_eq_iff)

lemma stepped_next:
  assumes st: "stepped d emissions N startFrame n d'" and f: "f = startFrame + int n" "f + 1 < int (length (hyp d'))"
    and outs: "stored (hyp d') f (proposed d' emissions N (int n)) (logAdd (opt d')) outs"
    and inv: "lf_inv N (f + 1) (new_frame d' (f + 1) outs l)"
  shows "stepped d emissions N startFrame (Suc n) (new_frame d' (f + 1) outs l)"
proof -
  let ?d = "new_frame d' (f + 1) outs l"
  have same: "same_decoder d d'" using st by (simp add: stepped_def)
  have ok: "beam_ok (hyp d') f (nextBuf d')" using st f by (simp add: stepped_def lf_inv_def)
  have "map_of (hyp d') (f + 1) \<noteq> None"
    using contig_Some [OF beam_okD(1) [OF ok], of "f + 1"] f(2) beam_okD(2) [OF ok] by auto
  then have same': "same_decoder d ?d" using same by (simp add: same_decoder_def length_put_present)
  have link: "linked (hyp ?d) (startFrame + int j) (proposed d emissions N (int j)) s"
    if la: "\<not> logAdd (opt d)" and j: "j < Suc n" and s: "s \<in> set (elems (hyp ?d) (startFrame + int j + 1))" for j s
  proof (cases "j = n")
    case True
    have "linked (hyp d') f (proposed d emissions N (int n)) s"
      using outs s True la f(1) same unfolding stored_def proposed_same [OF same] by (auto simp: elems_put same_decoder_def)
    then show ?thesis using True f(1) by (simp add: linked_put)
  next
    case False
    then have "s \<in> set (elems (hyp d') (startFrame + int j + 1))" using s j f(1) by (simp add: elems_put)
    then have "linked (hyp d') (startFrame + int j) (proposed d emissions N (int j)) s"
      using st la j False by (simp add: stepped_def)
    then show ?thesis using False j f(1) by (simp add: linked_put)
  qed
  have "\<forall>k\<le>startFrame. vec (hyp ?d) k = vec (hyp d) k" using st f(1) by (simp add: stepped_def vec_put)
  moreover have e: "startFrame + int (Suc n) = f + 1" using f(1) by simp
  ultimately show ?thesis using inv same' link unfolding stepped_def e by blast
qed

lemma decode_loop:
  assumes inv: "lf_inv N startFrame d" and len: "startFrame + int n < int (length (hyp d))"
    and em: "int n * N \<le> int (length emissions)"
  shows "case rfold (decode_frame emissions N startFrame) [0..int n - 1] d of
      Inl e \<Rightarrow> lm_throws (lm d) e | Inr d' \<Rightarrow> stepped d emissions N startFrame n d'"
proof (rule rfold_upto)
  show "stepped d emissions N startFrame 0 d" using inv by (simp add: stepped_def same_decoder_def)
  fix k d' assume k: "k < n" and st: "stepped d emissions N startFrame k d'"
  have N: "0 \<le> N" using inv by (simp add: lf_inv_def lf_config_def)
  have "(int k + 1) * N \<le> int n * N" using k N by (intro mult_right_mono) auto
  then have row: "(int k + 1) * N \<le> int (length emissions)" using em by linarith
  have same: "same_decoder d d'" and inv': "lf_inv N (startFrame + int k) d'" using st by (simp_all add: stepped_def)
  have len': "startFrame + int k + 1 < int (length (hyp d'))" using same len k by (simp add: same_decoder_def)
  show "case decode_frame emissions N startFrame (int k) d' of
      Inl e \<Rightarrow> lm_throws (lm d) e | Inr d'' \<Rightarrow> stepped d emissions N startFrame (Suc k) d''"
    using decode_frame_ok [OF inv' refl len' _ row] stepped_next [OF st refl len'] same
    by (auto simp: same_decoder_def split: sum.splits)
qed

lemma lf_inv_extend:
  "lf_inv N f d \<Longrightarrow> lf_inv N f (d\<lparr>hyp := extend_hyp n (hyp d)\<rparr>)"
proof -
  assume inv: "lf_inv N f d"
  then have ok: "beam_ok (hyp d) f (nextBuf d)" by (simp add: lf_inv_def)
  have "elems (extend_hyp n (hyp d)) = elems (hyp d)"
    using vec_extend [OF beam_okD(1) [OF ok]] by (auto simp: elems_def)
  then show ?thesis using inv beam_ok_extend [OF ok] by (simp add: lf_inv_def lf_config_def)
qed

lemma decodeStep_ok:
  assumes inv: "lf_inv N (nDecodedFrames d - nPrunedFrames d) d" and T: "0 \<le> T" "T * N \<le> int (length emissions)"
  shows "case decodeStep emissions T N d of
      Inl e \<Rightarrow> lm_throws (lm d) e
    | Inr d' \<Rightarrow> \<exists>d2. d' = d2\<lparr>nDecodedFrames := nDecodedFrames d + T\<rparr> \<and>
        stepped (d\<lparr>hyp := extend_hyp (nat (nDecodedFrames d - nPrunedFrames d + T + 2)) (hyp d)\<rparr>) emissions N
          (nDecodedFrames d - nPrunedFrames d) (nat T) d2 \<and>
        lf_inv N (nDecodedFrames d' - nPrunedFrames d') d'"
proof -
  let ?f = "nDecodedFrames d - nPrunedFrames d"
  let ?d1 = "d\<lparr>hyp := extend_hyp (nat (?f + T + 2)) (hyp d)\<rparr>"
  have ok: "beam_ok (hyp d) ?f (nextBuf d)" using inv by (simp add: lf_inv_def)
  have N: "\<not> N < 0" using inv by (simp add: lf_inv_def lf_config_def)
  have len: "?f + int (nat T) < int (length (hyp ?d1))"
    using length_extend [OF beam_okD(1) [OF ok]] T beam_okD(2) [OF ok] by simp
  have "int (nat T) * N \<le> int (length emissions)" using T by simp
  note loop = decode_loop [OF lf_inv_extend [OF inv] len this]
  have eq: "decodeStep emissions T N d = rbind (rfold (decode_frame emissions N ?f) [0..int (nat T) - 1] ?d1) (\<lambda>d2.
        Inr (d2\<lparr>nDecodedFrames := nDecodedFrames d2 + T\<rparr>))"
    using N T(1) by (simp add: decodeStep_def Let_def)
  show ?thesis
  proof (cases "rfold (decode_frame emissions N ?f) [0..int (nat T) - 1] ?d1")
    case (Inl e)
    then show ?thesis using loop eq by simp
  next
    case (Inr d2)
    then have st: "stepped ?d1 emissions N ?f (nat T) d2" using loop by simp
    then have "lf_inv N (?f + T) d2" "nDecodedFrames d2 = nDecodedFrames d" "nPrunedFrames d2 = nPrunedFrames d"
      using T(1) by (simp_all add: stepped_def same_decoder_def)
    moreover from this have "lf_inv N (?f + T) (d2\<lparr>nDecodedFrames := nDecodedFrames d + T\<rparr>)"
      by (simp add: lf_inv_def lf_config_def)
    ultimately show ?thesis using st eq Inr by (simp add: algebra_simps) blast
  qed
qed

subsection \<open>The other calls\<close>

definition finished :: "'l lexiconFreeDecoder \<Rightarrow> lexiconFreeDecoderState \<Rightarrow> lexiconFreeDecoderState \<Rightarrow> bool" where
  "finished d prev s \<longleftrightarrow>
     token s = sil d \<and> amScore s = amScore prev \<and>
     (\<exists>x. lm_gives (lm d) x \<and> score s = score prev + lmWeight (opt d) * x \<and> lmScore s = lmScore prev + x)"

lemma finish_adds:
  assumes P: "\<And>s. parent s = Some ptr \<Longrightarrow> finished d prev s \<Longrightarrow> P s"
  shows "adds (beamThreshold (opt d)) P (lm_throws (lm d)) (finish_one d prev ptr)"
proof (rule addsI)
  fix bc l e assume "finish_one d prev ptr (bc, l) = Inl e"
  then show "lm_throws (lm d) e" by (auto simp: finish_one_def rbind_eq_Inl_iff intro: lm_throwsI)
next
  fix bc l bc' l' assume "finish_one d prev ptr (bc, l) = Inr (bc', l')"
  then obtain ls x where x: "lm_finish (lm d) (lmState prev) l = Inr ((ls, x), l')"
      "bc' = candidatesAdd (beamThreshold (opt d)) (new_state (score prev + lmWeight (opt d) * x) ls (Some ptr) (sil d) False
         (amScore prev) (lmScore prev + x)) bc" (is "_ = candidatesAdd _ ?s bc")
    by (auto simp: finish_one_def rbind_eq_Inr_iff)
  have "P ?s" by (rule P) (use lm_gives_finish [OF x(1)] in \<open>auto simp: finished_def new_state_def\<close>)
  then show "\<exists>ps. bc' = fold (candidatesAdd (beamThreshold (opt d))) ps bc \<and> (\<forall>p\<in>set ps. P p)"
    using x(2) by (intro exI [of _ "[?s]"]) simp
qed

lemma decodeEnd_ok:
  assumes inv: "lf_inv N f d" and f: "f = nDecodedFrames d - nPrunedFrames d"
  shows "case decodeEnd d of
      Inl e \<Rightarrow> lm_throws (lm d) e
    | Inr d' \<Rightarrow> \<exists>outs l. d' = (new_frame d (f + 1) outs l)\<lparr>nDecodedFrames := nDecodedFrames d + 1\<rparr> \<and>
        stored (hyp d) f (finished d) (logAdd (opt d)) outs \<and> lf_inv N (f + 1) d' \<and>
        (\<not> logAdd (opt d) \<longrightarrow> sorted_wrt (\<lambda>x y. score y \<le> score x) outs)"
proof -
  obtain b where b: "0 \<le> b" "beamThreshold (opt d) = Fin b" using inv by (auto simp: lf_inv_def lf_config_def)
  have ok: "beam_ok (hyp d) f (nextBuf d)" and nb: "0 < nextBuf d" using inv by (auto simp: lf_inv_def)
  have k: "0 \<le> beamSize (opt d)" using inv by (auto simp: lf_inv_def lf_config_def)
  define F where "F = rfold (\<lambda>(i, prevHyp). finish_one d prevHyp (bid (hyp d) f, i)) (enumerate 0 (elems (hyp d) f))"
  have adds: "adds (Fin b) (linked (hyp d) f (finished d)) (lm_throws (lm d)) F"
    unfolding F_def b(2) [symmetric] by (intro adds_enumerate finish_adds) (auto simp: linked_def)
  have eq: "decodeEnd d =
      rbind (F (candidatesReset, lmMem d)) (\<lambda>((best, cs), l).
      rbind (candidatesStore compareNoScoreStates cs (beamSize (opt d)) (best - Fin b) (logAdd (opt d)) True) (\<lambda>outs.
        Inr ((new_frame d (f + 1) outs l)\<lparr>nDecodedFrames := nDecodedFrames d + 1\<rparr>)))"
    using touch_ok [OF ok] b(2) f
    by (simp add: decodeEnd_def F_def Let_def new_frame_def elems_def bid_def split_beta)
  show ?thesis
  proof (cases "F (candidatesReset, lmMem d)")
    case (Inl e)
    then show ?thesis using adds_throw [OF adds Inl] eq by simp
  next
    case (Inr r)
    obtain best cs l where r: "F (candidatesReset, lmMem d) = Inr ((best, cs), l)" using Inr by (cases r) auto
    obtain outs where outs: "candidatesStore compareNoScoreStates cs (beamSize (opt d)) (best - Fin b) (logAdd (opt d)) True = Inr outs"
        "stored (hyp d) f (finished d) (logAdd (opt d)) outs"
        "beam_ok (put (f + 1) (nextBuf d, outs) (hyp d)) (f + 1) (Suc (nextBuf d))"
        "\<not> logAdd (opt d) \<longrightarrow> sorted_wrt (\<lambda>x y. score y \<le> score x) outs"
      using lf.next_frame [OF ok nb adds r b(1) k, of "logAdd (opt d)" True] by blast
    have tok: "criterion (opt d) = ASG \<Longrightarrow> \<forall>s\<in>set outs. 0 \<le> token s \<and> token s < N"
      using stored_token [OF outs(2)] inv by (fastforce simp: linked_def finished_def lf_inv_def lf_config_def)
    have "lf_inv N (f + 1) ((new_frame d (f + 1) outs l)\<lparr>nDecodedFrames := nDecodedFrames d + 1\<rparr>)"
      using lf_inv_next [OF inv outs(3) tok] by (simp add: lf_inv_def lf_config_def)
    then show ?thesis using r outs(1,2,4) eq by auto
  qed
qed

lemma decodeBegin_ok:
  assumes "lf_config N d" "0 < nextBuf d"
  shows "lf_inv N 0 (decodeBegin d)" "nDecodedFrames (decodeBegin d) = 0" "nPrunedFrames (decodeBegin d) = 0"
    and "elems (hyp (decodeBegin d)) 0 = [new_state 0 (fst (lm_start (lm d) False (lmMem d))) None (sil d) False 0 0]"
  using assms
  by (auto simp: decodeBegin_def lf_inv_def lf_config_def beam_ok_def contig_def bid_def elems_def vec_def new_state_def Let_def split_beta)

lemma isComplete_total: "\<exists>b. isComplete s = Inr b"
  by (auto simp: isComplete_def)

lemma best_ancestor_ok:
  assumes "lf_inv N f d"
  shows "\<exists>r. findBestAncestor (hyp d) isComplete (elems (hyp d) f) lookBack = Inr r \<and>
    (if elems (hyp d) f = [] then r = (None, lookBack) else ancestor_at (hyp d) f r)"
  by (rule findBestAncestor_ok) (use assms isComplete_total in \<open>auto simp: lf_inv_def\<close>)

lemma prune_ok:
  assumes inv: "lf_inv N f d" and f: "f = nDecodedFrames d - nPrunedFrames d"
  shows "\<exists>d'. prune lookBack d = Inr d' \<and> lf_inv N (nDecodedFrames d' - nPrunedFrames d') d' \<and> lm d' = lm d"
proof -
  have ok: "beam_ok (hyp d) f (nextBuf d)" using inv by (simp add: lf_inv_def)
  have inv': "lf_inv N (nDecodedFrames d - nPrunedFrames d) d" using inv f by simp
  obtain node n where r: "findBestAncestor (hyp d) isComplete (elems (hyp d) f) lookBack = Inr (node, n)"
      "if elems (hyp d) f = [] then (node, n) = (None, lookBack) else ancestor_at (hyp d) f (node, n)"
    using best_ancestor_ok [OF inv, of lookBack] by (metis prod.exhaust)
  have eq: "prune lookBack d =
      (if f - lookBack < 1 \<or> node = None \<or> f - n < 1 then Inr d
       else rbind (pruneAndNormalize (f - n) n (hyp d)) (\<lambda>h. Inr (d\<lparr>hyp := h, nPrunedFrames := nDecodedFrames d - n\<rparr>)))"
    using r(1) find_frame_ok [OF ok] f by (simp add: prune_def Let_def)
  show ?thesis
  proof (cases "f - lookBack < 1 \<or> node = None \<or> f - n < 1")
    case True
    then show ?thesis using eq inv' by auto
  next
    case False
    then have n: "ancestor_at (hyp d) f (node, n)" "elems (hyp d) f \<noteq> []" using r(2) by (auto split: if_splits)
    then obtain x xs where x: "elems (hyp d) f = x # xs" by (cases "elems (hyp d) f") auto
    have n0: "0 \<le> n" using n(1) by (simp add: ancestor_at_def)
    have "beam_ok (hyp d) ((f - n) + n) (nextBuf d)" "1 \<le> f - n" "elems (hyp d) ((f - n) + n) = x # xs" using ok x False by auto
    from beam_ok_prune [OF this(1,2) n0 this(3)] obtain h' where
      h': "pruneAndNormalize (f - n) n (hyp d) = Inr h'" "beam_ok h' n (nextBuf d)"
        "\<forall>k\<in>{0..n}. elems h' k = map (pruned_state n (score (best_node x xs)) k) (elems (hyp d) (k + (f - n))) \<and> bid h' k = bid (hyp d) (k + (f - n))" by blast
    have tok: "0 \<le> token s \<and> token s < N" if c: "criterion (opt d) = ASG" and k: "k \<in> {0..n}" and s: "s \<in> set (elems h' k)" for k s
    proof -
      obtain s0 where s0: "s0 \<in> set (elems (hyp d) (k + (f - n)))" "token s = token s0"
        using h'(3) k s by (auto simp: pruned_state_def Let_def)
      have "k + (f - n) \<in> {0..f}" using k n0 False by auto
      then show ?thesis using inv s0 c unfolding lf_inv_def by metis
    qed
    have "lf_inv N n (d\<lparr>hyp := h', nPrunedFrames := nDecodedFrames d - n\<rparr>)"
      using inv h'(2) tok by (simp add: lf_inv_def lf_config_def)
    then show ?thesis using eq False h'(1) by simp
  qed
qed

subsection \<open>Reachable states\<close>

inductive lf_reach :: "int \<Rightarrow> 'l lexiconFreeDecoder \<Rightarrow> bool" for N where
  reach_begin: "lf_config N d \<Longrightarrow> 0 < nextBuf d \<Longrightarrow> lf_reach N (decodeBegin d)"
| reach_step: "lf_reach N d \<Longrightarrow> 0 \<le> T \<Longrightarrow> T * N \<le> int (length emissions) \<Longrightarrow> decodeStep emissions T N d = Inr d' \<Longrightarrow> lf_reach N d'"
| reach_end: "lf_reach N d \<Longrightarrow> decodeEnd d = Inr d' \<Longrightarrow> lf_reach N d'"
| reach_prune: "lf_reach N d \<Longrightarrow> prune lookBack d = Inr d' \<Longrightarrow> lf_reach N d'"

lemma lf_reach_inv: "lf_reach N d \<Longrightarrow> lf_inv N (nDecodedFrames d - nPrunedFrames d) d"
proof (induction rule: lf_reach.induct)
  case (reach_begin d)
  then show ?case using decodeBegin_ok [OF reach_begin] by simp
next
  case (reach_step d T emissions d')
  then show ?case using decodeStep_ok [OF reach_step.IH reach_step.hyps(2,3)] by auto
next
  case (reach_end d d')
  then show ?case using decodeEnd_ok [OF reach_end.IH refl] by (auto simp: algebra_simps)
next
  case (reach_prune d lookBack d')
  then show ?case using prune_ok [OF reach_prune.IH refl, of lookBack] by auto
qed

text \<open>
  C5. The decoder is memory safe under online use: in every state that \<^verbatim>\<open>decodeBegin\<close>, chunks of emissions, \<^verbatim>\<open>prune\<close>
  and \<^verbatim>\<open>decodeEnd\<close> can reach, with a non-negative beam threshold and a transition matrix for ASG, no call follows a
  dangling parent pointer, indexes out of range, uses a missing frame or loops for ever: \<^verbatim>\<open>prune\<close> and the queries
  return, whatever the look-back, every final hypothesis has one token for each buffered frame, and the
  only exceptions of \<^verbatim>\<open>decodeStep\<close> and \<^verbatim>\<open>decodeEnd\<close> are those the language model throws.
\<close>

theorem lexiconFree_safe:
  assumes "lf_reach N d"
  shows "(\<forall>emissions T e. 0 \<le> T \<and> T * N \<le> int (length emissions) \<and> decodeStep emissions T N d = Inl e \<longrightarrow> lm_throws (lm d) e) \<and>
    (\<forall>e. decodeEnd d = Inl e \<longrightarrow> lm_throws (lm d) e) \<and>
    (\<forall>lookBack. \<exists>d'. prune lookBack d = Inr d') \<and> (\<forall>lookBack. \<exists>r. getBestHypothesis lookBack d = Inr r) \<and>
    (\<exists>rs. getAllFinalHypothesis d = Inr rs \<and> nHypothesis d = Inr (length rs) \<and>
       (\<forall>r\<in>set rs. length (tokens r) = nat (nDecodedFramesInBuffer d)))"
proof -
  let ?f = "nDecodedFrames d - nPrunedFrames d"
  note inv = lf_reach_inv [OF assms]
  then have ok: "beam_ok (hyp d) ?f (nextBuf d)" by (simp add: lf_inv_def)
  have best: "\<exists>r. getBestHypothesis lookBack d = Inr r" for lookBack
  proof -
    obtain node n where r: "findBestAncestor (hyp d) isComplete (elems (hyp d) ?f) lookBack = Inr (node, n)"
        "if elems (hyp d) ?f = [] then (node, n) = (None, lookBack) else ancestor_at (hyp d) ?f (node, n)"
      using best_ancestor_ok [OF inv, of lookBack] by (metis prod.exhaust)
    have "\<exists>r. getHypothesis (hyp d) getWord node (?f - n) = Inr r"
      using r(2) getHypothesis_ancestor [OF ok, of node n getWord] by (auto simp: getHypothesis_def split: if_splits)
    then show ?thesis using r(1) find_frame_ok [OF ok] by (simp add: getBestHypothesis_def Let_def)
  qed
  have "\<exists>rs. getAllFinalHypothesis d = Inr rs \<and> nHypothesis d = Inr (length rs) \<and>
       (\<forall>r\<in>set rs. length (tokens r) = nat (nDecodedFramesInBuffer d))"
    using getAllHypothesis_ok [OF ok, of getWord] find_frame_ok [OF ok]
    by (auto simp: getAllFinalHypothesis_def nHypothesis_def nDecodedFramesInBuffer_def)
  moreover have "lm_throws (lm d) e" if "0 \<le> T" "T * N \<le> int (length emissions)" "decodeStep emissions T N d = Inl e" for emissions T e
    using decodeStep_ok [OF inv that(1,2)] that(3) by simp
  moreover have "lm_throws (lm d) e" if "decodeEnd d = Inl e" for e
    using decodeEnd_ok [OF inv refl] that by simp
  ultimately show ?thesis using best prune_ok [OF inv refl] by blast
qed

definition example_decoder :: "criterionType \<Rightarrow> lmHeap lexiconFreeDecoder" where
  "example_decoder c =
     \<lparr>opt = \<lparr>beamSize = 2, beamSizeToken = 2, beamThreshold = Fin 10, lmWeight = Fin 1, silScore = Fin 0, logAdd = False, criterion = c\<rparr>,
      lm = zeroLM, transitions = [Fin 1, Fin 1, Fin 1, Fin 1], sil = 0, blank = 1, hyp = [], nDecodedFrames = 0, nPrunedFrames = 0,
      nextBuf = 1, lmMem = []\<rparr>"

theorem lexiconFree_safe_witness:
  "\<exists>rs. getAllFinalHypothesis (decodeBegin (example_decoder CTC)) = Inr rs \<and> (\<forall>r\<in>set rs. length (tokens r) = 1)"
proof -
  have "lf_reach 2 (decodeBegin (example_decoder CTC))"
    by (rule reach_begin) (simp_all add: lf_config_def example_decoder_def)
  from lexiconFree_safe [OF this] show ?thesis
    using decodeBegin_ok(2,3) [of 2 "example_decoder CTC"]
    by (auto simp: nDecodedFramesInBuffer_def lf_config_def example_decoder_def)
qed

end
