(* ===== verification/LexiconFreeScores.thy ===== *)
theory LexiconFreeScores
  imports LexiconFreeTheorems
begin

section \<open>What the scores of the lexicon-free decoder mean\<close>

text \<open>
  Along the history of a final hypothesis every state was proposed from its parent, so the accumulated scores
  are sums over the frames. \<open>path_emissions\<close> and \<open>path_transitions\<close> are those sums for a token sequence that starts
  with the initial silence token.
\<close>

definition path_emissions :: "dbl list \<Rightarrow> int \<Rightarrow> int list \<Rightarrow> nat \<Rightarrow> real" where
  "path_emissions emissions N toks k = (\<Sum>t<k. the_fin (emissions ! nat (int t * N + toks ! Suc t)))"

definition path_transitions :: "dbl list \<Rightarrow> int \<Rightarrow> int list \<Rightarrow> nat \<Rightarrow> real" where
  "path_transitions tr N toks k = (\<Sum>t<k. if t = 0 then 0 else the_fin (tr ! nat (toks ! Suc t * N + toks ! t)))"

definition path_silences :: "int \<Rightarrow> int list \<Rightarrow> nat \<Rightarrow> real" where
  "path_silences s toks k = (\<Sum>t<k. if toks ! Suc t = s then 1 else 0)"

definition finite_inputs :: "'l lexiconFreeDecoder \<Rightarrow> dbl list \<Rightarrow> bool" where
  "finite_inputs d emissions \<longleftrightarrow>
     (\<forall>x\<in>set emissions \<union> set (transitions d). \<exists>r. x = Fin r) \<and> (\<exists>r. lmWeight (opt d) = Fin r) \<and>
     (\<exists>r. silScore (opt d) = Fin r) \<and> (\<forall>x. lm_gives (lm d) x \<longrightarrow> (\<exists>r. x = Fin r))"

lemma finite_nth: "\<forall>x\<in>set xs. \<exists>r. x = Fin r \<Longrightarrow> 0 \<le> i \<Longrightarrow> i < int (length xs) \<Longrightarrow> \<exists>r. xs ! nat i = Fin r"
  using nth_mem [of "nat i" xs] by auto

definition scores_sum :: "'l lexiconFreeDecoder \<Rightarrow> dbl list \<Rightarrow> int \<Rightarrow> int list \<Rightarrow> nat \<Rightarrow> lexiconFreeDecoderState \<Rightarrow> bool" where
  "scores_sum d emissions N toks k s \<longleftrightarrow>
     (\<exists>m. lmScore s = Fin m \<and>
       score s = Fin (path_emissions emissions N toks k + the_fin (silScore (opt d)) * path_silences (sil d) toks k
                    + the_fin (lmWeight (opt d)) * m) \<and>
       amScore s = Fin (path_emissions emissions N toks k +
                    (if criterion (opt d) = ASG then path_transitions (transitions d) N toks k else 0)))"

lemma row_index:
  fixes N :: int
  assumes "0 \<le> n" "n < N" "0 \<le> t" "t < T" "T * N \<le> len"
  shows "0 \<le> t * N + n \<and> t * N + n < len"
proof -
  have "(t + 1) * N \<le> T * N" using assms by (intro mult_right_mono) auto
  then have "t * N + n < T * N" using assms(2) by (simp add: algebra_simps)
  then show ?thesis using assms by simp
qed

lemma proposed_sum:
  assumes p: "proposed d emissions N (int k) prev s" and sum: "scores_sum d emissions N toks k prev"
    and toks: "toks ! Suc k = token s" "toks ! k = token prev" and fin: "finite_inputs d emissions"
    and k: "int k < T" "T * N \<le> int (length emissions)" and d: "nDecodedFrames d = 0"
    and asg: "criterion (opt d) = ASG \<Longrightarrow> 0 \<le> token prev \<and> token prev < N \<and> N * N \<le> int (length (transitions d))"
  shows "scores_sum d emissions N toks (Suc k) s"
proof -
  let ?e = "emissions ! nat (int k * N + token s)" and ?tr = "transitions d ! nat (token s * N + token prev)"
  have n: "0 \<le> token s" "token s < N" using p by (auto simp: proposed_def)
  obtain e where e: "?e = Fin e"
    using finite_nth [of emissions "int k * N + token s"] fin row_index [OF n _ k] by (auto simp: finite_inputs_def)
  have tr: "\<exists>r. ?tr = Fin r" if "criterion (opt d) = ASG"
    by (rule finite_nth) (use fin row_index [of "token prev" N "token s" N] n asg [OF that] in \<open>auto simp: finite_inputs_def\<close>)
  obtain w z where wz: "lmWeight (opt d) = Fin w" "silScore (opt d) = Fin z" using fin by (auto simp: finite_inputs_def)
  obtain m where m: "lmScore prev = Fin m"
      "score prev = Fin (path_emissions emissions N toks k + z * path_silences (sil d) toks k + w * m)"
      "amScore prev = Fin (path_emissions emissions N toks k + (if criterion (opt d) = ASG then path_transitions (transitions d) N toks k else 0))"
    using sum wz by (auto simp: scores_sum_def)
  let ?S = "path_emissions emissions N toks k + z * path_silences (sil d) toks k + w * m + e + (if token s = sil d then z else 0)"
  have sc: "(if token s = sil d then score prev + ?e + silScore (opt d) else score prev + ?e) = Fin ?S"
    using m(2) wz e by (cases "token s = sil d") simp_all
  have am: "amScore s = Fin (path_emissions emissions N toks k + e + (if criterion (opt d) = ASG
      then path_transitions (transitions d) N toks k + (if k = 0 then 0 else the_fin ?tr) else 0))"
    using p d e tr m(3) by (cases "criterion (opt d) = ASG") (auto simp: proposed_def Let_def)
  have "\<exists>x. score s = Fin (?S + w * x) \<and> lmScore s = Fin (m + x)"
  proof -
    note p [unfolded proposed_def Let_def, THEN conjunct2, THEN conjunct2, THEN conjunct2, unfolded sc m(1) wz(1)]
    then consider "score s = Fin ?S" "lmScore s = Fin m"
      | y where "lm_gives (lm d) y" "score s = Fin ?S + Fin w * y" "lmScore s = Fin m + y"
      by blast
    then show ?thesis
    proof cases
      case 1
      then show ?thesis by (intro exI [of _ 0]) simp
    next
      case 2
      obtain x where "y = Fin x" using fin 2(1) by (auto simp: finite_inputs_def)
      then show ?thesis using 2 by (intro exI [of _ x]) simp
    qed
  qed
  then obtain x where x: "score s = Fin (?S + w * x)" "lmScore s = Fin (m + x)" by blast
  have sums: "path_emissions emissions N toks (Suc k) = path_emissions emissions N toks k + e"
      "path_silences (sil d) toks (Suc k) = path_silences (sil d) toks k + (if token s = sil d then 1 else 0)"
      "path_transitions (transitions d) N toks (Suc k) = path_transitions (transitions d) N toks k + (if k = 0 then 0 else the_fin ?tr)"
    using toks e by (simp_all add: path_emissions_def path_silences_def path_transitions_def)
  show ?thesis
    unfolding scores_sum_def sums using x am wz by (intro exI [of _ "m + x"]) (auto simp: algebra_simps)
qed

lemma path_sums_cong:
  assumes "\<And>i. i \<le> k \<Longrightarrow> us ! i = vs ! i"
  shows "path_emissions em N us k = path_emissions em N vs k" "path_transitions tr N us k = path_transitions tr N vs k"
    "path_silences s us k = path_silences s vs k"
  using assms by (auto simp: path_emissions_def path_transitions_def path_silences_def intro!: sum.cong)

subsection \<open>The states of an offline run\<close>

definition run_links :: "'l lexiconFreeDecoder \<Rightarrow> dbl list \<Rightarrow> int \<Rightarrow> int \<Rightarrow> 'l lexiconFreeDecoder \<Rightarrow> bool" where
  "run_links d emissions T N d' \<longleftrightarrow>
     lf_inv N (T + 1) d' \<and> nDecodedFrames d' - nPrunedFrames d' = T + 1 \<and>
     (\<forall>s\<in>set (elems (hyp d') 0). score s = 0 \<and> amScore s = 0 \<and> lmScore s = 0 \<and> token s = sil d) \<and>
     (\<forall>j<nat T. \<forall>s\<in>set (elems (hyp d') (int j + 1)). linked (hyp d') (int j) (proposed d emissions N (int j)) s) \<and>
     (\<forall>s\<in>set (elems (hyp d') (T + 1)). linked (hyp d') T (finished d) s) \<and>
     sorted_wrt (\<lambda>x y. score y \<le> score x) (elems (hyp d') (T + 1))"

lemma decode_links:
  assumes c: "lf_config N d" "0 < nextBuf d" "\<not> logAdd (opt d)" and T: "0 \<le> T" "T * N \<le> int (length emissions)"
    and dec: "decodeStep emissions T N (decodeBegin d) = Inr d1" "decodeEnd d1 = Inr d2"
  shows "run_links (decodeBegin d) emissions T N d2"
proof -
  note b = decodeBegin_ok [OF c(1,2)]
  have bo: "opt (decodeBegin d) = opt d" "sil (decodeBegin d) = sil d" by (simp_all add: decodeBegin_def split_beta)
  let ?h0 = "extend_hyp (nat (T + 2)) (hyp (decodeBegin d))"
  obtain d1' where d1: "d1 = d1'\<lparr>nDecodedFrames := T\<rparr>"
      and st: "stepped ((decodeBegin d)\<lparr>hyp := ?h0\<rparr>) emissions N 0 (nat T) d1'" and inv1: "lf_inv N (nDecodedFrames d1 - nPrunedFrames d1) d1"
    using decodeStep_ok [of N "decodeBegin d" T emissions] b T dec(1) by auto
  have same: "same_decoder ((decodeBegin d)\<lparr>hyp := ?h0\<rparr>) d1'" using st by (simp add: stepped_def)
  have f1: "nDecodedFrames d1 - nPrunedFrames d1 = T" using same d1 b by (simp add: same_decoder_def)
  obtain outs l where d2: "d2 = (new_frame d1 (T + 1) outs l)\<lparr>nDecodedFrames := nDecodedFrames d1 + 1\<rparr>"
      and outs: "stored (hyp d1) T (finished d1) (logAdd (opt d1)) outs" "lf_inv N (T + 1) d2"
        "\<not> logAdd (opt d1) \<longrightarrow> sorted_wrt (\<lambda>x y. score y \<le> score x) outs"
    using decodeEnd_ok [OF inv1 refl] dec(2) f1 by auto
  have la: "\<not> logAdd (opt d1)" using same d1 c(3) bo by (simp add: same_decoder_def)
  have h2: "hyp d2 = put (T + 1) (nextBuf d1, outs) (hyp d1)" and h1: "hyp d1 = hyp d1'" using d2 d1 by simp_all
  have fin: "finished d1 = finished (decodeBegin d)" using same d1 by (simp add: finished_def same_decoder_def fun_eq_iff)
  have "contig (hyp (decodeBegin d))" using b(1) beam_okD(1) unfolding lf_inv_def by blast
  then have "elems (hyp d2) 0 = elems (hyp (decodeBegin d)) 0"
    using st T(1) unfolding h2 h1 by (simp add: elems_def vec_put stepped_def vec_extend)
  moreover have "linked (hyp d2) (int j) (proposed (decodeBegin d) emissions N (int j)) s"
    if j: "j < nat T" and s: "s \<in> set (elems (hyp d2) (int j + 1))" for j s
  proof -
    have "s \<in> set (elems (hyp d1') (int j + 1))" using s j unfolding h2 h1 by (auto simp: elems_put split: if_splits)
    then have "linked (hyp d1') (int j) (proposed ((decodeBegin d)\<lparr>hyp := ?h0\<rparr>) emissions N (int j)) s"
      using st j c(3) bo by (simp add: stepped_def)
    moreover have "proposed ((decodeBegin d)\<lparr>hyp := ?h0\<rparr>) = proposed (decodeBegin d)" by (simp add: proposed_def fun_eq_iff)
    ultimately show ?thesis using j unfolding h2 h1 by (simp add: linked_put)
  qed
  moreover have "linked (hyp d2) T (finished (decodeBegin d)) s" if "s \<in> set (elems (hyp d2) (T + 1))" for s
    using that outs(1) la fin unfolding h2 by (simp add: elems_put linked_put stored_def)
  moreover have "nDecodedFrames d2 - nPrunedFrames d2 = T + 1" using d2 f1 by simp
  moreover have "sorted_wrt (\<lambda>x y. score y \<le> score x) (elems (hyp d2) (T + 1))" using outs(3) la unfolding h2 by (simp add: elems_put)
  ultimately show ?thesis using outs(2) b(4) bo unfolding run_links_def by (auto simp: new_state_def)
qed

lemma history_sums:
  assumes run: "run_links d emissions T N d'" and fin: "finite_inputs d emissions" and T: "0 \<le> T" "T * N \<le> int (length emissions)"
    and d: "nDecodedFrames d = 0" "criterion (opt d') = criterion (opt d)" "transitions d' = transitions d"
    and ss: "history (hyp d') s ss" "length ss = nat T + 2" "\<forall>i\<le>nat (T + 1). ss ! i \<in> set (elems (hyp d') (int i))"
  shows "k \<le> nat T \<Longrightarrow> scores_sum d emissions N (map token ss) k (ss ! k)"
proof (induction k)
  case 0
  have "ss ! 0 \<in> set (elems (hyp d') 0)" using ss(3) by auto
  then show ?case using run
    by (simp add: run_links_def scores_sum_def zero_dbl_def path_emissions_def path_transitions_def path_silences_def)
next
  case (Suc k)
  have ok: "beam_ok (hyp d') (T + 1) (nextBuf d')" and inv: "lf_inv N (T + 1) d'" using run by (auto simp: run_links_def lf_inv_def)
  have "ss ! Suc k \<in> set (elems (hyp d') (int k + 1))" using ss(3) [rule_format, of "Suc k"] Suc.prems T(1) by (simp add: add.commute)
  then have "linked (hyp d') (int k) (proposed d emissions N (int k)) (ss ! Suc k)" using run Suc.prems by (simp add: run_links_def)
  moreover have "parent_of (hyp d') (ss ! Suc k) = Inr (Some (ss ! k))" using history_links [OF ss(1)] Suc.prems ss(2) by simp
  moreover have "int k \<le> T + 1" using Suc.prems by linarith
  ultimately have p: "proposed d emissions N (int k) (ss ! k) (ss ! Suc k)"
    using linked_parent [OF ok of_nat_0_le_iff] by blast
  have "ss ! k \<in> set (elems (hyp d') (int k))" "int k \<in> {0..T + 1}" using ss(3) Suc.prems T(1) by auto
  then have "criterion (opt d) = ASG \<Longrightarrow> 0 \<le> token (ss ! k) \<and> token (ss ! k) < N \<and> N * N \<le> int (length (transitions d))"
    using inv d unfolding lf_inv_def lf_config_def by auto
  then show ?case
    using proposed_sum [OF p _ _ _ fin _ T(2) d(1)] Suc ss(2) by simp
qed

definition explained :: "'l lexiconFreeDecoder \<Rightarrow> dbl list \<Rightarrow> int \<Rightarrow> int \<Rightarrow> decodeResult \<Rightarrow> bool" where
  "explained d emissions T N r \<longleftrightarrow>
     length (tokens r) = nat T + 2 \<and> hd (tokens r) = sil d \<and> last (tokens r) = sil d \<and>
     (\<exists>m. resLmScore r = Some (Fin m) \<and>
        resScore r = Fin (path_emissions emissions N (tokens r) (nat T)
          + the_fin (silScore (opt d)) * path_silences (sil d) (tokens r) (nat T) + the_fin (lmWeight (opt d)) * m) \<and>
        resAmScore r = Some (Fin (path_emissions emissions N (tokens r) (nat T) +
          (if criterion (opt d) = ASG then path_transitions (transitions d) N (tokens r) (nat T) else 0))))"

lemma final_explained:
  assumes run: "run_links d emissions T N d'" and fin: "finite_inputs d emissions" and T: "0 \<le> T" "T * N \<le> int (length emissions)"
    and d: "nDecodedFrames d = 0" "criterion (opt d') = criterion (opt d)" "transitions d' = transitions d"
    and s: "s \<in> set (elems (hyp d') (T + 1))"
  shows "\<exists>r. getHypothesis (hyp d') gw (Some s) (T + 1) = Inr r \<and> resScore r = score s \<and> explained d emissions T N r"
proof -
  have ok: "beam_ok (hyp d') (T + 1) (nextBuf d')" using run by (auto simp: run_links_def lf_inv_def)
  obtain ss where ss: "history (hyp d') s ss" "length ss = nat T + 2" "\<forall>i\<le>nat (T + 1). ss ! i \<in> set (elems (hyp d') (int i))"
    using history_exists [OF ok, of "nat (T + 1)" s] s T(1) by (auto simp: nat_add_distrib add.commute)
  have last: "ss ! Suc (nat T) = s" "last ss = s" using history_last [OF ss(1)] ss(2) by (auto simp: last_conv_nth)
  have sums: "scores_sum d emissions N (map token ss) (nat T) (ss ! nat T)"
    using history_sums [OF run fin T d ss] by simp
  have "parent_of (hyp d') s = Inr (Some (ss ! nat T))" using history_links [OF ss(1), of "nat T"] last ss(2) by simp
  moreover have "linked (hyp d') T (finished d) s" using run s by (simp add: run_links_def)
  ultimately have f: "finished d (ss ! nat T) s" using linked_parent [OF ok T(1), of "finished d" s] by simp
  obtain x where x: "lm_gives (lm d) (Fin x)" "score s = score (ss ! nat T) + lmWeight (opt d) * Fin x"
      "lmScore s = lmScore (ss ! nat T) + Fin x" "token s = sil d" "amScore s = amScore (ss ! nat T)"
    using f fin unfolding finished_def finite_inputs_def by blast
  obtain w where w: "lmWeight (opt d) = Fin w" using fin by (auto simp: finite_inputs_def)
  let ?r = "\<lparr>resScore = score s, resAmScore = Some (amScore s), resLmScore = Some (lmScore s), words = map gw ss, tokens = map token ss\<rparr>"
  have r: "getHypothesis (hyp d') gw (Some s) (T + 1) = Inr ?r"
    by (rule getHypothesis_history [OF ss(1)]) (use ss(2) T(1) in auto)
  have hd: "hd (map token ss) = sil d"
    using run ss(2) ss(3) [rule_format, of 0] by (cases ss) (auto simp: run_links_def)
  have "explained d emissions T N ?r"
  proof -
    obtain m where m: "lmScore (ss ! nat T) = Fin m"
        "score (ss ! nat T) = Fin (path_emissions emissions N (map token ss) (nat T)
          + the_fin (silScore (opt d)) * path_silences (sil d) (map token ss) (nat T) + w * m)"
        "amScore (ss ! nat T) = Fin (path_emissions emissions N (map token ss) (nat T) +
          (if criterion (opt d) = ASG then path_transitions (transitions d) N (map token ss) (nat T) else 0))"
      using sums w unfolding scores_sum_def by auto
    have "last (map token ss) = sil d" using last(2) x(4) ss(2) by (cases "ss = []") (simp_all add: last_map)
    then show ?thesis
      using hd ss(2) x m w unfolding explained_def
      by (intro conjI exI [of _ "m + x"]) (simp_all add: algebra_simps)
  qed
  then show ?thesis using r by simp
qed

text \<open>
  The general form, for every criterion. For ASG the acoustic score that a result reports contains the transition
  scores, which the score that orders the hypotheses leaves out.
\<close>

lemma decode_explained:
  assumes c: "lf_config N d" "0 < nextBuf d" "\<not> logAdd (opt d)" and T: "0 \<le> T" "T * N \<le> int (length emissions)"
    and fin: "finite_inputs d emissions" and dec: "decode emissions T N d = Inr (rs, d')"
  shows "sorted_wrt (\<lambda>r r'. resScore r' \<le> resScore r) rs \<and> (\<forall>r\<in>set rs. explained d emissions T N r)"
proof -
  let ?b = "decodeBegin d"
  obtain d1 where steps: "decodeStep emissions T N ?b = Inr d1" "decodeEnd d1 = Inr d'" "getAllFinalHypothesis d' = Inr rs"
    using dec by (auto simp: decode_def rbind_eq_Inr_iff)
  have run: "run_links ?b emissions T N d'" by (rule decode_links [OF c T steps(1,2)])
  have b: "opt ?b = opt d" "sil ?b = sil d" "transitions ?b = transitions d" "lm ?b = lm d" "nDecodedFrames ?b = 0"
    by (simp_all add: decodeBegin_def split_beta)
  have finb: "finite_inputs ?b emissions" using fin b by (simp add: finite_inputs_def)
  have d1: "opt d1 = opt ?b" "transitions d1 = transitions ?b" "lf_inv N (nDecodedFrames d1 - nPrunedFrames d1) d1"
    using decodeStep_ok [of N ?b T emissions] decodeBegin_ok [OF c(1,2)] T steps(1) by (auto simp: stepped_def same_decoder_def)
  have keep: "opt d' = opt ?b" "transitions d' = transitions ?b" using decodeEnd_ok [OF d1(3) refl] steps(2) d1(1,2) by auto
  have ok: "beam_ok (hyp d') (T + 1) (nextBuf d')" and f: "nDecodedFrames d' - nPrunedFrames d' = T + 1"
    using run by (simp_all add: run_links_def lf_inv_def)
  let ?fr = "elems (hyp d') (T + 1)"
  have rs: "getAllHypothesis (hyp d') getWord ?fr (T + 1) = Inr rs"
    using steps(3) find_frame_ok [OF ok] unfolding getAllFinalHypothesis_def f by (simp add: Let_def)
  then have pt: "length rs = length ?fr" "\<And>i. i < length rs \<Longrightarrow> getHypothesis (hyp d') getWord (Some (?fr ! i)) (T + 1) = Inr (rs ! i)"
    unfolding getAllHypothesis_def rmap_eq_Inr_iff list_all2_conv_all_nth by auto
  have res: "resScore (rs ! i) = score (?fr ! i) \<and> explained d emissions T N (rs ! i)" if i: "i < length rs" for i
  proof -
    have "?fr ! i \<in> set ?fr" using i pt(1) by simp
    from final_explained [OF run finb T b(5) _ keep(2) this, of getWord]
    have "resScore (rs ! i) = score (?fr ! i)" "explained ?b emissions T N (rs ! i)" using pt(2) [OF i] keep(1) by auto
    moreover have "explained ?b emissions T N (rs ! i) = explained d emissions T N (rs ! i)" unfolding explained_def b ..
    ultimately show ?thesis by simp
  qed
  have "sorted_wrt (\<lambda>x y. score y \<le> score x) ?fr" using run by (simp add: run_links_def)
  then have "sorted_wrt (\<lambda>r r'. resScore r' \<le> resScore r) rs"
    using res pt(1) unfolding sorted_wrt_iff_nth_less by auto
  then show ?thesis using res by (auto simp: in_set_conv_nth)
qed

text \<open>
  C6. What the offline decoder maximises. Without \<^verbatim>\<open>logAdd\<close>, and with finite emissions, transitions, weights and
  language-model scores, every result of \<^verbatim>\<open>decode\<close> is a token sequence of one token per frame between two silence tokens, the
  results come best first, and for the CTC criterion the score of a result is its acoustic score, which is the sum of
  the emissions along the sequence, plus \<^verbatim>\<open>lmWeight\<close> times its language-model score, plus \<^verbatim>\<open>silScore\<close> for each silence frame.
\<close>

theorem lexiconFree_scores:
  assumes "lf_config N d" "0 < nextBuf d" "\<not> logAdd (opt d)" "0 \<le> T" "T * N \<le> int (length emissions)"
    and "finite_inputs d emissions" and "decode emissions T N d = Inr (rs, d')"
  shows "sorted_wrt (\<lambda>r r'. resScore r' \<le> resScore r) rs \<and>
    (\<forall>r\<in>set rs. length (tokens r) = nat T + 2 \<and> hd (tokens r) = sil d \<and> last (tokens r) = sil d \<and>
       (criterion (opt d) = CTC \<longrightarrow>
         (\<exists>am lm. resAmScore r = Some (Fin am) \<and> resLmScore r = Some (Fin lm) \<and>
            am = path_emissions emissions N (tokens r) (nat T) \<and>
            resScore r = Fin (am + the_fin (lmWeight (opt d)) * lm
              + the_fin (silScore (opt d)) * path_silences (sil d) (tokens r) (nat T)))))"
  using decode_explained [OF assms] by (auto simp: explained_def)

definition example_start :: "lmHeap lexiconFreeDecoder" where
  "example_start = (example_decoder CTC)
     \<lparr>hyp := [(0, 1, [new_state 0 0 None 0 False 0 0]), (1, 0, []), (2, 0, [])], nextBuf := 2, lmMem := [[]]\<rparr>"

lemmas store_defs = candidatesReset_def candidatesAdd_def candidatesStore_def kNegativeInfinity_def
  compareNodeScore_def candidate_before_def compareNoScoreStates_def compare_def std_sort_def merged_score_def

lemma example_begin:
  "(let d = decodeBegin (example_decoder CTC) in d\<lparr>hyp := extend_hyp 3 (hyp d)\<rparr>) = example_start"
proof -
  have "[Suc 0..<3] = [1, 2]" by (simp add: upt_rec)
  then show ?thesis
    by (simp add: example_start_def example_decoder_def decodeBegin_def zeroLM_def extend_hyp_def touch_def Let_def)
qed

lemma example_frame:
  "decode_frame [Fin 1, Fin 3] 2 0 0 example_start = Inr (example_start
     \<lparr>hyp := [(0, 1, [new_state 0 0 None 0 False 0 0]),
              (1, 2, [new_state (Fin 3) 0 (Some (1, 0)) 1 True (Fin 3) 0, new_state (Fin 1) 0 (Some (1, 0)) 0 False (Fin 1) 0]), (2, 0, [])],
       nextBuf := 3, lmMem := [[]]\<rparr>)"
  by (simp add: decode_frame_def example_start_def example_decoder_def token_order_def touch_def vec_def propose_def cell_def
      store_defs new_state_def zeroLM_def child_def updateLMCache_def put_def zero_dbl_def upto.simps enumerate_eq_zip Let_def)

lemma example_step:
  "decodeStep [Fin 1, Fin 3] 1 2 (decodeBegin (example_decoder CTC)) = Inr (example_start
     \<lparr>hyp := [(0, 1, [new_state 0 0 None 0 False 0 0]),
              (1, 2, [new_state (Fin 3) 0 (Some (1, 0)) 1 True (Fin 3) 0, new_state (Fin 1) 0 (Some (1, 0)) 0 False (Fin 1) 0]), (2, 0, [])],
       nextBuf := 3, lmMem := [[]], nDecodedFrames := 1\<rparr>)"
proof -
  let ?d = "decodeBegin (example_decoder CTC)"
  have n: "nDecodedFrames ?d = 0" "nPrunedFrames ?d = 0" by (simp_all add: decodeBegin_def split_beta)
  show ?thesis
    using example_begin example_frame unfolding decodeStep_def n
    by (simp add: Let_def upto.simps example_start_def example_decoder_def)
qed

lemma example_decode:
  "\<exists>r d'. decode [Fin 1, Fin 3] 1 2 (example_decoder CTC) = Inr ([r], d') \<and> tokens r = [0, 1, 0]"
  unfolding decode_def example_step rbind_simps
  by (simp add: decodeEnd_def finish_one_def example_start_def example_decoder_def touch_def vec_def
      store_defs new_state_def zeroLM_def put_def zero_dbl_def enumerate_eq_zip Let_def getAllFinalHypothesis_def find_frame_def
      getAllHypothesis_def getHypothesis_def new_DecodeResult_def parent_of_def deref_def getWord_def numeral_3_eq_3)

theorem lexiconFree_scores_witness:
  "\<exists>r d' m. decode [Fin 1, Fin 3] 1 2 (example_decoder CTC) = Inr ([r], d') \<and>
     tokens r = [0, 1, 0] \<and> resLmScore r = Some (Fin m) \<and> resScore r = Fin (3 + m)"
proof -
  obtain r d' where r: "decode [Fin 1, Fin 3] 1 2 (example_decoder CTC) = Inr ([r], d')" "tokens r = [0, 1, 0]"
    using example_decode by blast
  have c: "lf_config 2 (example_decoder CTC)" by (simp add: lf_config_def example_decoder_def)
  have "\<forall>x. lm_gives zeroLM x \<longrightarrow> x = Fin 0" by (auto simp: lm_gives_def zeroLM_def rbind_eq_Inr_iff zero_dbl_def)
  then have f: "finite_inputs (example_decoder CTC) [Fin 1, Fin 3]" by (auto simp: finite_inputs_def example_decoder_def)
  have o: "opt (example_decoder CTC) = \<lparr>beamSize = 2, beamSizeToken = 2, beamThreshold = Fin 10, lmWeight = Fin 1,
      silScore = Fin 0, logAdd = False, criterion = CTC\<rparr>" "0 < nextBuf (example_decoder CTC)" by (simp_all add: example_decoder_def)
  show ?thesis
    using lexiconFree_scores [OF c o(2) _ _ _ f r(1)] r(2) unfolding o(1)
    by (auto simp: path_emissions_def path_silences_def r(1))
qed

end
