(* ===== verification/Trie.thy ===== *)
theory Trie
  imports Doubles "HOL-Library.AList" "HOL-Library.Sublist"
begin

section \<open>The lexicon trie (\<^verbatim>\<open>lib/text/decoder/Trie.h\<close>, \<^verbatim>\<open>lib/text/decoder/Trie.cpp\<close>)\<close>

text \<open>
  A trie node owns its children, so the nodes form a tree and a \<^verbatim>\<open>TrieNode*\<close> is the path from the root to the
  node; \<^verbatim>\<open>children\<close> is an association list whose order stands for the iteration order of the
  \<^verbatim>\<open>std::unordered_map\<close>. The lemmas show that a trie is a map from spellings to the first six labels inserted
  for them, and what smearing stores in \<^verbatim>\<open>maxScore\<close>.
\<close>

datatype smearingMode = SNONE | SMAX | SLOGADD

datatype trieNode =
  TrieNode (children: "(int \<times> trieNode) list") (idx: int) (labels: "int list") (scores: "dbl list") (maxScore: dbl)

record trie =
  root :: trieNode
  maxChildren :: int

definition kTrieMaxLabel :: nat where
  "kTrieMaxLabel = 6"

definition new_TrieNode :: "int \<Rightarrow> trieNode" where
  "new_TrieNode i = TrieNode [] i [] [] 0"

definition new_Trie :: "int \<Rightarrow> int \<Rightarrow> trie" where
  "new_Trie mc rootIdx = \<lparr>root = new_TrieNode rootIdx, maxChildren = mc\<rparr>"

definition getRoot :: "trie \<Rightarrow> trieNode" where
  "getRoot t = root t"

text \<open>The node that a pointer with the given path points to.\<close>

fun node_at :: "trieNode \<Rightarrow> int list \<Rightarrow> trieNode option" where
  "node_at n [] = Some n"
| "node_at n (i # is) = (case map_of (children n) i of None \<Rightarrow> None | Some c \<Rightarrow> node_at c is)"

lemma node_at_child:
  "node_at rt path = Some n \<Longrightarrow> node_at rt (path @ [i]) = map_of (children n) i"
  by (induction path arbitrary: rt) (auto split: option.splits)

definition invalid_letter :: "int \<Rightarrow> exn" where
  "invalid_letter i = Out_of_range (''[Trie] Invalid letter index: '' @ to_string i)"

definition push_label :: "int \<Rightarrow> dbl \<Rightarrow> trieNode \<Rightarrow> trieNode" where
  "push_label label score n =
     (if length (labels n) < kTrieMaxLabel
      then TrieNode (children n) (idx n) (labels n @ [label]) (scores n @ [score]) (maxScore n)
      else n)"

definition set_child :: "int \<Rightarrow> trieNode \<Rightarrow> trieNode \<Rightarrow> trieNode" where
  "set_child i c n = TrieNode (AList.update i c (children n)) (idx n) (labels n) (scores n) (maxScore n)"

text \<open>
  The walk of \<^verbatim>\<open>insert\<close> from a node on. An invalid index throws after the nodes of the valid prefix have been
  created, so the state is part of the result in both cases.
\<close>

fun insert_at :: "int \<Rightarrow> int list \<Rightarrow> int \<Rightarrow> dbl \<Rightarrow> trieNode \<Rightarrow> exn option \<times> trieNode" where
  "insert_at mc [] label score n = (None, push_label label score n)"
| "insert_at mc (i # is) label score n =
     (if i < 0 \<or> i \<ge> mc then (Some (invalid_letter i), n)
      else
        let c = (case map_of (children n) i of None \<Rightarrow> new_TrieNode i | Some c \<Rightarrow> c);
            (e, c') = insert_at mc is label score c
        in (e, set_child i c' n))"

definition trie_insert :: "int list \<Rightarrow> int \<Rightarrow> dbl \<Rightarrow> trie \<Rightarrow> int list result \<times> trie" where
  "trie_insert indices label score t =
     (let (e, n) = insert_at (maxChildren t) indices label score (root t) in
      ((case e of None \<Rightarrow> Inr indices | Some x \<Rightarrow> Inl x), t\<lparr>root := n\<rparr>))"

fun search_at :: "int \<Rightarrow> int list \<Rightarrow> trieNode \<Rightarrow> trieNode option result" where
  "search_at mc [] n = Inr (Some n)"
| "search_at mc (i # is) n =
     (if i < 0 \<or> i \<ge> mc then Inl (invalid_letter i)
      else case map_of (children n) i of None \<Rightarrow> Inr None | Some c \<Rightarrow> search_at mc is c)"

definition search :: "trie \<Rightarrow> int list \<Rightarrow> trieNode option result" where
  "search t indices = search_at (maxChildren t) indices (root t)"

definition kMinusLogThreshold :: dbl where
  "kMinusLogThreshold = Fin (-3914 / 100)"

definition TrieLogAdd :: "dbl \<Rightarrow> dbl \<Rightarrow> dbl" where
  "TrieLogAdd log_a log_b =
     (let (a, b) = (if log_a < log_b then (log_b, log_a) else (log_a, log_b)); minusdif = b - a in
      if minusdif < kMinusLogThreshold then a else a + dlog1p (dexp minusdif))"

definition smear_child :: "smearingMode \<Rightarrow> dbl \<Rightarrow> dbl \<Rightarrow> dbl" where
  "smear_child mode m c =
     (if mode = SLOGADD then TrieLogAdd m c else if mode = SMAX \<and> m < c then c else m)"

fun smearNode :: "smearingMode \<Rightarrow> trieNode \<Rightarrow> trieNode" where
  "smearNode mode (TrieNode cs i ls ss ms) =
     (let own = foldl TrieLogAdd NInf ss;
          cs' = map (\<lambda>(k, c). (k, smearNode mode c)) cs
      in TrieNode cs' i ls ss (foldl (smear_child mode) own (map (\<lambda>(k, c). maxScore c) cs')))"

definition smear :: "smearingMode \<Rightarrow> trie \<Rightarrow> trie" where
  "smear mode t = (if mode \<noteq> SNONE then t\<lparr>root := smearNode mode (root t)\<rparr> else t)"

subsection \<open>A trie is a map from spellings to labels\<close>

definition insert_all :: "(int list \<times> int \<times> dbl) list \<Rightarrow> trie \<Rightarrow> trie" where
  "insert_all ops t = fold (\<lambda>(is, l, s) t. snd (trie_insert is l s t)) ops t"

definition valid_spelling :: "int \<Rightarrow> int list \<Rightarrow> bool" where
  "valid_spelling mc is \<longleftrightarrow> (\<forall>i\<in>set is. 0 \<le> i \<and> i < mc)"

definition entries_at :: "int \<Rightarrow> int list \<Rightarrow> trieNode \<Rightarrow> int list \<times> dbl list" where
  "entries_at mc is n =
     (case search_at mc is n of Inr (Some m) \<Rightarrow> (labels m, scores m) | _ \<Rightarrow> ([], []))"

definition entries :: "trie \<Rightarrow> int list \<Rightarrow> int list \<times> dbl list" where
  "entries t is = entries_at (maxChildren t) is (root t)"

lemma entries_at_simps:
  "entries_at mc [] n = (labels n, scores n)"
  "entries_at mc (i # is) n =
     (if i < 0 \<or> i \<ge> mc then ([], [])
      else case map_of (children n) i of None \<Rightarrow> ([], []) | Some c \<Rightarrow> entries_at mc is c)"
  by (simp_all add: entries_at_def split: option.split)

lemma entries_new_node [simp]: "entries_at mc is (new_TrieNode i) = ([], [])"
  by (cases "is") (simp_all add: entries_at_simps new_TrieNode_def)

lemma set_child_sel [simp]:
  "children (set_child i c n) = AList.update i c (children n)" "labels (set_child i c n) = labels n"
  "scores (set_child i c n) = scores n" "idx (set_child i c n) = idx n"
  by (simp_all add: set_child_def)

lemma push_label_sel [simp]: "children (push_label l s n) = children n"
  by (simp add: push_label_def)

lemma entries_insert_at:
  "entries_at mc js (snd (insert_at mc is l s n)) =
     (if js = is \<and> valid_spelling mc is \<and> length (fst (entries_at mc is n)) < kTrieMaxLabel
      then (fst (entries_at mc is n) @ [l], snd (entries_at mc is n) @ [s])
      else entries_at mc js n)"
proof (induction "is" arbitrary: js n)
  case Nil
  show ?case
    by (cases js) (auto simp: entries_at_simps valid_spelling_def push_label_def)
next
  case (Cons i "is")
  let ?c = "case map_of (children n) i of None \<Rightarrow> new_TrieNode i | Some c \<Rightarrow> c"
  show ?case
  proof (cases "i < 0 \<or> i \<ge> mc")
    case True
    then show ?thesis by (auto simp: valid_spelling_def)
  next
    case False
    have n: "snd (insert_at mc (i # is) l s n) = set_child i (snd (insert_at mc is l s ?c)) n"
      using False by (simp add: Let_def case_prod_beta)
    have c: "entries_at mc (i # ks) n = entries_at mc ks ?c" for ks
      using False by (simp add: entries_at_simps split: option.splits)
    show ?thesis
    proof (cases js)
      case Nil
      then show ?thesis unfolding n by (simp add: entries_at_simps)
    next
      case (Cons j js')
      show ?thesis
      proof (cases "j = i")
        case True
        have "entries_at mc js (set_child i (snd (insert_at mc is l s ?c)) n)
            = entries_at mc js' (snd (insert_at mc is l s ?c))"
          using False True Cons by (simp add: entries_at_simps update_conv')
        then show ?thesis
          unfolding n using Cons.IH [of js' ?c] False True Cons by (simp add: c valid_spelling_def)
      next
        case other: False
        then show ?thesis unfolding n using Cons by (simp add: entries_at_simps update_conv')
      qed
    qed
  qed
qed

lemma maxChildren_insert [simp]: "maxChildren (snd (trie_insert is l s t)) = maxChildren t"
  by (simp add: trie_insert_def Let_def case_prod_beta)

lemma entries_insert:
  "entries (snd (trie_insert is l s t)) js =
     (if js = is \<and> valid_spelling (maxChildren t) is \<and> length (fst (entries t is)) < kTrieMaxLabel
      then (fst (entries t is) @ [l], snd (entries t is) @ [s]) else entries t js)"
  using entries_insert_at [of "maxChildren t" js "is" l s "root t"]
  by (simp add: entries_def trie_insert_def Let_def case_prod_beta)

lemma maxChildren_insert_all [simp]: "maxChildren (insert_all ops t) = maxChildren t"
  by (induction ops arbitrary: t) (auto simp: insert_all_def)

lemma entries_insert_all:
  "entries (insert_all ops (new_Trie mc r)) is =
     (let mine = take 6 [(l, s). (js, l, s) \<leftarrow> ops, js = is \<and> valid_spelling mc is] in (map fst mine, map snd mine))"
proof (induction ops rule: rev_induct)
  case Nil
  show ?case by (simp add: insert_all_def entries_def new_Trie_def)
next
  case (snoc oper ops)
  obtain js l s where o: "oper = (js, l, s)" by (metis prod_cases3)
  have step: "insert_all (ops @ [oper]) (new_Trie mc r) = snd (trie_insert js l s (insert_all ops (new_Trie mc r)))"
    by (simp add: o insert_all_def)
  have mc: "maxChildren (insert_all ops (new_Trie mc r)) = mc" by (simp add: new_Trie_def)
  show ?case
    unfolding step entries_insert mc using snoc by (auto simp: o Let_def kTrieMaxLabel_def)
qed

text \<open>
  C31. The trie is a map from spellings to labels: after any sequence of insertions, failed ones included, the
  node of a spelling holds exactly the first six labels and scores inserted under that spelling, in order,
  and nothing for a spelling with an index outside \<^verbatim>\<open>[0, maxChildren)\<close>.
\<close>

theorem trie_lookup_insertions:
  "entries (insert_all ops (new_Trie mc r)) is =
     (let mine = take 6 [(l, s). (js, l, s) \<leftarrow> ops, js = is \<and> valid_spelling mc is] in (map fst mine, map snd mine))"
  by (rule entries_insert_all)

subsection \<open>Smearing\<close>

fun subnodes :: "trieNode \<Rightarrow> trieNode list" where
  "subnodes (TrieNode cs i ls ss ms) = TrieNode cs i ls ss ms # concat (map (\<lambda>(k, c). subnodes c) cs)"

definition own_score :: "trieNode \<Rightarrow> dbl" where
  "own_score n = foldl TrieLogAdd NInf (scores n)"

definition finite_scores :: "trieNode \<Rightarrow> bool" where
  "finite_scores n \<longleftrightarrow> (\<forall>m\<in>set (subnodes n). \<forall>s\<in>set (scores m). \<exists>x. s = Fin x)"

lemma TrieLogAdd_NInf [simp]: "TrieLogAdd NInf (Fin x) = Fin x" "TrieLogAdd (Fin x) NInf = Fin x"
  by (simp_all add: TrieLogAdd_def kMinusLogThreshold_def minus_dbl_def)

lemma TrieLogAdd_Fin: "\<exists>r. TrieLogAdd (Fin a) (Fin b) = Fin r"
proof -
  have "-1 < exp (x :: real)" for x using exp_gt_zero [of x] by linarith
  then show ?thesis by (simp add: TrieLogAdd_def Let_def)
qed

lemma own_score_cases:
  assumes "a = NInf \<or> (\<exists>x. a = Fin x)" "\<forall>s\<in>set ss. \<exists>x. s = Fin x"
  shows "foldl TrieLogAdd a ss \<noteq> NaN"
  using assms
proof (induction ss arbitrary: a)
  case (Cons s ss)
  then obtain x where x: "s = Fin x" by auto
  have "\<exists>y. TrieLogAdd a s = Fin y" using Cons.prems(1) TrieLogAdd_Fin x by auto
  then show ?case using Cons by simp
qed auto

subsubsection \<open>The \<^verbatim>\<open>MAX\<close> mode\<close>

lemma fold_smear_max:
  assumes "a \<noteq> NaN" "\<forall>x\<in>set xs. x \<noteq> NaN"
  shows "foldl (smear_child SMAX) a xs \<in> insert a (set xs) \<and> (\<forall>x\<in>insert a (set xs). x \<le> foldl (smear_child SMAX) a xs)"
  using assms
proof (induction xs arbitrary: a)
  case (Cons x xs)
  let ?b = "smear_child SMAX a x"
  have b: "?b \<in> {a, x}" "a \<le> ?b" "x \<le> ?b" using Cons.prems by (auto simp: smear_child_def dbl_less_imp_le dbl_le_refl dbl_not_less)
  then have nn: "?b \<noteq> NaN" using Cons.prems by auto
  let ?r = "foldl (smear_child SMAX) ?b xs"
  have IH: "?r \<in> insert ?b (set xs)" "\<forall>y\<in>insert ?b (set xs). y \<le> ?r" using Cons.IH [OF nn] Cons.prems by auto
  have "?r \<in> insert a (set (x # xs))" using IH(1) b(1) by auto
  moreover have "a \<le> ?r" "x \<le> ?r" using IH(2) b(2,3) dbl_le_trans by blast+
  ultimately show ?case using IH(2) by simp
qed (simp add: dbl_le_refl)

lemma smear_max_node:
  "finite_scores n \<Longrightarrow>
     maxScore (smearNode SMAX n) \<in> own_score ` set (subnodes n) \<and>
     (\<forall>m\<in>set (subnodes n). own_score m \<le> maxScore (smearNode SMAX n))"
proof (induction n rule: subnodes.induct)
  case (1 cs i ls ss ms)
  let ?n = "TrieNode cs i ls ss ms"
  have fin: "finite_scores c" if "(k, c) \<in> set cs" for k c
    using that "1.prems" by (fastforce simp: finite_scores_def)
  have IH: "maxScore (smearNode SMAX c) \<in> own_score ` set (subnodes c)"
      "m \<in> set (subnodes c) \<Longrightarrow> own_score m \<le> maxScore (smearNode SMAX c)" if "(k, c) \<in> set cs" for k c m
    using "1.IH" [OF that] fin [OF that] by auto
  let ?xs = "map (\<lambda>(k, c). maxScore (smearNode SMAX c)) cs"
  have own: "own_score ?n \<noteq> NaN" using own_score_cases [of NInf ss] "1.prems" by (simp add: own_score_def finite_scores_def)
  have "x \<noteq> NaN" if "x \<in> set ?xs" for x
  proof -
    obtain k c where c: "(k, c) \<in> set cs" "x = maxScore (smearNode SMAX c)" using \<open>x \<in> set ?xs\<close> by auto
    obtain m where "m \<in> set (subnodes c)" using IH(1) [OF c(1)] by blast
    from dbl_le_not_NaN [OF IH(2) [OF c(1) this]] show ?thesis using c(2) by simp
  qed
  note f = fold_smear_max [OF own, of ?xs]
  have eq: "maxScore (smearNode SMAX ?n) = foldl (smear_child SMAX) (own_score ?n) ?xs"
    by (simp add: Let_def own_score_def comp_def split_def)
  have mem: "maxScore (smearNode SMAX ?n) \<in> insert (own_score ?n) (set ?xs)"
    and le: "\<forall>x\<in>insert (own_score ?n) (set ?xs). x \<le> maxScore (smearNode SMAX ?n)"
    unfolding eq using f \<open>\<And>x. x \<in> set ?xs \<Longrightarrow> x \<noteq> NaN\<close> by blast+
  show ?case
  proof
    show "maxScore (smearNode SMAX ?n) \<in> own_score ` set (subnodes ?n)"
      using mem
    proof
      assume "maxScore (smearNode SMAX ?n) \<in> set ?xs"
      then obtain k c where c: "(k, c) \<in> set cs" "maxScore (smearNode SMAX ?n) = maxScore (smearNode SMAX c)" by auto
      then show ?thesis using IH(1) [OF c(1)] by (auto simp del: smearNode.simps)
    qed (simp del: smearNode.simps)
    show "\<forall>m\<in>set (subnodes ?n). own_score m \<le> maxScore (smearNode SMAX ?n)"
    proof
      fix m assume m: "m \<in> set (subnodes ?n)"
      show "own_score m \<le> maxScore (smearNode SMAX ?n)"
      proof (cases "m = ?n")
        case True
        then show ?thesis using le by blast
      next
        case False
        then obtain k c where c: "(k, c) \<in> set cs" "m \<in> set (subnodes c)" using m by auto
        then have "maxScore (smearNode SMAX c) \<in> set ?xs" by force
        then show ?thesis using le IH(2) [OF c] dbl_le_trans by blast
      qed
    qed
  qed
qed

lemma smear_sel [simp]:
  "labels (smearNode mode n) = labels n" "scores (smearNode mode n) = scores n" "idx (smearNode mode n) = idx n"
  "children (smearNode mode n) = map (\<lambda>(k, c). (k, smearNode mode c)) (children n)"
  by (cases n; simp add: Let_def)+

lemma search_smear:
  "search_at mc is (smearNode mode n) =
     (case search_at mc is n of Inr (Some m) \<Rightarrow> Inr (Some (smearNode mode m)) | r \<Rightarrow> r)"
  by (induction "is" arbitrary: n) (auto simp: map_of_map split: option.splits)

lemma self_subnodes: "n \<in> set (subnodes n)"
  by (cases n) simp

lemma subnodes_trans: "m \<in> set (subnodes n) \<Longrightarrow> set (subnodes m) \<subseteq> set (subnodes n)"
proof (induction n rule: subnodes.induct)
  case (1 cs i ls ss ms)
  then show ?case by fastforce
qed

lemma search_subnodes: "search_at mc is n = Inr (Some m) \<Longrightarrow> m \<in> set (subnodes n)"
proof (induction "is" arbitrary: n)
  case (Cons i "is")
  then obtain c where c: "map_of (children n) i = Some c" "search_at mc is c = Inr (Some m)"
    by (auto split: if_splits option.splits)
  then have "c \<in> set (subnodes n)" by (cases n) (force dest: map_of_SomeD simp: self_subnodes)
  then show ?case using Cons.IH [OF c(2)] subnodes_trans by blast
qed (simp add: self_subnodes)

subsubsection \<open>The nodes of a built trie are the searched spellings\<close>

fun wf_node :: "int \<Rightarrow> trieNode \<Rightarrow> bool" where
  "wf_node mc (TrieNode cs i ls ss ms) \<longleftrightarrow>
     distinct (map fst cs) \<and> (\<forall>(k, c)\<in>set cs. 0 \<le> k \<and> k < mc \<and> wf_node mc c)"

lemma wf_new_node: "wf_node mc (new_TrieNode i)"
  by (simp add: new_TrieNode_def)

lemma wf_push_label: "wf_node mc n \<Longrightarrow> wf_node mc (push_label l s n)"
  by (cases n) (simp add: push_label_def)

lemma wf_child: "wf_node mc n \<Longrightarrow> map_of (children n) i = Some c \<Longrightarrow> wf_node mc c"
  by (cases n) (auto dest: map_of_SomeD)

lemma set_update_cases: "(k, d) \<in> set (AList.update i c al) \<Longrightarrow> (k, d) = (i, c) \<or> (k, d) \<in> set al"
  by (induction al) (auto split: if_splits)

lemma wf_set_child:
  "wf_node mc n \<Longrightarrow> wf_node mc c \<Longrightarrow> 0 \<le> i \<Longrightarrow> i < mc \<Longrightarrow> wf_node mc (set_child i c n)"
  by (cases n) (auto simp: set_child_def distinct_update dest!: set_update_cases)

lemma wf_insert_at: "wf_node mc n \<Longrightarrow> wf_node mc (snd (insert_at mc is l s n))"
proof (induction "is" arbitrary: n)
  case (Cons i "is")
  let ?c = "case map_of (children n) i of None \<Rightarrow> new_TrieNode i | Some c \<Rightarrow> c"
  have "wf_node mc ?c"
    using wf_child [OF Cons.prems] wf_new_node by (simp split: option.split)
  then show ?case
    using Cons wf_set_child [OF Cons.prems Cons.IH] by (simp add: Let_def case_prod_beta)
qed (simp add: wf_push_label)

lemma wf_insert_all: "wf_node mc (root (insert_all ops (new_Trie mc r)))"
proof (induction ops rule: rev_induct)
  case (snoc oper ops)
  obtain js l s where "oper = (js, l, s)" by (metis prod_cases3)
  then have "insert_all (ops @ [oper]) (new_Trie mc r) = snd (trie_insert js l s (insert_all ops (new_Trie mc r)))"
    by (simp add: insert_all_def)
  then show ?case
    using wf_insert_at [OF snoc.IH] by (simp add: trie_insert_def Let_def case_prod_beta new_Trie_def)
qed (simp add: insert_all_def new_Trie_def wf_new_node)

lemma search_append:
  "search_at mc is n = Inr (Some m) \<Longrightarrow> search_at mc (is @ js) n = search_at mc js m"
  by (induction "is" arbitrary: n) (auto split: if_splits option.splits)

lemma search_valid: "search_at mc is n = Inr (Some m) \<Longrightarrow> valid_spelling mc is"
  by (induction "is" arbitrary: n) (auto simp: valid_spelling_def split: if_splits option.splits)

lemma wf_search: "wf_node mc n \<Longrightarrow> search_at mc is n = Inr (Some m) \<Longrightarrow> wf_node mc m"
  by (induction "is" arbitrary: n) (auto dest: wf_child split: if_splits option.splits)

lemma subnodes_search:
  "wf_node mc n \<Longrightarrow> m \<in> set (subnodes n) \<Longrightarrow> \<exists>js. search_at mc js n = Inr (Some m)"
proof (induction n rule: subnodes.induct)
  case (1 cs i ls ss ms)
  show ?case
  proof (cases "m = TrieNode cs i ls ss ms")
    case True
    then show ?thesis by (intro exI [of _ "[]"]) simp
  next
    case False
    then obtain k c where c: "(k, c) \<in> set cs" "m \<in> set (subnodes c)" using "1.prems"(2) by auto
    moreover have w: "wf_node mc c" "0 \<le> k" "k < mc" "map_of cs k = Some c"
      using c(1) "1.prems"(1) by auto
    ultimately obtain js where "search_at mc js c = Inr (Some m)" using "1.IH" by blast
    then show ?thesis using w by (intro exI [of _ "k # js"]) simp
  qed
qed

subsubsection \<open>Smearing a lexicon of words with one label each\<close>

lemma concat_map_unique:
  "distinct (map fst ops) \<Longrightarrow> (is, l, s) \<in> set ops \<Longrightarrow> [(l, s). (js, l, s) \<leftarrow> ops, js = is] = [(l, s)]"
proof (induction ops)
  case (Cons oper ops)
  have none: "is \<notin> fst ` set ops \<Longrightarrow> [(l, s). (js, l, s) \<leftarrow> ops, js = is] = []" by force
  show ?case using Cons none by (cases oper) (force simp del: concat_map_singleton)
qed simp

lemma scores_insert_all:
  assumes "distinct (map fst ops)" and "search (insert_all ops (new_Trie mc r)) is = Inr (Some k)"
  shows "scores k = [] \<and> is \<notin> fst ` set ops \<or> (\<exists>l s. (is, l, s) \<in> set ops \<and> scores k = [s])"
proof -
  have mc: "maxChildren (insert_all ops (new_Trie mc r)) = mc" by (simp add: new_Trie_def)
  then have v: "valid_spelling mc is" using search_valid assms(2) by (auto simp: search_def)
  have "entries (insert_all ops (new_Trie mc r)) is = (labels k, scores k)"
    using assms(2) by (simp add: entries_def entries_at_def search_def)
  then have sc: "scores k = map snd (take 6 [(l, s). (js, l, s) \<leftarrow> ops, js = is])"
    using v by (simp add: entries_insert_all Let_def)
  show ?thesis
  proof (cases "is \<in> fst ` set ops")
    case True
    then obtain l s where "(is, l, s) \<in> set ops" by auto
    then show ?thesis using sc concat_map_unique [OF assms(1)] by auto
  next
    case False
    then have "[(l, s). (js, l, s) \<leftarrow> ops, js = is] = []" by force
    then show ?thesis using sc False by simp
  qed
qed

definition words_below :: "int \<Rightarrow> (int list \<times> int \<times> dbl) list \<Rightarrow> int list \<Rightarrow> dbl set" where
  "words_below mc ops is = {s. \<exists>js l. (js, l, s) \<in> set ops \<and> valid_spelling mc js \<and> prefix is js}"

lemma entries_nonempty_search:
  "scores_at = snd (entries t is) \<Longrightarrow> scores_at \<noteq> [] \<Longrightarrow> \<exists>m. search t is = Inr (Some m) \<and> scores m = scores_at"
  by (auto simp: entries_def entries_at_def search_def split: sum.splits option.splits)

lemma search_inserted:
  assumes "distinct (map fst ops)" "(js, l, s) \<in> set ops" "valid_spelling mc js"
  shows "\<exists>k. search (insert_all ops (new_Trie mc r)) js = Inr (Some k) \<and> scores k = [s]"
proof -
  have "snd (entries (insert_all ops (new_Trie mc r)) js) = [s]"
    using concat_map_unique [OF assms(1,2)] assms(3) by (simp add: entries_insert_all Let_def)
  from entries_nonempty_search [OF this [symmetric]] show ?thesis by simp
qed

lemma subnode_own_score:
  assumes d: "distinct (map fst ops)" and fin: "\<forall>(js, l, s)\<in>set ops. \<exists>x. s = Fin x"
    and m: "search (insert_all ops (new_Trie mc r)) is = Inr (Some m)" and k: "k \<in> set (subnodes m)"
  shows "(scores k = [] \<and> own_score k = NInf) \<or> (\<exists>s\<in>words_below mc ops is. scores k = [s] \<and> own_score k = s)"
proof -
  let ?t = "insert_all ops (new_Trie mc r)"
  have mc: "maxChildren ?t = mc" by (simp add: new_Trie_def)
  have at: "search_at mc is (root ?t) = Inr (Some m)" using m mc by (simp add: search_def)
  have "wf_node mc m" using wf_search [OF wf_insert_all at] .
  then obtain js where "search_at mc js m = Inr (Some k)" using subnodes_search k by blast
  then have js: "search ?t (is @ js) = Inr (Some k)" using search_append [OF at] mc by (simp add: search_def)
  have v: "valid_spelling mc (is @ js)" using js mc search_valid by (auto simp: search_def)
  from scores_insert_all [OF d js] show ?thesis
  proof
    assume "\<exists>l s. (is @ js, l, s) \<in> set ops \<and> scores k = [s]"
    then obtain l s where s: "(is @ js, l, s) \<in> set ops" "scores k = [s]" by blast
    then obtain x where "s = Fin x" using fin by fast
    moreover have "s \<in> words_below mc ops is" using s(1) v by (force simp: words_below_def)
    ultimately show ?thesis using s(2) by (simp add: own_score_def)
  qed (simp add: own_score_def)
qed

lemma word_below_subnode:
  assumes d: "distinct (map fst ops)" and m: "search (insert_all ops (new_Trie mc r)) is = Inr (Some m)"
    and s: "s \<in> words_below mc ops is"
  shows "\<exists>k\<in>set (subnodes m). scores k = [s]"
proof -
  let ?t = "insert_all ops (new_Trie mc r)"
  have mc: "maxChildren ?t = mc" by (simp add: new_Trie_def)
  have at: "search_at mc is (root ?t) = Inr (Some m)" using m mc by (simp add: search_def)
  obtain js l where w: "(is @ js, l, s) \<in> set ops" "valid_spelling mc (is @ js)"
    using s by (auto simp: words_below_def prefix_def)
  from search_inserted [OF d w] obtain k where k: "search ?t (is @ js) = Inr (Some k)" "scores k = [s]" by blast
  then have "search_at mc js m = Inr (Some k)" using search_append [OF at] mc by (simp add: search_def)
  then show ?thesis using k(2) search_subnodes by blast
qed

text \<open>
  C32. Smearing a lexicon in \<^verbatim>\<open>MAX\<close> mode: in the trie built by inserting words with pairwise different spellings
  and finite scores, every node that can be searched is still found after the smearing, with the same labels and
  scores, and its \<^verbatim>\<open>maxScore\<close> is the maximum of the scores of all words whose spelling starts with the node's
  path (minus infinity when no accepted word does).
\<close>

theorem smear_max_lexicon:
  assumes "distinct (map fst ops)" and "\<forall>(js, l, s)\<in>set ops. \<exists>x. s = Fin x"
    and "search (insert_all ops (new_Trie mc r)) is = Inr (Some m)"
  shows "\<exists>m'. search (smear SMAX (insert_all ops (new_Trie mc r))) is = Inr (Some m') \<and>
     labels m' = labels m \<and> scores m' = scores m \<and>
     (if words_below mc ops is = {} then maxScore m' = NInf
      else maxScore m' \<in> words_below mc ops is \<and> (\<forall>s\<in>words_below mc ops is. s \<le> maxScore m'))"
proof -
  let ?t = "insert_all ops (new_Trie mc r)" and ?W = "words_below mc ops is" and ?m' = "smearNode SMAX m"
  have found: "search (smear SMAX ?t) is = Inr (Some ?m')"
    using assms(3) by (simp add: search_def smear_def search_smear)
  have W: "\<exists>x. s = Fin x" if "s \<in> ?W" for s using that assms(2) by (auto simp: words_below_def)
  note own = subnode_own_score [OF assms]
  have "\<forall>s\<in>set (scores k). \<exists>x. s = Fin x" if "k \<in> set (subnodes m)" for k
    using own [OF that] W by (auto simp del: split_paired_Ex)
  then have "finite_scores m" by (simp add: finite_scores_def)
  from smear_max_node [OF this]
  have max: "maxScore ?m' \<in> own_score ` set (subnodes m)" "\<forall>k\<in>set (subnodes m). own_score k \<le> maxScore ?m'" by auto
  obtain k0 where k0: "k0 \<in> set (subnodes m)" "maxScore ?m' = own_score k0" using max(1) by blast
  have cases: "maxScore ?m' = NInf \<or> maxScore ?m' \<in> ?W" using own [OF k0(1)] unfolding k0(2) by blast
  have ub: "s \<le> maxScore ?m'" if s: "s \<in> ?W" for s
  proof -
    obtain k where k: "k \<in> set (subnodes m)" "scores k = [s]" using word_below_subnode [OF assms(1,3) s] by blast
    then have "own_score k = s" using own [OF k(1)] by auto
    then show ?thesis using max(2) k(1) by auto
  qed
  show ?thesis
  proof (cases "?W = {}")
    case True
    then show ?thesis using found cases by auto
  next
    case False
    then obtain s where "s \<in> ?W" by blast
    then have "maxScore ?m' \<noteq> NInf" using ub W by fastforce
    then show ?thesis using found cases ub False by auto
  qed
qed

theorem smear_max_lexicon_witness:
  "\<exists>m'. search (smear SMAX (insert_all [([1], 7, Fin (-3)), ([1, 2], 8, Fin (-1)), ([2], 9, Fin 0)] (new_Trie 5 0))) [1]
      = Inr (Some m') \<and> labels m' = [7] \<and> maxScore m' = Fin (-1)"
proof -
  let ?ops = "[([1], 7, Fin (-3)), ([1, 2], 8, Fin (-1)), ([2], 9, Fin 0)] :: (int list \<times> int \<times> dbl) list"
  let ?m = "TrieNode [(2, TrieNode [] 2 [8] [Fin (-1)] 0)] 1 [7] [Fin (-3)] 0"
  have s: "search (insert_all ?ops (new_Trie 5 0)) [1] = Inr (Some ?m)"
    by (simp add: search_def insert_all_def trie_insert_def new_Trie_def new_TrieNode_def push_label_def set_child_def kTrieMaxLabel_def Let_def)
  have w: "words_below 5 ?ops [1] = {Fin (-3), Fin (-1)}"
    by (simp add: words_below_def valid_spelling_def) (simp add: insert_commute conj_disj_distribR ex_disj_distrib Collect_disj_eq)
  have "distinct (map fst ?ops)" "\<forall>(js, l, s)\<in>set ?ops. \<exists>x. s = Fin x" by auto
  from smear_max_lexicon [OF this s] obtain m' where "search (smear SMAX (insert_all ?ops (new_Trie 5 0))) [1] = Inr (Some m')"
      "labels m' = [7]" "maxScore m' \<in> {Fin (-3), Fin (-1)}" "Fin (-1) \<le> maxScore m'"
    unfolding w by auto
  then show ?thesis by (intro exI [of _ m']) auto
qed

end
