(* ===== verification/LexiconDecoder.thy ===== *)
theory LexiconDecoder
  imports DecoderSearch Trie
begin

section \<open>The lexicon beam search (\<^verbatim>\<open>lib/text/decoder/LexiconDecoder.h\<close>, \<^verbatim>\<open>.cpp\<close>)\<close>

text \<open>
  The lexicon decoder restricts the search to the spellings of a trie. A \<^verbatim>\<open>const TrieNode*\<close> is the path of the node;
  the order of the nodes' addresses, which \<^verbatim>\<open>compareNoScoreStates\<close> uses, is the parameter \<open>nodeAddr\<close>. As in the
  lexicon-free decoder the candidate vectors are local, \<open>nextBuf\<close> numbers the buffers and \<open>lmMem\<close> is the state of the
  language model.
\<close>

record lexiconDecoderOptions =
  beamSize :: int
  beamSizeToken :: int
  beamThreshold :: dbl
  lmWeight :: dbl
  wordScore :: dbl
  unkScore :: dbl
  silScore :: dbl
  logAdd :: bool
  criterion :: criterionType

record lexiconDecoderState = decoderState +
  lex :: "int list"
  word :: int
  prevBlank :: bool

record 'l lexiconDecoder =
  opt :: lexiconDecoderOptions
  lexicon :: trie
  nodeAddr :: "int list \<Rightarrow> nat"
  lm :: "'l lm"
  sil :: int
  blank :: int
  unk :: int
  transitions :: "dbl list"
  isLmToken :: bool
  hyp :: "lexiconDecoderState hyps"
  nDecodedFrames :: int
  nPrunedFrames :: int
  nextBuf :: nat
  lmMem :: 'l

definition compareNoScoreStates :: "(int list \<Rightarrow> nat) \<Rightarrow> lexiconDecoderState \<Rightarrow> lexiconDecoderState \<Rightarrow> int" where
  "compareNoScoreStates addr this node =
     (case compare (lmState this) (Some (lmState node)) of
        Inl e \<Rightarrow> 0
      | Inr lmCmp \<Rightarrow>
          if lmCmp \<noteq> 0 then if lmCmp > 0 then 1 else -1
          else if addr (lex this) \<noteq> addr (lex node) then if addr (lex this) > addr (lex node) then 1 else -1
          else if token this \<noteq> token node then if token this > token node then 1 else -1
          else if prevBlank this \<noteq> prevBlank node then if prevBlank this > prevBlank node then 1 else -1
          else 0)"

definition getWord :: "lexiconDecoderState \<Rightarrow> int" where
  "getWord s = word s"

definition isComplete :: "lexiconDecoderState hyps \<Rightarrow> lexiconDecoderState \<Rightarrow> bool result" where
  "isComplete h s = rbind (parent_of h s) (\<lambda>p. Inr (case p of None \<Rightarrow> True | Some s' \<Rightarrow> word s' \<ge> 0))"

definition new_state :: "dbl \<Rightarrow> lmStatePtr \<Rightarrow> int list \<Rightarrow> hypPtr option \<Rightarrow> int \<Rightarrow> int \<Rightarrow> bool \<Rightarrow> dbl \<Rightarrow> dbl \<Rightarrow> lexiconDecoderState" where
  "new_state sc ls lx par tok wd pb am lms =
     \<lparr>score = sc, lmState = ls, parent = par, token = tok, amScore = am, lmScore = lms, lex = lx, word = wd, prevBlank = pb\<rparr>"

definition decodeBegin :: "'l lexiconDecoder \<Rightarrow> 'l lexiconDecoder" where
  "decodeBegin d =
     (let (ls, l) = lm_start (lm d) False (lmMem d) in
      d\<lparr>hyp := [(0, nextBuf d, [new_state 0 ls [] None (sil d) (-1) False 0 0])],
        nDecodedFrames := 0, nPrunedFrames := 0, nextBuf := Suc (nextBuf d), lmMem := l\<rparr>)"

subsection \<open>The candidates of one hypothesis\<close>

type_synonym 'l search = "lexiconDecoderState cands \<times> 'l"

definition add_state :: "'l lexiconDecoder \<Rightarrow> lexiconDecoderState \<Rightarrow> 'l search \<Rightarrow> 'l search" where
  "add_state d s bcl = (candidatesAdd (beamThreshold (opt d)) s (fst bcl), snd bcl)"

text \<open>The acoustic score of token \<open>n\<close>, and the score of the extended hypothesis without the language model.\<close>

definition am_score :: "'l lexiconDecoder \<Rightarrow> dbl list \<Rightarrow> int \<Rightarrow> int \<Rightarrow> lexiconDecoderState \<Rightarrow> int \<Rightarrow> dbl result" where
  "am_score d emissions N t prevHyp n =
     rbind (cell emissions (t * N + n)) (\<lambda>e.
       if nDecodedFrames d + t > 0 \<and> criterion (opt d) = ASG
       then rbind (cell (transitions d) (n * N + token prevHyp)) (\<lambda>tr. Inr (e + tr)) else Inr e)"

definition sil_score :: "'l lexiconDecoder \<Rightarrow> lexiconDecoderState \<Rightarrow> int \<Rightarrow> dbl \<Rightarrow> dbl" where
  "sil_score d prevHyp n am = (if n = sil d then score prevHyp + am + silScore (opt d) else score prevHyp + am)"

text \<open>
  The candidate that completes a word with label \<open>w\<close>: \<open>tok\<close> is the language-model result for the token, which
  is used when the language model works on tokens.
\<close>

definition add_word :: "'l lexiconDecoder \<Rightarrow> lexiconDecoderState \<Rightarrow> hypPtr \<Rightarrow> dbl \<Rightarrow> lmStatePtr \<times> dbl \<Rightarrow> int \<Rightarrow> dbl \<Rightarrow> dbl \<Rightarrow>
    int \<Rightarrow> dbl \<Rightarrow> 'l search \<Rightarrow> 'l search result" where
  "add_word d prevHyp ptr lexMaxScore tok n am sc w bonus bcl =
     rbind (if isLmToken d then Inr (tok, snd bcl)
            else rbind (lm_score (lm d) (lmState prevHyp) w (snd bcl)) (\<lambda>((ls, x), l). Inr ((ls, x - lexMaxScore), l)))
       (\<lambda>((ls, lmSc), l).
         Inr (add_state d (new_state (sc + lmWeight (opt d) * lmSc + bonus) ls [] (Some ptr) n w False
                (amScore prevHyp + am) (lmScore prevHyp + lmSc)) (fst bcl, l)))"

definition try_child :: "'l lexiconDecoder \<Rightarrow> dbl list \<Rightarrow> int \<Rightarrow> int \<Rightarrow> lexiconDecoderState \<Rightarrow> trieNode \<Rightarrow> hypPtr \<Rightarrow> int \<Rightarrow>
    'l search \<Rightarrow> 'l search result" where
  "try_child d emissions N t prevHyp prevNode ptr n bcl =
     (case map_of (children prevNode) n of
        None \<Rightarrow> Inr bcl
      | Some node \<Rightarrow>
          let prevLex = lex prevHyp;
              lexMaxScore = (if prevLex = [] then 0 else maxScore prevNode)
          in
          rbind (am_score d emissions N t prevHyp n) (\<lambda>am.
            let sc = sil_score d prevHyp n am in
            rbind (if isLmToken d then lm_score (lm d) (lmState prevHyp) n (snd bcl) else Inr ((0, 0), snd bcl)) (\<lambda>(tok, l).
              let bcl1 =
                (if (criterion (opt d) \<noteq> CTC \<or> prevBlank prevHyp \<or> n \<noteq> token prevHyp) \<and> children node \<noteq> []
                 then
                   let (ls, lmSc) = (if isLmToken d then tok else (lmState prevHyp, maxScore node - lexMaxScore)) in
                   add_state d (new_state (sc + lmWeight (opt d) * lmSc) ls (prevLex @ [n]) (Some ptr) n (-1) False
                     (amScore prevHyp + am) (lmScore prevHyp + lmSc)) (fst bcl, l)
                 else (fst bcl, l))
              in
              rbind (rfold (\<lambda>label bcl.
                  if prevLex = [] \<and> token prevHyp = n then Inr bcl
                  else add_word d prevHyp ptr lexMaxScore tok n am sc label (wordScore (opt d)) bcl) (labels node) bcl1) (\<lambda>bcl2.
              if labels node = [] \<and> unkScore (opt d) > kNegativeInfinity
              then add_word d prevHyp ptr lexMaxScore tok n am sc (unk d) (unkScore (opt d)) bcl2
              else Inr bcl2))))"

definition try_same :: "'l lexiconDecoder \<Rightarrow> dbl list \<Rightarrow> int \<Rightarrow> int \<Rightarrow> lexiconDecoderState \<Rightarrow> hypPtr \<Rightarrow> 'l search \<Rightarrow> 'l search result" where
  "try_same d emissions N t prevHyp ptr bcl =
     (if criterion (opt d) \<noteq> CTC \<or> \<not> prevBlank prevHyp \<or> lex prevHyp = []
      then
        let n = (if lex prevHyp = [] then sil d else token prevHyp) in
        rbind (am_score d emissions N t prevHyp n) (\<lambda>am.
          Inr (add_state d (new_state (sil_score d prevHyp n am) (lmState prevHyp) (lex prevHyp) (Some ptr) n (-1) False
            (amScore prevHyp + am) (lmScore prevHyp)) bcl))
      else Inr bcl)"

definition try_blank :: "'l lexiconDecoder \<Rightarrow> dbl list \<Rightarrow> int \<Rightarrow> int \<Rightarrow> lexiconDecoderState \<Rightarrow> hypPtr \<Rightarrow> 'l search \<Rightarrow> 'l search result" where
  "try_blank d emissions N t prevHyp ptr bcl =
     (if criterion (opt d) = CTC
      then rbind (cell emissions (t * N + blank d)) (\<lambda>am.
        Inr (add_state d (new_state (score prevHyp + am) (lmState prevHyp) (lex prevHyp) (Some ptr) (blank d) (-1) True
          (amScore prevHyp + am) (lmScore prevHyp)) bcl))
      else Inr bcl)"

definition propose :: "'l lexiconDecoder \<Rightarrow> dbl list \<Rightarrow> int \<Rightarrow> int \<Rightarrow> int list \<Rightarrow> lexiconDecoderState \<Rightarrow> hypPtr \<Rightarrow>
    'l search \<Rightarrow> 'l search result" where
  "propose d emissions N t ns prevHyp ptr bcl =
     (case node_at (getRoot (lexicon d)) (lex prevHyp) of
        None \<Rightarrow> Inl (Undefined ''dangling trie node'')
      | Some prevNode \<Rightarrow>
          rbind (rfold (try_child d emissions N t prevHyp prevNode ptr) ns bcl) (\<lambda>bcl1.
          rbind (try_same d emissions N t prevHyp ptr bcl1) (try_blank d emissions N t prevHyp ptr)))"

definition decode_frame :: "dbl list \<Rightarrow> int \<Rightarrow> int \<Rightarrow> int \<Rightarrow> 'l lexiconDecoder \<Rightarrow> 'l lexiconDecoder result" where
  "decode_frame emissions N startFrame t d =
     rbind (token_order emissions t N (beamSizeToken (opt d))) (\<lambda>idx.
       let ns = take (nat (min (beamSizeToken (opt d)) N)) idx;
           h = touch (startFrame + t) (hyp d);
           (b, prev) = vec h (startFrame + t)
       in
       rbind (rfold (\<lambda>(i, prevHyp). propose d emissions N t ns prevHyp (b, i)) (enumerate 0 prev) (candidatesReset, lmMem d)) (\<lambda>((best, cs), l).
       rbind (candidatesStore (compareNoScoreStates (nodeAddr d)) cs (beamSize (opt d)) (best - beamThreshold (opt d)) (logAdd (opt d)) False) (\<lambda>outs.
       rbind (updateLMCache (lm d) outs l) (\<lambda>l'.
         Inr (d\<lparr>hyp := put (startFrame + t + 1) (nextBuf d, outs) h, nextBuf := Suc (nextBuf d), lmMem := l'\<rparr>)))))"

definition decodeStep :: "dbl list \<Rightarrow> int \<Rightarrow> int \<Rightarrow> 'l lexiconDecoder \<Rightarrow> 'l lexiconDecoder result" where
  "decodeStep emissions T N d =
     (let startFrame = nDecodedFrames d - nPrunedFrames d;
          d1 = d\<lparr>hyp := extend_hyp (nat (startFrame + T + 2)) (hyp d)\<rparr>
      in
      if N < 0 then Inl (Length_error ''vector'')
      else rbind (rfold (decode_frame emissions N startFrame) [0..T - 1] d1) (\<lambda>d2.
        Inr (d2\<lparr>nDecodedFrames := nDecodedFrames d2 + T\<rparr>)))"

subsection \<open>End of the stream, results and pruning\<close>

definition finish_one :: "'l lexiconDecoder \<Rightarrow> bool \<Rightarrow> lexiconDecoderState \<Rightarrow> hypPtr \<Rightarrow> 'l search \<Rightarrow> 'l search result" where
  "finish_one d hasNiceEnding prevHyp ptr bcl =
     (if \<not> hasNiceEnding \<or> lex prevHyp = []
      then rbind (lm_finish (lm d) (lmState prevHyp) (snd bcl)) (\<lambda>((ls, lmSc), l).
        Inr (add_state d (new_state (score prevHyp + lmWeight (opt d) * lmSc) ls (lex prevHyp) (Some ptr) (sil d) (-1) False
          (amScore prevHyp) (lmScore prevHyp + lmSc)) (fst bcl, l)))
      else Inr bcl)"

definition decodeEnd :: "'l lexiconDecoder \<Rightarrow> 'l lexiconDecoder result" where
  "decodeEnd d =
     (let f = nDecodedFrames d - nPrunedFrames d;
          h = touch f (hyp d);
          (b, prev) = vec h f;
          hasNiceEnding = list_ex (\<lambda>s. lex s = []) prev
      in
      rbind (rfold (\<lambda>(i, prevHyp). finish_one d hasNiceEnding prevHyp (b, i)) (enumerate 0 prev) (candidatesReset, lmMem d)) (\<lambda>((best, cs), l).
      rbind (candidatesStore (compareNoScoreStates (nodeAddr d)) cs (beamSize (opt d)) (best - beamThreshold (opt d)) (logAdd (opt d)) True) (\<lambda>outs.
        Inr (d\<lparr>hyp := put (f + 1) (nextBuf d, outs) h, nextBuf := Suc (nextBuf d), lmMem := l,
               nDecodedFrames := nDecodedFrames d + 1\<rparr>))))"

definition getAllFinalHypothesis :: "'l lexiconDecoder \<Rightarrow> decodeResult list result" where
  "getAllFinalHypothesis d =
     (let finalFrame = nDecodedFrames d - nPrunedFrames d in
      if finalFrame < 1 then Inr []
      else rbind (find_frame (hyp d) finalFrame) (\<lambda>fin. getAllHypothesis (hyp d) getWord fin finalFrame))"

definition getBestHypothesis :: "int \<Rightarrow> 'l lexiconDecoder \<Rightarrow> decodeResult result" where
  "getBestHypothesis lookBack d =
     (if nDecodedFrames d - nPrunedFrames d - lookBack < 1 then Inr (new_DecodeResult 0)
      else rbind (find_frame (hyp d) (nDecodedFrames d - nPrunedFrames d)) (\<lambda>fin.
        rbind (findBestAncestor (hyp d) (isComplete (hyp d)) fin lookBack) (\<lambda>(bestNode, n).
          getHypothesis (hyp d) getWord bestNode (nDecodedFrames d - nPrunedFrames d - n))))"

definition nHypothesis :: "'l lexiconDecoder \<Rightarrow> nat result" where
  "nHypothesis d = rbind (find_frame (hyp d) (nDecodedFrames d - nPrunedFrames d)) (\<lambda>fin. Inr (length fin))"

definition nDecodedFramesInBuffer :: "'l lexiconDecoder \<Rightarrow> int" where
  "nDecodedFramesInBuffer d = nDecodedFrames d - nPrunedFrames d + 1"

definition prune :: "int \<Rightarrow> 'l lexiconDecoder \<Rightarrow> 'l lexiconDecoder result" where
  "prune lookBack d =
     (if nDecodedFrames d - nPrunedFrames d - lookBack < 1 then Inr d
      else rbind (find_frame (hyp d) (nDecodedFrames d - nPrunedFrames d)) (\<lambda>fin.
        rbind (findBestAncestor (hyp d) (isComplete (hyp d)) fin lookBack) (\<lambda>(bestNode, n).
          if bestNode = None then Inr d
          else
            let startFrame = nDecodedFrames d - nPrunedFrames d - n in
            if startFrame < 1 then Inr d
            else rbind (pruneAndNormalize startFrame n (hyp d)) (\<lambda>h.
              Inr (d\<lparr>hyp := h, nPrunedFrames := nDecodedFrames d - n\<rparr>)))))"

definition decode :: "dbl list \<Rightarrow> int \<Rightarrow> int \<Rightarrow> 'l lexiconDecoder \<Rightarrow> (decodeResult list \<times> 'l lexiconDecoder) result" where
  "decode emissions T N d =
     rbind (decodeStep emissions T N (decodeBegin d)) (\<lambda>d1.
     rbind (decodeEnd d1) (\<lambda>d2.
     rbind (getAllFinalHypothesis d2) (\<lambda>rs. Inr (rs, d2))))"

end
