(* ===== verification/LexiconTheorems.thy ===== *)
theory LexiconTheorems
  imports LexiconDecoder
begin

section \<open>Properties of the lexicon decoder\<close>

text \<open>
  Every hypothesis sits at a node of the trie and is related to its parent by a move of the lexicon automaton:
  it stays at its node with silence (at the root), a repeated token or the blank, goes to a child, or completes a
  word and returns to the root; the end of the stream adds a last silence. \<open>lex_state\<close> and \<open>lex_edge\<close>
  state this, and the locale \<open>state_links\<close> makes them invariants of the search.
\<close>

interpretation lxo: state_order "compareNoScoreStates addr" for addr
proof
  fix x y z :: lexiconDecoderState and s
  show "compareNoScoreStates addr y x = - compareNoScoreStates addr x y"
    by (auto simp: compareNoScoreStates_def compare_def)
  show "0 \<le> compareNoScoreStates addr x y \<Longrightarrow> 0 \<le> compareNoScoreStates addr y z \<Longrightarrow> 0 \<le> compareNoScoreStates addr x z"
    by (auto simp: compareNoScoreStates_def compare_def split: if_splits)
  show "compareNoScoreStates addr (x\<lparr>score := s\<rparr>) y = compareNoScoreStates addr x y"
    by (simp add: compareNoScoreStates_def)
qed

text \<open>
  What the automaton depends on: the trie, the unknown word if \<^verbatim>\<open>unkScore\<close> admits it, the silence token, and the
  blank of CTC.
\<close>

record lexicon_rules =
  rule_root :: trieNode
  rule_unk :: "int option"
  rule_sil :: int
  rule_blank :: "int option"

definition rules_of :: "'l lexiconDecoder \<Rightarrow> lexicon_rules" where
  "rules_of d = \<lparr>rule_root = root (lexicon d), rule_unk = (if unkScore (opt d) > NInf then Some (unk d) else None),
     rule_sil = sil d, rule_blank = (if criterion (opt d) = CTC then Some (blank d) else None)\<rparr>"

text \<open>
  One frame, from the node \<open>path\<close> and the token \<open>ptok\<close>: the token \<open>tok\<close>, the word \<open>wd\<close> reported with it (-1 for none) and the next
  node. With CTC an inner node is entered with a token that differs from the last one, unless that was a blank, and
  a word of one token is not emitted again from the root while its token repeats.
\<close>

definition lex_move :: "lexicon_rules \<Rightarrow> int list \<Rightarrow> int \<Rightarrow> int \<Rightarrow> int \<Rightarrow> int list \<Rightarrow> bool" where
  "lex_move g path ptok tok wd path' \<longleftrightarrow>
     path' = path \<and> wd = -1 \<and> (tok = (if path = [] then rule_sil g else ptok) \<or> rule_blank g = Some tok) \<or>
     (\<exists>node. node_at (rule_root g) (path @ [tok]) = Some node \<and>
        (path' = path @ [tok] \<and> wd = -1 \<and> (rule_blank g = None \<or> tok \<noteq> ptok \<or> rule_blank g = Some ptok) \<or>
         path' = [] \<and> wd \<in> set (labels node) \<and> \<not> (path = [] \<and> ptok = tok) \<or>
         path' = [] \<and> labels node = [] \<and> rule_unk g = Some wd))"

text \<open>The end of the stream keeps the node and adds silence.\<close>

definition end_move :: "lexicon_rules \<Rightarrow> int list \<Rightarrow> int \<Rightarrow> int \<Rightarrow> int list \<Rightarrow> bool" where
  "end_move g path tok wd path' \<longleftrightarrow> path' = path \<and> wd = -1 \<and> tok = rule_sil g"

text \<open>A state and its parent; \<open>fin\<close> says whether the stream may have ended between them.\<close>

definition lex_edge :: "lexicon_rules \<Rightarrow> int \<Rightarrow> bool \<Rightarrow> lexiconDecoderState \<Rightarrow> lexiconDecoderState \<Rightarrow> bool" where
  "lex_edge g N fin r s \<longleftrightarrow> 0 \<le> token s \<and> token s < N \<and> (prevBlank s \<longrightarrow> rule_blank g = Some (token s)) \<and>
     (lex_move g (lex r) (token r) (token s) (word s) (lex s) \<or> fin \<and> end_move g (lex r) (token s) (word s) (lex s))"

definition lex_state :: "lexicon_rules \<Rightarrow> int \<Rightarrow> lexiconDecoderState \<Rightarrow> bool" where
  "lex_state g N s \<longleftrightarrow> 0 \<le> token s \<and> token s < N \<and> (prevBlank s \<longrightarrow> rule_blank g = Some (token s)) \<and>
     node_at (rule_root g) (lex s) \<noteq> None"

interpretation lx: state_links "lex_state g N" "lex_edge g N fin" for g N fin
  by unfold_locales (auto simp: lex_state_def lex_edge_def lex_move_def end_move_def)

definition final_edge :: "lexicon_rules \<Rightarrow> int \<Rightarrow> lexiconDecoderState \<Rightarrow> lexiconDecoderState \<Rightarrow> bool" where
  "final_edge g N r s \<longleftrightarrow> 0 \<le> token s \<and> token s < N \<and> \<not> prevBlank s \<and> end_move g (lex r) (token s) (word s) (lex s)"

interpretation lxe: state_links "lex_state g N" "final_edge g N" for g N
  by unfold_locales (auto simp: lex_state_def final_edge_def end_move_def)

lemma final_edge_lex_edge: "final_edge g N r s \<Longrightarrow> lex_edge g N True r s"
  by (simp add: final_edge_def lex_edge_def)

lemma stored_mono: "stored h f Q la outs \<Longrightarrow> \<forall>r s. Q r s \<longrightarrow> Q' r s \<Longrightarrow> stored h f Q' la outs"
  unfolding stored_def linked_def by meson

definition lx_config :: "int \<Rightarrow> 'l lexiconDecoder \<Rightarrow> bool" where
  "lx_config N d \<longleftrightarrow>
     0 \<le> beamSize (opt d) \<and> 0 \<le> beamSizeToken (opt d) \<and> (\<exists>b\<ge>0. beamThreshold (opt d) = Fin b) \<and> 0 \<le> sil d \<and> sil d < N \<and>
     (criterion (opt d) = CTC \<longrightarrow> 0 \<le> blank d \<and> blank d < N) \<and>
     (criterion (opt d) = ASG \<longrightarrow> N * N \<le> int (length (transitions d)))"

abbreviation edge_of :: "bool \<Rightarrow> 'l lexiconDecoder \<Rightarrow> int \<Rightarrow> lexiconDecoderState \<Rightarrow> lexiconDecoderState \<Rightarrow> bool" where
  "edge_of fin d N \<equiv> lex_edge (rules_of d) N fin"

subsection \<open>The candidates of a hypothesis\<close>

lemma am_score_ok:
  assumes "lx_config N d" "0 \<le> t" "(t + 1) * N \<le> int (length emissions)" "0 \<le> token prev" "token prev < N" "0 \<le> n" "n < N"
  shows "\<exists>am. am_score d emissions N t prev n = Inr am"
proof -
  have sq: "(n + 1) * N \<le> N * N" using assms by (intro mult_right_mono) auto
  have "cell (transitions d) (n * N + token prev) = Inr (transitions d ! nat (n * N + token prev))" if "criterion (opt d) = ASG"
  proof (rule cell_row)
    show "(n + 1) * N \<le> int (length (transitions d))" using sq that assms(1) unfolding lx_config_def by linarith
  qed (use assms in auto)
  then show ?thesis using cell_row [OF assms(2,6,7,3)] by (auto simp: am_score_def)
qed

lemma add_state_eq: "(\<lambda>bcl. Inr (add_state d s bcl)) = (\<lambda>bcl. Inr (candidatesAdd (beamThreshold (opt d)) s (fst bcl), snd bcl))"
  by (simp add: add_state_def fun_eq_iff)

lemma adds_add_state: "P s \<Longrightarrow> adds (beamThreshold (opt d)) P E (\<lambda>bcl. Inr (add_state d s bcl))"
  unfolding add_state_eq by (rule adds_add)

lemma add_word_adds:
  assumes P: "\<And>ls sc' lms. P (new_state sc' ls [] (Some ptr) n w False (amScore prev + am) lms)"
  shows "adds (beamThreshold (opt d)) P (lm_throws (lm d)) (add_word d prev ptr lexMax tok n am sc w bonus)"
proof -
  let ?q = "\<lambda>l. if isLmToken d then Inr (tok, l)
      else rbind (lm_score (lm d) (lmState prev) w l) (\<lambda>((ls, x), l). Inr ((ls, x - lexMax), l))"
  let ?G = "\<lambda>(ls, lmSc) bcl. Inr (add_state d (new_state (sc + lmWeight (opt d) * lmSc + bonus) ls [] (Some ptr) n w False
      (amScore prev + am) (lmScore prev + lmSc)) bcl)"
  have "adds (beamThreshold (opt d)) P (lm_throws (lm d)) (?G r)" for r
    using P by (cases r) (auto intro: adds_add_state)
  then have "adds (beamThreshold (opt d)) P (lm_throws (lm d)) (\<lambda>bcl. rbind (?q (snd bcl)) (\<lambda>(r, l). ?G r (fst bcl, l)))"
    by (intro adds_query) (auto simp: rbind_eq_Inl_iff intro: lm_throwsI split: if_splits)
  moreover have "add_word d prev ptr lexMax tok n am sc w bonus = (\<lambda>bcl. rbind (?q (snd bcl)) (\<lambda>(r, l). ?G r (fst bcl, l)))"
    by (intro ext) (auto simp: add_word_def rbind_def split: sum.splits prod.splits)
  ultimately show ?thesis by simp
qed

text \<open>The step of \<open>try_child\<close> that enters the child, and the loop over its words.\<close>

lemma try_child_adds:
  assumes c: "lx_config N d" and t: "0 \<le> t" "(t + 1) * N \<le> int (length emissions)" and n: "0 \<le> n" "n < N"
    and prev: "lex_state (rules_of d) N prev" "node_at (root (lexicon d)) (lex prev) = Some prevNode"
    and P: "\<And>s. parent s = Some ptr \<Longrightarrow> edge_of fin d N prev s \<Longrightarrow> P s"
  shows "adds (beamThreshold (opt d)) P (lm_throws (lm d)) (try_child d emissions N t prev prevNode ptr n)"
proof (cases "map_of (children prevNode) n")
  case None
  then have "try_child d emissions N t prev prevNode ptr n = Inr" by (simp add: try_child_def fun_eq_iff)
  then show ?thesis using adds_skip by simp
next
  case (Some node)
  have at: "node_at (root (lexicon d)) (lex prev @ [n]) = Some node" using node_at_child [OF prev(2), of n] Some by simp
  have tok: "0 \<le> token prev" "token prev < N" using prev(1) by (auto simp: lex_state_def)
  obtain am where am: "am_score d emissions N t prev n = Inr am" using am_score_ok [OF c t tok n] by blast
  define sc where "sc = sil_score d prev n am"
  define lexMax where "lexMax = (if lex prev = [] then 0 else maxScore prevNode)"
  define enter where "enter = (\<lambda>tok bcl. Inr (if (criterion (opt d) \<noteq> CTC \<or> prevBlank prev \<or> n \<noteq> token prev) \<and> children node \<noteq> []
      then let (ls, lmSc) = (if isLmToken d then tok else (lmState prev, maxScore node - lexMax)) in
        add_state d (new_state (sc + lmWeight (opt d) * lmSc) ls (lex prev @ [n]) (Some ptr) n (-1) False
          (amScore prev + am) (lmScore prev + lmSc)) bcl else bcl) :: 'a search result)"
  define known where "known = (\<lambda>tok. rfold (\<lambda>label bcl. if lex prev = [] \<and> token prev = n then Inr bcl
      else add_word d prev ptr lexMax tok n am sc label (wordScore (opt d)) bcl) (labels node))"
  define unknown where "unknown = (\<lambda>tok bcl. if labels node = [] \<and> unkScore (opt d) > kNegativeInfinity
      then add_word d prev ptr lexMax tok n am sc (unk d) (unkScore (opt d)) bcl else Inr bcl)"
  let ?thr = "beamThreshold (opt d)" and ?E = "lm_throws (lm d)"
  let ?q = "\<lambda>l. if isLmToken d then lm_score (lm d) (lmState prev) n l else Inr ((0, 0), l)"
  have child: "P (new_state x ls (lex prev @ [n]) (Some ptr) n (-1) False y z)"
    if "criterion (opt d) \<noteq> CTC \<or> prevBlank prev \<or> n \<noteq> token prev" for x ls y z
    by (rule P) (use at n that prev(1) in \<open>auto simp: new_state_def lex_edge_def lex_move_def lex_state_def rules_of_def\<close>)
  have finish: "P (new_state x ls [] (Some ptr) n w False y z)"
    if "w \<in> set (labels node) \<and> \<not> (lex prev = [] \<and> token prev = n) \<or> labels node = [] \<and> w = unk d \<and> unkScore (opt d) > NInf" for x ls w y z
    by (rule P) (use at n that in \<open>auto simp: new_state_def lex_edge_def lex_move_def rules_of_def\<close>)
  have e: "adds ?thr P ?E (enter tok)" for tok
  proof (cases "(criterion (opt d) \<noteq> CTC \<or> prevBlank prev \<or> n \<noteq> token prev) \<and> children node \<noteq> []")
    case True
    then show ?thesis unfolding enter_def
      by (cases "if isLmToken d then tok else (lmState prev, maxScore node - lexMax)") (auto intro!: adds_add_state child)
  next
    case False
    then have "enter tok = Inr" unfolding enter_def by (simp only: if_False)
    then show ?thesis using adds_skip by metis
  qed
  have k: "adds ?thr P ?E (known tok)" for tok
    unfolding known_def
  proof (rule adds_rfold)
    fix w assume w: "w \<in> set (labels node)"
    show "adds ?thr P ?E (\<lambda>bcl. if lex prev = [] \<and> token prev = n then Inr bcl
        else add_word d prev ptr lexMax tok n am sc w (wordScore (opt d)) bcl)"
    proof (cases "lex prev = [] \<and> token prev = n")
      case True
      then show ?thesis using adds_skip by simp
    next
      case False
      then have "adds ?thr P ?E (add_word d prev ptr lexMax tok n am sc w (wordScore (opt d)))" using w by (intro add_word_adds finish) blast
      then show ?thesis unfolding if_not_P [OF False] .
    qed
  qed
  have u: "adds ?thr P ?E (unknown tok)" for tok
  proof (cases "labels node = [] \<and> unkScore (opt d) > kNegativeInfinity")
    case True
    then have "adds ?thr P ?E (add_word d prev ptr lexMax tok n am sc (unk d) (unkScore (opt d)))"
      by (intro add_word_adds finish) (auto simp: kNegativeInfinity_def)
    then show ?thesis using True unfolding unknown_def by (simp only: if_True simp_thms)
  next
    case False
    then have "unknown tok = Inr" unfolding unknown_def by (simp only: if_False)
    then show ?thesis using adds_skip by metis
  qed
  have all: "adds ?thr P ?E (\<lambda>bcl. rbind (rbind (enter tok bcl) (known tok)) (unknown tok))" for tok
    by (rule adds_comp [OF adds_comp [OF e k] u])
  have "adds ?thr P ?E (\<lambda>bcl. rbind (?q (snd bcl)) (\<lambda>(tok, l). rbind (rbind (enter tok (fst bcl, l)) (known tok)) (unknown tok)))"
    by (rule adds_query [where G = "\<lambda>tok bcl. rbind (rbind (enter tok bcl) (known tok)) (unknown tok)", OF _ all])
      (auto intro: lm_throwsI split: if_splits)
  moreover have "try_child d emissions N t prev prevNode ptr n =
      (\<lambda>bcl. rbind (?q (snd bcl)) (\<lambda>(tok, l). rbind (rbind (enter tok (fst bcl, l)) (known tok)) (unknown tok)))"
    by (intro ext) (simp only: try_child_def Some option.case am rbind_simps Let_def enter_def known_def unknown_def sc_def lexMax_def)
  ultimately show ?thesis by simp
qed

lemma lx_propose_adds:
  assumes c: "lx_config N d" and t: "0 \<le> t" "(t + 1) * N \<le> int (length emissions)" and ns: "set ns \<subseteq> {0..N - 1}"
    and prev: "lex_state (rules_of d) N prev"
    and P: "\<And>s. parent s = Some ptr \<Longrightarrow> edge_of fin d N prev s \<Longrightarrow> P s"
  shows "adds (beamThreshold (opt d)) P (lm_throws (lm d)) (propose d emissions N t ns prev ptr)"
proof -
  let ?thr = "beamThreshold (opt d)" and ?E = "lm_throws (lm d)"
  obtain prevNode where node: "node_at (root (lexicon d)) (lex prev) = Some prevNode" using prev by (auto simp: lex_state_def rules_of_def)
  have tok: "0 \<le> token prev" "token prev < N" using prev by (auto simp: lex_state_def)
  have stay: "P (new_state x ls (lex prev) (Some ptr) n (-1) False y z)"
    if "0 \<le> n" "n < N" "n = (if lex prev = [] then sil d else token prev)" for x ls n y z
    by (rule P) (use that in \<open>auto simp: new_state_def lex_edge_def lex_move_def rules_of_def\<close>)
  have skip: "P (new_state x ls (lex prev) (Some ptr) (blank d) (-1) True y z)"
    if "0 \<le> blank d" "blank d < N" "criterion (opt d) = CTC" for x ls y z
    by (rule P) (use that in \<open>auto simp: new_state_def lex_edge_def lex_move_def rules_of_def\<close>)
  have ch: "adds ?thr P ?E (rfold (try_child d emissions N t prev prevNode ptr) ns)"
  proof (rule adds_rfold)
    fix n assume "n \<in> set ns"
    then have "0 \<le> n" "n < N" using ns by auto
    then show "adds ?thr P ?E (try_child d emissions N t prev prevNode ptr n)"
      by (rule try_child_adds [OF c t _ _ prev node]) (fact P)
  qed
  have same: "adds ?thr P ?E (try_same d emissions N t prev ptr)"
  proof -
    let ?n = "if lex prev = [] then sil d else token prev"
    have n: "0 \<le> ?n" "?n < N" using tok c by (auto simp: lx_config_def)
    obtain am where am: "am_score d emissions N t prev ?n = Inr am" using am_score_ok [OF c t tok n] by blast
    let ?f = "\<lambda>bcl. Inr (add_state d (new_state (sil_score d prev ?n am) (lmState prev) (lex prev) (Some ptr) ?n (-1) False
        (amScore prev + am) (lmScore prev)) bcl)"
    have eq: "try_same d emissions N t prev ptr = (\<lambda>bcl. if criterion (opt d) \<noteq> CTC \<or> \<not> prevBlank prev \<or> lex prev = [] then ?f bcl else Inr bcl)"
      by (intro ext) (simp only: try_same_def Let_def am rbind_simps)
    show ?thesis unfolding eq by (intro adds_if adds_skip adds_add_state stay [OF n refl])
  qed
  have blank: "adds ?thr P ?E (try_blank d emissions N t prev ptr)"
  proof (cases "criterion (opt d) = CTC")
    case True
    then have b: "0 \<le> blank d" "blank d < N" using c by (auto simp: lx_config_def)
    have "try_blank d emissions N t prev ptr = (\<lambda>bcl. Inr (add_state d (new_state (score prev + emissions ! nat (t * N + blank d))
        (lmState prev) (lex prev) (Some ptr) (blank d) (-1) True (amScore prev + emissions ! nat (t * N + blank d)) (lmScore prev)) bcl))"
      using True cell_row [OF t(1) b t(2)] by (simp add: try_blank_def fun_eq_iff)
    then show ?thesis using adds_add_state skip [OF b True] by metis
  next
    case False
    then have "try_blank d emissions N t prev ptr = Inr" by (simp add: try_blank_def fun_eq_iff)
    then show ?thesis using adds_skip by simp
  qed
  have "propose d emissions N t ns prev ptr = (\<lambda>bcl. rbind (rfold (try_child d emissions N t prev prevNode ptr) ns bcl)
      (\<lambda>bcl1. rbind (try_same d emissions N t prev ptr bcl1) (try_blank d emissions N t prev ptr)))"
    using node by (simp add: propose_def getRoot_def fun_eq_iff)
  then show ?thesis using adds_comp [OF ch adds_comp [OF same blank]] by simp
qed

subsection \<open>Frames, chunks and the end of the stream\<close>

definition lx_inv :: "bool \<Rightarrow> int \<Rightarrow> int \<Rightarrow> 'l lexiconDecoder \<Rightarrow> bool" where
  "lx_inv fin N f d \<longleftrightarrow>
     lx_config N d \<and> 0 < nextBuf d \<and> beam_ok (hyp d) f (nextBuf d) \<and>
     all_states (lex_state (rules_of d) N) (hyp d) f \<and> all_links (edge_of fin d N) (hyp d) f"

lemma lx_inv_fin: "lx_inv fin N f d \<Longrightarrow> lx_inv True N f d"
  unfolding lx_inv_def all_links_def linked_def lex_edge_def by blast

lemma rules_of_update [simp]:
  "rules_of (d\<lparr>hyp := h\<rparr>) = rules_of d" "rules_of (d\<lparr>nDecodedFrames := x\<rparr>) = rules_of d" "rules_of (d\<lparr>nPrunedFrames := x\<rparr>) = rules_of d"
  "rules_of (d\<lparr>nextBuf := b\<rparr>) = rules_of d" "rules_of (d\<lparr>lmMem := l\<rparr>) = rules_of d"
  by (simp_all add: rules_of_def)

definition new_frame :: "'l lexiconDecoder \<Rightarrow> int \<Rightarrow> lexiconDecoderState list \<Rightarrow> 'l \<Rightarrow> 'l lexiconDecoder" where
  "new_frame d f outs l = d\<lparr>hyp := put f (nextBuf d, outs) (hyp d), nextBuf := Suc (nextBuf d), lmMem := l\<rparr>"

lemma lx_new_frame_sel [simp]:
  "opt (new_frame d f outs l) = opt d" "lm (new_frame d f outs l) = lm d" "sil (new_frame d f outs l) = sil d"
  "transitions (new_frame d f outs l) = transitions d" "nDecodedFrames (new_frame d f outs l) = nDecodedFrames d"
  "nPrunedFrames (new_frame d f outs l) = nPrunedFrames d" "hyp (new_frame d f outs l) = put f (nextBuf d, outs) (hyp d)"
  "nextBuf (new_frame d f outs l) = Suc (nextBuf d)" "blank (new_frame d f outs l) = blank d"
  "lexicon (new_frame d f outs l) = lexicon d" "unk (new_frame d f outs l) = unk d" "rules_of (new_frame d f outs l) = rules_of d"
  by (simp_all add: new_frame_def)

lemma store_frame:
  assumes inv: "lx_inv fin N f d" and b: "0 \<le> b" "beamThreshold (opt d) = Fin b"
    and F: "adds (Fin b) (linked (hyp d) f Q) (lm_throws (lm d)) F" "F (candidatesReset, lmMem d) = Inr ((best, cs), l)"
    and Q: "\<forall>r s. Q r s \<longrightarrow> edge_of fin d N r s"
  shows "\<exists>outs. candidatesStore (compareNoScoreStates (nodeAddr d)) cs (beamSize (opt d)) (best - Fin b) (logAdd (opt d)) r = Inr outs \<and>
    stored (hyp d) f Q (logAdd (opt d)) outs \<and> (\<forall>l. lx_inv fin N (f + 1) (new_frame d (f + 1) outs l))"
proof -
  have ok: "beam_ok (hyp d) f (nextBuf d)" and nb: "0 < nextBuf d" and k: "0 \<le> beamSize (opt d)"
    using inv by (auto simp: lx_inv_def lx_config_def)
  obtain outs where outs: "candidatesStore (compareNoScoreStates (nodeAddr d)) cs (beamSize (opt d)) (best - Fin b) (logAdd (opt d)) r = Inr outs"
      "stored (hyp d) f Q (logAdd (opt d)) outs"
      "beam_ok (put (f + 1) (nextBuf d, outs) (hyp d)) (f + 1) (Suc (nextBuf d))"
    using lxo.next_frame [OF ok nb F b(1) k, of "nodeAddr d" "logAdd (opt d)" r] by blast
  have "all_states (lex_state (rules_of d) N) (put (f + 1) (nextBuf d, outs) (hyp d)) (f + 1) \<and>
      all_links (edge_of fin d N) (put (f + 1) (nextBuf d, outs) (hyp d)) (f + 1)"
    by (rule lx.links_next [OF beam_okD(2) [OF ok] _ _ stored_mono [OF outs(2) Q]]) (use inv in \<open>auto simp: lx_inv_def\<close>)
  then show ?thesis using outs inv by (auto simp: lx_inv_def lx_config_def)
qed

lemma lx_decode_frame_ok:
  assumes inv: "lx_inv fin N f d" and f: "f = startFrame + t" and t: "0 \<le> t" "(t + 1) * N \<le> int (length emissions)"
  shows "case decode_frame emissions N startFrame t d of
      Inl e \<Rightarrow> lm_throws (lm d) e
    | Inr d' \<Rightarrow> \<exists>outs l. d' = new_frame d (f + 1) outs l \<and> lx_inv fin N (f + 1) d'"
proof -
  obtain b where b: "0 \<le> b" "beamThreshold (opt d) = Fin b" using inv by (auto simp: lx_inv_def lx_config_def)
  have ok: "beam_ok (hyp d) f (nextBuf d)" and c: "lx_config N d" using inv by (auto simp: lx_inv_def)
  have sizes: "0 \<le> beamSizeToken (opt d)" "0 \<le> N" using c by (auto simp: lx_config_def)
  obtain idx where idx: "token_order emissions t N (beamSizeToken (opt d)) = Inr idx" "set idx = {0..N - 1}"
    using token_order_ok [OF sizes t(2)] by blast
  let ?ns = "take (nat (min (beamSizeToken (opt d)) N)) idx"
  have ns: "set ?ns \<subseteq> {0..N - 1}" using idx(2) by (auto dest: in_set_takeD)
  define F where "F = rfold (\<lambda>(i, prevHyp). propose d emissions N t ?ns prevHyp (bid (hyp d) f, i)) (enumerate 0 (elems (hyp d) f))"
  have adds: "adds (Fin b) (linked (hyp d) f (edge_of fin d N)) (lm_throws (lm d)) F"
    unfolding F_def b(2) [symmetric]
  proof (rule adds_enumerate)
    fix i assume i: "i < length (elems (hyp d) f)"
    have "f \<in> {0..f}" using beam_okD(2) [OF ok] by simp
    then have "lex_state (rules_of d) N (elems (hyp d) f ! i)" using inv i nth_mem unfolding lx_inv_def all_states_def by blast
    then show "adds (beamThreshold (opt d)) (linked (hyp d) f (edge_of fin d N)) (lm_throws (lm d))
        (propose d emissions N t ?ns (elems (hyp d) f ! i) (bid (hyp d) f, i))"
      by (rule lx_propose_adds [OF c t ns]) (use i in \<open>auto simp: linked_def\<close>)
  qed
  have eq: "decode_frame emissions N startFrame t d =
      rbind (F (candidatesReset, lmMem d)) (\<lambda>((best, cs), l).
      rbind (candidatesStore (compareNoScoreStates (nodeAddr d)) cs (beamSize (opt d)) (best - Fin b) (logAdd (opt d)) False) (\<lambda>outs.
      rbind (updateLMCache (lm d) outs l) (\<lambda>l'. Inr (new_frame d (f + 1) outs l'))))"
    using idx(1) touch_ok [OF ok] b(2) f
    by (simp add: decode_frame_def F_def Let_def new_frame_def elems_def bid_def split_beta)
  show ?thesis
  proof (cases "F (candidatesReset, lmMem d)")
    case (Inl e)
    then show ?thesis using adds_throw [OF adds Inl] eq by simp
  next
    case (Inr r)
    obtain best cs l where r: "F (candidatesReset, lmMem d) = Inr ((best, cs), l)" using Inr by (cases r) auto
    obtain outs where outs: "candidatesStore (compareNoScoreStates (nodeAddr d)) cs (beamSize (opt d)) (best - Fin b) (logAdd (opt d)) False = Inr outs"
        "\<forall>l. lx_inv fin N (f + 1) (new_frame d (f + 1) outs l)"
      using store_frame [OF inv b adds r] by blast
    show ?thesis
    proof (cases "updateLMCache (lm d) outs l")
      case (Inl e)
      then have "lm_throws (lm d) e" unfolding updateLMCache_def by (rule lm_throwsI)
      then show ?thesis using Inl r outs(1) eq by simp
    qed (use r outs eq in auto)
  qed
qed

definition same_decoder :: "'l lexiconDecoder \<Rightarrow> 'l lexiconDecoder \<Rightarrow> bool" where
  "same_decoder d d' \<longleftrightarrow>
     opt d' = opt d \<and> lm d' = lm d \<and> lexicon d' = lexicon d \<and> rules_of d' = rules_of d \<and>
     nDecodedFrames d' = nDecodedFrames d \<and> nPrunedFrames d' = nPrunedFrames d \<and>
     elems (hyp d') 0 = elems (hyp d) 0"

lemma lx_decode_loop:
  assumes inv: "lx_inv fin N startFrame d" and em: "int n * N \<le> int (length emissions)"
  shows "case rfold (decode_frame emissions N startFrame) [0..int n - 1] d of
      Inl e \<Rightarrow> lm_throws (lm d) e | Inr d' \<Rightarrow> lx_inv fin N (startFrame + int n) d' \<and> same_decoder d d'"
proof (rule rfold_upto)
  show "lx_inv fin N (startFrame + int 0) d \<and> same_decoder d d" using inv by (simp add: same_decoder_def)
  fix k d' assume k: "k < n" and st: "lx_inv fin N (startFrame + int k) d' \<and> same_decoder d d'"
  have N: "0 \<le> N" using inv by (simp add: lx_inv_def lx_config_def)
  have f: "0 \<le> startFrame" using inv beam_okD(2) by (auto simp: lx_inv_def)
  have "(int k + 1) * N \<le> int n * N" using k N by (intro mult_right_mono) auto
  then have row: "(int k + 1) * N \<le> int (length emissions)" using em by linarith
  have succ: "startFrame + int (Suc k) = startFrame + int k + 1" by simp
  show "case decode_frame emissions N startFrame (int k) d' of
      Inl e \<Rightarrow> lm_throws (lm d) e | Inr d'' \<Rightarrow> lx_inv fin N (startFrame + int (Suc k)) d'' \<and> same_decoder d d''"
    unfolding succ using lx_decode_frame_ok [OF conjunct1 [OF st] refl _ row] st f
    by (auto simp: same_decoder_def elems_put split: sum.splits)
qed

lemma lx_inv_extend: "lx_inv fin N f d \<Longrightarrow> lx_inv fin N f (d\<lparr>hyp := extend_hyp n (hyp d)\<rparr>)"
proof -
  assume inv: "lx_inv fin N f d"
  then have ok: "beam_ok (hyp d) f (nextBuf d)" by (simp add: lx_inv_def)
  show ?thesis
    using inv beam_ok_extend [OF ok] lx.links_extend [OF beam_okD(1) [OF ok]] by (simp add: lx_inv_def lx_config_def)
qed

lemma lx_decodeStep_ok:
  assumes inv: "lx_inv fin N (nDecodedFrames d - nPrunedFrames d) d" and T: "0 \<le> T" "T * N \<le> int (length emissions)"
  shows "case decodeStep emissions T N d of
      Inl e \<Rightarrow> lm_throws (lm d) e
    | Inr d' \<Rightarrow> lx_inv fin N (nDecodedFrames d' - nPrunedFrames d') d' \<and>
        nDecodedFrames d' - nPrunedFrames d' = nDecodedFrames d - nPrunedFrames d + T \<and>
        opt d' = opt d \<and> lm d' = lm d \<and> lexicon d' = lexicon d \<and> rules_of d' = rules_of d \<and> elems (hyp d') 0 = elems (hyp d) 0"
proof -
  let ?f = "nDecodedFrames d - nPrunedFrames d"
  let ?d1 = "d\<lparr>hyp := extend_hyp (nat (?f + T + 2)) (hyp d)\<rparr>"
  have N: "\<not> N < 0" and ok: "beam_ok (hyp d) ?f (nextBuf d)" using inv by (auto simp: lx_inv_def lx_config_def)
  have "int (nat T) * N \<le> int (length emissions)" using T by simp
  note loop = lx_decode_loop [OF lx_inv_extend [OF inv, of "nat (?f + T + 2)"] this]
  have eq: "decodeStep emissions T N d = rbind (rfold (decode_frame emissions N ?f) [0..int (nat T) - 1] ?d1) (\<lambda>d2.
        Inr (d2\<lparr>nDecodedFrames := nDecodedFrames d2 + T\<rparr>))"
    using N T(1) by (simp add: decodeStep_def Let_def)
  show ?thesis
  proof (cases "rfold (decode_frame emissions N ?f) [0..int (nat T) - 1] ?d1")
    case (Inl e)
    then show ?thesis using loop eq by simp
  next
    case (Inr d2)
    then have "lx_inv fin N (?f + T) d2" "same_decoder ?d1 d2" using loop T(1) by auto
    moreover have "lx_inv fin N (nDecodedFrames d + T - nPrunedFrames d) (d2\<lparr>nDecodedFrames := x\<rparr>)" for x
      using \<open>lx_inv fin N (?f + T) d2\<close> by (simp add: lx_inv_def lx_config_def algebra_simps)
    ultimately show ?thesis using eq Inr vec_extend [OF beam_okD(1) [OF ok]] by (simp add: same_decoder_def elems_def)
  qed
qed

lemma lx_finish_adds:
  assumes "lx_config N d" and P: "\<And>s. parent s = Some ptr \<Longrightarrow> final_edge (rules_of d) N prev s \<Longrightarrow> P s"
  shows "adds (beamThreshold (opt d)) P (lm_throws (lm d)) (finish_one d nice prev ptr)"
proof -
  let ?G = "\<lambda>(ls, x) bcl. Inr (add_state d (new_state (score prev + lmWeight (opt d) * x) ls (lex prev) (Some ptr) (sil d) (-1) False
        (amScore prev) (lmScore prev + x)) bcl)"
  have "adds (beamThreshold (opt d)) P (lm_throws (lm d)) (?G r)" for r
  proof (cases r)
    case (Pair ls x)
    have "P (new_state (score prev + lmWeight (opt d) * x) ls (lex prev) (Some ptr) (sil d) (-1) False (amScore prev) (lmScore prev + x))"
      by (rule P) (use assms(1) in \<open>auto simp: new_state_def final_edge_def end_move_def lx_config_def rules_of_def\<close>)
    then show ?thesis unfolding Pair case_prod_conv by (rule adds_add_state)
  qed
  then have "adds (beamThreshold (opt d)) P (lm_throws (lm d))
      (\<lambda>bcl. rbind (lm_finish (lm d) (lmState prev) (snd bcl)) (\<lambda>(r, l). ?G r (fst bcl, l)))"
    by (intro adds_query) (auto intro: lm_throwsI)
  note a = adds_if [OF this adds_skip, of "\<not> nice \<or> lex prev = []"]
  have "finish_one d nice prev ptr = (\<lambda>bcl. if \<not> nice \<or> lex prev = []
      then rbind (lm_finish (lm d) (lmState prev) (snd bcl)) (\<lambda>(r, l). ?G r (fst bcl, l)) else Inr bcl)"
    by (intro ext) (auto simp: finish_one_def rbind_def split: sum.splits prod.splits)
  then show ?thesis using a by simp
qed

lemma lx_decodeEnd_ok:
  assumes inv: "lx_inv fin N f d" and f: "f = nDecodedFrames d - nPrunedFrames d"
  shows "case decodeEnd d of
      Inl e \<Rightarrow> lm_throws (lm d) e
    | Inr d' \<Rightarrow> lx_inv True N (f + 1) d' \<and>
        (\<exists>outs. hyp d' = put (f + 1) (nextBuf d, outs) (hyp d) \<and> (\<forall>s\<in>set outs. linked (hyp d) f (final_edge (rules_of d) N) s)) \<and> nDecodedFrames d' - nPrunedFrames d' = f + 1 \<and>
        opt d' = opt d \<and> lm d' = lm d \<and> lexicon d' = lexicon d \<and> rules_of d' = rules_of d \<and> elems (hyp d') 0 = elems (hyp d) 0"
proof -
  obtain b where b: "0 \<le> b" "beamThreshold (opt d) = Fin b" using inv by (auto simp: lx_inv_def lx_config_def)
  have ok: "beam_ok (hyp d) f (nextBuf d)" and c: "lx_config N d" using inv by (auto simp: lx_inv_def)
  let ?nice = "list_ex (\<lambda>s. lex s = []) (elems (hyp d) f)"
  define F where "F = rfold (\<lambda>(i, prevHyp). finish_one d ?nice prevHyp (bid (hyp d) f, i)) (enumerate 0 (elems (hyp d) f))"
  have adds: "adds (Fin b) (linked (hyp d) f (final_edge (rules_of d) N)) (lm_throws (lm d)) F"
    unfolding F_def b(2) [symmetric] by (intro adds_enumerate lx_finish_adds [OF c]) (auto simp: linked_def)
  have eq: "decodeEnd d =
      rbind (F (candidatesReset, lmMem d)) (\<lambda>((best, cs), l).
      rbind (candidatesStore (compareNoScoreStates (nodeAddr d)) cs (beamSize (opt d)) (best - Fin b) (logAdd (opt d)) True) (\<lambda>outs.
        Inr ((new_frame d (f + 1) outs l)\<lparr>nDecodedFrames := nDecodedFrames d + 1\<rparr>)))"
    using touch_ok [OF ok] b(2) f
    by (simp add: decodeEnd_def F_def Let_def new_frame_def elems_def bid_def split_beta)
  show ?thesis
  proof (cases "F (candidatesReset, lmMem d)")
    case (Inl e)
    then show ?thesis using adds_throw [OF adds Inl] eq by simp
  next
    case (Inr r)
    obtain best cs l where r: "F (candidatesReset, lmMem d) = Inr ((best, cs), l)" using Inr by (cases r) auto
    obtain outs where outs: "candidatesStore (compareNoScoreStates (nodeAddr d)) cs (beamSize (opt d)) (best - Fin b) (logAdd (opt d)) True = Inr outs"
        "stored (hyp d) f (final_edge (rules_of d) N) (logAdd (opt d)) outs" "\<forall>l. lx_inv True N (f + 1) (new_frame d (f + 1) outs l)"
      using store_frame [OF lx_inv_fin [OF inv] b adds r] final_edge_lex_edge by blast
    have "\<forall>s\<in>set outs. linked (hyp d) f (final_edge (rules_of d) N) s" using lxe.stored_linked [OF outs(2)] by blast
    moreover have "lx_inv True N (f + 1) ((new_frame d (f + 1) outs l)\<lparr>nDecodedFrames := nDecodedFrames d + 1\<rparr>)"
      using outs(3) by (simp add: lx_inv_def lx_config_def)
    ultimately show ?thesis using r outs(1) eq f beam_okD(2) [OF ok] by (auto simp: elems_put)
  qed
qed

lemma lx_decodeBegin_ok:
  assumes "lx_config N d" "0 < nextBuf d"
  shows "lx_inv fin N 0 (decodeBegin d)" "nDecodedFrames (decodeBegin d) = 0" "nPrunedFrames (decodeBegin d) = 0"
    and "elems (hyp (decodeBegin d)) 0 = [new_state 0 (fst (lm_start (lm d) False (lmMem d))) [] None (sil d) (-1) False 0 0]"
    and "opt (decodeBegin d) = opt d" "lexicon (decodeBegin d) = lexicon d" "rules_of (decodeBegin d) = rules_of d"
  using assms
  by (auto simp: decodeBegin_def lx_inv_def lx_config_def beam_ok_def contig_def bid_def elems_def vec_def new_state_def Let_def
      all_states_def all_links_def lex_state_def rules_of_def split_beta)

subsection \<open>Back-tracking and pruning\<close>

lemma lx_isComplete_total:
  "beam_ok h f nb \<Longrightarrow> 0 \<le> k \<Longrightarrow> k \<le> f \<Longrightarrow> s \<in> set (elems h k) \<Longrightarrow> \<exists>b. isComplete h s = Inr b"
  using parent_of_elem [of h f nb k s] by (auto simp: isComplete_def split: if_splits)

lemma lx_best_ancestor_ok:
  assumes "lx_inv fin N f d"
  shows "\<exists>r. findBestAncestor (hyp d) (isComplete (hyp d)) (elems (hyp d) f) lookBack = Inr r \<and>
    (if elems (hyp d) f = [] then r = (None, lookBack) else ancestor_at (hyp d) f r)"
proof (rule findBestAncestor_ok)
  show ok: "beam_ok (hyp d) f (nextBuf d)" using assms by (simp add: lx_inv_def)
  show "\<exists>b. isComplete (hyp d) s = Inr b" if "0 \<le> k" "k \<le> f" "s \<in> set (elems (hyp d) k)" for k s
    using lx_isComplete_total [OF ok that] .
qed

lemma lx_prune_ok:
  assumes inv: "lx_inv fin N f d" and f: "f = nDecodedFrames d - nPrunedFrames d"
  shows "\<exists>d'. prune lookBack d = Inr d' \<and> lx_inv fin N (nDecodedFrames d' - nPrunedFrames d') d'"
proof -
  have ok: "beam_ok (hyp d) f (nextBuf d)" using inv by (simp add: lx_inv_def)
  have inv': "lx_inv fin N (nDecodedFrames d - nPrunedFrames d) d" using inv f by simp
  obtain node n where r: "findBestAncestor (hyp d) (isComplete (hyp d)) (elems (hyp d) f) lookBack = Inr (node, n)"
      "if elems (hyp d) f = [] then (node, n) = (None, lookBack) else ancestor_at (hyp d) f (node, n)"
    using lx_best_ancestor_ok [OF inv, of lookBack] by (metis prod.exhaust)
  have eq: "prune lookBack d =
      (if f - lookBack < 1 \<or> node = None \<or> f - n < 1 then Inr d
       else rbind (pruneAndNormalize (f - n) n (hyp d)) (\<lambda>h. Inr (d\<lparr>hyp := h, nPrunedFrames := nDecodedFrames d - n\<rparr>)))"
    using r(1) find_frame_ok [OF ok] f by (simp add: prune_def Let_def)
  show ?thesis
  proof (cases "f - lookBack < 1 \<or> node = None \<or> f - n < 1")
    case True
    then show ?thesis using eq inv' by auto
  next
    case False
    then have n: "ancestor_at (hyp d) f (node, n)" "elems (hyp d) f \<noteq> []" using r(2) by (auto split: if_splits)
    then obtain x xs where x: "elems (hyp d) f = x # xs" by (cases "elems (hyp d) f") auto
    have n0: "0 \<le> n" using n(1) by (simp add: ancestor_at_def)
    have e: "f = (f - n) + n" by simp
    have s: "1 \<le> f - n" using False by simp
    obtain h' where h': "pruneAndNormalize (f - n) n (hyp d) = Inr h'" "beam_ok h' n (nextBuf d)"
        "all_states (lex_state (rules_of d) N) h' n" "all_links (edge_of fin d N) h' n"
      using lx.links_prune [of "hyp d" "f - n" n "nextBuf d" x xs "rules_of d" N fin]
        ok s n0 x inv unfolding lx_inv_def by auto
    then have "lx_inv fin N n (d\<lparr>hyp := h', nPrunedFrames := nDecodedFrames d - n\<rparr>)"
      using inv by (simp add: lx_inv_def lx_config_def)
    then show ?thesis using eq False h'(1) by simp
  qed
qed

inductive lx_reach :: "int \<Rightarrow> 'l lexiconDecoder \<Rightarrow> bool" for N where
  reach_begin: "lx_config N d \<Longrightarrow> 0 < nextBuf d \<Longrightarrow> lx_reach N (decodeBegin d)"
| reach_step: "lx_reach N d \<Longrightarrow> 0 \<le> T \<Longrightarrow> T * N \<le> int (length emissions) \<Longrightarrow> decodeStep emissions T N d = Inr d' \<Longrightarrow> lx_reach N d'"
| reach_end: "lx_reach N d \<Longrightarrow> decodeEnd d = Inr d' \<Longrightarrow> lx_reach N d'"
| reach_prune: "lx_reach N d \<Longrightarrow> prune lookBack d = Inr d' \<Longrightarrow> lx_reach N d'"

lemma lx_reach_inv: "lx_reach N d \<Longrightarrow> lx_inv True N (nDecodedFrames d - nPrunedFrames d) d"
proof (induction rule: lx_reach.induct)
  case (reach_begin d)
  then show ?case using lx_decodeBegin_ok [OF reach_begin] by simp
next
  case (reach_step d T emissions d')
  then show ?case using lx_decodeStep_ok [OF reach_step.IH reach_step.hyps(2,3)] by auto
next
  case (reach_end d d')
  then show ?case using lx_decodeEnd_ok [OF reach_end.IH refl] by auto
next
  case (reach_prune d lookBack d')
  then show ?case using lx_prune_ok [OF reach_prune.IH refl, of lookBack] by auto
qed

text \<open>
  C10. The lexicon decoder is memory safe under online use: in every state that \<^verbatim>\<open>decodeBegin\<close>, chunks of emissions,
  \<^verbatim>\<open>prune\<close> and \<^verbatim>\<open>decodeEnd\<close> can reach, no call follows a dangling parent or trie pointer, indexes out of range, uses a
  missing frame or loops for ever: \<^verbatim>\<open>prune\<close> and the queries return for every look-back, and the only exceptions of
  \<^verbatim>\<open>decodeStep\<close> and \<^verbatim>\<open>decodeEnd\<close> are those the language model throws.
\<close>

theorem lexicon_safe:
  assumes "lx_reach N d"
  shows "(\<forall>emissions T e. 0 \<le> T \<and> T * N \<le> int (length emissions) \<and> decodeStep emissions T N d = Inl e \<longrightarrow> lm_throws (lm d) e) \<and>
    (\<forall>e. decodeEnd d = Inl e \<longrightarrow> lm_throws (lm d) e) \<and>
    (\<forall>lookBack. \<exists>d'. prune lookBack d = Inr d') \<and> (\<forall>lookBack. \<exists>r. getBestHypothesis lookBack d = Inr r) \<and>
    (\<exists>rs. getAllFinalHypothesis d = Inr rs \<and> (\<forall>r\<in>set rs. length (tokens r) = nat (nDecodedFramesInBuffer d))) \<and>
    (\<exists>n. nHypothesis d = Inr n)"
proof -
  let ?f = "nDecodedFrames d - nPrunedFrames d"
  note inv = lx_reach_inv [OF assms]
  then have ok: "beam_ok (hyp d) ?f (nextBuf d)" by (simp add: lx_inv_def)
  have best: "\<exists>r. getBestHypothesis lookBack d = Inr r" for lookBack
  proof -
    obtain node n where r: "findBestAncestor (hyp d) (isComplete (hyp d)) (elems (hyp d) ?f) lookBack = Inr (node, n)"
        "if elems (hyp d) ?f = [] then (node, n) = (None, lookBack) else ancestor_at (hyp d) ?f (node, n)"
      using lx_best_ancestor_ok [OF inv, of lookBack] by (metis prod.exhaust)
    have "\<exists>r. getHypothesis (hyp d) getWord node (?f - n) = Inr r"
      using r(2) getHypothesis_ancestor [OF ok, of node n getWord] by (auto simp: getHypothesis_def split: if_splits)
    then show ?thesis using r(1) find_frame_ok [OF ok] by (simp add: getBestHypothesis_def)
  qed
  have "\<exists>rs. getAllFinalHypothesis d = Inr rs \<and> (\<forall>r\<in>set rs. length (tokens r) = nat (nDecodedFramesInBuffer d))"
    using getAllHypothesis_ok [OF ok, of getWord] find_frame_ok [OF ok]
    by (auto simp: getAllFinalHypothesis_def nDecodedFramesInBuffer_def Let_def)
  moreover have "\<exists>n. nHypothesis d = Inr n" using find_frame_ok [OF ok] by (simp add: nHypothesis_def)
  moreover have "lm_throws (lm d) e" if "0 \<le> T" "T * N \<le> int (length emissions)" "decodeStep emissions T N d = Inl e" for emissions T e
    using lx_decodeStep_ok [OF inv that(1,2)] that(3) by simp
  moreover have "lm_throws (lm d) e" if "decodeEnd d = Inl e" for e
    using lx_decodeEnd_ok [OF inv refl] that by simp
  moreover have "\<exists>d'. prune lookBack d = Inr d'" for lookBack using lx_prune_ok [OF inv refl] by blast
  ultimately show ?thesis using best by blast
qed

text \<open>A lexicon with the one word 7, spelt with the letter 1 twice.\<close>

definition double_letter :: "lmHeap lexiconDecoder" where
  "double_letter =
     \<lparr>opt = \<lparr>beamSize = 1, beamSizeToken = 1, beamThreshold = Fin 100, lmWeight = Fin 0, wordScore = Fin 1, unkScore = NInf,
             silScore = Fin 0, logAdd = False, criterion = CTC\<rparr>,
      lexicon = insert_all [([1, 1], 7, Fin 0)] (new_Trie 3 0), nodeAddr = length, lm = zeroLM, sil = 0, blank = 2, unk = 9,
      transitions = [], isLmToken = False, hyp = [], nDecodedFrames = 0, nPrunedFrames = 0, nextBuf = 1, lmMem = []\<rparr>"

theorem lexicon_safe_witness: "\<exists>d'. prune 0 (decodeBegin double_letter) = Inr d'"
proof -
  have "lx_reach 3 (decodeBegin double_letter)"
    by (rule reach_begin) (simp_all add: lx_config_def double_letter_def)
  from lexicon_safe [OF this] show ?thesis by blast
qed

subsection \<open>The words of a result\<close>

text \<open>
  A run of the lexicon automaton over a token sequence: \<open>paths ! i\<close> is the node of the trie after token \<open>i\<close>.
\<close>

definition lexicon_run :: "'l lexiconDecoder \<Rightarrow> nat \<Rightarrow> int list \<Rightarrow> int list \<Rightarrow> int list list \<Rightarrow> bool" where
  "lexicon_run d n toks wds paths \<longleftrightarrow>
     length toks = n + 2 \<and> length wds = n + 2 \<and> length paths = n + 2 \<and> toks ! 0 = sil d \<and> wds ! 0 = -1 \<and> paths ! 0 = [] \<and>
     (\<forall>i<n. lex_move (rules_of d) (paths ! i) (toks ! i) (toks ! Suc i) (wds ! Suc i) (paths ! Suc i)) \<and>
     end_move (rules_of d) (paths ! n) (toks ! Suc n) (wds ! Suc n) (paths ! Suc n)"

lemma history_lexicon_run:
  assumes ok: "beam_ok (hyp d') (int n + 1) nb"
    and links: "\<forall>k<n. \<forall>s\<in>set (elems (hyp d') (int k + 1)). linked (hyp d') (int k) (edge_of False d N) s"
    and fin: "\<forall>s\<in>set (elems (hyp d') (int n + 1)). linked (hyp d') (int n) (final_edge (rules_of d) N) s"
    and start: "\<forall>s\<in>set (elems (hyp d') 0). lex s = [] \<and> word s = -1 \<and> token s = sil d"
    and ss: "history (hyp d') s ss" "length ss = n + 2" "\<forall>i\<le>Suc n. ss ! i \<in> set (elems (hyp d') (int i))"
  shows "lexicon_run d n (map token ss) (map getWord ss) (map lex ss)"
proof -
  have elem: "ss ! Suc i \<in> set (elems (hyp d') (int i + 1))" if "i \<le> n" for i
    using ss(3) [rule_format, of "Suc i"] that by (simp add: add.commute)
  have parent: "parent_of (hyp d') (ss ! Suc i) = Inr (Some (ss ! i))" if "i \<le> n" for i
    using history_links [OF ss(1)] that ss(2) by simp
  have edge: "edge_of False d N (ss ! i) (ss ! Suc i)" if i: "i < n" for i
    by (rule linked_parent [OF ok, of "int i"]) (use i elem parent links in auto)
  have "final_edge (rules_of d) N (ss ! n) (ss ! Suc n)"
    by (rule linked_parent [OF ok, of "int n"]) (use elem parent fin in auto)
  moreover have "lex (ss ! 0) = [] \<and> word (ss ! 0) = -1 \<and> token (ss ! 0) = sil d" using start ss(3) by auto
  ultimately show ?thesis
    using edge ss(2) by (simp add: lexicon_run_def getWord_def lex_edge_def final_edge_def)
qed

text \<open>The labelling of a CTC path: merge the repetitions, then drop the blanks.\<close>

definition ctc_labelling :: "int \<Rightarrow> int list \<Rightarrow> int list" where
  "ctc_labelling bl toks = filter (\<lambda>t. t \<noteq> bl) (remdups_adj toks)"

subsection \<open>A run that spells a double letter\<close>

abbreviation two_frames :: "dbl list" where
  "two_frames \<equiv> [Fin 0, Fin 5, Fin 0, Fin 0, Fin 5, Fin 0]"

definition dl_start :: "lmHeap lexiconDecoder" where
  "dl_start = double_letter\<lparr>hyp := [(0, 1, [new_state 0 0 [] None 0 (-1) False 0 0]), (1, 0, []), (2, 0, []), (3, 0, [])],
     nextBuf := 2, lmMem := [[]]\<rparr>"

definition dl_first :: "lmHeap lexiconDecoder" where
  "dl_first = dl_start\<lparr>hyp := [(0, 1, [new_state 0 0 [] None 0 (-1) False 0 0]),
     (1, 2, [new_state (Fin 5) 0 [1] (Some (1, 0)) 1 (-1) False (Fin 5) 0]), (2, 0, []), (3, 0, [])], nextBuf := 3\<rparr>"

definition dl_second :: "lmHeap lexiconDecoder" where
  "dl_second = dl_start\<lparr>hyp := [(0, 1, [new_state 0 0 [] None 0 (-1) False 0 0]),
     (1, 2, [new_state (Fin 5) 0 [1] (Some (1, 0)) 1 (-1) False (Fin 5) 0]),
     (2, 3, [new_state (Fin 11) 1 [] (Some (2, 0)) 1 7 False (Fin 10) 0]), (3, 0, [])], nextBuf := 4, lmMem := [[(7, 1)], []]\<rparr>"

lemmas lx_store_defs = candidatesReset_def candidatesAdd_def candidatesStore_def kNegativeInfinity_def
  compareNodeScore_def candidate_before_def compareNoScoreStates_def compare_def std_sort_def merged_score_def

lemma dl_lexicon: "insert_all [([1, 1], 7, Fin 0)] (new_Trie 3 0) =
    \<lparr>root = TrieNode [(1, TrieNode [(1, TrieNode [] 1 [7] [Fin 0] 0)] 1 [] [] 0)] 0 [] [] 0, maxChildren = 3\<rparr>"
  by (simp add: insert_all_def trie_insert_def new_Trie_def new_TrieNode_def push_label_def set_child_def kTrieMaxLabel_def Let_def)

lemma dl_begin: "(let d = decodeBegin double_letter in d\<lparr>hyp := extend_hyp 4 (hyp d)\<rparr>) = dl_start"
proof -
  have "[Suc 0..<4] = [1, 2, 3]" by (simp add: upt_rec)
  then show ?thesis
    by (simp add: dl_start_def double_letter_def decodeBegin_def zeroLM_def extend_hyp_def touch_def Let_def)
qed

lemmas dl_run_defs = token_order_def touch_def vec_def propose_def try_child_def try_same_def try_blank_def
  am_score_def sil_score_def add_word_def add_state_def cell_def lx_store_defs new_state_def child_def updateLMCache_def put_def
  zero_dbl_def upto.simps enumerate_eq_zip Let_def getRoot_def
  decode_frame_def dl_start_def double_letter_def dl_lexicon zeroLM_def

lemma dl_frame1: "decode_frame two_frames 3 0 0 dl_start = Inr dl_first"
  by (simp add: dl_run_defs dl_first_def)

lemma dl_frame2: "decode_frame two_frames 3 0 1 dl_first = Inr dl_second"
  by (simp add: dl_run_defs dl_first_def dl_second_def)

lemma dl_step: "decodeStep two_frames 2 3 (decodeBegin double_letter) = Inr (dl_second\<lparr>nDecodedFrames := 2\<rparr>)"
proof -
  let ?d = "decodeBegin double_letter"
  have n: "nDecodedFrames ?d = 0" "nPrunedFrames ?d = 0" by (simp_all add: decodeBegin_def split_beta)
  have "nDecodedFrames dl_second = 0" by (simp add: dl_second_def dl_start_def double_letter_def)
  moreover have "[0..1] = [0, 1::int]" by (simp add: upto.simps)
  ultimately show ?thesis
    using dl_begin dl_frame1 dl_frame2 unfolding decodeStep_def n by (simp add: Let_def)
qed

lemma dl_decode:
  "\<exists>r d'. decode two_frames 2 3 double_letter = Inr ([r], d') \<and> resScore r = Fin 11 \<and> tokens r = [0, 1, 1, 0] \<and> words r = [-1, -1, 7, -1]"
  unfolding decode_def dl_step rbind_simps
  by (simp add: decodeEnd_def finish_one_def dl_second_def dl_run_defs getAllFinalHypothesis_def find_frame_def
      getAllHypothesis_def getHypothesis_def new_DecodeResult_def parent_of_def deref_def getWord_def numeral_eq_Suc)

text \<open>
  C11. The lexicon restricts the results: every result of \<^verbatim>\<open>decode\<close> has one token for each frame between two silence
  tokens, and its words are those of a run of the lexicon automaton over these tokens. At each frame the run
  stays at its node of the trie (with silence at the root, the repeated token elsewhere, or the blank of CTC), moves to the
  child of the token, or emits a word and returns to the root; an emitted word is a label of the node its spelling
  leads to, or the unknown word where no label is and \<^verbatim>\<open>unkScore\<close> is not \<^verbatim>\<open>-inf\<close>. No word is emitted with the first
  and the last token.
\<close>

theorem lexicon_results:
  assumes c: "lx_config N d" "0 < nextBuf d" and T: "0 \<le> T" "T * N \<le> int (length emissions)"
    and dec: "decode emissions T N d = Inr (rs, d')" and r: "r \<in> set rs"
  shows "length (tokens r) = nat T + 2 \<and> hd (tokens r) = sil d \<and> last (tokens r) = sil d \<and>
    (\<exists>paths. lexicon_run d (nat T) (tokens r) (words r) paths)"
proof -
  let ?b = "decodeBegin d" and ?n = "nat T"
  note b = lx_decodeBegin_ok [OF c]
  obtain d1 where steps: "decodeStep emissions T N ?b = Inr d1" "decodeEnd d1 = Inr d'" "getAllFinalHypothesis d' = Inr rs"
    using dec by (auto simp: decode_def rbind_eq_Inr_iff)
  have d1: "lx_inv False N T d1" "nDecodedFrames d1 - nPrunedFrames d1 = T" "rules_of d1 = rules_of d" "elems (hyp d1) 0 = elems (hyp ?b) 0"
    using lx_decodeStep_ok [of False N ?b T emissions] b T steps(1) by auto
  obtain outs where d2: "lx_inv True N (T + 1) d'" "nDecodedFrames d' - nPrunedFrames d' = T + 1" "elems (hyp d') 0 = elems (hyp ?b) 0"
      and h: "hyp d' = put (T + 1) (nextBuf d1, outs) (hyp d1)" "\<forall>s\<in>set outs. linked (hyp d1) T (final_edge (rules_of d) N) s"
    using lx_decodeEnd_ok [OF d1(1)] d1 steps(2) by auto
  have n: "int ?n = T" using T(1) by simp
  have ok: "beam_ok (hyp d') (int ?n + 1) (nextBuf d')" using d2 unfolding lx_inv_def n by simp
  have links: "\<forall>k<?n. \<forall>s\<in>set (elems (hyp d') (int k + 1)). linked (hyp d') (int k) (edge_of False d N) s"
    using d1(1,3) unfolding h lx_inv_def all_links_def by (auto simp: elems_put linked_put)
  have fin: "\<forall>s\<in>set (elems (hyp d') (int ?n + 1)). linked (hyp d') (int ?n) (final_edge (rules_of d) N) s"
    using h(2) unfolding h(1) n by (simp add: elems_put linked_put)
  have start: "\<forall>s\<in>set (elems (hyp d') 0). lex s = [] \<and> word s = -1 \<and> token s = sil d" using d2(3) b(4) by (simp add: new_state_def)
  have rs: "getAllHypothesis (hyp d') getWord (elems (hyp d') (T + 1)) (T + 1) = Inr rs"
    using steps(3) find_frame_ok [OF ok] T(1) unfolding getAllFinalHypothesis_def d2(2) n by (simp add: Let_def)
  then obtain s where s: "s \<in> set (elems (hyp d') (T + 1))" "getHypothesis (hyp d') getWord (Some s) (T + 1) = Inr r"
    using r unfolding getAllHypothesis_def rmap_eq_Inr_iff list_all2_conv_all_nth in_set_conv_nth by metis
  have "s \<in> set (elems (hyp d') (int (Suc ?n)))" using s(1) n by (simp add: add.commute)
  then obtain ss where ss: "history (hyp d') s ss" "length ss = ?n + 2" "\<forall>i\<le>Suc ?n. ss ! i \<in> set (elems (hyp d') (int i))"
    using history_exists [OF ok, of "Suc ?n" s] n by auto
  have "length ss = nat (T + 1 + 1)" using ss(2) T(1) by simp
  from getHypothesis_history [OF ss(1) this, of getWord]
  have "tokens r = map token ss" "words r = map getWord ss" using s(2) T(1) by auto
  then have run: "lexicon_run d ?n (tokens r) (words r) (map lex ss)" using history_lexicon_run [OF ok links fin start ss] by simp
  then have len: "length (tokens r) = ?n + 2" "tokens r ! 0 = sil d" "tokens r ! Suc ?n = sil d"
    by (simp_all add: lexicon_run_def end_move_def rules_of_def)
  moreover have "tokens r \<noteq> []" using len(1) by auto
  ultimately show ?thesis using run by (auto simp: hd_conv_nth last_conv_nth)
qed

theorem lexicon_results_witness:
  "\<exists>r d' paths. decode two_frames 2 3 double_letter = Inr ([r], d') \<and> tokens r = [0, 1, 1, 0] \<and> words r = [-1, -1, 7, -1] \<and>
     hd (tokens r) = sil double_letter \<and> lexicon_run double_letter 2 (tokens r) (words r) paths"
proof -
  obtain r d' where "decode two_frames 2 3 double_letter = Inr ([r], d')" "tokens r = [0, 1, 1, 0]" "words r = [-1, -1, 7, -1]" using dl_decode by blast
  moreover have "lx_config 3 double_letter" "0 < nextBuf double_letter" by (simp_all add: lx_config_def double_letter_def)
  ultimately show ?thesis using lexicon_results [of 3 double_letter 2 two_frames "[r]" d' r] by auto
qed

text \<open>
  With CTC two equal tokens need a blank between them, or they are one token. The decoder keeps this rule
  when it moves to an inner node, and when it emits a word of one token from the root, but not when it emits a
  longer word: with a lexicon whose only word is 7, spelt 1 1, two frames of token 1 emit the word 7, though
  the labelling of these frames (repetitions merged, blanks dropped) does not contain its spelling.
\<close>

theorem lexicon_double_letter:
  "\<exists>r d'. criterion (opt double_letter) = CTC \<and> decode two_frames 2 3 double_letter = Inr ([r], d') \<and> 7 \<in> set (words r) \<and>
     (\<forall>is. 7 \<in> set (fst (entries (lexicon double_letter) is)) \<longleftrightarrow> is = [1, 1]) \<and>
     ctc_labelling (blank double_letter) (tokens r) = [0, 1, 0]"
proof -
  have "entries (new_Trie 3 0) is = ([], [])" for "is" by (simp add: entries_def new_Trie_def)
  then have "7 \<in> set (fst (entries (lexicon double_letter) is)) \<longleftrightarrow> is = [1, 1]" for "is"
    by (simp add: double_letter_def insert_all_def entries_insert valid_spelling_def kTrieMaxLabel_def new_Trie_def)
  then show ?thesis using dl_decode by (auto simp: ctc_labelling_def double_letter_def)
qed

end
