(* ===== verification/Datasets.thy ===== *)
theory Datasets
  imports Prelude
begin

section \<open>Datasets and their views (\<^verbatim>\<open>fl/dataset\<close>)\<close>

text \<open>
  A \<^verbatim>\<open>Dataset\<close> is its two virtual functions \<^verbatim>\<open>size\<close> and \<^verbatim>\<open>get\<close>; a sample is a vector of arrays. The arrays are those of
  ArrayFire, which is not part of the repository: their type is a type variable and the few functions the
  code calls on them are the fields of a record. A null \<^verbatim>\<open>shared_ptr\<close> or \<^verbatim>\<open>std::function\<close> is \<open>None\<close>. Sizes and
  indices are \<^verbatim>\<open>int64_t\<close> values far below the limit of their type, so they are integers.

  The views (\<^verbatim>\<open>BatchDataset\<close>, \<^verbatim>\<open>ConcatDataset\<close>, \<^verbatim>\<open>MergeDataset\<close>, \<^verbatim>\<open>ResampleDataset\<close>, \<^verbatim>\<open>ShuffleDataset\<close>, \<^verbatim>\<open>TransformDataset\<close>)
  and the iterator are specified through the relation \<open>represents\<close> between a dataset and the list of its samples;
  the locale \<open>dataset_view\<close> is the contract of a view.
\<close>

record 'a dataset =
  dsize :: int
  dget :: "int \<Rightarrow> 'a list result"

definition checkIndexBounds :: "int \<Rightarrow> int \<Rightarrow> unit result" where
  "checkIndexBounds n idx = (if \<not> (idx \<ge> 0 \<and> idx < n) then Inl (Out_of_range ''Dataset idx out of range'') else Inr ())"

subsection \<open>The iterator (\<^verbatim>\<open>DatasetIterator.h\<close>)\<close>

definition iter_begin :: "'a dataset \<Rightarrow> int" where
  "iter_begin d = (if dsize d > 0 then 0 else -1)"

definition iter_end :: int where
  "iter_end = -1"

definition iter_next :: "'a dataset \<Rightarrow> int \<Rightarrow> int" where
  "iter_next d idx = (if idx + 1 \<ge> dsize d then -1 else idx + 1)"

text \<open>A range-based \<^verbatim>\<open>for\<close> loop over a dataset that collects the samples it visits.\<close>

function iterate :: "'a dataset \<Rightarrow> int \<Rightarrow> 'a list list \<Rightarrow> 'a list list result" where
  "iterate d idx acc =
     (if idx = iter_end then Inr acc
      else rbind (dget d idx) (\<lambda>s. iterate d (iter_next d idx) (acc @ [s])))"
  by pat_completeness auto

termination
  by (relation "measure (\<lambda>(d, idx, acc). if idx = -1 then 0 else Suc (nat (dsize d - idx)))")
    (auto simp: iter_end_def iter_next_def)

declare iterate.simps [simp del]

definition for_each :: "'a dataset \<Rightarrow> 'a list list result" where
  "for_each d = iterate d (iter_begin d) []"

subsection \<open>Batches (\<^verbatim>\<open>Utils.cpp\<close>, \<^verbatim>\<open>BatchDataset.cpp\<close>)\<close>

text \<open>
  The functions of ArrayFire that \<^verbatim>\<open>makeBatch\<close> calls; \<open>stacked k data\<close> is the array of the given dimensions with
  dimension \<open>k\<close> set to the number of the arrays and slice \<open>i\<close> of it assigned from \<^verbatim>\<open>data[i]\<close>.
\<close>

record 'a af_ops =
  dims :: "'a \<Rightarrow> int list"
  elements :: "'a \<Rightarrow> int"
  ndims :: "int list \<Rightarrow> int"
  array0 :: 'a
  stacked :: "int \<Rightarrow> 'a list \<Rightarrow> 'a"

type_synonym 'a batchFunction = "'a list \<Rightarrow> 'a result"

definition makeBatch :: "'a af_ops \<Rightarrow> 'a list \<Rightarrow> 'a batchFunction option \<Rightarrow> 'a result" where
  "makeBatch af data batchFn =
     (case batchFn of
        Some f \<Rightarrow> f data
      | None \<Rightarrow>
          if data = [] then Inr (array0 af)
          else if list_ex (\<lambda>d. dims af d \<noteq> dims af (hd data)) data
          then Inl (Invalid_argument ''dimension mismatch while batching dataset'')
          else
            let nd = (if elements af (hd data) > 1 then ndims af (dims af (hd data)) else 0) in
            if nd \<ge> 4 then Inl (Invalid_argument ''# of dims must be < 4 for batching'')
            else Inr (stacked af nd data))"

fun add_fields :: "'a list list \<Rightarrow> 'a list \<Rightarrow> 'a list list" where
  "add_fields buffer [] = buffer"
| "add_fields [] (f # fds) = [f] # add_fields [] fds"
| "add_fields (b # buffer) (f # fds) = (b @ [f]) # add_fields buffer fds"

definition batch_fields :: "'a af_ops \<Rightarrow> 'a batchFunction option list \<Rightarrow> 'a list list \<Rightarrow> 'a list result" where
  "batch_fields af batchFns buffer =
     rmap (\<lambda>i. makeBatch af (buffer ! i) (if i < length batchFns then batchFns ! i else None)) [0..<length buffer]"

definition makeBatchFromRange :: "'a af_ops \<Rightarrow> 'a dataset \<Rightarrow> 'a batchFunction option list \<Rightarrow> int \<Rightarrow> int \<Rightarrow> 'a list result" where
  "makeBatchFromRange af d batchFns start end' =
     rbind (rfold (\<lambda>batchidx buffer. rbind (dget d batchidx) (\<lambda>fds. Inr (add_fields buffer fds))) [start..end' - 1] [])
       (batch_fields af batchFns)"

datatype batchDatasetPolicy = INCLUDE_LAST | SKIP_LAST | DIVISIBLE_ONLY

record 'a batchDataset =
  bdataset :: "'a dataset"
  batchSize :: int
  cumSumBatchSize :: "int list"
  batchFns :: "'a batchFunction option list"
  preBatchSize :: int
  bsize :: int

text \<open>
  The policy \<^verbatim>\<open>DIVISIBLE_ONLY\<close> reads the member \<^verbatim>\<open>size_\<close> before it is set: \<open>garbage\<close> is its indeterminate value.
\<close>

definition new_BatchDataset :: "int \<Rightarrow> 'a dataset option \<Rightarrow> int \<Rightarrow> batchDatasetPolicy \<Rightarrow> 'a batchFunction option list \<Rightarrow>
    'a batchDataset result" where
  "new_BatchDataset garbage dataset batchsize policy batchfns =
     (case dataset of
        None \<Rightarrow> Inl (Invalid_argument ''dataset to be batched is null'')
      | Some ds \<Rightarrow>
          if batchsize \<le> 0 then Inl (Invalid_argument ''invalid batch size'')
          else
            let pre = dsize ds;
                b = \<lparr>bdataset = ds, batchSize = batchsize, cumSumBatchSize = [], batchFns = batchfns, preBatchSize = pre, bsize = garbage\<rparr>
            in
            case policy of
              INCLUDE_LAST \<Rightarrow> Inr (b\<lparr>bsize := \<lceil>real_of_int pre / real_of_int batchsize\<rceil>\<rparr>)
            | SKIP_LAST \<Rightarrow> Inr (b\<lparr>bsize := \<lfloor>real_of_int pre / real_of_int batchsize\<rfloor>\<rparr>)
            | DIVISIBLE_ONLY \<Rightarrow>
                if bsize b mod batchsize \<noteq> 0 then Inl (Invalid_argument ''dataset is not evenly divisible into batches'')
                else Inr (b\<lparr>bsize := \<lceil>real_of_int pre / real_of_int batchsize\<rceil>\<rparr>))"

fun partial_sum :: "int \<Rightarrow> int list \<Rightarrow> int list" where
  "partial_sum acc [] = []"
| "partial_sum acc (x # xs) = (acc + x) # partial_sum (acc + x) xs"

text \<open>The second constructor leaves \<^verbatim>\<open>batchSize_\<close> indeterminate; it is never read when \<^verbatim>\<open>cumSumBatchSize_\<close> is not empty.\<close>

definition new_BatchDataset_sizes :: "int \<Rightarrow> 'a dataset option \<Rightarrow> int list \<Rightarrow> 'a batchFunction option list \<Rightarrow> 'a batchDataset result" where
  "new_BatchDataset_sizes garbage dataset batchSizes batchfns =
     (case dataset of
        None \<Rightarrow> Inl (Invalid_argument ''dataset to be batched is null'')
      | Some ds \<Rightarrow>
          if batchSizes = [] then Inl (Invalid_argument ''batch size vector should not be empty'')
          else Inr \<lparr>bdataset = ds, batchSize = garbage, cumSumBatchSize = partial_sum 0 batchSizes, batchFns = batchfns,
                 preBatchSize = dsize ds, bsize = int (length batchSizes)\<rparr>)"

definition batch_range :: "'a batchDataset \<Rightarrow> int \<Rightarrow> int \<times> int" where
  "batch_range b idx =
     (if cumSumBatchSize b = []
      then let start = batchSize b * idx in (start, min (start + batchSize b) (preBatchSize b))
      else (if idx = 0 then 0 else cumSumBatchSize b ! nat (idx - 1), min (cumSumBatchSize b ! nat idx) (preBatchSize b)))"

definition batch_get :: "'a af_ops \<Rightarrow> 'a batchDataset \<Rightarrow> int \<Rightarrow> 'a list result" where
  "batch_get af b idx =
     rbind (checkIndexBounds (bsize b) idx) (\<lambda>_.
       let (start, end') = batch_range b idx in makeBatchFromRange af (bdataset b) (batchFns b) start end')"

definition batch_view :: "'a af_ops \<Rightarrow> 'a batchDataset \<Rightarrow> 'a dataset" where
  "batch_view af b = \<lparr>dsize = bsize b, dget = batch_get af b\<rparr>"

subsection \<open>Concatenation and merging (\<^verbatim>\<open>ConcatDataset.cpp\<close>, \<^verbatim>\<open>MergeDataset.cpp\<close>)\<close>

record 'a concatDataset =
  cdatasets :: "'a dataset list"
  cumulativedatasetsizes :: "int list"
  csize :: int

definition new_ConcatDataset :: "'a dataset list \<Rightarrow> 'a concatDataset result" where
  "new_ConcatDataset datasets =
     (if datasets = [] then Inl (Invalid_argument ''cannot concat 0 datasets'')
      else Inr (fold (\<lambda>d c. c\<lparr>csize := csize c + dsize d, cumulativedatasetsizes := cumulativedatasetsizes c @ [csize c + dsize d]\<rparr>)
             datasets \<lparr>cdatasets = datasets, cumulativedatasetsizes = [0], csize = 0\<rparr>))"

text \<open>\<^verbatim>\<open>std::upper_bound\<close> on a sorted vector: the position of the first element that is greater than the key.\<close>

definition upper_bound :: "int list \<Rightarrow> int \<Rightarrow> int" where
  "upper_bound xs k = int (length (takeWhile (\<lambda>x. x \<le> k) xs))"

definition concat_get :: "'a concatDataset \<Rightarrow> int \<Rightarrow> 'a list result" where
  "concat_get c idx =
     rbind (checkIndexBounds (csize c) idx) (\<lambda>_.
       let datasetidx = nat (upper_bound (cumulativedatasetsizes c) idx - 1) in
       dget (cdatasets c ! datasetidx) (idx - cumulativedatasetsizes c ! datasetidx))"

definition concat_view :: "'a concatDataset \<Rightarrow> 'a dataset" where
  "concat_view c = \<lparr>dsize = csize c, dget = concat_get c\<rparr>"

record 'a mergeDataset =
  mdatasets :: "'a dataset list"
  msize :: int

definition new_MergeDataset :: "'a dataset list \<Rightarrow> 'a mergeDataset" where
  "new_MergeDataset datasets = \<lparr>mdatasets = datasets, msize = fold (\<lambda>d n. max (dsize d) n) datasets 0\<rparr>"

definition merge_get :: "'a mergeDataset \<Rightarrow> int \<Rightarrow> 'a list result" where
  "merge_get m idx =
     rbind (checkIndexBounds (msize m) idx) (\<lambda>_.
       rfold (\<lambda>d res. if idx < dsize d then rbind (dget d idx) (\<lambda>f. Inr (res @ f)) else Inr res) (mdatasets m) [])"

definition merge_view :: "'a mergeDataset \<Rightarrow> 'a dataset" where
  "merge_view m = \<lparr>dsize = msize m, dget = merge_get m\<rparr>"

subsection \<open>Resampling and shuffling (\<^verbatim>\<open>ResampleDataset.cpp\<close>, \<^verbatim>\<open>ShuffleDataset.cpp\<close>)\<close>

record 'a resampleDataset =
  rdataset :: "'a dataset"
  resampleVec :: "int list"

definition makeIdentityPermutation :: "int \<Rightarrow> int list result" where
  "makeIdentityPermutation n = (if n < 0 then Inl (Length_error ''vector'') else Inr [0..n - 1])"

definition makePermutationFromFn :: "int \<Rightarrow> (int \<Rightarrow> int) option \<Rightarrow> int list result" where
  "makePermutationFromFn n fn =
     (case fn of None \<Rightarrow> Inl (Invalid_argument ''PermutationFunction is null'')
      | Some f \<Rightarrow> rbind (makeIdentityPermutation n) (\<lambda>perm. Inr (map f perm)))"

definition resample :: "int list \<Rightarrow> 'a resampleDataset \<Rightarrow> 'a resampleDataset" where
  "resample v r = r\<lparr>resampleVec := v\<rparr>"

definition new_ResampleDataset_vec :: "'a dataset option \<Rightarrow> int list \<Rightarrow> 'a resampleDataset result" where
  "new_ResampleDataset_vec dataset v =
     (case dataset of None \<Rightarrow> Inl (Invalid_argument ''dataset to be resampled is null'')
      | Some ds \<Rightarrow> Inr (resample v \<lparr>rdataset = ds, resampleVec = []\<rparr>))"

text \<open>The two delegating constructors ask the dataset for its size before the check for null.\<close>

definition new_ResampleDataset :: "'a dataset option \<Rightarrow> 'a resampleDataset result" where
  "new_ResampleDataset dataset =
     (case dataset of None \<Rightarrow> Inl (Undefined ''null dataset'')
      | Some ds \<Rightarrow> rbind (makeIdentityPermutation (dsize ds)) (new_ResampleDataset_vec dataset))"

definition new_ResampleDataset_fn :: "'a dataset option \<Rightarrow> (int \<Rightarrow> int) option \<Rightarrow> int \<Rightarrow> 'a resampleDataset result" where
  "new_ResampleDataset_fn dataset fn n =
     rbind (if n = -1 then case dataset of None \<Rightarrow> Inl (Undefined ''null dataset'') | Some ds \<Rightarrow> Inr (dsize ds) else Inr n)
       (\<lambda>sz. rbind (makePermutationFromFn sz fn) (new_ResampleDataset_vec dataset))"

definition resample_get :: "'a resampleDataset \<Rightarrow> int \<Rightarrow> 'a list result" where
  "resample_get r idx =
     rbind (checkIndexBounds (int (length (resampleVec r))) idx) (\<lambda>_. dget (rdataset r) (resampleVec r ! nat idx))"

definition resample_view :: "'a resampleDataset \<Rightarrow> 'a dataset" where
  "resample_view r = \<lparr>dsize = int (length (resampleVec r)), dget = resample_get r\<rparr>"

text \<open>
  The random numbers come from the standard library: \<open>seed\<close> makes a generator, \<open>draw g i\<close> is a number between \<open>0\<close> and
  \<open>i\<close> with the generator that follows.
\<close>

record 'g rng_ops =
  seed :: "int \<Rightarrow> 'g"
  draw :: "'g \<Rightarrow> nat \<Rightarrow> nat \<times> 'g"

record ('a, 'g) shuffleDataset = "'a resampleDataset" +
  rng :: 'g

definition swap_at :: "nat \<Rightarrow> nat \<Rightarrow> 'b list \<Rightarrow> 'b list" where
  "swap_at i j xs = xs[i := xs ! j, j := xs ! i]"

fun shuffle_loop :: "'g rng_ops \<Rightarrow> nat \<Rightarrow> int list \<Rightarrow> 'g \<Rightarrow> int list \<times> 'g" where
  "shuffle_loop ops 0 v g = (v, g)"
| "shuffle_loop ops (Suc i) v g = (let (j, g') = draw ops g (Suc i) in shuffle_loop ops i (swap_at (Suc i) j v) g')"

definition shuffle :: "'g rng_ops \<Rightarrow> ('a, 'g) shuffleDataset \<Rightarrow> ('a, 'g) shuffleDataset" where
  "shuffle ops s =
     (let n = length (resampleVec s);
          (v, g) = shuffle_loop ops (n - 1) [0..int n - 1] (rng s)
      in s\<lparr>resampleVec := v, rng := g\<rparr>)"

definition new_ShuffleDataset :: "'g rng_ops \<Rightarrow> 'a dataset option \<Rightarrow> int \<Rightarrow> ('a, 'g) shuffleDataset result" where
  "new_ShuffleDataset ops dataset sd =
     rbind (new_ResampleDataset dataset) (\<lambda>r.
       Inr (shuffle ops \<lparr>rdataset = rdataset r, resampleVec = resampleVec r, rng = seed ops sd\<rparr>))"

definition setSeed :: "'g rng_ops \<Rightarrow> int \<Rightarrow> ('a, 'g) shuffleDataset \<Rightarrow> ('a, 'g) shuffleDataset" where
  "setSeed ops sd s = s\<lparr>rng := seed ops sd\<rparr>"

definition shuffle_view :: "('a, 'g) shuffleDataset \<Rightarrow> 'a dataset" where
  "shuffle_view s = resample_view \<lparr>rdataset = rdataset s, resampleVec = resampleVec s\<rparr>"

subsection \<open>Transformation (\<^verbatim>\<open>TransformDataset.cpp\<close>)\<close>

record 'a transformDataset =
  tdataset :: "'a dataset"
  transformFns :: "('a \<Rightarrow> 'a result) option list"

definition new_TransformDataset :: "'a dataset option \<Rightarrow> ('a \<Rightarrow> 'a result) option list \<Rightarrow> 'a transformDataset result" where
  "new_TransformDataset dataset fns =
     (case dataset of None \<Rightarrow> Inl (Invalid_argument ''dataset to be transformed is null'')
      | Some ds \<Rightarrow> Inr \<lparr>tdataset = ds, transformFns = fns\<rparr>)"

definition transform_field :: "('a \<Rightarrow> 'a result) option list \<Rightarrow> nat \<Rightarrow> 'a list \<Rightarrow> 'a list result" where
  "transform_field fns i res =
     (if i \<ge> length fns then Inr res
      else case fns ! i of None \<Rightarrow> Inr res | Some f \<Rightarrow> rbind (f (res ! i)) (\<lambda>y. Inr (res[i := y])))"

definition transform_get :: "'a transformDataset \<Rightarrow> int \<Rightarrow> 'a list result" where
  "transform_get t idx =
     rbind (checkIndexBounds (dsize (tdataset t)) idx) (\<lambda>_.
       rbind (dget (tdataset t) idx) (\<lambda>res. rfold (transform_field (transformFns t)) [0..<length res] res))"

definition transform_view :: "'a transformDataset \<Rightarrow> 'a dataset" where
  "transform_view t = \<lparr>dsize = dsize (tdataset t), dget = transform_get t\<rparr>"

end
