(* ===== verification/DatasetViews.thy ===== *)
theory DatasetViews
  imports Datasets
begin

section \<open>What the dataset views promise\<close>

text \<open>
  A dataset represents a list of samples when its size is the length of the list, an index in range gives
  the sample and every other index throws. A view is correct when it represents the list its specification
  computes from the lists of the underlying datasets (locale \<open>dataset_view\<close>); iteration then visits that list.
\<close>

definition represents :: "'a dataset \<Rightarrow> 'a list list \<Rightarrow> bool" where
  "represents d xs \<longleftrightarrow> dsize d = int (length xs) \<and>
     (\<forall>i. dget d i = (if 0 \<le> i \<and> i < int (length xs) then Inr (xs ! nat i) else Inl (Out_of_range ''Dataset idx out of range'')))"

lemma representsD:
  assumes "represents d xs"
  shows "dsize d = int (length xs)" "i < length xs \<Longrightarrow> dget d (int i) = Inr (xs ! i)"
    "0 \<le> j \<Longrightarrow> j < int (length xs) \<Longrightarrow> dget d j = Inr (xs ! nat j)"
  using assms by (simp_all add: represents_def)

lemma representsI:
  assumes "n = int (length xs)"
    and "\<And>i. i < length xs \<Longrightarrow> body (int i) = Inr (xs ! i)"
    and "\<And>i. get i = rbind (checkIndexBounds n i) (\<lambda>_. body i)"
  shows "represents \<lparr>dsize = n, dget = get\<rparr> xs"
  unfolding represents_def
proof (intro conjI allI)
  fix i
  show "dget \<lparr>dsize = n, dget = get\<rparr> i =
      (if 0 \<le> i \<and> i < int (length xs) then Inr (xs ! nat i) else Inl (Out_of_range ''Dataset idx out of range''))"
    using assms(1,3) assms(2) [of "nat i"] by (auto simp: checkIndexBounds_def)
qed (simp add: assms(1))

lemma iterate_from:
  assumes r: "represents d xs" and k: "k < length xs"
  shows "iterate d (int k) acc = Inr (acc @ drop k xs)"
  using k
proof (induction "length xs - k" arbitrary: k acc rule: less_induct)
  case less
  have step: "iterate d (int k) acc = iterate d (iter_next d (int k)) (acc @ [xs ! k])"
    using representsD(2) [OF r less.prems] by (simp add: iterate.simps iter_end_def)
  show ?case
  proof (cases "Suc k < length xs")
    case True
    then have "iter_next d (int k) = int (Suc k)" using representsD(1) [OF r] by (simp add: iter_next_def)
    then show ?thesis using step less.hyps [of "Suc k"] True less.prems Cons_nth_drop_Suc [of k xs] by simp
  next
    case False
    then have "iter_next d (int k) = iter_end" using representsD(1) [OF r] by (simp add: iter_next_def iter_end_def)
    then show ?thesis using step False less.prems Cons_nth_drop_Suc [of k xs] by (simp add: iterate.simps)
  qed
qed

lemma for_each_represents: "represents d xs \<Longrightarrow> for_each d = Inr xs"
  using iterate_from [of d xs 0 "[]"] representsD(1) [of d xs]
  by (cases "xs = []") (auto simp: for_each_def iter_begin_def iterate.simps iter_end_def)

locale dataset_view =
  fixes build :: "'a dataset list \<Rightarrow> 'a dataset result"
    and spec :: "'a list list list \<Rightarrow> 'a list list"
    and ok :: "'a list list list \<Rightarrow> bool"
  assumes refines: "ok xss \<Longrightarrow> list_all2 represents dss xss \<Longrightarrow> \<exists>d. build dss = Inr d \<and> represents d (spec xss)"
begin

lemma visits: "ok xss \<Longrightarrow> list_all2 represents dss xss \<Longrightarrow> rbind (build dss) for_each = Inr (spec xss)"
  using refines for_each_represents by fastforce

lemma view_of_views:
  assumes "length bs = length xss"
    and "\<And>i. i < length xss \<Longrightarrow> \<exists>d. bs ! i = Inr d \<and> represents d (xss ! i)" and "ok xss"
  shows "\<exists>dss d. rmap id bs = Inr dss \<and> build dss = Inr d \<and> represents d (spec xss)"
proof -
  obtain f where f: "\<And>i. i < length xss \<Longrightarrow> bs ! i = Inr (f i) \<and> represents (f i) (xss ! i)" using assms(2) by metis
  let ?dss = "map f [0..<length xss]"
  have "rmap id bs = Inr ?dss" unfolding rmap_eq_Inr_iff list_all2_conv_all_nth using f assms(1) by simp
  moreover have "list_all2 represents ?dss xss" unfolding list_all2_conv_all_nth using f by simp
  ultimately show ?thesis using refines [OF assms(3)] by blast
qed

end

subsection \<open>Concatenation\<close>

lemma concat_fold:
  "fold (\<lambda>d c. c\<lparr>csize := csize c + dsize d, cumulativedatasetsizes := cumulativedatasetsizes c @ [csize c + dsize d]\<rparr>) ds c =
   c\<lparr>csize := csize c + sum_list (map dsize ds),
     cumulativedatasetsizes := cumulativedatasetsizes c @ partial_sum (csize c) (map dsize ds)\<rparr>"
  by (induction ds arbitrary: c) (simp_all add: add.assoc)

lemma concat_lookup:
  assumes "k < length (concat xss)"
  shows "\<exists>j p. length (takeWhile (\<lambda>x. x \<le> acc + int k) (acc # partial_sum acc (map (int \<circ> length) xss))) = Suc j \<and>
    j < length xss \<and> p < length (xss ! j) \<and> (acc # partial_sum acc (map (int \<circ> length) xss)) ! j + int p = acc + int k \<and>
    xss ! j ! p = concat xss ! k"
  using assms
proof (induction xss arbitrary: acc k)
  case (Cons xs xss)
  show ?case
  proof (cases "k < length xs")
    case True
    have "takeWhile (\<lambda>x. x \<le> acc + int k) (partial_sum acc (map (int \<circ> length) (xs # xss))) = []" using True by simp
    then show ?thesis using True by (intro exI [of _ 0] exI [of _ k]) (simp add: nth_append)
  next
    case False
    then have "k - length xs < length (concat xss)" using Cons.prems by simp
    moreover have k: "acc + int (length xs) + int (k - length xs) = acc + int k" using False by simp
    ultimately obtain j p where
      j: "length (takeWhile (\<lambda>x. x \<le> acc + int k) ((acc + int (length xs)) # partial_sum (acc + int (length xs)) (map (int \<circ> length) xss))) = Suc j"
        "j < length xss" "p < length (xss ! j)"
        "((acc + int (length xs)) # partial_sum (acc + int (length xs)) (map (int \<circ> length) xss)) ! j + int p = acc + int k"
        "xss ! j ! p = concat xss ! (k - length xs)"
      using Cons.IH [of "k - length xs" "acc + int (length xs)"] unfolding k by blast
    then have "length (takeWhile (\<lambda>x. x \<le> acc + int k) (acc # partial_sum acc (map (int \<circ> length) (xs # xss)))) = Suc (Suc j)"
      using False by simp
    moreover have "(acc # partial_sum acc (map (int \<circ> length) (xs # xss))) ! Suc j + int p = acc + int k" using j(4) by simp
    moreover have "Suc j < length (xs # xss)" "p < length ((xs # xss) ! Suc j)" "(xs # xss) ! Suc j ! p = concat (xs # xss) ! k"
      using j False by (simp_all add: nth_append)
    ultimately show ?thesis by blast
  qed
qed simp

lemma map_dsize: "list_all2 represents dss xss \<Longrightarrow> map dsize dss = map (int \<circ> length) xss"
  by (induction rule: list_all2_induct) (simp_all add: representsD(1))

definition build_concat :: "'a dataset list \<Rightarrow> 'a dataset result" where
  "build_concat dss = rbind (new_ConcatDataset dss) (\<lambda>c. Inr (concat_view c))"

lemma concat_represents:
  assumes ne: "dss \<noteq> []" and r: "list_all2 represents dss xss"
  shows "\<exists>d. build_concat dss = Inr d \<and> represents d (concat xss)"
proof -
  let ?s = "map (int \<circ> length) xss"
  let ?c = "\<lparr>cdatasets = dss, cumulativedatasetsizes = 0 # partial_sum 0 ?s, csize = sum_list ?s\<rparr>"
  have c: "new_ConcatDataset dss = Inr ?c"
    using ne unfolding new_ConcatDataset_def concat_fold map_dsize [OF r] by simp
  have size: "sum_list ?s = int (length (concat xss))" by (induction xss) simp_all
  have "represents (concat_view ?c) (concat xss)"
    unfolding concat_view_def
  proof (rule representsI [where body = "\<lambda>idx. let datasetidx = nat (upper_bound (0 # partial_sum 0 ?s) idx - 1) in
      dget (dss ! datasetidx) (idx - (0 # partial_sum 0 ?s) ! datasetidx)"])
    fix i assume "i < length (concat xss)"
    from concat_lookup [OF this, of 0] obtain j p where
      j: "length (takeWhile (\<lambda>x. x \<le> int i) (0 # partial_sum 0 ?s)) = Suc j" "j < length xss" "p < length (xss ! j)"
        "(0 # partial_sum 0 ?s) ! j + int p = int i" "xss ! j ! p = concat xss ! i" by auto
    have "nat (upper_bound (0 # partial_sum 0 ?s) (int i) - 1) = j" using j(1) unfolding upper_bound_def by simp
    moreover have "represents (dss ! j) (xss ! j)" using r j(2) by (simp add: list_all2_conv_all_nth)
    moreover have "int i - (0 # partial_sum 0 ?s) ! j = int p" using j(4) by simp
    ultimately show "(let datasetidx = nat (upper_bound (0 # partial_sum 0 ?s) (int i) - 1) in
        dget (dss ! datasetidx) (int i - (0 # partial_sum 0 ?s) ! datasetidx)) = Inr (concat xss ! i)"
      using representsD(2) j(3,5) by (metis (no_types, lifting))
  qed (use size in \<open>simp_all add: concat_get_def\<close>)
  then show ?thesis using c by (simp add: build_concat_def)
qed

interpretation concat: dataset_view build_concat List.concat "\<lambda>xss. xss \<noteq> []"
  by unfold_locales (metis concat_represents list_all2_Nil)

subsection \<open>Merging, transforming and resampling\<close>

definition merge_samples :: "'a list list list \<Rightarrow> 'a list list" where
  "merge_samples xss =
     map (\<lambda>i. concat (map (\<lambda>xs. if i < length xs then xs ! i else []) xss)) [0..<fold (max \<circ> length) xss 0]"

lemma merge_size: "list_all2 represents dss xss \<Longrightarrow> fold (\<lambda>d n. max (dsize d) n) dss (int n) = int (fold (max \<circ> length) xss n)"
  by (induction arbitrary: n rule: list_all2_induct) (simp_all add: representsD(1) flip: of_nat_max)

lemma merge_fields:
  assumes "list_all2 represents dss xss"
  shows "rfold (\<lambda>d res. if int i < dsize d then rbind (dget d (int i)) (\<lambda>f. Inr (res @ f)) else Inr res) dss acc =
    Inr (acc @ concat (map (\<lambda>xs. if i < length xs then xs ! i else []) xss))"
  using assms by (induction arbitrary: acc rule: list_all2_induct) (simp_all add: representsD)

definition build_merge :: "'a dataset list \<Rightarrow> 'a dataset result" where
  "build_merge dss = Inr (merge_view (new_MergeDataset dss))"

interpretation merge: dataset_view build_merge merge_samples "\<lambda>_. True"
proof
  fix dss and xss :: "'a list list list"
  assume r: "list_all2 represents dss xss"
  have "represents (merge_view (new_MergeDataset dss)) (merge_samples xss)"
    unfolding merge_view_def
    by (rule representsI [where body = "\<lambda>idx. rfold (\<lambda>d res. if idx < dsize d then rbind (dget d idx) (\<lambda>f. Inr (res @ f)) else Inr res) dss []"])
      (simp_all add: new_MergeDataset_def merge_size [OF r, of 0, simplified] merge_fields [OF r] merge_samples_def merge_get_def cong: if_cong)
  then show "\<exists>d. build_merge dss = Inr d \<and> represents d (merge_samples xss)" by (simp add: build_merge_def)
qed

text \<open>A transformed sample, when no function throws.\<close>

definition transform_sample :: "('a \<Rightarrow> 'a) option list \<Rightarrow> 'a list \<Rightarrow> 'a list" where
  "transform_sample fns s = map (\<lambda>i. if i < length fns then (case fns ! i of None \<Rightarrow> s ! i | Some f \<Rightarrow> f (s ! i)) else s ! i) [0..<length s]"

definition total_fns :: "('a \<Rightarrow> 'a) option list \<Rightarrow> ('a \<Rightarrow> 'a result) option list" where
  "total_fns fns = map (map_option (\<lambda>f x. Inr (f x))) fns"

lemma transform_fields:
  assumes "k \<le> length s"
  shows "rfold (transform_field (total_fns fns)) [0..<k] s = Inr (take k (transform_sample fns s) @ drop k s)"
  using assms
proof (induction k)
  case (Suc k)
  let ?t = "transform_sample fns s" and ?s = "take k (transform_sample fns s) @ drop k s"
  have t: "length ?t = length s" by (simp add: transform_sample_def)
  have k: "?s ! k = s ! k" "drop k s = s ! k # drop (Suc k) s" using Suc.prems t by (simp_all add: nth_append Cons_nth_drop_Suc)
  have upd: "?s[k := y] = take k ?t @ y # drop (Suc k) s" for y using Suc.prems t k(2) by (simp add: list_update_append)
  have "transform_field (total_fns fns) k ?s = Inr (take k ?t @ ?t ! k # drop (Suc k) s)"
    using Suc.prems k upd
    by (auto simp: transform_field_def total_fns_def transform_sample_def split: option.splits)
  moreover have "take k ?t @ ?t ! k # drop (Suc k) s = take (Suc k) ?t @ drop (Suc k) s"
    using Suc.prems t by (simp add: take_Suc_conv_app_nth)
  ultimately show ?case using Suc by (simp add: rfold_append)
qed simp

definition build_transform :: "('a \<Rightarrow> 'a) option list \<Rightarrow> 'a dataset list \<Rightarrow> 'a dataset result" where
  "build_transform fns dss = rbind (new_TransformDataset (Some (hd dss)) (total_fns fns)) (\<lambda>t. Inr (transform_view t))"

interpretation transform: dataset_view "build_transform fns" "\<lambda>xss. map (transform_sample fns) (hd xss)" "\<lambda>xss. length xss = 1"
  for fns :: "('a \<Rightarrow> 'a) option list"
proof
  fix dss and xss :: "'a list list list"
  assume one: "length xss = 1" and r: "list_all2 represents dss xss"
  then have h: "represents (hd dss) (hd xss)" by (cases dss; cases xss) auto
  let ?fns = "total_fns fns"
  have "represents (transform_view \<lparr>tdataset = hd dss, transformFns = ?fns\<rparr>) (map (transform_sample fns) (hd xss))"
    unfolding transform_view_def
  proof (rule representsI [where body = "\<lambda>idx. rbind (dget (hd dss) idx) (\<lambda>res. rfold (transform_field ?fns) [0..<length res] res)"])
    fix i assume "i < length (map (transform_sample fns) (hd xss))"
    then show "rbind (dget (hd dss) (int i)) (\<lambda>res. rfold (transform_field ?fns) [0..<length res] res) =
        Inr (map (transform_sample fns) (hd xss) ! i)"
      using representsD(2) [OF h, of i] transform_fields [of "length (hd xss ! i)" "hd xss ! i" fns] by (simp add: transform_sample_def)
  qed (simp_all add: representsD(1) [OF h] transform_get_def)
  then show "\<exists>d. build_transform fns dss = Inr d \<and> represents d (map (transform_sample fns) (hd xss))"
    by (simp add: build_transform_def new_TransformDataset_def)
qed

lemma resample_represents:
  assumes r: "represents d xs" and v: "\<forall>i\<in>set v. 0 \<le> i \<and> i < int (length xs)"
  shows "represents (resample_view \<lparr>rdataset = d, resampleVec = v\<rparr>) (map (\<lambda>i. xs ! nat i) v)"
  unfolding resample_view_def
  by (rule representsI [where body = "\<lambda>idx. dget d (v ! nat idx)"])
    (use v representsD(3) [OF r] in \<open>simp_all add: resample_get_def\<close>)

lemma swap_at_mset: "i < length xs \<Longrightarrow> j < length xs \<Longrightarrow> mset (swap_at i j xs) = mset xs"
  by (simp add: swap_at_def mset_swap)

lemma length_swap_at [simp]: "length (swap_at i j xs) = length xs"
  by (simp add: swap_at_def)

lemma shuffle_loop_mset:
  assumes "\<And>g i. fst (draw ops g i) \<le> i" and "n < length v"
  shows "mset (fst (shuffle_loop ops n v g)) = mset v"
  using assms(2)
proof (induction n arbitrary: v g)
  case (Suc n)
  have "fst (draw ops g (Suc n)) < length v" using assms(1) [of g "Suc n"] Suc.prems by simp
  with Suc show ?case by (simp add: case_prod_beta swap_at_mset)
qed simp

lemma shuffle_mset:
  assumes "\<And>g i. fst (draw ops g i) \<le> i"
  shows "mset (resampleVec (shuffle ops s)) = mset [0..int (length (resampleVec s)) - 1]"
  using shuffle_loop_mset [OF assms, of "length (resampleVec s) - 1" "[0..int (length (resampleVec s)) - 1]"]
  by (cases "resampleVec s = []") (auto simp: shuffle_def Let_def case_prod_beta)

lemma map_nth_upto: "map (\<lambda>i. xs ! nat i) [0..int (length xs) - 1] = xs"
  by (rule nth_equalityI) simp_all

lemma shuffle_represents:
  assumes ops: "\<And>g i. fst (draw ops g i) \<le> i" and r: "represents d xs"
    and s: "rdataset s = d" "length (resampleVec s) = length xs"
  shows "\<exists>ys. represents (shuffle_view (shuffle ops s)) ys \<and> mset ys = mset xs"
proof -
  let ?v = "resampleVec (shuffle ops s)"
  have m: "mset ?v = mset [0..int (length xs) - 1]" using shuffle_mset [OF ops, of s] s(2) by simp
  then have "\<forall>i\<in>set ?v. 0 \<le> i \<and> i < int (length xs)" using mset_eq_setD [OF m] by auto
  from resample_represents [OF r this]
  have "represents (shuffle_view (shuffle ops s)) (map (\<lambda>i. xs ! nat i) ?v)"
    using s(1) by (simp add: shuffle_view_def shuffle_def case_prod_beta Let_def)
  moreover have "mset (map (\<lambda>i. xs ! nat i) ?v) = mset (map (\<lambda>i. xs ! nat i) [0..int (length xs) - 1])" unfolding mset_map m ..
  then have "mset (map (\<lambda>i. xs ! nat i) ?v) = mset xs" unfolding map_nth_upto .
  ultimately show ?thesis by blast
qed

subsection \<open>Batches\<close>

text \<open>The fields of a batch: field \<open>i\<close> holds the arrays of all samples that have a field \<open>i\<close>.\<close>

definition columns :: "'a list list \<Rightarrow> 'a list list" where
  "columns ss = map (\<lambda>i. concat (map (\<lambda>f. if i < length f then [f ! i] else []) ss)) [0..<fold (max \<circ> length) ss 0]"

lemma length_add_fields: "length (add_fields b f) = max (length b) (length f)"
  by (induction b f rule: add_fields.induct) auto

lemma nth_add_fields:
  "i < max (length b) (length f) \<Longrightarrow>
     add_fields b f ! i = (if i < length b then b ! i else []) @ (if i < length f then [f ! i] else [])"
  by (induction b f arbitrary: i rule: add_fields.induct) (auto simp: nth_Cons split: nat.splits)

lemma fold_max: "fold (max \<circ> length) ss n = max n (fold (max \<circ> length) ss 0)"
proof (induction ss arbitrary: n)
  case (Cons s ss)
  from Cons [of "max (length s) n"] Cons [of "length s"] show ?case by simp
qed simp

lemma fold_add_fields:
  "fold (\<lambda>f b. add_fields b f) ss b =
     map (\<lambda>i. (if i < length b then b ! i else []) @ concat (map (\<lambda>f. if i < length f then [f ! i] else []) ss))
       [0..<fold (max \<circ> length) ss (length b)]"
proof (induction ss arbitrary: b)
  case Nil
  show ?case by (rule nth_equalityI) simp_all
next
  case (Cons s ss)
  have "fold (max \<circ> length) (s # ss) (length b) \<ge> max (length b) (length s)"
    using fold_max [of ss "max (length s) (length b)"] by (simp add: max.coboundedI1)
  then show ?case
    using Cons [of "add_fields b s"]
    by (auto simp: length_add_fields nth_add_fields max.commute intro!: map_cong)
qed

lemma fold_columns: "fold (\<lambda>f b. add_fields b f) ss [] = columns ss"
  by (simp add: fold_add_fields columns_def)

lemma range_fold:
  assumes r: "represents d xs" and "a + n \<le> length xs"
  shows "rfold (\<lambda>i b. rbind (dget d i) (\<lambda>f. Inr (add_fields b f))) [int a..int a + int n - 1] b =
    Inr (fold (\<lambda>f b. add_fields b f) (take n (drop a xs)) b)"
  using assms(2)
proof (induction n arbitrary: a b)
  case (Suc n)
  have u: "[int a..int a + int (Suc n) - 1] = int a # [int (Suc a)..int (Suc a) + int n - 1]"
    using upto_rec1 [of "int a" "int a + int (Suc n) - 1"] by (simp add: add.commute add.left_commute)
  have "take (Suc n) (drop a xs) = xs ! a # take n (drop (Suc a) xs)"
    using Suc.prems by (simp flip: Cons_nth_drop_Suc)
  then show ?case
    using Suc.IH [of "Suc a"] Suc.prems representsD(2) [OF r, of a] unfolding u by simp
qed simp

lemma makeBatchFromRange_spec:
  assumes "represents d xs" "a + n \<le> length xs"
  shows "makeBatchFromRange af d fns (int a) (int a + int n) = batch_fields af fns (columns (take n (drop a xs)))"
  using range_fold [OF assms, of "[]"] unfolding makeBatchFromRange_def fold_columns by simp

text \<open>The samples \<^verbatim>\<open>BatchDataset\<close> packs into batches: all of them, or with \<^verbatim>\<open>SKIP_LAST\<close> those that fill whole batches.\<close>

definition batched :: "batchDatasetPolicy \<Rightarrow> nat \<Rightarrow> nat \<Rightarrow> nat" where
  "batched policy bs n = (if policy = SKIP_LAST then bs * (n div bs) else n)"

lemma concat_chunks: "concat (map (\<lambda>i. take n (drop (n * i) xs)) [0..<k]) = take (n * k) xs"
proof (induction k)
  case (Suc k)
  then show ?case using take_add [of "n * k" n xs] by (simp add: add.commute)
qed simp

lemma new_BatchDataset_sizes_eq:
  assumes b: "new_BatchDataset g (Some ds) bs policy fns = Inr b" and r: "dsize ds = int n"
  shows "0 < bs" "bdataset b = ds" "batchSize b = bs" "cumSumBatchSize b = []" "batchFns b = fns" "preBatchSize b = int n"
    "bsize b = (if policy = SKIP_LAST then \<lfloor>real n / real_of_int bs\<rfloor> else \<lceil>real n / real_of_int bs\<rceil>)"
  using b r by (auto simp: new_BatchDataset_def Let_def split: if_splits batchDatasetPolicy.splits)

lemma ceiling_batches:
  assumes "0 < bs" "k = nat \<lceil>real n / real bs\<rceil>"
  shows "n \<le> bs * k" "i < k \<Longrightarrow> bs * i < n"
proof -
  have "real n / real bs \<le> real k" unfolding assms(2) by (simp add: of_nat_ceiling)
  then have "real n \<le> real (bs * k)" using assms(1) by (simp add: field_simps)
  then show "n \<le> bs * k" using of_nat_le_iff by blast
  assume "i < k"
  then have "real i < real n / real bs" unfolding assms(2) by linarith
  then have "real (bs * i) < real n" using assms(1) by (simp add: field_simps)
  then show "bs * i < n" using of_nat_less_iff by blast
qed

text \<open>The number of batches and the pieces they hold.\<close>

lemma batch_count:
  assumes b: "new_BatchDataset g (Some ds) bs policy fns = Inr b" and r: "dsize ds = int m" and k: "k = nat (bsize b)"
  shows "bsize b = int k" "batched policy (nat bs) m \<le> nat bs * k" "i < k \<Longrightarrow> nat bs * i < batched policy (nat bs) m"
    "policy = SKIP_LAST \<Longrightarrow> k = m div nat bs"
proof -
  note f = new_BatchDataset_sizes_eq [OF b r]
  obtain n where bs: "bs = int n" "0 < n" using f(1) by (metis pos_int_cases)
  then have n [simp]: "nat bs = n" by simp
  have "-1 < real m / real n" by (rule order.strict_trans2 [of _ 0]) simp_all
  then show "bsize b = int k" unfolding k f(7) using bs by simp
  show whole: "k = m div nat bs" if "policy = SKIP_LAST"
  proof -
    have "k = nat \<lfloor>real m / real n\<rfloor>" using that f(7) bs by (simp add: k)
    then show ?thesis unfolding n by (simp only: floor_divide_of_nat_eq nat_int)
  qed
  have up: "k = nat \<lceil>real m / real n\<rceil>" if "policy \<noteq> SKIP_LAST" using that f(7) bs by (simp add: k)
  show "batched policy (nat bs) m \<le> nat bs * k" "i < k \<Longrightarrow> nat bs * i < batched policy (nat bs) m"
    using whole ceiling_batches [OF bs(2) up] bs(2) by (auto simp: batched_def)
qed

lemma batched_piece:
  assumes "0 < n" "n * i < batched policy n (length xs)"
  shows "take n (drop (n * i) (take (batched policy n (length xs)) xs)) = take (min n (length xs - n * i)) (drop (n * i) xs)"
proof (cases "policy = SKIP_LAST")
  case True
  define t where "t = n * (length xs div n)"
  have "i < length xs div n" using assms True by (simp add: batched_def)
  then have "n * i + n \<le> t" "t \<le> length xs" using mult_le_mono2 [of "Suc i" "length xs div n" n] by (simp_all add: t_def)
  then show ?thesis using True by (simp add: batched_def drop_take min_def flip: t_def)
qed (simp add: batched_def min_def)

lemma batched_le: "batched policy n m \<le> m"
  using div_times_less_eq_dividend [of m n] by (auto simp: batched_def mult.commute)

lemma batch_get_piece:
  assumes r: "represents ds xs" and b: "new_BatchDataset g (Some ds) bs policy fns = Inr b" and i: "i < nat (bsize b)"
  shows "batch_get af b (int i) = batch_fields af fns (columns (take (nat bs) (drop (nat bs * i) (take (batched policy (nat bs) (length xs)) xs))))"
proof -
  note f = new_BatchDataset_sizes_eq [OF b representsD(1) [OF r]] and c = batch_count [OF b representsD(1) [OF r] refl]
  obtain n where bs: "bs = int n" "0 < n" using f(1) by (metis pos_int_cases)
  then have n [simp]: "nat bs = n" by simp
  let ?m = "min n (length xs - n * i)"
  have in_range: "int i < bsize b" using i by linarith
  have start: "n * i < batched policy n (length xs)" using c(3) [OF i] by simp
  then have small: "n * i < length xs" using batched_le [of policy n "length xs"] by simp
  have "batch_range b (int i) = (int (n * i), int (n * i) + int ?m)"
    using f(4,6) small unfolding batch_range_def f(3) Let_def bs(1) of_nat_mult [symmetric] by (auto simp: min_def simp del: of_nat_mult)
  then show ?thesis unfolding n batched_piece [OF bs(2) start]
    using makeBatchFromRange_spec [OF r, of "n * i" ?m af fns] small in_range f(2,5) by (simp add: batch_get_def checkIndexBounds_def)
qed

text \<open>
  C29. \<^verbatim>\<open>BatchDataset\<close> with a fixed batch size packs the samples into batches in order: the batches are those of
  consecutive pieces of the dataset that are full except perhaps for the last, which is not empty; together
  they are all samples, with \<^verbatim>\<open>SKIP_LAST\<close> those of the full batches. Field \<open>i\<close> of a batch is \<^verbatim>\<open>makeBatch\<close> of the arrays
  in field \<open>i\<close> of its samples.
\<close>

theorem batch_covers:
  assumes r: "represents ds xs" and b: "new_BatchDataset g (Some ds) bs policy fns = Inr b"
  shows "\<exists>cs. concat cs = take (batched policy (nat bs) (length xs)) xs \<and> dsize (batch_view af b) = int (length cs) \<and>
    (\<forall>c\<in>set cs. c \<noteq> [] \<and> length c \<le> nat bs) \<and> (\<forall>c\<in>set (butlast cs). length c = nat bs) \<and>
    (\<forall>i<length cs. dget (batch_view af b) (int i) = batch_fields af fns (columns (cs ! i)))"
proof -
  note c = batch_count [OF b representsD(1) [OF r] refl]
  define n where "n = nat bs"
  define k where "k = nat (bsize b)"
  define ys where "ys = take (batched policy n (length xs)) xs"
  define cs where "cs = map (\<lambda>i. take n (drop (n * i) ys)) [0..<k]"
  have n: "0 < n" using new_BatchDataset_sizes_eq(1) [OF b representsD(1) [OF r]] by (simp add: n_def)
  have ys: "length ys = batched policy n (length xs)" unfolding ys_def using batched_le by simp
  have start: "n * i < length ys" if "i < k" for i using c(3) that unfolding ys n_def k_def by simp
  have cs: "length cs = k" "bsize b = int k" using c(1) by (simp_all add: cs_def k_def)
  have len: "length (cs ! i) = min n (length ys - n * i)" "cs ! i \<noteq> []" if "i < k" for i
    using that start [OF that] n by (simp_all add: cs_def)
  have "concat cs = ys" unfolding cs_def concat_chunks using c(2) ys by (simp add: n_def k_def)
  moreover have "length x = n" if "x \<in> set (butlast cs)" for x
  proof -
    obtain i where "i < length (butlast cs)" "butlast cs ! i = x" using \<open>x \<in> set (butlast cs)\<close> by (meson in_set_conv_nth)
    then have i: "i < k - 1" "x = cs ! i" using nth_butlast [of i cs] cs(1) by simp_all
    have "Suc i < k" using i(1) by simp
    then have "n * i + n < length ys" "i < k" using start [of "Suc i"] by simp_all
    then show "length x = n" using len(1) [of i] i(2) by simp
  qed
  moreover have "\<forall>x\<in>set cs. x \<noteq> [] \<and> length x \<le> n" unfolding all_set_conv_all_nth cs(1) using len by simp
  moreover have "batch_get af b (int i) = batch_fields af fns (columns (cs ! i))" if "i < k" for i
    using batch_get_piece [OF r b, of i af] that by (simp add: cs_def ys_def n_def k_def)
  ultimately show ?thesis using cs unfolding batch_view_def n_def [symmetric] ys_def [symmetric] dataset.simps by blast
qed

text \<open>A dataset over a list in memory, for concrete runs.\<close>

definition list_dataset :: "'a list list \<Rightarrow> 'a dataset" where
  "list_dataset xs = \<lparr>dsize = int (length xs), dget = (\<lambda>i. rbind (checkIndexBounds (int (length xs)) i) (\<lambda>_. Inr (xs ! nat i)))\<rparr>"

lemma list_dataset_represents: "represents (list_dataset xs) xs"
  unfolding list_dataset_def by (rule representsI) simp_all

theorem batch_covers_witness:
  "\<exists>b cs. new_BatchDataset 0 (Some (list_dataset [[1], [2], [3::int]])) 2 INCLUDE_LAST [Some (\<lambda>xs. Inr (sum_list xs))] = Inr b \<and>
     concat cs = [[1], [2], [3::int]] \<and> bsize b = int (length cs) \<and> (\<forall>c\<in>set (butlast cs). length c = 2)"
proof -
  let ?ds = "list_dataset [[1], [2], [3::int]]" and ?fns = "[Some (\<lambda>xs. Inr (sum_list xs))]"
  obtain b where b: "new_BatchDataset 0 (Some ?ds) 2 INCLUDE_LAST ?fns = Inr b"
    by (simp add: new_BatchDataset_def Let_def)
  from batch_covers [OF list_dataset_represents b, of undefined] show ?thesis
    using b by (auto simp: batched_def batch_view_def)
qed

text \<open>
  C28. An epoch over a shuffled concatenation visits every sample of every dataset exactly once: whatever numbers the
  generator draws, the range-based loop over the \<^verbatim>\<open>ShuffleDataset\<close> of a \<^verbatim>\<open>ConcatDataset\<close> ends without an exception and the
  samples it visits are a permutation of all samples, also after any number of calls of \<^verbatim>\<open>resample\<close>.
\<close>

theorem shuffled_epochs:
  assumes draws: "\<And>g i. fst (draw ops g i) \<le> i" and ne: "dss \<noteq> []" and r: "list_all2 represents dss xss"
  shows "\<exists>c s. new_ConcatDataset dss = Inr c \<and> new_ShuffleDataset ops (Some (concat_view c)) sd = Inr s \<and>
    (\<forall>k. \<exists>ys. for_each (shuffle_view ((shuffle ops ^^ k) s)) = Inr ys \<and> mset ys = mset (concat xss))"
proof -
  obtain c where c: "new_ConcatDataset dss = Inr c" "represents (concat_view c) (concat xss)"
    using concat_represents [OF ne r] by (auto simp: build_concat_def rbind_eq_Inr_iff)
  let ?s = "\<lparr>rdataset = concat_view c, resampleVec = [0..int (length (concat xss)) - 1], rng = seed ops sd\<rparr>"
  have s: "new_ShuffleDataset ops (Some (concat_view c)) sd = Inr (shuffle ops ?s)"
    using representsD(1) [OF c(2)]
    by (simp add: new_ShuffleDataset_def new_ResampleDataset_def new_ResampleDataset_vec_def makeIdentityPermutation_def resample_def)
  have keep: "rdataset (shuffle ops s) = rdataset s \<and> length (resampleVec (shuffle ops s)) = length (resampleVec s)" for s
    using arg_cong [OF shuffle_mset [OF draws, of s], of size] by (simp add: shuffle_def case_prod_beta Let_def)
  have "rdataset ((shuffle ops ^^ k) ?s) = concat_view c \<and> length (resampleVec ((shuffle ops ^^ k) ?s)) = length (concat xss)" for k
    by (induction k) (simp_all add: keep)
  then have "\<exists>ys. represents (shuffle_view (shuffle ops ((shuffle ops ^^ k) ?s))) ys \<and> mset ys = mset (concat xss)" for k
    using shuffle_represents [OF draws c(2)] by blast
  then have "\<exists>ys. for_each (shuffle_view ((shuffle ops ^^ k) (shuffle ops ?s))) = Inr ys \<and> mset ys = mset (concat xss)" for k
    using for_each_represents unfolding funpow_swap1 [symmetric] by blast
  then show ?thesis using c(1) s by blast
qed

theorem shuffled_epochs_witness:
  "\<exists>c s ys. new_ConcatDataset [list_dataset [[1::int]], list_dataset [[2], [3]]] = Inr c \<and>
     new_ShuffleDataset \<lparr>seed = id, draw = (\<lambda>g i. (0, g))\<rparr> (Some (concat_view c)) 0 = Inr s \<and>
     for_each (shuffle_view s) = Inr ys \<and> mset ys = {#[1], [2], [3]#}"
proof -
  have "list_all2 represents [list_dataset [[1::int]], list_dataset [[2], [3]]] [[[1]], [[2], [3]]]"
    by (simp add: list_dataset_represents)
  from shuffled_epochs [OF _ _ this, of "\<lparr>seed = id, draw = (\<lambda>g i. (0, g))\<rparr>" 0]
  obtain c s where "new_ConcatDataset [list_dataset [[1::int]], list_dataset [[2], [3]]] = Inr c"
      "new_ShuffleDataset \<lparr>seed = id, draw = (\<lambda>g i. (0, g))\<rparr> (Some (concat_view c)) 0 = Inr s"
      "\<exists>ys. for_each (shuffle_view s) = Inr ys \<and> mset ys = mset (concat [[[1]], [[2], [3]]])"
    by (auto dest: spec [of _ 0])
  then show ?thesis by auto
qed

text \<open>
  The policy \<^verbatim>\<open>DIVISIBLE_ONLY\<close> does not check the dataset: whether the constructor throws depends only on what the
  uninitialised member \<^verbatim>\<open>size_\<close> happens to hold.
\<close>

lemma divisible_only_unchecked:
  assumes "0 < bs"
  shows "(\<exists>b. new_BatchDataset garbage (Some ds) bs DIVISIBLE_ONLY fns = Inr b) \<longleftrightarrow> garbage mod bs = 0"
  using assms by (simp add: new_BatchDataset_def Let_def)

end
