(* ===== verification/PrefetchDataset.thy ===== *)
theory PrefetchDataset
  imports DatasetViews
begin

section \<open>Prefetching (\<^verbatim>\<open>fl/dataset/PrefetchDataset.h\<close>, \<^verbatim>\<open>.cpp\<close>)\<close>

text \<open>
  \<^verbatim>\<open>PrefetchDataset\<close> keeps a queue of futures for the samples after the last one asked for. The thread pool evaluates a
  future at some time before \<^verbatim>\<open>get\<close> on it returns, and a dataset is immutable, so a future is the value it will have;
  it is \<open>None\<close> once its value has been taken, when a second \<^verbatim>\<open>get\<close> is undefined. An exception leaves \<^verbatim>\<open>get\<close> with the
  state as it is at that point, so the model returns the state in every case.
\<close>

record 'a prefetchDataset =
  pdataset :: "'a dataset"
  numThreads :: int
  prefetchSize :: int
  prefetchCache :: "'a list result option list"
  curIdx :: int

definition new_PrefetchDataset :: "'a dataset option \<Rightarrow> int \<Rightarrow> int \<Rightarrow> 'a prefetchDataset result" where
  "new_PrefetchDataset dataset threads prefetch =
     (case dataset of
        None \<Rightarrow> Inl (Invalid_argument ''dataset to be prefetched is null'')
      | Some ds \<Rightarrow>
          if \<not> (threads > 0 \<and> prefetch > 0) \<and> \<not> (threads = 0 \<and> prefetch = 0)
          then Inl (Invalid_argument ''invalid numThreads or prefetchSize'')
          else Inr \<lparr>pdataset = ds, numThreads = threads, prefetchSize = prefetch, prefetchCache = [], curIdx = -1\<rparr>)"

fun drop_stale :: "int \<Rightarrow> 'b list \<Rightarrow> int \<Rightarrow> 'b list \<times> int" where
  "drop_stale idx [] cur = ([], cur)"
| "drop_stale idx (c # cache) cur = (if idx \<noteq> cur then drop_stale idx cache (cur + 1) else (c # cache, cur))"

function fill_cache :: "'a dataset \<Rightarrow> int \<Rightarrow> int \<Rightarrow> 'a list result option list \<Rightarrow> 'a list result option list" where
  "fill_cache ds prefetch idx cache =
     (if int (length cache) < prefetch
      then
        let fetchIdx = idx + int (length cache) in
        if fetchIdx \<ge> dsize ds then cache else fill_cache ds prefetch idx (cache @ [Some (dget ds fetchIdx)])
      else cache)"
  by pat_completeness auto

termination
  by (relation "measure (\<lambda>(ds, prefetch, idx, cache). nat (prefetch - int (length cache)))") auto

declare fill_cache.simps [simp del]

definition prefetch_get :: "int \<Rightarrow> 'a prefetchDataset \<Rightarrow> 'a list result \<times> 'a prefetchDataset" where
  "prefetch_get idx p =
     (case checkIndexBounds (dsize (pdataset p)) idx of
        Inl e \<Rightarrow> (Inl e, p)
      | Inr _ \<Rightarrow>
          if numThreads p = 0 then (dget (pdataset p) idx, p)
          else
            let (cache, cur) = drop_stale idx (prefetchCache p) (curIdx p);
                cache' = fill_cache (pdataset p) (prefetchSize p) idx cache;
                p' = p\<lparr>prefetchCache := cache', curIdx := cur\<rparr>
            in
            case cache' of
              [] \<Rightarrow> (Inl (Undefined ''front of an empty queue''), p')
            | None # _ \<Rightarrow> (Inl (Undefined ''future without a state''), p')
            | Some (Inl e) # rest \<Rightarrow> (Inl e, p'\<lparr>prefetchCache := None # rest\<rparr>)
            | Some (Inr curSample) # rest \<Rightarrow> (Inr curSample, p'\<lparr>prefetchCache := rest, curIdx := idx + 1\<rparr>))"

text \<open>The answers to a sequence of requests.\<close>

fun requests :: "int list \<Rightarrow> 'a prefetchDataset \<Rightarrow> 'a list result list \<times> 'a prefetchDataset" where
  "requests [] p = ([], p)"
| "requests (i # is) p = (let (r, p') = prefetch_get i p; (rs, p'') = requests is p' in (r # rs, p''))"

subsection \<open>The cache serves what the dataset holds\<close>

definition fetched :: "'a dataset \<Rightarrow> int \<Rightarrow> nat \<Rightarrow> 'a list result option list" where
  "fetched ds a n = map (\<lambda>i. Some (dget ds (a + int i))) [0..<n]"

definition cache_ok :: "'a dataset \<Rightarrow> 'a prefetchDataset \<Rightarrow> bool" where
  "cache_ok ds p \<longleftrightarrow> pdataset p = ds \<and> (numThreads p = 0 \<or> 0 < prefetchSize p) \<and>
     (\<exists>n. prefetchCache p = fetched ds (curIdx p) n \<and> (n = 0 \<or> curIdx p + int n \<le> dsize ds))"

lemma fetched_simps [simp]: "fetched ds a 0 = []" "length (fetched ds a n) = n"
  by (simp_all add: fetched_def)

lemma fetched_Cons: "fetched ds a (Suc n) = Some (dget ds a) # fetched ds (a + 1) n"
  by (simp add: fetched_def upt_conv_Cons map_Suc_upt [symmetric] add_ac del: upt_Suc)

lemma fetched_snoc: "fetched ds a n @ [Some (dget ds (a + int n))] = fetched ds a (Suc n)"
  by (simp add: fetched_def)

lemma drop_stale_fetched:
  assumes "0 \<le> idx"
  shows "\<exists>cur n'. drop_stale idx (fetched ds a n) a = (fetched ds idx n', cur) \<and> n' \<le> n \<and> (n' = 0 \<or> (cur = idx \<and> idx + int n' = a + int n))"
proof (induction n arbitrary: a)
  case (Suc n)
  show ?case
  proof (cases "idx = a")
    case True
    then show ?thesis by (intro exI [of _ a] exI [of _ "Suc n"]) (simp add: fetched_Cons)
  next
    case False
    then have "drop_stale idx (fetched ds a (Suc n)) a = drop_stale idx (fetched ds (a + 1) n) (a + 1)" by (simp add: fetched_Cons)
    moreover obtain cur n' where "drop_stale idx (fetched ds (a + 1) n) (a + 1) = (fetched ds idx n', cur)" "n' \<le> n"
        "n' = 0 \<or> cur = idx \<and> idx + int n' = a + 1 + int n" using Suc.IH [of "a + 1"] by blast
    ultimately show ?thesis by (intro exI [of _ cur] exI [of _ n']) auto
  qed
qed (auto intro!: exI [of _ 0])

lemma fill_fetched:
  assumes "n = 0 \<or> idx + int n \<le> dsize ds" "idx < dsize ds"
  shows "\<exists>m\<ge>n. fill_cache ds prefetch idx (fetched ds idx n) = fetched ds idx m \<and> idx + int m \<le> dsize ds \<and> (0 < prefetch \<longrightarrow> 0 < m)"
  using assms
proof (induction "nat (prefetch - int n)" arbitrary: n rule: less_induct)
  case less
  show ?case
  proof (cases "int n < prefetch \<and> idx + int n < dsize ds")
    case True
    then have "fill_cache ds prefetch idx (fetched ds idx n) = fill_cache ds prefetch idx (fetched ds idx (Suc n))"
      by (subst fill_cache.simps) (simp add: fetched_snoc)
    moreover have "nat (prefetch - int (Suc n)) < nat (prefetch - int n)" "idx + int (Suc n) \<le> dsize ds" using True by simp_all
    ultimately show ?thesis using less.hyps [of "Suc n"] less.prems(2) by (metis Suc_leD)
  next
    case False
    then have "fill_cache ds prefetch idx (fetched ds idx n) = fetched ds idx n" by (subst fill_cache.simps) (auto simp: Let_def)
    moreover have "0 < prefetch \<longrightarrow> 0 < n" using False less.prems by auto
    ultimately show ?thesis using less.prems by auto
  qed
qed

lemma prefetch_get_ok:
  assumes c: "cache_ok ds p" and r: "represents ds xs"
  shows "fst (prefetch_get idx p) = dget ds idx \<and> cache_ok ds (snd (prefetch_get idx p))"
proof (cases "0 \<le> idx \<and> idx < dsize ds")
  case False
  then show ?thesis using c r by (auto simp: prefetch_get_def cache_ok_def checkIndexBounds_def represents_def)
next
  case True
  then have in_range: "checkIndexBounds (dsize (pdataset p)) idx = Inr ()" and ds: "pdataset p = ds"
    using c by (simp_all add: checkIndexBounds_def cache_ok_def)
  obtain s where s: "dget ds idx = Inr s" using True representsD [OF r] by auto
  show ?thesis
  proof (cases "numThreads p = 0")
    case True
    then show ?thesis using c in_range by (simp add: prefetch_get_def cache_ok_def)
  next
    case False
    with c obtain n where n: "prefetchCache p = fetched ds (curIdx p) n" "n = 0 \<or> curIdx p + int n \<le> dsize ds" and pf: "0 < prefetchSize p"
      unfolding cache_ok_def by blast
    obtain cur n' where d: "drop_stale idx (prefetchCache p) (curIdx p) = (fetched ds idx n', cur)" "n' \<le> n"
        "n' = 0 \<or> (cur = idx \<and> idx + int n' = curIdx p + int n)"
      using drop_stale_fetched [of idx ds "curIdx p" n] True unfolding n(1) by blast
    have "n' = 0 \<or> idx + int n' \<le> dsize ds" using d n(2) by auto
    then obtain m where m: "fill_cache ds (prefetchSize p) idx (fetched ds idx n') = fetched ds idx m" "idx + int m \<le> dsize ds" "0 < m"
      using fill_fetched [of n' idx ds "prefetchSize p"] True pf by auto
    then obtain m' where m': "m = Suc m'" by (cases m) simp_all
    have g: "prefetch_get idx p = (Inr s, p\<lparr>prefetchCache := fetched ds (idx + 1) m', curIdx := idx + 1\<rparr>)"
      using in_range False d(1) m(1) s by (simp add: prefetch_get_def ds m' fetched_Cons)
    have "cache_ok ds (p\<lparr>prefetchCache := fetched ds (idx + 1) m', curIdx := idx + 1\<rparr>)"
      using ds pf m(2) m' by (auto simp: cache_ok_def)
    then show ?thesis using g s by simp
  qed
qed

text \<open>
  C30. Prefetching is transparent: a \<^verbatim>\<open>PrefetchDataset\<close> over a dataset whose \<^verbatim>\<open>get\<close> throws only for an index out of range answers
  every sequence of requests, sequential or not, as the dataset itself would, for every number of threads
  and prefetch size the constructor accepts.
\<close>

theorem prefetch_transparent:
  assumes r: "represents ds xs" and p: "new_PrefetchDataset (Some ds) threads prefetch = Inr p"
  shows "fst (requests idxs p) = map (dget ds) idxs"
proof -
  have "cache_ok ds p" using p by (auto simp: new_PrefetchDataset_def cache_ok_def intro!: exI [of _ 0] split: if_splits)
  then show ?thesis
  proof (induction idxs arbitrary: p)
    case (Cons i "is")
    from prefetch_get_ok [OF Cons.prems r, of i] Cons.IH [of "snd (prefetch_get i p)"]
    show ?case by (simp add: case_prod_beta)
  qed simp
qed

theorem prefetch_transparent_witness:
  "\<exists>p. new_PrefetchDataset (Some (list_dataset [[1], [2], [3::int]])) 2 2 = Inr p \<and> fst (requests [0, 2, 1] p) = [Inr [1], Inr [3], Inr [2]]"
proof -
  obtain p where p: "new_PrefetchDataset (Some (list_dataset [[1], [2], [3::int]])) 2 2 = Inr p"
    by (simp add: new_PrefetchDataset_def)
  from prefetch_transparent [OF list_dataset_represents p, of "[0, 2, 1]"] p show ?thesis
    by (auto simp: list_dataset_def checkIndexBounds_def)
qed

text \<open>
  When the dataset throws, the cache and \<^verbatim>\<open>curIdx_\<close> no longer fit together: the sample that failed stays at the front of
  the queue while \<^verbatim>\<open>curIdx_\<close> still has its value from before. A first request that throws makes the next one return the
  sample after the one asked for.
\<close>

definition failing_dataset :: "int dataset" where
  "failing_dataset = \<lparr>dsize = 3, dget = (\<lambda>i. if i = 0 then Inl (Runtime_error ''bad sample'') else Inr [i])\<rparr>"

lemma prefetch_wrong_after_exception:
  "\<exists>p. new_PrefetchDataset (Some failing_dataset) 1 3 = Inr p \<and>
     fst (requests [0, 1] p) = [Inl (Runtime_error ''bad sample''), Inr [2]] \<and> dget failing_dataset 1 = Inr [1]"
  by (simp add: new_PrefetchDataset_def prefetch_get_def failing_dataset_def checkIndexBounds_def fill_cache.simps Let_def)

end
