(* ===== verification/Partition.thy ===== *)
theory Partition
  imports Doubles
begin

section \<open>Partitioning the samples of a dataset (\<^verbatim>\<open>fl/dataset/Utils.cpp\<close>)\<close>

text \<open>
  The two functions that give each process of a distributed training its share of the samples. Sizes and
  indices are integers: the numbers of samples are far below the limits of \<^verbatim>\<open>int64_t\<close> and, for the batch index,
  \<^verbatim>\<open>int\<close>. With a negative number of samples or a batch size that is not positive \<^verbatim>\<open>partitionByRoundRobin\<close> divides by
  zero or counts an unsigned index up to a negative bound; the model marks this \<open>Undefined\<close>.
\<close>

subsection \<open>Round robin with a fixed batch size\<close>

definition includes_last :: "int \<Rightarrow> int \<Rightarrow> int \<Rightarrow> bool \<Rightarrow> bool" where
  "includes_last numSamples numPartitions batchSz allowEmpty =
     (let rest = numSamples mod (numPartitions * batchSz) in rest \<ge> numPartitions \<or> (allowEmpty \<and> rest > 0))"

definition global_batches :: "int \<Rightarrow> int \<Rightarrow> int \<Rightarrow> bool \<Rightarrow> nat" where
  "global_batches numSamples numPartitions batchSz allowEmpty =
     nat (numSamples div (numPartitions * batchSz) + (if includes_last numSamples numPartitions batchSz allowEmpty then 1 else 0))"

definition batch_samples :: "int \<Rightarrow> int \<Rightarrow> int \<Rightarrow> int \<Rightarrow> bool \<Rightarrow> nat \<Rightarrow> int list" where
  "batch_samples numSamples partitionId numPartitions batchSz allowEmpty i =
     (let offset = int i * (numPartitions * batchSz) in
      if includes_last numSamples numPartitions batchSz allowEmpty \<and> int i = int (global_batches numSamples numPartitions batchSz allowEmpty) - 1
      then
        let nCurSamples = (numSamples - offset) div numPartitions;
            remaining = (numSamples - offset) mod numPartitions;
            offset1 = offset + nCurSamples * partitionId;
            nCurSamples1 = (if partitionId < remaining then nCurSamples + 1 else nCurSamples);
            offset2 = offset1 + min partitionId remaining
        in map (\<lambda>b. b + offset2) [0..nCurSamples1 - 1]
      else map (\<lambda>b. b + (offset + batchSz * partitionId)) [0..batchSz - 1])"

definition partitionByRoundRobin :: "int \<Rightarrow> int \<Rightarrow> int \<Rightarrow> int \<Rightarrow> bool \<Rightarrow> int list result" where
  "partitionByRoundRobin numSamples partitionId numPartitions batchSz allowEmpty =
     (if partitionId < 0 \<or> partitionId \<ge> numPartitions
      then Inl (Invalid_argument ''invalid partitionId, numPartitions for partitionByRoundRobin'')
      else if batchSz \<le> 0 \<or> numSamples < 0 then Inl (Undefined ''division by zero or unsigned loop bound'')
      else Inr (concat (map (batch_samples numSamples partitionId numPartitions batchSz allowEmpty)
             [0..<global_batches numSamples numPartitions batchSz allowEmpty])))"

lemma map_plus_upto: "map (\<lambda>b. b + c) [0..n - 1] = [c..c + n - 1]" for c n :: int
  by (rule nth_equalityI) auto

lemma concat_intervals:
  fixes b :: "nat \<Rightarrow> int"
  shows "(\<And>k. k < n \<Longrightarrow> b k \<le> b (Suc k)) \<Longrightarrow> concat (map (\<lambda>k. [b k..b (Suc k) - 1]) [0..<n]) = [b 0..b n - 1] \<and> b 0 \<le> b n"
proof (induction n)
  case (Suc n)
  then have "concat (map (\<lambda>k. [b k..b (Suc k) - 1]) [0..<n]) = [b 0..b n - 1]" "b 0 \<le> b n" "b n \<le> b (Suc n)"
    by (simp_all add: less_Suc_eq)
  moreover have "[b 0..b (Suc n) - 1] = [b 0..b n - 1] @ [b n..b (Suc n) - 1]"
    using calculation(2,3) upto_split1 [of "b 0" "b n" "b (Suc n) - 1"]
    by (cases "b n = b (Suc n)") simp_all
  ultimately show ?case by simp
qed simp

lemma mset_concat_swap:
  "mset (concat (map (\<lambda>p. concat (map (f p) is)) ps)) = mset (concat (map (\<lambda>i. concat (map (\<lambda>p. f p i) ps)) is))"
proof (induction ps)
  case Nil
  show ?case by (induction "is") simp_all
next
  case (Cons p ps)
  have "mset (concat (map (\<lambda>i. f p i @ concat (map (\<lambda>p. f p i) ps)) is)) =
      mset (concat (map (f p) is)) + mset (concat (map (\<lambda>i. concat (map (\<lambda>p. f p i) ps)) is))"
    by (induction "is") simp_all
  then show ?case using Cons by simp
qed

text \<open>The samples that are handed out: all, or those of the complete rounds.\<close>

definition handed_out :: "int \<Rightarrow> int \<Rightarrow> int \<Rightarrow> bool \<Rightarrow> int" where
  "handed_out numSamples numPartitions batchSz allowEmpty =
     (if includes_last numSamples numPartitions batchSz allowEmpty then numSamples
      else numSamples - numSamples mod (numPartitions * batchSz))"

lemma batch_of_all_partitions:
  assumes P: "0 < P" and bs: "0 < bs" and n: "0 \<le> n" and i: "i < global_batches n (int P) bs ae"
  shows "concat (map (\<lambda>p. batch_samples n (int p) (int P) bs ae i) [0..<P]) =
    [min (int i * (int P * bs)) (handed_out n (int P) bs ae)..min (int (Suc i) * (int P * bs)) (handed_out n (int P) bs ae) - 1]"
proof -
  define N where "N = int P * bs"
  have N: "0 < N" using P bs by (simp add: N_def)
  have G: "int (global_batches n (int P) bs ae) = n div N + (if includes_last n (int P) bs ae then 1 else 0)"
    using n N by (simp add: global_batches_def N_def pos_imp_zdiv_nonneg_iff)
  have h: "handed_out n (int P) bs ae = (if includes_last n (int P) bs ae then n else n div N * N)"
    by (simp add: handed_out_def N_def minus_mod_eq_div_mult)
  have dv: "n div N * N \<le> n" "n < (n div N + 1) * N"
    using div_mult_mod_eq [of n N] pos_mod_sign [OF N, of n] pos_mod_bound [OF N, of n]
    unfolding distrib_right by linarith+
  show ?thesis
  proof (cases "includes_last n (int P) bs ae \<and> int i = int (global_batches n (int P) bs ae) - 1")
    case True
    then have i: "int i = n div N" using G by simp
    define o' where "o' = int i * N"
    define q where "q = (n - o') div int P"
    define r where "r = (n - o') mod int P"
    define b where "b p = o' + q * int p + min (int p) r" for p
    have qr: "n - o' = q * int P + r" "0 \<le> r" "r < int P" "0 \<le> q"
      using P dv(1) i by (simp_all add: q_def r_def o'_def pos_imp_zdiv_nonneg_iff)
    have piece: "batch_samples n (int p) (int P) bs ae i = [b p..b (Suc p) - 1]" for p
    proof -
      have "b (Suc p) = b p + (if int p < r then q + 1 else q)" by (auto simp: b_def algebra_simps min_def)
      then show ?thesis using True unfolding batch_samples_def Let_def map_plus_upto
        by (simp add: b_def o'_def N_def q_def r_def algebra_simps)
    qed
    have "b p \<le> b (Suc p)" for p using qr(4) by (auto simp: b_def algebra_simps min_def)
    then have "concat (map (\<lambda>p. batch_samples n (int p) (int P) bs ae i) [0..<P]) = [b 0..b P - 1]"
      using concat_intervals [of P b] unfolding piece by blast
    moreover have "b 0 = o'" "b P = n" using qr by (simp_all add: b_def)
    moreover have "o' \<le> n" "n \<le> int (Suc i) * N" using dv i by (simp_all add: o'_def algebra_simps)
    ultimately show ?thesis using True h by (simp add: o'_def N_def)
  next
    case False
    define b where "b p = int i * N + bs * int p" for p
    have lt: "(int i + 1) * N \<le> n div N * N" using False i G N by (auto simp: N_def intro!: mult_right_mono split: if_splits)
    have piece: "batch_samples n (int p) (int P) bs ae i = [b p..b (Suc p) - 1]" for p
      using False unfolding batch_samples_def Let_def map_plus_upto by (auto simp: b_def N_def algebra_simps)
    have "b p \<le> b (Suc p)" for p using bs by (simp add: b_def algebra_simps)
    then have "concat (map (\<lambda>p. batch_samples n (int p) (int P) bs ae i) [0..<P]) = [b 0..b P - 1]"
      using concat_intervals [of P b] unfolding piece by blast
    moreover have "b 0 = int i * N" "b P = (int i + 1) * N" by (simp_all add: b_def N_def algebra_simps)
    moreover have top: "(int i + 1) * N \<le> handed_out n (int P) bs ae" using lt dv(1) h by simp
    moreover have "int i * N \<le> handed_out n (int P) bs ae" using top N unfolding distrib_right by linarith
    ultimately show ?thesis by (simp add: N_def algebra_simps)
  qed
qed

text \<open>
  C26. The shares of the processes partition the samples: with \<^verbatim>\<open>P\<close> partitions every sample that is handed out has its
  index in exactly one share, once. All samples are handed out when \<^verbatim>\<open>allowEmpty\<close> is set; otherwise fewer than \<^verbatim>\<open>P\<close>
  samples are left over.
\<close>

theorem partitions_are_disjoint:
  assumes P: "0 < P" and bs: "0 < bs" and n: "0 \<le> n"
  shows "\<exists>parts. rmap (\<lambda>p. partitionByRoundRobin n (int p) (int P) bs allowEmpty) [0..<P] = Inr parts \<and>
    mset (concat parts) = mset [0..handed_out n (int P) bs allowEmpty - 1] \<and>
    handed_out n (int P) bs allowEmpty \<le> n \<and> n < handed_out n (int P) bs allowEmpty + int P \<and>
    (allowEmpty \<longrightarrow> handed_out n (int P) bs allowEmpty = n)"
proof -
  let ?G = "global_batches n (int P) bs allowEmpty" and ?h = "handed_out n (int P) bs allowEmpty" and ?N = "int P * bs"
  define part where "part p = concat (map (batch_samples n (int p) (int P) bs allowEmpty) [0..<?G])" for p
  have N: "0 < ?N" using P bs by simp
  have parts: "rmap (\<lambda>p. partitionByRoundRobin n (int p) (int P) bs allowEmpty) [0..<P] = Inr (map part [0..<P])"
    by (rule rmap_Inr_map) (use bs n in \<open>simp add: partitionByRoundRobin_def part_def\<close>)
  have rest: "0 \<le> n mod ?N" "n mod ?N < ?N" "n div ?N * ?N + n mod ?N = n"
    by (rule pos_mod_sign [OF N], rule pos_mod_bound [OF N], rule div_mult_mod_eq)
  have h: "0 \<le> ?h" "?h \<le> n" "n < ?h + int P" "allowEmpty \<longrightarrow> ?h = n"
    using rest n P pos_imp_zdiv_nonneg_iff [OF N, of n] by (auto simp: handed_out_def includes_last_def Let_def zmod_le_nonneg_dividend)
  define b where "b i = min (int i * ?N) ?h" for i
  have "concat (map (\<lambda>i. concat (map (\<lambda>p. batch_samples n (int p) (int P) bs allowEmpty i) [0..<P])) [0..<?G]) =
      concat (map (\<lambda>i. [b i..b (Suc i) - 1]) [0..<?G])"
    by (rule arg_cong [of _ _ concat], rule map_cong [OF refl]) (simp add: batch_of_all_partitions [OF P bs n] b_def)
  also have "\<dots> = [b 0..b ?G - 1]"
  proof -
    have "b k \<le> b (Suc k)" for k using N by (auto simp: b_def distrib_right min_def)
    then show ?thesis using concat_intervals [of ?G b] by blast
  qed
  also have "b 0 = 0" using h(1) by (simp add: b_def)
  also have "b ?G = ?h"
  proof -
    have "int ?G = n div ?N + (if includes_last n (int P) bs allowEmpty then 1 else 0)"
      using n N by (simp add: global_batches_def pos_imp_zdiv_nonneg_iff)
    then have "?h \<le> int ?G * ?N" using rest by (auto simp: handed_out_def distrib_right)
    then show ?thesis by (simp add: b_def)
  qed
  finally have "mset (concat (map part [0..<P])) = mset [0..?h - 1]"
    unfolding part_def mset_concat_swap [of "\<lambda>p. batch_samples n (int p) (int P) bs allowEmpty"] by simp
  then show ?thesis using parts h by blast
qed

theorem partitions_are_disjoint_witness:
  "\<exists>parts. rmap (\<lambda>p. partitionByRoundRobin 7 (int p) 2 2 False) [0..<2] = Inr parts \<and> mset (concat parts) = mset [0..6]"
proof -
  have "handed_out 7 2 2 False = 7" by (simp add: handed_out_def includes_last_def)
  then show ?thesis using partitions_are_disjoint [of 2 2 7 False] by auto
qed

end
