(* ===== verification/DynamicPartition.thy ===== *)
theory DynamicPartition
  imports Partition
begin

section \<open>Partitioning with dynamic batches (\<^verbatim>\<open>fl/dataset/Utils.cpp\<close>)\<close>

text \<open>
  \<^verbatim>\<open>dynamicPartitionByRoundRobin\<close> packs consecutive samples into batches whose padded size, the number of samples
  times the longest of them, is at most \<^verbatim>\<open>maxSizePerBatch\<close>, and deals the batches out to the partitions. The sizes are
  \<^verbatim>\<open>float\<close> values (theory \<open>Doubles\<close>). The formatting of a \<^verbatim>\<open>float\<close> in a message is the parameter \<open>show\<close>.
\<close>

lemma Fin_one_times [simp]: "Fin 1 * x = x"
  by (cases x) auto

lemma dmax_idem [simp]: "dmax x x = x"
  by (simp add: dmax_def)

text \<open>
  The packing loop. A step that closes a batch does not advance; it is followed by a step that does, because the one
  sample of the new batch fits.
\<close>

function pack :: "(dbl \<Rightarrow> string) \<Rightarrow> dbl list \<Rightarrow> int \<Rightarrow> nat \<Rightarrow> nat \<Rightarrow> dbl \<Rightarrow> int list \<Rightarrow> int list \<Rightarrow>
    ((nat \<times> nat \<times> dbl) \<times> int list \<times> int list) result" where
  "pack show samplesSize maxSize sampleIdx batchStart maxLen batchSizes batchOffsets =
     (if sampleIdx < length samplesSize
      then
        if samplesSize ! sampleIdx > Fin (of_int maxSize)
        then Inl (Invalid_argument (''[dynamicPartitionByRoundRobin] invalid samples length: each sample '' @
               ''should have size <= maxSizePerBatch, either filter data or set larger maxSizePerBatch. '' @
               ''maxSizePerBatch were set to '' @ to_string maxSize @ '' sample size is '' @ show (samplesSize ! sampleIdx)))
        else
          let maxLenOld = maxLen;
              maxLen' = dmax maxLen (samplesSize ! sampleIdx)
          in
          if Fin (of_int (int sampleIdx - int batchStart + 1)) * maxLen' > Fin (of_int maxSize)
          then
            if maxLenOld * Fin (of_int (int sampleIdx - int batchStart)) > Fin (of_int maxSize)
            then Inl (Invalid_argument ''dynamicPartitionByRoundRobin is doing wrong packing'')
            else pack show samplesSize maxSize sampleIdx sampleIdx (samplesSize ! sampleIdx)
                   (batchSizes @ [int sampleIdx - int batchStart]) (batchOffsets @ [int batchStart])
          else pack show samplesSize maxSize (Suc sampleIdx) batchStart maxLen' batchSizes batchOffsets
      else Inr ((sampleIdx, batchStart, maxLen), batchSizes, batchOffsets))"
  by pat_completeness auto

termination
  by (relation "measure (\<lambda>(show, sizes, M, i, b, m, _). 2 * (length sizes - i) +
      (if Fin (of_int (int i - int b + 1)) * dmax m (sizes ! i) > Fin (of_int M) then 1 else 0))")
    (auto simp: Let_def)

declare pack.simps [simp del]

definition dynamicPartitionByRoundRobin :: "(dbl \<Rightarrow> string) \<Rightarrow> dbl list \<Rightarrow> int \<Rightarrow> int \<Rightarrow> int \<Rightarrow> bool \<Rightarrow> (int list \<times> int list) result" where
  "dynamicPartitionByRoundRobin show samplesSize partitionId numPartitions maxSizePerBatch allowEmpty =
     (if partitionId < 0 \<or> partitionId \<ge> numPartitions
      then Inl (Invalid_argument ''[dynamicPartitionByRoundRobin] invalid partitionId, numPartitions'')
      else rbind (pack show samplesSize maxSizePerBatch 0 0 0 [] []) (\<lambda>((sampleIdx, batchStart, maxLen), sizes, offsets).
        let left = int sampleIdx - int batchStart;
            (batchSizes, batchOffsets) =
              (if Fin (of_int left) * maxLen < Fin (of_int maxSizePerBatch) then (sizes @ [left], offsets @ [int batchStart])
               else (sizes, offsets));
            nGlobalBatches = int (length batchSizes) div numPartitions +
              (if allowEmpty \<and> int (length batchSizes) mod numPartitions > 0 then 1 else 0)
        in
        Inr (fold (\<lambda>i (outSamples, outBatchSizes).
            let index = i * numPartitions + partitionId in
            if index < int (length batchSizes)
            then (outSamples @ map (\<lambda>b. b + batchOffsets ! nat index) [0..batchSizes ! nat index - 1],
                  outBatchSizes @ [batchSizes ! nat index])
            else (outSamples, outBatchSizes)) [0..nGlobalBatches - 1] ([], []))))"

subsection \<open>The batches\<close>

definition longest :: "real list \<Rightarrow> real" where
  "longest c = fold max c 0"

definition padded :: "real list \<Rightarrow> real" where
  "padded c = real (length c) * longest c"

fun starts :: "nat \<Rightarrow> 'b list list \<Rightarrow> int list" where
  "starts b [] = []"
| "starts b (c # cs) = int b # starts (b + length c) cs"

lemma longest_snoc: "longest (c @ [x]) = max (longest c) x"
  by (simp add: longest_def max.commute)

definition packing :: "real list \<Rightarrow> int \<Rightarrow> nat \<Rightarrow> nat \<Rightarrow> real \<Rightarrow> bool" where
  "packing xs M i b m \<longleftrightarrow> b \<le> i \<and> i \<le> length xs \<and> padded (drop b (take i xs)) \<le> of_int M \<and>
     (m = longest (drop b (take i xs)) \<or> (i = b \<and> i < length xs \<and> m = xs ! i))"

lemma packing_next:
  assumes p: "packing xs M i b m" and i: "i < length xs" and x: "0 \<le> xs ! i"
  shows "drop b (take (Suc i) xs) = drop b (take i xs) @ [xs ! i]"
    "max m (xs ! i) = longest (drop b (take (Suc i) xs))"
    "(real i - real b + 1) * max m (xs ! i) = padded (drop b (take (Suc i) xs))"
    "m * (real i - real b) \<le> of_int M"
proof -
  have b: "b \<le> i" using p by (simp add: packing_def)
  show d: "drop b (take (Suc i) xs) = drop b (take i xs) @ [xs ! i]"
    using b i by (simp add: take_Suc_conv_app_nth)
  show l: "max m (xs ! i) = longest (drop b (take (Suc i) xs))"
    using p x unfolding packing_def d longest_snoc by (auto simp: longest_def)
  have len: "real (length (drop b (take i xs))) = real i - real b" using b i by (simp add: of_nat_diff)
  show "(real i - real b + 1) * max m (xs ! i) = padded (drop b (take (Suc i) xs))"
    unfolding l padded_def using len by (simp add: d)
  have "real i - real b = 0 \<or> m = longest (drop b (take i xs))" using p by (auto simp: packing_def)
  moreover have "0 \<le> M" if "real i - real b = 0" using p that by (simp add: packing_def padded_def)
  moreover have "real (length (drop b (take i xs))) * longest (drop b (take i xs)) \<le> of_int M"
    using p unfolding packing_def padded_def by blast
  ultimately show "m * (real i - real b) \<le> of_int M" unfolding len by (auto simp: mult.commute)
qed

lemma pack_spec:
  assumes xs: "\<forall>x\<in>set xs. 0 \<le> x \<and> x \<le> of_int M" and p: "packing xs M i b m"
  shows "\<exists>cs rest. pack show (map Fin xs) M i b (Fin m) bsz boff =
      Inr ((length xs, length xs - length rest, Fin (longest rest)), bsz @ map (int \<circ> length) cs, boff @ starts b cs) \<and>
    concat cs @ rest = drop b xs \<and> (\<forall>c\<in>set cs. c \<noteq> [] \<and> padded c \<le> of_int M) \<and> padded rest \<le> of_int M"
  using p
proof (induction "2 * (length xs - i) + (if of_int M < (real i - real b + 1) * max m (xs ! i) then 1 else 0)"
    arbitrary: i b m bsz boff rule: less_induct)
  case less
  show ?case
  proof (cases "i < length xs")
    case False
    then have i: "i = length xs" "m = longest (drop b xs)" "padded (drop b xs) \<le> of_int M" "b \<le> length xs"
      using less.prems by (auto simp: packing_def)
    then show ?thesis by (intro exI [of _ "[]"] exI [of _ "drop b xs"]) (simp add: pack.simps)
  next
    case True
    note x = bspec [OF xs nth_mem [OF True]]
    note nx = packing_next [OF less.prems True conjunct1 [OF x]]
    have unfold: "pack show (map Fin xs) M i b (Fin m) bsz boff =
        (if of_int M < (real i - real b + 1) * max m (xs ! i)
         then pack show (map Fin xs) M i i (Fin (xs ! i)) (bsz @ [int i - int b]) (boff @ [int b])
         else pack show (map Fin xs) M (Suc i) b (Fin (max m (xs ! i))) bsz boff)"
      using True x nx(4) by (subst pack.simps) (simp add: Let_def)
    show ?thesis
    proof (cases "of_int M < (real i - real b + 1) * max m (xs ! i)")
      case close: True
      have ib: "b < i"
      proof (rule ccontr)
        assume "\<not> b < i"
        then have "i = b" using less.prems by (simp add: packing_def)
        then have "(real i - real b + 1) * max m (xs ! i) \<le> of_int M" using less.prems x by (auto simp: packing_def longest_def)
        then show False using close by simp
      qed
      have pk: "packing xs M i i (xs ! i)" using True x by (simp add: packing_def padded_def longest_def order.trans [OF conjunct1 conjunct2])
      have "2 * (length xs - i) + (if of_int M < (real i - real i + 1) * max (xs ! i) (xs ! i) then 1 else 0)
          < 2 * (length xs - i) + (if of_int M < (real i - real b + 1) * max m (xs ! i) then 1 else 0)"
        using close x by simp
      from less.hyps [OF this pk, of "bsz @ [int i - int b]" "boff @ [int b]"] obtain cs rest where
        c: "pack show (map Fin xs) M i i (Fin (xs ! i)) (bsz @ [int i - int b]) (boff @ [int b]) =
            Inr ((length xs, length xs - length rest, Fin (longest rest)), (bsz @ [int i - int b]) @ map (int \<circ> length) cs, (boff @ [int b]) @ starts i cs)"
          "concat cs @ rest = drop i xs" "\<forall>c\<in>set cs. c \<noteq> [] \<and> padded c \<le> of_int M" "padded rest \<le> of_int M" by blast
      let ?c = "drop b (take i xs)"
      have "length ?c = i - b" "?c \<noteq> []" "padded ?c \<le> of_int M" using ib True less.prems by (auto simp: packing_def)
      moreover have "?c @ drop i xs = drop b xs"
        using append_take_drop_id [of "i - b" "drop b xs"] ib by (simp add: drop_take)
      ultimately have "length ?c = i - b" "?c \<noteq> []" "padded ?c \<le> of_int M" "?c @ drop i xs = drop b xs" by blast+
      then show ?thesis using unfold close c ib by (intro exI [of _ "?c # cs"] exI [of _ rest]) (auto simp: of_nat_diff)
    next
      case fits: False
      have pk: "packing xs M (Suc i) b (max m (xs ! i))"
        using less.prems True nx(2,3) fits by (simp add: packing_def)
      have "2 * (length xs - Suc i) + (if of_int M < (real (Suc i) - real b + 1) * max (max m (xs ! i)) (xs ! Suc i) then 1 else 0)
          < 2 * (length xs - i) + (if of_int M < (real i - real b + 1) * max m (xs ! i) then 1 else 0)"
        unfolding Suc_diff_Suc [OF True, symmetric] by simp
      from less.hyps [OF this pk] show ?thesis using unfold fits by simp
    qed
  qed
qed

lemma starts_append: "starts b (cs @ [c]) = starts b cs @ [int (b + length (concat cs))]"
  by (induction cs arbitrary: b) (simp_all add: add.assoc)

lemma starts_nth: "j < length cs \<Longrightarrow> starts b cs ! j = int (b + length (concat (take j cs)))"
  by (induction cs arbitrary: b j) (simp_all add: nth_Cons split: nat.splits)

lemma length_starts [simp]: "length (starts b cs) = length cs"
  by (induction cs arbitrary: b) simp_all

text \<open>The batches of a partition and the samples of a batch.\<close>

definition my_batches :: "nat \<Rightarrow> nat \<Rightarrow> nat \<Rightarrow> bool \<Rightarrow> nat list" where
  "my_batches n p P allowEmpty = filter (\<lambda>j. j < n) (map (\<lambda>i. i * P + p) [0..<n div P + (if allowEmpty \<and> n mod P > 0 then 1 else 0)])"

definition batch_indices :: "'b list list \<Rightarrow> nat \<Rightarrow> int list" where
  "batch_indices bs j = [int (length (concat (take j bs)))..int (length (concat (take (Suc j) bs))) - 1]"

lemma deal_out:
  assumes len: "length sizes = length bs" "length offs = length bs"
    and nth: "\<And>j. j < length bs \<Longrightarrow> sizes ! j = int (length (bs ! j)) \<and> offs ! j = int (length (concat (take j bs)))"
  shows "fold (\<lambda>i (out, outsz).
      let index = i * int P + int p in
      if index < int (length sizes)
      then (out @ map (\<lambda>b. b + offs ! nat index) [0..sizes ! nat index - 1], outsz @ [sizes ! nat index])
      else (out, outsz)) (map int is) (out, outsz) =
    (out @ concat (map (batch_indices bs) (filter (\<lambda>j. j < length bs) (map (\<lambda>i. i * P + p) is))),
     outsz @ map (\<lambda>j. int (length (bs ! j))) (filter (\<lambda>j. j < length bs) (map (\<lambda>i. i * P + p) is)))"
proof (induction "is" arbitrary: out outsz)
  case (Cons i "is")
  have i: "int i * int P + int p = int (i * P + p)" by simp
  have "map (\<lambda>b. b + offs ! j) [0..sizes ! j - 1] = batch_indices bs j" if "j < length bs" for j
    using nth [OF that] that unfolding map_plus_upto by (simp add: batch_indices_def take_Suc_conv_app_nth)
  then show ?case using Cons.IH nth len unfolding fold.simps list.map o_apply i by (simp add: Let_def del: of_nat_add of_nat_mult)
qed simp

text \<open>
  C27. What \<^verbatim>\<open>dynamicPartitionByRoundRobin\<close> returns for sizes between 0 and \<^verbatim>\<open>maxSizePerBatch\<close>: the loop ends without an
  exception; the samples are cut, in order, into non-empty batches whose padded size is at most the maximum and a
  rest of such a size; partition \<^verbatim>\<open>p\<close> of \<^verbatim>\<open>P\<close> gets the batches \<^verbatim>\<open>p\<close>, \<^verbatim>\<open>p + P\<close>, \<^verbatim>\<open>p + 2P\<close>, and so on of the complete rounds (of all
  rounds with \<^verbatim>\<open>allowEmpty\<close>). The rest is the last batch only when it is smaller than the maximum: the samples of a rest
  that fills its batch exactly are lost.
\<close>

theorem dynamic_partition_spec:
  assumes P: "p < P" and xs: "\<forall>x\<in>set xs. 0 \<le> x \<and> x \<le> of_int M" and M: "0 \<le> M"
  shows "\<exists>cs rest. concat cs @ rest = xs \<and> (\<forall>c\<in>set cs. c \<noteq> [] \<and> padded c \<le> of_int M) \<and> padded rest \<le> of_int M \<and>
    (let bs = cs @ (if padded rest < of_int M then [rest] else []); mine = my_batches (length bs) p P allowEmpty in
     dynamicPartitionByRoundRobin show (map Fin xs) (int p) (int P) M allowEmpty =
       Inr (concat (map (batch_indices bs) mine), map (\<lambda>j. int (length (bs ! j))) mine))"
proof -
  have "packing xs M 0 0 0" using M by (simp add: packing_def padded_def longest_def)
  from pack_spec [OF xs this, of "show" "[]" "[]"] obtain cs rest where
    c: "pack show (map Fin xs) M 0 0 0 [] [] =
        Inr ((length xs, length xs - length rest, Fin (longest rest)), map (int \<circ> length) cs, starts 0 cs)"
      "concat cs @ rest = xs" "\<forall>c\<in>set cs. c \<noteq> [] \<and> padded c \<le> of_int M" "padded rest \<le> of_int M" by (auto simp: zero_dbl_def)
  define bs where "bs = cs @ (if padded rest < of_int M then [rest] else [])"
  let ?sz = "map (int \<circ> length) bs" and ?off = "starts 0 bs"
  let ?G = "length bs div P + (if allowEmpty \<and> length bs mod P > 0 then 1 else 0)"
  have start: "length xs - length rest = length (concat cs)" "int (length xs) - int (length (concat cs)) = int (length rest)"
    unfolding c(2) [symmetric] by simp_all
  have last: "(if Fin (of_int (int (length rest))) * Fin (longest rest) < Fin (of_int M)
      then (map (int \<circ> length) cs @ [int (length rest)], starts 0 cs @ [int (length (concat cs))])
      else (map (int \<circ> length) cs, starts 0 cs)) = (?sz, ?off)"
    by (simp add: bs_def padded_def starts_append)
  have "int n div int P + (if allowEmpty \<and> int n mod int P > 0 then 1 else 0) = int (n div P + (if allowEmpty \<and> n mod P > 0 then 1 else 0))" for n
    by (simp flip: of_nat_mod of_nat_div)
  then have G: "int (length ?sz) div int P + (if allowEmpty \<and> int (length ?sz) mod int P > 0 then 1 else 0) = int ?G"
    unfolding length_map .
  have rng: "[0..int ?G - 1] = map int [0..<?G]" by (rule nth_equalityI) auto
  have "fold (\<lambda>i (out, outsz).
      let index = i * int P + int p in
      if index < int (length ?sz)
      then (out @ map (\<lambda>b. b + ?off ! nat index) [0..?sz ! nat index - 1], outsz @ [?sz ! nat index])
      else (out, outsz)) (map int [0..<?G]) ([], []) =
    (concat (map (batch_indices bs) (my_batches (length bs) p P allowEmpty)),
     map (\<lambda>j. int (length (bs ! j))) (my_batches (length bs) p P allowEmpty))"
    by (subst deal_out [where bs = bs]) (simp_all add: starts_nth my_batches_def)
  then have "dynamicPartitionByRoundRobin show (map Fin xs) (int p) (int P) M allowEmpty =
      Inr (concat (map (batch_indices bs) (my_batches (length bs) p P allowEmpty)),
        map (\<lambda>j. int (length (bs ! j))) (my_batches (length bs) p P allowEmpty))"
    using P unfolding dynamicPartitionByRoundRobin_def c(1) rbind_simps prod.case start last Let_def G rng by simp
  then show ?thesis using c(2,3,4) unfolding bs_def Let_def by blast
qed

theorem dynamic_partition_spec_witness:
  "\<exists>cs rest. concat cs @ rest = [2, 2, 1::real] \<and> padded rest \<le> 4 \<and>
     (\<exists>r. dynamicPartitionByRoundRobin (\<lambda>_. []) (map Fin [2, 2, 1]) 0 1 4 False = Inr r)"
proof -
  from dynamic_partition_spec [of 0 1 "[2, 2, 1]" 4 False "\<lambda>_. []"] show ?thesis by (auto simp: Let_def)
qed

text \<open>Two samples of size 2 and a maximum of 4: nothing is returned.\<close>

lemma dynamic_partition_loses_batch:
  "dynamicPartitionByRoundRobin show [Fin 2, Fin 2] 0 1 4 allowEmpty = Inr ([], [])"
  by (simp add: dynamicPartitionByRoundRobin_def pack.simps zero_dbl_def)

end
