(* ===== verification/EditDistanceMeter.thy ===== *)
theory EditDistanceMeter
  imports Doubles
begin

section \<open>The edit distance meter (\<^verbatim>\<open>fl/meter/EditDistanceMeter.h\<close>, \<^verbatim>\<open>.cpp\<close>)\<close>

text \<open>
  The meter adds up the deletions, insertions and substitutions of the predictions of a model. The counters are
  \<^verbatim>\<open>int64_t\<close> values far from their limit, so they are integers. The arrays of ArrayFire are read into host memory
  before the distance is computed; the model starts from these buffers.
\<close>

record errorState =
  ndel :: int
  nins :: int
  nsub :: int

definition error_sum :: "errorState \<Rightarrow> int" where
  "error_sum e = ndel e + nins e + nsub e"

definition new_ErrorState :: errorState where
  "new_ErrorState = \<lparr>ndel = 0, nins = 0, nsub = 0\<rparr>"

record editDistanceMeter =
  len :: int
  del :: int
  ins :: int
  sub :: int

definition reset :: editDistanceMeter where
  "reset = \<lparr>len = 0, del = 0, ins = 0, sub = 0\<rparr>"

definition add_counts :: "int \<Rightarrow> int \<Rightarrow> int \<Rightarrow> int \<Rightarrow> editDistanceMeter \<Rightarrow> editDistanceMeter" where
  "add_counts n d i s m = \<lparr>len = len m + n, del = del m + d, ins = ins m + i, sub = sub m + s\<rparr>"

definition add_state :: "errorState \<Rightarrow> int \<Rightarrow> editDistanceMeter \<Rightarrow> editDistanceMeter" where
  "add_state e n m = add_counts n (ndel e) (nins e) (nsub e) m"

definition sumErr :: "editDistanceMeter \<Rightarrow> int" where
  "sumErr m = del m + ins m + sub m"

definition meter_value :: "editDistanceMeter \<Rightarrow> int list" where
  "meter_value m = [sumErr m, len m, del m, ins m, sub m]"

definition errorRate :: "editDistanceMeter \<Rightarrow> dbl list" where
  "errorRate m =
     (let rate = (\<lambda>k. if len m > 0 then Fin (of_int k * 100 / of_int (len m)) else if k > 0 then PInf else Fin 0) in
      [rate (sumErr m), Fin (of_int (len m)), rate (del m), rate (ins m), rate (sub m)])"

text \<open>
  One cell of the dynamic programming table: \<open>up\<close> is the value of the cell in the previous column, \<open>left\<close> the cell above
  it in the current column and \<open>diag\<close> the one above it in the previous column. \<^verbatim>\<open>std::min_element\<close> returns the first of
  equal minima.
\<close>

definition lev_cell :: "bool \<Rightarrow> errorState \<Rightarrow> errorState \<Rightarrow> errorState \<Rightarrow> errorState" where
  "lev_cell same up left diag =
     (let p0 = error_sum up + 1;
          p1 = error_sum left + 1;
          p2 = error_sum diag + (if same then 0 else 1)
      in
      if p0 \<le> p1 \<and> p0 \<le> p2 then up\<lparr>ndel := ndel up + 1\<rparr>
      else if p1 \<le> p2 then left\<lparr>nins := nins left + 1\<rparr>
      else if same then diag else diag\<lparr>nsub := nsub diag + 1\<rparr>)"

definition lev_inner :: "'a list \<Rightarrow> 'a \<Rightarrow> nat \<Rightarrow> errorState list \<times> errorState \<Rightarrow> errorState list \<times> errorState" where
  "lev_inner in1 c2 y st =
     (let (column, lastdiagonal) = st;
          olddiagonal = column ! y
      in (column[y := lev_cell (in1 ! (y - 1) = c2) (column ! y) (column ! (y - 1)) lastdiagonal], olddiagonal))"

definition lev_outer :: "'a list \<Rightarrow> 'a list \<Rightarrow> nat \<Rightarrow> errorState list \<Rightarrow> errorState list" where
  "lev_outer in1 in2 x column =
     (let lastdiagonal = column ! 0;
          column1 = column[0 := (column ! 0)\<lparr>ndel := int x\<rparr>]
      in fst (fold (lev_inner in1 (in2 ! (x - 1))) [1..<length in1 + 1] (column1, lastdiagonal)))"

definition levensteinDistance :: "'a list \<Rightarrow> 'a list \<Rightarrow> errorState" where
  "levensteinDistance in1 in2 =
     fold (lev_outer in1 in2) [1..<length in2 + 1]
       (map (\<lambda>i. new_ErrorState\<lparr>nins := int i\<rparr>) [0..<length in1 + 1]) ! length in1"

definition add_sequences :: "'a list \<Rightarrow> 'a list \<Rightarrow> editDistanceMeter \<Rightarrow> editDistanceMeter" where
  "add_sequences output target m = add_state (levensteinDistance output target) (int (length target)) m"

subsection \<open>The table\<close>

fun cell :: "'a list \<Rightarrow> 'a list \<Rightarrow> nat \<Rightarrow> nat \<Rightarrow> errorState" where
  "cell in1 in2 0 y = \<lparr>ndel = 0, nins = int y, nsub = 0\<rparr>"
| "cell in1 in2 (Suc x) 0 = \<lparr>ndel = int (Suc x), nins = 0, nsub = 0\<rparr>"
| "cell in1 in2 (Suc x) (Suc y) =
     lev_cell (in1 ! y = in2 ! x) (cell in1 in2 x (Suc y)) (cell in1 in2 (Suc x) y) (cell in1 in2 x y)"

definition column_of :: "'a list \<Rightarrow> 'a list \<Rightarrow> nat \<Rightarrow> errorState list" where
  "column_of in1 in2 x = map (cell in1 in2 x) [0..<length in1 + 1]"

lemma cell_0 [simp]: "cell in1 in2 x 0 = \<lparr>ndel = int x, nins = 0, nsub = 0\<rparr>"
  by (cases x) simp_all

lemma lev_inner_loop:
  assumes "k \<le> length in1"
  shows "fold (lev_inner in1 (in2 ! x)) [1..<k + 1] ((column_of in1 in2 x)[0 := cell in1 in2 (Suc x) 0], cell in1 in2 x 0) =
    (map (\<lambda>y. if y \<le> k then cell in1 in2 (Suc x) y else cell in1 in2 x y) [0..<length in1 + 1], cell in1 in2 x k)"
  using assms
proof (induction k)
  case 0
  have "(column_of in1 in2 x)[0 := cell in1 in2 (Suc x) 0] =
      map (\<lambda>y. if y \<le> 0 then cell in1 in2 (Suc x) y else cell in1 in2 x y) [0..<length in1 + 1]"
    by (rule nth_equalityI) (auto simp: column_of_def nth_list_update simp del: upt_Suc)
  then show ?case by simp
next
  case (Suc k)
  let ?m = "\<lambda>k. map (\<lambda>y. if y \<le> k then cell in1 in2 (Suc x) y else cell in1 in2 x y) [0..<length in1 + 1]"
  have "lev_inner in1 (in2 ! x) (Suc k) (?m k, cell in1 in2 x k) = (?m (Suc k), cell in1 in2 x (Suc k))"
  proof -
    have "(?m k)[Suc k := cell in1 in2 (Suc x) (Suc k)] = ?m (Suc k)"
      by (rule nth_equalityI) (auto simp: nth_list_update less_Suc_eq_le le_Suc_eq simp del: upt_Suc cell.simps)
    then show ?thesis using Suc.prems by (simp add: lev_inner_def del: upt_Suc)
  qed
  then show ?case using Suc by simp
qed

lemma lev_outer_column: "lev_outer in1 in2 (Suc x) (column_of in1 in2 x) = column_of in1 in2 (Suc x)"
proof -
  have "column_of in1 in2 x ! 0 = cell in1 in2 x 0" by (simp add: column_of_def del: upt_Suc)
  moreover have "(cell in1 in2 x 0)\<lparr>ndel := int (Suc x)\<rparr> = cell in1 in2 (Suc x) 0" by simp
  moreover have "map (\<lambda>y. if y \<le> length in1 then cell in1 in2 (Suc x) y else cell in1 in2 x y) [0..<length in1 + 1] = column_of in1 in2 (Suc x)"
    by (simp add: column_of_def)
  ultimately show ?thesis
    using lev_inner_loop [of "length in1" in1 in2 x] by (simp add: lev_outer_def Let_def del: upt_Suc cell.simps cell_0)
qed

lemma levenstein_cell: "levensteinDistance in1 in2 = cell in1 in2 (length in2) (length in1)"
proof -
  have "fold (lev_outer in1 in2) [1..<k + 1] (map (\<lambda>i. new_ErrorState\<lparr>nins := int i\<rparr>) [0..<length in1 + 1]) = column_of in1 in2 k" for k
  proof (induction k)
    case 0
    show ?case by (simp add: column_of_def new_ErrorState_def del: upt_Suc)
  qed (simp add: lev_outer_column del: upt_Suc_append)
  then show ?thesis by (simp add: levensteinDistance_def column_of_def del: upt_Suc)
qed

subsection \<open>Alignments\<close>

text \<open>
  \<open>aligned out tgt d i s\<close>: the output is obtained from the target with \<open>d\<close> deletions, \<open>i\<close> insertions and \<open>s\<close> substitutions.
\<close>

inductive aligned :: "'a list \<Rightarrow> 'a list \<Rightarrow> nat \<Rightarrow> nat \<Rightarrow> nat \<Rightarrow> bool" where
  al_nil: "aligned [] [] 0 0 0"
| al_del: "aligned out tgt d i s \<Longrightarrow> aligned out (tgt @ [b]) (Suc d) i s"
| al_ins: "aligned out tgt d i s \<Longrightarrow> aligned (out @ [a]) tgt d (Suc i) s"
| al_same: "aligned out tgt d i s \<Longrightarrow> aligned (out @ [a]) (tgt @ [a]) d i s"
| al_sub: "aligned out tgt d i s \<Longrightarrow> a \<noteq> b \<Longrightarrow> aligned (out @ [a]) (tgt @ [b]) d i (Suc s)"

definition counts :: "errorState \<Rightarrow> nat \<Rightarrow> nat \<Rightarrow> nat \<Rightarrow> bool" where
  "counts e d i s \<longleftrightarrow> e = \<lparr>ndel = int d, nins = int i, nsub = int s\<rparr>"

lemma cell_aligned:
  "x \<le> length in2 \<Longrightarrow> y \<le> length in1 \<Longrightarrow> \<exists>d i s. counts (cell in1 in2 x y) d i s \<and> aligned (take y in1) (take x in2) d i s"
proof (induction in1 in2 x y rule: cell.induct)
  case (1 in1 in2 y)
  then show ?case
  proof (induction y)
    case 0
    then show ?case using al_nil by (fastforce simp: counts_def)
  next
    case (Suc y)
    then obtain d i s where "counts (cell in1 in2 0 y) d i s" "aligned (take y in1) (take 0 in2) d i s" by auto
    then have "counts (cell in1 in2 0 (Suc y)) d (Suc i) s" "aligned (take (Suc y) in1) (take 0 in2) d (Suc i) s"
      using al_ins [of "take y in1" "take 0 in2" d i s "in1 ! y"] Suc.prems by (simp_all add: counts_def take_Suc_conv_app_nth)
    then show ?case by blast
  qed
next
  case (2 in1 in2 x)
  have "aligned [] (take k in2) k 0 0" if "k \<le> length in2" for k
    using that
  proof (induction k)
    case (Suc k)
    then show ?case using al_del [of "[]" "take k in2" k 0 0 "in2 ! k"] by (simp add: take_Suc_conv_app_nth)
  qed (simp add: al_nil)
  from this [OF 2(1)] show ?case by (intro exI [of _ "Suc x"] exI [of _ 0]) (simp add: counts_def)
next
  case (3 in1 in2 x y)
  let ?a = "in1 ! y" and ?b = "in2 ! x"
  have t: "take (Suc x) in2 = take x in2 @ [?b]" "take (Suc y) in1 = take y in1 @ [?a]"
    using 3(4,5) by (simp_all add: take_Suc_conv_app_nth)
  obtain d i s where u: "counts (cell in1 in2 x (Suc y)) d i s" "aligned (take (Suc y) in1) (take x in2) d i s" using 3 by auto
  obtain d' i' s' where l: "counts (cell in1 in2 (Suc x) y) d' i' s'" "aligned (take y in1) (take (Suc x) in2) d' i' s'" using 3 by auto
  obtain d'' i'' s'' where g: "counts (cell in1 in2 x y) d'' i'' s''" "aligned (take y in1) (take x in2) d'' i'' s''" using 3 by auto
  consider "cell in1 in2 (Suc x) (Suc y) = (cell in1 in2 x (Suc y))\<lparr>ndel := ndel (cell in1 in2 x (Suc y)) + 1\<rparr>"
    | "cell in1 in2 (Suc x) (Suc y) = (cell in1 in2 (Suc x) y)\<lparr>nins := nins (cell in1 in2 (Suc x) y) + 1\<rparr>"
    | "?a = ?b" "cell in1 in2 (Suc x) (Suc y) = cell in1 in2 x y"
    | "?a \<noteq> ?b" "cell in1 in2 (Suc x) (Suc y) = (cell in1 in2 x y)\<lparr>nsub := nsub (cell in1 in2 x y) + 1\<rparr>"
    unfolding cell.simps(3) lev_cell_def Let_def by metis
  then show ?case
  proof cases
    case 1
    then have "counts (cell in1 in2 (Suc x) (Suc y)) (Suc d) i s" using u(1) by (simp add: counts_def)
    moreover have "aligned (take (Suc y) in1) (take (Suc x) in2) (Suc d) i s" unfolding t(1) by (rule al_del [OF u(2)])
    ultimately show ?thesis by blast
  next
    case 2
    then have "counts (cell in1 in2 (Suc x) (Suc y)) d' (Suc i') s'" using l(1) by (simp add: counts_def)
    moreover have "aligned (take (Suc y) in1) (take (Suc x) in2) d' (Suc i') s'" unfolding t(2) by (rule al_ins [OF l(2)])
    ultimately show ?thesis by blast
  next
    case 3
    then have "counts (cell in1 in2 (Suc x) (Suc y)) d'' i'' s''" using g(1) by (simp only:)
    moreover have "aligned (take (Suc y) in1) (take (Suc x) in2) d'' i'' s''"
      unfolding t 3(1) by (rule al_same [OF g(2)])
    ultimately show ?thesis by blast
  next
    case 4
    then have "counts (cell in1 in2 (Suc x) (Suc y)) d'' i'' (Suc s'')" using g(1) by (simp add: counts_def)
    moreover have "aligned (take (Suc y) in1) (take (Suc x) in2) d'' i'' (Suc s'')" unfolding t by (rule al_sub [OF g(2) 4(1)])
    ultimately show ?thesis by blast
  qed
qed

lemma lev_cell_sum:
  "error_sum (lev_cell same up left diag) =
     min (error_sum up + 1) (min (error_sum left + 1) (error_sum diag + (if same then 0 else 1)))"
  by (auto simp: lev_cell_def Let_def error_sum_def)

lemma cell_steps:
  "error_sum (cell in1 in2 (Suc x) y) \<le> error_sum (cell in1 in2 x y) + 1"
  "error_sum (cell in1 in2 x (Suc y)) \<le> error_sum (cell in1 in2 x y) + 1"
  "error_sum (cell in1 in2 (Suc x) (Suc y)) \<le> error_sum (cell in1 in2 x y) + (if in1 ! y = in2 ! x then 0 else 1)"
proof -
  show "error_sum (cell in1 in2 (Suc x) y) \<le> error_sum (cell in1 in2 x y) + 1"
    by (cases y) (simp_all add: lev_cell_sum, simp add: error_sum_def)
  show "error_sum (cell in1 in2 x (Suc y)) \<le> error_sum (cell in1 in2 x y) + 1"
    by (cases x) (simp_all add: lev_cell_sum, simp add: error_sum_def)
qed (simp add: lev_cell_sum)

lemma cell_minimal:
  assumes "aligned out tgt d i s" "out = take y in1" "tgt = take x in2" "y \<le> length in1" "x \<le> length in2"
  shows "error_sum (cell in1 in2 x y) \<le> int (d + i + s)"
  using assms
proof (induction arbitrary: x y rule: aligned.induct)
  case al_nil
  then show ?case by (auto simp: error_sum_def)
next
  case (al_del out tgt d i s b)
  then obtain x' where x: "x = Suc x'" by (cases x) auto
  then have "tgt = take x' in2" using al_del.prems(2,4) by (simp add: take_Suc_conv_app_nth)
  then show ?case using al_del.IH [of y x'] al_del.prems cell_steps(1) [of in1 in2 x' y] x by simp
next
  case (al_ins out tgt d i s a)
  then obtain y' where y: "y = Suc y'" by (cases y) auto
  then have "out = take y' in1" using al_ins.prems(1,3) by (simp add: take_Suc_conv_app_nth)
  then show ?case using al_ins.IH [of y' x] al_ins.prems cell_steps(2) [of in1 in2 x y'] y by simp
next
  case (al_same out tgt d i s a)
  then obtain x' y' where xy: "x = Suc x'" "y = Suc y'" by (cases x; cases y) auto
  then have "out = take y' in1" "tgt = take x' in2" "in1 ! y' = a" "in2 ! x' = a" using al_same.prems by (simp_all add: take_Suc_conv_app_nth)
  then show ?case using al_same.IH [of y' x'] al_same.prems cell_steps(3) [of in1 in2 x' y'] xy by simp
next
  case (al_sub out tgt d i s a b)
  then obtain x' y' where xy: "x = Suc x'" "y = Suc y'" by (cases x; cases y) auto
  then have "out = take y' in1" "tgt = take x' in2" using al_sub.prems by (simp_all add: take_Suc_conv_app_nth)
  then show ?case using al_sub.IH [of y' x'] al_sub.prems cell_steps(3) [of in1 in2 x' y'] xy by (auto split: if_splits)
qed

text \<open>
  C8. The meter counts an optimal alignment: the deletions, insertions and substitutions that \<^verbatim>\<open>levensteinDistance\<close> returns
  are those of an alignment of the output with the target, no alignment has fewer errors in total, and \<^verbatim>\<open>add\<close> adds
  exactly these counts and the length of the target to the meter.
\<close>

theorem edit_distance_optimal:
  "\<exists>d i s. aligned output target d i s \<and> (\<forall>d' i' s'. aligned output target d' i' s' \<longrightarrow> d + i + s \<le> d' + i' + s') \<and>
     levensteinDistance output target = \<lparr>ndel = int d, nins = int i, nsub = int s\<rparr> \<and>
     meter_value (add_sequences output target m) =
       [sumErr m + int (d + i + s), len m + int (length target), del m + int d, ins m + int i, sub m + int s]"
proof -
  obtain d i s where c: "counts (cell output target (length target) (length output)) d i s" "aligned output target d i s"
    using cell_aligned [where x = "length target" and y = "length output" and ?in1.0 = "output" and ?in2.0 = target] by auto
  have "d + i + s \<le> d' + i' + s'" if "aligned output target d' i' s'" for d' i' s'
    using cell_minimal [OF that, where x = "length target" and y = "length output" and ?in1.0 = "output" and ?in2.0 = target] c(1) by (simp add: counts_def error_sum_def)
  then show ?thesis
    using c by (intro exI conjI) (auto simp: levenstein_cell counts_def meter_value_def add_sequences_def add_state_def add_counts_def sumErr_def)
qed

theorem edit_distance_optimal_witness:
  "\<exists>d i s. aligned [1, 2, 3::int] [1, 3] d i s \<and> d + i + s \<le> 1 \<and> levensteinDistance [1, 2, 3::int] [1, 3] = \<lparr>ndel = int d, nins = int i, nsub = int s\<rparr>"
proof -
  have "aligned [1::int] [1] 0 0 0" using al_same [OF al_nil, of 1] by simp
  then have "aligned [1, 2, 3::int] [1, 3] 0 1 0"
    using al_same [OF al_ins [where a = 2], where a = 3] by fastforce
  then show ?thesis using edit_distance_optimal [of "[1, 2, 3::int]" "[1, 3]" reset] by fastforce
qed

end
