(* ===== verification/Autograd.thy ===== *)
theory Autograd
  imports Prelude
begin

section \<open>Automatic differentiation (\<^verbatim>\<open>fl/autograd/Variable.cpp\<close>)\<close>

text \<open>
  A \<^verbatim>\<open>Variable\<close> is a pointer to data and a pointer to a \<^verbatim>\<open>SharedGrad\<close>, which holds the gradient, the inputs of the operation that made the variable, and the function
  that passes a gradient on to them. \<^verbatim>\<open>SharedGrad\<close> objects live in a heap; \<^verbatim>\<open>shared_ptr\<close> keeps them alive, so an address is never
  reused here. An array is modelled by one element, a real number, with its type: the operators modelled in \<open>AutogradFunctions\<close> work
  element by element, and ArrayFire's arithmetic is taken without rounding. Data does not change after a variable was made. A gradient function computes, from
  the inputs, which of them want a gradient, and the gradient of the output, the arguments of its calls of \<^verbatim>\<open>inputs[i].addGrad\<close>, in order. A
  hook may replace the gradient it is called with.
\<close>

text \<open>The floating-point types of ArrayFire.\<close>

datatype dtype = F16 | F32 | F64

definition afTypeToString :: "dtype \<Rightarrow> string" where
  "afTypeToString ty = (case ty of F16 \<Rightarrow> ''f16'' | F32 \<Rightarrow> ''f32'' | F64 \<Rightarrow> ''f64'')"

type_synonym arr = "dtype \<times> real"

type_synonym gradPtr = nat

record variable =
  vdata :: "real option"
  vtype :: dtype
  vgrad :: gradPtr

type_synonym gradFunc = "variable list \<Rightarrow> bool list \<Rightarrow> arr \<Rightarrow> (nat \<times> arr) list result"

record sharedGrad =
  calcGrad :: bool
  inputs :: "variable list"
  grad :: "arr option"
  gradFunc :: "gradFunc option"
  onGradAvailable :: "(arr \<Rightarrow> arr) option"

type_synonym gradHeap = "sharedGrad list"

definition new_sharedGrad :: sharedGrad where
  "new_sharedGrad = \<lparr>calcGrad = False, inputs = [], grad = None, gradFunc = None, onGradAvailable = None\<rparr>"

definition shared :: "variable \<Rightarrow> gradHeap \<Rightarrow> sharedGrad" where
  "shared v h = h ! vgrad v"

definition update_shared :: "variable \<Rightarrow> (sharedGrad \<Rightarrow> sharedGrad) \<Rightarrow> gradHeap \<Rightarrow> gradHeap" where
  "update_shared v f h = h[vgrad v := f (shared v h)]"

text \<open>The constructors: a variable with data, and the result of an operation, which keeps its inputs only if one of them wants a gradient.\<close>

definition new_variable :: "dtype \<Rightarrow> real \<Rightarrow> bool \<Rightarrow> gradHeap \<Rightarrow> variable \<times> gradHeap" where
  "new_variable ty x cg h = (\<lparr>vdata = Some x, vtype = ty, vgrad = length h\<rparr>, h @ [new_sharedGrad\<lparr>calcGrad := cg\<rparr>])"

definition isCalcGrad :: "gradHeap \<Rightarrow> variable \<Rightarrow> bool" where
  "isCalcGrad h v \<longleftrightarrow> calcGrad (shared v h)"

definition op_variable :: "dtype \<Rightarrow> real \<Rightarrow> variable list \<Rightarrow> gradFunc \<Rightarrow> gradHeap \<Rightarrow> variable \<times> gradHeap" where
  "op_variable ty x ins f h =
     (\<lparr>vdata = Some x, vtype = ty, vgrad = length h\<rparr>,
      h @ [if list_ex (isCalcGrad h) ins then new_sharedGrad\<lparr>calcGrad := True, inputs := ins, gradFunc := Some f\<rparr> else new_sharedGrad])"

definition withoutData :: "variable \<Rightarrow> variable" where
  "withoutData v = v\<lparr>vdata := None\<rparr>"

text \<open>Computing with an array without elements fails in ArrayFire.\<close>

definition array_of :: "variable \<Rightarrow> real result" where
  "array_of v = (case vdata v of Some x \<Rightarrow> Inr x | None \<Rightarrow> Inl (Af_exception ''empty array''))"

definition grad_of :: "variable \<Rightarrow> gradHeap \<Rightarrow> arr result" where
  "grad_of v h =
     (if \<not> calcGrad (shared v h) then Inl (Logic_error ''gradient calculation disabled for this Variable'')
      else case grad (shared v h) of
        None \<Rightarrow> Inl (Logic_error ''gradient not calculated yet for this Variable'')
      | Some g \<Rightarrow> Inr g)"

definition isGradAvailable :: "variable \<Rightarrow> gradHeap \<Rightarrow> bool" where
  "isGradAvailable v h = (if \<not> calcGrad (shared v h) then False else grad (shared v h) \<noteq> None)"

definition zeroGrad :: "variable \<Rightarrow> gradHeap \<Rightarrow> gradHeap" where
  "zeroGrad v = update_shared v (\<lambda>s. s\<lparr>grad := None\<rparr>)"

definition setCalcGrad :: "bool \<Rightarrow> variable \<Rightarrow> gradHeap \<Rightarrow> gradHeap" where
  "setCalcGrad cg v = update_shared v (\<lambda>s.
     if \<not> cg then s\<lparr>calcGrad := cg, gradFunc := None, inputs := [], grad := None\<rparr> else s\<lparr>calcGrad := cg\<rparr>)"

definition addGrad :: "variable \<Rightarrow> arr \<Rightarrow> gradHeap \<Rightarrow> gradHeap result" where
  "addGrad v = (\<lambda>(ty, x) h.
     if calcGrad (shared v h)
     then if ty \<noteq> vtype v
       then Inl (Invalid_argument (''Variable::addGrad: attempted to add child gradient of type '' @ afTypeToString ty @
         '' to a Variable of type '' @ afTypeToString (vtype v) @
         ''. You might be performing an operation with two inputs of different types.''))
       else Inr (case grad (shared v h) of
           Some (gty, g) \<Rightarrow> update_shared v (\<lambda>s. s\<lparr>grad := Some (gty, g + x)\<rparr>) h
         | None \<Rightarrow> update_shared v (\<lambda>s. s\<lparr>grad := Some (ty, x)\<rparr>) h)
     else Inr h)"

definition registerGradHook :: "(arr \<Rightarrow> arr) \<Rightarrow> variable \<Rightarrow> gradHeap \<Rightarrow> gradHeap" where
  "registerGradHook hook v = update_shared v (\<lambda>s. s\<lparr>onGradAvailable := Some hook\<rparr>)"

definition clearGradHook :: "variable \<Rightarrow> gradHeap \<Rightarrow> gradHeap" where
  "clearGradHook v = update_shared v (\<lambda>s. s\<lparr>onGradAvailable := None\<rparr>)"

definition applyGradHook :: "variable \<Rightarrow> gradHeap \<Rightarrow> gradHeap result" where
  "applyGradHook v h =
     (case onGradAvailable (shared v h) of
        None \<Rightarrow> Inr h
      | Some hook \<Rightarrow> (case grad (shared v h) of
          None \<Rightarrow> Inl (Undefined ''null gradient'')
        | Some g \<Rightarrow> Inr (update_shared v (\<lambda>s. s\<lparr>grad := Some (hook g)\<rparr>) h)))"

definition input_at :: "variable list \<Rightarrow> nat \<Rightarrow> variable result" where
  "input_at ins i = (if i < length ins then Inr (ins ! i) else Inl (Undefined ''index out of range''))"

definition calcGradInputs :: "bool \<Rightarrow> variable \<Rightarrow> gradHeap \<Rightarrow> gradHeap result" where
  "calcGradInputs retainGraph v h =
     rbind (case gradFunc (shared v h) of
         None \<Rightarrow> Inr h
       | Some f \<Rightarrow> (case grad (shared v h) of
           None \<Rightarrow> Inl (Logic_error ''gradient was not propagated to this Variable'')
         | Some g \<Rightarrow>
             let ins = inputs (shared v h) in
             rbind (f ins (map (isCalcGrad h) ins) g) (\<lambda>cs.
               rfold (\<lambda>(i, a) h. rbind (input_at ins i) (\<lambda>w. addGrad w a h)) cs h)))
       (\<lambda>h'. Inr (if retainGraph then h' else update_shared v (\<lambda>s. s\<lparr>inputs := []\<rparr>) h'))"

text \<open>
  The topological sort. An endless recursion ends with the stack; fuel stands for its size. The pointers of inputs are smaller than that of their
  operation, so with the fuel of \<open>build\<close> the recursion is not cut short (lemma \<open>recurse_spec\<close> of \<open>AutogradTheorems\<close>).
\<close>

fun recurse :: "nat \<Rightarrow> gradHeap \<Rightarrow> variable \<Rightarrow> gradPtr list \<times> variable list \<Rightarrow> (gradPtr list \<times> variable list) result" where
  "recurse 0 h var st = Inl (Undefined ''stack overflow'')"
| "recurse (Suc n) h var st =
     (if vgrad var \<in> set (fst st) then Inr st
      else rbind (rfold (recurse n h) (inputs (shared var h)) st) (\<lambda>(cache, dag).
        Inr (vgrad var # cache, dag @ [var])))"

definition build :: "variable \<Rightarrow> gradHeap \<Rightarrow> variable list result" where
  "build v h = rbind (recurse (vgrad v + 1) h v ([], [])) (\<lambda>(cache, dag). Inr dag)"

definition backward_with :: "arr \<Rightarrow> bool \<Rightarrow> variable \<Rightarrow> gradHeap \<Rightarrow> gradHeap result" where
  "backward_with g retainGraph v h =
     rbind (addGrad v g h) (\<lambda>h1.
     rbind (build v h1) (\<lambda>dag.
     rfold (\<lambda>iter h. rbind (calcGradInputs retainGraph iter h) (applyGradHook iter)) (rev dag) h1))"

definition backward :: "bool \<Rightarrow> variable \<Rightarrow> gradHeap \<Rightarrow> gradHeap result" where
  "backward retainGraph v h = backward_with (vtype v, 1) retainGraph v h"

text \<open>A cast to another type; the gradient is cast back.\<close>

definition as_type :: "dtype \<Rightarrow> variable \<Rightarrow> gradHeap \<Rightarrow> (variable \<times> gradHeap) result" where
  "as_type newType v h =
     rbind (array_of v) (\<lambda>x. Inr (op_variable newType x [withoutData v]
       (\<lambda>ins calc (ty, g). rbind (input_at ins 0) (\<lambda>v. Inr [(0, (vtype v, g))])) h))"

end
