(* ===== verification/AutogradGraph.thy ===== *)
theory AutogradGraph
  imports Autograd
begin

section \<open>The sweep over the graph\<close>

text \<open>
  \<open>build\<close> lists every variable that the result depends on once, inputs before their users. Let \<open>d n\<close> be a number for each node such that
  every gradient function passes on \<open>g * d n\<close> in total when it is given \<open>g\<close>, the contribution to an input \<open>m\<close> weighted with \<open>d m\<close>. Then the sum of gradients
  weighted with \<open>d\<close>, over the nodes still to be visited and the leaves already visited, does not change during \<open>backward\<close>. Forward derivatives are such
  numbers; \<open>AutogradTheorems\<close> uses this.
\<close>

definition gval :: "gradHeap \<Rightarrow> nat \<Rightarrow> real" where
  "gval h n = (case grad (h ! n) of Some (ty, g) \<Rightarrow> g | None \<Rightarrow> 0)"

definition weighted :: "(nat \<Rightarrow> real) \<Rightarrow> variable list \<Rightarrow> bool list \<Rightarrow> (nat \<times> arr) list \<Rightarrow> real" where
  "weighted d ins calc cs = (\<Sum>(i, ty, x)\<leftarrow>cs. if calc ! i then x * d (vgrad (ins ! i)) else 0)"

definition fits :: "variable list \<Rightarrow> (nat \<times> arr) list \<Rightarrow> bool" where
  "fits ins cs \<longleftrightarrow> (\<forall>(i, ty, x)\<in>set cs. i < length ins \<and> ty = vtype (ins ! i))"

definition passes :: "(nat \<Rightarrow> real) \<Rightarrow> dtype \<Rightarrow> real \<Rightarrow> variable list \<Rightarrow> bool list \<Rightarrow> gradFunc \<Rightarrow> bool" where
  "passes d ty dn ins calc f \<longleftrightarrow> (\<forall>g. \<exists>cs. f ins calc (ty, g) = Inr cs \<and> fits ins cs \<and>
     (\<forall>i<length ins. calc ! i \<longrightarrow> i \<in> fst ` set cs) \<and> weighted d ins calc cs = g * dn)"

definition node_ok :: "(nat \<Rightarrow> real) \<Rightarrow> (nat \<Rightarrow> dtype) \<Rightarrow> gradHeap \<Rightarrow> nat \<Rightarrow> bool" where
  "node_ok d T h n \<longleftrightarrow> (\<forall>v\<in>set (inputs (h ! n)). vgrad v < n \<and> vtype v = T (vgrad v)) \<and>
     (\<not> calcGrad (h ! n) \<longrightarrow> d n = 0 \<and> gradFunc (h ! n) = None) \<and> onGradAvailable (h ! n) = None \<and>
     (case gradFunc (h ! n) of
        None \<Rightarrow> inputs (h ! n) = []
      | Some f \<Rightarrow> passes d (T n) (d n) (inputs (h ! n)) (map (isCalcGrad h) (inputs (h ! n))) f)"

definition heap_ok :: "(nat \<Rightarrow> real) \<Rightarrow> (nat \<Rightarrow> dtype) \<Rightarrow> gradHeap \<Rightarrow> bool" where
  "heap_ok d T h \<longleftrightarrow> (\<forall>n<length h. node_ok d T h n)"

subsection \<open>The topological sort\<close>

fun ordered :: "gradHeap \<Rightarrow> variable list \<Rightarrow> bool" where
  "ordered h [] \<longleftrightarrow> True"
| "ordered h (v # vs) \<longleftrightarrow> vgrad v \<notin> vgrad ` set vs \<and> vgrad ` set (inputs (shared v h)) \<subseteq> vgrad ` set vs \<and> ordered h vs"

definition used_in :: "gradHeap \<Rightarrow> variable list \<Rightarrow> nat \<Rightarrow> bool" where
  "used_in h vs n \<longleftrightarrow> (\<exists>w\<in>set vs. n \<in> vgrad ` set (inputs (shared w h)))"

definition dag_ok :: "gradHeap \<Rightarrow> gradPtr list \<times> variable list \<Rightarrow> bool" where
  "dag_ok h st \<longleftrightarrow> set (fst st) = vgrad ` set (snd st) \<and> ordered h (rev (snd st))"

text \<open>What a visit adds: variables that are not newer, each the visited one or an input of another that was added.\<close>

definition adds :: "gradHeap \<Rightarrow> nat set \<Rightarrow> nat \<Rightarrow> gradPtr list \<times> variable list \<Rightarrow> gradPtr list \<times> variable list \<Rightarrow> bool" where
  "adds h roots bound st st' \<longleftrightarrow> (\<exists>new. snd st' = snd st @ new \<and>
     (\<forall>u\<in>set new. vgrad u < bound \<and> (vgrad u \<in> roots \<or> used_in h new (vgrad u))))"

lemma adds_trans:
  assumes "adds h A b st st'" "adds h B b st' st''"
  shows "adds h (A \<union> B) b st st''"
proof -
  obtain new where "snd st' = snd st @ new" "\<forall>u\<in>set new. vgrad u < b \<and> (vgrad u \<in> A \<or> used_in h new (vgrad u))" using assms(1) by (auto simp: adds_def)
  moreover obtain new' where "snd st'' = snd st' @ new'" "\<forall>u\<in>set new'. vgrad u < b \<and> (vgrad u \<in> B \<or> used_in h new' (vgrad u))" using assms(2) by (auto simp: adds_def)
  ultimately show ?thesis unfolding adds_def by (intro exI [of _ "new @ new'"]) (auto simp: used_in_def)
qed

lemma adds_refl: "adds h A b st st"
  by (auto simp: adds_def)

lemma adds_finish:
  assumes "adds h (vgrad ` set (inputs (shared v h))) (vgrad v) st st'"
  shows "adds h {vgrad v} (Suc (vgrad v)) st (c, snd st' @ [v])"
proof -
  obtain new where "snd st' = snd st @ new" "\<forall>u\<in>set new. vgrad u < vgrad v \<and> (vgrad u \<in> vgrad ` set (inputs (shared v h)) \<or> used_in h new (vgrad u))"
    using assms by (auto simp: adds_def)
  then show ?thesis unfolding adds_def by (intro exI [of _ "new @ [v]"]) (auto simp: used_in_def)
qed

lemma recurse_spec:
  assumes acyclic: "\<And>n w. n < length h \<Longrightarrow> w \<in> set (inputs (h ! n)) \<Longrightarrow> vgrad w < n"
  shows "vgrad v < fuel \<Longrightarrow> vgrad v < length h \<Longrightarrow> dag_ok h st \<Longrightarrow>
    \<exists>st'. recurse fuel h v st = Inr st' \<and> dag_ok h st' \<and> vgrad v \<in> set (fst st') \<and> set (fst st) \<subseteq> set (fst st') \<and> adds h {vgrad v} (Suc (vgrad v)) st st'"
proof (induction fuel arbitrary: v st)
  case (Suc fuel)
  show ?case
  proof (cases "vgrad v \<in> set (fst st)")
    case True
    then show ?thesis using Suc.prems by (intro exI [of _ st]) (simp add: adds_refl)
  next
    case False
    have visit: "\<exists>st'. rfold (recurse fuel h) ws st = Inr st' \<and> dag_ok h st' \<and> vgrad ` set ws \<subseteq> set (fst st') \<and> set (fst st) \<subseteq> set (fst st') \<and>
        adds h (vgrad ` set ws) (vgrad v) st st'" if "dag_ok h st" "\<And>w. w \<in> set ws \<Longrightarrow> vgrad w < vgrad v" for ws st
      using that
    proof (induction ws arbitrary: st)
      case (Cons w ws)
      obtain st1 where st1: "recurse fuel h w st = Inr st1" "dag_ok h st1" "vgrad w \<in> set (fst st1)" "set (fst st) \<subseteq> set (fst st1)" "adds h {vgrad w} (Suc (vgrad w)) st st1"
        using Suc.IH [of w st] Cons.prems(1) Cons.prems(2) [of w] Suc.prems(1,2) by auto
      obtain st2 where st2: "rfold (recurse fuel h) ws st1 = Inr st2" "dag_ok h st2" "vgrad ` set ws \<subseteq> set (fst st2)" "set (fst st1) \<subseteq> set (fst st2)" "adds h (vgrad ` set ws) (vgrad v) st1 st2"
        using Cons.IH [OF st1(2)] Cons.prems(2) by auto
      have "adds h {vgrad w} (vgrad v) st st1" using st1(5) Cons.prems(2) [of w] by (fastforce simp: adds_def)
      from adds_trans [OF this st2(5)] show ?case using st1 st2 by (intro exI [of _ st2]) auto
    qed (auto simp: adds_refl)
    obtain st1 where st1: "rfold (recurse fuel h) (inputs (shared v h)) st = Inr st1" "dag_ok h st1" "vgrad ` set (inputs (shared v h)) \<subseteq> set (fst st1)" "set (fst st) \<subseteq> set (fst st1)"
        "adds h (vgrad ` set (inputs (shared v h))) (vgrad v) st st1"
      using visit [OF Suc.prems(3), of "inputs (shared v h)"] acyclic [OF Suc.prems(2)] by (auto simp: shared_def)
    have "vgrad v \<notin> set (fst st1)"
    proof -
      obtain new where "snd st1 = snd st @ new" "\<forall>u\<in>set new. vgrad u < vgrad v" using st1(5) by (auto simp: adds_def)
      then have "vgrad v \<notin> vgrad ` set new" by auto
      then show ?thesis using False Suc.prems(3) st1(2) \<open>snd st1 = snd st @ new\<close> by (auto simp: dag_ok_def)
    qed
    then have "dag_ok h (vgrad v # fst st1, snd st1 @ [v])" using st1(2,3) by (simp add: dag_ok_def)
    moreover have "recurse (Suc fuel) h v st = Inr (vgrad v # fst st1, snd st1 @ [v])" using False st1(1) by (simp add: case_prod_unfold)
    ultimately show ?thesis using adds_finish [OF st1(5)] st1(4) by (intro exI [of _ "(vgrad v # fst st1, snd st1 @ [v])"]) auto
  qed
qed simp

lemma build_spec:
  assumes "\<And>n w. n < length h \<Longrightarrow> w \<in> set (inputs (h ! n)) \<Longrightarrow> vgrad w < n" "vgrad v < length h"
  shows "\<exists>dag. build v h = Inr dag \<and> ordered h (rev dag) \<and> vgrad v \<in> vgrad ` set dag \<and>
    (\<forall>u\<in>set dag. vgrad u < length h \<and> (vgrad u = vgrad v \<or> used_in h dag (vgrad u)))"
proof -
  have "dag_ok h ([], [])" by (simp add: dag_ok_def)
  from recurse_spec [OF assms(1) _ assms(2) this, of "vgrad v + 1"]
  obtain st' where st': "recurse (vgrad v + 1) h v ([], []) = Inr st'" "dag_ok h st'" "vgrad v \<in> set (fst st')" "adds h {vgrad v} (Suc (vgrad v)) ([], []) st'" by auto
  moreover have "vgrad u < length h \<and> (vgrad u = vgrad v \<or> used_in h (snd st') (vgrad u))" if "u \<in> set (snd st')" for u
  proof -
    from st'(4) that have "vgrad u < Suc (vgrad v) \<and> (vgrad u \<in> {vgrad v} \<or> used_in h (snd st') (vgrad u))" by (auto simp: adds_def)
    then show ?thesis using assms(2) by auto
  qed
  ultimately show ?thesis by (intro exI [of _ "snd st'"]) (auto simp: build_def dag_ok_def case_prod_unfold)
qed

subsection \<open>Adding gradients\<close>

text \<open>Two heaps that differ in gradients only.\<close>

definition same_graph :: "gradHeap \<Rightarrow> gradHeap \<Rightarrow> bool" where
  "same_graph h h' \<longleftrightarrow> length h' = length h \<and> (\<forall>n<length h. \<exists>g. h' ! n = (h ! n)\<lparr>grad := g\<rparr>)"

definition typed_grads :: "(nat \<Rightarrow> dtype) \<Rightarrow> gradHeap \<Rightarrow> bool" where
  "typed_grads T h \<longleftrightarrow> (\<forall>n<length h. \<forall>ty g. grad (h ! n) = Some (ty, g) \<longrightarrow> ty = T n)"

lemma same_graph_refl [simp]: "same_graph h h"
proof -
  have "h ! n = (h ! n)\<lparr>grad := grad (h ! n)\<rparr>" for n by simp
  then show ?thesis unfolding same_graph_def by blast
qed

lemma same_graph_trans: "same_graph h h' \<Longrightarrow> same_graph h' h'' \<Longrightarrow> same_graph h h''"
  unfolding same_graph_def by (metis (no_types, lifting) sharedGrad.update_convs(3) sharedGrad.surjective)

lemma same_graphD:
  assumes "same_graph h h'" "n < length h"
  shows "calcGrad (h' ! n) = calcGrad (h ! n)" "inputs (h' ! n) = inputs (h ! n)" "gradFunc (h' ! n) = gradFunc (h ! n)" "onGradAvailable (h' ! n) = onGradAvailable (h ! n)"
proof -
  obtain g where "h' ! n = (h ! n)\<lparr>grad := g\<rparr>" using assms by (auto simp: same_graph_def)
  then show "calcGrad (h' ! n) = calcGrad (h ! n)" "inputs (h' ! n) = inputs (h ! n)" "gradFunc (h' ! n) = gradFunc (h ! n)" "onGradAvailable (h' ! n) = onGradAvailable (h ! n)" by simp_all
qed

lemma gval_update: "n < length h \<Longrightarrow> gval (h[n := s]) m = (if m = n then (case grad s of Some (ty, g) \<Rightarrow> g | None \<Rightarrow> 0) else gval h m)"
  by (auto simp: gval_def)

lemma addGrad_spec:
  assumes v: "vgrad v < length h" "vtype v = T (vgrad v)" and T: "typed_grads T h"
  shows "\<exists>h'. addGrad v (vtype v, x) h = Inr h' \<and> same_graph h h' \<and> typed_grads T h' \<and>
    (\<forall>n<length h. gval h' n = gval h n + (if n = vgrad v \<and> calcGrad (h ! n) then x else 0)) \<and>
    (\<forall>n<length h. grad (h' ! n) \<noteq> None \<longleftrightarrow> grad (h ! n) \<noteq> None \<or> n = vgrad v \<and> calcGrad (h ! n)) \<and>
    (\<forall>n<length h. n \<noteq> vgrad v \<longrightarrow> h' ! n = h ! n)"
proof (cases "calcGrad (h ! vgrad v)")
  case True
  let ?g = "case grad (h ! vgrad v) of Some (gty, g) \<Rightarrow> (gty, g + x) | None \<Rightarrow> (vtype v, x)"
  let ?h = "h[vgrad v := (h ! vgrad v)\<lparr>grad := Some ?g\<rparr>]"
  have "addGrad v (vtype v, x) h = Inr ?h" using True by (auto simp: addGrad_def shared_def update_shared_def split: option.splits)
  moreover have "same_graph h ?h" using v(1) by (auto simp: same_graph_def nth_list_update)
    (metis sharedGrad.surjective sharedGrad.update_convs(3))
  moreover have "typed_grads T ?h" using T v by (auto simp: typed_grads_def nth_list_update split: option.splits)
  moreover have "\<forall>n<length h. gval ?h n = gval h n + (if n = vgrad v \<and> calcGrad (h ! n) then x else 0)"
    using True v(1) by (auto simp: gval_update split: option.splits) (auto simp: gval_def)
  moreover have "\<forall>n<length h. grad (?h ! n) \<noteq> None \<longleftrightarrow> grad (h ! n) \<noteq> None \<or> n = vgrad v \<and> calcGrad (h ! n)"
    using True v(1) by (auto simp: nth_list_update)
  ultimately show ?thesis by (intro exI [of _ ?h]) simp
next
  case False
  then show ?thesis using T by (intro exI [of _ h]) (auto simp: addGrad_def shared_def)
qed

lemma add_all:
  assumes ins: "\<And>w. w \<in> set ins \<Longrightarrow> vgrad w < length h \<and> vtype w = T (vgrad w)" and T: "typed_grads T h" and cs: "fits ins cs"
    and S: "finite S" "vgrad ` set ins \<subseteq> S" "S \<subseteq> {..<length h}"
  shows "\<exists>h'. rfold (\<lambda>(i, a) h. rbind (input_at ins i) (\<lambda>w. addGrad w a h)) cs h = Inr h' \<and> same_graph h h' \<and> typed_grads T h' \<and>
    (\<Sum>n\<in>S. gval h' n * d n) = (\<Sum>n\<in>S. gval h n * d n) + weighted d ins (map (isCalcGrad h) ins) cs \<and>
    (\<forall>n<length h. grad (h ! n) \<noteq> None \<longrightarrow> grad (h' ! n) \<noteq> None) \<and>
    (\<forall>i\<in>fst ` set cs. calcGrad (h ! vgrad (ins ! i)) \<longrightarrow> grad (h' ! vgrad (ins ! i)) \<noteq> None) \<and>
    (\<forall>n<length h. n \<notin> S \<longrightarrow> h' ! n = h ! n)"
  using ins T cs S(3)
proof (induction cs arbitrary: h)
  case Nil
  then show ?case by (simp add: weighted_def)
next
  case (Cons c cs)
  obtain i ty x where c: "c = (i, ty, x)" by (metis surj_pair)
  let ?n = "vgrad (ins ! i)"
  have i: "i < length ins" "ty = vtype (ins ! i)" "fits ins cs" using Cons.prems(3) c by (auto simp: fits_def)
  have w: "?n < length h" "vtype (ins ! i) = T ?n" using Cons.prems(1) i(1) nth_mem by blast+
  obtain h1 where h1: "addGrad (ins ! i) (ty, x) h = Inr h1" "same_graph h h1" "typed_grads T h1"
      "\<forall>n<length h. gval h1 n = gval h n + (if n = ?n \<and> calcGrad (h ! n) then x else 0)"
      "\<forall>n<length h. grad (h1 ! n) \<noteq> None \<longleftrightarrow> grad (h ! n) \<noteq> None \<or> n = ?n \<and> calcGrad (h ! n)" "\<forall>n<length h. n \<noteq> ?n \<longrightarrow> h1 ! n = h ! n"
    using addGrad_spec [OF w Cons.prems(2), of x] i(2) by auto
  have len: "length h1 = length h" using h1(2) by (simp add: same_graph_def)
  have calc: "map (isCalcGrad h1) ins = map (isCalcGrad h) ins" using Cons.prems(1) same_graphD(1) [OF h1(2)] by (auto simp: isCalcGrad_def shared_def)
  obtain h' where h': "rfold (\<lambda>(i, a) h. rbind (input_at ins i) (\<lambda>w. addGrad w a h)) cs h1 = Inr h'" "same_graph h1 h'" "typed_grads T h'"
      "(\<Sum>n\<in>S. gval h' n * d n) = (\<Sum>n\<in>S. gval h1 n * d n) + weighted d ins (map (isCalcGrad h1) ins) cs"
      "\<forall>n<length h1. grad (h1 ! n) \<noteq> None \<longrightarrow> grad (h' ! n) \<noteq> None"
      "\<forall>i\<in>fst ` set cs. calcGrad (h1 ! vgrad (ins ! i)) \<longrightarrow> grad (h' ! vgrad (ins ! i)) \<noteq> None" "\<forall>n<length h1. n \<notin> S \<longrightarrow> h' ! n = h1 ! n"
    using Cons.IH [OF _ h1(3) i(3)] Cons.prems(1,4) len by auto
  have nS: "?n \<in> S" using S(2) i(1) by auto
  have "(\<Sum>n\<in>S. gval h1 n * d n) = (\<Sum>n\<in>S. gval h n * d n + (if n = ?n then (if calcGrad (h ! n) then x * d n else 0) else 0))"
    using h1(4) Cons.prems(4) by (intro sum.cong) (auto simp: algebra_simps)
  also have "\<dots> = (\<Sum>n\<in>S. gval h n * d n) + (if calcGrad (h ! ?n) then x * d ?n else 0)" using S(1) nS by (simp add: sum.distrib)
  finally have "(\<Sum>n\<in>S. gval h' n * d n) = (\<Sum>n\<in>S. gval h n * d n) + weighted d ins (map (isCalcGrad h) ins) (c # cs)"
    using h'(4) calc i(1) by (simp add: weighted_def c isCalcGrad_def shared_def)
  moreover have "\<forall>j\<in>fst ` set (c # cs). calcGrad (h ! vgrad (ins ! j)) \<longrightarrow> grad (h' ! vgrad (ins ! j)) \<noteq> None"
  proof (intro ballI impI)
    fix j assume j: "j \<in> fst ` set (c # cs)" "calcGrad (h ! vgrad (ins ! j))"
    have jn: "vgrad (ins ! j) < length h" using j(1) Cons.prems(1,3) by (auto simp: fits_def)
    show "grad (h' ! vgrad (ins ! j)) \<noteq> None"
      using j h1(5) h'(5,6) len w(1) jn same_graphD(1) [OF h1(2) jn] by (auto simp: c)
  qed
  ultimately show ?case
    using h1(1,2,5,6) h'(1-3,5,7) len i(1) nS same_graph_trans [OF h1(2) h'(2)] by (intro exI [of _ h']) (auto simp: c input_at_def)
qed

subsection \<open>The sweep\<close>

text \<open>The nodes \<open>S\<close> still to be visited are those of the graph at the start, up to their gradients.\<close>

definition partly :: "gradHeap \<Rightarrow> gradHeap \<Rightarrow> nat set \<Rightarrow> bool" where
  "partly h0 h S \<longleftrightarrow> length h = length h0 \<and> (\<forall>n\<in>S. \<exists>g. h ! n = (h0 ! n)\<lparr>grad := g\<rparr>) \<and> (\<forall>n<length h0. calcGrad (h ! n) = calcGrad (h0 ! n))"

lemma partly_same:
  assumes "partly h0 h S" "same_graph h h'" "S \<subseteq> {..<length h0}"
  shows "partly h0 h' S"
proof -
  have "\<exists>g. h' ! n = (h0 ! n)\<lparr>grad := g\<rparr>" if n: "n \<in> S" for n
  proof -
    have "n < length h" using assms(1,3) n by (auto simp: partly_def)
    then obtain g g' where "h ! n = (h0 ! n)\<lparr>grad := g\<rparr>" "h' ! n = (h ! n)\<lparr>grad := g'\<rparr>" using assms(1,2) n unfolding partly_def same_graph_def by blast
    then show ?thesis by auto
  qed
  moreover have "length h' = length h0" using assms(1,2) by (simp add: partly_def same_graph_def)
  moreover have "calcGrad (h' ! n) = calcGrad (h0 ! n)" if "n < length h0" for n
    using assms(1) same_graphD(1) [OF assms(2), of n] that by (simp add: partly_def)
  ultimately show ?thesis by (simp add: partly_def)
qed

lemma partly_refl: "partly h h S"
proof -
  have "h ! n = (h ! n)\<lparr>grad := grad (h ! n)\<rparr>" for n by simp
  then show ?thesis unfolding partly_def by blast
qed

lemma nth_update: "xs[n := x] ! m = (if m = n \<and> n < length xs then x else xs ! m)"
  by (cases "n < length xs") (auto simp: nth_list_update list_update_beyond)

lemma partly_clear:
  assumes "partly h0 h S" "n \<notin> S"
  shows "partly h0 (h[n := (h ! n)\<lparr>inputs := []\<rparr>]) S"
  using assms by (auto simp: partly_def nth_update)

lemma typed_clear: "typed_grads T h \<Longrightarrow> typed_grads T (h[n := (h ! n)\<lparr>inputs := []\<rparr>])"
  by (auto simp: typed_grads_def nth_update split: if_splits)

lemma grad_clear [simp]: "grad (h[n := (h ! n)\<lparr>inputs := []\<rparr>] ! m) = grad (h ! m)"
  by (simp add: nth_update)

lemma visit_node:
  assumes ok: "heap_ok d T h0" and ord: "ordered h0 (v # vs)" and n: "insert (vgrad v) (vgrad ` set vs) \<subseteq> {..<length h0}"
    and part: "partly h0 h (insert (vgrad v) (vgrad ` set vs))" and T: "typed_grads T h"
    and avail: "calcGrad (h0 ! vgrad v) \<Longrightarrow> grad (h ! vgrad v) \<noteq> None"
  shows "\<exists>h'. rbind (calcGradInputs r v h) (applyGradHook v) = Inr h' \<and> partly h0 h' (vgrad ` set vs) \<and> typed_grads T h' \<and>
    (\<Sum>m\<in>vgrad ` set vs. gval h' m * d m) = (\<Sum>m\<in>vgrad ` set vs. gval h m * d m) + (if gradFunc (h0 ! vgrad v) = None then 0 else gval h (vgrad v) * d (vgrad v)) \<and>
    (\<forall>m<length h0. grad (h ! m) \<noteq> None \<longrightarrow> grad (h' ! m) \<noteq> None) \<and>
    (\<forall>w\<in>set (inputs (h0 ! vgrad v)). calcGrad (h0 ! vgrad w) \<longrightarrow> grad (h' ! vgrad w) \<noteq> None) \<and>
    (\<forall>m<length h0. m \<notin> vgrad ` set vs \<longrightarrow> grad (h' ! m) = grad (h ! m))"
proof -
  let ?n = "vgrad v" and ?S = "vgrad ` set vs"
  obtain g0 where hn: "h ! ?n = (h0 ! ?n)\<lparr>grad := g0\<rparr>" using part by (auto simp: partly_def)
  have len: "length h = length h0" using part by (simp add: partly_def)
  have nS: "?n \<notin> ?S" "?n < length h0" "?S \<subseteq> {..<length h0}" using ord n by auto
  have node: "node_ok d T h0 ?n" using ok nS(2) by (simp add: heap_ok_def)
  have hook: "onGradAvailable (h0 ! ?n) = None" using node by (simp add: node_ok_def)
  have partS: "partly h0 h ?S" using part by (auto simp: partly_def)
  show ?thesis
  proof (cases "gradFunc (h0 ! ?n)")
    case None
    let ?h = "if r then h else h[?n := (h ! ?n)\<lparr>inputs := []\<rparr>]"
    have "rbind (calcGradInputs r v h) (applyGradHook v) = Inr ?h"
      using None hn hook nS(2) len by (auto simp: calcGradInputs_def shared_def update_shared_def applyGradHook_def)
    moreover have "inputs (h0 ! ?n) = []" using node None by (simp add: node_ok_def)
    moreover have "gval ?h m = gval h m" for m by (simp add: gval_def)
    ultimately show ?thesis using None T typed_clear partS partly_clear [OF partS nS(1)] by (intro exI [of _ ?h]) auto
  next
    case (Some f)
    have "calcGrad (h0 ! ?n)" using node Some by (auto simp: node_ok_def)
    then obtain g where g: "grad (h ! ?n) = Some (T ?n, g)" using avail T nS(2) len unfolding typed_grads_def by (metis not_None_eq surj_pair)
    let ?ins = "inputs (h0 ! ?n)"
    have ins: "vgrad w < length h \<and> vtype w = T (vgrad w)" if "w \<in> set ?ins" for w using node that nS(2) len by (auto simp: node_ok_def)
    have calc: "map (isCalcGrad h) ?ins = map (isCalcGrad h0) ?ins" using ins part len by (auto simp: isCalcGrad_def shared_def partly_def)
    obtain cs where cs: "f ?ins (map (isCalcGrad h) ?ins) (T ?n, g) = Inr cs" "fits ?ins cs" "\<forall>i<length ?ins. map (isCalcGrad h) ?ins ! i \<longrightarrow> i \<in> fst ` set cs"
        "weighted d ?ins (map (isCalcGrad h) ?ins) cs = g * d ?n"
    proof -
      have "passes d (T ?n) (d ?n) ?ins (map (isCalcGrad h0) ?ins) f" using node Some by (simp add: node_ok_def)
      then show thesis using that unfolding calc passes_def by blast
    qed
    have insS: "vgrad ` set ?ins \<subseteq> ?S" using ord by (simp add: shared_def)
    obtain h1 where h1: "rfold (\<lambda>(i, a) h. rbind (input_at ?ins i) (\<lambda>w. addGrad w a h)) cs h = Inr h1" "same_graph h h1" "typed_grads T h1"
        "(\<Sum>m\<in>?S. gval h1 m * d m) = (\<Sum>m\<in>?S. gval h m * d m) + g * d ?n"
        "\<forall>m<length h. grad (h ! m) \<noteq> None \<longrightarrow> grad (h1 ! m) \<noteq> None"
        "\<forall>i\<in>fst ` set cs. calcGrad (h ! vgrad (?ins ! i)) \<longrightarrow> grad (h1 ! vgrad (?ins ! i)) \<noteq> None" "\<forall>m<length h. m \<notin> ?S \<longrightarrow> h1 ! m = h ! m"
      using add_all [of ?ins h T cs ?S d] ins T cs(2,4) insS nS(3) len by auto
    let ?h = "if r then h1 else h1[?n := (h1 ! ?n)\<lparr>inputs := []\<rparr>]"
    have "gradFunc (h ! ?n) = Some f" "inputs (h ! ?n) = ?ins" using hn Some by simp_all
    moreover have "onGradAvailable (?h ! ?n) = None"
      using hook hn same_graphD(4) [OF h1(2)] nS(2) len h1(2) by (auto simp: same_graph_def)
    ultimately have run: "rbind (calcGradInputs r v h) (applyGradHook v) = Inr ?h"
      using g cs(1) h1(1) by (cases r) (simp_all add: calcGradInputs_def shared_def update_shared_def applyGradHook_def)
    have part1: "partly h0 h1 ?S" by (rule partly_same [OF partS h1(2) nS(3)])
    have reached: "grad (h1 ! vgrad w) \<noteq> None" if w: "w \<in> set ?ins" "calcGrad (h0 ! vgrad w)" for w
    proof -
      obtain i where i: "i < length ?ins" "?ins ! i = w" using w(1) by (auto simp: in_set_conv_nth)
      have "calcGrad (h ! vgrad w)" using w ins part len by (auto simp: partly_def)
      then show ?thesis using h1(6) cs(3) i by (auto simp: isCalcGrad_def shared_def)
    qed
    have "gval ?h m = gval h1 m" for m by (simp add: gval_def)
    moreover have "gval h ?n = g" using g by (simp add: gval_def)
    ultimately show ?thesis
      using run Some h1(3-5,7) reached part1 partly_clear [OF part1 nS(1)] typed_clear [OF h1(3)] len by (intro exI [of _ ?h]) auto
  qed
qed

lemma sweep:
  assumes ok: "heap_ok d T h0"
  shows "ordered h0 vs \<Longrightarrow> vgrad ` set vs \<subseteq> {..<length h0} \<Longrightarrow> partly h0 h (vgrad ` set vs) \<Longrightarrow> typed_grads T h \<Longrightarrow>
    (\<And>v. v \<in> set vs \<Longrightarrow> calcGrad (h0 ! vgrad v) \<Longrightarrow> grad (h ! vgrad v) \<noteq> None \<or> used_in h0 vs (vgrad v)) \<Longrightarrow>
    \<exists>h'. rfold (\<lambda>iter h. rbind (calcGradInputs r iter h) (applyGradHook iter)) vs h = Inr h' \<and> typed_grads T h' \<and> length h' = length h0 \<and>
      (\<forall>n<length h0. n \<notin> vgrad ` set vs \<longrightarrow> grad (h' ! n) = grad (h ! n)) \<and>
      (\<Sum>n | n \<in> vgrad ` set vs \<and> gradFunc (h0 ! n) = None. gval h' n * d n) = (\<Sum>n\<in>vgrad ` set vs. gval h n * d n)"
proof (induction vs arbitrary: h)
  case (Cons v vs)
  let ?n = "vgrad v" and ?S = "vgrad ` set vs"
  have nS: "?n \<notin> ?S" "?n < length h0" "?S \<subseteq> {..<length h0}" using Cons.prems(1,2) by auto
  have below: "vgrad w < m" if "m < length h0" "w \<in> set (inputs (h0 ! m))" for m w using ok that by (auto simp: heap_ok_def node_ok_def)
  have closed: "vgrad x \<in> ?S" if "w \<in> set vs" "x \<in> set (inputs (h0 ! vgrad w))" for w x
  proof -
    have "ordered h0 us \<Longrightarrow> w \<in> set us \<Longrightarrow> vgrad x \<in> vgrad ` set us" for us using that(2) by (induction us) (auto simp: shared_def)
    then show ?thesis using Cons.prems(1) that(1) by simp
  qed
  have unused: "\<not> used_in h0 (v # vs) ?n"
  proof
    assume "used_in h0 (v # vs) ?n"
    then obtain w where w: "w \<in> set (v # vs)" "?n \<in> vgrad ` set (inputs (h0 ! vgrad w))" unfolding used_in_def shared_def by blast
    then obtain x where "w = v \<or> w \<in> set vs" "x \<in> set (inputs (h0 ! vgrad w))" "vgrad x = ?n" by fastforce
    then show False using below [OF nS(2), of x] closed [of w x] nS(1) by auto
  qed
  have "grad (h ! ?n) \<noteq> None" if "calcGrad (h0 ! ?n)" using Cons.prems(5) [of v] that unused by auto
  then obtain h1 where h1: "rbind (calcGradInputs r v h) (applyGradHook v) = Inr h1" "partly h0 h1 ?S" "typed_grads T h1"
      "(\<Sum>m\<in>?S. gval h1 m * d m) = (\<Sum>m\<in>?S. gval h m * d m) + (if gradFunc (h0 ! ?n) = None then 0 else gval h ?n * d ?n)"
      "\<forall>m<length h0. grad (h ! m) \<noteq> None \<longrightarrow> grad (h1 ! m) \<noteq> None"
      "\<forall>w\<in>set (inputs (h0 ! ?n)). calcGrad (h0 ! vgrad w) \<longrightarrow> grad (h1 ! vgrad w) \<noteq> None"
      "\<forall>m<length h0. m \<notin> ?S \<longrightarrow> grad (h1 ! m) = grad (h ! m)"
    using visit_node [OF ok Cons.prems(1), of h r] Cons.prems(2-4) by auto
  have "grad (h1 ! vgrad u) \<noteq> None \<or> used_in h0 vs (vgrad u)" if u: "u \<in> set vs" "calcGrad (h0 ! vgrad u)" for u
  proof (cases "used_in h0 vs (vgrad u)")
    case False
    have un: "vgrad u < length h0" using u(1) nS(3) by auto
    from Cons.prems(5) [of u] u have "grad (h ! vgrad u) \<noteq> None \<or> used_in h0 (v # vs) (vgrad u)" by simp
    then show ?thesis
    proof
      assume "grad (h ! vgrad u) \<noteq> None"
      then show ?thesis using h1(5) un by blast
    next
      assume "used_in h0 (v # vs) (vgrad u)"
      then have "vgrad u \<in> vgrad ` set (inputs (h0 ! ?n))" using False by (auto simp: used_in_def shared_def)
      then obtain w where "w \<in> set (inputs (h0 ! ?n))" "vgrad w = vgrad u" by auto
      then show ?thesis using h1(6) u(2) by metis
    qed
  qed simp
  then obtain h' where typed: "typed_grads T h'" "length h' = length h0" and h': "rfold (\<lambda>iter h. rbind (calcGradInputs r iter h) (applyGradHook iter)) vs h1 = Inr h'"
      "\<forall>n<length h0. n \<notin> ?S \<longrightarrow> grad (h' ! n) = grad (h1 ! n)"
      "(\<Sum>n | n \<in> ?S \<and> gradFunc (h0 ! n) = None. gval h' n * d n) = (\<Sum>n\<in>?S. gval h1 n * d n)"
    using Cons.IH [OF _ nS(3) h1(2,3)] Cons.prems(1) by auto
  have gn: "gval h' ?n = gval h ?n" using h'(2) h1(7) nS(1,2) by (simp add: gval_def)
  have leaves: "{n \<in> vgrad ` set (v # vs). gradFunc (h0 ! n) = None} =
      (if gradFunc (h0 ! ?n) = None then insert ?n {n \<in> ?S. gradFunc (h0 ! n) = None} else {n \<in> ?S. gradFunc (h0 ! n) = None})" by auto
  have "(\<Sum>n | n \<in> vgrad ` set (v # vs) \<and> gradFunc (h0 ! n) = None. gval h' n * d n) = (\<Sum>n\<in>vgrad ` set (v # vs). gval h n * d n)"
    unfolding leaves using h'(3) h1(4) gn nS(1) by simp
  then show ?case using h1(1,7) h'(1,2) typed by (intro exI [of _ h']) auto
qed (simp add: partly_def)

text \<open>
  \<open>backward\<close> on a graph without gradients: it succeeds, and the gradients of the leaves, weighted, sum up to the weight of the result.
\<close>

lemma backward_sum:
  assumes ok: "heap_ok d T h" and v: "vgrad v < length h" "vtype v = T (vgrad v)" and calc: "calcGrad (h ! vgrad v)" and fresh: "\<And>n. n < length h \<Longrightarrow> grad (h ! n) = None"
  shows "\<exists>h' D. backward r v h = Inr h' \<and> typed_grads T h' \<and> length h' = length h \<and> finite D \<and> D \<subseteq> {n. n < length h \<and> gradFunc (h ! n) = None} \<and>
    (\<Sum>n\<in>D. gval h' n * d n) = d (vgrad v) \<and> (\<forall>n<length h. gradFunc (h ! n) = None \<longrightarrow> n \<notin> D \<longrightarrow> grad (h' ! n) = None)"
proof -
  let ?n = "vgrad v"
  have T: "typed_grads T h" using fresh by (simp add: typed_grads_def)
  obtain h1 where h1: "addGrad v (vtype v, 1) h = Inr h1" "same_graph h h1" "typed_grads T h1"
      "\<forall>n<length h. gval h1 n = gval h n + (if n = ?n \<and> calcGrad (h ! n) then 1 else 0)"
      "\<forall>n<length h. grad (h1 ! n) \<noteq> None \<longleftrightarrow> grad (h ! n) \<noteq> None \<or> n = ?n \<and> calcGrad (h ! n)"
    using addGrad_spec [OF v T, of 1] by auto
  have len: "length h1 = length h" using h1(2) by (simp add: same_graph_def)
  have ins: "inputs (h1 ! n) = inputs (h ! n)" if "n < length h" for n using same_graphD(2) [OF h1(2) that] .
  have below: "vgrad w < n" if "n < length h1" "w \<in> set (inputs (h1 ! n))" for n w using ok that ins len by (auto simp: heap_ok_def node_ok_def)
  obtain dag where dag: "build v h1 = Inr dag" "ordered h1 (rev dag)" "?n \<in> vgrad ` set dag"
      "\<forall>u\<in>set dag. vgrad u < length h1 \<and> (vgrad u = ?n \<or> used_in h1 dag (vgrad u))" using build_spec [of h1 v, OF below] v(1) len by auto
  have small: "vgrad ` set (rev dag) \<subseteq> {..<length h}" using dag(4) len by auto
  have ord: "ordered h (rev dag)"
  proof -
    have "vgrad ` set vs \<subseteq> {..<length h} \<Longrightarrow> ordered h1 vs \<Longrightarrow> ordered h vs" for vs using ins by (induction vs) (auto simp: shared_def)
    then show ?thesis using small dag(2) by blast
  qed
  have part: "partly h h1 (vgrad ` set (rev dag))" by (rule partly_same [OF partly_refl h1(2) small])
  have avail: "grad (h1 ! vgrad u) \<noteq> None \<or> used_in h (rev dag) (vgrad u)" if u: "u \<in> set (rev dag)" for u
  proof (cases "vgrad u = ?n")
    case True
    then show ?thesis using h1(5) v(1) calc by simp
  next
    case False
    then obtain w where w: "w \<in> set dag" "vgrad u \<in> vgrad ` set (inputs (h1 ! vgrad w))" using dag(4) u by (auto simp: used_in_def shared_def)
    then have "inputs (h1 ! vgrad w) = inputs (h ! vgrad w)" using dag(4) len ins by auto
    then show ?thesis using w unfolding used_in_def shared_def by (intro disjI2 bexI [of _ w]) simp_all
  qed
  obtain h' where typed: "typed_grads T h'" "length h' = length h" and h': "rfold (\<lambda>iter h. rbind (calcGradInputs r iter h) (applyGradHook iter)) (rev dag) h1 = Inr h'"
      "\<forall>n<length h. n \<notin> vgrad ` set (rev dag) \<longrightarrow> grad (h' ! n) = grad (h1 ! n)"
      "(\<Sum>n | n \<in> vgrad ` set (rev dag) \<and> gradFunc (h ! n) = None. gval h' n * d n) = (\<Sum>n\<in>vgrad ` set (rev dag). gval h1 n * d n)"
    using sweep [OF ok ord small part h1(3) avail] by blast
  have "(\<Sum>n\<in>vgrad ` set (rev dag). gval h1 n * d n) = (\<Sum>n\<in>vgrad ` set (rev dag). if n = ?n then d n else 0)"
    using h1(4) fresh small calc by (intro sum.cong) (auto simp: gval_def)
  also have "\<dots> = d ?n" using dag(3) by simp
  finally have total: "(\<Sum>n | n \<in> vgrad ` set (rev dag) \<and> gradFunc (h ! n) = None. gval h' n * d n) = d ?n" using h'(3) by simp
  have "backward r v h = Inr h'" using h1(1) dag(1) h'(1) by (simp add: backward_def backward_with_def)
  moreover have "grad (h' ! n) = None" if "n < length h" "n \<notin> vgrad ` set (rev dag)" for n
  proof -
    have "n \<noteq> ?n" using that(2) dag(3) by auto
    then have "grad (h1 ! n) = None" using h1(5) fresh that(1) by auto
    then show ?thesis using h'(2) that by simp
  qed
  ultimately show ?thesis using total small typed by (intro exI [of _ h'] exI [of _ "{n. n \<in> vgrad ` set (rev dag) \<and> gradFunc (h ! n) = None}"]) auto
qed

end
