(* ===== verification/AutogradFunctions.thy ===== *)
theory AutogradFunctions
  imports Autograd
begin

section \<open>Differentiable operators (\<^verbatim>\<open>fl/autograd/Functions.cpp\<close>, \<^verbatim>\<open>fl/nn/modules/Activations.cpp\<close>)\<close>

text \<open>
  The operators that work element by element, at the default optimisation level, where inputs are not cast. An operator keeps the data of an
  input only if its gradient function needs it. A result that is not a number, such as a quotient by zero, leaves the model:
  it is marked as \<open>Undefined\<close>. Arithmetic on the gradient goes through the same checks of types as the operators.
\<close>

definition not_finite :: exn where
  "not_finite = Undefined ''not a finite number''"

definition types_match :: "string \<Rightarrow> dtype \<Rightarrow> dtype \<Rightarrow> unit result" where
  "types_match func a b =
     (if a = b then Inr ()
      else Inl (Invalid_argument (func @ '' doesn't support binary operations with Variables of different types'')))"

text \<open>Operators on a gradient and an input, inside gradient functions.\<close>

definition arr_times :: "arr \<Rightarrow> arr \<Rightarrow> arr result" where
  "arr_times a b = rbind (types_match ''operator*'' (fst a) (fst b)) (\<lambda>_. Inr (fst a, snd a * snd b))"

definition arr_divide :: "arr \<Rightarrow> arr \<Rightarrow> arr result" where
  "arr_divide a b = rbind (types_match ''operator/'' (fst a) (fst b)) (\<lambda>_.
     if snd b = 0 then Inl not_finite else Inr (fst a, snd a / snd b))"

definition arr_map :: "(real \<Rightarrow> real) \<Rightarrow> arr \<Rightarrow> arr" where
  "arr_map f a = (fst a, f (snd a))"

definition input_arr :: "variable list \<Rightarrow> nat \<Rightarrow> arr result" where
  "input_arr ins i = rbind (input_at ins i) (\<lambda>v. rbind (array_of v) (\<lambda>x. Inr (vtype v, x)))"

definition arr_reciprocal :: "arr \<Rightarrow> arr result" where
  "arr_reciprocal a = (if snd a = 0 then Inl not_finite else Inr (fst a, 1 / snd a))"

text \<open>A gradient for an input, computed only if that input wants one.\<close>

definition if_calc :: "variable list \<Rightarrow> bool list \<Rightarrow> nat \<Rightarrow> arr result \<Rightarrow> (nat \<times> arr) list result" where
  "if_calc ins calc i r = rbind (input_at ins i) (\<lambda>_. if calc ! i then rbind r (\<lambda>a. Inr [(i, a)]) else Inr [])"

definition both :: "(nat \<times> arr) list result \<Rightarrow> (nat \<times> arr) list result \<Rightarrow> (nat \<times> arr) list result" where
  "both a b = rbind a (\<lambda>xs. rbind b (\<lambda>ys. Inr (xs @ ys)))"

definition one :: "arr result \<Rightarrow> (nat \<times> arr) list result" where
  "one r = rbind r (\<lambda>a. Inr [(0, a)])"

subsection \<open>Arithmetic\<close>

definition op_plus :: "variable \<Rightarrow> variable \<Rightarrow> gradHeap \<Rightarrow> (variable \<times> gradHeap) result" where
  "op_plus lhs rhs h =
     rbind (types_match ''operator+'' (vtype lhs) (vtype rhs)) (\<lambda>_. rbind (array_of lhs) (\<lambda>x. rbind (array_of rhs) (\<lambda>y.
     Inr (op_variable (vtype lhs) (x + y) [withoutData lhs, withoutData rhs] (\<lambda>ins calc g. Inr [(0, g), (1, g)]) h))))"

definition op_plus_scalar :: "variable \<Rightarrow> real \<Rightarrow> gradHeap \<Rightarrow> (variable \<times> gradHeap) result" where
  "op_plus_scalar lhs c h = rbind (array_of lhs) (\<lambda>x.
     Inr (op_variable (vtype lhs) (x + c) [withoutData lhs] (\<lambda>ins calc g. Inr [(0, g)]) h))"

definition op_minus :: "variable \<Rightarrow> variable \<Rightarrow> gradHeap \<Rightarrow> (variable \<times> gradHeap) result" where
  "op_minus lhs rhs h =
     rbind (types_match ''operator-'' (vtype lhs) (vtype rhs)) (\<lambda>_. rbind (array_of lhs) (\<lambda>x. rbind (array_of rhs) (\<lambda>y.
     Inr (op_variable (vtype lhs) (x - y) [withoutData lhs, withoutData rhs] (\<lambda>ins calc g. Inr [(0, g), (1, arr_map uminus g)]) h))))"

definition op_minus_scalar :: "variable \<Rightarrow> real \<Rightarrow> gradHeap \<Rightarrow> (variable \<times> gradHeap) result" where
  "op_minus_scalar lhs c h = rbind (array_of lhs) (\<lambda>x.
     Inr (op_variable (vtype lhs) (x - c) [withoutData lhs] (\<lambda>ins calc g. Inr [(0, g)]) h))"

definition op_scalar_minus :: "real \<Rightarrow> variable \<Rightarrow> gradHeap \<Rightarrow> (variable \<times> gradHeap) result" where
  "op_scalar_minus c rhs h = rbind (array_of rhs) (\<lambda>x.
     Inr (op_variable (vtype rhs) (c - x) [withoutData rhs] (\<lambda>ins calc g. Inr [(0, arr_map uminus g)]) h))"

definition op_times :: "variable \<Rightarrow> variable \<Rightarrow> gradHeap \<Rightarrow> (variable \<times> gradHeap) result" where
  "op_times lhs rhs h =
     rbind (types_match ''operator*'' (vtype lhs) (vtype rhs)) (\<lambda>_. rbind (array_of lhs) (\<lambda>x. rbind (array_of rhs) (\<lambda>y.
     Inr (op_variable (vtype lhs) (x * y)
       [if isCalcGrad h rhs then lhs else withoutData lhs, if isCalcGrad h lhs then rhs else withoutData rhs]
       (\<lambda>ins calc g.
          both (if_calc ins calc 0 (rbind (input_arr ins 1) (arr_times g)))
               (if_calc ins calc 1 (rbind (input_arr ins 0) (arr_times g)))) h))))"

definition op_times_scalar :: "variable \<Rightarrow> real \<Rightarrow> gradHeap \<Rightarrow> (variable \<times> gradHeap) result" where
  "op_times_scalar lhs c h = rbind (array_of lhs) (\<lambda>x.
     Inr (op_variable (vtype lhs) (x * c) [withoutData lhs] (\<lambda>ins calc g. Inr [(0, arr_map (\<lambda>g. g * c) g)]) h))"

definition op_divide :: "variable \<Rightarrow> variable \<Rightarrow> gradHeap \<Rightarrow> (variable \<times> gradHeap) result" where
  "op_divide lhs rhs h =
     rbind (types_match ''operator/'' (vtype lhs) (vtype rhs)) (\<lambda>_. rbind (array_of lhs) (\<lambda>x. rbind (array_of rhs) (\<lambda>y.
     if y = 0 then Inl not_finite
     else Inr (op_variable (vtype lhs) (x / y) [if isCalcGrad h rhs then lhs else withoutData lhs, rhs]
       (\<lambda>ins calc g.
          rbind (rbind (input_arr ins 1) arr_reciprocal) (\<lambda>inputs1rec.
          rbind (arr_times g inputs1rec) (\<lambda>gradInput0.
          both (if_calc ins calc 0 (Inr gradInput0))
               (if_calc ins calc 1 (rbind (input_arr ins 0) (\<lambda>a. rbind (arr_times gradInput0 (arr_map uminus a)) (\<lambda>b. arr_times b inputs1rec)))))))
       h))))"

definition op_divide_scalar :: "variable \<Rightarrow> real \<Rightarrow> gradHeap \<Rightarrow> (variable \<times> gradHeap) result" where
  "op_divide_scalar lhs c h = rbind (array_of lhs) (\<lambda>x.
     if c = 0 then Inl not_finite
     else Inr (op_variable (vtype lhs) (x / c) [withoutData lhs] (\<lambda>ins calc g. Inr [(0, arr_map (\<lambda>g. g / c) g)]) h))"

definition op_scalar_divide :: "real \<Rightarrow> variable \<Rightarrow> gradHeap \<Rightarrow> (variable \<times> gradHeap) result" where
  "op_scalar_divide c rhs h = rbind (array_of rhs) (\<lambda>y.
     if y = 0 then Inl not_finite
     else Inr (op_variable (vtype rhs) (c / y) [rhs]
       (\<lambda>ins calc g. one (rbind (input_arr ins 0) (\<lambda>a. rbind (arr_times a a) (arr_divide (arr_map (\<lambda>g. g * - c) g))))) h))"

subsection \<open>Maximum and minimum\<close>

definition mask :: "bool \<Rightarrow> real" where
  "mask b = (if b then 1 else 0)"

definition op_max :: "variable \<Rightarrow> variable \<Rightarrow> gradHeap \<Rightarrow> (variable \<times> gradHeap) result" where
  "op_max lhs rhs h =
     rbind (types_match ''max'' (vtype lhs) (vtype rhs)) (\<lambda>_. rbind (array_of lhs) (\<lambda>x. rbind (array_of rhs) (\<lambda>y.
     Inr (op_variable (vtype lhs) (max x y) [lhs, rhs]
       (\<lambda>ins calc g. rbind (input_arr ins 0) (\<lambda>a. rbind (input_arr ins 1) (\<lambda>b.
          Inr [(0, arr_map (\<lambda>g. mask (snd a > snd b) * g) g), (1, arr_map (\<lambda>g. mask (\<not> snd a > snd b) * g) g)]))) h))))"

definition op_max_scalar :: "variable \<Rightarrow> real \<Rightarrow> gradHeap \<Rightarrow> (variable \<times> gradHeap) result" where
  "op_max_scalar lhs c h = rbind (array_of lhs) (\<lambda>x.
     Inr (op_variable (vtype lhs) (max x c) [lhs]
       (\<lambda>ins calc g. one (rbind (input_arr ins 0) (\<lambda>a. Inr (arr_map (\<lambda>g. mask (snd a > c) * g) g)))) h))"

definition op_min :: "variable \<Rightarrow> variable \<Rightarrow> gradHeap \<Rightarrow> (variable \<times> gradHeap) result" where
  "op_min lhs rhs h =
     rbind (types_match ''min'' (vtype lhs) (vtype rhs)) (\<lambda>_. rbind (array_of lhs) (\<lambda>x. rbind (array_of rhs) (\<lambda>y.
     Inr (op_variable (vtype lhs) (min x y) [lhs, rhs]
       (\<lambda>ins calc g. rbind (input_arr ins 0) (\<lambda>a. rbind (input_arr ins 1) (\<lambda>b.
          Inr [(0, arr_map (\<lambda>g. mask (snd a < snd b) * g) g), (1, arr_map (\<lambda>g. mask (\<not> snd a < snd b) * g) g)]))) h))))"

definition op_min_scalar :: "variable \<Rightarrow> real \<Rightarrow> gradHeap \<Rightarrow> (variable \<times> gradHeap) result" where
  "op_min_scalar lhs c h = rbind (array_of lhs) (\<lambda>x.
     Inr (op_variable (vtype lhs) (min x c) [lhs]
       (\<lambda>ins calc g. one (rbind (input_arr ins 0) (\<lambda>a. Inr (arr_map (\<lambda>g. mask (snd a < c) * g) g)))) h))"

subsection \<open>Functions of one variable\<close>

definition op_negate :: "variable \<Rightarrow> gradHeap \<Rightarrow> (variable \<times> gradHeap) result" where
  "op_negate v h = rbind (array_of v) (\<lambda>x.
     Inr (op_variable (vtype v) (0 - x) [withoutData v] (\<lambda>ins calc g. Inr [(0, arr_map uminus g)]) h))"

definition op_reciprocal :: "variable \<Rightarrow> gradHeap \<Rightarrow> (variable \<times> gradHeap) result" where
  "op_reciprocal v h = rbind (array_of v) (\<lambda>x.
     if x = 0 then Inl not_finite
     else Inr (op_variable (vtype v) (1 / x) [v]
       (\<lambda>ins calc g. one (rbind (rbind (input_arr ins 0) arr_reciprocal) (\<lambda>r. rbind (arr_times (arr_map uminus g) r) (\<lambda>b. arr_times b r)))) h))"

definition op_exp :: "variable \<Rightarrow> gradHeap \<Rightarrow> (variable \<times> gradHeap) result" where
  "op_exp v h = rbind (array_of v) (\<lambda>x.
     Inr (op_variable (vtype v) (exp x) [v] (\<lambda>ins calc g. one (rbind (input_arr ins 0) (\<lambda>a. Inr (arr_map (\<lambda>g. g * exp (snd a)) g)))) h))"

definition op_log :: "variable \<Rightarrow> gradHeap \<Rightarrow> (variable \<times> gradHeap) result" where
  "op_log v h = rbind (array_of v) (\<lambda>x.
     if x \<le> 0 then Inl not_finite
     else Inr (op_variable (vtype v) (ln x) [v] (\<lambda>ins calc g. one (rbind (input_arr ins 0) (arr_divide g))) h))"

definition op_log1p :: "variable \<Rightarrow> gradHeap \<Rightarrow> (variable \<times> gradHeap) result" where
  "op_log1p v h = rbind (array_of v) (\<lambda>x.
     if 1 + x \<le> 0 then Inl not_finite
     else Inr (op_variable (vtype v) (ln (1 + x)) [v] (\<lambda>ins calc g. one (rbind (input_arr ins 0) (\<lambda>a. arr_divide g (arr_map (\<lambda>x. 1 + x) a)))) h))"

text \<open>Powers are modelled for positive bases.\<close>

definition op_pow :: "real \<Rightarrow> variable \<Rightarrow> gradHeap \<Rightarrow> (variable \<times> gradHeap) result" where
  "op_pow p v h = rbind (array_of v) (\<lambda>x.
     if x \<le> 0 then Inl not_finite
     else Inr (op_variable (vtype v) (x powr p) [v]
       (\<lambda>ins calc g. one (rbind (input_arr ins 0) (\<lambda>a. Inr (arr_map (\<lambda>g. p * snd a powr (p - 1) * g) g)))) h))"

definition op_sin :: "variable \<Rightarrow> gradHeap \<Rightarrow> (variable \<times> gradHeap) result" where
  "op_sin v h = rbind (array_of v) (\<lambda>x.
     Inr (op_variable (vtype v) (sin x) [v] (\<lambda>ins calc g. one (rbind (input_arr ins 0) (\<lambda>a. arr_times g (arr_map cos a)))) h))"

definition op_cos :: "variable \<Rightarrow> gradHeap \<Rightarrow> (variable \<times> gradHeap) result" where
  "op_cos v h = rbind (array_of v) (\<lambda>x.
     Inr (op_variable (vtype v) (cos x) [v] (\<lambda>ins calc g. one (rbind (input_arr ins 0) (\<lambda>a. arr_times g (arr_map (\<lambda>x. - sin x) a)))) h))"

definition op_tanh :: "variable \<Rightarrow> gradHeap \<Rightarrow> (variable \<times> gradHeap) result" where
  "op_tanh v h = rbind (array_of v) (\<lambda>x. let result = tanh x in
     Inr (op_variable (vtype v) result [withoutData v] (\<lambda>ins calc g. Inr [(0, arr_map (\<lambda>g. (1 - result * result) * g) g)]) h))"

definition clamp :: "real \<Rightarrow> real \<Rightarrow> real \<Rightarrow> real" where
  "clamp lo hi x = (if x < lo then lo else if x > hi then hi else x)"

definition op_clamp :: "real \<Rightarrow> real \<Rightarrow> variable \<Rightarrow> gradHeap \<Rightarrow> (variable \<times> gradHeap) result" where
  "op_clamp lo hi v h = rbind (array_of v) (\<lambda>x. let result = clamp lo hi x in
     Inr (op_variable (vtype v) result [withoutData v]
       (\<lambda>ins calc g. Inr [(0, arr_map (\<lambda>g. if result > lo \<and> result < hi then g else 0) g)]) h))"

definition op_sqrt :: "variable \<Rightarrow> gradHeap \<Rightarrow> (variable \<times> gradHeap) result" where
  "op_sqrt v h = rbind (array_of v) (\<lambda>x. let result = sqrt x in
     if x < 0 then Inl not_finite
     else Inr (op_variable (vtype v) result [withoutData v] (\<lambda>ins calc g. one (arr_divide g (fst g, 2 * result))) h))"

definition sigmoid :: "real \<Rightarrow> real" where
  "sigmoid x = 1 / (1 + exp (- x))"

definition op_sigmoid :: "variable \<Rightarrow> gradHeap \<Rightarrow> (variable \<times> gradHeap) result" where
  "op_sigmoid v h = rbind (array_of v) (\<lambda>x. let result = sigmoid x in
     Inr (op_variable (vtype v) result [withoutData v] (\<lambda>ins calc g. Inr [(0, arr_map (\<lambda>g. g * result * (1 - result)) g)]) h))"

definition op_abs :: "variable \<Rightarrow> gradHeap \<Rightarrow> (variable \<times> gradHeap) result" where
  "op_abs v h = rbind (array_of v) (\<lambda>x.
     Inr (op_variable (vtype v) \<bar>x\<bar> [v] (\<lambda>ins calc g. one (rbind (input_arr ins 0) (\<lambda>a. arr_times (arr_map (\<lambda>x. 1 - 2 * mask (x < 0)) a) g))) h))"

subsection \<open>Operators composed of others\<close>

text \<open>Sequencing of operators.\<close>

definition andThen :: "(variable \<times> gradHeap) result \<Rightarrow> (variable \<Rightarrow> gradHeap \<Rightarrow> (variable \<times> gradHeap) result) \<Rightarrow> (variable \<times> gradHeap) result" where
  "andThen r f = rbind r (\<lambda>(v, h). f v h)"

definition op_swish :: "real \<Rightarrow> variable \<Rightarrow> gradHeap \<Rightarrow> (variable \<times> gradHeap) result" where
  "op_swish beta v h = andThen (op_times_scalar v beta h) (\<lambda>b h. andThen (op_sigmoid b h) (\<lambda>s h. op_times v s h))"

definition op_relu :: "variable \<Rightarrow> gradHeap \<Rightarrow> (variable \<times> gradHeap) result" where
  "op_relu v h = op_max_scalar v 0 h"

definition op_gelu :: "variable \<Rightarrow> gradHeap \<Rightarrow> (variable \<times> gradHeap) result" where
  "op_gelu v h =
     andThen (op_times_scalar v (1 / 2) h) (\<lambda>half h.
     andThen (op_times_scalar v (44715 / 1000000) h) (\<lambda>a h. andThen (op_times a v h) (\<lambda>b h. andThen (op_times b v h) (\<lambda>cubic h.
     andThen (op_plus v cubic h) (\<lambda>s h. andThen (op_times_scalar s (7978845608 / 10000000000) h) (\<lambda>arg h.
     andThen (op_tanh arg h) (\<lambda>t h. andThen (op_plus_scalar t 1 h) (\<lambda>f h. op_times half f h))))))))"

definition op_binaryCrossEntropy :: "variable \<Rightarrow> variable \<Rightarrow> gradHeap \<Rightarrow> (variable \<times> gradHeap) result" where
  "op_binaryCrossEntropy v targets h =
     andThen (as_type (vtype v) targets h) (\<lambda>t h.
     andThen (op_log v h) (\<lambda>l h. andThen (op_times t l h) (\<lambda>a h.
     andThen (op_scalar_minus 1 t h) (\<lambda>u h. andThen (op_scalar_minus 1 v h) (\<lambda>w h. andThen (op_log w h) (\<lambda>m h. andThen (op_times u m h) (\<lambda>b h.
     andThen (op_plus a b h) (\<lambda>s h. op_negate s h))))))))"

text \<open>The activation modules.\<close>

definition hardTanh_forward :: "variable \<Rightarrow> gradHeap \<Rightarrow> (variable \<times> gradHeap) result" where
  "hardTanh_forward v h = op_clamp (-1) 1 v h"

definition relu6_forward :: "variable \<Rightarrow> gradHeap \<Rightarrow> (variable \<times> gradHeap) result" where
  "relu6_forward v h = op_clamp 0 6 v h"

definition leakyReLU_forward :: "real \<Rightarrow> variable \<Rightarrow> gradHeap \<Rightarrow> (variable \<times> gradHeap) result" where
  "leakyReLU_forward slope v h = andThen (op_times_scalar v slope h) (\<lambda>s h. op_max v s h)"

text \<open>A mask is a variable that wants no gradient.\<close>

definition op_geq_scalar :: "variable \<Rightarrow> real \<Rightarrow> gradHeap \<Rightarrow> (variable \<times> gradHeap) result" where
  "op_geq_scalar v c h = rbind (array_of v) (\<lambda>x. Inr (new_variable (vtype v) (mask (x \<ge> c)) False h))"

definition op_not :: "variable \<Rightarrow> gradHeap \<Rightarrow> (variable \<times> gradHeap) result" where
  "op_not v h = rbind (array_of v) (\<lambda>x. Inr (new_variable (vtype v) (mask (x = 0)) False h))"

definition elu_forward :: "real \<Rightarrow> variable \<Rightarrow> gradHeap \<Rightarrow> (variable \<times> gradHeap) result" where
  "elu_forward alpha v h =
     andThen (op_geq_scalar v 0 h) (\<lambda>m h. andThen (op_times m v h) (\<lambda>a h. andThen (op_not m h) (\<lambda>n h.
     andThen (op_times_scalar n alpha h) (\<lambda>b h. andThen (op_exp v h) (\<lambda>e h. andThen (op_minus_scalar e 1 h) (\<lambda>e1 h. andThen (op_times b e1 h) (\<lambda>c h.
     op_plus a c h)))))))"

definition thresholdReLU_forward :: "real \<Rightarrow> variable \<Rightarrow> gradHeap \<Rightarrow> (variable \<times> gradHeap) result" where
  "thresholdReLU_forward threshold v h = andThen (op_geq_scalar v threshold h) (\<lambda>m h. op_times v m h)"

end
