(* ===== verification/AutogradTheorems.thy ===== *)
theory AutogradTheorems
  imports AutogradGraph AutogradFunctions
begin

section \<open>Gradients are derivatives\<close>

text \<open>
  One variable is singled out, with the value \<open>t0\<close>; a variable made from it tracks a function \<open>F\<close> of that value, and \<open>d\<close> gives the derivative of every node at \<open>t0\<close>.
  Every operator makes a variable that tracks the composed function and a node whose gradient function passes on its derivative.
\<close>

definition tracks :: "real \<Rightarrow> (nat \<Rightarrow> real) \<Rightarrow> (nat \<Rightarrow> dtype) \<Rightarrow> gradHeap \<Rightarrow> variable \<Rightarrow> (real \<Rightarrow> real) \<Rightarrow> bool" where
  "tracks t0 d T h v F \<longleftrightarrow> vgrad v < length h \<and> vtype v = T (vgrad v) \<and> vdata v = Some (F t0) \<and> (F has_real_derivative d (vgrad v)) (at t0)"

definition fresh :: "gradHeap \<Rightarrow> bool" where
  "fresh h \<longleftrightarrow> (\<forall>n<length h. grad (h ! n) = None)"

definition ext :: "(nat \<Rightarrow> real) \<Rightarrow> (nat \<Rightarrow> dtype) \<Rightarrow> gradHeap \<Rightarrow> (nat \<Rightarrow> real) \<Rightarrow> (nat \<Rightarrow> dtype) \<Rightarrow> gradHeap \<Rightarrow> bool" where
  "ext d T h d' T' h' \<longleftrightarrow> heap_ok d' T' h' \<and> fresh h' \<and> (\<exists>ns. h' = h @ ns \<and> (\<forall>s\<in>set ns. calcGrad s \<longrightarrow> gradFunc s \<noteq> None)) \<and> (\<forall>n<length h. d' n = d n \<and> T' n = T n)"

definition good :: "real \<Rightarrow> (nat \<Rightarrow> real) \<Rightarrow> (nat \<Rightarrow> dtype) \<Rightarrow> gradHeap \<Rightarrow> (variable \<times> gradHeap) result \<Rightarrow> (real \<Rightarrow> real) \<Rightarrow> bool" where
  "good t0 d T h r F \<longleftrightarrow> (\<forall>u h'. r = Inr (u, h') \<longrightarrow> (\<exists>d' T'. ext d T h d' T' h' \<and> tracks t0 d' T' h' u F))"

lemma tracks_ext: "tracks t0 d T h v F \<Longrightarrow> ext d T h d' T' h' \<Longrightarrow> tracks t0 d' T' h' v F"
  by (auto simp: tracks_def ext_def)

lemma ext_trans: "ext d T h d' T' h' \<Longrightarrow> ext d' T' h' d'' T'' h'' \<Longrightarrow> ext d T h d'' T'' h''"
  by (auto simp: ext_def)

lemma ext_ok: "ext d T h d' T' h' \<Longrightarrow> heap_ok d' T' h' \<and> fresh h'"
  by (simp add: ext_def)

lemma good_andThen:
  assumes "good t0 d T h r F" "\<And>u h' d' T'. ext d T h d' T' h' \<Longrightarrow> tracks t0 d' T' h' u F \<Longrightarrow> good t0 d' T' h' (k u h') G"
  shows "good t0 d T h (andThen r k) G"
  unfolding good_def
proof (intro allI impI)
  fix u h' assume "andThen r k = Inr (u, h')"
  then obtain v h1 where r: "r = Inr (v, h1)" "k v h1 = Inr (u, h')" by (auto simp: andThen_def rbind_eq_Inr_iff)
  obtain d1 T1 where 1: "ext d T h d1 T1 h1" "tracks t0 d1 T1 h1 v F" using assms(1) r(1) unfolding good_def by blast
  obtain d2 T2 where "ext d1 T1 h1 d2 T2 h'" "tracks t0 d2 T2 h' u G" using assms(2) [OF 1] r(2) unfolding good_def by blast
  then show "\<exists>d' T'. ext d T h d' T' h' \<and> tracks t0 d' T' h' u G" using ext_trans 1(1) by blast
qed

lemma good_rbind: "(\<And>x. r = Inr x \<Longrightarrow> good t0 d T h (k x) G) \<Longrightarrow> good t0 d T h (rbind r k) G"
  by (cases r) (simp_all add: good_def)

lemma good_Inl [simp]: "good t0 d T h (Inl e) G"
  by (simp add: good_def)

subsection \<open>A new node\<close>

lemma passes_cong:
  assumes "\<And>w. w \<in> set ins \<Longrightarrow> d' (vgrad w) = d (vgrad w)" "passes d ty dn ins calc f"
  shows "passes d' ty dn ins calc f"
proof -
  have "weighted d' ins calc cs = weighted d ins calc cs" if "fits ins cs" for cs
    using that assms(1) by (induction cs) (auto simp: weighted_def fits_def)
  then show ?thesis using assms(2) unfolding passes_def by metis
qed

lemma op_node:
  assumes h: "heap_ok d T h" "fresh h" and r: "op_variable ty x ins f h = (u, h')" and ins: "\<And>w. w \<in> set ins \<Longrightarrow> vgrad w < length h \<and> vtype w = T (vgrad w)"
    and f: "list_ex (isCalcGrad h) ins \<Longrightarrow> passes d ty dn ins (map (isCalcGrad h) ins) f" and no: "\<not> list_ex (isCalcGrad h) ins \<Longrightarrow> dn = 0"
    and F: "F t0 = x" "(F has_real_derivative dn) (at t0)"
  shows "\<exists>d' T'. ext d T h d' T' h' \<and> tracks t0 d' T' h' u F"
proof -
  let ?n = "length h" let ?d = "d(?n := dn)" and ?T = "T(?n := ty)"
  let ?s = "if list_ex (isCalcGrad h) ins then new_sharedGrad\<lparr>calcGrad := True, inputs := ins, gradFunc := Some f\<rparr> else new_sharedGrad"
  have u: "u = \<lparr>vdata = Some x, vtype = ty, vgrad = ?n\<rparr>" and h': "h' = h @ [?s]" using r by (simp_all add: op_variable_def)
  have calc: "isCalcGrad h' w = isCalcGrad h w" if "vgrad w < ?n" for w using that by (simp add: isCalcGrad_def shared_def h' nth_append)
  have old: "node_ok ?d ?T h' n" if n: "n < ?n" for n
  proof -
    have node: "node_ok d T h n" using h(1) n by (simp add: heap_ok_def)
    then have lt: "vgrad w < ?n \<and> vgrad w < n" if "w \<in> set (inputs (h ! n))" for w using that n by (fastforce simp: node_ok_def)
    have map: "map (isCalcGrad h') (inputs (h ! n)) = map (isCalcGrad h) (inputs (h ! n))" using lt calc by simp
    have d: "?d (vgrad w) = d (vgrad w)" if "w \<in> set (inputs (h ! n))" for w using lt [OF that] by simp
    have "passes ?d (T n) (d n) (inputs (h ! n)) (map (isCalcGrad h) (inputs (h ! n))) g" if "gradFunc (h ! n) = Some g" for g
      using node that by (intro passes_cong [of "inputs (h ! n)" ?d d]) (simp_all only: d, simp add: node_ok_def)
    moreover have "vtype w = ?T (vgrad w)" if "w \<in> set (inputs (h ! n))" for w using node lt [OF that] that by (simp add: node_ok_def)
    moreover have "h' ! n = h ! n" using n by (simp add: h' nth_append)
    ultimately show ?thesis using node n lt by (auto simp: node_ok_def map split: option.splits)
  qed
  have "node_ok ?d ?T h' ?n"
  proof (cases "list_ex (isCalcGrad h) ins")
    case True
    have dins: "?d (vgrad w) = d (vgrad w)" if "w \<in> set ins" for w using ins [OF that] by simp
    have m: "map (isCalcGrad h') ins = map (isCalcGrad h) ins" using ins calc by simp
    have "passes ?d ty dn ins (map (isCalcGrad h) ins) f" by (intro passes_cong [of ins ?d d, OF _ f [OF True]]) (simp only: dins)
    moreover have "h' ! ?n = new_sharedGrad\<lparr>calcGrad := True, inputs := ins, gradFunc := Some f\<rparr>" using True by (simp add: h')
    moreover have "vgrad w < ?n \<and> vtype w = ?T (vgrad w)" if "w \<in> set ins" for w using ins [OF that] by simp
    ultimately show ?thesis by (simp add: node_ok_def new_sharedGrad_def m)
  next
    case False
    then show ?thesis using no by (simp add: node_ok_def h' new_sharedGrad_def)
  qed
  then have "heap_ok ?d ?T h'" using old by (auto simp: heap_ok_def h' less_Suc_eq)
  moreover have "fresh h'" using h(2) by (auto simp: fresh_def h' nth_append new_sharedGrad_def less_Suc_eq)
  ultimately have "ext d T h ?d ?T h'" by (auto simp: ext_def h' new_sharedGrad_def)
  moreover have "tracks t0 ?d ?T h' u F" using F by (simp add: tracks_def u h')
  ultimately show ?thesis by blast
qed

lemma no_calc: "heap_ok d T h \<Longrightarrow> vgrad v < length h \<Longrightarrow> \<not> isCalcGrad h v \<Longrightarrow> d (vgrad v) = 0"
  by (simp add: heap_ok_def node_ok_def isCalcGrad_def shared_def)

text \<open>An operator with one input, and one with two.\<close>

lemma unary_node:
  assumes h: "heap_ok d T h" "fresh h" and v: "tracks t0 d T h v F" and w: "vgrad w = vgrad v" "vtype w = vtype v"
    and f: "\<And>g. f [w] [True] (ty, g) = Inr [(0, vtype v, g * c)]" and x: "x = \<phi> (F t0)" "(\<phi> has_real_derivative c) (at (F t0))"
  shows "good t0 d T h (Inr (op_variable ty x [w] f h)) (\<lambda>t. \<phi> (F t))"
  unfolding good_def
proof (intro allI impI)
  fix u h' assume "Inr (op_variable ty x [w] f h) = (Inr (u, h') :: (variable \<times> gradHeap) result)"
  then have r: "op_variable ty x [w] f h = (u, h')" by simp
  have vn: "vgrad v < length h" "vtype v = T (vgrad v)" using v by (auto simp: tracks_def)
  have "((\<lambda>t. \<phi> (F t)) has_real_derivative c * d (vgrad v)) (at t0)" using x(2) v by (auto simp: tracks_def intro: DERIV_chain2)
  moreover have "passes d ty (c * d (vgrad v)) [w] (map (isCalcGrad h) [w]) f" if "list_ex (isCalcGrad h) [w]"
    using that f w by (auto simp: passes_def fits_def weighted_def)
  moreover have "c * d (vgrad v) = 0" if "\<not> list_ex (isCalcGrad h) [w]" using that no_calc [OF h(1) vn(1)] w by (simp add: isCalcGrad_def shared_def)
  ultimately show "\<exists>d' T'. ext d T h d' T' h' \<and> tracks t0 d' T' h' u (\<lambda>t. \<phi> (F t))"
    using op_node [OF h r, of "c * d (vgrad v)" "\<lambda>t. \<phi> (F t)" t0] vn w x(1) by simp
qed

lemma binary_node:
  assumes h: "heap_ok d T h" "fresh h" and v: "tracks t0 d T h v F" "tracks t0 d T h w G" and ty: "vtype v = ty" "vtype w = ty"
    and v': "vgrad v' = vgrad v" "vtype v' = ty" "vgrad w' = vgrad w" "vtype w' = ty"
    and f: "\<And>g. isCalcGrad h v \<or> isCalcGrad h w \<Longrightarrow> f [v', w'] [isCalcGrad h v, isCalcGrad h w] (ty, g) = Inr [(0, ty, g * a), (1, ty, g * b)] \<or>
      f [v', w'] [isCalcGrad h v, isCalcGrad h w] (ty, g) =
        Inr ((if isCalcGrad h v then [(0, ty, g * a)] else []) @ (if isCalcGrad h w then [(1, ty, g * b)] else []))"
    and x: "x = H t0" "(H has_real_derivative a * d (vgrad v) + b * d (vgrad w)) (at t0)"
  shows "good t0 d T h (Inr (op_variable ty x [v', w'] f h)) H"
  unfolding good_def
proof (intro allI impI)
  fix u h' assume "Inr (op_variable ty x [v', w'] f h) = (Inr (u, h') :: (variable \<times> gradHeap) result)"
  then have r: "op_variable ty x [v', w'] f h = (u, h')" by simp
  have vn: "vgrad v < length h" "vtype v = T (vgrad v)" "vgrad w < length h" "vtype w = T (vgrad w)" using v by (auto simp: tracks_def)
  have eq: "isCalcGrad h v' = isCalcGrad h v" "isCalcGrad h w' = isCalcGrad h w" using v' by (simp_all add: isCalcGrad_def shared_def)
  note z = no_calc [OF h(1) vn(1)] no_calc [OF h(1) vn(3)]
  have "passes d ty (a * d (vgrad v) + b * d (vgrad w)) [v', w'] (map (isCalcGrad h) [v', w']) f" if l: "list_ex (isCalcGrad h) [v', w']"
    unfolding passes_def
  proof
    fix g
    have one: "isCalcGrad h v \<or> isCalcGrad h w" using l eq by simp
    from f [OF one, of g] obtain cs where cs: "f [v', w'] [isCalcGrad h v, isCalcGrad h w] (ty, g) = Inr cs"
        "cs = [(0, ty, g * a), (1, ty, g * b)] \<or> cs = (if isCalcGrad h v then [(0, ty, g * a)] else []) @ (if isCalcGrad h w then [(1, ty, g * b)] else [])" by blast
    have "fits [v', w'] cs" using cs(2) v' by (auto simp: fits_def split: if_splits)
    moreover have "\<forall>i<length [v', w']. map (isCalcGrad h) [v', w'] ! i \<longrightarrow> i \<in> fst ` set cs" using cs(2) eq by (auto simp: less_Suc_eq split: if_splits)
    moreover have "weighted d [v', w'] (map (isCalcGrad h) [v', w']) cs = g * (a * d (vgrad v) + b * d (vgrad w))"
      using cs(2) eq v' z by (auto simp: weighted_def algebra_simps)
    ultimately show "\<exists>cs. f [v', w'] (map (isCalcGrad h) [v', w']) (ty, g) = Inr cs \<and> fits [v', w'] cs \<and>
        (\<forall>i<length [v', w']. map (isCalcGrad h) [v', w'] ! i \<longrightarrow> i \<in> fst ` set cs) \<and>
        weighted d [v', w'] (map (isCalcGrad h) [v', w']) cs = g * (a * d (vgrad v) + b * d (vgrad w))" using cs(1) eq by auto
  qed
  moreover have "a * d (vgrad v) + b * d (vgrad w) = 0" if "\<not> list_ex (isCalcGrad h) [v', w']" using that z eq by simp
  moreover have "vgrad y < length h \<and> vtype y = T (vgrad y)" if "y \<in> set [v', w']" for y using that vn v' ty by auto
  ultimately show "\<exists>d' T'. ext d T h d' T' h' \<and> tracks t0 d' T' h' u H"
    using op_node [OF h r, of "a * d (vgrad v) + b * d (vgrad w)" H t0] x by simp
qed

subsection \<open>The operators\<close>

lemma array_of_tracks: "tracks t0 d T h v F \<Longrightarrow> array_of v = Inr (F t0)"
  by (simp add: tracks_def array_of_def)

lemma input_arr_Cons [simp]: "input_arr (v # ins) 0 = rbind (array_of v) (\<lambda>x. Inr (vtype v, x))" "input_arr (v # ins) (Suc i) = input_arr ins i"
  by (simp_all add: input_arr_def input_at_def)

lemma withoutData_simps [simp]: "vgrad (withoutData v) = vgrad v" "vtype (withoutData v) = vtype v"
  by (simp_all add: withoutData_def)

lemmas grad_defs = one_def arr_map_def arr_times_def arr_divide_def arr_reciprocal_def types_match_def

named_theorems op_good \<open>operators track the composed functions\<close>

lemma good_types: "(a = b \<Longrightarrow> good t0 d T h (k ()) G) \<Longrightarrow> good t0 d T h (rbind (types_match func a b) k) G"
  by (cases "a = b") (simp_all add: types_match_def)

lemma deriv_tracks: "tracks t0 d T h v F \<Longrightarrow> (F has_real_derivative d (vgrad v)) (at t0)"
  by (simp add: tracks_def)

lemma good_if: "(\<not> b \<Longrightarrow> good t0 d T h r G) \<Longrightarrow> good t0 d T h (if b then Inl e else r) G"
  by simp

lemma op_plus_good [op_good]:
  assumes "heap_ok d T h" "fresh h" "tracks t0 d T h v F" "tracks t0 d T h w G"
  shows "good t0 d T h (op_plus v w h) (\<lambda>t. F t + G t)"
  unfolding op_plus_def array_of_tracks [OF assms(3)] array_of_tracks [OF assms(4)] rbind_simps
  by (rule good_types, rule binary_node [OF assms, where a = 1 and b = 1])
    (auto intro!: derivative_eq_intros deriv_tracks [OF assms(3)] deriv_tracks [OF assms(4)])

lemma op_minus_good [op_good]:
  assumes "heap_ok d T h" "fresh h" "tracks t0 d T h v F" "tracks t0 d T h w G"
  shows "good t0 d T h (op_minus v w h) (\<lambda>t. F t - G t)"
  unfolding op_minus_def array_of_tracks [OF assms(3)] array_of_tracks [OF assms(4)] rbind_simps
  by (rule good_types, rule binary_node [OF assms, where a = 1 and b = "-1"])
    (auto simp: grad_defs intro!: derivative_eq_intros deriv_tracks [OF assms(3)] deriv_tracks [OF assms(4)])

lemma op_times_good [op_good]:
  assumes "heap_ok d T h" "fresh h" "tracks t0 d T h v F" "tracks t0 d T h w G"
  shows "good t0 d T h (op_times v w h) (\<lambda>t. F t * G t)"
  unfolding op_times_def array_of_tracks [OF assms(3)] array_of_tracks [OF assms(4)] rbind_simps
  by (rule good_types, rule binary_node [OF assms, where a = "G t0" and b = "F t0"])
    (auto simp: grad_defs both_def if_calc_def input_at_def array_of_tracks [OF assms(3)] array_of_tracks [OF assms(4)] mult.commute
      intro!: derivative_eq_intros deriv_tracks [OF assms(3)] deriv_tracks [OF assms(4)])

lemma op_divide_good [op_good]:
  assumes "heap_ok d T h" "fresh h" "tracks t0 d T h v F" "tracks t0 d T h w G"
  shows "good t0 d T h (op_divide v w h) (\<lambda>t. F t / G t)"
  unfolding op_divide_def array_of_tracks [OF assms(3)] array_of_tracks [OF assms(4)] rbind_simps
  by (rule good_types, rule good_if, rule binary_node [OF assms, where a = "1 / G t0" and b = "- F t0 / (G t0 * G t0)"])
    (auto simp: grad_defs both_def if_calc_def input_at_def array_of_tracks [OF assms(3)] array_of_tracks [OF assms(4)] field_simps
      intro!: derivative_eq_intros deriv_tracks [OF assms(3)] deriv_tracks [OF assms(4)])

lemma op_plus_scalar_good [op_good]:
  assumes "heap_ok d T h" "fresh h" "tracks t0 d T h v F"
  shows "good t0 d T h (op_plus_scalar v c h) (\<lambda>t. F t + c)"
  unfolding op_plus_scalar_def array_of_tracks [OF assms(3)] rbind_simps
  by (rule unary_node [OF assms(1-3), where c = "1"])
    (auto simp: grad_defs array_of_tracks [OF assms(3)] intro!: derivative_eq_intros)

lemma op_minus_scalar_good [op_good]:
  assumes "heap_ok d T h" "fresh h" "tracks t0 d T h v F"
  shows "good t0 d T h (op_minus_scalar v c h) (\<lambda>t. F t - c)"
  unfolding op_minus_scalar_def array_of_tracks [OF assms(3)] rbind_simps
  by (rule unary_node [OF assms(1-3), where c = "1"])
    (auto simp: grad_defs array_of_tracks [OF assms(3)] intro!: derivative_eq_intros)

lemma op_scalar_minus_good [op_good]:
  assumes "heap_ok d T h" "fresh h" "tracks t0 d T h v F"
  shows "good t0 d T h (op_scalar_minus c v h) (\<lambda>t. c - F t)"
  unfolding op_scalar_minus_def array_of_tracks [OF assms(3)] rbind_simps
  by (rule unary_node [OF assms(1-3), where c = "-1"])
    (auto simp: grad_defs array_of_tracks [OF assms(3)] intro!: derivative_eq_intros)

lemma op_times_scalar_good [op_good]:
  assumes "heap_ok d T h" "fresh h" "tracks t0 d T h v F"
  shows "good t0 d T h (op_times_scalar v c h) (\<lambda>t. F t * c)"
  unfolding op_times_scalar_def array_of_tracks [OF assms(3)] rbind_simps
  by (rule unary_node [OF assms(1-3), where c = "c"])
    (auto simp: grad_defs array_of_tracks [OF assms(3)] intro!: derivative_eq_intros)

lemma op_divide_scalar_good [op_good]:
  assumes "heap_ok d T h" "fresh h" "tracks t0 d T h v F"
  shows "good t0 d T h (op_divide_scalar v c h) (\<lambda>t. F t / c)"
  unfolding op_divide_scalar_def array_of_tracks [OF assms(3)] rbind_simps
  by (rule good_if, rule unary_node [OF assms(1-3), where c = "1 / c"])
    (auto simp: grad_defs array_of_tracks [OF assms(3)] intro!: derivative_eq_intros)

lemma op_scalar_divide_good [op_good]:
  assumes "heap_ok d T h" "fresh h" "tracks t0 d T h v F"
  shows "good t0 d T h (op_scalar_divide c v h) (\<lambda>t. c / F t)"
  unfolding op_scalar_divide_def array_of_tracks [OF assms(3)] rbind_simps
  by (rule good_if, rule unary_node [OF assms(1-3), where c = "- c / (F t0 * F t0)"])
    (auto simp: grad_defs array_of_tracks [OF assms(3)] intro!: derivative_eq_intros)

lemma op_negate_good [op_good]:
  assumes "heap_ok d T h" "fresh h" "tracks t0 d T h v F"
  shows "good t0 d T h (op_negate v h) (\<lambda>t. 0 - F t)"
  unfolding op_negate_def array_of_tracks [OF assms(3)] rbind_simps
  by (rule unary_node [OF assms(1-3), where c = "-1"])
    (auto simp: grad_defs array_of_tracks [OF assms(3)] intro!: derivative_eq_intros)

lemma op_reciprocal_good [op_good]:
  assumes "heap_ok d T h" "fresh h" "tracks t0 d T h v F"
  shows "good t0 d T h (op_reciprocal v h) (\<lambda>t. 1 / F t)"
  unfolding op_reciprocal_def array_of_tracks [OF assms(3)] rbind_simps
  by (rule good_if, rule unary_node [OF assms(1-3), where c = "- 1 / (F t0 * F t0)"])
    (auto simp: grad_defs array_of_tracks [OF assms(3)] intro!: derivative_eq_intros)

lemma op_exp_good [op_good]:
  assumes "heap_ok d T h" "fresh h" "tracks t0 d T h v F"
  shows "good t0 d T h (op_exp v h) (\<lambda>t. exp (F t))"
  unfolding op_exp_def array_of_tracks [OF assms(3)] rbind_simps
  by (rule unary_node [OF assms(1-3), where c = "exp (F t0)"])
    (auto simp: grad_defs array_of_tracks [OF assms(3)] intro!: derivative_eq_intros)

lemma op_log_good [op_good]:
  assumes "heap_ok d T h" "fresh h" "tracks t0 d T h v F"
  shows "good t0 d T h (op_log v h) (\<lambda>t. ln (F t))"
  unfolding op_log_def array_of_tracks [OF assms(3)] rbind_simps
  by (rule good_if, rule unary_node [OF assms(1-3), where c = "1 / F t0"])
    (auto simp: grad_defs array_of_tracks [OF assms(3)] intro!: derivative_eq_intros)

lemma op_log1p_good [op_good]:
  assumes "heap_ok d T h" "fresh h" "tracks t0 d T h v F"
  shows "good t0 d T h (op_log1p v h) (\<lambda>t. ln (1 + F t))"
  unfolding op_log1p_def array_of_tracks [OF assms(3)] rbind_simps
  by (rule good_if, rule unary_node [OF assms(1-3), where c = "1 / (1 + F t0)"])
    (auto simp: grad_defs array_of_tracks [OF assms(3)] intro!: derivative_eq_intros)

lemma op_pow_good [op_good]:
  assumes "heap_ok d T h" "fresh h" "tracks t0 d T h v F"
  shows "good t0 d T h (op_pow p v h) (\<lambda>t. F t powr p)"
  unfolding op_pow_def array_of_tracks [OF assms(3)] rbind_simps
  by (rule good_if, rule unary_node [OF assms(1-3), where c = "p * F t0 powr (p - 1)"])
    (auto simp: grad_defs array_of_tracks [OF assms(3)] intro!: derivative_eq_intros)

lemma op_sin_good [op_good]:
  assumes "heap_ok d T h" "fresh h" "tracks t0 d T h v F"
  shows "good t0 d T h (op_sin v h) (\<lambda>t. sin (F t))"
  unfolding op_sin_def array_of_tracks [OF assms(3)] rbind_simps
  by (rule unary_node [OF assms(1-3), where c = "cos (F t0)"])
    (auto simp: grad_defs array_of_tracks [OF assms(3)] intro!: derivative_eq_intros)

lemma op_cos_good [op_good]:
  assumes "heap_ok d T h" "fresh h" "tracks t0 d T h v F"
  shows "good t0 d T h (op_cos v h) (\<lambda>t. cos (F t))"
  unfolding op_cos_def array_of_tracks [OF assms(3)] rbind_simps
  by (rule unary_node [OF assms(1-3), where c = "- sin (F t0)"])
    (auto simp: grad_defs array_of_tracks [OF assms(3)] intro!: derivative_eq_intros)

lemma op_tanh_good [op_good]:
  assumes "heap_ok d T h" "fresh h" "tracks t0 d T h v F"
  shows "good t0 d T h (op_tanh v h) (\<lambda>t. tanh (F t))"
  unfolding op_tanh_def array_of_tracks [OF assms(3)] rbind_simps Let_def
  by (rule unary_node [OF assms(1-3), where c = "1 - tanh (F t0) * tanh (F t0)"])
    (auto simp: power2_eq_square grad_defs array_of_tracks [OF assms(3)] intro!: derivative_eq_intros)

lemma op_sqrt_good [op_good]:
  assumes "heap_ok d T h" "fresh h" "tracks t0 d T h v F" and s: "0 < F t0"
  shows "good t0 d T h (op_sqrt v h) (\<lambda>t. sqrt (F t))"
  unfolding op_sqrt_def array_of_tracks [OF assms(3)] rbind_simps Let_def
  by (rule good_if, rule unary_node [OF assms(1-3), where c = "1 / (2 * sqrt (F t0))"])
    (use s in \<open>auto simp: grad_defs inverse_eq_divide intro!: derivative_eq_intros\<close>)

lemma deriv_sigmoid: "(sigmoid has_real_derivative sigmoid x * (1 - sigmoid x)) (at x)"
proof -
  have p: "1 + exp (- x) \<noteq> 0" using exp_gt_zero [of "- x"] by linarith
  have "((\<lambda>x. 1 / (1 + exp (- x))) has_real_derivative exp (- x) / (1 + exp (- x))\<^sup>2) (at x)"
    using p by (auto simp: power2_eq_square intro!: derivative_eq_intros)
  moreover have "exp (- x) / (1 + exp (- x))\<^sup>2 = sigmoid x * (1 - sigmoid x)" using p by (simp add: sigmoid_def power2_eq_square field_simps)
  ultimately show ?thesis by (simp add: sigmoid_def [abs_def])
qed

lemma op_sigmoid_good [op_good]:
  assumes "heap_ok d T h" "fresh h" "tracks t0 d T h v F"
  shows "good t0 d T h (op_sigmoid v h) (\<lambda>t. sigmoid (F t))"
  unfolding op_sigmoid_def array_of_tracks [OF assms(3)] rbind_simps Let_def
  by (rule unary_node [OF assms(1-3), where c = "sigmoid (F t0) * (1 - sigmoid (F t0))"])
    (auto simp: grad_defs array_of_tracks [OF assms(3)] intro!: deriv_sigmoid)

lemma as_type_good [op_good]:
  assumes "heap_ok d T h" "fresh h" "tracks t0 d T h v F"
  shows "good t0 d T h (as_type ty v h) (\<lambda>t. F t)"
  unfolding as_type_def array_of_tracks [OF assms(3)] rbind_simps
  by (rule unary_node [OF assms(1-3), where c = "1"])
    (auto simp: input_at_def grad_defs array_of_tracks [OF assms(3)] intro!: derivative_eq_intros)

text \<open>Functions that are smooth on an open interval around the point.\<close>

lemma deriv_on: "(f has_real_derivative c) (at x) \<Longrightarrow> open S \<Longrightarrow> x \<in> S \<Longrightarrow> (\<And>y. y \<in> S \<Longrightarrow> f y = g y) \<Longrightarrow> (g has_real_derivative c) (at x)"
  for f g :: "real \<Rightarrow> real"
  by (rule has_field_derivative_transform_within_open)

lemma deriv_max_scalar: "x \<noteq> c \<Longrightarrow> ((\<lambda>y. max y c) has_real_derivative mask (x > c)) (at x)"
  by (cases "x > c")
    (auto simp: mask_def intro!: deriv_on [of "\<lambda>y. y" 1 x "{c<..}"] deriv_on [of "\<lambda>_. c" 0 x "{..<c}"] derivative_eq_intros)

lemma deriv_min_scalar: "x \<noteq> c \<Longrightarrow> ((\<lambda>y. min y c) has_real_derivative mask (x < c)) (at x)"
  by (cases "x < c")
    (auto simp: mask_def intro!: deriv_on [of "\<lambda>y. y" 1 x "{..<c}"] deriv_on [of "\<lambda>_. c" 0 x "{c<..}"] derivative_eq_intros)

lemma deriv_abs: "x \<noteq> 0 \<Longrightarrow> (abs has_real_derivative (1 - 2 * mask (x < 0))) (at x)"
  by (cases "x < 0")
    (auto simp: mask_def intro!: deriv_on [of "\<lambda>y. - y" "-1" x "{..<0}"] deriv_on [of "\<lambda>y. y" 1 x "{0<..}"] derivative_eq_intros)

lemma deriv_clamp:
  assumes "x \<noteq> lo" "x \<noteq> hi"
  shows "(clamp lo hi has_real_derivative (if clamp lo hi x > lo \<and> clamp lo hi x < hi then 1 else 0)) (at x)"
proof -
  consider "x < lo" | "lo < x" "hi < x" | "lo < x" "x < hi" using assms by linarith
  then show ?thesis
  proof cases
    case 1
    have "(clamp lo hi has_real_derivative 0) (at x)" by (rule deriv_on [of "\<lambda>_. lo" 0 x "{..<lo}"]) (use 1 in \<open>auto simp: clamp_def\<close>)
    then show ?thesis using 1 by (simp add: clamp_def)
  next
    case 2
    have "(clamp lo hi has_real_derivative 0) (at x)" by (rule deriv_on [of "\<lambda>_. hi" 0 x "{max lo hi<..}"]) (use 2 in \<open>auto simp: clamp_def\<close>)
    then show ?thesis using 2 by (simp add: clamp_def)
  next
    case 3
    have "(clamp lo hi has_real_derivative 1) (at x)" by (rule deriv_on [of "\<lambda>y. y" 1 x "{lo<..<hi}"]) (use 3 in \<open>auto simp: clamp_def\<close>)
    then show ?thesis using 3 by (simp add: clamp_def)
  qed
qed

lemma op_max_scalar_good [op_good]:
  assumes "heap_ok d T h" "fresh h" "tracks t0 d T h v F" and s: "F t0 \<noteq> c"
  shows "good t0 d T h (op_max_scalar v c h) (\<lambda>t. max (F t) c)"
  unfolding op_max_scalar_def array_of_tracks [OF assms(3)] rbind_simps
  by (rule unary_node [OF assms(1-3) _ _ _ refl deriv_max_scalar [OF s]]) (simp_all add: grad_defs array_of_tracks [OF assms(3)])

lemma op_min_scalar_good [op_good]:
  assumes "heap_ok d T h" "fresh h" "tracks t0 d T h v F" and s: "F t0 \<noteq> c"
  shows "good t0 d T h (op_min_scalar v c h) (\<lambda>t. min (F t) c)"
  unfolding op_min_scalar_def array_of_tracks [OF assms(3)] rbind_simps
  by (rule unary_node [OF assms(1-3) _ _ _ refl deriv_min_scalar [OF s]]) (simp_all add: grad_defs array_of_tracks [OF assms(3)])

lemma op_abs_good [op_good]:
  assumes "heap_ok d T h" "fresh h" "tracks t0 d T h v F" and s: "F t0 \<noteq> 0"
  shows "good t0 d T h (op_abs v h) (\<lambda>t. \<bar>F t\<bar>)"
  unfolding op_abs_def array_of_tracks [OF assms(3)] rbind_simps
  by (rule unary_node [OF assms(1-3) _ _ _ refl deriv_abs [OF s]]) (simp_all add: grad_defs array_of_tracks [OF assms(3)])

lemma op_clamp_good [op_good]:
  assumes "heap_ok d T h" "fresh h" "tracks t0 d T h v F" and s: "F t0 \<noteq> lo" "F t0 \<noteq> hi"
  shows "good t0 d T h (op_clamp lo hi v h) (\<lambda>t. clamp lo hi (F t))"
  unfolding op_clamp_def array_of_tracks [OF assms(3)] rbind_simps Let_def
  by (rule unary_node [OF assms(1-3) _ _ _ refl deriv_clamp [OF s]]) (simp_all add: grad_defs)

lemma near:
  fixes F G :: "real \<Rightarrow> real"
  assumes "(F has_real_derivative a) (at t0)" "(G has_real_derivative b) (at t0)" "F t0 < G t0"
  shows "eventually (\<lambda>t. F t < G t) (nhds t0)"
proof -
  have "isCont (\<lambda>t. G t - F t) t0" using DERIV_isCont [OF assms(1)] DERIV_isCont [OF assms(2)] by (intro isCont_diff)
  then have "((\<lambda>t. G t - F t) \<longlongrightarrow> G t0 - F t0) (at t0)" by (simp add: isCont_def)
  then have "eventually (\<lambda>t. 0 < G t - F t) (at t0)" by (rule order_tendstoD(1)) (use assms(3) in linarith)
  then show ?thesis using assms(3) by (auto simp: eventually_nhds_conv_at elim: eventually_mono)
qed

lemma deriv_of_smaller:
  fixes F G :: "real \<Rightarrow> real"
  assumes "(F has_real_derivative a) (at t0)" "(G has_real_derivative b) (at t0)" "F t0 < G t0"
  shows "((\<lambda>t. max (F t) (G t)) has_real_derivative b) (at t0)" "((\<lambda>t. min (F t) (G t)) has_real_derivative a) (at t0)"
    "((\<lambda>t. max (G t) (F t)) has_real_derivative b) (at t0)" "((\<lambda>t. min (G t) (F t)) has_real_derivative a) (at t0)"
proof -
  note e = near [OF assms]
  have m: "eventually (\<lambda>t. max (F t) (G t) = G t) (nhds t0)" "eventually (\<lambda>t. min (F t) (G t) = F t) (nhds t0)"
    "eventually (\<lambda>t. max (G t) (F t) = G t) (nhds t0)" "eventually (\<lambda>t. min (G t) (F t) = F t) (nhds t0)"
    by (rule eventually_mono [OF e]; simp)+
  show "((\<lambda>t. max (F t) (G t)) has_real_derivative b) (at t0)" using DERIV_cong_ev [OF refl m(1) refl] assms(2) by blast
  show "((\<lambda>t. min (F t) (G t)) has_real_derivative a) (at t0)" using DERIV_cong_ev [OF refl m(2) refl] assms(1) by blast
  show "((\<lambda>t. max (G t) (F t)) has_real_derivative b) (at t0)" using DERIV_cong_ev [OF refl m(3) refl] assms(2) by blast
  show "((\<lambda>t. min (G t) (F t)) has_real_derivative a) (at t0)" using DERIV_cong_ev [OF refl m(4) refl] assms(1) by blast
qed

lemma op_max_good [op_good]:
  assumes "heap_ok d T h" "fresh h" "tracks t0 d T h v F" "tracks t0 d T h w G" and s: "F t0 \<noteq> G t0"
  shows "good t0 d T h (op_max v w h) (\<lambda>t. max (F t) (G t))"
  unfolding op_max_def array_of_tracks [OF assms(3)] array_of_tracks [OF assms(4)] rbind_simps
proof (rule good_types, rule binary_node [OF assms(1-4), where a = "mask (F t0 > G t0)" and b = "mask (\<not> F t0 > G t0)"], goal_cases)
  case 9
  then show ?case using s deriv_of_smaller [OF deriv_tracks [OF assms(3)] deriv_tracks [OF assms(4)]] deriv_of_smaller [OF deriv_tracks [OF assms(4)] deriv_tracks [OF assms(3)]]
    by (cases "F t0 < G t0") (simp_all add: mask_def)
qed (auto simp: grad_defs array_of_tracks [OF assms(3)] array_of_tracks [OF assms(4)])

lemma op_min_good [op_good]:
  assumes "heap_ok d T h" "fresh h" "tracks t0 d T h v F" "tracks t0 d T h w G" and s: "F t0 \<noteq> G t0"
  shows "good t0 d T h (op_min v w h) (\<lambda>t. min (F t) (G t))"
  unfolding op_min_def array_of_tracks [OF assms(3)] array_of_tracks [OF assms(4)] rbind_simps
proof (rule good_types, rule binary_node [OF assms(1-4), where a = "mask (F t0 < G t0)" and b = "mask (\<not> F t0 < G t0)"], goal_cases)
  case 9
  then show ?case using s deriv_of_smaller [OF deriv_tracks [OF assms(3)] deriv_tracks [OF assms(4)]] deriv_of_smaller [OF deriv_tracks [OF assms(4)] deriv_tracks [OF assms(3)]]
    by (cases "F t0 < G t0") (simp_all add: mask_def)
qed (auto simp: grad_defs array_of_tracks [OF assms(3)] array_of_tracks [OF assms(4)])

subsection \<open>Leaves and masks\<close>

lemma const_node:
  assumes h: "heap_ok d T h" "fresh h" and F: "F t0 = x" "(F has_real_derivative 0) (at t0)"
  shows "good t0 d T h (Inr (new_variable ty x False h)) F"
proof -
  have "new_variable ty x False h = op_variable ty x [] (\<lambda>_ _ _. Inr []) h" by (simp add: new_variable_def op_variable_def new_sharedGrad_def)
  then show ?thesis unfolding good_def using op_node [OF h _ _ _ _ F, of ty "[]"] by simp
qed

lemma deriv_mask:
  assumes "(F has_real_derivative a) (at t0)" "F t0 \<noteq> c"
  shows "((\<lambda>t. mask (F t \<ge> c)) has_real_derivative 0) (at t0)" "((\<lambda>t. mask (\<not> F t \<ge> c)) has_real_derivative 0) (at t0)"
proof -
  have k: "((\<lambda>t. c) has_real_derivative 0) (at t0)" by simp
  have "eventually (\<lambda>t. (F t \<ge> c) = (F t0 \<ge> c)) (nhds t0)"
  proof (cases "F t0 < c")
    case True
    show ?thesis by (rule eventually_mono [OF near [OF assms(1) k True]]) (use True in auto)
  next
    case False
    then have "c < F t0" using assms(2) by simp
    show ?thesis by (rule eventually_mono [OF near [OF k assms(1) \<open>c < F t0\<close>]]) (use False in auto)
  qed
  then have e: "eventually (\<lambda>t. mask (F t \<ge> c) = mask (F t0 \<ge> c)) (nhds t0)" "eventually (\<lambda>t. mask (\<not> F t \<ge> c) = mask (\<not> F t0 \<ge> c)) (nhds t0)"
    by (auto elim!: eventually_mono)
  show "((\<lambda>t. mask (F t \<ge> c)) has_real_derivative 0) (at t0)" using DERIV_cong_ev [OF refl e(1) refl] by simp
  show "((\<lambda>t. mask (\<not> F t \<ge> c)) has_real_derivative 0) (at t0)" using DERIV_cong_ev [OF refl e(2) refl] by simp
qed

lemma op_geq_scalar_good:
  assumes "heap_ok d T h" "fresh h" "tracks t0 d T h v F" and s: "F t0 \<noteq> c"
  shows "good t0 d T h (op_geq_scalar v c h) (\<lambda>t. mask (F t \<ge> c))"
  unfolding op_geq_scalar_def array_of_tracks [OF assms(3)] rbind_simps
  by (rule const_node [OF assms(1,2) refl deriv_mask(1) [OF deriv_tracks [OF assms(3)] s]])

lemma op_not_good:
  assumes "heap_ok d T h" "fresh h" "tracks t0 d T h m (\<lambda>t. mask (F t \<ge> c))" and s: "(F has_real_derivative a) (at t0)" "F t0 \<noteq> c"
  shows "good t0 d T h (op_not m h) (\<lambda>t. mask (\<not> F t \<ge> c))"
  unfolding op_not_def array_of_tracks [OF assms(3)] rbind_simps
  by (rule const_node [OF assms(1,2) _ deriv_mask(2) [OF s]]) (simp add: mask_def)

subsection \<open>Composed operators\<close>

fun tracks_all :: "real \<Rightarrow> (nat \<Rightarrow> real) \<Rightarrow> (nat \<Rightarrow> dtype) \<Rightarrow> gradHeap \<Rightarrow> (variable \<times> (real \<Rightarrow> real)) list \<Rightarrow> bool" where
  "tracks_all t0 d T h [] \<longleftrightarrow> True"
| "tracks_all t0 d T h ((v, F) # env) \<longleftrightarrow> tracks t0 d T h v F \<and> tracks_all t0 d T h env"

lemma tracks_allD: "tracks_all t0 d T h env \<Longrightarrow> (v, F) \<in> set env \<Longrightarrow> tracks t0 d T h v F"
  by (induction env) auto

lemma tracks_all_ext: "tracks_all t0 d T h env \<Longrightarrow> ext d T h d' T' h' \<Longrightarrow> tracks_all t0 d' T' h' env"
  by (induction env) (auto intro: tracks_ext)

text \<open>Variables that were made before stay available.\<close>

lemma good_then:
  assumes "tracks_all t0 d T h env" "good t0 d T h r F"
    and "\<And>u h' d' T'. heap_ok d' T' h' \<Longrightarrow> fresh h' \<Longrightarrow> tracks_all t0 d' T' h' ((u, F) # env) \<Longrightarrow> good t0 d' T' h' (k u h') G"
  shows "good t0 d T h (andThen r k) G"
  using assms(2) by (rule good_andThen) (auto intro!: assms(3) dest: ext_ok intro: tracks_all_ext [OF assms(1)])

lemma op_swish_good [op_good]:
  assumes "heap_ok d T h" "fresh h" "tracks t0 d T h v F"
  shows "good t0 d T h (op_swish beta v h) (\<lambda>t. F t * sigmoid (F t * beta))"
proof -
  have "tracks_all t0 d T h [(v, F)]" using assms by simp
  then show ?thesis unfolding op_swish_def using assms(1,2)
    by - ((rule good_then, assumption, rule op_good, assumption, assumption, (erule tracks_allD, (rule list.set_intros(1) | rule list.set_intros(2))+)+)+,
      rule op_good, assumption, assumption, (erule tracks_allD, (rule list.set_intros(1) | rule list.set_intros(2))+)+)
qed

lemma op_relu_good [op_good]:
  assumes "heap_ok d T h" "fresh h" "tracks t0 d T h v F" "F t0 \<noteq> 0"
  shows "good t0 d T h (op_relu v h) (\<lambda>t. max (F t) 0)"
  unfolding op_relu_def by (rule op_max_scalar_good [OF assms])

lemma op_gelu_good [op_good]:
  assumes "heap_ok d T h" "fresh h" "tracks t0 d T h v F"
  shows "good t0 d T h (op_gelu v h)
    (\<lambda>t. F t * (1 / 2) * (tanh ((F t + F t * (44715 / 1000000) * F t * F t) * (7978845608 / 10000000000)) + 1))"
proof -
  have "tracks_all t0 d T h [(v, F)]" using assms by simp
  then show ?thesis unfolding op_gelu_def using assms(1,2)
    by - ((rule good_then, assumption, rule op_good, assumption, assumption, (erule tracks_allD, (rule list.set_intros(1) | rule list.set_intros(2))+)+)+,
      rule op_good, assumption, assumption, (erule tracks_allD, (rule list.set_intros(1) | rule list.set_intros(2))+)+)
qed

lemma op_binaryCrossEntropy_good [op_good]:
  assumes "heap_ok d T h" "fresh h" "tracks t0 d T h v F" "tracks t0 d T h w G"
  shows "good t0 d T h (op_binaryCrossEntropy v w h) (\<lambda>t. 0 - (G t * ln (F t) + (1 - G t) * ln (1 - F t)))"
proof -
  have "tracks_all t0 d T h [(v, F), (w, G)]" using assms by simp
  then show ?thesis unfolding op_binaryCrossEntropy_def using assms(1,2)
    by - ((rule good_then, assumption, rule op_good, assumption, assumption, (erule tracks_allD, (rule list.set_intros(1) | rule list.set_intros(2))+)+)+,
      rule op_good, assumption, assumption, (erule tracks_allD, (rule list.set_intros(1) | rule list.set_intros(2))+)+)
qed

lemma leakyReLU_good [op_good]:
  assumes "heap_ok d T h" "fresh h" "tracks t0 d T h v F" and s: "F t0 \<noteq> F t0 * slope"
  shows "good t0 d T h (leakyReLU_forward slope v h) (\<lambda>t. max (F t) (F t * slope))"
proof -
  have "tracks_all t0 d T h [(v, F)]" using assms by simp
  then show ?thesis unfolding leakyReLU_forward_def using assms(1,2)
    by - (rule good_then, assumption, rule op_times_scalar_good [OF assms(1-3)], rule op_max_good, use s in auto)
qed

lemma elu_good [op_good]:
  assumes "heap_ok d T h" "fresh h" "tracks t0 d T h v F" and s: "F t0 \<noteq> 0"
  shows "good t0 d T h (elu_forward alpha v h) (\<lambda>t. mask (F t \<ge> 0) * F t + mask (\<not> F t \<ge> 0) * alpha * (exp (F t) - 1))"
proof -
  have "tracks_all t0 d T h [(v, F)]" using assms by simp
  then show ?thesis unfolding elu_forward_def using assms(1,2)
    by - (rule good_then, assumption, rule op_geq_scalar_good [OF assms], rule good_then, assumption, rule op_good, assumption, assumption,
      (erule tracks_allD, (rule list.set_intros(1) | rule list.set_intros(2))+)+,
      rule good_then, assumption, rule op_not_good [OF _ _ _ deriv_tracks [OF assms(3)] s], assumption, assumption,
      (erule tracks_allD, (rule list.set_intros(1) | rule list.set_intros(2))+)+,
      (rule good_then, assumption, rule op_good, assumption, assumption, (erule tracks_allD, (rule list.set_intros(1) | rule list.set_intros(2))+)+)+,
      rule op_good, assumption, assumption, (erule tracks_allD, (rule list.set_intros(1) | rule list.set_intros(2))+)+)
qed

lemma thresholdReLU_good [op_good]:
  assumes "heap_ok d T h" "fresh h" "tracks t0 d T h v F" and s: "F t0 \<noteq> c"
  shows "good t0 d T h (thresholdReLU_forward c v h) (\<lambda>t. F t * mask (F t \<ge> c))"
proof -
  have "tracks_all t0 d T h [(v, F)]" using assms by simp
  then show ?thesis unfolding thresholdReLU_forward_def using assms(1,2)
    by - (rule good_then, assumption, rule op_geq_scalar_good [OF assms], rule op_times_good, auto)
qed

lemma hardTanh_good [op_good]:
  assumes "heap_ok d T h" "fresh h" "tracks t0 d T h v F" "F t0 \<noteq> -1" "F t0 \<noteq> 1"
  shows "good t0 d T h (hardTanh_forward v h) (\<lambda>t. clamp (-1) 1 (F t))"
  unfolding hardTanh_forward_def by (rule op_clamp_good [OF assms])

lemma relu6_good [op_good]:
  assumes "heap_ok d T h" "fresh h" "tracks t0 d T h v F" "F t0 \<noteq> 0" "F t0 \<noteq> 6"
  shows "good t0 d T h (relu6_forward v h) (\<lambda>t. clamp 0 6 (F t))"
  unfolding relu6_forward_def by (rule op_clamp_good [OF assms])

subsection \<open>Programs\<close>

text \<open>
  A program is a sequence of calls of operators, each on variables that exist; it also denotes a function of the values of its inputs. \<open>smooth\<close> excludes the points
  where a function that is called is not differentiable.
\<close>

datatype unary =
    PlusC real | MinusC real | CMinus real | TimesC real | DivideC real | CDivide real | MaxC real | MinC real
  | Negate | Reciprocal | Exp | Log | Log1p | Pow real | Sin | Cos | Tanh | Clamp real real | Sqrt | Sigmoid | Abs | Swish real | Relu | Gelu
  | HardTanh | ReLU6 | LeakyReLU real | Elu real | ThresholdReLU real | As dtype

datatype binary = Plus | Minus | Times | Divide | Max2 | Min2 | BinaryCrossEntropy

datatype instr = Call1 unary nat | Call2 binary nat nat

fun run_unary :: "unary \<Rightarrow> variable \<Rightarrow> gradHeap \<Rightarrow> (variable \<times> gradHeap) result" where
  "run_unary (PlusC c) v h = op_plus_scalar v c h"
| "run_unary (MinusC c) v h = op_minus_scalar v c h"
| "run_unary (CMinus c) v h = op_scalar_minus c v h"
| "run_unary (TimesC c) v h = op_times_scalar v c h"
| "run_unary (DivideC c) v h = op_divide_scalar v c h"
| "run_unary (CDivide c) v h = op_scalar_divide c v h"
| "run_unary (MaxC c) v h = op_max_scalar v c h"
| "run_unary (MinC c) v h = op_min_scalar v c h"
| "run_unary Negate v h = op_negate v h"
| "run_unary Reciprocal v h = op_reciprocal v h"
| "run_unary Exp v h = op_exp v h"
| "run_unary Log v h = op_log v h"
| "run_unary Log1p v h = op_log1p v h"
| "run_unary (Pow p) v h = op_pow p v h"
| "run_unary Sin v h = op_sin v h"
| "run_unary Cos v h = op_cos v h"
| "run_unary Tanh v h = op_tanh v h"
| "run_unary (Clamp lo hi) v h = op_clamp lo hi v h"
| "run_unary Sqrt v h = op_sqrt v h"
| "run_unary Sigmoid v h = op_sigmoid v h"
| "run_unary Abs v h = op_abs v h"
| "run_unary (Swish beta) v h = op_swish beta v h"
| "run_unary Relu v h = op_relu v h"
| "run_unary Gelu v h = op_gelu v h"
| "run_unary HardTanh v h = hardTanh_forward v h"
| "run_unary ReLU6 v h = relu6_forward v h"
| "run_unary (LeakyReLU slope) v h = leakyReLU_forward slope v h"
| "run_unary (Elu alpha) v h = elu_forward alpha v h"
| "run_unary (ThresholdReLU c) v h = thresholdReLU_forward c v h"
| "run_unary (As ty) v h = as_type ty v h"

fun un_fun :: "unary \<Rightarrow> real \<Rightarrow> real" where
  "un_fun (PlusC c) x = x + c"
| "un_fun (MinusC c) x = x - c"
| "un_fun (CMinus c) x = c - x"
| "un_fun (TimesC c) x = x * c"
| "un_fun (DivideC c) x = x / c"
| "un_fun (CDivide c) x = c / x"
| "un_fun (MaxC c) x = max x c"
| "un_fun (MinC c) x = min x c"
| "un_fun Negate x = 0 - x"
| "un_fun Reciprocal x = 1 / x"
| "un_fun Exp x = exp x"
| "un_fun Log x = ln x"
| "un_fun Log1p x = ln (1 + x)"
| "un_fun (Pow p) x = x powr p"
| "un_fun Sin x = sin x"
| "un_fun Cos x = cos x"
| "un_fun Tanh x = tanh x"
| "un_fun (Clamp lo hi) x = clamp lo hi x"
| "un_fun Sqrt x = sqrt x"
| "un_fun Sigmoid x = sigmoid x"
| "un_fun Abs x = \<bar>x\<bar>"
| "un_fun (Swish beta) x = x * sigmoid (x * beta)"
| "un_fun Relu x = max x 0"
| "un_fun Gelu x = x * (1 / 2) * (tanh ((x + x * (44715 / 1000000) * x * x) * (7978845608 / 10000000000)) + 1)"
| "un_fun HardTanh x = clamp (-1) 1 x"
| "un_fun ReLU6 x = clamp 0 6 x"
| "un_fun (LeakyReLU slope) x = max x (x * slope)"
| "un_fun (Elu alpha) x = mask (x \<ge> 0) * x + mask (\<not> x \<ge> 0) * alpha * (exp x - 1)"
| "un_fun (ThresholdReLU c) x = x * mask (x \<ge> c)"
| "un_fun (As ty) x = x"

fun un_smooth :: "unary \<Rightarrow> real \<Rightarrow> bool" where
  "un_smooth (MaxC c) x \<longleftrightarrow> x \<noteq> c"
| "un_smooth (MinC c) x \<longleftrightarrow> x \<noteq> c"
| "un_smooth (Clamp lo hi) x \<longleftrightarrow> x \<noteq> lo \<and> x \<noteq> hi"
| "un_smooth Sqrt x \<longleftrightarrow> 0 < x"
| "un_smooth Abs x \<longleftrightarrow> x \<noteq> 0"
| "un_smooth Relu x \<longleftrightarrow> x \<noteq> 0"
| "un_smooth HardTanh x \<longleftrightarrow> x \<noteq> -1 \<and> x \<noteq> 1"
| "un_smooth ReLU6 x \<longleftrightarrow> x \<noteq> 0 \<and> x \<noteq> 6"
| "un_smooth (LeakyReLU slope) x \<longleftrightarrow> x \<noteq> x * slope"
| "un_smooth (Elu alpha) x \<longleftrightarrow> x \<noteq> 0"
| "un_smooth (ThresholdReLU c) x \<longleftrightarrow> x \<noteq> c"
| "un_smooth _ x \<longleftrightarrow> True"

fun run_binary :: "binary \<Rightarrow> variable \<Rightarrow> variable \<Rightarrow> gradHeap \<Rightarrow> (variable \<times> gradHeap) result" where
  "run_binary Plus v w h = op_plus v w h"
| "run_binary Minus v w h = op_minus v w h"
| "run_binary Times v w h = op_times v w h"
| "run_binary Divide v w h = op_divide v w h"
| "run_binary Max2 v w h = op_max v w h"
| "run_binary Min2 v w h = op_min v w h"
| "run_binary BinaryCrossEntropy v w h = op_binaryCrossEntropy v w h"

fun bin_fun :: "binary \<Rightarrow> real \<Rightarrow> real \<Rightarrow> real" where
  "bin_fun Plus x y = x + y"
| "bin_fun Minus x y = x - y"
| "bin_fun Times x y = x * y"
| "bin_fun Divide x y = x / y"
| "bin_fun Max2 x y = max x y"
| "bin_fun Min2 x y = min x y"
| "bin_fun BinaryCrossEntropy x y = 0 - (y * ln x + (1 - y) * ln (1 - x))"

fun bin_smooth :: "binary \<Rightarrow> real \<Rightarrow> real \<Rightarrow> bool" where
  "bin_smooth Max2 x y \<longleftrightarrow> x \<noteq> y"
| "bin_smooth Min2 x y \<longleftrightarrow> x \<noteq> y"
| "bin_smooth _ x y \<longleftrightarrow> True"

fun run_instr :: "instr \<Rightarrow> variable list \<times> gradHeap \<Rightarrow> (variable list \<times> gradHeap) result" where
  "run_instr (Call1 u i) (vs, h) = rbind (input_at vs i) (\<lambda>v. rbind (run_unary u v h) (\<lambda>(w, h'). Inr (vs @ [w], h')))"
| "run_instr (Call2 b i j) (vs, h) = rbind (input_at vs i) (\<lambda>v. rbind (input_at vs j) (\<lambda>w. rbind (run_binary b v w h) (\<lambda>(u, h'). Inr (vs @ [u], h'))))"

fun instr_fun :: "instr \<Rightarrow> real list \<Rightarrow> real list" where
  "instr_fun (Call1 u i) xs = xs @ [un_fun u (xs ! i)]"
| "instr_fun (Call2 b i j) xs = xs @ [bin_fun b (xs ! i) (xs ! j)]"

fun smooth :: "instr list \<Rightarrow> real list \<Rightarrow> bool" where
  "smooth [] xs \<longleftrightarrow> True"
| "smooth (Call1 u i # p) xs \<longleftrightarrow> un_smooth u (xs ! i) \<and> smooth p (instr_fun (Call1 u i) xs)"
| "smooth (Call2 b i j # p) xs \<longleftrightarrow> bin_smooth b (xs ! i) (xs ! j) \<and> smooth p (instr_fun (Call2 b i j) xs)"

definition program_fun :: "instr list \<Rightarrow> real list \<Rightarrow> real list" where
  "program_fun p xs = fold instr_fun p xs"

fun new_inputs :: "dtype \<Rightarrow> (real \<times> bool) list \<Rightarrow> variable list \<times> gradHeap \<Rightarrow> variable list \<times> gradHeap" where
  "new_inputs ty [] st = st"
| "new_inputs ty ((x, cg) # xs) (vs, h) = (let (v, h') = new_variable ty x cg h in new_inputs ty xs (vs @ [v], h'))"

definition run_program :: "dtype \<Rightarrow> (real \<times> bool) list \<Rightarrow> instr list \<Rightarrow> (variable list \<times> gradHeap) result" where
  "run_program ty xs p = rfold run_instr p (new_inputs ty xs ([], []))"

lemma run_unary_good: "heap_ok d T h \<Longrightarrow> fresh h \<Longrightarrow> tracks t0 d T h v F \<Longrightarrow> un_smooth u (F t0) \<Longrightarrow> good t0 d T h (run_unary u v h) (\<lambda>t. un_fun u (F t))"
  by (cases u; simp only: run_unary.simps un_fun.simps un_smooth.simps; rule op_good; simp)

lemma run_binary_good:
  "heap_ok d T h \<Longrightarrow> fresh h \<Longrightarrow> tracks t0 d T h v F \<Longrightarrow> tracks t0 d T h w G \<Longrightarrow> bin_smooth b (F t0) (G t0) \<Longrightarrow> good t0 d T h (run_binary b v w h) (\<lambda>t. bin_fun b (F t) (G t))"
  by (cases b; simp only: run_binary.simps bin_fun.simps bin_smooth.simps; rule op_good; simp)

lemma length_program_fun: "length (program_fun p xs) = length xs + length p"
proof (induction p arbitrary: xs)
  case (Cons i p)
  then show ?case by (cases i) (simp_all add: program_fun_def)
qed (simp add: program_fun_def)

text \<open>One call, on variables that track the components of \<open>X\<close>.\<close>

lemma run_instr_good:
  assumes h: "heap_ok d T h" "fresh h" and vs: "\<And>j. j < length vs \<Longrightarrow> tracks t0 d T h (vs ! j) (\<lambda>t. X t ! j)" "\<And>t. length (X t) = length vs"
    and r: "run_instr i (vs, h) = Inr (vs', h')" and s: "smooth [i] (X t0)"
  shows "\<exists>d' T' w. ext d T h d' T' h' \<and> vs' = vs @ [w] \<and> (\<forall>j<length vs'. tracks t0 d' T' h' (vs' ! j) (\<lambda>t. instr_fun i (X t) ! j))"
proof -
  have "\<exists>w F. vs' = vs @ [w] \<and> (\<forall>t. instr_fun i (X t) = X t @ [F t]) \<and> (\<exists>d' T'. ext d T h d' T' h' \<and> tracks t0 d' T' h' w F)"
  proof (cases i)
    case (Call1 u k)
    then obtain w where k: "k < length vs" and w: "run_unary u (vs ! k) h = Inr (w, h')" "vs' = vs @ [w]"
      using r by (auto simp: rbind_eq_Inr_iff input_at_def split: if_splits)
    then show ?thesis using run_unary_good [OF h vs(1) [OF k], of u] s Call1 unfolding good_def
      by (intro exI [of _ w] exI [of _ "\<lambda>t. un_fun u (X t ! k)"]) simp
  next
    case (Call2 b k l)
    then obtain w where k: "k < length vs" "l < length vs" and w: "run_binary b (vs ! k) (vs ! l) h = Inr (w, h')" "vs' = vs @ [w]"
      using r by (auto simp: rbind_eq_Inr_iff input_at_def split: if_splits)
    then show ?thesis using run_binary_good [OF h vs(1) [OF k(1)] vs(1) [OF k(2)], of b] s Call2 unfolding good_def
      by (intro exI [of _ w] exI [of _ "\<lambda>t. bin_fun b (X t ! k) (X t ! l)"]) simp
  qed
  then obtain w F d' T' where w: "vs' = vs @ [w]" "\<And>t. instr_fun i (X t) = X t @ [F t]" "ext d T h d' T' h'" "tracks t0 d' T' h' w F" by blast
  have "tracks t0 d' T' h' (vs' ! j) (\<lambda>t. instr_fun i (X t) ! j)" if "j < length vs'" for j
    using that w(1,2,4) tracks_ext [OF vs(1) w(3), of j] vs(2) by (cases "j = length vs") (auto simp: nth_append)
  then show ?thesis using w(1,3) by blast
qed

lemma run_instrs_good:
  assumes "heap_ok d T h" "fresh h" "\<And>j. j < length vs \<Longrightarrow> tracks t0 d T h (vs ! j) (\<lambda>t. X t ! j)" "\<And>t. length (X t) = length vs"
    and "rfold run_instr p (vs, h) = Inr (vs', h')" "smooth p (X t0)"
  shows "\<exists>d' T' us. ext d T h d' T' h' \<and> vs' = vs @ us \<and> (\<forall>j<length vs'. tracks t0 d' T' h' (vs' ! j) (\<lambda>t. program_fun p (X t) ! j))"
  using assms
proof (induction p arbitrary: d T h vs X)
  case Nil
  then have "ext d T h d T h" by (simp add: ext_def)
  then show ?case using Nil by (intro exI [of _ d] exI [of _ T] exI [of _ "[]"]) (simp add: program_fun_def)
next
  case (Cons i p)
  then obtain vs1 h1 where r: "run_instr i (vs, h) = Inr (vs1, h1)" "rfold run_instr p (vs1, h1) = Inr (vs', h')" by (auto simp: rbind_eq_Inr_iff)
  have s: "smooth [i] (X t0)" "smooth p (instr_fun i (X t0))" using Cons.prems(6) by (cases i; simp)+
  obtain d1 T1 w where 1: "ext d T h d1 T1 h1" "vs1 = vs @ [w]" "\<And>j. j < length vs1 \<Longrightarrow> tracks t0 d1 T1 h1 (vs1 ! j) (\<lambda>t. instr_fun i (X t) ! j)"
    using run_instr_good [OF Cons.prems(1-4) r(1) s(1)] by blast
  have len: "length (instr_fun i (X t)) = length vs1" for t using Cons.prems(4) 1(2) by (cases i) simp_all
  obtain d2 T2 us where "ext d1 T1 h1 d2 T2 h'" "vs' = vs1 @ us" "\<forall>j<length vs'. tracks t0 d2 T2 h' (vs' ! j) (\<lambda>t. program_fun p (instr_fun i (X t)) ! j)"
    using Cons.IH [OF conjunct1 [OF ext_ok [OF 1(1)]] conjunct2 [OF ext_ok [OF 1(1)]] 1(3) len r(2) s(2)] by blast
  then show ?case using ext_trans [OF 1(1)] 1(2) by (intro exI [of _ d2] exI [of _ T2] exI [of _ "w # us"]) (simp add: program_fun_def)
qed

lemma new_inputs_spec:
  "new_inputs ty xs (vs, h) = (vs @ map (\<lambda>i. \<lparr>vdata = Some (fst (xs ! i)), vtype = ty, vgrad = length h + i\<rparr>) [0..<length xs],
     h @ map (\<lambda>(x, cg). new_sharedGrad\<lparr>calcGrad := cg\<rparr>) xs)"
proof (induction xs arbitrary: vs h)
  case (Cons c xs)
  obtain x cg where c: "c = (x, cg)" by force
  show ?case unfolding c using Cons.IH by (auto simp: new_variable_def upt_conv_Cons map_Suc_upt [symmetric] comp_def simp del: upt_Suc)
qed simp

lemma inputs_ok:
  assumes k: "k < length xs" "snd (xs ! k)"
  shows "heap_ok (\<lambda>n. if n = k then 1 else 0) (\<lambda>_. ty) (snd (new_inputs ty xs ([], [])))" "fresh (snd (new_inputs ty xs ([], [])))"
    "\<And>j. j < length xs \<Longrightarrow> tracks (fst (xs ! k)) (\<lambda>n. if n = k then 1 else 0) (\<lambda>_. ty) (snd (new_inputs ty xs ([], [])))
      (fst (new_inputs ty xs ([], [])) ! j) (\<lambda>t. (map fst xs)[k := t] ! j)"
  using k by (auto simp: new_inputs_spec heap_ok_def node_ok_def fresh_def tracks_def new_sharedGrad_def case_prod_unfold nth_list_update)

lemma grad_single:
  assumes D: "finite D" "\<And>n. n \<in> D \<Longrightarrow> n \<noteq> k \<Longrightarrow> d n = 0" and k: "k \<notin> D \<Longrightarrow> gval h k = 0" "d k = 1"
  shows "(\<Sum>n\<in>D. gval h n * d n) = gval h k"
proof -
  have "(\<Sum>n\<in>D. gval h n * d n) = (\<Sum>n\<in>D. if n = k then gval h n else 0)" using D(2) k(2) by (intro sum.cong) auto
  then show ?thesis using D(1) k(1) by simp
qed

text \<open>What the theorems below need of a program that has run, for the input \<open>k\<close>.\<close>

lemma program_state:
  assumes run: "run_program ty xs p = Inr (vs, h)" and smooth: "smooth p (map fst xs)" and k: "k < length xs" "snd (xs ! k)"
  shows "\<exists>d T. heap_ok d T h \<and> fresh h \<and> (\<forall>j<length vs. tracks (fst (xs ! k)) d T h (vs ! j) (\<lambda>t. program_fun p ((map fst xs)[k := t]) ! j)) \<and>
    vgrad (vs ! k) = k \<and> k < length h \<and> gradFunc (h ! k) = None \<and> d k = 1 \<and> (\<forall>m<length h. gradFunc (h ! m) = None \<longrightarrow> m \<noteq> k \<longrightarrow> d m = 0)"
proof -
  let ?t0 = "fst (xs ! k)" and ?d = "\<lambda>n. if n = k then 1 else (0::real)" and ?st = "new_inputs ty xs ([], [])"
  have len: "length (fst ?st) = length xs" "length (snd ?st) = length xs" by (simp_all add: new_inputs_spec)
  have r: "rfold run_instr p (fst ?st, snd ?st) = Inr (vs, h)" using run by (simp add: run_program_def)
  have X: "\<And>j. j < length (fst ?st) \<Longrightarrow> tracks ?t0 ?d (\<lambda>_. ty) (snd ?st) (fst ?st ! j) (\<lambda>t. (map fst xs)[k := t] ! j)"
    "\<And>t. length ((map fst xs)[k := t]) = length (fst ?st)" using inputs_ok(3) [OF k] len(1) by simp_all
  have s: "smooth p ((map fst xs)[k := ?t0])" using smooth k(1) by (metis length_map list_update_id nth_map)
  obtain d T us where e: "ext ?d (\<lambda>_. ty) (snd ?st) d T h" and us: "vs = fst ?st @ us"
    and tr: "\<forall>j<length vs. tracks ?t0 d T h (vs ! j) (\<lambda>t. program_fun p ((map fst xs)[k := t]) ! j)"
    using run_instrs_good [of ?d "\<lambda>_. ty" "snd ?st" "fst ?st" ?t0 "\<lambda>t. (map fst xs)[k := t]", OF inputs_ok(1,2) [OF k] X r s] by blast
  have ok: "heap_ok d T h" "fresh h" using e by (simp_all add: ext_def)
  have vk: "vgrad (vs ! k) = k" using k(1) us by (simp add: new_inputs_spec nth_append)
  have d: "d m = ?d m" if "m < length xs" for m using e that len(2) by (simp add: ext_def)
  have leaf: "d m = 0" if "m < length h" "gradFunc (h ! m) = None" "m \<noteq> k" for m
  proof (cases "calcGrad (h ! m)")
    case True
    obtain ns where "h = snd ?st @ ns" "\<forall>s\<in>set ns. calcGrad s \<longrightarrow> gradFunc s \<noteq> None" using e by (auto simp: ext_def)
    then have "m < length xs" using True that len(2) by (auto simp: nth_append split: if_splits)
    then show ?thesis using d that(3) by simp
  next
    case False
    then show ?thesis using ok(1) that(1) by (simp add: heap_ok_def node_ok_def)
  qed
  have "k < length h" "gradFunc (h ! k) = None" using e k(1) len(2) by (auto simp: ext_def nth_append new_inputs_spec new_sharedGrad_def case_prod_unfold)
  then show ?thesis using ok tr vk d [OF k(1)] leaf by auto
qed

text \<open>
  C2. Automatic differentiation computes derivatives. After any sequence of operators on any inputs that runs without an exception and calls no
  operator at a point where it is not differentiable, \<^verbatim>\<open>backward\<close> on any result that depends on an input wanting a gradient succeeds, with or
  without keeping the graph, and leaves in every such input the derivative of the result with respect to it (no gradient where the result does not depend on it).
\<close>

theorem backward_is_derivative:
  assumes run: "run_program ty xs p = Inr (vs, h)" and smooth: "smooth p (map fst xs)" and k: "k < length xs" "snd (xs ! k)"
    and n: "n < length vs" "isCalcGrad h (vs ! n)"
  shows "\<exists>h'. backward retainGraph (vs ! n) h = Inr h' \<and> vdata (vs ! n) = Some (program_fun p (map fst xs) ! n) \<and>
    ((\<lambda>t. program_fun p ((map fst xs)[k := t]) ! n) has_real_derivative gval h' (vgrad (vs ! k))) (at (fst (xs ! k)))"
proof -
  obtain d T where ok: "heap_ok d T h" "fresh h" and v: "tracks (fst (xs ! k)) d T h (vs ! n) (\<lambda>t. program_fun p ((map fst xs)[k := t]) ! n)"
    and kn: "vgrad (vs ! k) = k" "k < length h" "gradFunc (h ! k) = None" "d k = 1" and leaf: "\<forall>m<length h. gradFunc (h ! m) = None \<longrightarrow> m \<noteq> k \<longrightarrow> d m = 0"
    using program_state [OF run smooth k] n(1) by blast
  obtain h' D where h': "backward retainGraph (vs ! n) h = Inr h'" "finite D" "D \<subseteq> {m. m < length h \<and> gradFunc (h ! m) = None}"
      "(\<Sum>m\<in>D. gval h' m * d m) = d (vgrad (vs ! n))" "\<forall>m<length h. gradFunc (h ! m) = None \<longrightarrow> m \<notin> D \<longrightarrow> grad (h' ! m) = None"
    using backward_sum [OF ok(1), of "vs ! n" retainGraph] v n(2) ok(2) by (auto simp: tracks_def isCalcGrad_def shared_def fresh_def)
  have "(\<Sum>m\<in>D. gval h' m * d m) = gval h' k" using h'(2,3,5) leaf kn by (intro grad_single) (auto simp: gval_def)
  moreover have "(map fst xs)[k := fst (xs ! k)] = map fst xs" using k(1) by (metis length_map list_update_id nth_map)
  ultimately show ?thesis using h'(1,4) v kn(1) by (auto simp: tracks_def)
qed

text \<open>
  C40. Types of gradients. After any such program (no operator called at a point where it is not differentiable), with casts between types or without, \<^verbatim>\<open>backward\<close> on any result that wants a gradient meets no
  mismatch of types and no other error, and the gradient that it leaves in any variable of the program has the variable's own type.
\<close>

theorem gradients_have_types:
  assumes run: "run_program ty xs p = Inr (vs, h)" and smooth: "smooth p (map fst xs)" and k: "k < length xs" "snd (xs ! k)"
    and n: "n < length vs" "isCalcGrad h (vs ! n)"
  shows "\<exists>h'. backward retainGraph (vs ! n) h = Inr h' \<and>
    (\<forall>j<length vs. case grad_of (vs ! j) h' of Inr (gty, g) \<Rightarrow> gty = vtype (vs ! j) | Inl e \<Rightarrow> \<exists>m. e = Logic_error m)"
proof -
  obtain d T where ok: "heap_ok d T h" "fresh h" and v: "\<forall>j<length vs. tracks (fst (xs ! k)) d T h (vs ! j) (\<lambda>t. program_fun p ((map fst xs)[k := t]) ! j)"
    using program_state [OF run smooth k] by blast
  obtain h' where h': "backward retainGraph (vs ! n) h = Inr h'" "typed_grads T h'" "length h' = length h"
    using backward_sum [OF ok(1), of "vs ! n" retainGraph] v n ok(2) by (auto simp: tracks_def isCalcGrad_def shared_def fresh_def)
  have "case grad_of (vs ! j) h' of Inr (gty, g) \<Rightarrow> gty = vtype (vs ! j) | Inl e \<Rightarrow> \<exists>m. e = Logic_error m" if "j < length vs" for j
    using h'(2,3) v that by (auto simp: grad_of_def typed_grads_def tracks_def shared_def split: sum.splits option.splits if_splits)
  then show ?thesis using h'(1) by blast
qed

text \<open>The product of two inputs plus the first of them, at 3 and 4, in single precision; the derivative in the first is 5.\<close>

abbreviation example_program :: "instr list" where
  "example_program \<equiv> [Call2 Times 0 1, Call2 Plus 2 0, Call1 (As F64) 3]"

lemma example_run:
  "\<exists>vs h. run_program F32 [(3, True), (4, True)] example_program = Inr (vs, h) \<and> length vs = 5 \<and> isCalcGrad h (vs ! 4) \<and> vgrad (vs ! 0) = 0 \<and> vtype (vs ! 0) = F32"
  by (simp add: run_program_def new_variable_def new_sharedGrad_def op_times_def op_plus_def as_type_def types_match_def array_of_def op_variable_def
      isCalcGrad_def shared_def input_at_def withoutData_def numeral_eq_Suc)

theorem backward_is_derivative_witness:
  "\<exists>vs h h'. run_program F32 [(3, True), (4, True)] example_program = Inr (vs, h) \<and> backward False (vs ! 4) h = Inr h' \<and> gval h' 0 = 5"
proof -
  obtain vs h where r: "run_program F32 [(3, True), (4, True)] example_program = Inr (vs, h)" "length vs = 5" "isCalcGrad h (vs ! 4)" "vgrad (vs ! 0) = 0"
    using example_run by blast
  have k: "(0::nat) < length [(3::real, True), (4, True)]" "snd ([(3::real, True), (4, True)] ! 0)" "4 < length vs" using r(2) by simp_all
  have s: "smooth example_program (map fst [(3, True), (4, True)])" by simp
  obtain h' where h': "backward False (vs ! 4) h = Inr h'" "((\<lambda>t. program_fun example_program ((map fst [(3, True), (4, True)])[0 := t]) ! 4)
      has_real_derivative gval h' (vgrad (vs ! 0))) (at (fst ([(3, True), (4, True)] ! 0)))"
    using backward_is_derivative [OF r(1) s k(1,2) k(3) r(3), of False] by blast
  have f: "(\<lambda>t. program_fun example_program ((map fst [(3, True), (4, True)])[0 := t]) ! 4) = (\<lambda>t. t * 4 + t)" by (simp add: program_fun_def numeral_eq_Suc)
  have five: "((\<lambda>t::real. t * 4 + t) has_real_derivative 5) (at 3)" by (auto intro!: derivative_eq_intros)
  have "((\<lambda>t::real. t * 4 + t) has_real_derivative gval h' 0) (at 3)" using h'(2) unfolding f r(4) by simp
  from DERIV_unique [OF this five] have "gval h' 0 = 5" .
  then show ?thesis using r(1) h'(1) by blast
qed

theorem gradients_have_types_witness:
  "\<exists>vs h h'. run_program F32 [(3, True), (4, True)] example_program = Inr (vs, h) \<and> backward False (vs ! 4) h = Inr h' \<and>
     (case grad_of (vs ! 0) h' of Inr (gty, g) \<Rightarrow> gty = F32 | Inl e \<Rightarrow> \<exists>m. e = Logic_error m)"
proof -
  obtain vs h where r: "run_program F32 [(3, True), (4, True)] example_program = Inr (vs, h)" "length vs = 5" "isCalcGrad h (vs ! 4)" "vtype (vs ! 0) = F32"
    using example_run by blast
  have k: "(0::nat) < length [(3::real, True), (4, True)]" "snd ([(3::real, True), (4, True)] ! 0)" "4 < length vs" "0 < length vs" using r(2) by simp_all
  have s: "smooth example_program (map fst [(3, True), (4, True)])" by simp
  from gradients_have_types [OF r(1) s k(1,2) k(3) r(3), of False] obtain h' where "backward False (vs ! 4) h = Inr h'"
      "case grad_of (vs ! 0) h' of Inr (gty, g) \<Rightarrow> gty = vtype (vs ! 0) | Inl e \<Rightarrow> \<exists>m. e = Logic_error m" using k(4) by blast
  then show ?thesis unfolding r(4) using r(1) by blast
qed

text \<open>
  A second \<^verbatim>\<open>backward\<close> after the graph was released calls the gradient function, which is still there, with no inputs. With the graph kept, a second call passes the gradients
  that intermediate variables have kept on again: the input of \<open>(x + 1) + 1\<close> then has the gradient 4, not 2.
\<close>

lemmas backward_run_defs = run_program_def new_variable_def new_sharedGrad_def op_plus_scalar_def array_of_def op_variable_def isCalcGrad_def shared_def input_at_def
  withoutData_def backward_def backward_with_def addGrad_def update_shared_def build_def calcGradInputs_def applyGradHook_def

lemma second_backward_released:
  "rbind (run_program F32 [(3, True)] [Call1 (PlusC 1) 0]) (\<lambda>(vs, h). rbind (backward False (vs ! 1) h) (backward False (vs ! 1))) =
     Inl (Undefined ''index out of range'')"
  by (simp add: backward_run_defs)

lemma second_backward_retained:
  "rbind (run_program F32 [(3, True)] [Call1 (PlusC 1) 0, Call1 (PlusC 1) 1]) (\<lambda>(vs, h).
     rbind (backward True (vs ! 2) h) (\<lambda>h'. rbind (backward True (vs ! 2) h') (\<lambda>h''. Inr (gval h' 0, gval h'' 0)))) = Inr (1, 4)"
  by (simp add: backward_run_defs gval_def numeral_eq_Suc)

end
