(* ===== verification/PathRecursion.thy ===== *)
theory PathRecursion
  imports Doubles
begin

section \<open>Recursions over all paths through a trellis\<close>

text \<open>
  The criteria of \<^verbatim>\<open>lib/sequence/criterion\<close> aggregate the scores of all label paths frame by frame. This theory holds
  what they share: the paths of a trellis with \<open>N\<close> labels, their scores, and the locale \<open>path_aggregate\<close> for the two
  ways of aggregating, the maximum and the log-sum-exp, in which the recursion over frames is shown to
  aggregate over all paths.
\<close>

text \<open>The score of a path: \<open>inp t m\<close> is the emission of label \<open>m\<close> in frame \<open>t\<close>, \<open>tr m n\<close> the score of the transition from \<open>n\<close> to \<open>m\<close>.\<close>

fun path_score :: "(nat \<Rightarrow> nat \<Rightarrow> real) \<Rightarrow> (nat \<Rightarrow> nat \<Rightarrow> real) \<Rightarrow> nat \<Rightarrow> (nat \<Rightarrow> nat) \<Rightarrow> real" where
  "path_score inp tr 0 q = inp 0 (q 0)"
| "path_score inp tr (Suc k) q = path_score inp tr k q + tr (q (Suc k)) (q k) + inp (Suc k) (q (Suc k))"

definition list_score :: "(nat \<Rightarrow> nat \<Rightarrow> real) \<Rightarrow> (nat \<Rightarrow> nat \<Rightarrow> real) \<Rightarrow> nat list \<Rightarrow> real" where
  "list_score inp tr p = path_score inp tr (length p - 1) (\<lambda>t. p ! t)"

text \<open>All paths of \<open>k + 1\<close> labels that end in \<open>m\<close>, and all paths of \<open>k + 1\<close> labels.\<close>

fun paths_to :: "nat \<Rightarrow> nat \<Rightarrow> nat \<Rightarrow> nat list list" where
  "paths_to N 0 m = [[m]]"
| "paths_to N (Suc k) m = concat (map (\<lambda>n. map (\<lambda>p. p @ [m]) (paths_to N k n)) [0..<N])"

definition all_paths :: "nat \<Rightarrow> nat \<Rightarrow> nat list list" where
  "all_paths N k = concat (map (paths_to N k) [0..<N])"

lemma path_score_cong: "(\<And>t. t \<le> k \<Longrightarrow> q t = q' t) \<Longrightarrow> path_score inp tr k q = path_score inp tr k q'"
  by (induction k) simp_all

lemma paths_to_set:
  assumes "m < N"
  shows "set (paths_to N k m) = {p. length p = Suc k \<and> last p = m \<and> set p \<subseteq> {..<N}}"
  using assms
proof (induction k arbitrary: m)
  case 0
  then show ?case by (auto simp: length_Suc_conv)
next
  case (Suc k)
  show ?case
  proof (intro equalityI subsetI)
    fix p assume "p \<in> set (paths_to N (Suc k) m)"
    then obtain n p' where "n < N" "p' \<in> set (paths_to N k n)" "p = p' @ [m]" by auto
    then show "p \<in> {p. length p = Suc (Suc k) \<and> last p = m \<and> set p \<subseteq> {..<N}}" using Suc by auto
  next
    fix p assume p: "p \<in> {p. length p = Suc (Suc k) \<and> last p = m \<and> set p \<subseteq> {..<N}}"
    then obtain p' where p': "p = p' @ [m]" by (cases p rule: rev_cases) auto
    then have q: "length p' = Suc k" "set p' \<subseteq> {..<N}" "p' \<noteq> []" using p by auto
    then have "last p' < N" using last_in_set [OF q(3)] by blast
    then have "p' \<in> set (paths_to N k (last p'))" using Suc.IH q by blast
    then show "p \<in> set (paths_to N (Suc k) m)" using \<open>last p' < N\<close> p' by auto
  qed
qed

lemma all_paths_set: "set (all_paths N k) = {p. length p = Suc k \<and> set p \<subseteq> {..<N}}"
proof (intro equalityI subsetI)
  fix p assume "p \<in> {p. length p = Suc k \<and> set p \<subseteq> {..<N}}"
  moreover then have "p \<noteq> []" by auto
  then have "last p < N" using last_in_set [of p] calculation by blast
  ultimately show "p \<in> set (all_paths N k)" using paths_to_set [of "last p" N k] by (auto simp: all_paths_def)
qed (auto simp: all_paths_def paths_to_set)

lemma paths_to_ne: "0 < N \<Longrightarrow> paths_to N k m \<noteq> []"
  by (induction k arbitrary: m) auto

lemma list_score_snoc:
  assumes "length p = Suc k"
  shows "list_score inp tr (p @ [m]) = list_score inp tr p + tr m (last p) + inp (Suc k) m"
proof -
  have "path_score inp tr k (\<lambda>t. (p @ [m]) ! t) = path_score inp tr k (\<lambda>t. p ! t)"
    using assms by (intro path_score_cong) (simp add: nth_append)
  moreover have "p \<noteq> []" using assms by auto
  ultimately show ?thesis using assms by (simp add: list_score_def nth_append last_conv_nth)
qed

text \<open>The recursion over frames, with a way to aggregate a list of values.\<close>

fun forward :: "(real list \<Rightarrow> real) \<Rightarrow> (nat \<Rightarrow> nat \<Rightarrow> real) \<Rightarrow> (nat \<Rightarrow> nat \<Rightarrow> real) \<Rightarrow> nat \<Rightarrow> nat \<Rightarrow> nat \<Rightarrow> real" where
  "forward agg inp tr N 0 m = inp 0 m"
| "forward agg inp tr N (Suc k) m = agg (map (\<lambda>n. forward agg inp tr N k n + tr m n) [0..<N]) + inp (Suc k) m"

locale path_aggregate =
  fixes agg :: "real list \<Rightarrow> real"
  assumes agg_single: "agg [x] = x"
    and agg_shift: "xs \<noteq> [] \<Longrightarrow> agg (map (\<lambda>v. v + c) xs) = agg xs + c"
    and agg_concat: "xss \<noteq> [] \<Longrightarrow> (\<And>xs. xs \<in> set xss \<Longrightarrow> xs \<noteq> []) \<Longrightarrow> agg (concat xss) = agg (map agg xss)"
begin

lemma agg_groups:
  assumes "0 < N" "\<And>n. f n \<noteq> []"
  shows "agg (concat (map f [0..<N])) = agg (map (\<lambda>n. agg (f n)) [0..<N])"
proof -
  have "\<And>xs. xs \<in> set (map f [0..<N]) \<Longrightarrow> xs \<noteq> []" using assms(2) by auto
  moreover have "map f [0..<N] \<noteq> []" using assms(1) by simp
  ultimately have "agg (concat (map f [0..<N])) = agg (map agg (map f [0..<N]))" using agg_concat by blast
  then show ?thesis by (simp add: comp_def)
qed

lemma forward_paths:
  assumes N: "0 < N" and m: "m < N"
  shows "forward agg inp tr N k m = agg (map (list_score inp tr) (paths_to N k m))"
  using m
proof (induction k arbitrary: m)
  case 0
  show ?case by (simp add: agg_single list_score_def)
next
  case (Suc k)
  have ext: "map (list_score inp tr) (map (\<lambda>p. p @ [m]) (paths_to N k n)) = map (\<lambda>v. v + (tr m n + inp (Suc k) m)) (map (list_score inp tr) (paths_to N k n))"
    if "n < N" for n
    using paths_to_set [OF that, of k] by (auto simp: list_score_snoc)
  have "agg (map (list_score inp tr) (paths_to N (Suc k) m)) =
      agg (concat (map (\<lambda>n. map (list_score inp tr) (map (\<lambda>p. p @ [m]) (paths_to N k n))) [0..<N]))"
    by (simp add: map_concat comp_def)
  also have "\<dots> = agg (map (\<lambda>n. agg (map (list_score inp tr) (map (\<lambda>p. p @ [m]) (paths_to N k n)))) [0..<N])"
    by (rule agg_groups [OF N]) (simp add: paths_to_ne [OF N])
  also have "\<dots> = agg (map (\<lambda>n. forward agg inp tr N k n + (tr m n + inp (Suc k) m)) [0..<N])"
    using Suc.IH paths_to_ne [OF N] by (intro arg_cong [of _ _ agg] map_cong refl) (simp add: ext agg_shift del: map_map)
  also have "\<dots> = agg (map (\<lambda>v. v + inp (Suc k) m) (map (\<lambda>n. forward agg inp tr N k n + tr m n) [0..<N]))"
    by (simp add: comp_def add.assoc)
  also have "\<dots> = forward agg inp tr N (Suc k) m" using N by (simp add: agg_shift del: map_map)
  finally show ?case by simp
qed

theorem forward_all_paths:
  assumes N: "0 < N"
  shows "agg (map (forward agg inp tr N k) [0..<N]) = agg (map (list_score inp tr) (all_paths N k))"
proof -
  have "agg (map (list_score inp tr) (all_paths N k)) = agg (concat (map (\<lambda>n. map (list_score inp tr) (paths_to N k n)) [0..<N]))"
    by (simp add: all_paths_def map_concat comp_def)
  also have "\<dots> = agg (map (\<lambda>n. agg (map (list_score inp tr) (paths_to N k n))) [0..<N])"
    by (rule agg_groups [OF N]) (simp add: paths_to_ne [OF N])
  also have "\<dots> = agg (map (forward agg inp tr N k) [0..<N])"
    using forward_paths [OF N] by (intro arg_cong [of _ _ agg] map_cong) auto
  finally show ?thesis by simp
qed

end

subsection \<open>Alignments of a target with the frames\<close>

text \<open>
  All alignments of frames \<open>0..t\<close> with a target that start at its position \<open>0\<close> and end at position \<open>i\<close>: the position stays
  or moves on by one in each frame.
\<close>

fun aligns_to :: "nat \<Rightarrow> nat \<Rightarrow> nat list list" where
  "aligns_to 0 i = (if i = 0 then [[0]] else [])"
| "aligns_to (Suc t) i = map (\<lambda>p. p @ [i]) (aligns_to t i) @ (if i = 0 then [] else map (\<lambda>p. p @ [i]) (aligns_to t (i - 1)))"

fun align_forward :: "(real list \<Rightarrow> real) \<Rightarrow> (nat \<Rightarrow> nat \<Rightarrow> real) \<Rightarrow> (nat \<Rightarrow> nat \<Rightarrow> real) \<Rightarrow> nat \<Rightarrow> nat \<Rightarrow> real" where
  "align_forward agg inp tr 0 i = inp 0 i"
| "align_forward agg inp tr (Suc t) i =
     (if i = 0 then align_forward agg inp tr t 0 + tr 0 0
      else if i = Suc t then align_forward agg inp tr t t + tr i t
      else agg [align_forward agg inp tr t i + tr i i, align_forward agg inp tr t (i - 1) + tr i (i - 1)]) + inp (Suc t) i"

lemma aligns_to_set:
  "p \<in> set (aligns_to t i) \<longleftrightarrow> length p = Suc t \<and> p ! 0 = 0 \<and> last p = i \<and> (\<forall>s<t. p ! Suc s = p ! s \<or> p ! Suc s = Suc (p ! s))"
proof (induction t arbitrary: p i)
  case 0
  then show ?case by (cases p) auto
next
  case (Suc t)
  show ?case
  proof
    assume "p \<in> set (aligns_to (Suc t) i)"
    then obtain q j where q: "p = q @ [i]" "q \<in> set (aligns_to t j)" "i = j \<or> i = Suc j" by (auto split: if_splits)
    then have l: "length q = Suc t" "q ! 0 = 0" "last q = j" "\<forall>s<t. q ! Suc s = q ! s \<or> q ! Suc s = Suc (q ! s)" using Suc by blast+
    then have "q ! t = j" by (cases "q = []") (auto simp: last_conv_nth)
    then show "length p = Suc (Suc t) \<and> p ! 0 = 0 \<and> last p = i \<and> (\<forall>s<Suc t. p ! Suc s = p ! s \<or> p ! Suc s = Suc (p ! s))"
      using q l by (auto simp: nth_append less_Suc_eq)
  next
    assume p: "length p = Suc (Suc t) \<and> p ! 0 = 0 \<and> last p = i \<and> (\<forall>s<Suc t. p ! Suc s = p ! s \<or> p ! Suc s = Suc (p ! s))"
    then obtain q where q: "p = q @ [i]" "length q = Suc t" by (cases p rule: rev_cases) auto
    have n: "q ! s = p ! s" if "s \<le> t" for s using that q by (simp add: nth_append)
    have lq: "last q = q ! t" using q(2) by (cases "q = []") (auto simp: last_conv_nth)
    have "\<forall>s<t. q ! Suc s = q ! s \<or> q ! Suc s = Suc (q ! s)" using p n by auto
    then have "q \<in> set (aligns_to t (q ! t))" using Suc [of q "q ! t"] p n [of 0] q(2) lq by simp
    moreover have "i = q ! t \<or> i = Suc (q ! t)" using p n [of t] q by (auto simp: nth_append dest: spec [of _ t])
    ultimately show "p \<in> set (aligns_to (Suc t) i)" using q(1) by auto
  qed
qed

lemma aligns_to_ne: "i \<le> t \<longleftrightarrow> aligns_to t i \<noteq> []"
proof (induction t arbitrary: i)
  case (Suc t)
  show ?case using Suc [of i] Suc [of "i - 1"] by (cases i) auto
qed simp

context path_aggregate
begin

lemma agg_pair: "xs \<noteq> [] \<Longrightarrow> ys \<noteq> [] \<Longrightarrow> agg (xs @ ys) = agg [agg xs, agg ys]"
  using agg_concat [of "[xs, ys]"] by auto

lemma align_forward_aligns:
  "i \<le> t \<Longrightarrow> align_forward agg inp tr t i = agg (map (list_score inp tr) (aligns_to t i))"
proof (induction t arbitrary: i)
  case 0
  then show ?case by (simp add: agg_single list_score_def)
next
  case (Suc t)
  have ext: "agg (map (list_score inp tr) (map (\<lambda>p. p @ [i]) (aligns_to t j))) = align_forward agg inp tr t j + tr i j + inp (Suc t) i"
    if "j \<le> t" for j
  proof -
    have "map (list_score inp tr) (map (\<lambda>p. p @ [i]) (aligns_to t j)) = map (\<lambda>v. v + (tr i j + inp (Suc t) i)) (map (list_score inp tr) (aligns_to t j))"
      by (auto simp: aligns_to_set list_score_snoc)
    then show ?thesis using that Suc.IH [of j] aligns_to_ne [of j t] by (simp add: agg_shift add.assoc del: map_map)
  qed
  consider "i = 0" | "i = Suc t" | j where "i = Suc j" "i \<le> t" using Suc.prems by (cases i; force simp: le_Suc_eq)
  then show ?case
  proof cases
    case 1
    then show ?thesis using ext [of 0] by simp
  next
    case 2
    then have "aligns_to t i = []" using aligns_to_ne [of i t] by auto
    then show ?thesis using 2 ext [of t] by simp
  next
    case 3
    let ?a = "align_forward agg inp tr t i + tr i i" and ?b = "align_forward agg inp tr t j + tr i j"
    have ne: "aligns_to t i \<noteq> []" "aligns_to t j \<noteq> []" using 3 aligns_to_ne [of i t] aligns_to_ne [of j t] by simp_all
    have "agg (map (list_score inp tr) (aligns_to (Suc t) i)) =
        agg [agg (map (list_score inp tr) (map (\<lambda>p. p @ [i]) (aligns_to t i))), agg (map (list_score inp tr) (map (\<lambda>p. p @ [i]) (aligns_to t j)))]"
      using 3 ne by (simp add: agg_pair del: map_map)
    also have "\<dots> = agg (map (\<lambda>v. v + inp (Suc t) i) [?a, ?b])" using 3 ext [of i] ext [of j] by simp
    also have "\<dots> = agg [?a, ?b] + inp (Suc t) i" by (rule agg_shift) simp
    finally show ?thesis using 3 by simp
  qed
qed

end

subsection \<open>The two ways of aggregating\<close>

definition maximum :: "real list \<Rightarrow> real" where
  "maximum xs = Max (set xs)"

definition log_sum_exp :: "real list \<Rightarrow> real" where
  "log_sum_exp xs = ln (sum_list (map exp xs))"

lemma sum_exp_pos: "xs \<noteq> [] \<Longrightarrow> 0 < sum_list (map exp xs)" for xs :: "real list"
  by (cases xs) (auto intro!: add_pos_nonneg sum_list_nonneg)

lemma maximum_concat:
  assumes "xss \<noteq> []" and ne: "\<And>xs. xs \<in> set xss \<Longrightarrow> xs \<noteq> []"
  shows "maximum (concat xss) = maximum (map maximum xss)"
proof -
  have "maximum (concat xss) \<in> set (concat xss)" unfolding maximum_def using assms by (intro Max_in) (cases xss; auto)+
  then obtain xs where "xs \<in> set xss" "maximum (concat xss) \<in> set xs" by auto
  then have "maximum (concat xss) \<le> maximum xs" "maximum xs \<in> set (map maximum xss)" by (auto simp: maximum_def)
  then have "maximum (concat xss) \<le> maximum (map maximum xss)" unfolding maximum_def by (meson List.finite_set Max_ge order.trans)
  moreover have "maximum (map maximum xss) \<le> maximum (concat xss)"
  proof -
    have "maximum (map maximum xss) \<in> set (map maximum xss)" unfolding maximum_def using assms(1) by (intro Max_in) auto
    then obtain ys where ys: "ys \<in> set xss" "maximum (map maximum xss) = maximum ys" by auto
    have "maximum ys \<in> set ys" unfolding maximum_def using ne [OF ys(1)] by (intro Max_in) auto
    then have "maximum ys \<in> set (concat xss)" using ys(1) by auto
    then show ?thesis unfolding ys(2) by (subst (2) maximum_def) simp
  qed
  ultimately show ?thesis by simp
qed

interpretation mx: path_aggregate maximum
proof
  show "maximum [x] = x" for x by (simp add: maximum_def)
  show "maximum (map (\<lambda>v. v + c) xs) = maximum xs + c" if "xs \<noteq> []" for xs c
    using that by (simp add: maximum_def Max_add_commute)
qed (rule maximum_concat)

interpretation lse: path_aggregate log_sum_exp
proof
  show "log_sum_exp [x] = x" for x by (simp add: log_sum_exp_def)
  show "log_sum_exp (map (\<lambda>v. v + c) xs) = log_sum_exp xs + c" if "xs \<noteq> []" for xs c
  proof -
    have "sum_list (map exp (map (\<lambda>v. v + c) xs)) = sum_list (map exp xs) * exp c" by (induction xs) (simp_all add: exp_add algebra_simps)
    then show ?thesis using sum_exp_pos [OF that] by (simp add: log_sum_exp_def ln_mult)
  qed
  show "log_sum_exp (concat xss) = log_sum_exp (map log_sum_exp xss)" if "xss \<noteq> []" "\<And>xs. xs \<in> set xss \<Longrightarrow> xs \<noteq> []" for xss
  proof -
    have "exp (log_sum_exp xs) = sum_list (map exp xs)" if "xs \<noteq> []" for xs using sum_exp_pos [OF that] by (simp add: log_sum_exp_def)
    then have "sum_list (map exp (concat xss)) = sum_list (map exp (map log_sum_exp xss))" using that(2) by (induction xss) auto
    then show ?thesis by (simp add: log_sum_exp_def)
  qed
qed

end
