(* ===== verification/ViterbiPath.thy ===== *)
theory ViterbiPath
  imports PathRecursion
begin

section \<open>The Viterbi path (\<^verbatim>\<open>lib/sequence/criterion/cpu/ViterbiPath.cpp\<close>)\<close>

text \<open>
  \<^verbatim>\<open>ViterbiPath::compute\<close> treats the elements of a batch in parallel; each works on its own slices of the input, the workspace
  and the output, so the batch is a map. The workspace of one element is the two alternating rows of \<^verbatim>\<open>alpha\<close> and the
  back pointers \<^verbatim>\<open>beta\<close>, both with arbitrary contents at the start. Scores are exact (theory \<open>Doubles\<close>).
\<close>

type_synonym workspace = "dbl list \<times> int list"

definition alpha_row :: "nat \<Rightarrow> dbl list \<Rightarrow> nat \<Rightarrow> nat \<Rightarrow> dbl" where
  "alpha_row N alpha t n = alpha ! ((t mod 2) * N + n)"

definition best_prev :: "nat \<Rightarrow> nat \<Rightarrow> dbl list \<Rightarrow> (nat \<Rightarrow> dbl) \<Rightarrow> nat \<Rightarrow> nat \<Rightarrow> int \<times> dbl" where
  "best_prev T N trn alphaPrev t m =
     fold (\<lambda>n (maxIndex, maxValue).
         let val = alphaPrev n + (if t = T then 0 else trn ! (m * N + n)) in
         if val > maxValue then (int n, val) else (maxIndex, maxValue)) [0..<N] (-1, NInf)"

definition viterbi_cell :: "nat \<Rightarrow> nat \<Rightarrow> dbl list \<Rightarrow> dbl list \<Rightarrow> nat \<Rightarrow> nat \<Rightarrow> workspace \<Rightarrow> workspace" where
  "viterbi_cell T N input trn t m ws =
     (let (alpha, beta) = ws;
          (maxIndex, maxValue) = best_prev T N trn (alpha_row N alpha (t - 1)) t m
      in (alpha[(t mod 2) * N + m := maxValue + input ! (t * N + m)], beta[t * N + m := maxIndex]))"

definition viterbi_frame :: "nat \<Rightarrow> nat \<Rightarrow> dbl list \<Rightarrow> dbl list \<Rightarrow> nat \<Rightarrow> workspace \<Rightarrow> workspace" where
  "viterbi_frame T N input trn t ws = fold (viterbi_cell T N input trn t) [0..<N] ws"

fun backtrace :: "nat \<Rightarrow> int list \<Rightarrow> nat \<Rightarrow> int \<Rightarrow> int list \<Rightarrow> int list" where
  "backtrace N beta 0 p path = p # path"
| "backtrace N beta (Suc s) p path = backtrace N beta s (beta ! nat (int (Suc s * N) + p)) (p # path)"

definition viterbi_one :: "nat \<Rightarrow> nat \<Rightarrow> dbl list \<Rightarrow> dbl list \<Rightarrow> workspace \<Rightarrow> int list" where
  "viterbi_one T N input trn ws =
     (let alpha = fold (\<lambda>n a. a[n := input ! n]) [0..<N] (fst ws);
          (alpha', beta') = fold (viterbi_frame T N input trn) [1..<T] (alpha, snd ws)
      in backtrace N beta' (T - 1) (fst (best_prev T N trn (alpha_row N alpha' (T - 1)) T 0)) [])"

definition slice :: "nat \<Rightarrow> nat \<Rightarrow> 'a list \<Rightarrow> 'a list" where
  "slice n b xs = take n (drop (b * n) xs)"

text \<open>Without frames or labels nothing is written to the output.\<close>

definition compute :: "nat \<Rightarrow> nat \<Rightarrow> nat \<Rightarrow> dbl list \<Rightarrow> dbl list \<Rightarrow> workspace \<Rightarrow> int list \<Rightarrow> int list" where
  "compute B T N input trn ws path =
     (if T = 0 \<or> N = 0 then path
      else concat (map (\<lambda>b. viterbi_one T N (slice (T * N) b input) trn (slice (2 * N) b (fst ws), slice (T * N) b (snd ws))) [0..<B]))"

subsection \<open>One frame\<close>

lemma argmax_fold:
  assumes "\<And>n. n < k \<Longrightarrow> f n = Fin (v n)" "0 < k"
  shows "\<exists>i<k. fold (\<lambda>n (mi, mv). if f n > mv then (int n, f n) else (mi, mv)) [0..<k] (-1, NInf) = (int i, Fin (v i)) \<and> (\<forall>n<k. v n \<le> v i)"
  using assms
proof (induction k)
  case (Suc k)
  show ?case
  proof (cases "k = 0")
    case False
    then obtain i where i: "i < k" "fold (\<lambda>n (mi, mv). if f n > mv then (int n, f n) else (mi, mv)) [0..<k] (-1, NInf) = (int i, Fin (v i))"
        "\<forall>n<k. v n \<le> v i" using Suc by auto
    let ?j = "if v i < v k then k else i"
    have "fold (\<lambda>n (mi, mv). if f n > mv then (int n, f n) else (mi, mv)) [0..<Suc k] (-1, NInf) = (int ?j, Fin (v ?j))"
      using i(2) Suc.prems(1) [of k] by simp
    moreover have "v n \<le> v ?j" if "n < Suc k" for n
    proof -
      have "n = k \<or> v n \<le> v i" using i(3) that by (auto simp: less_Suc_eq)
      then show ?thesis by (auto intro: order.trans [OF _ less_imp_le])
    qed
    ultimately show ?thesis using i(1) by (intro exI [of _ ?j]) auto
  qed (use Suc in auto)
qed simp

lemma best_prev_max:
  assumes fin: "\<And>n. n < N \<Longrightarrow> alphaPrev n + (if t = T then 0 else trn ! (m * N + n)) = Fin (v n)" and N: "0 < N"
  shows "\<exists>i<N. best_prev T N trn alphaPrev t m = (int i, Fin (v i)) \<and> (\<forall>n<N. v n \<le> v i)"
  using argmax_fold [of N "\<lambda>n. alphaPrev n + (if t = T then 0 else trn ! (m * N + n))" v, OF fin N]
  unfolding best_prev_def Let_def .

subsection \<open>The table of a batch element\<close>

definition emission :: "nat \<Rightarrow> real list \<Rightarrow> nat \<Rightarrow> nat \<Rightarrow> real" where
  "emission N xs t m = xs ! (t * N + m)"

definition transition :: "nat \<Rightarrow> real list \<Rightarrow> nat \<Rightarrow> nat \<Rightarrow> real" where
  "transition N ys m n = ys ! (m * N + n)"

abbreviation best :: "nat \<Rightarrow> real list \<Rightarrow> real list \<Rightarrow> nat \<Rightarrow> nat \<Rightarrow> real" where
  "best N xs ys \<equiv> forward maximum (emission N xs) (transition N ys) N"

lemma row_bound: "t < T \<Longrightarrow> m < N \<Longrightarrow> t * N + m < T * N" for t m :: nat
proof -
  assume "t < T" "m < N"
  then have "t * N + m < Suc t * N" by simp
  also have "\<dots> \<le> T * N" using \<open>t < T\<close> by (intro mult_le_mono1) simp
  finally show ?thesis .
qed

lemma row_inj: "m < N \<Longrightarrow> m' < N \<Longrightarrow> t * N + m = t' * N + m' \<Longrightarrow> t = t' \<and> m = m'" for m m' :: nat
proof -
  assume *: "m < N" "m' < N" "t * N + m = t' * N + m'"
  have "t = (t * N + m) div N" "t' = (t' * N + m') div N" "m = (t * N + m) mod N" "m' = (t' * N + m') mod N" using *(1,2) by simp_all
  then show ?thesis using *(3) by metis
qed

text \<open>What is stored after frame \<open>k\<close>: the best scores of the frame, and for every frame so far back pointers that attain them.\<close>

definition points_back :: "nat \<Rightarrow> real list \<Rightarrow> real list \<Rightarrow> int list \<Rightarrow> nat \<Rightarrow> nat \<Rightarrow> bool" where
  "points_back N xs ys beta t m \<longleftrightarrow>
     (\<exists>i<N. beta ! (Suc t * N + m) = int i \<and> best N xs ys (Suc t) m = best N xs ys t i + transition N ys m i + emission N xs (Suc t) m)"

definition table_ok :: "nat \<Rightarrow> nat \<Rightarrow> real list \<Rightarrow> real list \<Rightarrow> nat \<Rightarrow> workspace \<Rightarrow> bool" where
  "table_ok T N xs ys k ws \<longleftrightarrow> length (fst ws) = 2 * N \<and> length (snd ws) = T * N \<and>
     (\<forall>m<N. alpha_row N (fst ws) k m = Fin (best N xs ys k m)) \<and>
     (\<forall>t<k. \<forall>m<N. points_back N xs ys (snd ws) t m)"

lemma cell_best:
  assumes N: "0 < N" "m < N" and t: "Suc t < T" and len: "length xs = T * N" "length ys = N * N"
    and alpha: "\<And>n. n < N \<Longrightarrow> alpha_row N alpha t n = Fin (best N xs ys t n)"
  shows "\<exists>i<N. best_prev T N (map Fin ys) (alpha_row N alpha t) (Suc t) m = (int i, Fin (best N xs ys t i + transition N ys m i)) \<and>
    best N xs ys (Suc t) m = best N xs ys t i + transition N ys m i + emission N xs (Suc t) m"
proof -
  let ?v = "\<lambda>n. best N xs ys t n + transition N ys m n"
  have "alpha_row N alpha t n + (if Suc t = T then 0 else map Fin ys ! (m * N + n)) = Fin (?v n)" if "n < N" for n
    using alpha [OF that] row_bound [OF N(2) that] t len(2) by (simp add: transition_def)
  from best_prev_max [of N _ _ _ _ m ?v, OF this N(1)] obtain i where
    i: "i < N" "best_prev T N (map Fin ys) (alpha_row N alpha t) (Suc t) m = (int i, Fin (?v i))" "\<forall>n<N. ?v n \<le> ?v i" by blast
  have "maximum (map ?v [0..<N]) = ?v i" by (subst maximum_def, rule Max_eqI) (use i in auto)
  then show ?thesis using i by auto
qed

lemma frame_ok:
  assumes N: "0 < N" and t: "Suc t < T" and len: "length xs = T * N" "length ys = N * N" and ok: "table_ok T N xs ys t ws"
  shows "table_ok T N xs ys (Suc t) (viterbi_frame T N (map Fin xs) (map Fin ys) (Suc t) ws)"
proof -
  define inner where "inner k ws' \<longleftrightarrow> length (fst ws') = 2 * N \<and> length (snd ws') = T * N \<and>
      (\<forall>n<N. alpha_row N (fst ws') t n = Fin (best N xs ys t n)) \<and>
      (\<forall>m<k. alpha_row N (fst ws') (Suc t) m = Fin (best N xs ys (Suc t) m)) \<and>
      (\<forall>m<k. points_back N xs ys (snd ws') t m) \<and> (\<forall>s<t. \<forall>m<N. points_back N xs ys (snd ws') s m)" for k ws'
  have "k \<le> N \<Longrightarrow> inner k (fold (viterbi_cell T N (map Fin xs) (map Fin ys) (Suc t)) [0..<k] ws)" for k
  proof (induction k)
    case 0
    then show ?case using ok by (simp add: inner_def table_ok_def)
  next
    case (Suc k)
    obtain alpha beta where ws': "fold (viterbi_cell T N (map Fin xs) (map Fin ys) (Suc t)) [0..<k] ws = (alpha, beta)" by fastforce
    have i: "inner k (alpha, beta)" and k: "k < N" using Suc ws' by simp_all
    obtain i where b: "i < N" "best_prev T N (map Fin ys) (alpha_row N alpha t) (Suc t) k = (int i, Fin (best N xs ys t i + transition N ys k i))"
        "best N xs ys (Suc t) k = best N xs ys t i + transition N ys k i + emission N xs (Suc t) k"
      using cell_best [OF N k t len, of alpha] i by (auto simp: inner_def)
    have e: "map Fin xs ! (Suc t * N + k) = Fin (emission N xs (Suc t) k)"
      using row_bound [OF t k] len(1) by (simp add: emission_def)
    let ?alpha = "alpha[(Suc t mod 2) * N + k := Fin (best N xs ys (Suc t) k)]" and ?beta = "beta[Suc t * N + k := int i]"
    have step: "viterbi_cell T N (map Fin xs) (map Fin ys) (Suc t) k (alpha, beta) = (?alpha, ?beta)"
      unfolding viterbi_cell_def using b(2,3) e by (simp del: mult_Suc forward.simps)
    have a: "(Suc t mod 2) * N + k < length alpha" using i k row_bound [of "Suc t mod 2" 2 k N] by (simp add: inner_def)
    have bl: "Suc t * N + k < length beta" using i row_bound [OF t k] by (simp add: inner_def)
    have "t mod 2 \<noteq> Suc t mod 2" by presburger
    then have prev: "alpha_row N ?alpha t n = alpha_row N alpha t n" if "n < N" for n
      using row_inj [OF k that, of "Suc t mod 2" "t mod 2"] unfolding alpha_row_def by (intro nth_list_update_neq) auto
    have cur: "alpha_row N ?alpha (Suc t) m = (if m = k then Fin (best N xs ys (Suc t) k) else alpha_row N alpha (Suc t) m)" for m
      using a by (auto simp: alpha_row_def nth_list_update)
    have bk: "points_back N xs ys ?beta s m = (if s = t \<and> m = k then True else points_back N xs ys beta s m)" if "m < N" for s m
    proof (cases "s = t \<and> m = k")
      case True
      then show ?thesis using b bl by (auto simp: points_back_def simp del: mult_Suc forward.simps)
    next
      case False
      then have "Suc s * N + m \<noteq> Suc t * N + k" using row_inj [OF that k, of "Suc s" "Suc t"] by auto
      then have "?beta ! (Suc s * N + m) = beta ! (Suc s * N + m)" by (intro nth_list_update_neq) auto
      then show ?thesis unfolding points_back_def if_not_P [OF False] by (simp only:)
    qed
    have "inner (Suc k) (?alpha, ?beta)"
      using i k prev cur bk unfolding inner_def by (auto simp: less_Suc_eq)
    then show ?case using ws' step by simp
  qed
  from this [OF le_refl] show ?thesis
    unfolding viterbi_frame_def table_ok_def inner_def by (auto simp: less_Suc_eq)
qed

subsection \<open>The path\<close>

lemma first_row:
  assumes "length alpha = 2 * N" "length xs = T * N" "0 < T"
  shows "length (fold (\<lambda>n a. a[n := map Fin xs ! n]) [0..<N] alpha) = 2 * N \<and>
    (\<forall>m<N. fold (\<lambda>n a. a[n := map Fin xs ! n]) [0..<N] alpha ! m = Fin (xs ! m))"
proof -
  have "k \<le> N \<Longrightarrow> length (fold (\<lambda>n a. a[n := map Fin xs ! n]) [0..<k] alpha) = 2 * N \<and>
    (\<forall>m<k. fold (\<lambda>n a. a[n := map Fin xs ! n]) [0..<k] alpha ! m = Fin (xs ! m))" for k
  proof (induction k)
    case (Suc k)
    then have "k < length xs" using assms(2,3) row_bound [of 0 T k N] by simp
    then show ?case using Suc by (auto simp: nth_list_update less_Suc_eq)
  qed (simp add: assms(1))
  then show ?thesis by blast
qed

lemma frames_ok:
  assumes N: "0 < N" and len: "length xs = T * N" "length ys = N * N" and ok: "table_ok T N xs ys 0 ws" and k: "k < T"
  shows "table_ok T N xs ys k (fold (viterbi_frame T N (map Fin xs) (map Fin ys)) [1..<Suc k] ws)"
  using k
proof (induction k)
  case (Suc k)
  then show ?case using frame_ok [OF N Suc.prems len] by simp
qed (simp add: ok)

lemma backtrace_best:
  assumes "\<forall>t<s. \<forall>m<N. points_back N xs ys beta t m" "p < N"
  shows "\<exists>q. backtrace N beta s (int p) path = map int q @ path \<and> length q = Suc s \<and> set q \<subseteq> {..<N} \<and> last q = p \<and>
    list_score (emission N xs) (transition N ys) q = best N xs ys s p"
  using assms
proof (induction s arbitrary: p path)
  case 0
  then show ?case by (intro exI [of _ "[p]"]) (simp add: list_score_def)
next
  case (Suc s)
  then obtain i where i: "i < N" "beta ! (Suc s * N + p) = int i"
      "best N xs ys (Suc s) p = best N xs ys s i + transition N ys p i + emission N xs (Suc s) p"
    unfolding points_back_def by blast
  from Suc.IH [OF _ i(1), of "int p # path"] Suc.prems(1) obtain q where
    q: "backtrace N beta s (int i) (int p # path) = map int q @ int p # path" "length q = Suc s" "set q \<subseteq> {..<N}" "last q = i"
      "list_score (emission N xs) (transition N ys) q = best N xs ys s i" by auto
  have "backtrace N beta (Suc s) (int p) path = map int (q @ [p]) @ path"
    using q(1) i(2) by (simp add: nat_int_add flip: of_nat_mult of_nat_add)
  moreover have "list_score (emission N xs) (transition N ys) (q @ [p]) = best N xs ys (Suc s) p"
    unfolding list_score_snoc [OF q(2)] q(4,5) i(3) ..
  ultimately show ?case using q Suc.prems(2) by (intro exI [of _ "q @ [p]"]) simp
qed

definition optimal_path :: "nat \<Rightarrow> nat \<Rightarrow> real list \<Rightarrow> real list \<Rightarrow> nat list \<Rightarrow> bool" where
  "optimal_path T N xs ys p \<longleftrightarrow> length p = T \<and> set p \<subseteq> {..<N} \<and>
     (\<forall>q. length q = T \<and> set q \<subseteq> {..<N} \<longrightarrow>
        list_score (emission N xs) (transition N ys) q \<le> list_score (emission N xs) (transition N ys) p)"

lemma viterbi_one_optimal:
  assumes T: "0 < T" and N: "0 < N" and len: "length xs = T * N" "length ys = N * N" and ws: "length (fst ws) = 2 * N" "length (snd ws) = T * N"
  shows "\<exists>p. viterbi_one T N (map Fin xs) (map Fin ys) ws = map int p \<and> optimal_path T N xs ys p"
proof -
  let ?a = "fold (\<lambda>n a. a[n := map Fin xs ! n]) [0..<N] (fst ws)"
  obtain k where k: "T = Suc k" using T by (cases T) auto
  have start: "table_ok T N xs ys 0 (?a, snd ws)"
    using first_row [OF ws(1) len(1) T] ws(2) by (simp add: table_ok_def alpha_row_def emission_def)
  obtain alpha beta where f: "fold (viterbi_frame T N (map Fin xs) (map Fin ys)) [1..<T] (?a, snd ws) = (alpha, beta)" by fastforce
  have "k < T" using k by simp
  from frames_ok [OF N len start this] have ok: "table_ok T N xs ys k (alpha, beta)" using f unfolding k by simp
  have "alpha_row N alpha k n + (if T = T then 0 else map Fin ys ! (0 * N + n)) = Fin (best N xs ys k n)" if "n < N" for n
    using ok that by (simp add: table_ok_def zero_dbl_def)
  from best_prev_max [of N _ _ _ _ 0 "best N xs ys k", OF this N] obtain i where
    i: "i < N" "best_prev T N (map Fin ys) (alpha_row N alpha k) T 0 = (int i, Fin (best N xs ys k i))" "\<forall>n<N. best N xs ys k n \<le> best N xs ys k i"
    by blast
  obtain p where p: "backtrace N beta k (int i) [] = map int p" "length p = T" "set p \<subseteq> {..<N}"
      "list_score (emission N xs) (transition N ys) p = best N xs ys k i"
    using backtrace_best [OF _ i(1), of k xs ys beta "[]"] ok unfolding table_ok_def k by auto
  have "list_score (emission N xs) (transition N ys) q \<le> best N xs ys k i" if "length q = T" "set q \<subseteq> {..<N}" for q
  proof -
    have "q \<in> set (all_paths N k)" using that k by (simp add: all_paths_set)
    then have "list_score (emission N xs) (transition N ys) q \<le> maximum (map (list_score (emission N xs) (transition N ys)) (all_paths N k))"
      by (subst maximum_def) (intro Max_ge; simp)
    also have "\<dots> = maximum (map (best N xs ys k) [0..<N])" by (rule mx.forward_all_paths [OF N, symmetric])
    also have "\<dots> \<le> best N xs ys k i" using i N by (subst maximum_def) (subst Max_le_iff; auto)
    finally show ?thesis .
  qed
  moreover have "viterbi_one T N (map Fin xs) (map Fin ys) ws = map int p"
    using f i(2) p(1) by (simp add: viterbi_one_def k)
  ultimately show ?thesis using p by (auto simp: optimal_path_def)
qed

lemma slice_concat:
  assumes "\<And>b. b < B \<Longrightarrow> length (f b) = n" "b < B"
  shows "slice n b (concat (map f [0..<B])) = f b"
  using assms
proof (induction B)
  case (Suc B)
  have len: "length (concat (map f [0..<k])) = k * n" if "k \<le> B" for k
    using that Suc.prems(1) by (induction k) auto
  show ?case
  proof (cases "b = B")
    case True
    then show ?thesis using len [of B] Suc.prems(1) [of B] by (simp add: slice_def)
  next
    case False
    then have "b < B" "b * n + n \<le> B * n" using Suc.prems(2) mult_le_mono1 [of "Suc b" B n] by auto
    then show ?thesis using Suc.IH Suc.prems(1) len [of B] by (simp add: slice_def)
  qed
qed simp

lemma slice_map: "slice n b (map f xs) = map f (slice n b xs)"
  by (simp add: slice_def take_map drop_map)

lemma length_slice: "length xs = B * n \<Longrightarrow> b < B \<Longrightarrow> length (slice n b xs) = n"
  using mult_le_mono1 [of "Suc b" B n] by (auto simp: slice_def)

text \<open>
  C7. \<^verbatim>\<open>ViterbiPath::compute\<close> finds best paths: with finite scores, whatever the workspace holds, the output of every batch element
  is a sequence of labels, one per frame, whose score, its emissions plus its transitions, is at least
  that of every other label sequence.
\<close>

theorem viterbi_path_optimal:
  assumes T: "0 < T" and N: "0 < N" and len: "length xs = B * (T * N)" "length ys = N * N"
    and ws: "length (fst ws) = B * (2 * N)" "length (snd ws) = B * (T * N)" and b: "b < B"
  shows "\<exists>p. slice T b (compute B T N (map Fin xs) (map Fin ys) ws path) = map int p \<and> optimal_path T N (slice (T * N) b xs) ys p"
proof -
  let ?f = "\<lambda>b. viterbi_one T N (slice (T * N) b (map Fin xs)) (map Fin ys) (slice (2 * N) b (fst ws), slice (T * N) b (snd ws))"
  have one: "\<exists>p. ?f b = map int p \<and> optimal_path T N (slice (T * N) b xs) ys p" if "b < B" for b
    unfolding slice_map by (rule viterbi_one_optimal [OF T N]) (simp_all add: len(2) length_slice [OF len(1) that] length_slice [OF ws(1) that] length_slice [OF ws(2) that])
  then have "length (?f b) = T" if "b < B" for b using that by (fastforce simp: optimal_path_def)
  from slice_concat [of B ?f, OF this b] show ?thesis using one [OF b] T N by (simp add: compute_def)
qed

theorem viterbi_path_optimal_witness:
  "\<exists>p. slice 2 0 (compute 1 2 2 (map Fin [1, 0, 0, 1]) (map Fin [0, 0, 0, 0]) (replicate 4 0, replicate 4 0) []) = map int p \<and>
     list_score (emission 2 [1, 0, 0, 1]) (transition 2 [0, 0, 0, 0]) [0, 1] \<le> list_score (emission 2 [1, 0, 0, 1]) (transition 2 [0, 0, 0, 0]) p"
proof -
  have s: "slice (2 * 2) 0 [1, 0, 0, 1::real] = [1, 0, 0, 1]" by (simp add: slice_def)
  have "set [0, 1::nat] \<subseteq> {..<2}" by auto
  with viterbi_path_optimal [of 2 2 "[1, 0, 0, 1]" 1 "[0, 0, 0, 0]" "(replicate 4 0, replicate 4 0)" 0 "[]"] show ?thesis
    unfolding s optimal_path_def by fastforce
qed

end
