(* ===== verification/ConvLM.thy ===== *)
theory ConvLM
  imports LanguageModel DictionaryUtils ViterbiPath "HOL-Library.Signed_Division"
begin

section \<open>The convolutional language model (\<^verbatim>\<open>lib/text/decoder/lm/ConvLM.h\<close>, \<^verbatim>\<open>ConvLM.cpp\<close>)\<close>

text \<open>
  A state holds the last tokens of its history, at most \<^verbatim>\<open>maxHistorySize_\<close> of them. The scores of all next tokens come from a network, which the
  caller passes as a function \<open>f\<close>; they are kept in a cache of \<^verbatim>\<open>beamSize_\<close> rows, indexed by the addresses of states. \<open>updateCache\<close> keeps the rows of states
  that are still used and computes the others in batches of padded histories. States live in a heap, a list from which
  none is removed: the cache is indexed by addresses of states it does not own, so the code relies on its callers to keep cached states alive until
  the next \<^verbatim>\<open>start\<close> or \<^verbatim>\<open>updateCache\<close>, as the decoders do. The functions of the class take the function and return the new object.
  \<^verbatim>\<open>slot_\<close> is local, as each use begins by clearing it. \<open>buildGetConvLmScoreFunction\<close> makes the function from a network, which is a parameter.
\<close>

type_synonym getConvLmScoreFunc = "int list \<Rightarrow> int list \<Rightarrow> int \<Rightarrow> int \<Rightarrow> dbl list result"

record convLM =
  lmMemory :: int
  beamSize :: int
  cacheIndices :: "(lmStatePtr \<times> int) list"
  cache :: "dbl list list"
  batchedTokens :: "int list"
  vocab :: dictionary
  vocabSize :: int
  maxHistorySize :: int
  usrToLmIdxMap :: "int list"
  convStates :: "int list list"

definition kEosToken :: string where
  "kEosToken = ''</s>''"

definition kPadToken :: string where
  "kPadToken = ''<pad>''"

text \<open>\<^verbatim>\<open>token.c_str()\<close> ends at the first zero byte.\<close>

definition c_str :: "string \<Rightarrow> string" where
  "c_str s = takeWhile (\<lambda>c. c \<noteq> CHR 0x00) s"

text \<open>A negative beam size becomes a huge one, which the containers refuse.\<close>

definition new_ConvLM :: "filesystem \<Rightarrow> string \<Rightarrow> dictionary \<Rightarrow> int \<Rightarrow> int \<Rightarrow> int \<Rightarrow> convLM result" where
  "new_ConvLM fs tokenVocabPath usrTknDict mem beam historySize =
     (if historySize < 1 then Inl (Invalid_argument ''[ConvLM] History size is too small.'')
      else
        rbind (dictionary_of_file fs tokenVocabPath) (\<lambda>v.
        rbind (getIndex v kUnkToken) (\<lambda>unk.
        let v' = setDefaultIndex unk v in
        rbind (rmap (\<lambda>i. rbind (getEntry usrTknDict (int i)) (\<lambda>token. getIndex v' (c_str token))) [0..<indexSize usrTknDict]) (\<lambda>idxMap.
        if beam < 0 then Inl (Length_error ''vector::_M_default_append'')
        else Inr \<lparr>lmMemory = mem, beamSize = beam, cacheIndices = [], cache = replicate (nat beam) (replicate (indexSize v') 0),
          batchedTokens = replicate (nat (beam * historySize)) 0, vocab = v', vocabSize = int (indexSize v'), maxHistorySize = historySize,
          usrToLmIdxMap = idxMap, convStates = []\<rparr>))))"

text \<open>Following a pointer to a state, and making a new one.\<close>

definition conv_tokens :: "convLM \<Rightarrow> lmStatePtr \<Rightarrow> int list result" where
  "conv_tokens m s = (if s < length (convStates m) then Inr (convStates m ! s) else Inl (Undefined ''language model state''))"

definition conv_new_state :: "int list \<Rightarrow> convLM \<Rightarrow> lmStatePtr \<times> convLM" where
  "conv_new_state ts m = (length (convStates m), m\<lparr>convStates := convStates m @ [ts]\<rparr>)"

definition conv_start :: "bool \<Rightarrow> convLM \<Rightarrow> (lmStatePtr \<times> convLM) result" where
  "conv_start startWithNothing m =
     (if \<not> startWithNothing
      then rbind (getIndex (vocab m) kEosToken) (\<lambda>eos. Inr (conv_new_state [eos] (m\<lparr>cacheIndices := []\<rparr>)))
      else Inl (Invalid_argument ''[ConvLM] Only support using EOS to start the sentence''))"

definition out_tokens :: "convLM \<Rightarrow> int list \<Rightarrow> int \<Rightarrow> int list" where
  "out_tokens m ts tokenIdx = (if int (length ts) = maxHistorySize m then tl ts @ [tokenIdx] else ts @ [tokenIdx])"

definition row_at :: "dbl list \<Rightarrow> int \<Rightarrow> dbl result" where
  "row_at row i = (if 0 \<le> i \<and> i < int (length row) then Inr (row ! nat i) else Inl (Undefined ''index out of range''))"

text \<open>
  \<^verbatim>\<open>app/asr/decoder/ConvLmModule.cpp\<close>: the network maps a matrix of tokens, one column for each sample, to the dimensions and the elements
  of an array of channels, times and samples; the rows of the last positions are picked from it.
\<close>

type_synonym convNetwork = "nat \<Rightarrow> nat \<Rightarrow> int list \<Rightarrow> (nat \<times> nat \<times> nat \<times> dbl list) result"

definition buildGetConvLmScoreFunction :: "convNetwork \<Rightarrow> getConvLmScoreFunc" where
  "buildGetConvLmScoreFunction network inputs lastTokenPositions sampleSize0 batchSize =
     (let sampleSize = (if sampleSize0 > 0 then sampleSize0 else int (length inputs)) in
      if sampleSize * batchSize < 0 \<or> sampleSize * batchSize > int (length inputs)
      then Inl (Invalid_argument (''[ConvLM] Incorrect sample size ('' @ to_string sampleSize @ '') or batch size ('' @ to_string batchSize @ '').''))
      else rbind (network (nat sampleSize) (nat batchSize) (take (nat (sampleSize * batchSize)) inputs)) (\<lambda>(C, T, B, out).
        if NaN \<in> set out then Inl (Runtime_error ''[ConvLM] Encountered NaNs in propagation'')
        else if int B \<noteq> batchSize
        then Inl (Logic_error (''[ConvLM]: incorrect predictions: batch should be '' @ to_string batchSize @ '' but it is '' @ to_string (int B)))
        else if batchSize \<noteq> int (length lastTokenPositions)
        then Inl (Logic_error (''[ConvLM]: incorrect postions for accessing: size should be '' @ to_string batchSize @
          '' but it is '' @ to_string (int (length lastTokenPositions))))
        else
          let globalIndices = concat (map (\<lambda>b. map (\<lambda>c. int c + int b * int T * int C + lastTokenPositions ! b * int C) [0..<C]) [0..<B])
          in rmap (row_at out) globalIndices))"

text \<open>The cache: a hit reads a row, a miss clears a full cache and computes the next row.\<close>

definition cached_score :: "getConvLmScoreFunc \<Rightarrow> lmStatePtr \<Rightarrow> int list \<Rightarrow> int \<Rightarrow> convLM \<Rightarrow> (dbl \<times> convLM) result" where
  "cached_score f s ts tokenIdx m =
     (case map_of (cacheIndices m) s of
        Some cacheInd \<Rightarrow>
          if cacheInd < 0 \<or> cacheInd \<ge> beamSize m then Inl (Logic_error (''[ConvLM] Invalid cache access: '' @ to_string cacheInd))
          else rbind (row_at (cache m ! nat cacheInd) tokenIdx) (\<lambda>x. Inr (x, m))
      | None \<Rightarrow>
          let ci = (if int (length (cacheIndices m)) = beamSize m then [] else cacheIndices m);
              newIdx = length ci
          in rbind (f ts [int (length ts) - 1] (-1) 1) (\<lambda>row.
             if newIdx \<ge> length (cache m) then Inl (Undefined ''index out of range'')
             else rbind (row_at row tokenIdx) (\<lambda>x.
               Inr (x, m\<lparr>cacheIndices := AList.update s (int newIdx) ci, cache := (cache m)[newIdx := row]\<rparr>))))"

fun float_string :: "dbl \<Rightarrow> string" where
  "float_string NaN = ''nan''"
| "float_string PInf = ''inf''"
| "float_string NInf = ''-inf''"
| "float_string (Fin r) = []"

definition scoreWithLmIdx :: "getConvLmScoreFunc \<Rightarrow> lmStatePtr \<Rightarrow> int \<Rightarrow> convLM \<Rightarrow> ((lmStatePtr \<times> dbl) \<times> convLM) result" where
  "scoreWithLmIdx f s tokenIdx m =
     rbind (conv_tokens m s) (\<lambda>ts.
       if tokenIdx < 0 \<or> tokenIdx \<ge> vocabSize m then Inl (Out_of_range (''[ConvLM] Invalid query word: '' @ to_string tokenIdx))
       else rbind (cached_score f s ts tokenIdx m) (\<lambda>(x, m').
         case x of
           Fin r \<Rightarrow> (let (s', m'') = conv_new_state (out_tokens m ts tokenIdx) m' in Inr ((s', x), m''))
         | _ \<Rightarrow> Inl (Runtime_error (''[ConvLM] Bad scoring from ConvLM: '' @ float_string x))))"

definition conv_score :: "getConvLmScoreFunc \<Rightarrow> lmStatePtr \<Rightarrow> int \<Rightarrow> convLM \<Rightarrow> ((lmStatePtr \<times> dbl) \<times> convLM) result" where
  "conv_score f s usrTokenIdx m =
     (if usrTokenIdx < 0 \<or> usrTokenIdx \<ge> int (length (usrToLmIdxMap m))
      then Inl (Out_of_range (''[KenLM] Invalid user token index: '' @ to_string usrTokenIdx))
      else scoreWithLmIdx f s (usrToLmIdxMap m ! nat usrTokenIdx) m)"

definition conv_finish :: "getConvLmScoreFunc \<Rightarrow> lmStatePtr \<Rightarrow> convLM \<Rightarrow> ((lmStatePtr \<times> dbl) \<times> convLM) result" where
  "conv_finish f s m = rbind (getIndex (vocab m) kEosToken) (\<lambda>eos. scoreWithLmIdx f s eos m)"

subsection \<open>\<^verbatim>\<open>updateCache\<close>\<close>

text \<open>The first loop: which rows are still used, and the longest history that has none.\<close>

definition mark_slot :: "convLM \<Rightarrow> lmStatePtr \<Rightarrow> lmStatePtr option list \<times> int \<Rightarrow> (lmStatePtr option list \<times> int) result" where
  "mark_slot m s = (\<lambda>(slot, longest).
     rbind (conv_tokens m s) (\<lambda>ts.
       case map_of (cacheIndices m) s of
         Some ci \<Rightarrow>
           if ci < 0 \<or> ci \<ge> int (length slot) then Inl (Undefined ''index out of range'')
           else Inr (slot[nat ci := Some s], longest)
       | None \<Rightarrow> Inr (slot, if int (length ts) > longest then int (length ts) else longest)))"

text \<open>The second loop moves the rows that stay to the front.\<close>

definition keep_row :: "lmStatePtr option list \<Rightarrow> nat \<Rightarrow> convLM \<times> nat \<Rightarrow> convLM \<times> nat" where
  "keep_row slot i = (\<lambda>(m, cacheSize).
     case slot ! i of
       None \<Rightarrow> (m, cacheSize)
     | Some s \<Rightarrow> (m\<lparr>cache := (cache m)[cacheSize := cache m ! i], cacheIndices := AList.update s (int cacheSize) (cacheIndices m)\<rparr>, cacheSize + 1))"

text \<open>The tokens of one history, padded, are written at the start of its row of the batch.\<close>

definition write_tokens :: "nat \<Rightarrow> int list \<Rightarrow> int list \<Rightarrow> int list result" where
  "write_tokens start ts batch =
     (if start + length ts > length batch \<and> ts \<noteq> [] then Inl (Undefined ''index out of range'')
      else Inr (take start batch @ ts @ drop (start + length ts) batch))"

definition batch_row :: "convLM \<Rightarrow> int \<Rightarrow> nat \<Rightarrow> int list \<Rightarrow> convLM result" where
  "batch_row m longest nBatch ts =
     rbind (write_tokens (nBatch * nat longest) ts (batchedTokens m)) (\<lambda>batch.
     rbind (if longest > int (length ts)
            then rbind (getIndex (vocab m) kPadToken) (\<lambda>pad. write_tokens (nBatch * nat longest + length ts) (replicate (nat longest - length ts) pad) batch)
            else Inr batch) (\<lambda>batch'.
     Inr (m\<lparr>batchedTokens := batch'\<rparr>)))"

text \<open>Selecting a batch from the states that are left; the counter of the loop and \<^verbatim>\<open>batchStart\<close> move together.\<close>

fun select_batch :: "int \<Rightarrow> int \<Rightarrow> nat \<Rightarrow> lmStatePtr list \<Rightarrow> nat \<Rightarrow> int list \<Rightarrow> convLM \<Rightarrow> (lmStatePtr list \<times> nat \<times> int list \<times> convLM) result" where
  "select_batch maxBatch longest cacheSize [] nBatch positions m = Inr ([], nBatch, positions, m)"
| "select_batch maxBatch longest cacheSize (s # states) nBatch positions m =
     (if \<not> int nBatch < maxBatch then Inr (s # states, nBatch, positions, m)
      else
        rbind (conv_tokens m s) (\<lambda>ts.
          if map_of (cacheIndices m) s \<noteq> None then select_batch maxBatch longest cacheSize states nBatch positions m
          else
            rbind (batch_row (m\<lparr>cacheIndices := AList.update s (int (cacheSize + nBatch)) (cacheIndices m)\<rparr>) longest nBatch ts) (\<lambda>m'.
              select_batch maxBatch longest cacheSize states (nBatch + 1) (positions @ [int (length ts) - 1]) m')))"

text \<open>\<^verbatim>\<open>memcpy\<close> of one row of the result into the cache.\<close>

definition store_row :: "dbl list \<Rightarrow> nat \<Rightarrow> nat \<Rightarrow> convLM \<Rightarrow> convLM result" where
  "store_row probs cacheSize i m =
     (if cacheSize + i \<ge> length (cache m) \<or> length (cache m ! (cacheSize + i)) < nat (vocabSize m)
      then Inl (Undefined ''memcpy'')
      else Inr (m\<lparr>cache := (cache m)[cacheSize + i :=
        take (nat (vocabSize m)) (drop (nat (vocabSize m) * i) probs) @ drop (nat (vocabSize m)) (cache m ! (cacheSize + i))]\<rparr>))"

lemma select_batch_length:
  "select_batch maxBatch longest cacheSize states nBatch positions m = Inr (rest, n, ps, m') \<Longrightarrow>
    length rest \<le> length states \<and> n + length rest \<le> nBatch + length states"
proof (induction states arbitrary: nBatch positions m)
  case (Cons s states)
  then show ?case by (fastforce simp: rbind_eq_Inr_iff split: if_splits)
qed simp

function run_batches :: "getConvLmScoreFunc \<Rightarrow> int \<Rightarrow> int \<Rightarrow> nat \<Rightarrow> lmStatePtr list \<Rightarrow> convLM \<Rightarrow> convLM result" where
  "run_batches f maxBatch longest cacheSize states m =
     (if states = [] then Inr m
      else case select_batch maxBatch longest cacheSize states 0 [] m of
        Inl e \<Rightarrow> Inl e
      | Inr (rest, nBatch, positions, m1) \<Rightarrow>
          if nBatch = 0 \<and> rest = [] then Inr m1
          else if nBatch < 1 \<or> longest < 1
          then Inl (Logic_error (''[ConvLM] Invalid batch: ['' @ to_string (int nBatch) @ '' x '' @ to_string longest @ '']''))
          else case f (batchedTokens m1) positions longest (int nBatch) of
            Inl e \<Rightarrow> Inl e
          | Inr probs \<Rightarrow>
              if int (length probs) \<noteq> vocabSize m1 * int nBatch
              then Inl (Logic_error (''[ConvLM] Batch X Vocab size '' @ to_string (int (length probs)) @ '' mismatch with '' @
                to_string (vocabSize m1 * int nBatch)))
              else case rfold (store_row probs cacheSize) [0..<nBatch] m1 of
                Inl e \<Rightarrow> Inl e
              | Inr m2 \<Rightarrow> run_batches f maxBatch longest (cacheSize + nBatch) rest m2)"
  by pat_completeness auto
termination
proof (relation "measure (\<lambda>(f, maxBatch, longest, cacheSize, states, m). length states)", goal_cases)
  case (2 f maxBatch longest cacheSize states m p rest q nBatch r positions m1)
  then have "select_batch maxBatch longest cacheSize states 0 [] m = Inr (rest, nBatch, positions, m1)" "0 < nBatch" by auto
  then show ?case using select_batch_length by fastforce
qed simp

definition conv_updateCache :: "getConvLmScoreFunc \<Rightarrow> lmStatePtr list \<Rightarrow> convLM \<Rightarrow> convLM result" where
  "conv_updateCache f states m =
     (if int (length states) > beamSize m
      then Inl (Invalid_argument ''[ConvLM] Cache size too small (consider larger than beam size).'')
      else
        rbind (rfold (mark_slot m) states (replicate (nat (beamSize m)) None, -1)) (\<lambda>(slot, longest).
        let (m1, cacheSize) = fold (keep_row slot) [0..<nat (beamSize m)] (m\<lparr>cacheIndices := []\<rparr>, 0) in
        if longest \<le> 0 then Inr m1
        else
          let maxBatch = min (lmMemory m sdiv longest) (int (length states)) in
          run_batches f maxBatch longest cacheSize states m1))"

end
