(* ===== verification/ConvLMTheorems.thy ===== *)
theory ConvLMTheorems
  imports ConvLM
begin

section \<open>The cache of the convolutional language model is invisible\<close>

text \<open>
  \<open>causal_network\<close> is what the class relies on of the network: the scores at a position depend only on the tokens of the sample up to
  it, in batches as for single samples. Then every entry of the cache is the row of its state's history, also while states are
  reused, rows moved and batches filled, so that queries give the scores of the network.
\<close>

definition causal_network :: "convNetwork \<Rightarrow> (int list \<Rightarrow> dbl list) \<Rightarrow> nat \<Rightarrow> bool" where
  "causal_network network p V \<longleftrightarrow> (\<forall>ts. length (p ts) = V \<and> NaN \<notin> set (p ts)) \<and>
     (\<forall>sz n xs. 0 < sz \<and> 0 < n \<and> length xs = n * sz \<longrightarrow>
        network sz n xs = Inr (V, sz, n, concat (map (\<lambda>b. concat (map (\<lambda>t. p (take (t + 1) (slice sz b xs))) [0..<sz])) [0..<n])))"

text \<open>The function built from it returns one row for each sample.\<close>

definition score_rows :: "getConvLmScoreFunc \<Rightarrow> (int list \<Rightarrow> dbl list) \<Rightarrow> nat \<Rightarrow> bool" where
  "score_rows f p V \<longleftrightarrow> (\<forall>ts. length (p ts) = V) \<and>
     (\<forall>inputs positions sz. 0 < sz \<and> positions \<noteq> [] \<and> length positions * sz \<le> length inputs \<and> (\<forall>q\<in>set positions. q < sz) \<longrightarrow>
        f inputs (map int positions) (int sz) (int (length positions)) =
          Inr (concat (map (\<lambda>b. p (take (positions ! b + 1) (drop (b * sz) inputs))) [0..<length positions]))) \<and>
     (\<forall>ts. ts \<noteq> [] \<longrightarrow> f ts [int (length ts) - 1] (-1) 1 = Inr (p ts))"

lemma nth_concat_rows:
  assumes "\<And>b. b < B \<Longrightarrow> length (f b) = n" "b < B" "j < n"
  shows "concat (map f [0..<B]) ! (b * n + j) = f b ! j" "b * n + j < length (concat (map f [0..<B]))"
proof -
  have len: "length (concat (map f [0..<B])) = B * n" using assms(1) by (induction B) auto
  have "b * n + j < Suc b * n" using assms(3) by simp
  also have "\<dots> \<le> B * n" using assms(2) by (intro mult_le_mono1) simp
  finally show l: "b * n + j < length (concat (map f [0..<B]))" by (simp add: len)
  have "f b ! j = slice n b (concat (map f [0..<B])) ! j" using slice_concat [of B f n b] assms by simp
  then show "concat (map f [0..<B]) ! (b * n + j) = f b ! j" using l assms(3) by (simp add: slice_def)
qed

lemma nth_output:
  assumes p: "\<And>ts. length (p ts) = V" and b: "b < n" and t: "t < sz" and c: "c < V"
  shows "row_at (concat (map (\<lambda>b. concat (map (\<lambda>t. p (g b t)) [0..<sz])) [0..<n])) (int c + int b * int sz * int V + int t * int V) = Inr (p (g b t) ! c)"
proof -
  let ?r = "\<lambda>b. concat (map (\<lambda>t. p (g b t)) [0..<sz])"
  have len: "length (?r b) = sz * V" for b by (induction sz) (simp_all add: p)
  note inner = nth_concat_rows [of sz "\<lambda>t. p (g b t)" V t c, OF p t c]
  have i: "t * V + c < sz * V" using inner(2) len by simp
  note outer = nth_concat_rows [of n ?r "sz * V" b "t * V + c", OF len b i]
  have "int c + int b * int sz * int V + int t * int V = int (b * (sz * V) + (t * V + c))" by (simp add: algebra_simps)
  then show ?thesis using outer inner(1) by (simp add: row_at_def del: of_nat_add of_nat_mult)
qed

lemma rmap_concat_rows:
  assumes "\<And>b c. b < n \<Longrightarrow> c < V \<Longrightarrow> h (idx b c) = Inr (r b ! c)" "\<And>b. b < n \<Longrightarrow> length (r b) = V"
  shows "rmap h (concat (map (\<lambda>b. map (idx b) [0..<V]) [0..<n])) = Inr (concat (map r [0..<n]))"
proof -
  have row: "map (\<lambda>c. r b ! c) [0..<V] = r b" if "b < n" for b using assms(2) [OF that] map_nth by blast
  have "rmap h (map (idx b) [0..<V]) = Inr (r b)" if "b < n" for b
    using assms(1) [OF that] row [OF that] by (auto simp: rmap_eq_Inr_iff list_all2_conv_all_nth assms(2) [OF that])
  then have all: "list_all2 (\<lambda>x y. h x = Inr y) (map (idx b) [0..<V]) (r b)" if "b < n" for b using that by (simp add: rmap_eq_Inr_iff)
  then show ?thesis unfolding rmap_eq_Inr_iff
  proof (induction n)
    case (Suc n)
    then show ?case by (auto intro!: list_all2_appendI)
  qed simp
qed

lemma build_batch:
  assumes net: "causal_network network p V" and h: "0 < sz" "positions \<noteq> []" "length positions * sz \<le> length inputs" "\<forall>q\<in>set positions. q < sz"
  shows "buildGetConvLmScoreFunction network inputs (map int positions) (int sz) (int (length positions)) =
    Inr (concat (map (\<lambda>b. p (take (positions ! b + 1) (drop (b * sz) inputs))) [0..<length positions]))"
proof -
  let ?n = "length positions" and ?xs = "take (length positions * sz) inputs"
  let ?out = "concat (map (\<lambda>b. concat (map (\<lambda>t. p (take (t + 1) (slice sz b ?xs))) [0..<sz])) [0..<?n])"
  have p: "length (p ts) = V" "NaN \<notin> set (p ts)" for ts using net by (auto simp: causal_network_def)
  have run: "network sz ?n ?xs = Inr (V, sz, ?n, ?out)" using net h unfolding causal_network_def by simp
  have nan: "NaN \<notin> set ?out" using p(2) by auto
  have q: "positions ! b < sz" if "b < ?n" for b using h(4) that by simp
  have row: "take (positions ! b + 1) (slice sz b ?xs) = take (positions ! b + 1) (drop (b * sz) inputs)" if b: "b < ?n" for b
  proof -
    have "Suc b * sz \<le> ?n * sz" using b by (intro mult_le_mono1) simp
    then have "min (positions ! b + 1) (min sz (?n * sz - b * sz)) = positions ! b + 1" using q [OF b] by (simp add: min_def)
    then show ?thesis by (simp add: slice_def drop_take)
  qed
  have cells: "row_at ?out (int c + int b * int sz * int V + map int positions ! b * int V) = Inr (p (take (positions ! b + 1) (drop (b * sz) inputs)) ! c)"
    if "b < ?n" "c < V" for b c
    using nth_output [of p V b ?n "positions ! b" sz c "\<lambda>b t. take (t + 1) (slice sz b ?xs)", OF p(1) that(1) q [OF that(1)] that(2)] row [OF that(1)] that(1) by simp
  have bounds: "\<not> int sz * int ?n < 0" "\<not> int sz * int ?n > int (length inputs)" "nat (int sz * int ?n) = ?n * sz"
    using h(3) by (simp_all add: mult.commute nat_mult_distrib flip: of_nat_mult)
  show ?thesis
    using run nan rmap_concat_rows [of ?n V "row_at ?out" "\<lambda>b c. int c + int b * int sz * int V + map int positions ! b * int V", OF cells p(1)] bounds h(1)
    by (simp add: buildGetConvLmScoreFunction_def Let_def)
qed

lemma build_single:
  assumes net: "causal_network network p V" and ts: "ts \<noteq> []"
  shows "buildGetConvLmScoreFunction network ts [int (length ts) - 1] (-1) 1 = Inr (p ts)"
proof -
  have "buildGetConvLmScoreFunction network ts [int (length ts) - 1] (-1) 1 = buildGetConvLmScoreFunction network ts (map int [length ts - 1]) (int (length ts)) (int (length [length ts - 1]))"
    using ts by (cases ts) (simp_all add: buildGetConvLmScoreFunction_def)
  also have "\<dots> = Inr (p ts)" using build_batch [OF net, of "length ts" "[length ts - 1]" ts] ts by (cases ts) simp_all
  finally show ?thesis .
qed

lemma build_score_rows: "causal_network network p V \<Longrightarrow> score_rows (buildGetConvLmScoreFunction network) p V"
  unfolding score_rows_def
  by (intro conjI allI impI) (simp add: causal_network_def, elim conjE, erule (4) build_batch, erule (1) build_single)

subsection \<open>The vocabulary\<close>

lemma createFromStream_loop_inv:
  "dict_inv d \<and> defaultIndex d = -1 \<Longrightarrow> createFromStream_loop s line d = Inr d' \<Longrightarrow> dict_inv d' \<and> defaultIndex d' = -1"
proof (induction s line d rule: createFromStream_loop.induct)
  case (1 s line d)
  let ?P = "\<lambda>d. dict_inv d \<and> defaultIndex d = -1"
  obtain l t where g: "getline s line = (l, t)" by force
  have step: "?P d'" if "?P d" "addEntry_at e i d = Inr d'" for d e i d'
    using that dict_inv_addEntry_at by (auto simp: addEntry_at_Inr)
  show ?case
  proof (cases "failbit t")
    case True
    then show ?thesis using 1(2,3) g by (simp add: createFromStream_loop.simps [of s line d])
  next
    case False
    then obtain d1 where d1: "add_line l d = Inr d1" "createFromStream_loop t l d1 = Inr d'"
      using 1(3) g by (auto simp: createFromStream_loop.simps [of s line d] split: sum.splits)
    have "?P d1"
    proof (cases "l = []")
      case False
      then have "rfold (\<lambda>tkn. addEntry_at tkn (int (indexSize d))) (splitOnWhitespace l True) d = Inr d1" using d1(1) by (simp add: add_line_def Let_def)
      then show ?thesis using 1(2) step by (rule rfold_invariant [where P = ?P])
    qed (use d1(1) 1(2) in \<open>simp add: add_line_def\<close>)
    then show ?thesis using 1(1) [OF g [symmetric] refl False d1(1)] d1(2) by blast
  qed
qed

lemma dictionary_of_file_ok:
  assumes "dictionary_of_file fs path = Inr d"
  shows "dict_inv d \<and> dense d \<and> defaultIndex d = -1"
proof -
  obtain s where s: "createFromStream s empty_dict = Inr d" using assms by (auto simp: dictionary_of_file_def rbind_eq_Inr_iff)
  then have l: "createFromStream_loop s [] empty_dict = Inr d" and c: "isContiguous d" by (auto simp: createFromStream_def rbind_eq_Inr_iff split: if_splits)
  have "dict_inv empty_dict \<and> defaultIndex empty_dict = -1" using dict_inv_empty by (simp add: empty_dict_def [THEN arg_cong [where f = defaultIndex]])
  then show ?thesis using createFromStream_loop_inv [OF _ l] c isContiguous_iff_dense by simp
qed

definition vocab_ok :: "dictionary \<Rightarrow> bool" where
  "vocab_ok d \<longleftrightarrow> dict_inv d \<and> dense d \<and> 0 \<le> defaultIndex d \<and> defaultIndex d < int (indexSize d)"

lemma known_index: "dict_inv d \<Longrightarrow> dense d \<Longrightarrow> map_of (entry2idx d) e = Some i \<Longrightarrow> 0 \<le> i \<and> i < int (indexSize d)"
  using dom_iff_dense [of d i] unfolding dict_inv_def by blast

lemma vocab_ok_getIndex: "vocab_ok d \<Longrightarrow> \<exists>i. getIndex d e = Inr i \<and> 0 \<le> i \<and> i < int (indexSize d)"
  using known_index [of d e] by (auto simp: vocab_ok_def getIndex_def split: option.splits)

lemma getIndex_range: "dict_inv d \<Longrightarrow> dense d \<Longrightarrow> getIndex d e = Inr i \<Longrightarrow> defaultIndex d = -1 \<Longrightarrow> 0 \<le> i \<and> i < int (indexSize d)"
  using known_index [of d e] by (auto simp: getIndex_def split: option.splits if_splits)

subsection \<open>The invariant\<close>

text \<open>The states in the cache, in the order of their rows.\<close>

definition entries :: "lmStatePtr list \<Rightarrow> (lmStatePtr \<times> int) list" where
  "entries ks = zip ks (map int [0..<length ks])"

lemma entries_Nil [simp]: "entries [] = []"
  by (simp add: entries_def)

lemma length_entries [simp]: "length (entries ks) = length ks"
  by (simp add: entries_def)

lemma fst_entries [simp]: "map fst (entries ks) = ks"
  by (simp add: entries_def)

lemma entries_None [simp]: "map_of (entries ks) s = None \<longleftrightarrow> s \<notin> set ks"
  unfolding map_of_eq_None_iff using fst_entries [of ks] by (metis image_set)

lemma entries_update: "s \<notin> set ks \<Longrightarrow> AList.update s (int (length ks)) (entries ks) = entries (ks @ [s])"
  by (subst alist_update_new) (simp_all add: entries_def)

lemma entries_Some: "distinct ks \<Longrightarrow> map_of (entries ks) s = Some ci \<longleftrightarrow> (\<exists>i<length ks. ks ! i = s \<and> ci = int i)"
  by (auto simp: map_of_eq_Some_iff entries_def set_zip)

definition cached :: "(int list \<Rightarrow> dbl list) \<Rightarrow> convLM \<Rightarrow> lmStatePtr list \<Rightarrow> bool" where
  "cached p m ks \<longleftrightarrow> cacheIndices m = entries ks \<and> distinct ks \<and> length ks \<le> nat (beamSize m) \<and>
     (\<forall>i<length ks. ks ! i < length (convStates m) \<and> cache m ! i = p (convStates m ! (ks ! i)))"

definition conv_wf :: "nat \<Rightarrow> convLM \<Rightarrow> bool" where
  "conv_wf V m \<longleftrightarrow> 0 \<le> beamSize m \<and> 1 \<le> maxHistorySize m \<and> vocabSize m = int V \<and> indexSize (vocab m) = V \<and> vocab_ok (vocab m) \<and>
     (\<forall>i\<in>set (usrToLmIdxMap m). 0 \<le> i \<and> i < int V) \<and>
     length (cache m) = nat (beamSize m) \<and> (\<forall>r\<in>set (cache m). length r = V) \<and>
     (\<forall>ts\<in>set (convStates m). ts \<noteq> [] \<and> int (length ts) \<le> maxHistorySize m) \<and>
     length (batchedTokens m) = nat (beamSize m * maxHistorySize m)"

definition conv_inv :: "(int list \<Rightarrow> dbl list) \<Rightarrow> nat \<Rightarrow> convLM \<Rightarrow> bool" where
  "conv_inv p V m \<longleftrightarrow> conv_wf V m \<and> (\<exists>ks. cached p m ks)"

lemma new_ConvLM_inv:
  assumes "new_ConvLM fs path usr mem beam hist = Inr m"
  shows "conv_inv p (nat (vocabSize m)) m"
proof -
  from assms obtain v unk idxMap where v: "dictionary_of_file fs path = Inr v" "getIndex v kUnkToken = Inr unk"
    and map: "rmap (\<lambda>i. rbind (getEntry usr (int i)) (\<lambda>token. getIndex (setDefaultIndex unk v) (c_str token))) [0..<indexSize usr] = Inr idxMap"
    and m: "1 \<le> hist" "0 \<le> beam" "m = \<lparr>lmMemory = mem, beamSize = beam, cacheIndices = [], cache = replicate (nat beam) (replicate (indexSize v) 0),
          batchedTokens = replicate (nat (beam * hist)) 0, vocab = setDefaultIndex unk v, vocabSize = int (indexSize v), maxHistorySize = hist,
          usrToLmIdxMap = idxMap, convStates = []\<rparr>"
    by (auto simp: new_ConvLM_def rbind_eq_Inr_iff Let_def setDefaultIndex_def indexSize_def split: if_splits)
  note d = dictionary_of_file_ok [OF v(1)]
  have "0 \<le> unk \<and> unk < int (indexSize v)" using getIndex_range [OF _ _ v(2)] d by simp
  then have ok: "vocab_ok (setDefaultIndex unk v)" using d dict_inv_setDefaultIndex [of v unk]
    by (simp add: vocab_ok_def dense_def setDefaultIndex_def indexSize_def)
  have "0 \<le> i \<and> i < int (indexSize v)" if "i \<in> set idxMap" for i
  proof -
    from that obtain n where "n < length idxMap" "i = idxMap ! n" by (auto simp: in_set_conv_nth)
    then have "\<exists>e. getIndex (setDefaultIndex unk v) e = Inr i"
      using map by (auto simp: rmap_eq_Inr_iff list_all2_conv_all_nth rbind_eq_Inr_iff)
    then obtain e where "getIndex (setDefaultIndex unk v) e = Inr i" ..
    then show ?thesis using vocab_ok_getIndex [OF ok, of e] by (simp add: setDefaultIndex_def indexSize_def)
  qed
  then show ?thesis using ok m
    by (auto simp: conv_inv_def conv_wf_def cached_def setDefaultIndex_def indexSize_def intro!: exI [of _ "[]"])
qed

subsection \<open>Queries\<close>

definition same_conv :: "convLM \<Rightarrow> convLM \<Rightarrow> bool" where
  "same_conv m m' \<longleftrightarrow> lmMemory m' = lmMemory m \<and> beamSize m' = beamSize m \<and> vocab m' = vocab m \<and> vocabSize m' = vocabSize m \<and>
     maxHistorySize m' = maxHistorySize m \<and> usrToLmIdxMap m' = usrToLmIdxMap m \<and> convStates m' = convStates m"

lemma same_conv_trans: "same_conv m m' \<Longrightarrow> same_conv m' m'' \<Longrightarrow> same_conv m m''"
  by (simp add: same_conv_def)

lemma cached_add:
  assumes "cached p m ks" "length ks < nat (beamSize m)" "s \<notin> set ks" "s < length (convStates m)" "length (cache m) = nat (beamSize m)"
  shows "cached p (m\<lparr>cacheIndices := entries (ks @ [s]), cache := (cache m)[length ks := p (convStates m ! s)]\<rparr>) (ks @ [s])"
  using assms by (auto simp: cached_def nth_append nth_list_update less_Suc_eq)

lemma wf_set_row: "conv_wf V m \<Longrightarrow> length row = V \<Longrightarrow> conv_wf V (m\<lparr>cacheIndices := ci, cache := (cache m)[n := row]\<rparr>)"
  using set_update_subset_insert [of "cache m" n row] by (auto simp: conv_wf_def)

lemma state_wf: "conv_wf V m \<Longrightarrow> s < length (convStates m) \<Longrightarrow> convStates m ! s \<noteq> [] \<and> int (length (convStates m ! s)) \<le> maxHistorySize m"
  by (simp add: conv_wf_def)

lemma cached_score_ok:
  assumes wf: "conv_wf V m" and c: "cached p m ks" and f: "score_rows f p V" and b: "1 \<le> beamSize m"
    and s: "s < length (convStates m)" and k: "0 \<le> k" "k < int V"
  shows "\<exists>m'. cached_score f s (convStates m ! s) k m = Inr (p (convStates m ! s) ! nat k, m') \<and> conv_inv p V m' \<and> same_conv m m'"
proof (cases "s \<in> set ks")
  case True
  then obtain i where i: "i < length ks" "ks ! i = s" by (auto simp: in_set_conv_nth)
  then have "map_of (cacheIndices m) s = Some (int i)" using c entries_Some [of ks s "int i"] by (auto simp: cached_def)
  moreover have "cache m ! i = p (convStates m ! s)" "i < nat (beamSize m)" using c i by (auto simp: cached_def)
  moreover have "length (p (convStates m ! s)) = V" using f by (simp add: score_rows_def)
  ultimately show ?thesis using wf c k by (auto simp: cached_score_def row_at_def conv_inv_def same_conv_def)
next
  case False
  define ks0 where "ks0 = (if int (length ks) = beamSize m then [] else ks)"
  define m0 where "m0 = m\<lparr>cacheIndices := entries ks0\<rparr>"
  have c0: "cached p m0 ks0" "length ks0 < nat (beamSize m)" "s \<notin> set ks0" using c False b by (auto simp: m0_def ks0_def cached_def split: if_splits)
  let ?row = "p (convStates m ! s)"
  let ?m' = "m\<lparr>cacheIndices := entries (ks0 @ [s]), cache := (cache m)[length ks0 := ?row]\<rparr>"
  have p: "length ?row = V" using f by (simp add: score_rows_def)
  have run: "f (convStates m ! s) [int (length (convStates m ! s)) - 1] (-1) 1 = Inr ?row" using f state_wf [OF wf s] by (simp add: score_rows_def)
  have len: "length (cache m) = nat (beamSize m)" using wf by (simp add: conv_wf_def)
  have old: "(if int (length (cacheIndices m)) = beamSize m then [] else cacheIndices m) = entries ks0" using c by (auto simp: cached_def ks0_def)
  have none: "map_of (cacheIndices m) s = None" using c False by (simp add: cached_def)
  have "cached_score f s (convStates m ! s) k m = Inr (?row ! nat k, ?m')"
    using c0(2) k p by (simp add: cached_score_def none old run len entries_update [OF c0(3)] row_at_def)
  moreover have "cached p ?m' (ks0 @ [s])" using cached_add [OF c0(1) _ c0(3)] c0(2) s len by (simp add: m0_def)
  ultimately show ?thesis using wf_set_row [OF wf p] by (auto simp: conv_inv_def same_conv_def)
qed

lemma new_state_inv:
  assumes "conv_inv p V m" "ts \<noteq> []" "int (length ts) \<le> maxHistorySize m"
  shows "conv_inv p V (m\<lparr>convStates := convStates m @ [ts]\<rparr>)"
  using assms by (auto simp: conv_inv_def conv_wf_def cached_def nth_append)

text \<open>The last \<^verbatim>\<open>maxHistorySize_\<close> tokens.\<close>

definition last_tokens :: "int \<Rightarrow> int list \<Rightarrow> int list" where
  "last_tokens n ts = drop (length ts - nat n) ts"

lemma out_tokens_last:
  assumes "ts \<noteq> []" "int (length ts) \<le> maxHistorySize m"
  shows "out_tokens m ts k = last_tokens (maxHistorySize m) (ts @ [k])" "out_tokens m ts k \<noteq> []" "int (length (out_tokens m ts k)) \<le> maxHistorySize m"
proof -
  have n: "Suc (length ts) - nat (maxHistorySize m) = (if int (length ts) = maxHistorySize m then 1 else 0)" using assms(2) by auto
  show "out_tokens m ts k = last_tokens (maxHistorySize m) (ts @ [k])" 
    unfolding out_tokens_def last_tokens_def length_append_singleton n using assms(1) by (cases ts) simp_all
  show "out_tokens m ts k \<noteq> []" "int (length (out_tokens m ts k)) \<le> maxHistorySize m" using assms by (auto simp: out_tokens_def)
qed

definition conv_spec :: "(int list \<Rightarrow> dbl list) \<Rightarrow> int \<Rightarrow> int list \<Rightarrow> int \<Rightarrow> (int list \<times> dbl) result" where
  "conv_spec p hist ts k =
     (case p ts ! nat k of
        Fin r \<Rightarrow> Inr (last_tokens hist (ts @ [k]), Fin r)
      | x \<Rightarrow> Inl (Runtime_error (''[ConvLM] Bad scoring from ConvLM: '' @ float_string x)))"

lemma scoreWithLmIdx_spec:
  assumes inv: "conv_inv p V m" and f: "score_rows f p V" and b: "1 \<le> beamSize m" and s: "s < length (convStates m)" and k: "0 \<le> k" "k < int V"
  shows "case conv_spec p (maxHistorySize m) (convStates m ! s) k of
      Inl e \<Rightarrow> scoreWithLmIdx f s k m = Inl e
    | Inr (ts, x) \<Rightarrow> \<exists>m'. scoreWithLmIdx f s k m = Inr ((length (convStates m), x), m'\<lparr>convStates := convStates m @ [ts]\<rparr>) \<and>
        conv_inv p V (m'\<lparr>convStates := convStates m @ [ts]\<rparr>) \<and> same_conv m m'"
proof -
  obtain ks where wf: "conv_wf V m" and c: "cached p m ks" using inv by (auto simp: conv_inv_def)
  obtain m' where m': "cached_score f s (convStates m ! s) k m = Inr (p (convStates m ! s) ! nat k, m')" "conv_inv p V m'" "same_conv m m'"
    using cached_score_ok [OF wf c f b s k] by blast
  note o = out_tokens_last [of "convStates m ! s" m k]
  have vs: "vocabSize m = int V" using wf by (simp add: conv_wf_def)
  have new: "conv_inv p V (m'\<lparr>convStates := convStates m @ [out_tokens m (convStates m ! s) k]\<rparr>)"
    using new_state_inv [OF m'(2), of "out_tokens m (convStates m ! s) k"] m'(3) o state_wf [OF wf s] by (simp add: same_conv_def)
  show ?thesis
    using m' new s k vs o(1) state_wf [OF wf s]
    by (auto simp: conv_spec_def scoreWithLmIdx_def conv_tokens_def conv_new_state_def same_conv_def split: dbl.splits)
qed

subsection \<open>\<^verbatim>\<open>updateCache\<close>: the rows that stay\<close>

definition marks :: "lmStatePtr list \<Rightarrow> lmStatePtr list \<Rightarrow> nat \<Rightarrow> lmStatePtr option list" where
  "marks ks xs b = map (\<lambda>i. if i < length ks \<and> ks ! i \<in> set xs then Some (ks ! i) else None) [0..<b]"

definition longest_new :: "convLM \<Rightarrow> lmStatePtr list \<Rightarrow> lmStatePtr list \<Rightarrow> int" where
  "longest_new m ks xs = Max (insert (-1) ((\<lambda>s. int (length (convStates m ! s))) ` (set xs - set ks)))"

lemma longest_new_snoc:
  "longest_new m ks (xs @ [s]) = (if s \<in> set ks then longest_new m ks xs else max (int (length (convStates m ! s))) (longest_new m ks xs))"
proof (cases "s \<in> set ks")
  case False
  let ?g = "\<lambda>s. int (length (convStates m ! s))"
  have "insert (-1) (?g ` (set (xs @ [s]) - set ks)) = insert (?g s) (insert (-1) (?g ` (set xs - set ks)))" using False by auto
  then show ?thesis using False by (simp add: longest_new_def del: image_insert)
qed (auto simp: longest_new_def intro!: arg_cong [where f = Max])

lemma longest_new_ge: "s \<in> set xs \<Longrightarrow> s \<notin> set ks \<Longrightarrow> int (length (convStates m ! s)) \<le> longest_new m ks xs"
  by (simp add: longest_new_def)

lemma longest_new_le: "-1 \<le> h \<Longrightarrow> (\<And>s. s \<in> set xs \<Longrightarrow> int (length (convStates m ! s)) \<le> h) \<Longrightarrow> longest_new m ks xs \<le> h"
  by (auto simp: longest_new_def)

lemma marks_step: "distinct ks \<Longrightarrow> i < length ks \<Longrightarrow> (marks ks xs b)[i := Some (ks ! i)] = marks ks (xs @ [ks ! i]) b"
  by (cases "i < b"; rule nth_equalityI) (auto simp: marks_def nth_list_update nth_eq_iff_index_eq)

lemma marks_other: "s \<notin> set ks \<Longrightarrow> marks ks (xs @ [s]) b = marks ks xs b"
  by (auto simp: marks_def)

lemma mark_slots:
  assumes c: "cached p m ks" and s: "\<And>s. s \<in> set xs \<Longrightarrow> s < length (convStates m)"
  shows "rfold (mark_slot m) xs (replicate (nat (beamSize m)) None, -1) = Inr (marks ks xs (nat (beamSize m)), longest_new m ks xs)"
  using s
proof (induction xs rule: rev_induct)
  case Nil
  show ?case by (auto simp: marks_def longest_new_def map_replicate_const)
next
  case (snoc x xs)
  have x: "conv_tokens m x = Inr (convStates m ! x)" using snoc(2) by (simp add: conv_tokens_def)
  show ?case
  proof (cases "x \<in> set ks")
    case True
    then obtain i where i: "i < length ks" "ks ! i = x" by (auto simp: in_set_conv_nth)
    moreover have "map_of (cacheIndices m) x = Some (int i)" using c i entries_Some [of ks x "int i"] by (auto simp: cached_def)
    moreover have "distinct ks" "i < nat (beamSize m)" using c i(1) by (auto simp: cached_def)
    ultimately show ?thesis using snoc x True marks_step [of ks i xs]
      by (simp add: rfold_append mark_slot_def longest_new_snoc) (simp add: marks_def)
  next
    case False
    moreover have "map_of (cacheIndices m) x = None" using c False by (simp add: cached_def)
    ultimately show ?thesis using snoc x marks_other [OF False]
      by (simp add: rfold_append mark_slot_def longest_new_snoc max_def)
  qed
qed

lemma keep_rows:
  assumes c: "cached p m ks" "length (cache m) = nat (beamSize m)" and n: "n \<le> nat (beamSize m)"
  shows "\<exists>c'. fold (keep_row (marks ks xs (nat (beamSize m)))) [0..<n] (m\<lparr>cacheIndices := []\<rparr>, 0) =
      (m\<lparr>cacheIndices := entries (filter (\<lambda>s. s \<in> set xs) (take n ks)), cache := c'\<rparr>, length (filter (\<lambda>s. s \<in> set xs) (take n ks))) \<and>
    length c' = nat (beamSize m) \<and> set c' \<subseteq> set (cache m) \<and> (\<forall>j. n \<le> j \<longrightarrow> c' ! j = cache m ! j) \<and>
    (\<forall>j<length (filter (\<lambda>s. s \<in> set xs) (take n ks)). c' ! j = p (convStates m ! (filter (\<lambda>s. s \<in> set xs) (take n ks) ! j)))"
  using n
proof (induction n)
  case 0
  show ?case using c by (intro exI [of _ "cache m"]) simp
next
  case (Suc n)
  let ?kk = "\<lambda>n. filter (\<lambda>s. s \<in> set xs) (take n ks)"
  obtain c' where c': "fold (keep_row (marks ks xs (nat (beamSize m)))) [0..<n] (m\<lparr>cacheIndices := []\<rparr>, 0) =
      (m\<lparr>cacheIndices := entries (?kk n), cache := c'\<rparr>, length (?kk n))"
    "length c' = nat (beamSize m)" "set c' \<subseteq> set (cache m)" "\<And>j. n \<le> j \<Longrightarrow> c' ! j = cache m ! j"
    "\<And>j. j < length (?kk n) \<Longrightarrow> c' ! j = p (convStates m ! (?kk n ! j))" using Suc by auto
  show ?case
  proof (cases "n < length ks \<and> ks ! n \<in> set xs")
    case True
    have kk: "?kk (Suc n) = ?kk n @ [ks ! n]" using True by (simp add: take_Suc_conv_app_nth)
    have fresh: "ks ! n \<notin> set (?kk n)" using c(1) True by (auto simp: cached_def in_set_conv_nth nth_eq_iff_index_eq)
    have len: "length (?kk n) \<le> n" using length_filter_le [of _ "take n ks"] by (metis le_trans length_take min.cobounded2)
    have row: "c' ! n = p (convStates m ! (ks ! n))" using c'(4) c(1) True by (simp add: cached_def)
    have "marks ks xs (nat (beamSize m)) ! n = Some (ks ! n)" using Suc(2) True by (simp add: marks_def)
    moreover have "c' ! n \<in> set (cache m)" using c'(2,3) Suc(2) nth_mem [of n c'] by auto
    then have "set (c'[length (?kk n) := c' ! n]) \<subseteq> set (cache m)" using c'(3) set_update_subset_insert [of c'] by blast
    moreover have "\<forall>j. Suc n \<le> j \<longrightarrow> c'[length (?kk n) := c' ! n] ! j = cache m ! j" using c'(4) len by simp
    moreover have "\<forall>j<Suc (length (?kk n)). c'[length (?kk n) := c' ! n] ! j = p (convStates m ! ((?kk n @ [ks ! n]) ! j))"
      using c'(2,5) row len Suc(2) by (auto simp: less_Suc_eq nth_append nth_list_update)
    ultimately show ?thesis using c'(1,2) entries_update [OF fresh] unfolding kk
      by (intro exI [of _ "c'[length (?kk n) := c' ! n]"]) (simp add: keep_row_def [of _ n])
  next
    case False
    then have kk: "?kk (Suc n) = ?kk n" by (cases "n < length ks") (simp_all add: take_Suc_conv_app_nth)
    have "marks ks xs (nat (beamSize m)) ! n = None" using Suc(2) False by (auto simp: marks_def)
    then show ?thesis using c' unfolding kk by (intro exI [of _ c']) (simp add: keep_row_def [of _ n])
  qed
qed

subsection \<open>\<^verbatim>\<open>updateCache\<close>: the batches\<close>

lemma write_tokens_ok:
  assumes "start + length ts \<le> length b"
  shows "\<exists>b'. write_tokens start ts b = Inr b' \<and> length b' = length b \<and> take (start + length ts) b' = take start b @ ts"
  using assms by (simp add: write_tokens_def)

definition padded :: "int \<Rightarrow> nat \<Rightarrow> int list \<Rightarrow> int list" where
  "padded pad L ts = ts @ replicate (L - length ts) pad"

lemma length_padded: "length ts \<le> L \<Longrightarrow> length (padded pad L ts) = L"
  by (simp add: padded_def)

lemma batch_row_ok:
  assumes pad: "getIndex (vocab m) kPadToken = Inr pad" and l: "length ts \<le> L" "Suc n * L \<le> length (batchedTokens m)"
  shows "\<exists>b'. batch_row m (int L) n ts = Inr (m\<lparr>batchedTokens := b'\<rparr>) \<and> length b' = length (batchedTokens m) \<and>
    take (Suc n * L) b' = take (n * L) (batchedTokens m) @ padded pad L ts"
proof -
  obtain b1 where b1: "write_tokens (n * L) ts (batchedTokens m) = Inr b1" "length b1 = length (batchedTokens m)"
      "take (n * L + length ts) b1 = take (n * L) (batchedTokens m) @ ts"
    using write_tokens_ok [of "n * L" ts "batchedTokens m"] l by auto
  show ?thesis
  proof (cases "length ts < L")
    case True
    obtain b2 where b2: "write_tokens (n * L + length ts) (replicate (L - length ts) pad) b1 = Inr b2" "length b2 = length b1"
        "take (n * L + length ts + (L - length ts)) b2 = take (n * L + length ts) b1 @ replicate (L - length ts) pad"
      using write_tokens_ok [of "n * L + length ts" "replicate (L - length ts) pad" b1] l b1(2) by auto
    have "n * L + length ts + (L - length ts) = Suc n * L" using l(1) by simp
    then show ?thesis using b1 b2 True pad by (auto simp: batch_row_def padded_def add.commute)
  next
    case False
    then show ?thesis using b1 l by (auto simp: batch_row_def padded_def add.commute)
  qed
qed

text \<open>The batch, after the states \<open>new\<close> have been selected.\<close>

definition batch_ok :: "nat \<Rightarrow> lmStatePtr list \<Rightarrow> lmStatePtr list \<Rightarrow> convLM \<Rightarrow> bool" where
  "batch_ok L ks new m \<longleftrightarrow> cacheIndices m = entries (ks @ new) \<and> distinct (ks @ new) \<and>
     (\<exists>pad. getIndex (vocab m) kPadToken = Inr pad \<and>
       take (length new * L) (batchedTokens m) = concat (map (\<lambda>s. padded pad L (convStates m ! s)) new))"

abbreviation last_position :: "convLM \<Rightarrow> lmStatePtr \<Rightarrow> int" where
  "last_position m s \<equiv> int (length (convStates m ! s)) - 1"

lemma select_one:
  assumes b: "batch_ok L ks new m" and s: "s \<notin> set (ks @ new)" "length (convStates m ! s) \<le> L" and l: "Suc (length new) * L \<le> length (batchedTokens m)"
  shows "\<exists>b'. batch_row (m\<lparr>cacheIndices := AList.update s (int (length ks + length new)) (cacheIndices m)\<rparr>) (int L) (length new) (convStates m ! s) =
      Inr (m\<lparr>cacheIndices := entries (ks @ new @ [s]), batchedTokens := b'\<rparr>) \<and> length b' = length (batchedTokens m) \<and>
    batch_ok L ks (new @ [s]) (m\<lparr>cacheIndices := entries (ks @ new @ [s]), batchedTokens := b'\<rparr>)"
proof -
  let ?m = "m\<lparr>cacheIndices := entries (ks @ new @ [s])\<rparr>"
  obtain pad where pad: "getIndex (vocab m) kPadToken = Inr pad"
      "take (length new * L) (batchedTokens m) = concat (map (\<lambda>s. padded pad L (convStates m ! s)) new)" using b by (auto simp: batch_ok_def)
  have ci: "AList.update s (int (length ks + length new)) (cacheIndices m) = entries (ks @ new @ [s])"
    using b entries_update [OF s(1)] by (simp add: batch_ok_def)
  obtain b' where "batch_row ?m (int L) (length new) (convStates m ! s) = Inr (?m\<lparr>batchedTokens := b'\<rparr>)" "length b' = length (batchedTokens m)"
      "take (Suc (length new) * L) b' = take (length new * L) (batchedTokens m) @ padded pad L (convStates m ! s)"
    using batch_row_ok [of ?m pad "convStates m ! s" L "length new"] pad(1) s(2) l by auto
  then show ?thesis using b s(1) pad unfolding ci by (intro exI [of _ b']) (auto simp: batch_ok_def)
qed

lemma select_batch_ok:
  assumes "batch_ok L ks new m" "int (length new) \<le> maxBatch" "length (batchedTokens m) = B * L'" "L \<le> L'"
    and "\<And>s. s \<in> set states \<Longrightarrow> s < length (convStates m) \<and> (s \<notin> set ks \<longrightarrow> length (convStates m ! s) \<le> L)"
    and "card (set (ks @ new @ states)) \<le> B"
  shows "\<exists>new' rest used b'. select_batch maxBatch (int L) (length ks) states (length new) (map (last_position m) new) m =
      Inr (rest, length new', map (last_position m) new', m\<lparr>cacheIndices := entries (ks @ new'), batchedTokens := b'\<rparr>) \<and>
    batch_ok L ks new' (m\<lparr>cacheIndices := entries (ks @ new'), batchedTokens := b'\<rparr>) \<and> length b' = length (batchedTokens m) \<and>
    states = used @ rest \<and> set (ks @ new') = set (ks @ new) \<union> set used \<and> int (length new') \<le> maxBatch \<and> (rest = [] \<or> int (length new') = maxBatch)"
  using assms
proof (induction states arbitrary: new m)
  case Nil
  then show ?case by (intro exI [of _ new] exI [of _ "[]"] exI [of _ "batchedTokens m"]) (simp add: batch_ok_def)
next
  case (Cons s states)
  show ?case
  proof (cases "int (length new) < maxBatch")
    case False
    then show ?thesis using Cons.prems(1,2) by (intro exI [of _ new] exI [of _ "s # states"] exI [of _ "[]"] exI [of _ "batchedTokens m"]) (simp add: batch_ok_def)
  next
    case room: True
    have ts: "conv_tokens m s = Inr (convStates m ! s)" using Cons.prems(5) [of s] by (simp add: conv_tokens_def)
    have ci: "map_of (cacheIndices m) s = None \<longleftrightarrow> s \<notin> set (ks @ new)" using Cons.prems(1) by (simp add: batch_ok_def)
    show ?thesis
    proof (cases "s \<in> set (ks @ new)")
      case True
      then have "set (ks @ new @ s # states) = set (ks @ new @ states)" by auto
      then obtain new' rest used b' where r: "select_batch maxBatch (int L) (length ks) states (length new) (map (last_position m) new) m =
          Inr (rest, length new', map (last_position m) new', m\<lparr>cacheIndices := entries (ks @ new'), batchedTokens := b'\<rparr>)"
        "batch_ok L ks new' (m\<lparr>cacheIndices := entries (ks @ new'), batchedTokens := b'\<rparr>)" "length b' = length (batchedTokens m)"
        "states = used @ rest" "set (ks @ new') = set (ks @ new) \<union> set used" "int (length new') \<le> maxBatch" "rest = [] \<or> int (length new') = maxBatch"
        using Cons.IH [OF Cons.prems(1-4)] Cons.prems(5,6) by auto
      have "set (ks @ new') = set (ks @ new) \<union> set (s # used)" using r(5) True by auto
      then show ?thesis using r room ts ci True by (intro exI [of _ new'] exI [of _ rest] exI [of _ "s # used"] exI [of _ b']) simp
    next
      case False
      have "distinct (s # ks @ new)" using Cons.prems(1) False by (simp add: batch_ok_def)
      then have "Suc (length ks + length new) = card (set (s # ks @ new))" using distinct_card [of "s # ks @ new"] by simp
      also have "\<dots> \<le> B" using Cons.prems(6) by (simp add: insert_commute Un_assoc) (metis List.finite_set Un_insert_left Un_upper1 card_mono finite_Un finite_insert le_trans sup_assoc)
      finally have "Suc (length new) * L \<le> B * L'" using Cons.prems(4) by (intro mult_le_mono) simp_all
      then obtain b1 where b1: "batch_row (m\<lparr>cacheIndices := AList.update s (int (length ks + length new)) (cacheIndices m)\<rparr>) (int L) (length new) (convStates m ! s) =
          Inr (m\<lparr>cacheIndices := entries (ks @ new @ [s]), batchedTokens := b1\<rparr>)" "length b1 = length (batchedTokens m)"
        "batch_ok L ks (new @ [s]) (m\<lparr>cacheIndices := entries (ks @ new @ [s]), batchedTokens := b1\<rparr>)"
        using select_one [OF Cons.prems(1) False] Cons.prems(3) Cons.prems(5) [of s] False by auto
      let ?m = "m\<lparr>cacheIndices := entries (ks @ new @ [s]), batchedTokens := b1\<rparr>"
      have "set (ks @ (new @ [s]) @ states) = set (ks @ new @ s # states)" by auto
      then obtain new' rest used b' where r: "select_batch maxBatch (int L) (length ks) states (Suc (length new)) (map (last_position m) new @ [last_position m s]) ?m =
          Inr (rest, length new', map (last_position m) new', m\<lparr>cacheIndices := entries (ks @ new'), batchedTokens := b'\<rparr>)"
        "batch_ok L ks new' (m\<lparr>cacheIndices := entries (ks @ new'), batchedTokens := b'\<rparr>)" "length b' = length (batchedTokens m)"
        "states = used @ rest" "set (ks @ new') = set (ks @ new @ [s]) \<union> set used" "int (length new') \<le> maxBatch" "rest = [] \<or> int (length new') = maxBatch"
        using Cons.IH [OF b1(3)] room Cons.prems(3-6) b1(2) by fastforce
      have "set (ks @ new') = set (ks @ new) \<union> set (s # used)" using r(5) by auto
      then show ?thesis using r room ts ci False b1(1) by (intro exI [of _ new'] exI [of _ rest] exI [of _ "s # used"] exI [of _ b']) simp
    qed
  qed
qed

text \<open>The rows of the result are the rows of the histories in the batch.\<close>

lemma batch_rows:
  assumes b: "batch_ok L ks new m" and l: "\<And>s. s \<in> set new \<Longrightarrow> convStates m ! s \<noteq> [] \<and> length (convStates m ! s) \<le> L"
    and f: "score_rows f p V" and n: "new \<noteq> []" "0 < L" "length new * L \<le> length (batchedTokens m)"
  shows "f (batchedTokens m) (map (last_position m) new) (int L) (int (length new)) = Inr (concat (map (\<lambda>i. p (convStates m ! (new ! i))) [0..<length new]))"
proof -
  define positions where "positions = map (\<lambda>s. length (convStates m ! s) - 1) new"
  obtain pad where pad: "take (length new * L) (batchedTokens m) = concat (map (\<lambda>s. padded pad L (convStates m ! s)) new)" using b by (auto simp: batch_ok_def)
  have pos: "map (last_position m) new = map int positions" "length positions = length new" using l by (auto simp: positions_def of_nat_diff Suc_leI)
  have ne: "positions \<noteq> []" using n(1) pos(2) by auto
  have small: "\<forall>q\<in>set positions. q < L"
  proof
    fix q assume "q \<in> set positions"
    then obtain s where "s \<in> set new" "q = length (convStates m ! s) - 1" by (auto simp: positions_def)
    then show "q < L" using l [of s] n(2) by (cases "convStates m ! s") auto
  qed
  have row: "take (positions ! i + 1) (drop (i * L) (batchedTokens m)) = convStates m ! (new ! i)" if i: "i < length new" for i
  proof -
    let ?ts = "convStates m ! (new ! i)" and ?r = "\<lambda>i. padded pad L (convStates m ! (new ! i))"
    have ts: "?ts \<noteq> []" "length ?ts \<le> L" using l i by auto
    have map_rows: "map (\<lambda>s. padded pad L (convStates m ! s)) new = map ?r [0..<length new]" by (rule nth_equalityI) simp_all
    have "length new * L = i * L + (length new - i) * L" using i by (simp flip: add_mult_distrib)
    moreover have "L \<le> (length new - i) * L" using i by (cases "length new - i") auto
    ultimately have "L + i * L \<le> length new * L" by simp
    then have "slice L i (batchedTokens m) = slice L i (take (length new * L) (batchedTokens m))" by (simp add: slice_def take_drop min_def)
    also have "\<dots> = slice L i (concat (map ?r [0..<length new]))" unfolding pad map_rows ..
    also have "\<dots> = ?r i" using slice_concat [of "length new" ?r L i] l i by (simp add: length_padded)
    finally have s: "slice L i (batchedTokens m) = ?r i" .
    have "take (length ?ts) (drop (i * L) (batchedTokens m)) = take (length ?ts) (slice L i (batchedTokens m))" using ts by (simp add: slice_def min_def)
    also have "\<dots> = ?ts" unfolding s by (simp add: padded_def)
    finally show ?thesis using ts i by (cases ?ts) (simp_all add: positions_def)
  qed
  have "f (batchedTokens m) (map int positions) (int L) (int (length positions)) =
      Inr (concat (map (\<lambda>b. p (take (positions ! b + 1) (drop (b * L) (batchedTokens m)))) [0..<length positions]))"
    using f [unfolded score_rows_def, THEN conjunct2, THEN conjunct1, rule_format, of L positions "batchedTokens m"] small n pos(2) ne by simp
  moreover have "map (\<lambda>b. p (take (positions ! b + 1) (drop (b * L) (batchedTokens m)))) [0..<length new] = map (\<lambda>i. p (convStates m ! (new ! i))) [0..<length new]"
    using row by (intro map_cong) simp_all
  ultimately show ?thesis unfolding pos by metis
qed

lemma store_rows:
  assumes p: "\<And>ts. length (p ts) = V" and V: "vocabSize m = int V" and c: "\<forall>r\<in>set (cache m). length r = V" and n: "cs + length new \<le> length (cache m)" and k: "k \<le> length new"
  shows "\<exists>c'. rfold (store_row (concat (map (\<lambda>i. p (convStates m ! (new ! i))) [0..<length new])) cs) [0..<k] m = Inr (m\<lparr>cache := c'\<rparr>) \<and>
    length c' = length (cache m) \<and> (\<forall>r\<in>set c'. length r = V) \<and> (\<forall>j<cs. c' ! j = cache m ! j) \<and> (\<forall>i<k. c' ! (cs + i) = p (convStates m ! (new ! i)))"
  using k
proof (induction k)
  case 0
  then show ?case using c by (intro exI [of _ "cache m"]) simp
next
  case (Suc k)
  let ?r = "\<lambda>i. p (convStates m ! (new ! i))"
  let ?probs = "concat (map ?r [0..<length new])"
  obtain c' where c': "rfold (store_row ?probs cs) [0..<k] m = Inr (m\<lparr>cache := c'\<rparr>)" "length c' = length (cache m)" "\<forall>r\<in>set c'. length r = V"
      "\<forall>j<cs. c' ! j = cache m ! j" "\<forall>i<k. c' ! (cs + i) = ?r i" using Suc by auto
  have row: "take V (drop (V * k) ?probs) = ?r k" using slice_concat [of "length new" ?r V k] p Suc(2) by (simp add: slice_def mult.commute)
  have i: "cs + k < length c'" "length (c' ! (cs + k)) = V" using Suc(2) n c'(2,3) by auto
  have "store_row ?probs cs k (m\<lparr>cache := c'\<rparr>) = Inr (m\<lparr>cache := c'[cs + k := ?r k]\<rparr>)" using i V row by (simp add: store_row_def)
  moreover have "\<forall>r\<in>set (c'[cs + k := ?r k]). length r = V" using c'(3) p set_update_subset_insert [of c'] by fastforce
  moreover have "\<forall>i<Suc k. c'[cs + k := ?r k] ! (cs + i) = ?r i" using c'(5) i by (simp add: nth_list_update less_Suc_eq)
  ultimately show ?case using c' i by (intro exI [of _ "c'[cs + k := ?r k]"]) (simp add: rfold_append)
qed

lemma run_batch:
  assumes wf: "conv_wf V m" and c: "cached p m ks" and f: "score_rows f p V" and L: "0 < L" "int L \<le> maxHistorySize m" and mb: "1 \<le> maxBatch"
    and s: "\<And>s. s \<in> set states \<Longrightarrow> s < length (convStates m) \<and> (s \<notin> set ks \<longrightarrow> length (convStates m ! s) \<le> L)"
    and card: "card (set ks \<union> set states) \<le> nat (beamSize m)" and ne: "states \<noteq> []"
  shows "(\<exists>m'. run_batches f maxBatch (int L) (length ks) states m = Inr m' \<and> conv_wf V m' \<and> cached p m' ks \<and> set states \<subseteq> set ks \<and> same_conv m m') \<or>
    (\<exists>new rest used m'. run_batches f maxBatch (int L) (length ks) states m = run_batches f maxBatch (int L) (length (ks @ new)) rest m' \<and>
      conv_wf V m' \<and> cached p m' (ks @ new) \<and> same_conv m m' \<and> states = used @ rest \<and> length rest < length states \<and> set (ks @ new) = set ks \<union> set used)"
proof -
  have b0: "batch_ok L ks [] m" using c wf vocab_ok_getIndex [of "vocab m" kPadToken] by (auto simp: batch_ok_def cached_def conv_wf_def)
  have size: "length (batchedTokens m) = nat (beamSize m) * nat (maxHistorySize m)" using wf by (simp add: conv_wf_def nat_mult_distrib)
  have hist: "L \<le> nat (maxHistorySize m)" using L(2) by simp
  obtain new rest used b' where sel: "select_batch maxBatch (int L) (length ks) states 0 [] m =
      Inr (rest, length new, map (last_position m) new, m\<lparr>cacheIndices := entries (ks @ new), batchedTokens := b'\<rparr>)"
    and b: "batch_ok L ks new (m\<lparr>cacheIndices := entries (ks @ new), batchedTokens := b'\<rparr>)" "length b' = length (batchedTokens m)"
    and split: "states = used @ rest" "set (ks @ new) = set ks \<union> set used" "rest = [] \<or> int (length new) = maxBatch"
    using select_batch_ok [OF b0, of maxBatch "nat (beamSize m)" "nat (maxHistorySize m)" states] hist size mb s card by auto
  let ?m1 = "m\<lparr>cacheIndices := entries (ks @ new), batchedTokens := b'\<rparr>"
  have d: "distinct (ks @ new)" using b(1) by (simp add: batch_ok_def)
  have wf1: "conv_wf V ?m1" using wf b(2) by (simp add: conv_wf_def)
  show ?thesis
  proof (cases "new = []")
    case True
    then have "rest = []" using split(3) mb by auto
    then have "run_batches f maxBatch (int L) (length ks) states m = Inr ?m1" using ne sel True by (subst run_batches.simps) simp
    moreover have "cached p ?m1 ks" using c True by (simp add: cached_def)
    ultimately show ?thesis using wf1 split True \<open>rest = []\<close> by (intro disjI1 exI [of _ ?m1]) (auto simp: same_conv_def)
  next
    case False
    have new: "s \<in> set states \<and> s \<notin> set ks" if "s \<in> set new" for s using that d split(1,2) by auto
    have len: "length (ks @ new) \<le> nat (beamSize m)"
    proof -
      have "card (set (ks @ new)) \<le> card (set ks \<union> set states)" using split(1) unfolding split(2) by (intro card_mono) auto
      then show ?thesis using distinct_card [OF d] card by linarith
    qed
    have "set new \<subseteq> set used" using split(2) d by auto
    then have shorter: "length rest < length states" using split(1) False by (cases used) auto
    have fits: "length new * L \<le> length b'" unfolding b(2) size using len hist by (intro mult_le_mono) simp_all
    let ?probs = "concat (map (\<lambda>i. p (convStates m ! (new ! i))) [0..<length new])"
    have run: "f b' (map (last_position m) new) (int L) (int (length new)) = Inr ?probs"
      using batch_rows [OF b(1) _ f False L(1)] new s state_wf [OF wf] fits by auto
    have pV: "length (p ts) = V" for ts using f by (simp add: score_rows_def)
    have "length ?probs = V * length new" by (simp add: length_concat comp_def pV sum_list_triv)
    then have total: "int (length ?probs) = vocabSize ?m1 * int (length new)" using wf by (simp add: conv_wf_def)
    obtain c' where c': "rfold (store_row ?probs (length ks)) [0..<length new] ?m1 = Inr (?m1\<lparr>cache := c'\<rparr>)" "length c' = length (cache m)"
        "\<forall>r\<in>set c'. length r = V" "\<forall>j<length ks. c' ! j = cache m ! j" "\<forall>i<length new. c' ! (length ks + i) = p (convStates m ! (new ! i))"
      using store_rows [of p V ?m1 "length ks" new "length new"] pV wf len by (auto simp: conv_wf_def)
    let ?m2 = "?m1\<lparr>cache := c'\<rparr>"
    have "run_batches f maxBatch (int L) (length ks) states m = run_batches f maxBatch (int L) (length (ks @ new)) rest ?m2"
      using ne sel False L(1) run total c'(1) by (subst run_batches.simps) simp
    moreover have "conv_wf V ?m2" using wf1 c'(2,3) by (simp add: conv_wf_def)
    moreover have "cached p ?m2 (ks @ new)"
      using d len c'(4,5) c new s by (auto simp: cached_def nth_append) (metis add_diff_inverse_nat nat_add_left_cancel_less)
    ultimately show ?thesis using split shorter
      by (intro disjI2 exI [of _ new] exI [of _ rest] exI [of _ used] exI [of _ ?m2]) (simp add: same_conv_def)
  qed
qed

lemma run_batches_ok:
  assumes "conv_wf V m" "cached p m ks" "score_rows f p V" "0 < L" "int L \<le> maxHistorySize m" "1 \<le> maxBatch"
    and "\<And>s. s \<in> set states \<Longrightarrow> s < length (convStates m) \<and> (s \<notin> set ks \<longrightarrow> length (convStates m ! s) \<le> L)"
    and "card (set ks \<union> set states) \<le> nat (beamSize m)"
  shows "\<exists>m' ks'. run_batches f maxBatch (int L) (length ks) states m = Inr m' \<and> conv_wf V m' \<and> cached p m' ks' \<and> set ks' = set ks \<union> set states \<and> same_conv m m'"
  using assms
proof (induction states arbitrary: ks m rule: length_induct)
  case (1 states)
  show ?case
  proof (cases "states = []")
    case True
    then show ?thesis using "1.prems"(1,2) by (subst run_batches.simps) (auto simp: same_conv_def)
  next
    case False
    from run_batch [OF "1.prems" False] consider
      (last) m' where "run_batches f maxBatch (int L) (length ks) states m = Inr m'" "conv_wf V m'" "cached p m' ks" "set states \<subseteq> set ks" "same_conv m m'"
    | (more_left) new rest used m' where "run_batches f maxBatch (int L) (length ks) states m = run_batches f maxBatch (int L) (length (ks @ new)) rest m'"
        "conv_wf V m'" "cached p m' (ks @ new)" "same_conv m m'" "states = used @ rest" "length rest < length states" "set (ks @ new) = set ks \<union> set used" by blast
    then show ?thesis
    proof cases
      case last
      then show ?thesis by (intro exI [of _ m'] exI [of _ ks]) auto
    next
      case more_left
      have s: "s < length (convStates m') \<and> (s \<notin> set (ks @ new) \<longrightarrow> length (convStates m' ! s) \<le> L)" if "s \<in> set rest" for s
        using "1.prems"(7) [of s] that more_left(4,5,7) by (auto simp: same_conv_def)
      have sets: "set (ks @ new) \<union> set rest = set ks \<union> set states" using more_left(5,7) by auto
      obtain m'' ks' where "run_batches f maxBatch (int L) (length (ks @ new)) rest m' = Inr m''" "conv_wf V m''" "cached p m'' ks'"
          "set ks' = set (ks @ new) \<union> set rest" "same_conv m' m''"
        using "1.IH" [rule_format, OF more_left(6,2,3) "1.prems"(3,4) _ "1.prems"(6) s] more_left(4) "1.prems"(5,8) sets by (auto simp: same_conv_def)
      then show ?thesis using more_left(1,4) sets same_conv_trans by (intro exI [of _ m''] exI [of _ ks']) auto
    qed
  qed
qed

lemma run_batches_no_memory:
  assumes "maxBatch \<le> 0" "states \<noteq> []"
  shows "run_batches f maxBatch longest cs states m = Inl (Logic_error (''[ConvLM] Invalid batch: ['' @ to_string 0 @ '' x '' @ to_string longest @ '']''))"
  using assms by (subst run_batches.simps) (cases states; simp)

lemma max_batch:
  fixes l n mem :: int
  assumes "0 < l" "0 < n"
  shows "1 \<le> min (mem sdiv l) n \<longleftrightarrow> l \<le> mem"
proof -
  have "mem sdiv l = (if 0 \<le> mem then mem div l else - (- mem div l))" using assms by (auto simp: signed_divide_int_def sgn_if)
  moreover have "0 \<le> - mem div l" if "mem < 0" using that assms by (simp add: pos_imp_zdiv_nonneg_iff)
  moreover have "1 \<le> mem div l \<longleftrightarrow> l \<le> mem" if "0 \<le> mem" using pos_imp_zdiv_pos_iff [OF assms(1), of mem] by linarith
  ultimately show ?thesis using assms by auto
qed

lemma updateCache_ok:
  assumes inv: "conv_inv p V m" and f: "score_rows f p V" and s: "\<And>s. s \<in> set states \<Longrightarrow> s < length (convStates m)" and b: "int (length states) \<le> beamSize m"
  shows "(\<exists>m' ks. conv_updateCache f states m = Inr m' \<and> conv_wf V m' \<and> cached p m' ks \<and> set states \<subseteq> set ks \<and> same_conv m m') \<or>
    (\<exists>l. lmMemory m < l \<and> l \<le> maxHistorySize m \<and>
      conv_updateCache f states m = Inl (Logic_error (''[ConvLM] Invalid batch: ['' @ to_string 0 @ '' x '' @ to_string l @ '']'')))"
proof -
  obtain ks where wf: "conv_wf V m" and c: "cached p m ks" using inv by (auto simp: conv_inv_def)
  let ?l = "longest_new m ks states" and ?kk = "filter (\<lambda>s. s \<in> set states) ks"
  have len: "length (cache m) = nat (beamSize m)" "take (nat (beamSize m)) ks = ks" using wf c by (auto simp: conv_wf_def cached_def)
  obtain c' where keep: "fold (keep_row (marks ks states (nat (beamSize m)))) [0..<nat (beamSize m)] (m\<lparr>cacheIndices := []\<rparr>, 0) =
      (m\<lparr>cacheIndices := entries ?kk, cache := c'\<rparr>, length ?kk)" "length c' = nat (beamSize m)" "set c' \<subseteq> set (cache m)"
    "\<forall>j<length ?kk. c' ! j = p (convStates m ! (?kk ! j))" using keep_rows [OF c len(1) le_refl, of states] len(2) by auto
  let ?m1 = "m\<lparr>cacheIndices := entries ?kk, cache := c'\<rparr>"
  have wf1: "conv_wf V ?m1" using wf keep(2,3) by (auto simp: conv_wf_def)
  have "?kk ! j < length (convStates m)" if "j < length ?kk" for j using nth_mem [OF that] s by auto
  then have c1: "cached p ?m1 ?kk" using c keep(4) le_trans [OF length_filter_le] by (auto simp: cached_def)
  have up: "conv_updateCache f states m = (if ?l \<le> 0 then Inr ?m1 else run_batches f (min (lmMemory m sdiv ?l) (int (length states))) ?l (length ?kk) states ?m1)"
    using b mark_slots [OF c s] keep(1) by (simp add: conv_updateCache_def Let_def)
  have lh: "?l \<le> maxHistorySize m" using longest_new_le [of "maxHistorySize m"] state_wf [OF wf] s wf by (auto simp: conv_wf_def)
  show ?thesis
  proof (cases "?l \<le> 0")
    case True
    have "s \<in> set ks" if "s \<in> set states" for s
    proof (rule ccontr)
      assume "s \<notin> set ks"
      then show False using longest_new_ge [OF that, of ks m] state_wf [OF wf s [OF that]] True by (cases "convStates m ! s") auto
    qed
    then have "set states \<subseteq> set ?kk" by auto
    then show ?thesis using True up wf1 c1 by (intro disjI1 exI [of _ ?m1] exI [of _ ?kk]) (simp add: same_conv_def)
  next
    case False
    have ne: "states \<noteq> []" using False by (auto simp: longest_new_def)
    note mb = max_batch [of ?l "int (length states)" "lmMemory m"]
    show ?thesis
    proof (cases "?l \<le> lmMemory m")
      case True
      have L: "int (nat ?l) = ?l" "0 < nat ?l" using False by auto
      have new: "s < length (convStates ?m1) \<and> (s \<notin> set ?kk \<longrightarrow> length (convStates ?m1 ! s) \<le> nat ?l)" if "s \<in> set states" for s
        using s that longest_new_ge [OF that, of ks m] False by auto
      have sets: "set ?kk \<union> set states = set states" by auto
      have card: "card (set ?kk \<union> set states) \<le> nat (beamSize ?m1)" unfolding sets using b card_length [of states] by simp
      obtain m' ks' where "run_batches f (min (lmMemory m sdiv ?l) (int (length states))) ?l (length ?kk) states ?m1 = Inr m'"
          "conv_wf V m'" "cached p m' ks'" "set ks' = set ?kk \<union> set states" "same_conv ?m1 m'"
        using run_batches_ok [OF wf1 c1 f L(2) _ _ new card, unfolded L(1), of "min (lmMemory m sdiv ?l) (int (length states))"] lh mb ne False True by auto
      then show ?thesis using False up unfolding sets by (intro disjI1 exI [of _ m'] exI [of _ ks']) (simp add: same_conv_def)
    next
      case l: False
      then have "min (lmMemory m sdiv ?l) (int (length states)) \<le> 0" using mb ne False by auto
      then show ?thesis using run_batches_no_memory [OF _ ne] up False l lh by (intro disjI2 exI [of _ ?l]) simp
    qed
  qed
qed

subsection \<open>The object in use\<close>

text \<open>
  The objects that calls can produce: constructed with a positive beam size and a vocabulary as large as the output of the network, then started,
  queried and updated with states they have returned.
\<close>

inductive conv_reach :: "getConvLmScoreFunc \<Rightarrow> nat \<Rightarrow> convLM \<Rightarrow> bool" for f V where
  new: "new_ConvLM fs path usr mem beam hist = Inr m \<Longrightarrow> 1 \<le> beam \<Longrightarrow> vocabSize m = int V \<Longrightarrow> conv_reach f V m"
| start: "conv_reach f V m \<Longrightarrow> conv_start False m = Inr (s, m') \<Longrightarrow> conv_reach f V m'"
| score: "conv_reach f V m \<Longrightarrow> conv_score f s i m = Inr ((s', x), m') \<Longrightarrow> conv_reach f V m'"
| finish: "conv_reach f V m \<Longrightarrow> conv_finish f s m = Inr ((s', x), m') \<Longrightarrow> conv_reach f V m'"
| update: "conv_reach f V m \<Longrightarrow> set states \<subseteq> {..<length (convStates m)} \<Longrightarrow> conv_updateCache f states m = Inr m' \<Longrightarrow> conv_reach f V m'"

lemma scoreWithLmIdx_inv:
  assumes inv: "conv_inv p V m" "1 \<le> beamSize m" and f: "score_rows f p V" and r: "scoreWithLmIdx f s k m = Inr ((s', x), m')"
  shows "conv_inv p V m' \<and> 1 \<le> beamSize m'"
proof -
  have s: "s < length (convStates m)" using r by (auto simp: scoreWithLmIdx_def conv_tokens_def rbind_eq_Inr_iff split: if_splits)
  have k: "0 \<le> k" "k < int V" using r inv(1) by (auto simp: scoreWithLmIdx_def rbind_eq_Inr_iff conv_inv_def conv_wf_def split: if_splits)
  show ?thesis using scoreWithLmIdx_spec [OF inv(1) f inv(2) s k] r inv(2) by (auto simp: same_conv_def split: sum.splits)
qed

lemma start_inv:
  assumes inv: "conv_inv p V m" and r: "conv_start False m = Inr (s, m')"
  shows "conv_inv p V m' \<and> beamSize m' = beamSize m"
proof -
  obtain eos where "m' = m\<lparr>cacheIndices := [], convStates := convStates m @ [[eos]]\<rparr>" using r by (auto simp: conv_start_def conv_new_state_def rbind_eq_Inr_iff)
  moreover have "conv_inv p V (m\<lparr>cacheIndices := []\<rparr>)" using inv by (auto simp: conv_inv_def conv_wf_def cached_def intro!: exI [of _ "[]"])
  ultimately show ?thesis using new_state_inv [of p V "m\<lparr>cacheIndices := []\<rparr>" "[eos]"] inv by (auto simp: conv_inv_def conv_wf_def)
qed

lemma updateCache_inv:
  assumes inv: "conv_inv p V m" and f: "score_rows f p V" and s: "set states \<subseteq> {..<length (convStates m)}" and r: "conv_updateCache f states m = Inr m'"
  shows "conv_inv p V m' \<and> beamSize m' = beamSize m"
proof -
  have "int (length states) \<le> beamSize m" using r by (auto simp: conv_updateCache_def split: if_splits)
  then show ?thesis using updateCache_ok [OF inv f, of states] s r by (auto simp: conv_inv_def same_conv_def)
qed

lemma conv_score_index: "conv_score f s i m = Inr r \<Longrightarrow> \<exists>k. scoreWithLmIdx f s k m = Inr r"
  by (auto simp: conv_score_def split: if_splits)

lemma conv_finish_index: "conv_finish f s m = Inr r \<Longrightarrow> \<exists>k. scoreWithLmIdx f s k m = Inr r"
  by (auto simp: conv_finish_def rbind_eq_Inr_iff)

lemma new_beamSize: "new_ConvLM fs path usr mem beam hist = Inr m \<Longrightarrow> beamSize m = beam"
  by (auto simp: new_ConvLM_def rbind_eq_Inr_iff Let_def split: if_splits)

lemma reach_inv:
  assumes f: "score_rows f p V"
  shows "conv_reach f V m \<Longrightarrow> conv_inv p V m \<and> 1 \<le> beamSize m"
proof (induction rule: conv_reach.induct)
  case (new fs path usr mem beam hist m)
  then show ?case using new_ConvLM_inv [OF new(1), of p] new_beamSize [OF new(1)] by simp
next
  case (start m s m')
  then show ?case using start_inv [of p V m s m'] by simp
next
  case (score m s i s' x m')
  then show ?case using conv_score_index [OF score(2)] scoreWithLmIdx_inv [OF _ _ f] by blast
next
  case (finish m s s' x m')
  then show ?case using conv_finish_index [OF finish(2)] scoreWithLmIdx_inv [OF _ _ f] by blast
next
  case (update m states m')
  then show ?case using updateCache_inv [OF _ f update(2,3)] by simp
qed

text \<open>What a query of the token \<open>k\<close> in the state \<open>s\<close> should return.\<close>

definition conv_answers :: "(int list \<Rightarrow> dbl list) \<Rightarrow> convLM \<Rightarrow> lmStatePtr \<Rightarrow> int \<Rightarrow> ((lmStatePtr \<times> dbl) \<times> convLM) result \<Rightarrow> bool" where
  "conv_answers p m s k r \<longleftrightarrow>
     (case conv_spec p (maxHistorySize m) (convStates m ! s) k of
        Inl e \<Rightarrow> r = Inl e
      | Inr (ts, x) \<Rightarrow> (case r of Inr ((s', x'), m') \<Rightarrow> s' = length (convStates m) \<and> x' = x \<and> convStates m' = convStates m @ [ts] | Inl e \<Rightarrow> False))"

lemma scoreWithLmIdx_answers:
  assumes "conv_inv p V m" "score_rows f p V" "1 \<le> beamSize m" "s < length (convStates m)" "0 \<le> k" "k < int V"
  shows "conv_answers p m s k (scoreWithLmIdx f s k m)"
  using scoreWithLmIdx_spec [OF assms] by (auto simp: conv_answers_def split: sum.splits)

text \<open>
  C34. The cache of the convolutional language model is invisible. For a network whose scores depend only on the tokens up to the position asked for,
  whatever calls have been made before, and with states that are never freed: \<^verbatim>\<open>score\<close> and \<^verbatim>\<open>finish\<close> of a state return the network's score for the state's own tokens, and a
  new state with the last \<^verbatim>\<open>maxHistorySize_\<close> tokens; a score that is infinite and a user token out of range throw, and nothing else does.
\<close>

theorem convLM_cache_invisible:
  assumes net: "causal_network network p V" and m: "conv_reach (buildGetConvLmScoreFunction network) V m" and s: "s < length (convStates m)"
  shows "(if 0 \<le> i \<and> i < int (length (usrToLmIdxMap m))
      then conv_answers p m s (usrToLmIdxMap m ! nat i) (conv_score (buildGetConvLmScoreFunction network) s i m)
      else conv_score (buildGetConvLmScoreFunction network) s i m = Inl (Out_of_range (''[KenLM] Invalid user token index: '' @ to_string i))) \<and>
    (\<exists>eos. getIndex (vocab m) kEosToken = Inr eos \<and> conv_answers p m s eos (conv_finish (buildGetConvLmScoreFunction network) s m))"
proof -
  let ?f = "buildGetConvLmScoreFunction network"
  have f: "score_rows ?f p V" by (rule build_score_rows [OF net])
  note inv = reach_inv [OF f m, THEN conjunct1] reach_inv [OF f m, THEN conjunct2]
  note answers = scoreWithLmIdx_answers [OF inv(1) f inv(2) s]
  have wf: "conv_wf V m" using inv(1) by (simp add: conv_inv_def)
  have usr: "0 \<le> usrToLmIdxMap m ! nat i" "usrToLmIdxMap m ! nat i < int V" if "0 \<le> i \<and> i < int (length (usrToLmIdxMap m))"
    using wf nth_mem [of "nat i" "usrToLmIdxMap m"] that by (auto simp: conv_wf_def)
  obtain eos where eos: "getIndex (vocab m) kEosToken = Inr eos" "0 \<le> eos" "eos < int V" using wf vocab_ok_getIndex [of "vocab m" kEosToken] by (auto simp: conv_wf_def)
  have "conv_finish ?f s m = scoreWithLmIdx ?f s eos m" using eos(1) by (simp add: conv_finish_def)
  then have "\<exists>eos. getIndex (vocab m) kEosToken = Inr eos \<and> conv_answers p m s eos (conv_finish ?f s m)" using answers eos by metis
  moreover have "conv_score ?f s i m = scoreWithLmIdx ?f s (usrToLmIdxMap m ! nat i) m" if "0 \<le> i \<and> i < int (length (usrToLmIdxMap m))"
    using that by (simp add: conv_score_def)
  ultimately show ?thesis using usr answers by (simp add: conv_score_def)
qed

text \<open>
  C35. \<^verbatim>\<open>updateCache\<close>: with at most \<^verbatim>\<open>beamSize_\<close> states it can only throw the exception for an empty batch, which needs \<^verbatim>\<open>lmMemory_\<close> smaller than
  \<^verbatim>\<open>maxHistorySize_\<close>. Otherwise it returns with all the given states in the cache: their scores are found without the network. More states than
  \<^verbatim>\<open>beamSize_\<close> are refused.
\<close>

theorem convLM_updateCache:
  assumes net: "causal_network network p V" and m: "conv_reach (buildGetConvLmScoreFunction network) V m" and s: "set states \<subseteq> {..<length (convStates m)}"
  shows "case conv_updateCache (buildGetConvLmScoreFunction network) states m of
      Inr m' \<Rightarrow> int (length states) \<le> beamSize m \<and> convStates m' = convStates m \<and>
        (\<forall>s\<in>set states. \<forall>i g. conv_score g s i m' = conv_score (buildGetConvLmScoreFunction network) s i m')
    | Inl e \<Rightarrow> if int (length states) \<le> beamSize m
        then \<exists>l. lmMemory m < l \<and> l \<le> maxHistorySize m \<and> e = Logic_error (''[ConvLM] Invalid batch: ['' @ to_string 0 @ '' x '' @ to_string l @ '']'')
        else e = Invalid_argument ''[ConvLM] Cache size too small (consider larger than beam size).''"
proof (cases "int (length states) \<le> beamSize m")
  case True
  let ?f = "buildGetConvLmScoreFunction network"
  have f: "score_rows ?f p V" by (rule build_score_rows [OF net])
  have hit: "conv_score g s i m' = conv_score ?f s i m'" if c: "cached p m' ks" and s: "s \<in> set ks" for m' ks s i g
  proof -
    have "map_of (cacheIndices m') s \<noteq> None" using c s by (simp add: cached_def)
    then have "cached_score g s ts k m' = cached_score ?f s ts k m'" for ts k by (auto simp: cached_score_def)
    then show ?thesis by (simp add: conv_score_def scoreWithLmIdx_def cong: if_cong)
  qed
  consider (ok) m' ks where "conv_updateCache ?f states m = Inr m'" "cached p m' ks" "set states \<subseteq> set ks" "same_conv m m'"
    | (no_memory) l where "lmMemory m < l" "l \<le> maxHistorySize m"
        "conv_updateCache ?f states m = Inl (Logic_error (''[ConvLM] Invalid batch: ['' @ to_string 0 @ '' x '' @ to_string l @ '']''))"
    using updateCache_ok [OF conjunct1 [OF reach_inv [OF f m]] f _ True] s by blast
  then show ?thesis
  proof cases
    case ok
    have "\<forall>s\<in>set states. \<forall>i g. conv_score g s i m' = conv_score ?f s i m'" using hit [OF ok(2)] ok(3) by blast
    then show ?thesis using True ok(4) unfolding ok(1) sum.case same_conv_def by blast
  next
    case no_memory
    then show ?thesis using True by auto
  qed
next
  case False
  then show ?thesis by (simp add: conv_updateCache_def)
qed

text \<open>A network that gives the score 1 to the last token and 0 to the others, and an object with a vocabulary file of four lines.\<close>

definition example_rows :: "int list \<Rightarrow> dbl list" where
  "example_rows ts = map (\<lambda>k. if ts \<noteq> [] \<and> last ts = k then Fin 1 else Fin 0) [0, 1, 2, 3]"

definition example_network :: convNetwork where
  "example_network sz n xs = Inr (4, sz, n, concat (map (\<lambda>b. concat (map (\<lambda>t. example_rows (take (t + 1) (slice sz b xs))) [0..<sz])) [0..<n]))"

lemma example_network_causal: "causal_network example_network example_rows 4"
  by (auto simp: causal_network_def example_network_def example_rows_def)

definition example_fs :: filesystem where
  "example_fs path = Some (''a'' @ newline # ''<pad>'' @ newline # ''</s>'' @ newline # ''<unk>'' @ [newline])"

definition example_usr :: dictionary where
  "example_usr = \<lparr>entry2idx = [(''a'', 0), (''b'', 1)], idx2entry = [(0, ''a''), (1, ''b'')], defaultIndex = -1\<rparr>"

definition example_m0 :: convLM where
  "example_m0 = \<lparr>lmMemory = 6, beamSize = 2, cacheIndices = [], cache = replicate 2 (replicate 4 (Fin 0)), batchedTokens = replicate 6 0,
     vocab = \<lparr>entry2idx = [(''a'', 0), (''<pad>'', 1), (''</s>'', 2), (''<unk>'', 3)],
       idx2entry = [(0, ''a''), (1, ''<pad>''), (2, ''</s>''), (3, ''<unk>'')], defaultIndex = 3\<rparr>,
     vocabSize = 4, maxHistorySize = 3, usrToLmIdxMap = [0, 3], convStates = []\<rparr>"

definition example_m1 :: convLM where
  "example_m1 = example_m0\<lparr>cacheIndices := [(0, 0)], cache := [[Fin 0, Fin 0, Fin 1, Fin 0], replicate 4 (Fin 0)], convStates := [[2], [2, 0]]\<rparr>"

lemma example_new: "new_ConvLM example_fs ''v'' example_usr 6 2 3 = Inr example_m0"
  by code_simp

lemma example_start: "conv_start False example_m0 = Inr (0, example_m0\<lparr>convStates := [[2]]\<rparr>)"
  by code_simp

lemma example_score: "conv_score (buildGetConvLmScoreFunction example_network) 0 0 (example_m0\<lparr>convStates := [[2]]\<rparr>) = Inr ((1, Fin 0), example_m1)"
  by code_simp

lemma example_reach: "conv_reach (buildGetConvLmScoreFunction example_network) 4 example_m1"
proof -
  have "conv_reach (buildGetConvLmScoreFunction example_network) 4 example_m0"
    by (rule conv_reach.new [OF example_new]) (simp_all add: example_m0_def)
  from conv_reach.start [OF this example_start] show ?thesis by (rule conv_reach.score [OF _ example_score])
qed

theorem convLM_cache_invisible_witness:
  "conv_answers example_rows example_m1 1 0 (conv_score (buildGetConvLmScoreFunction example_network) 1 0 example_m1) \<and>
   conv_spec example_rows 3 [2, 0] 0 = Inr ([2, 0, 0], Fin 1)"
proof -
  have "1 < length (convStates example_m1)" by (simp add: example_m1_def)
  note convLM_cache_invisible [OF example_network_causal example_reach this, of 0]
  moreover have "usrToLmIdxMap example_m1 = [0, 3]" by (simp add: example_m1_def example_m0_def)
  moreover have "conv_spec example_rows 3 [2, 0] 0 = Inr ([2, 0, 0], Fin 1)" by code_simp
  ultimately show ?thesis by simp
qed

theorem convLM_updateCache_witness:
  "\<exists>m'. conv_updateCache (buildGetConvLmScoreFunction example_network) [0, 1] example_m1 = Inr m' \<and>
     (\<forall>i g. conv_score g 1 i m' = conv_score (buildGetConvLmScoreFunction example_network) 1 i m')"
proof -
  have s: "set [0, 1] \<subseteq> {..<length (convStates example_m1)}" by (simp add: example_m1_def)
  have m: "lmMemory example_m1 = 6" "maxHistorySize example_m1 = 3" "beamSize example_m1 = 2" by (simp_all add: example_m1_def example_m0_def)
  show ?thesis
  proof (cases "conv_updateCache (buildGetConvLmScoreFunction example_network) [0, 1] example_m1")
    case (Inl e)
    then show ?thesis using convLM_updateCache [OF example_network_causal example_reach s] m by auto
  next
    case (Inr m')
    then have "\<forall>s\<in>set [0, 1]. \<forall>i g. conv_score g s i m' = conv_score (buildGetConvLmScoreFunction example_network) s i m'"
      using convLM_updateCache [OF example_network_causal example_reach s] unfolding Inr sum.case by blast
    then show ?thesis using Inr by (metis list.set_intros(1) list.set_intros(2))
  qed
qed

end
