(* ===== verification/FullConnection.thy ===== *)
theory FullConnection
  imports ViterbiPath
begin

section \<open>The full-connection criterion (\<^verbatim>\<open>lib/sequence/criterion/cpu/FullConnectionCriterion.cpp\<close>, \<^verbatim>\<open>CriterionUtils.cpp\<close>)\<close>

text \<open>
  The forward pass of the denominator of the ASG loss. As in \<open>ViterbiPath\<close> the batch is a map over slices; \<^verbatim>\<open>alpha\<close> has one row
  for each frame. The row of \<^verbatim>\<open>transBuf\<close> of a label is written and read within one iteration only, so it is a local list.
\<close>

fun dln :: "dbl \<Rightarrow> dbl" where
  "dln (Fin x) = (if x > 0 then Fin (ln x) else if x = 0 then NInf else NaN)"
| "dln PInf = PInf"
| "dln NInf = NaN"
| "dln NaN = NaN"

datatype criterionScaleMode = NONE | INPUT_SZ | INPUT_SZ_SQRT | TARGET_SZ | TARGET_SZ_SQRT

definition computeScale :: "int \<Rightarrow> criterionScaleMode \<Rightarrow> int \<Rightarrow> real" where
  "computeScale T scaleMode targetSize =
     (case scaleMode of
        NONE \<Rightarrow> 1
      | INPUT_SZ \<Rightarrow> if T > 0 then 1 / of_int T else 1
      | INPUT_SZ_SQRT \<Rightarrow> if T > 0 then sqrt (1 / of_int T) else 1
      | TARGET_SZ \<Rightarrow> if targetSize > 0 then 1 / of_int targetSize else 1
      | TARGET_SZ_SQRT \<Rightarrow> if targetSize > 0 then sqrt (1 / of_int targetSize) else 1)"

text \<open>
  The size of a target row: up to and including the last label that is not negative; a row without one
  leaves \<^verbatim>\<open>targetSize[b]\<close> as it is.
\<close>

fun last_label :: "int list \<Rightarrow> nat \<Rightarrow> nat option" where
  "last_label target 0 = None"
| "last_label target (Suc i) = (if target ! i \<ge> 0 then Some (Suc i) else last_label target i)"

definition batchTargetSize :: "nat \<Rightarrow> nat \<Rightarrow> int \<Rightarrow> int list \<Rightarrow> int list \<Rightarrow> int list" where
  "batchTargetSize B L maxSize target targetSize =
     map (\<lambda>b. case last_label (slice L b target) L of None \<Rightarrow> targetSize ! b | Some n \<Rightarrow> min maxSize (int n)) [0..<B]"

definition row_values :: "nat \<Rightarrow> nat \<Rightarrow> dbl list \<Rightarrow> dbl list \<Rightarrow> nat \<Rightarrow> nat \<Rightarrow> dbl list" where
  "row_values T N trn alpha t m = map (\<lambda>n. alpha ! ((t - 1) * N + n) + (if t = T then 0 else trn ! (m * N + n))) [0..<N]"

definition row_lse :: "dbl list \<Rightarrow> dbl" where
  "row_lse transBuf =
     (let maxValue = fold (\<lambda>val mv. if val > mv then val else mv) transBuf NInf;
          sumValue = fold (\<lambda>val s. s + dexp (val - maxValue)) transBuf 0
      in dln sumValue + maxValue)"

definition fcc_cell :: "nat \<Rightarrow> nat \<Rightarrow> dbl list \<Rightarrow> dbl list \<Rightarrow> nat \<Rightarrow> nat \<Rightarrow> dbl list \<Rightarrow> dbl list" where
  "fcc_cell T N input trn t m alpha = alpha[t * N + m := row_lse (row_values T N trn alpha t m) + input ! (t * N + m)]"

definition fcc_frame :: "nat \<Rightarrow> nat \<Rightarrow> dbl list \<Rightarrow> dbl list \<Rightarrow> nat \<Rightarrow> dbl list \<Rightarrow> dbl list" where
  "fcc_frame T N input trn t alpha = fold (fcc_cell T N input trn t) [0..<N] alpha"

definition fcc_one :: "nat \<Rightarrow> nat \<Rightarrow> real \<Rightarrow> dbl list \<Rightarrow> dbl list \<Rightarrow> dbl list \<Rightarrow> dbl" where
  "fcc_one T N scale input trn alpha0 =
     (let alpha1 = fold (\<lambda>n a. a[n := input ! n]) [0..<N] alpha0;
          alpha2 = fold (fcc_frame T N input trn) [1..<T] alpha1
      in Fin scale * row_lse (row_values T N trn alpha2 T 0))"

definition fcc_forward :: "nat \<Rightarrow> nat \<Rightarrow> nat \<Rightarrow> criterionScaleMode \<Rightarrow> dbl list \<Rightarrow> int list \<Rightarrow> dbl list \<Rightarrow> dbl list \<Rightarrow> dbl list \<Rightarrow> dbl list" where
  "fcc_forward B T N scaleMode input targetSize trn alpha loss =
     (if T = 0 \<or> N = 0 then loss
      else map (\<lambda>b. fcc_one T N (computeScale (int T) scaleMode (targetSize ! b)) (slice (T * N) b input) trn (slice (T * N) b alpha)) [0..<B])"

subsection \<open>The log-sum-exp of a row\<close>

lemma fold_max_ge: "\<exists>m. fold (\<lambda>val mv. if val > mv then val else mv) (map Fin vs) (Fin x) = Fin m"
  by (induction vs arbitrary: x) auto

lemma fold_sum_exp: "fold (\<lambda>val s. s + dexp (val - Fin m)) (map Fin vs) (Fin s) = Fin (s + sum_list (map (\<lambda>v. exp (v - m)) vs))"
  by (induction vs arbitrary: s) (simp_all add: minus_dbl_def add.assoc)

lemma row_lse_Fin:
  assumes "vs \<noteq> []"
  shows "row_lse (map Fin vs) = Fin (log_sum_exp vs)"
proof -
  obtain v vs' where vs: "vs = v # vs'" using assms by (cases vs) auto
  obtain m where m: "fold (\<lambda>val mv. if val > mv then val else mv) (map Fin vs) NInf = Fin m"
    using fold_max_ge [of vs' v] by (auto simp: vs)
  have "sum_list (map (\<lambda>v. exp (v - m)) vs) = sum_list (map exp vs) * exp (- m)"
    by (induction vs) (simp_all add: algebra_simps exp_diff exp_minus field_simps)
  moreover have "0 < sum_list (map exp vs)" by (rule sum_exp_pos [OF assms])
  ultimately show ?thesis
    using m fold_sum_exp [of m vs 0] by (simp add: row_lse_def zero_dbl_def log_sum_exp_def ln_mult)
qed

subsection \<open>The forward pass sums over all paths\<close>

abbreviation summed :: "nat \<Rightarrow> real list \<Rightarrow> real list \<Rightarrow> nat \<Rightarrow> nat \<Rightarrow> real" where
  "summed N xs ys \<equiv> forward log_sum_exp (emission N xs) (transition N ys) N"

definition rows_ok :: "nat \<Rightarrow> nat \<Rightarrow> real list \<Rightarrow> real list \<Rightarrow> nat \<Rightarrow> dbl list \<Rightarrow> bool" where
  "rows_ok T N xs ys t alpha \<longleftrightarrow> length alpha = T * N \<and> (\<forall>m<N. alpha ! (t * N + m) = Fin (summed N xs ys t m))"

lemma row_values_Fin:
  assumes ok: "rows_ok T N xs ys t alpha" and t: "Suc t < T" and m: "m < N" and len: "length ys = N * N"
  shows "row_values T N (map Fin ys) alpha (Suc t) m = map Fin (map (\<lambda>n. summed N xs ys t n + transition N ys m n) [0..<N])"
  using ok t len row_bound [OF m] by (simp add: row_values_def rows_ok_def transition_def)

lemma fcc_frame_ok:
  assumes N: "0 < N" and t: "Suc t < T" and len: "length xs = T * N" "length ys = N * N" and ok: "rows_ok T N xs ys t alpha"
  shows "rows_ok T N xs ys (Suc t) (fcc_frame T N (map Fin xs) (map Fin ys) (Suc t) alpha)"
proof -
  have "k \<le> N \<Longrightarrow> (let a = fold (fcc_cell T N (map Fin xs) (map Fin ys) (Suc t)) [0..<k] alpha in
      rows_ok T N xs ys t a \<and> (\<forall>m<k. a ! (Suc t * N + m) = Fin (summed N xs ys (Suc t) m)))" for k
  proof (induction k)
    case (Suc k)
    define a where "a = fold (fcc_cell T N (map Fin xs) (map Fin ys) (Suc t)) [0..<k] alpha"
    have k: "k < N" and a: "rows_ok T N xs ys t a" "\<forall>m<k. a ! (Suc t * N + m) = Fin (summed N xs ys (Suc t) m)"
      using Suc by (simp_all add: a_def Let_def)
    have b: "Suc t * N + k < T * N" by (rule row_bound [OF t k])
    have "fcc_cell T N (map Fin xs) (map Fin ys) (Suc t) k a = a[Suc t * N + k := Fin (summed N xs ys (Suc t) k)]"
      using row_values_Fin [OF a(1) t k len(2)] row_lse_Fin [of "map (\<lambda>n. summed N xs ys t n + transition N ys k n) [0..<N]"] N b len(1)
      unfolding fcc_cell_def by (simp add: emission_def del: mult_Suc map_map)
    moreover have "a[Suc t * N + k := v] ! (t * N + m) = a ! (t * N + m)" if "m < N" for v m
      using row_inj [OF that k, of t "Suc t"] by (intro nth_list_update_neq) auto
    then have "rows_ok T N xs ys t (a[Suc t * N + k := v])" for v
      using a(1) unfolding rows_ok_def by simp
    moreover have "a[Suc t * N + k := v] ! (Suc t * N + m) = (if m = k then v else a ! (Suc t * N + m))" for v m
      using b a(1) by (auto simp: rows_ok_def nth_list_update simp del: mult_Suc)
    ultimately show ?case using a(2) by (simp add: Let_def less_Suc_eq del: mult_Suc forward.simps flip: a_def)
  qed (use ok in simp)
  from this [OF le_refl] show ?thesis by (simp add: fcc_frame_def rows_ok_def Let_def)
qed

lemma fcc_one_sum:
  assumes T: "0 < T" and N: "0 < N" and len: "length xs = T * N" "length ys = N * N" "length alpha = T * N"
  shows "fcc_one T N scale (map Fin xs) (map Fin ys) alpha =
    Fin (scale * ln (\<Sum>p\<leftarrow>all_paths N (T - 1). exp (list_score (emission N xs) (transition N ys) p)))"
proof -
  obtain k where k: "T = Suc k" using T by (cases T) auto
  let ?a = "fold (\<lambda>n a. a[n := map Fin xs ! n]) [0..<N] alpha"
  have "j \<le> N \<Longrightarrow> length (fold (\<lambda>n a. a[n := map Fin xs ! n]) [0..<j] alpha) = T * N \<and>
      (\<forall>m<j. fold (\<lambda>n a. a[n := map Fin xs ! n]) [0..<j] alpha ! m = Fin (xs ! m))" for j
  proof (induction j)
    case (Suc j)
    then have "j < length xs" using len(1) row_bound [OF T, of j N] by simp
    then show ?case using Suc len(1) by (auto simp: nth_list_update less_Suc_eq)
  qed (simp add: len(3))
  then have "rows_ok T N xs ys 0 ?a" by (simp add: rows_ok_def emission_def)
  then have rows: "j < T \<Longrightarrow> rows_ok T N xs ys j (fold (fcc_frame T N (map Fin xs) (map Fin ys)) [1..<Suc j] ?a)" for j
  proof (induction j)
    case (Suc j)
    then show ?case using fcc_frame_ok [OF N Suc.prems(1) len(1,2)] by simp
  qed simp
  let ?b = "fold (fcc_frame T N (map Fin xs) (map Fin ys)) [1..<T] ?a"
  have "rows_ok T N xs ys k ?b" using rows [of k] k by simp
  then have "row_values T N (map Fin ys) ?b T 0 = map Fin (map (summed N xs ys k) [0..<N])"
    by (simp add: row_values_def rows_ok_def k zero_dbl_def)
  then have "fcc_one T N scale (map Fin xs) (map Fin ys) alpha = Fin (scale * log_sum_exp (map (summed N xs ys k) [0..<N]))"
    using row_lse_Fin [of "map (summed N xs ys k) [0..<N]"] N by (simp add: fcc_one_def Let_def)
  then show ?thesis unfolding lse.forward_all_paths [OF N] by (simp add: k log_sum_exp_def comp_def)
qed

text \<open>
  C25. The forward pass sums over all paths: with finite scores, whatever the workspace holds, the loss of every batch element is the
  scale of the chosen mode times the logarithm of the sum, over all sequences of one label per frame, of the
  exponential of their score (emissions plus transitions), however many there are.
\<close>

theorem full_connection_loss:
  assumes T: "0 < T" and N: "0 < N" and len: "length xs = B * (T * N)" "length ys = N * N" "length alpha = B * (T * N)" and b: "b < B"
  shows "fcc_forward B T N scaleMode (map Fin xs) targetSize (map Fin ys) alpha loss ! b =
    Fin (computeScale (int T) scaleMode (targetSize ! b) *
      ln (\<Sum>p\<leftarrow>all_paths N (T - 1). exp (list_score (emission N (slice (T * N) b xs)) (transition N ys) p)))"
  using fcc_one_sum [OF T N length_slice [OF len(1) b] len(2) length_slice [OF len(3) b]] T N b
  by (simp add: fcc_forward_def slice_map)

theorem full_connection_loss_witness:
  "fcc_forward 1 1 2 NONE (map Fin [0, 0]) [0] (map Fin [0, 0, 0, 0]) [0, 0] [0] ! 0 = Fin (ln 2)"
proof -
  have "all_paths 2 0 = [[0], [1]]" by (simp add: all_paths_def upt_rec)
  then show ?thesis
    using full_connection_loss [of 1 2 "[0, 0]" 1 "[0, 0, 0, 0]" "[0, 0]" 0 NONE "[0]" "[0]"]
    by (simp add: computeScale_def slice_def list_score_def emission_def)
qed

end
