(* ===== verification/ForceAlignment.thy ===== *)
theory ForceAlignment
  imports FullConnection
begin

section \<open>The forced-alignment criterion (\<^verbatim>\<open>lib/sequence/criterion/cpu/ForceAlignmentCriterion.cpp\<close>)\<close>

text \<open>
  The numerator of the ASG loss and its best path. For each batch element the table \<^verbatim>\<open>alpha\<close> has a row of \<open>L\<close> cells, the size
  of the target, for each frame; only the cells that lie on some complete alignment are written. The rows
  \<^verbatim>\<open>transBuf1\<close> and \<^verbatim>\<open>transBuf2\<close> hold the scores of staying at a position and of moving to it. The batch is a map over
  slices, the target of element \<open>b\<close> has \<^verbatim>\<open>targetSize[b]\<close> labels of the \<open>L0\<close> in its row.
\<close>

definition trans_stay :: "nat \<Rightarrow> nat \<Rightarrow> nat list \<Rightarrow> dbl list \<Rightarrow> dbl list" where
  "trans_stay N L target trn = map (\<lambda>i. trn ! (target ! i * N + target ! i)) [0..<L]"

definition trans_move :: "nat \<Rightarrow> nat \<Rightarrow> nat list \<Rightarrow> dbl list \<Rightarrow> dbl list" where
  "trans_move N L target trn = map (\<lambda>i. if i > 0 then trn ! (target ! i * N + target ! (i - 1)) else 0) [0..<L]"

text \<open>\<^verbatim>\<open>logSumExp(s1, s2)\<close> as it is written out in the loop, and the body of the loop in \<^verbatim>\<open>viterbi\<close>.\<close>

definition lse_cell :: "dbl \<Rightarrow> dbl \<Rightarrow> dbl \<Rightarrow> dbl" where
  "lse_cell s1 s2 e = (if s1 < s2 then s2 + dlog1p (dexp (s1 - s2)) else s1 + dlog1p (dexp (s2 - s1))) + e"

text \<open>\<^verbatim>\<open>fmax\<close> returns the other argument when one is not a number.\<close>

definition fmax :: "dbl \<Rightarrow> dbl \<Rightarrow> dbl" where
  "fmax a b = (if a = NaN then b else if b = NaN then a else dmax a b)"

definition max_cell :: "dbl \<Rightarrow> dbl \<Rightarrow> dbl \<Rightarrow> dbl" where
  "max_cell s1 s2 e = e + fmax s1 s2"

definition fa_frame :: "(dbl \<Rightarrow> dbl \<Rightarrow> dbl \<Rightarrow> dbl) \<Rightarrow> nat \<Rightarrow> nat \<Rightarrow> nat \<Rightarrow> nat list \<Rightarrow> dbl list \<Rightarrow> dbl list \<Rightarrow> dbl list \<Rightarrow> nat \<Rightarrow>
    dbl list \<Rightarrow> dbl list" where
  "fa_frame comb T N L target input stay move t alpha =
     (let high = (if t < L then t else L);
          low = (if T - t < L then L - (T - t) else 1);
          alpha1 = (if T - t \<ge> L then alpha[t * L := alpha ! ((t - 1) * L) + stay ! 0 + input ! (t * N + target ! 0)] else alpha);
          alpha2 = (if t < L
                    then alpha1[t * L + high := alpha1 ! ((t - 1) * L + (high - 1)) + move ! high + input ! (t * N + target ! high)]
                    else alpha1)
      in fold (\<lambda>i a. a[t * L + i := comb (a ! ((t - 1) * L + i) + stay ! i) (a ! ((t - 1) * L + (i - 1)) + move ! i)
                                      (input ! (t * N + target ! i))]) [low..<high] alpha2)"

definition fa_table :: "(dbl \<Rightarrow> dbl \<Rightarrow> dbl \<Rightarrow> dbl) \<Rightarrow> nat \<Rightarrow> nat \<Rightarrow> nat \<Rightarrow> nat list \<Rightarrow> dbl list \<Rightarrow> dbl list \<Rightarrow> dbl list \<Rightarrow> dbl list" where
  "fa_table comb T N L target input trn alpha =
     fold (fa_frame comb T N L target input (trans_stay N L target trn) (trans_move N L target trn)) [1..<T]
       (alpha[0 := input ! (target ! 0)])"

definition fa_forward_one :: "nat \<Rightarrow> nat \<Rightarrow> nat \<Rightarrow> real \<Rightarrow> nat list \<Rightarrow> dbl list \<Rightarrow> dbl list \<Rightarrow> dbl list \<Rightarrow> dbl" where
  "fa_forward_one T N L scale target input trn alpha = fa_table lse_cell T N L target input trn alpha ! (T * L - 1) * Fin scale"

definition fa_forward :: "nat \<Rightarrow> nat \<Rightarrow> nat \<Rightarrow> nat \<Rightarrow> criterionScaleMode \<Rightarrow> dbl list \<Rightarrow> nat list \<Rightarrow> nat list \<Rightarrow> dbl list \<Rightarrow> dbl list \<Rightarrow> dbl list" where
  "fa_forward B T N L0 scaleMode input target targetSize trn alpha =
     map (\<lambda>b. fa_forward_one T N (targetSize ! b) (computeScale (int T) scaleMode (int (targetSize ! b)))
       (slice L0 b target) (slice (T * N) b input) trn (slice (T * L0) b alpha)) [0..<B]"

fun fa_back :: "nat \<Rightarrow> nat list \<Rightarrow> dbl list \<Rightarrow> dbl list \<Rightarrow> dbl list \<Rightarrow> nat \<Rightarrow> nat \<Rightarrow> nat list \<Rightarrow> nat list" where
  "fa_back L target stay move alpha 0 ltrIdx path = target ! ltrIdx # path"
| "fa_back L target stay move alpha (Suc t) ltrIdx path =
     (let ltrIdx' =
        (if ltrIdx > 0 \<and> alpha ! (t * L + (ltrIdx - 1)) + move ! ltrIdx > alpha ! (t * L + ltrIdx) + stay ! ltrIdx
         then ltrIdx - 1 else ltrIdx)
      in fa_back L target stay move alpha t ltrIdx' (target ! ltrIdx # path))"

definition fa_viterbi_one :: "nat \<Rightarrow> nat \<Rightarrow> nat \<Rightarrow> nat list \<Rightarrow> dbl list \<Rightarrow> dbl list \<Rightarrow> dbl list \<Rightarrow> nat list" where
  "fa_viterbi_one T N L target input trn alpha =
     (let cleared = fold (\<lambda>i a. a[i := NInf]) [0..<L * T] alpha;
          table = fa_table max_cell T N L target input trn cleared
      in fa_back L target (trans_stay N L target trn) (trans_move N L target trn) table (T - 1) (L - 1) [])"

definition fa_viterbi :: "nat \<Rightarrow> nat \<Rightarrow> nat \<Rightarrow> nat \<Rightarrow> dbl list \<Rightarrow> nat list \<Rightarrow> nat list \<Rightarrow> dbl list \<Rightarrow> dbl list \<Rightarrow> nat list" where
  "fa_viterbi B T N L0 input target targetSize trn alpha =
     concat (map (\<lambda>b. fa_viterbi_one T N (targetSize ! b) (slice L0 b target) (slice (T * N) b input) trn (slice (T * L0) b alpha)) [0..<B])"

subsection \<open>One frame\<close>

text \<open>The cells of frame \<open>t\<close> that lie on an alignment of all \<open>T\<close> frames with all \<open>L\<close> labels.\<close>

definition band :: "nat \<Rightarrow> nat \<Rightarrow> nat \<Rightarrow> nat \<Rightarrow> bool" where
  "band T L t i \<longleftrightarrow> i < L \<and> i \<le> t \<and> L \<le> i + (T - t)"

text \<open>A loop that writes cells of one row from cells of another.\<close>

lemma fold_cells:
  fixes f :: "nat \<Rightarrow> 'a list \<Rightarrow> 'a"
  assumes "\<And>a a' i. i \<in> set is \<Longrightarrow> (\<And>k. k < c \<Longrightarrow> a ! k = a' ! k) \<Longrightarrow> f i a = f i a'" "distinct is"
    "\<And>i. i \<in> set is \<Longrightarrow> c + i < length a"
  shows "length (fold (\<lambda>i a. a[c + i := f i a]) is a) = length a \<and>
    (\<forall>k. fold (\<lambda>i a. a[c + i := f i a]) is a ! k = (if c \<le> k \<and> k - c \<in> set is then f (k - c) a else a ! k))"
  using assms
proof (induction "is" arbitrary: a)
  case (Cons i "is")
  let ?a = "a[c + i := f i a]"
  have same: "f j ?a = f j a" if "j \<in> set is" for j by (rule Cons.prems(1)) (use that in auto)
  have "length (fold (\<lambda>i a. a[c + i := f i a]) is ?a) = length ?a \<and>
      (\<forall>k. fold (\<lambda>i a. a[c + i := f i a]) is ?a ! k = (if c \<le> k \<and> k - c \<in> set is then f (k - c) ?a else ?a ! k))"
  proof (rule Cons.IH)
    fix a1 a2 :: "'a list" and j
    assume "j \<in> set is" "\<And>k. k < c \<Longrightarrow> a1 ! k = a2 ! k"
    then show "f j a1 = f j a2" by (intro Cons.prems(1)) simp_all
  next
    show "distinct is" using Cons.prems(2) by simp
  next
    fix j assume "j \<in> set is"
    then show "c + j < length ?a" using Cons.prems(3) [of j] by simp
  qed
  then have r: "length (fold (\<lambda>i a. a[c + i := f i a]) is ?a) = length a"
      "\<And>k. fold (\<lambda>i a. a[c + i := f i a]) is ?a ! k = (if c \<le> k \<and> k - c \<in> set is then f (k - c) a else ?a ! k)"
    using same by simp_all
  have "fold (\<lambda>i a. a[c + i := f i a]) (i # is) a ! k = (if c \<le> k \<and> k - c \<in> set (i # is) then f (k - c) a else a ! k)" for k
    using r(2) [of k] Cons.prems(2) Cons.prems(3) [of i] by (cases "k = c + i") auto
  then show ?case using r(1) by simp
qed simp

definition new_cell :: "(dbl \<Rightarrow> dbl \<Rightarrow> dbl \<Rightarrow> dbl) \<Rightarrow> nat \<Rightarrow> nat \<Rightarrow> nat list \<Rightarrow> dbl list \<Rightarrow> dbl list \<Rightarrow> dbl list \<Rightarrow> nat \<Rightarrow> dbl list \<Rightarrow> nat \<Rightarrow> dbl" where
  "new_cell comb N L target input stay move t alpha i =
     (let e = input ! (Suc t * N + target ! i) in
      if i = 0 then alpha ! (t * L) + stay ! 0 + e
      else if i = Suc t then alpha ! (t * L + (i - 1)) + move ! i + e
      else comb (alpha ! (t * L + i) + stay ! i) (alpha ! (t * L + (i - 1)) + move ! i) e)"

lemma fa_frame_cells:
  assumes t: "Suc t < T" and L: "0 < L" "L \<le> T" and len: "T * L \<le> length alpha"
  shows "length (fa_frame comb T N L target input stay move (Suc t) alpha) = length alpha \<and>
    (\<forall>k. fa_frame comb T N L target input stay move (Suc t) alpha ! k =
      (if Suc t * L \<le> k \<and> band T L (Suc t) (k - Suc t * L) then new_cell comb N L target input stay move t alpha (k - Suc t * L) else alpha ! k))"
proof -
  let ?c = "Suc t * L"
  define high where "high = (if Suc t < L then Suc t else L)"
  define low where "low = (if T - Suc t < L then L - (T - Suc t) else 1)"
  define alpha1 where "alpha1 = (if T - Suc t \<ge> L then alpha[?c := alpha ! (t * L) + stay ! 0 + input ! (Suc t * N + target ! 0)] else alpha)"
  define alpha2 where "alpha2 = (if Suc t < L then alpha1[?c + high := alpha1 ! (t * L + (high - 1)) + move ! high + input ! (Suc t * N + target ! high)] else alpha1)"
  define f where "f i a = comb (a ! (t * L + i) + stay ! i) (a ! (t * L + (i - 1)) + move ! i) (input ! (Suc t * N + target ! i))" for i and a :: "dbl list"
  have fr: "fa_frame comb T N L target input stay move (Suc t) alpha = fold (\<lambda>i a. a[?c + i := f i a]) [low..<high] alpha2"
    unfolding fa_frame_def Let_def f_def high_def low_def alpha1_def alpha2_def by (simp del: mult_Suc)
  have bound: "?c + i < length alpha" if "i < L" for i using row_bound [OF t that] len by simp
  have prev: "t * L + i < ?c" if "i < L" for i using that by simp
  have high: "high \<le> L" "low \<ge> 1" "high \<le> Suc t" using L t by (auto simp: high_def low_def)
  have a1: "length alpha1 = length alpha" "\<And>k. k < ?c \<Longrightarrow> alpha1 ! k = alpha ! k" by (auto simp: alpha1_def)
  have a2: "length alpha2 = length alpha" "\<And>k. k < ?c \<Longrightarrow> alpha2 ! k = alpha ! k" using a1 by (auto simp: alpha2_def)
  have old: "f i a = f i a'" if "i \<in> set [low..<high]" "\<And>k. k < ?c \<Longrightarrow> a ! k = a' ! k" for a a' i
  proof -
    have "i < L" "i - 1 < L" using that(1) high by auto
    then show ?thesis using that(2) [OF prev, of i] that(2) [OF prev, of "i - 1"] by (simp only: f_def)
  qed
  have "\<And>i. i \<in> set [low..<high] \<Longrightarrow> ?c + i < length alpha2" using high bound a2(1) by auto
  note cells = fold_cells [of "[low..<high]" ?c f alpha2, OF old distinct_upt this]
  have len2: "length (fold (\<lambda>i a. a[?c + i := f i a]) [low..<high] alpha2) = length alpha"
    using conjunct1 [OF cells] a2(1) by (rule trans)
  have nth2: "fold (\<lambda>i a. a[?c + i := f i a]) [low..<high] alpha2 ! k = (if ?c \<le> k \<and> k - ?c \<in> set [low..<high] then f (k - ?c) alpha2 else alpha2 ! k)" for k
    using conjunct2 [OF cells] by (rule spec)
  have val: "alpha2 ! k = (if k = ?c \<and> T - Suc t \<ge> L \<or> Suc t < L \<and> k = ?c + Suc t then new_cell comb N L target input stay move t alpha (k - ?c) else alpha ! k)" for k
  proof -
    have p: "alpha1 ! (t * L + (high - 1)) = alpha ! (t * L + (high - 1))" using high L by (intro a1(2) prev) auto
    have v1: "alpha1 ! k = (if k = ?c \<and> T - Suc t \<ge> L then new_cell comb N L target input stay move t alpha 0 else alpha ! k)"
      using bound [of 0] L unfolding alpha1_def by (cases "k = ?c") (simp_all add: new_cell_def Let_def nth_list_update_neq del: mult_Suc)
    show ?thesis
    proof (cases "Suc t < L")
      case True
      then have h: "high = Suc t" by (simp add: high_def)
      have a: "alpha2 = alpha1[?c + Suc t := new_cell comb N L target input stay move t alpha (Suc t)]"
        unfolding alpha2_def new_cell_def Let_def p using True h p by (simp del: mult_Suc)
      show ?thesis
      proof (cases "k = ?c + Suc t")
        case True
        then show ?thesis unfolding a using bound [OF \<open>Suc t < L\<close>] a1(1) \<open>Suc t < L\<close> by (simp del: mult_Suc)
      next
        case False
        then show ?thesis unfolding a using v1 by (simp add: nth_list_update_neq del: mult_Suc)
      qed
    next
      case False
      then show ?thesis using v1 by (simp add: alpha2_def del: mult_Suc)
    qed
  qed
  have mid: "f i alpha2 = new_cell comb N L target input stay move t alpha i" if "low \<le> i" "i < high" for i
  proof -
    have "i \<noteq> 0" "i \<noteq> Suc t" "i < L" using that high by auto
    then show ?thesis using a2(2) [OF prev, of i] a2(2) [OF prev, of "i - 1"] by (simp add: f_def new_cell_def)
  qed
  have b: "band T L (Suc t) i \<longleftrightarrow> (i = 0 \<and> T - Suc t \<ge> L) \<or> (Suc t < L \<and> i = Suc t) \<or> (low \<le> i \<and> i < high)" for i
    using t L unfolding band_def high_def low_def by auto
  have "fold (\<lambda>i a. a[?c + i := f i a]) [low..<high] alpha2 ! k =
      (if ?c \<le> k \<and> band T L (Suc t) (k - ?c) then new_cell comb N L target input stay move t alpha (k - ?c) else alpha ! k)" for k
  proof (cases "?c \<le> k \<and> low \<le> k - ?c \<and> k - ?c < high")
    case True
    then show ?thesis unfolding nth2 using mid [of "k - ?c"] b [of "k - ?c"] by (simp del: mult_Suc)
  next
    case False
    then have "fold (\<lambda>i a. a[?c + i := f i a]) [low..<high] alpha2 ! k = alpha2 ! k" unfolding nth2 set_upt atLeastLessThan_iff by (rule if_not_P)
    moreover have "k = ?c \<and> T - Suc t \<ge> L \<or> Suc t < L \<and> k = ?c + Suc t \<longleftrightarrow> ?c \<le> k \<and> band T L (Suc t) (k - ?c)"
      using False unfolding b by auto
    ultimately show ?thesis using val [of k] by (simp only: if_cancel)
  qed
  then show ?thesis unfolding fr using len2 by blast
qed

subsection \<open>The table\<close>

text \<open>The scores the table aggregates: frame \<open>t\<close> emits the label at position \<open>i\<close>, a move between positions costs the transition of their labels.\<close>

definition pos_emission :: "nat \<Rightarrow> nat list \<Rightarrow> real list \<Rightarrow> nat \<Rightarrow> nat \<Rightarrow> real" where
  "pos_emission N target xs t i = emission N xs t (target ! i)"

definition pos_transition :: "nat \<Rightarrow> nat list \<Rightarrow> real list \<Rightarrow> nat \<Rightarrow> nat \<Rightarrow> real" where
  "pos_transition N target ys i j = transition N ys (target ! i) (target ! j)"

definition band_ok :: "(real list \<Rightarrow> real) \<Rightarrow> nat \<Rightarrow> nat \<Rightarrow> nat \<Rightarrow> nat list \<Rightarrow> real list \<Rightarrow> real list \<Rightarrow> dbl list \<Rightarrow> nat \<Rightarrow> dbl list \<Rightarrow> bool" where
  "band_ok agg T N L target xs ys alpha0 t alpha \<longleftrightarrow> length alpha = length alpha0 \<and>
     (\<forall>s<T. \<forall>i<L. alpha ! (s * L + i) =
        (if s \<le> t \<and> band T L s i then Fin (align_forward agg (pos_emission N target xs) (pos_transition N target ys) s i)
         else alpha0 ! (s * L + i)))"

lemma band_okD:
  "band_ok agg T N L target xs ys alpha0 t alpha \<Longrightarrow> s < T \<Longrightarrow> i < L \<Longrightarrow> s \<le> t \<Longrightarrow> band T L s i \<Longrightarrow>
     alpha ! (s * L + i) = Fin (align_forward agg (pos_emission N target xs) (pos_transition N target ys) s i)"
  by (simp add: band_ok_def)

lemma trans_nth:
  assumes "i < L" "\<And>j. j < L \<Longrightarrow> target ! j < N" "length ys = N * N"
  shows "trans_stay N L target (map Fin ys) ! i = Fin (pos_transition N target ys i i)"
    "0 < i \<Longrightarrow> trans_move N L target (map Fin ys) ! i = Fin (pos_transition N target ys i (i - 1))"
  using assms row_bound [of "target ! i" N "target ! i" N] row_bound [of "target ! i" N "target ! (i - 1)" N]
  by (simp_all add: trans_stay_def trans_move_def pos_transition_def transition_def)

lemma new_cell_align:
  assumes comb: "\<And>a b e. comb (Fin a) (Fin b) (Fin e) = Fin (agg [a, b] + e)"
    and t: "Suc t < T" and i: "i < L" "band T L (Suc t) i" and target: "\<And>j. j < L \<Longrightarrow> target ! j < N"
    and len: "length xs = T * N" "length ys = N * N" and ok: "band_ok agg T N L target xs ys alpha0 t alpha"
  shows "new_cell comb N L target (map Fin xs) (trans_stay N L target (map Fin ys)) (trans_move N L target (map Fin ys)) t alpha i =
    Fin (align_forward agg (pos_emission N target xs) (pos_transition N target ys) (Suc t) i)"
proof -
  let ?f = "align_forward agg (pos_emission N target xs) (pos_transition N target ys)"
  have e: "map Fin xs ! (Suc t * N + target ! i) = Fin (pos_emission N target xs (Suc t) i)"
    using row_bound [OF t target [OF i(1)]] len(1) by (simp add: pos_emission_def emission_def del: mult_Suc)
  have stay: "trans_stay N L target (map Fin ys) ! i = Fin (pos_transition N target ys i i)"
    and move: "0 < i \<Longrightarrow> trans_move N L target (map Fin ys) ! i = Fin (pos_transition N target ys i (i - 1))"
    using trans_nth [OF i(1) target len(2)] by auto
  have here: "alpha ! (t * L + i) = Fin (?f t i)" if "i \<noteq> Suc t"
  proof -
    have "band T L t i" using i t that by (auto simp: band_def)
    then show ?thesis using band_okD [OF ok _ i(1) le_refl] t by simp
  qed
  have before: "alpha ! (t * L + (i - 1)) = Fin (?f t (i - 1))" if "0 < i"
  proof -
    have "band T L t (i - 1)" "i - 1 < L" using i t that by (auto simp: band_def)
    then show ?thesis using band_okD [OF ok, of t "i - 1"] t by (simp only: le_refl)
  qed
  consider "i = 0" | "0 < i" "i = Suc t" | "0 < i" "i \<noteq> Suc t" by blast
  then show ?thesis
  proof cases
    case 1
    then show ?thesis using here stay e by (simp add: new_cell_def)
  next
    case 2
    then show ?thesis using before move e by (simp add: new_cell_def)
  next
    case 3
    then show ?thesis using here before stay move e by (simp add: new_cell_def comb)
  qed
qed

lemma fa_frame_ok:
  assumes comb: "\<And>a b e. comb (Fin a) (Fin b) (Fin e) = Fin (agg [a, b] + e)"
    and t: "Suc t < T" and L: "0 < L" "L \<le> T" "T * L \<le> length alpha0" and target: "\<And>j. j < L \<Longrightarrow> target ! j < N"
    and len: "length xs = T * N" "length ys = N * N" and ok: "band_ok agg T N L target xs ys alpha0 t alpha"
  shows "band_ok agg T N L target xs ys alpha0 (Suc t)
    (fa_frame comb T N L target (map Fin xs) (trans_stay N L target (map Fin ys)) (trans_move N L target (map Fin ys)) (Suc t) alpha)"
    (is "band_ok _ _ _ _ _ _ _ _ _ ?frame")
proof -
  have la: "length alpha = length alpha0" using ok by (simp add: band_ok_def)
  note cells = fa_frame_cells [OF t L(1,2) L(3) [folded la], of comb N target "map Fin xs"
      "trans_stay N L target (map Fin ys)" "trans_move N L target (map Fin ys)"]
  have "?frame ! (s * L + i) = (if s \<le> Suc t \<and> band T L s i
      then Fin (align_forward agg (pos_emission N target xs) (pos_transition N target ys) s i) else alpha0 ! (s * L + i))"
    if s: "s < T" "i < L" for s i
  proof (cases "s = Suc t")
    case True
    have b: "band_ok agg T N L target xs ys alpha0 t alpha" by (rule ok)
    have "alpha ! (Suc t * L + i) = alpha0 ! (Suc t * L + i)" using ok s True by (simp add: band_ok_def del: mult_Suc)
    then show ?thesis unfolding True conjunct2 [OF cells, THEN spec]
      using new_cell_align [OF comb t s(2) _ target len b] by (simp del: mult_Suc align_forward.simps)
  next
    case False
    have "\<not> (Suc t * L \<le> s * L + i \<and> band T L (Suc t) (s * L + i - Suc t * L))"
    proof
      assume *: "Suc t * L \<le> s * L + i \<and> band T L (Suc t) (s * L + i - Suc t * L)"
      then have "s * L + i - Suc t * L < L" by (simp add: band_def)
      moreover have "s * L + i = Suc t * L + (s * L + i - Suc t * L)" using * by simp
      ultimately show False using row_inj [OF s(2), of _ s "Suc t"] False by blast
    qed
    then have "?frame ! (s * L + i) = alpha ! (s * L + i)" unfolding conjunct2 [OF cells, THEN spec] by (rule if_not_P)
    then show ?thesis using ok s False by (simp add: band_ok_def le_Suc_eq)
  qed
  then show ?thesis using conjunct1 [OF cells] la by (simp add: band_ok_def)
qed

lemma fa_table_ok:
  assumes comb: "\<And>a b e. comb (Fin a) (Fin b) (Fin e) = Fin (agg [a, b] + e)"
    and L: "0 < L" "L \<le> T" "T * L \<le> length alpha" and target: "\<And>j. j < L \<Longrightarrow> target ! j < N"
    and len: "length xs = T * N" "length ys = N * N"
  shows "band_ok agg T N L target xs ys alpha (T - 1) (fa_table comb T N L target (map Fin xs) (map Fin ys) alpha)"
proof -
  let ?a = "alpha[0 := map Fin xs ! (target ! 0)]"
  let ?fr = "fa_frame comb T N L target (map Fin xs) (trans_stay N L target (map Fin ys)) (trans_move N L target (map Fin ys))"
  have T: "0 < T" using L by simp
  have "target ! 0 < length xs" using row_bound [OF T target [OF L(1)]] len(1) by simp
  moreover have "0 < length alpha" using L T by (metis nat_0_less_mult_iff less_le_trans)
  ultimately have "?a ! (s * L + i) = (if s \<le> 0 \<and> band T L s i
      then Fin (align_forward agg (pos_emission N target xs) (pos_transition N target ys) s i) else alpha ! (s * L + i))" if "i < L" for s i
    using L that by (auto simp: band_def pos_emission_def emission_def nth_list_update)
  then have "band_ok agg T N L target xs ys alpha 0 ?a" by (simp add: band_ok_def)
  then have "t < T \<Longrightarrow> band_ok agg T N L target xs ys alpha t (fold ?fr [1..<Suc t] ?a)" for t
  proof (induction t)
    case (Suc t)
    then show ?case using fa_frame_ok [of comb agg, OF comb Suc.prems(1) L target len] by simp
  qed simp
  from this [of "T - 1"] show ?thesis using T by (simp add: fa_table_def)
qed

lemma band_last: "0 < L \<Longrightarrow> L \<le> T \<Longrightarrow> band T L (T - 1) (L - 1)"
  by (auto simp: band_def)

lemma ln_exp_add: "ln (exp a + exp b) = b + ln (1 + exp (a - b))" for a b :: real
proof -
  have "exp a + exp b = exp b * (1 + exp (a - b))" by (simp add: algebra_simps flip: exp_add)
  moreover have "0 < 1 + exp (a - b)" by (simp add: add_pos_pos)
  ultimately show ?thesis by (simp add: ln_mult_pos)
qed

lemma lse_cell_Fin: "lse_cell (Fin a) (Fin b) (Fin e) = Fin (log_sum_exp [a, b] + e)"
proof -
  have "exp x \<noteq> (- 1::real)" "(- 1::real) < exp x" for x using exp_gt_zero [of x] by linarith+
  then show ?thesis using ln_exp_add [of a b] ln_exp_add [of b a]
    by (simp add: lse_cell_def log_sum_exp_def minus_dbl_def add.commute)
qed

lemma max_cell_Fin: "max_cell (Fin a) (Fin b) (Fin e) = Fin (maximum [a, b] + e)"
  by (auto simp: max_cell_def fmax_def dmax_def maximum_def)

subsection \<open>The loss sums over all alignments\<close>

lemma fa_forward_one_sum:
  assumes L: "0 < L" "L \<le> T" "T * L \<le> length alpha" and target: "\<And>j. j < L \<Longrightarrow> target ! j < N"
    and len: "length xs = T * N" "length ys = N * N"
  shows "fa_forward_one T N L scale target (map Fin xs) (map Fin ys) alpha =
    Fin (scale * ln (\<Sum>p\<leftarrow>aligns_to (T - 1) (L - 1). exp (list_score (pos_emission N target xs) (pos_transition N target ys) p)))"
proof -
  have "T * L - 1 = (T - 1) * L + (L - 1)" using L by (cases T) auto
  then have "fa_table lse_cell T N L target (map Fin xs) (map Fin ys) alpha ! (T * L - 1) =
      Fin (align_forward log_sum_exp (pos_emission N target xs) (pos_transition N target ys) (T - 1) (L - 1))"
    using band_okD [OF fa_table_ok [of lse_cell log_sum_exp, OF lse_cell_Fin L target len] _ _ _ band_last [OF L(1,2)]] L by simp
  also have "\<dots> = Fin (log_sum_exp (map (list_score (pos_emission N target xs) (pos_transition N target ys)) (aligns_to (T - 1) (L - 1))))"
    using L by (subst lse.align_forward_aligns) auto
  finally show ?thesis by (simp add: fa_forward_one_def log_sum_exp_def comp_def mult.commute)
qed

subsection \<open>The path is a best alignment\<close>

lemma cleared_NInf: "length (fold (\<lambda>i a. a[i := v]) [0..<n] alpha) = length alpha \<and>
    (\<forall>k<n. k < length alpha \<longrightarrow> fold (\<lambda>i a. a[i := v]) [0..<n] alpha ! k = v)"
  by (induction n) (auto simp: nth_list_update less_Suc_eq)

lemma maximum_pair: "maximum [a, b] = (if b > a then b else a)"
  by (auto simp: maximum_def)

lemma fa_back_best:
  assumes ok: "band_ok maximum T N L target xs ys alpha0 (T - 1) alpha" and clear: "\<And>k. k < T * L \<Longrightarrow> alpha0 ! k = NInf"
    and target: "\<And>j. j < L \<Longrightarrow> target ! j < N" and len: "length ys = N * N"
  shows "t < T \<Longrightarrow> band T L t i \<Longrightarrow>
    \<exists>p \<in> set (aligns_to t i). fa_back L target (trans_stay N L target (map Fin ys)) (trans_move N L target (map Fin ys)) alpha t i path =
        map ((!) target) p @ path \<and>
      list_score (pos_emission N target xs) (pos_transition N target ys) p =
        align_forward maximum (pos_emission N target xs) (pos_transition N target ys) t i"
proof (induction t arbitrary: i path)
  case 0
  then show ?case by (simp add: band_def list_score_def)
next
  case (Suc t)
  let ?f = "align_forward maximum (pos_emission N target xs) (pos_transition N target ys)"
  let ?stay = "trans_stay N L target (map Fin ys)" and ?move = "trans_move N L target (map Fin ys)"
  let ?down = "i > 0 \<and> alpha ! (t * L + (i - 1)) + ?move ! i > alpha ! (t * L + i) + ?stay ! i"
  define j where "j = (if ?down then i - 1 else i)"
  have i: "i < L" "i \<le> Suc t" using Suc.prems by (simp_all add: band_def)
  note tr = trans_nth [OF i(1) target len]
  have above: "alpha ! (t * L + i) = (if i = Suc t then NInf else Fin (?f t i))"
  proof (cases "i = Suc t")
    case True
    then have "\<not> band T L t i" by (simp add: band_def)
    moreover have "t < T" using Suc.prems(1) by simp
    ultimately have "alpha ! (t * L + i) = alpha0 ! (t * L + i)" using ok i(1) unfolding band_ok_def by presburger
    then show ?thesis using clear [OF row_bound [OF \<open>t < T\<close> i(1)]] True by (simp only: if_True refl)
  next
    case False
    then have "band T L t i" using Suc.prems i by (auto simp: band_def)
    then show ?thesis using band_okD [OF ok, of t i] Suc.prems(1) i False by simp
  qed
  have below: "alpha ! (t * L + (i - 1)) = Fin (?f t (i - 1))" if "0 < i"
  proof -
    have "band T L t (i - 1)" "i - 1 < L" "t \<le> T - 1" "t < T" using Suc.prems i that by (auto simp: band_def)
    then show ?thesis using band_okD [OF ok, of t "i - 1"] by (simp only:)
  qed
  have step: "?f (Suc t) i = ?f t j + pos_transition N target ys i j + pos_emission N target xs (Suc t) i"
    and j: "band T L t j" "i = j \<or> i = Suc j"
  proof -
    consider "i = 0" | "0 < i" "i = Suc t" | "0 < i" "i \<noteq> Suc t" by blast
    then have "?f (Suc t) i = ?f t j + pos_transition N target ys i j + pos_emission N target xs (Suc t) i \<and> (i = Suc t \<longrightarrow> j = t)"
      using tr above below by cases (auto simp: j_def maximum_pair)
    moreover show "i = j \<or> i = Suc j" by (auto simp: j_def)
    ultimately show "?f (Suc t) i = ?f t j + pos_transition N target ys i j + pos_emission N target xs (Suc t) i" "band T L t j"
      using Suc.prems i by (auto simp: band_def)
  qed
  have t: "t < T" using Suc.prems(1) by simp
  from Suc.IH [OF t j(1), of "target ! i # path"] obtain p where
    p: "p \<in> set (aligns_to t j)" "fa_back L target ?stay ?move alpha t j (target ! i # path) = map ((!) target) p @ target ! i # path"
      "list_score (pos_emission N target xs) (pos_transition N target ys) p = ?f t j" by blast
  have l: "length p = Suc t" "last p = j" using p(1) by (simp_all add: aligns_to_set)
  have "p @ [i] \<in> set (aligns_to (Suc t) i)" using p(1) j(2) by auto
  moreover have "fa_back L target ?stay ?move alpha (Suc t) i path = map ((!) target) (p @ [i]) @ path"
    using p(2) unfolding fa_back.simps Let_def j_def by simp
  moreover have "list_score (pos_emission N target xs) (pos_transition N target ys) (p @ [i]) = ?f (Suc t) i"
    unfolding list_score_snoc [OF l(1)] l(2) p(3) step ..
  ultimately show ?case by blast
qed

text \<open>An alignment of \<open>T\<close> frames with the first \<open>L\<close> labels of a target that no other alignment beats.\<close>

definition optimal_alignment :: "nat \<Rightarrow> nat \<Rightarrow> nat \<Rightarrow> nat list \<Rightarrow> real list \<Rightarrow> real list \<Rightarrow> nat list \<Rightarrow> bool" where
  "optimal_alignment T N L target xs ys p \<longleftrightarrow> p \<in> set (aligns_to (T - 1) (L - 1)) \<and>
     (\<forall>q \<in> set (aligns_to (T - 1) (L - 1)). list_score (pos_emission N target xs) (pos_transition N target ys) q \<le>
        list_score (pos_emission N target xs) (pos_transition N target ys) p)"

lemma fa_viterbi_one_optimal:
  assumes L: "0 < L" "L \<le> T" "T * L \<le> length alpha" and target: "\<And>j. j < L \<Longrightarrow> target ! j < N"
    and len: "length xs = T * N" "length ys = N * N"
  shows "\<exists>p. fa_viterbi_one T N L target (map Fin xs) (map Fin ys) alpha = map ((!) target) p \<and> optimal_alignment T N L target xs ys p"
proof -
  let ?c = "fold (\<lambda>i a. a[i := NInf]) [0..<L * T] alpha"
  have c: "length ?c = length alpha" "\<And>k. k < T * L \<Longrightarrow> ?c ! k = NInf"
    using cleared_NInf [of NInf "L * T" alpha] L(3) by (auto simp: mult.commute)
  have "T * L \<le> length ?c" using L(3) c(1) by simp
  note table = fa_table_ok [of max_cell maximum, OF max_cell_Fin L(1,2) this target len]
  obtain p where p: "p \<in> set (aligns_to (T - 1) (L - 1))"
      "fa_viterbi_one T N L target (map Fin xs) (map Fin ys) alpha = map ((!) target) p"
      "list_score (pos_emission N target xs) (pos_transition N target ys) p =
        align_forward maximum (pos_emission N target xs) (pos_transition N target ys) (T - 1) (L - 1)"
    using fa_back_best [OF table c(2) target len(2) _ band_last [OF L(1,2)], of "[]"] L by (auto simp: fa_viterbi_one_def)
  have "\<forall>q \<in> set (aligns_to (T - 1) (L - 1)). list_score (pos_emission N target xs) (pos_transition N target ys) q \<le>
      align_forward maximum (pos_emission N target xs) (pos_transition N target ys) (T - 1) (L - 1)"
    using L by (subst mx.align_forward_aligns) (auto simp: maximum_def)
  then show ?thesis using p by (auto simp: optimal_alignment_def)
qed

text \<open>
  C17. The forward pass of the forced alignment sums over all alignments: with finite scores and a target of at
  least one and at most \<open>T\<close> labels, whatever the workspace holds, the loss of a batch element is the scale of
  the chosen mode times the logarithm of the sum, over all alignments of the frames with the target, of
  the exponential of their score (emissions plus transitions, staying on a label included).
\<close>

theorem force_alignment_loss:
  assumes "length xs = B * (T * N)" "length ys = N * N" "length alpha = B * (T * L0)" "b < B"
    and "0 < targetSize ! b" "targetSize ! b \<le> T" "targetSize ! b \<le> L0"
    and "\<And>j. j < targetSize ! b \<Longrightarrow> slice L0 b target ! j < N"
  shows "fa_forward B T N L0 scaleMode (map Fin xs) target targetSize (map Fin ys) alpha ! b =
    Fin (computeScale (int T) scaleMode (int (targetSize ! b)) *
      ln (\<Sum>p\<leftarrow>aligns_to (T - 1) (targetSize ! b - 1).
        exp (list_score (pos_emission N (slice L0 b target) (slice (T * N) b xs)) (pos_transition N (slice L0 b target) ys) p)))"
proof -
  have "T * (targetSize ! b) \<le> length (slice (T * L0) b alpha)" using length_slice [OF assms(3,4)] assms(7) by simp
  from fa_forward_one_sum [OF assms(5,6) this assms(8) length_slice [OF assms(1,4)] assms(2)]
  show ?thesis using assms(4) by (simp add: fa_forward_def slice_map)
qed

theorem force_alignment_loss_witness:
  "fa_forward 1 3 2 2 NONE (map Fin [0, 0, 0, 0, 0, 0]) [0, 1] [2] (map Fin [0, 0, 0, 0]) (replicate 6 0) ! 0 = Fin (ln 2)"
proof -
  have "slice 2 0 [0, 1::nat] ! j < 2" if "j < 2" for j using that by (cases j) (auto simp: slice_def)
  moreover have "aligns_to 2 1 = [[0, 1, 1], [0, 0, 1]]" by (simp add: numeral_2_eq_2)
  ultimately show ?thesis
    using force_alignment_loss [of "[0, 0, 0, 0, 0, 0]" 1 3 2 "[0, 0, 0, 0]" "replicate 6 0" 2 0 "[2]" "[0, 1]" NONE]
    by (simp add: computeScale_def slice_def list_score_def pos_emission_def pos_transition_def emission_def transition_def numeral_2_eq_2)
qed

text \<open>
  C15. The best path of the forced alignment is optimal: with finite scores and targets of at least one and at most \<open>T\<close>
  labels, whatever the workspace holds, the output of every batch element reads the labels of its target along
  an alignment that starts at the first label, ends at the last, stays or moves on by one in every frame, and
  whose score is at least that of every other alignment.
\<close>

theorem force_alignment_viterbi:
  assumes len: "length xs = B * (T * N)" "length ys = N * N" "length alpha = B * (T * L0)" and b: "b < B"
    and size: "\<And>b. b < B \<Longrightarrow> 0 < targetSize ! b \<and> targetSize ! b \<le> T \<and> targetSize ! b \<le> L0"
    and target: "\<And>b j. b < B \<Longrightarrow> j < targetSize ! b \<Longrightarrow> slice L0 b target ! j < N"
  shows "\<exists>p. slice T b (fa_viterbi B T N L0 (map Fin xs) target targetSize (map Fin ys) alpha) = map ((!) (slice L0 b target)) p \<and>
    optimal_alignment T N (targetSize ! b) (slice L0 b target) (slice (T * N) b xs) ys p"
proof -
  let ?f = "\<lambda>b. fa_viterbi_one T N (targetSize ! b) (slice L0 b target) (slice (T * N) b (map Fin xs)) (map Fin ys) (slice (T * L0) b alpha)"
  have one: "\<exists>p. ?f b = map ((!) (slice L0 b target)) p \<and> optimal_alignment T N (targetSize ! b) (slice L0 b target) (slice (T * N) b xs) ys p" if b: "b < B" for b
  proof -
    have "T * (targetSize ! b) \<le> length (slice (T * L0) b alpha)" using length_slice [OF len(3) b] size [OF b] by simp
    then show ?thesis unfolding slice_map
      using size [OF b] target [OF b] by (intro fa_viterbi_one_optimal length_slice [OF len(1) b] len(2)) auto
  qed
  have "length (?f b) = T" if "b < B" for b
  proof -
    have "0 < T" using size [OF that] by auto
    then show ?thesis using one [OF that] by (auto simp: optimal_alignment_def aligns_to_set)
  qed
  from slice_concat [of B ?f, OF this b] show ?thesis using one [OF b] by (simp add: fa_viterbi_def)
qed

theorem force_alignment_viterbi_witness:
  "\<exists>p. slice 3 0 (fa_viterbi 1 3 2 2 (map Fin [1, 0, 0, 1, 0, 1]) [0, 1] [2] (map Fin [0, 0, 0, 0]) (replicate 6 0)) = map ((!) [0, 1]) p \<and>
     list_score (pos_emission 2 [0, 1] [1, 0, 0, 1, 0, 1]) (pos_transition 2 [0, 1] [0, 0, 0, 0]) [0, 1, 1] \<le>
     list_score (pos_emission 2 [0, 1] [1, 0, 0, 1, 0, 1]) (pos_transition 2 [0, 1] [0, 0, 0, 0]) p"
proof -
  have s: "slice 2 0 [0, 1::nat] = [0, 1]" "slice (3 * 2) 0 [1, 0, 0, 1, 0, 1::real] = [1, 0, 0, 1, 0, 1]" by (simp_all add: slice_def)
  have "[0, 1::nat] ! j < 2" if "j < 2" for j using that by (cases j) auto
  then have "\<exists>p. slice 3 0 (fa_viterbi 1 3 2 2 (map Fin [1, 0, 0, 1, 0, 1]) [0, 1] [2] (map Fin [0, 0, 0, 0]) (replicate 6 0)) = map ((!) [0, 1]) p \<and>
      optimal_alignment 3 2 2 [0, 1] [1, 0, 0, 1, 0, 1] [0, 0, 0, 0] p"
    using force_alignment_viterbi [of "[1, 0, 0, 1, 0, 1]" 1 3 2 "[0, 0, 0, 0]" "replicate 6 0" 2 0 "[2]" "[0, 1]"] s by simp
  moreover have "[0, 1, 1] \<in> set (aligns_to 2 1)" by (simp add: numeral_2_eq_2)
  ultimately show ?thesis by (auto simp: optimal_alignment_def)
qed

end
