(* ===== verification/CtcCriterion.thy ===== *)
theory CtcCriterion
  imports ForceAlignment
begin

section \<open>The CTC criterion (\<^verbatim>\<open>lib/sequence/criterion/cpu/ConnectionistTemporalClassificationCriterion.cpp\<close>)\<close>

text \<open>
  The best path of connectionist temporal classification: a sequence of labels that gives the target when repeated labels are
  merged and blanks, the label \<open>N - 1\<close>, removed. \<^verbatim>\<open>setup_labels\<close> puts blanks around the labels of the target and computes by how much the
  first and the last useful position grow in each frame; \<^verbatim>\<open>compute_alphas\<close> fills the table within these bounds and follows the back
  pointers. The arrays of the workspace have arbitrary contents at the start. The last step of the back-trace reads a
  back pointer of frame 0, which is not set, and does not use it; the model leaves out that read. It is meant for targets of at least one
  label: for an empty one the code reads before the arrays.
\<close>

type_synonym ctc_setup = "nat list \<times> nat \<times> nat list \<times> nat \<times> nat"

definition label_step :: "nat list \<Rightarrow> nat \<Rightarrow> ctc_setup \<Rightarrow> ctc_setup" where
  "label_step labels i = (\<lambda>(s_inc, s_counter, e_inc, e_counter, repeats).
     if labels ! (i - 1) = labels ! i
     then (s_inc[s_counter := 1, s_counter + 1 := 1], s_counter + 2, e_inc[e_counter := 1, e_counter + 1 := 1], e_counter + 2, repeats + 1)
     else (s_inc[s_counter := 2], s_counter + 1, e_inc[e_counter := 2], e_counter + 1, repeats))"

definition setup_labels :: "nat list \<Rightarrow> nat list \<Rightarrow> nat list \<Rightarrow> nat list \<Rightarrow> nat \<Rightarrow> nat \<Rightarrow> nat \<Rightarrow>
    nat \<times> nat list \<times> nat list \<times> nat list" where
  "setup_labels labels s_inc e_inc labels_w_blanks blank_label L S =
     (let (s_inc', s_counter, e_inc', e_counter, repeats) = fold (label_step labels) [1..<L] (s_inc[0 := 1], 1, e_inc, 0, 0);
          e_inc'' = e_inc'[e_counter := 1];
          w = fold (\<lambda>i w. w[2 * i := blank_label, 2 * i + 1 := labels ! i]) [0..<L] labels_w_blanks
      in (repeats, s_inc', e_inc'', w[S - 1 := blank_label]))"

text \<open>The choice between staying, moving on by one and skipping a blank; a draw between the last two goes to the first.\<close>

definition ctc_choose :: "dbl \<Rightarrow> dbl \<Rightarrow> dbl \<Rightarrow> dbl \<times> nat" where
  "ctc_choose x0 x1 x2 =
     (if x2 > x1 \<and> x2 > x0 then (x2, 2) else if x1 > x0 \<and> x1 > x2 then (x1, 1) else (x0, 0))"

definition ctc_cell :: "nat \<Rightarrow> nat \<Rightarrow> nat list \<Rightarrow> dbl list \<Rightarrow> nat \<Rightarrow> nat \<Rightarrow> dbl list \<times> nat list \<Rightarrow> dbl list \<times> nat list" where
  "ctc_cell S N labels input t i = (\<lambda>(alphas, backptr).
     let idx1 = t * S; idx2 = (t - 1) * S; idx3 = t * N;
         x0 = alphas ! (i + idx2);
         x1 = alphas ! ((i - 1) + idx2);
         x2 = (if labels ! i \<noteq> N - 1 \<and> i \<noteq> 1 \<and> labels ! i \<noteq> labels ! (i - 2) then alphas ! ((i - 2) + idx2) else NInf);
         (result, bp) = ctc_choose x0 x1 x2
     in (alphas[i + idx1 := result + input ! (labels ! i + idx3)], backptr[i + idx1 := bp]))"

type_synonym ctc_state = "nat \<times> nat \<times> dbl list \<times> nat list"

definition ctc_frame :: "nat \<Rightarrow> nat \<Rightarrow> nat \<Rightarrow> nat \<Rightarrow> nat list \<Rightarrow> nat list \<Rightarrow> nat list \<Rightarrow> dbl list \<Rightarrow> nat \<Rightarrow> ctc_state \<Rightarrow> ctc_state" where
  "ctc_frame repeats S T N e_inc s_inc labels input t = (\<lambda>(start, stop, alphas, backptr).
     let remain = int (S div 2) + int repeats - (int T - int t);
         start' = (if remain \<ge> 0 then start + s_inc ! nat remain else start);
         stop' = (if t \<le> S div 2 + repeats then stop + e_inc ! (t - 1) else stop);
         (startloop, alphas', backptr') =
           (if start' = 0
            then (1, alphas[t * S := alphas ! ((t - 1) * S) + input ! ((N - 1) + t * N)], backptr[t * S := 0])
            else (start', alphas, backptr));
         (alphas'', backptr'') = fold (ctc_cell S N labels input t) [startloop..<stop'] (alphas', backptr')
     in (start', stop', alphas'', backptr''))"

definition ctc_table :: "nat \<Rightarrow> nat \<Rightarrow> nat \<Rightarrow> nat \<Rightarrow> nat list \<Rightarrow> nat list \<Rightarrow> nat list \<Rightarrow> dbl list \<Rightarrow> dbl list \<Rightarrow> nat list \<Rightarrow> ctc_state" where
  "ctc_table repeats S T N e_inc s_inc labels input alphas backptr =
     (let start = (if int (S div 2) + int repeats - int T < 0 then 0 else 1);
          stop = (if S > 1 then 2 else 1);
          cleared = fold (\<lambda>i a. a[i := NInf]) [0..<S * T] alphas;
          alphas0 = fold (\<lambda>i a. a[i := input ! (labels ! i)]) [start..<stop] cleared
      in fold (ctc_frame repeats S T N e_inc s_inc labels input) [1..<T] (start, stop, alphas0, backptr))"

fun ctc_back :: "nat \<Rightarrow> nat list \<Rightarrow> nat list \<Rightarrow> nat \<Rightarrow> nat \<Rightarrow> nat list \<Rightarrow> nat list" where
  "ctc_back S labels backptr 0 ltrIdx path = labels ! ltrIdx # path"
| "ctc_back S labels backptr (Suc t) ltrIdx path =
     ctc_back S labels backptr t (ltrIdx - backptr ! (Suc t * S + ltrIdx)) (labels ! ltrIdx # path)"

definition compute_alphas :: "dbl list \<Rightarrow> nat \<Rightarrow> nat \<Rightarrow> nat \<Rightarrow> nat \<Rightarrow> nat list \<Rightarrow> nat list \<Rightarrow> nat list \<Rightarrow> dbl list \<Rightarrow> nat list \<Rightarrow> nat list" where
  "compute_alphas input repeats S T N e_inc s_inc labels alphas backptr =
     (let (start, stop, alphas', backptr') = ctc_table repeats S T N e_inc s_inc labels input alphas backptr;
          ltrIdx = (if alphas' ! (T * S - 1) > alphas' ! (T * S - 2) then S - 1 else S - 2)
      in ctc_back S labels backptr' (T - 1) ltrIdx [])"

text \<open>One element of the batch: the slices of the workspace have the size for \<^verbatim>\<open>_L\<close> labels.\<close>

record ctc_workspace =
  ws_alpha :: "dbl list"
  ws_s_inc :: "nat list"
  ws_e_inc :: "nat list"
  ws_backptr :: "nat list"
  ws_labels :: "nat list"

definition ctc_viterbi_one :: "nat \<Rightarrow> nat \<Rightarrow> nat \<Rightarrow> nat list \<Rightarrow> dbl list \<Rightarrow> ctc_workspace \<Rightarrow> nat list" where
  "ctc_viterbi_one T N L target input ws =
     (let S = 2 * L + 1;
          (repeats, s_inc, e_inc, labels) = setup_labels target (ws_s_inc ws) (ws_e_inc ws) (ws_labels ws) (N - 1) L S
      in compute_alphas input repeats S T N e_inc s_inc labels (ws_alpha ws) (ws_backptr ws))"

definition ctc_slice :: "nat \<Rightarrow> nat \<Rightarrow> nat \<Rightarrow> ctc_workspace \<Rightarrow> ctc_workspace" where
  "ctc_slice S0 T b ws = \<lparr>ws_alpha = slice (S0 * T) b (ws_alpha ws), ws_s_inc = slice S0 b (ws_s_inc ws), ws_e_inc = slice S0 b (ws_e_inc ws),
     ws_backptr = slice (S0 * T) b (ws_backptr ws), ws_labels = slice S0 b (ws_labels ws)\<rparr>"

definition ctc_viterbi :: "nat \<Rightarrow> nat \<Rightarrow> nat \<Rightarrow> nat \<Rightarrow> dbl list \<Rightarrow> nat list \<Rightarrow> nat list \<Rightarrow> ctc_workspace \<Rightarrow> nat list" where
  "ctc_viterbi B T N L0 input target targetSize ws =
     concat (map (\<lambda>b. ctc_viterbi_one T N (targetSize ! b) (slice L0 b target) (slice (T * N) b input) (ctc_slice (2 * L0 + 1) T b ws)) [0..<B])"

subsection \<open>The arrays of \<^verbatim>\<open>setup_labels\<close>\<close>

text \<open>An array that begins with the given values.\<close>

definition begins :: "'a list \<Rightarrow> 'a list \<Rightarrow> bool" where
  "begins arr xs \<longleftrightarrow> (\<exists>ys. arr = xs @ ys)"

lemma begins_put: "begins arr xs \<Longrightarrow> length xs < length arr \<Longrightarrow> begins (arr[length xs := v]) (xs @ [v])"
  unfolding begins_def by (metis append.assoc append_Cons append_Nil append_Nil2 length_append_singleton less_irrefl list.exhaust list_update_length)

lemma begins_nth: "begins arr xs \<Longrightarrow> i < length xs \<Longrightarrow> arr ! i = xs ! i"
  by (auto simp: begins_def nth_append)

fun incs :: "nat list \<Rightarrow> nat list" where
  "incs (a # b # ys) = (if a = b then [1, 1] else [2]) @ incs (b # ys)"
| "incs ys = []"

fun reps :: "nat list \<Rightarrow> nat" where
  "reps (a # b # ys) = (if a = b then 1 else 0) + reps (b # ys)"
| "reps ys = 0"

lemma length_incs: "ys \<noteq> [] \<Longrightarrow> length (incs ys) + 1 = length ys + reps ys"
  by (induction ys rule: incs.induct) auto

lemma reps_less: "ys \<noteq> [] \<Longrightarrow> reps ys < length ys"
  by (induction ys rule: incs.induct) auto

lemma incs_snoc: "ys \<noteq> [] \<Longrightarrow> incs (ys @ [y]) = incs ys @ (if last ys = y then [1, 1] else [2]) \<and> reps (ys @ [y]) = reps ys + (if last ys = y then 1 else 0)"
  by (induction ys rule: incs.induct) auto

lemma label_steps:
  assumes "0 < k" "k \<le> L" "L \<le> length labels" "2 * L + 1 \<le> length s0" "2 * L + 1 \<le> length e0"
  shows "\<exists>s e. fold (label_step labels) [1..<k] (s0[0 := 1], 1, e0, 0, 0) =
    (s, Suc (length (incs (take k labels))), e, length (incs (take k labels)), reps (take k labels)) \<and>
    length s = length s0 \<and> length e = length e0 \<and> begins s (1 # incs (take k labels)) \<and> begins e (incs (take k labels))"
  using assms(1,2)
proof (induction k)
  case (Suc k)
  show ?case
  proof (cases "k = 0")
    case True
    obtain z zs where "s0 = z # zs" using assms(4) by (cases s0) auto
    moreover have "incs (take 1 labels) = []" "reps (take 1 labels) = 0" by (cases labels; simp)+
    ultimately show ?thesis using True by (simp add: begins_def)
  next
    case False
    let ?xs = "incs (take k labels)"
    obtain s e where IH: "fold (label_step labels) [1..<k] (s0[0 := 1], 1, e0, 0, 0) = (s, Suc (length ?xs), e, length ?xs, reps (take k labels))"
        "length s = length s0" "length e = length e0" "begins s (1 # ?xs)" "begins e ?xs"
      using Suc False by auto
    have k: "k < length labels" using Suc.prems assms(3) by simp
    have ne: "take k labels \<noteq> []" using False k by auto
    then have tk: "take k labels \<noteq> []" "last (take k labels) = labels ! (k - 1)" "take (Suc k) labels = take k labels @ [labels ! k]"
      using False k last_conv_nth [OF ne] by (simp_all add: take_Suc_conv_app_nth)
    have len: "length ?xs + 1 = k + reps (take k labels)" "reps (take k labels) < k"
      using length_incs [OF tk(1)] reps_less [OF tk(1)] k by simp_all
    then have room: "length ?xs + 2 < 2 * L + 1" using Suc.prems by linarith
    have up: "fold (label_step labels) [1..<Suc k] (s0[0 := 1], 1, e0, 0, 0) = label_step labels k (s, Suc (length ?xs), e, length ?xs, reps (take k labels))"
      using False IH(1) by simp
    show ?thesis
    proof (cases "labels ! (k - 1) = labels ! k")
      case True
      have xs: "incs (take (Suc k) labels) = ?xs @ [1, 1]" "reps (take (Suc k) labels) = Suc (reps (take k labels))"
        using incs_snoc [OF tk(1), of "labels ! k"] tk True by simp_all
      have "begins (s[Suc (length ?xs) := 1]) (1 # ?xs @ [1])" "begins (e[length ?xs := 1]) (?xs @ [1])"
        using begins_put [OF IH(4), of 1] begins_put [OF IH(5), of 1] IH(2,3) assms(4,5) room by simp_all
      then have "begins (s[Suc (length ?xs) := 1, Suc (Suc (length ?xs)) := 1]) (1 # ?xs @ [1, 1])"
        "begins (e[length ?xs := 1, Suc (length ?xs) := 1]) (?xs @ [1, 1])"
        using begins_put [of "s[Suc (length ?xs) := 1]" "1 # ?xs @ [1]" 1] begins_put [of "e[length ?xs := 1]" "?xs @ [1]" 1]
          IH(2,3) assms(4,5) room by simp_all
      then show ?thesis unfolding up xs using True IH(2,3) by (simp add: label_step_def)
    next
      case False
      have xs: "incs (take (Suc k) labels) = ?xs @ [2]" "reps (take (Suc k) labels) = reps (take k labels)"
        using incs_snoc [OF tk(1), of "labels ! k"] tk False by simp_all
      have "begins (s[Suc (length ?xs) := 2]) (1 # ?xs @ [2])" "begins (e[length ?xs := 2]) (?xs @ [2])"
        using begins_put [OF IH(4), of 2] begins_put [OF IH(5), of 2] IH(2,3) assms(4,5) room by simp_all
      then show ?thesis unfolding up xs using False IH(2,3) by (simp add: label_step_def)
    qed
  qed
qed simp

end
