(* ===== verification/CtcTheorems.thy ===== *)
theory CtcTheorems
  imports CtcCriterion
begin

section \<open>The best path of the CTC criterion\<close>

text \<open>
  The positions of the extended target, with blanks at the even positions, and the moves between them are shown to describe exactly the
  label sequences that collapse to the target. The greedy walk from position 1 gives the bounds the code keeps: its position after \<open>t\<close>
  moves is the last that can be reached, and delayed by the spare frames it is the first from which the end can be reached. Within the
  bounds the table holds the scores of walks, the best ones unless a draw was decided wrongly.
\<close>

subsection \<open>Sequences that collapse to the target\<close>

definition collapse :: "nat \<Rightarrow> nat list \<Rightarrow> nat list" where
  "collapse blank q = filter (\<lambda>x. x \<noteq> blank) (remdups_adj q)"

definition ext_label :: "nat \<Rightarrow> nat list \<Rightarrow> nat \<Rightarrow> nat" where
  "ext_label blank y i = (if even i then blank else y ! (i div 2))"

definition ctc_edge :: "nat list \<Rightarrow> nat \<Rightarrow> nat \<Rightarrow> bool" where
  "ctc_edge y j i \<longleftrightarrow> i = j \<or> i = Suc j \<or> i = Suc (Suc j) \<and> odd j \<and> i div 2 < length y \<and> y ! (i div 2) \<noteq> y ! (j div 2)"

text \<open>Walks from one of the first two positions, and those that end in one of the last two.\<close>

definition ctc_walk :: "nat list \<Rightarrow> nat list \<Rightarrow> bool" where
  "ctc_walk y p \<longleftrightarrow> p \<noteq> [] \<and> p ! 0 \<le> 1 \<and> set p \<subseteq> {..2 * length y} \<and> (\<forall>t. Suc t < length p \<longrightarrow> ctc_edge y (p ! t) (p ! Suc t))"

definition ctc_alignment :: "nat list \<Rightarrow> nat \<Rightarrow> nat list \<Rightarrow> bool" where
  "ctc_alignment y T p \<longleftrightarrow> ctc_walk y p \<and> length p = T \<and> 2 * length y - 1 \<le> last p"

lemma collapse_snoc:
  assumes "q \<noteq> []"
  shows "collapse b (q @ [x]) = collapse b q @ (if x = b \<or> last q = x then [] else [x])"
proof -
  obtain r z where q: "q = r @ [z]" using assms by (metis rev_exhaust)
  then show ?thesis using remdups_adj_append_two [of r z x] by (auto simp: collapse_def)
qed

lemma ctc_walk_snoc:
  "p \<noteq> [] \<Longrightarrow> ctc_walk y (p @ [i]) \<longleftrightarrow> ctc_walk y p \<and> i \<le> 2 * length y \<and> ctc_edge y (last p) i"
proof -
  assume p: "p \<noteq> []"
  have "(\<forall>t. Suc t < length (p @ [i]) \<longrightarrow> ctc_edge y ((p @ [i]) ! t) ((p @ [i]) ! Suc t)) \<longleftrightarrow>
      (\<forall>t. Suc t < length p \<longrightarrow> ctc_edge y (p ! t) (p ! Suc t)) \<and> ctc_edge y (p ! (length p - 1)) i"
    (is "?l = ?r")
  proof
    assume l: ?l
    have "ctc_edge y (p ! t) (p ! Suc t)" if "Suc t < length p" for t using l [rule_format, of t] that by (simp add: nth_append)
    moreover have "ctc_edge y (p ! (length p - 1)) i" using l [rule_format, of "length p - 1"] p by (simp add: nth_append)
    ultimately show ?r by blast
  next
    assume r: ?r
    show ?l
    proof (intro allI impI)
      fix t assume "Suc t < length (p @ [i])"
      then consider "Suc t < length p" | "t = length p - 1" "Suc t = length p" by fastforce
      then show "ctc_edge y ((p @ [i]) ! t) ((p @ [i]) ! Suc t)" using r by cases (auto simp: nth_append)
    qed
  qed
  then show ?thesis using p unfolding ctc_walk_def by (auto simp: nth_append last_conv_nth)
qed

lemma walk_collapse:
  assumes y: "b \<notin> set y" and w: "ctc_walk y p"
  shows "collapse b (map (ext_label b y) p) = take (Suc (last p) div 2) y"
  using w
proof (induction p rule: rev_induct)
  case (snoc i p)
  have nb: "y ! k \<noteq> b" if "k < length y" for k using y nth_mem [OF that] by auto
  show ?case
  proof (cases "p = []")
    case True
    then have i: "i = 0 \<or> i = 1 \<and> 0 < length y" using snoc.prems by (auto simp: ctc_walk_def)
    then show ?thesis using True nb [of 0] by (cases y) (auto simp: collapse_def ext_label_def)
  next
    case False
    let ?j = "last p"
    have IH: "collapse b (map (ext_label b y) p) = take (Suc ?j div 2) y" and i: "i \<le> 2 * length y" and e: "ctc_edge y ?j i"
      using snoc False by (simp_all add: ctc_walk_snoc)
    have c: "collapse b (map (ext_label b y) (p @ [i])) = take (Suc ?j div 2) y @
        (if ext_label b y i = b \<or> ext_label b y ?j = ext_label b y i then [] else [ext_label b y i])"
      using collapse_snoc [of "map (ext_label b y) p" b "ext_label b y i"] False IH by (simp add: last_map)
    have e0: "ext_label b y i = b" if "even i" for i using that by (simp add: ext_label_def)
    have e1: "ext_label b y i = y ! (i div 2)" if "odd i" for i using that by (simp add: ext_label_def)
    have odd: "i div 2 < length y" if "odd i" using that i by presburger
    consider "i = ?j" | "i = Suc ?j" "even i" | "i = Suc ?j" "odd i" | "i = Suc (Suc ?j)" "odd ?j" "y ! (i div 2) \<noteq> y ! (?j div 2)"
      using e by (auto simp: ctc_edge_def)
    then show ?thesis
    proof cases
      case 1
      then show ?thesis using c by simp
    next
      case 2
      then have "Suc i div 2 = Suc ?j div 2" by presburger
      then show ?thesis using c 2(2) by (simp add: e0)
    next
      case 3
      then have "Suc i div 2 = Suc (i div 2)" "Suc ?j div 2 = i div 2" "even ?j" by presburger+
      then show ?thesis using c 3(2) odd nb [of "i div 2"] e0 [of ?j] e1 [of i] by (auto simp: take_Suc_conv_app_nth)
    next
      case 4
      then have "Suc i div 2 = Suc (i div 2)" "Suc ?j div 2 = i div 2" "odd i" by presburger+
      then show ?thesis using c 4(2,3) odd nb [of "i div 2"] e1 [of ?j] e1 [of i] by (auto simp: take_Suc_conv_app_nth)
    qed
  qed
qed (simp add: ctc_walk_def)

text \<open>The position that a prefix of a sequence has reached.\<close>

definition reached :: "nat \<Rightarrow> nat list \<Rightarrow> nat" where
  "reached b q = (let k = length (collapse b q) in if last q = b then 2 * k else 2 * k - 1)"

lemma collapse_last:
  assumes "q \<noteq> []" "last q \<noteq> b"
  shows "collapse b q \<noteq> [] \<and> last (collapse b q) = last q"
proof -
  have "remdups_adj q \<noteq> []" "last (remdups_adj q) = last q" using assms(1) by (simp_all add: last_remdups_adj)
  then obtain r where "remdups_adj q = r @ [last q]" by (metis append_butlast_last_id)
  then show ?thesis using assms(2) by (simp add: collapse_def)
qed

lemma sequence_walk:
  assumes "q \<noteq> []" "collapse b q = take k y" "k \<le> length y" "b \<notin> set y"
  shows "\<exists>p. ctc_walk y p \<and> length p = length q \<and> last p = reached b q \<and> map (ext_label b y) p = q"
  using assms
proof (induction q arbitrary: k rule: rev_induct)
  case (snoc x q)
  show ?case
  proof (cases "q = []")
    case True
    show ?thesis
    proof (cases "x = b")
      case True
      then show ?thesis using \<open>q = []\<close> by (intro exI [of _ "[0]"]) (simp add: ctc_walk_def reached_def collapse_def ext_label_def)
    next
      case False
      then have "take k y = [x]" using snoc.prems(2) \<open>q = []\<close> by (simp add: collapse_def)
      then obtain ys where "y = x # ys" by (cases y; cases k) auto
      then show ?thesis using \<open>q = []\<close> False by (intro exI [of _ "[1]"]) (simp add: ctc_walk_def reached_def collapse_def ext_label_def)
    qed
  next
    case False
    let ?l = "length (collapse b q)"
    have c: "collapse b (q @ [x]) = collapse b q @ (if x = b \<or> last q = x then [] else [x])" by (rule collapse_snoc [OF False])
    then have pre: "take k y = collapse b q @ (if x = b \<or> last q = x then [] else [x])" using snoc.prems(2) by simp
    have l: "?l \<le> length y" "collapse b q = take ?l y" using arg_cong [OF pre, of length] arg_cong [OF pre, of "take ?l"] snoc.prems(3)
      by (auto simp: min_def split: if_splits)
    obtain p where p: "ctc_walk y p" "length p = length q" "last p = reached b q" "map (ext_label b y) p = q"
      using snoc.IH [OF False l(2,1) snoc.prems(4)] by blast
    have ne: "p \<noteq> []" using p(2) False by auto
    have lastq: "last q \<noteq> b \<Longrightarrow> 0 < ?l \<and> y ! (?l - 1) = last q"
    proof -
      assume "last q \<noteq> b"
      then have "collapse b q \<noteq> []" "last (collapse b q) = last q" using collapse_last [OF False] by auto
      then show ?thesis using l by (metis diff_less last_conv_nth length_greater_0_conv nth_take zero_less_one)
    qed
    have "reached b (q @ [x]) \<le> 2 * length y \<and> ctc_edge y (last p) (reached b (q @ [x])) \<and> ext_label b y (reached b (q @ [x])) = x"
    proof (cases "x = b")
      case True
      then have "reached b (q @ [x]) = 2 * ?l" using c by (simp add: reached_def)
      then show ?thesis using True l(1) p(3) lastq by (auto simp: reached_def ctc_edge_def ext_label_def Let_def)
    next
      case xb: False
      show ?thesis
      proof (cases "last q = x")
        case True
        then have "reached b (q @ [x]) = reached b q" "0 < ?l" "y ! (?l - 1) = x" using c xb lastq by (simp_all add: reached_def)
        moreover have "reached b q = 2 * ?l - 1" using True xb by (simp add: reached_def)
        moreover have "(2 * ?l - 1) div 2 = ?l - 1" "odd (2 * ?l - 1)" using \<open>0 < ?l\<close> by presburger+
        ultimately show ?thesis using l(1) p(3) by (simp add: ctc_edge_def ext_label_def)
      next
        case qx: False
        have r: "reached b (q @ [x]) = Suc (2 * ?l)" using c xb qx by (simp add: reached_def)
        have k: "take k y = collapse b q @ [x]" using pre xb qx by simp
        have "k = Suc ?l" using arg_cong [OF k, of length] snoc.prems(3) by simp
        then have "y ! ?l = (collapse b q @ [x]) ! ?l" unfolding k [symmetric] by simp
        then have lk: "?l < length y" "y ! ?l = x" using snoc.prems(3) \<open>k = Suc ?l\<close> by simp_all
        have "ctc_edge y (reached b q) (Suc (2 * ?l))"
        proof (cases "last q = b")
          case True
          then show ?thesis by (simp add: reached_def ctc_edge_def)
        next
          case False
          then obtain m where m: "?l = Suc m" "y ! m = last q" using lastq by (cases ?l) auto
          then have "reached b q = Suc (2 * m)" using False by (simp add: reached_def)
          then show ?thesis using lk qx m by (simp add: ctc_edge_def)
        qed
        then show ?thesis using lk p(3) by (simp add: r ext_label_def)
      qed
    qed
    then show ?thesis using p ne by (intro exI [of _ "p @ [reached b (q @ [x])]"]) (simp add: ctc_walk_snoc)
  qed
qed simp

lemma collapse_alignments:
  assumes y: "b \<notin> set y" "y \<noteq> []"
  shows "(\<exists>p. ctc_alignment y T p \<and> map (ext_label b y) p = q) \<longleftrightarrow> length q = T \<and> collapse b q = y"
proof
  assume "\<exists>p. ctc_alignment y T p \<and> map (ext_label b y) p = q"
  then obtain p where p: "ctc_walk y p" "length p = T" "2 * length y - 1 \<le> last p" "map (ext_label b y) p = q"
    by (auto simp: ctc_alignment_def)
  have "length y \<le> Suc (last p) div 2" using p(3) by linarith
  then show "length q = T \<and> collapse b q = y" using walk_collapse [OF y(1) p(1)] p(2) length_map [of "ext_label b y" p] unfolding p(4) by simp
next
  assume q: "length q = T \<and> collapse b q = y"
  then have ne: "q \<noteq> []" using y(2) by (auto simp: collapse_def)
  obtain p where p: "ctc_walk y p" "length p = length q" "last p = reached b q" "map (ext_label b y) p = q"
    using sequence_walk [OF ne, of b "length y" y] q y(1) by auto
  then show "\<exists>p. ctc_alignment y T p \<and> map (ext_label b y) p = q" using q by (intro exI [of _ p]) (auto simp: ctc_alignment_def reached_def Let_def)
qed

subsection \<open>The greedy walk\<close>

definition greedy :: "nat list \<Rightarrow> nat \<Rightarrow> nat" where
  "greedy y n = Suc (sum_list (take n (incs y @ [1])))"

text \<open>
  Each move of the greedy walk is the longest there is; it stops at a blank only between equal labels and behind the last label.
\<close>

lemma greedy_Cons:
  "greedy (a # b # y) (n + length (if a = b then [1, 1] else [2::nat])) = 2 + greedy (b # y) n"
  by (simp add: greedy_def)

definition greedy_move :: "nat list \<Rightarrow> nat \<Rightarrow> nat \<Rightarrow> bool" where
  "greedy_move y g g' \<longleftrightarrow>
     g' = g + 2 \<and> odd g \<and> Suc (g div 2) < length y \<and> y ! Suc (g div 2) \<noteq> y ! (g div 2) \<or>
     g' = g + 1 \<and> odd g \<and> (Suc (g div 2) < length y \<longrightarrow> y ! Suc (g div 2) = y ! (g div 2)) \<or>
     g' = g + 1 \<and> even g \<and> 2 \<le> g \<and> g div 2 < length y \<and> y ! (g div 2) = y ! (g div 2 - 1)"

lemma greedy_move_Cons: "greedy_move y g g' \<Longrightarrow> greedy_move (a # y) (g + 2) (g' + 2)"
  by (auto simp: greedy_move_def nth_Cons split: nat.splits)

lemma greedy_0: "greedy y 0 = 1"
  by (simp add: greedy_def)

lemma greedy_step: "y \<noteq> [] \<Longrightarrow> n \<le> length (incs y) \<Longrightarrow> greedy_move y (greedy y n) (greedy y (Suc n))"
proof (induction y arbitrary: n rule: incs.induct)
  case (1 a b y)
  let ?blk = "if a = b then [1, 1] else [2::nat]"
  show ?case
  proof (cases "length ?blk \<le> n")
    case True
    then obtain m where m: "n = m + length ?blk" by (metis le_add_diff_inverse2)
    then have "greedy_move (b # y) (greedy (b # y) m) (greedy (b # y) (Suc m))" using 1 by simp
    then have "greedy_move (a # b # y) (greedy (b # y) m + 2) (greedy (b # y) (Suc m) + 2)" by (rule greedy_move_Cons)
    moreover have "greedy (a # b # y) n = 2 + greedy (b # y) m" "greedy (a # b # y) (Suc n) = 2 + greedy (b # y) (Suc m)"
      using greedy_Cons [of a b y m] greedy_Cons [of a b y "Suc m"] unfolding m by simp_all
    ultimately show ?thesis by (simp add: add.commute)
  next
    case False
    then consider "n = 0" "a \<noteq> b" | "n = 0" "a = b" | "n = 1" "a = b" by (cases "a = b") (auto simp: le_Suc_eq numeral_2_eq_2 not_le less_Suc_eq)
    then show ?thesis by cases (simp_all add: greedy_def greedy_move_def)
  qed
qed (auto simp: greedy_def greedy_move_def)

lemma greedy_end: "y \<noteq> [] \<Longrightarrow> greedy y (length (incs y)) = 2 * length y - 1 \<and> greedy y (Suc (length (incs y))) = 2 * length y"
proof (induction y rule: incs.induct)
  case (1 a b y)
  then show ?case using greedy_Cons [of a b y "length (incs (b # y))"] greedy_Cons [of a b y "Suc (length (incs (b # y)))"] by (simp add: add.commute split: if_splits)
qed (auto simp: greedy_def)

subsection \<open>The band of useful positions\<close>

definition upper :: "nat list \<Rightarrow> nat \<Rightarrow> nat" where
  "upper y t = greedy y (min t (Suc (length (incs y))))"

definition lower :: "nat list \<Rightarrow> nat \<Rightarrow> nat \<Rightarrow> nat" where
  "lower y T t = (let d = T - Suc (length (incs y)) in if t < d then 0 else greedy y (t - d))"

definition in_band :: "nat list \<Rightarrow> nat \<Rightarrow> nat \<Rightarrow> nat \<Rightarrow> bool" where
  "in_band y T t i \<longleftrightarrow> lower y T t \<le> i \<and> i \<le> upper y t"

lemma greedy_move_less: "greedy_move y g g' \<Longrightarrow> g < g' \<and> g' \<le> g + 2"
  by (auto simp: greedy_move_def)

lemma greedy_mono: "m \<le> n \<Longrightarrow> greedy y m \<le> greedy y n"
proof -
  assume "m \<le> n"
  then obtain k where "n = m + k" by (metis le_add_diff_inverse)
  then show ?thesis unfolding greedy_def by (simp only: take_add sum_list_append)
qed

lemma upper_le: "y \<noteq> [] \<Longrightarrow> upper y t \<le> 2 * length y"
  unfolding upper_def using greedy_mono [of "min t (Suc (length (incs y)))" "Suc (length (incs y))" y] greedy_end [of y] by simp

lemma upper_step:
  assumes "y \<noteq> []"
  shows "upper y t = 2 * length y \<and> upper y (Suc t) = 2 * length y \<or> greedy_move y (upper y t) (upper y (Suc t))"
proof (cases "t \<le> length (incs y)")
  case True
  then show ?thesis using greedy_step [OF assms True] by (simp add: upper_def)
next
  case False
  then have "min t (Suc (length (incs y))) = Suc (length (incs y))" "min (Suc t) (Suc (length (incs y))) = Suc (length (incs y))" by simp_all
  then show ?thesis using greedy_end [OF assms] by (simp add: upper_def)
qed

lemma lower_step:
  assumes "y \<noteq> []" "Suc (length (incs y)) \<le> T" "Suc t < T"
  shows "lower y T t = 0 \<and> lower y T (Suc t) \<le> 1 \<or> greedy_move y (lower y T t) (lower y T (Suc t))"
proof (cases "t < T - Suc (length (incs y))")
  case True
  then show ?thesis using greedy_0 [of y] by (auto simp: lower_def Let_def less_Suc_eq)
next
  case False
  let ?n = "t - (T - Suc (length (incs y)))"
  have "Suc t - (T - Suc (length (incs y))) = Suc ?n" "?n \<le> length (incs y)" using False assms(2,3) by linarith+
  then show ?thesis using False greedy_step [OF assms(1), of ?n] by (simp add: lower_def Let_def)
qed

lemma lower_mono:
  assumes "y \<noteq> []" "Suc (length (incs y)) \<le> T" "Suc t < T"
  shows "lower y T t \<le> lower y T (Suc t)"
  using lower_step [OF assms] by (auto dest: greedy_move_less)

lemma lower_le_upper:
  assumes "Suc (length (incs y)) \<le> T" "t < T"
  shows "lower y T t \<le> upper y t"
proof -
  have "t - (T - Suc (length (incs y))) \<le> min t (Suc (length (incs y)))" using assms by linarith
  then show ?thesis using greedy_mono by (simp add: lower_def upper_def Let_def del: min.bounded_iff)
qed

lemma edge_upper:
  assumes y: "y \<noteq> []" and j: "j \<le> upper y t" and e: "ctc_edge y j i" and i: "i \<le> 2 * length y"
  shows "i \<le> upper y (Suc t)"
proof -
  let ?g = "upper y t" and ?g' = "upper y (Suc t)"
  consider "?g' = 2 * length y" | "greedy_move y ?g ?g'" using upper_step [OF y] by blast
  then show ?thesis
  proof cases
    case 2
    have "j \<noteq> ?g \<or> i \<noteq> Suc (Suc j)" if "?g' = ?g + 1"
      using 2 e that by (auto simp: greedy_move_def ctc_edge_def)
    moreover have "i \<le> Suc (Suc j)" using e by (auto simp: ctc_edge_def)
    ultimately show ?thesis using j greedy_move_less [OF 2] by linarith
  qed (use i in simp)
qed

lemma edge_lower:
  assumes y: "y \<noteq> []" and T: "Suc (length (incs y)) \<le> T" "Suc t < T" and e: "ctc_edge y j i" and i: "lower y T (Suc t) \<le> i"
  shows "lower y T t \<le> j"
proof (rule ccontr)
  let ?g = "lower y T t" and ?g' = "lower y T (Suc t)"
  assume j: "\<not> ?g \<le> j"
  then have "?g \<noteq> 0" by auto
  then have m: "greedy_move y ?g ?g'" using lower_step [OF y T] by simp
  have "i \<le> Suc (Suc j)" using e by (auto simp: ctc_edge_def)
  then have s: "?g = Suc j" "?g' = Suc ?g" "i = Suc (Suc j)" using i j greedy_move_less [OF m] by linarith+
  then have e': "odd j" "y ! (i div 2) \<noteq> y ! (j div 2)" using e by (auto simp: ctc_edge_def)
  then obtain m where "j = Suc (2 * m)" by (auto elim: oddE)
  then have "y ! Suc m = y ! m" using \<open>greedy_move y ?g ?g'\<close> unfolding s(1,2) by (auto simp: greedy_move_def)
  then show False using e'(2) \<open>j = Suc (2 * m)\<close> s(3) by simp
qed

lemma pred_exists:
  assumes y: "y \<noteq> []" and T: "Suc (length (incs y)) \<le> T" "Suc t < T" and i: "in_band y T (Suc t) i"
  shows "in_band y T t i \<or> 0 < i \<and> in_band y T t (i - 1) \<or> 2 \<le> i \<and> ctc_edge y (i - 2) i \<and> in_band y T t (i - 2)"
proof (cases "i \<le> upper y t")
  case True
  then show ?thesis using i lower_mono [OF y T] by (auto simp: in_band_def)
next
  case False
  have l: "lower y T t \<le> upper y t" using lower_le_upper T by simp
  have m: "greedy_move y (upper y t) (upper y (Suc t))" using upper_step [OF y, of t] False i by (auto simp: in_band_def)
  have "i \<le> upper y (Suc t)" using i by (simp add: in_band_def)
  then consider "i = Suc (upper y t)" | "i = upper y t + 2" "upper y (Suc t) = upper y t + 2" using False greedy_move_less [OF m] by linarith
  then show ?thesis
  proof cases
    case 1
    then show ?thesis using l by (simp add: in_band_def)
  next
    case 2
    then have "odd (upper y t)" "Suc (upper y t div 2) < length y" "y ! Suc (upper y t div 2) \<noteq> y ! (upper y t div 2)"
      using m unfolding greedy_move_def by linarith+
    then have "ctc_edge y (upper y t) i" using 2(1) by (simp add: ctc_edge_def)
    then show ?thesis using 2(1) l by (simp add: in_band_def)
  qed
qed

lemma no_gap:
  assumes y: "y \<noteq> []" and T: "Suc (length (incs y)) \<le> T" "Suc t < T" and i: "in_band y T (Suc t) i" "\<not> in_band y T t i"
    and p: "in_band y T t (i - 1)" "2 \<le> i"
  shows "\<not> ctc_edge y (i - 2) i"
proof
  assume e: "ctc_edge y (i - 2) i"
  have u: "upper y t = i - 1" using i p lower_mono [OF y T] by (auto simp: in_band_def)
  have m: "greedy_move y (upper y t) (upper y (Suc t))" using upper_step [OF y, of t] u i(1) p(2) by (auto simp: in_band_def)
  obtain j where j: "i = Suc (Suc j)" using p(2) by (metis Suc_le_D numeral_2_eq_2 Suc_le_mono)
  then have e': "odd j" "y ! (i div 2) \<noteq> y ! (j div 2)" using e by (auto simp: ctc_edge_def)
  then obtain k where "j = Suc (2 * k)" by (auto elim: oddE)
  then have "y ! Suc k = y ! k" using m unfolding u j by (auto simp: greedy_move_def)
  then show False using e'(2) \<open>j = Suc (2 * k)\<close> j by simp
qed

lemma walk_upper:
  assumes y: "y \<noteq> []" and w: "ctc_walk y p"
  shows "t < length p \<Longrightarrow> p ! t \<le> upper y t"
proof (induction t)
  case 0
  then show ?case using w greedy_0 [of y] by (simp add: upper_def ctc_walk_def)
next
  case (Suc t)
  have "p ! Suc t \<in> set p" using Suc.prems by (rule nth_mem)
  then have "p ! Suc t \<le> 2 * length y" using w by (auto simp: ctc_walk_def)
  moreover have "ctc_edge y (p ! t) (p ! Suc t)" using w Suc.prems by (simp add: ctc_walk_def)
  ultimately show ?case using Suc edge_upper [OF y, of "p ! t" t "p ! Suc t"] by simp
qed

lemma alignment_in_band:
  assumes y: "y \<noteq> []" and T: "Suc (length (incs y)) \<le> T" and a: "ctc_alignment y T p"
  shows "t < T \<Longrightarrow> in_band y T t (p ! t)"
proof -
  have w: "ctc_walk y p" "length p = T" "2 * length y - 1 \<le> last p" using a by (auto simp: ctc_alignment_def)
  have "lower y T (T - Suc n) \<le> p ! (T - Suc n)" if "n < T" for n
    using that
  proof (induction n)
    case 0
    have "lower y T (T - 1) = 2 * length y - 1" using greedy_end [OF y] T by (simp add: lower_def Let_def)
    moreover have "p ! (T - 1) = last p" using w by (simp add: ctc_walk_def last_conv_nth)
    ultimately show ?case using w(3) by simp
  next
    case (Suc n)
    have s: "Suc (T - Suc (Suc n)) = T - Suc n" "T - Suc n < T" using Suc.prems by linarith+
    then have "ctc_edge y (p ! (T - Suc (Suc n))) (p ! (T - Suc n))" using w unfolding ctc_walk_def by metis
    then show ?case using edge_lower [OF y T, of "T - Suc (Suc n)"] Suc s by simp
  qed
  from this [of "T - Suc t"] show "in_band y T t (p ! t)" if "t < T" using that walk_upper [OF y w(1)] w(2) by (simp add: in_band_def)
qed

subsection \<open>The values of the table\<close>

definition pick :: "nat list \<Rightarrow> (nat \<Rightarrow> dbl) \<Rightarrow> nat \<Rightarrow> dbl \<times> nat" where
  "pick y v i = ctc_choose (v i) (if i = 0 then NInf else v (i - 1)) (if 2 \<le> i \<and> ctc_edge y (i - 2) i then v (i - 2) else NInf)"

fun ctc_val :: "nat list \<Rightarrow> nat \<Rightarrow> (nat \<Rightarrow> nat \<Rightarrow> real) \<Rightarrow> nat \<Rightarrow> nat \<Rightarrow> dbl" where
  "ctc_val y T e 0 i = (if in_band y T 0 i then Fin (e 0 i) else NInf)"
| "ctc_val y T e (Suc t) i = (if in_band y T (Suc t) i then fst (pick y (ctc_val y T e t) i) + Fin (e (Suc t) i) else NInf)"

text \<open>Following the back pointers from position \<open>i\<close> of frame \<open>t\<close>.\<close>

fun ctc_trace :: "nat list \<Rightarrow> nat \<Rightarrow> (nat \<Rightarrow> nat \<Rightarrow> real) \<Rightarrow> nat \<Rightarrow> nat \<Rightarrow> nat list" where
  "ctc_trace y T e 0 i = [i]"
| "ctc_trace y T e (Suc t) i = ctc_trace y T e t (i - snd (pick y (ctc_val y T e t) i)) @ [i]"

definition walk_score :: "(nat \<Rightarrow> nat \<Rightarrow> real) \<Rightarrow> nat list \<Rightarrow> real" where
  "walk_score e p = list_score e (\<lambda>_ _. 0) p"

lemma walk_score_simps:
  "walk_score e [i] = e 0 i" "length p = Suc t \<Longrightarrow> walk_score e (p @ [i]) = walk_score e p + e (Suc t) i"
  using list_score_snoc [of p t e "\<lambda>_ _. 0" i] by (simp_all add: walk_score_def list_score_def [of _ _ "[i]"])

lemma pick_pred:
  assumes y: "y \<noteq> []" and T: "Suc (length (incs y)) \<le> T" "Suc t < T" and i: "in_band y T (Suc t) i"
    and v: "\<And>j. in_band y T t j \<Longrightarrow> \<exists>r. v j = Fin r" "\<And>j. \<not> in_band y T t j \<Longrightarrow> v j = NInf"
  shows "\<exists>j. i - snd (pick y v i) = j \<and> in_band y T t j \<and> ctc_edge y j i \<and> fst (pick y v i) = v j"
proof -
  let ?x1 = "if i = 0 then NInf else v (i - 1)" and ?x2 = "if 2 \<le> i \<and> ctc_edge y (i - 2) i then v (i - 2) else NInf"
  have gt: "in_band y T t j" if "v j > x" for j x using v(2) [of j] that by force
  have gt2: "2 \<le> i \<and> ctc_edge y (i - 2) i \<and> in_band y T t (i - 2)" if "?x2 > x" for x using that gt by (auto split: if_splits)
  have gt1: "0 < i \<and> in_band y T t (i - 1)" if "?x1 > x" for x using that gt by (auto split: if_splits)
  consider (two) "?x2 > ?x1" "?x2 > v i" | (one) "\<not> (?x2 > ?x1 \<and> ?x2 > v i)" "?x1 > v i" "?x1 > ?x2"
    | (stay) "\<not> (?x2 > ?x1 \<and> ?x2 > v i)" "\<not> (?x1 > v i \<and> ?x1 > ?x2)" by blast
  then show ?thesis
  proof cases
    case two
    then show ?thesis using gt2 [OF two(1)] by (simp add: pick_def ctc_choose_def)
  next
    case one
    have "ctc_edge y (i - 1) i" using gt1 [OF one(2)] by (simp add: ctc_edge_def)
    moreover have "pick y v i = (?x1, 1)" unfolding pick_def ctc_choose_def if_not_P [OF one(1)] by (rule if_P) (use one in blast)
    ultimately show ?thesis using gt1 [OF one(2)] by simp
  next
    case stay
    have "in_band y T t i"
    proof (rule ccontr)
      assume ni: "\<not> in_band y T t i"
      then have x0: "v i = NInf" by (rule v(2))
      have f: "\<exists>r. v j = Fin r \<or> v j = NInf" for j using v by blast
      consider "0 < i" "in_band y T t (i - 1)" "\<not> (2 \<le> i \<and> ctc_edge y (i - 2) i)" | "in_band y T t (i - 1)" "2 \<le> i" "ctc_edge y (i - 2) i"
        | "2 \<le> i" "ctc_edge y (i - 2) i" "in_band y T t (i - 2)" "\<not> in_band y T t (i - 1)"
        using pred_exists [OF y T i] ni by blast
      then show False
      proof cases
        case 1
        then show False using stay(2) v(1) [of "i - 1"] x0 by auto
      next
        case 2
        then show False using no_gap [OF y T i ni] by simp
      next
        case 3
        then show False using stay(1) v(1) [of "i - 2"] v(2) [of "i - 1"] x0 by auto
      qed
    qed
    moreover have "pick y v i = (v i, 0)" unfolding pick_def ctc_choose_def if_not_P [OF stay(1)] if_not_P [OF stay(2)] by (rule refl)
    moreover have "ctc_edge y i i" by (simp add: ctc_edge_def)
    ultimately show ?thesis by simp
  qed
qed

lemma ctc_val_trace:
  assumes y: "y \<noteq> []" and T: "Suc (length (incs y)) \<le> T"
  shows "t < T \<Longrightarrow> in_band y T t i \<Longrightarrow> ctc_walk y (ctc_trace y T e t i) \<and> length (ctc_trace y T e t i) = Suc t \<and>
    last (ctc_trace y T e t i) = i \<and> ctc_val y T e t i = Fin (walk_score e (ctc_trace y T e t i))"
proof (induction t arbitrary: i)
  case 0
  have "i \<le> 1" using 0 greedy_0 [of y] by (simp add: in_band_def upper_def)
  moreover have "i \<le> 2 * length y" using 0 upper_le [OF y, of 0] by (simp add: in_band_def)
  ultimately show ?case using 0 by (simp add: ctc_walk_def walk_score_simps)
next
  case (Suc t)
  have "\<And>j. in_band y T t j \<Longrightarrow> \<exists>r. ctc_val y T e t j = Fin r" using Suc.IH Suc.prems(1) by auto
  moreover have "\<And>j. \<not> in_band y T t j \<Longrightarrow> ctc_val y T e t j = NInf" by (cases t) auto
  ultimately obtain j where j: "i - snd (pick y (ctc_val y T e t) i) = j" "in_band y T t j" "ctc_edge y j i" "fst (pick y (ctc_val y T e t) i) = ctc_val y T e t j"
    using pick_pred [OF y T Suc.prems(1,2)] by blast
  have IH: "ctc_walk y (ctc_trace y T e t j)" "length (ctc_trace y T e t j) = Suc t" "last (ctc_trace y T e t j) = j"
      "ctc_val y T e t j = Fin (walk_score e (ctc_trace y T e t j))"
    using Suc.IH [OF _ j(2)] Suc.prems(1) by auto
  have "i \<le> 2 * length y" using Suc.prems(2) upper_le [OF y, of "Suc t"] by (simp add: in_band_def)
  moreover have "ctc_trace y T e t j \<noteq> []" using IH(2) by auto
  ultimately show ?case using Suc.prems(2) j IH by (simp add: ctc_walk_snoc walk_score_simps)
qed

text \<open>No draw between moving on by one and skipping a blank that beats staying.\<close>

definition val_tie_free :: "nat list \<Rightarrow> nat \<Rightarrow> (nat \<Rightarrow> nat \<Rightarrow> dbl) \<Rightarrow> bool" where
  "val_tie_free y T v \<longleftrightarrow> (\<forall>t i. Suc t < T \<longrightarrow> 2 \<le> i \<longrightarrow> i \<le> 2 * length y \<longrightarrow> ctc_edge y (i - 2) i \<longrightarrow> \<not> (v t (i - 1) = v t (i - 2) \<and> v t i < v t (i - 1)))"

lemma choose_max:
  assumes "x0 \<noteq> NaN" "x1 \<noteq> NaN" "x2 \<noteq> NaN" "\<not> (x1 = x2 \<and> x0 < x1)"
  shows "x0 \<le> fst (ctc_choose x0 x1 x2)" "x1 \<le> fst (ctc_choose x0 x1 x2)" "x2 \<le> fst (ctc_choose x0 x1 x2)"
  using assms by (cases x0; cases x1; cases x2; auto simp: ctc_choose_def)+

lemma ctc_val_best:
  assumes y: "y \<noteq> []" and T: "Suc (length (incs y)) \<le> T" and ties: "val_tie_free y T (ctc_val y T e)"
  shows "ctc_walk y p \<Longrightarrow> p \<noteq> [] \<Longrightarrow> length p \<le> T \<Longrightarrow> (\<And>t. t < length p \<Longrightarrow> in_band y T t (p ! t)) \<Longrightarrow>
    Fin (walk_score e p) \<le> ctc_val y T e (length p - 1) (last p)"
proof (induction p rule: rev_induct)
  case (snoc i p)
  show ?case
  proof (cases "p = []")
    case True
    then show ?thesis using snoc.prems(4) [of 0] by (simp add: walk_score_simps)
  next
    case False
    then obtain t where t: "length p = Suc t" by (cases p) auto
    let ?v = "ctc_val y T e t" and ?j = "last p"
    have nn: "?v j \<noteq> NaN" for j
    proof (cases "in_band y T t j")
      case True
      then show ?thesis using ctc_val_trace [OF y T, of t j e] snoc.prems(3) t by simp
    next
      case False
      then show ?thesis by (cases t) auto
    qed
    have w: "ctc_walk y p" "i \<le> 2 * length y" "ctc_edge y ?j i" using snoc.prems(1) False by (simp_all add: ctc_walk_snoc)
    have band: "in_band y T s (p ! s)" if "s < length p" for s using snoc.prems(4) [of s] that by (simp add: nth_append)
    have IH: "Fin (walk_score e p) \<le> ?v ?j" using snoc.IH [OF w(1) False _ band] snoc.prems(3) t by simp
    let ?x1 = "if i = 0 then NInf else ?v (i - 1)" and ?x2 = "if 2 \<le> i \<and> ctc_edge y (i - 2) i then ?v (i - 2) else NInf"
    have "\<not> (?x1 = ?x2 \<and> ?v i < ?x1)"
    proof (cases "2 \<le> i \<and> ctc_edge y (i - 2) i")
      case True
      moreover have "Suc t < T" using snoc.prems(3) t by simp
      ultimately show ?thesis using ties w(2) unfolding val_tie_free_def by auto
    next
      case False
      then show ?thesis using nn [of "i - 1"] by auto
    qed
    then have m: "?v i \<le> fst (pick y ?v i)" "?x1 \<le> fst (pick y ?v i)" "?x2 \<le> fst (pick y ?v i)"
      unfolding pick_def using nn by (intro choose_max; simp)+
    consider "i = ?j" | "i = Suc ?j" | "i = Suc (Suc ?j)" "ctc_edge y ?j i" using w(3) by (auto simp: ctc_edge_def)
    then have "?v ?j \<le> fst (pick y ?v i)" using m by cases auto
    then have "Fin (walk_score e p) \<le> fst (pick y ?v i)" using IH dbl_le_trans by blast
    then have "Fin (walk_score e p + e (Suc t) i) \<le> fst (pick y ?v i) + Fin (e (Suc t) i)" by (cases "fst (pick y ?v i)") auto
    moreover have "in_band y T (Suc t) i" using snoc.prems(4) [of "Suc t"] t by (simp add: nth_append)
    ultimately show ?thesis using t False by (simp add: walk_score_simps)
  qed
qed simp

subsection \<open>The arrays of the code\<close>

lemma blank_fold:
  assumes "k \<le> length y" "2 * length y < length w0" "\<And>i. i < length y \<Longrightarrow> labels ! i = y ! i"
  shows "length (fold (\<lambda>i w. w[2 * i := b, 2 * i + 1 := labels ! i]) [0..<k] w0) = length w0 \<and>
    (\<forall>i<2 * k. fold (\<lambda>i w. w[2 * i := b, 2 * i + 1 := labels ! i]) [0..<k] w0 ! i = ext_label b y i)"
  using assms(1)
proof (induction k)
  case (Suc k)
  let ?w = "fold (\<lambda>i w. w[2 * i := b, 2 * i + 1 := labels ! i]) [0..<k] w0"
  have IH: "length ?w = length w0" "\<And>i. i < 2 * k \<Longrightarrow> ?w ! i = ext_label b y i" using Suc by auto
  have "?w[2 * k := b, 2 * k + 1 := labels ! k] ! i = ext_label b y i" if i: "i < 2 * Suc k" for i
  proof -
    have "i < 2 * k \<or> i = 2 * k \<or> i = Suc (2 * k)" using i by auto
    then consider "i < 2 * k" | "i = 2 * k" | "i = Suc (2 * k)" by blast
    then show ?thesis using IH Suc.prems assms(2,3) by cases (simp_all add: ext_label_def)
  qed
  then show ?case using IH(1) by simp
qed simp

lemma setup_labels_spec:
  assumes L: "0 < L" "L \<le> length target" and len: "2 * L < length s0" "2 * L < length e0" "2 * L < length w0" and y: "y = take L target"
  shows "\<exists>s e w. setup_labels target s0 e0 w0 b L (2 * L + 1) = (reps y, s, e, w) \<and> begins s (1 # incs y) \<and> begins e (incs y @ [1]) \<and>
    (\<forall>i\<le>2 * L. w ! i = ext_label b y i)"
proof -
  obtain s e where se: "fold (label_step target) [1..<L] (s0[0 := 1], 1, e0, 0, 0) = (s, Suc (length (incs y)), e, length (incs y), reps y)"
      "length s = length s0" "length e = length e0" "begins s (1 # incs y)" "begins e (incs y)"
    using label_steps [of L L target s0 e0] assms by (auto simp: y)
  have ne: "y \<noteq> []" "length y = L" using L by (auto simp: y)
  then have "length (incs y) < length e" using length_incs [OF ne(1)] reps_less [OF ne(1)] len(2) se(3) by linarith
  then have e: "begins (e[length (incs y) := 1]) (incs y @ [1])" by (rule begins_put [OF se(5)])
  let ?w = "fold (\<lambda>i w. w[2 * i := b, 2 * i + 1 := target ! i]) [0..<L] w0"
  have w: "length ?w = length w0" "\<And>i. i < 2 * L \<Longrightarrow> ?w ! i = ext_label b y i"
    using blank_fold [of L y w0 target b] ne len(3) by (auto simp: y)
  have "?w[2 * L := b] ! i = ext_label b y i" if "i \<le> 2 * L" for i
    using that w len(3) by (cases "i = 2 * L") (simp_all add: ext_label_def)
  then show ?thesis using se e by (simp add: setup_labels_def)
qed

text \<open>The table after frame \<open>t\<close>.\<close>

definition tab_ok :: "nat list \<Rightarrow> nat \<Rightarrow> (nat \<Rightarrow> nat \<Rightarrow> real) \<Rightarrow> nat \<Rightarrow> dbl list \<times> nat list \<Rightarrow> bool" where
  "tab_ok y T e t ab \<longleftrightarrow> T * Suc (2 * length y) \<le> length (fst ab) \<and> T * Suc (2 * length y) \<le> length (snd ab) \<and>
     (\<forall>s<T. \<forall>i\<le>2 * length y. fst ab ! (s * Suc (2 * length y) + i) = (if s \<le> t then ctc_val y T e s i else NInf)) \<and>
     (\<forall>s<T. \<forall>i\<le>2 * length y. 0 < s \<longrightarrow> s \<le> t \<longrightarrow> in_band y T s i \<longrightarrow>
        snd ab ! (s * Suc (2 * length y) + i) = snd (pick y (ctc_val y T e (s - 1)) i))"

lemma cell_index:
  fixes S :: nat
  assumes "i < S" "j < S"
  shows "s * S + i = t * S + j \<longleftrightarrow> s = t \<and> i = j" "s < T \<Longrightarrow> s * S + i < T * S"
proof -
  have d: "(s * S + i) div S = s" "(s * S + i) mod S = i" "(t * S + j) div S = t" "(t * S + j) mod S = j" using assms by simp_all
  show "s * S + i = t * S + j \<longleftrightarrow> s = t \<and> i = j" using d by metis
  show "s * S + i < T * S" if "s < T" using row_bound [OF that assms(1)] .
qed

text \<open>One cell, and the loop over the cells of a frame, which reads only the row before.\<close>

lemma cell_pick:
  assumes y: "N - 1 \<notin> set y" and w: "\<And>i. i \<le> 2 * length y \<Longrightarrow> labels ! i = ext_label (N - 1) y i" and i: "0 < i" "i \<le> 2 * length y"
    and row: "\<And>i. i \<le> 2 * length y \<Longrightarrow> alphas ! (t * Suc (2 * length y) + i) = v i"
  shows "ctc_cell (Suc (2 * length y)) N labels input (Suc t) i (alphas, backptr) =
    (alphas[Suc t * Suc (2 * length y) + i := fst (pick y v i) + input ! (Suc t * N + labels ! i)],
     backptr[Suc t * Suc (2 * length y) + i := snd (pick y v i)])"
proof -
  have skip: "labels ! i \<noteq> N - 1 \<and> i \<noteq> 1 \<and> labels ! i \<noteq> labels ! (i - 2) \<longleftrightarrow> 2 \<le> i \<and> ctc_edge y (i - 2) i"
  proof (cases "odd i \<and> i \<noteq> 1")
    case True
    then obtain m where m: "i = Suc (Suc (Suc (2 * m)))" by (metis One_nat_def Suc_1 add_2_eq_Suc' even_Suc evenE mult_Suc_right not0_implies_Suc odd_Suc_minus_one)
    then have "Suc m < length y" using i by simp
    then have "y ! Suc m \<noteq> N - 1" using y nth_mem by metis
    then show ?thesis using w [of i] w [of "i - 2"] i(2) m \<open>Suc m < length y\<close> by (auto simp: ext_label_def ctc_edge_def)
  next
    case False
    then have "\<not> (2 \<le> i \<and> ctc_edge y (i - 2) i)" using i(1) by (auto simp: ctc_edge_def)
    moreover have "labels ! i = N - 1 \<or> i = 1" using False w [OF i(2)] by (auto simp: ext_label_def)
    ultimately show ?thesis by blast
  qed
  let ?S = "Suc (2 * length y)"
  have x: "alphas ! (j + t * ?S) = v j" if "j \<le> 2 * length y" for j using row [OF that] by (simp only: add.commute)
  have i0: "i \<noteq> 0" using i(1) by simp
  have le: "i - 1 \<le> 2 * length y" "i - 2 \<le> 2 * length y" using i(2) by simp_all
  have "ctc_choose (alphas ! (i + t * ?S)) (alphas ! (i - 1 + t * ?S)) (if labels ! i \<noteq> N - 1 \<and> i \<noteq> 1 \<and> labels ! i \<noteq> labels ! (i - 2) then alphas ! (i - 2 + t * ?S) else NInf) = pick y v i"
    unfolding pick_def skip x [OF i(2)] x [OF le(1)] x [OF le(2)] if_not_P [OF i0] ..
  then show ?thesis unfolding ctc_cell_def Let_def prod.case diff_Suc_1
    by (simp only: case_prod_unfold add.commute [of i] add.commute [of "labels ! i"])
qed

lemma cell_update:
  fixes S :: nat
  assumes "i < S" "j < S" "t * S + i < length xs"
  shows "xs[t * S + i := v] ! (s * S + j) = (if s = t \<and> j = i then v else xs ! (s * S + j))"
  using cell_index(1) [OF assms(2,1), of s t] assms(3) by (auto simp: nth_list_update)

lemma cells_fold:
  fixes y :: "nat list"
  defines "S \<equiv> Suc (2 * length y)"
  assumes y: "N - 1 \<notin> set y" and w: "\<And>i. i \<le> 2 * length y \<Longrightarrow> labels ! i = ext_label (N - 1) y i" and t: "Suc t < T"
    and len: "T * S \<le> length alphas" "T * S \<le> length backptr"
    and row: "\<And>i. i \<le> 2 * length y \<Longrightarrow> alphas ! (t * S + i) = v i"
  shows "(\<forall>i\<in>set is. 0 < i \<and> i \<le> 2 * length y) \<Longrightarrow>
    \<exists>a b. fold (ctc_cell S N labels input (Suc t)) is (alphas, backptr) = (a, b) \<and> length a = length alphas \<and> length b = length backptr \<and>
      (\<forall>s<T. \<forall>i\<le>2 * length y.
        a ! (s * S + i) = (if s = Suc t \<and> i \<in> set is then fst (pick y v i) + input ! (Suc t * N + labels ! i) else alphas ! (s * S + i)) \<and>
        b ! (s * S + i) = (if s = Suc t \<and> i \<in> set is then snd (pick y v i) else backptr ! (s * S + i)))"
proof (induction "is" rule: rev_induct)
  case (snoc i "is")
  then obtain a b where IH: "fold (ctc_cell S N labels input (Suc t)) is (alphas, backptr) = (a, b)" "length a = length alphas" "length b = length backptr"
      "\<And>s i. s < T \<Longrightarrow> i \<le> 2 * length y \<Longrightarrow>
        a ! (s * S + i) = (if s = Suc t \<and> i \<in> set is then fst (pick y v i) + input ! (Suc t * N + labels ! i) else alphas ! (s * S + i)) \<and>
        b ! (s * S + i) = (if s = Suc t \<and> i \<in> set is then snd (pick y v i) else backptr ! (s * S + i))" by auto
  have i: "0 < i" "i \<le> 2 * length y" using snoc.prems by auto
  have "a ! (t * S + j) = v j" if "j \<le> 2 * length y" for j using IH(4) [OF _ that, of t] row [OF that] t by simp
  then have c: "ctc_cell S N labels input (Suc t) i (a, b) =
      (a[Suc t * S + i := fst (pick y v i) + input ! (Suc t * N + labels ! i)], b[Suc t * S + i := snd (pick y v i)])"
    unfolding S_def by (intro cell_pick [OF y w i])
  have x: "Suc t * S + i < length a" "Suc t * S + i < length b" using cell_index(2) [of i S i "Suc t" T] i t IH(2,3) len by (simp_all add: S_def)
  have upd: "j \<le> 2 * length y \<Longrightarrow> a[Suc t * S + i := p] ! (s * S + j) = (if s = Suc t \<and> j = i then p else a ! (s * S + j))"
    "j \<le> 2 * length y \<Longrightarrow> b[Suc t * S + i := q] ! (s * S + j) = (if s = Suc t \<and> j = i then q else b ! (s * S + j))" for s j p q
    using cell_update [of i S j "Suc t" a p s] cell_update [of i S j "Suc t" b q s] i x by (simp_all add: S_def del: mult_Suc mult_Suc_right)
  show ?case using IH c upd by (auto simp del: mult_Suc mult_Suc_right)
qed simp

lemma greedy_Suc: "n \<le> length (incs y) \<Longrightarrow> greedy y (Suc n) = greedy y n + (incs y @ [1]) ! n"
  unfolding greedy_def by (subst take_Suc_conv_app_nth) simp_all

lemma frame_start:
  assumes y: "y \<noteq> []" and T: "Suc (length (incs y)) \<le> T" "Suc t < T" and s: "begins s (1 # incs y)"
    and r: "remain = int (length y) + int (reps y) - (int T - int (Suc t))"
  shows "(if remain \<ge> 0 then lower y T t + s ! nat remain else lower y T t) = lower y T (Suc t)"
proof -
  define d where "d = T - Suc (length (incs y))"
  have rem: "remain = int (Suc t) - int d" using length_incs [OF y] T(1) r unfolding d_def by linarith
  have low: "lower y T u = (if u < d then 0 else greedy y (u - d))" for u by (simp add: lower_def d_def Let_def)
  consider "Suc t < d" | "Suc t = d" | "d \<le> t" by linarith
  then show ?thesis
  proof cases
    case 2
    then show ?thesis using begins_nth [OF s, of 0] greedy_0 [of y] by (simp add: rem low)
  next
    case 3
    then have n: "nat remain = Suc (t - d)" "0 \<le> remain" "Suc t - d = Suc (t - d)" using rem by linarith+
    have "t - d < length (incs y)" using T 3 by (simp add: d_def)
    then show ?thesis using 3 begins_nth [OF s, of "Suc (t - d)"] greedy_Suc [of "t - d" y] by (simp add: n low nth_append)
  qed (simp add: rem low)
qed

lemma frame_stop:
  assumes y: "y \<noteq> []" and e: "begins e (incs y @ [1])"
  shows "(if Suc t \<le> length y + reps y then Suc (upper y t) + e ! t else Suc (upper y t)) = Suc (upper y (Suc t))"
proof (cases "t \<le> length (incs y)")
  case True
  then show ?thesis using length_incs [OF y] begins_nth [OF e, of t] greedy_Suc [OF True] by (simp add: upper_def)
next
  case False
  then have "min t (Suc (length (incs y))) = Suc (length (incs y))" "min (Suc t) (Suc (length (incs y))) = Suc (length (incs y))" by simp_all
  then show ?thesis using length_incs [OF y] False by (simp add: upper_def)
qed

lemma pick_0: "pick y v 0 = (v 0, 0)" if "v 0 \<noteq> NaN"
  using that by (simp add: pick_def ctc_choose_def)

lemma ext_label_less: "0 < N \<Longrightarrow> (\<And>x. x \<in> set y \<Longrightarrow> x < N) \<Longrightarrow> i \<le> 2 * length y \<Longrightarrow> ext_label (N - 1) y i < N"
  by (auto simp: ext_label_def elim!: oddE)

definition ctc_emission :: "nat \<Rightarrow> real list \<Rightarrow> nat list \<Rightarrow> nat \<Rightarrow> nat \<Rightarrow> real" where
  "ctc_emission N xs y t i = emission N xs t (ext_label (N - 1) y i)"

text \<open>The row of a frame: the first cell, if it is useful, is written before the loop over the others.\<close>

lemma row_written:
  fixes y :: "nat list"
  defines "S \<equiv> Suc (2 * length y)"
  assumes y: "y \<noteq> []" "N - 1 \<notin> set y" "\<And>x. x \<in> set y \<Longrightarrow> x < N" and N: "0 < N" and T: "Suc (length (incs y)) \<le> T" "Suc t < T"
    and w: "\<And>i. i \<le> 2 * length y \<Longrightarrow> labels ! i = ext_label (N - 1) y i" and xs: "length xs = T * N"
    and tab: "tab_ok y T (ctc_emission N xs y) t (alphas, backptr)"
  shows "\<exists>a b. (let (startloop, alphas', backptr') =
           (if lower y T (Suc t) = 0
            then (1, alphas[Suc t * S := alphas ! (t * S) + map Fin xs ! ((N - 1) + Suc t * N)], backptr[Suc t * S := 0])
            else (lower y T (Suc t), alphas, backptr))
         in fold (ctc_cell S N labels (map Fin xs) (Suc t)) [startloop..<Suc (upper y (Suc t))] (alphas', backptr')) = (a, b) \<and>
     tab_ok y T (ctc_emission N xs y) (Suc t) (a, b)"
proof -
  let ?v = "ctc_val y T (ctc_emission N xs y)" and ?g = "lower y T (Suc t)" and ?u = "upper y (Suc t)"
  have tab': "T * S \<le> length alphas" "T * S \<le> length backptr"
    "\<And>s i. s < T \<Longrightarrow> i \<le> 2 * length y \<Longrightarrow> alphas ! (s * S + i) = (if s \<le> t then ?v s i else NInf)"
    "\<And>s i. s < T \<Longrightarrow> i \<le> 2 * length y \<Longrightarrow> 0 < s \<Longrightarrow> s \<le> t \<Longrightarrow> in_band y T s i \<Longrightarrow> backptr ! (s * S + i) = snd (pick y (?v (s - 1)) i)"
    using tab unfolding tab_ok_def S_def by auto
  have nn: "?v t j \<noteq> NaN" for j
    using ctc_val_trace [OF y(1) T(1), of t j] T(2) by (cases "in_band y T t j"; cases t) auto
  have inp: "map Fin xs ! (Suc t * N + labels ! i) = Fin (ctc_emission N xs y (Suc t) i)" if "i \<le> 2 * length y" for i
    using w [OF that] row_bound [OF T(2) ext_label_less [OF N y(3) that]] xs by (simp add: ctc_emission_def emission_def)
  let ?x = "alphas ! (t * S) + map Fin xs ! ((N - 1) + Suc t * N)"
  let ?a0 = "if ?g = 0 then alphas[Suc t * S := ?x] else alphas" and ?b0 = "if ?g = 0 then backptr[Suc t * S := 0] else backptr"
  let ?is = "[(if ?g = 0 then 1 else ?g)..<Suc ?u]"
  have x: "?x = fst (pick y (?v t) 0) + Fin (ctc_emission N xs y (Suc t) 0)"
    using tab'(3) [of t 0] T(2) inp [of 0] w [of 0] pick_0 [of "?v t" y, OF nn] by (simp add: ext_label_def add.commute [of "N - Suc 0"])
  have u: "?u \<le> 2 * length y" by (rule upper_le [OF y(1)])
  have S0: "Suc t * S < length alphas" "Suc t * S < length backptr" using cell_index(2) [of 0 S 0 "Suc t" T] T(2) tab'(1,2) by (simp_all add: S_def)
  have a0: "?a0 ! (s * S + i) = (if s = Suc t \<and> i = 0 \<and> ?g = 0 then ?x else alphas ! (s * S + i))"
    and b0: "?b0 ! (s * S + i) = (if s = Suc t \<and> i = 0 \<and> ?g = 0 then 0 else backptr ! (s * S + i))" if "i \<le> 2 * length y" for s i
    using cell_update [of 0 S i "Suc t" alphas ?x s] cell_update [of 0 S i "Suc t" backptr 0 s] that S0 by (auto simp: S_def)
  have row: "?a0 ! (t * S + i) = ?v t i" if "i \<le> 2 * length y" for i using a0 [OF that, of t] tab'(3) [OF _ that, of t] T(2) by simp
  have "\<forall>i\<in>set ?is. 0 < i \<and> i \<le> 2 * length y" using u by auto
  moreover have "T * S \<le> length ?a0" "T * S \<le> length ?b0" using tab'(1,2) by simp_all
  ultimately obtain a b where ab: "fold (ctc_cell S N labels (map Fin xs) (Suc t)) ?is (?a0, ?b0) = (a, b)" "length a = length ?a0" "length b = length ?b0"
      "\<And>s i. s < T \<Longrightarrow> i \<le> 2 * length y \<Longrightarrow>
        a ! (s * S + i) = (if s = Suc t \<and> i \<in> set ?is then fst (pick y (?v t) i) + map Fin xs ! (Suc t * N + labels ! i) else ?a0 ! (s * S + i)) \<and>
        b ! (s * S + i) = (if s = Suc t \<and> i \<in> set ?is then snd (pick y (?v t) i) else ?b0 ! (s * S + i))"
    using cells_fold [OF y(2) w T(2), folded S_def, of ?a0 ?b0 "?v t" ?is "map Fin xs", OF _ _ _ row] by blast
  have band: "in_band y T (Suc t) i \<longleftrightarrow> i \<in> set ?is \<or> i = 0 \<and> ?g = 0" for i
    using greedy_mono [of 0 "min (Suc t) (Suc (length (incs y)))" y] greedy_0 [of y] by (auto simp: in_band_def upper_def)
  have A: "a ! (s * S + i) = (if s \<le> Suc t then ?v s i else NInf)" if "s < T" "i \<le> 2 * length y" for s i
  proof (cases "s = Suc t")
    case True
    then show ?thesis using ab(4) [OF that] a0 [OF that(2), of s] tab'(3) [OF that] band [of i] x inp [OF that(2)] by (auto simp del: upt_Suc mult_Suc)
  next
    case False
    then show ?thesis using ab(4) [OF that] a0 [OF that(2), of s] tab'(3) [OF that] by (simp add: le_Suc_eq del: upt_Suc)
  qed
  have B: "b ! (s * S + i) = snd (pick y (?v (s - 1)) i)" if "s < T" "i \<le> 2 * length y" "0 < s" "s \<le> Suc t" "in_band y T s i" for s i
  proof (cases "s = Suc t")
    case True
    then show ?thesis using ab(4) [OF that(1,2)] b0 [OF that(2), of s] that(5) band [of i] pick_0 [of "?v t" y, OF nn] by (auto simp del: upt_Suc mult_Suc)
  next
    case False
    then show ?thesis using ab(4) [OF that(1,2)] b0 [OF that(2), of s] tab'(4) [OF that(1-3)] that(4,5) by (simp add: le_Suc_eq del: upt_Suc)
  qed
  have "tab_ok y T (ctc_emission N xs y) (Suc t) (a, b)" unfolding tab_ok_def fst_conv snd_conv S_def [symmetric]
    using ab(2,3) tab'(1,2) A B by simp
  moreover have "(let (startloop, alphas', backptr') = (if ?g = 0 then (1, alphas[Suc t * S := ?x], backptr[Suc t * S := 0]) else (?g, alphas, backptr))
      in fold (ctc_cell S N labels (map Fin xs) (Suc t)) [startloop..<Suc ?u] (alphas', backptr')) = (a, b)"
    using ab(1) by (simp add: Let_def del: upt_Suc split: if_splits)
  ultimately show ?thesis by blast
qed

lemma frame_spec:
  fixes y :: "nat list"
  defines "S \<equiv> Suc (2 * length y)"
  assumes y: "y \<noteq> []" "N - 1 \<notin> set y" "\<And>x. x \<in> set y \<Longrightarrow> x < N" and N: "0 < N" and T: "Suc (length (incs y)) \<le> T" "Suc t < T"
    and w: "\<And>i. i \<le> 2 * length y \<Longrightarrow> labels ! i = ext_label (N - 1) y i" and xs: "length xs = T * N"
    and inc: "begins s (1 # incs y)" "begins e (incs y @ [1])"
    and tab: "tab_ok y T (ctc_emission N xs y) t (alphas, backptr)"
  shows "\<exists>a b. ctc_frame (reps y) S T N e s labels (map Fin xs) (Suc t) (lower y T t, Suc (upper y t), alphas, backptr) =
      (lower y T (Suc t), Suc (upper y (Suc t)), a, b) \<and> tab_ok y T (ctc_emission N xs y) (Suc t) (a, b)"
proof -
  have half: "S div 2 = length y" by (simp add: S_def)
  note start = frame_start [OF y(1) T inc(1) refl] and stop = frame_stop [OF y(1) inc(2), of t]
  obtain a b where ab: "(let (startloop, alphas', backptr') =
           (if lower y T (Suc t) = 0
            then (1, alphas[Suc t * S := alphas ! (t * S) + map Fin xs ! ((N - 1) + Suc t * N)], backptr[Suc t * S := 0])
            else (lower y T (Suc t), alphas, backptr))
         in fold (ctc_cell S N labels (map Fin xs) (Suc t)) [startloop..<Suc (upper y (Suc t))] (alphas', backptr')) = (a, b)"
      "tab_ok y T (ctc_emission N xs y) (Suc t) (a, b)"
    using row_written [OF y N T w xs tab] unfolding S_def by blast
  show ?thesis
    using ab unfolding ctc_frame_def half prod.case Let_def diff_Suc_1 start stop by (intro exI [of _ a] exI [of _ b]) (simp add: case_prod_unfold del: upt_Suc mult_Suc)
qed

lemma write_first_two:
  assumes "l \<le> 1" "1 < length c"
  shows "length (fold (\<lambda>i a. a[i := f i]) [l..<2] c) = length c"
    "fold (\<lambda>i a. a[i := f i]) [l..<2] c ! k = (if l \<le> k \<and> k \<le> 1 then f k else c ! k)"
proof -
  have two: "[0..<2] = [0, Suc 0]" "[Suc 0..<2] = [Suc 0]" by (simp_all add: upt_rec)
  have "l = 0 \<or> l = Suc 0" using assms(1) by linarith
  then show "length (fold (\<lambda>i a. a[i := f i]) [l..<2] c) = length c" by (auto simp: two)
  consider (z) "l = 0" | (o) "l = Suc 0" using assms(1) by linarith
  then show "fold (\<lambda>i a. a[i := f i]) [l..<2] c ! k = (if l \<le> k \<and> k \<le> 1 then f k else c ! k)"
  proof cases
    case z
    consider "k = 0" | "k = Suc 0" | "2 \<le> k" by linarith
    moreover have "c \<noteq> []" "0 < length c" using assms(2) by auto
    ultimately show ?thesis using assms(2) by cases (simp_all add: z two)
  next
    case o
    consider "k = 0" | "k = Suc 0" | "2 \<le> k" by linarith
    then show ?thesis using assms(2) by cases (simp_all add: o two)
  qed
qed

lemma table_start:
  fixes y :: "nat list"
  defines "S \<equiv> Suc (2 * length y)"
  assumes y: "y \<noteq> []" "\<And>x. x \<in> set y \<Longrightarrow> x < N" and N: "0 < N" and T: "0 < T"
    and w: "\<And>i. i \<le> 2 * length y \<Longrightarrow> labels ! i = ext_label (N - 1) y i" and xs: "length xs = T * N"
    and len: "T * S \<le> length alphas" "T * S \<le> length backptr"
  shows "tab_ok y T (ctc_emission N xs y) 0
    (fold (\<lambda>i a. a[i := map Fin xs ! (labels ! i)]) [lower y T 0..<2] (fold (\<lambda>i a. a[i := NInf]) [0..<S * T] alphas), backptr)"
proof -
  let ?c = "fold (\<lambda>i a. a[i := NInf]) [0..<S * T] alphas"
  have c: "length ?c = length alphas" "\<And>k. k < T * S \<Longrightarrow> ?c ! k = NInf" using cleared_NInf [of NInf "S * T" alphas] len(1) by (auto simp: mult.commute)
  have low: "lower y T 0 \<le> 1" using greedy_0 [of y] by (simp add: lower_def Let_def)
  have up: "upper y 0 = 1" using greedy_0 [of y] by (simp add: upper_def)
  have L: "1 \<le> 2 * length y" using y(1) by (cases y) auto
  have inp: "map Fin xs ! (labels ! i) = Fin (ctc_emission N xs y 0 i)" if "i \<le> 2 * length y" for i
    using w [OF that] row_bound [OF T ext_label_less [OF N y(2) that]] xs by (simp add: ctc_emission_def emission_def)
  have "S \<le> T * S" using T by simp
  then have room: "1 < length ?c" using L c(1) len(1) by (simp add: S_def)
  let ?a = "fold (\<lambda>i a. a[i := map Fin xs ! (labels ! i)]) [lower y T 0..<2] ?c"
  have a: "length ?a = length ?c" "?a ! k = (if lower y T 0 \<le> k \<and> k \<le> 1 then map Fin xs ! (labels ! k) else ?c ! k)" for k
    by (rule write_first_two [OF low room])+
  have "?a ! (s * S + i) = (if s \<le> 0 then ctc_val y T (ctc_emission N xs y) s i else NInf)" if "s < T" "i \<le> 2 * length y" for s i
  proof (cases s)
    case 0
    then show ?thesis using a(2) [of i] c(2) [of i] that inp [OF that(2)] \<open>S \<le> T * S\<close> by (auto simp: in_band_def up S_def)
  next
    case (Suc n)
    then have "1 < s * S + i" using y(1) by (simp add: S_def)
    then have "?a ! (s * S + i) = ?c ! (s * S + i)" using a(2) [of "s * S + i"] by simp
    then show ?thesis using c(2) cell_index(2) [of i S i s T] that Suc by (simp add: S_def del: mult_Suc mult_Suc_right)
  qed
  then show ?thesis unfolding tab_ok_def S_def [symmetric] using a(1) c(1) len by simp
qed

lemma ctc_table_spec:
  fixes y :: "nat list"
  defines "S \<equiv> Suc (2 * length y)"
  assumes y: "y \<noteq> []" "N - 1 \<notin> set y" "\<And>x. x \<in> set y \<Longrightarrow> x < N" and N: "0 < N" and T: "Suc (length (incs y)) \<le> T"
    and w: "\<And>i. i \<le> 2 * length y \<Longrightarrow> labels ! i = ext_label (N - 1) y i" and xs: "length xs = T * N"
    and inc: "begins s (1 # incs y)" "begins e (incs y @ [1])"
    and len: "T * S \<le> length alphas" "T * S \<le> length backptr"
  shows "\<exists>a b. ctc_table (reps y) S T N e s labels (map Fin xs) alphas backptr = (lower y T (T - 1), Suc (upper y (T - 1)), a, b) \<and>
    tab_ok y T (ctc_emission N xs y) (T - 1) (a, b)"
proof -
  let ?a0 = "fold (\<lambda>i a. a[i := map Fin xs ! (labels ! i)]) [lower y T 0..<2] (fold (\<lambda>i a. a[i := NInf]) [0..<S * T] alphas)"
  let ?F = "\<lambda>t. fold (ctc_frame (reps y) S T N e s labels (map Fin xs)) [1..<t] (lower y T 0, Suc (upper y 0), ?a0, backptr)"
  have T0: "0 < T" using T by simp
  have half: "S div 2 = length y" by (simp add: S_def)
  have start: "(if int (S div 2) + int (reps y) - int T < 0 then 0 else 1) = lower y T 0"
    using length_incs [OF y(1)] T greedy_0 [of y] unfolding half by (auto simp: lower_def Let_def)
  have up: "Suc (upper y 0) = 2" using greedy_0 [of y] by (simp add: upper_def)
  have stop: "(if S > 1 then 2 else 1) = Suc (upper y 0)" using y(1) by (simp add: S_def up)
  have "\<exists>a b. ?F (Suc t) = (lower y T t, Suc (upper y t), a, b) \<and> tab_ok y T (ctc_emission N xs y) t (a, b)" if "t < T" for t
    using that
  proof (induction t)
    case 0
    then show ?case using table_start [OF y(1,3) N T0 w xs] len by (simp add: S_def)
  next
    case (Suc t)
    then obtain a b where ab: "?F (Suc t) = (lower y T t, Suc (upper y t), a, b)" "tab_ok y T (ctc_emission N xs y) t (a, b)" by auto
    have step: "?F (Suc (Suc t)) = ctc_frame (reps y) S T N e s labels (map Fin xs) (Suc t) (?F (Suc t))" by simp
    show ?case unfolding step ab(1) using frame_spec [OF y N T Suc.prems w xs inc ab(2), folded S_def] by blast
  qed
  from this [of "T - 1"] T0 show ?thesis unfolding ctc_table_def Let_def start stop up by simp
qed

lemma back_trace:
  fixes y :: "nat list"
  defines "S \<equiv> Suc (2 * length y)"
  assumes y: "y \<noteq> []" and T: "Suc (length (incs y)) \<le> T" and w: "\<And>i. i \<le> 2 * length y \<Longrightarrow> labels ! i = ext_label b y i"
    and tab: "tab_ok y T e (T - 1) (alphas, backptr)"
  shows "t < T \<Longrightarrow> in_band y T t i \<Longrightarrow> ctc_back S labels backptr t i path = map (ext_label b y) (ctc_trace y T e t i) @ path"
proof (induction t arbitrary: i path)
  case 0
  then show ?case using upper_le [OF y, of 0] w [of i] by (simp add: in_band_def)
next
  case (Suc t)
  have i: "i \<le> 2 * length y" using Suc.prems(2) upper_le [OF y, of "Suc t"] by (simp add: in_band_def)
  have bp: "backptr ! (Suc t * S + i) = snd (pick y (ctc_val y T e t) i)"
  proof -
    have "\<forall>s<T. \<forall>i\<le>2 * length y. 0 < s \<longrightarrow> s \<le> T - 1 \<longrightarrow> in_band y T s i \<longrightarrow> backptr ! (s * S + i) = snd (pick y (ctc_val y T e (s - 1)) i)"
      using tab unfolding tab_ok_def S_def snd_conv by blast
    then show ?thesis using Suc.prems i by (metis Suc_leI Suc_diff_1 diff_Suc_1 less_Suc_eq_le zero_less_Suc less_trans)
  qed
  have "\<And>j. in_band y T t j \<Longrightarrow> \<exists>r. ctc_val y T e t j = Fin r" using ctc_val_trace [OF y T] Suc.prems(1) by (metis Suc_lessD)
  moreover have "\<And>j. \<not> in_band y T t j \<Longrightarrow> ctc_val y T e t j = NInf" by (cases t) auto
  ultimately have "in_band y T t (i - snd (pick y (ctc_val y T e t) i))" using pick_pred [OF y T Suc.prems] by blast
  then show ?case using Suc bp w [OF i] by (simp del: mult_Suc)
qed

subsection \<open>The path that is returned\<close>

text \<open>The table the code computes for one element, and that no draw was decided for the worse.\<close>

definition ctc_alphas :: "nat \<Rightarrow> nat \<Rightarrow> nat \<Rightarrow> nat list \<Rightarrow> dbl list \<Rightarrow> ctc_workspace \<Rightarrow> dbl list" where
  "ctc_alphas T N L target input ws =
     (let S = 2 * L + 1;
          (repeats, s_inc, e_inc, labels) = setup_labels target (ws_s_inc ws) (ws_e_inc ws) (ws_labels ws) (N - 1) L S;
          (start, stop, alphas, backptr) = ctc_table repeats S T N e_inc s_inc labels input (ws_alpha ws) (ws_backptr ws)
      in alphas)"

definition ctc_no_draw :: "nat \<Rightarrow> nat \<Rightarrow> nat list \<Rightarrow> dbl list \<Rightarrow> bool" where
  "ctc_no_draw T L target alphas \<longleftrightarrow> (\<forall>t<T - 1. \<forall>i<L. 0 < i \<longrightarrow> target ! i \<noteq> target ! (i - 1) \<longrightarrow>
     \<not> (alphas ! (t * (2 * L + 1) + 2 * i) = alphas ! (t * (2 * L + 1) + (2 * i - 1)) \<and>
        alphas ! (t * (2 * L + 1) + (2 * i + 1)) < alphas ! (t * (2 * L + 1) + 2 * i)))"

definition best_ctc_sequence :: "nat \<Rightarrow> nat \<Rightarrow> nat list \<Rightarrow> real list \<Rightarrow> nat list \<Rightarrow> bool" where
  "best_ctc_sequence T N y xs q \<longleftrightarrow> (\<forall>q'. length q' = T \<and> collapse (N - 1) q' = y \<longrightarrow>
     list_score (emission N xs) (\<lambda>_ _. 0) q' \<le> list_score (emission N xs) (\<lambda>_ _. 0) q)"

lemma path_score_map: "path_score (\<lambda>t i. inp t (f i)) (\<lambda>_ _. 0) k q = path_score inp (\<lambda>_ _. 0) k (\<lambda>t. f (q t))"
  by (induction k) simp_all

lemma walk_score_map:
  assumes "p \<noteq> []"
  shows "walk_score (ctc_emission N xs y) p = list_score (emission N xs) (\<lambda>_ _. 0) (map (ext_label (N - 1) y) p)"
proof -
  have "path_score (emission N xs) (\<lambda>_ _. 0) (length p - 1) (\<lambda>t. ext_label (N - 1) y (p ! t)) =
      path_score (emission N xs) (\<lambda>_ _. 0) (length p - 1) (\<lambda>t. map (ext_label (N - 1) y) p ! t)"
    using assms by (intro path_score_cong) (simp add: Suc_le_eq flip: length_greater_0_conv)
  then show ?thesis by (simp add: walk_score_def list_score_def ctc_emission_def [abs_def] path_score_map)
qed

lemma no_draw_val:
  assumes "ctc_no_draw T (length y) target alphas" "y = take (length y) target"
    and v: "\<And>t i. t < T \<Longrightarrow> i \<le> 2 * length y \<Longrightarrow> alphas ! (t * (2 * length y + 1) + i) = v t i"
  shows "val_tie_free y T v"
  unfolding val_tie_free_def
proof (intro allI impI)
  fix t i assume t: "Suc t < T" and i: "2 \<le> i" "i \<le> 2 * length y" and e: "ctc_edge y (i - 2) i"
  obtain j where j: "i = Suc (Suc j)" using i(1) by (metis Suc_le_D numeral_2_eq_2 Suc_le_mono)
  then have "odd j" "y ! Suc (j div 2) \<noteq> y ! (j div 2)" using e by (auto simp: ctc_edge_def)
  then obtain m where m: "j = Suc (2 * m)" by (auto elim: oddE)
  have m': "Suc m < length y" using i(2) by (simp add: j m)
  have nth: "target ! k = y ! k" if "k < length y" for k using assms(2) that by (metis nth_take)
  have "y ! Suc m \<noteq> y ! m" using e by (simp add: ctc_edge_def j m)
  then have "target ! Suc m \<noteq> target ! (Suc m - 1)" using nth [of m] nth [of "Suc m"] m' by simp
  moreover have "t < T - 1" using t by simp
  ultimately have "\<not> (alphas ! (t * (2 * length y + 1) + 2 * Suc m) = alphas ! (t * (2 * length y + 1) + (2 * Suc m - 1)) \<and>
      alphas ! (t * (2 * length y + 1) + (2 * Suc m + 1)) < alphas ! (t * (2 * length y + 1) + 2 * Suc m))"
    using assms(1) m' unfolding ctc_no_draw_def by blast
  then show "\<not> (v t (i - 1) = v t (i - 2) \<and> v t i < v t (i - 1))"
    using v [of t i] v [of t "i - 1"] v [of t "i - 2"] i(2) t by (simp add: j m)
qed

lemma last_cells:
  assumes y: "y \<noteq> []" and T: "Suc (length (incs y)) \<le> T"
  shows "lower y T (T - 1) = 2 * length y - 1" "in_band y T (T - 1) (2 * length y - 1)"
proof -
  show l: "lower y T (T - 1) = 2 * length y - 1" using greedy_end [OF y] T by (simp add: lower_def Let_def)
  then show "in_band y T (T - 1) (2 * length y - 1)" using lower_le_upper [OF T, of "T - 1"] T by (simp add: in_band_def)
qed

lemma best_of_last_two:
  assumes y: "y \<noteq> []" and T: "Suc (length (incs y)) \<le> T"
    and i: "i = (if ctc_val y T e (T - 1) (2 * length y) > ctc_val y T e (T - 1) (2 * length y - 1) then 2 * length y else 2 * length y - 1)"
  shows "ctc_alignment y T (ctc_trace y T e (T - 1) i)" "in_band y T (T - 1) i"
    "val_tie_free y T (ctc_val y T e) \<Longrightarrow> ctc_alignment y T p \<Longrightarrow> walk_score e p \<le> walk_score e (ctc_trace y T e (T - 1) i)"
proof -
  let ?v = "ctc_val y T e (T - 1)"
  note last = last_cells [OF y T]
  have T0: "T - 1 < T" "0 < T" using T by simp_all
  have out: "?v j = NInf" if "\<not> in_band y T (T - 1) j" for j using that by (cases "T - 1") auto
  show b: "in_band y T (T - 1) i" using last(2) out [of "2 * length y"] i by (cases "in_band y T (T - 1) (2 * length y)") (auto split: if_splits)
  have tr: "ctc_walk y (ctc_trace y T e (T - 1) i)" "length (ctc_trace y T e (T - 1) i) = T" "last (ctc_trace y T e (T - 1) i) = i"
      "?v i = Fin (walk_score e (ctc_trace y T e (T - 1) i))"
    using ctc_val_trace [OF y T T0(1) b, of e] T0 by auto
  then show "ctc_alignment y T (ctc_trace y T e (T - 1) i)" using i by (simp add: ctc_alignment_def)
  show "walk_score e p \<le> walk_score e (ctc_trace y T e (T - 1) i)" if ties: "val_tie_free y T (ctc_val y T e)" and a: "ctc_alignment y T p"
  proof -
    have p: "ctc_walk y p" "length p = T" "p \<noteq> []" "2 * length y - 1 \<le> last p" using a T0 by (auto simp: ctc_alignment_def)
    have "set p \<subseteq> {..2 * length y}" using p(1) by (simp add: ctc_walk_def)
    then have "last p \<le> 2 * length y" using last_in_set [OF p(3)] by auto
    then have "last p = 2 * length y \<or> last p = 2 * length y - 1" using p(4) by linarith
    moreover have "?v (last p) \<noteq> NaN" "?v (2 * length y) \<noteq> NaN" "?v (2 * length y - 1) \<noteq> NaN"
      using ctc_val_trace [OF y T T0(1), of _ e] out by (metis dbl.distinct(5) dbl.distinct(11))+
    ultimately have "?v (last p) \<le> ?v i" unfolding i using dbl_not_less dbl_less_imp_le dbl_le_refl by (auto split: if_splits)
    moreover have "Fin (walk_score e p) \<le> ?v (last p)"
      using ctc_val_best [OF y T ties p(1,3)] alignment_in_band [OF y T a] p(2) by simp
    ultimately have "Fin (walk_score e p) \<le> ?v i" using dbl_le_trans by blast
    then show ?thesis using tr(4) by simp
  qed
qed

lemma ctc_viterbi_one_spec:
  assumes L: "0 < L" "L \<le> length target" "L + reps (take L target) \<le> T" and target: "\<And>j. j < L \<Longrightarrow> target ! j < N - 1"
    and xs: "length xs = T * N"
    and ws: "2 * L < length (ws_s_inc ws)" "2 * L < length (ws_e_inc ws)" "2 * L < length (ws_labels ws)"
      "T * (2 * L + 1) \<le> length (ws_alpha ws)" "T * (2 * L + 1) \<le> length (ws_backptr ws)"
    and q: "q = ctc_viterbi_one T N L target (map Fin xs) ws"
  shows "length q = T" "collapse (N - 1) q = take L target"
    "ctc_no_draw T L target (ctc_alphas T N L target (map Fin xs) ws) \<Longrightarrow> best_ctc_sequence T N (take L target) xs q"
proof -
  define y where "y = take L target"
  have ly: "length y = L" "y \<noteq> []" using L by (auto simp: y_def)
  have small: "x < N - 1" if "x \<in> set y" for x using that target L(2) by (auto simp: y_def in_set_conv_nth)
  have y: "y \<noteq> []" "N - 1 \<notin> set y" "\<And>x. x \<in> set y \<Longrightarrow> x < N" "0 < N" using ly small target [OF L(1)] by force+
  have T: "Suc (length (incs y)) \<le> T" using length_incs [OF y(1)] L(3) ly by (simp add: y_def)
  have S: "2 * L + 1 = Suc (2 * length y)" using ly by simp
  obtain s e w where su: "setup_labels target (ws_s_inc ws) (ws_e_inc ws) (ws_labels ws) (N - 1) L (2 * L + 1) = (reps y, s, e, w)"
      "begins s (1 # incs y)" "begins e (incs y @ [1])" "\<And>i. i \<le> 2 * L \<Longrightarrow> w ! i = ext_label (N - 1) y i"
    using setup_labels_spec [OF L(1,2) ws(1-3) y_def, of "N - 1"] by blast
  have w: "\<And>i. i \<le> 2 * length y \<Longrightarrow> w ! i = ext_label (N - 1) y i" using su(4) ly by simp
  obtain a b where ab: "ctc_table (reps y) (2 * L + 1) T N e s w (map Fin xs) (ws_alpha ws) (ws_backptr ws) = (lower y T (T - 1), Suc (upper y (T - 1)), a, b)"
      "tab_ok y T (ctc_emission N xs y) (T - 1) (a, b)"
    using ctc_table_spec [OF y T w xs su(2,3) ws(4,5) [unfolded S]] unfolding S by blast
  let ?e = "ctc_emission N xs y"
  have v: "a ! (t * (2 * length y + 1) + i) = ctc_val y T ?e t i" if "t < T" "i \<le> 2 * length y" for t i
    using ab(2) that unfolding tab_ok_def by auto
  obtain T' where T': "T = Suc T'" using T by (cases T) auto
  have ends: "T * (2 * L + 1) - 1 = (T - 1) * (2 * length y + 1) + 2 * length y" "T * (2 * L + 1) - 2 = (T - 1) * (2 * length y + 1) + (2 * length y - 1)"
    using L(1) ly by (simp_all add: T')
  define i where "i = (if ctc_val y T ?e (T - 1) (2 * length y) > ctc_val y T ?e (T - 1) (2 * length y - 1) then 2 * length y else 2 * length y - 1)"
  have i: "(if a ! (T * (2 * L + 1) - 1) > a ! (T * (2 * L + 1) - 2) then 2 * L + 1 - 1 else 2 * L + 1 - 2) = i"
    unfolding ends i_def using v [of "T - 1" "2 * length y"] v [of "T - 1" "2 * length y - 1"] ly by (simp add: T')
  note best = best_of_last_two [OF y(1) T i_def]
  have "q = ctc_back (2 * L + 1) w b (T - 1) i []" unfolding q ctc_viterbi_one_def compute_alphas_def Let_def su(1) prod.case ab(1) i ..
  then have q': "q = map (ext_label (N - 1) y) (ctc_trace y T ?e (T - 1) i)"
    using back_trace [OF y(1) T w ab(2) _ best(2), of "[]"] unfolding S by (simp add: T')
  show ql: "length q = T" "collapse (N - 1) q = take L target" using collapse_alignments [OF y(2,1), of T q] best(1) q' unfolding y_def by blast+
  have "ctc_alphas T N L target (map Fin xs) ws = a" by (simp only: ctc_alphas_def Let_def su(1) prod.case ab(1))
  then show "best_ctc_sequence T N (take L target) xs q" if d: "ctc_no_draw T L target (ctc_alphas T N L target (map Fin xs) ws)"
    unfolding best_ctc_sequence_def
  proof (intro allI impI)
    fix q' assume "length q' = T \<and> collapse (N - 1) q' = take L target"
    then obtain p where p: "ctc_alignment y T p" "map (ext_label (N - 1) y) p = q'" using collapse_alignments [OF y(2,1), of T q'] unfolding y_def by blast
    have "val_tie_free y T (ctc_val y T ?e)"
      using no_draw_val [of T y target a] d \<open>ctc_alphas T N L target (map Fin xs) ws = a\<close> v ly by (simp add: y_def)
    then have "walk_score ?e p \<le> walk_score ?e (ctc_trace y T ?e (T - 1) i)" using best(3) p(1) by blast
    moreover have "p \<noteq> []" "ctc_trace y T ?e (T - 1) i \<noteq> []" using p(1) best(1) by (auto simp: ctc_alignment_def ctc_walk_def)
    ultimately show "list_score (emission N xs) (\<lambda>_ _. 0) q' \<le> list_score (emission N xs) (\<lambda>_ _. 0) q"
      using walk_score_map p(2) q' by metis
  qed
qed

text \<open>
  C16. The best path of the CTC criterion. With finite scores and targets of at least one label, none of them the blank, whose labels and
  repetitions fit into the \<open>T\<close> frames, whatever the workspace holds: the output for every batch element has \<open>T\<close> labels and gives the target
  when repeated labels are merged and blanks removed. If in no cell the scores of moving on by one and of skipping a blank are equal
  and better than that of staying, no other sequence that collapses to the target has a better score.
\<close>

theorem ctc_viterbi_collapses:
  assumes xs: "length xs = B * (T * N)" and target: "length target = B * L0" and b: "b < B"
    and ws: "length (ws_alpha ws) = B * ((2 * L0 + 1) * T)" "length (ws_s_inc ws) = B * (2 * L0 + 1)" "length (ws_e_inc ws) = B * (2 * L0 + 1)"
      "length (ws_backptr ws) = B * ((2 * L0 + 1) * T)" "length (ws_labels ws) = B * (2 * L0 + 1)"
    and size: "\<And>b. b < B \<Longrightarrow> 0 < targetSize ! b \<and> targetSize ! b \<le> L0 \<and>
      targetSize ! b + reps (take (targetSize ! b) (slice L0 b target)) \<le> T"
    and labels: "\<And>b j. b < B \<Longrightarrow> j < targetSize ! b \<Longrightarrow> slice L0 b target ! j < N - 1"
  shows "let y = take (targetSize ! b) (slice L0 b target); q = slice T b (ctc_viterbi B T N L0 (map Fin xs) target targetSize ws) in
    length q = T \<and> collapse (N - 1) q = y \<and>
    (ctc_no_draw T (targetSize ! b) (slice L0 b target)
       (ctc_alphas T N (targetSize ! b) (slice L0 b target) (slice (T * N) b (map Fin xs)) (ctc_slice (2 * L0 + 1) T b ws)) \<longrightarrow>
     best_ctc_sequence T N y (slice (T * N) b xs) q)"
proof -
  let ?f = "\<lambda>b. ctc_viterbi_one T N (targetSize ! b) (slice L0 b target) (slice (T * N) b (map Fin xs)) (ctc_slice (2 * L0 + 1) T b ws)"
  have one: "length (?f b) = T \<and> collapse (N - 1) (?f b) = take (targetSize ! b) (slice L0 b target) \<and>
      (ctc_no_draw T (targetSize ! b) (slice L0 b target)
         (ctc_alphas T N (targetSize ! b) (slice L0 b target) (slice (T * N) b (map Fin xs)) (ctc_slice (2 * L0 + 1) T b ws)) \<longrightarrow>
       best_ctc_sequence T N (take (targetSize ! b) (slice L0 b target)) (slice (T * N) b xs) (?f b))" if b: "b < B" for b
  proof -
    note L = size [OF b]
    have len: "2 * (targetSize ! b) < 2 * L0 + 1" "T * (2 * (targetSize ! b) + 1) \<le> (2 * L0 + 1) * T" using L by (simp_all add: mult.commute)
    have arrays: "2 * (targetSize ! b) < length (ws_s_inc (ctc_slice (2 * L0 + 1) T b ws))" "2 * (targetSize ! b) < length (ws_e_inc (ctc_slice (2 * L0 + 1) T b ws))"
      "2 * (targetSize ! b) < length (ws_labels (ctc_slice (2 * L0 + 1) T b ws))"
      "T * (2 * (targetSize ! b) + 1) \<le> length (ws_alpha (ctc_slice (2 * L0 + 1) T b ws))"
      "T * (2 * (targetSize ! b) + 1) \<le> length (ws_backptr (ctc_slice (2 * L0 + 1) T b ws))"
      using len length_slice [OF ws(1) b] length_slice [OF ws(2) b] length_slice [OF ws(3) b] length_slice [OF ws(4) b] length_slice [OF ws(5) b]
      by (simp_all add: ctc_slice_def)
    show ?thesis unfolding slice_map
      using ctc_viterbi_one_spec [OF _ _ _ labels [OF b] length_slice [OF xs b] arrays refl] L length_slice [OF target b] by simp
  qed
  from slice_concat [of B ?f, OF _ b] one have "slice T b (ctc_viterbi B T N L0 (map Fin xs) target targetSize ws) = ?f b" by (simp add: ctc_viterbi_def)
  then show ?thesis using one [OF b] by (simp add: Let_def)
qed

text \<open>One element, three frames, the target \<open>0 1\<close> and the blank \<open>2\<close>.\<close>

definition example_ws :: ctc_workspace where
  "example_ws = \<lparr>ws_alpha = replicate 15 0, ws_s_inc = replicate 5 0, ws_e_inc = replicate 5 0, ws_backptr = replicate 15 0, ws_labels = replicate 5 0\<rparr>"

lemma example_no_draw: "ctc_no_draw 3 2 [0, 1] (ctc_alphas 3 3 2 [0, 1] (map Fin [1, 0, 0, 0, 0, 1, 0, 1, 0]) example_ws)"
  by code_simp

theorem ctc_viterbi_collapses_witness:
  "collapse 2 (slice 3 0 (ctc_viterbi 1 3 3 2 (map Fin [1, 0, 0, 0, 0, 1, 0, 1, 0]) [0, 1] [2] example_ws)) = [0, 1] \<and>
   best_ctc_sequence 3 3 [0, 1] [1, 0, 0, 0, 0, 1, 0, 1, 0]
     (slice 3 0 (ctc_viterbi 1 3 3 2 (map Fin [1, 0, 0, 0, 0, 1, 0, 1, 0]) [0, 1] [2] example_ws))"
proof -
  have s: "slice 2 0 [0, 1::nat] = [0, 1]" "slice (3 * 3) 0 [1, 0, 0, 0, 0, 1, 0, 1, 0::real] = [1, 0, 0, 0, 0, 1, 0, 1, 0]"
    "slice (3 * 3) 0 (map Fin [1, 0, 0, 0, 0, 1, 0, 1, 0]) = map Fin [1, 0, 0, 0, 0, 1, 0, 1, 0]"
    "ctc_slice (2 * 2 + 1) 3 0 example_ws = example_ws"
    by (simp_all add: slice_def ctc_slice_def example_ws_def)
  have size: "0 < [2::nat] ! b \<and> [2::nat] ! b \<le> 2 \<and> [2::nat] ! b + reps (take ([2] ! b) (slice 2 b [0, 1])) \<le> 3" if "b < 1" for b
    using that s(1) by simp
  have labels: "slice 2 b [0, 1::nat] ! j < 3 - 1" if "b < 1" "j < [2::nat] ! b" for b j
    using that s(1) by (cases j) auto
  have arrays: "length (ws_alpha example_ws) = 1 * ((2 * 2 + 1) * 3)" "length (ws_s_inc example_ws) = 1 * (2 * 2 + 1)"
    "length (ws_e_inc example_ws) = 1 * (2 * 2 + 1)" "length (ws_backptr example_ws) = 1 * ((2 * 2 + 1) * 3)" "length (ws_labels example_ws) = 1 * (2 * 2 + 1)"
    by (simp_all add: example_ws_def)
  have "length [1, 0, 0, 0, 0, 1, 0, 1, 0::real] = 1 * (3 * 3)" "length [0, 1::nat] = 1 * 2" "(0::nat) < 1" by simp_all
  note ctc_viterbi_collapses [OF this arrays size labels, unfolded Let_def s]
  then show ?thesis using example_no_draw s(1) by simp
qed

text \<open>
  A draw that is decided wrongly: the path has the score 2, the sequence \<open>0 0 1\<close> also collapses to the target and has the score 3.
\<close>

lemma ctc_draw_not_best:
  "ctc_viterbi 1 3 3 2 (map Fin [1, 0, 0, 1, 0, 1, 0, 1, 0]) [0, 1] [2] example_ws = [0, 1, 1]"
  "list_score (emission 3 [1, 0, 0, 1, 0, 1, 0, 1, 0]) (\<lambda>_ _. 0) [0, 1, 1] = 2"
  "collapse 2 [0, 0, 1] = [0, 1]" "list_score (emission 3 [1, 0, 0, 1, 0, 1, 0, 1, 0]) (\<lambda>_ _. 0) [0, 0, 1] = 3"
proof -
  show "ctc_viterbi 1 3 3 2 (map Fin [1, 0, 0, 1, 0, 1, 0, 1, 0]) [0, 1] [2] example_ws = [0, 1, 1]" by code_simp
qed (simp_all add: collapse_def list_score_def emission_def numeral_2_eq_2)

end
