(* ===== verification/Hungarian.thy ===== *)
theory Hungarian
  imports Prelude "HOL-Library.While_Combinator"
begin

section \<open>Linear sum assignment: the seven steps\<close>

text \<open>
  The model of \<^verbatim>\<open>lib/set/Hungarian.cpp\<close>.  The matrices are the flat column-major arrays of the code,
  \<^verbatim>\<open>c * nrows + r\<close>; nested \<^verbatim>\<open>for\<close> loops run over the list of the cells in the order of the loops; the
  searches that answer \<open>-1\<close> answer \<^const>\<open>None\<close>.  Costs are real numbers, \<open>fltMax\<close> is the largest
  finite \<^verbatim>\<open>float\<close>.  Uninitialised variables and accesses outside an array are \<^const>\<open>Undefined\<close>.
\<close>

datatype mark = NoMark | Star | Prime

definition fltMax :: real where
  "fltMax = (2 - 1 / 2 ^ 23) * 2 ^ 127"

definition idx :: "nat \<Rightarrow> nat \<Rightarrow> nat \<Rightarrow> nat" where
  "idx nrows r c = c * nrows + r"

definition colMajor :: "nat \<Rightarrow> nat \<Rightarrow> (nat \<times> nat) list" where
  "colMajor nrows ncols = concat (map (\<lambda>c. map (\<lambda>r. (r, c)) [0..<nrows]) [0..<ncols])"

definition rowMajor :: "nat \<Rightarrow> nat \<Rightarrow> (nat \<times> nat) list" where
  "rowMajor nrows ncols = concat (map (\<lambda>r. map (\<lambda>c. (r, c)) [0..<ncols]) [0..<nrows])"

definition findUncoveredZero ::
    "real list \<Rightarrow> nat list \<Rightarrow> nat list \<Rightarrow> nat \<Rightarrow> nat \<Rightarrow> (nat \<times> nat) option" where
  "findUncoveredZero costs colCover rowCover nrows ncols =
     List.find (\<lambda>(r, c). costs ! idx nrows r c = 0 \<and> colCover ! c = 0 \<and> rowCover ! r = 0)
       (colMajor nrows ncols)"

definition isStarInRow :: "mark list \<Rightarrow> nat \<Rightarrow> nat \<Rightarrow> nat \<Rightarrow> bool" where
  "isStarInRow marks row nrows ncols \<longleftrightarrow> (\<exists>c\<in>set [0..<ncols]. marks ! idx nrows row c = Star)"

definition findStarInRow :: "mark list \<Rightarrow> nat \<Rightarrow> nat \<Rightarrow> nat \<Rightarrow> nat option" where
  "findStarInRow marks row nrows ncols =
     List.find (\<lambda>c. marks ! idx nrows row c = Star) [0..<ncols]"

definition rowMinimum :: "real list \<Rightarrow> nat \<Rightarrow> nat \<Rightarrow> nat \<Rightarrow> real" where
  "rowMinimum costs nrows ncols r =
     fold (\<lambda>c min_val. let val = costs ! idx nrows r c in if val < min_val then val else min_val)
       [0..<ncols] fltMax"

definition stepOne :: "real list \<Rightarrow> nat \<Rightarrow> nat \<Rightarrow> nat \<times> real list" where
  "stepOne costs nrows ncols =
     (2, fold (\<lambda>r costs.
            let min_val = rowMinimum costs nrows ncols r in
            fold (\<lambda>c costs. costs[idx nrows r c := costs ! idx nrows r c - min_val]) [0..<ncols] costs)
          [0..<nrows] costs)"

definition clearCover :: "nat list \<Rightarrow> nat \<Rightarrow> nat list" where
  "clearCover cover n = fold (\<lambda>i cover. cover[i := 0]) [0..<n] cover"

definition stepTwo ::
    "real list \<Rightarrow> mark list \<Rightarrow> nat list \<Rightarrow> nat list \<Rightarrow> nat \<Rightarrow> nat \<Rightarrow> nat \<times> mark list \<times> nat list \<times> nat list"
where
  "stepTwo costs marks colCover rowCover nrows ncols =
     (let (marks, colCover, rowCover) =
        fold (\<lambda>(r, c) (marks, colCover, rowCover).
            if costs ! idx nrows r c = 0 \<and> rowCover ! r = 0 \<and> colCover ! c = 0
            then (marks[idx nrows r c := Star], colCover[c := 1], rowCover[r := 1])
            else (marks, colCover, rowCover))
          (rowMajor nrows ncols) (marks, colCover, rowCover)
      in (3, marks, clearCover colCover ncols, clearCover rowCover nrows))"

definition stepThree :: "mark list \<Rightarrow> nat list \<Rightarrow> nat \<Rightarrow> nat \<Rightarrow> nat \<times> nat list" where
  "stepThree marks colCover nrows ncols =
     (let colCover = fold (\<lambda>(r, c) colCover.
            if marks ! idx nrows r c = Star then colCover[c := 1] else colCover)
            (rowMajor nrows ncols) colCover;
          coveredCols = fold (\<lambda>c n. n + colCover ! c) [0..<ncols] 0
      in (if coveredCols = ncols \<or> coveredCols \<ge> nrows then 7 else 4, colCover))"

text \<open>
  The loop of step four primes an uncovered zero in each round.  Every round but the last covers the
  row of the zero, so that the number of uncovered rows is its measure.
\<close>

function stepFour ::
    "real list \<Rightarrow> mark list \<Rightarrow> nat list \<Rightarrow> nat list \<Rightarrow> nat \<Rightarrow> nat \<Rightarrow> (nat \<times> nat) option
      \<Rightarrow> (nat \<times> mark list \<times> nat list \<times> nat list \<times> (nat \<times> nat) option) result" where
  "stepFour costs marks colCover rowCover nrows ncols firstPath =
     (case findUncoveredZero costs colCover rowCover nrows ncols of
        None \<Rightarrow> Inr (6, marks, colCover, rowCover, firstPath)
      | Some (row, col) \<Rightarrow>
          let marks = marks[idx nrows row col := Prime] in
          if isStarInRow marks row nrows ncols then
            case findStarInRow marks row nrows ncols of
              None \<Rightarrow> Inl (Undefined ''colCover[-1]'')
            | Some c \<Rightarrow>
                if row < length rowCover
                then stepFour costs marks (colCover[c := 0]) (rowCover[row := 1]) nrows ncols firstPath
                else Inl (Undefined ''rowCover'')
          else Inr (5, marks, colCover, rowCover, Some (row, col)))"
  by pat_completeness auto

lemma findUncoveredZero_cell:
  assumes "findUncoveredZero costs colCover rowCover nrows ncols = Some (row, col)"
  shows "row < nrows" "col < ncols" "costs ! idx nrows row col = 0"
    "colCover ! col = 0" "rowCover ! row = 0"
  using assms by (auto simp: findUncoveredZero_def find_Some_iff colMajor_def dest!: nth_mem)

lemma count_cover_less:
  assumes "row < length rowCover" and "rowCover ! row = (0 :: nat)"
  shows "count_list (rowCover[row := 1]) 0 < count_list rowCover 0"
proof -
  have "rowCover = take row rowCover @ 0 # drop (Suc row) rowCover"
    using assms id_take_nth_drop by metis
  moreover have "rowCover[row := 1] = take row rowCover @ 1 # drop (Suc row) rowCover"
    using assms(1) by (rule upd_conv_take_nth_drop)
  ultimately have "count_list rowCover 0
        = count_list (take row rowCover) 0 + Suc (count_list (drop (Suc row) rowCover) 0)"
      "count_list (rowCover[row := 1]) 0
        = count_list (take row rowCover) 0 + count_list (drop (Suc row) rowCover) 0"
    by (metis count_list.simps(2) count_list_append add_Suc_right Suc_eq_plus1,
        metis count_list.simps(2) count_list_append one_neq_zero)
  then show ?thesis by simp
qed

termination stepFour
  by (relation "measure (\<lambda>(_, _, _, rowCover, _). count_list rowCover 0)")
    (auto dest: findUncoveredZero_cell(5) intro!: count_cover_less [unfolded One_nat_def])

declare stepFour.simps [simp del]

definition findStarInCol :: "mark list \<Rightarrow> nat \<Rightarrow> nat \<Rightarrow> nat option" where
  "findStarInCol masks col nrows = List.find (\<lambda>r. masks ! idx nrows r col = Star) [0..<nrows]"

definition findPrimeInRow :: "mark list \<Rightarrow> nat \<Rightarrow> nat \<Rightarrow> nat \<Rightarrow> nat option" where
  "findPrimeInRow masks row nrows ncols =
     List.find (\<lambda>c. masks ! idx nrows row c = Prime) [0..<ncols]"

definition augmentPaths :: "(nat \<times> nat) list \<Rightarrow> mark list \<Rightarrow> nat \<Rightarrow> mark list" where
  "augmentPaths paths marks nrows =
     fold (\<lambda>(row, col) marks.
         if marks ! idx nrows row col = Star then marks[idx nrows row col := NoMark]
         else marks[idx nrows row col := Star]) paths marks"

definition erasePrimes :: "mark list \<Rightarrow> nat \<Rightarrow> nat \<Rightarrow> mark list" where
  "erasePrimes marks nrows ncols =
     fold (\<lambda>(r, c) marks.
         if marks ! idx nrows r c = Prime then marks[idx nrows r c := NoMark] else marks)
       (colMajor nrows ncols) marks"

text \<open>
  The loop of step five appends to the array \<^verbatim>\<open>path\<close> the star of the last column and the prime of its
  row, until the last column has no star.  \<open>room\<close> is the number of entries left in the array; a row
  without a prime puts column \<open>-1\<close> on the path, from which the next round reads.
\<close>

fun followPath ::
    "mark list \<Rightarrow> nat \<Rightarrow> nat \<Rightarrow> nat \<Rightarrow> (nat \<times> nat) list \<Rightarrow> (nat \<times> nat) list result" where
  "followPath marks nrows ncols room path =
     (case findStarInCol marks (snd (last path)) nrows of
        None \<Rightarrow> Inr path
      | Some r \<Rightarrow>
          if room < 2 then Inl (Undefined ''path'')
          else case findPrimeInRow marks r nrows ncols of
              None \<Rightarrow> Inl (Undefined ''marks[-nrows]'')
            | Some c \<Rightarrow>
                followPath marks nrows ncols (room - 2) (path @ [(r, snd (last path)), (r, c)]))"

declare followPath.simps [simp del]

definition stepFive ::
    "mark list \<Rightarrow> nat list \<Rightarrow> nat list \<Rightarrow> nat \<Rightarrow> (nat \<times> nat) option \<Rightarrow> nat \<Rightarrow> nat
      \<Rightarrow> (nat \<times> mark list \<times> nat list \<times> nat list) result" where
  "stepFive marks colCover rowCover pathSize firstPath nrows ncols =
     (case firstPath of
        None \<Rightarrow> Inl (Undefined ''firstPathRow'')
      | Some first \<Rightarrow>
          if pathSize < 1 then Inl (Undefined ''path'')
          else rbind (followPath marks nrows ncols (pathSize - 1) [first]) (\<lambda>path.
            let marks = augmentPaths path marks nrows;
                colCover = clearCover colCover ncols;
                rowCover = clearCover rowCover nrows;
                marks = erasePrimes marks nrows ncols
            in Inr (3, marks, colCover, rowCover)))"

definition findSmallestNotCovered ::
    "real list \<Rightarrow> nat list \<Rightarrow> nat list \<Rightarrow> nat \<Rightarrow> nat \<Rightarrow> real" where
  "findSmallestNotCovered costs colCover rowCover nrows ncols =
     fold (\<lambda>(r, c) minValue.
         if colCover ! c = 0 \<and> rowCover ! r = 0
         then let cost = costs ! idx nrows r c in if cost < minValue then cost else minValue
         else minValue)
       (colMajor nrows ncols) fltMax"

definition stepSix :: "real list \<Rightarrow> nat list \<Rightarrow> nat list \<Rightarrow> nat \<Rightarrow> nat \<Rightarrow> nat \<times> real list" where
  "stepSix costs colCover rowCover nrows ncols =
     (let minVal = findSmallestNotCovered costs colCover rowCover nrows ncols in
      (4, fold (\<lambda>(r, c) costs.
            let costs = (if rowCover ! r = 1
                         then costs[idx nrows r c := costs ! idx nrows r c + minVal] else costs)
            in if colCover ! c = 0
               then costs[idx nrows r c := costs ! idx nrows r c - minVal] else costs)
          (colMajor nrows ncols) costs))"

definition stepSeven ::
    "mark list \<Rightarrow> nat list \<Rightarrow> nat list \<Rightarrow> nat \<Rightarrow> nat \<Rightarrow> (nat list \<times> nat list) result" where
  "stepSeven marks rowIdxs colIdxs M N =
     rbind
       (rfold (\<lambda>(r, c) (i, rowIdxs, colIdxs).
            if marks ! idx M r c = Star then
              if i < length rowIdxs \<and> i < length colIdxs
              then Inr (i + 1, rowIdxs[i := r], colIdxs[i := c])
              else Inl (Undefined ''rowIdxs'')
            else Inr (i, rowIdxs, colIdxs))
          (rowMajor M N) (0, rowIdxs, colIdxs))
       (\<lambda>(i, rowIdxs, colIdxs). Inr (rowIdxs, colIdxs))"

subsection \<open>The driver\<close>

text \<open>
  The local variables of \<^verbatim>\<open>hungarian\<close> and the arrays it works on.  The switch has no default: any
  other step number leaves the state as it is, and the loop never ends.  \<open>hungarianLoop\<close> is
  \<^const>\<open>None\<close> for a loop that does not end.
\<close>

record hstate =
  hcosts :: "real list"
  hmarks :: "mark list"
  hcolCover :: "nat list"
  hrowCover :: "nat list"
  hfirstPath :: "(nat \<times> nat) option"
  hstep :: nat

definition hungarianStep :: "nat \<Rightarrow> nat \<Rightarrow> hstate \<Rightarrow> hstate result" where
  "hungarianStep M N s =
     (if hstep s = 1 then
        (let (step, costs) = stepOne (hcosts s) M N in Inr (s\<lparr>hcosts := costs, hstep := step\<rparr>))
      else if hstep s = 2 then
        (let (step, marks, colCover, rowCover) =
               stepTwo (hcosts s) (hmarks s) (hcolCover s) (hrowCover s) M N
         in Inr (s\<lparr>hmarks := marks, hcolCover := colCover, hrowCover := rowCover, hstep := step\<rparr>))
      else if hstep s = 3 then
        (let (step, colCover) = stepThree (hmarks s) (hcolCover s) M N
         in Inr (s\<lparr>hcolCover := colCover, hstep := step\<rparr>))
      else if hstep s = 4 then
        rbind (stepFour (hcosts s) (hmarks s) (hcolCover s) (hrowCover s) M N (hfirstPath s))
          (\<lambda>(step, marks, colCover, rowCover, firstPath).
             Inr (s\<lparr>hmarks := marks, hcolCover := colCover, hrowCover := rowCover,
                    hfirstPath := firstPath, hstep := step\<rparr>))
      else if hstep s = 5 then
        rbind (stepFive (hmarks s) (hcolCover s) (hrowCover s) (N * N) (hfirstPath s) M N)
          (\<lambda>(step, marks, colCover, rowCover).
             Inr (s\<lparr>hmarks := marks, hcolCover := colCover, hrowCover := rowCover, hstep := step\<rparr>))
      else if hstep s = 6 then
        (let (step, costs) = stepSix (hcosts s) (hcolCover s) (hrowCover s) M N
         in Inr (s\<lparr>hcosts := costs, hstep := step\<rparr>))
      else Inr s)"

definition hungarianLoop :: "nat \<Rightarrow> nat \<Rightarrow> hstate \<Rightarrow> hstate result option" where
  "hungarianLoop M N s =
     while_option (\<lambda>res. case res of Inl _ \<Rightarrow> False | Inr s \<Rightarrow> hstep s \<noteq> 7)
       (\<lambda>res. rbind res (hungarianStep M N)) (Inr s)"

definition hungarian_assignments ::
    "real list \<Rightarrow> mark list \<Rightarrow> nat \<Rightarrow> nat \<Rightarrow> (real list \<times> mark list) result option" where
  "hungarian_assignments costs assignments M N =
     (if \<not> N \<ge> M then Some (Inl (Logic_error ''assert(N >= M)''))
      else if N * N * 2 \<ge> 2 ^ 31 then Some (Inl (Undefined ''N * N * 2''))
      else map_option (\<lambda>res. rbind res (\<lambda>s. Inr (hcosts s, hmarks s)))
        (hungarianLoop M N \<lparr>hcosts = costs, hmarks = assignments, hcolCover = replicate N 0,
           hrowCover = replicate M 0, hfirstPath = None, hstep = 1\<rparr>))"

definition hungarian ::
    "real list \<Rightarrow> nat list \<Rightarrow> nat list \<Rightarrow> nat \<Rightarrow> nat \<Rightarrow> (real list \<times> nat list \<times> nat list) result option"
where
  "hungarian costs rowIdxs colIdxs M N =
     map_option (\<lambda>res. rbind res (\<lambda>(costs, marks).
         rbind (stepSeven marks rowIdxs colIdxs M N) (\<lambda>(rowIdxs, colIdxs).
           Inr (costs, rowIdxs, colIdxs))))
       (hungarian_assignments costs (replicate (M * N) NoMark) M N)"

end
