(* ===== verification/HungarianArrays.thy ===== *)
theory HungarianArrays
  imports Hungarian
begin

section \<open>Linear sum assignment: what the loops compute\<close>

text \<open>
  The flat arrays seen as relations between rows and columns, and the effect of each loop on them.
\<close>

subsection \<open>Cells of the flat arrays\<close>

lemma idx_less [simp]: "r < M \<Longrightarrow> c < N \<Longrightarrow> idx M r c < M * N"
proof -
  assume "r < M" "c < N"
  then have "c * M + r < Suc c * M" by simp
  also have "\<dots> \<le> N * M" using \<open>c < N\<close> by (intro mult_le_mono1) simp
  finally show ?thesis by (simp add: idx_def mult.commute)
qed

lemma idx_eq_iff [simp]:
  assumes "r < M" "r' < M"
  shows "idx M r c = idx M r' c' \<longleftrightarrow> r = r' \<and> c = c'"
proof
  assume eq: "idx M r c = idx M r' c'"
  have "r = (c * M + r) mod M" "c = (c * M + r) div M" using assms by auto
  moreover have "r' = (c' * M + r') mod M" "c' = (c' * M + r') div M" using assms by auto
  ultimately show "r = r' \<and> c = c'" using eq by (metis idx_def)
qed simp

lemma set_colMajor [simp]: "set (colMajor M N) = {..<M} \<times> {..<N}"
  by (auto simp: colMajor_def)

lemma set_rowMajor [simp]: "set (rowMajor M N) = {..<M} \<times> {..<N}"
  by (auto simp: rowMajor_def)

lemma rowMajor_product: "rowMajor M N = List.product [0..<M] [0..<N]"
  by (simp add: rowMajor_def product_concat_map)

lemma colMajor_product: "colMajor M N = map prod.swap (List.product [0..<N] [0..<M])"
  by (simp add: colMajor_def product_concat_map map_concat comp_def)

lemma distinct_colMajor [simp]: "distinct (colMajor M N)"
  by (simp add: colMajor_product distinct_map distinct_product)

lemma distinct_rowMajor [simp]: "distinct (rowMajor M N)"
  by (simp add: rowMajor_product distinct_product)

text \<open>The value of a cell after a loop that visits each cell at most once and updates it alone.\<close>

lemma fold_update_cells:
  assumes "distinct cells" and "\<forall>(r, c)\<in>set cells. r < M \<and> idx M r c < L"
    and upd: "\<And>r c xs. (r, c) \<in> set cells \<Longrightarrow> length xs = L \<Longrightarrow>
      f (r, c) xs = xs[idx M r c := g r c (xs ! idx M r c)]"
    and "r < M" and "length xs = L" and "idx M r c < L"
  shows "length (fold f cells xs) = L \<and>
    fold f cells xs ! idx M r c
      = (if (r, c) \<in> set cells then g r c (xs ! idx M r c) else xs ! idx M r c)"
  using assms(1,2,3,5)
proof (induction cells arbitrary: xs)
  case (Cons cell cells)
  obtain r1 c1 where cell: "cell = (r1, c1)" by (cases cell)
  let ?xs = "xs[idx M r1 c1 := g r1 c1 (xs ! idx M r1 c1)]"
  have "fold f (cell # cells) xs = fold f cells ?xs" using Cons.prems(3,4) cell by simp
  moreover have "r1 < M" "idx M r1 c1 < L" using Cons.prems(2) cell by auto
  moreover have "length (fold f cells ?xs) = L \<and> fold f cells ?xs ! idx M r c
      = (if (r, c) \<in> set cells then g r c (?xs ! idx M r c) else ?xs ! idx M r c)"
    using Cons.prems by (intro Cons.IH) auto
  moreover have "?xs ! idx M r c = (if (r, c) = (r1, c1) then g r c (xs ! idx M r c) else xs ! idx M r c)"
    using \<open>r < M\<close> \<open>r1 < M\<close> \<open>idx M r1 c1 < L\<close> Cons.prems(4)
      idx_eq_iff [of r1 M r c1 c] by (cases "(r, c) = (r1, c1)") (auto simp: nth_list_update)
  ultimately show ?case
    using Cons.prems(1) cell by auto
qed (use assms(6) in simp)

lemma length_fold_pres:
  assumes "\<And>x xs. x \<in> set ys \<Longrightarrow> length (f x xs) = length xs"
  shows "length (fold f ys xs) = length xs"
  using assms by (induction ys arbitrary: xs) auto

subsection \<open>Stars, primes, covered lines and zeros as sets\<close>

definition starSet :: "nat \<Rightarrow> nat \<Rightarrow> mark list \<Rightarrow> (nat \<times> nat) set" where
  "starSet M N marks = {(r, c). r < M \<and> c < N \<and> marks ! idx M r c = Star}"

definition primeSet :: "nat \<Rightarrow> nat \<Rightarrow> mark list \<Rightarrow> (nat \<times> nat) set" where
  "primeSet M N marks = {(r, c). r < M \<and> c < N \<and> marks ! idx M r c = Prime}"

definition zeroSet :: "nat \<Rightarrow> nat \<Rightarrow> real list \<Rightarrow> (nat \<times> nat) set" where
  "zeroSet M N costs = {(r, c). r < M \<and> c < N \<and> costs ! idx M r c = 0}"

definition coveredSet :: "nat \<Rightarrow> nat list \<Rightarrow> nat set" where
  "coveredSet n cover = {i. i < n \<and> cover ! i \<noteq> 0}"

definition isCover :: "nat \<Rightarrow> nat list \<Rightarrow> bool" where
  "isCover n cover \<longleftrightarrow> length cover = n \<and> set cover \<subseteq> {0, 1}"

lemma coveredSet_subset: "coveredSet n cover \<subseteq> {..<n}"
  by (auto simp: coveredSet_def)

lemma finite_coveredSet [simp]: "finite (coveredSet n cover)"
  using finite_subset [OF coveredSet_subset] by blast

lemma starSet_subset: "starSet M N marks \<subseteq> {..<M} \<times> {..<N}"
  by (auto simp: starSet_def)

lemma finite_starSet [simp]: "finite (starSet M N marks)"
  using finite_subset [OF starSet_subset] by blast

lemma star_prime_disjoint: "starSet M N marks \<inter> primeSet M N marks = {}"
  by (auto simp: starSet_def primeSet_def)

lemma isCover_update [simp]: "isCover n cover \<Longrightarrow> x \<in> {0, 1} \<Longrightarrow> isCover n (cover[i := x])"
  by (auto simp: isCover_def dest!: subsetD [OF set_update_subset_insert])

lemma isCover_replicate [simp]: "isCover n (replicate n 0)"
  by (auto simp: isCover_def)

lemma isCover_nth: "isCover n cover \<Longrightarrow> i < n \<Longrightarrow> cover ! i = (if i \<in> coveredSet n cover then 1 else 0)"
  by (auto simp: isCover_def coveredSet_def dest!: nth_mem)

lemma covered_one: "isCover n cover \<Longrightarrow> i < n \<Longrightarrow> coveredSet n (cover[i := 1]) = insert i (coveredSet n cover)"
  by (auto simp: isCover_def coveredSet_def nth_list_update)

lemmas covered_Suc_0 = covered_one [unfolded One_nat_def]

lemma covered_zero: "isCover n cover \<Longrightarrow> i < n \<Longrightarrow> coveredSet n (cover[i := 0]) = coveredSet n cover - {i}"
  by (auto simp: isCover_def coveredSet_def nth_list_update)

lemma covered_replicate [simp]: "coveredSet n (replicate n 0) = {}"
  by (auto simp: coveredSet_def)

lemma starSet_prime:
  assumes "length marks = M * N" "r < M" "c < N"
  shows "starSet M N (marks[idx M r c := Prime]) = starSet M N marks - {(r, c)}"
  using assms by (auto simp: starSet_def nth_list_update split: if_splits)

lemma primeSet_prime:
  assumes "length marks = M * N" "r < M" "c < N"
  shows "primeSet M N (marks[idx M r c := Prime]) = insert (r, c) (primeSet M N marks)"
  using assms by (auto simp: primeSet_def nth_list_update split: if_splits)

lemma starSet_star:
  assumes "length marks = M * N" "r < M" "c < N"
  shows "starSet M N (marks[idx M r c := Star]) = insert (r, c) (starSet M N marks)"
  using assms by (auto simp: starSet_def nth_list_update split: if_splits)

lemma primeSet_star:
  assumes "length marks = M * N" "r < M" "c < N"
  shows "primeSet M N (marks[idx M r c := Star]) = primeSet M N marks - {(r, c)}"
  using assms by (auto simp: primeSet_def nth_list_update split: if_splits)

lemma starSet_replicate [simp]: "starSet M N (replicate (M * N) NoMark) = {}"
  by (auto simp: starSet_def)

lemma primeSet_replicate [simp]: "primeSet M N (replicate (M * N) NoMark) = {}"
  by (auto simp: primeSet_def)

subsection \<open>The searches\<close>

lemma find_not_None_iff: "(\<exists>x. List.find P xs = Some x) \<longleftrightarrow> (\<exists>x\<in>set xs. P x)"
  by (metis find_None_iff not_None_eq)

lemma find_SomeD: "List.find P xs = Some x \<Longrightarrow> x \<in> set xs \<and> P x"
  by (auto simp: find_Some_iff)

lemma uncoveredZero_Some:
  assumes "findUncoveredZero costs colCover rowCover M N = Some (r, c)"
  shows "(r, c) \<in> zeroSet M N costs" "r \<notin> coveredSet M rowCover" "c \<notin> coveredSet N colCover"
    "r < M" "c < N"
  using findUncoveredZero_cell [OF assms] by (auto simp: zeroSet_def coveredSet_def)

lemma uncoveredZero_None:
  "findUncoveredZero costs colCover rowCover M N = None \<longleftrightarrow>
     (\<forall>(r, c)\<in>zeroSet M N costs. r \<in> coveredSet M rowCover \<or> c \<in> coveredSet N colCover)"
proof -
  have "findUncoveredZero costs colCover rowCover M N = None \<longleftrightarrow> (\<forall>r<M. \<forall>c<N.
      \<not> (costs ! idx M r c = 0 \<and> colCover ! c = 0 \<and> rowCover ! r = 0))"
    unfolding findUncoveredZero_def find_None_iff by force
  also have "\<dots> \<longleftrightarrow> (\<forall>r c. r < M \<and> c < N \<and> costs ! idx M r c = 0 \<longrightarrow>
      r < M \<and> rowCover ! r \<noteq> 0 \<or> c < N \<and> colCover ! c \<noteq> 0)"
    by metis
  finally show ?thesis by (simp add: zeroSet_def coveredSet_def)
qed

lemma isStarInRow_iff: "row < M \<Longrightarrow> isStarInRow marks row M N \<longleftrightarrow> row \<in> fst ` starSet M N marks"
  by (force simp: isStarInRow_def starSet_def)

lemma findStarInRow_Some:
  "row < M \<Longrightarrow> findStarInRow marks row M N = Some c \<Longrightarrow> (row, c) \<in> starSet M N marks"
  by (auto simp: findStarInRow_def starSet_def dest!: find_SomeD)

lemma findStarInRow_None:
  "row < M \<Longrightarrow> findStarInRow marks row M N = None \<Longrightarrow> row \<notin> fst ` starSet M N marks"
  by (auto simp: findStarInRow_def starSet_def find_None_iff)

lemma findStarInCol_Some:
  "col < N \<Longrightarrow> findStarInCol marks col M = Some r \<Longrightarrow> (r, col) \<in> starSet M N marks"
  by (auto simp: findStarInCol_def starSet_def dest!: find_SomeD)

lemma findStarInCol_None:
  "col < N \<Longrightarrow> findStarInCol marks col M = None \<Longrightarrow> (r, col) \<notin> starSet M N marks"
  by (auto simp: findStarInCol_def starSet_def find_None_iff)

lemma findPrimeInRow_Some:
  "row < M \<Longrightarrow> findPrimeInRow marks row M N = Some c \<Longrightarrow> (row, c) \<in> primeSet M N marks"
  by (auto simp: findPrimeInRow_def primeSet_def dest!: find_SomeD)

lemma findPrimeInRow_None:
  "row < M \<Longrightarrow> findPrimeInRow marks row M N = None \<Longrightarrow> (row, c) \<notin> primeSet M N marks"
  by (auto simp: findPrimeInRow_def primeSet_def find_None_iff)

subsection \<open>Minima\<close>

lemma fold_minimum:
  fixes b m :: real
  assumes m_def: "m = fold (\<lambda>x b. if P x then if h x < b then h x else b else b) xs b"
  shows "m \<le> b \<and> (\<forall>x\<in>set xs. P x \<longrightarrow> m \<le> h x) \<and> (m = b \<or> (\<exists>x\<in>set xs. P x \<and> m = h x))"
  unfolding m_def
proof (induction xs arbitrary: b)
  case (Cons x xs)
  let ?b = "if P x then if h x < b then h x else b else b"
  have b: "?b \<le> b" "P x \<Longrightarrow> ?b \<le> h x" "?b = b \<or> P x \<and> ?b = h x" by auto
  then show ?case using Cons.IH [of ?b] by (auto intro: order_trans)
qed simp

lemma rowMinimum_spec:
  assumes "0 < N" and "\<And>c. c < N \<Longrightarrow> costs ! idx M r c < fltMax"
  shows "(\<forall>c<N. rowMinimum costs M N r \<le> costs ! idx M r c) \<and>
    (\<exists>c<N. rowMinimum costs M N r = costs ! idx M r c)"
proof -
  have "rowMinimum costs M N r = fold (\<lambda>c b. if True then if costs ! idx M r c < b
      then costs ! idx M r c else b else b) [0..<N] fltMax"
    by (simp add: rowMinimum_def Let_def)
  note min = fold_minimum [OF this]
  moreover have "rowMinimum costs M N r \<noteq> fltMax"
    using min assms by (fastforce dest: bspec [where x = 0])
  ultimately show ?thesis by auto
qed

lemma findSmallestNotCovered_spec:
  assumes m_def: "m = findSmallestNotCovered costs colCover rowCover M N"
    and free_def: "free = ({..<M} - coveredSet M rowCover) \<times> ({..<N} - coveredSet N colCover)"
    and "(r0, c0) \<in> free" and "costs ! idx M r0 c0 < fltMax"
  shows "(\<forall>(r, c)\<in>free. m \<le> costs ! idx M r c) \<and> (\<exists>(r, c)\<in>free. m = costs ! idx M r c)"
proof -
  let ?P = "\<lambda>(r, c). colCover ! c = 0 \<and> rowCover ! r = 0"
  have "m = fold (\<lambda>x b. if ?P x then if (case x of (r, c) \<Rightarrow> costs ! idx M r c) < b
      then (case x of (r, c) \<Rightarrow> costs ! idx M r c) else b else b) (colMajor M N) fltMax"
    unfolding m_def findSmallestNotCovered_def by (rule fold_cong) (auto simp: Let_def)
  note min = fold_minimum [OF this]
  have free: "free = {x \<in> set (colMajor M N). ?P x}"
    by (auto simp: free_def coveredSet_def)
  have "m \<le> costs ! idx M r0 c0" using min \<open>(r0, c0) \<in> free\<close> free by auto
  then have "m \<noteq> fltMax" using assms(4) by simp
  then show ?thesis using min free by auto
qed


subsection \<open>What each step leaves in the arrays\<close>

lemma rowMinimum_cong:
  assumes "\<And>c. c < N \<Longrightarrow> costs ! idx M r c = costs' ! idx M r c"
  shows "rowMinimum costs M N r = rowMinimum costs' M N r"
  unfolding rowMinimum_def by (rule fold_cong) (use assms in auto)

lemma subtract_row:
  fixes m :: real
  assumes "r1 < M" "r < M" "c < N" "length xs = M * N"
  defines "ys \<equiv> fold (\<lambda>c xs. xs[idx M r1 c := xs ! idx M r1 c - m]) [0..<N] xs"
  shows "length ys = M * N \<and> ys ! idx M r c = (if r = r1 then xs ! idx M r c - m else xs ! idx M r c)"
proof -
  let ?f = "\<lambda>(r, c) xs. xs[idx M r c := xs ! idx M r c - m]"
  have "length (fold ?f (map (Pair r1) [0..<N]) xs) = M * N \<and>
      fold ?f (map (Pair r1) [0..<N]) xs ! idx M r c
      = (if (r, c) \<in> set (map (Pair r1) [0..<N]) then (\<lambda>_ _ x. x - m) r c (xs ! idx M r c)
         else xs ! idx M r c)"
    by (rule fold_update_cells) (use assms in \<open>auto simp: distinct_map inj_on_def\<close>)
  moreover have "ys = fold ?f (map (Pair r1) [0..<N]) xs"
    by (simp add: ys_def fold_map comp_def)
  ultimately show ?thesis using assms by auto
qed

lemma stepOne_costs:
  assumes "length costs = M * N" "r < M" "c < N"
  shows "length (snd (stepOne costs M N)) = M * N"
    and "snd (stepOne costs M N) ! idx M r c = costs ! idx M r c - rowMinimum costs M N r"
proof -
  define F where "F = (\<lambda>k. fold (\<lambda>r costs. let min_val = rowMinimum costs M N r in
        fold (\<lambda>c costs. costs[idx M r c := costs ! idx M r c - min_val]) [0..<N] costs) [0..<k] costs)"
  have "length (F k) = M * N \<and> (\<forall>r<M. \<forall>c<N. F k ! idx M r c
      = (if r < k then costs ! idx M r c - rowMinimum costs M N r else costs ! idx M r c))"
    if "k \<le> M" for k
    using that
  proof (induction k)
    case 0
    then show ?case using assms by (simp add: F_def)
  next
    case (Suc k)
    then have IH: "length (F k) = M * N"
        "\<And>r c. r < M \<Longrightarrow> c < N \<Longrightarrow> F k ! idx M r c = (if r < k then costs ! idx M r c
           - rowMinimum costs M N r else costs ! idx M r c)" and k: "k < M" by auto
    have "rowMinimum (F k) M N k = rowMinimum costs M N k"
      by (rule rowMinimum_cong) (simp add: IH(2) k)
    then have F: "F (Suc k) = fold (\<lambda>c xs. xs[idx M k c := xs ! idx M k c - rowMinimum costs M N k]) [0..<N] (F k)"
      by (simp add: F_def Let_def)
    have "length (F (Suc k)) = M * N" unfolding F using IH(1) by (subst length_fold_pres) auto
    moreover have "F (Suc k) ! idx M r c
        = (if r < Suc k then costs ! idx M r c - rowMinimum costs M N r else costs ! idx M r c)"
      if "r < M" "c < N" for r c
      unfolding F using subtract_row [OF k that IH(1)] IH(2) [OF that] by (auto simp: less_Suc_eq)
    ultimately show ?case by blast
  qed
  from this [of M] show "length (snd (stepOne costs M N)) = M * N"
    and "snd (stepOne costs M N) ! idx M r c = costs ! idx M r c - rowMinimum costs M N r"
    using assms by (auto simp: stepOne_def F_def)
qed

lemma clearCover_eq [simp]: "length cover = n \<Longrightarrow> clearCover cover n = replicate n 0"
proof -
  have "length (clearCover cover k) = length cover \<and> (\<forall>i<length cover. clearCover cover k ! i
      = (if i < k then 0 else cover ! i))" for k
    by (induction k) (auto simp: clearCover_def nth_list_update less_Suc_eq)
  then show "length cover = n \<Longrightarrow> ?thesis" by (auto intro!: nth_equalityI)
qed

lemma stepSix_costs:
  assumes "length costs = M * N" "r < M" "c < N" "isCover M rowCover"
  shows "length (snd (stepSix costs colCover rowCover M N)) = M * N"
    and "snd (stepSix costs colCover rowCover M N) ! idx M r c = costs ! idx M r c
      + (if r \<in> coveredSet M rowCover then findSmallestNotCovered costs colCover rowCover M N else 0)
      - (if c \<in> coveredSet N colCover then 0 else findSmallestNotCovered costs colCover rowCover M N)"
proof -
  let ?m = "findSmallestNotCovered costs colCover rowCover M N"
  let ?f = "\<lambda>(r, c) costs.
            let costs = (if rowCover ! r = 1
                         then costs[idx M r c := costs ! idx M r c + ?m] else costs)
            in if colCover ! c = 0
               then costs[idx M r c := costs ! idx M r c - ?m] else costs"
  let ?g = "\<lambda>r c x. x + (if rowCover ! r = 1 then ?m else 0) - (if colCover ! c = 0 then ?m else 0)"
  have "length (fold ?f (colMajor M N) costs) = M * N \<and> fold ?f (colMajor M N) costs ! idx M r c
      = (if (r, c) \<in> set (colMajor M N) then ?g r c (costs ! idx M r c) else costs ! idx M r c)"
    by (rule fold_update_cells) (use assms in \<open>auto simp: Let_def\<close>)
  moreover have "rowCover ! r = 1 \<longleftrightarrow> r \<in> coveredSet M rowCover"
    using assms isCover_nth [of M rowCover r] by simp
  moreover have "colCover ! c = 0 \<longleftrightarrow> c \<notin> coveredSet N colCover"
    using assms by (simp add: coveredSet_def)
  ultimately show "length (snd (stepSix costs colCover rowCover M N)) = M * N"
    and "snd (stepSix costs colCover rowCover M N) ! idx M r c = costs ! idx M r c
      + (if r \<in> coveredSet M rowCover then ?m else 0) - (if c \<in> coveredSet N colCover then 0 else ?m)"
    using assms by (simp_all add: stepSix_def Let_def)
qed

lemma erasePrimes_sets:
  assumes "length marks = M * N"
  shows "length (erasePrimes marks M N) = M * N"
    and "starSet M N (erasePrimes marks M N) = starSet M N marks"
    and "primeSet M N (erasePrimes marks M N) = {}"
proof -
  let ?f = "\<lambda>(r, c) marks. if marks ! idx M r c = Prime then marks[idx M r c := NoMark] else marks"
  show len: "length (erasePrimes marks M N) = M * N"
    unfolding erasePrimes_def using assms by (subst length_fold_pres) auto
  have "erasePrimes marks M N ! idx M r c = (if marks ! idx M r c = Prime then NoMark else marks ! idx M r c)"
    if "r < M" "c < N" for r c
  proof -
    have "length (fold ?f (colMajor M N) marks) = M * N \<and> fold ?f (colMajor M N) marks ! idx M r c
        = (if (r, c) \<in> set (colMajor M N) then if marks ! idx M r c = Prime then NoMark
             else marks ! idx M r c else marks ! idx M r c)"
      by (rule fold_update_cells) (use that assms in auto)
    then show ?thesis using that by (simp add: erasePrimes_def)
  qed
  then show "starSet M N (erasePrimes marks M N) = starSet M N marks"
    and "primeSet M N (erasePrimes marks M N) = {}"
    by (auto simp: starSet_def primeSet_def split: if_splits)
qed

lemma augmentPaths_sets:
  assumes "length marks = M * N" "distinct path" "set path \<subseteq> {..<M} \<times> {..<N}"
  shows "length (augmentPaths path marks M) = M * N"
    and "starSet M N (augmentPaths path marks M)
      = (starSet M N marks - set path) \<union> (set path - starSet M N marks)"
proof -
  let ?f = "\<lambda>(row, col) marks. if marks ! idx M row col = Star then marks[idx M row col := NoMark]
         else marks[idx M row col := Star]"
  show "length (augmentPaths path marks M) = M * N"
    unfolding augmentPaths_def using assms by (subst length_fold_pres) auto
  have "augmentPaths path marks M ! idx M r c = (if (r, c) \<in> set path
      then if marks ! idx M r c = Star then NoMark else Star else marks ! idx M r c)"
    if "r < M" "c < N" for r c
  proof -
    have "length (fold ?f path marks) = M * N \<and> fold ?f path marks ! idx M r c
        = (if (r, c) \<in> set path then (\<lambda>_ _ x. if x = Star then NoMark else Star) r c (marks ! idx M r c)
           else marks ! idx M r c)"
      by (rule fold_update_cells) (use that assms in auto)
    then show ?thesis using that by (simp add: augmentPaths_def)
  qed
  then show "starSet M N (augmentPaths path marks M)
      = (starSet M N marks - set path) \<union> (set path - starSet M N marks)"
    using assms(3) by (auto simp: starSet_def split: if_splits)
qed


text \<open>A set of cells without two in a row or two in a column.\<close>

definition isMatching :: "(nat \<times> nat) set \<Rightarrow> bool" where
  "isMatching S \<longleftrightarrow> inj_on fst S \<and> inj_on snd S"

lemma isMatching_empty [simp]: "isMatching {}"
  by (simp add: isMatching_def)

lemma isMatchingD:
  assumes "isMatching S"
  shows "(r, c) \<in> S \<Longrightarrow> (r, c') \<in> S \<Longrightarrow> c = c'" "(r, c) \<in> S \<Longrightarrow> (r', c) \<in> S \<Longrightarrow> r = r'"
  using assms unfolding isMatching_def inj_on_def by fastforce+

lemma isMatchingI:
  assumes "\<And>r c c'. (r, c) \<in> S \<Longrightarrow> (r, c') \<in> S \<Longrightarrow> c = c'"
    and "\<And>r r' c. (r, c) \<in> S \<Longrightarrow> (r', c) \<in> S \<Longrightarrow> r = r'"
  shows "isMatching S"
  using assms by (auto simp: isMatching_def inj_on_def)

lemma isMatching_insert:
  assumes "isMatching S" "r \<notin> fst ` S" "c \<notin> snd ` S"
  shows "isMatching (insert (r, c) S)"
  using assms by (auto simp: isMatching_def intro: rev_image_eqI)

lemma stepTwo_stars:
  assumes "length marks = M * N" "starSet M N marks = {}" "primeSet M N marks = {}"
  obtains marks' where
    "stepTwo costs marks (replicate N 0) (replicate M 0) M N = (3, marks', replicate N 0, replicate M 0)"
    "length marks' = M * N" "primeSet M N marks' = {}" "isMatching (starSet M N marks')"
    "starSet M N marks' \<subseteq> zeroSet M N costs"
proof -
  define I where "I = (\<lambda>(ms, cc, rc). length ms = M * N \<and> isCover N cc \<and> isCover M rc \<and>
    primeSet M N ms = {} \<and> isMatching (starSet M N ms) \<and> starSet M N ms \<subseteq> zeroSet M N costs \<and>
    coveredSet N cc = snd ` starSet M N ms \<and> coveredSet M rc = fst ` starSet M N ms)"
  let ?f = "\<lambda>(r, c) (ms, cc :: nat list, rc :: nat list). if costs ! idx M r c = 0 \<and> rc ! r = 0 \<and> cc ! c = 0
      then (ms[idx M r c := Star], cc[c := 1], rc[r := 1]) else (ms, cc, rc)"
  have "I (fold ?f (rowMajor M N) (marks, replicate N 0, replicate M 0))"
  proof (rule fold_invariant [where Q = "\<lambda>(r, c). r < M \<and> c < N"])
    show "I (marks, replicate N 0, replicate M 0)" using assms by (simp add: I_def)
    fix x s assume x: "case x of (r, c) \<Rightarrow> r < M \<and> c < N" and "I s"
    obtain r c ms cc rc where xs: "x = (r, c)" "s = (ms, cc, rc)" by (metis prod_cases3 surj_pair)
    show "I (?f x s)"
    proof (cases "costs ! idx M r c = 0 \<and> rc ! r = 0 \<and> cc ! c = 0")
      case True
      moreover have "r \<notin> coveredSet M rc" "c \<notin> coveredSet N cc" using True by (auto simp: coveredSet_def)
      ultimately show ?thesis
        using \<open>I s\<close> x unfolding xs I_def
        by (simp add: starSet_star primeSet_star covered_Suc_0 isMatching_insert [where r = r and c = c])
          (simp add: zeroSet_def)
    next
      case False
      then have "?f x s = s" unfolding xs by (simp only: prod.case if_False)
      then show ?thesis using \<open>I s\<close> by simp
    qed
  qed auto
  moreover obtain ms cc rc
    where res: "fold ?f (rowMajor M N) (marks, replicate N 0, replicate M 0) = (ms, cc, rc)"
    by (rule prod_cases3)
  ultimately have I: "I (ms, cc, rc)" by (simp only:)
  with res have "stepTwo costs marks (replicate N 0) (replicate M 0) M N = (3, ms, replicate N 0, replicate M 0)"
    by (simp add: stepTwo_def I_def isCover_def)
  then show thesis using that I by (simp add: I_def)
qed

lemma fold_add_cover:
  assumes "isCover n cover"
  shows "fold (\<lambda>c k. k + cover ! c) [0..<n] 0 = card (coveredSet n cover)"
proof -
  have "fold (\<lambda>c k. k + cover ! c) [0..<k] 0 = card (coveredSet n cover \<inter> {..<k})" if "k \<le> n" for k
    using that
  proof (induction k)
    case (Suc k)
    then have "coveredSet n cover \<inter> {..<Suc k} = (if k \<in> coveredSet n cover
        then insert k (coveredSet n cover \<inter> {..<k}) else coveredSet n cover \<inter> {..<k})"
      by (auto simp: less_Suc_eq)
    then show ?case using Suc isCover_nth [OF assms, of k] by simp
  qed simp
  moreover have "coveredSet n cover \<inter> {..<n} = coveredSet n cover" using coveredSet_subset by blast
  ultimately show ?thesis by (metis order_refl)
qed

lemma stepThree_cover:
  assumes "isMatching (starSet M N marks)" and "M \<le> N"
  obtains cover where
    "stepThree marks (replicate N 0) M N = (if card (starSet M N marks) \<ge> M then 7 else 4, cover)"
    "isCover N cover" "coveredSet N cover = snd ` starSet M N marks"
proof -
  let ?f = "\<lambda>(r, c) cc :: nat list. if marks ! idx M r c = Star then cc[c := 1] else cc"
  have "isCover N (fold ?f cells (replicate N 0)) \<and>
      coveredSet N (fold ?f cells (replicate N 0)) = snd ` (starSet M N marks \<inter> set cells)"
    if "set cells \<subseteq> {..<M} \<times> {..<N}" for cells
    using that
  proof (induction cells rule: rev_induct)
    case (snoc cell cells)
    obtain r c where "cell = (r, c)" by (cases cell)
    with snoc show ?case by (auto simp: covered_Suc_0 starSet_def)
  qed simp
  moreover define cover where "cover = fold ?f (rowMajor M N) (replicate N 0)"
  moreover have "starSet M N marks \<inter> set (rowMajor M N) = starSet M N marks"
    using starSet_subset by auto
  ultimately have cover: "isCover N cover" "coveredSet N cover = snd ` starSet M N marks" by auto
  have "fold (\<lambda>c k. k + cover ! c) [0..<N] 0 = card (starSet M N marks)"
    using assms(1) cover by (simp add: fold_add_cover isMatching_def card_image)
  then have "stepThree marks (replicate N 0) M N = (if card (starSet M N marks) \<ge> M then 7 else 4, cover)"
    using assms(2) by (auto simp: stepThree_def Let_def cover_def)
  then show thesis using that cover by blast
qed

end
