(* ===== verification/HungarianMatching.thy ===== *)
theory HungarianMatching
  imports HungarianArrays
begin

section \<open>Linear sum assignment: covers, augmenting paths and potentials\<close>

text \<open>
  The combinatorial part of the argument, on sets of cells.  \<open>S\<close> are the stars, \<open>P\<close> the primes, \<open>Z\<close>
  the zeros of the reduced costs, \<open>R\<close> and \<open>K\<close> the covered rows and columns.
\<close>

subsection \<open>The covers of steps four and six\<close>

text \<open>
  Each star is covered by exactly one line, each covered line has a star, each covered row has a
  prime, and each prime is a zero of a covered row in an uncovered column.  \<open>rk\<close> numbers the covered rows in
  the order in which they were covered: a star in the column of a prime lies in an earlier row.
\<close>

definition coverInv ::
    "(nat \<times> nat) set \<Rightarrow> (nat \<times> nat) set \<Rightarrow> (nat \<times> nat) set \<Rightarrow> nat set \<Rightarrow> nat set \<Rightarrow> (nat \<Rightarrow> nat) \<Rightarrow> bool"
where
  "coverInv S P Z R K rk \<longleftrightarrow>
     (\<forall>(r, c)\<in>S. (r \<in> R) \<noteq> (c \<in> K)) \<and> K \<subseteq> snd ` S \<and> R \<subseteq> fst ` S \<inter> fst ` P \<and>
     (\<forall>(r, c)\<in>P. r \<in> R \<and> c \<notin> K \<and> (r, c) \<in> Z) \<and> (\<forall>r\<in>R. rk r < card R) \<and>
     (\<forall>r c r'. (r, c) \<in> P \<longrightarrow> (r', c) \<in> S \<longrightarrow> rk r' < rk r)"

lemma coverInv_star: "coverInv S P Z R K rk \<Longrightarrow> (r, c) \<in> S \<Longrightarrow> r \<in> R \<longleftrightarrow> c \<notin> K"
  by (auto simp: coverInv_def)

lemma coverInv_prime:
  "coverInv S P Z R K rk \<Longrightarrow> (r, c) \<in> P \<Longrightarrow> r \<in> R \<and> c \<notin> K \<and> (r, c) \<in> Z"
  by (auto simp: coverInv_def)

lemma coverInv_rank: "coverInv S P Z R K rk \<Longrightarrow> (r, c) \<in> P \<Longrightarrow> (r', c) \<in> S \<Longrightarrow> rk r' < rk r"
  by (auto simp: coverInv_def)

lemma coverInv_init: "coverInv S {} Z {} (snd ` S) rk"
  by (force simp: coverInv_def)

lemma coverInv_cover:
  assumes inv: "coverInv S P Z R K rk" and "isMatching S" "finite R"
    and "(r, c) \<in> Z" "r \<notin> R" "c \<notin> K" "(r, k) \<in> S"
  shows "coverInv S (insert (r, c) P) Z (insert r R) (K - {k}) (rk(r := card R))"
proof -
  have star: "(r1 \<in> insert r R) \<noteq> (c1 \<in> K - {k})" if "(r1, c1) \<in> S" for r1 c1
    using that coverInv_star [OF inv that] isMatchingD [OF \<open>isMatching S\<close>] \<open>(r, k) \<in> S\<close> by blast
  have rank: "(rk(r := card R)) r2 < (rk(r := card R)) r1"
    if "(r1, c1) \<in> insert (r, c) P" "(r2, c1) \<in> S" for r1 r2 c1
  proof -
    have "c1 \<notin> K" using that(1) coverInv_prime [OF inv] \<open>c \<notin> K\<close> by blast
    then have "r2 \<in> R" using coverInv_star [OF inv that(2)] by blast
    moreover from this have "rk r2 < card R" using inv by (simp add: coverInv_def)
    ultimately show ?thesis
      using that coverInv_rank [OF inv] coverInv_prime [OF inv] \<open>r \<notin> R\<close> by fastforce
  qed
  have "rk r' < card R" if "r' \<in> R" for r' using inv that by (simp add: coverInv_def)
  moreover have "K \<subseteq> snd ` S" "R \<subseteq> fst ` S \<inter> fst ` P" using inv by (simp_all add: coverInv_def)
  moreover have "r \<in> fst ` S" using \<open>(r, k) \<in> S\<close> by force
  ultimately show ?thesis
    unfolding coverInv_def using star rank coverInv_prime [OF inv] assms(3-6) less_Suc_eq by auto
qed

subsection \<open>Augmenting paths\<close>

text \<open>
  A path that leaves column \<open>c\<close>: the star of \<open>c\<close>, the prime of its row, the star of the column of the
  prime, and so on, until a column has no star.
\<close>

fun altPath :: "(nat \<times> nat) set \<Rightarrow> (nat \<times> nat) set \<Rightarrow> nat \<Rightarrow> (nat \<times> nat) list \<Rightarrow> bool" where
  "altPath S P c [] \<longleftrightarrow> c \<notin> snd ` S"
| "altPath S P c [x] \<longleftrightarrow> False"
| "altPath S P c ((r, d) # (r', c') # path) \<longleftrightarrow>
     d = c \<and> r' = r \<and> (r, c) \<in> S \<and> (r, c') \<in> P \<and> altPath S P c' path"

lemma altPath_induct [consumes 1, case_names stop step]:
  assumes "altPath S P c path"
    and "\<And>c. c \<notin> snd ` S \<Longrightarrow> Q c []"
    and "\<And>r c c' path. (r, c) \<in> S \<Longrightarrow> (r, c') \<in> P \<Longrightarrow> altPath S P c' path \<Longrightarrow> Q c' path
      \<Longrightarrow> Q c ((r, c) # (r, c') # path)"
  shows "Q c path"
  using assms(1)
proof (induction path arbitrary: c rule: induct_list012)
  case (3 x y path)
  then show ?case using assms(3) by (cases x; cases y) auto
qed (use assms(2) in auto)

lemma altPath_cells: "altPath S P c path \<Longrightarrow> set path \<subseteq> S \<union> P"
  by (induction rule: altPath_induct) auto

lemma altPath_links:
  assumes "altPath S P c path"
  shows "(r, d) \<in> set path \<Longrightarrow> (\<exists>d'. (r, d') \<in> S \<inter> set path) \<and> (\<exists>d'. (r, d') \<in> P \<inter> set path)"
    and "(r, d) \<in> S \<inter> set path \<Longrightarrow> S \<inter> P = {} \<Longrightarrow> d = c \<or> (\<exists>r'. (r', d) \<in> P \<inter> set path)"
    and "isMatching S \<Longrightarrow> (r, d) \<in> S \<Longrightarrow> d = c \<or> (\<exists>r'. (r', d) \<in> P \<inter> set path) \<Longrightarrow> (r, d) \<in> set path"
proof -
  show "(r, d) \<in> set path \<Longrightarrow> (\<exists>d'. (r, d') \<in> S \<inter> set path) \<and> (\<exists>d'. (r, d') \<in> P \<inter> set path)"
    using assms by (induction rule: altPath_induct) auto
  show "(r, d) \<in> S \<inter> set path \<Longrightarrow> S \<inter> P = {} \<Longrightarrow> d = c \<or> (\<exists>r'. (r', d) \<in> P \<inter> set path)"
    using assms by (induction rule: altPath_induct) auto
  show "isMatching S \<Longrightarrow> (r, d) \<in> S \<Longrightarrow> d = c \<or> (\<exists>r'. (r', d) \<in> P \<inter> set path) \<Longrightarrow> (r, d) \<in> set path"
    using assms
  proof (induction rule: altPath_induct)
    case (stop c)
    then show ?case by force
  next
    case (step r1 c c' path)
    then show ?case using isMatchingD(2) [OF step.prems(1)] by auto
  qed
qed

text \<open>Ranks decrease along a path, so that it visits no row and no column twice.\<close>

lemma altPath_rank:
  fixes rk :: "nat \<Rightarrow> nat"
  assumes "altPath S P c path" and rank: "\<forall>r c r'. (r, c) \<in> P \<longrightarrow> (r', c) \<in> S \<longrightarrow> rk r' < rk r"
    and "\<And>r. (r, c) \<in> S \<Longrightarrow> rk r < n"
  shows "\<forall>(r, d)\<in>set path. rk r < n"
  using assms(1,3)
proof (induction arbitrary: n rule: altPath_induct)
  case (step r c c' path)
  then have "\<forall>(r1, d)\<in>set path. rk r1 < rk r" using rank by blast
  moreover have "rk r < n" using step by blast
  ultimately show ?case by (auto intro: less_trans)
qed simp

lemma altPath_distinct:
  fixes rk :: "nat \<Rightarrow> nat"
  assumes "altPath S P c path" and rank: "\<forall>r c r'. (r, c) \<in> P \<longrightarrow> (r', c) \<in> S \<longrightarrow> rk r' < rk r"
    and "S \<inter> P = {}" "isMatching S"
  shows "distinct path \<and> c \<notin> snd ` (P \<inter> set path) \<and> isMatching (P \<inter> set path)"
  using assms(1)
proof (induction rule: altPath_induct)
  case (step r c c' path)
  have lower: "rk r1 < rk r" if "(r1, d) \<in> set path" for r1 d
    using altPath_rank [where rk = rk and n = "rk r", OF step.hyps(3) rank] rank step.hyps(2) that by blast
  then have off: "(r, d) \<notin> set path" for d by blast
  have "(r1, c) \<notin> P" if "(r1, d) \<in> insert (r, c') (set path)" for r1 d
    using rank [rule_format, of r1 c r] step.hyps(1) lower that by force
  then have "c \<notin> snd ` (P \<inter> set ((r, c) # (r, c') # path))"
    using assms(3) step.hyps(1,2) by force
  moreover have "P \<inter> set ((r, c) # (r, c') # path) = insert (r, c') (P \<inter> set path)"
    using assms(3) step.hyps(1,2) by auto
  moreover have "isMatching (insert (r, c') (P \<inter> set path))"
    by (rule isMatching_insert) (use step.IH off in force)+
  moreover have "(r, c) \<noteq> (r, c')" using assms(3) step.hyps(1,2) by blast
  ultimately show ?case using step.IH off by simp
qed simp

subsection \<open>Flipping a path\<close>

text \<open>
  The stars after step five: \<open>(r0, c0)\<close> is the prime of the first path entry, in a row without a star.
  The new stars are again a matching; they occupy the old rows, the row \<open>r0\<close>, and the old columns.
\<close>

lemma flip_path:
  fixes rk :: "nat \<Rightarrow> nat"
  assumes path: "altPath S P c0 path" and rank: "\<forall>r c r'. (r, c) \<in> P \<longrightarrow> (r', c) \<in> S \<longrightarrow> rk r' < rk r"
    and disj: "S \<inter> insert (r0, c0) P = {}" and S: "isMatching S" and r0: "r0 \<notin> fst ` S"
    and T: "T = (S - set ((r0, c0) # path)) \<union> (set ((r0, c0) # path) - S)"
  shows "isMatching T" and "fst ` T = insert r0 (fst ` S)" and "snd ` S \<subseteq> snd ` T"
    and "T \<subseteq> S \<union> insert (r0, c0) P"
proof -
  have SP: "S \<inter> P = {}" using disj by blast
  note links = altPath_links [OF path]
  define Q where "Q = insert (r0, c0) (P \<inter> set path)"
  have "r0 \<notin> fst ` set path" using links(1) r0 by force
  then have Q: "isMatching Q"
    unfolding Q_def using altPath_distinct [where rk = rk, OF path rank SP S] by (intro isMatching_insert) auto
  have T': "T = (S - set path) \<union> Q"
    unfolding T Q_def using altPath_cells [OF path] disj by auto
  have row: "False" if "(r, c) \<in> S - set path" "(r, c') \<in> Q" for r c c'
  proof -
    have "(r, c') \<in> set path" using that r0 by (force simp: Q_def)
    then obtain d where "(r, d) \<in> S \<inter> set path" using links(1) by blast
    then show False using isMatchingD(1) [OF S] that by blast
  qed
  have col: "False" if "(r, c) \<in> S - set path" "(r', c) \<in> Q" for r r' c
    using links(3) [OF S, of r c] that by (auto simp: Q_def)
  show "isMatching T"
    unfolding T' using row col isMatchingD [OF S] isMatchingD [OF Q]
    by (intro isMatchingI) blast+
  have old: "r \<in> fst ` T" if "(r, c) \<in> S" for r c
  proof (cases "(r, c) \<in> set path")
    case True
    then obtain d where "(r, d) \<in> Q" using links(1) by (auto simp: Q_def)
    then show ?thesis unfolding T' by force
  qed (use that T' in force)
  have rowQ: "r = r0 \<or> r \<in> fst ` S" if "(r, c) \<in> Q" for r c
  proof (cases "(r, c) = (r0, c0)")
    case False
    with that have "(r, c) \<in> set path" by (auto simp: Q_def)
    then obtain d where "(r, d) \<in> S" using links(1) [of r c] by (auto simp: Q_def)
    then show ?thesis by force
  qed simp
  have "r0 \<in> fst ` T" unfolding T' Q_def by force
  moreover have "r \<in> fst ` T" if "r \<in> fst ` S" for r using old that by auto
  moreover have "fst x \<in> insert r0 (fst ` S)" if "x \<in> T" for x
    using that rowQ [of "fst x" "snd x"] unfolding T' by auto
  ultimately show "fst ` T = insert r0 (fst ` S)" by (intro equalityI subsetI) auto
  have "c \<in> snd ` T" if "(r, c) \<in> S" for r c
  proof (cases "(r, c) \<in> set path")
    case True
    with that have "(r, c) \<in> S \<inter> set path" by simp
    then obtain r' where "(r', c) \<in> Q" using links(2) [of r c] SP by (auto simp: Q_def)
    then show ?thesis unfolding T' by force
  qed (use that T' in force)
  then show "snd ` S \<subseteq> snd ` T" by auto
  show "T \<subseteq> S \<union> insert (r0, c0) P" unfolding T' Q_def by blast
qed


subsection \<open>Potentials\<close>

text \<open>
  The specification: an assignment gives each of the \<open>M\<close> rows a column of its own, and costs the sum of
  its cells.
\<close>

definition isAssignment :: "nat \<Rightarrow> nat \<Rightarrow> nat list \<Rightarrow> bool" where
  "isAssignment M N cols \<longleftrightarrow> length cols = M \<and> distinct cols \<and> set cols \<subseteq> {..<N}"

lemma isAssignment_nth: "isAssignment M N cols \<Longrightarrow> r < M \<Longrightarrow> cols ! r < N"
  using nth_mem by (auto simp: isAssignment_def)

definition assignmentCost :: "nat \<Rightarrow> real list \<Rightarrow> nat list \<Rightarrow> real" where
  "assignmentCost M costs cols = (\<Sum>r<M. costs ! idx M r (cols ! r))"

text \<open>
  The current costs are the given costs less a potential of the row and one of the column.  Column
  potentials are at most zero, and zero in the columns without a star.
\<close>

definition potentials ::
    "nat \<Rightarrow> nat \<Rightarrow> real list \<Rightarrow> (nat \<times> nat) set \<Rightarrow> real list \<Rightarrow> (nat \<Rightarrow> real) \<Rightarrow> (nat \<Rightarrow> real) \<Rightarrow> bool" where
  "potentials M N costs0 S costs u v \<longleftrightarrow>
     (\<forall>r<M. \<forall>c<N. costs ! idx M r c = costs0 ! idx M r c - u r - v c \<and> 0 \<le> costs ! idx M r c \<and>
        costs0 ! idx M r c - u r < fltMax) \<and>
     (\<forall>c<N. v c \<le> 0 \<and> (v c \<noteq> 0 \<longrightarrow> c \<in> snd ` S))"

lemma potentialsD:
  assumes "potentials M N costs0 S costs u v" "r < M" "c < N"
  shows "costs ! idx M r c = costs0 ! idx M r c - u r - v c" "0 \<le> costs ! idx M r c"
    "costs0 ! idx M r c - u r < fltMax"
  using assms unfolding potentials_def by blast+

lemma potentials_mono:
  "potentials M N costs0 S costs u v \<Longrightarrow> snd ` S \<subseteq> snd ` T \<Longrightarrow> potentials M N costs0 T costs u v"
  unfolding potentials_def by blast

lemma assignmentCost_potentials:
  assumes pot: "potentials M N costs0 S costs u v" and cols: "isAssignment M N cols"
  shows "assignmentCost M costs0 cols
    = (\<Sum>r<M. costs ! idx M r (cols ! r)) + (\<Sum>r<M. u r) + (\<Sum>c\<in>set cols. v c)"
proof -
  have "costs0 ! idx M r (cols ! r) = costs ! idx M r (cols ! r) + u r + v (cols ! r)" if "r < M" for r
    using potentialsD(1) [OF pot that isAssignment_nth [OF cols that]] by simp
  then have "assignmentCost M costs0 cols = (\<Sum>r<M. costs ! idx M r (cols ! r) + u r + v (cols ! r))"
    by (simp add: assignmentCost_def)
  also have "\<dots> = (\<Sum>r<M. costs ! idx M r (cols ! r)) + (\<Sum>r<M. u r) + (\<Sum>r<M. v (cols ! r))"
    by (simp add: sum.distrib)
  also have "(\<Sum>r<M. v (cols ! r)) = (\<Sum>c\<in>set cols. v c)"
    using cols by (auto simp: isAssignment_def sum_list_distinct_conv_sum_set [symmetric]
        sum_list_sum_nth atLeast0LessThan)
  finally show ?thesis .
qed

theorem stars_are_optimal:
  assumes pot: "potentials M N costs0 S costs u v" and S: "isMatching S" "S \<subseteq> zeroSet M N costs"
    and cols: "length cols = M" "\<And>r. r < M \<Longrightarrow> (r, cols ! r) \<in> S"
  shows "isAssignment M N cols" and "isAssignment M N cols' \<Longrightarrow>
    assignmentCost M costs0 cols \<le> assignmentCost M costs0 cols'"
proof -
  have rows: "cols ! r < N" "costs ! idx M r (cols ! r) = 0" if "r < M" for r
    using cols(2) [OF that] S(2) by (auto simp: zeroSet_def)
  have "distinct cols"
    unfolding distinct_conv_nth using cols isMatchingD(2) [OF S(1)] by metis
  then show asg: "isAssignment M N cols"
    using rows cols(1) by (auto simp: isAssignment_def in_set_conv_nth)
  assume asg': "isAssignment M N cols'"
  have "c \<in> set cols" if "(r, c) \<in> S" for r c
  proof -
    have "r < M" using that S(2) by (auto simp: zeroSet_def)
    then have "c = cols ! r" using isMatchingD(1) [OF S(1) that] cols(2) by blast
    then show ?thesis using \<open>r < M\<close> cols(1) by simp
  qed
  then have zero: "v c = 0" if "c \<in> {..<N} - set cols" for c
    using pot that by (auto simp: potentials_def)
  have "(\<Sum>c\<in>set cols. v c) = (\<Sum>c<N. v c)"
    by (rule sum.mono_neutral_left) (use asg zero in \<open>auto simp: isAssignment_def\<close>)
  also have "\<dots> \<le> (\<Sum>c\<in>set cols'. v c)"
  proof -
    have sub: "set cols' \<subseteq> {..<N}" using asg' by (simp add: isAssignment_def)
    have "(\<Sum>c\<in>{..<N} - set cols'. v c) \<le> 0"
      by (rule sum_nonpos) (use pot in \<open>auto simp: potentials_def\<close>)
    then show ?thesis using sum.subset_diff [OF sub, of v] by simp
  qed
  moreover have "0 \<le> (\<Sum>r<M. costs ! idx M r (cols' ! r))"
    by (rule sum_nonneg) (use potentialsD(2) [OF pot] isAssignment_nth [OF asg'] in simp)
  moreover have "(\<Sum>r<M. costs ! idx M r (cols ! r)) = 0" using rows(2) by simp
  ultimately show "assignmentCost M costs0 cols \<le> assignmentCost M costs0 cols'"
    using assignmentCost_potentials [OF pot asg] assignmentCost_potentials [OF pot asg'] by linarith
qed

end
