(* ===== verification/HungarianInvariant.thy ===== *)
theory HungarianInvariant
  imports HungarianMatching
begin

section \<open>Linear sum assignment: the invariant of the steps\<close>

text \<open>
  The invariants that hold before each step and what each step makes of them.
\<close>

definition starInv :: "nat \<Rightarrow> nat \<Rightarrow> real list \<Rightarrow> real list \<Rightarrow> mark list \<Rightarrow> bool" where
  "starInv M N costs0 costs marks \<longleftrightarrow>
     length costs = M * N \<and> length marks = M * N \<and> isMatching (starSet M N marks) \<and>
     starSet M N marks \<subseteq> zeroSet M N costs \<and> (\<exists>u v. potentials M N costs0 (starSet M N marks) costs u v)"

text \<open>Before steps four and six, with \<open>P\<close> the primes of the covered rows and fewer stars than rows.\<close>

definition phaseInv ::
    "nat \<Rightarrow> nat \<Rightarrow> real list \<Rightarrow> real list \<Rightarrow> mark list \<Rightarrow> (nat \<times> nat) set \<Rightarrow> nat list \<Rightarrow> nat list \<Rightarrow> bool"
where
  "phaseInv M N costs0 costs marks P colCover rowCover \<longleftrightarrow>
     starInv M N costs0 costs marks \<and> card (starSet M N marks) < M \<and>
     isCover N colCover \<and> isCover M rowCover \<and>
     (\<exists>rk. coverInv (starSet M N marks) P (zeroSet M N costs)
        (coveredSet M rowCover) (coveredSet N colCover) rk)"

text \<open>Before step five: \<open>(r, c)\<close> is an uncovered zero in a row without a star, primed last.\<close>

definition pathInv ::
    "nat \<Rightarrow> nat \<Rightarrow> real list \<Rightarrow> real list \<Rightarrow> mark list \<Rightarrow> nat \<Rightarrow> nat \<Rightarrow> nat list \<Rightarrow> nat list \<Rightarrow> bool"
where
  "pathInv M N costs0 costs marks r c colCover rowCover \<longleftrightarrow>
     (r, c) \<in> zeroSet M N costs \<and> r \<notin> coveredSet M rowCover \<and> c \<notin> coveredSet N colCover \<and>
     r \<notin> fst ` starSet M N marks \<and>
     (\<exists>P. primeSet M N marks = insert (r, c) P \<and> phaseInv M N costs0 costs marks P colCover rowCover)"

lemma starInv_congruent:
  assumes "starInv M N costs0 costs marks" "length marks' = M * N" "starSet M N marks' = starSet M N marks"
  shows "starInv M N costs0 costs marks'"
  using assms by (simp add: starInv_def)

lemma uncovered_not_star:
  assumes "phaseInv M N costs0 costs marks P colCover rowCover"
    and "r \<notin> coveredSet M rowCover" "c \<notin> coveredSet N colCover"
  shows "(r, c) \<notin> starSet M N marks"
  using assms coverInv_star unfolding phaseInv_def by blast

subsection \<open>Step four\<close>

lemma prime_in_starred_row:
  assumes inv: "phaseInv M N costs0 costs marks (primeSet M N marks) colCover rowCover"
    and zero: "findUncoveredZero costs colCover rowCover M N = Some (row, col)"
    and marks': "marks' = marks[idx M row col := Prime]" and star: "(row, k) \<in> starSet M N marks'"
  shows "phaseInv M N costs0 costs marks' (primeSet M N marks') (colCover[k := 0]) (rowCover[row := 1])"
    and "starSet M N marks' = starSet M N marks"
proof -
  note cell = uncoveredZero_Some [OF zero]
  have len: "length marks = M * N" and matching: "isMatching (starSet M N marks)"
    and cover: "isCover N colCover" "isCover M rowCover"
    using inv by (auto simp: phaseInv_def starInv_def)
  show same: "starSet M N marks' = starSet M N marks"
    using starSet_prime [OF len cell(4,5)] uncovered_not_star [OF inv cell(2,3)] marks' by simp
  obtain rk where "coverInv (starSet M N marks) (primeSet M N marks) (zeroSet M N costs)
        (coveredSet M rowCover) (coveredSet N colCover) rk"
    using inv by (auto simp: phaseInv_def)
  from coverInv_cover [OF this matching finite_coveredSet cell(1,2,3)] star
  have "coverInv (starSet M N marks) (insert (row, col) (primeSet M N marks)) (zeroSet M N costs)
      (insert row (coveredSet M rowCover)) (coveredSet N colCover - {k}) (rk(row := card (coveredSet M rowCover)))"
    using same by simp
  moreover have "k < N" using star by (simp add: starSet_def)
  moreover have "primeSet M N marks' = insert (row, col) (primeSet M N marks)"
    using primeSet_prime [OF len cell(4,5)] marks' by simp
  ultimately have "coverInv (starSet M N marks') (primeSet M N marks') (zeroSet M N costs)
        (coveredSet M (rowCover[row := 1])) (coveredSet N (colCover[k := 0]))
        (rk(row := card (coveredSet M rowCover)))"
    by (simp only: same covered_one [OF cover(2) cell(4)] covered_zero [OF cover(1)])
  then have "\<exists>rk. coverInv (starSet M N marks') (primeSet M N marks') (zeroSet M N costs)
        (coveredSet M (rowCover[row := 1])) (coveredSet N (colCover[k := 0])) rk" by blast
  moreover have "starInv M N costs0 costs marks'"
    by (rule starInv_congruent [of M N costs0 costs marks])
      (use inv same len marks' in \<open>simp_all add: phaseInv_def\<close>)
  ultimately show "phaseInv M N costs0 costs marks' (primeSet M N marks') (colCover[k := 0]) (rowCover[row := 1])"
    using inv same cover by (simp add: phaseInv_def del: One_nat_def)
qed

lemma prime_in_free_row:
  assumes inv: "phaseInv M N costs0 costs marks (primeSet M N marks) colCover rowCover"
    and zero: "findUncoveredZero costs colCover rowCover M N = Some (row, col)"
    and marks': "marks' = marks[idx M row col := Prime]" and free: "row \<notin> fst ` starSet M N marks'"
  shows "pathInv M N costs0 costs marks' row col colCover rowCover"
    and "starSet M N marks' = starSet M N marks"
proof -
  note cell = uncoveredZero_Some [OF zero]
  have len: "length marks = M * N" using inv by (auto simp: phaseInv_def starInv_def)
  show same: "starSet M N marks' = starSet M N marks"
    using starSet_prime [OF len cell(4,5)] uncovered_not_star [OF inv cell(2,3)] marks' by simp
  then have "phaseInv M N costs0 costs marks' (primeSet M N marks) colCover rowCover"
    using inv len marks' unfolding phaseInv_def by (simp add: starInv_def)
  then show "pathInv M N costs0 costs marks' row col colCover rowCover"
    unfolding pathInv_def using cell free primeSet_prime [OF len cell(4,5)] marks' by blast
qed

text \<open>
  Step four keeps the stars.  It goes to step six when no uncovered zero is left, after it has covered
  a row if there was one at the start, and otherwise to step five.
\<close>

definition fourPost ::
    "nat \<Rightarrow> nat \<Rightarrow> real list \<Rightarrow> real list \<Rightarrow> mark list \<Rightarrow> nat list \<Rightarrow> nat list
      \<Rightarrow> (nat \<times> mark list \<times> nat list \<times> nat list \<times> (nat \<times> nat) option) result \<Rightarrow> bool" where
  "fourPost M N costs0 costs marks colCover rowCover res \<longleftrightarrow>
     (\<exists>step ms cc rc fp. res = Inr (step, ms, cc, rc, fp) \<and> starSet M N ms = starSet M N marks \<and>
        (step = 6 \<and> phaseInv M N costs0 costs ms (primeSet M N ms) cc rc \<and>
           findUncoveredZero costs cc rc M N = None \<and>
           (count_list rc 0 < count_list rowCover 0 \<or>
            rc = rowCover \<and> findUncoveredZero costs colCover rowCover M N = None) \<or>
         step = 5 \<and> (\<exists>r c. fp = Some (r, c) \<and> pathInv M N costs0 costs ms r c cc rc) \<and>
           count_list rc 0 \<le> count_list rowCover 0 \<and>
           findUncoveredZero costs colCover rowCover M N \<noteq> None))"

lemma fourPost_cover:
  assumes "fourPost M N costs0 costs marks' (colCover[k := 0]) (rowCover[row := 1]) res"
    and "starSet M N marks' = starSet M N marks" and "row < length rowCover"
    and "findUncoveredZero costs colCover rowCover M N = Some (row, col)"
  shows "fourPost M N costs0 costs marks colCover rowCover res"
proof -
  have less: "count_list (rowCover[row := 1]) 0 < count_list rowCover 0"
    using assms(3) findUncoveredZero_cell(5) [OF assms(4)] by (rule count_cover_less)
  show ?thesis
    using assms(1,2,4) less unfolding fourPost_def by (auto simp del: One_nat_def)
qed

lemma stepFour_post:
  assumes "phaseInv M N costs0 costs marks (primeSet M N marks) colCover rowCover"
  shows "fourPost M N costs0 costs marks colCover rowCover (stepFour costs marks colCover rowCover M N fp)"
  using assms
proof (induction costs marks colCover rowCover M N fp rule: stepFour.induct)
  case (1 costs marks colCover rowCover M N fp)
  show ?case
  proof (cases "findUncoveredZero costs colCover rowCover M N")
    case None
    then show ?thesis
      using 1(2) by (subst stepFour.simps) (simp add: fourPost_def)
  next
    case (Some cell)
    obtain row col where cell: "cell = (row, col)" by (cases cell)
    define marks' where "marks' = marks[idx M row col := Prime]"
    have row: "row < M" "length rowCover = M"
      using uncoveredZero_Some(4) [of costs colCover rowCover M N row col] Some cell 1(2)
      by (auto simp: phaseInv_def isCover_def)
    show ?thesis
    proof (cases "isStarInRow marks' row M N")
      case True
      then have "row \<in> fst ` starSet M N marks'" using isStarInRow_iff row(1) by blast
      then obtain k where k: "findStarInRow marks' row M N = Some k"
        using findStarInRow_None [OF row(1)] by fastforce
      then have "(row, k) \<in> starSet M N marks'" using findStarInRow_Some row(1) by blast
      note next_inv = prime_in_starred_row [OF 1(2) Some [unfolded cell] marks'_def this]
      have "fourPost M N costs0 costs marks' (colCover[k := 0]) (rowCover[row := 1])
          (stepFour costs marks' (colCover[k := 0]) (rowCover[row := 1]) M N fp)"
        by (rule "1.IH" [OF Some cell [symmetric] marks'_def])
          (use True k row next_inv in simp_all)
      then have "fourPost M N costs0 costs marks colCover rowCover
          (stepFour costs marks' (colCover[k := 0]) (rowCover[row := 1]) M N fp)"
        using fourPost_cover next_inv(2) row Some cell by simp
      moreover have "stepFour costs marks colCover rowCover M N fp
          = stepFour costs marks' (colCover[k := 0]) (rowCover[row := 1]) M N fp"
        using Some cell True k row by (subst stepFour.simps) (simp add: marks'_def)
      ultimately show ?thesis by simp
    next
      case False
      then have "row \<notin> fst ` starSet M N marks'" using isStarInRow_iff row(1) by blast
      from prime_in_free_row [OF 1(2) Some [unfolded cell] marks'_def this]
      show ?thesis
        using Some cell False by (subst stepFour.simps) (simp add: marks'_def [symmetric] fourPost_def)
    qed
  qed
qed


subsection \<open>Step five\<close>

text \<open>The path stays within the array: it has at most two entries for each covered row.\<close>

lemma followPath_alternates:
  assumes primes: "\<And>r. r \<in> R \<Longrightarrow> \<exists>c. findPrimeInRow marks r M N = Some c \<and> (r, c) \<in> P"
    and inv: "coverInv (starSet M N marks) P Z R K rk" and P: "P \<subseteq> {..<M} \<times> {..<N}"
    and "c \<notin> K" "c < N" "\<And>r. (r, c) \<in> starSet M N marks \<Longrightarrow> rk r < n" "2 * n \<le> room"
    and "snd (last path) = c"
  shows "\<exists>ext. followPath marks M N room path = Inr (path @ ext) \<and> altPath (starSet M N marks) P c ext"
  using assms(4-8)
proof (induction n arbitrary: c room path rule: less_induct)
  case (less n)
  show ?case
  proof (cases "findStarInCol marks c M")
    case None
    then have "c \<notin> snd ` starSet M N marks" using findStarInCol_None [OF less.prems(2)] by auto
    then show ?thesis
      using None less.prems(5) by (subst followPath.simps) (auto intro: exI [of _ "[]"])
  next
    case (Some r)
    then have star: "(r, c) \<in> starSet M N marks" using findStarInCol_Some less.prems(2) by blast
    then have "r \<in> R" using coverInv_star [OF inv] less.prems(1) by blast
    then obtain c' where c': "findPrimeInRow marks r M N = Some c'" "(r, c') \<in> P" using primes by blast
    have rk: "rk r < n" using less.prems(3) star by blast
    have "c' < N" "2 * rk r \<le> room - 2" using c'(2) P rk less.prems(4) by auto
    then obtain ext where "followPath marks M N (room - 2) (path @ [(r, c), (r, c')])
        = Inr ((path @ [(r, c), (r, c')]) @ ext)" "altPath (starSet M N marks) P c' ext"
      using less.IH [OF rk, of c' "room - 2" "path @ [(r, c), (r, c')]"] coverInv_prime [OF inv c'(2)]
        coverInv_rank [OF inv c'(2)] by auto
    moreover have "followPath marks M N room path
        = followPath marks M N (room - 2) (path @ [(r, c), (r, c')])"
      using Some c'(1) less.prems(4,5) rk by (subst followPath.simps) simp
    ultimately show ?thesis
      using star c'(2) by (intro exI [of _ "(r, c) # (r, c') # ext"]) simp
  qed
qed

lemma stepFive_post:
  assumes inv: "pathInv M N costs0 costs marks r c colCover rowCover" and "M \<le> N"
  obtains marks' where
    "stepFive marks colCover rowCover (N * N) (Some (r, c)) M N
      = Inr (3, marks', replicate N 0, replicate M 0)"
    "starInv M N costs0 costs marks'" "primeSet M N marks' = {}"
    "card (starSet M N marks') = Suc (card (starSet M N marks))"
proof -
  let ?S = "starSet M N marks" and ?Z = "zeroSet M N costs" and ?R = "coveredSet M rowCover"
  obtain P rk where primes: "primeSet M N marks = insert (r, c) P"
      and star: "starInv M N costs0 costs marks" and cover: "isCover N colCover" "isCover M rowCover"
      and cov: "coverInv ?S P ?Z ?R (coveredSet N colCover) rk"
    using inv by (auto simp: pathInv_def phaseInv_def)
  have S: "isMatching ?S" "?S \<subseteq> ?Z" and len: "length marks = M * N" using star by (auto simp: starInv_def)
  have rc: "(r, c) \<in> ?Z" "r < M" "c < N" "r \<notin> ?R" "c \<notin> coveredSet N colCover" "r \<notin> fst ` ?S"
    using inv by (auto simp: pathInv_def zeroSet_def)
  have P: "insert (r, c) P \<subseteq> {..<M} \<times> {..<N}" using primes by (auto simp: primeSet_def)
  have "?R \<subset> {..<M}" using coveredSet_subset rc by blast
  then have "card ?R < M" using psubset_card_mono [of "{..<M}" ?R] by simp
  have room: "2 * card ?R \<le> N * N - 1"
  proof -
    have "Suc (card ?R) \<le> N" using \<open>card ?R < M\<close> \<open>M \<le> N\<close> by simp
    then have "Suc (card ?R) * Suc (card ?R) \<le> N * N" by (intro mult_le_mono)
    moreover have "2 * card ?R + 1 \<le> Suc (card ?R) * Suc (card ?R)" by simp
    ultimately show ?thesis by linarith
  qed
  have prime: "\<exists>c'. findPrimeInRow marks r' M N = Some c' \<and> (r', c') \<in> P" if "r' \<in> ?R" for r'
  proof -
    have "r' \<in> fst ` P" using cov that by (auto simp: coverInv_def)
    then have "\<exists>c'. (r', c') \<in> primeSet M N marks" using primes by auto
    moreover have "r' < M" using that coveredSet_subset by blast
    ultimately obtain c' where "findPrimeInRow marks r' M N = Some c'"
      using findPrimeInRow_None by (cases "findPrimeInRow marks r' M N") auto
    then show ?thesis
      using findPrimeInRow_Some [OF \<open>r' < M\<close>] primes that rc(4) by fastforce
  qed
  have "\<exists>ext. followPath marks M N (N * N - 1) [(r, c)] = Inr ([(r, c)] @ ext) \<and> altPath ?S P c ext"
    by (rule followPath_alternates [OF prime cov, where n = "card ?R"])
      (use P rc room coverInv_star [OF cov] cov in \<open>auto simp: coverInv_def\<close>)
  then obtain ext where path: "followPath marks M N (N * N - 1) [(r, c)] = Inr ((r, c) # ext)"
      and alt: "altPath ?S P c ext" by auto
  have rank: "\<forall>r c r'. (r, c) \<in> P \<longrightarrow> (r', c) \<in> ?S \<longrightarrow> rk r' < rk r" using coverInv_rank [OF cov] by blast
  have disj: "?S \<inter> insert (r, c) P = {}" using star_prime_disjoint [of M N marks] primes by simp
  have "r \<notin> fst ` set ext" using altPath_links(1) [OF alt] rc(6) by force
  then have dist: "distinct ((r, c) # ext)"
    using altPath_distinct [OF alt rank _ S(1)] disj by force
  have cells: "set ((r, c) # ext) \<subseteq> {..<M} \<times> {..<N}"
    using altPath_cells [OF alt] P starSet_subset [of M N marks] by auto
  define ms where "ms = erasePrimes (augmentPaths ((r, c) # ext) marks M) M N"
  note aug = augmentPaths_sets [OF len dist cells]
  have T: "starSet M N ms = (?S - set ((r, c) # ext)) \<union> (set ((r, c) # ext) - ?S)"
    using erasePrimes_sets(2) [OF aug(1)] aug(2) by (simp only: ms_def)
  note flip = flip_path [OF alt rank disj S(1) rc(6) T]
  have "starSet M N ms \<subseteq> ?Z" using flip(4) S(2) rc(1) coverInv_prime [OF cov] by fastforce
  moreover obtain u v where "potentials M N costs0 ?S costs u v" using star by (auto simp: starInv_def)
  then have "potentials M N costs0 (starSet M N ms) costs u v" using flip(3) by (rule potentials_mono)
  moreover have "length ms = M * N" using erasePrimes_sets(1) [OF aug(1)] by (simp only: ms_def)
  ultimately have "starInv M N costs0 costs ms"
    using star flip(1) by (auto simp: starInv_def)
  moreover have "primeSet M N ms = {}" using erasePrimes_sets(3) [OF aug(1)] by (simp add: ms_def)
  moreover have "card (starSet M N ms) = Suc (card ?S)"
  proof -
    have "card (starSet M N ms) = card (fst ` starSet M N ms)"
      using flip(1) by (simp add: isMatching_def card_image)
    also have "\<dots> = Suc (card (fst ` ?S))" using flip(2) rc(6) by simp
    also have "card (fst ` ?S) = card ?S" using S(1) by (simp add: isMatching_def card_image)
    finally show ?thesis .
  qed
  moreover have "0 < N" using rc(3) by simp
  then have "stepFive marks colCover rowCover (N * N) (Some (r, c)) M N
      = Inr (3, ms, replicate N 0, replicate M 0)"
    using path cover by (simp add: stepFive_def ms_def isCover_def Let_def)
  ultimately show thesis using that by blast
qed


subsection \<open>Step six\<close>

lemma phaseInv_free_cell:
  assumes inv: "phaseInv M N costs0 costs marks P colCover rowCover" and "M \<le> N"
  obtains r c where "r < M" "r \<notin> coveredSet M rowCover" "c < N" "c \<notin> coveredSet N colCover"
    "costs ! idx M r c < fltMax"
proof -
  let ?S = "starSet M N marks"
  obtain rk where cov: "coverInv ?S P (zeroSet M N costs) (coveredSet M rowCover) (coveredSet N colCover) rk"
    using inv by (auto simp: phaseInv_def)
  obtain u v where pot: "potentials M N costs0 ?S costs u v" and few: "card ?S < M"
    using inv by (auto simp: phaseInv_def starInv_def)
  have "card (fst ` ?S) < card {..<M}" "card (snd ` ?S) < card {..<N}"
    using few \<open>M \<le> N\<close> card_image_le [of ?S fst] card_image_le [of ?S snd] by auto
  then obtain r c where rc: "r < M" "r \<notin> fst ` ?S" "c < N" "c \<notin> snd ` ?S"
    using card_mono [of "fst ` ?S" "{..<M}"] card_mono [of "snd ` ?S" "{..<N}"]
    by (metis finite_imageI finite_starSet lessThan_iff not_le subsetI)
  have "v c = 0" using pot rc(3,4) by (auto simp: potentials_def)
  then have "costs ! idx M r c < fltMax" using potentialsD(1,3) [OF pot rc(1,3)] by simp
  moreover have "r \<notin> coveredSet M rowCover" "c \<notin> coveredSet N colCover"
    using cov rc by (auto simp: coverInv_def)
  ultimately show thesis using that rc by blast
qed

lemma stepSix_post:
  assumes inv: "phaseInv M N costs0 costs marks P colCover rowCover" and "M \<le> N"
    and P: "P \<subseteq> {..<M} \<times> {..<N}"
  obtains costs' where "stepSix costs colCover rowCover M N = (4, costs')"
    "phaseInv M N costs0 costs' marks P colCover rowCover"
    "findUncoveredZero costs' colCover rowCover M N \<noteq> None"
proof -
  let ?S = "starSet M N marks" and ?R = "coveredSet M rowCover" and ?K = "coveredSet N colCover"
  define m where "m = findSmallestNotCovered costs colCover rowCover M N"
  define costs' where "costs' = snd (stepSix costs colCover rowCover M N)"
  obtain rk where cov: "coverInv ?S P (zeroSet M N costs) ?R ?K rk" using inv by (auto simp: phaseInv_def)
  obtain u v where pot: "potentials M N costs0 ?S costs u v" and len: "length costs = M * N"
    and cover: "isCover M rowCover" and S: "?S \<subseteq> zeroSet M N costs"
    using inv by (auto simp: phaseInv_def starInv_def)
  obtain r0 c0 where free: "r0 < M" "r0 \<notin> ?R" "c0 < N" "c0 \<notin> ?K" "costs ! idx M r0 c0 < fltMax"
    using phaseInv_free_cell [OF inv \<open>M \<le> N\<close>] .
  have min: "(\<forall>(r, c)\<in>({..<M} - ?R) \<times> ({..<N} - ?K). m \<le> costs ! idx M r c) \<and>
      (\<exists>(r, c)\<in>({..<M} - ?R) \<times> ({..<N} - ?K). m = costs ! idx M r c)"
    by (rule findSmallestNotCovered_spec [OF m_def refl, of r0 c0]) (use free in auto)
  then obtain r1 c1 where cell: "r1 < M" "r1 \<notin> ?R" "c1 < N" "c1 \<notin> ?K" "m = costs ! idx M r1 c1" by auto
  then have "0 \<le> m" using potentialsD(2) [OF pot] by simp
  have new: "costs' ! idx M r c = costs ! idx M r c + (if r \<in> ?R then m else 0) - (if c \<in> ?K then 0 else m)"
    if "r < M" "c < N" for r c
    using stepSix_costs(2) [OF len that cover] by (simp add: costs'_def m_def)
  have len': "length costs' = M * N"
    using stepSix_costs(1) [OF len free(1,3) cover] by (simp add: costs'_def)
  have keep: "(r, c) \<in> zeroSet M N costs'" if "(r, c) \<in> zeroSet M N costs" "r \<in> ?R \<longleftrightarrow> c \<notin> ?K" for r c
    using that new by (auto simp: zeroSet_def)
  have S': "?S \<subseteq> zeroSet M N costs'" using keep S coverInv_star [OF cov] by (intro subrelI) blast
  have cov': "coverInv ?S P (zeroSet M N costs') ?R ?K rk"
    using cov keep coverInv_prime [OF cov] unfolding coverInv_def by blast
  have "potentials M N costs0 ?S costs' (\<lambda>r. u r + (if r \<in> ?R then 0 else m)) (\<lambda>c. v c - (if c \<in> ?K then m else 0))"
    unfolding potentials_def
  proof (intro conjI allI impI)
    fix r c assume rc: "r < M" "c < N"
    note p = potentialsD [OF pot rc] and n = new [OF rc]
    show "costs' ! idx M r c = costs0 ! idx M r c - (u r + (if r \<in> ?R then 0 else m)) - (v c - (if c \<in> ?K then m else 0))"
      using p(1) n by simp
    show "0 \<le> costs' ! idx M r c" using p(2) n min \<open>0 \<le> m\<close> rc by auto
    show "costs0 ! idx M r c - (u r + (if r \<in> ?R then 0 else m)) < fltMax" using p(3) \<open>0 \<le> m\<close> by simp
  next
    fix c assume c: "c < N"
    then have "v c \<le> 0" and "v c \<noteq> 0 \<longrightarrow> c \<in> snd ` ?S" using pot by (auto simp: potentials_def)
    moreover have "?K \<subseteq> snd ` ?S" using cov by (simp add: coverInv_def)
    ultimately show "v c - (if c \<in> ?K then m else 0) \<le> 0"
      and "v c - (if c \<in> ?K then m else 0) \<noteq> 0 \<Longrightarrow> c \<in> snd ` ?S" using \<open>0 \<le> m\<close> by (auto split: if_splits)
  qed
  then have "starInv M N costs0 costs' marks" using inv S' len' unfolding phaseInv_def starInv_def by blast
  then have "phaseInv M N costs0 costs' marks P colCover rowCover"
    using inv cov' unfolding phaseInv_def by blast
  moreover have "(r1, c1) \<in> zeroSet M N costs'" using new cell by (simp add: zeroSet_def)
  then have "findUncoveredZero costs' colCover rowCover M N \<noteq> None"
    using cell uncoveredZero_None [of costs' colCover rowCover M N] by auto
  ultimately show thesis using that by (simp add: costs'_def stepSix_def Let_def)
qed

end
