(* ===== verification/HungarianTheorems.thy ===== *)
theory HungarianTheorems
  imports HungarianInvariant
begin

section \<open>Linear sum assignment: termination and optimality\<close>

text \<open>
  The driver goes through the steps with the invariants of \<open>HungarianInvariant\<close>, ends, and leaves a
  star in every row; the pairs that step seven reads off are an assignment of least cost.
\<close>

subsection \<open>The loop of the driver\<close>

definition hInv :: "nat \<Rightarrow> nat \<Rightarrow> real list \<Rightarrow> hstate \<Rightarrow> bool" where
  "hInv M N costs0 s \<longleftrightarrow>
     (hstep s \<in> {1, 2, 3} \<longrightarrow> primeSet M N (hmarks s) = {} \<and>
        hcolCover s = replicate N 0 \<and> hrowCover s = replicate M 0) \<and>
     (hstep s = 1 \<and> hcosts s = costs0 \<and> length (hmarks s) = M * N \<and> starSet M N (hmarks s) = {} \<or>
      hstep s = 2 \<and> starInv M N costs0 (hcosts s) (hmarks s) \<and> starSet M N (hmarks s) = {} \<or>
      hstep s = 3 \<and> starInv M N costs0 (hcosts s) (hmarks s) \<or>
      hstep s = 4 \<and> phaseInv M N costs0 (hcosts s) (hmarks s) (primeSet M N (hmarks s))
        (hcolCover s) (hrowCover s) \<or>
      hstep s = 5 \<and> (\<exists>r c. hfirstPath s = Some (r, c) \<and>
        pathInv M N costs0 (hcosts s) (hmarks s) r c (hcolCover s) (hrowCover s)) \<or>
      hstep s = 6 \<and> phaseInv M N costs0 (hcosts s) (hmarks s) (primeSet M N (hmarks s))
        (hcolCover s) (hrowCover s) \<and>
        findUncoveredZero (hcosts s) (hcolCover s) (hrowCover s) M N = None \<or>
      hstep s = 7 \<and> starInv M N costs0 (hcosts s) (hmarks s) \<and> M \<le> card (starSet M N (hmarks s)))"

lemma hInv_steps:
  "hInv M N costs0 s \<Longrightarrow> hstep s = 1 \<or> hstep s = 2 \<or> hstep s = 3 \<or> hstep s = 4 \<or> hstep s = 5 \<or>
     hstep s = 6 \<or> hstep s = 7"
  by (simp only: hInv_def) (elim conjE disjE; simp)

text \<open>
  The measure of the loop: the rows without a star, the rows not covered, and within a round the step,
  where a step four that finds no zero comes before step six and one that finds a zero after it.
\<close>

definition hRank1 :: "nat \<Rightarrow> nat \<Rightarrow> hstate \<Rightarrow> nat" where
  "hRank1 M N s = (if hstep s = 1 then M + 2 else if hstep s = 2 then M + 1
     else M - card (starSet M N (hmarks s)))"

definition hRank2 :: "hstate \<Rightarrow> nat" where
  "hRank2 s = count_list (hrowCover s) 0"

definition hRank3 :: "nat \<Rightarrow> nat \<Rightarrow> hstate \<Rightarrow> nat" where
  "hRank3 M N s = (if hstep s = 3 then 5 else if hstep s = 4 then
     (if findUncoveredZero (hcosts s) (hcolCover s) (hrowCover s) M N = None then 3 else 1)
     else if hstep s = 6 then 2 else 0)"

definition hRel :: "nat \<Rightarrow> nat \<Rightarrow> (hstate \<times> hstate) set" where
  "hRel M N = measures [hRank1 M N, hRank2, hRank3 M N]"

lemma hRel_iff:
  "(s', s) \<in> hRel M N \<longleftrightarrow> hRank1 M N s' < hRank1 M N s \<or> hRank1 M N s' = hRank1 M N s \<and>
     (hRank2 s' < hRank2 s \<or> hRank2 s' = hRank2 s \<and> hRank3 M N s' < hRank3 M N s)"
  by (simp add: hRel_def)

lemma hRel_rows: "hRank1 M N s' < hRank1 M N s \<Longrightarrow> (s', s) \<in> hRel M N"
  by (simp add: hRel_iff)

definition progress :: "nat \<Rightarrow> nat \<Rightarrow> real list \<Rightarrow> hstate \<Rightarrow> bool" where
  "progress M N costs0 s \<longleftrightarrow>
     (\<exists>s'. hungarianStep M N s = Inr s' \<and> hInv M N costs0 s' \<and> (s', s) \<in> hRel M N)"

lemma stepOne_potentials:
  assumes "length costs0 = M * N" and small: "\<forall>x\<in>set costs0. \<bar>x\<bar> < fltMax / 2"
  shows "length (snd (stepOne costs0 M N)) = M * N"
    and "\<exists>u v. potentials M N costs0 {} (snd (stepOne costs0 M N)) u v"
proof -
  show "length (snd (stepOne costs0 M N)) = M * N"
    using assms(1) by (simp add: stepOne_def Let_def length_fold_pres)
  have "potentials M N costs0 {} (snd (stepOne costs0 M N)) (rowMinimum costs0 M N) (\<lambda>_. 0)"
    unfolding potentials_def
  proof (intro conjI allI impI)
    fix r c assume rc: "r < M" "c < N"
    have bound: "\<bar>costs0 ! idx M r c'\<bar> < fltMax / 2" if "c' < N" for c'
      using small assms(1) rc(1) that by simp
    then have "costs0 ! idx M r c' < fltMax" if "c' < N" for c'
      using that by (fastforce simp: fltMax_def)
    then have min: "(\<forall>c<N. rowMinimum costs0 M N r \<le> costs0 ! idx M r c) \<and>
        (\<exists>c<N. rowMinimum costs0 M N r = costs0 ! idx M r c)"
      using rc by (intro rowMinimum_spec) auto
    show "snd (stepOne costs0 M N) ! idx M r c = costs0 ! idx M r c - rowMinimum costs0 M N r - 0"
      using stepOne_costs(2) [OF assms(1) rc] by simp
    then show "0 \<le> snd (stepOne costs0 M N) ! idx M r c" using min rc by simp
    obtain c' where "c' < N" "rowMinimum costs0 M N r = costs0 ! idx M r c'" using min by blast
    then show "costs0 ! idx M r c - rowMinimum costs0 M N r < fltMax"
      using bound [OF rc(2)] bound [of c'] by (simp add: abs_less_iff)
  qed auto
  then show "\<exists>u v. potentials M N costs0 {} (snd (stepOne costs0 M N)) u v" by blast
qed

lemma progress_one:
  assumes "hInv M N costs0 s" "hstep s = 1" "length costs0 = M * N" "\<forall>x\<in>set costs0. \<bar>x\<bar> < fltMax / 2"
  shows "progress M N costs0 s"
proof -
  define s' where "s' = s\<lparr>hcosts := snd (stepOne costs0 M N), hstep := 2\<rparr>"
  have "hungarianStep M N s = Inr s'"
    using assms(1,2) by (auto simp: hungarianStep_def hInv_def s'_def stepOne_def Let_def)
  moreover have "hInv M N costs0 s'"
    using assms(1,2) stepOne_potentials [OF assms(3,4)]
    by (auto simp: hInv_def s'_def starInv_def)
  moreover have "(s', s) \<in> hRel M N"
    by (rule hRel_rows) (use assms(2) in \<open>simp add: hRank1_def s'_def\<close>)
  ultimately show ?thesis unfolding progress_def by blast
qed

lemma progress_two:
  assumes "hInv M N costs0 s" "hstep s = 2"
  shows "progress M N costs0 s"
proof -
  have inv: "starInv M N costs0 (hcosts s) (hmarks s)" "starSet M N (hmarks s) = {}"
      "primeSet M N (hmarks s) = {}" "hcolCover s = replicate N 0" "hrowCover s = replicate M 0"
    using assms by (auto simp: hInv_def)
  obtain marks' where two: "stepTwo (hcosts s) (hmarks s) (replicate N 0) (replicate M 0) M N
        = (3, marks', replicate N 0, replicate M 0)"
    and m: "length marks' = M * N" "primeSet M N marks' = {}" "isMatching (starSet M N marks')"
      "starSet M N marks' \<subseteq> zeroSet M N (hcosts s)"
    using stepTwo_stars [OF _ inv(2,3)] inv(1) by (auto simp: starInv_def)
  obtain u v where "potentials M N costs0 {} (hcosts s) u v" using inv(1,2) by (auto simp: starInv_def)
  then have "potentials M N costs0 (starSet M N marks') (hcosts s) u v" by (rule potentials_mono) simp
  then have star: "starInv M N costs0 (hcosts s) marks'" using m inv(1) by (auto simp: starInv_def)
  define s' where "s' = s\<lparr>hmarks := marks', hstep := 3\<rparr>"
  have "hungarianStep M N s = Inr s'"
    using assms(2) two inv(4,5) by (simp add: hungarianStep_def s'_def)
  moreover have "hInv M N costs0 s'" using inv m(2) star by (simp add: hInv_def s'_def)
  moreover have "(s', s) \<in> hRel M N"
    by (rule hRel_rows) (use assms(2) in \<open>simp add: hRank1_def s'_def\<close>)
  ultimately show ?thesis unfolding progress_def by blast
qed

lemma progress_three:
  assumes "hInv M N costs0 s" "hstep s = 3" "M \<le> N"
  shows "progress M N costs0 s"
proof -
  let ?S = "starSet M N (hmarks s)"
  have inv: "starInv M N costs0 (hcosts s) (hmarks s)" "primeSet M N (hmarks s) = {}"
      "hcolCover s = replicate N 0" "hrowCover s = replicate M 0"
    using assms by (auto simp: hInv_def)
  then have matching: "isMatching ?S" by (simp add: starInv_def)
  obtain cover where three: "stepThree (hmarks s) (replicate N 0) M N = (if card ?S \<ge> M then 7 else 4, cover)"
    and cover: "isCover N cover" "coveredSet N cover = snd ` ?S"
    using stepThree_cover [OF matching assms(3)] .
  define s' where "s' = s\<lparr>hcolCover := cover, hstep := if card ?S \<ge> M then 7 else 4\<rparr>"
  have "hungarianStep M N s = Inr s'"
    using assms(2) three inv(3) by (simp add: hungarianStep_def s'_def)
  moreover have "hInv M N costs0 s'"
    using inv cover coverInv_init [of ?S "zeroSet M N (hcosts s)"]
    by (auto simp: hInv_def s'_def phaseInv_def)
  moreover have "(s', s) \<in> hRel M N"
    using assms(2) by (simp add: hRel_iff hRank1_def hRank2_def hRank3_def s'_def)
  ultimately show ?thesis unfolding progress_def by blast
qed

lemma progress_four:
  assumes "hInv M N costs0 s" "hstep s = 4"
  shows "progress M N costs0 s"
proof -
  have inv: "phaseInv M N costs0 (hcosts s) (hmarks s) (primeSet M N (hmarks s)) (hcolCover s) (hrowCover s)"
    using assms by (auto simp: hInv_def)
  obtain step ms cc rc fp
    where four: "stepFour (hcosts s) (hmarks s) (hcolCover s) (hrowCover s) M N (hfirstPath s)
        = Inr (step, ms, cc, rc, fp)"
      and post: "starSet M N ms = starSet M N (hmarks s)"
        "step = 6 \<and> phaseInv M N costs0 (hcosts s) ms (primeSet M N ms) cc rc \<and>
           findUncoveredZero (hcosts s) cc rc M N = None \<and>
           (count_list rc 0 < count_list (hrowCover s) 0 \<or>
            rc = hrowCover s \<and> findUncoveredZero (hcosts s) (hcolCover s) (hrowCover s) M N = None) \<or>
         step = 5 \<and> (\<exists>r c. fp = Some (r, c) \<and> pathInv M N costs0 (hcosts s) ms r c cc rc) \<and>
           count_list rc 0 \<le> count_list (hrowCover s) 0 \<and>
           findUncoveredZero (hcosts s) (hcolCover s) (hrowCover s) M N \<noteq> None"
    using stepFour_post [OF inv, of "hfirstPath s"] unfolding fourPost_def by (elim exE conjE) (rule that)
  define s' where "s' = s\<lparr>hmarks := ms, hcolCover := cc, hrowCover := rc, hfirstPath := fp, hstep := step\<rparr>"
  have run: "hungarianStep M N s = Inr s'"
    using assms(2) four by (simp add: hungarianStep_def s'_def)
  from post(2) show ?thesis
  proof (elim disjE conjE exE, goal_cases)
    case 1
    then have "hInv M N costs0 s'" by (simp add: hInv_def s'_def)
    moreover have "(s', s) \<in> hRel M N"
      using assms(2) post(1) 1 by (simp add: hRel_iff hRank1_def hRank2_def s'_def)
    ultimately show ?case using run unfolding progress_def by blast
  next
    case 2
    then have "hInv M N costs0 s'" by (simp add: hInv_def s'_def)
    moreover have "(s', s) \<in> hRel M N"
      using assms(2) post(1) 2 by (simp add: hRel_iff hRank1_def hRank2_def hRank3_def s'_def)
    ultimately show ?case using run unfolding progress_def by blast
  next
    case (3 r c)
    then have "hInv M N costs0 s'" by (simp add: hInv_def s'_def)
    moreover have "(s', s) \<in> hRel M N"
      using assms(2) post(1) 3 by (auto simp: hRel_iff hRank1_def hRank2_def hRank3_def s'_def)
    ultimately show ?case using run unfolding progress_def by blast
  qed
qed

lemma progress_five:
  assumes "hInv M N costs0 s" "hstep s = 5" "M \<le> N"
  shows "progress M N costs0 s"
proof -
  obtain r c where fp: "hfirstPath s = Some (r, c)"
    and inv: "pathInv M N costs0 (hcosts s) (hmarks s) r c (hcolCover s) (hrowCover s)"
    using assms by (auto simp: hInv_def)
  obtain ms where five: "stepFive (hmarks s) (hcolCover s) (hrowCover s) (N * N) (Some (r, c)) M N
      = Inr (3, ms, replicate N 0, replicate M 0)"
    and post: "starInv M N costs0 (hcosts s) ms" "primeSet M N ms = {}"
      "card (starSet M N ms) = Suc (card (starSet M N (hmarks s)))"
    using stepFive_post [OF inv assms(3)] .
  define s' where "s' = s\<lparr>hmarks := ms, hcolCover := replicate N 0, hrowCover := replicate M 0, hstep := 3\<rparr>"
  have "hungarianStep M N s = Inr s'"
    using assms(2) five fp by (simp add: hungarianStep_def s'_def)
  moreover have "hInv M N costs0 s'" using post by (simp add: hInv_def s'_def)
  moreover have "card (starSet M N (hmarks s)) < M" using inv by (auto simp: pathInv_def phaseInv_def)
  then have "(s', s) \<in> hRel M N"
    by (intro hRel_rows) (use assms(2) post(3) in \<open>simp add: hRank1_def s'_def\<close>)
  ultimately show ?thesis unfolding progress_def by blast
qed

lemma progress_six:
  assumes "hInv M N costs0 s" "hstep s = 6" "M \<le> N"
  shows "progress M N costs0 s"
proof -
  have inv: "phaseInv M N costs0 (hcosts s) (hmarks s) (primeSet M N (hmarks s)) (hcolCover s) (hrowCover s)"
    using assms by (auto simp: hInv_def)
  have "primeSet M N (hmarks s) \<subseteq> {..<M} \<times> {..<N}" by (auto simp: primeSet_def)
  then obtain costs' where six: "stepSix (hcosts s) (hcolCover s) (hrowCover s) M N = (4, costs')"
    and post: "phaseInv M N costs0 costs' (hmarks s) (primeSet M N (hmarks s)) (hcolCover s) (hrowCover s)"
      "findUncoveredZero costs' (hcolCover s) (hrowCover s) M N \<noteq> None"
    using stepSix_post [OF inv assms(3)] by blast
  define s' where "s' = s\<lparr>hcosts := costs', hstep := 4\<rparr>"
  have "hungarianStep M N s = Inr s'"
    using assms(2) six by (simp add: hungarianStep_def s'_def)
  moreover have "hInv M N costs0 s'" using post(1) by (simp add: hInv_def s'_def)
  moreover have "(s', s) \<in> hRel M N"
    using assms(2) post(2) by (auto simp: hRel_iff hRank1_def hRank2_def hRank3_def s'_def)
  ultimately show ?thesis unfolding progress_def by blast
qed

lemma hungarianStep_progress:
  assumes "hInv M N costs0 s" "hstep s \<noteq> 7" "M \<le> N"
    "length costs0 = M * N" "\<forall>x\<in>set costs0. \<bar>x\<bar> < fltMax / 2"
  shows "progress M N costs0 s"
proof -
  consider "hstep s = 1" | "hstep s = 2" | "hstep s = 3" | "hstep s = 4" | "hstep s = 5" | "hstep s = 6"
    using hInv_steps [OF assms(1)] assms(2) by blast
  then show ?thesis
  proof cases
    case 1
    show ?thesis using assms(1) 1 assms(4,5) by (rule progress_one)
  next
    case 2
    show ?thesis using assms(1) 2 by (rule progress_two)
  next
    case 3
    show ?thesis using assms(1) 3 assms(3) by (rule progress_three)
  next
    case 4
    show ?thesis using assms(1) 4 by (rule progress_four)
  next
    case 5
    show ?thesis using assms(1) 5 assms(3) by (rule progress_five)
  next
    case 6
    show ?thesis using assms(1) 6 assms(3) by (rule progress_six)
  qed
qed

lemma hungarianLoop_ends:
  assumes "hInv M N costs0 s" "M \<le> N" "length costs0 = M * N" "\<forall>x\<in>set costs0. \<bar>x\<bar> < fltMax / 2"
  shows "\<exists>t. hungarianLoop M N s = Some (Inr t) \<and> hInv M N costs0 t \<and> hstep t = 7"
proof -
  let ?b = "\<lambda>res :: hstate result. case res of Inl _ \<Rightarrow> False | Inr s \<Rightarrow> hstep s \<noteq> 7"
  let ?c = "\<lambda>res. rbind res (hungarianStep M N)"
  let ?P = "\<lambda>res. \<exists>s. res = Inr s \<and> hInv M N costs0 s"
  have wf: "wf (inv_image (hRel M N) projr)" by (simp add: hRel_def)
  have step: "(?c res, res) \<in> inv_image (hRel M N) projr \<and> ?P (?c res)" if P: "?P res \<and> ?b res" for res
  proof -
    obtain s where s: "res = Inr s" "hInv M N costs0 s" "hstep s \<noteq> 7" using P by auto
    then obtain s' where "hungarianStep M N s = Inr s'" "hInv M N costs0 s'" "(s', s) \<in> hRel M N"
      using hungarianStep_progress [OF s(2,3) assms(2-4)] unfolding progress_def by blast
    then show ?thesis using s(1) by simp
  qed
  have init: "?P (Inr s)" using assms(1) by blast
  obtain t where t: "while_option ?b ?c (Inr s) = Some t"
    using wf_rel_while_option_Some [where R = "inv_image (hRel M N) projr" and P = ?P and b = ?b
        and c = ?c and s = "Inr s"] wf step init by (simp only:) blast
  have "?P t"
    by (rule while_option_rule [where P = ?P, OF _ t init]) (use step in blast)
  then show ?thesis using t while_option_stop [OF t] by (auto simp: hungarianLoop_def)
qed


subsection \<open>Step seven\<close>

lemma rfold_idle: "(\<And>x. x \<in> set xs \<Longrightarrow> f x s = Inr s) \<Longrightarrow> rfold f xs s = Inr s"
  by (induction xs) auto

definition sevenBody ::
    "mark list \<Rightarrow> nat \<Rightarrow> nat \<times> nat \<Rightarrow> nat \<times> nat list \<times> nat list \<Rightarrow> (nat \<times> nat list \<times> nat list) result" where
  "sevenBody marks M = (\<lambda>(r, c) (i, rowIdxs, colIdxs).
     if marks ! idx M r c = Star then
       if i < length rowIdxs \<and> i < length colIdxs
       then Inr (i + 1, rowIdxs[i := r], colIdxs[i := c])
       else Inl (Undefined ''rowIdxs'')
     else Inr (i, rowIdxs, colIdxs))"

lemma sevenBody_row:
  assumes star: "(r, k) \<in> starSet M N marks" and matching: "isMatching (starSet M N marks)"
    and i: "i < length rows" "i < length cols"
  shows "rfold (sevenBody marks M) (map (Pair r) [0..<N]) (i, rows, cols) = Inr (Suc i, rows[i := r], cols[i := k])"
proof -
  have k: "k < N" "r < M" "marks ! idx M r k = Star" using star by (auto simp: starSet_def)
  have other: "marks ! idx M r c \<noteq> Star" if "c < N" "c \<noteq> k" for c
    using isMatchingD(1) [OF matching star, of c] that k by (auto simp: starSet_def)
  have split: "[0..<N] = [0..<k] @ k # [Suc k..<N]"
    using k(1) by (metis le_add_same_cancel1 upt_add_eq_append upt_conv_Cons le_add_diff_inverse less_imp_le_nat zero_le)
  have before: "rfold (sevenBody marks M) (map (Pair r) [0..<k]) (i, rows, cols) = Inr (i, rows, cols)"
    by (rule rfold_idle) (use other k(1) in \<open>auto simp: sevenBody_def\<close>)
  have after: "rfold (sevenBody marks M) (map (Pair r) [Suc k..<N]) s = Inr s" for s
    by (rule rfold_idle) (use other in \<open>auto simp: sevenBody_def\<close>)
  have "sevenBody marks M (r, k) (i, rows, cols) = Inr (Suc i, rows[i := r], cols[i := k])"
    using k(3) i by (simp add: sevenBody_def)
  then show ?thesis unfolding split by (simp add: rfold_append before after)
qed

lemma stepSeven_assignment:
  assumes matching: "isMatching (starSet M N marks)" and full: "fst ` starSet M N marks = {..<M}"
    and len: "length rowIdxs = M" "length colIdxs = M"
  obtains cols where "stepSeven marks rowIdxs colIdxs M N = Inr ([0..<M], cols)" "length cols = M"
    "\<forall>r<M. (r, cols ! r) \<in> starSet M N marks"
proof -
  let ?cells = "\<lambda>n. concat (map (\<lambda>r. map (Pair r) [0..<N]) [0..<n])"
  have "\<exists>rows cols. rfold (sevenBody marks M) (?cells n) (0, rowIdxs, colIdxs) = Inr (n, rows, cols) \<and>
      length rows = M \<and> length cols = M \<and> (\<forall>r<n. rows ! r = r \<and> (r, cols ! r) \<in> starSet M N marks)"
    if "n \<le> M" for n
    using that
  proof (induction n)
    case (Suc n)
    then obtain rows cols where IH: "rfold (sevenBody marks M) (?cells n) (0, rowIdxs, colIdxs) = Inr (n, rows, cols)"
      "length rows = M" "length cols = M" "\<forall>r<n. rows ! r = r \<and> (r, cols ! r) \<in> starSet M N marks" by auto
    have "n \<in> fst ` starSet M N marks" using full Suc.prems by auto
    then obtain k where k: "(n, k) \<in> starSet M N marks" by auto
    have "rfold (sevenBody marks M) (?cells (Suc n)) (0, rowIdxs, colIdxs) = Inr (Suc n, rows[n := n], cols[n := k])"
      using IH(1) sevenBody_row [OF k matching, of n rows cols] IH(2,3) Suc.prems by (simp add: rfold_append)
    moreover have "rows[n := n] ! r = r \<and> (r, cols[n := k] ! r) \<in> starSet M N marks" if "r < Suc n" for r
      using IH(2-4) k that Suc.prems by (cases "r = n") (auto simp: nth_list_update less_Suc_eq)
    ultimately show ?case using IH(2,3) by auto
  qed (use len in simp)
  from this [of M] obtain rows cols
    where res: "rfold (sevenBody marks M) (?cells M) (0, rowIdxs, colIdxs) = Inr (M, rows, cols)"
      and rows: "length rows = M" "\<forall>r<M. rows ! r = r"
      and cols: "length cols = M" "\<forall>r<M. (r, cols ! r) \<in> starSet M N marks" by auto
  have "rows = [0..<M]" using rows by (auto intro: nth_equalityI)
  moreover have "rowMajor M N = ?cells M" by (simp add: rowMajor_def)
  ultimately have "stepSeven marks rowIdxs colIdxs M N = Inr ([0..<M], cols)"
    using res by (simp add: stepSeven_def sevenBody_def)
  then show thesis using that cols by blast
qed

subsection \<open>The theorems\<close>

lemma full_rows:
  assumes "isMatching (starSet M N marks)" "M \<le> card (starSet M N marks)"
  shows "fst ` starSet M N marks = {..<M}"
proof (rule card_subset_eq)
  show "fst ` starSet M N marks \<subseteq> {..<M}" using starSet_subset by force
  then have "card (fst ` starSet M N marks) \<le> M" using card_mono [of "{..<M}"] by fastforce
  moreover have "card (fst ` starSet M N marks) = card (starSet M N marks)"
    using assms(1) by (simp add: isMatching_def card_image)
  ultimately show "card (fst ` starSet M N marks) = card {..<M}" using assms(2) by simp
qed simp

lemma hungarian_assignments_stars:
  assumes "M \<le> N" "N < 32768" "length costs = M * N" "\<forall>x\<in>set costs. \<bar>x\<bar> < fltMax / 2"
    and "length marks = M * N" "set marks \<subseteq> {NoMark}"
  obtains costs' marks' u v where "hungarian_assignments costs marks M N = Some (Inr (costs', marks'))"
    "isMatching (starSet M N marks')" "fst ` starSet M N marks' = {..<M}"
    "starSet M N marks' \<subseteq> zeroSet M N costs'" "potentials M N costs (starSet M N marks') costs' u v"
proof -
  let ?s = "\<lparr>hcosts = costs, hmarks = marks, hcolCover = replicate N 0, hrowCover = replicate M 0,
    hfirstPath = None, hstep = 1\<rparr>"
  have "marks ! idx M r c = NoMark" if "r < M" "c < N" for r c
    using subsetD [OF assms(6) nth_mem, of "idx M r c"] assms(5) that by simp
  then have "starSet M N marks = {}" "primeSet M N marks = {}" by (auto simp: starSet_def primeSet_def)
  then have "hInv M N costs ?s" using assms(5) by (simp add: hInv_def)
  then obtain t where t: "hungarianLoop M N ?s = Some (Inr t)" "hInv M N costs t" "hstep t = 7"
    using hungarianLoop_ends assms(1,3,4) by blast
  then have star: "starInv M N costs (hcosts t) (hmarks t)" "M \<le> card (starSet M N (hmarks t))"
    by (auto simp: hInv_def)
  have "N * N \<le> 32767 * 32767" using assms(2) by (intro mult_le_mono) auto
  then have "hungarian_assignments costs marks M N = Some (Inr (hcosts t, hmarks t))"
    using t(1) assms(1) by (simp add: hungarian_assignments_def)
  then show thesis
    using that star full_rows unfolding starInv_def by blast
qed

text \<open>
  C3. The assignment is optimal: on a matrix with at least as many columns as rows and finite costs,
  \<^verbatim>\<open>hungarian\<close> ends without leaving an array, lists the rows in order, gives each a column of its own,
  and no other assignment costs less.
\<close>

theorem hungarian_optimal:
  assumes "M \<le> N" "N < 32768" "length costs = M * N" "\<forall>x\<in>set costs. \<bar>x\<bar> < fltMax / 2"
    and "length rowIdxs = M" "length colIdxs = M"
  shows "\<exists>costs' cols. hungarian costs rowIdxs colIdxs M N = Some (Inr (costs', [0..<M], cols)) \<and>
    isAssignment M N cols \<and>
    (\<forall>cols'. isAssignment M N cols' \<longrightarrow> assignmentCost M costs cols \<le> assignmentCost M costs cols')"
proof -
  obtain costs' marks' u v
    where run: "hungarian_assignments costs (replicate (M * N) NoMark) M N = Some (Inr (costs', marks'))"
      and star: "isMatching (starSet M N marks')" "fst ` starSet M N marks' = {..<M}"
        "starSet M N marks' \<subseteq> zeroSet M N costs'" "potentials M N costs (starSet M N marks') costs' u v"
    by (rule hungarian_assignments_stars [OF assms(1-4), of "replicate (M * N) NoMark"]) auto
  obtain cols where seven: "stepSeven marks' rowIdxs colIdxs M N = Inr ([0..<M], cols)"
    and cols: "length cols = M" "\<forall>r<M. (r, cols ! r) \<in> starSet M N marks'"
    by (rule stepSeven_assignment [OF star(1,2) assms(5,6)])
  have "hungarian costs rowIdxs colIdxs M N = Some (Inr (costs', [0..<M], cols))"
    using run seven by (simp add: hungarian_def)
  then show ?thesis
    using stars_are_optimal [OF star(4,1,3) cols(1)] cols(2) by blast
qed

theorem hungarian_optimal_witness:
  "\<exists>costs' cols. hungarian [1, 2, 2, 4, 3, 6] [0, 0] [0, 0] 2 3 = Some (Inr (costs', [0, 1], cols)) \<and>
    isAssignment 2 3 cols \<and>
    (\<forall>cols'. isAssignment 2 3 cols' \<longrightarrow>
      assignmentCost 2 [1, 2, 2, 4, 3, 6] cols \<le> assignmentCost 2 [1, 2, 2, 4, 3, 6] cols')"
  using hungarian_optimal [of 2 3 "[1, 2, 2, 4, 3, 6]" "[0, 0]" "[0, 0]"]
  by (simp add: fltMax_def upt_rec)

text \<open>
  The overload that fills a matrix of assignments does not clear it: a value left in the array by the
  caller counts as a star, here a second one in the only row.
\<close>

lemma hungarianLoop_next:
  "hstep s \<noteq> 7 \<Longrightarrow> hungarianStep M N s = Inr s' \<Longrightarrow> hungarianLoop M N s = hungarianLoop M N s'"
  unfolding hungarianLoop_def by (subst while_option_unfold) simp

lemma hungarianLoop_last: "hstep s = 7 \<Longrightarrow> hungarianLoop M N s = Some (Inr s)"
  unfolding hungarianLoop_def by (subst while_option_unfold) simp

lemma hungarian_assignments_stale:
  "hungarian_assignments [0, 5] [NoMark, Star] 1 2 = Some (Inr ([0, 5], [Star, Star]))"
proof -
  let ?s = "\<lambda>marks cover step. \<lparr>hcosts = [0, 5], hmarks = marks, hcolCover = cover, hrowCover = [0],
    hfirstPath = None, hstep = step\<rparr>"
  have two [simp]: "replicate 2 (0 :: nat) = [0, 0]" by (simp add: numeral_2_eq_2)
  have "hungarianStep 1 2 (?s [NoMark, Star] [0, 0] 1) = Inr (?s [NoMark, Star] [0, 0] 2)"
    by (simp add: hungarianStep_def stepOne_def rowMinimum_def Let_def upt_rec idx_def fltMax_def)
  moreover have "hungarianStep 1 2 (?s [NoMark, Star] [0, 0] 2) = Inr (?s [Star, Star] [0, 0] 3)"
    by (simp add: hungarianStep_def stepTwo_def rowMajor_def Let_def upt_rec idx_def)
  moreover have "hungarianStep 1 2 (?s [Star, Star] [0, 0] 3) = Inr (?s [Star, Star] [1, 1] 7)"
    by (simp add: hungarianStep_def stepThree_def rowMajor_def Let_def upt_rec idx_def)
  ultimately have "hungarianLoop 1 2 (?s [NoMark, Star] [0, 0] 1) = Some (Inr (?s [Star, Star] [1, 1] 7))"
    by (simp add: hungarianLoop_next hungarianLoop_last)
  then show ?thesis by (simp add: hungarian_assignments_def)
qed

end
