(* ===== verification/Workspace.thy ===== *)
theory Workspace
  imports Prelude "HOL-Library.Word"
begin

section \<open>Workspaces (\<^verbatim>\<open>lib/sequence/criterion/Workspace.h\<close>)\<close>

text \<open>
  A workspace cuts a block of memory into arrays that start at multiples of \<^verbatim>\<open>Alignment\<close>. A criterion first runs its requests
  on the null pointer to learn the size of the block, and later runs the same requests on the block itself. Pointers,
  offsets and sizes are \<^verbatim>\<open>uintptr_t\<close> and \<^verbatim>\<open>size_t\<close>, so they are words of 64 bits and wrap around. A request is the size of
  the element type and the four dimensions.
\<close>

record workspace =
  workspacePtr :: "64 word"
  offset :: "64 word"

type_synonym request = "64 word \<times> 64 word \<times> 64 word \<times> 64 word \<times> 64 word"

definition align :: "64 word \<Rightarrow> workspace \<Rightarrow> workspace" where
  "align A ws = ws\<lparr>offset := offset ws + (A - 1 - (workspacePtr ws + offset ws + A - 1) mod A)\<rparr>"

definition new_workspace :: "64 word \<Rightarrow> 64 word \<Rightarrow> workspace" where
  "new_workspace A ptr = align A \<lparr>workspacePtr = ptr, offset = 0\<rparr>"

fun request_array :: "64 word \<Rightarrow> request \<Rightarrow> workspace \<Rightarrow> 64 word \<times> workspace" where
  "request_array A (size_T, s0, s1, s2, s3) ws =
     (let ws' = align A ws in (workspacePtr ws' + offset ws', ws'\<lparr>offset := offset ws' + size_T * s0 * s1 * s2 * s3\<rparr>))"

fun requests :: "64 word \<Rightarrow> request list \<Rightarrow> workspace \<Rightarrow> 64 word list \<times> workspace" where
  "requests A [] ws = ([], ws)"
| "requests A (r # rs) ws = (let (p, ws') = request_array A r ws; (ps, ws'') = requests A rs ws' in (p # ps, ws''))"

definition requiredSize :: "64 word \<Rightarrow> workspace \<Rightarrow> 64 word" where
  "requiredSize A ws = offset ws + A - 1"

text \<open>The requests of the criteria, with \<open>f\<close> the size of \<^verbatim>\<open>Float\<close>; an \<^verbatim>\<open>int\<close> is 4 and a \<^verbatim>\<open>double\<close> 8 bytes.\<close>

definition viterbi_requests :: "64 word \<Rightarrow> 64 word \<Rightarrow> 64 word \<Rightarrow> 64 word \<Rightarrow> request list" where
  "viterbi_requests f B T N = [(f, B, 2, N, 1), (4, B, T, N, 1)]"

definition fcc_requests :: "64 word \<Rightarrow> 64 word \<Rightarrow> 64 word \<Rightarrow> 64 word \<Rightarrow> request list" where
  "fcc_requests f B T N = [(f, B, 1, 1, 1), (8, B, T, N, 1), (8, B, T, N, 1), (8, B, N, N, 1), (8, B, N, N, 1)]"

definition fac_requests :: "64 word \<Rightarrow> 64 word \<Rightarrow> 64 word \<Rightarrow> 64 word \<Rightarrow> 64 word \<Rightarrow> request list" where
  "fac_requests f B T N L =
     [(f, B, 1, 1, 1), (8, B, T, L, 1), (8, B, T, L, 1), (f, B, N, N, 1), (f, B, L, 1, 1), (f, B, L, 1, 1), (f, B, L, 1, 1), (f, B, L, 1, 1)]"

definition ctc_requests :: "64 word \<Rightarrow> 64 word \<Rightarrow> 64 word \<Rightarrow> 64 word \<Rightarrow> request list" where
  "ctc_requests f B T L =
     (let s = 2 * L + 1 in [(f, B, T, s, 1), (4, B, s, 1, 1), (4, B, s, 1, 1), (4, B, T, s, 1), (4, B, s, 1, 1)])"

definition getWorkspaceSize :: "request list \<Rightarrow> 64 word" where
  "getWorkspaceSize rs = requiredSize 256 (snd (requests 256 rs (new_workspace 256 0)))"

subsection \<open>The layout without wrap-around\<close>

text \<open>The bytes of an array and of all arrays as numbers.\<close>

fun bytes :: "request \<Rightarrow> nat" where
  "bytes (size_T, s0, s1, s2, s3) = unat size_T * unat s0 * unat s1 * unat s2 * unat s3"

definition total :: "request list \<Rightarrow> nat" where
  "total rs = sum_list (map bytes rs)"

definition pad :: "nat \<Rightarrow> nat \<Rightarrow> nat" where
  "pad a x = a - 1 - (x + a - 1) mod a"

fun layout :: "nat \<Rightarrow> nat list \<Rightarrow> nat \<Rightarrow> nat list \<times> nat" where
  "layout a [] x = ([], x)"
| "layout a (b # bs) x = (let x' = x + pad a x; (ps, y) = layout a bs (x' + b) in (x' # ps, y))"

lemma pad_less: "0 < a \<Longrightarrow> pad a x < a"
  by (simp add: pad_def)

lemma pad_dvd:
  assumes "0 < a"
  shows "a dvd x + pad a x"
proof -
  have "x + a - 1 = (x + a - 1) div a * a + (x + a - 1) mod a" by simp
  moreover have "(x + a - 1) mod a \<le> a - 1" using mod_less_divisor [OF assms, of "x + a - 1"] by linarith
  ultimately have "x + pad a x = (x + a - 1) div a * a" using assms unfolding pad_def by linarith
  then show ?thesis by simp
qed

lemma pad_shift: "a dvd c \<Longrightarrow> pad a (c + x) = pad a x"
proof (cases "a = 0")
  case False
  assume "a dvd c"
  then have "(c + (x + a - 1)) mod a = (x + a - 1) mod a" by (metis mod_add_left_eq mod_0_imp_dvd dvd_imp_mod_0 add_0)
  moreover have "c + x + a - 1 = c + (x + a - 1)" using False by simp
  ultimately show ?thesis by (simp add: pad_def)
qed (simp add: pad_def)

lemma layout_shift: "a dvd c \<Longrightarrow> layout a bs (c + x) = (map ((+) c) (fst (layout a bs x)), c + snd (layout a bs x))"
proof (induction bs arbitrary: x)
  case (Cons b bs)
  have "c + x + pad a (c + x) + b = c + (x + pad a x + b)" using pad_shift [OF Cons.prems] by simp
  then show ?case using Cons pad_shift [OF Cons.prems, of x] by (simp add: Let_def split_def add.assoc)
qed simp

text \<open>The arrays are aligned, in bounds and in order.\<close>

lemma layout_sound:
  assumes "0 < a"
  shows "length (fst (layout a bs x)) = length bs \<and> x \<le> snd (layout a bs x) \<and>
    (\<forall>k<length bs. a dvd fst (layout a bs x) ! k \<and> x \<le> fst (layout a bs x) ! k \<and> fst (layout a bs x) ! k + bs ! k \<le> snd (layout a bs x)) \<and>
    (\<forall>j k. j < k \<and> k < length bs \<longrightarrow> fst (layout a bs x) ! j + bs ! j \<le> fst (layout a bs x) ! k)"
proof (induction bs arbitrary: x)
  case (Cons b bs)
  let ?x = "x + pad a x + b"
  have len: "length (fst (layout a bs ?x)) = length bs" and up: "?x \<le> snd (layout a bs ?x)"
    and each: "\<And>k. k < length bs \<Longrightarrow> a dvd fst (layout a bs ?x) ! k \<and> ?x \<le> fst (layout a bs ?x) ! k \<and> fst (layout a bs ?x) ! k + bs ! k \<le> snd (layout a bs ?x)"
    and order: "\<And>j k. j < k \<Longrightarrow> k < length bs \<Longrightarrow> fst (layout a bs ?x) ! j + bs ! j \<le> fst (layout a bs ?x) ! k"
    using Cons [of ?x] by auto
  have e: "fst (layout a (b # bs) x) = (x + pad a x) # fst (layout a bs ?x)" "snd (layout a (b # bs) x) = snd (layout a bs ?x)"
    by (simp_all add: Let_def split_def)
  have 1: "a dvd fst (layout a (b # bs) x) ! k \<and> x \<le> fst (layout a (b # bs) x) ! k \<and>
      fst (layout a (b # bs) x) ! k + (b # bs) ! k \<le> snd (layout a (b # bs) x)" if "k < length (b # bs)" for k
    using that pad_dvd [OF assms, of x] up each [of "k - 1"] unfolding e by (cases k) auto
  have 2: "fst (layout a (b # bs) x) ! j + (b # bs) ! j \<le> fst (layout a (b # bs) x) ! k" if "j < k" "k < length (b # bs)" for j k
    using that each [of "k - 1"] order [of "j - 1" "k - 1"] unfolding e by (cases j; cases k) auto
  show ?case using len up 1 2 unfolding e by auto
qed simp

lemma layout_bound: "0 < a \<Longrightarrow> snd (layout a bs x) \<le> x + sum_list bs + a * length bs"
proof (induction bs arbitrary: x)
  case (Cons b bs)
  have "snd (layout a bs (x + pad a x + b)) \<le> x + pad a x + b + sum_list bs + a * length bs" by (rule Cons.IH [OF Cons.prems])
  then show ?case using pad_less [OF Cons.prems, of x] by (simp add: Let_def split_def)
qed simp

subsection \<open>The words follow the layout\<close>

lemma unat_add_small: "unat x + unat y < 2 ^ 64 \<Longrightarrow> unat (x + y) = unat x + unat y" for x y :: "64 word"
  by (simp add: unat_word_ariths)

lemma unat_mult_small: "unat x * unat y < 2 ^ 64 \<Longrightarrow> unat (x * y) = unat x * unat y" for x y :: "64 word"
  by (simp add: unat_word_ariths)

lemma align_pad:
  assumes A: "0 < unat A" and small: "unat (workspacePtr ws) + unat (offset ws) + 2 * unat A \<le> 2 ^ 64"
  shows "unat (offset (align A ws)) = unat (offset ws) + pad (unat A) (unat (workspacePtr ws) + unat (offset ws))"
proof -
  let ?x = "workspacePtr ws + offset ws"
  have x: "unat ?x = unat (workspacePtr ws) + unat (offset ws)" using small A by (intro unat_add_small) simp
  have xa: "unat (?x + A) = unat ?x + unat A" using small A x by (intro unat_add_small) simp
  have A1: "1 \<le> A" "1 \<le> ?x + A" using A xa by (simp_all add: word_le_nat_alt)
  have m: "unat ((?x + A - 1) mod A) = (unat ?x + unat A - 1) mod unat A"
    using A1 xa by (simp add: unat_mod unat_sub)
  then have "(?x + A - 1) mod A \<le> A - 1" using A1 A mod_less_divisor [OF A, of "unat ?x + unat A - 1"]
    by (simp add: word_le_nat_alt unat_sub)
  then have p: "unat (A - 1 - (?x + A - 1) mod A) = pad (unat A) (unat ?x)" using m A1 by (simp add: unat_sub pad_def)
  have "unat (offset ws) + unat (A - 1 - (?x + A - 1) mod A) < 2 ^ 64" using p pad_less [OF A, of "unat ?x"] small A by simp
  then show ?thesis unfolding align_def using p x by (simp add: unat_add_small)
qed

lemma align_ptr [simp]: "workspacePtr (align A ws) = workspacePtr ws"
  by (simp add: align_def)

lemma mult_le_left: "a * b < n \<Longrightarrow> b = 0 \<or> a < n" for a b n :: nat
  by (cases b) auto

lemma bytes_unat: "bytes (z, s0, s1, s2, s3) < 2 ^ 64 \<Longrightarrow> unat (z * s0 * s1 * s2 * s3) = bytes (z, s0, s1, s2, s3)"
proof -
  assume *: "bytes (z, s0, s1, s2, s3) < 2 ^ 64"
  show ?thesis
  proof (cases "s0 = 0 \<or> s1 = 0 \<or> s2 = 0 \<or> s3 = 0")
    case False
    then have "unat s1 > 0" "unat s2 > 0" "unat s3 > 0" by (simp_all add: unat_gt_0)
    then have "unat z * unat s0 * unat s1 * unat s2 < 2 ^ 64" "unat z * unat s0 * unat s1 < 2 ^ 64" "unat z * unat s0 < 2 ^ 64"
      using * mult_le_left [of "unat z * unat s0 * unat s1 * unat s2" "unat s3" "2 ^ 64"]
        mult_le_left [of "unat z * unat s0 * unat s1" "unat s2" "2 ^ 64"] mult_le_left [of "unat z * unat s0" "unat s1" "2 ^ 64"] by auto
    then show ?thesis using * by (simp add: unat_mult_small)
  qed auto
qed

lemma requests_layout:
  assumes A: "0 < unat A"
    and small: "snd (layout (unat A) (map bytes rs) (unat (workspacePtr ws) + unat (offset ws))) + 2 * unat A \<le> 2 ^ 64"
  shows "map unat (fst (requests A rs ws)) = fst (layout (unat A) (map bytes rs) (unat (workspacePtr ws) + unat (offset ws))) \<and>
    workspacePtr (snd (requests A rs ws)) = workspacePtr ws \<and>
    unat (workspacePtr ws) + unat (offset (snd (requests A rs ws))) = snd (layout (unat A) (map bytes rs) (unat (workspacePtr ws) + unat (offset ws)))"
  using small
proof (induction rs arbitrary: ws)
  case (Cons r rs)
  obtain z s0 s1 s2 s3 where r: "r = (z, s0, s1, s2, s3)" by (cases r) auto
  let ?x = "unat (workspacePtr ws) + unat (offset ws)"
  let ?y = "?x + pad (unat A) ?x + bytes r"
  define ws' where "ws' = (align A ws)\<lparr>offset := offset (align A ws) + z * s0 * s1 * s2 * s3\<rparr>"
  have s: "snd (layout (unat A) (map bytes rs) ?y) + 2 * unat A \<le> 2 ^ 64" using Cons.prems by (simp add: Let_def split_def)
  have le: "?y \<le> snd (layout (unat A) (map bytes rs) ?y)" using layout_sound [OF A] by blast
  have al: "unat (offset (align A ws)) = unat (offset ws) + pad (unat A) ?x" using s le by (intro align_pad [OF A]) linarith
  have "unat (z * s0 * s1 * s2 * s3) = bytes r" using s le A unfolding r by (intro bytes_unat) linarith
  then have off: "unat (offset ws') = unat (offset ws) + pad (unat A) ?x + bytes r"
    using unat_add_small [of "offset (align A ws)" "z * s0 * s1 * s2 * s3"] al s le A unfolding ws'_def by simp
  have ptr: "workspacePtr ws' = workspacePtr ws" by (simp add: ws'_def)
  have y: "unat (workspacePtr ws') + unat (offset ws') = ?y" using off ptr by simp
  have here: "unat (workspacePtr ws + offset (align A ws)) = ?x + pad (unat A) ?x"
    using unat_add_small [of "workspacePtr ws" "offset (align A ws)"] al s le A by simp
  have step: "requests A (r # rs) ws = (let (ps, ws'') = requests A rs ws' in ((workspacePtr ws + offset (align A ws)) # ps, ws''))"
    unfolding r ws'_def by (simp add: Let_def)
  show ?case using Cons.IH [of ws'] s here ptr unfolding step y by (simp add: Let_def split_def)
qed simp

lemma new_workspace_offset:
  assumes A: "0 < unat A" and small: "unat p + 2 * unat A \<le> 2 ^ 64"
  shows "workspacePtr (new_workspace A p) = p" "unat (offset (new_workspace A p)) = pad (unat A) (unat p)"
  using align_pad [OF A, of "\<lparr>workspacePtr = p, offset = 0\<rparr>"] small by (simp_all add: new_workspace_def)

text \<open>The space that is enough for all requests, with the padding before each array and around the block.\<close>

definition fits :: "64 word \<Rightarrow> request list \<Rightarrow> 64 word \<Rightarrow> bool" where
  "fits A rs p \<longleftrightarrow> unat p + total rs + unat A * (length rs + 3) \<le> 2 ^ 64"

lemma workspace_run:
  assumes A: "0 < unat A" and f: "fits A rs p"
  shows "map unat (fst (requests A rs (new_workspace A p))) = map ((+) (unat p + pad (unat A) (unat p))) (fst (layout (unat A) (map bytes rs) 0))"
    "unat p + unat (offset (snd (requests A rs (new_workspace A p)))) = unat p + pad (unat A) (unat p) + snd (layout (unat A) (map bytes rs) 0)"
proof -
  let ?c = "unat p + pad (unat A) (unat p)"
  have sp: "unat p + 2 * unat A \<le> 2 ^ 64" using f by (simp add: fits_def algebra_simps)
  note new = new_workspace_offset [OF A sp]
  have shift: "layout (unat A) (map bytes rs) ?c = (map ((+) ?c) (fst (layout (unat A) (map bytes rs) 0)), ?c + snd (layout (unat A) (map bytes rs) 0))"
    using layout_shift [OF pad_dvd [OF A, of "unat p"], of "map bytes rs" 0] by simp
  have "snd (layout (unat A) (map bytes rs) ?c) + 2 * unat A \<le> 2 ^ 64"
    using layout_bound [OF A, of "map bytes rs" ?c] pad_less [OF A, of "unat p"] f by (simp add: fits_def total_def algebra_simps)
  then show "map unat (fst (requests A rs (new_workspace A p))) = map ((+) ?c) (fst (layout (unat A) (map bytes rs) 0))"
    "unat p + unat (offset (snd (requests A rs (new_workspace A p)))) = ?c + snd (layout (unat A) (map bytes rs) 0)"
    using requests_layout [OF A, of rs "new_workspace A p"] unfolding new shift by simp_all
qed

text \<open>
  C20. The size computed on the null pointer is enough for every block: if nothing wraps around, the requests run
  on any base pointer give arrays that start at multiples of the alignment, lie inside the first
  \<^verbatim>\<open>requiredSize()\<close> bytes of the block, and do not overlap, the next one starting at or after the end of the one before.
\<close>

theorem workspace_layout:
  assumes A: "0 < A" and small: "fits A rs p" and k: "k < length rs"
  shows "length (fst (requests A rs (new_workspace A p))) = length rs \<and>
    unat A dvd unat (fst (requests A rs (new_workspace A p)) ! k) \<and>
    unat p \<le> unat (fst (requests A rs (new_workspace A p)) ! k) \<and>
    unat (fst (requests A rs (new_workspace A p)) ! k) + bytes (rs ! k) \<le> unat p + unat (requiredSize A (snd (requests A rs (new_workspace A 0)))) \<and>
    (\<forall>j<k. unat (fst (requests A rs (new_workspace A p)) ! j) + bytes (rs ! j) \<le> unat (fst (requests A rs (new_workspace A p)) ! k))"
proof -
  let ?c = "unat p + pad (unat A) (unat p)" and ?l = "layout (unat A) (map bytes rs) 0"
  have a: "0 < unat A" using A by (simp add: unat_gt_0 word_greater_zero_iff)
  have z: "fits A rs 0" using small by (simp add: fits_def)
  note run = workspace_run [OF a small] and null = workspace_run [OF a z]
  note sound = layout_sound [OF a, of "map bytes rs" 0]
  have len: "length (fst ?l) = length rs" using sound by simp
  have lp: "length (fst (requests A rs (new_workspace A p))) = length rs" using arg_cong [OF run(1), of length] len by simp
  have nth: "unat (fst (requests A rs (new_workspace A p)) ! j) = ?c + fst ?l ! j" if "j < length rs" for j
    using arg_cong [OF run(1), of "\<lambda>xs. xs ! j"] that lp len by simp
  have off: "unat (offset (snd (requests A rs (new_workspace A 0)))) = snd ?l" using null(2) a by (simp add: pad_def)
  have "snd ?l + unat A \<le> 2 ^ 64 - unat A" using layout_bound [OF a, of "map bytes rs" 0] z by (simp add: fits_def total_def algebra_simps)
  then have size: "unat (requiredSize A (snd (requests A rs (new_workspace A 0)))) = snd ?l + unat A - 1"
    using off a unat_add_small [of "offset (snd (requests A rs (new_workspace A 0)))" A]
    unfolding requiredSize_def by (simp add: unat_sub word_le_nat_alt)
  have "unat A dvd ?c + fst ?l ! k" using sound k pad_dvd [OF a, of "unat p"] by (auto intro: dvd_add)
  moreover have "fst ?l ! k + bytes (rs ! k) \<le> snd ?l" using sound k by auto
  moreover have "\<forall>j<k. fst ?l ! j + bytes (rs ! j) \<le> fst ?l ! k" using sound k by auto
  ultimately show ?thesis using lp k size pad_less [OF a, of "unat p"] by (auto simp: nth)
qed

theorem workspace_layout_witness:
  "unat (fst (requests 256 (viterbi_requests 4 1 3 5) (new_workspace 256 1000)) ! 1) + 60 \<le> 1000 + unat (getWorkspaceSize (viterbi_requests 4 1 3 5))"
proof -
  have "fits 256 (viterbi_requests 4 1 3 5) 1000" by (simp add: fits_def viterbi_requests_def total_def)
  moreover have "1 < length (viterbi_requests 4 1 3 5)" "bytes (viterbi_requests 4 1 3 5 ! 1) = 60" by (simp_all add: viterbi_requests_def)
  moreover have "(0::64 word) < 256" "unat (1000::64 word) = 1000" by simp_all
  ultimately show ?thesis using workspace_layout [of 256 "viterbi_requests 4 1 3 5" 1000 1] unfolding getWorkspaceSize_def by metis
qed

end
