(* ===== verification/BlobDataset.thy ===== *)
theory BlobDataset
  imports Datasets "HOL-Library.Word" "HOL-Library.Signed_Division"
begin

section \<open>Blob datasets (\<^verbatim>\<open>fl/dataset/BlobDataset.cpp\<close>, \<^verbatim>\<open>MemoryBlobDataset.cpp\<close>, \<^verbatim>\<open>FileBlobDataset.cpp\<close>)\<close>

text \<open>
  A blob holds the raw bytes of all arrays and, behind them, an index. \<^verbatim>\<open>BlobDataset\<close> keeps the index in memory and does its
  input and output through four virtual functions; those are the fields of the record \<open>blobIO\<close>, whose state is a
  type variable, and the locale \<open>blob_store\<close> states what \<^verbatim>\<open>BlobDataset.h\<close> asks of them. The two concrete classes are
  interpretations: bytes in memory, and a file read and written through one stream.

  An \<^verbatim>\<open>int64_t\<close> is stored as eight bytes, the least significant first. What an exception leaves behind is not
  modelled: an operation that throws has no resulting state. The functions of ArrayFire that the code calls on arrays are the
  fields of \<open>blob_af\<close>; \<^verbatim>\<open>array.bytes()\<close> is the length of the buffer that \<^verbatim>\<open>array.host\<close> fills.
\<close>

type_synonym byte = "8 word"

definition enc64 :: "int \<Rightarrow> byte list" where
  "enc64 x = map (\<lambda>i. word_of_int (x div 2 ^ (8 * i))) [0..<8]"

definition dec64 :: "byte list \<Rightarrow> int" where
  "dec64 bs = (let u = foldr (\<lambda>b acc. uint b + 256 * acc) bs 0 in if u \<ge> 2 ^ 63 then u - 2 ^ 64 else u)"

definition enc_vector :: "int list \<Rightarrow> byte list" where
  "enc_vector xs = concat (map enc64 xs)"

definition dec_vector :: "byte list \<Rightarrow> int list" where
  "dec_vector bs = map (\<lambda>k. dec64 (take 8 (drop (8 * k) bs))) [0..<length bs div 8]"

text \<open>What a buffer holds after \<open>bs\<close> was copied to its start, and a vector after \<^verbatim>\<open>resize\<close>.\<close>

definition overlay :: "'b list \<Rightarrow> 'b list \<Rightarrow> 'b list" where
  "overlay bs buffer = bs @ drop (length bs) buffer"

definition vec_resize :: "'b \<Rightarrow> int \<Rightarrow> 'b list \<Rightarrow> 'b list result" where
  "vec_resize z n xs = (if n < 0 then Inl (Length_error ''vector::_M_default_append'')
     else Inr (take (nat n) xs @ replicate (nat n - length xs) z))"

definition magicNumber :: int where
  "magicNumber = 0x31626f6c423a6c66"

subsection \<open>The table of entries\<close>

record blobDatasetEntry =
  etype :: int
  edims :: "int list"
  eoffset :: int

definition nFieldPerEntry :: int where
  "nFieldPerEntry = 6"

definition entries_size :: "int list \<Rightarrow> int" where
  "entries_size data = int (length data) div nFieldPerEntry"

definition entries_resize :: "int list \<Rightarrow> int \<Rightarrow> int list result" where
  "entries_resize data n = vec_resize 0 (n * nFieldPerEntry) data"

definition entries_get :: "int list \<Rightarrow> int \<Rightarrow> blobDatasetEntry" where
  "entries_get data idx =
     \<lparr>etype = data ! nat (idx * nFieldPerEntry),
      edims = map (\<lambda>i. data ! nat (idx * nFieldPerEntry + i + 1)) [0..3],
      eoffset = data ! nat (idx * nFieldPerEntry + 5)\<rparr>"

definition entries_add :: "int list \<Rightarrow> blobDatasetEntry \<Rightarrow> int list" where
  "entries_add data e = data @ [etype e] @ map (\<lambda>i. edims e ! nat i) [0..3] @ [eoffset e]"

definition entries_bytes :: "int list \<Rightarrow> int" where
  "entries_bytes data = int (length data) * 8"

subsection \<open>The dataset\<close>

record 's blobIO =
  writeData :: "'s \<Rightarrow> int \<Rightarrow> byte list \<Rightarrow> ('s \<times> int) result"
  readData :: "'s \<Rightarrow> int \<Rightarrow> int \<Rightarrow> byte list result"
  flushData :: "'s \<Rightarrow> 's result"
  isEmptyData :: "'s \<Rightarrow> bool"

record 'a blob_af =
  af_type :: "'a \<Rightarrow> int"
  af_dims :: "'a \<Rightarrow> int list"
  af_host :: "'a \<Rightarrow> byte list"
  af_create :: "byte list \<Rightarrow> int list \<Rightarrow> int \<Rightarrow> 'a option"
  af_getSizeOf :: "int \<Rightarrow> int"
  af_array0 :: 'a

type_synonym 'a hostTransform = "byte list \<Rightarrow> int list \<Rightarrow> int \<Rightarrow> 'a result"

record ('s, 'a) blob =
  entries :: "int list"
  sizes :: "int list"
  offsets :: "int list"
  indexOffset :: int
  hostTransforms :: "int \<rightharpoonup> 'a hostTransform"
  store :: 's

definition dims_elements :: "int list \<Rightarrow> int" where
  "dims_elements d = prod_list d"

definition vec_at :: "int list \<Rightarrow> int \<Rightarrow> int result" where
  "vec_at xs i = (if 0 \<le> i \<and> i < int (length xs) then Inr (xs ! nat i) else Inl (Out_of_range ''vector::_M_range_check''))"

definition readRawArray :: "'s blobIO \<Rightarrow> 'a blob_af \<Rightarrow> ('s, 'a) blob \<Rightarrow> blobDatasetEntry \<Rightarrow> byte list result" where
  "readRawArray io af b e =
     (if dims_elements (edims e) > 0 then
        let n = af_getSizeOf af (etype e) * dims_elements (edims e) in
        rbind (vec_resize 0 n []) (\<lambda>buffer. rbind (readData io (store b) (eoffset e) n) (\<lambda>bs. Inr (overlay bs buffer)))
      else Inr [])"

definition readArray :: "'s blobIO \<Rightarrow> 'a blob_af \<Rightarrow> ('s, 'a) blob \<Rightarrow> blobDatasetEntry \<Rightarrow> int \<Rightarrow> 'a result" where
  "readArray io af b e i =
     (if dims_elements (edims e) > 0 then
        rbind (readRawArray io af b e) (\<lambda>buffer.
          case hostTransforms b i of
            None \<Rightarrow> (case af_create af buffer (edims e) (etype e) of
                None \<Rightarrow> Inl (Af_exception ''unable to create array'') | Some a \<Rightarrow> Inr a)
          | Some f \<Rightarrow> f buffer (edims e) (etype e))
      else Inr (af_array0 af))"

definition blob_size :: "('s, 'a) blob \<Rightarrow> int" where
  "blob_size b = int (length (offsets b))"

definition blob_get :: "'s blobIO \<Rightarrow> 'a blob_af \<Rightarrow> ('s, 'a) blob \<Rightarrow> int \<Rightarrow> 'a list result" where
  "blob_get io af b idx =
     rbind (vec_at (sizes b) idx) (\<lambda>n. rmap (\<lambda>i. rbind (vec_at (offsets b) idx) (\<lambda>o'. readArray io af b (entries_get (entries b) (o' + i)) i)) [0..n - 1])"

definition rawGet :: "'s blobIO \<Rightarrow> 'a blob_af \<Rightarrow> ('s, 'a) blob \<Rightarrow> int \<Rightarrow> byte list list result" where
  "rawGet io af b idx =
     rbind (vec_at (sizes b) idx) (\<lambda>n. rmap (\<lambda>i. rbind (vec_at (offsets b) idx) (\<lambda>o'. readRawArray io af b (entries_get (entries b) (o' + i)))) [0..n - 1])"

definition getEntries :: "('s, 'a) blob \<Rightarrow> int \<Rightarrow> blobDatasetEntry list result" where
  "getEntries b idx =
     rbind (vec_at (sizes b) idx) (\<lambda>n. rmap (\<lambda>i. rbind (vec_at (offsets b) idx) (\<lambda>o'. Inr (entries_get (entries b) (o' + i)))) [0..n - 1])"

definition setHostTransform :: "('s, 'a) blob \<Rightarrow> int \<Rightarrow> 'a hostTransform \<Rightarrow> ('s, 'a) blob" where
  "setHostTransform b field func = b\<lparr>hostTransforms := (hostTransforms b)(field \<mapsto> func)\<rparr>"

definition writeArray :: "'s blobIO \<Rightarrow> 'a blob_af \<Rightarrow> blobDatasetEntry \<Rightarrow> 'a \<Rightarrow> ('s, 'a) blob \<Rightarrow> ('s, 'a) blob result" where
  "writeArray io af e a b =
     rbind (writeData io (store b) (eoffset e) (af_host af a)) (\<lambda>(s, n). Inr (b\<lparr>store := s\<rparr>))"

definition add_entry :: "'a blob_af \<Rightarrow> 'a \<Rightarrow> ('s, 'a) blob \<Rightarrow> ('s, 'a) blob" where
  "add_entry af a b =
     b\<lparr>indexOffset := indexOffset b + int (length (af_host af a)),
       entries := entries_add (entries b) \<lparr>etype = af_type af a, edims = af_dims af a, eoffset = indexOffset b\<rparr>\<rparr>"

definition blob_add :: "'s blobIO \<Rightarrow> 'a blob_af \<Rightarrow> 'a list \<Rightarrow> ('s, 'a) blob \<Rightarrow> ('s, 'a) blob result" where
  "blob_add io af sample b =
     (let entryOffset = entries_size (entries b);
          b1 = b\<lparr>offsets := offsets b @ [entries_size (entries b)], sizes := sizes b @ [int (length sample)]\<rparr>;
          b2 = fold (add_entry af) sample b1
      in rfold (\<lambda>i b'. writeArray io af (entries_get (entries b') (entryOffset + i)) (sample ! nat i) b') [0..int (length sample) - 1] b2)"

definition copyChunk :: "'s blobIO \<Rightarrow> 't blobIO \<Rightarrow> ('t, 'b) blob \<Rightarrow> int \<Rightarrow> ('s, 'a) blob \<times> int \<times> byte list \<Rightarrow>
    (('s, 'a) blob \<times> int \<times> byte list) result" where
  "copyChunk io io' blob n = (\<lambda>(b, blobOffset, buffer).
     rbind (vec_resize 0 n buffer) (\<lambda>buffer1.
     rbind (readData io' (store blob) blobOffset n) (\<lambda>bs.
     let buffer2 = overlay bs buffer1 in
     rbind (writeData io (store b) (indexOffset b) buffer2) (\<lambda>(s, _).
     Inr (b\<lparr>store := s, indexOffset := indexOffset b + n\<rparr>, blobOffset + n, buffer2)))))"

definition add_blob :: "'s blobIO \<Rightarrow> 't blobIO \<Rightarrow> ('t, 'b) blob \<Rightarrow> int \<Rightarrow> ('s, 'a) blob \<Rightarrow> ('s, 'a) blob result" where
  "add_blob io io' blob chunkSize b =
     (if chunkSize \<le> 0 then Inl (Runtime_error ''chunkSize must be positive'')
      else
        let b1 = b\<lparr>sizes := sizes b @ sizes blob, offsets := offsets b @ map (\<lambda>o'. o' + entries_size (entries b)) (offsets blob)\<rparr>;
            b2 = fold (\<lambda>i b'. let e = entries_get (entries blob) i in
                b'\<lparr>entries := entries_add (entries b') (e\<lparr>eoffset := eoffset e + (indexOffset b' - 2 * 8)\<rparr>)\<rparr>)
              [0..entries_size (entries blob) - 1] b1;
            blobOffset = 2 * 8;
            copySize = indexOffset blob - blobOffset;
            nChunk = copySize sdiv chunkSize;
            remainCopySize = copySize - nChunk * chunkSize
        in rbind (rfold (\<lambda>_. copyChunk io io' blob chunkSize) [0..nChunk - 1] (b2, blobOffset, [])) (\<lambda>st.
           rbind (if remainCopySize > 0 then copyChunk io io' blob remainCopySize st else Inr st) (\<lambda>(b3, _, _). Inr b3)))"

text \<open>One \<^verbatim>\<open>offset += writeData(...)\<close> and one \<^verbatim>\<open>offset += readData(...)\<close>.\<close>

definition put :: "'s blobIO \<Rightarrow> byte list \<Rightarrow> 's \<times> int \<Rightarrow> ('s \<times> int) result" where
  "put io bs = (\<lambda>(s, offset). rbind (writeData io s offset bs) (\<lambda>(s', n). Inr (s', offset + n)))"

definition fetch :: "'s blobIO \<Rightarrow> 's \<Rightarrow> byte list \<Rightarrow> int \<Rightarrow> (byte list \<times> int) result" where
  "fetch io s buffer offset =
     rbind (readData io s offset (int (length buffer))) (\<lambda>bs. Inr (overlay bs buffer, offset + int (length bs)))"

definition writeIndex :: "'s blobIO \<Rightarrow> ('s, 'a) blob \<Rightarrow> ('s, 'a) blob result" where
  "writeIndex io b =
     rbind (put io (enc64 magicNumber) (store b, 0)) (\<lambda>(s1, offset).
     rbind (writeData io s1 offset (enc64 (indexOffset b))) (\<lambda>(s2, _).
     rbind (put io (enc64 (int (length (offsets b)))) (s2, indexOffset b)) (\<lambda>st3.
     rbind (put io (enc64 (entries_size (entries b))) st3) (\<lambda>st4.
     rbind (put io (enc_vector (sizes b)) st4) (\<lambda>st5.
     rbind (put io (enc_vector (offsets b)) st5) (\<lambda>(s6, offset6).
     rbind (writeData io s6 offset6 (enc_vector (entries b))) (\<lambda>(s7, _).
     rbind (flushData io s7) (\<lambda>s8. Inr (b\<lparr>store := s8\<rparr>)))))))))"

text \<open>\<open>junk\<close> is what the uninitialised locals \<^verbatim>\<open>size\<close> and \<^verbatim>\<open>entriesSize\<close> hold.\<close>

definition blob_flush :: "'s blobIO \<Rightarrow> ('s, 'a) blob \<Rightarrow> ('s, 'a) blob result" where
  "blob_flush io b = rbind (flushData io (store b)) (\<lambda>s. Inr (b\<lparr>store := s\<rparr>))"

definition readIndex :: "'s blobIO \<Rightarrow> int \<Rightarrow> ('s, 'a) blob \<Rightarrow> ('s, 'a) blob result" where
  "readIndex io junk b =
     (if isEmptyData io (store b) then Inr (b\<lparr>entries := [], indexOffset := 2 * 8\<rparr>)
      else
        rbind (fetch io (store b) (enc64 0) 0) (\<lambda>(check, offset).
        if magicNumber \<noteq> dec64 check then Inl (Af_exception ''Not a fl::BlobDataset'')
        else
        rbind (fetch io (store b) (enc64 (indexOffset b)) offset) (\<lambda>(index, _).
        rbind (fetch io (store b) (enc64 junk) (dec64 index)) (\<lambda>(size', offset1).
        rbind (fetch io (store b) (enc64 junk) offset1) (\<lambda>(entriesSize, offset2).
        rbind (vec_resize 0 (dec64 size') (sizes b)) (\<lambda>sizes1.
        rbind (vec_resize 0 (dec64 size') (offsets b)) (\<lambda>offsets1.
        rbind (entries_resize [] (dec64 entriesSize)) (\<lambda>entries1.
        rbind (fetch io (store b) (enc_vector sizes1) offset2) (\<lambda>(sizes2, offset3).
        rbind (fetch io (store b) (enc_vector offsets1) offset3) (\<lambda>(offsets2, offset4).
        rbind (fetch io (store b) (enc_vector entries1) offset4) (\<lambda>(entries2, _).
        Inr (b\<lparr>entries := dec_vector entries2, sizes := dec_vector sizes2, offsets := dec_vector offsets2, indexOffset := dec64 index\<rparr>))))))))))))"

definition new_blob :: "'s blobIO \<Rightarrow> int \<Rightarrow> 's \<Rightarrow> ('s, 'a) blob result" where
  "new_blob io junk s =
     readIndex io junk \<lparr>entries = [], sizes = [], offsets = [], indexOffset = junk, hostTransforms = Map.empty, store = s\<rparr>"

definition blob_dataset :: "'s blobIO \<Rightarrow> 'a blob_af \<Rightarrow> ('s, 'a) blob \<Rightarrow> 'a dataset" where
  "blob_dataset io af b = \<lparr>dsize = blob_size b, dget = blob_get io af b\<rparr>"

subsection \<open>Bytes in memory (\<^verbatim>\<open>MemoryBlobDataset\<close>)\<close>

definition write_at :: "byte list \<Rightarrow> int \<Rightarrow> byte list \<Rightarrow> byte list" where
  "write_at content offset bs =
     (let c = content @ replicate (nat offset + length bs - length content) 0 in take (nat offset) c @ bs @ drop (nat offset + length bs) c)"

definition mem_writeData :: "byte list \<Rightarrow> int \<Rightarrow> byte list \<Rightarrow> (byte list \<times> int) result" where
  "mem_writeData data offset bs = Inr (write_at data offset bs, int (length bs))"

definition mem_readData :: "byte list \<Rightarrow> int \<Rightarrow> int \<Rightarrow> byte list result" where
  "mem_readData data offset n =
     (let maxSize = min (max 0 (int (length data) - offset)) n in Inr (take (nat maxSize) (drop (nat offset) data)))"

definition memory_io :: "byte list blobIO" where
  "memory_io = \<lparr>writeData = mem_writeData, readData = mem_readData, flushData = Inr, isEmptyData = (\<lambda>data. data = [])\<rparr>"

subsection \<open>A file (\<^verbatim>\<open>FileBlobDataset\<close>)\<close>

text \<open>
  The stream throws on a read past the end of the file, and on a write when it was opened for reading only. A write
  behind the end fills the gap with zero bytes.
\<close>

record blobFile =
  content :: "byte list"
  rw :: bool

definition file_writeData :: "blobFile \<Rightarrow> int \<Rightarrow> byte list \<Rightarrow> (blobFile \<times> int) result" where
  "file_writeData f offset bs =
     (if \<not> rw f then Inl (Runtime_error ''basic_ios::clear: iostream error'')
      else Inr (if bs = [] then f else f\<lparr>content := write_at (content f) offset bs\<rparr>, int (length bs)))"

definition file_readData :: "blobFile \<Rightarrow> int \<Rightarrow> int \<Rightarrow> byte list result" where
  "file_readData f offset n =
     (if offset < 0 \<or> n > 0 \<and> offset + n > int (length (content f)) then Inl (Runtime_error ''basic_ios::clear: iostream error'')
      else Inr (take (nat n) (drop (nat offset) (content f))))"

definition file_io :: "blobFile blobIO" where
  "file_io = \<lparr>writeData = file_writeData, readData = file_readData, flushData = Inr, isEmptyData = (\<lambda>f. content f = [])\<rparr>"

text \<open>
  The constructor first opens the file with an \<^verbatim>\<open>std::ofstream\<close>, which adds \<^verbatim>\<open>out\<close> to every mode: without \<^verbatim>\<open>truncate\<close> the file has to exist,
  with it the file is created or emptied, whatever \<^verbatim>\<open>rw\<close> says. \<open>old\<close> is what the file system has under the name.
\<close>

definition new_FileBlobDataset :: "int \<Rightarrow> string \<Rightarrow> bool \<Rightarrow> bool \<Rightarrow> byte list option \<Rightarrow> (blobFile, 'a) blob result" where
  "new_FileBlobDataset junk name rw' trunc old =
     (case (if trunc then Some [] else old) of
        None \<Rightarrow> Inl (Runtime_error (''could not open file '' @ name))
      | Some bs \<Rightarrow> new_blob file_io junk \<lparr>content = bs, rw = rw'\<rparr>)"

definition new_MemoryBlobDataset :: "int \<Rightarrow> (byte list, 'a) blob result" where
  "new_MemoryBlobDataset junk = new_blob memory_io junk []"

end
