(* ===== verification/BlobTheorems.thy ===== *)
theory BlobTheorems
  imports BlobDataset
begin

section \<open>Blob datasets keep their samples\<close>

text \<open>
  The encoding of integers is inverted by the decoding; a store that honours the contract of the four virtual functions (locale
  \<open>blob_store\<close>, interpreted for memory and for files) gives back what was written; on top of it the dataset represents the
  list of samples that were added, survives writing and reading the index, and appends another blob chunk by chunk.
\<close>

subsection \<open>Integers as bytes\<close>

definition int64 :: "int \<Rightarrow> bool" where
  "int64 x \<longleftrightarrow> - (2 ^ 63) \<le> x \<and> x < 2 ^ 63"

lemma length_enc64 [simp]: "length (enc64 x) = 8"
  by (simp add: enc64_def)

lemma bytes_value: "foldr (\<lambda>b acc. uint b + 256 * acc) (map (\<lambda>i. word_of_int (x div 2 ^ (8 * i)) :: byte) [0..<n]) 0 = x mod 2 ^ (8 * n)"
proof (induction n arbitrary: x)
  case (Suc n)
  have m: "map (\<lambda>i. word_of_int (x div 2 ^ (8 * i)) :: byte) [0..<Suc n] =
      word_of_int x # map (\<lambda>i. word_of_int (x div 256 div 2 ^ (8 * i))) [0..<n]"
    by (simp add: upt_conv_Cons map_Suc_upt [symmetric] comp_def power_add zdiv_zmult2_eq del: upt_Suc)
  have "x mod 2 ^ (8 * Suc n) = x mod (256 * 2 ^ (8 * n))" by (simp add: power_add)
  also have "\<dots> = 256 * (x div 256 mod 2 ^ (8 * n)) + x mod 256" by (rule zmod_zmult2_eq) simp
  finally show ?case unfolding m by (simp add: Suc.IH uint_word_of_int)
qed simp

lemma dec_enc64: "int64 x \<Longrightarrow> dec64 (enc64 x) = x"
proof -
  assume x: "int64 x"
  have u: "foldr (\<lambda>b acc. uint b + 256 * acc) (enc64 x) 0 = x mod 2 ^ 64" using bytes_value [of x 8] by (simp add: enc64_def)
  show ?thesis
  proof (cases "x < 0")
    case True
    then have "x mod 2 ^ 64 = x + 2 ^ 64" using x mod_pos_pos_trivial [of "x + 2 ^ 64" "2 ^ 64"] by (simp add: int64_def)
    then show ?thesis using True x by (simp add: dec64_def u int64_def)
  next
    case False
    then have "x mod 2 ^ 64 = x" using x by (simp add: int64_def)
    then show ?thesis using False x by (simp add: dec64_def u int64_def)
  qed
qed

lemma length_enc_vector [simp]: "length (enc_vector xs) = 8 * length xs"
  by (induction xs) (simp_all add: enc_vector_def)

lemma dec_enc_vector:
  assumes "\<And>x. x \<in> set xs \<Longrightarrow> int64 x"
  shows "dec_vector (enc_vector xs) = xs"
proof -
  have "take 8 (drop (8 * k) (enc_vector xs)) = enc64 (xs ! k)" if "k < length xs" for k
    using that
  proof (induction xs arbitrary: k)
    case (Cons x xs)
    then show ?case by (cases k) (simp_all add: enc_vector_def)
  qed simp
  then have "map (\<lambda>k. dec64 (take 8 (drop (8 * k) (enc_vector xs)))) [0..<length xs] = map (\<lambda>k. xs ! k) [0..<length xs]"
    using assms by (intro map_cong refl) (simp add: dec_enc64)
  then show ?thesis by (simp add: dec_vector_def map_nth)
qed

subsection \<open>Regions of a store\<close>

definition region :: "byte list \<Rightarrow> nat \<Rightarrow> byte list \<Rightarrow> bool" where
  "region c i bs \<longleftrightarrow> (\<forall>k<length bs. i + k < length c \<and> c ! (i + k) = bs ! k)"

lemma region_Nil [simp]: "region c i []"
  by (simp add: region_def)

lemma region_append: "region c i (xs @ ys) \<longleftrightarrow> region c i xs \<and> region c (i + length xs) ys"
proof
  assume r: "region c i (xs @ ys)"
  have "i + k < length c \<and> c ! (i + k) = xs ! k" if "k < length xs" for k
    using r that unfolding region_def by (metis length_append nth_append trans_less_add1)
  moreover have "i + length xs + k < length c \<and> c ! (i + length xs + k) = ys ! k" if "k < length ys" for k
    using r that unfolding region_def by (metis add.assoc length_append nat_add_left_cancel_less nth_append_length_plus)
  ultimately show "region c i xs \<and> region c (i + length xs) ys" by (simp add: region_def)
next
  assume "region c i xs \<and> region c (i + length xs) ys"
  then have x: "\<And>k. k < length xs \<Longrightarrow> i + k < length c \<and> c ! (i + k) = xs ! k"
    and y: "\<And>k. k < length ys \<Longrightarrow> i + length xs + k < length c \<and> c ! (i + length xs + k) = ys ! k" by (simp_all add: region_def)
  show "region c i (xs @ ys)" unfolding region_def
  proof (intro allI impI)
    fix k assume "k < length (xs @ ys)"
    then show "i + k < length c \<and> c ! (i + k) = (xs @ ys) ! k"
      using x [of k] y [of "k - length xs"] by (cases "k < length xs") (auto simp: nth_append)
  qed
qed

lemma region_take: "region c i bs \<Longrightarrow> bs \<noteq> [] \<Longrightarrow> i + length bs \<le> length c \<and> take (length bs) (drop i c) = bs"
proof -
  assume r: "region c i bs" and "bs \<noteq> []"
  then have "i + (length bs - 1) < length c" unfolding region_def by simp
  then have len: "i + length bs \<le> length c" using \<open>bs \<noteq> []\<close> by (cases bs) auto
  moreover have "take (length bs) (drop i c) = bs" using r len by (intro nth_equalityI) (auto simp: region_def)
  ultimately show ?thesis by simp
qed

lemma length_write_at: "length (write_at c (int i) bs) = max (length c) (i + length bs)"
  by (simp add: write_at_def Let_def)

lemma nth_write_at:
  assumes "k < length (write_at c (int i) bs)"
  shows "write_at c (int i) bs ! k = (if i \<le> k \<and> k < i + length bs then bs ! (k - i) else if k < length c then c ! k else 0)"
proof -
  let ?c = "c @ replicate (i + length bs - length c) 0"
  have l: "i + length bs \<le> length ?c" by simp
  consider "k < i" | "i \<le> k" "k < i + length bs" | "i + length bs \<le> k" by linarith
  then show ?thesis
    using assms l by cases (auto simp: write_at_def Let_def nth_append min_def)
qed

text \<open>Writing bytes at a place. Writing no bytes behind the end extends a memory but not a file.\<close>

definition written :: "byte list \<Rightarrow> nat \<Rightarrow> byte list \<Rightarrow> byte list \<Rightarrow> bool" where
  "written c i bs c' \<longleftrightarrow> c' = write_at c (int i) bs \<or> bs = [] \<and> c' = c"

lemma region_write_at: "region (write_at c (int i) bs) i bs"
  by (auto simp: region_def length_write_at nth_write_at less_max_iff_disj)

lemma region_keep_at:
  assumes r: "region c j xs" and d: "j + length xs \<le> i \<or> i + length bs \<le> j"
  shows "region (write_at c (int i) bs) j xs"
  unfolding region_def
proof (intro allI impI)
  fix k assume k: "k < length xs"
  then have "j + k < length c" "c ! (j + k) = xs ! k" using r by (simp_all add: region_def)
  moreover have "\<not> (i \<le> j + k \<and> j + k < i + length bs)" using d k by auto
  ultimately show "j + k < length (write_at c (int i) bs) \<and> write_at c (int i) bs ! (j + k) = xs ! k"
    by (auto simp: length_write_at nth_write_at less_max_iff_disj)
qed

lemma region_write: "written c i bs c' \<Longrightarrow> region c' i bs"
  unfolding written_def using region_write_at by auto

lemma region_keep:
  "written c i bs c' \<Longrightarrow> region c j xs \<Longrightarrow> j + length xs \<le> i \<or> i + length bs \<le> j \<Longrightarrow> region c' j xs"
  unfolding written_def using region_keep_at by blast

lemma region_extend: "written c (i + length xs) bs c' \<Longrightarrow> region c i xs \<Longrightarrow> region c' i (xs @ bs)"
  unfolding region_append using region_keep [of c "i + length xs" bs c' i xs] region_write [of c "i + length xs" bs c'] by blast

text \<open>
  What \<^verbatim>\<open>BlobDataset.h\<close> asks of a concrete class: what was written to a place can be read from it and other places keep
  their bytes. \<open>cont\<close> is the content of the store, \<open>writable\<close> says that it was opened for writing.
\<close>

locale blob_store =
  fixes io :: "'s blobIO" and cont :: "'s \<Rightarrow> byte list" and writable :: "'s \<Rightarrow> bool"
  assumes put_bytes: "writable s \<Longrightarrow> \<exists>s'. writeData io s (int i) bs = Inr (s', int (length bs)) \<and> written (cont s) i bs (cont s') \<and> writable s'"
    and get_bytes: "region (cont s) i bs \<Longrightarrow> readData io s (int i) (int (length bs)) = Inr bs"
    and flush_bytes: "writable s \<Longrightarrow> \<exists>s'. flushData io s = Inr s' \<and> cont s' = cont s \<and> writable s'"
    and empty_bytes: "isEmptyData io s \<longleftrightarrow> cont s = []"

interpretation mem: blob_store memory_io "\<lambda>data. data" "\<lambda>_. True"
proof
  show "readData memory_io s (int i) (int (length bs)) = Inr bs" if "region s i bs" for s i bs
    using region_take [OF that] by (cases "bs = []") (auto simp: memory_io_def mem_readData_def min_def max_def)
qed (simp_all add: memory_io_def mem_writeData_def written_def)

interpretation filed: blob_store file_io content rw
proof
  show "readData file_io s (int i) (int (length bs)) = Inr bs" if "region (content s) i bs" for s i bs
    using region_take [OF that] by (cases "bs = []") (auto simp: file_io_def file_readData_def)
qed (simp_all add: file_io_def file_writeData_def written_def)

subsection \<open>What a dataset holds\<close>

definition blob_bytes :: "'a blob_af \<Rightarrow> 'a list \<Rightarrow> byte list" where
  "blob_bytes af arrays = concat (map (af_host af) arrays)"

lemma blob_bytes_simps [simp]:
  "blob_bytes af [] = []" "blob_bytes af (a # as) = af_host af a @ blob_bytes af as"
  "blob_bytes af (as @ bs) = blob_bytes af as @ blob_bytes af bs"
  by (simp_all add: blob_bytes_def)

fun entry_fields :: "'a blob_af \<Rightarrow> int \<Rightarrow> 'a list \<Rightarrow> int list" where
  "entry_fields af i [] = []"
| "entry_fields af i (a # as) = [af_type af a] @ af_dims af a @ [i] @ entry_fields af (i + int (length (af_host af a))) as"

fun sample_starts :: "int \<Rightarrow> 'a list list \<Rightarrow> int list" where
  "sample_starts k [] = []"
| "sample_starts k (s # ss) = k # sample_starts (k + int (length s)) ss"

text \<open>
  What the code relies on of ArrayFire: four dimensions, as many bytes as elements of the element type, and that an array
  can be created again from its buffer. An array without elements comes back as the empty array.
\<close>

definition af_ok :: "'a blob_af \<Rightarrow> 'a \<Rightarrow> bool" where
  "af_ok af a \<longleftrightarrow> length (af_dims af a) = 4 \<and> 0 \<le> dims_elements (af_dims af a) \<and>
     af_getSizeOf af (af_type af a) * dims_elements (af_dims af a) = int (length (af_host af a)) \<and>
     (0 < dims_elements (af_dims af a) \<longrightarrow> af_create af (af_host af a) (af_dims af a) (af_type af a) = Some a)"

definition reread :: "'a blob_af \<Rightarrow> 'a \<Rightarrow> 'a" where
  "reread af a = (if dims_elements (af_dims af a) > 0 then a else af_array0 af)"

definition holds_blob :: "'a blob_af \<Rightarrow> byte list \<Rightarrow> ('s, 'a) blob \<Rightarrow> 'a list list \<Rightarrow> bool" where
  "holds_blob af c b samples \<longleftrightarrow> list_all (list_all (af_ok af)) samples \<and>
     sizes b = map (\<lambda>s. int (length s)) samples \<and> offsets b = sample_starts 0 samples \<and>
     entries b = entry_fields af 16 (concat samples) \<and> indexOffset b = 16 + int (length (blob_bytes af (concat samples))) \<and>
     region c 16 (blob_bytes af (concat samples))"

lemma entry_fields_append:
  "entry_fields af i (as @ bs) = entry_fields af i as @ entry_fields af (i + int (length (blob_bytes af as))) bs"
  by (induction as arbitrary: i) (simp_all add: add.assoc)

lemma length_entry_fields: "list_all (af_ok af) as \<Longrightarrow> length (entry_fields af i as) = 6 * length as"
  by (induction as arbitrary: i) (simp_all add: af_ok_def)

lemma entries_size_fields: "list_all (af_ok af) as \<Longrightarrow> entries_size (entry_fields af i as) = int (length as)"
  by (simp add: entries_size_def nFieldPerEntry_def length_entry_fields)

lemma upto_03: "[0..3] = [0, 1, 2, 3::int]"
  by (simp add: upto.simps)

lemma map_nth_4: "length d = 4 \<Longrightarrow> map (\<lambda>i. d ! nat i) [0..3] = d"
  by (simp add: upto_03 eval_nat_numeral length_Suc_conv) auto

lemma entries_get_at:
  assumes "length xs = 6 * k" "length d = 4"
  shows "entries_get (xs @ [t] @ d @ [i] @ ys) (int k) = \<lparr>etype = t, edims = d, eoffset = i\<rparr>"
proof -
  have n: "(xs @ [t] @ d @ [i] @ ys) ! (6 * k + m) = ([t] @ d @ [i] @ ys) ! m" for m
    using assms(1) by (metis nth_append_length_plus)
  have f: "nat (int k * 6) = 6 * k + 0" "nat (int k * 6 + 5) = 6 * k + 5" by (simp_all add: nat_add_distrib nat_mult_distrib)
  have "map (\<lambda>j. (xs @ [t] @ d @ [i] @ ys) ! nat (int k * 6 + j + 1)) [0..3] = map (\<lambda>j. d ! nat j) [0..3]"
  proof (intro map_cong refl)
    fix j :: int assume "j \<in> set [0..3]"
    then have j: "0 \<le> j" "j \<le> 3" by simp_all
    then have "nat (int k * 6 + j + 1) = 6 * k + Suc (nat j)" by (simp add: nat_add_distrib nat_mult_distrib)
    then have "(xs @ [t] @ d @ [i] @ ys) ! nat (int k * 6 + j + 1) = ([t] @ d @ [i] @ ys) ! Suc (nat j)" using n by metis
    moreover have "nat j < 4" using j by linarith
    ultimately have "(xs @ [t] @ d @ [i] @ ys) ! nat (int k * 6 + j + 1) = d ! nat j" using assms(2) by (simp add: nth_append)
    then show "(xs @ [t] @ d @ [i] @ ys) ! nat (int k * 6 + j + 1) = d ! nat j" .
  qed
  then show ?thesis unfolding entries_get_def nFieldPerEntry_def f n map_nth_4 [OF assms(2)] using assms(2) by (simp add: nth_append)
qed

lemma entries_get_fields:
  assumes "list_all (af_ok af) as" "k < length as"
  shows "entries_get (entry_fields af i as) (int k) =
    \<lparr>etype = af_type af (as ! k), edims = af_dims af (as ! k), eoffset = i + int (length (blob_bytes af (take k as)))\<rparr>"
proof -
  let ?i = "i + int (length (blob_bytes af (take k as)))"
  have "as = take k as @ as ! k # drop (Suc k) as" using assms(2) by (rule id_take_nth_drop)
  then have "entry_fields af i as = entry_fields af i (take k as @ as ! k # drop (Suc k) as)" by simp
  also have "\<dots> = entry_fields af i (take k as) @ [af_type af (as ! k)] @ af_dims af (as ! k) @ [?i] @ entry_fields af (?i + int (length (af_host af (as ! k)))) (drop (Suc k) as)"
    unfolding entry_fields_append entry_fields.simps ..
  finally show ?thesis
    using entries_get_at [of "entry_fields af i (take k as)" k "af_dims af (as ! k)"] assms
    by (simp add: length_entry_fields list_all_length af_ok_def)
qed

lemma sample_starts_nth: "i < length ss \<Longrightarrow> sample_starts k ss ! i = k + int (length (concat (take i ss)))"
  by (induction ss arbitrary: i k) (auto simp: nth_Cons split: nat.splits)

lemma length_sample_starts [simp]: "length (sample_starts k ss) = length ss"
  by (induction ss arbitrary: k) simp_all

lemma sample_starts_append: "sample_starts k (ss @ ts) = sample_starts k ss @ sample_starts (k + int (length (concat ss))) ts"
  by (induction ss arbitrary: k) (simp_all add: add.assoc)

lemma starts_shift: "map (\<lambda>x. x + c) (sample_starts k ss) = sample_starts (k + c) ss"
  by (induction ss arbitrary: k) (simp_all add: algebra_simps)

lemma concat_nth_at:
  assumes "i < length ss" "j < length (ss ! i)"
  shows "length (concat (take i ss)) + j < length (concat ss) \<and> concat ss ! (length (concat (take i ss)) + j) = ss ! i ! j"
proof -
  have "concat ss = concat (take i ss) @ ss ! i @ concat (drop (Suc i) ss)"
    using arg_cong [OF id_take_nth_drop [OF assms(1)], of concat] by simp
  then show ?thesis using assms(2) by (simp add: nth_append)
qed

lemma upto_int_map: "[0..int n - 1] = map int [0..<n]"
  by (induction n) (simp_all add: upto_rec2)

lemma map_nth_int: "map (\<lambda>j. f (xs ! nat j)) (map int [0..<length xs]) = map f xs"
  by (intro nth_equalityI) auto

context blob_store
begin

lemma region_array:
  assumes "region c 16 (blob_bytes af as)" "k < length as"
  shows "region c (16 + length (blob_bytes af (take k as))) (af_host af (as ! k))"
proof -
  have "blob_bytes af as = blob_bytes af (take k as) @ af_host af (as ! k) @ blob_bytes af (drop (Suc k) as)"
    using arg_cong [OF id_take_nth_drop [OF assms(2)], of "blob_bytes af"] by simp
  then show ?thesis using assms(1) by (simp add: region_append)
qed

lemma read_array:
  assumes h: "holds_blob af (cont (store b)) b samples" and k: "k < length (concat samples)"
  shows "readRawArray io af b (entries_get (entries b) (int k)) = Inr (af_host af (concat samples ! k))"
    "hostTransforms b i = None \<Longrightarrow> readArray io af b (entries_get (entries b) (int k)) i = Inr (reread af (concat samples ! k))"
proof -
  let ?as = "concat samples"
  have ok: "list_all (af_ok af) ?as" using h by (simp add: holds_blob_def list_all_iff)
  then have a: "af_ok af (?as ! k)" using k by (simp add: list_all_length)
  have e: "entries_get (entries b) (int k) =
      \<lparr>etype = af_type af (?as ! k), edims = af_dims af (?as ! k), eoffset = int (16 + length (blob_bytes af (take k ?as)))\<rparr>"
    using h entries_get_fields [OF ok k] by (simp add: holds_blob_def)
  have r: "region (cont (store b)) (16 + length (blob_bytes af (take k ?as))) (af_host af (?as ! k))"
    using h k by (intro region_array) (simp_all add: holds_blob_def)
  show raw: "readRawArray io af b (entries_get (entries b) (int k)) = Inr (af_host af (?as ! k))"
  proof (cases "dims_elements (af_dims af (?as ! k)) > 0")
    case True
    then show ?thesis using a get_bytes [OF r] unfolding readRawArray_def e
      by (simp add: af_ok_def vec_resize_def overlay_def)
  next
    case False
    then have "dims_elements (af_dims af (?as ! k)) = 0" using a by (simp add: af_ok_def)
    then show ?thesis using a unfolding readRawArray_def e by (simp add: af_ok_def)
  qed
  assume "hostTransforms b i = None"
  then show "readArray io af b (entries_get (entries b) (int k)) i = Inr (reread af (?as ! k))"
    using a raw unfolding readArray_def e by (simp add: af_ok_def reread_def)
qed

lemma get_samples:
  assumes h: "holds_blob af (cont (store b)) b samples" and i: "i < length samples" and t: "hostTransforms b = Map.empty"
  shows "blob_get io af b (int i) = Inr (map (reread af) (samples ! i))" "rawGet io af b (int i) = Inr (map (af_host af) (samples ! i))"
proof -
  let ?o = "length (concat (take i samples))"
  have at: "vec_at (sizes b) (int i) = Inr (int (length (samples ! i)))" "vec_at (offsets b) (int i) = Inr (int ?o)"
    using h i by (simp_all add: holds_blob_def vec_at_def sample_starts_nth)
  have "rmap (\<lambda>j. rbind (vec_at (offsets b) (int i)) (\<lambda>o'. readArray io af b (entries_get (entries b) (o' + j)) j)) (map int [0..<length (samples ! i)]) =
      Inr (map (\<lambda>j. reread af (samples ! i ! nat j)) (map int [0..<length (samples ! i)]))"
    unfolding at(2) rbind_simps using read_array(2) [OF h] concat_nth_at [OF i] t by (intro rmap_Inr_map) (auto simp flip: of_nat_add)
  moreover have "rmap (\<lambda>j. rbind (vec_at (offsets b) (int i)) (\<lambda>o'. readRawArray io af b (entries_get (entries b) (o' + j)))) (map int [0..<length (samples ! i)]) =
      Inr (map (\<lambda>j. af_host af (samples ! i ! nat j)) (map int [0..<length (samples ! i)]))"
    unfolding at(2) rbind_simps using read_array(1) [OF h] concat_nth_at [OF i] by (intro rmap_Inr_map) (auto simp flip: of_nat_add)
  ultimately show "blob_get io af b (int i) = Inr (map (reread af) (samples ! i))" "rawGet io af b (int i) = Inr (map (af_host af) (samples ! i))"
    unfolding blob_get_def rawGet_def at(1) rbind_simps upto_int_map map_nth_int by simp_all
qed

end

subsection \<open>Adding a sample\<close>

lemma map_4_dims: "af_ok af a \<Longrightarrow> entries_add xs \<lparr>etype = af_type af a, edims = af_dims af a, eoffset = i\<rparr> = xs @ entry_fields af i [a]"
  by (simp add: entries_add_def af_ok_def map_nth_4)

lemma add_entries:
  "list_all (af_ok af) as \<Longrightarrow> fold (add_entry af) as b =
     b\<lparr>indexOffset := indexOffset b + int (length (blob_bytes af as)), entries := entries b @ entry_fields af (indexOffset b) as\<rparr>"
  by (induction as arbitrary: b) (simp_all add: add_entry_def map_4_dims add.assoc)

context blob_store
begin

lemma write_arrays:
  assumes ok: "list_all (af_ok af) (as @ sample)" and e: "entries b = entry_fields af 16 (as @ sample)"
    and r: "region (cont (store b)) 16 (blob_bytes af as)" and w: "writable (store b)"
  shows "\<exists>s. rfold (\<lambda>i b'. writeArray io af (entries_get (entries b') (int (length as) + i)) (sample ! nat i) b') [0..int (length sample) - 1] b =
      Inr (b\<lparr>store := s\<rparr>) \<and> writable s \<and> region (cont s) 16 (blob_bytes af (as @ sample))"
proof -
  let ?I = "\<lambda>k b'. \<exists>s. b' = b\<lparr>store := s\<rparr> \<and> writable s \<and> region (cont s) 16 (blob_bytes af (as @ take k sample))"
  let ?f = "\<lambda>i b'. writeArray io af (entries_get (entries b') (int (length as) + i)) (sample ! nat i) b'"
  have "case rfold ?f [0..int (length sample) - 1] b of Inl e \<Rightarrow> False | Inr s' \<Rightarrow> ?I (length sample) s'"
  proof (rule rfold_upto)
    show "?I 0 b" using r w by (intro exI [of _ "store b"]) simp
  next
    fix k b' assume k: "k < length sample" and "?I k b'"
    then obtain s where b': "b' = b\<lparr>store := s\<rparr>" and s: "writable s" "region (cont s) 16 (blob_bytes af (as @ take k sample))" by blast
    let ?o = "16 + length (blob_bytes af (as @ take k sample))"
    have "entries_get (entries b') (int (length as) + int k) = entries_get (entry_fields af 16 (as @ sample)) (int (length as + k))" by (simp add: b' e)
    also have "\<dots> = \<lparr>etype = af_type af (sample ! k), edims = af_dims af (sample ! k), eoffset = int ?o\<rparr>"
      using entries_get_fields [OF ok, of "length as + k" 16] k by simp
    finally have eo: "eoffset (entries_get (entries b') (int (length as) + int k)) = int ?o" by simp
    obtain s' where s': "writeData io s (int ?o) (af_host af (sample ! k)) = Inr (s', int (length (af_host af (sample ! k))))"
        "written (cont s) ?o (af_host af (sample ! k)) (cont s')" "writable s'" using put_bytes [OF s(1)] by blast
    have "region (cont s') 16 (blob_bytes af (as @ take k sample) @ af_host af (sample ! k))"
      by (rule region_extend [OF s'(2) s(2)])
    then have "region (cont s') 16 (blob_bytes af (as @ take (Suc k) sample))" using k by (simp add: take_Suc_conv_app_nth)
    then show "case ?f (int k) b' of Inl e \<Rightarrow> False | Inr s' \<Rightarrow> ?I (Suc k) s'"
      using s' unfolding writeArray_def eo by (simp add: b' exI [of _ s'])
  qed
  then show ?thesis by (auto split: sum.splits)
qed

lemma add_sample:
  assumes h: "holds_blob af (cont (store b)) b samples" and w: "writable (store b)" and ok: "list_all (af_ok af) sample"
  shows "\<exists>b'. blob_add io af sample b = Inr b' \<and> holds_blob af (cont (store b')) b' (samples @ [sample]) \<and> writable (store b') \<and>
    hostTransforms b' = hostTransforms b"
proof -
  let ?as = "concat samples"
  have as: "list_all (af_ok af) ?as" using h by (simp add: holds_blob_def list_all_iff)
  have size: "entries_size (entries b) = int (length ?as)" using h entries_size_fields [OF as] by (simp add: holds_blob_def)
  define b1 where "b1 = fold (add_entry af) sample (b\<lparr>offsets := offsets b @ [int (length ?as)], sizes := sizes b @ [int (length sample)]\<rparr>)"
  have b1: "entries b1 = entry_fields af 16 (?as @ sample)" "store b1 = store b" "sizes b1 = sizes b @ [int (length sample)]"
      "offsets b1 = offsets b @ [int (length ?as)]" "indexOffset b1 = indexOffset b + int (length (blob_bytes af sample))" "hostTransforms b1 = hostTransforms b"
    using h by (simp_all add: b1_def add_entries [OF ok] entry_fields_append holds_blob_def)
  have "region (cont (store b1)) 16 (blob_bytes af ?as)" using h b1(2) by (simp add: holds_blob_def)
  from write_arrays [OF _ b1(1) this] obtain s where
    s: "blob_add io af sample b = Inr (b1\<lparr>store := s\<rparr>)" "writable s" "region (cont s) 16 (blob_bytes af (?as @ sample))"
    using as ok w b1(2) by (auto simp: blob_add_def size b1_def Let_def)
  then show ?thesis using h ok b1 by (auto simp: holds_blob_def sample_starts_append)
qed

end

subsection \<open>Writing and reading the index\<close>

definition index_bytes :: "('s, 'a) blob \<Rightarrow> byte list" where
  "index_bytes b = enc64 (int (length (offsets b))) @ enc64 (entries_size (entries b)) @ enc_vector (sizes b) @ enc_vector (offsets b) @ enc_vector (entries b)"

definition has_index :: "byte list \<Rightarrow> ('s, 'a) blob \<Rightarrow> bool" where
  "has_index c b \<longleftrightarrow> region c 0 (enc64 magicNumber @ enc64 (indexOffset b)) \<and> region c (nat (indexOffset b)) (index_bytes b)"

text \<open>All numbers of the index are \<^verbatim>\<open>int64_t\<close> values.\<close>

definition index_int64 :: "('s, 'a) blob \<Rightarrow> bool" where
  "index_int64 b \<longleftrightarrow> int64 (indexOffset b) \<and> int64 (int (length (offsets b))) \<and> int64 (entries_size (entries b)) \<and>
     list_all int64 (sizes b) \<and> list_all int64 (offsets b) \<and> list_all int64 (entries b)"

context blob_store
begin

lemma put_step:
  assumes "writable s \<and> region (cont s) 0 hdr \<and> region (cont s) 16 data \<and> region (cont s) n bs" and "n = 16 + length data" "length hdr = 16"
  shows "\<exists>s'. put io x (s, int (n + length bs)) = Inr (s', int (n + length (bs @ x))) \<and>
    (writable s' \<and> region (cont s') 0 hdr \<and> region (cont s') 16 data \<and> region (cont s') n (bs @ x))"
proof -
  obtain s' where s': "writeData io s (int (n + length bs)) x = Inr (s', int (length x))" "written (cont s) (n + length bs) x (cont s')" "writable s'"
    using put_bytes [of s] assms(1) by blast
  moreover have "region (cont s') 0 hdr" "region (cont s') 16 data" 
    by (rule region_keep [OF s'(2)]; use assms in simp)+
  moreover have "region (cont s') n (bs @ x)" by (rule region_extend [OF s'(2)]) (use assms in blast)
  ultimately show ?thesis by (simp add: put_def)
qed

lemma write_index:
  assumes r: "region (cont (store b)) 16 data" and w: "writable (store b)" and i: "indexOffset b = int (16 + length data)"
  shows "\<exists>s. writeIndex io b = Inr (b\<lparr>store := s\<rparr>) \<and> writable s \<and> region (cont s) 16 data \<and> has_index (cont s) b"
proof -
  let ?n = "16 + length data" and ?hdr = "enc64 magicNumber @ enc64 (indexOffset b)"
  let ?P = "\<lambda>s bs. writable s \<and> region (cont s) 0 ?hdr \<and> region (cont s) 16 data \<and> region (cont s) ?n bs"
  obtain s1 where s1: "writeData io (store b) (int 0) (enc64 magicNumber) = Inr (s1, 8)" "written (cont (store b)) 0 (enc64 magicNumber) (cont s1)" "writable s1"
    using put_bytes [OF w] by (metis length_enc64 of_nat_numeral)
  obtain s2 where s2: "writeData io s1 (int 8) (enc64 (indexOffset b)) = Inr (s2, 8)" "written (cont s1) 8 (enc64 (indexOffset b)) (cont s2)" "writable s2"
    using put_bytes [OF s1(3)] by (metis length_enc64 of_nat_numeral)
  have "region (cont s1) 0 (enc64 magicNumber)" by (rule region_write [OF s1(2)])
  then have "region (cont s2) 0 ?hdr" using region_extend [of "cont s1" 0 "enc64 magicNumber"] s2(2) by simp
  moreover have "region (cont s1) 16 data" by (rule region_keep [OF s1(2) r]) simp
  then have "region (cont s2) 16 data" by (rule region_keep [OF s2(2)]) simp
  ultimately have P2: "?P s2 []" using s2(3) by simp
  note step = put_step [OF _ refl, of _ ?hdr data, simplified length_append length_enc64]
  obtain s3 where 3: "put io (enc64 (int (length (offsets b)))) (s2, int ?n) = Inr (s3, int (?n + 8))" "?P s3 (enc64 (int (length (offsets b))))"
    using step [OF P2, of "enc64 (int (length (offsets b)))"] by auto
  obtain s4 where 4: "put io (enc64 (entries_size (entries b))) (s3, int (?n + 8)) = Inr (s4, int (?n + 16))"
      "?P s4 (enc64 (int (length (offsets b))) @ enc64 (entries_size (entries b)))"
    using step [OF 3(2), of "enc64 (entries_size (entries b))"] by auto
  obtain s5 where 5: "put io (enc_vector (sizes b)) (s4, int (?n + 16)) = Inr (s5, int (?n + (16 + 8 * length (sizes b))))"
      "?P s5 ((enc64 (int (length (offsets b))) @ enc64 (entries_size (entries b))) @ enc_vector (sizes b))"
    using step [OF 4(2), of "enc_vector (sizes b)"] by auto
  obtain s6 where 6: "put io (enc_vector (offsets b)) (s5, int (?n + (16 + 8 * length (sizes b)))) = Inr (s6, int (?n + (16 + 8 * length (sizes b) + 8 * length (offsets b))))"
      "?P s6 (((enc64 (int (length (offsets b))) @ enc64 (entries_size (entries b))) @ enc_vector (sizes b)) @ enc_vector (offsets b))"
    using step [OF 5(2), of "enc_vector (offsets b)"] by auto
  obtain s7 off where 7: "writeData io s6 (int (?n + (16 + 8 * length (sizes b) + 8 * length (offsets b)))) (enc_vector (entries b)) = Inr (s7, off)"
      "?P s7 ((((enc64 (int (length (offsets b))) @ enc64 (entries_size (entries b))) @ enc_vector (sizes b)) @ enc_vector (offsets b)) @ enc_vector (entries b))"
    using step [OF 6(2), of "enc_vector (entries b)"] by (auto simp: put_def rbind_eq_Inr_iff split: prod.splits)
  obtain s8 where 8: "flushData io s7 = Inr s8" "cont s8 = cont s7" "writable s8" using flush_bytes 7(2) by blast
  have "put io (enc64 magicNumber) (store b, 0) = Inr (s1, 8)" using s1(1) by (simp add: put_def)
  then have "writeIndex io b = Inr (b\<lparr>store := s8\<rparr>)"
    unfolding writeIndex_def i using s2(1) 3(1) 4(1) 5(1) 6(1) 7(1) 8(1) i by simp
  moreover have "nat (indexOffset b) = ?n" using i by simp
  ultimately show ?thesis using 7(2) 8 by (intro exI [of _ s8]) (simp add: has_index_def index_bytes_def)
qed

lemma fetch_region:
  assumes "region (cont s) i bs" "length buffer = length bs" "j = int i"
  shows "fetch io s buffer j = Inr (bs, int (i + length bs))"
  using get_bytes [OF assms(1)] assms(2,3) by (simp add: fetch_def overlay_def)

lemma read_index:
  assumes x: "has_index (cont s) b" and r: "index_int64 b" and i: "0 \<le> indexOffset b"
    and l: "length (sizes b) = length (offsets b)" "int (length (entries b)) = entries_size (entries b) * 6"
  shows "new_blob io junk s =
    Inr \<lparr>entries = entries b, sizes = sizes b, offsets = offsets b, indexOffset = indexOffset b, hostTransforms = Map.empty, store = s\<rparr>"
proof -
  let ?c = "cont s" and ?n = "nat (indexOffset b)" and ?k = "length (offsets b)"
  have hdr: "region ?c 0 (enc64 magicNumber)" "region ?c 8 (enc64 (indexOffset b))" using x by (simp_all add: has_index_def region_append)
  have idx: "region ?c ?n (enc64 (int ?k))" "region ?c (?n + 8) (enc64 (entries_size (entries b)))" "region ?c (?n + 16) (enc_vector (sizes b))"
      "region ?c (?n + 16 + 8 * ?k) (enc_vector (offsets b))" "region ?c (?n + 16 + 16 * ?k) (enc_vector (entries b))"
    using x l(1) by (simp_all add: has_index_def index_bytes_def region_append add.assoc)
  have ne: "\<not> isEmptyData io s" using hdr(1) by (auto simp: region_def empty_bytes dest: spec [of _ 0])
  have m: "dec64 (enc64 magicNumber) = magicNumber" by (rule dec_enc64) (simp add: int64_def magicNumber_def)
  have d: "dec64 (enc64 (indexOffset b)) = int ?n" "dec64 (enc64 (int ?k)) = int ?k" "dec64 (enc64 (entries_size (entries b))) = entries_size (entries b)"
    using r i by (simp_all add: index_int64_def dec_enc64)
  have v: "dec_vector (enc_vector (sizes b)) = sizes b" "dec_vector (enc_vector (offsets b)) = offsets b" "dec_vector (enc_vector (entries b)) = entries b"
    using r by (auto simp: index_int64_def list_all_iff intro: dec_enc_vector)
  have z: "vec_resize 0 (int ?k) [] = Inr (replicate ?k 0)" "entries_resize [] (entries_size (entries b)) = Inr (replicate (length (entries b)) 0)"
    using l(2) by (simp_all add: vec_resize_def entries_resize_def nFieldPerEntry_def flip: l(2))
  note f = fetch_region [OF hdr(1), of "enc64 0" 0] fetch_region [OF hdr(2), of "enc64 junk" 8]
    fetch_region [OF idx(1), of "enc64 junk"] fetch_region [OF idx(2), of "enc64 junk"]
    fetch_region [OF idx(3), of "enc_vector (replicate ?k 0)"] fetch_region [OF idx(4), of "enc_vector (replicate ?k 0)"]
    fetch_region [OF idx(5), of "enc_vector (replicate (length (entries b)) 0)"]
  show ?thesis
    unfolding new_blob_def readIndex_def using ne i by (simp add: f m d v z l(1))
qed

end

subsection \<open>Appending a blob\<close>

lemma copy_entries:
  assumes ok: "list_all (af_ok af) as" and k: "k \<le> length as"
  shows "fold (\<lambda>i b'. let e = entries_get (entry_fields af 16 as) i in
      b'\<lparr>entries := entries_add (entries b') (e\<lparr>eoffset := eoffset e + (indexOffset b' - 2 * 8)\<rparr>)\<rparr>) [0..int k - 1] b =
    b\<lparr>entries := entries b @ entry_fields af (indexOffset b) (take k as)\<rparr>"
  using k
proof (induction k)
  case (Suc k)
  then have a: "af_ok af (as ! k)" "k < length as" using ok by (simp_all add: list_all_length)
  have e: "entries_get (entry_fields af 16 as) (int k) =
      \<lparr>etype = af_type af (as ! k), edims = af_dims af (as ! k), eoffset = 16 + int (length (blob_bytes af (take k as)))\<rparr>"
    by (rule entries_get_fields [OF ok a(2)])
  have s: "[0..int (Suc k) - 1] = [0..int k - 1] @ [int k]" using upto_rec2 [of 0 "int k"] by simp
  have "entries_add (entries b @ entry_fields af (indexOffset b) (take k as))
      \<lparr>etype = af_type af (as ! k), edims = af_dims af (as ! k), eoffset = indexOffset b + int (length (blob_bytes af (take k as)))\<rparr> =
    entries b @ entry_fields af (indexOffset b) (take (Suc k) as)"
    unfolding map_4_dims [OF a(1)] take_Suc_conv_app_nth [OF a(2)] entry_fields_append by simp
  then show ?case using Suc unfolding s fold_append by (simp add: e algebra_simps)
qed simp

locale blob_copy = blob_store io cont writable + other: blob_store io' cont' writable'
  for io :: "'s blobIO" and cont and writable and io' :: "'t blobIO" and cont' and writable'
begin

lemma copy_chunk:
  assumes "region (cont' (store blob)) p bs" "writable (store b)" "indexOffset b = int q" "n = int (length bs)"
  shows "\<exists>s. copyChunk io io' blob n (b, int p, buffer) = Inr (b\<lparr>store := s, indexOffset := int (q + length bs)\<rparr>, int (p + length bs), bs) \<and>
    writable s \<and> written (cont (store b)) q bs (cont s)"
proof -
  obtain s where "writeData io (store b) (int q) bs = Inr (s, int (length bs))" "written (cont (store b)) q bs (cont s)" "writable s"
    using put_bytes [OF assms(2)] by blast
  then show ?thesis
    using other.get_bytes [OF assms(1)] assms(3,4) by (auto simp: copyChunk_def vec_resize_def overlay_def Let_def)
qed

lemma region_sub: "region c i xs \<Longrightarrow> region c (i + k) (take n (drop k xs))"
  by (auto simp: region_def add.assoc)

lemma copy_step:
  assumes src: "region (cont' (store blob)) 16 D" and w: "writable (store b)" and r: "region (cont (store b)) 16 (data @ take k D)"
    and i: "indexOffset b = int (16 + length data + k)" and n: "k + n \<le> length D"
  shows "\<exists>s. copyChunk io io' blob (int n) (b, int (16 + k), buffer) =
      Inr (b\<lparr>store := s, indexOffset := int (16 + length data + (k + n))\<rparr>, int (16 + (k + n)), take n (drop k D)) \<and>
    writable s \<and> region (cont s) 16 (data @ take (k + n) D)"
proof -
  let ?bs = "take n (drop k D)"
  have l: "length ?bs = n" using n by simp
  obtain s where s: "copyChunk io io' blob (int n) (b, int (16 + k), buffer) =
      Inr (b\<lparr>store := s, indexOffset := int (16 + length data + k + length ?bs)\<rparr>, int (16 + k + length ?bs), ?bs)"
      "writable s" "written (cont (store b)) (16 + length data + k) ?bs (cont s)"
    using copy_chunk [OF region_sub [OF src, of k n] w i, of "int n" buffer] l by auto
  have "16 + length data + k = 16 + length (data @ take k D)" using n by simp
  then have "region (cont s) 16 ((data @ take k D) @ ?bs)" using region_extend [OF _ r, of ?bs "cont s"] s(3) by metis
  moreover have "take k D @ ?bs = take (k + n) D" by (simp add: take_add)
  ultimately show ?thesis using s(1,2) l by (intro exI [of _ s]) (simp add: add.assoc)
qed

lemma copy_chunks:
  assumes src: "region (cont' (store blob)) 16 D" and w: "writable (store b)" and r: "region (cont (store b)) 16 data"
    and i: "indexOffset b = int (16 + length data)" and n: "j * m \<le> length D"
  shows "\<exists>s buffer. rfold (\<lambda>_. copyChunk io io' blob (int m)) [0..int j - 1] (b, 16, []) =
      Inr (b\<lparr>store := s, indexOffset := int (16 + length data + j * m)\<rparr>, int (16 + j * m), buffer) \<and>
    writable s \<and> region (cont s) 16 (data @ take (j * m) D)"
  using n
proof (induction j)
  case 0
  show ?case using w r i by (intro exI [of _ "store b"] exI [of _ "[]"]) simp
next
  case (Suc j)
  then obtain s buffer where s: "rfold (\<lambda>_. copyChunk io io' blob (int m)) [0..int j - 1] (b, 16, []) =
      Inr (b\<lparr>store := s, indexOffset := int (16 + length data + j * m)\<rparr>, int (16 + j * m), buffer)"
      "writable s" "region (cont s) 16 (data @ take (j * m) D)" by auto
  let ?b = "b\<lparr>store := s, indexOffset := int (16 + length data + j * m)\<rparr>"
  have sp: "[0..int (Suc j) - 1] = [0..int j - 1] @ [int j]" using upto_rec2 [of 0 "int j"] by simp
  have k: "j * m + m \<le> length D" using Suc.prems by simp
  obtain s' where s': "copyChunk io io' blob (int m) (?b, int (16 + j * m), buffer) =
      Inr (?b\<lparr>store := s', indexOffset := int (16 + length data + (j * m + m))\<rparr>, int (16 + (j * m + m)), take m (drop (j * m) D))"
      "writable s'" "region (cont s') 16 (data @ take (j * m + m) D)"
    using copy_step [OF src, of ?b data "j * m" m buffer] s(2,3) k by auto
  have e: "j * m + m = Suc j * m" by simp
  show ?case unfolding sp rfold_append using s(1) s' unfolding e
    by (intro exI [of _ s'] exI [of _ "take m (drop (j * m) D)"]) (simp del: mult_Suc of_nat_add of_nat_mult)
qed

lemma append_blob:
  assumes h: "holds_blob af (cont (store b)) b samples" and g: "holds_blob af (cont' (store blob)) blob added"
    and w: "writable (store b)" and m: "0 < m"
  shows "\<exists>b'. add_blob io io' blob m b = Inr b' \<and> holds_blob af (cont (store b')) b' (samples @ added) \<and> writable (store b') \<and>
    hostTransforms b' = hostTransforms b"
proof -
  let ?as = "concat samples" and ?bs = "concat added"
  let ?data = "blob_bytes af ?as" and ?D = "blob_bytes af ?bs"
  have ok: "list_all (af_ok af) ?as" "list_all (af_ok af) ?bs" using h g by (simp_all add: holds_blob_def list_all_iff)
  note eb = entries_size_fields [OF ok(1), of 16] and eg = entries_size_fields [OF ok(2), of 16]
  obtain k where k: "m = int k" "0 < k" using m by (metis pos_int_cases)
  define j where "j = length ?D div k"
  define b2 where "b2 = b\<lparr>sizes := sizes b @ sizes blob, offsets := offsets b @ map (\<lambda>o'. o' + int (length ?as)) (offsets blob),
      entries := entries b @ entry_fields af (indexOffset b) ?bs\<rparr>"
  have src: "region (cont' (store blob)) 16 ?D" and dst: "writable (store b2)" "region (cont (store b2)) 16 ?data" "indexOffset b2 = int (16 + length ?data)"
    using h g w by (simp_all add: holds_blob_def b2_def)
  have jk: "j * k \<le> length ?D" by (simp add: j_def)
  obtain s buffer where s: "rfold (\<lambda>_. copyChunk io io' blob (int k)) [0..int j - 1] (b2, 16, []) =
      Inr (b2\<lparr>store := s, indexOffset := int (16 + length ?data + j * k)\<rparr>, int (16 + j * k), buffer)" (is "_ = Inr (?b3, _, _)")
      "writable s" "region (cont s) 16 (?data @ take (j * k) ?D)" using copy_chunks [OF src dst jk] by blast
  define rest where "rest = length ?D - j * k"
  have "\<exists>s' p' buf'. (if int rest > 0 then copyChunk io io' blob (int rest) (?b3, int (16 + j * k), buffer) else Inr (?b3, int (16 + j * k), buffer)) =
      Inr (b2\<lparr>store := s', indexOffset := int (16 + length ?data + length ?D)\<rparr>, p', buf') \<and> writable s' \<and> region (cont s') 16 (?data @ ?D)"
  proof (cases "rest = 0")
    case True
    then have "j * k = length ?D" using jk by (simp add: rest_def)
    then show ?thesis using s True by auto
  next
    case False
    then have "j * k + rest = length ?D" by (simp add: rest_def)
    then show ?thesis using copy_step [OF src, of ?b3 ?data "j * k" rest buffer] s(2,3) False by auto
  qed
  then obtain s' p' buf' where f: "(if int rest > 0 then copyChunk io io' blob (int rest) (?b3, int (16 + j * k), buffer) else Inr (?b3, int (16 + j * k), buffer)) =
      Inr (b2\<lparr>store := s', indexOffset := int (16 + length ?data + length ?D)\<rparr>, p', buf')" "writable s'" "region (cont s') 16 (?data @ ?D)" by blast
  have div: "int (length ?D) sdiv int k = int j" using k(2) by (cases "?D = []") (simp_all add: signed_divide_int_def j_def zdiv_int)
  have rst: "int (length ?D) - int j * int k = int rest" using jk by (simp add: rest_def of_nat_diff)
  have sz: "entries_size (entries blob) = int (length ?bs)" "entries_size (entries b) = int (length ?as)" "indexOffset blob - 2 * 8 = int (length ?D)" "entries blob = entry_fields af 16 ?bs"
    using h g eb eg by (simp_all add: holds_blob_def)
  have c: "fold (\<lambda>i b'. let e = entries_get (entry_fields af 16 ?bs) i in
        b'\<lparr>entries := entries_add (entries b') (e\<lparr>eoffset := eoffset e + (indexOffset b' - 2 * 8)\<rparr>)\<rparr>)
      [0..int (length ?bs) - 1] (b\<lparr>sizes := sizes b @ sizes blob, offsets := offsets b @ map (\<lambda>o'. o' + int (length ?as)) (offsets blob)\<rparr>) = b2"
    using copy_entries [OF ok(2) order.refl, of "b\<lparr>sizes := sizes b @ sizes blob, offsets := offsets b @ map (\<lambda>o'. o' + int (length ?as)) (offsets blob)\<rparr>"]
    by (simp add: b2_def)
  have k0: "\<not> int k \<le> 0" using k(2) by simp
  have "(2 * 8 :: int) = 16" by simp
  then have "add_blob io io' blob m b = rbind (rfold (\<lambda>_. copyChunk io io' blob (int k)) [0..int j - 1] (b2, 16, [])) (\<lambda>st.
      rbind (if int rest > 0 then copyChunk io io' blob (int rest) st else Inr st) (\<lambda>(b3, _, _). Inr b3))"
    unfolding add_blob_def k(1) if_not_P [OF k0] Let_def sz eg div rst c [unfolded Let_def] by (simp only:)
  then have "add_blob io io' blob m b = Inr (b2\<lparr>store := s', indexOffset := int (16 + length ?data + length ?D)\<rparr>)"
    unfolding s(1) rbind_simps f(1) by simp
  moreover have "holds_blob af (cont s') (b2\<lparr>store := s', indexOffset := int (16 + length ?data + length ?D)\<rparr>) (samples @ added)"
    using h g f(3) starts_shift [of "int (length ?as)" 0 added] by (simp add: holds_blob_def b2_def entry_fields_append sample_starts_append)
  ultimately show ?thesis using f(2) by (simp add: b2_def)
qed

end

interpretation mem_mem: blob_copy memory_io "\<lambda>data. data" "\<lambda>_. True" memory_io "\<lambda>data. data" "\<lambda>_. True" ..
interpretation file_file: blob_copy file_io content rw file_io content rw ..
interpretation file_mem: blob_copy file_io content rw memory_io "\<lambda>data. data" "\<lambda>_. True" ..

subsection \<open>Sessions\<close>

definition blob_fits :: "'a blob_af \<Rightarrow> 'a list list \<Rightarrow> bool" where
  "blob_fits af samples \<longleftrightarrow> 16 + int (length (blob_bytes af (concat samples))) < 2 ^ 63 \<and>
     int (length samples) + int (length (concat samples)) < 2 ^ 63 \<and>
     list_all (list_all (\<lambda>a. int64 (af_type af a) \<and> list_all int64 (af_dims af a))) samples"

lemma entry_fields_int64:
  "list_all (\<lambda>a. int64 (af_type af a) \<and> list_all int64 (af_dims af a)) as \<Longrightarrow> 0 \<le> i \<Longrightarrow> i + int (length (blob_bytes af as)) < 2 ^ 63 \<Longrightarrow>
     list_all int64 (entry_fields af i as)"
  by (induction as arbitrary: i) (auto simp: int64_def)

lemma starts_int64: "0 \<le> k \<Longrightarrow> k + int (length (concat ss)) < 2 ^ 63 \<Longrightarrow> list_all int64 (sample_starts k ss)"
  by (induction ss arbitrary: k) (auto simp: int64_def)

lemma sizes_int64: "int (length (concat ss)) < 2 ^ 63 \<Longrightarrow> list_all int64 (map (\<lambda>s. int (length s)) ss)"
  by (induction ss) (auto simp: int64_def)

lemma fits_index:
  assumes h: "holds_blob af c b samples" and f: "blob_fits af samples"
  shows "index_int64 b"
proof -
  have ok: "list_all (af_ok af) (concat samples)" using h by (simp add: holds_blob_def list_all_iff)
  have "list_all int64 (entries b)"
    using h f entry_fields_int64 [of af "concat samples" 16] by (simp add: holds_blob_def blob_fits_def list_all_iff)
  moreover have "list_all int64 (offsets b)" "list_all int64 (sizes b)"
    using h f starts_int64 [of 0 samples] sizes_int64 [of samples] by (simp_all add: holds_blob_def blob_fits_def)
  ultimately show ?thesis
    using h f entries_size_fields [OF ok, of 16] by (simp add: index_int64_def holds_blob_def blob_fits_def int64_def)
qed

context blob_store
begin

lemma new_empty: "cont s = [] \<Longrightarrow> \<exists>b. new_blob io junk s = Inr b \<and> holds_blob af (cont (store b)) b [] \<and> store b = s \<and> hostTransforms b = Map.empty"
  by (simp add: new_blob_def readIndex_def empty_bytes holds_blob_def)

lemma add_samples:
  assumes "holds_blob af (cont (store b)) b samples" "writable (store b)" "list_all (list_all (af_ok af)) added"
  shows "\<exists>b'. rfold (blob_add io af) added b = Inr b' \<and> holds_blob af (cont (store b')) b' (samples @ added) \<and> writable (store b') \<and>
    hostTransforms b' = hostTransforms b"
  using assms
proof (induction added arbitrary: b samples)
  case (Cons s added)
  obtain b1 where "blob_add io af s b = Inr b1" "holds_blob af (cont (store b1)) b1 (samples @ [s])" "writable (store b1)" "hostTransforms b1 = hostTransforms b"
    using add_sample [OF Cons.prems(1,2), of s] Cons.prems(3) by auto
  then show ?case using Cons.IH [of b1 "samples @ [s]"] Cons.prems(3) by simp
qed simp

lemma reopened:
  assumes h: "holds_blob af (cont (store b)) b samples" and w: "writable (store b)" and f: "blob_fits af samples"
  shows "\<exists>b'. writeIndex io b = Inr b' \<and> holds_blob af (cont (store b')) b' samples \<and>
    (\<forall>s junk. cont s = cont (store b') \<longrightarrow>
      (\<exists>b''. new_blob io junk s = Inr b'' \<and> holds_blob af (cont (store b'')) b'' samples \<and> hostTransforms b'' = Map.empty))"
proof -
  have ok: "list_all (af_ok af) (concat samples)" using h by (simp add: holds_blob_def list_all_iff)
  obtain s where s: "writeIndex io b = Inr (b\<lparr>store := s\<rparr>)" "region (cont s) 16 (blob_bytes af (concat samples))" "has_index (cont s) b"
    using write_index [OF _ w, of "blob_bytes af (concat samples)"] h by (auto simp: holds_blob_def)
  have l: "length (sizes b) = length (offsets b)" "int (length (entries b)) = entries_size (entries b) * 6" "0 \<le> indexOffset b"
    using h length_entry_fields [OF ok, of 16] entries_size_fields [OF ok, of 16] by (simp_all add: holds_blob_def)
  have "\<exists>b''. new_blob io junk s' = Inr b'' \<and> holds_blob af (cont (store b'')) b'' samples \<and> hostTransforms b'' = Map.empty"
    if "cont s' = cont s" for s' junk
    unfolding read_index [of s' b junk, OF s(3) [folded that] fits_index [OF h f] l(3,1,2)]
    using s(2) h that by (simp add: holds_blob_def)
  then show ?thesis using s h by (auto simp: holds_blob_def)
qed

lemma get_out_of_range:
  assumes "holds_blob af (cont (store b)) b samples" "i < 0 \<or> int (length samples) \<le> i"
  shows "blob_get io af b i = Inl (Out_of_range ''vector::_M_range_check'')"
  using assms by (auto simp: blob_get_def holds_blob_def vec_at_def)

end

text \<open>Vectors of bytes are an instance of what the code needs of arrays.\<close>

definition byte_arrays :: "byte list blob_af" where
  "byte_arrays = \<lparr>af_type = (\<lambda>_. 7), af_dims = (\<lambda>a. [int (length a), 1, 1, 1]), af_host = (\<lambda>a. a), af_create = (\<lambda>bs d t. Some bs),
     af_getSizeOf = (\<lambda>_. 1), af_array0 = []\<rparr>"

lemma byte_arrays_ok: "af_ok byte_arrays a" "reread byte_arrays a = a"
  by (simp_all add: af_ok_def byte_arrays_def dims_elements_def reread_def)

lemma byte_arrays_all_ok: "list_all (list_all (af_ok byte_arrays)) samples"
  by (simp add: list_all_iff byte_arrays_ok)

text \<open>
  C18. A blob file keeps its samples: a file that is created, filled with any samples and closed with \<^verbatim>\<open>writeIndex\<close> can be opened
  again, for writing or not, and then has exactly those samples: \<^verbatim>\<open>size\<close> is their number, \<^verbatim>\<open>get\<close> returns their arrays in
  order (an array without elements as the empty array), \<^verbatim>\<open>rawGet\<close> their bytes, and every other index throws.
\<close>

theorem blob_file_roundtrip:
  assumes ok: "list_all (list_all (af_ok af)) samples" and small: "blob_fits af samples"
  shows "\<exists>b b' b''. rbind (new_FileBlobDataset junk name True True old) (rfold (blob_add file_io af) samples) = Inr b \<and>
    writeIndex file_io b = Inr b' \<and> new_FileBlobDataset junk' name rw' False (Some (content (store b'))) = Inr b'' \<and>
    blob_size b'' = int (length samples) \<and>
    (\<forall>i<length samples. blob_get file_io af b'' (int i) = Inr (map (reread af) (samples ! i)) \<and>
       rawGet file_io af b'' (int i) = Inr (map (af_host af) (samples ! i))) \<and>
    (\<forall>i. i < 0 \<or> int (length samples) \<le> i \<longrightarrow> blob_get file_io af b'' i = Inl (Out_of_range ''vector::_M_range_check''))"
proof -
  obtain b0 where b0: "new_FileBlobDataset junk name True True old = Inr b0" "holds_blob af (content (store b0)) b0 []" "rw (store b0)"
    using filed.new_empty [of "\<lparr>content = [], rw = True\<rparr>" junk af] by (auto simp: new_FileBlobDataset_def)
  obtain b where b: "rfold (blob_add file_io af) samples b0 = Inr b" "holds_blob af (content (store b)) b samples" "rw (store b)"
    using filed.add_samples [OF b0(2,3) ok] by auto
  obtain b' where b': "writeIndex file_io b = Inr b'"
      "\<forall>s junk. content s = content (store b') \<longrightarrow> (\<exists>b''. new_blob file_io junk s = Inr b'' \<and> holds_blob af (content (store b'')) b'' samples \<and> hostTransforms b'' = Map.empty)"
    using filed.reopened [OF b(2,3) small] by blast
  have "\<exists>b''. new_blob file_io junk' \<lparr>content = content (store b'), rw = rw'\<rparr> = Inr b'' \<and> holds_blob af (content (store b'')) b'' samples \<and> hostTransforms b'' = Map.empty"
    by (rule b'(2) [rule_format]) simp
  then obtain b'' where b'': "new_FileBlobDataset junk' name rw' False (Some (content (store b'))) = Inr b''"
      "holds_blob af (content (store b'')) b'' samples" "hostTransforms b'' = Map.empty"
    by (auto simp: new_FileBlobDataset_def)
  then show ?thesis
    using b0(1) b(1) b'(1) filed.get_samples [OF b''(2) _ b''(3)] filed.get_out_of_range [OF b''(2)]
    by (auto simp: blob_size_def holds_blob_def)
qed

theorem blob_file_roundtrip_witness:
  "\<exists>b b' b''. rbind (new_FileBlobDataset 0 ''blob'' True True None) (rfold (blob_add file_io byte_arrays) [[[1, 2], [3]], [[]]]) = Inr b \<and>
    writeIndex file_io b = Inr b' \<and> new_FileBlobDataset 0 ''blob'' False False (Some (content (store b'))) = Inr b'' \<and>
    blob_get file_io byte_arrays b'' 0 = Inr [[1, 2], [3]] \<and> blob_get file_io byte_arrays b'' 1 = Inr [[]]"
proof -
  have "blob_fits byte_arrays [[[1, 2], [3]], [[]]]" by (simp add: blob_fits_def byte_arrays_def int64_def)
  from blob_file_roundtrip [OF byte_arrays_all_ok this, of 0 "''blob''" None 0 False] obtain b b' b'' where
    b: "rbind (new_FileBlobDataset 0 ''blob'' True True None) (rfold (blob_add file_io byte_arrays) [[[1, 2], [3]], [[]]]) = Inr b"
      "writeIndex file_io b = Inr b'" "new_FileBlobDataset 0 ''blob'' False False (Some (content (store b'))) = Inr b''"
      "\<forall>i<2. blob_get file_io byte_arrays b'' (int i) = Inr (map (reread byte_arrays) ([[[1, 2], [3]], [[]]] ! i))" by auto
  have "blob_get file_io byte_arrays b'' 0 = Inr [[1, 2], [3]]" "blob_get file_io byte_arrays b'' 1 = Inr [[]]"
    using b(4) [rule_format, of 0] b(4) [rule_format, of 1] by (simp_all add: byte_arrays_ok)
  then show ?thesis using b(1-3) by blast
qed

text \<open>
  C19. Appending a blob concatenates the datasets: for any positive chunk size, \<^verbatim>\<open>add(blob, chunkSize)\<close> leaves a dataset whose samples
  are its own followed by those of the other blob, read back array by array; a chunk size that is not positive
  throws before anything is changed.
\<close>

theorem blob_append_samples:
  assumes ok: "list_all (list_all (af_ok af)) samples" "list_all (list_all (af_ok af)) added"
    and b: "rbind (new_MemoryBlobDataset junk) (rfold (blob_add memory_io af) samples) = Inr b"
    and blob: "rbind (new_MemoryBlobDataset junk') (rfold (blob_add memory_io af) added) = Inr blob"
  shows "(chunkSize \<le> 0 \<longrightarrow> add_blob memory_io memory_io blob chunkSize b = Inl (Runtime_error ''chunkSize must be positive'')) \<and>
    (chunkSize > 0 \<longrightarrow> (\<exists>b'. add_blob memory_io memory_io blob chunkSize b = Inr b' \<and> blob_size b' = int (length (samples @ added)) \<and>
      (\<forall>i<length (samples @ added). blob_get memory_io af b' (int i) = Inr (map (reread af) ((samples @ added) ! i)))))"
proof (intro conjI impI)
  have made: "holds_blob af (store c) c ss \<and> hostTransforms c = Map.empty"
    if "rbind (new_MemoryBlobDataset j) (rfold (blob_add memory_io af) ss) = Inr c" "list_all (list_all (af_ok af)) ss" for c ss j
  proof -
    obtain b0 where "new_MemoryBlobDataset j = Inr b0" "holds_blob af (store b0) b0 []" "hostTransforms b0 = Map.empty"
      using mem.new_empty [of "[]" j af] by (auto simp: new_MemoryBlobDataset_def)
    then show ?thesis using mem.add_samples [of af b0 "[]" ss] that by auto
  qed
  note hb = made [OF b ok(1)] and hc = made [OF blob ok(2)]
  show "add_blob memory_io memory_io blob chunkSize b = Inl (Runtime_error ''chunkSize must be positive'')" if "chunkSize \<le> 0"
    using that by (simp add: add_blob_def)
  assume "0 < chunkSize"
  then obtain b' where b': "add_blob memory_io memory_io blob chunkSize b = Inr b'" "holds_blob af (store b') b' (samples @ added)" "hostTransforms b' = Map.empty"
    using mem_mem.append_blob [of af b samples blob added chunkSize] hb hc by auto
  then show "\<exists>b'. add_blob memory_io memory_io blob chunkSize b = Inr b' \<and> blob_size b' = int (length (samples @ added)) \<and>
      (\<forall>i<length (samples @ added). blob_get memory_io af b' (int i) = Inr (map (reread af) ((samples @ added) ! i)))"
    using mem.get_samples(1) [OF b'(2) _ b'(3)] by (auto simp: blob_size_def holds_blob_def)
qed

theorem blob_append_samples_witness:
  "\<exists>b blob b'. rbind (new_MemoryBlobDataset 0) (rfold (blob_add memory_io byte_arrays) [[[1]]]) = Inr b \<and>
    rbind (new_MemoryBlobDataset 0) (rfold (blob_add memory_io byte_arrays) [[[2, 3]]]) = Inr blob \<and>
    add_blob memory_io memory_io blob 1 b = Inr b' \<and> blob_get memory_io byte_arrays b' 1 = Inr [[2, 3]]"
proof -
  have made: "\<exists>c. rbind (new_MemoryBlobDataset 0) (rfold (blob_add memory_io byte_arrays) ss) = Inr c" for ss
  proof -
    obtain b0 :: "(byte list, byte list) blob" where b0: "new_MemoryBlobDataset 0 = Inr b0" "holds_blob byte_arrays (store b0) b0 []"
      using mem.new_empty [of "[]" 0 byte_arrays] by (auto simp: new_MemoryBlobDataset_def)
    then show ?thesis using mem.add_samples [OF b0(2) TrueI byte_arrays_all_ok, of ss] by auto
  qed
  obtain b blob where b: "rbind (new_MemoryBlobDataset 0) (rfold (blob_add memory_io byte_arrays) [[[1]]]) = Inr b"
    "rbind (new_MemoryBlobDataset 0) (rfold (blob_add memory_io byte_arrays) [[[2, 3]]]) = Inr blob" using made by metis
  from blob_append_samples [OF byte_arrays_all_ok byte_arrays_all_ok b, of 1] obtain b' where
    b': "add_blob memory_io memory_io blob 1 b = Inr b'"
      "\<forall>i<2. blob_get memory_io byte_arrays b' (int i) = Inr (map (reread byte_arrays) ([[[1]], [[2, 3]]] ! i))" by auto
  have "blob_get memory_io byte_arrays b' 1 = Inr [[2, 3]]" using b'(2) [rule_format, of 1] by (simp add: byte_arrays_ok)
  then show ?thesis using b b'(1) by blast
qed

end
