(* ===== verification/Seq2SeqSearch.thy ===== *)
theory Seq2SeqSearch
  imports DecoderSearch
begin

section \<open>The search of the sequence-to-sequence decoders (\<^verbatim>\<open>lib/text/decoder/LexiconFreeSeq2SeqDecoder.cpp\<close>, \<^verbatim>\<open>LexiconSeq2SeqDecoder.cpp\<close>)\<close>

text \<open>
  The \<^verbatim>\<open>decodeStep\<close> functions of the two decoders have the same text up to the state class, the candidate of a completed
  hypothesis and the body of the loop over the tokens; what they share is defined here once, with these parts
  as arguments (\<open>start\<close>, \<open>completed\<close>, \<open>ext\<close>). The acoustic model is a callback: a function of its arguments and of a
  state of its own that may throw. It gets the step \<open>t\<close> by reference but is not modelled as changing it. A
  \<^verbatim>\<open>shared_ptr<void>\<close> is an optional address. Frames keep their vectors between calls of \<^verbatim>\<open>decodeStep\<close>; every
  vector that is written gets a new identifier. The elements that \<^verbatim>\<open>std::move\<close> leaves behind at the end are not read again.
\<close>

type_synonym amStatePtr = "nat option"

record s2sState = decoderState +
  amState :: amStatePtr

record s2sOptions =
  beamSize :: int
  beamSizeToken :: int
  beamThreshold :: dbl
  lmWeight :: dbl
  eosScore :: dbl
  logAdd :: bool

type_synonym 'm amUpdateFunc =
  "dbl list \<Rightarrow> int \<Rightarrow> int \<Rightarrow> int list \<Rightarrow> amStatePtr list \<Rightarrow> int \<Rightarrow> 'm \<Rightarrow> ((dbl list list \<times> amStatePtr list) \<times> 'm) result"

record ('o, 's, 'l, 'm) s2sDecoder =
  opt :: 'o
  lm :: "'l lm"
  eos :: int
  amUpdate :: "'m amUpdateFunc"
  maxOutputLength :: int
  hyp :: "'s hyps"
  nextBuf :: nat
  lmMem :: 'l
  amMem :: 'm

text \<open>The hypotheses that are not complete are forwarded as a batch.\<close>

definition raw_batch :: "int \<Rightarrow> 'z s2sState_scheme list \<Rightarrow> int list \<times> amStatePtr list" where
  "raw_batch e hs = (let live = filter (\<lambda>s. token s \<noteq> e) hs in (map token live, map amState live))"

text \<open>
  The tokens that are tried for one row of scores. The size is compared with \<^verbatim>\<open>beamSizeToken\<close> as a \<^verbatim>\<open>size_t\<close>, so a negative
  number is no limit. \<^verbatim>\<open>idx\<close> has the size of the last row: a row of another size is indexed out of range.
\<close>

definition s2s_tokens :: "int \<Rightarrow> nat \<Rightarrow> dbl list \<Rightarrow> nat list result" where
  "s2s_tokens k idxSize row =
     (if length row \<noteq> idxSize then Inl (Undefined ''index out of range'')
      else
        let idx = [0..<idxSize];
            sorted = (if int (length row) > size_of_int k then std_sort (\<lambda>l r. row ! r < row ! l) idx else idx)
        in Inr (take (nat (min (int (length row)) (size_of_int k))) sorted))"

definition s2s_expand :: "(int \<Rightarrow> 'z s2sState_scheme \<Rightarrow> hypPtr \<Rightarrow> 'z s2sState_scheme) \<Rightarrow>
    (('o s2sOptions_scheme, 'z s2sState_scheme, 'l, 'm, 'd) s2sDecoder_scheme \<Rightarrow> 'z s2sState_scheme \<Rightarrow> hypPtr \<Rightarrow> amStatePtr \<Rightarrow> nat \<Rightarrow> dbl \<Rightarrow>
      'z s2sState_scheme cands \<times> 'l \<Rightarrow> ('z s2sState_scheme cands \<times> 'l) result) \<Rightarrow>
    ('o s2sOptions_scheme, 'z s2sState_scheme, 'l, 'm, 'd) s2sDecoder_scheme \<Rightarrow> dbl list list \<Rightarrow> amStatePtr list \<Rightarrow>
    hypPtr \<times> 'z s2sState_scheme \<Rightarrow> nat \<times> 'z s2sState_scheme cands \<times> 'l \<Rightarrow> (nat \<times> 'z s2sState_scheme cands \<times> 'l) result" where
  "s2s_expand completed ext d amScores outStates = (\<lambda>(ptr, prevHyp) (validHypo, bcl).
     if token prevHyp = eos d
     then Inr (validHypo, candidatesAdd (beamThreshold (opt d)) (completed (eos d) prevHyp ptr) (fst bcl), snd bcl)
     else if validHypo \<ge> length outStates then Inl (Undefined ''index out of range'')
     else if outStates ! validHypo = None then Inr (validHypo + 1, bcl)
     else if validHypo \<ge> length amScores then Inl (Undefined ''index out of range'')
     else
       rbind (s2s_tokens (beamSizeToken (opt d)) (length (last amScores)) (amScores ! validHypo)) (\<lambda>ns.
       rbind (rfold (\<lambda>n. ext d prevHyp ptr (outStates ! validHypo) n (amScores ! validHypo ! n)) ns bcl) (\<lambda>bcl'.
       Inr (validHypo + 1, bcl'))))"

text \<open>One step of the loop; \<open>None\<close> is \<^verbatim>\<open>break\<close>.\<close>

definition s2s_frame :: "('z s2sState_scheme \<Rightarrow> 'z s2sState_scheme \<Rightarrow> int) \<Rightarrow> (int \<Rightarrow> 'z s2sState_scheme \<Rightarrow> hypPtr \<Rightarrow> 'z s2sState_scheme) \<Rightarrow>
    (('o s2sOptions_scheme, 'z s2sState_scheme, 'l, 'm, 'd) s2sDecoder_scheme \<Rightarrow> 'z s2sState_scheme \<Rightarrow> hypPtr \<Rightarrow> amStatePtr \<Rightarrow> nat \<Rightarrow> dbl \<Rightarrow>
      'z s2sState_scheme cands \<times> 'l \<Rightarrow> ('z s2sState_scheme cands \<times> 'l) result) \<Rightarrow> dbl list \<Rightarrow> int \<Rightarrow> int \<Rightarrow> int \<Rightarrow>
    ('o s2sOptions_scheme, 'z s2sState_scheme, 'l, 'm, 'd) s2sDecoder_scheme \<Rightarrow>
    ('o s2sOptions_scheme, 'z s2sState_scheme, 'l, 'm, 'd) s2sDecoder_scheme option result" where
  "s2s_frame cmp completed ext emissions T N t d =
     (let (b, prev) = vec (hyp d) t; (rawY, rawPrevStates) = raw_batch (eos d) prev in
      if rawY = [] then Inr None
      else
        rbind (amUpdate d emissions N T rawY rawPrevStates t (amMem d)) (\<lambda>((amScores, outStates), m).
        if amScores = [] then Inl (Undefined ''back of an empty vector'')
        else
        rbind (rfold (\<lambda>(i, s). s2s_expand completed ext d amScores outStates ((b, i), s)) (enumerate 0 prev) (0, candidatesReset, lmMem d))
          (\<lambda>(_, (best, cs), l).
        rbind (candidatesStore cmp cs (beamSize (opt d)) (best - beamThreshold (opt d)) (logAdd (opt d)) True) (\<lambda>outs.
        rbind (updateLMCache (lm d) outs l) (\<lambda>l'.
          Inr (Some (d\<lparr>hyp := put (t + 1) (nextBuf d, outs) (hyp d), nextBuf := Suc (nextBuf d), lmMem := l', amMem := m\<rparr>)))))))"

fun s2s_loop :: "(int \<Rightarrow> 'd \<Rightarrow> 'd option result) \<Rightarrow> nat \<Rightarrow> int \<Rightarrow> 'd \<Rightarrow> (int \<times> 'd) result" where
  "s2s_loop frame 0 t d = Inr (t, d)"
| "s2s_loop frame (Suc k) t d = rbind (frame t d) (\<lambda>r. case r of None \<Rightarrow> Inr (t, d) | Some d' \<Rightarrow> s2s_loop frame k (t + 1) d')"

fun last_used :: "'s hyps \<Rightarrow> nat \<Rightarrow> nat" where
  "last_used h 0 = 0"
| "last_used h (Suc t) = (if snd (vec h (int (Suc t))) = [] then last_used h t else Suc t)"

definition s2s_decodeStep :: "('z s2sState_scheme \<Rightarrow> 'z s2sState_scheme \<Rightarrow> int) \<Rightarrow> (lmStatePtr \<Rightarrow> 'z s2sState_scheme) \<Rightarrow>
    (int \<Rightarrow> 'z s2sState_scheme \<Rightarrow> hypPtr \<Rightarrow> 'z s2sState_scheme) \<Rightarrow>
    (('o s2sOptions_scheme, 'z s2sState_scheme, 'l, 'm, 'd) s2sDecoder_scheme \<Rightarrow> 'z s2sState_scheme \<Rightarrow> hypPtr \<Rightarrow> amStatePtr \<Rightarrow> nat \<Rightarrow> dbl \<Rightarrow>
      'z s2sState_scheme cands \<times> 'l \<Rightarrow> ('z s2sState_scheme cands \<times> 'l) result) \<Rightarrow> dbl list \<Rightarrow> int \<Rightarrow> int \<Rightarrow>
    ('o s2sOptions_scheme, 'z s2sState_scheme, 'l, 'm, 'd) s2sDecoder_scheme \<Rightarrow>
    ('o s2sOptions_scheme, 'z s2sState_scheme, 'l, 'm, 'd) s2sDecoder_scheme result" where
  "s2s_decodeStep cmp start completed ext emissions T N d =
     (let h = extend_hyp (nat (maxOutputLength d + 2)) (hyp d);
          (ls, l) = lm_start (lm d) False (lmMem d);
          d1 = d\<lparr>hyp := put 0 (nextBuf d, [start ls]) h, nextBuf := Suc (nextBuf d), lmMem := l\<rparr>
      in
      rbind (s2s_loop (s2s_frame cmp completed ext emissions T N) (nat (maxOutputLength d)) 0 d1) (\<lambda>(t, d2).
        let t' = int (last_used (hyp d2) (nat t)) in
        Inr (d2\<lparr>hyp := put (maxOutputLength d + 1) (nextBuf d2, snd (vec (hyp d2) t')) (hyp d2), nextBuf := Suc (nextBuf d2)\<rparr>)))"

definition s2s_getAllFinalHypothesis :: "('z s2sState_scheme \<Rightarrow> int) \<Rightarrow> ('o, 'z s2sState_scheme, 'l, 'm, 'd) s2sDecoder_scheme \<Rightarrow> decodeResult list result" where
  "s2s_getAllFinalHypothesis getWord d =
     rbind (find_frame (hyp d) (maxOutputLength d + 1)) (\<lambda>fin. getAllHypothesis (hyp d) getWord fin (int (length (hyp d))))"

text \<open>\<^verbatim>\<open>second.data()\<close> points to the first element; of an empty vector it points to none.\<close>

definition s2s_getBestHypothesis :: "('z s2sState_scheme \<Rightarrow> int) \<Rightarrow> ('o, 'z s2sState_scheme, 'l, 'm, 'd) s2sDecoder_scheme \<Rightarrow> decodeResult result" where
  "s2s_getBestHypothesis getWord d =
     rbind (find_frame (hyp d) (maxOutputLength d + 1)) (\<lambda>fin.
       case fin of [] \<Rightarrow> Inl (Undefined ''data of an empty vector'') | s # _ \<Rightarrow> getHypothesis (hyp d) getWord (Some s) (int (length (hyp d))))"

end
