(* ===== verification/Seq2SeqTheorems.thy ===== *)
theory Seq2SeqTheorems
  imports Seq2SeqSearch
begin

section \<open>Properties of the search of the sequence-to-sequence decoders\<close>

text \<open>
  Frames later than the current one may hold vectors of an earlier call. \<open>current f h\<close> is the map without them, for
  which the lemmas on beams apply; \<open>live\<close> says that the vectors of the current call are not mistaken for old ones. The
  locale \<open>s2s_search\<close> is the contract of what the two decoders add to the shared search, and its main lemma says what
  every call of \<^verbatim>\<open>decodeStep\<close> leaves behind.
\<close>

subsection \<open>Frames of earlier calls\<close>

definition current :: "int \<Rightarrow> 's hyps \<Rightarrow> 's hyps" where
  "current f h = map (\<lambda>(k, v). (k, if k \<le> f then v else (0, []))) h"

lemma current_keys [simp]: "map fst (current f h) = map fst h" "length (current f h) = length h"
  by (simp_all add: current_def comp_def split_beta)

lemma map_of_current: "map_of (current f h) k = map_option (\<lambda>v. if k \<le> f then v else (0, [])) (map_of h k)"
  by (induction h) (auto simp: current_def)

lemma vec_current: "vec (current f h) k = (if k \<le> f then vec h k else (0, []))"
  by (simp add: vec_def map_of_current split: option.splits)

lemma elems_current: "k \<le> f \<Longrightarrow> elems (current f h) k = elems h k" "k \<le> f \<Longrightarrow> bid (current f h) k = bid h k"
  by (simp_all add: elems_def bid_def vec_current)

lemma contig_current [simp]: "contig (current f h) = contig h"
  unfolding contig_def current_keys ..

lemma beam_ok_cong:
  assumes "beam_ok h f nb" "contig h'" "length h' = length h" "\<And>k. vec h' k = vec h k"
  shows "beam_ok h' f nb"
proof -
  have "elems h' = elems h" "bid h' = bid h" "vec h' = vec h" using assms(4) by (auto simp: elems_def bid_def fun_eq_iff)
  then show ?thesis using assms(1-3) unfolding beam_ok_def by simp
qed

lemma deref_current:
  assumes "\<And>k b xs. (k, b, xs) \<in> set h \<Longrightarrow> k > f \<Longrightarrow> b \<noteq> fst p"
  shows "deref h p = deref (current f h) p"
proof -
  have "List.find (\<lambda>(k, b, xs). b \<noteq> 0 \<and> b = fst p) (current f h) = List.find (\<lambda>(k, b, xs). b \<noteq> 0 \<and> b = fst p) h"
    using assms
  proof (induction h)
    case (Cons e h)
    obtain k b xs where e: "e = (k, b, xs)" by (metis prod_cases3)
    have "List.find (\<lambda>(k, b, xs). b \<noteq> 0 \<and> b = fst p) (current f h) = List.find (\<lambda>(k, b, xs). b \<noteq> 0 \<and> b = fst p) h"
      using Cons by auto
    moreover have "k > f \<Longrightarrow> b \<noteq> fst p" using Cons.prems e by auto
    moreover have "current f (e # h) = (k, if k \<le> f then (b, xs) else (0, [])) # current f h" by (simp add: current_def e)
    ultimately show ?case by (cases "k \<le> f") (simp_all add: e)
  qed (simp add: current_def)
  then show ?thesis by (simp add: deref_def)
qed

definition live :: "'z decoderState_scheme hyps \<Rightarrow> int \<Rightarrow> nat \<Rightarrow> bool" where
  "live h f nb \<longleftrightarrow> beam_ok (current f h) f nb \<and> (\<forall>k. bid h k < nb) \<and> (\<forall>k>f. \<forall>j\<in>{0..f}. bid h k \<noteq> bid h j)"

lemma live_contig: "live h f nb \<Longrightarrow> contig h"
  using beam_okD(1) [of "current f h"] by (auto simp: live_def)

lemma live_parent_of:
  assumes l: "live h f nb" and k: "0 \<le> k" "k \<le> f" "s \<in> set (elems h k)"
  shows "parent_of h s = parent_of (current f h) s"
proof (cases "parent s")
  case (Some p)
  have ok: "beam_ok (current f h) f nb" using l by (simp add: live_def)
  have s: "s \<in> set (elems (current f h) k)" using k by (simp add: elems_current)
  have "k \<noteq> 0" using beam_okD(6) [OF ok] s Some by auto
  then have "\<exists>i. parent s = Some (bid h (k - 1), i)"
    using beam_okD(9) [OF ok, of "k - 1" s] s k by (auto simp: elems_current)
  then have p: "fst p = bid h (k - 1)" using Some by auto
  have "b \<noteq> fst p" if "(j, b, xs) \<in> set h" "j > f" for j b xs
  proof -
    have "vec h j = (b, xs)" using that(1) live_contig [OF l] by (simp add: vec_def contig_def)
    then have "b = bid h j" by (simp add: bid_def)
    then show ?thesis using l that(2) p k \<open>k \<noteq> 0\<close> by (auto simp: live_def)
  qed
  then show ?thesis unfolding parent_of_def Some using deref_current [of h f p] by simp
qed (simp add: parent_of_def)

lemma history_transfer:
  assumes "history h s ss"
  shows "(\<And>i. i < length ss \<Longrightarrow> parent_of h' (ss ! i) = parent_of h (ss ! i)) \<Longrightarrow> history h' s ss"
  using assms
proof (induction rule: history.induct)
  case (history_root s)
  then show ?case using history.history_root [of h' s] by fastforce
next
  case (history_step s s' ss)
  have "parent_of h' s = Inr (Some s')" using history_step.prems [of "length ss"] history_step.hyps(1) by simp
  moreover have "history h' s' ss"
  proof (rule history_step.IH)
    fix i assume "i < length ss"
    then show "parent_of h' (ss ! i) = parent_of h (ss ! i)" using history_step.prems [of i] by (simp add: nth_append)
  qed
  ultimately show ?case by (rule history.history_step)
qed

lemma live_history:
  assumes l: "live h f nb" and k: "int n \<le> f" "s \<in> set (elems h (int n))"
  shows "\<exists>ss. history h s ss \<and> length ss = Suc n \<and> (\<forall>i\<le>n. ss ! i \<in> set (elems h (int i)))"
proof -
  have ok: "beam_ok (current f h) f nb" using l by (simp add: live_def)
  obtain ss where ss: "history (current f h) s ss" "length ss = Suc n" "\<forall>i\<le>n. ss ! i \<in> set (elems (current f h) (int i))"
    using history_exists [OF ok, of n s] k by (auto simp: elems_current)
  have e: "ss ! i \<in> set (elems h (int i))" if "i \<le> n" for i using ss(3) that k by (auto simp: elems_current)
  have "history h s ss"
  proof (rule history_transfer [OF ss(1)])
    fix i assume "i < length ss"
    then have i: "i \<le> n" using ss(2) by simp
    then have "int i \<le> f" using k(1) by linarith
    then show "parent_of h (ss ! i) = parent_of (current f h) (ss ! i)" using live_parent_of [OF l _ _ e [OF i]] by simp
  qed
  then show ?thesis using ss(2) e by blast
qed

lemma live_next:
  assumes l: "live h f nb" and f: "f + 1 < int (length h)" and nb: "0 < nb"
    and p: "\<forall>s\<in>set outs. \<exists>i<length (elems h f). parent s = Some (bid h f, i)"
  shows "live (put (f + 1) (nb, outs) h) (f + 1) (Suc nb)"
proof -
  let ?h = "put (f + 1) (nb, outs) h"
  have ok: "beam_ok (current f h) f nb" and lt: "\<And>k. bid h k < nb" using l by (auto simp: live_def)
  have f0: "0 \<le> f" using beam_okD(2) [OF ok] .
  have c: "contig h" by (rule live_contig [OF l])
  have present: "map_of h (f + 1) \<noteq> None" using contig_Some [OF c, of "f + 1"] f f0 by auto
  have p': "map_of (current f h) (f + 1) \<noteq> None" using present by (simp add: map_of_current)
  have "beam_ok (put (f + 1) (nb, outs) (current f h)) (f + 1) (Suc nb)"
    by (rule beam_ok_next [OF ok nb]) (use p in \<open>simp add: elems_current\<close>)
  then have "beam_ok (current (f + 1) ?h) (f + 1) (Suc nb)"
  proof (rule beam_ok_cong)
    show "contig (current (f + 1) ?h)" using contig_put [OF c present] by simp
    show "length (current (f + 1) ?h) = length (put (f + 1) (nb, outs) (current f h))" using length_put_present [OF present] length_put_present [OF p'] by simp
    show "vec (current (f + 1) ?h) k = vec (put (f + 1) (nb, outs) (current f h)) k" for k by (simp add: vec_current vec_put)
  qed
  moreover have "bid ?h k < Suc nb" for k using less_SucI [OF lt [of k]] by (simp add: elems_put)
  moreover have "bid ?h k \<noteq> bid ?h j" if "k > f + 1" "j \<in> {0..f + 1}" for k j
    using that l lt [of k] by (auto simp: elems_put live_def)
  ultimately show ?thesis by (simp add: live_def)
qed

text \<open>A copy of a frame in a later one does not disturb the histories.\<close>

lemma live_put_late:
  assumes l: "live h f nb" and k: "f < k" "k < int (length h)"
  shows "live (put k (nb, xs) h) f (Suc nb)"
proof -
  have ok: "beam_ok (current f h) f nb" and lt: "\<And>k. bid h k < nb" using l by (auto simp: live_def)
  have c: "contig h" by (rule live_contig [OF l])
  have present: "map_of h k \<noteq> None" using contig_Some [OF c, of k] k beam_okD(2) [OF ok] by auto
  have "beam_ok (current f (put k (nb, xs) h)) f nb"
    by (rule beam_ok_cong [OF ok]) (use k contig_put [OF c present] length_put_present [OF present] in \<open>auto simp: vec_current vec_put\<close>)
  then have "beam_ok (current f (put k (nb, xs) h)) f (Suc nb)" unfolding beam_ok_def using less_SucI by blast
  moreover have "bid (put k (nb, xs) h) j < Suc nb" for j using less_SucI [OF lt [of j]] by (simp add: elems_put)
  moreover have "bid (put k (nb, xs) h) i \<noteq> bid (put k (nb, xs) h) j" if "i > f" "j \<in> {0..f}" for i j
  proof -
    have "bid h j < nb" "j \<noteq> k" using lt k that by auto
    then show ?thesis using that l by (auto simp: elems_put live_def)
  qed
  ultimately show ?thesis by (simp add: live_def)
qed

subsection \<open>Results with unused slots in front\<close>

lemma fill_result_padded:
  assumes "history h s ss"
  shows "length ss = Suc n \<Longrightarrow> n \<le> k \<Longrightarrow> k < length (words res) \<Longrightarrow> k < length (tokens res) \<Longrightarrow>
    fill_result h gw (Suc k) s res =
      Inr (res\<lparr>words := take (k - n) (words res) @ map gw ss @ drop (Suc k) (words res),
               tokens := take (k - n) (tokens res) @ map token ss @ drop (Suc k) (tokens res)\<rparr>)"
  using assms
proof (induction arbitrary: n k res rule: history.induct)
  case (history_root s)
  then show ?case by (simp add: Let_def upd_conv_take_nth_drop)
next
  case (history_step s s' ss)
  obtain m where m: "n = Suc m" "length ss = Suc m" using history_step.prems(1) history_last [OF history_step.hyps(2)]
    by (cases ss) auto
  obtain k' where k: "k = Suc k'" using m(1) history_step.prems(2) by (cases k) auto
  let ?res = "res\<lparr>words := (words res)[k := gw s], tokens := (tokens res)[k := token s]\<rparr>"
  have d: "drop k (xs[k := x]) = x # drop (Suc k) xs" "take (k' - m) (xs[k := x]) = take (k - n) xs" if "k < length xs" for xs :: "'b list" and x
    using that k m(1) by (simp_all add: drop_update_cancel Cons_nth_drop_Suc [symmetric])
  have "fill_result h gw (Suc k) s res = fill_result h gw k s' ?res"
    using history_step.hyps(1) by (simp add: Let_def)
  also have "\<dots> = Inr (?res\<lparr>words := take (k' - m) (words ?res) @ map gw ss @ drop k (words ?res),
      tokens := take (k' - m) (tokens ?res) @ map token ss @ drop k (tokens ?res)\<rparr>)"
    using history_step.IH [OF m(2), of k' ?res] history_step.prems k m by (simp del: fill_result.simps)
  finally show ?case
    using d [of "words res"] d [of "tokens res"] history_step.prems m k by (simp del: fill_result.simps)
qed

lemma getHypothesis_padded:
  assumes "history h s ss" "length ss \<le> nat (k + 1)" "0 \<le> k"
  shows "getHypothesis h gw (Some s) k =
    Inr \<lparr>resScore = score s, resAmScore = Some (amScore s), resLmScore = Some (lmScore s),
         words = replicate (nat (k + 1) - length ss) (-1) @ map gw ss, tokens = replicate (nat (k + 1) - length ss) (-1) @ map token ss\<rparr>"
proof -
  obtain n where n: "nat (k + 1) = Suc n" using assms(3) by (cases "nat (k + 1)") auto
  obtain m where m: "length ss = Suc m" using history_last [OF assms(1)] by (cases ss) auto
  have l: "m \<le> n" using assms(2) n m by simp
  show ?thesis
    using fill_result_padded [OF assms(1) m l, of "new_DecodeResult (Suc n)\<lparr>resScore := score s, resAmScore := Some (amScore s), resLmScore := Some (lmScore s)\<rparr>" gw]
      assms(3) n m by (simp add: getHypothesis_def new_DecodeResult_def del: fill_result.simps replicate.simps)
qed

subsection \<open>The callback and the tokens of a row\<close>

definition am_throws :: "'m amUpdateFunc \<Rightarrow> exn \<Rightarrow> bool" where
  "am_throws f e \<longleftrightarrow> (\<exists>em N T ys ss t m. f em N T ys ss t m = Inl e)"

definition am_gives :: "'m amUpdateFunc \<Rightarrow> dbl \<Rightarrow> bool" where
  "am_gives f x \<longleftrightarrow> (\<exists>em N T ys ss t m rows outs m'. f em N T ys ss t m = Inr ((rows, outs), m') \<and> x \<in> set (concat rows))"

text \<open>What the decoders need of the callback: one row of scores, all of the same size, and one state for each forwarded hypothesis.\<close>

definition am_shape :: "'m amUpdateFunc \<Rightarrow> bool" where
  "am_shape f \<longleftrightarrow> (\<forall>em N T ys ss t m rows outs m'. f em N T ys ss t m = Inr ((rows, outs), m') \<longrightarrow>
     length rows = length ys \<and> length outs = length ys \<and> (\<forall>r\<in>set rows. length r = length (last rows)))"

lemma s2s_tokens_ok:
  assumes "length row = n"
  shows "\<exists>ns. s2s_tokens k n row = Inr ns \<and> (\<forall>i\<in>set ns. i < length row)"
proof -
  let ?idx = "if int (length row) > size_of_int k then std_sort (\<lambda>l r. row ! r < row ! l) [0..<n] else [0..<n]"
  have "set ?idx = {0..<n}" by simp
  then have "\<forall>i\<in>set (take m ?idx). i < length row" for m using assms set_take_subset [of m ?idx] by auto
  then show ?thesis using assms by (simp add: s2s_tokens_def Let_def)
qed

definition s2s_config :: "('o s2sOptions_scheme, 's, 'l, 'm, 'd) s2sDecoder_scheme \<Rightarrow> bool" where
  "s2s_config d \<longleftrightarrow> 0 \<le> beamSize (opt d) \<and> (\<exists>b\<ge>0. beamThreshold (opt d) = Fin b) \<and> 0 \<le> maxOutputLength d \<and> am_shape (amUpdate d)"

definition s2s_throws :: "('o, 's, 'l, 'm, 'd) s2sDecoder_scheme \<Rightarrow> exn \<Rightarrow> bool" where
  "s2s_throws d e \<longleftrightarrow> lm_throws (lm d) e \<or> am_throws (amUpdate d) e"

text \<open>What a call changes of a decoder.\<close>

definition same_s2s :: "('o, 's, 'l, 'm, 'd) s2sDecoder_scheme \<Rightarrow> ('o, 's, 'l, 'm, 'd) s2sDecoder_scheme \<Rightarrow> bool" where
  "same_s2s d d' \<longleftrightarrow> (\<exists>h nb l m. d' = d\<lparr>hyp := h, nextBuf := nb, lmMem := l, amMem := m\<rparr>)"

lemma same_s2s_trans: "same_s2s d d' \<Longrightarrow> same_s2s d' d'' \<Longrightarrow> same_s2s d d''"
  unfolding same_s2s_def by fastforce

lemma same_s2s_sel:
  "same_s2s d d' \<Longrightarrow> opt d' = opt d \<and> lm d' = lm d \<and> eos d' = eos d \<and> amUpdate d' = amUpdate d \<and> maxOutputLength d' = maxOutputLength d"
  unfolding same_s2s_def by fastforce

text \<open>The maps of hypotheses between two calls.\<close>

definition s2s_wf :: "('o, 'z decoderState_scheme, 'l, 'm, 'd) s2sDecoder_scheme \<Rightarrow> bool" where
  "s2s_wf d \<longleftrightarrow> 0 < nextBuf d \<and> contig (hyp d) \<and> (\<forall>k. bid (hyp d) k < nextBuf d) \<and> int (length (hyp d)) \<le> maxOutputLength d + 2"

text \<open>The result that a chain of hypotheses gives: the slots in front of it are not written.\<close>

definition result_of :: "('o, 's, 'l, 'm, 'd) s2sDecoder_scheme \<Rightarrow> ('z s2sState_scheme \<Rightarrow> int) \<Rightarrow> 'z s2sState_scheme list \<Rightarrow> decodeResult" where
  "result_of d gw ss = (let pad = replicate (nat (maxOutputLength d + 3) - length ss) (-1) in
     \<lparr>resScore = score (last ss), resAmScore = Some (amScore (last ss)), resLmScore = Some (lmScore (last ss)),
      words = pad @ map gw ss, tokens = pad @ map token ss\<rparr>)"

lemma rbind_assoc: "rbind (rbind m f) g = rbind m (\<lambda>x. rbind (f x) g)"
  by (cases m) simp_all

locale s2s_search = state_order cmp
  for cmp :: "'z s2sState_scheme \<Rightarrow> 'z s2sState_scheme \<Rightarrow> int" +
  fixes start :: "lmStatePtr \<Rightarrow> 'z s2sState_scheme"
    and completed :: "int \<Rightarrow> 'z s2sState_scheme \<Rightarrow> hypPtr \<Rightarrow> 'z s2sState_scheme"
    and ext :: "('o s2sOptions_scheme, 'z s2sState_scheme, 'l, 'm, 'd) s2sDecoder_scheme \<Rightarrow> 'z s2sState_scheme \<Rightarrow> hypPtr \<Rightarrow> amStatePtr \<Rightarrow>
      nat \<Rightarrow> dbl \<Rightarrow> 'z s2sState_scheme cands \<times> 'l \<Rightarrow> ('z s2sState_scheme cands \<times> 'l) result"
    and link :: "('o s2sOptions_scheme, 'z s2sState_scheme, 'l, 'm, 'd) s2sDecoder_scheme \<Rightarrow> 'z s2sState_scheme \<Rightarrow> 'z s2sState_scheme \<Rightarrow> bool"
    and legal :: "('o s2sOptions_scheme, 'z s2sState_scheme, 'l, 'm, 'd) s2sDecoder_scheme \<Rightarrow> 'z s2sState_scheme \<Rightarrow> bool"
  assumes start_root: "parent (start ls) = None" "legal d (start ls)"
    and completed_link: "token s = eos d \<Longrightarrow> legal d s \<Longrightarrow> parent (completed (eos d) s p) = Some p \<and> link d s (completed (eos d) s p)"
    and ext_adds: "\<And>P. legal d prev \<Longrightarrow> token prev \<noteq> eos d \<Longrightarrow> am_gives (amUpdate d) a \<Longrightarrow>
      (\<And>s. parent s = Some ptr \<Longrightarrow> link d prev s \<Longrightarrow> P s) \<Longrightarrow>
      adds (beamThreshold (opt d)) P (lm_throws (lm d)) (ext d prev ptr st n a)"
    and legal_step: "legal d r \<Longrightarrow> link d r s \<Longrightarrow> legal d s" and legal_score: "legal d (s\<lparr>score := x\<rparr>) = legal d s"
    and same_legal: "same_s2s d d' \<Longrightarrow> legal d' = legal d \<and> link d' = link d"
begin

lemma expand_adds:
  assumes rows: "\<forall>r\<in>set amScores. length r = length (last amScores)" "\<forall>x\<in>set (concat amScores). am_gives (amUpdate d) x"
    and v: "length amScores = length outStates" "v + length (filter (\<lambda>(i, s). token s \<noteq> eos d) xs) = length outStates"
    and P: "\<And>i s c. (i, s) \<in> set xs \<Longrightarrow> legal d s \<and> (parent c = Some (b, i) \<longrightarrow> link d s c \<longrightarrow> P c)"
  shows "adds (beamThreshold (opt d)) P (lm_throws (lm d))
    (\<lambda>bcl. rbind (rfold (\<lambda>(i, s). s2s_expand completed ext d amScores outStates ((b, i), s)) xs (v, bcl)) (\<lambda>(_, bcl'). Inr bcl'))"
  using v(2) P
proof (induction xs arbitrary: v)
  case Nil
  then show ?case using adds_skip by (simp add: adds_def)
next
  case (Cons x xs)
  obtain i s where x: "x = (i, s)" by (cases x)
  let ?rest = "\<lambda>v bcl. rbind (rfold (\<lambda>(i, s). s2s_expand completed ext d amScores outStates ((b, i), s)) xs (v, bcl)) (\<lambda>(_, bcl'). Inr bcl')"
  have s: "legal d s" "\<And>c. parent c = Some (b, i) \<Longrightarrow> link d s c \<Longrightarrow> P c" using Cons.prems(2) [of i s] x by auto
  have IH: "adds (beamThreshold (opt d)) P (lm_throws (lm d)) (?rest v')" if "v' + length (filter (\<lambda>(i, s). token s \<noteq> eos d) xs) = length outStates" for v'
    using Cons.IH [of v', OF that] Cons.prems(2) by fastforce
  have split: "rbind (rfold (\<lambda>(i, s). s2s_expand completed ext d amScores outStates ((b, i), s)) (x # xs) (v, bcl)) (\<lambda>(_, bcl'). Inr bcl') =
      rbind (s2s_expand completed ext d amScores outStates ((b, i), s) (v, bcl)) (\<lambda>(v', bcl'). ?rest v' bcl')" for bcl
    by (cases "s2s_expand completed ext d amScores outStates ((b, i), s) (v, bcl)") (auto simp: x)
  consider "token s = eos d" | "token s \<noteq> eos d" "outStates ! v = None" | "token s \<noteq> eos d" "outStates ! v \<noteq> None" by blast
  then show ?case
  proof cases
    case 1
    have "P (completed (eos d) s (b, i))" using completed_link [OF 1 s(1)] s(2) by blast
    from adds_comp [OF adds_add [of P, OF this] IH [of v]] show ?thesis
      unfolding split using 1 Cons.prems(1) x by (simp add: s2s_expand_def)
  next
    case 2
    then have "v < length outStates" using Cons.prems(1) x by simp
    then show ?thesis unfolding split using 2 IH [of "Suc v"] Cons.prems(1) x by (simp add: s2s_expand_def)
  next
    case 3
    then have v': "v < length outStates" "v < length amScores" using Cons.prems(1) x v(1) by simp_all
    then have row: "amScores ! v \<in> set amScores" by simp
    then obtain ns where ns: "s2s_tokens (beamSizeToken (opt d)) (length (last amScores)) (amScores ! v) = Inr ns" "\<forall>n\<in>set ns. n < length (amScores ! v)"
      using s2s_tokens_ok rows(1) by blast
    have "am_gives (amUpdate d) (amScores ! v ! n)" if "n \<in> set ns" for n
      using rows(2) row ns(2) that by (auto intro: nth_mem)
    then have "adds (beamThreshold (opt d)) P (lm_throws (lm d)) (rfold (\<lambda>n. ext d s (b, i) (outStates ! v) n (amScores ! v ! n)) ns)"
      using ext_adds [OF s(1) 3(1)] s(2) by (intro adds_rfold) blast
    moreover have "adds (beamThreshold (opt d)) P (lm_throws (lm d)) (?rest (Suc v))" using IH [of "Suc v"] Cons.prems(1) 3(1) x by simp
    moreover have "s2s_expand completed ext d amScores outStates ((b, i), s) (v, bcl) =
        rbind (rfold (\<lambda>n. ext d s (b, i) (outStates ! v) n (amScores ! v ! n)) ns bcl) (\<lambda>bcl'. Inr (Suc v, bcl'))" for bcl
      using 3 v' ns(1) unfolding s2s_expand_def by (simp del: not_None_eq)
    ultimately show ?thesis unfolding split using adds_comp by (simp add: rbind_assoc)
  qed
qed

definition frame_inv :: "('o s2sOptions_scheme, 'z s2sState_scheme, 'l, 'm, 'd) s2sDecoder_scheme \<Rightarrow> int \<Rightarrow>
    ('o s2sOptions_scheme, 'z s2sState_scheme, 'l, 'm, 'd) s2sDecoder_scheme \<Rightarrow> bool" where
  "frame_inv d0 t d \<longleftrightarrow> same_s2s d0 d \<and> 0 < nextBuf d \<and> live (hyp d) t (nextBuf d) \<and> int (length (hyp d)) = maxOutputLength d0 + 2 \<and>
     (\<exists>ls. elems (hyp d) 0 = [start ls]) \<and> (\<forall>k\<in>{0..t}. \<forall>s\<in>set (elems (hyp d) k). legal d0 s) \<and>
     (\<forall>k\<in>{0..<t}. \<forall>s\<in>set (elems (hyp d) (k + 1)). \<exists>c. linked (hyp d) k (link d0) c \<and> s = c\<lparr>score := score s\<rparr>) \<and>
     (\<not> logAdd (opt d0) \<longrightarrow> (\<forall>k\<in>{0..<t}. \<forall>s\<in>set (elems (hyp d) (k + 1)). linked (hyp d) k (link d0) s)) \<and>
     (\<not> logAdd (opt d0) \<longrightarrow> (\<forall>k\<in>{0..t}. sorted_wrt (\<lambda>x y. score y \<le> score x) (elems (hyp d) k))) \<and>
     (\<forall>k\<in>{1..t}. int (length (elems (hyp d) k)) \<le> beamSize (opt d0))"

lemma linked_current: "k \<le> f \<Longrightarrow> linked (current f h) k Q s \<longleftrightarrow> linked h k Q s"
  by (simp add: linked_def elems_current)

lemma stored_length:
  assumes "candidatesStore cmp cs n thr la r = Inr outs" "0 \<le> n"
  shows "int (length outs) \<le> n"
  using assms by (auto simp: candidatesStore_def Let_def split: if_splits list.splits)

lemma frame_inv_legal: "frame_inv d0 t d \<Longrightarrow> 0 \<le> k \<Longrightarrow> k \<le> t \<Longrightarrow> s \<in> set (elems (hyp d) k) \<Longrightarrow> legal d0 s"
  by (simp add: frame_inv_def)

lemma frame_inv_links:
  assumes "frame_inv d0 t d" "0 \<le> k" "k < t" "s \<in> set (elems (hyp d) (k + 1))"
  shows "\<exists>c. linked (hyp d) k (link d0) c \<and> s = c\<lparr>score := score s\<rparr>" "\<not> logAdd (opt d0) \<Longrightarrow> linked (hyp d) k (link d0) s"
  using assms unfolding frame_inv_def by simp_all

lemma frame_inv_next:
  assumes inv: "frame_inv d0 t d" and t: "0 \<le> t" "t < maxOutputLength d0"
    and st: "stored (current t (hyp d)) t (link d0) (logAdd (opt d0)) outs"
    and outs: "\<not> logAdd (opt d0) \<longrightarrow> sorted_wrt (\<lambda>x y. score y \<le> score x) outs" "int (length outs) \<le> beamSize (opt d0)"
    and d': "d' = d\<lparr>hyp := put (t + 1) (nextBuf d, outs) (hyp d), nextBuf := Suc (nextBuf d), lmMem := l, amMem := m\<rparr>"
  shows "frame_inv d0 (t + 1) d'"
proof -
  let ?h = "hyp d" and ?h' = "put (t + 1) (nextBuf d, outs) (hyp d)"
  have same: "same_s2s d0 d" and nb: "0 < nextBuf d" and live: "live ?h t (nextBuf d)" and len: "int (length ?h) = maxOutputLength d0 + 2"
    and st0: "\<exists>ls. elems ?h 0 = [start ls]" using inv by (auto simp: frame_inv_def)
  have "same_s2s d d'" unfolding d' same_s2s_def by blast
  then have same': "same_s2s d0 d'" using same_s2s_trans same by blast
  have par: "\<forall>s\<in>set outs. \<exists>i<length (elems ?h t). parent s = Some (bid ?h t, i)"
    using stored_parent [OF st] by (simp add: elems_current)
  have live': "live ?h' (t + 1) (Suc (nextBuf d))" by (rule live_next [OF live _ nb par]) (use len t in simp)
  have "contig ?h" by (rule live_contig [OF live])
  then have present: "map_of ?h (t + 1) \<noteq> None" using contig_Some [of ?h "t + 1"] len t by auto
  have e: "elems ?h' k = (if k = t + 1 then outs else elems ?h k)" for k by (simp add: elems_put)
  have new: "\<exists>c. linked ?h t (link d0) c \<and> s = c\<lparr>score := score s\<rparr>" "\<not> logAdd (opt d0) \<longrightarrow> linked ?h t (link d0) s" if "s \<in> set outs" for s
    using st that by (auto simp: stored_def linked_current)
  have lp: "linked ?h' k (link d0) s \<longleftrightarrow> linked ?h k (link d0) s" if "k \<le> t" for k s by (rule linked_put [OF that])
  have legal: "legal d0 s" if k: "0 \<le> k" "k \<le> t + 1" and s: "s \<in> set (elems ?h' k)" for k s
  proof (cases "k = t + 1")
    case True
    then obtain c where c: "linked ?h t (link d0) c" "s = c\<lparr>score := score s\<rparr>" using s new(1) by (auto simp: e)
    then obtain r where "r \<in> set (elems ?h t)" "link d0 r c" using nth_mem unfolding linked_def by blast
    then have "legal d0 c" using frame_inv_legal [OF inv] t legal_step by blast
    then show ?thesis using c(2) legal_score by metis
  next
    case False
    then show ?thesis using frame_inv_legal [OF inv, of k s] k s by (simp add: e)
  qed
  have links: "\<exists>c. linked ?h' k (link d0) c \<and> s = c\<lparr>score := score s\<rparr>" "\<not> logAdd (opt d0) \<longrightarrow> linked ?h' k (link d0) s"
    if k: "0 \<le> k" "k < t + 1" and s: "s \<in> set (elems ?h' (k + 1))" for k s
  proof -
    have kt: "k \<le> t" using k by simp
    show "\<exists>c. linked ?h' k (link d0) c \<and> s = c\<lparr>score := score s\<rparr>" "\<not> logAdd (opt d0) \<longrightarrow> linked ?h' k (link d0) s"
      unfolding lp [OF kt] using s new [of s] frame_inv_links [OF inv k(1), of s] kt by (cases "k = t"; simp add: e)+
  qed
  have sorted: "\<not> logAdd (opt d0) \<Longrightarrow> 0 \<le> k \<Longrightarrow> k \<le> t + 1 \<Longrightarrow> sorted_wrt (\<lambda>x y. score y \<le> score x) (elems ?h' k)" for k
    using outs(1) inv by (simp add: e frame_inv_def)
  have size: "1 \<le> k \<Longrightarrow> k \<le> t + 1 \<Longrightarrow> int (length (elems ?h' k)) \<le> beamSize (opt d0)" for k
    using outs(2) inv by (simp add: e frame_inv_def)
  have "nextBuf d' = Suc (nextBuf d)" "hyp d' = ?h'" by (simp_all add: d')
  moreover have "\<exists>ls. elems ?h' 0 = [start ls]" using st0 t by (simp add: e)
  moreover have "int (length ?h') = maxOutputLength d0 + 2" using length_put_present [OF present] len by simp
  ultimately show ?thesis
    unfolding frame_inv_def using same' live' legal links sorted size by auto
qed

lemma s2s_frame_ok:
  assumes c: "s2s_config d0" and inv: "frame_inv d0 t d" and t: "0 \<le> t" "t < maxOutputLength d0"
  shows "case s2s_frame cmp completed ext emissions T N t d of
      Inl e \<Rightarrow> s2s_throws d0 e
    | Inr None \<Rightarrow> True
    | Inr (Some d') \<Rightarrow> frame_inv d0 (t + 1) d'"
proof -
  let ?h = "hyp d" and ?nb = "nextBuf d"
  let ?c = "current t ?h"
  have same: "same_s2s d0 d" and nb: "0 < ?nb" and live: "live ?h t ?nb" and len: "int (length ?h) = maxOutputLength d0 + 2"
    using inv by (auto simp: frame_inv_def)
  note sel = same_s2s_sel [OF same] and leg = same_legal [OF same]
  obtain b where b: "0 \<le> b" "beamThreshold (opt d) = Fin b" using c sel by (auto simp: s2s_config_def)
  have k: "0 \<le> beamSize (opt d)" using c sel by (simp add: s2s_config_def)
  have ok: "beam_ok ?c t ?nb" using live by (simp add: live_def)
  define ys where "ys = fst (raw_batch (eos d) (elems ?h t))"
  define sts where "sts = snd (raw_batch (eos d) (elems ?h t))"
  have ylen: "length ys = length (filter (\<lambda>(i, s). token s \<noteq> eos d) (enumerate 0 (elems ?h t)))"
  proof -
    have "length (filter P xs) = length (filter (\<lambda>(i, s). P s) (enumerate n xs))" for P and xs :: "'z s2sState_scheme list" and n
      by (induction xs arbitrary: n) auto
    then show ?thesis by (simp add: ys_def raw_batch_def Let_def)
  qed
  show ?thesis
  proof (cases "ys = []")
    case True
    then show ?thesis by (simp add: s2s_frame_def ys_def elems_def split_beta Let_def)
  next
    case False
    show ?thesis
    proof (cases "amUpdate d emissions N T ys sts t (amMem d)")
      case (Inl e)
      then have "am_throws (amUpdate d0) e" using sel unfolding am_throws_def by metis
      then show ?thesis using False Inl
        by (simp add: s2s_frame_def ys_def sts_def elems_def split_beta Let_def s2s_throws_def)
    next
      case (Inr r)
      obtain rows outs0 m where r: "amUpdate d emissions N T ys sts t (amMem d) = Inr ((rows, outs0), m)" using Inr by (cases r) auto
      have "am_shape (amUpdate d)" using c sel by (simp add: s2s_config_def)
      then have shape: "length rows = length ys" "length outs0 = length ys" "\<forall>r\<in>set rows. length r = length (last rows)"
        using r unfolding am_shape_def by metis+
      have gives: "\<forall>x\<in>set (concat rows). am_gives (amUpdate d) x" using r unfolding am_gives_def by metis
      have rows: "rows \<noteq> []" using shape(1) False by auto
      let ?F = "\<lambda>bcl. rbind (rfold (\<lambda>(i, s). s2s_expand completed ext d rows outs0 ((bid ?h t, i), s)) (enumerate 0 (elems ?h t)) (0, bcl)) (\<lambda>(_, bcl'). Inr bcl')"
      have adds: "adds (Fin b) (linked ?c t (link d)) (lm_throws (lm d)) ?F"
        unfolding b(2) [symmetric]
      proof (rule expand_adds [OF shape(3) gives])
        show "length rows = length outs0" "0 + length (filter (\<lambda>(i, s). token s \<noteq> eos d) (enumerate 0 (elems ?h t))) = length outs0"
          using shape ylen by simp_all
        fix i s cand assume "(i, s) \<in> set (enumerate 0 (elems ?h t))"
        then have i: "i < length (elems ?h t)" "s = elems ?h t ! i" by (auto simp: in_set_enumerate_eq)
        then have "legal d s" using frame_inv_legal [OF inv, of t s] t leg by simp
        then show "legal d s \<and> (parent cand = Some (bid ?h t, i) \<longrightarrow> link d s cand \<longrightarrow> linked ?c t (link d) cand)"
          using i by (auto simp: linked_def elems_current)
      qed
      have eq: "s2s_frame cmp completed ext emissions T N t d =
          rbind (?F (candidatesReset, lmMem d)) (\<lambda>((best, cs), l).
          rbind (candidatesStore cmp cs (beamSize (opt d)) (best - Fin b) (logAdd (opt d)) True) (\<lambda>outs.
          rbind (updateLMCache (lm d) outs l) (\<lambda>l'.
            Inr (Some (d\<lparr>hyp := put (t + 1) (?nb, outs) ?h, nextBuf := Suc ?nb, lmMem := l', amMem := m\<rparr>)))))"
        using False r rows b(2) unfolding s2s_frame_def Let_def
        by (simp add: ys_def sts_def elems_def bid_def case_prod_unfold rbind_assoc)
      show ?thesis
      proof (cases "?F (candidatesReset, lmMem d)")
        case (Inl e)
        then have "lm_throws (lm d0) e" using adds_throw [OF adds, of candidatesReset "lmMem d" e] sel by simp
        then show ?thesis unfolding eq Inl by (simp add: s2s_throws_def)
      next
        case (Inr q)
        obtain best cs l where q: "?F (candidatesReset, lmMem d) = Inr ((best, cs), l)" using Inr by (cases q) auto
        obtain outs where outs: "candidatesStore cmp cs (beamSize (opt d)) (best - Fin b) (logAdd (opt d)) True = Inr outs"
            "stored ?c t (link d) (logAdd (opt d)) outs" "\<not> logAdd (opt d) \<longrightarrow> sorted_wrt (\<lambda>x y. score y \<le> score x) outs"
          using next_frame [OF ok nb adds q b(1) k, of "logAdd (opt d)" True] by blast
        have eq': "s2s_frame cmp completed ext emissions T N t d = rbind (updateLMCache (lm d) outs l) (\<lambda>l'.
            Inr (Some (d\<lparr>hyp := put (t + 1) (?nb, outs) ?h, nextBuf := Suc ?nb, lmMem := l', amMem := m\<rparr>)))"
          unfolding eq q by (simp add: outs(1))
        show ?thesis
        proof (cases "updateLMCache (lm d) outs l")
          case (Inl e)
          then show ?thesis unfolding eq' using lm_throwsI(3) [of "lm d" _ l e] sel by (simp add: updateLMCache_def s2s_throws_def)
        next
          case (Inr l')
          have "frame_inv d0 (t + 1) (d\<lparr>hyp := put (t + 1) (?nb, outs) ?h, nextBuf := Suc ?nb, lmMem := l', amMem := m\<rparr>)"
            using outs(2,3) stored_length [OF outs(1) k] sel leg by (intro frame_inv_next [OF inv t _ _ _ refl]) simp_all
          then show ?thesis unfolding eq' Inr by simp
        qed
      qed
    qed
  qed
qed

lemma loop_ok:
  assumes c: "s2s_config d0"
  shows "frame_inv d0 t d \<Longrightarrow> 0 \<le> t \<Longrightarrow> t + int k \<le> maxOutputLength d0 \<Longrightarrow>
    case s2s_loop (s2s_frame cmp completed ext emissions T N) k t d of
      Inl e \<Rightarrow> s2s_throws d0 e
    | Inr (t', d') \<Rightarrow> 0 \<le> t' \<and> t' \<le> maxOutputLength d0 \<and> frame_inv d0 t' d'"
proof (induction k arbitrary: t d)
  case (Suc k)
  have t: "t < maxOutputLength d0" using Suc.prems by simp
  show ?case
  proof (cases "s2s_frame cmp completed ext emissions T N t d")
    case (Inl e)
    then show ?thesis using s2s_frame_ok [OF c Suc.prems(1,2) t, of emissions T N] by simp
  next
    case (Inr r)
    show ?thesis
    proof (cases r)
      case None
      then show ?thesis using Inr Suc.prems t by simp
    next
      case (Some d')
      then have "frame_inv d0 (t + 1) d'" using s2s_frame_ok [OF c Suc.prems(1,2) t, of emissions T N] Inr by simp
      then show ?thesis using Suc.IH [of "t + 1" d'] Suc.prems Inr Some by simp
    qed
  qed
qed simp

lemma frame_inv_start:
  assumes wf: "s2s_wf d" and m: "0 \<le> maxOutputLength d"
  shows "frame_inv d 0 (d\<lparr>hyp := put 0 (nextBuf d, [start ls]) (extend_hyp (nat (maxOutputLength d + 2)) (hyp d)),
    nextBuf := Suc (nextBuf d), lmMem := l\<rparr>)" (is "frame_inv d 0 ?d")
proof -
  let ?h = "extend_hyp (nat (maxOutputLength d + 2)) (hyp d)" and ?v = "(nextBuf d, [start ls])"
  have c: "contig (hyp d)" and lt: "\<And>k. bid (hyp d) k < nextBuf d" and nb: "0 < nextBuf d" using wf by (auto simp: s2s_wf_def)
  have len: "int (length ?h) = maxOutputLength d + 2" using wf m by (auto simp: length_extend [OF c] s2s_wf_def max_def)
  have ch: "contig ?h" by (rule contig_extend [OF c])
  have present: "map_of ?h 0 \<noteq> None" using contig_Some [OF ch, of 0] len m by auto
  have len': "int (length (put 0 ?v ?h)) = maxOutputLength d + 2" using length_put_present [OF present, of ?v] len by simp
  have b: "bid (put 0 ?v ?h) k = (if k = 0 then nextBuf d else bid (hyp d) k)" for k by (simp add: bid_def vec_put vec_extend [OF c])
  have e0: "elems (put 0 ?v ?h) 0 = [start ls]" by (simp add: elems_put)
  have "beam_ok (current 0 (put 0 ?v ?h)) 0 (Suc (nextBuf d))"
    unfolding beam_ok_def using contig_put [OF ch present, of ?v] len' m nb e0 start_root(1) [of ls] b [of 0]
    by (auto simp: elems_current vec_current)
  moreover have "bid (put 0 ?v ?h) k < Suc (nextBuf d)" for k using less_SucI [OF lt [of k]] by (simp add: b)
  moreover have "bid (put 0 ?v ?h) k \<noteq> bid (put 0 ?v ?h) 0" if "k > 0" for k using that lt [of k] by (simp add: b)
  ultimately have "live (put 0 ?v ?h) 0 (Suc (nextBuf d))" by (simp add: live_def)
  moreover have "same_s2s d ?d" unfolding same_s2s_def by (intro exI [of _ "hyp ?d"] exI [of _ "Suc (nextBuf d)"] exI [of _ l] exI [of _ "amMem d"]) simp
  ultimately show ?thesis
    unfolding frame_inv_def using len' e0 start_root(2) [of d ls] by auto
qed

text \<open>What a call of \<^verbatim>\<open>decodeStep\<close> leaves behind.\<close>

definition s2s_final :: "('o s2sOptions_scheme, 'z s2sState_scheme, 'l, 'm, 'd) s2sDecoder_scheme \<Rightarrow>
    ('o s2sOptions_scheme, 'z s2sState_scheme, 'l, 'm, 'd) s2sDecoder_scheme \<Rightarrow> bool" where
  "s2s_final d d' \<longleftrightarrow> same_s2s d d' \<and> s2s_wf d' \<and> int (length (hyp d')) = maxOutputLength d + 2 \<and>
     (\<exists>fin. map_of (hyp d') (maxOutputLength d + 1) = Some fin \<and> snd fin \<noteq> [] \<and> int (length (snd fin)) \<le> max 1 (beamSize (opt d)) \<and>
       (\<not> logAdd (opt d) \<longrightarrow> sorted_wrt (\<lambda>x y. score y \<le> score x) (snd fin)) \<and>
       (\<forall>s\<in>set (snd fin). \<exists>ss. history (hyp d') s ss \<and> int (length ss) \<le> maxOutputLength d + 1 \<and> (\<exists>ls. ss ! 0 = start ls) \<and>
          (\<forall>i. Suc i < length ss \<longrightarrow> (\<exists>c. link d (ss ! i) c \<and> ss ! Suc i = c\<lparr>score := score (ss ! Suc i)\<rparr>)) \<and>
          (\<not> logAdd (opt d) \<longrightarrow> (\<forall>i. Suc i < length ss \<longrightarrow> link d (ss ! i) (ss ! Suc i)))))"

lemma last_used_le: "last_used h n \<le> n"
  by (induction n) auto

lemma last_used_ne: "elems h 0 \<noteq> [] \<Longrightarrow> elems h (int (last_used h n)) \<noteq> []"
  by (induction n) (auto simp: elems_def)

lemma live_link:
  assumes l: "live h f nb" and k: "0 \<le> k" "k < f" "s \<in> set (elems h (k + 1))" and c: "linked h k Q c" "parent c = parent s"
    and p: "parent_of h s = Inr (Some r)"
  shows "Q r c"
proof -
  have ok: "beam_ok (current f h) f nb" using l by (simp add: live_def)
  have "parent_of (current f h) s = Inr (Some r)" using live_parent_of [OF l _ _ k(3)] k(1,2) p by simp
  then have "parent_of (current f h) c = Inr (Some r)" using c(2) by (simp add: parent_of_def)
  moreover have "linked (current f h) k Q c" using c(1) k(2) by (simp add: linked_current)
  ultimately show ?thesis using linked_parent [OF ok k(1)] k(2) by simp
qed

lemma frame_history:
  assumes inv: "frame_inv d t d2" and n: "int n \<le> t" and s: "s \<in> set (elems (hyp d2) (int n))"
    and l: "live h' t nb" and e: "\<And>k. k \<le> t \<Longrightarrow> vec h' k = vec (hyp d2) k"
  shows "\<exists>ss. history h' s ss \<and> length ss = Suc n \<and> (\<exists>ls. ss ! 0 = start ls) \<and>
    (\<forall>i. Suc i < length ss \<longrightarrow> (\<exists>c. link d (ss ! i) c \<and> ss ! Suc i = c\<lparr>score := score (ss ! Suc i)\<rparr>)) \<and>
    (\<not> logAdd (opt d) \<longrightarrow> (\<forall>i. Suc i < length ss \<longrightarrow> link d (ss ! i) (ss ! Suc i)))"
proof -
  let ?h = "hyp d2"
  have el: "elems h' k = elems ?h k" "bid h' k = bid ?h k" if "k \<le> t" for k using e [OF that] by (simp_all add: elems_def bid_def)
  obtain ss where ss: "history h' s ss" "length ss = Suc n" "\<forall>i\<le>n. ss ! i \<in> set (elems h' (int i))"
    using live_history [OF l n, of s] s el(1) [OF n] by auto
  have "ss ! 0 \<in> set (elems ?h 0)" using ss(3) [rule_format, of 0] n el(1) [of 0] by simp
  then have "\<exists>ls. ss ! 0 = start ls" using inv by (auto simp: frame_inv_def)
  moreover have "(\<exists>c. link d (ss ! i) c \<and> ss ! Suc i = c\<lparr>score := score (ss ! Suc i)\<rparr>) \<and> (\<not> logAdd (opt d) \<longrightarrow> link d (ss ! i) (ss ! Suc i))"
    if i: "Suc i < length ss" for i
  proof -
    have it: "0 \<le> int i" "int i < t" "int i \<le> t" "int i + 1 \<le> t" using i ss(2) n by auto
    have p: "parent_of h' (ss ! Suc i) = Inr (Some (ss ! i))" by (rule history_links [OF ss(1) i])
    have mem: "ss ! Suc i \<in> set (elems h' (int i + 1))" using ss(3) [rule_format, of "Suc i"] i ss(2) by (simp add: add.commute)
    have mem': "ss ! Suc i \<in> set (elems ?h (int i + 1))" using mem el(1) [OF it(4)] by simp
    have lk: "linked h' (int i) (link d) x \<longleftrightarrow> linked ?h (int i) (link d) x" for x using el [OF it(3)] by (simp add: linked_def)
    obtain c where c: "linked ?h (int i) (link d) c" "ss ! Suc i = c\<lparr>score := score (ss ! Suc i)\<rparr>"
      using frame_inv_links(1) [OF inv it(1,2) mem'] by blast
    have "parent (c\<lparr>score := score (ss ! Suc i)\<rparr>) = parent c" by simp
    then have "parent c = parent (ss ! Suc i)" using c(2) by metis
    then have "link d (ss ! i) c" using live_link [OF l it(1,2) mem _ _ p] c(1) lk by blast
    moreover have "link d (ss ! i) (ss ! Suc i)" if "\<not> logAdd (opt d)"
    proof -
      have "linked ?h (int i) (link d) (ss ! Suc i)" using frame_inv_links(2) [OF inv it(1,2) mem' that] .
      then show ?thesis using live_link [OF l it(1,2) mem _ refl p] lk by blast
    qed
    ultimately show ?thesis using c(2) by blast
  qed
  ultimately show ?thesis using ss(1,2) by blast
qed

lemma s2s_step_ok:
  assumes c: "s2s_config d" and wf: "s2s_wf d"
  shows "case s2s_decodeStep cmp start completed ext emissions T N d of Inl e \<Rightarrow> s2s_throws d e | Inr d' \<Rightarrow> s2s_final d d'"
proof -
  let ?M = "maxOutputLength d"
  obtain ls l where ls: "lm_start (lm d) False (lmMem d) = (ls, l)" by fastforce
  define d1 where "d1 = d\<lparr>hyp := put 0 (nextBuf d, [start ls]) (extend_hyp (nat (?M + 2)) (hyp d)), nextBuf := Suc (nextBuf d), lmMem := l\<rparr>"
  have M: "0 \<le> ?M" using c by (simp add: s2s_config_def)
  have "frame_inv d 0 d1" unfolding d1_def by (rule frame_inv_start [OF wf M])
  note loop = loop_ok [OF c this, of "nat ?M" emissions T N]
  have eq: "s2s_decodeStep cmp start completed ext emissions T N d =
      rbind (s2s_loop (s2s_frame cmp completed ext emissions T N) (nat ?M) 0 d1) (\<lambda>(t, d2).
        let t' = int (last_used (hyp d2) (nat t)) in
        Inr (d2\<lparr>hyp := put (?M + 1) (nextBuf d2, elems (hyp d2) t') (hyp d2), nextBuf := Suc (nextBuf d2)\<rparr>))"
    by (simp add: s2s_decodeStep_def Let_def ls d1_def elems_def)
  show ?thesis
  proof (cases "s2s_loop (s2s_frame cmp completed ext emissions T N) (nat ?M) 0 d1")
    case (Inl e)
    then show ?thesis using loop M eq by simp
  next
    case (Inr r)
    obtain t d2 where r: "r = (t, d2)" by (cases r)
    have t: "0 \<le> t" "t \<le> ?M" and inv: "frame_inv d t d2" using loop M Inr r by auto
    define n where "n = last_used (hyp d2) (nat t)"
    let ?h' = "put (?M + 1) (nextBuf d2, elems (hyp d2) (int n)) (hyp d2)"
    let ?d' = "d2\<lparr>hyp := ?h', nextBuf := Suc (nextBuf d2)\<rparr>"
    have res: "s2s_decodeStep cmp start completed ext emissions T N d = Inr ?d'" using eq Inr r by (simp add: n_def Let_def)
    have nt: "int n \<le> t" using last_used_le [of "hyp d2" "nat t"] t(1) by (simp add: n_def)
    have live: "live (hyp d2) t (nextBuf d2)" and len: "int (length (hyp d2)) = ?M + 2" and same: "same_s2s d d2" and nb: "0 < nextBuf d2"
      using inv by (auto simp: frame_inv_def)
    have live': "live ?h' t (Suc (nextBuf d2))" by (rule live_put_late [OF live]) (use t len in simp_all)
    have "contig (hyp d2)" by (rule live_contig [OF live])
    then have present: "map_of (hyp d2) (?M + 1) \<noteq> None" using contig_Some [of "hyp d2" "?M + 1"] len M by auto
    have len': "int (length ?h') = ?M + 2" using length_put_present [OF present] len by simp
    have ne: "elems (hyp d2) (int n) \<noteq> []" unfolding n_def by (rule last_used_ne) (use inv in \<open>auto simp: frame_inv_def\<close>)
    have size: "int (length (elems (hyp d2) (int n))) \<le> max 1 (beamSize (opt d))"
    proof (cases "n = 0")
      case True
      then show ?thesis using inv by (auto simp: frame_inv_def)
    next
      case False
      then have "int n \<in> {1..t}" using nt by auto
      then have "int (length (elems (hyp d2) (int n))) \<le> beamSize (opt d)" using inv unfolding frame_inv_def by blast
      then show ?thesis by simp
    qed
    have sorted: "\<not> logAdd (opt d) \<longrightarrow> sorted_wrt (\<lambda>x y. score y \<le> score x) (elems (hyp d2) (int n))" using inv nt by (auto simp: frame_inv_def)
    have v: "vec ?h' k = vec (hyp d2) k" if "k \<le> t" for k using that t(2) by (simp add: vec_put)
    have hist: "\<exists>ss. history ?h' s ss \<and> int (length ss) \<le> ?M + 1 \<and> (\<exists>ls. ss ! 0 = start ls) \<and>
        (\<forall>i. Suc i < length ss \<longrightarrow> (\<exists>c. link d (ss ! i) c \<and> ss ! Suc i = c\<lparr>score := score (ss ! Suc i)\<rparr>)) \<and>
        (\<not> logAdd (opt d) \<longrightarrow> (\<forall>i. Suc i < length ss \<longrightarrow> link d (ss ! i) (ss ! Suc i)))" if s: "s \<in> set (elems (hyp d2) (int n))" for s
    proof -
      obtain ss where "history ?h' s ss" "length ss = Suc n" "\<exists>ls. ss ! 0 = start ls"
          "\<forall>i. Suc i < length ss \<longrightarrow> (\<exists>c. link d (ss ! i) c \<and> ss ! Suc i = c\<lparr>score := score (ss ! Suc i)\<rparr>)"
          "\<not> logAdd (opt d) \<longrightarrow> (\<forall>i. Suc i < length ss \<longrightarrow> link d (ss ! i) (ss ! Suc i))"
        using frame_history [OF inv nt s live' v] by blast
      moreover have "int (Suc n) \<le> ?M + 1" using nt t(2) by simp
      ultimately show ?thesis by (intro exI [of _ ss]) simp
    qed
    have "same_s2s d2 ?d'" unfolding same_s2s_def by (intro exI [of _ ?h'] exI [of _ "Suc (nextBuf d2)"] exI [of _ "lmMem d2"] exI [of _ "amMem d2"]) simp
    then have same': "same_s2s d ?d'" using same_s2s_trans same by blast
    have "s2s_wf ?d'" using live_contig [OF live'] live' len' same_s2s_sel [OF same] by (simp add: s2s_wf_def live_def)
    moreover have "map_of ?h' (?M + 1) = Some (nextBuf d2, elems (hyp d2) (int n))" by (simp add: map_of_put)
    ultimately show ?thesis unfolding res s2s_final_def using same' len' ne size sorted hist by simp
  qed
qed

subsection \<open>Results\<close>

definition s2s_chain :: "('o s2sOptions_scheme, 'z s2sState_scheme, 'l, 'm, 'd) s2sDecoder_scheme \<Rightarrow> 'z s2sState_scheme list \<Rightarrow> bool" where
  "s2s_chain d ss \<longleftrightarrow> ss \<noteq> [] \<and> int (length ss) \<le> maxOutputLength d + 1 \<and> (\<exists>ls. ss ! 0 = start ls) \<and>
     (\<forall>i. Suc i < length ss \<longrightarrow> (\<exists>c. link d (ss ! i) c \<and> ss ! Suc i = c\<lparr>score := score (ss ! Suc i)\<rparr>)) \<and>
     (\<not> logAdd (opt d) \<longrightarrow> (\<forall>i. Suc i < length ss \<longrightarrow> link d (ss ! i) (ss ! Suc i)))"

lemma results_ok:
  assumes f: "s2s_final d d'" and c: "s2s_config d"
  shows "\<exists>rs. s2s_getAllFinalHypothesis gw d' = Inr rs \<and> rs \<noteq> [] \<and> s2s_getBestHypothesis gw d' = Inr (hd rs) \<and>
    int (length rs) \<le> max 1 (beamSize (opt d)) \<and> (\<not> logAdd (opt d) \<longrightarrow> sorted_wrt (\<lambda>x y. resScore y \<le> resScore x) rs) \<and>
    (\<forall>r\<in>set rs. \<exists>ss. s2s_chain d ss \<and> r = result_of d gw ss)"
proof -
  let ?M = "maxOutputLength d"
  obtain v where v: "map_of (hyp d') (?M + 1) = Some v" "snd v \<noteq> []" "int (length (snd v)) \<le> max 1 (beamSize (opt d))"
      "\<not> logAdd (opt d) \<longrightarrow> sorted_wrt (\<lambda>x y. score y \<le> score x) (snd v)"
      "\<forall>s\<in>set (snd v). \<exists>ss. history (hyp d') s ss \<and> int (length ss) \<le> ?M + 1 \<and> (\<exists>ls. ss ! 0 = start ls) \<and>
          (\<forall>i. Suc i < length ss \<longrightarrow> (\<exists>c. link d (ss ! i) c \<and> ss ! Suc i = c\<lparr>score := score (ss ! Suc i)\<rparr>)) \<and>
          (\<not> logAdd (opt d) \<longrightarrow> (\<forall>i. Suc i < length ss \<longrightarrow> link d (ss ! i) (ss ! Suc i)))"
    using f unfolding s2s_final_def by blast
  define fin where "fin = snd v"
  have chain: "\<exists>ss. history (hyp d') s ss \<and> s2s_chain d ss" if "s \<in> set fin" for s
    using v(5) [folded fin_def, rule_format, OF that] history_last unfolding s2s_chain_def by blast
  have M: "maxOutputLength d' = ?M" "0 \<le> ?M" and len: "int (length (hyp d')) = ?M + 2"
    using f c same_s2s_sel [of d d'] by (auto simp: s2s_final_def s2s_config_def)
  obtain g where g: "\<And>s. s \<in> set fin \<Longrightarrow> history (hyp d') s (g s) \<and> s2s_chain d (g s)" using chain by metis
  have one: "getHypothesis (hyp d') gw (Some s) (int (length (hyp d'))) = Inr (result_of d gw (g s))" "resScore (result_of d gw (g s)) = score s"
    if "s \<in> set fin" for s
  proof -
    have h: "history (hyp d') s (g s)" "int (length (g s)) \<le> ?M + 1" "last (g s) = s"
      using g [OF that] history_last by (auto simp: s2s_chain_def)
    have "nat (int (length (hyp d')) + 1) = nat (?M + 3)" using len by simp
    then show "getHypothesis (hyp d') gw (Some s) (int (length (hyp d'))) = Inr (result_of d gw (g s))"
      using getHypothesis_padded [OF h(1), of "int (length (hyp d'))" gw] h(2,3) len by (simp add: result_of_def Let_def)
    show "resScore (result_of d gw (g s)) = score s" using h(3) by (simp add: result_of_def Let_def)
  qed
  let ?rs = "map (\<lambda>s. result_of d gw (g s)) fin"
  have ff: "find_frame (hyp d') (maxOutputLength d' + 1) = Inr fin" using v(1) M(1) by (simp add: find_frame_def fin_def)
  have "getAllHypothesis (hyp d') gw fin (int (length (hyp d'))) = Inr ?rs"
    unfolding getAllHypothesis_def using one(1) by (intro rmap_Inr_map)
  then have "s2s_getAllFinalHypothesis gw d' = Inr ?rs" using ff by (simp add: s2s_getAllFinalHypothesis_def)
  moreover have "s2s_getBestHypothesis gw d' = Inr (hd ?rs)" using ff v(2) [folded fin_def] one(1) by (cases fin) (auto simp: s2s_getBestHypothesis_def)
  moreover have "sorted_wrt (\<lambda>x y. resScore y \<le> resScore x) ?rs" if "\<not> logAdd (opt d)"
    using v(4) [folded fin_def] that one(2) unfolding sorted_wrt_map by (auto intro: sorted_wrt_mono_rel [rotated])
  ultimately show ?thesis using v(2,3) [folded fin_def] g by (intro exI [of _ ?rs]) auto
qed

text \<open>The form in which the two decoders use the contract.\<close>

lemma decode_results:
  assumes c: "s2s_config d" "s2s_wf d" and la: "\<not> logAdd (opt d)" and Q: "\<And>ss. s2s_chain d ss \<Longrightarrow> Q (result_of d gw ss)"
  shows "case s2s_decodeStep cmp start completed ext emissions T N d of
      Inl e \<Rightarrow> s2s_throws d e
    | Inr d' \<Rightarrow> \<exists>rs. s2s_getAllFinalHypothesis gw d' = Inr rs \<and> rs \<noteq> [] \<and> s2s_getBestHypothesis gw d' = Inr (hd rs) \<and>
        int (length rs) \<le> max 1 (beamSize (opt d)) \<and> sorted_wrt (\<lambda>x y. resScore y \<le> resScore x) rs \<and> (\<forall>r\<in>set rs. Q r)"
proof (cases "s2s_decodeStep cmp start completed ext emissions T N d")
  case (Inl e)
  then show ?thesis using s2s_step_ok [of d emissions T N] c by simp
next
  case (Inr d')
  then have "s2s_final d d'" using s2s_step_ok [of d emissions T N] c by simp
  from results_ok [OF this c(1), of gw] la Q show ?thesis unfolding Inr by fastforce
qed

lemma decodeStep_wf:
  assumes "s2s_config d" "s2s_wf d" "s2s_decodeStep cmp start completed ext emissions T N d = Inr d'"
  shows "same_s2s d d' \<and> s2s_config d' \<and> s2s_wf d'"
proof -
  have "s2s_final d d'" using s2s_step_ok [of d emissions T N] assms by simp
  then show ?thesis using same_s2s_sel [of d d'] assms(1) by (auto simp: s2s_final_def s2s_config_def)
qed

end

lemma fresh_s2s_wf: "s2s_config d \<Longrightarrow> hyp d = [] \<Longrightarrow> 0 < nextBuf d \<Longrightarrow> s2s_wf d"
  by (auto simp: s2s_wf_def s2s_config_def contig_def bid_def vec_def)

definition finite_model :: "('o s2sOptions_scheme, 's, 'l, 'm, 'd) s2sDecoder_scheme \<Rightarrow> bool" where
  "finite_model d \<longleftrightarrow> (\<exists>r. lmWeight (opt d) = Fin r) \<and> (\<exists>r. eosScore (opt d) = Fin r) \<and>
     (\<forall>x. lm_gives (lm d) x \<or> am_gives (amUpdate d) x \<longrightarrow> (\<exists>r. x = Fin r))"

text \<open>A callback over two tokens, of which the second is the end token.\<close>

definition two_tokens :: "unit amUpdateFunc" where
  "two_tokens em N T ys ss t m = Inr ((map (\<lambda>_. [Fin 0, Fin 1]) ys, map (\<lambda>_. Some 0) ys), m)"

lemma two_tokens_shape: "am_shape two_tokens"
proof -
  have "length (last (map (\<lambda>_. [Fin 0, Fin 1]) ys)) = 2" if "r \<in> set ys" for ys :: "int list" and r
    using that by (cases ys rule: rev_cases) auto
  then show ?thesis by (auto simp: am_shape_def two_tokens_def)
qed

lemma two_tokens_gives: "am_gives two_tokens x \<Longrightarrow> \<exists>r. x = Fin r"
  by (auto simp: am_gives_def two_tokens_def)

lemma zeroLM_gives: "lm_gives zeroLM x \<Longrightarrow> \<exists>r. x = Fin r"
  by (auto simp: lm_gives_def zeroLM_def rbind_eq_Inr_iff zero_dbl_def)

lemma extend_three: "extend_hyp 3 [] = [(0, 0, []), (1, 0, []), (2, 0, [])]"
  by (simp add: extend_hyp_def touch_def numeral_3_eq_3)

end
