(* ===== verification/LexiconFreeSeq2Seq.thy ===== *)
theory LexiconFreeSeq2Seq
  imports Seq2SeqTheorems
begin

section \<open>The lexicon-free sequence-to-sequence decoder (\<^verbatim>\<open>lib/text/decoder/LexiconFreeSeq2SeqDecoder.h\<close>, \<^verbatim>\<open>.cpp\<close>)\<close>

text \<open>
  The parts of the search that are particular to this decoder, its interpretation of the contract \<open>s2s_search\<close>, and the
  meaning of its results.
\<close>

type_synonym ('l, 'm) lfs2sDecoder = "(s2sOptions, s2sState, 'l, 'm) s2sDecoder"

definition compareNoScoreStates :: "s2sState \<Rightarrow> s2sState \<Rightarrow> int" where
  "compareNoScoreStates this node = (case compare (lmState this) (Some (lmState node)) of Inl e \<Rightarrow> 0 | Inr c \<Rightarrow> c)"

definition getWord :: "s2sState \<Rightarrow> int" where
  "getWord s = -1"

definition new_state :: "dbl \<Rightarrow> lmStatePtr \<Rightarrow> hypPtr option \<Rightarrow> int \<Rightarrow> amStatePtr \<Rightarrow> dbl \<Rightarrow> dbl \<Rightarrow> s2sState" where
  "new_state sc ls par tok ams am lms =
     \<lparr>score = sc, lmState = ls, parent = par, token = tok, amScore = am, lmScore = lms, amState = ams\<rparr>"

definition start :: "lmStatePtr \<Rightarrow> s2sState" where
  "start ls = new_state 0 ls None (-1) None 0 0"

definition completed :: "int \<Rightarrow> s2sState \<Rightarrow> hypPtr \<Rightarrow> s2sState" where
  "completed e prevHyp ptr = new_state (score prevHyp) (lmState prevHyp) (Some ptr) e None (amScore prevHyp) (lmScore prevHyp)"

definition ext :: "('l, 'm) lfs2sDecoder \<Rightarrow> s2sState \<Rightarrow> hypPtr \<Rightarrow> amStatePtr \<Rightarrow> nat \<Rightarrow> dbl \<Rightarrow> s2sState cands \<times> 'l \<Rightarrow> (s2sState cands \<times> 'l) result" where
  "ext d prevHyp ptr outState n am = (\<lambda>(bc, l).
     if int n = eos d
     then rbind (lm_finish (lm d) (lmState prevHyp) l) (\<lambda>((ls, x), l').
       Inr (candidatesAdd (beamThreshold (opt d))
         (new_state (score prevHyp + am + eosScore (opt d) + lmWeight (opt d) * x) ls (Some ptr) (int n) None
            (amScore prevHyp + am) (lmScore prevHyp + x)) bc, l'))
     else rbind (lm_score (lm d) (lmState prevHyp) (int n) l) (\<lambda>((ls, x), l').
       Inr (candidatesAdd (beamThreshold (opt d))
         (new_state (score prevHyp + am + lmWeight (opt d) * x) ls (Some ptr) (int n) outState
            (amScore prevHyp + am) (lmScore prevHyp + x)) bc, l')))"

definition decodeStep :: "dbl list \<Rightarrow> int \<Rightarrow> int \<Rightarrow> ('l, 'm) lfs2sDecoder \<Rightarrow> ('l, 'm) lfs2sDecoder result" where
  "decodeStep emissions T N d = s2s_decodeStep compareNoScoreStates start completed ext emissions T N d"

definition getAllFinalHypothesis :: "('l, 'm) lfs2sDecoder \<Rightarrow> decodeResult list result" where
  "getAllFinalHypothesis d = s2s_getAllFinalHypothesis getWord d"

definition getBestHypothesis :: "int \<Rightarrow> ('l, 'm) lfs2sDecoder \<Rightarrow> decodeResult result" where
  "getBestHypothesis lookBack d = s2s_getBestHypothesis getWord d"

definition prune :: "int \<Rightarrow> ('l, 'm) lfs2sDecoder \<Rightarrow> ('l, 'm) lfs2sDecoder" where
  "prune lookBack d = d"

definition nDecodedFramesInBuffer :: "('l, 'm) lfs2sDecoder \<Rightarrow> int" where
  "nDecodedFramesInBuffer d = -1"

subsection \<open>The contract of the search\<close>

definition link :: "('l, 'm) lfs2sDecoder \<Rightarrow> s2sState \<Rightarrow> s2sState \<Rightarrow> bool" where
  "link d prev s \<longleftrightarrow>
     (if token prev = eos d
      then token s = eos d \<and> score s = score prev \<and> amScore s = amScore prev \<and> lmScore s = lmScore prev
      else \<exists>a x. am_gives (amUpdate d) a \<and> lm_gives (lm d) x \<and> amScore s = amScore prev + a \<and> lmScore s = lmScore prev + x \<and>
        score s = (if token s = eos d then score prev + a + eosScore (opt d) + lmWeight (opt d) * x else score prev + a + lmWeight (opt d) * x))"

lemma s2s_ext_adds:
  assumes "token prev \<noteq> eos d" "am_gives (amUpdate d) a" and P: "\<And>s. parent s = Some ptr \<Longrightarrow> link d prev s \<Longrightarrow> P s"
  shows "adds (beamThreshold (opt d)) P (lm_throws (lm d)) (ext d prev ptr st n a)"
proof (rule addsI)
  fix bc l e assume "ext d prev ptr st n a (bc, l) = Inl e"
  then show "lm_throws (lm d) e" by (auto simp: ext_def rbind_eq_Inl_iff intro: lm_throwsI split: if_splits)
next
  fix bc l bc' l' assume e: "ext d prev ptr st n a (bc, l) = Inr (bc', l')"
  obtain x s where x: "lm_gives (lm d) x" "bc' = candidatesAdd (beamThreshold (opt d)) s bc" "parent s = Some ptr"
      "token s = int n" "amScore s = amScore prev + a" "lmScore s = lmScore prev + x"
      "score s = (if int n = eos d then score prev + a + eosScore (opt d) + lmWeight (opt d) * x else score prev + a + lmWeight (opt d) * x)"
    using e by (auto simp: ext_def rbind_eq_Inr_iff new_state_def dest: lm_gives_finish lm_gives_score split: if_splits)
  have "link d prev s" unfolding link_def using assms(1,2) x by auto
  then show "\<exists>ps. bc' = fold (candidatesAdd (beamThreshold (opt d))) ps bc \<and> (\<forall>p\<in>set ps. P p)"
    using x(2,3) P by (intro exI [of _ "[s]"]) simp
qed

interpretation lfs: s2s_search compareNoScoreStates start completed ext link "\<lambda>_ _. True"
proof
  fix x y z :: s2sState and s
  show "compareNoScoreStates y x = - compareNoScoreStates x y" by (auto simp: compareNoScoreStates_def compare_def)
  show "0 \<le> compareNoScoreStates x y \<Longrightarrow> 0 \<le> compareNoScoreStates y z \<Longrightarrow> 0 \<le> compareNoScoreStates x z"
    by (auto simp: compareNoScoreStates_def compare_def split: if_splits)
  show "compareNoScoreStates (x\<lparr>score := s\<rparr>) y = compareNoScoreStates x y" by (simp add: compareNoScoreStates_def)
next
  show "parent (start ls) = None" for ls by (simp add: start_def new_state_def)
  show "parent (completed (eos d) s p) = Some p \<and> link d s (completed (eos d) s p)" if "token s = eos d" for s p and d :: "('a, 'b) lfs2sDecoder"
    using that by (simp add: completed_def new_state_def link_def)
  show "(\<lambda>_. True) = (\<lambda>_. True) \<and> link d' = link d" if "same_s2s d d'" for d d' :: "('a, 'b) lfs2sDecoder"
    using same_s2s_sel [OF that] by (intro conjI refl HOL.ext) (simp add: link_def)
qed (simp_all add: s2s_ext_adds)

subsection \<open>Results\<close>

text \<open>A sequence of tokens in which nothing but the end token follows the end token.\<close>

definition ends_with :: "int \<Rightarrow> int list \<Rightarrow> bool" where
  "ends_with e ts \<longleftrightarrow> (\<exists>ys j. ts = ys @ replicate j e \<and> e \<notin> set ys)"

lemma ends_withI:
  assumes "\<And>i. Suc i < length ts \<Longrightarrow> ts ! i = e \<Longrightarrow> ts ! Suc i = e"
  shows "ends_with e ts"
  using assms
proof (induction ts)
  case Nil
  then show ?case by (simp add: ends_with_def)
next
  case (Cons t ts)
  have "ends_with e ts"
  proof (rule Cons.IH)
    fix i assume "Suc i < length ts" "ts ! i = e"
    then show "ts ! Suc i = e" using Cons.prems [of "Suc i"] by simp
  qed
  then obtain ys j where ys: "ts = ys @ replicate j e" "e \<notin> set ys" by (auto simp: ends_with_def)
  show ?case
  proof (cases "t = e")
    case True
    then have "ys = []" using Cons.prems [of 0] ys by (cases ys) auto
    then have "t # ts = [] @ replicate (Suc j) e" using True ys(1) by simp
    then show ?thesis unfolding ends_with_def by (intro exI [of _ "[]"] exI [of _ "Suc j"]) simp
  next
    case False
    then show ?thesis using ys by (auto simp: ends_with_def intro!: exI [of _ "t # ys"])
  qed
qed

definition s2s_sum :: "('l, 'm) lfs2sDecoder \<Rightarrow> s2sState \<Rightarrow> bool" where
  "s2s_sum d s \<longleftrightarrow> (\<exists>a m. amScore s = Fin a \<and> lmScore s = Fin m \<and>
     score s = Fin (a + the_fin (lmWeight (opt d)) * m + (if token s = eos d then the_fin (eosScore (opt d)) else 0)))"

lemma link_sum:
  assumes f: "finite_model d" and l: "link d r s" and sum: "s2s_sum d r"
  shows "s2s_sum d s"
proof (cases "token r = eos d")
  case True
  then show ?thesis using l sum by (simp add: link_def s2s_sum_def)
next
  case False
  obtain w z where w: "lmWeight (opt d) = Fin w" "eosScore (opt d) = Fin z" using f by (auto simp: finite_model_def)
  obtain a m where r: "amScore r = Fin a" "lmScore r = Fin m" "score r = Fin (a + w * m)" using sum False w by (auto simp: s2s_sum_def)
  obtain b x where x: "am_gives (amUpdate d) b" "lm_gives (lm d) x" "amScore s = amScore r + b" "lmScore s = lmScore r + x"
      "score s = (if token s = eos d then score r + b + eosScore (opt d) + lmWeight (opt d) * x else score r + b + lmWeight (opt d) * x)"
    using l False unfolding link_def by auto
  obtain b' x' where "b = Fin b'" "x = Fin x'" using f x(1,2) unfolding finite_model_def by blast
  then show ?thesis unfolding s2s_sum_def using x(3-5) r w
    by (intro exI [of _ "a + b'"] exI [of _ "m + x'"]) (auto simp: algebra_simps)
qed

text \<open>The states that a decoder can be in: fresh, or after calls of \<^verbatim>\<open>decodeStep\<close>.\<close>

inductive lfs_reach :: "('l, 'm) lfs2sDecoder \<Rightarrow> bool" where
  lfs_new: "s2s_config d \<Longrightarrow> eos d \<noteq> -1 \<Longrightarrow> hyp d = [] \<Longrightarrow> 0 < nextBuf d \<Longrightarrow> lfs_reach d"
| lfs_step: "lfs_reach d \<Longrightarrow> decodeStep emissions T N d = Inr d' \<Longrightarrow> lfs_reach d'"

lemma lfs_reach_wf: "lfs_reach d \<Longrightarrow> s2s_config d \<and> s2s_wf d \<and> eos d \<noteq> -1"
proof (induction rule: lfs_reach.induct)
  case (lfs_new d)
  then show ?case using fresh_s2s_wf by blast
next
  case (lfs_step d emissions T N d')
  then show ?case using lfs.decodeStep_wf [of d emissions T N d'] same_s2s_sel [of d d'] by (simp add: decodeStep_def)
qed

text \<open>
  What a result says: behind unused slots and the initial token there are at most \<^verbatim>\<open>maxOutputLength\<close> tokens, the end token only at
  the end, and the score is the objective of the class comment.
\<close>

definition s2s_result :: "('l, 'm) lfs2sDecoder \<Rightarrow> decodeResult \<Rightarrow> bool" where
  "s2s_result d r \<longleftrightarrow> (\<exists>k toks a m. tokens r = replicate k (-1) @ -1 # toks \<and> int (length toks) \<le> maxOutputLength d \<and> ends_with (eos d) toks \<and>
     resAmScore r = Some (Fin a) \<and> resLmScore r = Some (Fin m) \<and>
     resScore r = Fin (a + the_fin (lmWeight (opt d)) * m + (if eos d \<in> set toks then the_fin (eosScore (opt d)) else 0)))"

lemma s2s_resultI:
  assumes "tokens r = replicate k (-1) @ -1 # toks" "int (length toks) \<le> maxOutputLength d" "ends_with (eos d) toks"
    "resAmScore r = Some (Fin a)" "resLmScore r = Some (Fin m)"
    "resScore r = Fin (a + the_fin (lmWeight (opt d)) * m + (if eos d \<in> set toks then the_fin (eosScore (opt d)) else 0))"
  shows "s2s_result d r"
  using assms unfolding s2s_result_def by blast

lemma s2s_chain_result:
  assumes f: "finite_model d" and la: "\<not> logAdd (opt d)" and e: "eos d \<noteq> -1" and c: "lfs.s2s_chain d ss"
  shows "s2s_result d (result_of d getWord ss)"
proof -
  have links: "\<And>i. Suc i < length ss \<Longrightarrow> link d (ss ! i) (ss ! Suc i)" and ne: "ss \<noteq> []" and len: "int (length ss) \<le> maxOutputLength d + 1"
    using c la by (auto simp: lfs.s2s_chain_def)
  obtain ls where ls: "ss ! 0 = start ls" using c by (auto simp: lfs.s2s_chain_def)
  have sum: "i < length ss \<Longrightarrow> s2s_sum d (ss ! i)" for i
  proof (induction i)
    case 0
    then show ?case using ls e by (simp add: s2s_sum_def start_def new_state_def zero_dbl_def)
  next
    case (Suc i)
    then show ?case using link_sum [OF f links [OF Suc.prems]] by simp
  qed
  let ?t = "map token ss"
  have "token (ss ! Suc i) = eos d" if "Suc i < length ss" "token (ss ! i) = eos d" for i
    using links [OF that(1)] that(2) by (simp add: link_def)
  then have ends: "ends_with (eos d) (tl ?t)" by (intro ends_withI) (auto simp: nth_tl)
  have t: "?t = -1 # tl ?t" using ls ne by (cases ss) (auto simp: start_def new_state_def)
  have "token (last ss) = eos d \<longleftrightarrow> eos d \<in> set (tl ?t)"
  proof
    assume l: "token (last ss) = eos d"
    then have "last ?t = eos d" using ne by (simp add: last_map)
    moreover have "tl ?t \<noteq> []" using calculation t e by (metis last.simps list.sel(3))
    then have "last ?t \<in> set (tl ?t)" by (metis last_in_set last_tl)
    ultimately show "eos d \<in> set (tl ?t)" by simp
  next
    assume m: "eos d \<in> set (tl ?t)"
    obtain ys j where ys: "tl ?t = ys @ replicate j (eos d)" "eos d \<notin> set ys" using ends by (auto simp: ends_with_def)
    have "0 < j" using m ys by (cases j) auto
    then have "last (tl ?t) = eos d" using ys(1) by simp
    then have "last ?t = eos d" using m by (metis last_tl list.set_cases list.distinct(1))
    then show "token (last ss) = eos d" using ne by (simp add: last_map)
  qed
  moreover have "s2s_sum d (last ss)" using sum [of "length ss - 1"] ne by (simp add: last_conv_nth)
  then obtain a m where am: "amScore (last ss) = Fin a" "lmScore (last ss) = Fin m"
      "score (last ss) = Fin (a + the_fin (lmWeight (opt d)) * m + (if token (last ss) = eos d then the_fin (eosScore (opt d)) else 0))"
    by (auto simp: s2s_sum_def)
  moreover have "int (length (tl ?t)) \<le> maxOutputLength d" using len ne by (cases ss) auto
  ultimately show ?thesis
    using s2s_resultI [of "result_of d getWord ss" "nat (maxOutputLength d + 3) - length ss" "tl ?t" d a m] t ends
    by (simp add: result_of_def Let_def)
qed

text \<open>
  C14. The lexicon-free sequence-to-sequence decoder, without \<^verbatim>\<open>logAdd\<close> and with finite acoustic, language-model and option scores. In every state a decoder can be in, with a callback that answers with a row of scores
  and a state for each hypothesis, \<^verbatim>\<open>decodeStep\<close> ends and throws nothing but what the language model or the callback throws.
  After it there is at least one final hypothesis and at most \<^verbatim>\<open>beamSize\<close>, the best comes first and is the one
  \<^verbatim>\<open>getBestHypothesis\<close> returns; each has at most \<^verbatim>\<open>maxOutputLength\<close> tokens with the end token only at the end, and its score is
  the acoustic score plus the weighted language-model score plus \<^verbatim>\<open>eosScore\<close> if it is complete.
\<close>

theorem lexiconFreeSeq2Seq_results:
  assumes reach: "lfs_reach d" and f: "finite_model d" and la: "\<not> logAdd (opt d)"
  shows "case decodeStep emissions T N d of
      Inl e \<Rightarrow> s2s_throws d e
    | Inr d' \<Rightarrow> \<exists>rs. getAllFinalHypothesis d' = Inr rs \<and> rs \<noteq> [] \<and> getBestHypothesis lookBack d' = Inr (hd rs) \<and>
        int (length rs) \<le> max 1 (beamSize (opt d)) \<and> sorted_wrt (\<lambda>x y. resScore y \<le> resScore x) rs \<and> (\<forall>r\<in>set rs. s2s_result d r)"
  unfolding decodeStep_def getAllFinalHypothesis_def getBestHypothesis_def
  by (rule lfs.decode_results) (use lfs_reach_wf [OF reach] la s2s_chain_result [OF f la] in auto)

text \<open>A decoder with this callback and \<^verbatim>\<open>ZeroLM\<close>.\<close>

definition example_s2s :: "(lmHeap, unit) lfs2sDecoder" where
  "example_s2s = \<lparr>opt = \<lparr>beamSize = 2, beamSizeToken = 2, beamThreshold = Fin 10, lmWeight = Fin 1, eosScore = Fin 5, logAdd = False\<rparr>,
     lm = zeroLM, eos = 1, amUpdate = two_tokens, maxOutputLength = 1, hyp = [], nextBuf = 1, lmMem = [], amMem = ()\<rparr>"

lemma example_s2s_reach: "lfs_reach example_s2s" "finite_model example_s2s" "\<not> logAdd (opt example_s2s)"
proof -
  show "lfs_reach example_s2s" by (intro lfs_new) (simp_all add: example_s2s_def s2s_config_def two_tokens_shape)
  show "finite_model example_s2s" "\<not> logAdd (opt example_s2s)"
    using two_tokens_gives zeroLM_gives by (auto simp: finite_model_def example_s2s_def)
qed

lemma example_s2s_step: "\<exists>d'. decodeStep [] 0 0 example_s2s = Inr d'"
  by (simp add: decodeStep_def s2s_decodeStep_def example_s2s_def extend_three zeroLM_def put_def vec_def s2s_frame_def raw_batch_def
      two_tokens_def s2s_expand_def s2s_tokens_def size_of_int_def candidatesStore_def updateLMCache_def Let_def rbind_def start_def new_state_def
      ext_def std_sort_def child_def candidatesAdd_def candidatesReset_def kNegativeInfinity_def numeral_2_eq_2 zero_dbl_def minus_dbl_def)

theorem lexiconFreeSeq2Seq_results_witness:
  "\<exists>d' rs. decodeStep [] 0 0 example_s2s = Inr d' \<and> getAllFinalHypothesis d' = Inr rs \<and> rs \<noteq> [] \<and> (\<forall>r\<in>set rs. s2s_result example_s2s r)"
proof -
  obtain d' where "decodeStep [] 0 0 example_s2s = Inr d'" using example_s2s_step by blast
  then show ?thesis using lexiconFreeSeq2Seq_results [OF example_s2s_reach, where emissions = "[]" and T = 0 and N = 0] by auto
qed

end
