(* ===== verification/LexiconSeq2Seq.thy ===== *)
theory LexiconSeq2Seq
  imports Seq2SeqTheorems Trie
begin

section \<open>The sequence-to-sequence decoder with a lexicon (\<^verbatim>\<open>lib/text/decoder/LexiconSeq2SeqDecoder.h\<close>, \<^verbatim>\<open>.cpp\<close>)\<close>

text \<open>
  A \<^verbatim>\<open>const TrieNode*\<close> is the path of the node; the order of the nodes' addresses, which \<^verbatim>\<open>compareNoScoreStates\<close> uses, is
  the argument \<open>addr\<close> of the comparison and of \<^verbatim>\<open>decodeStep\<close>.
\<close>

record lexS2SState = s2sState +
  lex :: "int list"
  word :: int

record lexS2SOptions = s2sOptions +
  wordScore :: dbl

record ('l, 'm) lexS2SDecoder = "(lexS2SOptions, lexS2SState, 'l, 'm) s2sDecoder" +
  lexicon :: trie
  isLmToken :: bool

definition compareNoScoreStates :: "(int list \<Rightarrow> nat) \<Rightarrow> lexS2SState \<Rightarrow> lexS2SState \<Rightarrow> int" where
  "compareNoScoreStates addr this node =
     (case compare (lmState this) (Some (lmState node)) of
        Inl e \<Rightarrow> 0
      | Inr lmCmp \<Rightarrow>
          if lmCmp \<noteq> 0 then if lmCmp > 0 then 1 else -1
          else if addr (lex this) \<noteq> addr (lex node) then if addr (lex this) > addr (lex node) then 1 else -1
          else if token this \<noteq> token node then if token this > token node then 1 else -1
          else 0)"

definition getWord :: "lexS2SState \<Rightarrow> int" where
  "getWord s = word s"

definition new_state :: "dbl \<Rightarrow> lmStatePtr \<Rightarrow> int list \<Rightarrow> hypPtr option \<Rightarrow> int \<Rightarrow> int \<Rightarrow> amStatePtr \<Rightarrow> dbl \<Rightarrow> dbl \<Rightarrow> lexS2SState" where
  "new_state sc ls lx par tok wd ams am lms =
     \<lparr>score = sc, lmState = ls, parent = par, token = tok, amScore = am, lmScore = lms, amState = ams, lex = lx, word = wd\<rparr>"

definition start :: "lmStatePtr \<Rightarrow> lexS2SState" where
  "start ls = new_state 0 ls [] None (-1) (-1) None 0 0"

definition completed :: "int \<Rightarrow> lexS2SState \<Rightarrow> hypPtr \<Rightarrow> lexS2SState" where
  "completed e prevHyp ptr =
     new_state (score prevHyp) (lmState prevHyp) (lex prevHyp) (Some ptr) e (-1) None (amScore prevHyp) (lmScore prevHyp)"

type_synonym 'l search = "lexS2SState cands \<times> 'l"

definition add_state :: "('l, 'm) lexS2SDecoder \<Rightarrow> lexS2SState \<Rightarrow> 'l search \<Rightarrow> 'l search" where
  "add_state d s bcl = (candidatesAdd (beamThreshold (opt d)) s (fst bcl), snd bcl)"

definition try_eos :: "('l, 'm) lexS2SDecoder \<Rightarrow> lexS2SState \<Rightarrow> hypPtr \<Rightarrow> dbl \<Rightarrow> nat \<Rightarrow> dbl \<Rightarrow> 'l search \<Rightarrow> 'l search result" where
  "try_eos d prevHyp ptr lexMaxScore n am bcl =
     (if int n = eos d \<and> lex prevHyp = []
      then rbind (lm_finish (lm d) (lmState prevHyp) (snd bcl)) (\<lambda>((ls, x), l).
        let lmSc = (if isLmToken d then x else x - lexMaxScore) in
        Inr (add_state d (new_state (score prevHyp + am + eosScore (opt d) + lmWeight (opt d) * lmSc) ls [] (Some ptr) (int n) (-1) None
          (amScore prevHyp + am) (lmScore prevHyp + lmSc)) (fst bcl, l)))
      else Inr bcl)"

text \<open>The loop over the labels of a node; with a language model on tokens it stops after the first.\<close>

definition try_word :: "('l, 'm) lexS2SDecoder \<Rightarrow> lexS2SState \<Rightarrow> hypPtr \<Rightarrow> amStatePtr \<Rightarrow> dbl \<Rightarrow> lmStatePtr \<times> dbl \<Rightarrow> nat \<Rightarrow> dbl \<Rightarrow> int \<Rightarrow>
    'l search \<Rightarrow> 'l search result" where
  "try_word d prevHyp ptr outState lexMaxScore tok n am w bcl =
     rbind (if isLmToken d then Inr (tok, snd bcl)
            else rbind (lm_score (lm d) (lmState prevHyp) w (snd bcl)) (\<lambda>((ls, x), l). Inr ((ls, x - lexMaxScore), l)))
       (\<lambda>((ls, lmSc), l).
         Inr (add_state d (new_state (score prevHyp + am + wordScore (opt d) + lmWeight (opt d) * lmSc) ls [] (Some ptr) (int n) w outState
           (amScore prevHyp + am) (lmScore prevHyp + lmSc)) (fst bcl, l)))"

definition try_token :: "('l, 'm) lexS2SDecoder \<Rightarrow> lexS2SState \<Rightarrow> trieNode \<Rightarrow> hypPtr \<Rightarrow> amStatePtr \<Rightarrow> dbl \<Rightarrow> nat \<Rightarrow> dbl \<Rightarrow>
    'l search \<Rightarrow> 'l search result" where
  "try_token d prevHyp prevNode ptr outState lexMaxScore n am bcl =
     (if int n \<noteq> eos d then
        case map_of (children prevNode) (int n) of
          None \<Rightarrow> Inr bcl
        | Some node \<Rightarrow>
            rbind (if isLmToken d then lm_score (lm d) (lmState prevHyp) (int n) (snd bcl)
                   else Inr ((lmState prevHyp, maxScore node - lexMaxScore), snd bcl)) (\<lambda>((ls, lmSc), l).
              rfold (try_word d prevHyp ptr outState lexMaxScore (ls, lmSc) n am)
                (if isLmToken d then take 1 (labels node) else labels node)
                (add_state d (new_state (score prevHyp + am + lmWeight (opt d) * lmSc) ls (lex prevHyp @ [int n]) (Some ptr) (int n) (-1) outState
                   (amScore prevHyp + am) (lmScore prevHyp + lmSc)) (fst bcl, l)))
      else Inr bcl)"

definition ext :: "('l, 'm) lexS2SDecoder \<Rightarrow> lexS2SState \<Rightarrow> hypPtr \<Rightarrow> amStatePtr \<Rightarrow> nat \<Rightarrow> dbl \<Rightarrow> 'l search \<Rightarrow> 'l search result" where
  "ext d prevHyp ptr outState n am bcl =
     (case node_at (getRoot (lexicon d)) (lex prevHyp) of
        None \<Rightarrow> Inl (Undefined ''trie node'')
      | Some prevNode \<Rightarrow>
          let lexMaxScore = (if lex prevHyp = [] then 0 else maxScore prevNode) in
          rbind (try_eos d prevHyp ptr lexMaxScore n am bcl) (try_token d prevHyp prevNode ptr outState lexMaxScore n am))"

definition decodeStep :: "(int list \<Rightarrow> nat) \<Rightarrow> dbl list \<Rightarrow> int \<Rightarrow> int \<Rightarrow> ('l, 'm) lexS2SDecoder \<Rightarrow> ('l, 'm) lexS2SDecoder result" where
  "decodeStep addr emissions T N d = s2s_decodeStep (compareNoScoreStates addr) start completed ext emissions T N d"

definition getAllFinalHypothesis :: "('l, 'm) lexS2SDecoder \<Rightarrow> decodeResult list result" where
  "getAllFinalHypothesis d = s2s_getAllFinalHypothesis getWord d"

definition getBestHypothesis :: "int \<Rightarrow> ('l, 'm) lexS2SDecoder \<Rightarrow> decodeResult result" where
  "getBestHypothesis lookBack d = s2s_getBestHypothesis getWord d"

definition prune :: "int \<Rightarrow> ('l, 'm) lexS2SDecoder \<Rightarrow> ('l, 'm) lexS2SDecoder" where
  "prune lookBack d = d"

definition nDecodedFramesInBuffer :: "('l, 'm) lexS2SDecoder \<Rightarrow> int" where
  "nDecodedFramesInBuffer d = -1"

subsection \<open>The contract of the search\<close>

definition node_max :: "('l, 'm) lexS2SDecoder \<Rightarrow> dbl \<Rightarrow> bool" where
  "node_max d y \<longleftrightarrow> y = 0 \<or> (\<exists>p node. node_at (root (lexicon d)) p = Some node \<and> y = maxScore node)"

text \<open>The language-model part of a step: a score of the model or a smeared score, minus the smeared score so far.\<close>

definition lm_part :: "('l, 'm) lexS2SDecoder \<Rightarrow> dbl \<Rightarrow> bool" where
  "lm_part d x \<longleftrightarrow> lm_gives (lm d) x \<or> (\<exists>y m. (lm_gives (lm d) y \<or> node_max d y) \<and> node_max d m \<and> x = y - m)"

definition moves :: "('l, 'm) lexS2SDecoder \<Rightarrow> lexS2SState \<Rightarrow> lexS2SState \<Rightarrow> dbl \<Rightarrow> dbl \<Rightarrow> bool" where
  "moves d prev s a x \<longleftrightarrow>
     (token s = eos d \<and> lex prev = [] \<and> lex s = [] \<and> word s = -1 \<and>
        score s = score prev + a + eosScore (opt d) + lmWeight (opt d) * x) \<or>
     (token s \<noteq> eos d \<and> (\<exists>node. node_at (root (lexicon d)) (lex prev @ [token s]) = Some node \<and>
        (lex s = lex prev @ [token s] \<and> word s = -1 \<and> score s = score prev + a + lmWeight (opt d) * x \<or>
         lex s = [] \<and> word s \<in> set (labels node) \<and> score s = score prev + a + wordScore (opt d) + lmWeight (opt d) * x)))"

definition link :: "('l, 'm) lexS2SDecoder \<Rightarrow> lexS2SState \<Rightarrow> lexS2SState \<Rightarrow> bool" where
  "link d prev s \<longleftrightarrow>
     (if token prev = eos d
      then token s = eos d \<and> lex s = lex prev \<and> word s = -1 \<and> score s = score prev \<and> amScore s = amScore prev \<and> lmScore s = lmScore prev
      else \<exists>a x. am_gives (amUpdate d) a \<and> lm_part d x \<and> amScore s = amScore prev + a \<and> lmScore s = lmScore prev + x \<and> moves d prev s a x)"

definition legal :: "('l, 'm) lexS2SDecoder \<Rightarrow> lexS2SState \<Rightarrow> bool" where
  "legal d s \<longleftrightarrow> node_at (root (lexicon d)) (lex s) \<noteq> None"

lemma lexS2S_adds_add: "P s \<Longrightarrow> adds (beamThreshold (opt d)) P E (\<lambda>bcl. Inr (add_state d s bcl))"
  using adds_add [of P s "beamThreshold (opt d)" E] by (simp add: add_state_def)

lemma linkI:
  assumes "token prev \<noteq> eos d" "am_gives (amUpdate d) a" "lm_part d x" "moves d prev s a x" "amScore s = amScore prev + a" "lmScore s = lmScore prev + x"
  shows "link d prev s"
  using assms unfolding link_def by auto

lemma try_eos_adds:
  assumes prev: "token prev \<noteq> eos d" "am_gives (amUpdate d) a" and m: "node_max d m"
    and P: "\<And>s. parent s = Some ptr \<Longrightarrow> link d prev s \<Longrightarrow> P s"
  shows "adds (beamThreshold (opt d)) P (lm_throws (lm d)) (try_eos d prev ptr m n a)"
proof (cases "int n = eos d \<and> lex prev = []")
  case True
  let ?G = "\<lambda>(ls, x) bcl. let lmSc = (if isLmToken d then x else x - m) in
    Inr (add_state d (new_state (score prev + a + eosScore (opt d) + lmWeight (opt d) * lmSc) ls [] (Some ptr) (int n) (-1) None
      (amScore prev + a) (lmScore prev + lmSc)) bcl)"
  have "adds (beamThreshold (opt d)) P (lm_throws (lm d)) (\<lambda>bcl. rbind (lm_finish (lm d) (lmState prev) (snd bcl)) (\<lambda>(r, l). ?G r (fst bcl, l)))"
  proof (rule adds_query)
    show "lm_throws (lm d) e" if "lm_finish (lm d) (lmState prev) l = Inl e" for l e using that by (rule lm_throwsI)
    show "adds (beamThreshold (opt d)) P (lm_throws (lm d)) (?G r)" if q: "lm_finish (lm d) (lmState prev) l = Inr (r, l')" for r l l'
    proof -
      obtain ls x where r: "r = (ls, x)" by (cases r)
      have x: "lm_gives (lm d) x" using q unfolding r by (rule lm_gives_finish)
      let ?x = "if isLmToken d then x else x - m"
      have lp: "lm_part d ?x" using x m unfolding lm_part_def by auto
      let ?s = "new_state (score prev + a + eosScore (opt d) + lmWeight (opt d) * ?x) ls [] (Some ptr) (int n) (-1) None (amScore prev + a) (lmScore prev + ?x)"
      have "link d prev ?s" by (rule linkI [OF prev lp]) (use True in \<open>auto simp: moves_def new_state_def\<close>)
      then have "P ?s" by (intro P) (simp_all add: new_state_def)
      then show ?thesis using lexS2S_adds_add [of P ?s d "lm_throws (lm d)"] unfolding r by (simp only: case_prod_conv Let_def)
    qed
  qed
  then show ?thesis using True unfolding try_eos_def by (simp add: case_prod_unfold)
next
  case False
  then have "try_eos d prev ptr m n a = Inr" unfolding try_eos_def by (auto simp: fun_eq_iff)
  then show ?thesis using adds_skip by metis
qed

lemma try_word_adds:
  assumes prev: "token prev \<noteq> eos d" "am_gives (amUpdate d) a" and m: "node_max d m" and tok: "isLmToken d \<Longrightarrow> lm_part d (snd tok)"
    and n: "int n \<noteq> eos d" "node_at (root (lexicon d)) (lex prev @ [int n]) = Some node" "w \<in> set (labels node)"
    and P: "\<And>s. parent s = Some ptr \<Longrightarrow> link d prev s \<Longrightarrow> P s"
  shows "adds (beamThreshold (opt d)) P (lm_throws (lm d)) (try_word d prev ptr st m tok n a w)"
proof -
  let ?s = "\<lambda>(ls, x). new_state (score prev + a + wordScore (opt d) + lmWeight (opt d) * x) ls [] (Some ptr) (int n) w st (amScore prev + a) (lmScore prev + x)"
  let ?q = "\<lambda>l. if isLmToken d then Inr (tok, l) else rbind (lm_score (lm d) (lmState prev) w l) (\<lambda>((ls, x), l). Inr ((ls, x - m), l))"
  have "adds (beamThreshold (opt d)) P (lm_throws (lm d)) (\<lambda>bcl. rbind (?q (snd bcl)) (\<lambda>(r, l). Inr (add_state d (?s r) (fst bcl, l))))"
  proof (rule adds_query)
    show "lm_throws (lm d) e" if "?q l = Inl e" for l e
      using that by (auto simp: rbind_eq_Inl_iff intro: lm_throwsI split: if_splits)
    show "adds (beamThreshold (opt d)) P (lm_throws (lm d)) (\<lambda>bcl. Inr (add_state d (?s r) bcl))" if q: "?q l = Inr (r, l')" for r l l'
    proof -
      have "lm_part d (snd r)"
      proof (cases "isLmToken d")
        case True
        then show ?thesis using q tok by simp
      next
        case False
        then obtain ls x where x: "lm_score (lm d) (lmState prev) w l = Inr ((ls, x), l')" "r = (ls, x - m)"
          using q by (auto simp: rbind_eq_Inr_iff)
        then have "lm_gives (lm d) x" by (intro lm_gives_score)
        then show ?thesis using m x(2) unfolding lm_part_def by auto
      qed
      then have "link d prev (?s r)" by (intro linkI [OF prev, of "snd r"]) (use n in \<open>auto simp: moves_def new_state_def case_prod_unfold\<close>)
      then have "P (?s r)" by (intro P) (simp_all add: new_state_def case_prod_unfold)
      then show ?thesis by (rule lexS2S_adds_add)
    qed
  qed
  then show ?thesis unfolding try_word_def by (simp add: case_prod_unfold)
qed

lemma try_token_adds:
  assumes prev: "token prev \<noteq> eos d" "am_gives (amUpdate d) a" and node: "node_at (root (lexicon d)) (lex prev) = Some prevNode" and m: "node_max d m"
    and P: "\<And>s. parent s = Some ptr \<Longrightarrow> link d prev s \<Longrightarrow> P s"
  shows "adds (beamThreshold (opt d)) P (lm_throws (lm d)) (try_token d prev prevNode ptr st m n a)"
proof (cases "int n \<noteq> eos d \<and> map_of (children prevNode) (int n) \<noteq> None")
  case True
  then obtain c where n: "int n \<noteq> eos d" and c: "map_of (children prevNode) (int n) = Some c" by auto
  have at: "node_at (root (lexicon d)) (lex prev @ [int n]) = Some c" using node_at_child [OF node, of "int n"] c by simp
  let ?s = "\<lambda>(ls, x). new_state (score prev + a + lmWeight (opt d) * x) ls (lex prev @ [int n]) (Some ptr) (int n) (-1) st (amScore prev + a) (lmScore prev + x)"
  let ?ws = "if isLmToken d then take 1 (labels c) else labels c"
  let ?q = "\<lambda>l. if isLmToken d then lm_score (lm d) (lmState prev) (int n) l else Inr ((lmState prev, maxScore c - m), l)"
  let ?G = "\<lambda>r bcl. rbind (Inr (add_state d (?s r) bcl)) (rfold (try_word d prev ptr st m r n a) ?ws)"
  have "adds (beamThreshold (opt d)) P (lm_throws (lm d)) (\<lambda>bcl. rbind (?q (snd bcl)) (\<lambda>(r, l). ?G r (fst bcl, l)))"
  proof (rule adds_query)
    show "lm_throws (lm d) e" if "?q l = Inl e" for l e using that by (auto intro: lm_throwsI split: if_splits)
    show "adds (beamThreshold (opt d)) P (lm_throws (lm d)) (?G r)" if q: "?q l = Inr (r, l')" for r l l'
    proof -
      have lp: "lm_part d (snd r)"
      proof (cases "isLmToken d")
        case True
        then have "lm_score (lm d) (lmState prev) (int n) l = Inr ((fst r, snd r), l')" using q by simp
        then show ?thesis unfolding lm_part_def by (blast intro: lm_gives_score)
      next
        case False
        have "node_max d (maxScore c)" using at unfolding node_max_def by blast
        moreover have "snd r = maxScore c - m" using False q by auto
        ultimately show ?thesis using m unfolding lm_part_def by blast
      qed
      then have "link d prev (?s r)" by (intro linkI [OF prev, of "snd r"]) (use n at in \<open>auto simp: moves_def new_state_def case_prod_unfold\<close>)
      then have "P (?s r)" by (intro P) (simp_all add: new_state_def case_prod_unfold)
      then have "adds (beamThreshold (opt d)) P (lm_throws (lm d)) (\<lambda>bcl. Inr (add_state d (?s r) bcl))" by (rule lexS2S_adds_add)
      moreover have "adds (beamThreshold (opt d)) P (lm_throws (lm d)) (rfold (try_word d prev ptr st m r n a) ?ws)"
      proof (rule adds_rfold)
        fix w assume "w \<in> set ?ws"
        then have "w \<in> set (labels c)" by (auto split: if_splits dest: in_set_takeD)
        then show "adds (beamThreshold (opt d)) P (lm_throws (lm d)) (try_word d prev ptr st m r n a w)"
          using lp by (intro try_word_adds [OF prev m _ n at _ P])
      qed
      ultimately show ?thesis by (rule adds_comp)
    qed
  qed
  then show ?thesis using n c unfolding try_token_def by (simp add: case_prod_unfold)
next
  case False
  then have "try_token d prev prevNode ptr st m n a = Inr" unfolding try_token_def by (auto simp: fun_eq_iff)
  then show ?thesis using adds_skip by metis
qed

lemma lexS2S_ext_adds:
  assumes prev: "legal d prev" "token prev \<noteq> eos d" "am_gives (amUpdate d) a" and P: "\<And>s. parent s = Some ptr \<Longrightarrow> link d prev s \<Longrightarrow> P s"
  shows "adds (beamThreshold (opt d)) P (lm_throws (lm d)) (ext d prev ptr st n a)"
proof -
  obtain prevNode where node: "node_at (root (lexicon d)) (lex prev) = Some prevNode" using prev(1) by (auto simp: legal_def)
  let ?m = "if lex prev = [] then 0 else maxScore prevNode"
  have m: "node_max d ?m" using node by (auto simp: node_max_def)
  from adds_comp [OF try_eos_adds [OF prev(2,3) m P] try_token_adds [OF prev(2,3) node m P]]
  show ?thesis using node unfolding ext_def getRoot_def by (simp add: Let_def)
qed

lemma moves_legal:
  assumes "moves d r s a x"
  shows "legal d s"
proof -
  have "node_at (root (lexicon d)) [] = Some (root (lexicon d))" by simp
  then show ?thesis using assms unfolding moves_def legal_def by auto
qed

interpretation lxs: s2s_search "compareNoScoreStates addr" start completed ext link legal for addr
proof
  fix x y z :: lexS2SState and s
  show "compareNoScoreStates addr y x = - compareNoScoreStates addr x y" by (auto simp: compareNoScoreStates_def compare_def)
  show "0 \<le> compareNoScoreStates addr x y \<Longrightarrow> 0 \<le> compareNoScoreStates addr y z \<Longrightarrow> 0 \<le> compareNoScoreStates addr x z"
    by (auto simp: compareNoScoreStates_def compare_def split: if_splits)
  show "compareNoScoreStates addr (x\<lparr>score := s\<rparr>) y = compareNoScoreStates addr x y" by (simp add: compareNoScoreStates_def)
next
  show "parent (start ls) = None" "legal d (start ls)" for ls and d :: "('a, 'b) lexS2SDecoder" by (simp_all add: start_def new_state_def legal_def)
  show "parent (completed (eos d) s p) = Some p \<and> link d s (completed (eos d) s p)" if "token s = eos d" for s p and d :: "('a, 'b) lexS2SDecoder"
    using that by (simp add: completed_def new_state_def link_def)
  show "legal d s" if "legal d r" "link d r s" for r s and d :: "('a, 'b) lexS2SDecoder"
    using that moves_legal by (auto simp: link_def legal_def split: if_splits)
  show "legal d (s\<lparr>score := x\<rparr>) = legal d s" for s x and d :: "('a, 'b) lexS2SDecoder" by (simp add: legal_def)
  show "legal d' = legal d \<and> link d' = link d" if same: "same_s2s d d'" for d d' :: "('a, 'b) lexS2SDecoder"
  proof -
    obtain h nb l m where "d' = d\<lparr>hyp := h, nextBuf := nb, lmMem := l, amMem := m\<rparr>" using same unfolding same_s2s_def by blast
    then show ?thesis by (intro conjI HOL.ext) (simp_all add: legal_def link_def moves_def lm_part_def node_max_def)
  qed
qed (rule lexS2S_ext_adds)

subsection \<open>Results\<close>

text \<open>
  A segment is the spelling of a word with the word. \<open>spelled\<close> says that a sequence of tokens and words consists of
  segments, of the begun spelling \<open>rest\<close> and of \<open>j\<close> end tokens: the word stands at the last token of its spelling.
\<close>

definition word_slots :: "int list \<times> int \<Rightarrow> int list" where
  "word_slots seg = replicate (length (fst seg) - 1) (-1) @ [snd seg]"

definition segment_ok :: "('l, 'm) lexS2SDecoder \<Rightarrow> int list \<times> int \<Rightarrow> bool" where
  "segment_ok d seg \<longleftrightarrow> fst seg \<noteq> [] \<and> eos d \<notin> set (fst seg) \<and>
     (\<exists>node. node_at (root (lexicon d)) (fst seg) = Some node \<and> snd seg \<in> set (labels node))"

definition spelled :: "('l, 'm) lexS2SDecoder \<Rightarrow> int list \<Rightarrow> int list \<Rightarrow> (int list \<times> int) list \<Rightarrow> int list \<Rightarrow> nat \<Rightarrow> bool" where
  "spelled d ts ws segs rest j \<longleftrightarrow>
     ts = concat (map fst segs) @ rest @ replicate j (eos d) \<and>
     ws = concat (map word_slots segs) @ replicate (length rest + j) (-1) \<and>
     (\<forall>seg\<in>set segs. segment_ok d seg) \<and> node_at (root (lexicon d)) rest \<noteq> None \<and> eos d \<notin> set rest \<and> (0 < j \<longrightarrow> rest = [])"

definition finite_lexicon :: "('l, 'm) lexS2SDecoder \<Rightarrow> bool" where
  "finite_lexicon d \<longleftrightarrow> finite_model d \<and> (\<exists>r. wordScore (opt d) = Fin r) \<and> (\<forall>x. node_max d x \<longrightarrow> (\<exists>r. x = Fin r))"

definition word_sum :: "('l, 'm) lexS2SDecoder \<Rightarrow> lexS2SState \<Rightarrow> nat \<Rightarrow> nat \<Rightarrow> bool" where
  "word_sum d s n j \<longleftrightarrow> (\<exists>a m. amScore s = Fin a \<and> lmScore s = Fin m \<and>
     score s = Fin (a + the_fin (lmWeight (opt d)) * m + the_fin (wordScore (opt d)) * real n + (if 0 < j then the_fin (eosScore (opt d)) else 0)))"

lemma lm_part_finite:
  assumes "finite_lexicon d" "lm_part d x"
  shows "\<exists>r. x = Fin r"
proof -
  have f: "\<exists>r. y = Fin r" if "lm_gives (lm d) y \<or> node_max d y" for y using that assms(1) unfolding finite_lexicon_def finite_model_def by blast
  have "\<exists>r. y - m = Fin r" if "lm_gives (lm d) y \<or> node_max d y" "node_max d m" for y m
    using f [of y] f [of m] that by (auto simp: minus_dbl_def)
  then show ?thesis using assms(2) f unfolding lm_part_def by blast
qed

lemma spelled_eos:
  assumes "spelled d ts ws segs [] j"
  shows "spelled d (ts @ [eos d]) (ws @ [-1]) segs [] (Suc j)"
  using assms by (auto simp: spelled_def replicate_append_same)

lemma spelled_token:
  assumes "spelled d ts ws segs rest 0" "t \<noteq> eos d" "node_at (root (lexicon d)) (rest @ [t]) \<noteq> None"
  shows "spelled d (ts @ [t]) (ws @ [-1]) segs (rest @ [t]) 0"
  using assms by (auto simp: spelled_def replicate_append_same)

lemma spelled_word:
  assumes "spelled d ts ws segs rest 0" "t \<noteq> eos d" "node_at (root (lexicon d)) (rest @ [t]) = Some node" "w \<in> set (labels node)"
  shows "spelled d (ts @ [t]) (ws @ [w]) (segs @ [(rest @ [t], w)]) [] 0"
  using assms by (auto simp: spelled_def segment_ok_def word_slots_def)

lemma link_spelled:
  assumes f: "finite_lexicon d" and l: "link d r s" and sp: "spelled d ts ws segs (lex r) j" and j: "token r = eos d \<longleftrightarrow> 0 < j"
    and sum: "word_sum d r (length segs) j"
  shows "\<exists>segs j. spelled d (ts @ [token s]) (ws @ [word s]) segs (lex s) j \<and> (token s = eos d \<longleftrightarrow> 0 < j) \<and> word_sum d s (length segs) j"
proof (cases "token r = eos d")
  case True
  then have s: "token s = eos d" "lex s = lex r" "word s = -1" "score s = score r" "amScore s = amScore r" "lmScore s = lmScore r"
    using l by (simp_all add: link_def)
  have "lex r = []" using sp j True by (simp add: spelled_def)
  then show ?thesis using spelled_eos [of d ts ws segs j] sp s sum True j
    by (intro exI [of _ segs] exI [of _ "Suc j"]) (simp add: word_sum_def)
next
  case False
  obtain w z u where w: "lmWeight (opt d) = Fin w" "eosScore (opt d) = Fin z" "wordScore (opt d) = Fin u"
    using f by (auto simp: finite_lexicon_def finite_model_def)
  have j0: "j = 0" using j False by simp
  obtain a m where r: "amScore r = Fin a" "lmScore r = Fin m" "score r = Fin (a + w * m + u * real (length segs))"
    using sum j0 w by (auto simp: word_sum_def)
  obtain b x where x: "am_gives (amUpdate d) b" "lm_part d x" "amScore s = amScore r + b" "lmScore s = lmScore r + x" "moves d r s b x"
    using l False unfolding link_def by auto
  obtain b' where b': "b = Fin b'" using f x(1) unfolding finite_lexicon_def finite_model_def by blast
  obtain x' where x': "x = Fin x'" using lm_part_finite [OF f x(2)] by blast
  note scores = w r b' x' x(3,4)
  have sumI: "word_sum d s n i" if "score s = Fin (a + b' + w * (m + x') + u * real n + (if 0 < i then z else 0))" for n i
    unfolding word_sum_def using that scores by (intro exI [of _ "a + b'"] exI [of _ "m + x'"]) simp
  consider (eos) "token s = eos d" "lex r = []" "lex s = []" "word s = -1" "score s = score r + b + eosScore (opt d) + lmWeight (opt d) * x"
    | (token) node where "token s \<noteq> eos d" "node_at (root (lexicon d)) (lex r @ [token s]) = Some node" "lex s = lex r @ [token s]" "word s = -1"
        "score s = score r + b + lmWeight (opt d) * x"
    | (word) node where "token s \<noteq> eos d" "node_at (root (lexicon d)) (lex r @ [token s]) = Some node" "lex s = []" "word s \<in> set (labels node)"
        "score s = score r + b + wordScore (opt d) + lmWeight (opt d) * x"
    using x(5) unfolding moves_def by blast
  then show ?thesis
  proof cases
    case eos
    then show ?thesis using spelled_eos [of d ts ws segs 0] sp j0 scores
      by (intro exI [of _ segs] exI [of _ 1]) (simp add: sumI algebra_simps)
  next
    case token
    then show ?thesis using spelled_token [of d ts ws segs "lex r" "token s"] sp j0 scores
      by (intro exI [of _ segs] exI [of _ 0]) (simp add: sumI algebra_simps)
  next
    case word
    then show ?thesis using spelled_word [of d ts ws segs "lex r" "token s" node "word s"] sp j0 scores
      by (intro exI [of _ "segs @ [(lex r @ [token s], word s)]"] exI [of _ 0]) (simp add: sumI algebra_simps)
  qed
qed

text \<open>The states that a decoder can be in: fresh, or after calls of \<^verbatim>\<open>decodeStep\<close>.\<close>

inductive lxs_reach :: "(int list \<Rightarrow> nat) \<Rightarrow> ('l, 'm) lexS2SDecoder \<Rightarrow> bool" for addr where
  lxs_new: "s2s_config d \<Longrightarrow> eos d \<noteq> -1 \<Longrightarrow> hyp d = [] \<Longrightarrow> 0 < nextBuf d \<Longrightarrow> lxs_reach addr d"
| lxs_step: "lxs_reach addr d \<Longrightarrow> decodeStep addr emissions T N d = Inr d' \<Longrightarrow> lxs_reach addr d'"

lemma lxs_reach_wf: "lxs_reach addr d \<Longrightarrow> s2s_config d \<and> s2s_wf d \<and> eos d \<noteq> -1"
proof (induction rule: lxs_reach.induct)
  case (lxs_new d)
  then show ?case using fresh_s2s_wf by blast
next
  case (lxs_step d emissions T N d')
  then show ?case using lxs.decodeStep_wf [of d addr emissions T N d'] same_s2s_sel [of d d'] by (simp add: decodeStep_def)
qed

text \<open>
  What a result says: behind unused slots and the initial token there are at most \<^verbatim>\<open>maxOutputLength\<close> tokens, which spell words of the
  lexicon, and the score is the objective of the class comment plus \<^verbatim>\<open>wordScore\<close> for each word, which the comment leaves out.
\<close>

definition lex_result :: "('l, 'm) lexS2SDecoder \<Rightarrow> decodeResult \<Rightarrow> bool" where
  "lex_result d r \<longleftrightarrow> (\<exists>k ts ws segs rest j a m. tokens r = replicate k (-1) @ -1 # ts \<and> words r = replicate k (-1) @ -1 # ws \<and>
     int (length ts) \<le> maxOutputLength d \<and> spelled d ts ws segs rest j \<and> resAmScore r = Some (Fin a) \<and> resLmScore r = Some (Fin m) \<and>
     resScore r = Fin (a + the_fin (lmWeight (opt d)) * m + the_fin (wordScore (opt d)) * real (length segs) +
       (if 0 < j then the_fin (eosScore (opt d)) else 0)))"

lemma chain_spelled:
  assumes f: "finite_lexicon d" and e: "eos d \<noteq> -1" and ls: "ss ! 0 = start ls"
    and links: "\<And>i. Suc i < length ss \<Longrightarrow> link d (ss ! i) (ss ! Suc i)"
  shows "i < length ss \<Longrightarrow> \<exists>segs j. spelled d (map token (take i (tl ss))) (map word (take i (tl ss))) segs (lex (ss ! i)) j \<and>
    (token (ss ! i) = eos d \<longleftrightarrow> 0 < j) \<and> word_sum d (ss ! i) (length segs) j"
proof (induction i)
  case 0
  show ?case using ls e
    by (intro exI [of _ "[]"] exI [of _ 0]) (simp add: spelled_def word_sum_def start_def new_state_def zero_dbl_def)
next
  case (Suc i)
  have "take (Suc i) (tl ss) = take i (tl ss) @ [ss ! Suc i]" using Suc.prems by (simp add: take_Suc_conv_app_nth nth_tl)
  then show ?case using Suc link_spelled [OF f links [OF Suc.prems]] by fastforce
qed

lemma lexS2S_chain_result:
  assumes f: "finite_lexicon d" and la: "\<not> logAdd (opt d)" and e: "eos d \<noteq> -1" and c: "lxs.s2s_chain d ss"
  shows "lex_result d (result_of d getWord ss)"
proof -
  have links: "\<And>i. Suc i < length ss \<Longrightarrow> link d (ss ! i) (ss ! Suc i)" and ne: "ss \<noteq> []" and len: "int (length ss) \<le> maxOutputLength d + 1"
    using c la by (auto simp: lxs.s2s_chain_def)
  obtain ls where ls: "ss ! 0 = start ls" using c by (auto simp: lxs.s2s_chain_def)
  then have hd: "ss = start ls # tl ss" using ne by (cases ss) auto
  have l: "last ss = ss ! (length ss - 1)" "take (length ss - 1) (tl ss) = tl ss" using ne by (simp_all add: last_conv_nth)
  obtain segs j where sp: "spelled d (map token (tl ss)) (map word (tl ss)) segs (lex (last ss)) j" "word_sum d (last ss) (length segs) j"
    using chain_spelled [OF f e ls links, of "length ss - 1"] ne unfolding l by auto
  obtain a m where am: "amScore (last ss) = Fin a" "lmScore (last ss) = Fin m" "score (last ss) = Fin (a + the_fin (lmWeight (opt d)) * m +
      the_fin (wordScore (opt d)) * real (length segs) + (if 0 < j then the_fin (eosScore (opt d)) else 0))"
    using sp(2) by (auto simp: word_sum_def)
  let ?k = "nat (maxOutputLength d + 3) - length ss"
  have "map token ss = -1 # map token (tl ss)" "map getWord ss = -1 # map word (tl ss)"
    by (subst hd, simp add: start_def new_state_def getWord_def [abs_def])+
  then have "tokens (result_of d getWord ss) = replicate ?k (-1) @ -1 # map token (tl ss)"
    "words (result_of d getWord ss) = replicate ?k (-1) @ -1 # map word (tl ss)"
    by (simp_all add: result_of_def Let_def)
  moreover have "int (length (map token (tl ss))) \<le> maxOutputLength d" using len ne by (cases ss) auto
  ultimately show ?thesis unfolding lex_result_def using sp(1) am
    by (intro exI [of _ ?k] exI [of _ "map token (tl ss)"] exI [of _ "map word (tl ss)"] exI [of _ segs] exI [of _ "lex (last ss)"] exI [of _ j]
        exI [of _ a] exI [of _ m]) (simp add: result_of_def Let_def)
qed

lemma decodeStep_lex_results:
  assumes reach: "lxs_reach addr d" and f: "finite_lexicon d" and la: "\<not> logAdd (opt d)"
  shows "case decodeStep addr emissions T N d of
      Inl e \<Rightarrow> s2s_throws d e
    | Inr d' \<Rightarrow> \<exists>rs. getAllFinalHypothesis d' = Inr rs \<and> rs \<noteq> [] \<and> getBestHypothesis lookBack d' = Inr (hd rs) \<and>
        int (length rs) \<le> max 1 (beamSize (opt d)) \<and> sorted_wrt (\<lambda>x y. resScore y \<le> resScore x) rs \<and> (\<forall>r\<in>set rs. lex_result d r)"
  unfolding decodeStep_def getAllFinalHypothesis_def getBestHypothesis_def
  by (rule lxs.decode_results) (use lxs_reach_wf [OF reach] la lexS2S_chain_result [OF f la] in auto)

text \<open>The same with the objective of the class comment, which has no \<^verbatim>\<open>wordScore\<close>.\<close>

definition lex_objective :: "('l, 'm) lexS2SDecoder \<Rightarrow> decodeResult \<Rightarrow> bool" where
  "lex_objective d r \<longleftrightarrow> (\<exists>k ts ws segs rest j. tokens r = replicate k (-1) @ -1 # ts \<and> words r = replicate k (-1) @ -1 # ws \<and>
     int (length ts) \<le> maxOutputLength d \<and> spelled d ts ws segs rest j \<and>
     (wordScore (opt d) = Fin 0 \<longrightarrow> (\<exists>a m. resAmScore r = Some (Fin a) \<and> resLmScore r = Some (Fin m) \<and>
        resScore r = Fin (a + the_fin (lmWeight (opt d)) * m + (if 0 < j then the_fin (eosScore (opt d)) else 0)))))"

lemma lex_result_objective: "lex_result d r \<Longrightarrow> lex_objective d r"
  unfolding lex_result_def lex_objective_def by fastforce

text \<open>
  C13. The sequence-to-sequence decoder with a lexicon, without \<^verbatim>\<open>logAdd\<close> and with finite acoustic, language-model, smeared and option
  scores. In every state a decoder can be in, \<^verbatim>\<open>decodeStep\<close> ends and throws nothing but what the language model or the
  callback throws. After it there are between one and \<^verbatim>\<open>beamSize\<close> final hypotheses, best first. The tokens of each are spellings of the
  lexicon, with the word of each reported at its last token, then a prefix of a spelling or end tokens, the latter only after a
  whole word; when \<^verbatim>\<open>wordScore\<close> is 0, the score is the acoustic score plus the weighted language-model score plus
  \<^verbatim>\<open>eosScore\<close> if the hypothesis is complete.
\<close>

theorem lexiconSeq2Seq_results:
  assumes reach: "lxs_reach addr d" and f: "finite_lexicon d" and la: "\<not> logAdd (opt d)"
  shows "case decodeStep addr emissions T N d of
      Inl e \<Rightarrow> s2s_throws d e
    | Inr d' \<Rightarrow> \<exists>rs. getAllFinalHypothesis d' = Inr rs \<and> rs \<noteq> [] \<and> getBestHypothesis lookBack d' = Inr (hd rs) \<and>
        int (length rs) \<le> max 1 (beamSize (opt d)) \<and> sorted_wrt (\<lambda>x y. resScore y \<le> resScore x) rs \<and> (\<forall>r\<in>set rs. lex_objective d r)"
proof (cases "decodeStep addr emissions T N d")
  case (Inl e)
  then show ?thesis using decodeStep_lex_results [OF assms, where emissions = emissions and T = T and N = N] by simp
next
  case (Inr d')
  obtain rs where "getAllFinalHypothesis d' = Inr rs" "rs \<noteq> []" "getBestHypothesis lookBack d' = Inr (hd rs)"
    "int (length rs) \<le> max 1 (beamSize (opt d))" "sorted_wrt (\<lambda>x y. resScore y \<le> resScore x) rs" "\<forall>r\<in>set rs. lex_result d r"
    using decodeStep_lex_results [OF assms, where emissions = emissions and T = T and N = N and lookBack = lookBack] Inr by auto
  then show ?thesis using Inr lex_result_objective by auto
qed

text \<open>A lexicon with one word, 7, spelled with the token 1, and \<^verbatim>\<open>ZeroLM\<close> on words.\<close>

definition example_lexS2S :: "(lmHeap, unit) lexS2SDecoder" where
  "example_lexS2S = \<lparr>opt = \<lparr>beamSize = 2, beamSizeToken = 1, beamThreshold = Fin 1, lmWeight = Fin 1, eosScore = Fin 5, logAdd = False, wordScore = Fin 0\<rparr>,
     lm = zeroLM, eos = 0, amUpdate = two_tokens, maxOutputLength = 1, hyp = [], nextBuf = 1, lmMem = [], amMem = (),
     lexicon = snd (trie_insert [1] 7 (Fin 0) (new_Trie 2 0)), isLmToken = False\<rparr>"

lemma example_lexS2S_lexicon:
  "trie_insert [1] 7 (Fin 0) (new_Trie 2 0) =
    (Inr [1], \<lparr>root = TrieNode [(1, TrieNode [] 1 [7] [Fin 0] 0)] 0 [] [] 0, maxChildren = 2\<rparr>)"
  by (simp add: trie_insert_def new_Trie_def new_TrieNode_def set_child_def push_label_def kTrieMaxLabel_def)

lemma example_lexS2S_max: "node_max example_lexS2S x \<Longrightarrow> x = 0"
proof -
  have "maxScore n = 0" if "node_at (root (lexicon example_lexS2S)) p = Some n" for p n
    using that by (cases p; cases "tl p") (auto simp: example_lexS2S_def example_lexS2S_lexicon split: if_splits)
  then show "node_max example_lexS2S x \<Longrightarrow> x = 0" by (auto simp: node_max_def)
qed

lemma example_lexS2S_reach: "lxs_reach length example_lexS2S" "finite_lexicon example_lexS2S" "\<not> logAdd (opt example_lexS2S)"
proof -
  show "lxs_reach length example_lexS2S" by (intro lxs_new) (simp_all add: example_lexS2S_def s2s_config_def two_tokens_shape)
  have "finite_model example_lexS2S"
    using two_tokens_gives zeroLM_gives by (auto simp: finite_model_def example_lexS2S_def)
  moreover have "\<exists>r. wordScore (opt example_lexS2S) = Fin r" by (simp add: example_lexS2S_def)
  ultimately show "finite_lexicon example_lexS2S" using example_lexS2S_max by (auto simp: finite_lexicon_def zero_dbl_def)
  show "\<not> logAdd (opt example_lexS2S)" by (simp add: example_lexS2S_def)
qed

lemma example_lexS2S_step: "\<exists>d'. decodeStep length [] 0 0 example_lexS2S = Inr d'"
  by (simp add: decodeStep_def s2s_decodeStep_def example_lexS2S_def example_lexS2S_lexicon extend_three zeroLM_def put_def vec_def s2s_frame_def
      raw_batch_def two_tokens_def s2s_expand_def s2s_tokens_def size_of_int_def candidatesStore_def updateLMCache_def Let_def rbind_def start_def
      new_state_def ext_def getRoot_def try_eos_def try_token_def try_word_def add_state_def std_sort_def child_def candidatesAdd_def
      candidatesReset_def kNegativeInfinity_def numeral_2_eq_2 zero_dbl_def minus_dbl_def)

theorem lexiconSeq2Seq_results_witness:
  "\<exists>d' rs. decodeStep length [] 0 0 example_lexS2S = Inr d' \<and> getAllFinalHypothesis d' = Inr rs \<and> rs \<noteq> [] \<and> (\<forall>r\<in>set rs. lex_objective example_lexS2S r)"
proof -
  obtain d' where "decodeStep length [] 0 0 example_lexS2S = Inr d'" using example_lexS2S_step by blast
  then show ?thesis using lexiconSeq2Seq_results [OF example_lexS2S_reach, where emissions = "[]" and T = 0 and N = 0] by auto
qed

end
