(* ===== verification/Spec2Isabelle.thy ===== *)
theory Spec2Isabelle
  imports Tokenizer CachingMemoryTheorems DefaultMemoryManager ProducerConsumerQueue LexiconFreeScores LexiconTheorems PrefetchDataset DynamicPartition EditDistanceMeter AutogradTheorems ConvLMTheorems CtcTheorems HungarianTheorems Workspace BlobTheorems LexiconFreeSeq2Seq LexiconSeq2Seq
begin

text \<open>
  Flashlight is a machine-learning library in C++ with applications on top of it. This library of theories models those parts of it
  that carry logic of their own: memory managers, automatic differentiation, datasets, text processing, beam-search decoders, the
  sequence criteria on the CPU and linear sum assignment. Tensors, layers and optimisers are thin code over ArrayFire, cuDNN and oneDNN, which are
  outside the repository.

  \<^bold>\<open>How the parts interact.\<close>
  A training program reads text with \<^verbatim>\<open>PartialFileReader\<close> and \<^verbatim>\<open>Tokenizer\<close>, builds a \<^verbatim>\<open>Dictionary\<close> and a lexicon, and maps
  words to token indices, packing repeated letters. Datasets are stacked: a source such as a blob file, then views (shuffle,
  resample, concatenate, merge, transform, batch), then \<^verbatim>\<open>PrefetchDataset\<close>; partitioning deals the samples to the processes. The
  model produces a matrix of emissions on a device whose memory comes from a memory manager. For training the ASG
  criterion is the difference of the full-connection and the forced-alignment criterion; for evaluation \<^verbatim>\<open>ViterbiPath\<close> or a beam
  search turns emissions into tokens and \<^verbatim>\<open>EditDistanceMeter\<close> counts the errors. The decoders share \<^verbatim>\<open>decoder/Utils.h\<close> and reach
  a language model through the interface \<^verbatim>\<open>LM\<close> and a lexicon through \<^verbatim>\<open>Trie\<close>.

  \<^bold>\<open>Conventions (theories \<open>Prelude\<close>, \<open>Doubles\<close>).\<close>
  A function that may throw returns a value of \<open>exn + 'a\<close>; \<open>Undefined\<close> is undefined behaviour of C++, such as following a dangling
  pointer or leaving a buffer, and the theorems show where it cannot occur. A class is a record that the operations take and
  return. Loops are recursions over lists, or functions with a termination proof. Two loops of the decoders, the search for a complete
  ancestor and the shift of the frames, carry fuel (one more than the number of frames), because their end depends on the parent
  pointers and on the size of a map; running out of it would be \<open>Undefined\<close>, which the safety theorems exclude. \<^verbatim>\<open>size_t\<close> is a natural number
  below \<open>2 ^ 64\<close> with the wrap-around written out, or a 64-bit word (\<open>Workspace\<close>, statistics of the memory manager); other
  integers are unbounded where the code keeps them far below their limits, which the theories say. A floating-point number is a
  real, an infinity or NaN (\<open>dbl\<close>): special values behave as in IEEE arithmetic, rounding is not modelled. Code outside the repository
  is an argument: the native device of the memory managers, ArrayFire arrays, the random generator, the language model, the
  callback of the acoustic model, and the order of the addresses of trie nodes. What is assumed of them is a named hypothesis with
  a concrete instance in the witness.

  \<^bold>\<open>Text\<close> (\<^verbatim>\<open>lib/common/String\<close>, \<^verbatim>\<open>System\<close>, \<^verbatim>\<open>lib/text/dictionary\<close>, \<^verbatim>\<open>lib/text/tokenizer\<close>).
  \<^item> \<open>Strings\<close>: trimming, splitting, joining, replacing. The position loops are shown to compute a recursion on the unread suffix, from which
    the round trip of splitting and joining follows.
  \<^item> \<open>SystemIO\<close>: paths, and input streams with position, \<^verbatim>\<open>eofbit\<close> and \<^verbatim>\<open>failbit\<close>.
  \<^item> \<open>Dictionary\<close>, \<open>DictionaryUtils\<close>: the two maps of a dictionary and its file format, what a dictionary built by any calls finds, the lexicon
    loader and the word dictionary of a lexicon, splitting words into UTF-8 characters, packing and unpacking of repeated letters.
  \<^item> \<open>PartialFileReader\<close>, \<open>Tokenizer\<close>: several readers of one newline-terminated file read each line once; counting with any number of workers.

  \<^bold>\<open>Memory\<close> (\<^verbatim>\<open>fl/memory/managers\<close>).
  \<^item> \<open>CachingMemoryManager\<close> is the model, with \<^verbatim>\<open>Block\<close> objects in an explicit heap. \<open>CachingMemoryInvariant\<close>, \<open>CachingMemorySafety\<close>
    and \<open>CachingMemoryOperations\<close> show that every operation keeps the invariant: the blocks of a native allocation tile it, and pools
    and tables point to live blocks. \<open>CachingMemoryTheorems\<close> derives, for a client that passes only live pointers and sizes that can be rounded up and leaves the
    split limit alone, safety in every reachable state and the refinement of a map from live pointers to sizes, and shows concrete runs in which the code goes wrong (size overflow, a changed split limit, foreign pointers).
  \<^item> \<open>DefaultMemoryManager\<close>: the older manager; outside debug mode no buffer can be released.

  \<^bold>\<open>Automatic differentiation\<close> (\<^verbatim>\<open>fl/autograd\<close>, \<^verbatim>\<open>fl/nn/modules/Activations.cpp\<close>).
  \<^item> \<open>Autograd\<close> models \<^verbatim>\<open>Variable\<close>: a heap of gradient objects, the topological sort and \<^verbatim>\<open>backward\<close>; \<open>AutogradFunctions\<close> the operators that work element by
    element, with their gradient functions. An array is one real number with its type. The fuel of the topological sort stands for the stack; it is one more than
    the pointer of the variable, which is enough because inputs are older than results.
  \<^item> \<open>AutogradGraph\<close>: the sort lists each variable once, inputs first, and a sum of weighted gradients is invariant during the sweep. \<open>AutogradTheorems\<close>
    derives that the gradients are the derivatives of the function that a sequence of operator calls computes, and that they have the right types.

  \<^bold>\<open>Concurrency\<close> (\<^verbatim>\<open>lib/common/ProducerConsumerQueue.h\<close>).
  \<^item> \<open>ProducerConsumerQueue\<close>: a step relation whose steps are the critical sections. First in, first out along every interleaving, no lost
    wake-up, and a run in which \<^verbatim>\<open>finishAdding\<close> leaves a producer asleep.

  \<^bold>\<open>Decoders\<close> (\<^verbatim>\<open>lib/text/decoder\<close>).
  \<^item> \<open>LanguageModel\<close>, \<open>Trie\<close>: the interface \<^verbatim>\<open>LM\<close> as a record of functions, \<^verbatim>\<open>ZeroLM\<close>, and the trie: what it holds after any insertions, and
    the scores that smearing in \<^verbatim>\<open>MAX\<close> mode gives the nodes of a lexicon of different spellings.
  \<^item> \<open>ConvLM\<close>: the convolutional language model with its cache of score rows, and the function of \<^verbatim>\<open>ConvLmModule.cpp\<close> that queries the network;
    \<open>ConvLMTheorems\<close> shows that the cache, the moving of rows and the padded batches cannot be seen in the scores.
  \<^item> \<open>DecoderUtils\<close> models \<^verbatim>\<open>Utils.h\<close>. A parent pointer is the identifier of the vector it points into and an offset, so a pointer into
    a vector that was replaced is found out. \<open>DecoderCandidates\<close> (locale \<open>state_order\<close>) shows what candidate selection keeps,
    \<open>DecoderBeam\<close> the invariant of the history of hypotheses under back-tracking and pruning, \<open>DecoderSearch\<close> (locale \<open>state_links\<close>) one
    step of a search.
  \<^item> \<open>LexiconFreeDecoder\<close> with \<open>LexiconFreeTheorems\<close> and \<open>LexiconFreeScores\<close>, \<open>LexiconDecoder\<close> with \<open>LexiconTheorems\<close>: the decoders for CTC and ASG.
    Online use is an inductive relation over calls; no reachable call has undefined behaviour, scores add up (without \<^verbatim>\<open>logAdd\<close>, for CTC), and
    the words of a result are those of a run of the lexicon automaton over its tokens.
  \<^item> \<open>Seq2SeqSearch\<close>, \<open>Seq2SeqTheorems\<close> (locale \<open>s2s_search\<close>), \<open>LexiconFreeSeq2Seq\<close>, \<open>LexiconSeq2Seq\<close>: the two decoders for
    sequence-to-sequence models, whose common loop is defined once and whose contract is interpreted for both.

  \<^bold>\<open>Sequence criteria\<close> (\<^verbatim>\<open>lib/sequence/criterion\<close>).
  \<^item> \<open>PathRecursion\<close> (locale \<open>path_aggregate\<close>, interpreted for the maximum and the log-sum-exp): a recursion over frames aggregates over all
    paths of a trellis. \<open>ViterbiPath\<close>, \<open>FullConnection\<close> and \<open>ForceAlignment\<close> use it for the loops over flat arrays of the code.
  \<^item> \<open>CtcCriterion\<close> is the best path of connectionist temporal classification; \<open>CtcTheorems\<close> relates walks over the extended target to label
    sequences that collapse to it, shows that the code's moving bounds cover exactly the useful positions, and that the path returned
    collapses to the target.
  \<^item> \<open>Workspace\<close>: the arrays that the criteria cut from one block are aligned, inside it and disjoint.

  \<^bold>\<open>Linear sum assignment\<close> (\<^verbatim>\<open>lib/set/Hungarian.cpp\<close>), which matches predictions to targets in object detection.
  \<^item> \<open>Hungarian\<close> models the seven steps on flat arrays and the driver, a \<open>while_option\<close> loop that is \<open>None\<close> if it does not end. \<open>HungarianArrays\<close> says what each
    loop does to the arrays, \<open>HungarianMatching\<close> holds the arguments on sets of cells (covers, augmenting paths, potentials), \<open>HungarianInvariant\<close> the
    invariant before each step, \<open>HungarianTheorems\<close> the measure of the driver and the optimality of the result. Costs are reals.

  \<^bold>\<open>Datasets and meters\<close> (\<^verbatim>\<open>fl/dataset\<close>, \<^verbatim>\<open>fl/meter\<close>).
  \<^item> \<open>Datasets\<close> models the views, \<open>DatasetViews\<close> (locale \<open>dataset_view\<close>) what they represent; \<open>PrefetchDataset\<close>, \<open>Partition\<close>,
    \<open>DynamicPartition\<close>.
  \<^item> \<open>BlobDataset\<close> models the blob format and its two stores, \<open>BlobTheorems\<close> (locales \<open>blob_store\<close>, \<open>blob_copy\<close>) the round trip through a file and
    the concatenation of blobs.
  \<^item> \<open>EditDistanceMeter\<close>: the counts are those of an alignment with the fewest errors.

  \<^bold>\<open>Not modelled.\<close>
  The backward passes of the criteria and the CUDA kernels; per-thread file handles and locks of the blob datasets, whose calls are
  sequential here; the thread pool behind \<^verbatim>\<open>PrefetchDataset\<close>; formatting of output; adapters of external libraries
  (KenLM, sox, MPI, NCCL, gloo); tensors, operators over whole arrays, modules and optimisers, which forward to ArrayFire; the programs under \<^verbatim>\<open>app\<close>.
\<close>

end
